(* ===== verification/Prelude.thy ===== *)
theory Prelude
  imports Main "HOL-Library.Word"
begin

text \<open>
  The shared ground of the development: the machine types of the C++ sources, the collections
  of facts that the component proofs hand to the simplifier, and the generic lemmas on lists,
  association lists and words that several components use.

  The sources are built for a 64-bit little-endian target: \<open>size_t\<close> is 64 bits wide. An
  \<open>assert\<close> that fails, a call of \<open>std::abort\<close> and a read out of the bounds of an array are
  all the value \<open>None\<close> of an operation whose result type is an \<open>option\<close>: the two shipped
  binaries (\<open>build_all.sh\<close>) are built without \<open>NDEBUG\<close>, so assertions are live.
\<close>

unbundle bit_operations_syntax

type_synonym u8 = "8 word"
type_synonym u32 = "32 word"
type_synonym u64 = "64 word"

named_theorems codec_simps \<open>round trips and lengths of the byte codecs\<close>
named_theorems kv_simps \<open>the point-op store seen as a map\<close>
named_theorems reduce_simps \<open>reducers as folds over the selected values\<close>

section \<open>Lists\<close>

lemma take_upto_append [simp]: "take (length xs) (xs @ ys) = xs"
  by simp

lemma drop_upto_append [simp]: "drop (length xs) (xs @ ys) = ys"
  by simp

lemma map_nth_upt [simp]: "map ((!) xs) [0..<length xs] = xs"
  by (rule map_nth)

lemma fold_if_filter:
  "fold (\<lambda>x s. if P x then f x s else s) xs s = fold f (filter P xs) s"
  by (induction xs arbitrary: s) auto

lemma fold_nth_upt:
  "fold (\<lambda>i s. g (xs ! i) s) [0..<length xs] s = fold g xs s"
proof -
  have "fold g xs s = fold g (map ((!) xs) [0..<length xs]) s"
    by (simp only: map_nth)
  also have "\<dots> = fold (\<lambda>i s. g (xs ! i) s) [0..<length xs] s"
    by (simp only: fold_map comp_def)
  finally show ?thesis by (rule sym)
qed

lemma find_upt_Some_iff:
  "find P [0..<n] = Some p \<longleftrightarrow> p < n \<and> P p \<and> (\<forall>q < p. \<not> P q)"
  by (auto simp: find_Some_iff)

lemma find_upt_None_iff: "find P [0..<n] = None \<longleftrightarrow> (\<forall>q < n. \<not> P q)"
  by (auto simp: find_None_iff)

lemma length_filter_update_gain:
  "j < length xs \<Longrightarrow> \<not> P (xs ! j) \<Longrightarrow> P y \<Longrightarrow>
   length (filter P (xs[j := y])) = Suc (length (filter P xs))"
  by (induction xs arbitrary: j) (auto split: nat.splits)

lemma length_filter_update_same:
  "j < length xs \<Longrightarrow> P (xs ! j) \<Longrightarrow> P y \<Longrightarrow>
   length (filter P (xs[j := y])) = length (filter P xs)"
  by (induction xs arbitrary: j) (auto split: nat.splits)

lemma distinct_map_filter_nth:
  assumes "\<And>i j. i < length xs \<Longrightarrow> j < length xs \<Longrightarrow> P (xs ! i) \<Longrightarrow> P (xs ! j) \<Longrightarrow>
             f (xs ! i) = f (xs ! j) \<Longrightarrow> i = j"
  shows "distinct (map f (filter P xs))"
  using assms
proof (induction xs)
  case Nil
  show ?case by simp
next
  case (Cons x xs)
  have tl: "distinct (map f (filter P xs))"
  proof (rule Cons.IH)
    fix i j assume "i < length xs" "j < length xs" "P (xs ! i)" "P (xs ! j)" "f (xs ! i) = f (xs ! j)"
    then show "i = j" using Cons.prems [of "Suc i" "Suc j"] by simp
  qed
  have "f x \<notin> f ` {y \<in> set xs. P y}" if "P x"
  proof
    assume "f x \<in> f ` {y \<in> set xs. P y}"
    then obtain j where "j < length xs" "P (xs ! j)" "f x = f (xs ! j)"
      by (auto simp: in_set_conv_nth)
    with that show False using Cons.prems [of 0 "Suc j"] by simp
  qed
  with tl show ?case by simp
qed

text \<open>A loop whose body can abort.\<close>

fun opt_fold :: "('a \<Rightarrow> 's \<Rightarrow> 's option) \<Rightarrow> 'a list \<Rightarrow> 's \<Rightarrow> 's option" where
  "opt_fold f [] s = Some s"
| "opt_fold f (x # xs) s = (case f x s of None \<Rightarrow> None | Some s' \<Rightarrow> opt_fold f xs s')"

lemma opt_fold_append:
  "opt_fold f (xs @ ys) s = (case opt_fold f xs s of None \<Rightarrow> None | Some s' \<Rightarrow> opt_fold f ys s')"
  by (induction xs arbitrary: s) (auto split: option.splits)

lemma opt_fold_invariant:
  assumes "opt_fold f xs s = Some s'" "P s" "\<And>x s s'. x \<in> set xs \<Longrightarrow> P s \<Longrightarrow> f x s = Some s' \<Longrightarrow> P s'"
  shows "P s'"
  using assms
proof (induction xs arbitrary: s)
  case (Cons x xs)
  obtain t where t: "f x s = Some t" "opt_fold f xs t = Some s'"
    using Cons.prems(1) by (auto split: option.splits)
  have "P t" by (rule Cons.prems(3) [OF _ Cons.prems(2) t(1)]) simp
  then show ?case by (rule Cons.IH [OF t(2)]) (rule Cons.prems(3), simp_all)
qed simp

section \<open>Association lists: the unordered maps of the sources\<close>

text \<open>
  A \<open>std::unordered_map\<close> is an association list with distinct keys. Its order is the order in
  which the C++ container iterates, which the standard leaves open: every theorem holds for
  every order. \<open>al_upd\<close> is \<open>m[k] = v\<close>: it overwrites in place or adds one entry.
\<close>

fun al_upd :: "'k \<Rightarrow> 'v \<Rightarrow> ('k \<times> 'v) list \<Rightarrow> ('k \<times> 'v) list" where
  "al_upd k v [] = [(k, v)]"
| "al_upd k v ((k', v') # m) = (if k = k' then (k, v) # m else (k', v') # al_upd k v m)"

lemma map_of_al_upd [simp]: "map_of (al_upd k v m) = (map_of m)(k \<mapsto> v)"
  by (induction m) (auto simp: fun_eq_iff)

lemma keys_al_upd [simp]: "fst ` set (al_upd k v m) = insert k (fst ` set m)"
  by (induction m rule: al_upd.induct [of _ k v]) (simp_all add: insert_commute)

lemma distinct_al_upd [simp]: "distinct (map fst m) \<Longrightarrow> distinct (map fst (al_upd k v m))"
proof (induction m)
  case Nil
  show ?case by simp
next
  case (Cons p m)
  have "fst ` set (al_upd k v m) = insert k (fst ` set m)"
    by (rule keys_al_upd)
  with Cons show ?case by (cases p) auto
qed

lemma al_upd_keys_present:
  "k \<in> fst ` set m \<Longrightarrow> map fst (al_upd k v m) = map fst m"
  by (induction k v m rule: al_upd.induct) (auto simp: image_iff)

lemma al_upd_keys_absent:
  "k \<notin> fst ` set m \<Longrightarrow> al_upd k v m = m @ [(k, v)]"
  by (induction m) auto

lemma map_of_rev_distinct: "distinct (map fst kvs) \<Longrightarrow> map_of (rev kvs) = map_of kvs"
  by (rule ext) (metis distinct_rev map_of_eq_Some_iff option.exhaust rev_map set_rev)

text \<open>\<open>m[k]\<close> of an absent key reads a default.\<close>

definition the_default :: "'a \<Rightarrow> 'a option \<Rightarrow> 'a" where
  "the_default d x = (case x of None \<Rightarrow> d | Some v \<Rightarrow> v)"

lemma the_default_simps [simp]: "the_default d None = d" "the_default d (Some v) = v"
  by (simp_all add: the_default_def)

lemma al_upd_al_upd [simp]: "al_upd k v (al_upd k w m) = al_upd k v m"
  by (induction m) auto

lemma al_upd_same: "map_of m k = Some v \<Longrightarrow> al_upd k v m = m"
  by (induction m) (auto split: if_splits)

lemma al_upd_commute:
  assumes "k \<noteq> k'" "k \<in> fst ` set m"
  shows "al_upd k v (al_upd k' w m) = al_upd k' w (al_upd k v m)"
  using assms by (induction m) (force simp: image_iff)+

text \<open>
  A \<open>std::map\<close> is an association list in ascending key order. \<open>om_upd\<close> is \<open>m[k] = v\<close>.
\<close>

fun om_upd :: "'k::linorder \<Rightarrow> 'v \<Rightarrow> ('k \<times> 'v) list \<Rightarrow> ('k \<times> 'v) list" where
  "om_upd k v [] = [(k, v)]"
| "om_upd k v ((k', v') # m) =
     (if k < k' then (k, v) # (k', v') # m else if k = k' then (k, v) # m else (k', v') # om_upd k v m)"

lemma keys_om_upd [simp]: "fst ` set (om_upd k v m) = insert k (fst ` set m)"
  by (induction k v m rule: om_upd.induct) auto

lemma sorted_om_upd [simp]:
  "sorted_wrt (<) (map fst m) \<Longrightarrow> sorted_wrt (<) (map fst (om_upd k v m))"
proof (induction k v m rule: om_upd.induct)
  case (2 k v k' v' m)
  have "fst ` set (om_upd k v m) = insert k (fst ` set m)" by (rule keys_om_upd)
  with 2 show ?case by (auto simp: not_less)
qed simp

lemma map_of_om_upd [simp]:
  "sorted_wrt (<) (map fst m) \<Longrightarrow> map_of (om_upd k v m) = (map_of m)(k \<mapsto> v)"
  by (induction k v m rule: om_upd.induct) (auto simp: fun_eq_iff)

lemma fold_om_upd:
  assumes "sorted_wrt (<) (map fst m)"
  shows "sorted_wrt (<) (map fst (fold (\<lambda>(k, v). om_upd k v) kvs m))"
    "map_of (fold (\<lambda>(k, v). om_upd k v) kvs m) = map_of m ++ map_of (rev kvs)"
  using assms by (induction kvs arbitrary: m) auto

section \<open>Words\<close>

lemma unat_and_mask_less:
  fixes x :: "'a::len word"
  assumes "n < LENGTH('a)"
  shows "unat (x AND mask n) = unat x mod 2 ^ n"
  using assms
  by (simp add: take_bit_eq_mask [symmetric] unsigned_take_bit_eq del: take_bit_eq_mod)
     (simp add: take_bit_eq_mod)

lemma unat_mask_small:
  assumes "n < LENGTH('a)"
  shows "unat (mask n :: 'a::len word) = 2 ^ n - 1"
proof -
  have "unat (mask n :: 'a word) = mask n"
    using assms by (intro bit_eqI) (auto simp: bit_unsigned_iff bit_mask_iff)
  then show ?thesis by (simp add: mask_eq_exp_minus_1)
qed

lemma unat_of_nat_small: "n < 2 ^ LENGTH('a) \<Longrightarrow> unat (of_nat n :: 'a::len word) = n"
  by (simp add: unat_of_nat take_bit_nat_eq_self_iff)

lemma xor_cancel [simp]:
  fixes a b c :: "'a::len word"
  shows "(a XOR c = b XOR c) = (a = b)" "(c XOR a = c XOR b) = (a = b)"
  by (auto simp: bit_eq_iff bit_simps)

end
