(* ===== verification/GPU_Machine.thy ===== *)
theory GPU_Machine
  imports Prelude "HOL-Library.Multiset"
begin

text \<open>
  The execution of a CUDA kernel launch, as the kernels of \<open>compute_cuda.cuh\<close> use it: a grid of
  blocks of threads, one memory cell \<open>out\<close> in global memory and one \<open>__shared__\<close> cell per block, atomic
  operations, \<open>__syncthreads\<close>, and grid-stride loops over read-only columns. The hardware may run the
  threads in any order: a \<^emph>\<open>schedule\<close> is the list of the threads that move next, and the statements hold
  for all schedules. A move of a thread that waits at a barrier, or that has returned, has no effect.
\<close>

section \<open>Atomic operations\<close>

text \<open>
  \<open>Native f\<close> is a read-modify-write instruction. \<open>CasLoop stop upd\<close> is the loop around \<open>atomicCAS\<close>:
  load the cell; then, with \<open>assumed\<close> the value seen last, stop if \<open>stop assumed val\<close>, otherwise replace
  the cell by \<open>upd assumed val\<close> if it still holds \<open>assumed\<close>, or try again with the value found. An operation
  in progress has the state \<open>seen\<close>, \<open>None\<close> before the load. A step returns the new contents of the cell
  and, unless the operation is complete, the value seen.
\<close>

datatype 'a atomic_op = Native "'a \<Rightarrow> 'a \<Rightarrow> 'a" | CasLoop "'a \<Rightarrow> 'a \<Rightarrow> bool" "'a \<Rightarrow> 'a \<Rightarrow> 'a"

fun atomic_step :: "'a atomic_op \<Rightarrow> 'a \<Rightarrow> 'a option \<Rightarrow> 'a \<Rightarrow> 'a \<times> 'a option" where
  "atomic_step (Native f) val seen m = (f m val, None)"
| "atomic_step (CasLoop stop upd) val None m = (m, Some m)"
| "atomic_step (CasLoop stop upd) val (Some assumed) m =
     (if stop assumed val then (m, None)
      else if m = assumed then (upd assumed val, None)
      else (m, Some m))"

text \<open>What a complete operation amounts to.\<close>

fun atomic_sem :: "'a atomic_op \<Rightarrow> 'a \<Rightarrow> 'a \<Rightarrow> 'a" where
  "atomic_sem (Native f) m val = f m val"
| "atomic_sem (CasLoop stop upd) m val = (if stop m val then m else upd m val)"

section \<open>Block reductions\<close>

text \<open>
  The shape of the scalar kernels. Thread 0 of a block initialises the shared cell; after a barrier every
  thread runs a grid-stride loop that accumulates into a local variable, and combines it atomically
  into the shared cell; after a second barrier thread 0 combines the shared cell atomically into
  \<open>out\<close>. The record holds what differs: the number of rows, the number of strides an iteration advances,
  the initial value of the local variable and of the shared cell, the loop body (of the stride, the row and the
  local variable), and the atomic operation.
\<close>

record 'a reduce_kernel =
  rk_n :: nat
  rk_items :: nat
  rk_init :: 'a
  rk_body :: "nat \<Rightarrow> nat \<Rightarrow> 'a \<Rightarrow> 'a"
  rk_atomic :: "'a atomic_op"

datatype 'a thread =
  Start
| Wait1
| Loop nat 'a
| Reduce 'a "'a option"
| Wait2
| Publish 'a "'a option"
| Exit

record 'a grid =
  gr_out :: 'a
  gr_blk :: "nat \<Rightarrow> 'a"
  gr_thr :: "nat \<Rightarrow> nat \<Rightarrow> 'a thread"

definition set_thr :: "nat \<Rightarrow> nat \<Rightarrow> 'a thread \<Rightarrow> 'a grid \<Rightarrow> 'a grid" where
  "set_thr b t x s = s\<lparr>gr_thr := (gr_thr s)(b := (gr_thr s b)(t := x))\<rparr>"

definition set_blk :: "nat \<Rightarrow> 'a \<Rightarrow> 'a grid \<Rightarrow> 'a grid" where
  "set_blk b m s = s\<lparr>gr_blk := (gr_blk s)(b := m)\<rparr>"

fun reduced :: "'a thread \<Rightarrow> bool" where
  "reduced Wait2 = True"
| "reduced (Publish v seen) = True"
| "reduced Exit = True"
| "reduced _ = False"

text \<open>A barrier opens when every thread of the block has arrived.\<close>

definition barrier1 :: "nat \<Rightarrow> (nat \<Rightarrow> 'a thread) \<Rightarrow> bool" where
  "barrier1 T f = list_all (\<lambda>t. case f t of Start \<Rightarrow> False | _ \<Rightarrow> True) [0..<T]"

definition barrier2 :: "nat \<Rightarrow> (nat \<Rightarrow> 'a thread) \<Rightarrow> bool" where
  "barrier2 T f = list_all (\<lambda>t. reduced (f t)) [0..<T]"

definition thread_step :: "nat \<Rightarrow> nat \<Rightarrow> 'a reduce_kernel \<Rightarrow> nat \<times> nat \<Rightarrow> 'a grid \<Rightarrow> 'a grid option" where
  "thread_step B T k c s =
     (let b = fst c; t = snd c; f = gr_thr s b; stride = B * T in
      if b < B \<and> t < T then
        (case f t of
           Start \<Rightarrow> Some (set_thr b t Wait1 (if t = 0 then set_blk b (rk_init k) s else s))
         | Wait1 \<Rightarrow> if barrier1 T f then Some (set_thr b t (Loop (b * T + t) (rk_init k)) s) else None
         | Loop i l \<Rightarrow>
             Some (set_thr b t (if i < rk_n k then Loop (i + rk_items k * stride) (rk_body k stride i l) else Reduce l None) s)
         | Reduce l seen \<Rightarrow>
             (let (m, r) = atomic_step (rk_atomic k) l seen (gr_blk s b) in
              Some (set_thr b t (case r of None \<Rightarrow> Wait2 | Some a \<Rightarrow> Reduce l (Some a)) (set_blk b m s)))
         | Wait2 \<Rightarrow>
             if barrier2 T f then Some (set_thr b t (if t = 0 then Publish (gr_blk s b) None else Exit) s) else None
         | Publish v seen \<Rightarrow>
             (let (m, r) = atomic_step (rk_atomic k) v seen (gr_out s) in
              Some (set_thr b t (case r of None \<Rightarrow> Exit | Some a \<Rightarrow> Publish v (Some a)) (s\<lparr>gr_out := m\<rparr>)))
         | Exit \<Rightarrow> None)
      else None)"

definition schedule_step :: "nat \<Rightarrow> nat \<Rightarrow> 'a reduce_kernel \<Rightarrow> nat \<times> nat \<Rightarrow> 'a grid \<Rightarrow> 'a grid" where
  "schedule_step B T k c s = (case thread_step B T k c s of None \<Rightarrow> s | Some s' \<Rightarrow> s')"

definition run_grid :: "nat \<Rightarrow> nat \<Rightarrow> 'a reduce_kernel \<Rightarrow> (nat \<times> nat) list \<Rightarrow> 'a grid \<Rightarrow> 'a grid" where
  "run_grid B T k sched s = fold (schedule_step B T k) sched s"

definition grid_done :: "nat \<Rightarrow> nat \<Rightarrow> 'a grid \<Rightarrow> bool" where
  "grid_done B T s =
     list_all (\<lambda>b. list_all (\<lambda>t. case gr_thr s b t of Exit \<Rightarrow> True | _ \<Rightarrow> False) [0..<T]) [0..<B]"

text \<open>Shared memory is not initialised by the launch: \<open>junk\<close> is what it holds.\<close>

definition grid_start :: "(nat \<Rightarrow> 'a) \<Rightarrow> 'a \<Rightarrow> 'a grid" where
  "grid_start junk out = \<lparr>gr_out = out, gr_blk = junk, gr_thr = (\<lambda>b t. Start)\<rparr>"

text \<open>
  \<open>k<<<B, T>>>(\<dots>, &out)\<close> followed by a synchronisation: \<open>None\<close> stands for a schedule under which the launch
  is not complete yet.
\<close>

definition launch :: "nat \<Rightarrow> nat \<Rightarrow> 'a reduce_kernel \<Rightarrow> (nat \<Rightarrow> 'a) \<Rightarrow> (nat \<times> nat) list \<Rightarrow> 'a \<Rightarrow> 'a option" where
  "launch B T k junk sched out =
     (let s = run_grid B T k sched (grid_start junk out) in if grid_done B T s then Some (gr_out s) else None)"

section \<open>The rows of a thread\<close>

function strided :: "nat \<Rightarrow> nat \<Rightarrow> nat \<Rightarrow> nat list" where
  "strided i stride n = (if i < n \<and> 0 < stride then i # strided (i + stride) stride n else [])"
  by auto
termination by (relation "measure (\<lambda>(i, stride, n). n - i)") auto

declare strided.simps [simp del]

lemma set_strided: "0 < s \<Longrightarrow> set (strided i s n) = {j. i \<le> j \<and> j < n \<and> j mod s = i mod s}"
proof (induction i s n rule: strided.induct)
  case (1 i s n)
  show ?case
  proof (cases "i < n")
    case True
    have "j = i \<or> i + s \<le> j" if "i \<le> j" "j mod s = i mod s" for j
    proof -
      from that obtain q where "j = i + s * q" by (metis le_Suc_ex mod_eq_nat1E mod_mod_trivial that(1))
      then show ?thesis by (cases q) auto
    qed
    then show ?thesis using True 1 by (subst strided.simps) auto
  next
    case False
    then show ?thesis by (subst strided.simps) auto
  qed
qed

lemma sorted_strided: "sorted_wrt (<) (strided i s n) \<and> (\<forall>j \<in> set (strided i s n). i \<le> j)"
proof (induction i s n rule: strided.induct)
  case (1 i s n)
  then show ?case by (subst strided.simps, subst (2) strided.simps) fastforce
qed

lemma strided_filter:
  assumes "g < s"
  shows "strided g s n = filter (\<lambda>i. i mod s = g) [0..<n]"
proof (rule sorted_distinct_set_unique)
  have "g \<le> j" if "j mod s = g" for j using that by (metis mod_less_eq_dividend)
  then show "set (strided g s n) = set (filter (\<lambda>i. i mod s = g) [0..<n])"
    using assms by (auto simp: set_strided)
  show "sorted (strided g s n)" "distinct (strided g s n)"
    using sorted_strided [of g s n] by (auto simp: strict_sorted_iff)
qed (simp_all add: sorted_wrt_filter)

lemma mset_filter_classes:
  assumes "\<forall>x \<in> set xs. f x < (N :: nat)"
  shows "mset (concat (map (\<lambda>g. filter (\<lambda>x. f x = g) xs) [0..<N])) = mset xs"
proof -
  have "mset (concat (map (\<lambda>g. filter (\<lambda>x. f x = g) xs) [0..<m])) = mset (filter (\<lambda>x. f x < m) xs)" for m
  proof (induction m)
    case (Suc m)
    have "mset (filter (\<lambda>x. f x < Suc m) xs) = mset (filter (\<lambda>x. f x < m) xs) + mset (filter (\<lambda>x. f x = m) xs)"
      by (induction xs) auto
    with Suc show ?case by simp
  qed simp
  from this [of N] show ?thesis using assms by (simp add: filter_id_conv)
qed

text \<open>Every row belongs to exactly one thread.\<close>

lemma strided_partition:
  assumes "0 < s"
  shows "mset (concat (map (\<lambda>g. strided g s n) [0..<s])) = mset [0..<n]"
proof -
  have "map (\<lambda>g. strided g s n) [0..<s] = map (\<lambda>g. filter (\<lambda>i. i mod s = g) [0..<n]) [0..<s]"
    by (simp add: strided_filter)
  then show ?thesis using mset_filter_classes [of "[0..<n]" "\<lambda>i. i mod s" s] assms by (simp only: set_upt) simp
qed

lemma grid_ids: "concat (map (\<lambda>b. map (\<lambda>t. b * T + t) [0..<T]) [0..<B]) = [0..<B * T]"
proof (induction B)
  case (Suc B)
  have "map (\<lambda>t. B * T + t) [0..<T] = [B * T..<B * T + T]" by (rule nth_equalityI) simp_all
  moreover have "[0..<Suc B * T] = [0..<B * T] @ [B * T..<B * T + T]"
    using upt_add_eq_append [of 0 "B * T" T] by (simp add: add.commute)
  ultimately show ?case using Suc by simp
qed simp

lemma concat_map_concat: "concat (map (\<lambda>x. concat (map (f x) (g x))) xs) = concat (concat (map (\<lambda>x. map (f x) (g x)) xs))"
  by (induction xs) simp_all

lemma grid_partition:
  assumes "0 < B * T"
  shows "mset (concat (map (\<lambda>b. concat (map (\<lambda>t. strided (b * T + t) (B * T) n) [0..<T])) [0..<B])) = mset [0..<n]"
proof -
  have "concat (map (\<lambda>b. concat (map (\<lambda>t. strided (b * T + t) (B * T) n) [0..<T])) [0..<B]) =
      concat (map (\<lambda>g. strided g (B * T) n) (concat (map (\<lambda>b. map (\<lambda>t. b * T + t) [0..<T]) [0..<B])))"
    by (simp add: map_concat comp_def concat_map_concat)
  also have "\<dots> = concat (map (\<lambda>g. strided g (B * T) n) [0..<B * T])" by (simp only: grid_ids)
  finally show ?thesis using strided_partition [OF assms] by simp
qed

definition thread_local :: "nat \<Rightarrow> nat \<Rightarrow> 'a reduce_kernel \<Rightarrow> nat \<Rightarrow> nat \<Rightarrow> 'a" where
  "thread_local B T k b t =
     fold (rk_body k (B * T)) (strided (b * T + t) (rk_items k * (B * T)) (rk_n k)) (rk_init k)"

lemma barrier1_iff: "barrier1 T f \<longleftrightarrow> (\<forall>t < T. f t \<noteq> Start)"
  by (auto simp: barrier1_def list_all_iff split: thread.splits)

lemma barrier2_iff: "barrier2 T f \<longleftrightarrow> (\<forall>t < T. reduced (f t))"
  by (auto simp: barrier2_def list_all_iff)

lemma set_thr_blk: "set_thr b t x (set_blk b m s) = s\<lparr>gr_blk := (gr_blk s)(b := m), gr_thr := (gr_thr s)(b := (gr_thr s b)(t := x))\<rparr>"
  by (simp add: set_thr_def set_blk_def)

lemma set_blk_same: "set_blk b (gr_blk s b) s = s"
  by (simp add: set_blk_def)

lemma case_Exit: "(case x of Exit \<Rightarrow> True | _ \<Rightarrow> False) \<longleftrightarrow> x = Exit"
  by (cases x) auto

lemma grid_done_iff: "grid_done B T s \<longleftrightarrow> (\<forall>b < B. \<forall>t < T. gr_thr s b t = Exit)"
  by (auto simp: grid_done_def list_all_iff case_Exit)

lemma mset_upt_of_set: "distinct xs \<Longrightarrow> set xs = {..<n} \<Longrightarrow> mset xs = mset [0..<n]"
  by (simp add: set_eq_iff_mset_eq_distinct [symmetric] lessThan_atLeast0 del: mset_upt)

section \<open>Atomic operations take effect at one point\<close>

text \<open>
  The interface of an atomic operation to the kernels. \<open>good\<close> are the values the operation is used with;
  \<open>later m a\<close> says that a cell that once held \<open>a\<close> may hold \<open>m\<close> now. A loop around compare-and-swap that
  stops because of a value it saw earlier must have the right to do so on the present one.
\<close>

locale atomic_memory =
  fixes op :: "'a atomic_op" and good :: "'a \<Rightarrow> bool" and later :: "'a \<Rightarrow> 'a \<Rightarrow> bool"
  assumes sem_good: "good m \<Longrightarrow> good v \<Longrightarrow> good (atomic_sem op m v)"
    and later_refl: "good m \<Longrightarrow> later m m"
    and later_step: "good m \<Longrightarrow> good v \<Longrightarrow> later m a \<Longrightarrow> later (atomic_sem op m v) a"
    and stop_late: "good m \<Longrightarrow> good v \<Longrightarrow> later m a \<Longrightarrow> op = CasLoop stop upd \<Longrightarrow> stop a v \<Longrightarrow> stop m v"
begin

lemma atomic_step_effect:
  assumes "good m" "good v" "\<And>a. seen = Some a \<Longrightarrow> later m a" "atomic_step op v seen m = (m', r)"
  shows "r = None \<and> m' = atomic_sem op m v \<or> r = Some m \<and> m' = m"
proof (cases op)
  case (Native f)
  then show ?thesis using assms(4) by simp
next
  case (CasLoop stop upd)
  then show ?thesis
    using assms stop_late [OF assms(1,2) _ CasLoop] by (cases seen) (auto split: if_splits)
qed

definition gather_blk :: "nat \<Rightarrow> nat \<Rightarrow> 'a reduce_kernel \<Rightarrow> nat \<Rightarrow> nat list \<Rightarrow> 'a" where
  "gather_blk B T k b ts = fold (\<lambda>t m. atomic_sem op m (thread_local B T k b t)) ts (rk_init k)"

definition launch_ok :: "nat \<Rightarrow> nat \<Rightarrow> 'a reduce_kernel \<Rightarrow> 'a \<Rightarrow> bool" where
  "launch_ok B T k out0 \<longleftrightarrow> 0 < B \<and> 0 < T \<and> 0 < rk_items k \<and> rk_atomic k = op \<and> good (rk_init k) \<and> good out0 \<and>
     (\<forall>b < B. \<forall>t < T. good (thread_local B T k b t))"

text \<open>What a thread knows, given the two cells it works on.\<close>

fun thread_inv :: "nat \<Rightarrow> nat \<Rightarrow> 'a reduce_kernel \<Rightarrow> nat \<Rightarrow> nat \<Rightarrow> 'a \<Rightarrow> 'a \<Rightarrow> 'a thread \<Rightarrow> bool" where
  "thread_inv B T k b t out m (Loop i l) =
     (fold (rk_body k (B * T)) (strided i (rk_items k * (B * T)) (rk_n k)) l = thread_local B T k b t)"
| "thread_inv B T k b t out m (Reduce l seen) =
     (l = thread_local B T k b t \<and> (\<forall>a. seen = Some a \<longrightarrow> later m a))"
| "thread_inv B T k b t out m (Publish v seen) = (t = 0 \<and> v = m \<and> (\<forall>a. seen = Some a \<longrightarrow> later out a))"
| "thread_inv B T k b t out m _ = True"

definition block_inv :: "nat \<Rightarrow> nat \<Rightarrow> 'a reduce_kernel \<Rightarrow> nat \<Rightarrow> 'a \<Rightarrow> 'a \<Rightarrow> (nat \<Rightarrow> 'a thread) \<Rightarrow> nat list \<Rightarrow> bool" where
  "block_inv B T k b out m f ts \<longleftrightarrow>
     distinct ts \<and> set ts = {t. t < T \<and> reduced (f t)} \<and>
     (f 0 \<noteq> Start \<longrightarrow> m = gather_blk B T k b ts) \<and>
     ((\<exists>t < T. f t \<notin> {Start, Wait1}) \<longrightarrow> (\<forall>t < T. f t \<noteq> Start)) \<and>
     ((\<exists>t < T. reduced (f t) \<and> f t \<noteq> Wait2) \<longrightarrow> (\<forall>t < T. reduced (f t))) \<and>
     (\<forall>t < T. thread_inv B T k b t out m (f t))"

definition grid_inv :: "nat \<Rightarrow> nat \<Rightarrow> 'a reduce_kernel \<Rightarrow> 'a \<Rightarrow> (nat \<Rightarrow> nat list) \<Rightarrow> nat list \<Rightarrow> 'a grid \<Rightarrow> bool" where
  "grid_inv B T k out0 bl ol s \<longleftrightarrow>
     (\<forall>b < B. block_inv B T k b (gr_out s) (gr_blk s b) (gr_thr s b) (bl b)) \<and>
     distinct ol \<and> set ol = {b. b < B \<and> gr_thr s b 0 = Exit} \<and>
     gr_out s = fold (\<lambda>b m. atomic_sem op m (gr_blk s b)) ol out0"

lemma block_invD:
  assumes "block_inv B T k b out m f ts"
  shows "distinct ts" "set ts = {t. t < T \<and> reduced (f t)}" "f 0 \<noteq> Start \<Longrightarrow> m = gather_blk B T k b ts"
    and "t < T \<Longrightarrow> f t \<notin> {Start, Wait1} \<Longrightarrow> u < T \<Longrightarrow> f u \<noteq> Start"
    and "t < T \<Longrightarrow> reduced (f t) \<Longrightarrow> f t \<noteq> Wait2 \<Longrightarrow> u < T \<Longrightarrow> reduced (f u)"
    and "t < T \<Longrightarrow> thread_inv B T k b t out m (f t)"
  using assms unfolding block_inv_def by blast+

lemma fold_sem_good:
  "good m \<Longrightarrow> (\<And>x. x \<in> set xs \<Longrightarrow> good (h x)) \<Longrightarrow> good (fold (\<lambda>x m. atomic_sem op m (h x)) xs m)"
  by (induction xs arbitrary: m) (simp_all add: sem_good)

lemma block_good:
  assumes "launch_ok B T k out0" "b < B" "block_inv B T k b out m f ts" "f 0 \<noteq> Start"
  shows "good m"
proof -
  have m: "m = fold (\<lambda>t m. atomic_sem op m (thread_local B T k b t)) ts (rk_init k)" and "set ts \<subseteq> {..<T}"
    using assms(3,4) by (auto simp: block_inv_def gather_blk_def)
  then show ?thesis unfolding m using assms(1,2) by (intro fold_sem_good) (auto simp: launch_ok_def)
qed

lemma out_good:
  assumes "launch_ok B T k out0" "grid_inv B T k out0 bl ol s"
  shows "good (gr_out s)"
proof -
  have out: "gr_out s = fold (\<lambda>b m. atomic_sem op m (gr_blk s b)) ol out0" using assms(2) by (simp add: grid_inv_def)
  have "good (gr_blk s b)" if "b \<in> set ol" for b
    using that assms(2) block_good [OF assms(1), of b "gr_out s" "gr_blk s b" "gr_thr s b" "bl b"]
    by (auto simp: grid_inv_def)
  then show ?thesis unfolding out using assms(1) by (intro fold_sem_good) (auto simp: launch_ok_def)
qed

lemma block_inv_out:
  assumes "block_inv B T k b out m f ts" "\<And>a. later out a \<Longrightarrow> later out' a"
  shows "block_inv B T k b out' m f ts"
proof -
  have "thread_inv B T k b t out m x \<Longrightarrow> thread_inv B T k b t out' m x" for t x
    using assms(2) by (cases x) auto
  then show ?thesis using assms(1) by (simp add: block_inv_def)
qed

text \<open>One block, one thread: the moves that keep the shared cell.\<close>

lemma block_inv_thr:
  assumes inv: "block_inv B T k b out m f ts" "t < T"
    and same: "reduced y = reduced (f t)"
    and y: "y \<noteq> Start" "f t \<noteq> Start"
    and b1: "y \<notin> {Start, Wait1} \<Longrightarrow> f t \<notin> {Start, Wait1} \<or> barrier1 T f"
    and b2: "reduced y \<Longrightarrow> y \<noteq> Wait2 \<Longrightarrow> barrier2 T f"
    and th: "thread_inv B T k b t out m y"
  shows "block_inv B T k b out m (f(t := y)) ts"
  unfolding block_inv_def
proof (intro conjI impI)
  show "distinct ts" using inv(1) by (simp add: block_inv_def)
  show "set ts = {u. u < T \<and> reduced ((f(t := y)) u)}" using inv(1) same by (auto simp: block_inv_def)
  show "m = gather_blk B T k b ts" if "(f(t := y)) 0 \<noteq> Start"
    using that inv(1) y by (cases "t = 0") (auto simp: block_inv_def)
  show "\<forall>u < T. (f(t := y)) u \<noteq> Start" if "\<exists>u < T. (f(t := y)) u \<notin> {Start, Wait1}"
  proof -
    have "\<forall>u < T. f u \<noteq> Start"
      using that b1 inv unfolding block_inv_def barrier1_iff by (metis fun_upd_apply)
    then show ?thesis using y by simp
  qed
  show "\<forall>u < T. reduced ((f(t := y)) u)" if "\<exists>u < T. reduced ((f(t := y)) u) \<and> (f(t := y)) u \<noteq> Wait2"
  proof -
    have "\<forall>u < T. reduced (f u)"
      using that b2 inv unfolding block_inv_def barrier2_iff by (metis fun_upd_apply)
    then show ?thesis using same inv(2) by simp
  qed
  show "\<forall>u < T. thread_inv B T k b u out m ((f(t := y)) u)" using inv th by (simp add: block_inv_def)
qed

lemma block_inv_init:
  assumes "block_inv B T k b out m f ts" "t < T" "f t = Start"
  shows "block_inv B T k b out (if t = 0 then rk_init k else m) (f(t := Wait1)) ts"
proof -
  have early: "f u \<in> {Start, Wait1}" if "u < T" for u using assms that by (auto simp: block_inv_def)
  have nr: "\<not> reduced (f u)" if "u < T" for u using early [OF that] by auto
  then have ts: "ts = []" using block_invD(2) [OF assms(1)] by (simp add: set_empty [symmetric] del: set_empty)
  have th: "thread_inv B T k b u out m' ((f(t := Wait1)) u)" if "u < T" for u m'
    using early [OF that] by (auto simp: fun_upd_apply)
  show ?thesis
    unfolding block_inv_def
  proof (intro conjI impI)
    show "distinct ts" "set ts = {u. u < T \<and> reduced ((f(t := Wait1)) u)}" using ts nr by auto
    show "(if t = 0 then rk_init k else m) = gather_blk B T k b ts" if "(f(t := Wait1)) 0 \<noteq> Start"
      using that block_invD(3) [OF assms(1)] ts by (auto simp: gather_blk_def)
    show "\<forall>u < T. (f(t := Wait1)) u \<noteq> Start" if "\<exists>u < T. (f(t := Wait1)) u \<notin> {Start, Wait1}"
      using that early by (auto split: if_splits)
    show "\<forall>u < T. reduced ((f(t := Wait1)) u)" if "\<exists>u < T. reduced ((f(t := Wait1)) u) \<and> (f(t := Wait1)) u \<noteq> Wait2"
      using that nr by (auto split: if_splits)
    show "\<forall>u < T. thread_inv B T k b u out (if t = 0 then rk_init k else m) ((f(t := Wait1)) u)" using th by blast
  qed
qed

lemma block_inv_reduce:
  assumes ok: "launch_ok B T k out0" "b < B"
    and inv: "block_inv B T k b out m f ts" "t < T" "f t = Reduce l seen" "atomic_step op l seen m = (m', r)"
  shows "\<exists>ts'. block_inv B T k b out m' (f(t := case r of None \<Rightarrow> Wait2 | Some a \<Rightarrow> Reduce l (Some a))) ts'"
proof -
  note D = block_invD [OF inv(1)]
  have nr: "\<not> reduced (f t)" using inv(3) by simp
  have ns: "f u \<noteq> Start" if "u < T" for u using D(4) [OF inv(2) _ that] inv(3) by simp
  then have gm: "good m" using block_good [OF ok inv(1)] inv(2) by auto
  have l: "l = thread_local B T k b t" and seen: "\<And>a. seen = Some a \<Longrightarrow> later m a"
    using D(6) [OF inv(2)] inv(3) by simp_all
  then have gl: "good l" using ok inv(2) by (simp add: launch_ok_def)
  consider "r = None" "m' = atomic_sem op m l" | "r = Some m" "m' = m"
    using atomic_step_effect [OF gm gl seen inv(4)] by blast
  then show ?thesis
  proof cases
    case 2
    have "block_inv B T k b out m (f(t := Reduce l (Some m))) ts"
      using inv l later_refl [OF gm] by (intro block_inv_thr) auto
    then show ?thesis using 2 by auto
  next
    case 1
    have npub: "f u = Wait2" if "u < T" "reduced (f u)" for u
      using D(5) [OF that _ inv(2)] nr by blast
    have tsd: "set ts = {u. u < T \<and> reduced (f u)}" "distinct ts" "t \<notin> set ts"
      using D(1,2) nr by auto
    have th: "thread_inv B T k b u out (atomic_sem op m l) (f u)" if "u < T" "thread_inv B T k b u out m (f u)" for u
      using that npub [OF that(1)] later_step [OF gm gl] by (cases "f u") auto
    have "block_inv B T k b out m' (f(t := Wait2)) (ts @ [t])"
      unfolding block_inv_def
    proof (intro conjI impI)
      show "distinct (ts @ [t])" "set (ts @ [t]) = {u. u < T \<and> reduced ((f(t := Wait2)) u)}"
        using tsd inv(2) by auto
      show "m' = gather_blk B T k b (ts @ [t])" using inv(1) ns [of 0] inv(2) 1 l by (auto simp: block_inv_def gather_blk_def)
      show "\<forall>u < T. (f(t := Wait2)) u \<noteq> Start" using ns by simp
      show "\<forall>u < T. reduced ((f(t := Wait2)) u)" if "\<exists>u < T. reduced ((f(t := Wait2)) u) \<and> (f(t := Wait2)) u \<noteq> Wait2"
        using that npub by (auto split: if_splits)
      show "\<forall>u < T. thread_inv B T k b u out m' ((f(t := Wait2)) u)" using inv(1) th 1 by (simp add: block_inv_def)
    qed
    then show ?thesis using 1 by auto
  qed
qed

text \<open>The whole grid: a move changes one thread, and at most one of the two cells it works on.\<close>

lemma grid_inv_block:
  assumes inv: "grid_inv B T k out0 bl ol s" "b < B"
    and blk: "block_inv B T k b (gr_out s) m f ts"
    and exit: "f 0 = Exit \<longleftrightarrow> gr_thr s b 0 = Exit" "gr_thr s b 0 = Exit \<Longrightarrow> m = gr_blk s b"
  shows "grid_inv B T k out0 (bl(b := ts)) ol (s\<lparr>gr_blk := (gr_blk s)(b := m), gr_thr := (gr_thr s)(b := f)\<rparr>)"
proof -
  have "fold (\<lambda>c m. atomic_sem op m (((gr_blk s)(b := m')) c)) ol out0 = fold (\<lambda>c m. atomic_sem op m (gr_blk s c)) ol out0"
    if "gr_thr s b 0 = Exit \<Longrightarrow> m' = gr_blk s b" for m'
    using that inv(1) by (intro fold_cong) (auto simp: grid_inv_def)
  then show ?thesis using inv blk exit by (auto simp: grid_inv_def fun_upd_apply)
qed

lemma grid_inv_publish:
  assumes ok: "launch_ok B T k out0" and inv: "grid_inv B T k out0 bl ol s" and b: "b < B" "t < T"
    and th: "gr_thr s b t = Publish v seen" "atomic_step op v seen (gr_out s) = (m, r)"
  shows "\<exists>ol'. grid_inv B T k out0 bl ol'
    (set_thr b t (case r of None \<Rightarrow> Exit | Some a \<Rightarrow> Publish v (Some a)) (s\<lparr>gr_out := m\<rparr>))"
proof -
  have bi: "block_inv B T k c (gr_out s) (gr_blk s c) (gr_thr s c) (bl c)" if "c < B" for c
    using inv that unfolding grid_inv_def by blast
  note D = block_invD [OF bi [OF b(1)]]
  have v: "t = 0" "v = gr_blk s b" "\<And>a. seen = Some a \<Longrightarrow> later (gr_out s) a"
    using D(6) [OF b(2)] th(1) by simp_all
  have red: "reduced (gr_thr s b u)" if "u < T" for u using D(5) [OF b(2) _ _ that] th(1) by simp
  have go: "good (gr_out s)" by (rule out_good [OF ok inv])
  have gv: "good v" using block_good [OF ok b(1) bi [OF b(1)]] v th(1) by simp
  consider "r = None" "m = atomic_sem op (gr_out s) v" | "r = Some (gr_out s)" "m = gr_out s"
    using atomic_step_effect [OF go gv v(3) th(2)] by blast
  then show ?thesis
  proof cases
    case 2
    have "block_inv B T k b (gr_out s) (gr_blk s b) ((gr_thr s b)(t := Publish v (Some (gr_out s)))) (bl b)"
      using bi [OF b(1)] b(2) th v red later_refl [OF go]
      by (intro block_inv_thr) (auto simp: barrier2_iff)
    from grid_inv_block [OF inv b(1) this] have
      "grid_inv B T k out0 bl ol (s\<lparr>gr_thr := (gr_thr s)(b := (gr_thr s b)(t := Publish v (Some (gr_out s))))\<rparr>)"
      using th(1) v(1) by simp
    then show ?thesis using 2 by (auto simp: set_thr_def)
  next
    case 1
    have oth: "block_inv B T k c m (gr_blk s c) (gr_thr s c) (bl c)" if "c < B" for c
      using block_inv_out [OF bi [OF that], of m] later_step [OF go gv] 1 by simp
    have "block_inv B T k b m (gr_blk s b) ((gr_thr s b)(t := Exit)) (bl b)"
      using oth [OF b(1)] b(2) th red by (intro block_inv_thr) (auto simp: barrier2_iff)
    then have "grid_inv B T k out0 bl (ol @ [b]) (set_thr b t Exit (s\<lparr>gr_out := m\<rparr>))"
      using inv oth th(1) v 1 b by (auto simp: grid_inv_def set_thr_def fun_upd_apply split: if_splits)
    then show ?thesis using 1 by auto
  qed
qed

lemma grid_inv_step:
  assumes ok: "launch_ok B T k out0" and inv: "grid_inv B T k out0 bl ol s"
    and step: "thread_step B T k (b, t) s = Some s'"
  shows "\<exists>bl' ol'. grid_inv B T k out0 bl' ol' s'"
proof -
  have b: "b < B" "t < T" using step by (auto simp: thread_step_def Let_def split: if_splits)
  have at: "rk_atomic k = op" and pos: "0 < rk_items k * (B * T)" using ok b by (simp_all add: launch_ok_def)
  have bi: "block_inv B T k b (gr_out s) (gr_blk s b) (gr_thr s b) (bl b)"
    using inv b unfolding grid_inv_def by blast
  note D = block_invD [OF bi]
  have keep: "\<exists>bl' ol'. grid_inv B T k out0 bl' ol' (set_thr b t y (set_blk b m s))"
    if "block_inv B T k b (gr_out s) m ((gr_thr s b)(t := y)) ts"
      "t = 0 \<Longrightarrow> (y = Exit \<longleftrightarrow> gr_thr s b t = Exit)" "gr_thr s b 0 = Exit \<Longrightarrow> m = gr_blk s b" for y m ts
  proof -
    have "((gr_thr s b)(t := y)) 0 = Exit \<longleftrightarrow> gr_thr s b 0 = Exit" using that(2) by (cases "t = 0") auto
    from grid_inv_block [OF inv b(1) that(1) this that(3)] show ?thesis unfolding set_thr_blk by blast
  qed
  have keep': "\<exists>bl' ol'. grid_inv B T k out0 bl' ol' (set_thr b t y s)"
    if "block_inv B T k b (gr_out s) (gr_blk s b) ((gr_thr s b)(t := y)) ts"
      "t = 0 \<Longrightarrow> (y = Exit \<longleftrightarrow> gr_thr s b t = Exit)" for y ts
    using keep [OF that] by (simp add: set_blk_same)
  show ?thesis
  proof (cases "gr_thr s b t")
    case Start
    have "gr_thr s b 0 \<noteq> Exit" using D(4) [of 0 t] b Start by auto
    then show ?thesis
      using step b Start keep [OF block_inv_init [OF bi b(2) Start]]
      by (auto simp: thread_step_def Let_def set_blk_same split: if_splits)
  next
    case Wait1
    then have w: "barrier1 T (gr_thr s b)" "s' = set_thr b t (Loop (b * T + t) (rk_init k)) s"
      using step b by (auto simp: thread_step_def Let_def split: if_splits)
    show ?thesis unfolding w(2)
      by (rule keep' [OF block_inv_thr [OF bi b(2)]]) (use w(1) Wait1 in \<open>auto simp: thread_local_def\<close>)
  next
    case (Loop i l)
    have l: "fold (rk_body k (B * T)) (strided i (rk_items k * (B * T)) (rk_n k)) l = thread_local B T k b t"
      using D(6) [OF b(2)] Loop by simp
    define y where "y = (if i < rk_n k then Loop (i + rk_items k * (B * T)) (rk_body k (B * T) i l) else Reduce l None)"
    have "thread_inv B T k b t (gr_out s) (gr_blk s b) y"
      using l pos by (subst (asm) strided.simps) (auto simp: y_def split: if_splits)
    moreover have "s' = set_thr b t y s" using step b Loop by (simp add: thread_step_def Let_def y_def)
    moreover have "\<not> reduced y" "y \<notin> {Start, Wait1, Exit}" by (auto simp: y_def)
    ultimately show ?thesis
      using Loop by (auto intro!: keep' [OF block_inv_thr [OF bi b(2), of y]])
  next
    case (Reduce l seen)
    obtain m r where mr: "atomic_step op l seen (gr_blk s b) = (m, r)" by fastforce
    obtain ts where ts: "block_inv B T k b (gr_out s) m ((gr_thr s b)(t := case r of None \<Rightarrow> Wait2 | Some a \<Rightarrow> Reduce l (Some a))) ts"
      using block_inv_reduce [OF ok b(1) bi b(2) Reduce mr] by blast
    have "gr_thr s b 0 \<noteq> Exit" using D(5) [of 0 t] b Reduce by auto
    then show ?thesis
      using step b keep [OF ts] Reduce mr at by (auto simp: thread_step_def Let_def split: option.splits)
  next
    case Wait2
    then have w: "barrier2 T (gr_thr s b)" "s' = set_thr b t (if t = 0 then Publish (gr_blk s b) None else Exit) s"
      using step b by (auto simp: thread_step_def Let_def split: if_splits)
    show ?thesis unfolding w(2)
      by (rule keep' [OF block_inv_thr [OF bi b(2)]]) (use w(1) Wait2 in \<open>auto split: if_splits\<close>)
  next
    case (Publish v seen)
    obtain m r where mr: "atomic_step op v seen (gr_out s) = (m, r)" by fastforce
    then show ?thesis
      using step b Publish at grid_inv_publish [OF ok inv b Publish mr] by (auto simp: thread_step_def Let_def)
  next
    case Exit
    then show ?thesis using step b by (simp add: thread_step_def)
  qed
qed

lemma grid_inv_run:
  assumes "launch_ok B T k out0" "grid_inv B T k out0 bl ol s"
  shows "\<exists>bl' ol'. grid_inv B T k out0 bl' ol' (run_grid B T k sched s)"
  using assms(2)
proof (induction sched arbitrary: bl ol s)
  case Nil
  then show ?case by (auto simp: run_grid_def)
next
  case (Cons c sched)
  have "\<exists>bl' ol'. grid_inv B T k out0 bl' ol' (schedule_step B T k c s)"
    using Cons.prems grid_inv_step [OF assms(1) Cons.prems, of "fst c" "snd c"]
    by (auto simp: schedule_step_def split: option.splits)
  then obtain bl' ol' where "grid_inv B T k out0 bl' ol' (schedule_step B T k c s)" by blast
  from Cons.IH [OF this] show ?case by (simp add: run_grid_def)
qed

text \<open>
  The result of a complete launch: the values of the threads combined within each block in some order,
  and the blocks combined in some order.
\<close>

lemma launch_orders:
  assumes ok: "launch_ok B T k out0" and fin: "launch B T k junk sched out0 = Some r"
  shows "\<exists>bl ol. (\<forall>b < B. mset (bl b) = mset [0..<T]) \<and> mset ol = mset [0..<B] \<and>
    r = fold (\<lambda>b m. atomic_sem op m (gather_blk B T k b (bl b))) ol out0"
proof -
  let ?s = "run_grid B T k sched (grid_start junk out0)"
  have "grid_inv B T k out0 (\<lambda>_. []) [] (grid_start junk out0)"
    by (auto simp: grid_inv_def block_inv_def grid_start_def)
  then obtain bl ol where inv: "grid_inv B T k out0 bl ol ?s" using grid_inv_run [OF ok] by blast
  have r: "r = gr_out ?s" and "grid_done B T ?s" using fin by (auto simp: launch_def Let_def split: if_splits)
  then have ex: "gr_thr ?s b t = Exit" if "b < B" "t < T" for b t using that by (simp add: grid_done_iff)
  have T: "0 < T" using ok by (simp add: launch_ok_def)
  have bi: "block_inv B T k b (gr_out ?s) (gr_blk ?s b) (gr_thr ?s b) (bl b)" if "b < B" for b
    using inv that unfolding grid_inv_def by blast
  have blk: "gr_blk ?s b = gather_blk B T k b (bl b)" "mset (bl b) = mset [0..<T]" if b: "b < B" for b
  proof -
    note D = block_invD [OF bi [OF b]]
    show "gr_blk ?s b = gather_blk B T k b (bl b)" using D(3) ex [OF b T] by simp
    have "set (bl b) = {..<T}" using D(2) ex [OF b] by auto
    then show "mset (bl b) = mset [0..<T]" by (rule mset_upt_of_set [OF D(1)])
  qed
  have ol: "distinct ol" "set ol = {..<B}" "gr_out ?s = fold (\<lambda>b m. atomic_sem op m (gr_blk ?s b)) ol out0"
    using inv ex T unfolding grid_inv_def by auto
  have "r = fold (\<lambda>b m. atomic_sem op m (gather_blk B T k b (bl b))) ol out0"
    unfolding r ol(3) using ol(2) blk(1) by (intro fold_cong) auto
  moreover have "mset ol = mset [0..<B]" using ol(1,2) by (rule mset_upt_of_set)
  ultimately show ?thesis using blk(2) by blast
qed

end

section \<open>Launches complete\<close>

text \<open>
  A bound on the number of moves: what a thread has still to do if its compare-and-swaps succeed, plus the
  number of threads whose last seen value is out of date. A failed compare-and-swap brings one up to
  date; a change of a cell makes at most all of them out of date, which its weight pays for.
\<close>

fun cost :: "nat \<Rightarrow> nat \<Rightarrow> 'a thread \<Rightarrow> nat" where
  "cost N n Exit = 0"
| "cost N n (Publish v seen) = N + (if seen = None then 3 else 2)"
| "cost N n Wait2 = N + 4"
| "cost N n (Reduce l seen) = 2 * N + (if seen = None then 7 else 6)"
| "cost N n (Loop i l) = 2 * N + 8 + (n - i)"
| "cost N n Wait1 = 2 * N + 9 + n"
| "cost N n Start = 3 * N + 11 + n"

fun stale :: "'a \<Rightarrow> 'a \<Rightarrow> 'a thread \<Rightarrow> bool" where
  "stale out m (Reduce l (Some a)) = (m \<noteq> a)"
| "stale out m (Publish v (Some a)) = (out \<noteq> a)"
| "stale out m _ = False"

definition work :: "nat \<Rightarrow> nat \<Rightarrow> 'a reduce_kernel \<Rightarrow> 'a grid \<Rightarrow> nat" where
  "work B T k s =
     (\<Sum>c \<in> {..<B} \<times> {..<T}. cost (B * T) (rk_n k) (gr_thr s (fst c) (snd c))) +
     (\<Sum>c \<in> {..<B} \<times> {..<T}. of_bool (stale (gr_out s) (gr_blk s (fst c)) (gr_thr s (fst c) (snd c))))"

lemma sum_of_bool_le: "finite A \<Longrightarrow> (\<Sum>c \<in> A. of_bool (P c)) \<le> card A"
  using sum_bounded_above [of A "\<lambda>c. of_bool (P c)" "1 :: nat"] by simp

lemma potential_less:
  fixes w w' :: "'c \<Rightarrow> nat"
  assumes A: "finite A" "c \<in> A"
    and other: "\<And>d. d \<in> A \<Longrightarrow> d \<noteq> c \<Longrightarrow> w' d = w d"
    and drop: "w' c + card A < w c \<or>
      (\<forall>d \<in> A. d \<noteq> c \<longrightarrow> p' d = p d) \<and> w' c + of_bool (p' c) < w c + of_bool (p c)"
  shows "(\<Sum>d \<in> A. w' d) + (\<Sum>d \<in> A. of_bool (p' d)) < (\<Sum>d \<in> A. w d) + (\<Sum>d \<in> A. of_bool (p d))"
proof -
  have split: "(\<Sum>d \<in> A. f d) = f c + (\<Sum>d \<in> A - {c}. f d)" for f :: "'c \<Rightarrow> nat" by (rule sum.remove [OF A])
  have w: "(\<Sum>d \<in> A - {c}. w' d) = (\<Sum>d \<in> A - {c}. w d)" by (intro sum.cong) (auto simp: other)
  show ?thesis
    using drop
  proof
    assume d: "w' c + card A < w c"
    have "(\<Sum>d \<in> A. of_bool (p' d)) \<le> card A" by (rule sum_of_bool_le [OF A(1)])
    then show ?thesis using d w split [of w'] split [of w] by linarith
  next
    assume d: "(\<forall>d \<in> A. d \<noteq> c \<longrightarrow> p' d = p d) \<and> w' c + of_bool (p' c) < w c + of_bool (p c)"
    have "(\<Sum>d \<in> A - {c}. of_bool (p' d)) = (\<Sum>d \<in> A - {c}. of_bool (p d) :: nat)" using d by (intro sum.cong) auto
    then show ?thesis
      using conjunct2 [OF d] w split [of w'] split [of w] split [of "\<lambda>d. of_bool (p' d)"] split [of "\<lambda>d. of_bool (p d)"]
      by linarith
  qed
qed

lemma work_less:
  assumes c: "b < B" "t < T"
    and other: "\<And>c u. (c, u) \<noteq> (b, t) \<Longrightarrow> gr_thr s' c u = gr_thr s c u"
    and drop: "cost (B * T) (rk_n k) (gr_thr s' b t) + B * T < cost (B * T) (rk_n k) (gr_thr s b t) \<or>
      gr_out s' = gr_out s \<and> gr_blk s' = gr_blk s \<and>
      cost (B * T) (rk_n k) (gr_thr s' b t) + of_bool (stale (gr_out s') (gr_blk s' b) (gr_thr s' b t)) <
      cost (B * T) (rk_n k) (gr_thr s b t) + of_bool (stale (gr_out s) (gr_blk s b) (gr_thr s b t))"
  shows "work B T k s' < work B T k s"
proof -
  have other': "gr_thr s' (fst d) (snd d) = gr_thr s (fst d) (snd d)" if "d \<noteq> (b, t)" for d
    using other [of "fst d" "snd d"] that by (metis prod.collapse)
  show ?thesis
    unfolding work_def by (rule potential_less [of _ "(b, t)"]) (use c drop other' in auto)
qed

lemma set_thr_simps [simp]:
  "gr_out (set_thr b t x s) = gr_out s" "gr_blk (set_thr b t x s) = gr_blk s"
  "gr_thr (set_thr b t x s) c u = (if c = b \<and> u = t then x else gr_thr s c u)"
  by (auto simp: set_thr_def)

lemma set_blk_simps [simp]:
  "gr_out (set_blk b m s) = gr_out s" "gr_blk (set_blk b m s) = (gr_blk s)(b := m)" "gr_thr (set_blk b m s) = gr_thr s"
  by (simp_all add: set_blk_def)

text \<open>A step of an atomic operation completes it, or leaves the cell alone and brings the value seen up to date.\<close>

lemma atomic_step_progress:
  assumes "atomic_step op v seen m = (m', r)"
  shows "r = None \<or> m' = m \<and> r = Some m \<and> (seen = None \<or> (\<exists>a. seen = Some a \<and> a \<noteq> m))"
  using assms by (cases "(op, v, seen, m)" rule: atomic_step.cases) (auto split: if_splits)

lemma thread_step_work:
  assumes "thread_step B T k (b, t) s = Some s'" "0 < rk_items k"
  shows "work B T k s' < work B T k s"
proof -
  have c: "b < B" "t < T" using assms(1) by (auto simp: thread_step_def Let_def split: if_splits)
  have other: "gr_thr s' d u = gr_thr s d u" if "(d, u) \<noteq> (b, t)" for d u
    using assms(1) that by (auto simp: thread_step_def Let_def split: if_splits thread.splits prod.splits)
  have stride: "n - (i + rk_items k * (B * T)) < n - i" if "i < n" for n i
    using assms(2) c that by (intro diff_less_mono2) auto
  show ?thesis
  proof (rule work_less [OF c other], goal_cases)
    case 2
    show ?case
    proof (cases "gr_thr s b t")
      case (Loop i l)
      then show ?thesis using assms(1) c stride [of i "rk_n k"] by (cases "i < rk_n k") (auto simp: thread_step_def Let_def)
    next
      case (Reduce l seen)
      obtain m r where mr: "atomic_step (rk_atomic k) l seen (gr_blk s b) = (m, r)" by fastforce
      then show ?thesis using assms(1) c Reduce atomic_step_progress [OF mr]
        by (auto simp: thread_step_def Let_def set_blk_same)
    next
      case (Publish v seen)
      obtain m r where mr: "atomic_step (rk_atomic k) v seen (gr_out s) = (m, r)" by fastforce
      then show ?thesis using assms(1) c Publish atomic_step_progress [OF mr]
        by (auto simp: thread_step_def Let_def)
    qed (use assms(1) c in \<open>auto simp: thread_step_def Let_def split: if_splits\<close>)
  qed
qed

text \<open>No launch gets stuck.\<close>

lemma not_stuck:
  assumes "\<not> grid_done B T s"
  shows "\<exists>c. thread_step B T k c s \<noteq> None"
proof (rule ccontr)
  assume "\<not> ?thesis"
  then have none: "thread_step B T k (b, t) s = None" for b t by blast
  obtain b t where bt: "b < B" "t < T" "gr_thr s b t \<noteq> Exit" using assms by (auto simp: grid_done_iff)
  have wait: "gr_thr s b u \<in> {Wait1, Wait2, Exit}" if "u < T" for u
    using none [of b u] that bt(1)
    by (auto simp: thread_step_def Let_def split: thread.splits if_splits prod.splits)
  then have "barrier1 T (gr_thr s b)" unfolding barrier1_iff by fastforce
  then have "gr_thr s b u \<noteq> Wait1" if "u < T" for u
    using none [of b u] that bt(1) by (auto simp: thread_step_def Let_def)
  then have red: "gr_thr s b u \<in> {Wait2, Exit}" if "u < T" for u using wait that by blast
  have "barrier2 T (gr_thr s b)" unfolding barrier2_iff using red by fastforce
  then show False using none [of b t] bt red [OF bt(2)] by (auto simp: thread_step_def Let_def split: if_splits)
qed

fun moves :: "nat \<Rightarrow> nat \<Rightarrow> 'a reduce_kernel \<Rightarrow> (nat \<times> nat) list \<Rightarrow> 'a grid \<Rightarrow> nat" where
  "moves B T k [] s = 0"
| "moves B T k (c # sched) s =
     (case thread_step B T k c s of None \<Rightarrow> moves B T k sched s | Some s' \<Rightarrow> Suc (moves B T k sched s'))"

lemma moves_bounded: "0 < rk_items k \<Longrightarrow> moves B T k sched s + work B T k (run_grid B T k sched s) \<le> work B T k s"
proof (induction sched arbitrary: s)
  case (Cons c sched)
  obtain b t where c: "c = (b, t)" by fastforce
  have r: "run_grid B T k (c # sched) s = run_grid B T k sched (schedule_step B T k c s)" by (simp add: run_grid_def)
  show ?case
  proof (cases "thread_step B T k c s")
    case None
    then show ?thesis using r Cons.IH [OF Cons.prems, of s] by (simp add: schedule_step_def)
  next
    case (Some s')
    then show ?thesis
      using r Cons.IH [OF Cons.prems, of s'] thread_step_work [OF _ Cons.prems, of B T b t s s'] c
      by (simp add: schedule_step_def)
  qed
qed (simp add: run_grid_def)

lemma run_completes:
  assumes "0 < rk_items k"
  shows "\<exists>sched. grid_done B T (run_grid B T k sched s)"
proof (induction "work B T k s" arbitrary: s rule: less_induct)
  case less
  show ?case
  proof (cases "grid_done B T s")
    case True
    then show ?thesis by (auto simp: run_grid_def intro: exI [of _ "[]"])
  next
    case False
    then obtain b t s' where st: "thread_step B T k (b, t) s = Some s'" using not_stuck by fast
    obtain sched where "grid_done B T (run_grid B T k sched s')"
      using less thread_step_work [OF st assms] by blast
    then have "grid_done B T (run_grid B T k ((b, t) # sched) s)"
      using st by (simp add: run_grid_def schedule_step_def)
    then show ?thesis by blast
  qed
qed

end
