(* ===== verification/Bytes.thy ===== *)
theory Bytes
  imports Prelude
begin

text \<open>
  The byte layout of machine integers. The sources move integers to and from byte buffers by
  \<open>memcpy\<close>, \<open>fwrite\<close> and pointer casts, which on the little-endian target is the little-endian
  encoding of \<open>le_encode\<close>; \<open>le_decode\<close> reads one back.
\<close>

fun le_encode :: "nat \<Rightarrow> 'a::len word \<Rightarrow> u8 list" where
  "le_encode 0 w = []"
| "le_encode (Suc n) w = ucast w # le_encode n (drop_bit 8 w)"

fun le_decode :: "u8 list \<Rightarrow> 'a::len word" where
  "le_decode [] = 0"
| "le_decode (b # bs) = ucast b OR push_bit 8 (le_decode bs)"

abbreviation u32_bytes :: "u32 \<Rightarrow> u8 list" where
  "u32_bytes \<equiv> le_encode 4"

abbreviation u64_bytes :: "u64 \<Rightarrow> u8 list" where
  "u64_bytes \<equiv> le_encode 8"

lemma length_le_encode [simp, codec_simps]: "length (le_encode n w) = n"
  by (induction n arbitrary: w) auto

lemma le_decode_encode:
  fixes w :: "'a::len word"
  shows "le_decode (le_encode n w) = take_bit (8 * n) w"
proof (induction n arbitrary: w)
  case 0
  show ?case by simp
next
  case (Suc n)
  have "ucast (ucast w :: u8) OR push_bit 8 (take_bit (8 * n) (drop_bit 8 w)) = take_bit (8 * Suc n) w"
    by (rule bit_word_eqI) (auto simp: bit_simps)
  with Suc.IH show ?case by simp
qed

lemma le_decode_encode_full [simp, codec_simps]:
  fixes w :: "'a::len word"
  assumes "8 * n = LENGTH('a)"
  shows "le_decode (le_encode n w) = w"
  using assms by (simp add: le_decode_encode)

lemma u32_roundtrip [simp]: "le_decode (u32_bytes w) = w"
  by (rule le_decode_encode_full) simp

lemma u64_roundtrip [simp]: "le_decode (u64_bytes w) = w"
  by (rule le_decode_encode_full) simp

lemma le_encode_decode:
  assumes "8 * length bs \<le> LENGTH('a)"
  shows "le_encode (length bs) (le_decode bs :: 'a::len word) = bs"
  using assms
proof (induction bs)
  case Nil
  show ?case by simp
next
  case (Cons b bs)
  have small: "8 + 8 * length bs \<le> LENGTH('a)"
    using Cons.prems by simp
  have hd: "ucast (ucast b OR push_bit 8 (le_decode bs) :: 'a word) = b"
    using small by (intro bit_word_eqI) (auto simp: bit_simps)
  have bound: "le_decode bs = (take_bit (8 * length bs) (le_decode bs) :: 'a word)"
    using Cons.IH small le_decode_encode [of "length bs" "le_decode bs :: 'a word"] by simp
  have tl: "drop_bit 8 (ucast b OR push_bit 8 (le_decode bs) :: 'a word) = le_decode bs"
    (is "?l = _")
  proof (rule bit_word_eqI)
    fix n assume n: "n < LENGTH('a)"
    have "bit (le_decode bs :: 'a word) n \<Longrightarrow> n < 8 * length bs"
      by (subst (asm) bound) (simp add: bit_simps)
    with n small show "bit ?l n = bit (le_decode bs :: 'a word) n"
      by (auto simp: bit_simps dest: bit_imp_le_length)
  qed
  have IH: "le_encode (length bs) (le_decode bs :: 'a word) = bs"
    using Cons.IH small by simp
  show ?case
    by (simp only: list.size add_0_right add_Suc_right le_decode.simps le_encode.simps hd tl IH)
qed

lemma le_encode_4:
  "le_encode 4 w = [ucast w, ucast (drop_bit 8 w), ucast (drop_bit 16 w), ucast (drop_bit 24 w)]"
proof -
  have "(4::nat) = Suc (Suc (Suc (Suc 0)))" by simp
  then show ?thesis by (simp only: le_encode.simps drop_bit_drop_bit) simp
qed

end
