(* ===== verification/Disk.thy ===== *)
theory Disk
  imports Bytes
begin

text \<open>
  The files the engine persists to. A disk maps paths to the bytes of the files; three fields
  describe the environment, which the program does not control: \<open>dk_writable\<close> says for which
  paths \<open>fopen\<close> in a writing mode and \<open>rename\<close> succeed, \<open>dk_quota\<close> bounds the size a file can
  reach, so that writing beyond it is short, and \<open>dk_eager\<close> says when the C library hands a
  stream's buffer to the file. Reading is taking bytes off the front of the file: \<open>fread\<close> delivers
  an item completely or not at all.
\<close>

record disk =
  dk_files :: "string \<rightharpoonup> u8 list"
  dk_writable :: "string \<Rightarrow> bool"
  dk_quota :: "string \<Rightarrow> nat"
  dk_eager :: "string \<Rightarrow> nat \<Rightarrow> bool"

definition fread :: "nat \<Rightarrow> u8 list \<Rightarrow> (u8 list \<times> u8 list) option" where
  "fread n bs = (if length bs < n then None else Some (take n bs, drop n bs))"

definition file_bytes :: "string \<Rightarrow> disk \<Rightarrow> u8 list" where
  "file_bytes p d = (case dk_files d p of None \<Rightarrow> [] | Some bs \<Rightarrow> bs)"

text \<open>\<open>fopen\<close> with mode \<open>ab\<close> creates a missing file and keeps an existing one; \<open>wb\<close> empties it.\<close>

definition fopen_ab :: "string \<Rightarrow> disk \<Rightarrow> disk option" where
  "fopen_ab p d =
     (if dk_writable d p then Some (d\<lparr>dk_files := (dk_files d)(p \<mapsto> file_bytes p d)\<rparr>) else None)"

definition fopen_wb :: "string \<Rightarrow> disk \<Rightarrow> disk option" where
  "fopen_wb p d = (if dk_writable d p then Some (d\<lparr>dk_files := (dk_files d)(p \<mapsto> [])\<rparr>) else None)"

text \<open>\<open>fwrite\<close> at the end of a file, with whether every byte was written.\<close>

definition fwrite :: "string \<Rightarrow> u8 list \<Rightarrow> disk \<Rightarrow> bool \<times> disk" where
  "fwrite p bs d =
     (let room = dk_quota d p - length (file_bytes p d)
      in (length bs \<le> room, d\<lparr>dk_files := (dk_files d)(p \<mapsto> file_bytes p d @ take room bs)\<rparr>))"

text \<open>
  A sequence of \<open>fwrite\<close> calls that stops at the first failure (\<open>ok = ok && fwrite(...)\<close>), on a stream
  with a buffer. A call that only fills the buffer succeeds; one that makes the library write the
  buffer out reports whether all of it reached the file. \<open>fclose\<close> (and \<open>fflush\<close>) writes the rest.
\<close>

fun stream_write :: "string \<Rightarrow> u8 list list \<Rightarrow> u8 list \<times> disk \<Rightarrow> bool \<times> u8 list \<times> disk" where
  "stream_write p [] (buf, d) = (True, buf, d)"
| "stream_write p (bs # bss) (buf, d) =
     (let buf' = buf @ bs in
      if dk_eager d p (length (file_bytes p d) + length buf') then
        (let (ok, d') = fwrite p buf' d in if ok then stream_write p bss ([], d') else (False, [], d'))
      else stream_write p bss (buf', d))"

definition stream_close :: "string \<Rightarrow> u8 list \<times> disk \<Rightarrow> bool \<times> disk" where
  "stream_close p s = fwrite p (fst s) (snd s)"

definition rename_file :: "string \<Rightarrow> string \<Rightarrow> disk \<Rightarrow> disk option" where
  "rename_file p q d =
     (if dk_writable d q \<and> dk_files d p \<noteq> None
      then Some (d\<lparr>dk_files := (dk_files d)(q := dk_files d p, p := None)\<rparr>) else None)"

definition remove_file :: "string \<Rightarrow> disk \<Rightarrow> disk" where
  "remove_file p d = d\<lparr>dk_files := (dk_files d)(p := None)\<rparr>"

section \<open>Crash points\<close>

text \<open>
  A run also lists the disks the operation passes through: what a crash inside it can leave. Opening,
  renaming and truncating are atomic; writing out a buffer can be cut after every byte. \<open>None\<close> is an abort.
\<close>

type_synonym 'a run = "disk list \<times> 'a option"

definition run_bind :: "'a run \<Rightarrow> ('a \<Rightarrow> 'b run) \<Rightarrow> 'b run" where
  "run_bind m f = (case snd m of None \<Rightarrow> (fst m, None) | Some x \<Rightarrow> (fst m @ fst (f x), snd (f x)))"

definition fwrite_cuts :: "string \<Rightarrow> u8 list \<Rightarrow> disk \<Rightarrow> disk list" where
  "fwrite_cuts p bs d =
     map (\<lambda>k. d\<lparr>dk_files := (dk_files d)(p \<mapsto> file_bytes p d @ take k bs)\<rparr>)
       [0..<Suc (min (length bs) (dk_quota d p - length (file_bytes p d)))]"

fun stream_write_cuts :: "string \<Rightarrow> u8 list list \<Rightarrow> u8 list \<times> disk \<Rightarrow> disk list" where
  "stream_write_cuts p [] (buf, d) = []"
| "stream_write_cuts p (bs # bss) (buf, d) =
     (let buf' = buf @ bs in
      if dk_eager d p (length (file_bytes p d) + length buf') then
        fwrite_cuts p buf' d @
        (let (ok, d') = fwrite p buf' d in if ok then stream_write_cuts p bss ([], d') else [])
      else stream_write_cuts p bss (buf', d))"

definition stream_close_cuts :: "string \<Rightarrow> u8 list \<times> disk \<Rightarrow> disk list" where
  "stream_close_cuts p s = fwrite_cuts p (fst s) (snd s)"

section \<open>Lemmas\<close>

lemma fread_append [simp, codec_simps]: "length xs = n \<Longrightarrow> fread n (xs @ ys) = Some (xs, ys)"
  by (auto simp: fread_def)

lemma fread_exact [simp, codec_simps]: "length xs = n \<Longrightarrow> fread n xs = Some (xs, [])"
  by (simp add: fread_def)

lemma fread_short [simp]: "length xs < n \<Longrightarrow> fread n xs = None"
  by (simp add: fread_def)

lemma fread_SomeD: "fread n bs = Some (x, y) \<Longrightarrow> bs = x @ y \<and> length x = n"
  by (auto simp: fread_def split: if_splits)

lemma fread_length: "fread n bs = Some (x, y) \<Longrightarrow> length bs = n + length y"
  by (auto dest: fread_SomeD)

lemma file_bytes_upd [simp]:
  "file_bytes p (d\<lparr>dk_files := (dk_files d)(q \<mapsto> bs)\<rparr>) = (if p = q then bs else file_bytes p d)"
  by (simp add: file_bytes_def)

lemma fwrite_fits:
  assumes "length (file_bytes p d) + length bs \<le> dk_quota d p"
  shows "fwrite p bs d = (True, d\<lparr>dk_files := (dk_files d)(p \<mapsto> file_bytes p d @ bs)\<rparr>)"
  using assms by (auto simp: fwrite_def)

lemma fwrite_env [simp]:
  "dk_quota (snd (fwrite p bs d)) = dk_quota d" "dk_writable (snd (fwrite p bs d)) = dk_writable d"
  "dk_eager (snd (fwrite p bs d)) = dk_eager d"
  by (simp_all add: fwrite_def Let_def)

lemma fwrite_other [simp]: "q \<noteq> p \<Longrightarrow> dk_files (snd (fwrite p bs d)) q = dk_files d q"
  by (simp add: fwrite_def Let_def)

lemma fwrite_append:
  assumes "length (file_bytes p d) + length bs \<le> dk_quota d p"
  shows "fst (fwrite p bs d)" "file_bytes p (snd (fwrite p bs d)) = file_bytes p d @ bs"
  by (simp_all add: fwrite_fits [OF assms])

text \<open>A stream that the disk has room for delivers every byte, whatever the buffering.\<close>

lemma stream_write_fits:
  assumes "length (file_bytes p d) + length (buf @ concat bss) \<le> dk_quota d p"
  shows "\<exists>buf' d'. stream_write p bss (buf, d) = (True, buf', d') \<and>
    file_bytes p d' @ buf' = file_bytes p d @ buf @ concat bss \<and>
    dk_quota d' = dk_quota d \<and> dk_writable d' = dk_writable d \<and> dk_eager d' = dk_eager d \<and>
    (\<forall>q. q \<noteq> p \<longrightarrow> dk_files d' q = dk_files d q)"
  using assms
proof (induction bss arbitrary: buf d)
  case Nil
  then show ?case by simp
next
  case (Cons bs bss)
  show ?case
  proof (cases "dk_eager d p (length (file_bytes p d) + length (buf @ bs))")
    case True
    have fits: "length (file_bytes p d) + length (buf @ bs) \<le> dk_quota d p" using Cons.prems by simp
    let ?d = "snd (fwrite p (buf @ bs) d)"
    have "length (file_bytes p ?d) + length ([] @ concat bss) \<le> dk_quota ?d p"
      using Cons.prems by (simp add: fwrite_append [OF fits])
    from Cons.IH [OF this] show ?thesis
      using True fwrite_append [OF fits] by (auto simp: Let_def case_prod_unfold)
  next
    case False
    then show ?thesis using Cons.IH [of d "buf @ bs"] Cons.prems by (auto simp: Let_def)
  qed
qed

lemma stream_roundtrip:
  assumes "length (file_bytes p d) + length (concat bss) \<le> dk_quota d p"
  obtains s where "stream_write p bss ([], d) = (True, s)"
    "dk_files (snd (stream_close p s)) = (dk_files d)(p \<mapsto> file_bytes p d @ concat bss)"
    "dk_quota (snd (stream_close p s)) = dk_quota d" "dk_writable (snd (stream_close p s)) = dk_writable d"
    "dk_eager (snd (stream_close p s)) = dk_eager d"
proof -
  obtain buf d' where s: "stream_write p bss ([], d) = (True, buf, d')"
    "file_bytes p d' @ buf = file_bytes p d @ concat bss" "dk_quota d' = dk_quota d" "dk_writable d' = dk_writable d"
    "dk_eager d' = dk_eager d" "\<forall>q. q \<noteq> p \<longrightarrow> dk_files d' q = dk_files d q"
    using stream_write_fits [of p d "[]" bss] assms by auto
  have fits: "length (file_bytes p d') + length buf \<le> dk_quota d' p"
    using assms s(2,3) by (metis length_append)
  have "dk_files (snd (stream_close p (buf, d'))) = (dk_files d)(p \<mapsto> file_bytes p d @ concat bss)"
    using s(2,6) by (auto simp: stream_close_def fwrite_fits [OF fits] fun_eq_iff)
  with s show thesis by (intro that [of "(buf, d')"]) (simp_all add: stream_close_def)
qed

text \<open>Until it is closed a stream changes the file it is open on, and nothing else.\<close>

definition differs_at :: "string \<Rightarrow> disk \<Rightarrow> disk \<Rightarrow> bool" where
  "differs_at p d d' \<longleftrightarrow> (\<exists>f. d' = d\<lparr>dk_files := (dk_files d)(p := f)\<rparr>)"

lemma differs_at_trans: "differs_at p d d1 \<Longrightarrow> differs_at p d1 d2 \<Longrightarrow> differs_at p d d2"
  by (auto simp: differs_at_def)

lemma differs_at_upd [simp]: "differs_at p d (d\<lparr>dk_files := (dk_files d)(p := f)\<rparr>)"
  by (auto simp: differs_at_def)

lemma differs_at_fwrite [simp]: "differs_at p d (snd (fwrite p bs d))"
  by (simp add: fwrite_def Let_def)

lemma differs_at_cuts: "d' \<in> set (fwrite_cuts p bs d) \<Longrightarrow> differs_at p d d'"
  by (auto simp: fwrite_cuts_def)

lemma differs_at_stream:
  "(\<forall>d' \<in> set (stream_write_cuts p bss (buf, d)). differs_at p d d') \<and> differs_at p d (snd (snd (stream_write p bss (buf, d))))"
proof (induction bss arbitrary: buf d)
  case Nil
  show ?case using differs_at_upd [of p d "dk_files d p"] by simp
next
  case (Cons bs bss)
  have w: "differs_at p d (snd (fwrite p (buf @ bs) d))" by (rule differs_at_fwrite)
  show ?case
    using Cons.IH [of "buf @ bs" d] Cons.IH [of "[]" "snd (fwrite p (buf @ bs) d)"] w
    by (auto simp: Let_def case_prod_unfold dest: differs_at_cuts intro: differs_at_trans [OF w])
qed

lemma differs_at_close:
  "differs_at p d (snd s) \<Longrightarrow> d' \<in> set (stream_close_cuts p s) \<Longrightarrow> differs_at p d d'"
  by (auto simp: stream_close_cuts_def intro: differs_at_trans dest: differs_at_cuts)

lemma run_bind_outcome [simp]: "snd (run_bind m f) = Option.bind (snd m) (\<lambda>x. snd (f x))"
  by (simp add: run_bind_def split: option.split)

lemma run_bind_disks: "snd m = Some x \<Longrightarrow> fst (run_bind m f) = fst m @ fst (f x)"
  by (simp add: run_bind_def)

end
