(* ===== verification/Cold_Store.thy ===== *)
theory Cold_Store
  imports Disk "HOL-Library.Sublist"
begin

text \<open>
  The write-ahead log of \<open>cold_store.hpp\<close>. A record is
  \<open>[u32 length][u32 crc32(payload)][payload]\<close>; the payload is a 20-byte put
  (\<open>key\<close>, \<open>value\<close>, \<open>opcode\<close>) or the 4-byte commit marker. The theory models the checksum, the
  constructor, the appends, \<open>truncate\<close> and \<open>replay\<close> on the bytes of the file, and relates the byte
  log to the sequence of logical operations \<open>wal_op\<close> it was written by.
\<close>

section \<open>The log\<close>

datatype sync_policy = SYNC_EACH | SYNC_OFF

record cold_store =
  cs_path :: string
  cs_policy :: sync_policy
  cs_records_written :: u64

definition OP_READ :: u32 where "OP_READ = 1"
definition OP_WRITE :: u32 where "OP_WRITE = 2"
definition OP_SCAN :: u32 where "OP_SCAN = 3"
definition OP_TXN_WRITE :: u32 where "OP_TXN_WRITE = 4"

definition MATRIX_WAL_PAYLOAD_BYTES :: u32 where "MATRIX_WAL_PAYLOAD_BYTES = 20"
definition MATRIX_WAL_MAX_RECORD :: u32 where "MATRIX_WAL_MAX_RECORD = 4096"
definition MATRIX_WAL_COMMIT_BYTES :: u32 where "MATRIX_WAL_COMMIT_BYTES = 4"
definition MATRIX_WAL_COMMIT :: u32 where "MATRIX_WAL_COMMIT = 0x434F4D4D"

lemmas wal_consts = OP_READ_def OP_WRITE_def OP_SCAN_def OP_TXN_WRITE_def MATRIX_WAL_PAYLOAD_BYTES_def
  MATRIX_WAL_MAX_RECORD_def MATRIX_WAL_COMMIT_BYTES_def MATRIX_WAL_COMMIT_def

definition crc_bit :: "u32 \<Rightarrow> u32" where
  "crc_bit crc = (if crc AND 1 \<noteq> 0 then drop_bit 1 crc XOR 0xEDB88320 else drop_bit 1 crc)"

definition crc_byte :: "u8 \<Rightarrow> u32 \<Rightarrow> u32" where
  "crc_byte b crc = (crc_bit ^^ 8) (crc XOR ucast b)"

definition matrix_crc32 :: "u8 list \<Rightarrow> u32" where
  "matrix_crc32 data = fold crc_byte data 0xFFFFFFFF XOR 0xFFFFFFFF"

text \<open>The constructor aborts when the file cannot be opened: the value \<open>None\<close>.\<close>

definition ColdStore :: "string \<Rightarrow> sync_policy \<Rightarrow> disk \<Rightarrow> (cold_store \<times> disk) option" where
  "ColdStore path policy d =
     map_option (\<lambda>d'. (\<lparr>cs_path = path, cs_policy = policy, cs_records_written = 0\<rparr>, d')) (fopen_ab path d)"

text \<open>
  The three \<open>fwrite\<close> calls of an append fill one stream buffer that \<open>fflush\<close> hands to the file;
  their results are not checked.
\<close>

definition wal_record :: "u8 list \<Rightarrow> u8 list" where
  "wal_record payload =
     u32_bytes (of_nat (length payload)) @ u32_bytes (matrix_crc32 payload) @ payload"

definition append_payload :: "u8 list \<Rightarrow> cold_store \<Rightarrow> disk \<Rightarrow> cold_store \<times> disk" where
  "append_payload payload cs d =
     (cs\<lparr>cs_records_written := cs_records_written cs + 1\<rparr>,
      snd (fwrite (cs_path cs) (wal_record payload) d))"

definition append_record :: "u32 \<Rightarrow> u64 \<Rightarrow> u64 \<Rightarrow> cold_store \<Rightarrow> disk \<Rightarrow> cold_store \<times> disk" where
  "append_record opcode key v = append_payload (u64_bytes key @ u64_bytes v @ u32_bytes opcode)"

definition append_put :: "u64 \<Rightarrow> u64 \<Rightarrow> cold_store \<Rightarrow> disk \<Rightarrow> cold_store \<times> disk" where
  "append_put = append_record OP_WRITE"

definition append_txn_put :: "u64 \<Rightarrow> u64 \<Rightarrow> cold_store \<Rightarrow> disk \<Rightarrow> cold_store \<times> disk" where
  "append_txn_put = append_record OP_TXN_WRITE"

definition append_commit :: "cold_store \<Rightarrow> disk \<Rightarrow> cold_store \<times> disk" where
  "append_commit = append_payload (u32_bytes MATRIX_WAL_COMMIT)"

definition wal_truncate_run :: "cold_store \<Rightarrow> disk \<Rightarrow> (cold_store \<times> disk) run" where
  "wal_truncate_run cs d =
     (case fopen_wb (cs_path cs) d of None \<Rightarrow> ([], None)
      | Some d1 \<Rightarrow> (case fopen_ab (cs_path cs) d1 of None \<Rightarrow> ([d1], None)
        | Some d2 \<Rightarrow> ([d1, d2], Some (cs\<lparr>cs_records_written := 0\<rparr>, d2))))"

definition wal_truncate :: "cold_store \<Rightarrow> disk \<Rightarrow> (cold_store \<times> disk) option" where
  "wal_truncate cs d = snd (wal_truncate_run cs d)"

text \<open>
  One intact record: what it makes \<open>replay\<close> apply, and the transactional puts that stay buffered.
  Records of another length, opcode or magic number are skipped.
\<close>

definition replay_record ::
  "u32 \<Rightarrow> u8 list \<Rightarrow> (u64 \<times> u64) list \<Rightarrow> (u64 \<times> u64) list \<times> (u64 \<times> u64) list" where
  "replay_record len buf txn =
     (if len = MATRIX_WAL_PAYLOAD_BYTES then
        let opcode = le_decode (take 4 (drop 16 buf)) :: u32;
            key = le_decode (take 8 buf); v = le_decode (take 8 (drop 8 buf))
        in if opcode = OP_WRITE then ([(key, v)], txn)
           else if opcode = OP_TXN_WRITE then ([], txn @ [(key, v)])
           else ([], txn)
      else if len = MATRIX_WAL_COMMIT_BYTES then
        (if le_decode (take 4 buf) = MATRIX_WAL_COMMIT then (txn, []) else ([], txn))
      else ([], txn))"

text \<open>
  \<open>replay\<close> calls its callback on pairs in a fixed order that does not depend on the callback: the
  model returns that sequence. The loop ends at the end of the file or at the first record that
  is torn or whose checksum does not match.
\<close>

function replay_loop :: "(u64 \<times> u64) list \<Rightarrow> u8 list \<Rightarrow> (u64 \<times> u64) list" where
  "replay_loop txn bs =
     (case fread 4 bs of None \<Rightarrow> [] | Some (l, bs1) \<Rightarrow>
        let len = le_decode l :: u32 in
        if len = 0 \<or> MATRIX_WAL_MAX_RECORD < len then [] else
        (case fread 4 bs1 of None \<Rightarrow> [] | Some (c, bs2) \<Rightarrow>
          (case fread (unat len) bs2 of None \<Rightarrow> [] | Some (buf, bs3) \<Rightarrow>
            if matrix_crc32 buf \<noteq> le_decode c then []
            else let (applied, txn') = replay_record len buf txn in applied @ replay_loop txn' bs3)))"
  by pat_completeness auto
termination
  by (relation "measure (\<lambda>(txn, bs). length bs)") (auto dest!: fread_length)

declare replay_loop.simps [simp del]

definition replay :: "cold_store \<Rightarrow> disk \<Rightarrow> (u64 \<times> u64) list" where
  "replay cs d = (case dk_files d (cs_path cs) of None \<Rightarrow> [] | Some bs \<Rightarrow> replay_loop [] bs)"

section \<open>The log as a sequence of operations\<close>

datatype wal_op = Put u64 u64 | TxnPut u64 u64 | Commit

fun op_payload :: "wal_op \<Rightarrow> u8 list" where
  "op_payload (Put k v) = u64_bytes k @ u64_bytes v @ u32_bytes OP_WRITE"
| "op_payload (TxnPut k v) = u64_bytes k @ u64_bytes v @ u32_bytes OP_TXN_WRITE"
| "op_payload Commit = u32_bytes MATRIX_WAL_COMMIT"

definition op_bytes :: "wal_op \<Rightarrow> u8 list" where
  "op_bytes x = wal_record (op_payload x)"

definition log_bytes :: "wal_op list \<Rightarrow> u8 list" where
  "log_bytes ops = concat (map op_bytes ops)"

text \<open>What a log means: plain puts take effect at once, transactional ones at the next commit.\<close>

fun log_effect :: "(u64 \<times> u64) list \<Rightarrow> wal_op list \<Rightarrow> (u64 \<times> u64) list" where
  "log_effect txn [] = []"
| "log_effect txn (Put k v # ops) = (k, v) # log_effect txn ops"
| "log_effect txn (TxnPut k v # ops) = log_effect (txn @ [(k, v)]) ops"
| "log_effect txn (Commit # ops) = txn @ log_effect [] ops"


section \<open>Replaying whole, torn and corrupt records\<close>

lemma record_length_word:
  assumes "0 < n" "n \<le> 4096"
  shows "unat (of_nat n :: u32) = n" "(of_nat n :: u32) \<noteq> 0" "\<not> MATRIX_WAL_MAX_RECORD < of_nat n"
proof -
  show n: "unat (of_nat n :: u32) = n"
    using assms by (intro unat_of_nat_small) simp
  show "(of_nat n :: u32) \<noteq> 0" using n assms(1) by (metis neq0_conv unat_0)
  show "\<not> MATRIX_WAL_MAX_RECORD < of_nat n"
    using n assms(2) by (simp add: MATRIX_WAL_MAX_RECORD_def word_less_nat_alt)
qed

lemma replay_loop_frame:
  assumes "0 < length buf" "length buf \<le> 4096"
  shows "replay_loop txn (u32_bytes (of_nat (length buf)) @ u32_bytes crc @ buf @ rest) =
    (if matrix_crc32 buf \<noteq> crc then []
     else let (applied, txn') = replay_record (of_nat (length buf)) buf txn
          in applied @ replay_loop txn' rest)"
  by (subst replay_loop.simps) (simp add: record_length_word [OF assms])

lemma replay_loop_record:
  assumes "0 < length buf" "length buf \<le> 4096"
  shows "replay_loop txn (wal_record buf @ rest) =
    (let (applied, txn') = replay_record (of_nat (length buf)) buf txn in applied @ replay_loop txn' rest)"
  using replay_loop_frame [OF assms, of txn "matrix_crc32 buf" rest] by (simp add: wal_record_def)

lemma replay_loop_torn:
  assumes "0 < length buf" "length buf \<le> 4096" "strict_prefix bs (wal_record buf)"
  shows "replay_loop txn bs = []"
proof -
  let ?n = "length bs" and ?len = "u32_bytes (of_nat (length buf))" and ?crc = "u32_bytes (matrix_crc32 buf)"
  obtain zs where zs: "?len @ ?crc @ buf = bs @ zs" "zs \<noteq> []"
    using assms(3) by (auto simp: wal_record_def strict_prefix_def prefix_def)
  have bs: "bs = take ?n (?len @ ?crc @ buf)" by (simp only: zs(1) take_upto_append)
  have "length (?len @ ?crc @ buf) = ?n + length zs" by (simp only: zs(1) length_append)
  with zs(2) have n: "?n < 8 + length buf" by (cases zs) auto
  consider "?n < 4" | "4 \<le> ?n" "?n < 8" | "8 \<le> ?n" by linarith
  then show ?thesis
  proof cases
    case 1
    then show ?thesis by (subst replay_loop.simps) simp
  next
    case 2
    then have "bs = ?len @ take (?n - 4) ?crc" by (subst bs) simp
    then obtain c where "bs = ?len @ c" "length c < 4" using 2 by simp
    then show ?thesis by (subst replay_loop.simps) (simp add: Let_def)
  next
    case 3
    then have "bs = ?len @ ?crc @ take (?n - 8) buf" by (subst bs) simp
    then obtain c where "bs = ?len @ ?crc @ c" "length c < length buf" using 3 n by simp
    then show ?thesis
      by (subst replay_loop.simps) (simp add: record_length_word [OF assms(1,2)])
  qed
qed

lemma op_payload_length: "length (op_payload x) = (case x of Commit \<Rightarrow> 4 | _ \<Rightarrow> 20)"
  by (cases x) simp_all

lemma op_payload_bounds: "0 < length (op_payload x)" "length (op_payload x) \<le> 4096"
  by (simp_all add: op_payload_length split: wal_op.splits)

lemma length_op_bytes: "length (op_bytes x) = (case x of Commit \<Rightarrow> 12 | _ \<Rightarrow> 28)"
  by (simp add: op_bytes_def wal_record_def op_payload_length split: wal_op.splits)

lemma replay_record_op:
  "replay_record (of_nat (length (op_payload x))) (op_payload x) txn =
     (case x of Put k v \<Rightarrow> ([(k, v)], txn) | TxnPut k v \<Rightarrow> ([], txn @ [(k, v)]) | Commit \<Rightarrow> (txn, []))"
  by (cases x) (simp_all add: replay_record_def wal_consts)

lemma replay_loop_op:
  "replay_loop txn (op_bytes x @ rest) =
     (case x of Put k v \<Rightarrow> (k, v) # replay_loop txn rest
      | TxnPut k v \<Rightarrow> replay_loop (txn @ [(k, v)]) rest
      | Commit \<Rightarrow> txn @ replay_loop [] rest)"
  unfolding op_bytes_def replay_loop_record [OF op_payload_bounds] replay_record_op
  by (simp split: wal_op.splits)

lemma replay_loop_Nil [simp]: "replay_loop txn [] = []"
  by (subst replay_loop.simps) simp

fun log_pending :: "(u64 \<times> u64) list \<Rightarrow> wal_op list \<Rightarrow> (u64 \<times> u64) list" where
  "log_pending txn [] = txn"
| "log_pending txn (Put k v # ops) = log_pending txn ops"
| "log_pending txn (TxnPut k v # ops) = log_pending (txn @ [(k, v)]) ops"
| "log_pending txn (Commit # ops) = log_pending [] ops"

lemma log_effect_append:
  "log_effect txn (xs @ ys) = log_effect txn xs @ log_effect (log_pending txn xs) ys"
  by (induction txn xs rule: log_effect.induct) simp_all

lemma log_pending_append: "log_pending txn (xs @ ys) = log_pending (log_pending txn xs) ys"
  by (induction txn xs rule: log_pending.induct) simp_all

lemma replay_loop_log_append:
  "replay_loop txn (log_bytes ops @ rest) = log_effect txn ops @ replay_loop (log_pending txn ops) rest"
  by (induction txn ops rule: log_effect.induct) (simp_all add: log_bytes_def replay_loop_op)

lemma replay_loop_log: "replay_loop txn (log_bytes ops) = log_effect txn ops"
  using replay_loop_log_append [of txn ops "[]"] by simp

lemma log_bytes_append [simp]: "log_bytes (xs @ ys) = log_bytes xs @ log_bytes ys"
  by (simp add: log_bytes_def)

lemma log_bytes_Cons: "log_bytes (x # xs) = op_bytes x @ log_bytes xs"
  by (simp add: log_bytes_def)

text \<open>A prefix of a byte log is a whole number of records and a torn one.\<close>

lemma prefix_log_bytes:
  assumes "prefix bs (log_bytes ops)"
  obtains m torn where "m \<le> length ops" "bs = log_bytes (take m ops) @ torn"
    "torn = [] \<or> (m < length ops \<and> strict_prefix torn (op_bytes (ops ! m)))"
  using assms
proof (induction ops arbitrary: bs thesis)
  case Nil
  then show ?case by (simp add: log_bytes_def)
next
  case (Cons x ops)
  have "prefix bs (op_bytes x) \<or> (\<exists>rest. bs = op_bytes x @ rest \<and> prefix rest (log_bytes ops))"
    using Cons.prems(2) by (simp add: log_bytes_Cons prefix_append)
  then consider "strict_prefix bs (op_bytes x)"
    | rest where "bs = op_bytes x @ rest" "prefix rest (log_bytes ops)"
    by (metis append_Nil2 prefix_bot.extremum prefix_order.le_imp_less_or_eq)
  then show ?case
  proof cases
    case 1
    then show ?thesis using Cons.prems(1) [of 0 bs] by (simp add: log_bytes_def)
  next
    case (2 rest)
    obtain m torn where "m \<le> length ops" "rest = log_bytes (take m ops) @ torn"
      "torn = [] \<or> (m < length ops \<and> strict_prefix torn (op_bytes (ops ! m)))"
      using Cons.IH [OF _ 2(2)] by blast
    then show ?thesis using Cons.prems(1) [of "Suc m" torn] 2(1) by (simp add: log_bytes_Cons)
  qed
qed

lemma replay_loop_prefix:
  assumes "prefix bs (log_bytes ops)"
  obtains m where "m \<le> length ops" "replay_loop txn bs = log_effect txn (take m ops)"
    "length (log_bytes (take m ops)) \<le> length bs"
    "m < length ops \<Longrightarrow> length bs < length (log_bytes (take (Suc m) ops))"
proof -
  obtain m torn where m: "m \<le> length ops" "bs = log_bytes (take m ops) @ torn"
    and torn: "torn = [] \<or> (m < length ops \<and> strict_prefix torn (op_bytes (ops ! m)))"
    using assms by (rule prefix_log_bytes)
  have "replay_loop t torn = []" for t
    using torn replay_loop_torn [OF op_payload_bounds] by (auto simp: op_bytes_def)
  then have "replay_loop txn bs = log_effect txn (take m ops)"
    by (simp add: m(2) replay_loop_log_append)
  moreover have "length bs < length (log_bytes (take (Suc m) ops))" if "m < length ops"
  proof -
    have "length torn < length (op_bytes (ops ! m))"
      using torn prefix_length_less [of torn "op_bytes (ops ! m)"] length_op_bytes [of "ops ! m"]
      by (auto split: wal_op.splits)
    then show ?thesis using that by (simp add: m(2) take_Suc_conv_app_nth log_bytes_Cons)
  qed
  ultimately show thesis using that [of m] m by simp
qed


section \<open>Appending through the interface\<close>

text \<open>\<open>wal_append\<close> is the call of the \<open>ColdStore\<close> interface that writes an operation.\<close>

fun wal_append :: "wal_op \<Rightarrow> cold_store \<times> disk \<Rightarrow> cold_store \<times> disk" where
  "wal_append (Put k v) (cs, d) = append_put k v cs d"
| "wal_append (TxnPut k v) (cs, d) = append_txn_put k v cs d"
| "wal_append Commit (cs, d) = append_commit cs d"

lemma wal_append_bytes:
  "wal_append x (cs, d) = append_payload (op_payload x) cs d"
  by (cases x) (simp_all add: append_put_def append_txn_put_def append_commit_def append_record_def)

lemma append_payload_path [simp]: "cs_path (fst (append_payload p cs d)) = cs_path cs"
  by (simp add: append_payload_def)

lemma append_payload_env [simp]:
  "dk_quota (snd (append_payload p cs d)) = dk_quota d"
  "dk_writable (snd (append_payload p cs d)) = dk_writable d"
  "dk_eager (snd (append_payload p cs d)) = dk_eager d"
  by (simp_all add: append_payload_def fwrite_def Let_def)

lemma append_payload_other:
  "q \<noteq> cs_path cs \<Longrightarrow> dk_files (snd (append_payload p cs d)) q = dk_files d q"
  by (simp add: append_payload_def fwrite_def Let_def)

lemma append_payload_fits:
  assumes "length (file_bytes (cs_path cs) d) + length (wal_record p) \<le> dk_quota d (cs_path cs)"
  shows "dk_files (snd (append_payload p cs d)) (cs_path cs) =
    Some (file_bytes (cs_path cs) d @ wal_record p)"
  by (simp add: append_payload_def fwrite_fits [OF assms])

lemma fold_wal_append:
  assumes "file_bytes (cs_path cs) d = log_bytes old"
    "length (log_bytes (old @ ops)) \<le> dk_quota d (cs_path cs)"
  shows "let (cs', d') = fold wal_append ops (cs, d) in
    cs_path cs' = cs_path cs \<and> file_bytes (cs_path cs) d' = log_bytes (old @ ops) \<and>
    cs_records_written cs' = cs_records_written cs + of_nat (length ops)"
  using assms
proof (induction ops arbitrary: cs d old)
  case Nil
  then show ?case by simp
next
  case (Cons x ops)
  obtain cs1 d1 where s: "wal_append x (cs, d) = (cs1, d1)" by fastforce
  then have s': "cs1 = fst (append_payload (op_payload x) cs d)" "d1 = snd (append_payload (op_payload x) cs d)"
    by (simp_all add: wal_append_bytes)
  have fits: "length (file_bytes (cs_path cs) d) + length (wal_record (op_payload x)) \<le> dk_quota d (cs_path cs)"
    using Cons.prems by (simp add: log_bytes_Cons op_bytes_def)
  have "file_bytes (cs_path cs1) d1 = log_bytes (old @ [x])"
    using append_payload_fits [OF fits] Cons.prems(1)
    by (simp add: s' file_bytes_def log_bytes_def op_bytes_def split: option.splits)
  moreover have "length (log_bytes ((old @ [x]) @ ops)) \<le> dk_quota d1 (cs_path cs1)"
    using Cons.prems(2) by (simp add: s')
  moreover have "cs_path cs1 = cs_path cs" "cs_records_written cs1 = cs_records_written cs + 1"
    by (simp_all add: s' append_payload_def)
  ultimately show ?case
    using Cons.IH [of cs1 d1 "old @ [x]"] s by (simp add: case_prod_unfold Let_def add.assoc)
qed

section \<open>Transactions as groups\<close>

datatype wal_group = Auto u64 u64 | Txn "(u64 \<times> u64) list"

fun group_ops :: "wal_group \<Rightarrow> wal_op list" where
  "group_ops (Auto k v) = [Put k v]"
| "group_ops (Txn kvs) = map (\<lambda>(k, v). TxnPut k v) kvs @ [Commit]"

fun group_effect :: "wal_group \<Rightarrow> (u64 \<times> u64) list" where
  "group_effect (Auto k v) = [(k, v)]"
| "group_effect (Txn kvs) = kvs"

definition groups_ops :: "wal_group list \<Rightarrow> wal_op list" where
  "groups_ops gs = concat (map group_ops gs)"

lemma log_txn_puts:
  "log_effect txn (map (\<lambda>(k, v). TxnPut k v) kvs) = []"
  "log_pending txn (map (\<lambda>(k, v). TxnPut k v) kvs) = txn @ kvs"
  by (induction kvs arbitrary: txn) auto

lemma log_group: "log_effect [] (group_ops g) = group_effect g" "log_pending [] (group_ops g) = []"
  by (cases g; simp add: log_effect_append log_txn_puts)
     (cases g; simp add: log_pending_append log_txn_puts)


lemma groups_ops_Cons: "groups_ops (g # gs) = group_ops g @ groups_ops gs"
  by (simp add: groups_ops_def)

lemma log_effect_groups: "log_effect [] (groups_ops gs) = concat (map group_effect gs)"
  by (induction gs) (simp_all add: groups_ops_def log_effect_append log_group)

lemma log_pending_groups: "log_pending [] (groups_ops gs) = []"
  by (induction gs) (simp_all add: groups_ops_def log_pending_append log_group)

lemma torn_group_effect:
  assumes "m < length (group_ops g)"
  shows "log_effect [] (take m (group_ops g)) = []"
  using assms by (cases g) (simp_all add: take_map log_txn_puts)

lemma replay_torn_group:
  assumes "strict_prefix bs (log_bytes (group_ops g))"
  shows "replay_loop [] bs = []"
proof -
  have "prefix bs (log_bytes (group_ops g))" using assms by (simp add: strict_prefix_def)
  then obtain m where m: "m \<le> length (group_ops g)" "replay_loop [] bs = log_effect [] (take m (group_ops g))"
    "length (log_bytes (take m (group_ops g))) \<le> length bs"
    by (rule replay_loop_prefix)
  have "m \<noteq> length (group_ops g)" using m(3) prefix_length_less [OF assms] by auto
  with m show ?thesis by (simp add: torn_group_effect)
qed

lemma replay_groups_prefix:
  assumes "prefix bs (log_bytes (groups_ops gs))"
  shows "\<exists>m \<le> length gs. replay_loop [] bs = concat (map group_effect (take m gs)) \<and>
    length (log_bytes (groups_ops (take m gs))) \<le> length bs \<and>
    (m = length gs \<or> length bs < length (log_bytes (groups_ops (take (Suc m) gs))))"
  using assms
proof (induction gs arbitrary: bs)
  case Nil
  then show ?case by (simp add: groups_ops_def log_bytes_def)
next
  case (Cons g gs)
  have "prefix bs (log_bytes (group_ops g)) \<or>
      (\<exists>rest. bs = log_bytes (group_ops g) @ rest \<and> prefix rest (log_bytes (groups_ops gs)))"
    using Cons.prems by (simp add: groups_ops_Cons prefix_append)
  then consider "strict_prefix bs (log_bytes (group_ops g))"
    | rest where "bs = log_bytes (group_ops g) @ rest" "prefix rest (log_bytes (groups_ops gs))"
    by (metis append_Nil2 prefix_bot.extremum prefix_order.le_imp_less_or_eq)
  then show ?case
  proof cases
    case 1
    then show ?thesis using replay_torn_group [OF 1] prefix_length_less [OF 1]
      by (intro exI [of _ 0]) (simp add: groups_ops_def log_bytes_def)
  next
    case (2 rest)
    then obtain m where m: "m \<le> length gs" "replay_loop [] rest = concat (map group_effect (take m gs))"
      "length (log_bytes (groups_ops (take m gs))) \<le> length rest"
      "m = length gs \<or> length rest < length (log_bytes (groups_ops (take (Suc m) gs)))"
      using Cons.IH by blast
    have "replay_loop [] bs = concat (map group_effect (take (Suc m) (g # gs)))"
      by (simp add: 2(1) replay_loop_log_append log_group m(2))
    then show ?thesis using m(1,3,4) 2(1)
      by (intro exI [of _ "Suc m"]) (simp add: groups_ops_Cons)
  qed
qed

section \<open>The checksum detects a corrupt byte\<close>

lemma crc_bit_inj: "crc_bit x = crc_bit y \<Longrightarrow> x = y"
proof -
  assume eq: "crc_bit x = crc_bit y"
  have poly: "bit (0xEDB88320 :: u32) 31" by simp
  have odd: "bit (crc_bit c) 31 \<longleftrightarrow> bit c 0" for c
    using poly by (auto simp: crc_bit_def bit_simps and_one_eq odd_iff_mod_2_eq_one bit_0 dest: bit_imp_le_length)
  have "bit x n = bit y n" if "n < 32" for n
  proof (cases n)
    case 0
    then show ?thesis using odd [of x] odd [of y] eq by simp
  next
    case (Suc m)
    have "bit x 0 = bit y 0" using odd [of x] odd [of y] eq by simp
    then have "drop_bit 1 x = drop_bit 1 y"
      using eq by (auto simp: crc_bit_def and_one_eq bit_0 odd_iff_mod_2_eq_one split: if_splits)
    then have "bit (drop_bit 1 x) m = bit (drop_bit 1 y) m" by simp
    then show ?thesis by (simp add: bit_simps Suc)
  qed
  then show "x = y" by (intro bit_word_eqI) simp
qed


lemma crc_bits_inj: "(crc_bit ^^ n) x = (crc_bit ^^ n) y \<Longrightarrow> x = y"
  by (induction n) (auto dest: crc_bit_inj)

lemma crc_byte_inj: "crc_byte b x = crc_byte b y \<Longrightarrow> x = y"
  unfolding crc_byte_def by (drule crc_bits_inj) simp

lemma crc_byte_inj_byte: "crc_byte b x = crc_byte c x \<Longrightarrow> b = c"
proof -
  assume "crc_byte b x = crc_byte c x"
  then have "x XOR ucast b = x XOR (ucast c :: u32)" unfolding crc_byte_def by (rule crc_bits_inj)
  then have "ucast b = (ucast c :: u32)" by simp
  then have eq: "bit (ucast b :: u32) n = bit (ucast c :: u32) n" for n by simp
  have "bit b n = bit c n" if "n < 8" for n using eq [of n] that by (simp add: bit_simps)
  then show "b = c" by (intro bit_word_eqI) simp
qed

lemma fold_crc_inj: "fold crc_byte bs x = fold crc_byte bs y \<Longrightarrow> x = y"
  by (induction bs arbitrary: x y) (auto dest: crc_byte_inj)

lemma crc32_single_byte:
  assumes "b \<noteq> c"
  shows "matrix_crc32 (xs @ b # ys) \<noteq> matrix_crc32 (xs @ c # ys)"
proof
  assume "matrix_crc32 (xs @ b # ys) = matrix_crc32 (xs @ c # ys)"
  then have "fold crc_byte (xs @ b # ys) 0xFFFFFFFF = fold crc_byte (xs @ c # ys) 0xFFFFFFFF"
    unfolding matrix_crc32_def by simp
  then show False using assms by (auto dest!: fold_crc_inj crc_byte_inj_byte)
qed

section \<open>Properties\<close>

text \<open>
  What is appended is what is replayed. Starting from a log file that holds the records of
  \<open>old\<close>, any sequence of appends through the interface that the disk has room for leaves a file
  whose replay applies exactly the plain puts, and the transactional puts of committed
  transactions, of \<open>old\<close> and the new operations together, in order; the record counter advances
  by one per operation.
\<close>

theorem wal_append_replay:
  assumes "file_bytes (cs_path cs) d = log_bytes old"
    and "length (log_bytes (old @ ops)) \<le> dk_quota d (cs_path cs)"
    and "fold wal_append ops (cs, d) = (cs', d')"
  shows "replay cs' d' = log_effect [] (old @ ops) \<and>
    cs_records_written cs' = cs_records_written cs + of_nat (length ops)"
proof -
  have "cs_path cs' = cs_path cs" "file_bytes (cs_path cs) d' = log_bytes (old @ ops)"
    "cs_records_written cs' = cs_records_written cs + of_nat (length ops)"
    using fold_wal_append [OF assms(1,2)] assms(3) by auto
  moreover have "replay cs' d' = replay_loop [] (file_bytes (cs_path cs') d')"
    by (simp add: replay_def file_bytes_def split: option.splits)
  ultimately show ?thesis by (simp only: replay_loop_log)
qed

theorem wal_append_replay_witness:
  "let cs = \<lparr>cs_path = ''wal'', cs_policy = SYNC_EACH, cs_records_written = 0\<rparr>;
       d = \<lparr>dk_files = Map.empty, dk_writable = \<lambda>_. True, dk_quota = \<lambda>_. 1000, dk_eager = \<lambda>_ _. False\<rparr>;
       (cs', d') = fold wal_append [Put 1 10, TxnPut 2 20, Commit, TxnPut 3 30] (cs, d)
   in replay cs' d' = [(1, 10), (2, 20)]"
proof -
  let ?cs = "\<lparr>cs_path = ''wal'', cs_policy = SYNC_EACH, cs_records_written = 0\<rparr>"
  let ?d = "\<lparr>dk_files = Map.empty, dk_writable = \<lambda>_. True, dk_quota = \<lambda>_. 1000, dk_eager = \<lambda>_ _. False\<rparr>"
  let ?ops = "[Put 1 10, TxnPut 2 20, Commit, TxnPut 3 30]"
  obtain cs' d' where s: "fold wal_append ?ops (?cs, ?d) = (cs', d')" by fastforce
  have "file_bytes (cs_path ?cs) ?d = log_bytes []" by (simp add: file_bytes_def log_bytes_def)
  moreover have "length (log_bytes ([] @ ?ops)) \<le> dk_quota ?d (cs_path ?cs)"
    by (simp add: log_bytes_def length_op_bytes)
  ultimately have "replay cs' d' = log_effect [] ([] @ ?ops)"
    using wal_append_replay [OF _ _ s] by blast
  then show ?thesis unfolding Let_def s by simp
qed

text \<open>
  C17. Recovery is atomic at every crash point. Let the log be a sequence of committed groups, each
  a single put or a transaction with its commit marker, and let a crash cut the file anywhere.
  Replay then applies the writes of a prefix of the groups, every group entirely or not at all,
  and that prefix contains every group whose bytes had reached the file.
\<close>

theorem wal_crash_atomic:
  "let bs = take n (log_bytes (groups_ops gs)) in
   \<exists>m \<le> length gs. replay_loop [] bs = concat (map group_effect (take m gs)) \<and>
     length (log_bytes (groups_ops (take m gs))) \<le> length bs \<and>
     (m = length gs \<or> length bs < length (log_bytes (groups_ops (take (Suc m) gs))))"
  unfolding Let_def by (rule replay_groups_prefix) (rule take_is_prefix)

text \<open>
  Corruption is never replayed. If one byte of the payload of a logged record is changed to
  another value, replay applies exactly the records before the corrupt one and stops.
\<close>

theorem wal_corrupt_byte_detected:
  assumes "op_payload x = xs @ b # ys" and "b \<noteq> c"
  shows "replay_loop [] (log_bytes ops @ u32_bytes (of_nat (length (op_payload x))) @
      u32_bytes (matrix_crc32 (op_payload x)) @ (xs @ c # ys) @ rest) = log_effect [] ops"
proof -
  let ?buf = "xs @ c # ys"
  have len: "length (op_payload x) = length ?buf" by (simp add: assms(1))
  then have "0 < length ?buf" "length ?buf \<le> 4096" using op_payload_bounds [of x] by simp_all
  from replay_loop_frame [OF this] show ?thesis
    unfolding replay_loop_log_append len using crc32_single_byte [OF assms(2), of xs ys] assms(1) by simp
qed

theorem wal_corrupt_byte_detected_witness:
  "replay_loop [] (log_bytes [Put 7 8] @ u32_bytes 4 @ u32_bytes (matrix_crc32 (op_payload Commit)) @
     [0x4D, 0x4D, 0x4F, 0x42] @ []) = [(7, 8)]"
proof -
  have p: "op_payload Commit = [0x4D, 0x4D, 0x4F] @ 0x43 # []"
    by (simp add: MATRIX_WAL_COMMIT_def le_encode_4 drop_bit_eq_div)
  show ?thesis using wal_corrupt_byte_detected [OF p, where c = "0x42" and ops = "[Put 7 8]" and rest = "[]"] by (simp add: p)
qed

text \<open>
  C18. A transaction that a crash cut off before its commit marker is not always discarded. Its
  complete records stay in the log: replay ignores them on the next start, but nothing removes
  them, so once a later transaction commits, replay applies the writes of both. A log cut inside a
  record is likewise never repaired: when a crash leaves the first byte of a record, every put
  logged after the restart is lost at the next one.
\<close>

theorem wal_uncommitted_resurrected:
  "replay_loop [] (log_bytes (groups_ops gs @ map (\<lambda>(k, v). TxnPut k v) lost)) =
     concat (map group_effect gs) \<and>
   replay_loop [] (log_bytes (groups_ops gs @ map (\<lambda>(k, v). TxnPut k v) lost @ group_ops (Txn kvs))) =
     concat (map group_effect gs) @ lost @ kvs \<and>
   replay_loop [] (log_bytes (groups_ops gs) @ take 1 (op_bytes (Put k v)) @
       log_bytes (groups_ops (Auto k' v' # gs'))) = concat (map group_effect gs)"
proof -
  note pend = log_pending_groups [of gs]
  have "log_effect [] (groups_ops gs @ map (\<lambda>(k, v). TxnPut k v) lost) = concat (map group_effect gs)"
    by (simp add: log_effect_append log_effect_groups log_txn_puts)
  moreover have "log_effect [] (groups_ops gs @ map (\<lambda>(k, v). TxnPut k v) lost @ group_ops (Txn kvs)) =
      concat (map group_effect gs) @ lost @ kvs"
    by (simp add: log_effect_append log_effect_groups log_txn_puts log_pending_append pend)
  moreover have "replay_loop [] (take 1 (op_bytes (Put k v)) @ op_bytes (Put k' v') @ rest) = []" for rest
  proof -
    have len: "u32_bytes (20 :: u32) = [20, 0, 0, 0]" by (simp add: le_encode_4 drop_bit_eq_div)
    obtain x y where "op_bytes (Put k v) = [20, 0, 0, 0] @ x" "op_bytes (Put k' v') = [20, 0, 0, 0] @ y"
      using len by (simp add: op_bytes_def wal_record_def)
    then have "fread 4 (take 1 (op_bytes (Put k v)) @ op_bytes (Put k' v') @ rest) =
        Some ([20, 20, 0, 0], 0 # y @ rest)"
      using fread_append [of "[20, 20, 0, 0]" 4 "0 # y @ rest"] by simp
    moreover have "MATRIX_WAL_MAX_RECORD < le_decode [20, 20, 0, 0]"
      by (simp add: MATRIX_WAL_MAX_RECORD_def)
    ultimately show ?thesis by (subst replay_loop.simps) (simp add: Let_def)
  qed
  ultimately show ?thesis
    by (simp add: replay_loop_log replay_loop_log_append log_effect_groups pend groups_ops_Cons log_bytes_Cons
        del: log_bytes_append)
qed

end
