(* ===== verification/Float64.thy ===== *)
theory Float64
  imports Prelude
begin

text \<open>
  IEEE 754 binary64, the \<open>double\<close> of the sources, as an executable type over its 64 bits. Every
  finite double is an integer multiple of \<open>2 ^ -1074\<close>; \<open>f64_key\<close> is that integer, extended to the
  infinities, so comparisons are integer comparisons and an arithmetic operation rounds an exact
  quotient of integers (\<open>f64_round\<close>, to nearest, ties to even). Operations that produce a new NaN
  give the default NaN of the x86-64 target; a NaN operand is passed on quietened. Contraction
  of a product and a sum to one rounding does not occur on that target.
\<close>

datatype f64 = F64 (f64_bits: u64)

definition f64_sign :: "f64 \<Rightarrow> bool" where
  "f64_sign x = bit (f64_bits x) 63"

definition f64_expo :: "f64 \<Rightarrow> nat" where
  "f64_expo x = unat (drop_bit 52 (f64_bits x) AND 0x7FF)"

definition f64_frac :: "f64 \<Rightarrow> nat" where
  "f64_frac x = unat (f64_bits x AND 0xFFFFFFFFFFFFF)"

definition f64_is_nan :: "f64 \<Rightarrow> bool" where
  "f64_is_nan x \<longleftrightarrow> f64_expo x = 2047 \<and> f64_frac x \<noteq> 0"

definition f64_is_inf :: "f64 \<Rightarrow> bool" where
  "f64_is_inf x \<longleftrightarrow> f64_expo x = 2047 \<and> f64_frac x = 0"

definition f64_mag :: "f64 \<Rightarrow> nat" where
  "f64_mag x =
     (if f64_expo x = 0 then f64_frac x else (2 ^ 52 + f64_frac x) * 2 ^ (f64_expo x - 1))"

text \<open>The signed magnitude in units of \<open>2 ^ -1074\<close>; an infinity is \<open>2 ^ 2098\<close>, above all finite ones.\<close>

definition f64_key :: "f64 \<Rightarrow> int" where
  "f64_key x = (if f64_sign x then - int (f64_mag x) else int (f64_mag x))"

definition f64_lt :: "f64 \<Rightarrow> f64 \<Rightarrow> bool" where
  "f64_lt x y \<longleftrightarrow> \<not> f64_is_nan x \<and> \<not> f64_is_nan y \<and> f64_key x < f64_key y"

definition f64_le :: "f64 \<Rightarrow> f64 \<Rightarrow> bool" where
  "f64_le x y \<longleftrightarrow> \<not> f64_is_nan x \<and> \<not> f64_is_nan y \<and> f64_key x \<le> f64_key y"

definition f64_eq :: "f64 \<Rightarrow> f64 \<Rightarrow> bool" where
  "f64_eq x y \<longleftrightarrow> \<not> f64_is_nan x \<and> \<not> f64_is_nan y \<and> f64_key x = f64_key y"

definition f64_nan :: f64 where "f64_nan = F64 0xFFF8000000000000"
definition f64_quiet_nan :: f64 where "f64_quiet_nan = F64 0x7FF8000000000000"
definition f64_inf :: f64 where "f64_inf = F64 0x7FF0000000000000"
definition f64_ninf :: f64 where "f64_ninf = F64 0xFFF0000000000000"
definition f64_zero :: f64 where "f64_zero = F64 0"

fun bit_len :: "nat \<Rightarrow> nat" where
  "bit_len n = (if n = 0 then 0 else Suc (bit_len (n div 2)))"

declare bit_len.simps [simp del]

definition f64_pack :: "bool \<Rightarrow> nat \<Rightarrow> f64" where
  "f64_pack s b =
     (let w = of_nat (min b (2047 * 2 ^ 52)) in F64 (if s then w OR push_bit 63 1 else w))"

definition round_half_even :: "nat \<Rightarrow> nat \<Rightarrow> nat" where
  "round_half_even n d =
     (let q = n div d; r = n mod d
      in if 2 * r < d \<or> (2 * r = d \<and> even q) then q else Suc q)"

definition log_quot :: "nat \<Rightarrow> nat \<Rightarrow> nat" where
  "log_quot N d = (let k = bit_len N - bit_len d in if d * 2 ^ k \<le> N then k else k - 1)"

text \<open>
  \<open>f64_round s n d\<close> rounds \<open>n / d\<close>. The unit in the last place is \<open>2 ^ (ulp - 1074)\<close>; the significand
  added to \<open>ulp * 2 ^ 52\<close> is the bit pattern, for subnormals and for a carry into the exponent too.
\<close>

definition f64_round :: "bool \<Rightarrow> nat \<Rightarrow> nat \<Rightarrow> f64" where
  "f64_round s n d =
     (let N = n * 2 ^ 1074;
          ulp = log_quot N d - 52
      in f64_pack s (ulp * 2 ^ 52 + round_half_even N (d * 2 ^ ulp)))"

definition f64_quieten :: "f64 \<Rightarrow> f64" where
  "f64_quieten x = F64 (f64_bits x OR push_bit 51 1)"

definition f64_propagate :: "f64 \<Rightarrow> f64 \<Rightarrow> f64 \<Rightarrow> f64" where
  "f64_propagate x y z =
     (if f64_is_nan x then f64_quieten x else if f64_is_nan y then f64_quieten y else z)"

definition f64_signed_inf :: "bool \<Rightarrow> f64" where
  "f64_signed_inf s = (if s then f64_ninf else f64_inf)"

definition f64_add :: "f64 \<Rightarrow> f64 \<Rightarrow> f64" where
  "f64_add x y = f64_propagate x y
     (if f64_is_inf x then (if f64_is_inf y \<and> f64_sign x \<noteq> f64_sign y then f64_nan else x)
      else if f64_is_inf y then y
      else let k = f64_key x + f64_key y
           in if k = 0 then f64_pack (f64_sign x \<and> f64_sign y) 0
              else f64_round (k < 0) (nat \<bar>k\<bar>) (2 ^ 1074))"

definition f64_neg :: "f64 \<Rightarrow> f64" where
  "f64_neg x = F64 (f64_bits x XOR push_bit 63 1)"

definition f64_sub :: "f64 \<Rightarrow> f64 \<Rightarrow> f64" where
  "f64_sub x y = (if f64_is_nan y then f64_propagate x y y else f64_add x (f64_neg y))"

definition f64_mul :: "f64 \<Rightarrow> f64 \<Rightarrow> f64" where
  "f64_mul x y = f64_propagate x y
     (let s = (f64_sign x \<noteq> f64_sign y) in
      if f64_is_inf x \<or> f64_is_inf y then
        (if f64_key x = 0 \<or> f64_key y = 0 then f64_nan else f64_signed_inf s)
      else f64_round s (f64_mag x * f64_mag y) (2 ^ 2148))"

definition f64_div :: "f64 \<Rightarrow> f64 \<Rightarrow> f64" where
  "f64_div x y = f64_propagate x y
     (let s = (f64_sign x \<noteq> f64_sign y) in
      if f64_is_inf x then (if f64_is_inf y then f64_nan else f64_signed_inf s)
      else if f64_is_inf y then f64_pack s 0
      else if f64_mag y = 0 then (if f64_mag x = 0 then f64_nan else f64_signed_inf s)
      else f64_round s (f64_mag x) (f64_mag y))"

definition f64_of_int :: "int \<Rightarrow> f64" where
  "f64_of_int i = f64_round (i < 0) (nat \<bar>i\<bar>) 1"

definition f64_of_u64 :: "u64 \<Rightarrow> f64" where
  "f64_of_u64 w = f64_of_int (uint w)"

text \<open>Truncation towards zero, \<open>None\<close> for a NaN or an infinity.\<close>

definition f64_trunc :: "f64 \<Rightarrow> int option" where
  "f64_trunc x =
     (if f64_expo x = 2047 then None
      else Some (let q = int (f64_mag x div 2 ^ 1074) in if f64_sign x then - q else q))"

section \<open>Order\<close>

lemma f64_lt_irrefl [simp]: "\<not> f64_lt x x"
  by (simp add: f64_lt_def)

lemma f64_lt_trans: "f64_lt x y \<Longrightarrow> f64_lt y z \<Longrightarrow> f64_lt x z"
  by (auto simp: f64_lt_def)

lemma f64_not_lt: "\<not> f64_is_nan x \<Longrightarrow> \<not> f64_is_nan y \<Longrightarrow> \<not> f64_lt x y \<longleftrightarrow> f64_le y x"
  by (auto simp: f64_lt_def f64_le_def)

lemma f64_le_refl: "\<not> f64_is_nan x \<Longrightarrow> f64_le x x"
  by (simp add: f64_le_def)

lemma f64_le_trans: "f64_le x y \<Longrightarrow> f64_le y z \<Longrightarrow> f64_le x z"
  by (auto simp: f64_le_def)

lemma f64_lt_le_trans: "f64_lt x y \<Longrightarrow> f64_le y z \<Longrightarrow> f64_lt x z"
  by (auto simp: f64_lt_def f64_le_def)


section \<open>Magnitude bounds\<close>

text \<open>
  Rounding never carries a result over a power of two: a quotient that is at most \<open>2 ^ j\<close> rounds to a
  finite double that is at most \<open>2 ^ j\<close>. The bounds below are in units of \<open>2 ^ -1074\<close>.
\<close>

lemma bit_len_bounds: "0 < n \<Longrightarrow> 2 ^ (bit_len n - 1) \<le> n \<and> n < 2 ^ bit_len n \<and> 0 < bit_len n"
proof (induction n rule: bit_len.induct)
  case (1 n)
  show ?case
  proof (cases "n = 1")
    case True
    then show ?thesis by (simp add: bit_len.simps)
  next
    case False
    with 1(2) have "0 < n div 2" by simp
    with 1 have IH: "2 ^ (bit_len (n div 2) - 1) \<le> n div 2" "n div 2 < 2 ^ bit_len (n div 2)" "0 < bit_len (n div 2)"
      by simp_all
    have "bit_len n = Suc (bit_len (n div 2))" using 1(2) by (subst bit_len.simps) simp
    moreover have "(2::nat) ^ bit_len (n div 2) = 2 * 2 ^ (bit_len (n div 2) - 1)"
      using IH(3) by (metis Suc_diff_1 power_Suc)
    moreover have "2 * 2 ^ (bit_len (n div 2) - 1) \<le> n \<and> n < 2 * 2 ^ bit_len (n div 2)"
    proof -
      have "n = 2 * (n div 2) + n mod 2" "n mod 2 < 2" by simp_all
      with IH show ?thesis by linarith
    qed
    ultimately show ?thesis by simp
  qed
qed

lemma log_quot_upper:
  assumes "0 < N" "0 < d"
  shows "N < d * 2 ^ Suc (log_quot N d)"
proof -
  let ?k = "bit_len N - bit_len d"
  have N: "N < 2 ^ bit_len N" and d: "2 ^ (bit_len d - 1) \<le> d" "0 < bit_len d"
    using bit_len_bounds assms by blast+
  have "N < 2 ^ (bit_len d - 1 + Suc ?k)"
    using N by (rule less_le_trans) (use d(2) in \<open>simp add: power_increasing\<close>)
  also have "\<dots> \<le> d * 2 ^ Suc ?k" using d(1) by (simp only: power_add mult_le_mono1)
  finally have "N < d * 2 ^ Suc ?k" .
  moreover have "N < d * 2 ^ Suc (?k - 1)" if "\<not> d * 2 ^ ?k \<le> N"
  proof (cases ?k)
    case 0
    then show ?thesis using that by simp
  qed (use that in simp)
  ultimately show ?thesis by (simp add: log_quot_def Let_def)
qed

lemma log_quot_lower:
  assumes "0 < N" "0 < d" "log_quot N d \<noteq> 0"
  shows "d * 2 ^ log_quot N d \<le> N"
proof (cases "d * 2 ^ (bit_len N - bit_len d) \<le> N")
  case True
  then show ?thesis by (simp add: log_quot_def Let_def)
next
  case False
  let ?k = "bit_len N - bit_len d"
  have k: "log_quot N d = ?k - 1" "2 \<le> ?k" using False assms(3) by (auto simp: log_quot_def Let_def split: if_splits)
  have N: "2 ^ (bit_len N - 1) \<le> N" and d: "d < 2 ^ bit_len d" using bit_len_bounds assms by blast+
  have "d * 2 ^ (?k - 1) \<le> 2 ^ (bit_len d + (?k - 1))" using d by (simp add: power_add)
  also have "\<dots> = 2 ^ (bit_len N - 1)" using k(2) by simp
  finally show ?thesis using N k(1) by simp
qed

lemma round_half_even_bound:
  assumes "0 < d" "n \<le> d * m"
  shows "round_half_even n d \<le> m"
proof (cases "n = d * m")
  case True
  then show ?thesis using assms(1) by (simp add: round_half_even_def)
next
  case False
  with assms have "n div d < m" by (simp add: div_less_iff_less_mult mult.commute)
  then show ?thesis by (simp add: round_half_even_def Let_def)
qed

lemma round_bits_bound:
  assumes "0 < d" "N \<le> d * 2 ^ J" "52 \<le> J"
  shows "(log_quot N d - 52) * 2 ^ 52 + round_half_even N (d * 2 ^ (log_quot N d - 52)) \<le> (J - 51) * 2 ^ 52"
proof (cases "N = 0")
  case True
  then show ?thesis using assms(1,3)
    by (simp add: round_half_even_def log_quot_def bit_len.simps)
next
  case False
  let ?lg = "log_quot N d" and ?ulp = "log_quot N d - 52"
  have up: "N < d * 2 ^ Suc ?lg" using False assms(1) by (intro log_quot_upper) simp_all
  have "?lg \<le> J"
  proof (cases "?lg = 0")
    case False
    then have "d * 2 ^ ?lg \<le> N" using log_quot_lower [of N d] \<open>N \<noteq> 0\<close> assms(1) by blast
    also note assms(2)
    finally show ?thesis using assms(1) by simp
  qed simp
  have split: "(2::nat) ^ (?ulp + m) = 2 ^ ?ulp * 2 ^ m" for m by (rule power_add)
  consider "?lg < 52" | "52 \<le> ?lg" "?lg < J" | "52 \<le> ?lg" "?lg = J" using \<open>?lg \<le> J\<close> by linarith
  then show ?thesis
  proof cases
    case 1
    then have "(2::nat) ^ Suc ?lg \<le> 2 ^ 52" by (intro power_increasing) auto
    then have "N \<le> d * 2 ^ 52" using up by (meson less_imp_le_nat less_le_trans mult_le_mono2)
    then have "round_half_even N (d * 2 ^ 0) \<le> 2 ^ 52" using assms(1) by (intro round_half_even_bound) simp_all
    moreover have "(1::nat) * 2 ^ 52 \<le> (J - 51) * 2 ^ 52" using assms(3) by (intro mult_le_mono1) simp
    ultimately show ?thesis using 1 by simp
  next
    case 2
    then have "Suc ?lg = ?ulp + 53" by simp
    then have "d * 2 ^ Suc ?lg = d * 2 ^ ?ulp * 2 ^ 53" by (simp only: power_add mult.assoc)
    then have "N \<le> d * 2 ^ ?ulp * 2 ^ 53" using up by (metis less_imp_le)
    then have "round_half_even N (d * 2 ^ ?ulp) \<le> 2 ^ 53" using assms(1) by (intro round_half_even_bound) simp_all
    then have "?ulp * 2 ^ 52 + round_half_even N (d * 2 ^ ?ulp) \<le> (?ulp + 2) * 2 ^ 52" by simp
    also have "\<dots> \<le> (J - 51) * 2 ^ 52" using 2 by (intro mult_le_mono1) simp
    finally show ?thesis .
  next
    case 3
    then have "J = ?ulp + 52" by simp
    then have "N \<le> d * 2 ^ ?ulp * 2 ^ 52" using assms(2) by (metis mult.assoc power_add)
    then have "round_half_even N (d * 2 ^ ?ulp) \<le> 2 ^ 52" using assms(1) by (intro round_half_even_bound) simp_all
    then have "?ulp * 2 ^ 52 + round_half_even N (d * 2 ^ ?ulp) \<le> (?ulp + 1) * 2 ^ 52" by simp
    also have "\<dots> \<le> (J - 51) * 2 ^ 52" using 3 by (intro mult_le_mono1) simp
    finally show ?thesis .
  qed
qed


definition mag_bits :: "nat \<Rightarrow> nat" where
  "mag_bits b = (if b div 2 ^ 52 = 0 then b mod 2 ^ 52 else (2 ^ 52 + b mod 2 ^ 52) * 2 ^ (b div 2 ^ 52 - 1))"

lemma mag_bits_bound:
  assumes "b \<le> E * 2 ^ 52" "1 \<le> E"
  shows "mag_bits b \<le> 2 ^ (E + 51)"
proof -
  have m: "b mod 2 ^ 52 < 2 ^ 52" by simp
  show ?thesis
  proof (cases "b = E * 2 ^ 52")
    case True
    then have "mag_bits b = 2 ^ 52 * 2 ^ (E - 1)" using assms(2) by (simp add: mag_bits_def)
    also have "\<dots> = 2 ^ (52 + (E - 1))" by (simp only: power_add)
    also have "52 + (E - 1) = E + 51" using assms(2) by simp
    finally show ?thesis by simp
  next
    case False
    with assms(1) have q: "b div 2 ^ 52 < E" by (simp add: div_less_iff_less_mult)
    show ?thesis
    proof (cases "b div 2 ^ 52")
      case 0
      then have "mag_bits b \<le> 2 ^ 52" using m by (simp add: mag_bits_def)
      also have "\<dots> \<le> 2 ^ (E + 51)" using assms(2) by (intro power_increasing) simp_all
      finally show ?thesis .
    next
      case (Suc e)
      then have "mag_bits b \<le> 2 ^ 53 * 2 ^ e"
        using m unfolding mag_bits_def by (auto intro!: mult_le_mono1)
      also have "\<dots> = 2 ^ (53 + e)" by (simp only: power_add)
      also have "\<dots> \<le> 2 ^ (E + 51)" using q Suc by (intro power_increasing) simp_all
      finally show ?thesis .
    qed
  qed
qed

lemma unat_and_mask_const:
  "unat (w AND 0xFFFFFFFFFFFFF :: u64) = unat w mod 2 ^ 52" "unat (w AND 0x7FF :: u64) = unat w mod 2 ^ 11"
proof -
  have "(0xFFFFFFFFFFFFF :: u64) = mask 52" "(0x7FF :: u64) = mask 11" by (simp_all add: mask_eq_exp_minus_1)
  moreover have "unat (w AND mask 52) = unat w mod 2 ^ 52" "unat (w AND mask 11) = unat w mod 2 ^ 11"
    by (rule unat_and_mask_less; simp)+
  ultimately show "unat (w AND 0xFFFFFFFFFFFFF) = unat w mod 2 ^ 52" "unat (w AND 0x7FF) = unat w mod 2 ^ 11"
    by (simp_all only:)
qed

lemma f64_pack_fields:
  assumes "b \<le> 2047 * 2 ^ 52"
  shows "f64_frac (f64_pack s b) = b mod 2 ^ 52" "f64_expo (f64_pack s b) = b div 2 ^ 52"
    "f64_sign (f64_pack s b) = s"
proof -
  let ?w = "of_nat b :: u64"
  define y where "y = (if s then ?w OR push_bit 63 1 else ?w)"
  have pack: "f64_bits (f64_pack s b) = y"
    using assms by (simp add: f64_pack_def y_def min_def)
  have b: "b < 2 ^ 63" using assms by simp
  have hi: "bit (push_bit 63 (1::u64)) n \<longleftrightarrow> n = 63" for n
    by (auto simp only: push_bit_of_1 bit_exp_iff possible_bit_word) simp
  have y: "bit y n \<longleftrightarrow> bit ?w n \<or> s \<and> n = 63" for n
    unfolding y_def by (simp only: bit_or_iff hi if_distrib [of "\<lambda>x. bit x n"] split: if_splits) auto
  have low: "bit y n = bit b n" if "n < 63" for n
    using that unfolding y by (auto simp: bit_simps)
  have nb: "n < 63" if "bit b n" for n
    using b that by (metis bit_take_bit_iff take_bit_nat_eq_self_iff)
  have "take_bit 52 (unat y) = take_bit 52 b"
    using low by (intro bit_eqI) (auto simp: bit_simps bit_unsigned_iff)
  then show "f64_frac (f64_pack s b) = b mod 2 ^ 52"
    by (simp add: f64_frac_def pack unat_and_mask_const take_bit_eq_mod)
  have "take_bit 11 (unat (drop_bit 52 y)) = drop_bit 52 b"
    using low by (intro bit_eqI) (auto simp: bit_simps bit_unsigned_iff dest: nb)
  then show "f64_expo (f64_pack s b) = b div 2 ^ 52"
    unfolding f64_expo_def pack unat_and_mask_const take_bit_eq_mod
    by (simp only: drop_bit_eq_div [of 52 b])
  show "f64_sign (f64_pack s b) = s"
    unfolding f64_sign_def pack y by (auto simp: bit_simps dest: nb)
qed

text \<open>\<open>f64_within J x\<close>: the double is finite and at most \<open>2 ^ J\<close> units in magnitude.\<close>

definition f64_within :: "nat \<Rightarrow> f64 \<Rightarrow> bool" where
  "f64_within J x \<longleftrightarrow> f64_expo x < 2047 \<and> f64_mag x \<le> 2 ^ J"

lemma f64_round_within:
  assumes "0 < d" "n * 2 ^ 1074 \<le> d * 2 ^ J" "52 \<le> J" "J \<le> 2090"
  shows "f64_within J (f64_round s n d)"
proof -
  let ?N = "n * 2 ^ 1074"
  let ?b = "(log_quot ?N d - 52) * 2 ^ 52 + round_half_even ?N (d * 2 ^ (log_quot ?N d - 52))"
  have b: "?b \<le> (J - 51) * 2 ^ 52" using assms(1-3) by (rule round_bits_bound)
  also have "\<dots> \<le> 2039 * 2 ^ 52" using assms(4) by (intro mult_le_mono1) simp
  finally have b': "?b \<le> 2039 * 2 ^ 52" .
  then have b'': "?b \<le> 2047 * 2 ^ 52" by (rule le_trans) simp
  have r: "f64_round s n d = f64_pack s ?b" by (simp only: f64_round_def Let_def)
  have "f64_mag (f64_round s n d) = mag_bits ?b"
    unfolding r f64_mag_def mag_bits_def f64_pack_fields [OF b''] ..
  also have "\<dots> \<le> 2 ^ (J - 51 + 51)" using b assms(3) by (intro mag_bits_bound) simp_all
  finally have "f64_mag (f64_round s n d) \<le> 2 ^ J" using assms(3) by simp
  moreover have "?b div 2 ^ 52 \<le> 2039" using b' by (metis div_le_mono nonzero_mult_div_cancel_right power_not_zero zero_neq_numeral)
  ultimately show ?thesis unfolding f64_within_def r f64_pack_fields [OF b''] by simp
qed


lemma f64_within_finite: "f64_within J x \<Longrightarrow> \<not> f64_is_nan x \<and> \<not> f64_is_inf x"
  by (auto simp: f64_within_def f64_is_nan_def f64_is_inf_def)

lemma f64_within_mono: "f64_within J x \<Longrightarrow> J \<le> K \<Longrightarrow> f64_within K x"
  by (auto simp: f64_within_def intro: le_trans power_increasing)

lemma f64_zero_within: "f64_within J f64_zero"
  by (simp add: f64_within_def f64_zero_def f64_expo_def f64_mag_def f64_frac_def)

lemma f64_pack0_within: "f64_within J (f64_pack s 0)"
  by (simp add: f64_within_def f64_mag_def f64_pack_fields)

lemma f64_of_int_within:
  assumes "\<bar>i\<bar> \<le> 2 ^ j" "j \<le> 1000"
  shows "f64_within (1074 + j) (f64_of_int i)"
proof -
  have "nat \<bar>i\<bar> \<le> 2 ^ j" using assms(1) by (simp add: nat_le_iff)
  then show ?thesis unfolding f64_of_int_def
    using assms(2) by (intro f64_round_within) (simp_all add: power_add)
qed

lemma f64_of_u64_within: "f64_within 1138 (f64_of_u64 w)"
proof -
  have "\<bar>uint w\<bar> \<le> 2 ^ 64" using uint_lt2p [of w] by simp
  then show ?thesis using f64_of_int_within [of "uint w" 64] by (simp add: f64_of_u64_def)
qed

lemma f64_key_abs: "\<bar>f64_key x\<bar> = int (f64_mag x)"
  by (simp add: f64_key_def)

lemma f64_add_within:
  assumes "f64_within J x" "f64_within J y" "52 \<le> J" "J \<le> 2000"
  shows "f64_within (Suc J) (f64_add x y)"
proof -
  have fin: "\<not> f64_is_nan x" "\<not> f64_is_inf x" "\<not> f64_is_nan y" "\<not> f64_is_inf y"
    using assms(1,2) f64_within_finite by auto
  let ?k = "f64_key x + f64_key y"
  have "\<bar>?k\<bar> \<le> int (f64_mag x) + int (f64_mag y)" using f64_key_abs [of x] f64_key_abs [of y] by linarith
  moreover have "f64_mag x + f64_mag y \<le> 2 ^ Suc J" using assms(1,2) by (simp add: f64_within_def)
  ultimately have "nat \<bar>?k\<bar> \<le> 2 ^ Suc J" by linarith
  then have "f64_within (Suc J) (f64_round (?k < 0) (nat \<bar>?k\<bar>) (2 ^ 1074))"
    using assms(3,4) by (intro f64_round_within) (simp_all add: mult.commute)
  then show ?thesis using fin by (simp add: f64_add_def f64_propagate_def Let_def f64_pack0_within)
qed

lemma f64_neg_within: "f64_within J x \<Longrightarrow> f64_within J (f64_neg x)"
proof -
  have hi: "bit (push_bit 63 (1::u64)) n \<longleftrightarrow> n = 63" for n
    by (auto simp only: push_bit_of_1 bit_exp_iff possible_bit_word) simp
  have bits: "bit (f64_bits (f64_neg x)) n = (bit (f64_bits x) n \<noteq> (n = 63))" for n
    by (simp only: f64_neg_def f64.sel bit_xor_iff hi)
  have "f64_expo (f64_neg x) = f64_expo x" "f64_frac (f64_neg x) = f64_frac x"
    unfolding f64_expo_def f64_frac_def unat_and_mask_const take_bit_eq_mod [symmetric] unsigned_drop_bit_eq
    by (intro bit_eqI; auto simp: bit_simps bit_unsigned_iff bits)+
  then show "f64_within J x \<Longrightarrow> f64_within J (f64_neg x)" by (simp only: f64_within_def f64_mag_def)
qed

lemma f64_sub_within:
  assumes "f64_within J x" "f64_within J y" "52 \<le> J" "J \<le> 2000"
  shows "f64_within (Suc J) (f64_sub x y)"
  using assms f64_within_finite [OF assms(2)] by (simp add: f64_sub_def f64_add_within f64_neg_within)

lemma f64_mul_within:
  assumes "f64_within (1074 + i) x" "f64_within (1074 + j) y" "i + j \<le> 1000"
  shows "f64_within (1074 + i + j) (f64_mul x y)"
proof -
  have fin: "\<not> f64_is_nan x" "\<not> f64_is_inf x" "\<not> f64_is_nan y" "\<not> f64_is_inf y"
    using assms(1,2) f64_within_finite by auto
  have "f64_mag x * f64_mag y \<le> 2 ^ (1074 + i) * 2 ^ (1074 + j)"
    using assms(1,2) by (intro mult_le_mono) (simp_all add: f64_within_def)
  then have "f64_mag x * f64_mag y * 2 ^ 1074 \<le> (2 ^ (1074 + i) * 2 ^ (1074 + j)) * 2 ^ 1074"
    by (rule mult_le_mono1)
  also have "\<dots> = 2 ^ 2148 * 2 ^ (1074 + i + j)"
    by (simp only: power_add [symmetric]) (rule arg_cong [of _ _ "power 2"], simp)
  finally have "f64_within (1074 + i + j) (f64_round s (f64_mag x * f64_mag y) (2 ^ 2148))" for s
    using assms(3) by (intro f64_round_within) simp_all
  then show ?thesis using fin by (simp add: f64_mul_def f64_propagate_def Let_def)
qed

lemma f64_div_within:
  assumes "f64_within J x" "f64_expo y < 2047" "2 ^ 1074 \<le> f64_mag y" "52 \<le> J" "J \<le> 2000"
  shows "f64_within J (f64_div x y)"
proof -
  have fin: "\<not> f64_is_nan x" "\<not> f64_is_inf x" "\<not> f64_is_nan y" "\<not> f64_is_inf y"
    using assms(1,2) f64_within_finite [OF assms(1)] by (auto simp: f64_is_nan_def f64_is_inf_def)
  have "0 < f64_mag y" using assms(3) by (metis less_le_trans zero_less_numeral zero_less_power)
  moreover have "f64_mag x * 2 ^ 1074 \<le> f64_mag y * 2 ^ J"
    using assms(1,3) by (metis f64_within_def mult.commute mult_le_mono)
  ultimately have "f64_within J (f64_round s (f64_mag x) (f64_mag y))" for s
    using assms(4,5) by (intro f64_round_within) simp_all
  then show ?thesis using fin \<open>0 < f64_mag y\<close> by (simp add: f64_div_def f64_propagate_def Let_def)
qed


lemma round_bits_lower:
  assumes "0 < d" "d * 2 ^ J \<le> N" "52 \<le> J"
  shows "(J - 51) * 2 ^ 52 \<le> (log_quot N d - 52) * 2 ^ 52 + round_half_even N (d * 2 ^ (log_quot N d - 52))"
proof -
  let ?lg = "log_quot N d" and ?ulp = "log_quot N d - 52"
  have N: "0 < N" using assms(1,2) by (metis less_le_trans mult_pos_pos zero_less_numeral zero_less_power)
  have "d * 2 ^ J < d * 2 ^ Suc ?lg" using assms(2) log_quot_upper [OF N assms(1)] by (rule le_less_trans)
  then have J: "J \<le> ?lg" using assms(1) by (simp only: mult_less_cancel1 power_strict_increasing_iff less_Suc_eq_le)
  have "d * 2 ^ ?lg \<le> N" using log_quot_lower [OF N assms(1)] J assms(3) by simp
  moreover have "?lg = ?ulp + 52" using J assms(3) by simp
  ultimately have "d * 2 ^ ?ulp * 2 ^ 52 \<le> N" by (metis mult.assoc power_add)
  then have "2 ^ 52 \<le> N div (d * 2 ^ ?ulp)"
    using assms(1) by (simp add: less_eq_div_iff_mult_less_eq mult.commute mult.left_commute)
  then have "2 ^ 52 \<le> round_half_even N (d * 2 ^ ?ulp)" by (simp add: round_half_even_def Let_def)
  then have "(?ulp + 1) * 2 ^ 52 \<le> ?ulp * 2 ^ 52 + round_half_even N (d * 2 ^ ?ulp)" by simp
  moreover have "(J - 51) * 2 ^ 52 \<le> (?ulp + 1) * 2 ^ 52" using J assms(3) by (intro mult_le_mono1) simp
  ultimately show ?thesis by (rule le_trans [rotated])
qed

lemma mag_bits_lower:
  assumes "E * 2 ^ 52 \<le> b" "1 \<le> E"
  shows "2 ^ (E + 51) \<le> mag_bits b"
proof -
  have q: "E \<le> b div 2 ^ 52" using assms(1) by (simp add: less_eq_div_iff_mult_less_eq)
  have "(2::nat) ^ (E + 51) \<le> 2 ^ (52 + (b div 2 ^ 52 - 1))" using q assms(2) by (intro power_increasing) simp_all
  also have "\<dots> \<le> (2 ^ 52 + b mod 2 ^ 52) * 2 ^ (b div 2 ^ 52 - 1)"
    unfolding power_add by (intro mult_le_mono1) simp
  also have "\<dots> = mag_bits b" using q assms(2) by (simp add: mag_bits_def)
  finally show ?thesis .
qed

lemma f64_round_lower:
  assumes "0 < d" "n * 2 ^ 1074 \<le> d * 2 ^ K" "K \<le> 2090" "d * 2 ^ J \<le> n * 2 ^ 1074" "52 \<le> J"
  shows "2 ^ J \<le> f64_mag (f64_round s n d)"
proof -
  let ?N = "n * 2 ^ 1074"
  let ?b = "(log_quot ?N d - 52) * 2 ^ 52 + round_half_even ?N (d * 2 ^ (log_quot ?N d - 52))"
  have "d * 2 ^ J \<le> d * 2 ^ K" using assms(4,2) by (rule le_trans)
  then have "J \<le> K" using assms(1) by simp
  then have "?b \<le> (K - 51) * 2 ^ 52" using assms(1,2,5) by (intro round_bits_bound) simp_all
  also have "\<dots> \<le> 2047 * 2 ^ 52" using assms(3) by (intro mult_le_mono1) simp
  finally have b: "?b \<le> 2047 * 2 ^ 52" .
  have r: "f64_round s n d = f64_pack s ?b" by (simp only: f64_round_def Let_def)
  have "2 ^ (J - 51 + 51) \<le> mag_bits ?b"
    using round_bits_lower [OF assms(1,4,5)] assms(5) by (intro mag_bits_lower) simp_all
  also have "\<dots> = f64_mag (f64_round s n d)"
    unfolding r f64_mag_def mag_bits_def f64_pack_fields [OF b] ..
  finally show ?thesis using assms(5) by simp
qed

lemma f64_of_int_lower:
  assumes "2 ^ j \<le> i" "i \<le> 2 ^ 1000"
  shows "2 ^ (1074 + j) \<le> f64_mag (f64_of_int i)" "f64_key (f64_of_int i) = int (f64_mag (f64_of_int i))"
proof -
  have "(0::int) < 2 ^ j" by simp
  with assms(1) have pos: "0 < i" by (rule less_le_trans [rotated])
  then have i: "0 < i" "2 ^ j \<le> nat \<bar>i\<bar>" "nat \<bar>i\<bar> \<le> 2 ^ 1000"
    using assms by (simp_all add: nat_le_iff le_nat_iff)
  have up: "nat \<bar>i\<bar> * 2 ^ 1074 \<le> 1 * 2 ^ 2074"
    using mult_le_mono1 [OF i(3), of "2 ^ 1074"] by (simp add: power_add [symmetric])
  have lo: "1 * 2 ^ (1074 + j) \<le> nat \<bar>i\<bar> * 2 ^ 1074"
    using mult_le_mono1 [OF i(2), of "2 ^ 1074"] by (simp add: power_add mult.commute)
  show "2 ^ (1074 + j) \<le> f64_mag (f64_of_int i)"
    unfolding f64_of_int_def by (rule f64_round_lower [OF _ up _ lo]) simp_all
  have "f64_sign (f64_of_int i) = False"
  proof -
    let ?N = "nat \<bar>i\<bar> * 2 ^ 1074"
    have "(log_quot ?N 1 - 52) * 2 ^ 52 + round_half_even ?N (1 * 2 ^ (log_quot ?N 1 - 52)) \<le> (2074 - 51) * 2 ^ 52"
      using up by (intro round_bits_bound) simp_all
    then show ?thesis using i(1) f64_pack_fields(3)
      by (simp add: f64_of_int_def f64_round_def Let_def)
  qed
  then show "f64_key (f64_of_int i) = int (f64_mag (f64_of_int i))" by (simp add: f64_key_def)
qed

section \<open>Exact integers\<close>

text \<open>Integers below \<open>2 ^ 53\<close> are represented exactly, so counting in doubles is exact up to there.\<close>

lemma bit_len_mult_exp: "0 < n \<Longrightarrow> bit_len (n * 2 ^ c) = bit_len n + c"
proof (induction c)
  case (Suc c)
  have "bit_len (n * 2 ^ Suc c) = Suc (bit_len (n * 2 ^ Suc c div 2))"
    using Suc.prems by (subst bit_len.simps) simp
  then show ?case using Suc by simp
qed simp

lemma round_half_even_scale: "0 < c \<Longrightarrow> round_half_even (n * c) (d * c) = round_half_even n d"
proof -
  assume c: "0 < c"
  have "2 * (n * c mod (d * c)) = 2 * (n mod d) * c" by (simp add: mult_mod_left)
  with c show ?thesis by (simp add: round_half_even_def Let_def)
qed

lemma log_quot_scale:
  assumes "0 < N" "0 < d"
  shows "log_quot (N * 2 ^ c) (d * 2 ^ c) = log_quot N d"
proof -
  have "d * 2 ^ c * 2 ^ k \<le> N * 2 ^ c \<longleftrightarrow> d * 2 ^ k \<le> N" for k
  proof -
    have "d * 2 ^ c * 2 ^ k = d * 2 ^ k * 2 ^ c" by (simp only: mult.assoc mult.commute mult.left_commute)
    then show ?thesis by simp
  qed
  then show ?thesis using assms by (simp add: log_quot_def bit_len_mult_exp)
qed

lemma f64_round_scale:
  assumes "0 < n" "0 < d"
  shows "f64_round s (n * 2 ^ c) (d * 2 ^ c) = f64_round s n d"
proof -
  have lq: "log_quot (n * 2 ^ 1074 * 2 ^ c) (d * 2 ^ c) = log_quot (n * 2 ^ 1074) d"
    using assms by (intro log_quot_scale) simp_all
  have rh: "round_half_even (n * 2 ^ 1074 * 2 ^ c) (d * 2 ^ u * 2 ^ c) = round_half_even (n * 2 ^ 1074) (d * 2 ^ u)" for u
    by (rule round_half_even_scale) simp
  have "n * 2 ^ c * 2 ^ 1074 = n * 2 ^ 1074 * 2 ^ c" "d * 2 ^ c * 2 ^ u = d * 2 ^ u * 2 ^ c" for u
    by (simp_all only: mult.assoc mult.commute mult.left_commute)
  then show ?thesis unfolding f64_round_def Let_def by (simp only: lq rh)
qed

lemma f64_round_exact:
  assumes "0 < k" "k < 2 ^ 53"
  shows "f64_mag (f64_round s k 1) = k * 2 ^ 1074"
    and "f64_sign (f64_round s k 1) = s" and "f64_expo (f64_round s k 1) < 2047"
proof -
  define N :: nat where "N = k * 2 ^ 1074"
  define lg where "lg = log_quot N 1"
  define ulp where "ulp = lg - 52"
  have N: "0 < N" using assms(1) by (simp add: N_def)
  have up: "N < 2 ^ Suc lg" using log_quot_upper [of N 1] N by (simp add: lg_def)
  have "2 ^ 1074 \<le> N" using assms(1) by (simp add: N_def)
  then have "(2::nat) ^ 1074 < 2 ^ Suc lg" using up by (rule le_less_trans)
  then have lg1: "1074 \<le> lg" using power_less_imp_less_exp [of "2::nat" 1074 "Suc lg"] by simp
  have lo: "2 ^ lg \<le> N" using log_quot_lower [of N 1] N lg1 by (simp add: lg_def)
  have "N < 2 ^ 53 * 2 ^ 1074" unfolding N_def by (rule mult_strict_right_mono [OF assms(2)]) simp
  then have "N < 2 ^ (53 + 1074)" by (simp only: power_add)
  with lo have "(2::nat) ^ lg < 2 ^ (53 + 1074)" by (rule le_less_trans)
  then have lg2: "lg < 1127" using power_less_imp_less_exp [of "2::nat" lg "53 + 1074"] by simp
  have ulp: "ulp \<le> 1074" "lg = 52 + ulp" "1022 \<le> ulp" using lg1 lg2 by (auto simp: ulp_def)
  define m where "m = k * 2 ^ (1074 - ulp)"
  have Nm: "N = m * 2 ^ ulp" using ulp(1) by (simp only: N_def m_def mult.assoc power_add [symmetric]) simp
  have "2 ^ 52 * 2 ^ ulp \<le> m * 2 ^ ulp" using lo unfolding Nm ulp(2) by (simp only: power_add)
  then have m1: "2 ^ 52 \<le> m" by (simp only: mult_le_cancel2) simp
  have "m * 2 ^ ulp < 2 ^ 53 * 2 ^ ulp" using up unfolding Nm ulp(2) by (simp only: power_add [symmetric]) simp
  then have m2: "m < 2 ^ 53" by (simp only: mult_less_cancel2)
  have "round_half_even N (1 * 2 ^ ulp) = m" by (simp add: round_half_even_def Nm)
  then have r: "f64_round s k 1 = f64_pack s (ulp * 2 ^ 52 + m)"
    unfolding f64_round_def Let_def by (simp only: N_def [symmetric] lg_def [symmetric] ulp_def [symmetric])
  have b: "ulp * 2 ^ 52 + m \<le> 2047 * 2 ^ 52"
  proof -
    have "ulp * 2 ^ 52 \<le> 1074 * 2 ^ 52" using ulp(1) by simp
    then show ?thesis using m2 by simp
  qed
  have fm: "(ulp * 2 ^ 52 + m) mod 2 ^ 52 = m - 2 ^ 52" "(ulp * 2 ^ 52 + m) div 2 ^ 52 = ulp + 1"
  proof -
    define r where "r = m - 2 ^ 52"
    have r: "m = 2 ^ 52 + r" "r < 2 ^ 52" using m1 m2 by (simp_all add: r_def)
    have "ulp * 2 ^ 52 + m = r + (ulp + 1) * 2 ^ 52" unfolding r(1) by (simp only: distrib_right mult_1 ac_simps)
    then show "(ulp * 2 ^ 52 + m) mod 2 ^ 52 = m - 2 ^ 52" "(ulp * 2 ^ 52 + m) div 2 ^ 52 = ulp + 1"
      using r(2) by (simp_all only: mod_mult_self1 div_mult_self1) (simp_all add: r(1))
  qed
  show "f64_mag (f64_round s k 1) = k * 2 ^ 1074"
    unfolding r f64_mag_def f64_pack_fields [OF b] fm N_def [symmetric] Nm using m1 by simp
  show "f64_sign (f64_round s k 1) = s" unfolding r by (rule f64_pack_fields [OF b])
  show "f64_expo (f64_round s k 1) < 2047" unfolding r f64_pack_fields [OF b] fm using ulp(1) by simp
qed

lemma f64_of_int_zero: "f64_of_int 0 = f64_zero"
proof -
  have "bit_len 0 = 0" by (subst bit_len.simps) simp
  then have "log_quot 0 1 = 0" by (simp add: log_quot_def)
  then show ?thesis by (simp add: f64_of_int_def f64_round_def round_half_even_def f64_pack_def f64_zero_def)
qed

lemma f64_of_nat_key:
  assumes "k < 2 ^ 53"
  shows "f64_key (f64_of_int (int k)) = int k * 2 ^ 1074 \<and> \<not> f64_is_nan (f64_of_int (int k)) \<and>
    \<not> f64_is_inf (f64_of_int (int k)) \<and> \<not> f64_sign (f64_of_int (int k))"
proof (cases "k = 0")
  case True
  then show ?thesis
    by (simp add: f64_of_int_zero f64_zero_def f64_key_def f64_mag_def f64_expo_def f64_frac_def f64_sign_def f64_is_nan_def f64_is_inf_def)
next
  case False
  have r: "f64_of_int (int k) = f64_round False k 1" by (simp add: f64_of_int_def)
  have x: "f64_mag (f64_of_int (int k)) = k * 2 ^ 1074" "f64_sign (f64_of_int (int k)) = False" "f64_expo (f64_of_int (int k)) < 2047"
    unfolding r using False assms by (intro f64_round_exact; simp)+
  then show ?thesis by (simp add: f64_key_def f64_is_nan_def f64_is_inf_def)
qed

lemma f64_add_exact:
  assumes "j < 2 ^ 53" "k < 2 ^ 53"
  shows "f64_add (f64_of_int (int j)) (f64_of_int (int k)) = f64_of_int (int (j + k))"
proof (cases "j + k = 0")
  case True
  then show ?thesis
    by (simp add: f64_of_int_zero f64_add_def f64_propagate_def f64_pack_def f64_zero_def f64_key_def f64_mag_def f64_expo_def f64_frac_def f64_is_nan_def f64_is_inf_def f64_sign_def)
next
  case False
  have k: "f64_key (f64_of_int (int j)) + f64_key (f64_of_int (int k)) = int ((j + k) * 2 ^ 1074)"
    using f64_of_nat_key [OF assms(1)] f64_of_nat_key [OF assms(2)] by (simp add: algebra_simps)
  have nz: "int ((j + k) * 2 ^ 1074) \<noteq> 0" using False unfolding of_nat_eq_0_iff by simp
  have "f64_round False ((j + k) * 2 ^ 1074) (1 * 2 ^ 1074) = f64_round False (j + k) 1"
    using False by (intro f64_round_scale) simp_all
  then show ?thesis
    unfolding f64_add_def f64_propagate_def Let_def k
    using f64_of_nat_key [OF assms(1)] f64_of_nat_key [OF assms(2)] nz
    by (simp only: if_False) (simp only: f64_of_int_def abs_of_nat nat_int mult_1 of_nat_less_0_iff)
qed

end
