(* ===== verification/Types.thy ===== *)
theory Types
  imports Cold_Store Float64
begin

text \<open>
  The records and enumerations of \<open>types.hpp\<close> and \<open>compute.hpp\<close>: the point query, the scan codec in
  its payload, aggregate operators and comparisons, predicates and the analytical query. The two
  enumerations travel as \<open>uint32_t\<close> and every switch over them has a default branch, so they are
  32-bit words with named values.
\<close>

section \<open>Point queries\<close>

record database_query =
  query_id :: u64
  timestamp_us :: u64
  transaction_id :: u64
  opcode :: u32
  payload_size :: u32
  payload :: "u8 list"

definition MATRIX_STORE_SLOTS :: u64 where "MATRIX_STORE_SLOTS = 65536"
definition MATRIX_STORE_MASK :: u64 where "MATRIX_STORE_MASK = MATRIX_STORE_SLOTS - 1"
definition MATRIX_PAGE_COUNT :: nat where "MATRIX_PAGE_COUNT = 1024"
definition MATRIX_PAGE_SIZE :: u64 where "MATRIX_PAGE_SIZE = 64"
definition MATRIX_BATCH_MAX :: nat where "MATRIX_BATCH_MAX = 65536"
definition MATRIX_SCAN_COLUMN_SIZE :: nat where "MATRIX_SCAN_COLUMN_SIZE = 2 ^ 24"

type_synonym agg_op = u32

definition AGG_COUNT :: agg_op where "AGG_COUNT = 0"
definition AGG_SUM :: agg_op where "AGG_SUM = 1"
definition AGG_MIN :: agg_op where "AGG_MIN = 2"
definition AGG_MAX :: agg_op where "AGG_MAX = 3"

lemmas agg_consts = AGG_COUNT_def AGG_SUM_def AGG_MIN_def AGG_MAX_def

lemma agg_distinct [simp]:
  "AGG_COUNT \<noteq> AGG_SUM" "AGG_COUNT \<noteq> AGG_MIN" "AGG_COUNT \<noteq> AGG_MAX" "AGG_SUM \<noteq> AGG_MIN" "AGG_SUM \<noteq> AGG_MAX"
  "AGG_MIN \<noteq> AGG_MAX" "AGG_SUM \<noteq> AGG_COUNT" "AGG_MIN \<noteq> AGG_COUNT" "AGG_MAX \<noteq> AGG_COUNT" "AGG_MIN \<noteq> AGG_SUM"
  "AGG_MAX \<noteq> AGG_SUM" "AGG_MAX \<noteq> AGG_MIN"
  by (simp_all add: agg_consts)

text \<open>
  Which page owns a key. The division is of 64-bit words.
\<close>

definition matrix_page_of :: "u64 \<Rightarrow> nat" where
  "matrix_page_of key = unat ((key AND MATRIX_STORE_MASK) div MATRIX_PAGE_SIZE)"

text \<open>The scan codec: threshold at payload offset 0, column id at 8, aggregate operator at 16.\<close>

definition poke :: "nat \<Rightarrow> u8 list \<Rightarrow> u8 list \<Rightarrow> u8 list" where
  "poke off bs p = take off p @ bs @ drop (off + length bs) p"

definition matrix_set_scan_target :: "u32 \<Rightarrow> u64 \<Rightarrow> database_query \<Rightarrow> database_query" where
  "matrix_set_scan_target threshold column_id q =
     q\<lparr>opcode := OP_SCAN, payload := poke 8 (u64_bytes column_id) (poke 0 (u32_bytes threshold) (payload q))\<rparr>"

definition matrix_get_scan_column_id :: "database_query \<Rightarrow> u64" where
  "matrix_get_scan_column_id q = le_decode (take 8 (drop 8 (payload q)))"

definition matrix_set_scan_threshold :: "u32 \<Rightarrow> database_query \<Rightarrow> database_query" where
  "matrix_set_scan_threshold threshold = matrix_set_scan_target threshold 0"

definition matrix_get_scan_threshold :: "database_query \<Rightarrow> u32" where
  "matrix_get_scan_threshold q = le_decode (take 4 (payload q))"

definition matrix_set_scan_agg_op :: "agg_op \<Rightarrow> database_query \<Rightarrow> database_query" where
  "matrix_set_scan_agg_op op q = q\<lparr>payload := poke 16 (u32_bytes op) (payload q)\<rparr>"

definition matrix_get_scan_agg_op :: "database_query \<Rightarrow> agg_op" where
  "matrix_get_scan_agg_op q = le_decode (take 4 (drop 16 (payload q)))"

section \<open>Signed 64-bit integers\<close>

text \<open>An \<open>int64_t\<close> is its two's-complement bits, ordered by signed value; addition wraps.\<close>

datatype i64 = I64 (i64_bits: u64)

instantiation i64 :: linorder
begin

definition less_eq_i64 :: "i64 \<Rightarrow> i64 \<Rightarrow> bool" where
  "less_eq_i64 x y \<longleftrightarrow> sint (i64_bits x) \<le> sint (i64_bits y)"

definition less_i64 :: "i64 \<Rightarrow> i64 \<Rightarrow> bool" where
  "less_i64 x y \<longleftrightarrow> sint (i64_bits x) < sint (i64_bits y)"

instance
proof
  fix x y :: i64
  assume "x \<le> y" "y \<le> x"
  then have "sint (i64_bits x) = sint (i64_bits y)" by (simp add: less_eq_i64_def)
  then have "i64_bits x = i64_bits y" by (rule signed_word_eqI)
  then show "x = y" by (rule i64.expand)
qed (auto simp: less_eq_i64_def less_i64_def)

end

text \<open>
  The sum of two \<open>int64_t\<close>. C++ leaves overflow undefined; the model wraps, which is what the compiled addition does and
  what the comment on the device reductions relies on. Without overflow it is the exact sum.
\<close>

definition i64_add :: "i64 \<Rightarrow> i64 \<Rightarrow> i64" where
  "i64_add x y = I64 (i64_bits x + i64_bits y)"

definition INT64_MAX :: i64 where "INT64_MAX = I64 0x7FFFFFFFFFFFFFFF"
definition INT64_MIN :: i64 where "INT64_MIN = I64 0x8000000000000000"
definition UINT64_MAX :: u64 where "UINT64_MAX = 0xFFFFFFFFFFFFFFFF"

section \<open>Types, predicates and queries\<close>

datatype matrix_type = U32 | TI64 | TF64

definition matrix_type_code :: "matrix_type \<Rightarrow> u32" where
  "matrix_type_code t = (case t of U32 \<Rightarrow> 0 | TI64 \<Rightarrow> 1 | TF64 \<Rightarrow> 2)"

type_synonym matrix_cmp = u32

definition CMP_GT :: matrix_cmp where "CMP_GT = 0"
definition CMP_GE :: matrix_cmp where "CMP_GE = 1"
definition CMP_LT :: matrix_cmp where "CMP_LT = 2"
definition CMP_LE :: matrix_cmp where "CMP_LE = 3"
definition CMP_EQ :: matrix_cmp where "CMP_EQ = 4"
definition CMP_NE :: matrix_cmp where "CMP_NE = 5"
definition CMP_BETWEEN :: matrix_cmp where "CMP_BETWEEN = 6"

lemmas cmp_consts = CMP_GT_def CMP_GE_def CMP_LT_def CMP_LE_def CMP_EQ_def CMP_NE_def CMP_BETWEEN_def

record 'a predicate =
  p_cmp :: matrix_cmp
  p_a :: 'a
  p_b :: 'a

definition matrix_pred_match :: "u32 \<Rightarrow> u32 predicate \<Rightarrow> bool" where
  "matrix_pred_match v p =
     (if p_cmp p = CMP_GE then v \<ge> p_a p
      else if p_cmp p = CMP_LT then v < p_a p
      else if p_cmp p = CMP_LE then v \<le> p_a p
      else if p_cmp p = CMP_EQ then v = p_a p
      else if p_cmp p = CMP_NE then v \<noteq> p_a p
      else if p_cmp p = CMP_BETWEEN then v \<ge> p_a p \<and> v \<le> p_b p
      else v > p_a p)"

definition matrix_pred_match_i64 :: "i64 \<Rightarrow> i64 predicate \<Rightarrow> bool" where
  "matrix_pred_match_i64 v p =
     (if p_cmp p = CMP_GE then v \<ge> p_a p
      else if p_cmp p = CMP_LT then v < p_a p
      else if p_cmp p = CMP_LE then v \<le> p_a p
      else if p_cmp p = CMP_EQ then v = p_a p
      else if p_cmp p = CMP_NE then v \<noteq> p_a p
      else if p_cmp p = CMP_BETWEEN then v \<ge> p_a p \<and> v \<le> p_b p
      else v > p_a p)"

definition matrix_pred_match_f64 :: "f64 \<Rightarrow> f64 predicate \<Rightarrow> bool" where
  "matrix_pred_match_f64 v p =
     (if p_cmp p = CMP_GE then f64_le (p_a p) v
      else if p_cmp p = CMP_LT then f64_lt v (p_a p)
      else if p_cmp p = CMP_LE then f64_le v (p_a p)
      else if p_cmp p = CMP_EQ then f64_eq v (p_a p)
      else if p_cmp p = CMP_NE then \<not> f64_eq v (p_a p)
      else if p_cmp p = CMP_BETWEEN then f64_le (p_a p) v \<and> f64_le v (p_b p)
      else f64_lt (p_a p) v)"

record matrix_query =
  q_value_col :: u64
  q_agg :: agg_op
  q_has_filter :: bool
  q_threshold :: u32
  q_cmp :: matrix_cmp
  q_upper :: u32
  q_lo_i64 :: i64
  q_hi_i64 :: i64
  q_lo_f64 :: f64
  q_hi_f64 :: f64
  q_grouped :: bool
  q_key_col :: u64
  q_num_groups :: u32
  q_limit :: u64
  q_filter_col :: u64

definition default_query :: matrix_query where
  "default_query =
     \<lparr>q_value_col = 0, q_agg = AGG_COUNT, q_has_filter = False, q_threshold = 0, q_cmp = CMP_GT, q_upper = 0,
      q_lo_i64 = I64 0, q_hi_i64 = I64 0, q_lo_f64 = f64_zero, q_hi_f64 = f64_zero, q_grouped = False,
      q_key_col = 0, q_num_groups = 0, q_limit = 0, q_filter_col = 0\<rparr>"

datatype query_status =
  OK | ERR_UNKNOWN_COLUMN | ERR_INVALID_GROUP | ERR_TOO_MANY_GROUPS | ERR_UNSUPPORTED_TYPE | ERR_PARSE

section \<open>Lemmas\<close>

lemma poke_length: "off + length bs \<le> length p \<Longrightarrow> length (poke off bs p) = length p"
  by (simp add: poke_def)

lemma poke_peek: "off + length bs \<le> length p \<Longrightarrow> take (length bs) (drop off (poke off bs p)) = bs"
  by (simp add: poke_def)

lemma poke_peek_before:
  "off + length bs \<le> length p \<Longrightarrow> i + n \<le> off \<Longrightarrow> take n (drop i (poke off bs p)) = take n (drop i p)"
  by (simp add: poke_def drop_take [symmetric] take_drop)

lemma matrix_page_of_less: "matrix_page_of key < MATRIX_PAGE_COUNT"
proof -
  have "unat (key AND MATRIX_STORE_MASK) \<le> 65535"
    using word_and_le1 [of key MATRIX_STORE_MASK]
    by (simp add: MATRIX_STORE_MASK_def MATRIX_STORE_SLOTS_def word_le_nat_alt)
  then show ?thesis
    by (simp add: matrix_page_of_def unat_div MATRIX_PAGE_SIZE_def MATRIX_PAGE_COUNT_def)
qed

end
