(* ===== verification/Reduce.thy ===== *)
theory Reduce
  imports Types "HOL-Library.Multiset"
begin

text \<open>
  The CPU reducers of \<open>compute.hpp\<close>: scalar and grouped aggregates over columns of the three
  element types, with WHERE predicates, null masks and filters on another column. A column is a
  list and \<open>n\<close> its number of rows; the loops run over the row numbers \<open>[0..<n]\<close>. A null mask is
  \<open>None\<close> for the null pointer. SUM of \<open>int64_t\<close> wraps.
\<close>

section \<open>Scalar reducers\<close>

definition for_if :: "nat \<Rightarrow> (nat \<Rightarrow> bool) \<Rightarrow> (nat \<Rightarrow> 'a \<Rightarrow> 'a) \<Rightarrow> 'a \<Rightarrow> 'a" where
  "for_if n cond f s = fold (\<lambda>i s. if cond i then f i s else s) [0..<n] s"

definition not_null :: "u8 list option \<Rightarrow> nat \<Rightarrow> bool" where
  "not_null nulls i = (case nulls of None \<Rightarrow> True | Some m \<Rightarrow> m ! i = 0)"

definition matrix_cpu_reduce :: "u32 list \<Rightarrow> nat \<Rightarrow> u32 \<Rightarrow> agg_op \<Rightarrow> u64" where
  "matrix_cpu_reduce v n threshold op =
     (if op = AGG_SUM then for_if n (\<lambda>i. threshold < v ! i) (\<lambda>i s. s + ucast (v ! i)) 0
      else if op = AGG_MIN then for_if n (\<lambda>i. threshold < v ! i) (\<lambda>i m. if ucast (v ! i) < m then ucast (v ! i) else m) UINT64_MAX
      else if op = AGG_MAX then for_if n (\<lambda>i. threshold < v ! i) (\<lambda>i m. if m < ucast (v ! i) then ucast (v ! i) else m) 0
      else fold (\<lambda>i c. c + (if threshold < v ! i then 1 else 0)) [0..<n] 0)"

definition matrix_cpu_reduce_all :: "u32 list \<Rightarrow> nat \<Rightarrow> agg_op \<Rightarrow> u64" where
  "matrix_cpu_reduce_all v n op =
     (if op = AGG_SUM then for_if n (\<lambda>i. True) (\<lambda>i s. s + ucast (v ! i)) 0
      else if op = AGG_MIN then for_if n (\<lambda>i. True) (\<lambda>i m. if ucast (v ! i) < m then ucast (v ! i) else m) UINT64_MAX
      else if op = AGG_MAX then for_if n (\<lambda>i. True) (\<lambda>i m. if m < ucast (v ! i) then ucast (v ! i) else m) 0
      else of_nat n)"

definition matrix_cpu_reduce_all_nullable :: "u32 list \<Rightarrow> nat \<Rightarrow> agg_op \<Rightarrow> u8 list \<Rightarrow> u64" where
  "matrix_cpu_reduce_all_nullable v n op nulls =
     (if op = AGG_SUM then for_if n (\<lambda>i. nulls ! i = 0) (\<lambda>i s. s + ucast (v ! i)) 0
      else if op = AGG_MIN then for_if n (\<lambda>i. nulls ! i = 0) (\<lambda>i m. if ucast (v ! i) < m then ucast (v ! i) else m) UINT64_MAX
      else if op = AGG_MAX then for_if n (\<lambda>i. nulls ! i = 0) (\<lambda>i m. if m < ucast (v ! i) then ucast (v ! i) else m) 0
      else fold (\<lambda>i c. c + (if nulls ! i = 0 then 1 else 0)) [0..<n] 0)"

definition matrix_cpu_reduce_all_i64 :: "i64 list \<Rightarrow> nat \<Rightarrow> agg_op \<Rightarrow> i64" where
  "matrix_cpu_reduce_all_i64 v n op =
     (if op = AGG_SUM then for_if n (\<lambda>i. True) (\<lambda>i s. i64_add s (v ! i)) (I64 0)
      else if op = AGG_MIN then for_if n (\<lambda>i. True) (\<lambda>i m. if v ! i < m then v ! i else m) INT64_MAX
      else if op = AGG_MAX then for_if n (\<lambda>i. True) (\<lambda>i m. if m < v ! i then v ! i else m) INT64_MIN
      else I64 (of_nat n))"

definition matrix_cpu_reduce_all_i64_nullable :: "i64 list \<Rightarrow> nat \<Rightarrow> agg_op \<Rightarrow> u8 list \<Rightarrow> i64" where
  "matrix_cpu_reduce_all_i64_nullable v n op nulls =
     (if op = AGG_SUM then for_if n (\<lambda>i. nulls ! i = 0) (\<lambda>i s. i64_add s (v ! i)) (I64 0)
      else if op = AGG_MIN then for_if n (\<lambda>i. nulls ! i = 0) (\<lambda>i m. if v ! i < m then v ! i else m) INT64_MAX
      else if op = AGG_MAX then for_if n (\<lambda>i. nulls ! i = 0) (\<lambda>i m. if m < v ! i then v ! i else m) INT64_MIN
      else fold (\<lambda>i c. i64_add c (I64 (if nulls ! i = 0 then 1 else 0))) [0..<n] (I64 0))"

definition matrix_cpu_reduce_pred :: "u32 list \<Rightarrow> nat \<Rightarrow> u32 predicate \<Rightarrow> agg_op \<Rightarrow> u8 list option \<Rightarrow> u64" where
  "matrix_cpu_reduce_pred v n p op nulls =
     (if op = AGG_SUM then for_if n (\<lambda>i. not_null nulls i \<and> matrix_pred_match (v ! i) p) (\<lambda>i s. s + ucast (v ! i)) 0
      else if op = AGG_MIN then for_if n (\<lambda>i. not_null nulls i \<and> matrix_pred_match (v ! i) p) (\<lambda>i m. if ucast (v ! i) < m then ucast (v ! i) else m) UINT64_MAX
      else if op = AGG_MAX then for_if n (\<lambda>i. not_null nulls i \<and> matrix_pred_match (v ! i) p) (\<lambda>i m. if m < ucast (v ! i) then ucast (v ! i) else m) 0
      else fold (\<lambda>i c. c + (if not_null nulls i \<and> matrix_pred_match (v ! i) p then 1 else 0)) [0..<n] 0)"

definition matrix_cpu_reduce_pred_i64 :: "i64 list \<Rightarrow> nat \<Rightarrow> i64 predicate \<Rightarrow> agg_op \<Rightarrow> u8 list option \<Rightarrow> i64" where
  "matrix_cpu_reduce_pred_i64 v n p op nulls =
     (if op = AGG_SUM then for_if n (\<lambda>i. not_null nulls i \<and> matrix_pred_match_i64 (v ! i) p) (\<lambda>i s. i64_add s (v ! i)) (I64 0)
      else if op = AGG_MIN then for_if n (\<lambda>i. not_null nulls i \<and> matrix_pred_match_i64 (v ! i) p) (\<lambda>i m. if v ! i < m then v ! i else m) INT64_MAX
      else if op = AGG_MAX then for_if n (\<lambda>i. not_null nulls i \<and> matrix_pred_match_i64 (v ! i) p) (\<lambda>i m. if m < v ! i then v ! i else m) INT64_MIN
      else fold (\<lambda>i c. i64_add c (I64 (if not_null nulls i \<and> matrix_pred_match_i64 (v ! i) p then 1 else 0))) [0..<n] (I64 0))"

definition matrix_cpu_reduce_pred_f64 :: "f64 list \<Rightarrow> nat \<Rightarrow> f64 predicate \<Rightarrow> agg_op \<Rightarrow> u8 list option \<Rightarrow> f64" where
  "matrix_cpu_reduce_pred_f64 v n p op nulls =
     (if op = AGG_SUM then for_if n (\<lambda>i. not_null nulls i \<and> matrix_pred_match_f64 (v ! i) p) (\<lambda>i s. f64_add s (v ! i)) f64_zero
      else if op = AGG_MIN then for_if n (\<lambda>i. not_null nulls i \<and> matrix_pred_match_f64 (v ! i) p) (\<lambda>i m. if f64_lt (v ! i) m then v ! i else m) f64_inf
      else if op = AGG_MAX then for_if n (\<lambda>i. not_null nulls i \<and> matrix_pred_match_f64 (v ! i) p) (\<lambda>i m. if f64_lt m (v ! i) then v ! i else m) f64_ninf
      else fold (\<lambda>i c. f64_add c (if not_null nulls i \<and> matrix_pred_match_f64 (v ! i) p then f64_of_int 1 else f64_zero)) [0..<n] f64_zero)"

definition matrix_cpu_reduce_all_f64 :: "f64 list \<Rightarrow> nat \<Rightarrow> agg_op \<Rightarrow> f64" where
  "matrix_cpu_reduce_all_f64 v n op =
     (if op = AGG_SUM then for_if n (\<lambda>i. True) (\<lambda>i s. f64_add s (v ! i)) f64_zero
      else if op = AGG_MIN then for_if n (\<lambda>i. True) (\<lambda>i m. if f64_lt (v ! i) m then v ! i else m) f64_inf
      else if op = AGG_MAX then for_if n (\<lambda>i. True) (\<lambda>i m. if f64_lt m (v ! i) then v ! i else m) f64_ninf
      else f64_of_u64 (of_nat n))"

definition matrix_cpu_reduce_all_f64_nullable :: "f64 list \<Rightarrow> nat \<Rightarrow> agg_op \<Rightarrow> u8 list \<Rightarrow> f64" where
  "matrix_cpu_reduce_all_f64_nullable v n op nulls =
     (if op = AGG_SUM then for_if n (\<lambda>i. nulls ! i = 0) (\<lambda>i s. f64_add s (v ! i)) f64_zero
      else if op = AGG_MIN then for_if n (\<lambda>i. nulls ! i = 0) (\<lambda>i m. if f64_lt (v ! i) m then v ! i else m) f64_inf
      else if op = AGG_MAX then for_if n (\<lambda>i. nulls ! i = 0) (\<lambda>i m. if f64_lt m (v ! i) then v ! i else m) f64_ninf
      else fold (\<lambda>i c. f64_add c (if nulls ! i = 0 then f64_of_int 1 else f64_zero)) [0..<n] f64_zero)"

text \<open>The filter is on another, aligned column \<open>f\<close>.\<close>

definition matrix_cpu_reduce_filtered_by :: "u32 list \<Rightarrow> u32 predicate \<Rightarrow> u32 list \<Rightarrow> nat \<Rightarrow> agg_op \<Rightarrow> u64" where
  "matrix_cpu_reduce_filtered_by f p a n op =
     (if op = AGG_SUM then for_if n (\<lambda>i. matrix_pred_match (f ! i) p) (\<lambda>i s. s + ucast (a ! i)) 0
      else if op = AGG_MIN then for_if n (\<lambda>i. matrix_pred_match (f ! i) p) (\<lambda>i m. if ucast (a ! i) < m then ucast (a ! i) else m) UINT64_MAX
      else if op = AGG_MAX then for_if n (\<lambda>i. matrix_pred_match (f ! i) p) (\<lambda>i m. if m < ucast (a ! i) then ucast (a ! i) else m) 0
      else fold (\<lambda>i c. c + (if matrix_pred_match (f ! i) p then 1 else 0)) [0..<n] 0)"

definition matrix_cpu_reduce_filtered_by_i64 :: "u32 list \<Rightarrow> u32 predicate \<Rightarrow> i64 list \<Rightarrow> nat \<Rightarrow> agg_op \<Rightarrow> i64" where
  "matrix_cpu_reduce_filtered_by_i64 f p a n op =
     (if op = AGG_SUM then for_if n (\<lambda>i. matrix_pred_match (f ! i) p) (\<lambda>i s. i64_add s (a ! i)) (I64 0)
      else if op = AGG_MIN then for_if n (\<lambda>i. matrix_pred_match (f ! i) p) (\<lambda>i m. if a ! i < m then a ! i else m) INT64_MAX
      else if op = AGG_MAX then for_if n (\<lambda>i. matrix_pred_match (f ! i) p) (\<lambda>i m. if m < a ! i then a ! i else m) INT64_MIN
      else fold (\<lambda>i c. i64_add c (I64 (if matrix_pred_match (f ! i) p then 1 else 0))) [0..<n] (I64 0))"

definition matrix_cpu_reduce_filtered_by_f64 :: "u32 list \<Rightarrow> u32 predicate \<Rightarrow> f64 list \<Rightarrow> nat \<Rightarrow> agg_op \<Rightarrow> f64" where
  "matrix_cpu_reduce_filtered_by_f64 f p a n op =
     (if op = AGG_SUM then for_if n (\<lambda>i. matrix_pred_match (f ! i) p) (\<lambda>i s. f64_add s (a ! i)) f64_zero
      else if op = AGG_MIN then for_if n (\<lambda>i. matrix_pred_match (f ! i) p) (\<lambda>i m. if f64_lt (a ! i) m then a ! i else m) f64_inf
      else if op = AGG_MAX then for_if n (\<lambda>i. matrix_pred_match (f ! i) p) (\<lambda>i m. if f64_lt m (a ! i) then a ! i else m) f64_ninf
      else fold (\<lambda>i c. f64_add c (if matrix_pred_match (f ! i) p then f64_of_int 1 else f64_zero)) [0..<n] f64_zero)"

section \<open>Grouped reducers\<close>

text \<open>
  One accumulator per group, updated in row order. \<open>agg_step\<close> is the switch in the body of the grouped
  loops; \<open>agg_init\<close> the value of an empty group.
\<close>

definition agg_step :: "('a \<Rightarrow> 'a \<Rightarrow> bool) \<Rightarrow> ('a \<Rightarrow> 'a \<Rightarrow> 'a) \<Rightarrow> 'a \<Rightarrow> agg_op \<Rightarrow> 'a \<Rightarrow> 'a \<Rightarrow> 'a" where
  "agg_step lt add one op v acc =
     (if op = AGG_SUM then add acc v
      else if op = AGG_MIN then (if lt v acc then v else acc)
      else if op = AGG_MAX then (if lt acc v then v else acc)
      else add acc one)"

definition agg_init :: "'a \<Rightarrow> 'a \<Rightarrow> 'a \<Rightarrow> agg_op \<Rightarrow> 'a" where
  "agg_init zero hi lo op = (if op = AGG_MIN then hi else if op = AGG_MAX then lo else zero)"

definition group_loop ::
  "nat \<Rightarrow> (nat \<Rightarrow> bool) \<Rightarrow> (nat \<Rightarrow> nat) \<Rightarrow> (nat \<Rightarrow> 'a \<Rightarrow> 'a) \<Rightarrow> 'a list \<Rightarrow> 'a list" where
  "group_loop n cond key step out =
     fold (\<lambda>i out. if \<not> cond i then out
                   else if length out \<le> key i then out
                   else out[key i := step i (out ! key i)]) [0..<n] out"

abbreviation u64_step :: "agg_op \<Rightarrow> u64 \<Rightarrow> u64 \<Rightarrow> u64" where
  "u64_step \<equiv> agg_step (<) (+) 1"

abbreviation i64_step :: "agg_op \<Rightarrow> i64 \<Rightarrow> i64 \<Rightarrow> i64" where
  "i64_step \<equiv> agg_step (<) i64_add (I64 1)"

abbreviation f64_step :: "agg_op \<Rightarrow> f64 \<Rightarrow> f64 \<Rightarrow> f64" where
  "f64_step \<equiv> agg_step f64_lt f64_add (f64_of_int 1)"

abbreviation u64_init :: "agg_op \<Rightarrow> u64" where
  "u64_init \<equiv> agg_init 0 UINT64_MAX 0"

abbreviation i64_init :: "agg_op \<Rightarrow> i64" where
  "i64_init \<equiv> agg_init (I64 0) INT64_MAX INT64_MIN"

abbreviation f64_init :: "agg_op \<Rightarrow> f64" where
  "f64_init \<equiv> agg_init f64_zero f64_inf f64_ninf"

definition matrix_group_reduce_impl ::
  "bool \<Rightarrow> u32 list \<Rightarrow> u32 list \<Rightarrow> nat \<Rightarrow> u32 \<Rightarrow> agg_op \<Rightarrow> u32 predicate \<Rightarrow> u8 list option \<Rightarrow> u64 list" where
  "matrix_group_reduce_impl filtered keys values n num_groups op pred nulls =
     group_loop n (\<lambda>i. not_null nulls i \<and> (filtered \<longrightarrow> matrix_pred_match (values ! i) pred))
       (\<lambda>i. unat (keys ! i)) (\<lambda>i. u64_step op (ucast (values ! i))) (replicate (unat num_groups) (u64_init op))"

definition matrix_cpu_group_reduce ::
  "u32 list \<Rightarrow> u32 list \<Rightarrow> nat \<Rightarrow> u32 \<Rightarrow> agg_op \<Rightarrow> u8 list option \<Rightarrow> u64 list" where
  "matrix_cpu_group_reduce keys values n num_groups op nulls =
     matrix_group_reduce_impl False keys values n num_groups op
       \<lparr>p_cmp = CMP_GT, p_a = 0, p_b = 0\<rparr> nulls"

definition matrix_cpu_group_reduce_where ::
  "u32 list \<Rightarrow> u32 list \<Rightarrow> nat \<Rightarrow> u32 \<Rightarrow> agg_op \<Rightarrow> u32 \<Rightarrow> u64 list" where
  "matrix_cpu_group_reduce_where keys values n num_groups op threshold =
     matrix_group_reduce_impl True keys values n num_groups op \<lparr>p_cmp = CMP_GT, p_a = threshold, p_b = 0\<rparr> None"

definition matrix_cpu_group_reduce_pred ::
  "u32 list \<Rightarrow> u32 list \<Rightarrow> nat \<Rightarrow> u32 \<Rightarrow> agg_op \<Rightarrow> u32 predicate \<Rightarrow> u8 list option \<Rightarrow> u64 list" where
  "matrix_cpu_group_reduce_pred keys values n num_groups op pred nulls =
     matrix_group_reduce_impl True keys values n num_groups op pred nulls"

definition matrix_group_reduce_i64_impl ::
  "bool \<Rightarrow> u32 list \<Rightarrow> i64 list \<Rightarrow> nat \<Rightarrow> u32 \<Rightarrow> agg_op \<Rightarrow> i64 predicate \<Rightarrow> u8 list option \<Rightarrow> i64 list" where
  "matrix_group_reduce_i64_impl filtered keys values n num_groups op pred nulls =
     group_loop n (\<lambda>i. not_null nulls i \<and> (filtered \<longrightarrow> matrix_pred_match_i64 (values ! i) pred))
       (\<lambda>i. unat (keys ! i)) (\<lambda>i. i64_step op (values ! i)) (replicate (unat num_groups) (i64_init op))"

definition matrix_cpu_group_reduce_i64 ::
  "u32 list \<Rightarrow> i64 list \<Rightarrow> nat \<Rightarrow> u32 \<Rightarrow> agg_op \<Rightarrow> u8 list option \<Rightarrow> i64 list" where
  "matrix_cpu_group_reduce_i64 keys values n num_groups op nulls =
     matrix_group_reduce_i64_impl False keys values n num_groups op
       \<lparr>p_cmp = CMP_GT, p_a = I64 0, p_b = I64 0\<rparr> nulls"

definition matrix_cpu_group_reduce_i64_pred ::
  "u32 list \<Rightarrow> i64 list \<Rightarrow> nat \<Rightarrow> u32 \<Rightarrow> agg_op \<Rightarrow> i64 predicate \<Rightarrow> u8 list option \<Rightarrow> i64 list" where
  "matrix_cpu_group_reduce_i64_pred keys values n num_groups op pred nulls =
     matrix_group_reduce_i64_impl True keys values n num_groups op pred nulls"

definition matrix_group_reduce_f64_impl ::
  "bool \<Rightarrow> u32 list \<Rightarrow> f64 list \<Rightarrow> nat \<Rightarrow> u32 \<Rightarrow> agg_op \<Rightarrow> f64 predicate \<Rightarrow> u8 list option \<Rightarrow> f64 list" where
  "matrix_group_reduce_f64_impl filtered keys values n num_groups op pred nulls =
     group_loop n (\<lambda>i. not_null nulls i \<and> (filtered \<longrightarrow> matrix_pred_match_f64 (values ! i) pred))
       (\<lambda>i. unat (keys ! i)) (\<lambda>i. f64_step op (values ! i)) (replicate (unat num_groups) (f64_init op))"

definition matrix_cpu_group_reduce_f64 ::
  "u32 list \<Rightarrow> f64 list \<Rightarrow> nat \<Rightarrow> u32 \<Rightarrow> agg_op \<Rightarrow> u8 list option \<Rightarrow> f64 list" where
  "matrix_cpu_group_reduce_f64 keys values n num_groups op nulls =
     matrix_group_reduce_f64_impl False keys values n num_groups op
       \<lparr>p_cmp = CMP_GT, p_a = f64_zero, p_b = f64_zero\<rparr> nulls"

definition matrix_cpu_group_reduce_f64_pred ::
  "u32 list \<Rightarrow> f64 list \<Rightarrow> nat \<Rightarrow> u32 \<Rightarrow> agg_op \<Rightarrow> f64 predicate \<Rightarrow> u8 list option \<Rightarrow> f64 list" where
  "matrix_cpu_group_reduce_f64_pred keys values n num_groups op pred nulls =
     matrix_group_reduce_f64_impl True keys values n num_groups op pred nulls"

definition matrix_cpu_group_reduce_filtered_by ::
  "u32 list \<Rightarrow> u32 list \<Rightarrow> u32 predicate \<Rightarrow> u32 list \<Rightarrow> nat \<Rightarrow> u32 \<Rightarrow> agg_op \<Rightarrow> u64 list" where
  "matrix_cpu_group_reduce_filtered_by keys f fp values n num_groups op =
     group_loop n (\<lambda>i. matrix_pred_match (f ! i) fp)
       (\<lambda>i. unat (keys ! i)) (\<lambda>i. u64_step op (ucast (values ! i))) (replicate (unat num_groups) (u64_init op))"

definition matrix_cpu_group_reduce_filtered_by_i64 ::
  "u32 list \<Rightarrow> u32 list \<Rightarrow> u32 predicate \<Rightarrow> i64 list \<Rightarrow> nat \<Rightarrow> u32 \<Rightarrow> agg_op \<Rightarrow> i64 list" where
  "matrix_cpu_group_reduce_filtered_by_i64 keys f fp values n num_groups op =
     group_loop n (\<lambda>i. matrix_pred_match (f ! i) fp)
       (\<lambda>i. unat (keys ! i)) (\<lambda>i. i64_step op (values ! i)) (replicate (unat num_groups) (i64_init op))"

definition matrix_cpu_group_reduce_filtered_by_f64 ::
  "u32 list \<Rightarrow> u32 list \<Rightarrow> u32 predicate \<Rightarrow> f64 list \<Rightarrow> nat \<Rightarrow> u32 \<Rightarrow> agg_op \<Rightarrow> f64 list" where
  "matrix_cpu_group_reduce_filtered_by_f64 keys f fp values n num_groups op =
     group_loop n (\<lambda>i. matrix_pred_match (f ! i) fp)
       (\<lambda>i. unat (keys ! i)) (\<lambda>i. f64_step op (values ! i)) (replicate (unat num_groups) (f64_init op))"

section \<open>Aggregates of a list of values\<close>

text \<open>
  The reducers as folds of \<open>agg_step\<close> over the selected values, and what such a fold computes. The
  interface is a strict order for MIN and MAX and an addition for SUM and COUNT; \<open>linear_aggregate\<close>
  adds that the order is linear with \<open>hi\<close> and \<open>lo\<close> at its ends, which the doubles, with their
  NaNs, do not satisfy.
\<close>

locale aggregate =
  fixes lt :: "'a \<Rightarrow> 'a \<Rightarrow> bool" and add :: "'a \<Rightarrow> 'a \<Rightarrow> 'a" and zero one hi lo :: 'a
  assumes lt_irrefl: "\<not> lt x x"
    and lt_trans: "lt x y \<Longrightarrow> lt y z \<Longrightarrow> lt x z"
begin

definition agg_list :: "agg_op \<Rightarrow> 'a list \<Rightarrow> 'a" where
  "agg_list op vs = fold (agg_step lt add one op) vs (agg_init zero hi lo op)"

lemma min_fold:
  "let r = fold (agg_step lt add one AGG_MIN) vs m in
   (r = m \<or> r \<in> set vs \<and> lt r m) \<and> (\<forall>v \<in> set vs. \<not> lt v r)"
proof (induction vs arbitrary: m)
  case Nil
  show ?case by simp
next
  case (Cons v vs)
  let ?m = "if lt v m then v else m"
  define r where "r = fold (agg_step lt add one AGG_MIN) vs ?m"
  have r: "fold (agg_step lt add one AGG_MIN) (v # vs) m = r" by (simp add: r_def agg_step_def)
  have IH: "r = ?m \<or> r \<in> set vs \<and> lt r ?m" "\<forall>v \<in> set vs. \<not> lt v r"
    using Cons.IH [of ?m] by (simp_all add: r_def Let_def)
  have "r = m \<or> r \<in> set (v # vs) \<and> lt r m" using IH(1) lt_trans [of r v m] by (auto split: if_splits)
  moreover have "\<not> lt v r"
    using IH(1) lt_irrefl [of v] lt_trans [of v r ?m] by (cases "lt v m") auto
  ultimately show ?case unfolding r Let_def using IH(2) by auto
qed

lemma max_fold:
  "let r = fold (agg_step lt add one AGG_MAX) vs m in
   (r = m \<or> r \<in> set vs \<and> lt m r) \<and> (\<forall>v \<in> set vs. \<not> lt r v)"
proof (induction vs arbitrary: m)
  case Nil
  show ?case by simp
next
  case (Cons v vs)
  let ?m = "if lt m v then v else m"
  define r where "r = fold (agg_step lt add one AGG_MAX) vs ?m"
  have r: "fold (agg_step lt add one AGG_MAX) (v # vs) m = r" by (simp add: r_def agg_step_def)
  have IH: "r = ?m \<or> r \<in> set vs \<and> lt ?m r" "\<forall>v \<in> set vs. \<not> lt r v"
    using Cons.IH [of ?m] by (simp_all add: r_def Let_def)
  have "r = m \<or> r \<in> set (v # vs) \<and> lt m r" using IH(1) lt_trans [of m v r] by (auto split: if_splits)
  moreover have "\<not> lt r v"
    using IH(1) lt_irrefl [of v] lt_trans [of ?m r v] by (cases "lt m v") auto
  ultimately show ?case unfolding r Let_def using IH(2) by auto
qed

lemma agg_min_bound:
  "agg_list AGG_MIN vs \<in> insert hi (set vs) \<and> (\<forall>v \<in> set vs. \<not> lt v (agg_list AGG_MIN vs))"
  using min_fold [of vs hi] by (auto simp: agg_list_def agg_init_def Let_def)

lemma agg_max_bound:
  "agg_list AGG_MAX vs \<in> insert lo (set vs) \<and> (\<forall>v \<in> set vs. \<not> lt (agg_list AGG_MAX vs) v)"
  using max_fold [of vs lo] by (auto simp: agg_list_def agg_init_def Let_def)

lemma agg_other:
  assumes "op \<notin> {AGG_SUM, AGG_MIN, AGG_MAX}"
  shows "agg_list op vs = agg_list AGG_COUNT vs"
proof -
  have "agg_step lt add one op = agg_step lt add one AGG_COUNT" using assms by (auto simp: agg_step_def fun_eq_iff)
  moreover have "agg_init zero hi lo op = agg_init zero hi lo AGG_COUNT" using assms by (simp add: agg_init_def)
  ultimately show ?thesis by (simp only: agg_list_def)
qed

lemma for_if_agg:
  "for_if n cond (\<lambda>i. agg_step lt add one op (val i)) (agg_init zero hi lo op) =
   agg_list op (map val (filter cond [0..<n]))"
  by (simp add: for_if_def agg_list_def fold_if_filter fold_map comp_def)

text \<open>A grouped reduction gives every group the aggregate of its own rows.\<close>

lemma length_group_loop: "length (group_loop n cond key step out) = length out"
proof -
  have "length (fold (\<lambda>i out. if \<not> cond i then out else if length out \<le> key i then out
      else out[key i := step i (out ! key i)]) is out) = length out" for "is"
    by (induction "is" arbitrary: out) auto
  then show ?thesis by (simp add: group_loop_def)
qed

lemma group_loop_nth:
  assumes "g < length out"
  shows "group_loop n cond key step out ! g =
    fold (\<lambda>i acc. step i acc) (filter (\<lambda>i. cond i \<and> key i = g) [0..<n]) (out ! g)"
proof -
  have "fold (\<lambda>i out. if \<not> cond i then out else if length out \<le> key i then out
      else out[key i := step i (out ! key i)]) is out ! g =
    fold (\<lambda>i acc. step i acc) (filter (\<lambda>i. cond i \<and> key i = g) is) (out ! g)" for "is"
    using assms by (induction "is" arbitrary: out) auto
  then show ?thesis by (simp add: group_loop_def)
qed

lemma group_loop_agg:
  assumes "g < G"
  shows "group_loop n cond key (\<lambda>i. agg_step lt add one op (val i)) (replicate G (agg_init zero hi lo op)) ! g =
    agg_list op (map val (filter (\<lambda>i. cond i \<and> key i = g) [0..<n]))"
  using assms by (simp add: group_loop_nth agg_list_def fold_map comp_def)

end

locale linear_aggregate = aggregate +
  assumes lt_linear: "\<not> lt x y \<Longrightarrow> \<not> lt y x \<Longrightarrow> x = y"
    and not_lt_hi: "\<not> lt hi x"
    and not_lt_lo: "\<not> lt x lo"
begin

lemma agg_min_unique:
  assumes "m \<in> set vs" "\<forall>v \<in> set vs. \<not> lt v m"
  shows "agg_list AGG_MIN vs = m"
proof (rule lt_linear)
  show "\<not> lt (agg_list AGG_MIN vs) m"
    using agg_min_bound [of vs] assms(2) not_lt_hi by auto
  show "\<not> lt m (agg_list AGG_MIN vs)" using agg_min_bound [of vs] assms(1) by auto
qed

lemma agg_max_unique:
  assumes "m \<in> set vs" "\<forall>v \<in> set vs. \<not> lt m v"
  shows "agg_list AGG_MAX vs = m"
proof (rule lt_linear)
  show "\<not> lt m (agg_list AGG_MAX vs)"
    using agg_max_bound [of vs] assms(2) not_lt_lo by auto
  show "\<not> lt (agg_list AGG_MAX vs) m" using agg_max_bound [of vs] assms(1) by auto
qed

lemma agg_extremes_empty: "agg_list AGG_MIN [] = hi" "agg_list AGG_MAX [] = lo"
  by (simp_all add: agg_list_def agg_init_def)

end

lemma i64_range: "INT64_MIN \<le> x \<and> x \<le> INT64_MAX"
proof -
  have "- (2 ^ 63) \<le> sint (i64_bits x)" "sint (i64_bits x) < 2 ^ 63"
    using sint_ge [of "i64_bits x"] sint_lt [of "i64_bits x"] by simp_all
  moreover have "sint (0x8000000000000000 :: u64) = - (2 ^ 63)" "sint (0x7FFFFFFFFFFFFFFF :: u64) = 2 ^ 63 - 1"
    by simp_all
  ultimately show ?thesis by (simp add: less_eq_i64_def INT64_MIN_def INT64_MAX_def)
qed

lemma u64_le_max: "(x :: u64) \<le> UINT64_MAX"
  using unsigned_less [of x, where ?'a = nat] by (simp add: word_le_nat_alt UINT64_MAX_def)

interpretation u64_agg: linear_aggregate "(<)" "(+)" "0 :: u64" 1 UINT64_MAX 0
  by unfold_locales (auto simp: not_less u64_le_max)

interpretation i64_agg: linear_aggregate "(<)" i64_add "I64 0" "I64 1" INT64_MAX INT64_MIN
  by unfold_locales (auto simp: not_less i64_range)

interpretation f64_agg: aggregate f64_lt f64_add f64_zero "f64_of_int 1" f64_inf f64_ninf
  by unfold_locales (auto intro: f64_lt_trans)

section \<open>The reducers as aggregates of the selected values\<close>

lemma u64_reduce_agg:
  "(if op = AGG_SUM then for_if n cond (\<lambda>i s. s + val i) 0
    else if op = AGG_MIN then for_if n cond (\<lambda>i m. if val i < m then val i else m) UINT64_MAX
    else if op = AGG_MAX then for_if n cond (\<lambda>i m. if m < val i then val i else m) 0
    else fold (\<lambda>i c. c + (if cond i then 1 else 0)) [0..<n] (0 :: u64)) =
   u64_agg.agg_list op (map val (filter cond [0..<n]))"
proof -
  have "fold (\<lambda>i c. c + (if cond i then 1 else 0)) [0..<n] (0 :: u64) = for_if n cond (\<lambda>i c. c + 1) 0"
    unfolding for_if_def by (rule fold_cong) auto
  then show ?thesis
    unfolding u64_agg.for_if_agg [symmetric] agg_step_def agg_init_def by simp
qed

lemma i64_add_0 [simp]: "i64_add x (I64 0) = x"
  by (simp add: i64_add_def)

lemma i64_reduce_agg:
  "(if op = AGG_SUM then for_if n cond (\<lambda>i s. i64_add s (val i)) (I64 0)
    else if op = AGG_MIN then for_if n cond (\<lambda>i m. if val i < m then val i else m) INT64_MAX
    else if op = AGG_MAX then for_if n cond (\<lambda>i m. if m < val i then val i else m) INT64_MIN
    else fold (\<lambda>i c. i64_add c (I64 (if cond i then 1 else 0))) [0..<n] (I64 0)) =
   i64_agg.agg_list op (map val (filter cond [0..<n]))"
proof -
  have "fold (\<lambda>i c. i64_add c (I64 (if cond i then 1 else 0))) [0..<n] (I64 0) =
      for_if n cond (\<lambda>i c. i64_add c (I64 1)) (I64 0)"
    unfolding for_if_def by (rule fold_cong) auto
  then show ?thesis
    unfolding i64_agg.for_if_agg [symmetric] agg_step_def agg_init_def by simp
qed

abbreviation selected :: "nat \<Rightarrow> u8 list option \<Rightarrow> (nat \<Rightarrow> bool) \<Rightarrow> nat list" where
  "selected n nulls P \<equiv> filter (\<lambda>i. not_null nulls i \<and> P i) [0..<n]"

lemma reduce_pred_agg [reduce_simps]:
  "matrix_cpu_reduce_pred v n p op nulls =
   u64_agg.agg_list op (map (\<lambda>i. ucast (v ! i)) (selected n nulls (\<lambda>i. matrix_pred_match (v ! i) p)))"
  unfolding matrix_cpu_reduce_pred_def by (rule u64_reduce_agg)

lemma reduce_pred_i64_agg [reduce_simps]:
  "matrix_cpu_reduce_pred_i64 v n p op nulls =
   i64_agg.agg_list op (map (\<lambda>i. v ! i) (selected n nulls (\<lambda>i. matrix_pred_match_i64 (v ! i) p)))"
  unfolding matrix_cpu_reduce_pred_i64_def by (rule i64_reduce_agg)

lemma reduce_gt_agg [reduce_simps]:
  "matrix_cpu_reduce v n t op = u64_agg.agg_list op (map (\<lambda>i. ucast (v ! i)) (filter (\<lambda>i. t < v ! i) [0..<n]))"
  unfolding matrix_cpu_reduce_def by (rule u64_reduce_agg)

lemma reduce_nullable_agg [reduce_simps]:
  "matrix_cpu_reduce_all_nullable v n op m =
   u64_agg.agg_list op (map (\<lambda>i. ucast (v ! i)) (selected n (Some m) (\<lambda>_. True)))"
  unfolding matrix_cpu_reduce_all_nullable_def u64_reduce_agg by (simp add: not_null_def)

lemma reduce_i64_nullable_agg [reduce_simps]:
  "matrix_cpu_reduce_all_i64_nullable v n op m =
   i64_agg.agg_list op (map (\<lambda>i. v ! i) (selected n (Some m) (\<lambda>_. True)))"
  unfolding matrix_cpu_reduce_all_i64_nullable_def i64_reduce_agg by (simp add: not_null_def)

lemma reduce_filtered_agg [reduce_simps]:
  "matrix_cpu_reduce_filtered_by f p a n op =
   u64_agg.agg_list op (map (\<lambda>i. ucast (a ! i)) (filter (\<lambda>i. matrix_pred_match (f ! i) p) [0..<n]))"
  unfolding matrix_cpu_reduce_filtered_by_def by (rule u64_reduce_agg)

lemma reduce_filtered_i64_agg [reduce_simps]:
  "matrix_cpu_reduce_filtered_by_i64 f p a n op =
   i64_agg.agg_list op (map (\<lambda>i. a ! i) (filter (\<lambda>i. matrix_pred_match (f ! i) p) [0..<n]))"
  unfolding matrix_cpu_reduce_filtered_by_i64_def by (rule i64_reduce_agg)

lemma u64_count_sum:
  "u64_agg.agg_list AGG_COUNT vs = of_nat (length vs)" "u64_agg.agg_list AGG_SUM vs = sum_list vs"
proof -
  have "fold (u64_step AGG_COUNT) vs a = a + of_nat (length vs)" for a
    by (induction vs arbitrary: a) (simp_all add: agg_step_def)
  moreover have "fold (u64_step AGG_SUM) vs a = a + sum_list vs" for a
    by (induction vs arbitrary: a) (simp_all add: agg_step_def add.assoc)
  ultimately show "u64_agg.agg_list AGG_COUNT vs = of_nat (length vs)" "u64_agg.agg_list AGG_SUM vs = sum_list vs"
    by (simp_all add: u64_agg.agg_list_def agg_init_def)
qed

lemma i64_count_sum:
  "i64_agg.agg_list AGG_COUNT vs = I64 (of_nat (length vs))"
  "i64_agg.agg_list AGG_SUM vs = I64 (sum_list (map i64_bits vs))"
proof -
  have "fold (i64_step AGG_COUNT) vs a = I64 (i64_bits a + of_nat (length vs))" for a
    by (induction vs arbitrary: a) (simp_all add: agg_step_def i64_add_def)
  moreover have "fold (i64_step AGG_SUM) vs a = I64 (i64_bits a + sum_list (map i64_bits vs))" for a
    by (induction vs arbitrary: a) (simp_all add: agg_step_def i64_add_def add.assoc)
  ultimately show "i64_agg.agg_list AGG_COUNT vs = I64 (of_nat (length vs))"
    "i64_agg.agg_list AGG_SUM vs = I64 (sum_list (map i64_bits vs))"
    by (simp_all add: i64_agg.agg_list_def agg_init_def)
qed

lemma reduce_all_agg [reduce_simps]:
  "matrix_cpu_reduce_all v n op = u64_agg.agg_list op (map (\<lambda>i. ucast (v ! i)) [0..<n])"
proof -
  consider "op \<in> {AGG_SUM, AGG_MIN, AGG_MAX}" | "op \<notin> {AGG_SUM, AGG_MIN, AGG_MAX}" by blast
  then show ?thesis
  proof cases
    case 1
    then show ?thesis using u64_reduce_agg [of op n "\<lambda>_. True" "\<lambda>i. ucast (v ! i)"]
      by (auto simp: matrix_cpu_reduce_all_def)
  next
    case 2
    then show ?thesis by (simp add: matrix_cpu_reduce_all_def u64_agg.agg_other u64_count_sum)
  qed
qed

lemma reduce_all_i64_agg [reduce_simps]:
  "matrix_cpu_reduce_all_i64 v n op = i64_agg.agg_list op (map (\<lambda>i. v ! i) [0..<n])"
proof -
  consider "op \<in> {AGG_SUM, AGG_MIN, AGG_MAX}" | "op \<notin> {AGG_SUM, AGG_MIN, AGG_MAX}" by blast
  then show ?thesis
  proof cases
    case 1
    then show ?thesis using i64_reduce_agg [of op n "\<lambda>_. True" "\<lambda>i. v ! i"]
      by (auto simp: matrix_cpu_reduce_all_i64_def)
  next
    case 2
    then show ?thesis by (simp add: matrix_cpu_reduce_all_i64_def i64_agg.agg_other i64_count_sum)
  qed
qed

text \<open>
  Doubles: COUNT adds ones and zeros, which is exact below \<open>2 ^ 53\<close> rows.
\<close>

lemma f64_count: "length vs < 2 ^ 53 \<Longrightarrow> f64_agg.agg_list AGG_COUNT vs = f64_of_int (int (length vs))"
proof -
  have "fold (f64_step AGG_COUNT) vs (f64_of_int (int a)) = f64_of_int (int (a + length vs))" if "a + length vs < 2 ^ 53" for a
    using that
  proof (induction vs arbitrary: a)
    case (Cons v vs)
    have "f64_add (f64_of_int (int a)) (f64_of_int (int 1)) = f64_of_int (int (a + 1))"
      using Cons.prems by (intro f64_add_exact) simp_all
    then show ?case using Cons.IH [of "a + 1"] Cons.prems by (simp add: agg_step_def)
  qed simp
  from this [of 0] show "length vs < 2 ^ 53 \<Longrightarrow> f64_agg.agg_list AGG_COUNT vs = f64_of_int (int (length vs))"
    by (simp add: f64_agg.agg_list_def agg_init_def f64_of_int_zero)
qed

lemma f64_count_loop:
  assumes "n < 2 ^ 53"
  shows "fold (\<lambda>i c. f64_add c (if cond i then f64_of_int 1 else f64_zero)) [0..<n] f64_zero =
    f64_of_int (int (length (filter cond [0..<n])))"
  using assms
proof (induction n)
  case (Suc n)
  let ?l = "length (filter cond [0..<n])"
  have "?l \<le> n" using length_filter_le [of cond "[0..<n]"] by simp
  then have "f64_add (f64_of_int (int ?l)) (f64_of_int (int 1)) = f64_of_int (int (?l + 1))"
    "f64_add (f64_of_int (int ?l)) (f64_of_int (int 0)) = f64_of_int (int (?l + 0))"
    using Suc.prems by (intro f64_add_exact; simp)+
  with Suc show ?case by (simp add: add.commute f64_of_int_zero)
qed (simp add: f64_of_int_zero)

lemma f64_reduce_agg:
  assumes "n < 2 ^ 53"
  shows "(if op = AGG_SUM then for_if n cond (\<lambda>i s. f64_add s (val i)) f64_zero
    else if op = AGG_MIN then for_if n cond (\<lambda>i m. if f64_lt (val i) m then val i else m) f64_inf
    else if op = AGG_MAX then for_if n cond (\<lambda>i m. if f64_lt m (val i) then val i else m) f64_ninf
    else fold (\<lambda>i c. f64_add c (if cond i then f64_of_int 1 else f64_zero)) [0..<n] f64_zero) =
   f64_agg.agg_list op (map val (filter cond [0..<n]))"
proof (cases "op \<in> {AGG_SUM, AGG_MIN, AGG_MAX}")
  case True
  then show ?thesis unfolding f64_agg.for_if_agg [symmetric] agg_step_def agg_init_def by auto
next
  case False
  have "length (filter cond [0..<n]) < 2 ^ 53" using length_filter_le [of cond "[0..<n]"] assms by simp
  then show ?thesis using False by (simp add: f64_count_loop [OF assms] f64_agg.agg_other [of op] f64_count)
qed

lemma reduce_f64_agg:
  assumes "n < 2 ^ 53"
  shows "matrix_cpu_reduce_pred_f64 v n p op nulls =
      f64_agg.agg_list op (map (\<lambda>i. v ! i) (selected n nulls (\<lambda>i. matrix_pred_match_f64 (v ! i) p)))"
    and "matrix_cpu_reduce_all_f64_nullable v n op m =
      f64_agg.agg_list op (map (\<lambda>i. v ! i) (selected n (Some m) (\<lambda>_. True)))"
    and "matrix_cpu_reduce_filtered_by_f64 f fp v n op =
      f64_agg.agg_list op (map (\<lambda>i. v ! i) (filter (\<lambda>i. matrix_pred_match (f ! i) fp) [0..<n]))"
    and "matrix_cpu_reduce_all_f64 v n op = f64_agg.agg_list op (map (\<lambda>i. v ! i) [0..<n])"
proof -
  show "matrix_cpu_reduce_pred_f64 v n p op nulls =
      f64_agg.agg_list op (map (\<lambda>i. v ! i) (selected n nulls (\<lambda>i. matrix_pred_match_f64 (v ! i) p)))"
    unfolding matrix_cpu_reduce_pred_f64_def by (rule f64_reduce_agg [OF assms])
  show "matrix_cpu_reduce_all_f64_nullable v n op m =
      f64_agg.agg_list op (map (\<lambda>i. v ! i) (selected n (Some m) (\<lambda>_. True)))"
    unfolding matrix_cpu_reduce_all_f64_nullable_def f64_reduce_agg [OF assms] by (simp add: not_null_def)
  show "matrix_cpu_reduce_filtered_by_f64 f fp v n op =
      f64_agg.agg_list op (map (\<lambda>i. v ! i) (filter (\<lambda>i. matrix_pred_match (f ! i) fp) [0..<n]))"
    unfolding matrix_cpu_reduce_filtered_by_f64_def by (rule f64_reduce_agg [OF assms])
  show "matrix_cpu_reduce_all_f64 v n op = f64_agg.agg_list op (map (\<lambda>i. v ! i) [0..<n])"
  proof (cases "op \<in> {AGG_SUM, AGG_MIN, AGG_MAX}")
    case True
    then show ?thesis using f64_reduce_agg [OF assms, of op "\<lambda>_. True" "\<lambda>i. v ! i"]
      by (auto simp: matrix_cpu_reduce_all_f64_def)
  next
    case False
    have "unat (of_nat n :: u64) = n" using assms by (intro unat_of_nat_small) simp
    then have "f64_of_u64 (of_nat n) = f64_of_int (int n)" by (metis f64_of_u64_def of_nat_unat)
    then show ?thesis using False assms by (simp add: matrix_cpu_reduce_all_f64_def f64_agg.agg_other [of op] f64_count)
  qed
qed

text \<open>The grouped reducers, for every element type.\<close>

lemma group_reduce_agg:
  assumes "g < unat G"
  shows "matrix_group_reduce_impl flt keys vals n G op p nulls ! g =
      u64_agg.agg_list op (map (\<lambda>i. ucast (vals ! i))
        (selected n nulls (\<lambda>i. (flt \<longrightarrow> matrix_pred_match (vals ! i) p) \<and> unat (keys ! i) = g)))"
    and "matrix_group_reduce_i64_impl flt keys vals' n G op p' nulls ! g =
      i64_agg.agg_list op (map (\<lambda>i. vals' ! i)
        (selected n nulls (\<lambda>i. (flt \<longrightarrow> matrix_pred_match_i64 (vals' ! i) p') \<and> unat (keys ! i) = g)))"
    and "matrix_group_reduce_f64_impl flt keys vals'' n G op p'' nulls ! g =
      f64_agg.agg_list op (map (\<lambda>i. vals'' ! i)
        (selected n nulls (\<lambda>i. (flt \<longrightarrow> matrix_pred_match_f64 (vals'' ! i) p'') \<and> unat (keys ! i) = g)))"
  using assms
  by (simp_all add: matrix_group_reduce_impl_def matrix_group_reduce_i64_impl_def matrix_group_reduce_f64_impl_def
      u64_agg.group_loop_agg i64_agg.group_loop_agg f64_agg.group_loop_agg conj_assoc)

lemma length_group_reduce [simp]:
  "length (matrix_group_reduce_impl flt keys vals n G op p nulls) = unat G"
  "length (matrix_group_reduce_i64_impl flt keys vals' n G op p' nulls) = unat G"
  "length (matrix_group_reduce_f64_impl flt keys vals'' n G op p'' nulls) = unat G"
  by (simp_all add: matrix_group_reduce_impl_def matrix_group_reduce_i64_impl_def matrix_group_reduce_f64_impl_def
      u64_agg.length_group_loop)

lemma group_filtered_agg:
  assumes "g < unat G"
  shows "matrix_cpu_group_reduce_filtered_by keys f fp vals n G op ! g =
      u64_agg.agg_list op (map (\<lambda>i. ucast (vals ! i))
        (filter (\<lambda>i. matrix_pred_match (f ! i) fp \<and> unat (keys ! i) = g) [0..<n]))"
    and "matrix_cpu_group_reduce_filtered_by_i64 keys f fp vals' n G op ! g =
      i64_agg.agg_list op (map (\<lambda>i. vals' ! i)
        (filter (\<lambda>i. matrix_pred_match (f ! i) fp \<and> unat (keys ! i) = g) [0..<n]))"
    and "matrix_cpu_group_reduce_filtered_by_f64 keys f fp vals'' n G op ! g =
      f64_agg.agg_list op (map (\<lambda>i. vals'' ! i)
        (filter (\<lambda>i. matrix_pred_match (f ! i) fp \<and> unat (keys ! i) = g) [0..<n]))"
  using assms
  by (simp_all add: matrix_cpu_group_reduce_filtered_by_def matrix_cpu_group_reduce_filtered_by_i64_def
      matrix_cpu_group_reduce_filtered_by_f64_def u64_agg.group_loop_agg i64_agg.group_loop_agg f64_agg.group_loop_agg)

lemma length_group_filtered [simp]:
  "length (matrix_cpu_group_reduce_filtered_by keys f fp vals n G op) = unat G"
  "length (matrix_cpu_group_reduce_filtered_by_i64 keys f fp vals' n G op) = unat G"
  "length (matrix_cpu_group_reduce_filtered_by_f64 keys f fp vals'' n G op) = unat G"
  by (simp_all add: matrix_cpu_group_reduce_filtered_by_def matrix_cpu_group_reduce_filtered_by_i64_def
      matrix_cpu_group_reduce_filtered_by_f64_def u64_agg.length_group_loop)

lemma unat_ucast_u32 [simp]: "unat (ucast (a :: u32) :: u64) = unat a"
proof -
  have "unat a < 2 ^ 32" using unsigned_less [of a, where ?'a = nat] by simp
  then show ?thesis by (simp add: unsigned_ucast_eq take_bit_nat_eq_self)
qed

lemma ucast_u32_le: "(ucast (a :: u32) :: u64) \<le> ucast b \<longleftrightarrow> a \<le> b"
  by (simp add: word_le_nat_alt)

lemma u64_minmax_u32:
  fixes vs :: "u32 list"
  assumes "vs \<noteq> []"
  shows "u64_agg.agg_list AGG_MIN (map ucast vs) = ucast (Min (set vs))"
    and "u64_agg.agg_list AGG_MAX (map ucast vs) = ucast (Max (set vs))"
proof -
  show "u64_agg.agg_list AGG_MIN (map ucast vs) = ucast (Min (set vs))"
    using assms by (intro u64_agg.agg_min_unique) (auto simp: ucast_u32_le not_less)
  show "u64_agg.agg_list AGG_MAX (map ucast vs) = ucast (Max (set vs))"
    using assms by (intro u64_agg.agg_max_unique) (auto simp: ucast_u32_le not_less)
qed

lemma i64_minmax:
  assumes "vs \<noteq> []"
  shows "i64_agg.agg_list AGG_MIN vs = Min (set vs)" "i64_agg.agg_list AGG_MAX vs = Max (set vs)"
  using assms by (auto simp: not_less intro!: i64_agg.agg_min_unique i64_agg.agg_max_unique)

section \<open>Properties\<close>

text \<open>
  The filtered, null-aware reducer over a \<open>uint32\<close> column computes the SQL aggregate of exactly
  the rows that are not NULL and satisfy the predicate: COUNT their number, SUM their sum (modulo
  \<open>2 ^ 64\<close>), MIN and MAX their extreme values, with the documented sentinels when no row qualifies.
\<close>

theorem reduce_pred_correct:
  "let vs = map (\<lambda>i. v ! i) (selected n nulls (\<lambda>i. matrix_pred_match (v ! i) p)) in
   matrix_cpu_reduce_pred v n p AGG_COUNT nulls = of_nat (length vs) \<and>
   matrix_cpu_reduce_pred v n p AGG_SUM nulls = of_nat (sum_list (map unat vs)) \<and>
   matrix_cpu_reduce_pred v n p AGG_MIN nulls = (if vs = [] then UINT64_MAX else ucast (Min (set vs))) \<and>
   matrix_cpu_reduce_pred v n p AGG_MAX nulls = (if vs = [] then 0 else ucast (Max (set vs)))"
proof -
  define vs where "vs = map (\<lambda>i. v ! i) (selected n nulls (\<lambda>i. matrix_pred_match (v ! i) p))"
  have agg: "matrix_cpu_reduce_pred v n p op nulls = u64_agg.agg_list op (map ucast vs)" for op
    by (simp add: reduce_pred_agg vs_def comp_def)
  have "sum_list (map ucast vs) = (of_nat (sum_list (map unat vs)) :: u64)"
    by (induction vs) simp_all
  then show ?thesis
    unfolding vs_def [symmetric] Let_def agg
    using u64_agg.agg_extremes_empty u64_minmax_u32 [of vs] by (simp add: u64_count_sum)
qed

text \<open>
  The same for \<open>int64\<close> columns: comparisons and extremes are signed, SUM is the two's-complement
  wrap of the exact sum, and the sentinels are the extreme values of the type.
\<close>

theorem reduce_pred_i64_correct:
  "let vs = map (\<lambda>i. v ! i) (selected n nulls (\<lambda>i. matrix_pred_match_i64 (v ! i) p)) in
   matrix_cpu_reduce_pred_i64 v n p AGG_COUNT nulls = I64 (of_nat (length vs)) \<and>
   matrix_cpu_reduce_pred_i64 v n p AGG_SUM nulls = I64 (of_int (sum_list (map (sint \<circ> i64_bits) vs))) \<and>
   matrix_cpu_reduce_pred_i64 v n p AGG_MIN nulls = (if vs = [] then INT64_MAX else Min (set vs)) \<and>
   matrix_cpu_reduce_pred_i64 v n p AGG_MAX nulls = (if vs = [] then INT64_MIN else Max (set vs))"
proof -
  define vs where "vs = map (\<lambda>i. v ! i) (selected n nulls (\<lambda>i. matrix_pred_match_i64 (v ! i) p))"
  have agg: "matrix_cpu_reduce_pred_i64 v n p op nulls = i64_agg.agg_list op vs" for op
    by (simp add: reduce_pred_i64_agg vs_def)
  have "sum_list (map i64_bits vs) = of_int (sum_list (map (sint \<circ> i64_bits) vs))"
    by (induction vs) simp_all
  then show ?thesis
    unfolding vs_def [symmetric] Let_def agg
    using i64_agg.agg_extremes_empty i64_minmax [of vs] by (simp add: i64_count_sum)
qed

text \<open>
  GROUP BY is the scalar aggregate per group. For every operator, mask and predicate, and for
  \<open>uint32\<close> and \<open>int64\<close> values, slot \<open>g\<close> of the grouped result is the scalar reducer applied with a null
  mask that also hides the rows of other groups; rows with a key outside the range affect no slot.
\<close>

theorem group_reduce_is_scalar_per_group:
  assumes "g < unat G" "n \<le> length keys"
    and m: "m = map (\<lambda>i. if not_null nulls i \<and> unat (keys ! i) = g then 0 else 1) [0..<n]"
  shows "matrix_cpu_group_reduce_pred keys vals n G op p nulls ! g = matrix_cpu_reduce_pred vals n p op (Some m) \<and>
    matrix_cpu_group_reduce_i64_pred keys vals' n G op p' nulls ! g = matrix_cpu_reduce_pred_i64 vals' n p' op (Some m) \<and>
    matrix_cpu_group_reduce keys vals n G op nulls ! g = matrix_cpu_reduce_all_nullable vals n op m \<and>
    matrix_cpu_group_reduce_i64 keys vals' n G op nulls ! g = matrix_cpu_reduce_all_i64_nullable vals' n op m \<and>
    length (matrix_cpu_group_reduce_pred keys vals n G op p nulls) = unat G"
proof -
  have sel: "selected n nulls (\<lambda>i. Q i \<and> unat (keys ! i) = g) = selected n (Some m) Q" for Q
    by (rule filter_cong) (cases nulls; auto simp: m not_null_def)+
  show ?thesis
    using assms(1) sel [of "\<lambda>_. True"] sel
    by (simp add: matrix_cpu_group_reduce_pred_def matrix_cpu_group_reduce_i64_pred_def
        matrix_cpu_group_reduce_def matrix_cpu_group_reduce_i64_def group_reduce_agg reduce_simps)
qed

theorem group_reduce_is_scalar_per_group_witness:
  "matrix_cpu_group_reduce_pred [0, 1, 0] [7, 8, 9] 3 2 AGG_SUM \<lparr>p_cmp = CMP_GT, p_a = 7, p_b = 0\<rparr> None ! 0 =
   matrix_cpu_reduce_pred [7, 8, 9] 3 \<lparr>p_cmp = CMP_GT, p_a = 7, p_b = 0\<rparr> AGG_SUM (Some [0, 1, 0])"
proof -
  have m: "[0, 1, 0] = map (\<lambda>i. if not_null None i \<and> unat ([0, 1, 0 :: u32] ! i) = 0 then 0 else 1) [0..<3]"
    by (simp add: not_null_def upt_rec)
  show ?thesis
    using group_reduce_is_scalar_per_group [OF _ _ m, of 2 "[7, 8, 9]" AGG_SUM "\<lparr>p_cmp = CMP_GT, p_a = 7, p_b = 0\<rparr>" "[]"]
    by simp
qed

end
