(* ===== verification/GPU_Kernels.thy ===== *)
theory GPU_Kernels
  imports GPU_Machine Reduce
begin

text \<open>
  The scalar kernels of \<open>compute_cuda.cuh\<close>: filter-counts, threshold and predicate reductions over
  \<open>uint32\<close>, \<open>int64\<close> and \<open>double\<close> columns, the vectorised and the items-per-thread scan. Each kernel is the
  record of the block reduction it runs; \<open>unsigned long long\<close> cells of the \<open>int64\<close> kernels hold
  the same bits as \<open>i64\<close>. The loop variables do not overflow: a column of \<open>n\<close> rows of at least four bytes
  fits the address space, so \<open>n\<close> plus a stride is below \<open>2 ^ 64\<close>. What a device computes for an operation on
  NaNs has an unspecified payload; no statement below depends on it.
\<close>

section \<open>Device predicates and atomics\<close>

definition matrix_pred_match_dev :: "u32 \<Rightarrow> matrix_cmp \<Rightarrow> u32 \<Rightarrow> u32 \<Rightarrow> bool" where
  "matrix_pred_match_dev v c a b =
     (if c = CMP_GE then v \<ge> a
      else if c = CMP_LT then v < a
      else if c = CMP_LE then v \<le> a
      else if c = CMP_EQ then v = a
      else if c = CMP_NE then v \<noteq> a
      else if c = CMP_BETWEEN then v \<ge> a \<and> v \<le> b
      else v > a)"

definition matrix_pred_match_i64_dev :: "i64 \<Rightarrow> matrix_cmp \<Rightarrow> i64 \<Rightarrow> i64 \<Rightarrow> bool" where
  "matrix_pred_match_i64_dev v c a b =
     (if c = CMP_GE then v \<ge> a
      else if c = CMP_LT then v < a
      else if c = CMP_LE then v \<le> a
      else if c = CMP_EQ then v = a
      else if c = CMP_NE then v \<noteq> a
      else if c = CMP_BETWEEN then v \<ge> a \<and> v \<le> b
      else v > a)"

definition matrix_pred_match_f64_dev :: "f64 \<Rightarrow> matrix_cmp \<Rightarrow> f64 \<Rightarrow> f64 \<Rightarrow> bool" where
  "matrix_pred_match_f64_dev v c a b =
     (if c = CMP_GE then f64_le a v
      else if c = CMP_LT then f64_lt v a
      else if c = CMP_LE then f64_le v a
      else if c = CMP_EQ then f64_eq v a
      else if c = CMP_NE then \<not> f64_eq v a
      else if c = CMP_BETWEEN then f64_le a v \<and> f64_le v b
      else f64_lt a v)"

definition atomicMinDouble :: "f64 atomic_op" where
  "atomicMinDouble = CasLoop (\<lambda>assumed val. f64_le assumed val) (\<lambda>assumed val. val)"

definition atomicMaxDouble :: "f64 atomic_op" where
  "atomicMaxDouble = CasLoop (\<lambda>assumed val. f64_le val assumed) (\<lambda>assumed val. val)"

text \<open>
  \<open>atomicAdd\<close> on doubles is an instruction from architecture 6.0 on (\<open>arch600\<close>), below it the
  compare-and-swap loop of the source.
\<close>

definition atomicAdd_f64 :: "bool \<Rightarrow> f64 atomic_op" where
  "atomicAdd_f64 arch600 =
     (if arch600 then Native f64_add else CasLoop (\<lambda>assumed val. False) (\<lambda>assumed val. f64_add val assumed))"

section \<open>Filter-counts and threshold reductions\<close>

definition matrix_scan_kernel :: "u64 list \<Rightarrow> nat \<Rightarrow> u64 \<Rightarrow> u64 reduce_kernel" where
  "matrix_scan_kernel data n threshold =
     \<lparr>rk_n = n, rk_items = 1, rk_init = 0,
      rk_body = (\<lambda>stride i local. if threshold < data ! i then local + 1 else local),
      rk_atomic = Native (+)\<rparr>"

definition matrix_scan_kernel_u32 :: "u32 list \<Rightarrow> nat \<Rightarrow> u32 \<Rightarrow> u64 reduce_kernel" where
  "matrix_scan_kernel_u32 data n threshold =
     \<lparr>rk_n = n, rk_items = 1, rk_init = 0,
      rk_body = (\<lambda>stride i local. if threshold < data ! i then local + 1 else local),
      rk_atomic = Native (+)\<rparr>"

definition matrix_sum_kernel_u32 :: "u32 list \<Rightarrow> nat \<Rightarrow> u32 \<Rightarrow> u64 reduce_kernel" where
  "matrix_sum_kernel_u32 data n threshold =
     \<lparr>rk_n = n, rk_items = 1, rk_init = 0,
      rk_body = (\<lambda>stride i local. if threshold < data ! i then local + ucast (data ! i) else local),
      rk_atomic = Native (+)\<rparr>"

definition matrix_min_kernel_u32 :: "u32 list \<Rightarrow> nat \<Rightarrow> u32 \<Rightarrow> u64 reduce_kernel" where
  "matrix_min_kernel_u32 data n threshold =
     \<lparr>rk_n = n, rk_items = 1, rk_init = 0xFFFFFFFFFFFFFFFF,
      rk_body = (\<lambda>stride i local. if threshold < data ! i \<and> ucast (data ! i) < local then ucast (data ! i) else local),
      rk_atomic = Native min\<rparr>"

definition matrix_max_kernel_u32 :: "u32 list \<Rightarrow> nat \<Rightarrow> u32 \<Rightarrow> u64 reduce_kernel" where
  "matrix_max_kernel_u32 data n threshold =
     \<lparr>rk_n = n, rk_items = 1, rk_init = 0,
      rk_body = (\<lambda>stride i local. if threshold < data ! i \<and> local < ucast (data ! i) then ucast (data ! i) else local),
      rk_atomic = Native max\<rparr>"

section \<open>Predicate reductions\<close>

definition matrix_count_kernel_pred_u32 :: "u32 list \<Rightarrow> nat \<Rightarrow> matrix_cmp \<Rightarrow> u32 \<Rightarrow> u32 \<Rightarrow> u64 reduce_kernel" where
  "matrix_count_kernel_pred_u32 data n c a b =
     \<lparr>rk_n = n, rk_items = 1, rk_init = 0,
      rk_body = (\<lambda>stride i local. if matrix_pred_match_dev (data ! i) c a b then local + 1 else local),
      rk_atomic = Native (+)\<rparr>"

definition matrix_sum_kernel_pred_u32 :: "u32 list \<Rightarrow> nat \<Rightarrow> matrix_cmp \<Rightarrow> u32 \<Rightarrow> u32 \<Rightarrow> u64 reduce_kernel" where
  "matrix_sum_kernel_pred_u32 data n c a b =
     \<lparr>rk_n = n, rk_items = 1, rk_init = 0,
      rk_body = (\<lambda>stride i local. if matrix_pred_match_dev (data ! i) c a b then local + ucast (data ! i) else local),
      rk_atomic = Native (+)\<rparr>"

definition matrix_min_kernel_pred_u32 :: "u32 list \<Rightarrow> nat \<Rightarrow> matrix_cmp \<Rightarrow> u32 \<Rightarrow> u32 \<Rightarrow> u64 reduce_kernel" where
  "matrix_min_kernel_pred_u32 data n c a b =
     \<lparr>rk_n = n, rk_items = 1, rk_init = 0xFFFFFFFFFFFFFFFF,
      rk_body = (\<lambda>stride i local. if matrix_pred_match_dev (data ! i) c a b \<and> ucast (data ! i) < local
                                  then ucast (data ! i) else local),
      rk_atomic = Native min\<rparr>"

definition matrix_max_kernel_pred_u32 :: "u32 list \<Rightarrow> nat \<Rightarrow> matrix_cmp \<Rightarrow> u32 \<Rightarrow> u32 \<Rightarrow> u64 reduce_kernel" where
  "matrix_max_kernel_pred_u32 data n c a b =
     \<lparr>rk_n = n, rk_items = 1, rk_init = 0,
      rk_body = (\<lambda>stride i local. if matrix_pred_match_dev (data ! i) c a b \<and> local < ucast (data ! i)
                                  then ucast (data ! i) else local),
      rk_atomic = Native max\<rparr>"

definition matrix_count_kernel_pred_i64 :: "i64 list \<Rightarrow> nat \<Rightarrow> matrix_cmp \<Rightarrow> i64 \<Rightarrow> i64 \<Rightarrow> i64 reduce_kernel" where
  "matrix_count_kernel_pred_i64 d n c a b =
     \<lparr>rk_n = n, rk_items = 1, rk_init = I64 0,
      rk_body = (\<lambda>stride i local. if matrix_pred_match_i64_dev (d ! i) c a b then i64_add local (I64 1) else local),
      rk_atomic = Native i64_add\<rparr>"

definition matrix_sum_kernel_pred_i64 :: "i64 list \<Rightarrow> nat \<Rightarrow> matrix_cmp \<Rightarrow> i64 \<Rightarrow> i64 \<Rightarrow> i64 reduce_kernel" where
  "matrix_sum_kernel_pred_i64 d n c a b =
     \<lparr>rk_n = n, rk_items = 1, rk_init = I64 0,
      rk_body = (\<lambda>stride i local. if matrix_pred_match_i64_dev (d ! i) c a b then i64_add local (d ! i) else local),
      rk_atomic = Native i64_add\<rparr>"

definition matrix_min_kernel_pred_i64 :: "i64 list \<Rightarrow> nat \<Rightarrow> matrix_cmp \<Rightarrow> i64 \<Rightarrow> i64 \<Rightarrow> i64 reduce_kernel" where
  "matrix_min_kernel_pred_i64 d n c a b =
     \<lparr>rk_n = n, rk_items = 1, rk_init = INT64_MAX,
      rk_body = (\<lambda>stride i local. if matrix_pred_match_i64_dev (d ! i) c a b \<and> d ! i < local then d ! i else local),
      rk_atomic = Native min\<rparr>"

definition matrix_max_kernel_pred_i64 :: "i64 list \<Rightarrow> nat \<Rightarrow> matrix_cmp \<Rightarrow> i64 \<Rightarrow> i64 \<Rightarrow> i64 reduce_kernel" where
  "matrix_max_kernel_pred_i64 d n c a b =
     \<lparr>rk_n = n, rk_items = 1, rk_init = INT64_MIN,
      rk_body = (\<lambda>stride i local. if matrix_pred_match_i64_dev (d ! i) c a b \<and> local < d ! i then d ! i else local),
      rk_atomic = Native max\<rparr>"

definition matrix_count_kernel_pred_f64 :: "bool \<Rightarrow> f64 list \<Rightarrow> nat \<Rightarrow> matrix_cmp \<Rightarrow> f64 \<Rightarrow> f64 \<Rightarrow> f64 reduce_kernel" where
  "matrix_count_kernel_pred_f64 arch600 d n c a b =
     \<lparr>rk_n = n, rk_items = 1, rk_init = f64_zero,
      rk_body = (\<lambda>stride i local. if matrix_pred_match_f64_dev (d ! i) c a b then f64_add local (f64_of_int 1) else local),
      rk_atomic = atomicAdd_f64 arch600\<rparr>"

definition matrix_sum_kernel_pred_f64 :: "bool \<Rightarrow> f64 list \<Rightarrow> nat \<Rightarrow> matrix_cmp \<Rightarrow> f64 \<Rightarrow> f64 \<Rightarrow> f64 reduce_kernel" where
  "matrix_sum_kernel_pred_f64 arch600 d n c a b =
     \<lparr>rk_n = n, rk_items = 1, rk_init = f64_zero,
      rk_body = (\<lambda>stride i local. if matrix_pred_match_f64_dev (d ! i) c a b then f64_add local (d ! i) else local),
      rk_atomic = atomicAdd_f64 arch600\<rparr>"

definition matrix_min_kernel_pred_f64 :: "f64 list \<Rightarrow> nat \<Rightarrow> matrix_cmp \<Rightarrow> f64 \<Rightarrow> f64 \<Rightarrow> f64 reduce_kernel" where
  "matrix_min_kernel_pred_f64 d n c a b =
     \<lparr>rk_n = n, rk_items = 1, rk_init = f64_inf,
      rk_body = (\<lambda>stride i local. if matrix_pred_match_f64_dev (d ! i) c a b \<and> f64_lt (d ! i) local then d ! i else local),
      rk_atomic = atomicMinDouble\<rparr>"

definition matrix_max_kernel_pred_f64 :: "f64 list \<Rightarrow> nat \<Rightarrow> matrix_cmp \<Rightarrow> f64 \<Rightarrow> f64 \<Rightarrow> f64 reduce_kernel" where
  "matrix_max_kernel_pred_f64 d n c a b =
     \<lparr>rk_n = n, rk_items = 1, rk_init = f64_ninf,
      rk_body = (\<lambda>stride i local. if matrix_pred_match_f64_dev (d ! i) c a b \<and> f64_lt local (d ! i) then d ! i else local),
      rk_atomic = atomicMaxDouble\<rparr>"

section \<open>The vectorised and the items-per-thread scan\<close>

record uint4 =
  u4_x :: u32
  u4_y :: u32
  u4_z :: u32
  u4_w :: u32

definition matrix_scan_kernel_u32x4 :: "uint4 list \<Rightarrow> nat \<Rightarrow> u32 \<Rightarrow> u64 reduce_kernel" where
  "matrix_scan_kernel_u32x4 data4 n4 threshold =
     \<lparr>rk_n = n4, rk_items = 1, rk_init = 0,
      rk_body = (\<lambda>stride i local. let v = data4 ! i in
        local + (of_bool (threshold < u4_x v) + of_bool (threshold < u4_y v) +
                 of_bool (threshold < u4_z v) + of_bool (threshold < u4_w v))),
      rk_atomic = Native (+)\<rparr>"

definition matrix_scan_kernel_ipt :: "nat \<Rightarrow> u32 list \<Rightarrow> nat \<Rightarrow> u32 \<Rightarrow> u64 reduce_kernel" where
  "matrix_scan_kernel_ipt ITEMS data n threshold =
     \<lparr>rk_n = n, rk_items = ITEMS, rk_init = 0,
      rk_body = (\<lambda>base_stride base local.
        let reg = map (\<lambda>k. if base + k * base_stride < n then data ! (base + k * base_stride) else 0) [0..<ITEMS]
        in fold (\<lambda>k local. if base + k * base_stride < n then local + of_bool (threshold < reg ! k) else local)
             [0..<ITEMS] local),
      rk_atomic = Native (+)\<rparr>"

text \<open>\<open>reinterpret_cast<const uint4*>\<close> of an array of \<open>uint32_t\<close>.\<close>

fun as_uint4 :: "u32 list \<Rightarrow> uint4 list" where
  "as_uint4 (x # y # z # w # vs) = \<lparr>u4_x = x, u4_y = y, u4_z = z, u4_w = w\<rparr> # as_uint4 vs"
| "as_uint4 _ = []"

end
