(* ===== verification/GPU_Correct.thy ===== *)
theory GPU_Correct
  imports GPU_Kernels
begin

text \<open>
  What the scalar kernels compute: for every schedule under which a launch completes, the result of the
  CPU reducer on the same column. The locale \<open>reduction\<close> is the interface between the machine and the
  kernels: an atomic operation that, seen through \<open>abs\<close>, is a commutative monoid. For integers \<open>abs\<close> is
  the identity; MIN and MAX over doubles are one up to the sign of zero.
\<close>

section \<open>Commutative reductions\<close>

locale reduction = atomic_memory op good later
  for op :: "'a atomic_op" and good later +
  fixes abs :: "'a \<Rightarrow> 'b" and g :: "'b \<Rightarrow> 'b \<Rightarrow> 'b" and e :: 'b
  assumes abs_sem: "good m \<Longrightarrow> good v \<Longrightarrow> abs (atomic_sem op m v) = g (abs m) (abs v)"
    and g_assoc: "g (g x y) z = g x (g y z)"
    and g_comm: "g x y = g y x"
    and g_unit [simp]: "g x e = x"
begin

definition total :: "'b list \<Rightarrow> 'b" where
  "total xs = fold (\<lambda>x a. g a x) xs e"

lemma g_unit_left [simp]: "g e x = x"
  by (subst g_comm) simp

lemma g_left_comm: "g x (g y z) = g y (g x z)"
  by (metis g_assoc g_comm)

lemma fold_total: "fold (\<lambda>x a. g a x) xs a = g a (total xs)"
proof (induction xs arbitrary: a)
  case (Cons x xs)
  show ?case using Cons [of "g a x"] Cons [of x] by (simp add: total_def g_assoc)
qed (simp add: total_def)

lemma total_simps [simp]: "total [] = e" "total (x # xs) = g x (total xs)" "total (xs @ ys) = g (total xs) (total ys)"
  using fold_total [of xs x] fold_total [of ys "total xs"] by (simp_all add: total_def)

lemma total_mset: "mset xs = mset ys \<Longrightarrow> total xs = total ys"
  unfolding total_def
  by (rule fold_multiset_equiv [THEN fun_cong]) (auto simp: fun_eq_iff g_assoc g_comm g_left_comm)

lemma total_concat: "total (concat xss) = total (map total xss)"
  by (induction xss) simp_all

lemma total_if: "total (map (\<lambda>i. if c i then v i else e) xs) = fold (\<lambda>i a. if c i then g a (v i) else a) xs e"
proof -
  have "(\<lambda>i a. if c i then g a (v i) else a) = (\<lambda>i a. g a (if c i then v i else e))" by (auto simp: fun_eq_iff)
  then show ?thesis by (simp add: total_def fold_map comp_def)
qed

lemma total_cong: "(\<And>x. x \<in> set xs \<Longrightarrow> h x = h' x) \<Longrightarrow> total (map h xs) = total (map h' xs)"
  by (simp cong: map_cong)

lemma abs_fold:
  "good m \<Longrightarrow> (\<And>x. x \<in> set xs \<Longrightarrow> good (h x)) \<Longrightarrow>
   abs (fold (\<lambda>x m. atomic_sem op m (h x)) xs m) = g (abs m) (total (map (\<lambda>x. abs (h x)) xs))"
  by (induction xs arbitrary: m) (simp_all add: sem_good abs_sem g_assoc)

text \<open>
  A complete launch computes the total of the rows' values, when every thread computes the total of
  the rows of its stride.
\<close>

lemma launch_total:
  assumes ok: "launch_ok B T k out0" and fin: "launch B T k junk sched out0 = Some r" and init: "abs (rk_init k) = e"
    and rows: "\<And>b t. b < B \<Longrightarrow> t < T \<Longrightarrow> abs (thread_local B T k b t) = total (map val (strided (b * T + t) (B * T) n))"
  shows "good r \<and> abs r = g (abs out0) (total (map val [0..<n]))"
proof -
  obtain bl ol where bl: "\<And>b. b < B \<Longrightarrow> mset (bl b) = mset [0..<T]" and ol: "mset ol = mset [0..<B]"
    and r: "r = fold (\<lambda>b m. atomic_sem op m (gather_blk B T k b (bl b))) ol out0"
    using launch_orders [OF ok fin] by blast
  have L: "0 < B * T" "good (rk_init k)" "good out0" "\<And>b t. b < B \<Longrightarrow> t < T \<Longrightarrow> good (thread_local B T k b t)"
    using ok by (auto simp: launch_ok_def)
  have set_bl: "t < T" if "b < B" "t \<in> set (bl b)" for b t
    using that mset_eq_setD [OF bl [OF that(1)]] by auto
  have set_ol: "b < B" if "b \<in> set ol" for b using that mset_eq_setD [OF ol] by auto
  let ?row = "\<lambda>b t. map val (strided (b * T + t) (B * T) n)"
  have good_blk: "good (gather_blk B T k b (bl b))" if "b < B" for b
    unfolding gather_blk_def using L set_bl that by (intro fold_sem_good) auto
  have blk: "abs (gather_blk B T k b (bl b)) = total (concat (map (?row b) [0..<T]))" if b: "b < B" for b
  proof -
    have "abs (gather_blk B T k b (bl b)) = total (map (\<lambda>t. abs (thread_local B T k b t)) (bl b))"
      unfolding gather_blk_def using L set_bl b init by (subst abs_fold) auto
    also have "\<dots> = total (map (\<lambda>t. abs (thread_local B T k b t)) [0..<T])"
      using bl [OF b] by (intro total_mset) (simp only: mset_map)
    also have "\<dots> = total (concat (map (?row b) [0..<T]))"
      unfolding total_concat map_map comp_def using rows [OF b] by (intro total_cong) simp
    finally show ?thesis .
  qed
  have "abs r = g (abs out0) (total (map (\<lambda>b. abs (gather_blk B T k b (bl b))) ol))"
    unfolding r using L good_blk set_ol by (intro abs_fold) auto
  also have "total (map (\<lambda>b. abs (gather_blk B T k b (bl b))) ol) =
      total (map (\<lambda>b. abs (gather_blk B T k b (bl b))) [0..<B])"
    using ol by (intro total_mset) (simp only: mset_map)
  also have "\<dots> = total (concat (map (\<lambda>b. concat (map (?row b) [0..<T])) [0..<B]))"
    unfolding total_concat map_map comp_def using blk by (intro total_cong) (simp add: total_concat comp_def)
  also have "\<dots> = total (map val (concat (map (\<lambda>b. concat (map (\<lambda>t. strided (b * T + t) (B * T) n) [0..<T])) [0..<B])))"
    by (simp add: map_concat comp_def)
  also have "\<dots> = total (map val [0..<n])"
    using grid_partition [OF L(1), of n] by (intro total_mset) (simp only: mset_map)
  finally have "abs r = g (abs out0) (total (map val [0..<n]))" .
  moreover have "good r" unfolding r using L good_blk set_ol by (intro fold_sem_good) auto
  ultimately show ?thesis by blast
qed

text \<open>The plain grid-stride loop.\<close>

lemma fold_body_total:
  assumes "\<And>i l. i \<in> set rows \<Longrightarrow> good l \<Longrightarrow> good (body i l) \<and> abs (body i l) = g (abs l) (val i)"
  shows "good l \<Longrightarrow> good (fold body rows l) \<and> abs (fold body rows l) = g (abs l) (total (map val rows))"
  using assms by (induction rows arbitrary: l) (auto simp: g_assoc)

lemma simple_launch:
  assumes k: "0 < B" "0 < T" "rk_items k = 1" "rk_atomic k = op" "good (rk_init k)" "abs (rk_init k) = e"
    and out0: "good out0" "abs out0 = e"
    and body: "\<And>i l. i < rk_n k \<Longrightarrow> good l \<Longrightarrow> good (rk_body k (B * T) i l) \<and> abs (rk_body k (B * T) i l) = g (abs l) (val i)"
    and fin: "launch B T k junk sched out0 = Some r"
  shows "good r \<and> abs r = total (map val [0..<rk_n k])"
proof -
  have loc: "good (thread_local B T k b t) \<and>
      abs (thread_local B T k b t) = total (map val (strided (b * T + t) (B * T) (rk_n k)))" for b t
  proof -
    have "i < rk_n k" if "i \<in> set (strided (b * T + t) (B * T) (rk_n k))" for i
      using that k(1,2) by (simp add: set_strided)
    then show ?thesis
      using fold_body_total [of "strided (b * T + t) (B * T) (rk_n k)" "rk_body k (B * T)" val "rk_init k"] body k
      by (simp add: thread_local_def)
  qed
  then have "launch_ok B T k out0" using k out0 by (simp add: launch_ok_def)
  from launch_total [OF this fin k(6), of val "rk_n k"] show ?thesis using loc out0 by simp
qed

lemma guarded_launch:
  assumes k: "0 < B" "0 < T" "rk_items k = 1" "rk_atomic k = op" "good (rk_init k)" "abs (rk_init k) = e"
    and out0: "good out0" "abs out0 = e"
    and body: "\<And>i l. i < rk_n k \<Longrightarrow> good l \<Longrightarrow>
      good (rk_body k (B * T) i l) \<and> abs (rk_body k (B * T) i l) = (if c i then g (abs l) (v i) else abs l)"
    and fin: "launch B T k junk sched out0 = Some r"
  shows "good r \<and> abs r = for_if (rk_n k) c (\<lambda>i a. g a (v i)) e"
proof -
  have "good r \<and> abs r = total (map (\<lambda>i. if c i then v i else e) [0..<rk_n k])"
    using body by (intro simple_launch [OF k out0 _ fin]) simp
  then show ?thesis by (simp add: total_if for_if_def)
qed

end

interpretation native: atomic_memory "Native f" "\<lambda>_. True" "\<lambda>_ _. True" for f
  by unfold_locales auto

interpretation u64_sum: reduction "Native (+)" "\<lambda>_. True" "\<lambda>_ _. True" "\<lambda>x. x" "(+)" "0 :: u64"
  by unfold_locales (simp_all add: ac_simps)

interpretation u64_min: reduction "Native min" "\<lambda>_. True" "\<lambda>_ _. True" "\<lambda>x. x" min UINT64_MAX
  by unfold_locales (simp_all add: ac_simps min_absorb1 u64_le_max)

interpretation u64_max: reduction "Native max" "\<lambda>_. True" "\<lambda>_ _. True" "\<lambda>x. x" max "0 :: u64"
  by unfold_locales (simp_all add: ac_simps max_absorb1)

interpretation i64_sum: reduction "Native i64_add" "\<lambda>_. True" "\<lambda>_ _. True" "\<lambda>x. x" i64_add "I64 0"
  by unfold_locales (simp_all add: i64_add_def ac_simps)

interpretation i64_min: reduction "Native min" "\<lambda>_. True" "\<lambda>_ _. True" "\<lambda>x. x" min INT64_MAX
  by unfold_locales (simp_all add: ac_simps min_absorb1 i64_range)

interpretation i64_max: reduction "Native max" "\<lambda>_. True" "\<lambda>_ _. True" "\<lambda>x. x" max INT64_MIN
  by unfold_locales (simp_all add: ac_simps max_absorb1 i64_range)

section \<open>The integer kernels\<close>

lemma pred_dev_eq [simp]:
  "matrix_pred_match_dev v c a b = matrix_pred_match v \<lparr>p_cmp = c, p_a = a, p_b = b\<rparr>"
  "matrix_pred_match_i64_dev w c a' b' = matrix_pred_match_i64 w \<lparr>p_cmp = c, p_a = a', p_b = b'\<rparr>"
  "matrix_pred_match_f64_dev x c a'' b'' = matrix_pred_match_f64 x \<lparr>p_cmp = c, p_a = a'', p_b = b''\<rparr>"
  by (simp_all add: matrix_pred_match_dev_def matrix_pred_match_def matrix_pred_match_i64_dev_def matrix_pred_match_i64_def
      matrix_pred_match_f64_dev_def matrix_pred_match_f64_def)

lemma min_if: "min m (v :: 'a::linorder) = (if v < m then v else m)" and max_if: "max m v = (if m < v then v else m)"
  by (auto simp: min_def max_def)

lemma not_null_None [simp]: "not_null None i"
  by (simp add: not_null_def)

lemma count_for_if: "fold (\<lambda>i c. c + (if cond i then 1 else 0)) [0..<n] (0 :: u64) = for_if n cond (\<lambda>i c. c + 1) 0"
  unfolding for_if_def by (rule fold_cong) auto

lemma count_for_if_i64:
  "fold (\<lambda>i c. i64_add c (I64 (if cond i then 1 else 0))) [0..<n] (I64 0) = for_if n cond (\<lambda>i c. i64_add c (I64 1)) (I64 0)"
  unfolding for_if_def by (rule fold_cong) auto

text \<open>The launches over \<open>uint32\<close> columns with a predicate, then with a threshold, and the ones over \<open>int64\<close>.\<close>

lemma pred_u32_kernels:
  assumes "0 < B" "0 < T"
  shows "launch B T (matrix_count_kernel_pred_u32 d n c a b) junk sched 0 = Some r \<Longrightarrow>
      r = matrix_cpu_reduce_pred d n \<lparr>p_cmp = c, p_a = a, p_b = b\<rparr> AGG_COUNT None"
    and "launch B T (matrix_sum_kernel_pred_u32 d n c a b) junk sched 0 = Some r \<Longrightarrow>
      r = matrix_cpu_reduce_pred d n \<lparr>p_cmp = c, p_a = a, p_b = b\<rparr> AGG_SUM None"
    and "launch B T (matrix_min_kernel_pred_u32 d n c a b) junk sched UINT64_MAX = Some r \<Longrightarrow>
      r = matrix_cpu_reduce_pred d n \<lparr>p_cmp = c, p_a = a, p_b = b\<rparr> AGG_MIN None"
    and "launch B T (matrix_max_kernel_pred_u32 d n c a b) junk sched 0 = Some r \<Longrightarrow>
      r = matrix_cpu_reduce_pred d n \<lparr>p_cmp = c, p_a = a, p_b = b\<rparr> AGG_MAX None"
proof -
  let ?c = "\<lambda>i. matrix_pred_match (d ! i) \<lparr>p_cmp = c, p_a = a, p_b = b\<rparr>"
  show "r = matrix_cpu_reduce_pred d n \<lparr>p_cmp = c, p_a = a, p_b = b\<rparr> AGG_COUNT None"
    if "launch B T (matrix_count_kernel_pred_u32 d n c a b) junk sched 0 = Some r"
    using u64_sum.guarded_launch [OF assms _ _ _ _ _ _ _ that, of ?c "\<lambda>_. 1"]
    by (simp add: matrix_count_kernel_pred_u32_def matrix_cpu_reduce_pred_def count_for_if)
  show "r = matrix_cpu_reduce_pred d n \<lparr>p_cmp = c, p_a = a, p_b = b\<rparr> AGG_SUM None"
    if "launch B T (matrix_sum_kernel_pred_u32 d n c a b) junk sched 0 = Some r"
    using u64_sum.guarded_launch [OF assms _ _ _ _ _ _ _ that, of ?c "\<lambda>i. ucast (d ! i)"]
    by (simp add: matrix_sum_kernel_pred_u32_def matrix_cpu_reduce_pred_def)
  show "r = matrix_cpu_reduce_pred d n \<lparr>p_cmp = c, p_a = a, p_b = b\<rparr> AGG_MIN None"
    if "launch B T (matrix_min_kernel_pred_u32 d n c a b) junk sched UINT64_MAX = Some r"
    using u64_min.guarded_launch [OF assms _ _ _ _ _ _ _ that, of ?c "\<lambda>i. ucast (d ! i)"]
    by (simp add: matrix_min_kernel_pred_u32_def matrix_cpu_reduce_pred_def UINT64_MAX_def min_if)
  show "r = matrix_cpu_reduce_pred d n \<lparr>p_cmp = c, p_a = a, p_b = b\<rparr> AGG_MAX None"
    if "launch B T (matrix_max_kernel_pred_u32 d n c a b) junk sched 0 = Some r"
    using u64_max.guarded_launch [OF assms _ _ _ _ _ _ _ that, of ?c "\<lambda>i. ucast (d ! i)"]
    by (simp add: matrix_max_kernel_pred_u32_def matrix_cpu_reduce_pred_def max_if)
qed

lemma threshold_u32_kernels:
  assumes "0 < B" "0 < T"
  shows "launch B T (matrix_scan_kernel_u32 d n t) junk sched 0 = Some r \<Longrightarrow> r = matrix_cpu_reduce d n t AGG_COUNT"
    and "launch B T (matrix_sum_kernel_u32 d n t) junk sched 0 = Some r \<Longrightarrow> r = matrix_cpu_reduce d n t AGG_SUM"
    and "launch B T (matrix_min_kernel_u32 d n t) junk sched UINT64_MAX = Some r \<Longrightarrow> r = matrix_cpu_reduce d n t AGG_MIN"
    and "launch B T (matrix_max_kernel_u32 d n t) junk sched 0 = Some r \<Longrightarrow> r = matrix_cpu_reduce d n t AGG_MAX"
proof -
  let ?c = "\<lambda>i. t < d ! i"
  show "r = matrix_cpu_reduce d n t AGG_COUNT" if "launch B T (matrix_scan_kernel_u32 d n t) junk sched 0 = Some r"
    using u64_sum.guarded_launch [OF assms _ _ _ _ _ _ _ that, of ?c "\<lambda>_. 1"]
    by (simp add: matrix_scan_kernel_u32_def matrix_cpu_reduce_def count_for_if)
  show "r = matrix_cpu_reduce d n t AGG_SUM" if "launch B T (matrix_sum_kernel_u32 d n t) junk sched 0 = Some r"
    using u64_sum.guarded_launch [OF assms _ _ _ _ _ _ _ that, of ?c "\<lambda>i. ucast (d ! i)"]
    by (simp add: matrix_sum_kernel_u32_def matrix_cpu_reduce_def)
  show "r = matrix_cpu_reduce d n t AGG_MIN" if "launch B T (matrix_min_kernel_u32 d n t) junk sched UINT64_MAX = Some r"
    using u64_min.guarded_launch [OF assms _ _ _ _ _ _ _ that, of ?c "\<lambda>i. ucast (d ! i)"]
    by (simp add: matrix_min_kernel_u32_def matrix_cpu_reduce_def UINT64_MAX_def min_if)
  show "r = matrix_cpu_reduce d n t AGG_MAX" if "launch B T (matrix_max_kernel_u32 d n t) junk sched 0 = Some r"
    using u64_max.guarded_launch [OF assms _ _ _ _ _ _ _ that, of ?c "\<lambda>i. ucast (d ! i)"]
    by (simp add: matrix_max_kernel_u32_def matrix_cpu_reduce_def max_if)
qed

lemma pred_i64_kernels:
  assumes "0 < B" "0 < T"
  shows "launch B T (matrix_count_kernel_pred_i64 d n c a b) junk sched (I64 0) = Some r \<Longrightarrow>
      r = matrix_cpu_reduce_pred_i64 d n \<lparr>p_cmp = c, p_a = a, p_b = b\<rparr> AGG_COUNT None"
    and "launch B T (matrix_sum_kernel_pred_i64 d n c a b) junk sched (I64 0) = Some r \<Longrightarrow>
      r = matrix_cpu_reduce_pred_i64 d n \<lparr>p_cmp = c, p_a = a, p_b = b\<rparr> AGG_SUM None"
    and "launch B T (matrix_min_kernel_pred_i64 d n c a b) junk sched INT64_MAX = Some r \<Longrightarrow>
      r = matrix_cpu_reduce_pred_i64 d n \<lparr>p_cmp = c, p_a = a, p_b = b\<rparr> AGG_MIN None"
    and "launch B T (matrix_max_kernel_pred_i64 d n c a b) junk sched INT64_MIN = Some r \<Longrightarrow>
      r = matrix_cpu_reduce_pred_i64 d n \<lparr>p_cmp = c, p_a = a, p_b = b\<rparr> AGG_MAX None"
proof -
  let ?c = "\<lambda>i. matrix_pred_match_i64 (d ! i) \<lparr>p_cmp = c, p_a = a, p_b = b\<rparr>"
  show "r = matrix_cpu_reduce_pred_i64 d n \<lparr>p_cmp = c, p_a = a, p_b = b\<rparr> AGG_COUNT None"
    if "launch B T (matrix_count_kernel_pred_i64 d n c a b) junk sched (I64 0) = Some r"
    using i64_sum.guarded_launch [OF assms _ _ _ _ _ _ _ that, of ?c "\<lambda>_. I64 1"]
    by (simp add: matrix_count_kernel_pred_i64_def matrix_cpu_reduce_pred_i64_def count_for_if_i64)
  show "r = matrix_cpu_reduce_pred_i64 d n \<lparr>p_cmp = c, p_a = a, p_b = b\<rparr> AGG_SUM None"
    if "launch B T (matrix_sum_kernel_pred_i64 d n c a b) junk sched (I64 0) = Some r"
    using i64_sum.guarded_launch [OF assms _ _ _ _ _ _ _ that, of ?c "\<lambda>i. d ! i"]
    by (simp add: matrix_sum_kernel_pred_i64_def matrix_cpu_reduce_pred_i64_def)
  show "r = matrix_cpu_reduce_pred_i64 d n \<lparr>p_cmp = c, p_a = a, p_b = b\<rparr> AGG_MIN None"
    if "launch B T (matrix_min_kernel_pred_i64 d n c a b) junk sched INT64_MAX = Some r"
    using i64_min.guarded_launch [OF assms _ _ _ _ _ _ _ that, of ?c "\<lambda>i. d ! i"]
    by (simp add: matrix_min_kernel_pred_i64_def matrix_cpu_reduce_pred_i64_def min_if)
  show "r = matrix_cpu_reduce_pred_i64 d n \<lparr>p_cmp = c, p_a = a, p_b = b\<rparr> AGG_MAX None"
    if "launch B T (matrix_max_kernel_pred_i64 d n c a b) junk sched INT64_MIN = Some r"
    using i64_max.guarded_launch [OF assms _ _ _ _ _ _ _ that, of ?c "\<lambda>i. d ! i"]
    by (simp add: matrix_max_kernel_pred_i64_def matrix_cpu_reduce_pred_i64_def max_if)
qed

section \<open>The scans that count\<close>

lemma u64_total: "u64_sum.total xs = sum_list xs"
  by (induction xs) simp_all

definition count_above :: "'a::linorder \<Rightarrow> 'a list \<Rightarrow> u64" where
  "count_above threshold vs = of_nat (length (filter (\<lambda>v. threshold < v) vs))"

lemma count_above_sum: "sum_list (map (\<lambda>v. of_bool (threshold < v)) vs) = count_above threshold vs"
  by (induction vs) (simp_all add: count_above_def)

lemma sum_rows:
  assumes "n = length vs"
  shows "sum_list (map (\<lambda>i. f (vs ! i)) [0..<n]) = sum_list (map f vs)"
proof -
  have "map (\<lambda>i. f (vs ! i)) [0..<n] = map f (map ((!) vs) [0..<n])" by simp
  then show ?thesis unfolding assms by (simp only: map_nth_upt)
qed

lemma scan_kernel_u64:
  assumes "0 < B" "0 < T" "launch B T (matrix_scan_kernel d (length d) threshold) junk sched 0 = Some r"
  shows "r = count_above threshold d"
  using u64_sum.simple_launch [OF assms(1,2) _ _ _ _ _ _ _ assms(3), of "\<lambda>i. of_bool (threshold < d ! i)"]
    sum_rows [of "length d" d "\<lambda>v. of_bool (threshold < v) :: u64"]
  by (simp add: matrix_scan_kernel_def u64_total count_above_sum)

lemma scan_kernel_u32:
  assumes "0 < B" "0 < T" "launch B T (matrix_scan_kernel_u32 d (length d) threshold) junk sched 0 = Some r"
  shows "r = count_above threshold d"
  using u64_sum.simple_launch [OF assms(1,2) _ _ _ _ _ _ _ assms(3), of "\<lambda>i. of_bool (threshold < d ! i)"]
    sum_rows [of "length d" d "\<lambda>v. of_bool (threshold < v) :: u64"]
  by (simp add: matrix_scan_kernel_u32_def u64_total count_above_sum)

text \<open>The vectorised scan reads the column as groups of four.\<close>

lemma as_uint4_sum:
  "4 dvd length vs \<Longrightarrow> length (as_uint4 vs) = length vs div 4 \<and>
   sum_list (map (\<lambda>v. of_bool (threshold < u4_x v) + of_bool (threshold < u4_y v) +
     of_bool (threshold < u4_z v) + of_bool (threshold < u4_w v)) (as_uint4 vs)) =
   (sum_list (map (\<lambda>v. of_bool (threshold < v)) vs) :: u64)"
proof (induction vs rule: as_uint4.induct)
  case (1 x y z w vs)
  then have "4 dvd length vs" by simp presburger
  with 1 show ?case by (simp add: ac_simps)
qed (auto dest: dvd_imp_le)

lemma scan_kernel_u32x4:
  assumes "0 < B" "0 < T" "4 dvd length d"
    and "launch B T (matrix_scan_kernel_u32x4 (as_uint4 d) (length d div 4) threshold) junk sched 0 = Some r"
  shows "r = count_above threshold d"
proof -
  let ?f = "\<lambda>v. of_bool (threshold < u4_x v) + of_bool (threshold < u4_y v) +
     of_bool (threshold < u4_z v) + of_bool (threshold < u4_w v) :: u64"
  have "r = u64_sum.total (map (\<lambda>i. ?f (as_uint4 d ! i)) [0..<length d div 4])"
    using u64_sum.simple_launch [OF assms(1,2) _ _ _ _ _ _ _ assms(4), of "\<lambda>i. ?f (as_uint4 d ! i)"]
    by (simp add: matrix_scan_kernel_u32x4_def Let_def)
  then show ?thesis
    using as_uint4_sum [OF assms(3), of threshold] sum_rows [of "length d div 4" "as_uint4 d" ?f]
    by (simp add: u64_total count_above_sum)
qed

text \<open>The items-per-thread scan visits the rows of the plain stride, several at a time.\<close>

lemma strided_split:
  assumes "0 < s"
  shows "strided i s n = filter (\<lambda>j. j < n) (map (\<lambda>k. i + k * s) [0..<m]) @ strided (i + m * s) s n"
proof (induction m)
  case (Suc m)
  have "strided (i + m * s) s n = filter (\<lambda>j. j < n) [i + m * s] @ strided (i + Suc m * s) s n"
  proof (cases "i + m * s < n")
    case True
    then show ?thesis using assms by (subst strided.simps) (simp add: ac_simps)
  next
    case False
    then show ?thesis by (subst (1 2) strided.simps) simp
  qed
  then show ?case using Suc by simp
qed simp

lemma strided_items:
  assumes "0 < s" "0 < m"
  shows "concat (map (\<lambda>base. filter (\<lambda>j. j < n) (map (\<lambda>k. base + k * s) [0..<m])) (strided i (m * s) n)) = strided i s n"
proof (induction i "m * s" n rule: strided.induct)
  case (1 i n)
  show ?case
  proof (cases "i < n")
    case True
    then show ?thesis
      using 1 assms strided_split [OF assms(1), of i n m] by (subst strided.simps) simp
  next
    case False
    then show ?thesis by (subst (1 2) strided.simps) simp
  qed
qed

lemma scan_kernel_ipt:
  assumes "0 < B" "0 < T" "0 < m" "launch B T (matrix_scan_kernel_ipt m d (length d) threshold) junk sched 0 = Some r"
  shows "r = count_above threshold d"
proof -
  let ?k = "matrix_scan_kernel_ipt m d (length d) threshold"
  let ?v = "\<lambda>i. of_bool (threshold < d ! i) :: u64"
  let ?rows = "\<lambda>base. filter (\<lambda>j. j < length d) (map (\<lambda>k. base + k * (B * T)) [0..<m])"
  have body: "rk_body ?k (B * T) base l = l + u64_sum.total (map ?v (?rows base))" for base l
  proof -
    have "fold (\<lambda>k l. if base + k * (B * T) < length d then
          l + of_bool (threshold < map (\<lambda>k. if base + k * (B * T) < length d then d ! (base + k * (B * T)) else 0) [0..<m] ! k)
          else l) [0..<m] l =
        fold (\<lambda>k l. if base + k * (B * T) < length d then l + ?v (base + k * (B * T)) else l) [0..<m] l"
      by (rule fold_cong) auto
    also have "\<dots> = fold (\<lambda>x a. a + x) (map ?v (?rows base)) l"
      by (simp add: fold_map filter_map comp_def fold_if_filter [symmetric])
    finally show ?thesis by (simp add: matrix_scan_kernel_ipt_def Let_def u64_sum.fold_total)
  qed
  have loc: "thread_local B T ?k b t = u64_sum.total (map ?v (strided (b * T + t) (B * T) (length d)))" for b t
  proof -
    have "thread_local B T ?k b t = u64_sum.total (map (\<lambda>base. u64_sum.total (map ?v (?rows base))) (strided (b * T + t) (m * (B * T)) (length d)))"
      using u64_sum.fold_body_total [of "strided (b * T + t) (m * (B * T)) (length d)" "rk_body ?k (B * T)"
          "\<lambda>base. u64_sum.total (map ?v (?rows base))" 0] body
      by (simp add: thread_local_def matrix_scan_kernel_ipt_def)
    also have "\<dots> = u64_sum.total (concat (map (\<lambda>base. map ?v (?rows base)) (strided (b * T + t) (m * (B * T)) (length d))))"
      by (simp add: u64_sum.total_concat comp_def)
    also have "concat (map (\<lambda>base. map ?v (?rows base)) (strided (b * T + t) (m * (B * T)) (length d))) =
        map ?v (strided (b * T + t) (B * T) (length d))"
      unfolding strided_items [OF mult_pos_pos [OF assms(1,2)] assms(3), symmetric] by (simp only: map_concat map_map comp_def)
    finally show ?thesis .
  qed
  have "native.launch_ok (+) B T ?k 0"
    using assms by (simp add: native.launch_ok_def matrix_scan_kernel_ipt_def)
  from u64_sum.launch_total [OF this assms(4), of ?v "length d"] loc
  have "r = u64_sum.total (map ?v [0..<length d])" by (simp add: matrix_scan_kernel_ipt_def)
  then show ?thesis
    using sum_rows [of "length d" d "\<lambda>v. of_bool (threshold < v) :: u64"] by (simp add: u64_total count_above_sum)
qed

section \<open>The double kernels\<close>

text \<open>
  MIN and MAX: through \<open>f64_depth\<close> and \<open>f64_height\<close>, the distances from the infinities, the
  compare-and-swap loops are maxima of natural numbers.
\<close>

definition f64_depth :: "f64 \<Rightarrow> nat" where
  "f64_depth x = nat (f64_key f64_inf - f64_key x)"

definition f64_height :: "f64 \<Rightarrow> nat" where
  "f64_height x = nat (f64_key x - f64_key f64_ninf)"

lemma f64_mag_bound:
  assumes "\<not> f64_is_nan x"
  shows "f64_mag x \<le> 2 ^ 2098"
proof -
  have fr: "f64_frac x < 2 ^ 52" and ex: "f64_expo x < 2 ^ 11" by (simp_all only: f64_frac_def f64_expo_def unat_and_mask_const) simp_all
  show ?thesis
  proof (cases "f64_expo x < 2047")
    case True
    have "(2 ^ 52 + f64_frac x) * 2 ^ (f64_expo x - 1) \<le> 2 ^ 53 * 2 ^ (2045 :: nat)"
      using fr True by (intro mult_mono power_increasing) simp_all
    also have "\<dots> = (2 :: nat) ^ 2098" unfolding power_add [symmetric] by simp
    finally have "(2 ^ 52 + f64_frac x) * 2 ^ (f64_expo x - 1) \<le> (2 :: nat) ^ 2098" .
    moreover have "f64_frac x \<le> 2 ^ 2098" by (rule order.trans [OF less_imp_le [OF fr] power_increasing]) simp_all
    ultimately show ?thesis unfolding f64_mag_def by (cases "f64_expo x = 0") (simp_all only: if_True if_False simp_thms)
  next
    case False
    then have e: "f64_expo x = 2047" "f64_frac x = 0" using ex assms by (auto simp: f64_is_nan_def)
    have "(2 :: nat) ^ 52 * 2 ^ 2046 = 2 ^ 2098" unfolding power_add [symmetric] by simp
    then show ?thesis by (simp only: f64_mag_def e) simp
  qed
qed

lemma f64_inf_keys: "f64_key f64_inf = 2 ^ 2098" "f64_key f64_ninf = - (2 ^ 2098)"
proof -
  have "(2 :: nat) ^ 52 * 2 ^ 2046 = 2 ^ 2098" unfolding power_add [symmetric] by simp
  then have p: "int ((2 :: nat) ^ 52 * 2 ^ 2046) = 2 ^ 2098" by (simp only: of_nat_power of_nat_numeral)
  have f: "f64_expo f64_inf = 2047" "f64_frac f64_inf = 0" "\<not> f64_sign f64_inf"
    "f64_expo f64_ninf = 2047" "f64_frac f64_ninf = 0" "f64_sign f64_ninf"
    by (simp_all add: f64_expo_def f64_frac_def f64_sign_def f64_inf_def f64_ninf_def)
  have "f64_mag f64_inf = 2 ^ 52 * 2 ^ 2046" "f64_mag f64_ninf = 2 ^ 52 * 2 ^ 2046"
    by (simp_all only: f64_mag_def f) simp_all
  then show "f64_key f64_inf = 2 ^ 2098" "f64_key f64_ninf = - (2 ^ 2098)"
    unfolding f64_key_def using f p by (simp_all only: if_True if_False)
qed

lemma f64_key_bounds:
  assumes "\<not> f64_is_nan x"
  shows "f64_key f64_ninf \<le> f64_key x \<and> f64_key x \<le> f64_key f64_inf"
proof -
  have "\<bar>f64_key x\<bar> \<le> 2 ^ 2098"
    unfolding f64_key_abs using f64_mag_bound [OF assms] by (metis of_nat_le_iff of_nat_power of_nat_numeral)
  then show ?thesis unfolding f64_inf_keys abs_le_iff by linarith
qed

lemma f64_depth_eq: "\<not> f64_is_nan x \<Longrightarrow> \<not> f64_is_nan y \<Longrightarrow> f64_depth x = f64_depth y \<Longrightarrow> f64_eq x y"
  using f64_key_bounds [of x] f64_key_bounds [of y] by (auto simp: f64_depth_def f64_eq_def nat_eq_iff)

lemma f64_height_eq: "\<not> f64_is_nan x \<Longrightarrow> \<not> f64_is_nan y \<Longrightarrow> f64_height x = f64_height y \<Longrightarrow> f64_eq x y"
  using f64_key_bounds [of x] f64_key_bounds [of y] by (auto simp: f64_height_def f64_eq_def nat_eq_iff)

interpretation f64_min: reduction atomicMinDouble "\<lambda>x. \<not> f64_is_nan x" f64_le f64_depth max 0
  by unfold_locales
    (auto simp: atomicMinDouble_def f64_le_def f64_depth_def intro: f64_le_refl)

interpretation f64_max: reduction atomicMaxDouble "\<lambda>x. \<not> f64_is_nan x" "\<lambda>m a. f64_le a m" f64_height max 0
  by unfold_locales
    (auto simp: atomicMaxDouble_def f64_le_def f64_height_def intro: f64_le_refl)

interpretation f64_sum: atomic_memory "atomicAdd_f64 arch600" "\<lambda>_. True" "\<lambda>_ _. True" for arch600
  by unfold_locales (auto simp: atomicAdd_f64_def split: if_splits)

lemma f64_min_body:
  assumes "\<not> f64_is_nan l"
  shows "\<not> f64_is_nan (if c \<and> f64_lt x l then x else l) \<and>
    f64_depth (if c \<and> f64_lt x l then x else l) = (if c \<and> \<not> f64_is_nan x then max (f64_depth l) (f64_depth x) else f64_depth l)"
  using assms by (auto simp: f64_lt_def f64_depth_def)

lemma f64_max_body:
  assumes "\<not> f64_is_nan l"
  shows "\<not> f64_is_nan (if c \<and> f64_lt l x then x else l) \<and>
    f64_height (if c \<and> f64_lt l x then x else l) = (if c \<and> \<not> f64_is_nan x then max (f64_height l) (f64_height x) else f64_height l)"
  using assms by (auto simp: f64_lt_def f64_height_def)

lemma f64_inf_good [simp]: "\<not> f64_is_nan f64_inf" "\<not> f64_is_nan f64_ninf" "f64_depth f64_inf = 0" "f64_height f64_ninf = 0"
  by (simp_all add: f64_is_nan_def f64_frac_def f64_inf_def f64_ninf_def f64_depth_def f64_height_def)

lemma for_if_Suc: "for_if (Suc n) c f s = (if c n then f n (for_if n c f s) else for_if n c f s)"
  by (simp add: for_if_def)

lemma f64_min_cpu:
  "\<not> f64_is_nan (for_if n c (\<lambda>i m. if f64_lt (v i) m then v i else m) f64_inf) \<and>
   f64_depth (for_if n c (\<lambda>i m. if f64_lt (v i) m then v i else m) f64_inf) =
     for_if n (\<lambda>i. c i \<and> \<not> f64_is_nan (v i)) (\<lambda>i a. max a (f64_depth (v i))) 0"
proof (induction n)
  case (Suc n)
  then show ?case using f64_min_body [of "for_if n c (\<lambda>i m. if f64_lt (v i) m then v i else m) f64_inf" "c n" "v n"]
    by (auto simp: for_if_Suc)
qed (simp add: for_if_def)

lemma f64_max_cpu:
  "\<not> f64_is_nan (for_if n c (\<lambda>i m. if f64_lt m (v i) then v i else m) f64_ninf) \<and>
   f64_height (for_if n c (\<lambda>i m. if f64_lt m (v i) then v i else m) f64_ninf) =
     for_if n (\<lambda>i. c i \<and> \<not> f64_is_nan (v i)) (\<lambda>i a. max a (f64_height (v i))) 0"
proof (induction n)
  case (Suc n)
  then show ?case using f64_max_body [of "for_if n c (\<lambda>i m. if f64_lt m (v i) then v i else m) f64_ninf" "c n" "v n"]
    by (auto simp: for_if_Suc)
qed (simp add: for_if_def)

lemma f64_min_max_kernels:
  fixes d :: "f64 list" and c :: matrix_cmp and a b :: f64
  assumes "0 < B" "0 < T"
  defines "c' \<equiv> \<lambda>i. matrix_pred_match_f64 (d ! i) \<lparr>p_cmp = c, p_a = a, p_b = b\<rparr> \<and> \<not> f64_is_nan (d ! i)"
  shows "launch B T (matrix_min_kernel_pred_f64 d n c a b) junk sched f64_inf = Some r \<Longrightarrow>
      \<not> f64_is_nan r \<and> f64_depth r = for_if n c' (\<lambda>i a. max a (f64_depth (d ! i))) 0"
    and "launch B T (matrix_max_kernel_pred_f64 d n c a b) junk sched f64_ninf = Some r \<Longrightarrow>
      \<not> f64_is_nan r \<and> f64_height r = for_if n c' (\<lambda>i a. max a (f64_height (d ! i))) 0"
proof -
  show "\<not> f64_is_nan r \<and> f64_depth r = for_if n c' (\<lambda>i a. max a (f64_depth (d ! i))) 0"
    if "launch B T (matrix_min_kernel_pred_f64 d n c a b) junk sched f64_inf = Some r"
    using f64_min.guarded_launch [OF assms(1,2) _ _ _ _ _ _ _ that, of c' "\<lambda>i. f64_depth (d ! i)"] f64_min_body
    by (simp add: matrix_min_kernel_pred_f64_def c'_def)
  show "\<not> f64_is_nan r \<and> f64_height r = for_if n c' (\<lambda>i a. max a (f64_height (d ! i))) 0"
    if "launch B T (matrix_max_kernel_pred_f64 d n c a b) junk sched f64_ninf = Some r"
    using f64_max.guarded_launch [OF assms(1,2) _ _ _ _ _ _ _ that, of c' "\<lambda>i. f64_height (d ! i)"] f64_max_body
    by (simp add: matrix_max_kernel_pred_f64_def c'_def)
qed

text \<open>Sums of natural numbers below \<open>2 ^ 53\<close> are exact in every order.\<close>

lemma f64_sem_exact:
  "j < 2 ^ 53 \<Longrightarrow> k < 2 ^ 53 \<Longrightarrow>
   atomic_sem (atomicAdd_f64 arch600) (f64_of_int (int j)) (f64_of_int (int k)) = f64_of_int (int (j + k))"
  using f64_add_exact [of j k] f64_add_exact [of k j] by (simp add: atomicAdd_f64_def add.commute)

lemma f64_fold_exact:
  assumes "\<And>x. x \<in> set xs \<Longrightarrow> h x = f64_of_int (int (w x))" "j + sum_list (map w xs) < 2 ^ 53"
  shows "fold (\<lambda>x m. atomic_sem (atomicAdd_f64 arch600) m (h x)) xs (f64_of_int (int j)) =
    f64_of_int (int (j + sum_list (map w xs)))"
  using assms
proof (induction xs arbitrary: j)
  case (Cons x xs)
  then show ?case using f64_sem_exact [of j "w x" arch600] Cons.IH [of "j + w x"] by (simp add: add.assoc)
qed simp

lemma exact_launch:
  assumes k: "0 < B" "0 < T" "0 < rk_items k" "rk_atomic k = atomicAdd_f64 arch600" "rk_init k = f64_zero"
    and loc: "\<And>b t. b < B \<Longrightarrow> t < T \<Longrightarrow> thread_local B T k b t = f64_of_int (int (w b t))"
    and S: "S = sum_list (map (\<lambda>b. sum_list (map (w b) [0..<T])) [0..<B])" "S < 2 ^ 53"
    and fin: "launch B T k junk sched f64_zero = Some r"
  shows "r = f64_of_int (int S)"
proof -
  have "f64_sum.launch_ok arch600 B T k f64_zero" using k by (simp add: f64_sum.launch_ok_def)
  then obtain bl ol where bl: "\<And>b. b < B \<Longrightarrow> mset (bl b) = mset [0..<T]" and ol: "mset ol = mset [0..<B]"
    and r: "r = fold (\<lambda>b m. atomic_sem (atomicAdd_f64 arch600) m (f64_sum.gather_blk arch600 B T k b (bl b))) ol f64_zero"
    using f64_sum.launch_orders [OF _ fin] by blast
  have perm: "sum_list (map f xs) = sum_list (map f ys)" if "mset xs = mset ys" for f :: "nat \<Rightarrow> nat" and xs ys
    using that by (metis mset_map sum_mset_sum_list)
  have set_bl: "t < T" if "b < B" "t \<in> set (bl b)" for b t using that mset_eq_setD [OF bl [OF that(1)]] by auto
  have set_ol: "b < B" if "b \<in> set ol" for b using that mset_eq_setD [OF ol] by auto
  let ?v = "\<lambda>b. sum_list (map (w b) [0..<T])"
  have blk: "f64_sum.gather_blk arch600 B T k b (bl b) = f64_of_int (int (?v b))" if b: "b < B" for b
  proof -
    have "?v b \<le> S" unfolding S(1) using b by (intro member_le_sum_list) auto
    then show ?thesis
      using f64_fold_exact [of "bl b" "thread_local B T k b" "w b" 0 arch600] set_bl [OF b] loc [OF b] perm [OF bl [OF b], of "w b"] S(2) k(5)
      by (simp add: f64_sum.gather_blk_def f64_of_int_zero)
  qed
  show ?thesis
    unfolding r using f64_fold_exact [of ol "\<lambda>b. f64_sum.gather_blk arch600 B T k b (bl b)" ?v 0 arch600] blk set_ol perm [OF ol, of ?v] S
    by (simp add: f64_of_int_zero)
qed

lemma count_kernel_f64:
  assumes "0 < B" "0 < T" "n < 2 ^ 53" "launch B T (matrix_count_kernel_pred_f64 arch600 d n c a b) junk sched f64_zero = Some r"
  shows "r = matrix_cpu_reduce_pred_f64 d n \<lparr>p_cmp = c, p_a = a, p_b = b\<rparr> AGG_COUNT None"
proof -
  let ?c = "\<lambda>i. matrix_pred_match_f64 (d ! i) \<lparr>p_cmp = c, p_a = a, p_b = b\<rparr>"
  let ?k = "matrix_count_kernel_pred_f64 arch600 d n c a b"
  let ?w = "\<lambda>b t. length (filter ?c (strided (b * T + t) (B * T) n))"
  have body: "fold (rk_body ?k s) rows (f64_of_int (int j)) = f64_of_int (int (j + length (filter ?c rows)))"
    if "j + length rows < 2 ^ 53" for rows j s
    using that
  proof (induction rows arbitrary: j)
    case (Cons i rows)
    have "rk_body ?k s i (f64_of_int (int j)) = f64_of_int (int (j + (if ?c i then 1 else 0)))"
      using f64_add_exact [of j 1] Cons.prems by (simp add: matrix_count_kernel_pred_f64_def add.commute)
    then show ?case using Cons.IH [of "j + (if ?c i then 1 else 0)"] Cons.prems by (simp add: add.assoc)
  qed simp
  have sum: "sum_list (map (\<lambda>b. sum_list (map (?w b) [0..<T])) [0..<B]) = length (filter ?c [0..<n])"
  proof -
    have "sum_list (map (\<lambda>b. sum_list (map (?w b) [0..<T])) [0..<B]) =
        length (filter ?c (concat (map (\<lambda>b. concat (map (\<lambda>t. strided (b * T + t) (B * T) n) [0..<T])) [0..<B])))"
      by (simp add: length_concat filter_concat comp_def)
    also have "\<dots> = length (filter ?c [0..<n])"
      using grid_partition [of B T n] assms(1,2) by (metis mset_filter size_mset mult_pos_pos)
    finally show ?thesis .
  qed
  have len: "length (strided (b * T + t) (B * T) n) \<le> n" for b t
  proof -
    have "set (strided (b * T + t) (B * T) n) \<subseteq> {..<n}" using assms(1,2) by (auto simp: set_strided)
    moreover have "distinct (strided (b * T + t) (B * T) n)"
      using sorted_strided [of "b * T + t" "B * T" n] by (auto simp: strict_sorted_iff)
    ultimately show ?thesis using card_mono [of "{..<n}" "set (strided (b * T + t) (B * T) n)"] by (simp add: distinct_card)
  qed
  have loc: "thread_local B T ?k b t = f64_of_int (int (?w b t))" for b t
    using body [of 0 "strided (b * T + t) (B * T) n" "B * T"] len [of b t] assms(3)
    by (simp add: thread_local_def matrix_count_kernel_pred_f64_def f64_of_int_zero)
  have le: "length (filter ?c [0..<n]) < 2 ^ 53" using length_filter_le [of ?c "[0..<n]"] assms(3) by simp
  have "r = f64_of_int (int (length (filter ?c [0..<n])))"
    using exact_launch [OF assms(1,2) _ _ _ loc sum [symmetric] le assms(4)]
    by (simp add: matrix_count_kernel_pred_f64_def)
  then show ?thesis by (simp add: matrix_cpu_reduce_pred_f64_def f64_count_loop [OF assms(3)])
qed

end
