(* ===== verification/GPU_Group.thy ===== *)
theory GPU_Group
  imports GPU_Correct
begin

text \<open>
  The grouped kernels of \<open>compute_cuda.cuh\<close>: every thread runs a grid-stride loop over the rows and
  combines each row that qualifies atomically into the cell of its group in global memory. There are no
  barriers; a schedule interleaves the atomic operations of all rows.
\<close>

section \<open>The machine\<close>

text \<open>\<open>gk_row i\<close> is the cell and the value the atomic operation of row \<open>i\<close> is called with, if any.\<close>

record 'a group_kernel =
  gk_n :: nat
  gk_row :: "nat \<Rightarrow> (nat \<times> 'a) option"
  gk_atomic :: "'a atomic_op"

datatype 'a gthread = Row nat "'a option" | Return

record 'a ggrid =
  gg_out :: "'a list"
  gg_thr :: "nat \<Rightarrow> nat \<Rightarrow> 'a gthread"

definition group_step :: "nat \<Rightarrow> nat \<Rightarrow> 'a group_kernel \<Rightarrow> nat \<times> nat \<Rightarrow> 'a ggrid \<Rightarrow> 'a ggrid option" where
  "group_step B T k c s =
     (let b = fst c; t = snd c; put = (\<lambda>x. (gg_thr s)(b := (gg_thr s b)(t := x))) in
      if b < B \<and> t < T then
        (case gg_thr s b t of
           Return \<Rightarrow> None
         | Row i seen \<Rightarrow>
             if i < gk_n k then
               (case gk_row k i of
                  None \<Rightarrow> Some (s\<lparr>gg_thr := put (Row (i + B * T) None)\<rparr>)
                | Some (g, v) \<Rightarrow>
                    (let (m, r) = atomic_step (gk_atomic k) v seen (gg_out s ! g) in
                     Some (s\<lparr>gg_out := (gg_out s)[g := m],
                             gg_thr := put (case r of None \<Rightarrow> Row (i + B * T) None | Some a \<Rightarrow> Row i (Some a))\<rparr>)))
             else Some (s\<lparr>gg_thr := put Return\<rparr>))
      else None)"

definition run_group :: "nat \<Rightarrow> nat \<Rightarrow> 'a group_kernel \<Rightarrow> (nat \<times> nat) list \<Rightarrow> 'a ggrid \<Rightarrow> 'a ggrid" where
  "run_group B T k sched s = fold (\<lambda>c s. case group_step B T k c s of None \<Rightarrow> s | Some s' \<Rightarrow> s') sched s"

definition group_done :: "nat \<Rightarrow> nat \<Rightarrow> 'a ggrid \<Rightarrow> bool" where
  "group_done B T s =
     list_all (\<lambda>b. list_all (\<lambda>t. case gg_thr s b t of Return \<Rightarrow> True | Row i seen \<Rightarrow> False) [0..<T]) [0..<B]"

definition group_start :: "nat \<Rightarrow> 'a list \<Rightarrow> 'a ggrid" where
  "group_start T out = \<lparr>gg_out = out, gg_thr = (\<lambda>b t. Row (b * T + t) None)\<rparr>"

definition launch_group :: "nat \<Rightarrow> nat \<Rightarrow> 'a group_kernel \<Rightarrow> (nat \<times> nat) list \<Rightarrow> 'a list \<Rightarrow> 'a list option" where
  "launch_group B T k sched out =
     (let s = run_group B T k sched (group_start T out) in if group_done B T s then Some (gg_out s) else None)"

section \<open>The kernels\<close>

definition matrix_group_count_kernel :: "u32 list \<Rightarrow> nat \<Rightarrow> u32 \<Rightarrow> u64 group_kernel" where
  "matrix_group_count_kernel keys n num_groups =
     \<lparr>gk_n = n,
      gk_row = (\<lambda>i. let k = keys ! i in if k < num_groups then Some (unat k, 1) else None),
      gk_atomic = Native (+)\<rparr>"

definition matrix_group_sum_kernel :: "u32 list \<Rightarrow> u32 list \<Rightarrow> nat \<Rightarrow> u32 \<Rightarrow> u64 group_kernel" where
  "matrix_group_sum_kernel keys vals n num_groups =
     \<lparr>gk_n = n,
      gk_row = (\<lambda>i. let k = keys ! i in if k < num_groups then Some (unat k, ucast (vals ! i)) else None),
      gk_atomic = Native (+)\<rparr>"

definition matrix_group_min_kernel :: "u32 list \<Rightarrow> u32 list \<Rightarrow> nat \<Rightarrow> u32 \<Rightarrow> u64 group_kernel" where
  "matrix_group_min_kernel keys vals n num_groups =
     \<lparr>gk_n = n,
      gk_row = (\<lambda>i. let k = keys ! i in if k < num_groups then Some (unat k, ucast (vals ! i)) else None),
      gk_atomic = Native min\<rparr>"

definition matrix_group_max_kernel :: "u32 list \<Rightarrow> u32 list \<Rightarrow> nat \<Rightarrow> u32 \<Rightarrow> u64 group_kernel" where
  "matrix_group_max_kernel keys vals n num_groups =
     \<lparr>gk_n = n,
      gk_row = (\<lambda>i. let k = keys ! i in if k < num_groups then Some (unat k, ucast (vals ! i)) else None),
      gk_atomic = Native max\<rparr>"

definition matrix_group_count_kernel_pred :: "u32 list \<Rightarrow> u32 list \<Rightarrow> nat \<Rightarrow> u32 \<Rightarrow> matrix_cmp \<Rightarrow> u32 \<Rightarrow> u32 \<Rightarrow> u64 group_kernel" where
  "matrix_group_count_kernel_pred keys vals n num_groups c a b =
     \<lparr>gk_n = n,
      gk_row = (\<lambda>i. let k = keys ! i in
        if k < num_groups \<and> matrix_pred_match_dev (vals ! i) c a b then Some (unat k, 1) else None),
      gk_atomic = Native (+)\<rparr>"

definition matrix_group_sum_kernel_pred :: "u32 list \<Rightarrow> u32 list \<Rightarrow> nat \<Rightarrow> u32 \<Rightarrow> matrix_cmp \<Rightarrow> u32 \<Rightarrow> u32 \<Rightarrow> u64 group_kernel" where
  "matrix_group_sum_kernel_pred keys vals n num_groups c a b =
     \<lparr>gk_n = n,
      gk_row = (\<lambda>i. let k = keys ! i in
        if k < num_groups \<and> matrix_pred_match_dev (vals ! i) c a b then Some (unat k, ucast (vals ! i)) else None),
      gk_atomic = Native (+)\<rparr>"

definition matrix_group_min_kernel_pred :: "u32 list \<Rightarrow> u32 list \<Rightarrow> nat \<Rightarrow> u32 \<Rightarrow> matrix_cmp \<Rightarrow> u32 \<Rightarrow> u32 \<Rightarrow> u64 group_kernel" where
  "matrix_group_min_kernel_pred keys vals n num_groups c a b =
     \<lparr>gk_n = n,
      gk_row = (\<lambda>i. let k = keys ! i in
        if k < num_groups \<and> matrix_pred_match_dev (vals ! i) c a b then Some (unat k, ucast (vals ! i)) else None),
      gk_atomic = Native min\<rparr>"

definition matrix_group_max_kernel_pred :: "u32 list \<Rightarrow> u32 list \<Rightarrow> nat \<Rightarrow> u32 \<Rightarrow> matrix_cmp \<Rightarrow> u32 \<Rightarrow> u32 \<Rightarrow> u64 group_kernel" where
  "matrix_group_max_kernel_pred keys vals n num_groups c a b =
     \<lparr>gk_n = n,
      gk_row = (\<lambda>i. let k = keys ! i in
        if k < num_groups \<and> matrix_pred_match_dev (vals ! i) c a b then Some (unat k, ucast (vals ! i)) else None),
      gk_atomic = Native max\<rparr>"

definition matrix_group_count_kernel_i64 :: "u32 list \<Rightarrow> i64 list \<Rightarrow> nat \<Rightarrow> u32 \<Rightarrow> matrix_cmp \<Rightarrow> i64 \<Rightarrow> i64 \<Rightarrow> i64 group_kernel" where
  "matrix_group_count_kernel_i64 keys vals n num_groups c a b =
     \<lparr>gk_n = n,
      gk_row = (\<lambda>i. let k = keys ! i in
        if k < num_groups \<and> matrix_pred_match_i64_dev (vals ! i) c a b then Some (unat k, I64 1) else None),
      gk_atomic = Native i64_add\<rparr>"

definition matrix_group_sum_kernel_i64 :: "u32 list \<Rightarrow> i64 list \<Rightarrow> nat \<Rightarrow> u32 \<Rightarrow> matrix_cmp \<Rightarrow> i64 \<Rightarrow> i64 \<Rightarrow> i64 group_kernel" where
  "matrix_group_sum_kernel_i64 keys vals n num_groups c a b =
     \<lparr>gk_n = n,
      gk_row = (\<lambda>i. let k = keys ! i in
        if k < num_groups \<and> matrix_pred_match_i64_dev (vals ! i) c a b then Some (unat k, vals ! i) else None),
      gk_atomic = Native i64_add\<rparr>"

definition matrix_group_min_kernel_i64 :: "u32 list \<Rightarrow> i64 list \<Rightarrow> nat \<Rightarrow> u32 \<Rightarrow> matrix_cmp \<Rightarrow> i64 \<Rightarrow> i64 \<Rightarrow> i64 group_kernel" where
  "matrix_group_min_kernel_i64 keys vals n num_groups c a b =
     \<lparr>gk_n = n,
      gk_row = (\<lambda>i. let k = keys ! i in
        if k < num_groups \<and> matrix_pred_match_i64_dev (vals ! i) c a b then Some (unat k, vals ! i) else None),
      gk_atomic = Native min\<rparr>"

definition matrix_group_max_kernel_i64 :: "u32 list \<Rightarrow> i64 list \<Rightarrow> nat \<Rightarrow> u32 \<Rightarrow> matrix_cmp \<Rightarrow> i64 \<Rightarrow> i64 \<Rightarrow> i64 group_kernel" where
  "matrix_group_max_kernel_i64 keys vals n num_groups c a b =
     \<lparr>gk_n = n,
      gk_row = (\<lambda>i. let k = keys ! i in
        if k < num_groups \<and> matrix_pred_match_i64_dev (vals ! i) c a b then Some (unat k, vals ! i) else None),
      gk_atomic = Native max\<rparr>"

definition matrix_group_count_kernel_f64 :: "bool \<Rightarrow> u32 list \<Rightarrow> f64 list \<Rightarrow> nat \<Rightarrow> u32 \<Rightarrow> matrix_cmp \<Rightarrow> f64 \<Rightarrow> f64 \<Rightarrow> f64 group_kernel" where
  "matrix_group_count_kernel_f64 arch600 keys vals n num_groups c a b =
     \<lparr>gk_n = n,
      gk_row = (\<lambda>i. let k = keys ! i in
        if k < num_groups \<and> matrix_pred_match_f64_dev (vals ! i) c a b then Some (unat k, f64_of_int 1) else None),
      gk_atomic = atomicAdd_f64 arch600\<rparr>"

definition matrix_group_sum_kernel_f64 :: "bool \<Rightarrow> u32 list \<Rightarrow> f64 list \<Rightarrow> nat \<Rightarrow> u32 \<Rightarrow> matrix_cmp \<Rightarrow> f64 \<Rightarrow> f64 \<Rightarrow> f64 group_kernel" where
  "matrix_group_sum_kernel_f64 arch600 keys vals n num_groups c a b =
     \<lparr>gk_n = n,
      gk_row = (\<lambda>i. let k = keys ! i in
        if k < num_groups \<and> matrix_pred_match_f64_dev (vals ! i) c a b then Some (unat k, vals ! i) else None),
      gk_atomic = atomicAdd_f64 arch600\<rparr>"

definition matrix_group_min_kernel_f64 :: "u32 list \<Rightarrow> f64 list \<Rightarrow> nat \<Rightarrow> u32 \<Rightarrow> matrix_cmp \<Rightarrow> f64 \<Rightarrow> f64 \<Rightarrow> f64 group_kernel" where
  "matrix_group_min_kernel_f64 keys vals n num_groups c a b =
     \<lparr>gk_n = n,
      gk_row = (\<lambda>i. let k = keys ! i in
        if k < num_groups \<and> matrix_pred_match_f64_dev (vals ! i) c a b then Some (unat k, vals ! i) else None),
      gk_atomic = atomicMinDouble\<rparr>"

definition matrix_group_max_kernel_f64 :: "u32 list \<Rightarrow> f64 list \<Rightarrow> nat \<Rightarrow> u32 \<Rightarrow> matrix_cmp \<Rightarrow> f64 \<Rightarrow> f64 \<Rightarrow> f64 group_kernel" where
  "matrix_group_max_kernel_f64 keys vals n num_groups c a b =
     \<lparr>gk_n = n,
      gk_row = (\<lambda>i. let k = keys ! i in
        if k < num_groups \<and> matrix_pred_match_f64_dev (vals ! i) c a b then Some (unat k, vals ! i) else None),
      gk_atomic = atomicMaxDouble\<rparr>"

section \<open>Every row takes effect once\<close>

fun todo :: "nat \<Rightarrow> nat \<Rightarrow> 'a gthread \<Rightarrow> nat list" where
  "todo stride n (Row i seen) = strided i stride n"
| "todo stride n Return = []"

lemma case_Return: "(case x of Return \<Rightarrow> True | Row i seen \<Rightarrow> False) \<longleftrightarrow> x = Return"
  by (cases x) auto

lemma group_done_iff: "group_done B T s \<longleftrightarrow> (\<forall>b < B. \<forall>t < T. gg_thr s b t = Return)"
  by (auto simp: group_done_def list_all_iff case_Return)

lemma sum_list_sum: "(\<Sum>c \<in> {..<B} \<times> {..<T}. f (fst c) (snd c)) = sum_list (map (\<lambda>b. sum_list (map (f b) [0..<T])) [0..<B])"
  using sum.cartesian_product [of f "{..<T}" "{..<B}"]
  by (simp add: lessThan_atLeast0 interv_sum_list_conv_sum_set_nat case_prod_unfold)

context atomic_memory
begin

definition apply_row :: "'a group_kernel \<Rightarrow> nat \<Rightarrow> 'a list \<Rightarrow> 'a list" where
  "apply_row k i out = (case gk_row k i of None \<Rightarrow> out | Some (g, v) \<Rightarrow> out[g := atomic_sem op (out ! g) v])"

definition group_ok :: "'a group_kernel \<Rightarrow> 'a list \<Rightarrow> bool" where
  "group_ok k out0 \<longleftrightarrow> gk_atomic k = op \<and> (\<forall>x \<in> set out0. good x) \<and>
     (\<forall>i < gk_n k. \<forall>g v. gk_row k i = Some (g, v) \<longrightarrow> g < length out0 \<and> good v)"

definition group_inv :: "nat \<Rightarrow> nat \<Rightarrow> 'a group_kernel \<Rightarrow> 'a list \<Rightarrow> nat list \<Rightarrow> 'a ggrid \<Rightarrow> bool" where
  "group_inv B T k out0 log s \<longleftrightarrow>
     mset log + (\<Sum>c \<in> {..<B} \<times> {..<T}. mset (todo (B * T) (gk_n k) (gg_thr s (fst c) (snd c)))) = mset [0..<gk_n k] \<and>
     gg_out s = fold (apply_row k) log out0 \<and>
     (\<forall>b < B. \<forall>t < T. \<forall>i a g v. gg_thr s b t = Row i (Some a) \<longrightarrow> gk_row k i = Some (g, v) \<longrightarrow>
        i < gk_n k \<and> later (gg_out s ! g) a)"

lemma apply_row_good:
  assumes "\<And>g v. gk_row k i = Some (g, v) \<Longrightarrow> g < length out \<and> good v" "\<forall>x \<in> set out. good x"
  shows "length (apply_row k i out) = length out \<and> (\<forall>x \<in> set (apply_row k i out). good x)"
proof (cases "gk_row k i")
  case (Some gv)
  obtain g v where gv: "gv = (g, v)" by fastforce
  then have "good (atomic_sem op (out ! g) v)" using assms Some by (intro sem_good) auto
  then have "\<forall>x \<in> set (out[g := atomic_sem op (out ! g) v]). good x"
    using assms(2) set_update_subset_insert [of out g "atomic_sem op (out ! g) v"] by blast
  then show ?thesis using Some gv by (simp add: apply_row_def)
qed (use assms(2) in \<open>simp add: apply_row_def\<close>)

lemma apply_rows_good:
  assumes "group_ok k out0" "\<forall>i \<in> set log. i < gk_n k"
  shows "length (fold (apply_row k) log out0) = length out0 \<and> (\<forall>x \<in> set (fold (apply_row k) log out0). good x)"
  using assms(2)
proof (induction log rule: rev_induct)
  case (snoc i log)
  have "\<And>g v. gk_row k i = Some (g, v) \<Longrightarrow> g < length out0 \<and> good v"
    using snoc.prems assms(1) by (auto simp: group_ok_def)
  then show ?case using snoc apply_row_good [of k i "fold (apply_row k) log out0"] by simp
qed (use assms(1) in \<open>simp add: group_ok_def\<close>)

lemma todo_update:
  fixes f :: "'a gthread \<Rightarrow> 'c::comm_monoid_add"
  assumes "b < B" "t < T"
  shows "(\<Sum>c \<in> {..<B} \<times> {..<T}. f (gg_thr s (fst c) (snd c))) =
      f (gg_thr s b t) + (\<Sum>c \<in> {..<B} \<times> {..<T} - {(b, t)}. f (gg_thr s (fst c) (snd c)))"
    and "(\<Sum>c \<in> {..<B} \<times> {..<T}. f (((gg_thr s)(b := (gg_thr s b)(t := x))) (fst c) (snd c))) =
      f x + (\<Sum>c \<in> {..<B} \<times> {..<T} - {(b, t)}. f (gg_thr s (fst c) (snd c)))"
proof -
  have A: "finite ({..<B} \<times> {..<T})" "(b, t) \<in> {..<B} \<times> {..<T}" using assms by auto
  show "(\<Sum>c \<in> {..<B} \<times> {..<T}. f (gg_thr s (fst c) (snd c))) =
      f (gg_thr s b t) + (\<Sum>c \<in> {..<B} \<times> {..<T} - {(b, t)}. f (gg_thr s (fst c) (snd c)))"
    using sum.remove [OF A, of "\<lambda>c. f (gg_thr s (fst c) (snd c))"] by simp
  have "(\<Sum>c \<in> {..<B} \<times> {..<T} - {(b, t)}. f (((gg_thr s)(b := (gg_thr s b)(t := x))) (fst c) (snd c))) =
      (\<Sum>c \<in> {..<B} \<times> {..<T} - {(b, t)}. f (gg_thr s (fst c) (snd c)))"
    by (rule sum.cong) auto
  then show "(\<Sum>c \<in> {..<B} \<times> {..<T}. f (((gg_thr s)(b := (gg_thr s b)(t := x))) (fst c) (snd c))) =
      f x + (\<Sum>c \<in> {..<B} \<times> {..<T} - {(b, t)}. f (gg_thr s (fst c) (snd c)))"
    using sum.remove [OF A, of "\<lambda>c. f (((gg_thr s)(b := (gg_thr s b)(t := x))) (fst c) (snd c))"] by simp
qed

lemma group_inv_step:
  assumes ok: "group_ok k out0" and inv: "group_inv B T k out0 log s"
    and step: "group_step B T k (b, t) s = Some s'"
  shows "\<exists>log'. group_inv B T k out0 log' s'"
proof -
  let ?n = "gk_n k" and ?S = "B * T"
  have c: "b < B" "t < T" using step by (auto simp: group_step_def Let_def split: if_splits)
  have S: "0 < ?S" using c by simp
  let ?rest = "\<Sum>c \<in> {..<B} \<times> {..<T} - {(b, t)}. mset (todo ?S ?n (gg_thr s (fst c) (snd c)))"
  note up = todo_update [OF c, of "\<lambda>x. mset (todo ?S ?n x)" s]
  have I: "mset log + (mset (todo ?S ?n (gg_thr s b t)) + ?rest) = mset [0..<?n]"
    "gg_out s = fold (apply_row k) log out0"
    "\<And>b t i a g v. b < B \<Longrightarrow> t < T \<Longrightarrow> gg_thr s b t = Row i (Some a) \<Longrightarrow> gk_row k i = Some (g, v) \<Longrightarrow>
      i < ?n \<and> later (gg_out s ! g) a"
    using inv unfolding group_inv_def up(1) by blast+
  have "set log \<subseteq> {..<?n}" using arg_cong [OF I(1), of set_mset] by auto
  then have cells: "length (gg_out s) = length out0" "\<And>x. x \<in> set (gg_out s) \<Longrightarrow> good x"
    using apply_rows_good [OF ok, of log] I(2) by auto
  have keep: "group_inv B T k out0 log (s\<lparr>gg_thr := (gg_thr s)(b := (gg_thr s b)(t := x))\<rparr>)"
    if "todo ?S ?n x = todo ?S ?n (gg_thr s b t)"
      "\<And>i a g v. x = Row i (Some a) \<Longrightarrow> gk_row k i = Some (g, v) \<Longrightarrow> i < ?n \<and> later (gg_out s ! g) a" for x
    unfolding group_inv_def
  proof (intro conjI allI impI)
    let ?s = "s\<lparr>gg_thr := (gg_thr s)(b := (gg_thr s b)(t := x))\<rparr>"
    have "(\<Sum>c \<in> {..<B} \<times> {..<T}. mset (todo ?S ?n (gg_thr ?s (fst c) (snd c)))) = mset (todo ?S ?n (gg_thr s b t)) + ?rest"
      using up(2) [of x] that(1) by simp
    then show "mset log + (\<Sum>c \<in> {..<B} \<times> {..<T}. mset (todo ?S ?n (gg_thr ?s (fst c) (snd c)))) = mset [0..<?n]"
      using I(1) by (simp only:)
    show "gg_out ?s = fold (apply_row k) log out0" using I(2) by simp
    fix b' t' i a g v
    assume r: "b' < B" "t' < T" "gg_thr ?s b' t' = Row i (Some a)" "gk_row k i = Some (g, v)"
    then have "gg_thr s b' t' = Row i (Some a) \<or> x = Row i (Some a)" by (simp split: if_splits)
    then show "i < ?n" "later (gg_out ?s ! g) a" using I(3) [OF r(1,2) _ r(4)] that(2) [OF _ r(4)] by auto
  qed
  have adv: "group_inv B T k out0 (log @ [i]) (s\<lparr>gg_out := apply_row k i (gg_out s),
      gg_thr := (gg_thr s)(b := (gg_thr s b)(t := Row (i + ?S) None))\<rparr>)"
    if "todo ?S ?n (gg_thr s b t) = i # strided (i + ?S) ?S ?n"
      "\<And>g' a. g' < length out0 \<Longrightarrow> later (gg_out s ! g') a \<Longrightarrow> later (apply_row k i (gg_out s) ! g') a" for i
    unfolding group_inv_def
  proof (intro conjI allI impI)
    let ?s = "s\<lparr>gg_out := apply_row k i (gg_out s), gg_thr := (gg_thr s)(b := (gg_thr s b)(t := Row (i + ?S) None))\<rparr>"
    have "(\<Sum>c \<in> {..<B} \<times> {..<T}. mset (todo ?S ?n (gg_thr ?s (fst c) (snd c)))) = mset (strided (i + ?S) ?S ?n) + ?rest"
      using up(2) [of "Row (i + ?S) None"] by simp
    then show "mset (log @ [i]) + (\<Sum>c \<in> {..<B} \<times> {..<T}. mset (todo ?S ?n (gg_thr ?s (fst c) (snd c)))) = mset [0..<?n]"
      using I(1) that(1) by simp
    show "gg_out ?s = fold (apply_row k) (log @ [i]) out0" using I(2) by simp
    fix b' t' j a g v
    assume r: "b' < B" "t' < T" "gg_thr ?s b' t' = Row j (Some a)" "gk_row k j = Some (g, v)"
    then have "gg_thr s b' t' = Row j (Some a)" by (simp split: if_splits)
    then have *: "j < ?n" "later (gg_out s ! g) a" using I(3) [OF r(1,2) _ r(4)] by auto
    then have "g < length out0" using ok r(4) by (auto simp: group_ok_def)
    then show "j < ?n" "later (gg_out ?s ! g) a" using * that(2) by simp_all
  qed
  show ?thesis
  proof (cases "gg_thr s b t")
    case Return
    then show ?thesis using step c by (simp add: group_step_def)
  next
    case (Row i seen)
    show ?thesis
    proof (cases "i < ?n")
      case False
      then have "todo ?S ?n (gg_thr s b t) = []" using Row by (simp add: strided.simps)
      then have "group_inv B T k out0 log (s\<lparr>gg_thr := (gg_thr s)(b := (gg_thr s b)(t := Return))\<rparr>)"
        by (intro keep) simp_all
      then show ?thesis using step c Row False by (auto simp: group_step_def Let_def)
    next
      case True
      have td: "todo ?S ?n (gg_thr s b t) = i # strided (i + ?S) ?S ?n" using Row True S by (simp add: strided.simps [of i])
      show ?thesis
      proof (cases "gk_row k i")
        case None
        have "apply_row k i (gg_out s) = gg_out s" using None by (simp add: apply_row_def)
        then show ?thesis using step c Row True None adv [OF td] by (auto simp: group_step_def Let_def)
      next
        case (Some gv)
        obtain g v where gv: "gv = (g, v)" by fastforce
        obtain m r where mr: "atomic_step op v seen (gg_out s ! g) = (m, r)" by fastforce
        have g: "g < length out0" "good v" using ok True Some gv by (auto simp: group_ok_def)
        have cell: "good (gg_out s ! g)" using cells g(1) by simp
        have at: "gk_atomic k = op" using ok by (simp add: group_ok_def)
        have seen: "\<And>a. seen = Some a \<Longrightarrow> later (gg_out s ! g) a" using I(3) [OF c] Row Some gv by blast
        consider "r = None" "m = atomic_sem op (gg_out s ! g) v" | "r = Some (gg_out s ! g)" "m = gg_out s ! g"
          using atomic_step_effect [OF cell g(2) seen mr] by blast
        then show ?thesis
        proof cases
          case 1
          have ap: "apply_row k i (gg_out s) = (gg_out s)[g := m]" using Some gv 1 by (simp add: apply_row_def)
          have "later (apply_row k i (gg_out s) ! g') a" if "g' < length out0" "later (gg_out s ! g') a" for g' a
            using that later_step [OF cell g(2)] cells(1) 1 by (cases "g' = g") (simp_all add: ap)
          from adv [OF td this] show ?thesis
            using step c Row True Some gv mr at 1 by (auto simp: group_step_def Let_def ap)
        next
          case 2
          have "group_inv B T k out0 log (s\<lparr>gg_thr := (gg_thr s)(b := (gg_thr s b)(t := Row i (Some (gg_out s ! g))))\<rparr>)"
            using Row Some gv True later_refl [OF cell] by (intro keep) auto
          then show ?thesis
            using step c Row True Some gv mr at 2 by (auto simp: group_step_def Let_def)
        qed
      qed
    qed
  qed
qed

lemma group_inv_run:
  assumes "group_ok k out0" "group_inv B T k out0 log s"
  shows "\<exists>log'. group_inv B T k out0 log' (run_group B T k sched s)"
  using assms(2)
proof (induction sched arbitrary: log s)
  case (Cons c sched)
  obtain log' where "group_inv B T k out0 log' (case group_step B T k c s of None \<Rightarrow> s | Some s' \<Rightarrow> s')"
    using Cons.prems group_inv_step [OF assms(1) Cons.prems, of "fst c" "snd c"]
    by (cases "group_step B T k c s") auto
  from Cons.IH [OF this] show ?case by (simp add: run_group_def)
qed (auto simp: run_group_def)

text \<open>A complete launch applies the rows one after the other, in some order.\<close>

lemma group_orders:
  assumes ok: "group_ok k out0" and "0 < B" "0 < T" and fin: "launch_group B T k sched out0 = Some out"
  shows "\<exists>log. mset log = mset [0..<gk_n k] \<and> out = fold (apply_row k) log out0"
proof -
  let ?s = "run_group B T k sched (group_start T out0)"
  have "(\<Sum>c \<in> {..<B} \<times> {..<T}. mset (strided (fst c * T + snd c) (B * T) (gk_n k))) = mset [0..<gk_n k]"
    using grid_partition [of B T "gk_n k"] assms(2,3)
      sum_list_sum [of "\<lambda>b t. mset (strided (b * T + t) (B * T) (gk_n k))" B T]
    by (simp add: mset_concat comp_def)
  then have "group_inv B T k out0 [] (group_start T out0)" by (simp add: group_inv_def group_start_def)
  then obtain log where inv: "group_inv B T k out0 log ?s" using group_inv_run [OF ok] by blast
  have "group_done B T ?s" "out = gg_out ?s" using fin by (auto simp: launch_group_def Let_def split: if_splits)
  then have "(\<Sum>c \<in> {..<B} \<times> {..<T}. mset (todo (B * T) (gk_n k) (gg_thr ?s (fst c) (snd c)))) = {#}"
    by (intro sum.neutral) (auto simp: group_done_iff)
  then have "mset log = mset [0..<gk_n k]" "gg_out ?s = fold (apply_row k) log out0"
    using inv unfolding group_inv_def by simp_all
  then show ?thesis using \<open>out = gg_out ?s\<close> by blast
qed

lemma apply_rows_nth:
  assumes "j < length out" "\<And>i. i \<in> set log \<Longrightarrow> gk_row k i = (if c i then Some (slot i, v i) else None)"
  shows "fold (apply_row k) log out ! j = fold (\<lambda>i m. atomic_sem op m (v i)) (filter (\<lambda>i. c i \<and> slot i = j) log) (out ! j)"
  using assms
proof (induction log arbitrary: out)
  case (Cons i log)
  have "length (apply_row k i out) = length out" by (simp add: apply_row_def split: option.splits)
  then show ?case using Cons by (auto simp: apply_row_def)
qed simp

end

context reduction
begin

lemma group_total:
  assumes rows: "\<And>i. i < gk_n k \<Longrightarrow> gk_row k i = (if c i then Some (slot i, v i) else None)"
    and good: "gk_atomic k = op" "\<forall>x \<in> set out0. good x"
      "\<And>i. i < gk_n k \<Longrightarrow> c i \<Longrightarrow> slot i < length out0 \<and> good (v i)"
    and launch: "0 < B" "0 < T" "launch_group B T k sched out0 = Some out"
  shows "length out = length out0 \<and> (\<forall>j < length out0. good (out ! j) \<and> abs (out ! j) =
    g (abs (out0 ! j)) (total (map (\<lambda>i. abs (v i)) (filter (\<lambda>i. c i \<and> slot i = j) [0..<gk_n k]))))"
proof -
  have ok: "group_ok k out0" using rows good by (auto simp: group_ok_def split: if_splits)
  obtain log where log: "mset log = mset [0..<gk_n k]" "out = fold (apply_row k) log out0"
    using group_orders [OF ok launch] by blast
  have lt: "i < gk_n k" if "i \<in> set log" for i using that mset_eq_setD [OF log(1)] by auto
  have out: "length out = length out0" "\<forall>x \<in> set out. good x"
    using apply_rows_good [OF ok, of log] lt log(2) by auto
  have "abs (out ! j) = g (abs (out0 ! j)) (total (map (\<lambda>i. abs (v i)) (filter (\<lambda>i. c i \<and> slot i = j) [0..<gk_n k])))"
    if j: "j < length out0" for j
  proof -
    have "abs (out ! j) = g (abs (out0 ! j)) (total (map (\<lambda>i. abs (v i)) (filter (\<lambda>i. c i \<and> slot i = j) log)))"
    proof -
      have oj: "out ! j = fold (\<lambda>i m. atomic_sem op m (v i)) (filter (\<lambda>i. c i \<and> slot i = j) log) (out0 ! j)"
        unfolding log(2) using rows lt by (intro apply_rows_nth [OF j]) auto
      show ?thesis unfolding oj using good(2,3) lt j by (intro abs_fold) auto
    qed
    also have "total (map (\<lambda>i. abs (v i)) (filter (\<lambda>i. c i \<and> slot i = j) log)) =
        total (map (\<lambda>i. abs (v i)) (filter (\<lambda>i. c i \<and> slot i = j) [0..<gk_n k]))"
      using log(1) by (intro total_mset) (simp only: mset_map mset_filter)
    finally show ?thesis .
  qed
  then show ?thesis using out by simp
qed

end

section \<open>Grouped launches complete\<close>

fun gcost :: "nat \<Rightarrow> nat \<Rightarrow> 'a gthread \<Rightarrow> nat" where
  "gcost N n (Row i seen) = (n - i) * (N + 3) + (if seen = None then 2 else 1)"
| "gcost N n Return = 0"

fun gstale :: "'a group_kernel \<Rightarrow> 'a list \<Rightarrow> 'a gthread \<Rightarrow> bool" where
  "gstale k out (Row i (Some a)) = (case gk_row k i of None \<Rightarrow> False | Some (g, v) \<Rightarrow> out ! g \<noteq> a)"
| "gstale k out _ = False"

definition gwork :: "nat \<Rightarrow> nat \<Rightarrow> 'a group_kernel \<Rightarrow> 'a ggrid \<Rightarrow> nat" where
  "gwork B T k s =
     (\<Sum>c \<in> {..<B} \<times> {..<T}. gcost (B * T) (gk_n k) (gg_thr s (fst c) (snd c))) +
     (\<Sum>c \<in> {..<B} \<times> {..<T}. of_bool (gstale k (gg_out s) (gg_thr s (fst c) (snd c))))"

lemma group_step_work:
  assumes "group_step B T k (b, t) s = Some s'"
  shows "gwork B T k s' < gwork B T k s"
proof -
  have c: "b < B" "t < T" using assms by (auto simp: group_step_def Let_def split: if_splits)
  have other: "gg_thr s' (fst d) (snd d) = gg_thr s (fst d) (snd d)" if "d \<noteq> (b, t)" for d
    using assms that by (cases d) (auto simp: group_step_def Let_def split: if_splits gthread.splits option.splits prod.splits)
  have adv: "(n - (i + B * T)) * (B * T + 3) + 2 + B * T < (n - i) * (B * T + 3) + x" if "i < n" "0 < x" for n i x
  proof -
    have "0 < B * T" using c by simp
    then have "(n - (i + B * T)) * (B * T + 3) \<le> (n - Suc i) * (B * T + 3)" by (intro mult_right_mono) linarith+
    moreover have "(n - i) * (B * T + 3) = (n - Suc i) * (B * T + 3) + (B * T + 3)"
      using that(1) by (metis Suc_diff_Suc mult_Suc add.commute)
    ultimately show ?thesis using that(2) by linarith
  qed
  have drop: "gcost (B * T) (gk_n k) (gg_thr s' b t) + B * T < gcost (B * T) (gk_n k) (gg_thr s b t) \<or>
      gg_out s' = gg_out s \<and> gcost (B * T) (gk_n k) (gg_thr s' b t) + of_bool (gstale k (gg_out s') (gg_thr s' b t)) <
        gcost (B * T) (gk_n k) (gg_thr s b t) + of_bool (gstale k (gg_out s) (gg_thr s b t))"
  proof (cases "gg_thr s b t")
    case Return
    then show ?thesis using assms c by (simp add: group_step_def)
  next
    case (Row i seen)
    show ?thesis
    proof (cases "i < gk_n k")
      case False
      then show ?thesis using assms c Row by (auto simp: group_step_def Let_def)
    next
      case True
      note adv = adv [OF True]
      show ?thesis
      proof (cases "gk_row k i")
        case None
        then show ?thesis using assms c Row True adv [of "if seen = None then 2 else 1"] by (auto simp: group_step_def Let_def)
      next
        case (Some gv)
        obtain g v where gv: "gv = (g, v)" by fastforce
        obtain m r where mr: "atomic_step (gk_atomic k) v seen (gg_out s ! g) = (m, r)" by fastforce
        then show ?thesis
          using assms c Row True Some gv atomic_step_progress [OF mr] adv [of "if seen = None then 2 else 1"]
          by (auto simp: group_step_def Let_def)
      qed
    qed
  qed
  show ?thesis
    unfolding gwork_def by (rule potential_less [of _ "(b, t)"]) (use c drop other in auto)
qed

lemma group_not_stuck:
  assumes "\<not> group_done B T s"
  shows "\<exists>c. group_step B T k c s \<noteq> None"
proof -
  obtain b t i seen where "b < B" "t < T" "gg_thr s b t = Row i seen"
    using assms by (auto simp: group_done_iff) (metis gthread.exhaust)
  then have "group_step B T k (b, t) s \<noteq> None"
    by (auto simp: group_step_def Let_def split: option.splits prod.splits)
  then show ?thesis ..
qed

lemma run_group_completes: "\<exists>sched. group_done B T (run_group B T k sched s)"
proof (induction "gwork B T k s" arbitrary: s rule: less_induct)
  case less
  show ?case
  proof (cases "group_done B T s")
    case True
    then show ?thesis by (auto simp: run_group_def intro: exI [of _ "[]"])
  next
    case False
    then obtain b t s' where st: "group_step B T k (b, t) s = Some s'" using group_not_stuck by fast
    obtain sched where "group_done B T (run_group B T k sched s')"
      using less group_step_work [OF st] by blast
    then have "group_done B T (run_group B T k ((b, t) # sched) s)" using st by (simp add: run_group_def)
    then show ?thesis by blast
  qed
qed

end
