(* ===== verification/GPU_Host.thy ===== *)
theory GPU_Host
  imports GPU_Group
begin

text \<open>
  The host side of the reductions (\<open>compute_cuda.cuh\<close>): allocate the result, write the sentinel, launch
  1024 blocks of 256 threads, copy the result back. The CUDA runtime is a parameter: \<open>cu_alloc\<close> says
  whether \<open>cudaMalloc\<close> of so many bytes succeeds, \<open>cu_sched\<close> is the order in which the hardware runs the
  threads, \<open>cu_shared\<close> what uninitialised shared memory holds, \<open>cu_arch600\<close> whether the device has the
  native \<open>atomicAdd\<close> on doubles. Copies and memsets inside an allocation succeed. The result is \<open>None\<close> for
  a failed \<open>CUDA_CHECK\<close>, which aborts the process, and for a schedule under which the launch has not
  completed: the copy of the result waits for it.
\<close>

record cuda =
  cu_alloc :: "nat \<Rightarrow> bool"
  cu_arch600 :: bool
  cu_shared :: "nat \<Rightarrow> u64"
  cu_sched :: "(nat \<times> nat) list"

definition memset_u64 :: "u8 \<Rightarrow> u64" where
  "memset_u64 byte = le_decode (replicate 8 byte)"

section \<open>Scalar reductions\<close>

definition matrix_gpu_reduce_dev_u32 :: "cuda \<Rightarrow> u32 list \<Rightarrow> nat \<Rightarrow> u32 predicate \<Rightarrow> agg_op \<Rightarrow> bool \<Rightarrow> u64 option" where
  "matrix_gpu_reduce_dev_u32 cu d n pred op has_filter =
     (let c = (if has_filter then p_cmp pred else CMP_GE);
          a = (if has_filter then p_a pred else 0);
          b = (if has_filter then p_b pred else 0);
          TPB = 256; BLOCKS = 1024 in
      if \<not> cu_alloc cu 8 then None
      else if op = AGG_SUM then
        launch BLOCKS TPB (matrix_sum_kernel_pred_u32 d n c a b) (cu_shared cu) (cu_sched cu) (memset_u64 0x00)
      else if op = AGG_MIN then
        launch BLOCKS TPB (matrix_min_kernel_pred_u32 d n c a b) (cu_shared cu) (cu_sched cu) (memset_u64 0xFF)
      else if op = AGG_MAX then
        launch BLOCKS TPB (matrix_max_kernel_pred_u32 d n c a b) (cu_shared cu) (cu_sched cu) (memset_u64 0x00)
      else
        launch BLOCKS TPB (matrix_count_kernel_pred_u32 d n c a b) (cu_shared cu) (cu_sched cu) (memset_u64 0x00))"

definition matrix_gpu_reduce_dev_i64 :: "cuda \<Rightarrow> i64 list \<Rightarrow> nat \<Rightarrow> i64 predicate \<Rightarrow> agg_op \<Rightarrow> bool \<Rightarrow> i64 option" where
  "matrix_gpu_reduce_dev_i64 cu d n pred op has_filter =
     (let c = (if has_filter then p_cmp pred else CMP_GE);
          a = (if has_filter then p_a pred else INT64_MIN);
          b = (if has_filter then p_b pred else I64 0);
          init = (if op = AGG_MIN then INT64_MAX else if op = AGG_MAX then INT64_MIN else I64 0); TPB = 256; BLOCKS = 1024 in
      if \<not> cu_alloc cu 8 then None
      else if op = AGG_SUM then
        launch BLOCKS TPB (matrix_sum_kernel_pred_i64 d n c a b) (\<lambda>b. I64 (cu_shared cu b)) (cu_sched cu) init
      else if op = AGG_MIN then
        launch BLOCKS TPB (matrix_min_kernel_pred_i64 d n c a b) (\<lambda>b. I64 (cu_shared cu b)) (cu_sched cu) init
      else if op = AGG_MAX then
        launch BLOCKS TPB (matrix_max_kernel_pred_i64 d n c a b) (\<lambda>b. I64 (cu_shared cu b)) (cu_sched cu) init
      else
        launch BLOCKS TPB (matrix_count_kernel_pred_i64 d n c a b) (\<lambda>b. I64 (cu_shared cu b)) (cu_sched cu) init)"

definition matrix_gpu_reduce_dev_f64 :: "cuda \<Rightarrow> f64 list \<Rightarrow> nat \<Rightarrow> f64 predicate \<Rightarrow> agg_op \<Rightarrow> bool \<Rightarrow> f64 option" where
  "matrix_gpu_reduce_dev_f64 cu d n pred op has_filter =
     (let c = (if has_filter then p_cmp pred else CMP_GE);
          a = (if has_filter then p_a pred else f64_ninf);
          b = (if has_filter then p_b pred else f64_zero);
          init = (if op = AGG_MIN then f64_inf else if op = AGG_MAX then f64_ninf else f64_zero); TPB = 256; BLOCKS = 1024 in
      if \<not> cu_alloc cu 8 then None
      else if op = AGG_SUM then
        launch BLOCKS TPB (matrix_sum_kernel_pred_f64 (cu_arch600 cu) d n c a b) (\<lambda>b. F64 (cu_shared cu b)) (cu_sched cu) init
      else if op = AGG_MIN then
        launch BLOCKS TPB (matrix_min_kernel_pred_f64 d n c a b) (\<lambda>b. F64 (cu_shared cu b)) (cu_sched cu) init
      else if op = AGG_MAX then
        launch BLOCKS TPB (matrix_max_kernel_pred_f64 d n c a b) (\<lambda>b. F64 (cu_shared cu b)) (cu_sched cu) init
      else
        launch BLOCKS TPB (matrix_count_kernel_pred_f64 (cu_arch600 cu) d n c a b) (\<lambda>b. F64 (cu_shared cu b)) (cu_sched cu) init)"

section \<open>Grouped reductions\<close>

definition matrix_gpu_group_reduce_dev ::
  "cuda \<Rightarrow> u32 list \<Rightarrow> u32 list \<Rightarrow> nat \<Rightarrow> u32 \<Rightarrow> agg_op \<Rightarrow> u32 predicate \<Rightarrow> bool \<Rightarrow> u64 list option" where
  "matrix_gpu_group_reduce_dev cu keys vals n num_groups op pred has_filter =
     (let c = p_cmp pred; a = p_a pred; b = p_b pred; TPB = 256; BLOCKS = 1024;
          d_out = replicate (unat num_groups) (memset_u64 (if op = AGG_MIN then 0xFF else 0x00)) in
      if \<not> cu_alloc cu (unat num_groups * 8) then None
      else if has_filter then
        if op = AGG_SUM then launch_group BLOCKS TPB (matrix_group_sum_kernel_pred keys vals n num_groups c a b) (cu_sched cu) d_out
        else if op = AGG_MIN then launch_group BLOCKS TPB (matrix_group_min_kernel_pred keys vals n num_groups c a b) (cu_sched cu) d_out
        else if op = AGG_MAX then launch_group BLOCKS TPB (matrix_group_max_kernel_pred keys vals n num_groups c a b) (cu_sched cu) d_out
        else launch_group BLOCKS TPB (matrix_group_count_kernel_pred keys vals n num_groups c a b) (cu_sched cu) d_out
      else
        if op = AGG_SUM then launch_group BLOCKS TPB (matrix_group_sum_kernel keys vals n num_groups) (cu_sched cu) d_out
        else if op = AGG_MIN then launch_group BLOCKS TPB (matrix_group_min_kernel keys vals n num_groups) (cu_sched cu) d_out
        else if op = AGG_MAX then launch_group BLOCKS TPB (matrix_group_max_kernel keys vals n num_groups) (cu_sched cu) d_out
        else launch_group BLOCKS TPB (matrix_group_count_kernel keys n num_groups) (cu_sched cu) d_out)"

definition matrix_gpu_group_reduce_dev_i64 ::
  "cuda \<Rightarrow> u32 list \<Rightarrow> i64 list \<Rightarrow> nat \<Rightarrow> u32 \<Rightarrow> agg_op \<Rightarrow> i64 predicate \<Rightarrow> bool \<Rightarrow> i64 list option" where
  "matrix_gpu_group_reduce_dev_i64 cu keys vals n num_groups op pred has_filter =
     (let d_out = replicate (unat num_groups) (if op = AGG_MIN then INT64_MAX else if op = AGG_MAX then INT64_MIN else I64 0);
          c = (if has_filter then p_cmp pred else CMP_GE);
          a = (if has_filter then p_a pred else INT64_MIN);
          b = (if has_filter then p_b pred else I64 0); TPB = 256; BLOCKS = 1024 in
      if \<not> cu_alloc cu (unat num_groups * 8) then None
      else if op = AGG_SUM then launch_group BLOCKS TPB (matrix_group_sum_kernel_i64 keys vals n num_groups c a b) (cu_sched cu) d_out
      else if op = AGG_MIN then launch_group BLOCKS TPB (matrix_group_min_kernel_i64 keys vals n num_groups c a b) (cu_sched cu) d_out
      else if op = AGG_MAX then launch_group BLOCKS TPB (matrix_group_max_kernel_i64 keys vals n num_groups c a b) (cu_sched cu) d_out
      else launch_group BLOCKS TPB (matrix_group_count_kernel_i64 keys vals n num_groups c a b) (cu_sched cu) d_out)"

definition matrix_gpu_group_reduce_dev_f64 ::
  "cuda \<Rightarrow> u32 list \<Rightarrow> f64 list \<Rightarrow> nat \<Rightarrow> u32 \<Rightarrow> agg_op \<Rightarrow> f64 predicate \<Rightarrow> bool \<Rightarrow> f64 list option" where
  "matrix_gpu_group_reduce_dev_f64 cu keys vals n num_groups op pred has_filter =
     (let d_out = replicate (unat num_groups) (if op = AGG_MIN then f64_inf else if op = AGG_MAX then f64_ninf else f64_zero);
          c = (if has_filter then p_cmp pred else CMP_GE);
          a = (if has_filter then p_a pred else f64_ninf);
          b = (if has_filter then p_b pred else f64_zero); TPB = 256; BLOCKS = 1024 in
      if \<not> cu_alloc cu (unat num_groups * 8) then None
      else if op = AGG_SUM then launch_group BLOCKS TPB (matrix_group_sum_kernel_f64 (cu_arch600 cu) keys vals n num_groups c a b) (cu_sched cu) d_out
      else if op = AGG_MIN then launch_group BLOCKS TPB (matrix_group_min_kernel_f64 keys vals n num_groups c a b) (cu_sched cu) d_out
      else if op = AGG_MAX then launch_group BLOCKS TPB (matrix_group_max_kernel_f64 keys vals n num_groups c a b) (cu_sched cu) d_out
      else launch_group BLOCKS TPB (matrix_group_count_kernel_f64 (cu_arch600 cu) keys vals n num_groups c a b) (cu_sched cu) d_out)"

section \<open>The scalar reductions agree with the CPU\<close>

lemma memset_values [simp]: "memset_u64 0 = 0" "memset_u64 0xFF = UINT64_MAX"
proof -
  have "replicate 8 b = [b, b, b, b, b, b, b, b]" for b :: u8 by (simp add: numeral_eq_Suc)
  then show "memset_u64 0 = 0" "memset_u64 0xFF = UINT64_MAX" by (simp_all add: memset_u64_def UINT64_MAX_def)
qed

lemma predicate_eta [simp]: "\<lparr>p_cmp = p_cmp p, p_a = p_a p, p_b = p_b p\<rparr> = (p :: 'a predicate)"
  by simp

text \<open>The predicate of an unfiltered launch holds for every row, NaN apart.\<close>

lemma all_match:
  "matrix_pred_match v \<lparr>p_cmp = CMP_GE, p_a = 0, p_b = b\<rparr>"
  "matrix_pred_match_i64 w \<lparr>p_cmp = CMP_GE, p_a = INT64_MIN, p_b = b'\<rparr>"
  "matrix_pred_match_f64 x \<lparr>p_cmp = CMP_GE, p_a = f64_ninf, p_b = b''\<rparr> \<longleftrightarrow> \<not> f64_is_nan x"
  using i64_range [of w] f64_key_bounds [of x]
  by (auto simp: matrix_pred_match_def matrix_pred_match_i64_def matrix_pred_match_f64_def f64_le_def)

lemma pos_grid: "(0 :: nat) < 1024" "(0 :: nat) < 256"
  by simp_all

definition cpu_reduce_u32 :: "u32 list \<Rightarrow> nat \<Rightarrow> u32 predicate \<Rightarrow> agg_op \<Rightarrow> bool \<Rightarrow> u64" where
  "cpu_reduce_u32 d n pred op has_filter =
     (if has_filter then matrix_cpu_reduce_pred d n pred op None else matrix_cpu_reduce_all d n op)"

definition cpu_reduce_i64 :: "i64 list \<Rightarrow> nat \<Rightarrow> i64 predicate \<Rightarrow> agg_op \<Rightarrow> bool \<Rightarrow> i64" where
  "cpu_reduce_i64 d n pred op has_filter =
     (if has_filter then matrix_cpu_reduce_pred_i64 d n pred op None else matrix_cpu_reduce_all_i64 d n op)"

definition cpu_reduce_f64 :: "f64 list \<Rightarrow> nat \<Rightarrow> f64 predicate \<Rightarrow> agg_op \<Rightarrow> bool \<Rightarrow> f64" where
  "cpu_reduce_f64 d n pred op has_filter =
     (if has_filter then matrix_cpu_reduce_pred_f64 d n pred op None else matrix_cpu_reduce_all_f64 d n op)"

lemma reduce_u32_pred_form:
  "cpu_reduce_u32 d n pred op has_filter =
   matrix_cpu_reduce_pred d n \<lparr>p_cmp = if has_filter then p_cmp pred else CMP_GE,
     p_a = if has_filter then p_a pred else 0, p_b = if has_filter then p_b pred else 0\<rparr> op None"
  by (simp add: cpu_reduce_u32_def reduce_all_agg reduce_pred_agg all_match)

lemma reduce_i64_pred_form:
  "cpu_reduce_i64 d n pred op has_filter =
   matrix_cpu_reduce_pred_i64 d n \<lparr>p_cmp = if has_filter then p_cmp pred else CMP_GE,
     p_a = if has_filter then p_a pred else INT64_MIN, p_b = if has_filter then p_b pred else I64 0\<rparr> op None"
  by (simp add: cpu_reduce_i64_def reduce_all_i64_agg reduce_pred_i64_agg all_match)

lemma reduce_pred_other_op:
  assumes "op \<noteq> AGG_SUM" "op \<noteq> AGG_MIN" "op \<noteq> AGG_MAX"
  shows "matrix_cpu_reduce_pred d n p op nulls = matrix_cpu_reduce_pred d n p AGG_COUNT nulls"
    and "matrix_cpu_reduce_pred_i64 d' n p' op nulls = matrix_cpu_reduce_pred_i64 d' n p' AGG_COUNT nulls"
    and "matrix_cpu_reduce_pred_f64 d'' n p'' op nulls = matrix_cpu_reduce_pred_f64 d'' n p'' AGG_COUNT nulls"
  using assms by (simp_all add: matrix_cpu_reduce_pred_def matrix_cpu_reduce_pred_i64_def matrix_cpu_reduce_pred_f64_def)

lemma dev_reduce_u32:
  assumes "matrix_gpu_reduce_dev_u32 cu d n pred op has_filter = Some r"
  shows "r = cpu_reduce_u32 d n pred op has_filter"
proof -
  note def = matrix_gpu_reduce_dev_u32_def and kernels = pred_u32_kernels [OF pos_grid]
  consider "op = AGG_SUM" | "op = AGG_MIN" | "op = AGG_MAX" | "op \<noteq> AGG_SUM" "op \<noteq> AGG_MIN" "op \<noteq> AGG_MAX" by blast
  then show ?thesis
  proof cases
    case 1
    then show ?thesis using assms unfolding reduce_u32_pred_form def Let_def by (auto split: if_split_asm dest!: kernels(2))
  next
    case 2
    then show ?thesis using assms unfolding reduce_u32_pred_form def Let_def by (auto split: if_split_asm dest!: kernels(3))
  next
    case 3
    then show ?thesis using assms unfolding reduce_u32_pred_form def Let_def by (auto split: if_split_asm dest!: kernels(4))
  next
    case 4
    then show ?thesis
      using assms unfolding reduce_u32_pred_form reduce_pred_other_op [OF 4] def Let_def by (auto split: if_split_asm dest!: kernels(1))
  qed
qed

lemma dev_reduce_i64:
  assumes "matrix_gpu_reduce_dev_i64 cu d n pred op has_filter = Some r"
  shows "r = cpu_reduce_i64 d n pred op has_filter"
proof -
  note def = matrix_gpu_reduce_dev_i64_def and kernels = pred_i64_kernels [OF pos_grid]
  consider "op = AGG_SUM" | "op = AGG_MIN" | "op = AGG_MAX" | "op \<noteq> AGG_SUM" "op \<noteq> AGG_MIN" "op \<noteq> AGG_MAX" by blast
  then show ?thesis
  proof cases
    case 1
    then show ?thesis using assms unfolding reduce_i64_pred_form def Let_def by (auto split: if_split_asm dest!: kernels(2))
  next
    case 2
    then show ?thesis using assms unfolding reduce_i64_pred_form def Let_def by (auto split: if_split_asm dest!: kernels(3))
  next
    case 3
    then show ?thesis using assms unfolding reduce_i64_pred_form def Let_def by (auto split: if_split_asm dest!: kernels(4))
  next
    case 4
    then show ?thesis
      using assms unfolding reduce_i64_pred_form reduce_pred_other_op [OF 4] def Let_def by (auto split: if_split_asm dest!: kernels(1))
  qed
qed

text \<open>Doubles: MIN and MAX agree up to the sign of a zero, COUNT exactly.\<close>

lemma dev_reduce_f64_min_max:
  assumes "matrix_gpu_reduce_dev_f64 cu d n pred op has_filter = Some r" "op \<in> {AGG_MIN, AGG_MAX}"
  shows "f64_eq r (cpu_reduce_f64 d n pred op has_filter)"
proof -
  note def = matrix_gpu_reduce_dev_f64_def Let_def
  consider "op = AGG_MIN" | "op = AGG_MAX" using assms(2) by blast
  then show ?thesis
  proof cases
    case 1
    show ?thesis
    proof (rule f64_depth_eq)
      show "\<not> f64_is_nan r" using assms(1) 1 unfolding def
        by (auto split: if_split_asm dest!: f64_min_max_kernels(1) [OF pos_grid])
      show "\<not> f64_is_nan (cpu_reduce_f64 d n pred op has_filter)"
        using 1 f64_min_cpu [of n _ "\<lambda>i. d ! i"]
        by (simp add: cpu_reduce_f64_def matrix_cpu_reduce_pred_f64_def matrix_cpu_reduce_all_f64_def)
      show "f64_depth r = f64_depth (cpu_reduce_f64 d n pred op has_filter)"
        using assms(1) 1 f64_min_cpu [of n _ "\<lambda>i. d ! i"] unfolding def
        by (auto split: if_split_asm dest!: f64_min_max_kernels(1) [OF pos_grid]
            simp: cpu_reduce_f64_def matrix_cpu_reduce_pred_f64_def matrix_cpu_reduce_all_f64_def all_match)
    qed
  next
    case 2
    show ?thesis
    proof (rule f64_height_eq)
      show "\<not> f64_is_nan r" using assms(1) 2 unfolding def
        by (auto split: if_split_asm dest!: f64_min_max_kernels(2) [OF pos_grid])
      show "\<not> f64_is_nan (cpu_reduce_f64 d n pred op has_filter)"
        using 2 f64_max_cpu [of n _ "\<lambda>i. d ! i"]
        by (simp add: cpu_reduce_f64_def matrix_cpu_reduce_pred_f64_def matrix_cpu_reduce_all_f64_def)
      show "f64_height r = f64_height (cpu_reduce_f64 d n pred op has_filter)"
        using assms(1) 2 f64_max_cpu [of n _ "\<lambda>i. d ! i"] unfolding def
        by (auto split: if_split_asm dest!: f64_min_max_kernels(2) [OF pos_grid]
            simp: cpu_reduce_f64_def matrix_cpu_reduce_pred_f64_def matrix_cpu_reduce_all_f64_def all_match)
    qed
  qed
qed

lemma dev_reduce_f64_count:
  assumes "matrix_gpu_reduce_dev_f64 cu d n pred op has_filter = Some r" "n < 2 ^ 53"
    and "op \<noteq> AGG_SUM" "op \<noteq> AGG_MIN" "op \<noteq> AGG_MAX" "has_filter \<or> (\<forall>i < n. \<not> f64_is_nan (d ! i))"
  shows "r = cpu_reduce_f64 d n pred op has_filter"
proof (cases has_filter)
  case True
  then show ?thesis using assms(1-5) reduce_pred_other_op(3) [OF assms(3-5)]
    by (auto simp: matrix_gpu_reduce_dev_f64_def Let_def cpu_reduce_f64_def split: if_split_asm dest!: count_kernel_f64 [OF pos_grid assms(2)])
next
  case False
  let ?p = "\<lparr>p_cmp = CMP_GE, p_a = f64_ninf, p_b = f64_zero\<rparr>"
  have "r = matrix_cpu_reduce_pred_f64 d n ?p op None"
    using False assms(1-5) reduce_pred_other_op(3) [OF assms(3-5)]
    by (auto simp: matrix_gpu_reduce_dev_f64_def Let_def split: if_split_asm dest!: count_kernel_f64 [OF pos_grid assms(2)])
  moreover have "selected n None (\<lambda>i. matrix_pred_match_f64 (d ! i) ?p) = [0..<n]"
    using assms(6) False by (simp add: all_match filter_id_conv)
  ultimately show ?thesis using False assms(2) by (simp add: cpu_reduce_f64_def reduce_f64_agg)
qed

text \<open>
  SUM over doubles associates differently. The column \<open>2^53, 1, 0, \<dots>, 0, -2^53\<close> of 262145 rows sums to 0 in
  row order, where the one is absorbed; on the device the first and the last row belong to the same thread.
\<close>

definition f64_big :: f64 where "f64_big = F64 0x4340000000000000"
definition f64_minus_big :: f64 where "f64_minus_big = F64 0xC340000000000000"

definition sum_column :: "f64 list" where
  "sum_column = [f64_big, f64_of_int 1] @ replicate 262142 f64_zero @ [f64_minus_big]"

lemma big_fields:
  "f64_expo f64_big = 1076" "f64_frac f64_big = 0" "\<not> f64_sign f64_big"
  "f64_expo f64_minus_big = 1076" "f64_frac f64_minus_big = 0" "f64_sign f64_minus_big"
  by (simp_all add: f64_big_def f64_minus_big_def f64_expo_def f64_frac_def f64_sign_def)

lemma big_key: "f64_key f64_big = int (2 ^ 53 * 2 ^ 1074)" "f64_key f64_minus_big = - int (2 ^ 53 * 2 ^ 1074)"
proof -
  have "(2 :: nat) ^ 52 * 2 ^ 1075 = 2 ^ 53 * 2 ^ 1074" unfolding power_add [symmetric] by simp
  then have "f64_mag f64_big = 2 ^ 53 * 2 ^ 1074" "f64_mag f64_minus_big = 2 ^ 53 * 2 ^ 1074"
    unfolding f64_mag_def big_fields by simp_all
  then show "f64_key f64_big = int (2 ^ 53 * 2 ^ 1074)" "f64_key f64_minus_big = - int (2 ^ 53 * 2 ^ 1074)"
    unfolding f64_key_def using big_fields by simp_all
qed

lemma round_to_big:
  assumes "bit_len m = 54" "round_half_even m 2 = 2 ^ 52" "2 ^ 53 \<le> m"
  shows "f64_round False m 1 = f64_big"
proof -
  have "bit_len 1 = 1" by (simp add: bit_len.simps)
  moreover have "bit_len (m * 2 ^ 1074) = 1128" using bit_len_mult_exp [of m 1074] assms by simp
  moreover have "(2 :: nat) ^ 1127 = 2 ^ 53 * 2 ^ 1074" unfolding power_add [symmetric] by simp
  ultimately have "log_quot (m * 2 ^ 1074) 1 = 1127"
    using assms(3) by (simp only: log_quot_def Let_def) simp
  moreover have "round_half_even (m * 2 ^ 1074) (1 * 2 ^ 1075) = 2 ^ 52"
    using round_half_even_scale [of "2 ^ 1074" m 2] assms(2) by (simp add: power_Suc [of _ 1074, symmetric] del: power_Suc)
  ultimately show ?thesis
    by (simp add: f64_round_def Let_def f64_pack_def f64_big_def)
qed

lemma add_to_big:
  "f64_add f64_zero f64_big = f64_big" "f64_add f64_big f64_zero = f64_big"
  "f64_add f64_big (f64_of_int 1) = f64_big" "f64_add f64_big f64_minus_big = f64_zero"
proof -
  have fin: "\<not> f64_is_nan f64_big" "\<not> f64_is_inf f64_big" "\<not> f64_is_nan f64_minus_big" "\<not> f64_is_inf f64_minus_big"
    by (simp_all add: f64_is_nan_def f64_is_inf_def big_fields)
  have one: "f64_key (f64_of_int 1) = 2 ^ 1074" "\<not> f64_is_nan (f64_of_int 1)" "\<not> f64_is_inf (f64_of_int 1)"
    using f64_of_nat_key [of 1] by simp_all
  have zero: "f64_key f64_zero = 0" "\<not> f64_is_nan f64_zero" "\<not> f64_is_inf f64_zero"
    using f64_of_nat_key [of 0] by (simp_all add: f64_of_int_zero)
  have scale: "f64_round False (m * 2 ^ 1074) (2 ^ 1074) = f64_round False m 1" if "0 < m" for m
    using f64_round_scale [of m 1 False 1074] that by simp
  have r0: "f64_round False (2 ^ 53) 1 = f64_big"
    using bit_len_mult_exp [of 1 53] by (intro round_to_big) (simp_all add: round_half_even_def bit_len.simps [of "Suc 0"] bit_len.simps [of 0])
  have r1: "f64_round False (2 ^ 53 + 1) 1 = f64_big"
    using bit_len_mult_exp [of 1 52]
    by (intro round_to_big) (simp_all add: round_half_even_def bit_len.simps [of 9007199254740993] bit_len.simps [of "Suc 0"] bit_len.simps [of 0])
  have sum: "f64_add x y = f64_round False m 1"
    if "\<not> f64_is_nan x" "\<not> f64_is_inf x" "\<not> f64_is_nan y" "\<not> f64_is_inf y" "f64_key x + f64_key y = int (m * 2 ^ 1074)" "0 < m" for x y m
  proof -
    have "int (m * 2 ^ 1074) \<noteq> 0" "\<not> int (m * 2 ^ 1074) < 0" "nat \<bar>int (m * 2 ^ 1074)\<bar> = m * 2 ^ 1074" using that(6) by simp_all
    then show ?thesis unfolding f64_add_def f64_propagate_def Let_def that(5) using that(1-4) scale [OF that(6)] by simp
  qed
  show "f64_add f64_zero f64_big = f64_big" "f64_add f64_big f64_zero = f64_big"
    using sum [of _ _ "2 ^ 53"] fin zero r0 by (simp_all add: big_key)
  show "f64_add f64_big (f64_of_int 1) = f64_big"
    using sum [of f64_big "f64_of_int 1" "2 ^ 53 + 1"] fin one r1 by (simp add: big_key)
  show "f64_add f64_big f64_minus_big = f64_zero"
    using fin by (simp add: f64_add_def f64_propagate_def Let_def big_key big_fields f64_pack_def f64_zero_def)
qed

lemma sum_column_nth:
  "sum_column ! 0 = f64_big" "sum_column ! 1 = f64_of_int 1" "sum_column ! 262144 = f64_minus_big"
  "2 \<le> g \<Longrightarrow> g < 262144 \<Longrightarrow> sum_column ! g = f64_zero"
  by (auto simp: sum_column_def nth_Cons nth_append split: nat.splits)

lemma cpu_sum_column: "cpu_reduce_f64 sum_column 262145 pred AGG_SUM False = f64_zero"
proof -
  have len: "length sum_column = 262145" by (simp add: sum_column_def)
  have zeros: "((\<lambda>s. f64_add s f64_zero) ^^ m) f64_big = f64_big" for m
    by (induction m) (simp_all add: add_to_big)
  have "cpu_reduce_f64 sum_column 262145 pred AGG_SUM False = fold (\<lambda>i s. f64_add s (sum_column ! i)) [0..<length sum_column] f64_zero"
    by (simp add: cpu_reduce_f64_def matrix_cpu_reduce_all_f64_def for_if_def len)
  also have "\<dots> = fold (\<lambda>x s. f64_add s x) (map ((!) sum_column) [0..<length sum_column]) f64_zero"
    by (simp only: fold_map comp_def)
  also have "\<dots> = fold (\<lambda>x s. f64_add s x) sum_column f64_zero" by (simp only: map_nth_upt)
  also have "\<dots> = f64_zero" by (simp add: sum_column_def add_to_big zeros)
  finally show ?thesis .
qed

lemma dev_sum_column:
  assumes "matrix_gpu_reduce_dev_f64 cu sum_column 262145 pred AGG_SUM False = Some r"
  shows "r = f64_of_int 1"
proof -
  let ?k = "matrix_sum_kernel_pred_f64 (cu_arch600 cu) sum_column 262145 CMP_GE f64_ninf f64_zero"
  let ?w = "\<lambda>b t. if b = 0 \<and> t = 1 then 1 else 0 :: nat"
  have fin: "launch 1024 256 ?k (\<lambda>b. F64 (cu_shared cu b)) (cu_sched cu) f64_zero = Some r"
    using assms by (simp add: matrix_gpu_reduce_dev_f64_def Let_def split: if_split_asm)
  have z: "f64_add f64_zero f64_zero = f64_zero" "f64_add f64_zero (f64_of_int 1) = f64_of_int 1"
    using f64_add_exact [of 0 0] f64_add_exact [of 0 1] by (simp_all add: f64_of_int_zero)
  have nan: "\<not> f64_is_nan f64_big" "\<not> f64_is_nan f64_minus_big" "\<not> f64_is_nan (f64_of_int 1)" "\<not> f64_is_nan f64_zero"
    using f64_of_nat_key [of 1] f64_of_nat_key [of 0] by (simp_all add: f64_is_nan_def big_fields f64_of_int_zero)
  have body: "rk_body ?k s i l = f64_add l (sum_column ! i)" if "\<not> f64_is_nan (sum_column ! i)" for s i l
    using that by (simp add: matrix_sum_kernel_pred_f64_def all_match)
  have stop: "strided j 262144 262145 = []" if "262145 \<le> j" for j using that by (simp add: strided.simps)
  have loc: "thread_local 1024 256 ?k b t = f64_of_int (int (?w b t))" if "b < 1024" "t < 256" for b t
  proof -
    define g where "g = b * 256 + t"
    have g: "g < 262144" and g01: "g = 0 \<longleftrightarrow> b = 0 \<and> t = 0" "g = 1 \<longleftrightarrow> b = 0 \<and> t = 1"
      unfolding g_def using that by presburger+
    have tl: "thread_local 1024 256 ?k b t = fold (rk_body ?k 262144) (strided g 262144 262145) f64_zero"
      by (simp add: thread_local_def g_def matrix_sum_kernel_pred_f64_def)
    show ?thesis
    proof (cases "g = 0")
      case True
      have "strided 0 262144 262145 = [0, 262144]" by (subst strided.simps, subst strided.simps) (simp add: stop)
      then show ?thesis unfolding tl using True g01 body nan by (simp add: sum_column_nth add_to_big f64_of_int_zero)
    next
      case False
      have s: "strided g 262144 262145 = [g]" using g False by (subst strided.simps) (simp add: stop)
      show ?thesis
      proof (cases "g = 1")
        case True
        then show ?thesis unfolding tl using s g01 body [of 1] nan sum_column_nth(2) by (simp add: z)
      next
        case ne: False
        then have "sum_column ! g = f64_zero" using False g by (intro sum_column_nth(4)) auto
        then show ?thesis unfolding tl using s g01 body [of g] nan ne by (auto simp: z f64_of_int_zero)
      qed
    qed
  qed
  have "sum_list (map (\<lambda>b. sum_list (map (?w b) [0..<256])) [0..<1024]) = 1"
  proof -
    have "sum_list (map (\<lambda>b. sum_list (map (?w b) [0..<256])) [0..<1024]) = (\<Sum>c \<in> {..<1024 :: nat} \<times> {..<256 :: nat}. if c = (0, 1) then 1 else 0)"
      unfolding sum_list_sum [symmetric] by (intro sum.cong) (auto simp: prod_eq_iff)
    then show ?thesis by (simp add: sum.delta)
  qed
  then show ?thesis
    using exact_launch [OF pos_grid _ _ _ loc _ _ fin, of "cu_arch600 cu" 1] by (simp add: matrix_sum_kernel_pred_f64_def)
qed

section \<open>The grouped reductions agree with the CPU\<close>

context reduction
begin

lemma group_eq:
  assumes k: "gk_n k = n" "gk_atomic k = op" "\<And>i. gk_row k i = (if c i then Some (slot i, v i) else None)"
    and init: "good e0" "abs e0 = e"
    and ok: "\<And>i. i < n \<Longrightarrow> c i \<Longrightarrow> slot i < N \<and> good (v i)"
    and fin: "0 < B" "0 < T" "launch_group B T k sched (replicate N e0) = Some out"
  shows "length out = N \<and> (\<forall>j < N. good (out ! j) \<and>
    abs (out ! j) = total (map (\<lambda>i. abs (v i)) (filter (\<lambda>i. c i \<and> slot i = j) [0..<n])))"
  using group_total [of k c slot v "replicate N e0" B T sched out] k init ok fin by auto

end

definition row_value :: "agg_op \<Rightarrow> 'a \<Rightarrow> 'a \<Rightarrow> 'a" where
  "row_value op one v = (if op \<in> {AGG_SUM, AGG_MIN, AGG_MAX} then v else one)"

definition int_atomic :: "('a::linorder \<Rightarrow> 'a \<Rightarrow> 'a) \<Rightarrow> agg_op \<Rightarrow> 'a atomic_op" where
  "int_atomic add op = (if op = AGG_MIN then Native min else if op = AGG_MAX then Native max else Native add)"

lemma filter_group:
  assumes "j < unat G"
  shows "filter (\<lambda>i. (keys ! i < (G :: u32) \<and> P i) \<and> unat (keys ! i) = j) [0..<n] =
    filter (\<lambda>i. P i \<and> unat (keys ! i) = j) [0..<n]"
  using assms by (intro filter_cong) (auto simp: word_less_nat_alt)

text \<open>The four aggregates of an integer type: an addition and a bounded linear order.\<close>

locale integer_groups =
  fixes add :: "'v::linorder \<Rightarrow> 'v \<Rightarrow> 'v" and zero one hi lo :: 'v
  assumes add_assoc: "add (add x y) z = add x (add y z)"
    and add_comm: "add x y = add y x"
    and add_zero: "add x zero = x"
    and below_hi: "x \<le> hi"
    and above_lo: "lo \<le> x"

sublocale integer_groups \<subseteq> agg: linear_aggregate "(<)" add zero one hi lo
  by unfold_locales (auto simp: not_less below_hi above_lo)

sublocale integer_groups \<subseteq> sm: reduction "Native add" "\<lambda>_. True" "\<lambda>_ _. True" "\<lambda>x. x" add zero
  by unfold_locales (auto simp: add_assoc add_zero intro: add_comm)

sublocale integer_groups \<subseteq> mn: reduction "Native min" "\<lambda>_. True" "\<lambda>_ _. True" "\<lambda>x. x" min hi
  by unfold_locales (simp_all add: ac_simps min_absorb1 below_hi)

sublocale integer_groups \<subseteq> mx: reduction "Native max" "\<lambda>_. True" "\<lambda>_ _. True" "\<lambda>x. x" max lo
  by unfold_locales (simp_all add: ac_simps max_absorb1 above_lo)

context integer_groups
begin

lemma agg_total:
  "agg.agg_list AGG_SUM vs = sm.total vs" "agg.agg_list AGG_COUNT vs = sm.total (map (\<lambda>_. one) vs)"
  "agg.agg_list AGG_MIN vs = mn.total vs" "agg.agg_list AGG_MAX vs = mx.total vs"
  by (simp_all add: agg.agg_list_def agg_step_def [abs_def] agg_init_def sm.total_def mn.total_def mx.total_def
      min_if max_if fold_map comp_def)

lemma group_result:
  assumes k: "gk_n k = n" "gk_atomic k = int_atomic add op"
      "\<And>i. gk_row k i = (if keys ! i < (G :: u32) \<and> P i then Some (unat (keys ! i), row_value op one (val i)) else None)"
    and fin: "launch_group 1024 256 k sched (replicate (unat G) (agg_init zero hi lo op)) = Some out"
  shows "out = group_loop n P (\<lambda>i. unat (keys ! i)) (\<lambda>i. agg_step (<) add one op (val i))
    (replicate (unat G) (agg_init zero hi lo op))"
proof (rule nth_equalityI)
  let ?c = "\<lambda>i. keys ! i < G \<and> P i"
  have ok: "i < n \<Longrightarrow> ?c i \<Longrightarrow> unat (keys ! i) < unat G \<and> True" for i by (simp add: word_less_nat_alt)
  have sum: "length out = unat G \<and> (\<forall>j < unat G. out ! j = agg.agg_list op (map val
      (filter (\<lambda>i. ?c i \<and> unat (keys ! i) = j) [0..<n])))"
  proof -
    consider "op = AGG_MIN" | "op = AGG_MAX" | "op = AGG_SUM" | "op \<notin> {AGG_SUM, AGG_MIN, AGG_MAX}" by blast
    then show ?thesis
    proof cases
      case 1
      then show ?thesis using mn.group_eq [OF k(1) _ k(3) _ _ ok _ _ fin]
        by (simp add: k int_atomic_def row_value_def agg_init_def agg_total)
    next
      case 2
      then show ?thesis using mx.group_eq [OF k(1) _ k(3) _ _ ok _ _ fin]
        by (simp add: k int_atomic_def row_value_def agg_init_def agg_total)
    next
      case 3
      then show ?thesis using sm.group_eq [OF k(1) _ k(3) _ _ ok _ _ fin]
        by (simp add: k int_atomic_def row_value_def agg_init_def agg_total)
    next
      case 4
      then show ?thesis using sm.group_eq [OF k(1) _ k(3) _ _ ok _ _ fin]
        by (simp add: k int_atomic_def row_value_def agg_init_def agg.agg_other [OF 4] agg_total comp_def)
    qed
  qed
  let ?L = "group_loop n P (\<lambda>i. unat (keys ! i)) (\<lambda>i. agg_step (<) add one op (val i)) (replicate (unat G) (agg_init zero hi lo op))"
  show "length out = length ?L" using sum by (simp add: agg.length_group_loop)
  fix j assume "j < length out"
  then have j: "j < unat G" using sum by simp
  then show "out ! j = ?L ! j" unfolding agg.group_loop_agg [OF j] using sum filter_group [OF j, of keys P n] by simp
qed

end

interpretation u64_groups: integer_groups "(+)" "0 :: u64" 1 UINT64_MAX 0
  by unfold_locales (simp_all add: ac_simps u64_le_max)

interpretation i64_groups: integer_groups i64_add "I64 0" "I64 1" INT64_MAX INT64_MIN
  by unfold_locales (simp_all add: i64_add_def ac_simps i64_range)

lemma dev_group_u32:
  assumes "matrix_gpu_group_reduce_dev cu keys vals n G op pred has_filter = Some out"
  shows "out = (if has_filter then matrix_cpu_group_reduce_pred keys vals n G op pred None
                else matrix_cpu_group_reduce keys vals n G op None)"
proof -
  let ?k = "if has_filter then
      (if op = AGG_SUM then matrix_group_sum_kernel_pred keys vals n G (p_cmp pred) (p_a pred) (p_b pred)
       else if op = AGG_MIN then matrix_group_min_kernel_pred keys vals n G (p_cmp pred) (p_a pred) (p_b pred)
       else if op = AGG_MAX then matrix_group_max_kernel_pred keys vals n G (p_cmp pred) (p_a pred) (p_b pred)
       else matrix_group_count_kernel_pred keys vals n G (p_cmp pred) (p_a pred) (p_b pred))
     else
      (if op = AGG_SUM then matrix_group_sum_kernel keys vals n G
       else if op = AGG_MIN then matrix_group_min_kernel keys vals n G
       else if op = AGG_MAX then matrix_group_max_kernel keys vals n G
       else matrix_group_count_kernel keys n G)"
  have "launch_group 1024 256 ?k (cu_sched cu) (replicate (unat G) (u64_init op)) = Some out"
    using assms by (simp add: matrix_gpu_group_reduce_dev_def Let_def agg_init_def split: if_split_asm)
  moreover have "gk_n ?k = n \<and> gk_atomic ?k = int_atomic (+) op \<and>
    (\<forall>i. gk_row ?k i = (if keys ! i < G \<and> (has_filter \<longrightarrow> matrix_pred_match (vals ! i) pred)
        then Some (unat (keys ! i), row_value op 1 (ucast (vals ! i))) else None))"
    by (simp add: int_atomic_def row_value_def matrix_group_sum_kernel_pred_def matrix_group_min_kernel_pred_def
        matrix_group_max_kernel_pred_def matrix_group_count_kernel_pred_def matrix_group_sum_kernel_def
        matrix_group_min_kernel_def matrix_group_max_kernel_def matrix_group_count_kernel_def Let_def)
  ultimately have "out = matrix_group_reduce_impl has_filter keys vals n G op pred None"
    using u64_groups.group_result [of ?k n op keys G "\<lambda>i. has_filter \<longrightarrow> matrix_pred_match (vals ! i) pred"]
    by (simp add: matrix_group_reduce_impl_def)
  then show ?thesis
    by (simp add: matrix_cpu_group_reduce_pred_def matrix_cpu_group_reduce_def matrix_group_reduce_impl_def)
qed

lemma dev_group_i64:
  assumes "matrix_gpu_group_reduce_dev_i64 cu keys vals n G op pred has_filter = Some out"
  shows "out = (if has_filter then matrix_cpu_group_reduce_i64_pred keys vals n G op pred None
                else matrix_cpu_group_reduce_i64 keys vals n G op None)"
proof -
  let ?c = "if has_filter then p_cmp pred else CMP_GE" and ?a = "if has_filter then p_a pred else INT64_MIN"
    and ?b = "if has_filter then p_b pred else I64 0"
  let ?k = "if op = AGG_SUM then matrix_group_sum_kernel_i64 keys vals n G ?c ?a ?b
       else if op = AGG_MIN then matrix_group_min_kernel_i64 keys vals n G ?c ?a ?b
       else if op = AGG_MAX then matrix_group_max_kernel_i64 keys vals n G ?c ?a ?b
       else matrix_group_count_kernel_i64 keys vals n G ?c ?a ?b"
  have "launch_group 1024 256 ?k (cu_sched cu) (replicate (unat G) (i64_init op)) = Some out"
    using assms by (simp add: matrix_gpu_group_reduce_dev_i64_def Let_def agg_init_def split: if_split_asm)
  moreover have "gk_n ?k = n \<and> gk_atomic ?k = int_atomic i64_add op \<and>
    (\<forall>i. gk_row ?k i = (if keys ! i < G \<and> (has_filter \<longrightarrow> matrix_pred_match_i64 (vals ! i) pred)
        then Some (unat (keys ! i), row_value op (I64 1) (vals ! i)) else None))"
    by (simp add: int_atomic_def row_value_def matrix_group_sum_kernel_i64_def matrix_group_min_kernel_i64_def
        matrix_group_max_kernel_i64_def matrix_group_count_kernel_i64_def Let_def all_match)
  ultimately have "out = matrix_group_reduce_i64_impl has_filter keys vals n G op pred None"
    using i64_groups.group_result [of ?k n op keys G "\<lambda>i. has_filter \<longrightarrow> matrix_pred_match_i64 (vals ! i) pred"]
    by (simp add: matrix_group_reduce_i64_impl_def)
  then show ?thesis
    by (simp add: matrix_cpu_group_reduce_i64_pred_def matrix_cpu_group_reduce_i64_def matrix_group_reduce_i64_impl_def)
qed

text \<open>Doubles, where no NaN is selected.\<close>

definition cpu_group_f64 :: "u32 list \<Rightarrow> f64 list \<Rightarrow> nat \<Rightarrow> u32 \<Rightarrow> agg_op \<Rightarrow> f64 predicate \<Rightarrow> bool \<Rightarrow> f64 list" where
  "cpu_group_f64 keys vals n G op pred has_filter =
     (if has_filter then matrix_cpu_group_reduce_f64_pred keys vals n G op pred None
      else matrix_cpu_group_reduce_f64 keys vals n G op None)"

lemma cpu_group_f64_nth:
  assumes "j < unat G"
  shows "cpu_group_f64 keys vals n G op pred has_filter ! j = f64_agg.agg_list op (map (\<lambda>i. vals ! i)
    (filter (\<lambda>i. (has_filter \<longrightarrow> matrix_pred_match_f64 (vals ! i) pred) \<and> unat (keys ! i) = j) [0..<n]))"
    and "length (cpu_group_f64 keys vals n G op pred has_filter) = unat G"
  by (simp_all add: cpu_group_f64_def matrix_cpu_group_reduce_f64_pred_def matrix_cpu_group_reduce_f64_def group_reduce_agg(3) [OF assms])

lemma f64_agg_depth:
  assumes "\<forall>v \<in> set vs. \<not> f64_is_nan v"
  shows "\<not> f64_is_nan (f64_agg.agg_list AGG_MIN vs) \<and> f64_depth (f64_agg.agg_list AGG_MIN vs) = f64_min.total (map f64_depth vs)"
    and "\<not> f64_is_nan (f64_agg.agg_list AGG_MAX vs) \<and> f64_height (f64_agg.agg_list AGG_MAX vs) = f64_max.total (map f64_height vs)"
  using f64_min.fold_body_total [of vs "agg_step f64_lt f64_add (f64_of_int 1) AGG_MIN" f64_depth f64_inf]
    f64_max.fold_body_total [of vs "agg_step f64_lt f64_add (f64_of_int 1) AGG_MAX" f64_height f64_ninf]
    f64_min_body [of _ True] f64_max_body [of _ True] assms
  by (simp_all add: f64_agg.agg_list_def agg_step_def agg_init_def)

text \<open>The row a grouped double kernel selects, as the CPU does unless a NaN passes the filter.\<close>

definition no_nan_selected :: "u32 list \<Rightarrow> f64 list \<Rightarrow> nat \<Rightarrow> f64 predicate \<Rightarrow> bool \<Rightarrow> bool" where
  "no_nan_selected keys vals n pred has_filter \<longleftrightarrow>
     (\<forall>i < n. (has_filter \<longrightarrow> matrix_pred_match_f64 (vals ! i) pred) \<longrightarrow> \<not> f64_is_nan (vals ! i))"

lemma f64_group_min_max:
  assumes k: "gk_n k = n"
      "\<And>i. gk_row k i = (if keys ! i < (G :: u32) \<and> P i then Some (unat (keys ! i), vals ! i) else None)"
    and nan: "\<And>i. i < n \<Longrightarrow> P i \<Longrightarrow> \<not> f64_is_nan (vals ! i)" and j: "j < unat G"
  shows "gk_atomic k = atomicMinDouble \<Longrightarrow> launch_group 1024 256 k sched (replicate (unat G) f64_inf) = Some out \<Longrightarrow>
      f64_eq (out ! j) (f64_agg.agg_list AGG_MIN (map (\<lambda>i. vals ! i) (filter (\<lambda>i. P i \<and> unat (keys ! i) = j) [0..<n])))"
    and "gk_atomic k = atomicMaxDouble \<Longrightarrow> launch_group 1024 256 k sched (replicate (unat G) f64_ninf) = Some out \<Longrightarrow>
      f64_eq (out ! j) (f64_agg.agg_list AGG_MAX (map (\<lambda>i. vals ! i) (filter (\<lambda>i. P i \<and> unat (keys ! i) = j) [0..<n])))"
proof -
  have ok: "i < n \<Longrightarrow> keys ! i < G \<and> P i \<Longrightarrow> unat (keys ! i) < unat G \<and> \<not> f64_is_nan (vals ! i)" for i
    using nan by (simp add: word_less_nat_alt)
  have sel: "\<forall>v \<in> set (map (\<lambda>i. vals ! i) (filter (\<lambda>i. P i \<and> unat (keys ! i) = j) [0..<n])). \<not> f64_is_nan v"
    using nan by auto
  note flt = filter_group [OF j, of keys P n]
  show "f64_eq (out ! j) (f64_agg.agg_list AGG_MIN (map (\<lambda>i. vals ! i) (filter (\<lambda>i. P i \<and> unat (keys ! i) = j) [0..<n])))"
    if "gk_atomic k = atomicMinDouble" "launch_group 1024 256 k sched (replicate (unat G) f64_inf) = Some out"
    using f64_min.group_eq [OF k(1) that(1) k(2) _ _ ok _ _ that(2)] f64_agg_depth(1) [OF sel] flt j
    by (intro f64_depth_eq) (auto simp: comp_def)
  show "f64_eq (out ! j) (f64_agg.agg_list AGG_MAX (map (\<lambda>i. vals ! i) (filter (\<lambda>i. P i \<and> unat (keys ! i) = j) [0..<n])))"
    if "gk_atomic k = atomicMaxDouble" "launch_group 1024 256 k sched (replicate (unat G) f64_ninf) = Some out"
    using f64_max.group_eq [OF k(1) that(1) k(2) _ _ ok _ _ that(2)] f64_agg_depth(2) [OF sel] flt j
    by (intro f64_height_eq) (auto simp: comp_def)
qed

lemma f64_group_count:
  assumes k: "gk_n k = n" "gk_atomic k = atomicAdd_f64 arch600"
      "\<And>i. gk_row k i = (if keys ! i < (G :: u32) \<and> P i then Some (unat (keys ! i), f64_of_int 1) else None)"
    and n: "n < 2 ^ 53" and j: "j < unat G" and fin: "launch_group 1024 256 k sched (replicate (unat G) f64_zero) = Some out"
  shows "out ! j = f64_agg.agg_list AGG_COUNT (map (\<lambda>i. vals ! i) (filter (\<lambda>i. P i \<and> unat (keys ! i) = j) [0..<n]))"
proof -
  have "f64_sum.group_ok arch600 k (replicate (unat G) f64_zero)"
    by (auto simp: f64_sum.group_ok_def k word_less_nat_alt split: if_splits)
  then obtain log where log: "mset log = mset [0..<n]" "out = fold (f64_sum.apply_row arch600 k) log (replicate (unat G) f64_zero)"
    using f64_sum.group_orders [OF _ _ _ fin] k(1) by auto
  let ?c = "\<lambda>i. (keys ! i < G \<and> P i) \<and> unat (keys ! i) = j"
  have "mset (filter ?c log) = mset (filter ?c [0..<n])" by (simp only: mset_filter log(1))
  also have "filter ?c [0..<n] = filter (\<lambda>i. P i \<and> unat (keys ! i) = j) [0..<n]" by (rule filter_group [OF j])
  finally have cnt: "length (filter ?c log) = length (filter (\<lambda>i. P i \<and> unat (keys ! i) = j) [0..<n])"
    by (rule mset_eq_length)
  have lt: "length (filter (\<lambda>i. P i \<and> unat (keys ! i) = j) [0..<n]) < 2 ^ 53"
    using length_filter_le [of "\<lambda>i. P i \<and> unat (keys ! i) = j" "[0..<n]"] n by simp
  have "out ! j = fold (\<lambda>i m. atomic_sem (atomicAdd_f64 arch600) m (f64_of_int 1)) (filter ?c log) f64_zero"
    unfolding log(2) using f64_sum.apply_rows_nth [of j "replicate (unat G) f64_zero" log k "\<lambda>i. keys ! i < G \<and> P i" "\<lambda>i. unat (keys ! i)" "\<lambda>_. f64_of_int 1" arch600] j k(3)
    by simp
  also have "\<dots> = f64_of_int (int (length (filter ?c log)))"
    using f64_fold_exact [of "filter ?c log" "\<lambda>_. f64_of_int 1" "\<lambda>_. 1" 0 arch600] cnt lt by (simp add: f64_of_int_zero sum_list_triv)
  finally show ?thesis using cnt lt by (simp add: f64_count)
qed

lemma dev_group_f64:
  assumes dev: "matrix_gpu_group_reduce_dev_f64 cu keys vals n G op pred has_filter = Some out"
    and "op \<noteq> AGG_SUM" "n < 2 ^ 53" "no_nan_selected keys vals n pred has_filter" "j < unat G"
  shows "f64_eq (out ! j) (cpu_group_f64 keys vals n G op pred has_filter ! j)"
proof -
  let ?c = "if has_filter then p_cmp pred else CMP_GE" and ?a = "if has_filter then p_a pred else f64_ninf"
    and ?b = "if has_filter then p_b pred else f64_zero"
  let ?P = "\<lambda>i. matrix_pred_match_f64 (vals ! i) \<lparr>p_cmp = ?c, p_a = ?a, p_b = ?b\<rparr>"
  have P: "?P i \<longleftrightarrow> (has_filter \<longrightarrow> matrix_pred_match_f64 (vals ! i) pred)" "?P i \<Longrightarrow> \<not> f64_is_nan (vals ! i)" if "i < n" for i
    using that assms(4) by (auto simp: no_nan_selected_def all_match)
  have sel: "filter (\<lambda>i. ?P i \<and> unat (keys ! i) = j) [0..<n] =
      filter (\<lambda>i. (has_filter \<longrightarrow> matrix_pred_match_f64 (vals ! i) pred) \<and> unat (keys ! i) = j) [0..<n]"
    by (rule filter_cong) (use P(1) in auto)
  note cpu = cpu_group_f64_nth(1) [OF assms(5), of keys vals n _ pred has_filter, folded sel]
  consider "op = AGG_MIN" | "op = AGG_MAX" | "op \<notin> {AGG_SUM, AGG_MIN, AGG_MAX}" using assms(2) by blast
  then show ?thesis
  proof cases
    case 1
    then have "launch_group 1024 256 (matrix_group_min_kernel_f64 keys vals n G ?c ?a ?b) (cu_sched cu) (replicate (unat G) f64_inf) = Some out"
      using dev by (simp add: matrix_gpu_group_reduce_dev_f64_def Let_def split: if_split_asm)
    then show ?thesis unfolding cpu 1
      by (intro f64_group_min_max(1) [OF _ _ P(2) assms(5)]) (simp_all add: matrix_group_min_kernel_f64_def Let_def)
  next
    case 2
    then have "launch_group 1024 256 (matrix_group_max_kernel_f64 keys vals n G ?c ?a ?b) (cu_sched cu) (replicate (unat G) f64_ninf) = Some out"
      using dev by (simp add: matrix_gpu_group_reduce_dev_f64_def Let_def split: if_split_asm)
    then show ?thesis unfolding cpu 2
      by (intro f64_group_min_max(2) [OF _ _ P(2) assms(5)]) (simp_all add: matrix_group_max_kernel_f64_def Let_def)
  next
    case 3
    then have l: "launch_group 1024 256 (matrix_group_count_kernel_f64 (cu_arch600 cu) keys vals n G ?c ?a ?b) (cu_sched cu)
        (replicate (unat G) f64_zero) = Some out"
      using dev by (simp add: matrix_gpu_group_reduce_dev_f64_def Let_def split: if_split_asm)
    have c: "out ! j = f64_agg.agg_list AGG_COUNT (map (\<lambda>i. vals ! i) (filter (\<lambda>i. ?P i \<and> unat (keys ! i) = j) [0..<n]))"
      by (rule f64_group_count [OF _ _ _ assms(3,5) l]) (simp_all add: matrix_group_count_kernel_f64_def Let_def)
    have "length (filter (\<lambda>i. ?P i \<and> unat (keys ! i) = j) [0..<n]) < 2 ^ 53"
      using length_filter_le [of "\<lambda>i. ?P i \<and> unat (keys ! i) = j" "[0..<n]"] assms(3) by simp
    then show ?thesis
      unfolding cpu f64_agg.agg_other [OF 3] c using f64_of_nat_key by (simp add: f64_count f64_eq_def)
  qed
qed

text \<open>
  Where a NaN is selected, the compare-and-swap loop of MIN stores it: a comparison with NaN is false, so
  the loop does not stop before the exchange.
\<close>

definition ne_zero :: "f64 predicate" where
  "ne_zero = \<lparr>p_cmp = CMP_NE, p_a = f64_zero, p_b = f64_zero\<rparr>"

fun idle :: "'a gthread \<Rightarrow> bool" where
  "idle Return = True"
| "idle (Row i seen) = (1 \<le> i \<and> seen = None)"

definition nan_inv :: "f64 ggrid \<Rightarrow> bool" where
  "nan_inv s \<longleftrightarrow>
     (gg_out s = [f64_inf] \<and> gg_thr s 0 0 \<in> {Row 0 None, Row 0 (Some f64_inf)} \<or>
      gg_out s = [f64_quiet_nan] \<and> gg_thr s 0 0 \<in> {Row 262144 None, Return}) \<and>
     (\<forall>b t. (b, t) \<noteq> (0, 0) \<longrightarrow> idle (gg_thr s b t))"

lemma nan_facts: "f64_is_nan f64_quiet_nan" "\<not> f64_le f64_inf f64_quiet_nan" "\<not> f64_eq f64_quiet_nan f64_zero"
  by (simp_all add: f64_is_nan_def f64_quiet_nan_def f64_expo_def f64_frac_def f64_le_def f64_eq_def)

lemma nan_inv_step:
  assumes k: "gk_n k = 1" "gk_atomic k = atomicMinDouble" "gk_row k 0 = Some (0, f64_quiet_nan)"
    and inv: "nan_inv s" "group_step 1024 256 k (b, t) s = Some s'"
  shows "nan_inv s'"
proof (cases "(b, t) = (0, 0)")
  case True
  consider "gg_out s = [f64_inf]" "gg_thr s 0 0 = Row 0 None" | "gg_out s = [f64_inf]" "gg_thr s 0 0 = Row 0 (Some f64_inf)"
    | "gg_out s = [f64_quiet_nan]" "gg_thr s 0 0 = Row 262144 None" | "gg_thr s 0 0 = Return"
    using inv(1) unfolding nan_inv_def by blast
  then show ?thesis
    using inv True by cases (simp_all add: group_step_def Let_def k nan_inv_def atomicMinDouble_def nan_facts, auto)
next
  case False
  then have "idle (gg_thr s b t)" using inv(1) by (auto simp: nan_inv_def)
  then obtain x where "s' = s\<lparr>gg_thr := (gg_thr s)(b := (gg_thr s b)(t := x))\<rparr>" "idle x"
    using inv(2) by (cases "gg_thr s b t") (auto simp: group_step_def Let_def k split: if_splits)
  then show ?thesis using inv(1) False unfolding nan_inv_def by auto
qed

lemma dev_group_nan:
  assumes "matrix_gpu_group_reduce_dev_f64 cu [0] [f64_quiet_nan] 1 1 AGG_MIN ne_zero True = Some out"
  shows "out = [f64_quiet_nan]"
proof -
  define k where "k = matrix_group_min_kernel_f64 [0] [f64_quiet_nan] 1 1 CMP_NE f64_zero f64_zero"
  have k: "gk_n k = 1" "gk_atomic k = atomicMinDouble" "gk_row k 0 = Some (0, f64_quiet_nan)"
    by (simp_all add: k_def matrix_group_min_kernel_f64_def Let_def matrix_pred_match_f64_def cmp_consts nan_facts)
  have "nan_inv (group_start 256 [f64_inf])" by (auto simp: nan_inv_def group_start_def)
  moreover have "nan_inv (run_group 1024 256 k sched s)" if "nan_inv s" for sched s
    using that
  proof (induction sched arbitrary: s)
    case (Cons c sched)
    then have "nan_inv (case group_step 1024 256 k c s of None \<Rightarrow> s | Some s' \<Rightarrow> s')"
      using nan_inv_step [OF k Cons.prems, of "fst c" "snd c"] by (auto split: option.splits)
    from Cons.IH [OF this] show ?case by (simp add: run_group_def)
  qed (simp add: run_group_def)
  ultimately have inv: "nan_inv (run_group 1024 256 k (cu_sched cu) (group_start 256 [f64_inf]))" by blast
  have "launch_group 1024 256 k (cu_sched cu) [f64_inf] = Some out"
    using assms by (simp add: matrix_gpu_group_reduce_dev_f64_def ne_zero_def Let_def k_def split: if_split_asm)
  then show ?thesis using inv by (auto simp: launch_group_def Let_def group_done_iff nan_inv_def split: if_split_asm)
qed

section \<open>Schedules that complete\<close>

lemma launch_extends:
  assumes "0 < rk_items k"
  shows "\<exists>more r. launch B T k junk (sched @ more) out = Some r"
  using run_completes [OF assms, of B T "run_grid B T k sched (grid_start junk out)"]
  by (auto simp: launch_def Let_def run_grid_def)

lemma launch_group_extends: "\<exists>more r. launch_group B T k (sched @ more) out = Some r"
  using run_group_completes [of B T k "run_group B T k sched (group_start T out)"]
  by (auto simp: launch_group_def Let_def run_group_def)

lemma items_one:
  "rk_items (matrix_count_kernel_pred_u32 d n c a b) = 1"
  "rk_items (matrix_sum_kernel_pred_u32 d n c a b) = 1"
  "rk_items (matrix_min_kernel_pred_u32 d n c a b) = 1"
  "rk_items (matrix_max_kernel_pred_u32 d n c a b) = 1"
  "rk_items (matrix_count_kernel_pred_i64 d' n c a' b') = 1"
  "rk_items (matrix_sum_kernel_pred_i64 d' n c a' b') = 1"
  "rk_items (matrix_min_kernel_pred_i64 d' n c a' b') = 1"
  "rk_items (matrix_max_kernel_pred_i64 d' n c a' b') = 1"
  "rk_items (matrix_count_kernel_pred_f64 arch600 d'' n c a'' b'') = 1"
  "rk_items (matrix_sum_kernel_pred_f64 arch600 d'' n c a'' b'') = 1"
  "rk_items (matrix_min_kernel_pred_f64 d'' n c a'' b'') = 1"
  "rk_items (matrix_max_kernel_pred_f64 d'' n c a'' b'') = 1"
  by (simp_all add: matrix_count_kernel_pred_u32_def matrix_sum_kernel_pred_u32_def matrix_min_kernel_pred_u32_def
      matrix_max_kernel_pred_u32_def
      matrix_count_kernel_pred_i64_def matrix_sum_kernel_pred_i64_def matrix_min_kernel_pred_i64_def
      matrix_max_kernel_pred_i64_def matrix_count_kernel_pred_f64_def matrix_sum_kernel_pred_f64_def
      matrix_min_kernel_pred_f64_def matrix_max_kernel_pred_f64_def)

lemma dev_reduce_extends:
  assumes "cu_alloc cu 8"
  shows "\<exists>more r. matrix_gpu_reduce_dev_u32 (cu\<lparr>cu_sched := cu_sched cu @ more\<rparr>) d n p op f = Some r"
    and "\<exists>more r. matrix_gpu_reduce_dev_i64 (cu\<lparr>cu_sched := cu_sched cu @ more\<rparr>) d' n p' op f = Some r"
    and "\<exists>more r. matrix_gpu_reduce_dev_f64 (cu\<lparr>cu_sched := cu_sched cu @ more\<rparr>) d'' n p'' op f = Some r"
  unfolding matrix_gpu_reduce_dev_u32_def matrix_gpu_reduce_dev_i64_def matrix_gpu_reduce_dev_f64_def Let_def
  by (cases "op = AGG_SUM"; cases "op = AGG_MIN"; cases "op = AGG_MAX"; simp add: assms launch_extends items_one)+

lemma dev_group_extends:
  assumes "cu_alloc cu (unat G * 8)"
  shows "\<exists>more out. matrix_gpu_group_reduce_dev (cu\<lparr>cu_sched := cu_sched cu @ more\<rparr>) keys vals n G op p f = Some out"
    and "\<exists>more out. matrix_gpu_group_reduce_dev_i64 (cu\<lparr>cu_sched := cu_sched cu @ more\<rparr>) keys vals' n G op p' f = Some out"
    and "\<exists>more out. matrix_gpu_group_reduce_dev_f64 (cu\<lparr>cu_sched := cu_sched cu @ more\<rparr>) keys vals'' n G op p'' f = Some out"
  unfolding matrix_gpu_group_reduce_dev_def matrix_gpu_group_reduce_dev_i64_def matrix_gpu_group_reduce_dev_f64_def Let_def
  by (cases f; cases "op = AGG_SUM"; cases "op = AGG_MIN"; cases "op = AGG_MAX"; simp add: assms launch_group_extends)+

section \<open>Properties\<close>

text \<open>
  C13. The device reductions over \<open>uint32\<close> and \<open>int64\<close> columns are the CPU reductions. For every operator
  and predicate, with and without a filter, scalar and grouped, and for \<^emph>\<open>every\<close> order in which the hardware
  runs the 262144 threads and whatever shared memory holds at the start, the result of a completed
  launch is exactly that of the CPU reducer; and every order can be continued until the launch completes.
\<close>

theorem device_reductions_equal_cpu:
  "(\<forall>r. matrix_gpu_reduce_dev_u32 cu d n p op f = Some r \<longrightarrow>
      r = (if f then matrix_cpu_reduce_pred d n p op None else matrix_cpu_reduce_all d n op)) \<and>
   (\<forall>r. matrix_gpu_reduce_dev_i64 cu d' n p' op f = Some r \<longrightarrow>
      r = (if f then matrix_cpu_reduce_pred_i64 d' n p' op None else matrix_cpu_reduce_all_i64 d' n op)) \<and>
   (\<forall>out. matrix_gpu_group_reduce_dev cu keys d n G op p f = Some out \<longrightarrow>
      out = (if f then matrix_cpu_group_reduce_pred keys d n G op p None else matrix_cpu_group_reduce keys d n G op None)) \<and>
   (\<forall>out. matrix_gpu_group_reduce_dev_i64 cu keys d' n G op p' f = Some out \<longrightarrow>
      out = (if f then matrix_cpu_group_reduce_i64_pred keys d' n G op p' None else matrix_cpu_group_reduce_i64 keys d' n G op None)) \<and>
   (cu_alloc cu 8 \<longrightarrow>
      (\<exists>more r. matrix_gpu_reduce_dev_u32 (cu\<lparr>cu_sched := cu_sched cu @ more\<rparr>) d n p op f = Some r) \<and>
      (\<exists>more r. matrix_gpu_reduce_dev_i64 (cu\<lparr>cu_sched := cu_sched cu @ more\<rparr>) d' n p' op f = Some r)) \<and>
   (cu_alloc cu (unat G * 8) \<longrightarrow>
      (\<exists>more out. matrix_gpu_group_reduce_dev (cu\<lparr>cu_sched := cu_sched cu @ more\<rparr>) keys d n G op p f = Some out) \<and>
      (\<exists>more out. matrix_gpu_group_reduce_dev_i64 (cu\<lparr>cu_sched := cu_sched cu @ more\<rparr>) keys d' n G op p' f = Some out))"
proof (intro conjI allI impI)
  show "r = (if f then matrix_cpu_reduce_pred d n p op None else matrix_cpu_reduce_all d n op)"
    if "matrix_gpu_reduce_dev_u32 cu d n p op f = Some r" for r
    using dev_reduce_u32 [OF that] by (simp add: cpu_reduce_u32_def)
  show "r = (if f then matrix_cpu_reduce_pred_i64 d' n p' op None else matrix_cpu_reduce_all_i64 d' n op)"
    if "matrix_gpu_reduce_dev_i64 cu d' n p' op f = Some r" for r
    using dev_reduce_i64 [OF that] by (simp add: cpu_reduce_i64_def)
qed (rule dev_group_u32 dev_group_i64 dev_reduce_extends dev_group_extends, assumption)+

theorem device_reductions_equal_cpu_witness:
  "\<exists>sched. matrix_gpu_reduce_dev_u32 \<lparr>cu_alloc = (\<lambda>_. True), cu_arch600 = True, cu_shared = (\<lambda>_. 99), cu_sched = sched\<rparr>
     [5, 7, 9] 3 \<lparr>p_cmp = CMP_GT, p_a = 5, p_b = 0\<rparr> AGG_SUM True = Some 16"
proof -
  let ?p = "\<lparr>p_cmp = CMP_GT, p_a = 5, p_b = 0\<rparr> :: u32 predicate"
  let ?cu = "\<lambda>sched. \<lparr>cu_alloc = (\<lambda>_. True), cu_arch600 = True, cu_shared = (\<lambda>_. 99), cu_sched = sched\<rparr>"
  obtain more r where r: "matrix_gpu_reduce_dev_u32 (?cu more) [5, 7, 9] 3 ?p AGG_SUM True = Some r"
    using device_reductions_equal_cpu [of "?cu []" "[5, 7, 9]" 3 ?p AGG_SUM True,
      THEN conjunct2, THEN conjunct2, THEN conjunct2, THEN conjunct2, THEN conjunct1, THEN mp, THEN conjunct1] by auto
  then have "r = matrix_cpu_reduce_pred [5, 7, 9] 3 ?p AGG_SUM None"
    using device_reductions_equal_cpu [of "?cu more" "[5, 7, 9]" 3 ?p AGG_SUM True] by simp
  also have "\<dots> = 16"
    by (simp add: matrix_cpu_reduce_pred_def for_if_def upt_rec matrix_pred_match_def cmp_consts)
  finally show ?thesis using r by blast
qed

text \<open>
  C35. The device reductions over doubles, below \<open>2 ^ 53\<close> rows: MIN and MAX are the CPU's up to the
  sign of a zero, although \<open>atomicMinDouble\<close> and \<open>atomicMaxDouble\<close> are not single instructions but loops around
  compare-and-swap, and COUNT is exact whatever the order of the additions. The scalar COUNT needs a filter or
  a column without NaNs, the grouped aggregates that no NaN is selected.
\<close>

theorem device_doubles_match_cpu:
  assumes "n < 2 ^ 53" "op \<noteq> AGG_SUM"
  shows "(\<forall>r. matrix_gpu_reduce_dev_f64 cu d n p op f = Some r \<longrightarrow>
      op \<in> {AGG_MIN, AGG_MAX} \<or> f \<or> (\<forall>i < n. \<not> f64_is_nan (d ! i)) \<longrightarrow>
      f64_eq r (if f then matrix_cpu_reduce_pred_f64 d n p op None else matrix_cpu_reduce_all_f64 d n op)) \<and>
    (\<forall>out. matrix_gpu_group_reduce_dev_f64 cu keys d n G op p f = Some out \<longrightarrow>
      (\<forall>i < n. (f \<longrightarrow> matrix_pred_match_f64 (d ! i) p) \<longrightarrow> \<not> f64_is_nan (d ! i)) \<longrightarrow>
      (\<forall>g < unat G. f64_eq (out ! g) ((if f then matrix_cpu_group_reduce_f64_pred keys d n G op p None
        else matrix_cpu_group_reduce_f64 keys d n G op None) ! g)))"
proof (intro conjI allI impI)
  fix r assume r: "matrix_gpu_reduce_dev_f64 cu d n p op f = Some r" "op \<in> {AGG_MIN, AGG_MAX} \<or> f \<or> (\<forall>i < n. \<not> f64_is_nan (d ! i))"
  show "f64_eq r (if f then matrix_cpu_reduce_pred_f64 d n p op None else matrix_cpu_reduce_all_f64 d n op)"
  proof (cases "op \<in> {AGG_MIN, AGG_MAX}")
    case True
    then show ?thesis using dev_reduce_f64_min_max [OF r(1)] by (simp add: cpu_reduce_f64_def)
  next
    case False
    then have eq: "r = cpu_reduce_f64 d n p op f" using dev_reduce_f64_count [OF r(1) assms(1,2)] r(2) by auto
    have "\<exists>k < 2 ^ 53. r = f64_of_int (int k)"
      unfolding eq cpu_reduce_f64_def reduce_f64_agg(1,4) [OF assms(1)]
      using False assms length_filter_le [of "\<lambda>i. not_null None i \<and> matrix_pred_match_f64 (d ! i) p" "[0..<n]"]
      by (auto simp: f64_agg.agg_other [of op] f64_count intro: order.strict_trans1 exI [of _ "length (filter _ [0..<n])"])
    then show ?thesis using eq f64_of_nat_key by (auto simp: f64_eq_def cpu_reduce_f64_def)
  qed
next
  fix out g assume "matrix_gpu_group_reduce_dev_f64 cu keys d n G op p f = Some out"
    "\<forall>i < n. (f \<longrightarrow> matrix_pred_match_f64 (d ! i) p) \<longrightarrow> \<not> f64_is_nan (d ! i)" "g < unat G"
  then show "f64_eq (out ! g) ((if f then matrix_cpu_group_reduce_f64_pred keys d n G op p None
        else matrix_cpu_group_reduce_f64 keys d n G op None) ! g)"
    using dev_group_f64 [of cu keys d n G op p f out g] assms by (simp add: cpu_group_f64_def no_nan_selected_def)
qed

theorem device_doubles_match_cpu_witness:
  "\<exists>sched r. matrix_gpu_reduce_dev_f64 \<lparr>cu_alloc = (\<lambda>_. True), cu_arch600 = False, cu_shared = (\<lambda>_. 99), cu_sched = sched\<rparr>
     [f64_of_int 3, f64_quiet_nan, f64_zero] 3 ne_zero AGG_MIN False = Some r \<and>
     f64_eq r (matrix_cpu_reduce_all_f64 [f64_of_int 3, f64_quiet_nan, f64_zero] 3 AGG_MIN)"
proof -
  let ?cu = "\<lambda>sched. \<lparr>cu_alloc = (\<lambda>_. True), cu_arch600 = False, cu_shared = (\<lambda>_. 99), cu_sched = sched\<rparr>"
  let ?d = "[f64_of_int 3, f64_quiet_nan, f64_zero]"
  have "cu_alloc (?cu []) 8" by simp
  from dev_reduce_extends(3) [OF this, of ?d 3 ne_zero AGG_MIN False]
  obtain sched r where r: "matrix_gpu_reduce_dev_f64 (?cu sched) ?d 3 ne_zero AGG_MIN False = Some r" by auto
  moreover have "f64_eq r (matrix_cpu_reduce_all_f64 ?d 3 AGG_MIN)"
    using device_doubles_match_cpu [of 3 AGG_MIN "?cu sched" ?d ne_zero False] r by auto
  ultimately show ?thesis by blast
qed

text \<open>
  C36. Where the device departs from the CPU. The grid adds doubles in another order than the column's, so
  SUM over the column \<open>2^53, 1, 0, \<dots>, 0, -2^53\<close> (262145 rows) is \<open>1\<close> on the device under every completed
  schedule and \<open>0\<close> on the CPU. A NaN that passes the filter \<open>!= 0\<close> is stored by the compare-and-swap loop of
  the grouped MIN and ignored by the CPU's comparison: the group's result is NaN on the device and the
  sentinel \<open>+inf\<close> on the CPU. Both launches complete under some continuation of every schedule.
\<close>

theorem device_doubles_differ:
  "(\<forall>r. matrix_gpu_reduce_dev_f64 cu sum_column 262145 p AGG_SUM False = Some r \<longrightarrow> r = f64_of_int 1) \<and>
   matrix_cpu_reduce_all_f64 sum_column 262145 AGG_SUM = f64_zero \<and>
   (\<forall>out. matrix_gpu_group_reduce_dev_f64 cu [0] [f64_quiet_nan] 1 1 AGG_MIN ne_zero True = Some out \<longrightarrow> out = [f64_quiet_nan]) \<and>
   matrix_cpu_group_reduce_f64_pred [0] [f64_quiet_nan] 1 1 AGG_MIN ne_zero None = [f64_inf] \<and>
   (cu_alloc cu 8 \<longrightarrow>
     (\<exists>more. matrix_gpu_reduce_dev_f64 (cu\<lparr>cu_sched := cu_sched cu @ more\<rparr>) sum_column 262145 p AGG_SUM False \<noteq> None) \<and>
     (\<exists>more. matrix_gpu_group_reduce_dev_f64 (cu\<lparr>cu_sched := cu_sched cu @ more\<rparr>)
        [0] [f64_quiet_nan] 1 1 AGG_MIN ne_zero True \<noteq> None))"
proof (intro conjI allI impI)
  show "r = f64_of_int 1" if "matrix_gpu_reduce_dev_f64 cu sum_column 262145 p AGG_SUM False = Some r" for r
    by (rule dev_sum_column [OF that])
  show "matrix_cpu_reduce_all_f64 sum_column 262145 AGG_SUM = f64_zero"
    using cpu_sum_column by (simp add: cpu_reduce_f64_def)
  show "out = [f64_quiet_nan]" if "matrix_gpu_group_reduce_dev_f64 cu [0] [f64_quiet_nan] 1 1 AGG_MIN ne_zero True = Some out" for out
    by (rule dev_group_nan [OF that])
  show "matrix_cpu_group_reduce_f64_pred [0] [f64_quiet_nan] 1 1 AGG_MIN ne_zero None = [f64_inf]"
    by (simp add: matrix_cpu_group_reduce_f64_pred_def matrix_group_reduce_f64_impl_def group_loop_def for_if_def
        not_null_def agg_step_def agg_init_def f64_lt_def ne_zero_def matrix_pred_match_f64_def cmp_consts nan_facts)
next
  assume "cu_alloc cu 8"
  from dev_reduce_extends(3) [OF this]
  show "\<exists>more. matrix_gpu_reduce_dev_f64 (cu\<lparr>cu_sched := cu_sched cu @ more\<rparr>) sum_column 262145 p AGG_SUM False \<noteq> None"
    by fastforce
  have "cu_alloc cu (unat (1 :: u32) * 8)" using \<open>cu_alloc cu 8\<close> by simp
  from dev_group_extends(3) [OF this]
  show "\<exists>more. matrix_gpu_group_reduce_dev_f64 (cu\<lparr>cu_sched := cu_sched cu @ more\<rparr>)
        [0] [f64_quiet_nan] 1 1 AGG_MIN ne_zero True \<noteq> None" by fastforce
qed

theorem device_doubles_differ_witness:
  "\<exists>sched. matrix_gpu_reduce_dev_f64 \<lparr>cu_alloc = (\<lambda>_. True), cu_arch600 = True, cu_shared = (\<lambda>_. 0), cu_sched = sched\<rparr>
      sum_column 262145 ne_zero AGG_SUM False = Some (f64_of_int 1) \<and>
    matrix_cpu_reduce_all_f64 sum_column 262145 AGG_SUM = f64_zero"
proof -
  let ?cu = "\<lambda>sched. \<lparr>cu_alloc = (\<lambda>_. True), cu_arch600 = True, cu_shared = (\<lambda>_. 0), cu_sched = sched\<rparr>"
  obtain more r where r: "matrix_gpu_reduce_dev_f64 (?cu more) sum_column 262145 ne_zero AGG_SUM False = Some r"
    using device_doubles_differ [of "?cu []" ne_zero,
      THEN conjunct2, THEN conjunct2, THEN conjunct2, THEN conjunct2, THEN mp, THEN conjunct1] by auto
  then have "r = f64_of_int 1" "matrix_cpu_reduce_all_f64 sum_column 262145 AGG_SUM = f64_zero"
    using device_doubles_differ [of "?cu more" ne_zero] by blast+
  with r show ?thesis by blast
qed

text \<open>
  C37. A launch is lock-free. In the 1024 blocks of 256 threads that reduce a column of \<open>n\<close> rows, whatever the
  schedule, the threads make at most \<open>262144 * (3 * 262144 + 11 + n)\<close> moves, the retries of the compare-and-swap
  loops included, and until all have returned one of them can move: the two barriers never deadlock and no
  retry loop runs forever.
\<close>

theorem launches_lock_free:
  assumes "0 < rk_items k"
  shows "moves 1024 256 k sched (grid_start junk out) \<le> 262144 * (3 * 262144 + 11 + rk_n k) \<and>
    (grid_done 1024 256 (run_grid 1024 256 k sched (grid_start junk out)) \<or>
      (\<exists>c. thread_step 1024 256 k c (run_grid 1024 256 k sched (grid_start junk out)) \<noteq> None))"
proof
  have "work 1024 256 k (grid_start junk out) = 262144 * (3 * 262144 + 11 + rk_n k)"
    by (simp add: work_def grid_start_def)
  then show "moves 1024 256 k sched (grid_start junk out) \<le> 262144 * (3 * 262144 + 11 + rk_n k)"
    using moves_bounded [OF assms, of 1024 256 sched "grid_start junk out"] by linarith
qed (use not_stuck in blast)

theorem launches_lock_free_witness:
  "moves 1024 256 (matrix_min_kernel_pred_f64 [f64_inf, f64_zero] 2 CMP_GE f64_ninf f64_zero) [(0, 0), (0, 0), (3, 5)]
     (grid_start (\<lambda>_. f64_quiet_nan) f64_inf) \<le> 262144 * (3 * 262144 + 11 + 2)"
  using launches_lock_free [of "matrix_min_kernel_pred_f64 [f64_inf, f64_zero] 2 CMP_GE f64_ninf f64_zero"
      "[(0, 0), (0, 0), (3, 5)]" "\<lambda>_. f64_quiet_nan" f64_inf]
  by (simp add: items_one) (simp add: matrix_min_kernel_pred_f64_def)

end
