(* ===== verification/KV_Store.thy ===== *)
theory KV_Store
  imports Prelude "HOL-Library.While_Combinator"
begin

text \<open>
  The point-op store of \<open>kv_store.hpp\<close>: a fixed-capacity open-addressing hash table with linear
  probing, from 64-bit keys to 64-bit values. The theory models the constructor (with the loop
  of \<open>round_up_pow2\<close>), \<open>put\<close>, \<open>get\<close>, \<open>size\<close>, \<open>capacity\<close>, \<open>checksum\<close> and \<open>for_each\<close>, states
  the representation invariant of the table, and shows that under it the table is a finite map:
  the interface \<open>bounded_map\<close> at the end is interpreted on these definitions.
\<close>

section \<open>The table\<close>

record kv_slot =
  sl_key :: u64
  sl_value :: u64
  sl_occupied :: bool

definition empty_slot :: kv_slot where
  "empty_slot = \<lparr>sl_key = 0, sl_value = 0, sl_occupied = False\<rparr>"

record kvstore =
  kv_mask :: u64
  kv_size :: u64
  kv_slots :: "kv_slot list"

text \<open>
  \<open>p <<= 1\<close> drops the top bit, so for \<open>n > 2 ^ 63\<close> the loop of \<open>round_up_pow2\<close> reaches \<open>p = 0\<close>
  and never ends: the value \<open>None\<close>.
\<close>

definition round_up_pow2 :: "u64 \<Rightarrow> u64 option" where
  "round_up_pow2 n =
     map_option (\<lambda>p. if p < 2 then 2 else p)
       (while_option (\<lambda>p. p < n) (\<lambda>p. push_bit 1 p) 1)"

text \<open>
  The constructor either does not return, or throws from the constructor of \<open>slots_\<close>, or makes a table. A
  \<open>std::vector\<close> of more than \<open>max_size()\<close> elements throws \<open>length_error\<close>: with 24 bytes per slot these are
  \<open>(2 ^ 63 - 1) div 24\<close>; below that \<open>alloc\<close> says whether an allocation of so many bytes succeeds.
\<close>

datatype kv_made = Diverges | Throws | Made kvstore

definition SLOT_BYTES :: nat where "SLOT_BYTES = 24"

definition max_slots :: nat where "max_slots = (2 ^ 63 - 1) div SLOT_BYTES"

definition KVStore :: "(nat \<Rightarrow> bool) \<Rightarrow> u64 \<Rightarrow> kv_made" where
  "KVStore alloc capacity =
     (case round_up_pow2 capacity of
        None \<Rightarrow> Diverges
      | Some p \<Rightarrow>
          if max_slots < unat p \<or> \<not> alloc (unat p * SLOT_BYTES) then Throws
          else Made \<lparr>kv_mask = p - 1, kv_size = 0, kv_slots = replicate (unat p) empty_slot\<rparr>)"

definition made :: "kv_made \<Rightarrow> kvstore option" where
  "made m = (case m of Made kv \<Rightarrow> Some kv | _ \<Rightarrow> None)"

text \<open>
  The probe loops count \<open>probe\<close> from 0 to \<open>mask_\<close>; the first argument is the number of rounds
  that are left. The result of the \<open>put\<close> loop is the new slot array and whether \<open>size_\<close> grows;
  \<open>None\<close> is the exhausted loop.
\<close>

fun kv_put_loop :: "nat \<Rightarrow> u64 \<Rightarrow> u64 \<Rightarrow> u64 \<Rightarrow> u64 \<Rightarrow> kv_slot list \<Rightarrow> (kv_slot list \<times> bool) option" where
  "kv_put_loop 0 msk i key v slots = None"
| "kv_put_loop (Suc n) msk i key v slots =
     (let s = slots ! unat i in
      if \<not> sl_occupied s then
        Some (slots[unat i := \<lparr>sl_key = key, sl_value = v, sl_occupied = True\<rparr>], True)
      else if sl_key s = key then Some (slots[unat i := s\<lparr>sl_value := v\<rparr>], False)
      else kv_put_loop n msk ((i + 1) AND msk) key v slots)"

definition kv_put :: "u64 \<Rightarrow> u64 \<Rightarrow> kvstore \<Rightarrow> bool \<times> kvstore" where
  "kv_put key v kv =
     (case kv_put_loop (Suc (unat (kv_mask kv))) (kv_mask kv) (key AND kv_mask kv) key v (kv_slots kv) of
        None \<Rightarrow> (False, kv)
      | Some (slots, fresh) \<Rightarrow>
          (True, kv\<lparr>kv_slots := slots, kv_size := (if fresh then kv_size kv + 1 else kv_size kv)\<rparr>))"

fun kv_get_loop :: "nat \<Rightarrow> u64 \<Rightarrow> u64 \<Rightarrow> u64 \<Rightarrow> kv_slot list \<Rightarrow> u64 option" where
  "kv_get_loop 0 msk i key slots = None"
| "kv_get_loop (Suc n) msk i key slots =
     (let s = slots ! unat i in
      if \<not> sl_occupied s then None
      else if sl_key s = key then Some (sl_value s)
      else kv_get_loop n msk ((i + 1) AND msk) key slots)"

definition kv_get :: "u64 \<Rightarrow> kvstore \<Rightarrow> u64 option" where
  "kv_get key kv =
     kv_get_loop (Suc (unat (kv_mask kv))) (kv_mask kv) (key AND kv_mask kv) key (kv_slots kv)"

definition kv_capacity :: "kvstore \<Rightarrow> u64" where
  "kv_capacity kv = kv_mask kv + 1"

text \<open>\<open>for_each\<close> hands the occupied slots to its callback in slot order.\<close>

definition kv_entries :: "kvstore \<Rightarrow> (u64 \<times> u64) list" where
  "kv_entries kv = map (\<lambda>s. (sl_key s, sl_value s)) (filter sl_occupied (kv_slots kv))"

definition kv_checksum :: "kvstore \<Rightarrow> u64" where
  "kv_checksum kv = fold (\<lambda>s acc. if sl_occupied s then acc + sl_value s else acc) (kv_slots kv) 0"

section \<open>The representation invariant\<close>

text \<open>
  \<open>probe_at N k p\<close> is the index the loops inspect in round \<open>p\<close> for key \<open>k\<close>. A stored key is
  reachable: every slot before it on its probe path is occupied by another key.
\<close>

definition probe_at :: "nat \<Rightarrow> u64 \<Rightarrow> nat \<Rightarrow> nat" where
  "probe_at N k p = (unat k + p) mod N"

definition probe_stops :: "kv_slot list \<Rightarrow> u64 \<Rightarrow> nat \<Rightarrow> bool" where
  "probe_stops slots k p \<longleftrightarrow>
     (let s = slots ! probe_at (length slots) k p in \<not> sl_occupied s \<or> sl_key s = k)"

definition slot_reachable :: "kv_slot list \<Rightarrow> nat \<Rightarrow> bool" where
  "slot_reachable slots j \<longleftrightarrow>
     (\<exists>p < length slots. probe_at (length slots) (sl_key (slots ! j)) p = j \<and>
        (\<forall>q < p. \<not> probe_stops slots (sl_key (slots ! j)) q))"

definition kv_inv :: "kvstore \<Rightarrow> bool" where
  "kv_inv kv \<longleftrightarrow>
     (\<exists>b. 1 \<le> b \<and> b < 64 \<and> length (kv_slots kv) = 2 ^ b \<and> kv_mask kv = mask b) \<and>
     unat (kv_size kv) = length (filter sl_occupied (kv_slots kv)) \<and>
     (\<forall>j < length (kv_slots kv). sl_occupied (kv_slots kv ! j) \<longrightarrow> slot_reachable (kv_slots kv) j)"

section \<open>The loops as searches along the probe path\<close>

lemma probe_at_less: "0 < N \<Longrightarrow> probe_at N k p < N"
  by (simp add: probe_at_def)

lemma mod_add_eq_le:
  fixes a p q N :: nat
  assumes "p \<le> q" "q < N" "(a + p) mod N = (a + q) mod N"
  shows "p = q"
proof -
  have "N dvd (a + q) - (a + p)"
    using assms(1,3) mod_eq_dvd_iff_nat [of "a + p" "a + q" N] by simp
  then have "N dvd q - p" by simp
  with assms(1,2) show ?thesis using nat_dvd_not_less [of "q - p" N] by (cases "p = q") auto
qed

lemma probe_at_inj:
  assumes "p < N" "q < N" "probe_at N k p = probe_at N k q"
  shows "p = q"
  using assms mod_add_eq_le [of p q N "unat k"] mod_add_eq_le [of q p N "unat k"]
  by (cases "p \<le> q") (auto simp: probe_at_def)

lemma unat_and_pow2_mask:
  fixes x :: u64
  assumes "b < 64"
  shows "unat (x AND mask b) = unat x mod 2 ^ b"
  using assms by (intro unat_and_mask_less) simp

lemma probe_step_index:
  assumes b: "b < 64" and i: "unat (i :: u64) = probe_at (2 ^ b) k p"
  shows "unat ((i + 1) AND mask b) = probe_at (2 ^ b) k (Suc p)"
proof -
  have "unat ((i + 1) AND mask b) = unat (i + 1) mod 2 ^ b"
    using b by (rule unat_and_pow2_mask)
  also have "\<dots> = (unat i + 1) mod 2 ^ b"
  proof -
    have "(2::nat) ^ b dvd 2 ^ 64" using b by (intro le_imp_power_dvd) simp
    then show ?thesis by (simp add: unat_word_ariths mod_mod_cancel)
  qed
  also have "\<dots> = probe_at (2 ^ b) k (Suc p)"
    by (simp add: i probe_at_def mod_Suc_eq)
  finally show ?thesis .
qed

lemma probe_home_index:
  "b < 64 \<Longrightarrow> unat ((k :: u64) AND mask b) = probe_at (2 ^ b) k 0"
  by (simp add: unat_and_pow2_mask probe_at_def)

text \<open>Both loops stop at the first round of \<open>[p..<N]\<close> in which \<open>probe_stops\<close> holds.\<close>

lemma kv_get_loop_find:
  assumes "b < 64" "length slots = 2 ^ b" "unat i = probe_at (2 ^ b) k p" "p + n = 2 ^ b"
  shows "kv_get_loop n (mask b) i k slots =
    (case find (probe_stops slots k) [p..<2 ^ b] of None \<Rightarrow> None
     | Some q \<Rightarrow> let s = slots ! probe_at (2 ^ b) k q in
                 if sl_occupied s then Some (sl_value s) else None)"
  using assms
proof (induction n arbitrary: i p)
  case 0
  then show ?case by simp
next
  case (Suc n)
  have upt: "[p..<2 ^ b] = p # [Suc p..<2 ^ b]"
    using Suc.prems(4) by (intro upt_conv_Cons) simp
  have idx: "unat ((i + 1) AND mask b) = probe_at (2 ^ b) k (Suc p)"
    using Suc.prems(1,3) by (rule probe_step_index)
  have IH: "kv_get_loop n (mask b) ((i + 1) AND mask b) k slots =
    (case find (probe_stops slots k) [Suc p..<2 ^ b] of None \<Rightarrow> None
     | Some q \<Rightarrow> let s = slots ! probe_at (2 ^ b) k q in
                 if sl_occupied s then Some (sl_value s) else None)"
    using Suc.prems(4) by (intro Suc.IH [OF Suc.prems(1,2) idx]) simp
  show ?case
    using Suc.prems(2,3) by (simp add: upt IH probe_stops_def [of slots k p] Let_def)
qed

lemma kv_put_loop_find:
  assumes "b < 64" "length slots = 2 ^ b" "unat i = probe_at (2 ^ b) k p" "p + n = 2 ^ b"
  shows "kv_put_loop n (mask b) i k v slots =
    (case find (probe_stops slots k) [p..<2 ^ b] of None \<Rightarrow> None
     | Some q \<Rightarrow> let j = probe_at (2 ^ b) k q; s = slots ! j in
                 if sl_occupied s then Some (slots[j := s\<lparr>sl_value := v\<rparr>], False)
                 else Some (slots[j := \<lparr>sl_key = k, sl_value = v, sl_occupied = True\<rparr>], True))"
  using assms
proof (induction n arbitrary: i p)
  case 0
  then show ?case by simp
next
  case (Suc n)
  have upt: "[p..<2 ^ b] = p # [Suc p..<2 ^ b]"
    using Suc.prems(4) by (intro upt_conv_Cons) simp
  have idx: "unat ((i + 1) AND mask b) = probe_at (2 ^ b) k (Suc p)"
    using Suc.prems(1,3) by (rule probe_step_index)
  have n: "Suc p + n = 2 ^ b" using Suc.prems(4) by simp
  show ?case
    using Suc.prems(2,3) by (simp add: upt Suc.IH [OF Suc.prems(1,2) idx n] probe_stops_def [of slots k p] Let_def)
qed

section \<open>The table as a map\<close>

definition slot_holds :: "kvstore \<Rightarrow> u64 \<Rightarrow> nat \<Rightarrow> bool" where
  "slot_holds kv k j \<longleftrightarrow>
     j < length (kv_slots kv) \<and> sl_occupied (kv_slots kv ! j) \<and> sl_key (kv_slots kv ! j) = k"

lemma kv_invE:
  assumes "kv_inv kv"
  obtains b where "1 \<le> b" "b < 64" "length (kv_slots kv) = 2 ^ b" "kv_mask kv = mask b"
    "Suc (unat (kv_mask kv)) = 2 ^ b"
proof -
  obtain b where b: "1 \<le> b" "b < 64" "length (kv_slots kv) = 2 ^ b" "kv_mask kv = mask b"
    using assms by (auto simp: kv_inv_def)
  have "unat (mask b :: u64) = 2 ^ b - 1"
    using b(2) by (intro unat_mask_small) simp
  with b show ?thesis by (intro that) auto
qed

lemma kv_inv_reachable: "kv_inv kv \<Longrightarrow> slot_holds kv k j \<Longrightarrow> slot_reachable (kv_slots kv) j"
  by (auto simp: kv_inv_def slot_holds_def)

lemma find_stop_stored:
  assumes "kv_inv kv" "slot_holds kv k j"
  shows "\<exists>p. find (probe_stops (kv_slots kv) k) [0..<length (kv_slots kv)] = Some p \<and>
             probe_at (length (kv_slots kv)) k p = j"
proof -
  obtain p where p: "p < length (kv_slots kv)" "probe_at (length (kv_slots kv)) k p = j"
    "\<forall>q < p. \<not> probe_stops (kv_slots kv) k q"
    using kv_inv_reachable [OF assms] assms(2) by (auto simp: slot_reachable_def slot_holds_def)
  moreover have "probe_stops (kv_slots kv) k p"
    using assms(2) p(2) by (simp add: probe_stops_def slot_holds_def)
  ultimately show ?thesis by (auto simp: find_upt_Some_iff)
qed

lemma slot_holds_unique:
  assumes "kv_inv kv" "slot_holds kv k i" "slot_holds kv k j"
  shows "i = j"
  using find_stop_stored [OF assms(1,2)] find_stop_stored [OF assms(1,3)] by auto

lemma kv_get_find:
  assumes "kv_inv kv"
  shows "kv_get k kv =
    (case find (probe_stops (kv_slots kv) k) [0..<length (kv_slots kv)] of None \<Rightarrow> None
     | Some q \<Rightarrow> let s = kv_slots kv ! probe_at (length (kv_slots kv)) k q in
                 if sl_occupied s then Some (sl_value s) else None)"
proof -
  obtain b where b: "b < 64" "length (kv_slots kv) = 2 ^ b" "kv_mask kv = mask b"
    "Suc (unat (kv_mask kv)) = 2 ^ b"
    using assms by (elim kv_invE)
  show ?thesis
    unfolding kv_get_def b(4) unfolding b(3) b(2)
    using b(1,2) by (intro kv_get_loop_find) (auto simp: probe_home_index)
qed

lemma kv_get_iff:
  assumes "kv_inv kv"
  shows "kv_get k kv = Some v \<longleftrightarrow> (\<exists>j. slot_holds kv k j \<and> sl_value (kv_slots kv ! j) = v)"
proof
  assume "kv_get k kv = Some v"
  then obtain q where q: "find (probe_stops (kv_slots kv) k) [0..<length (kv_slots kv)] = Some q"
    and occ: "sl_occupied (kv_slots kv ! probe_at (length (kv_slots kv)) k q)"
    and v: "sl_value (kv_slots kv ! probe_at (length (kv_slots kv)) k q) = v"
    by (auto simp: kv_get_find [OF assms] Let_def split: option.splits if_splits)
  have "q < length (kv_slots kv)" "probe_stops (kv_slots kv) k q"
    using q by (auto simp: find_upt_Some_iff)
  moreover from this have "probe_at (length (kv_slots kv)) k q < length (kv_slots kv)"
    by (intro probe_at_less) auto
  ultimately have "slot_holds kv k (probe_at (length (kv_slots kv)) k q)"
    using occ by (simp add: slot_holds_def probe_stops_def)
  with v show "\<exists>j. slot_holds kv k j \<and> sl_value (kv_slots kv ! j) = v" by blast
next
  assume "\<exists>j. slot_holds kv k j \<and> sl_value (kv_slots kv ! j) = v"
  then obtain j where j: "slot_holds kv k j" "sl_value (kv_slots kv ! j) = v" by blast
  obtain p where "find (probe_stops (kv_slots kv) k) [0..<length (kv_slots kv)] = Some p"
    "probe_at (length (kv_slots kv)) k p = j"
    using find_stop_stored [OF assms j(1)] by blast
  with j show "kv_get k kv = Some v"
    by (simp add: kv_get_find [OF assms] slot_holds_def)
qed

lemma set_kv_entries:
  "(k, v) \<in> set (kv_entries kv) \<longleftrightarrow> (\<exists>j. slot_holds kv k j \<and> sl_value (kv_slots kv ! j) = v)"
  by (force simp: kv_entries_def slot_holds_def in_set_conv_nth)

lemma distinct_kv_entries:
  assumes "kv_inv kv"
  shows "distinct (map fst (kv_entries kv))"
proof -
  have "distinct (map sl_key (filter sl_occupied (kv_slots kv)))"
    using slot_holds_unique [OF assms] by (intro distinct_map_filter_nth) (simp add: slot_holds_def)
  then show ?thesis by (simp add: kv_entries_def comp_def)
qed

lemma kv_get_entries:
  assumes "kv_inv kv"
  shows "kv_get k kv = map_of (kv_entries kv) k"
proof -
  have "kv_get k kv = Some v \<longleftrightarrow> map_of (kv_entries kv) k = Some v" for v
    by (simp add: kv_get_iff [OF assms] set_kv_entries [symmetric]
        map_of_eq_Some_iff [OF distinct_kv_entries [OF assms]])
  then show ?thesis by (metis option.exhaust)
qed

section \<open>put\<close>

text \<open>
  An update of one slot that keeps an occupied slot's key leaves every probe path as it was,
  up to the slot itself: what was reachable stays reachable.
\<close>

lemma probe_stops_update:
  assumes "j < length slots"
    and "sl_occupied (slots ! j) \<Longrightarrow> sl_occupied s' \<and> sl_key s' = sl_key (slots ! j)"
    and "\<not> probe_stops slots k q"
  shows "\<not> probe_stops (slots[j := s']) k q"
  using assms by (auto simp: probe_stops_def Let_def nth_list_update)

lemma slot_reachable_update:
  assumes "j < length slots" "i \<noteq> j"
    and "sl_occupied (slots ! j) \<Longrightarrow> sl_occupied s' \<and> sl_key s' = sl_key (slots ! j)"
    and "slot_reachable slots i"
  shows "slot_reachable (slots[j := s']) i"
proof -
  obtain p where p: "p < length slots" "probe_at (length slots) (sl_key (slots ! i)) p = i"
    "\<forall>q < p. \<not> probe_stops slots (sl_key (slots ! i)) q"
    using assms(4) by (auto simp: slot_reachable_def)
  have "\<forall>q < p. \<not> probe_stops (slots[j := s']) (sl_key (slots ! i)) q"
    using p(3) probe_stops_update [OF assms(1,3)] by blast
  with p(1,2) assms(2) show ?thesis by (auto simp: slot_reachable_def)
qed

lemma kv_inv_update:
  assumes inv: "kv_inv kv"
    and find: "find (probe_stops (kv_slots kv) k) [0..<length (kv_slots kv)] = Some p"
    and j: "j = probe_at (length (kv_slots kv)) k p"
    and occ: "sl_occupied s'" and key: "sl_key s' = k"
    and size: "unat size' = length (filter sl_occupied ((kv_slots kv)[j := s']))"
  shows "kv_inv (kv\<lparr>kv_slots := (kv_slots kv)[j := s'], kv_size := size'\<rparr>)"
proof -
  let ?sl = "kv_slots kv"
  have p: "p < length ?sl" "probe_stops ?sl k p" "\<forall>q < p. \<not> probe_stops ?sl k q"
    using find by (auto simp: find_upt_Some_iff)
  have jl: "j < length ?sl" unfolding j using p(1) by (intro probe_at_less) auto
  have keep: "sl_occupied (?sl ! j) \<Longrightarrow> sl_occupied s' \<and> sl_key s' = sl_key (?sl ! j)"
    using p(2) occ key by (auto simp: probe_stops_def j)
  have "slot_reachable (?sl[j := s']) i" if "i < length ?sl" "sl_occupied (?sl[j := s'] ! i)" for i
  proof (cases "i = j")
    case True
    have "\<forall>q < p. \<not> probe_stops (?sl[j := s']) k q"
      using p(3) probe_stops_update [OF jl keep] by blast
    with True jl p(1) key j show ?thesis by (auto simp: slot_reachable_def)
  next
    case False
    with that inv show ?thesis
      by (intro slot_reachable_update [OF jl _ keep]) (auto simp: kv_inv_def)
  qed
  with inv size show ?thesis by (simp add: kv_inv_def)
qed

lemma kv_put_find:
  assumes "kv_inv kv"
  shows "kv_put k v kv =
    (case find (probe_stops (kv_slots kv) k) [0..<length (kv_slots kv)] of None \<Rightarrow> (False, kv)
     | Some q \<Rightarrow> let j = probe_at (length (kv_slots kv)) k q; s = kv_slots kv ! j in
         if sl_occupied s then
           (True, kv\<lparr>kv_slots := (kv_slots kv)[j := s\<lparr>sl_value := v\<rparr>], kv_size := kv_size kv\<rparr>)
         else
           (True, kv\<lparr>kv_slots := (kv_slots kv)[j := \<lparr>sl_key = k, sl_value = v, sl_occupied = True\<rparr>],
                    kv_size := kv_size kv + 1\<rparr>))"
proof -
  obtain b where b: "b < 64" "length (kv_slots kv) = 2 ^ b" "kv_mask kv = mask b"
    "Suc (unat (kv_mask kv)) = 2 ^ b"
    using assms by (elim kv_invE)
  have "kv_put_loop (2 ^ b) (mask b) (k AND mask b) k v (kv_slots kv) =
    (case find (probe_stops (kv_slots kv) k) [0..<2 ^ b] of None \<Rightarrow> None
     | Some q \<Rightarrow> let j = probe_at (2 ^ b) k q; s = kv_slots kv ! j in
                 if sl_occupied s then Some ((kv_slots kv)[j := s\<lparr>sl_value := v\<rparr>], False)
                 else Some ((kv_slots kv)[j := \<lparr>sl_key = k, sl_value = v, sl_occupied = True\<rparr>], True))"
    using b(1,2) by (intro kv_put_loop_find) (auto simp: probe_home_index)
  then show ?thesis
    unfolding kv_put_def b(4) unfolding b(3) b(2)
    by (simp add: Let_def split: option.splits)
qed

lemma kv_size_bound:
  assumes "kv_inv kv"
  shows "unat (kv_size kv) \<le> length (kv_slots kv)" "length (kv_slots kv) < 2 ^ 64"
proof -
  show "unat (kv_size kv) \<le> length (kv_slots kv)"
    using assms by (simp add: kv_inv_def)
  obtain b where "b < 64" "length (kv_slots kv) = 2 ^ b"
    using assms by (elim kv_invE)
  then show "length (kv_slots kv) < 2 ^ 64"
    using power_strict_increasing [of b 64 "2::nat"] by simp
qed

lemma kv_put_inv:
  assumes "kv_inv kv"
  shows "kv_inv (snd (kv_put k v kv))"
proof (cases "find (probe_stops (kv_slots kv) k) [0..<length (kv_slots kv)]")
  case None
  with assms show ?thesis by (simp add: kv_put_find)
next
  case (Some p)
  let ?sl = "kv_slots kv" and ?j = "probe_at (length (kv_slots kv)) k p"
  have p: "p < length ?sl" "probe_stops ?sl k p"
    using Some by (auto simp: find_upt_Some_iff)
  then have jl: "?j < length ?sl" by (intro probe_at_less) auto
  show ?thesis
  proof (cases "sl_occupied (?sl ! ?j)")
    case True
    with p(2) have "sl_key (?sl ! ?j) = k" by (simp add: probe_stops_def)
    with True have "kv_inv (kv\<lparr>kv_slots := ?sl[?j := (?sl ! ?j)\<lparr>sl_value := v\<rparr>], kv_size := kv_size kv\<rparr>)"
      using assms jl
      by (intro kv_inv_update [OF assms Some refl])
         (simp_all add: length_filter_update_same kv_inv_def)
    with True Some show ?thesis by (simp add: kv_put_find [OF assms] Let_def)
  next
    case False
    have "unat (kv_size kv + 1) = Suc (unat (kv_size kv))"
    proof -
      have "length (filter sl_occupied ?sl) < length ?sl"
        using False jl by (intro length_filter_less) auto
      then have "unat (kv_size kv) < 2 ^ 64 - 1"
        using assms kv_size_bound [OF assms] by (simp add: kv_inv_def)
      then show ?thesis by (simp add: unat_word_ariths)
    qed
    with False have "kv_inv (kv\<lparr>kv_slots :=
        ?sl[?j := \<lparr>sl_key = k, sl_value = v, sl_occupied = True\<rparr>], kv_size := kv_size kv + 1\<rparr>)"
      using assms jl
      by (intro kv_inv_update [OF assms Some refl])
         (simp_all add: length_filter_update_gain kv_inv_def)
    with False Some show ?thesis by (simp add: kv_put_find [OF assms] Let_def)
  qed
qed

lemma kv_put_refused:
  assumes "kv_inv kv"
  shows "fst (kv_put k v kv) \<longleftrightarrow>
    kv_get k kv \<noteq> None \<or> unat (kv_size kv) < length (kv_slots kv)"
proof (cases "find (probe_stops (kv_slots kv) k) [0..<length (kv_slots kv)]")
  case None
  let ?N = "length (kv_slots kv)"
  have N: "0 < ?N" using assms by (elim kv_invE) simp
  have all: "sl_occupied (kv_slots kv ! probe_at ?N k q)" if "q < ?N" for q
    using None that by (auto simp: find_upt_None_iff probe_stops_def Let_def)
  have surj: "\<exists>q < ?N. probe_at ?N k q = j" if "j < ?N" for j
  proof -
    have "inj_on (probe_at ?N k) {..<?N}"
      by (intro inj_onI) (auto intro: probe_at_inj)
    moreover have "probe_at ?N k ` {..<?N} \<subseteq> {..<?N}"
      using N by (auto intro: probe_at_less)
    ultimately have "probe_at ?N k ` {..<?N} = {..<?N}"
      by (intro endo_inj_surj) auto
    with that show ?thesis by (metis imageE lessThan_iff)
  qed
  have "sl_occupied s" if "s \<in> set (kv_slots kv)" for s
    using that all surj by (metis in_set_conv_nth)
  then have "filter sl_occupied (kv_slots kv) = kv_slots kv" by simp
  with assms have "unat (kv_size kv) = ?N" by (simp add: kv_inv_def)
  with None show ?thesis by (simp add: kv_put_find [OF assms] kv_get_find [OF assms])
next
  case (Some p)
  let ?N = "length (kv_slots kv)"
  have "unat (kv_size kv) < ?N" if "\<not> sl_occupied (kv_slots kv ! probe_at ?N k p)"
  proof -
    have "probe_at ?N k p < ?N" using Some by (intro probe_at_less) (auto simp: find_upt_Some_iff)
    with that have "length (filter sl_occupied (kv_slots kv)) < ?N"
      by (intro length_filter_less) auto
    with assms show ?thesis by (simp add: kv_inv_def)
  qed
  with Some show ?thesis
    by (auto simp: kv_put_find [OF assms] kv_get_find [OF assms] Let_def)
qed

lemma kv_get_put:
  assumes "kv_inv kv" "fst (kv_put k v kv)"
  shows "kv_get k' (snd (kv_put k v kv)) = (if k' = k then Some v else kv_get k' kv)"
proof -
  let ?sl = "kv_slots kv" and ?kv' = "snd (kv_put k v kv)"
  obtain p where p: "find (probe_stops ?sl k) [0..<length ?sl] = Some p"
    using assms by (auto simp: kv_put_find [OF assms(1)] split: option.splits)
  define j where "j = probe_at (length ?sl) k p"
  have jl: "j < length ?sl"
    unfolding j_def using p by (intro probe_at_less) (auto simp: find_upt_Some_iff)
  have stop: "sl_occupied (?sl ! j) \<Longrightarrow> sl_key (?sl ! j) = k"
    using p by (auto simp: find_upt_Some_iff probe_stops_def j_def)
  define s' where "s' = (if sl_occupied (?sl ! j) then (?sl ! j)\<lparr>sl_value := v\<rparr>
                        else \<lparr>sl_key = k, sl_value = v, sl_occupied = True\<rparr>)"
  have slots': "kv_slots ?kv' = ?sl[j := s']"
    unfolding s'_def j_def by (simp add: kv_put_find [OF assms(1)] p Let_def)
  have "sl_occupied s'" "sl_key s' = k" "sl_value s' = v"
    using stop by (simp_all add: s'_def)
  note s' = slots' this
  have holds: "slot_holds ?kv' k' i \<longleftrightarrow> (if i = j then k' = k else slot_holds kv k' i)" for i
    using s' jl by (auto simp: slot_holds_def nth_list_update)
  have only: "slot_holds kv k i \<Longrightarrow> i = j" for i
    using find_stop_stored [OF assms(1), of k i] p by (auto simp: j_def)
  have other: "slot_holds kv k' i \<Longrightarrow> k' \<noteq> k \<Longrightarrow> i \<noteq> j" for i
    using stop by (auto simp: slot_holds_def)
  have "kv_get k' ?kv' = Some w \<longleftrightarrow> (if k' = k then Some v else kv_get k' kv) = Some w" for w
  proof (cases "k' = k")
    case True
    have "kv_get k' ?kv' = Some w \<longleftrightarrow> v = w"
      unfolding kv_get_iff [OF kv_put_inv [OF assms(1)]] holds
      using True only s' jl by auto
    with True show ?thesis by simp
  next
    case False
    have "kv_get k' ?kv' = Some w \<longleftrightarrow> kv_get k' kv = Some w"
      unfolding kv_get_iff [OF kv_put_inv [OF assms(1)]] kv_get_iff [OF assms(1)] holds
      using False other s' by auto
    with False show ?thesis by simp
  qed
  then show ?thesis by (metis option.exhaust)
qed

lemma kv_put_false_unchanged: "kv_inv kv \<Longrightarrow> \<not> fst (kv_put k v kv) \<Longrightarrow> snd (kv_put k v kv) = kv"
  by (auto simp: kv_put_find Let_def split: option.splits if_splits)

lemma kv_slots_length_put [simp]:
  "kv_inv kv \<Longrightarrow> length (kv_slots (snd (kv_put k v kv))) = length (kv_slots kv)"
  by (auto simp: kv_put_find Let_def split: option.splits)

lemma kv_size_entries: "kv_inv kv \<Longrightarrow> unat (kv_size kv) = length (kv_entries kv)"
  by (simp add: kv_inv_def kv_entries_def)

lemma card_dom_kv_get:
  assumes "kv_inv kv"
  shows "card (dom (\<lambda>k. kv_get k kv)) = unat (kv_size kv)"
proof -
  have "dom (\<lambda>k. kv_get k kv) = fst ` set (kv_entries kv)"
    by (simp add: kv_get_entries [OF assms] dom_map_of_conv_image_fst)
  then show ?thesis
    using distinct_card [OF distinct_kv_entries [OF assms]] by (simp add: kv_size_entries [OF assms])
qed

section \<open>The constructor\<close>

lemma pow2_word:
  assumes "i < 64"
  shows "unat ((2::u64) ^ i) = 2 ^ i"
proof -
  have "(2::nat) ^ i < 2 ^ LENGTH(64)"
    using assms power_strict_increasing [of i 64 "2::nat"] by simp
  from unat_of_nat_small [OF this] show ?thesis by simp
qed

lemma pow2_word_shift: "push_bit 1 ((2::u64) ^ i) = 2 ^ Suc i"
  by (simp add: push_bit_eq_mult)

lemma round_up_pow2_Some:
  assumes "n \<le> 2 ^ 63"
  shows "\<exists>b. round_up_pow2 n = Some (2 ^ b) \<and> 1 \<le> b \<and> b < 64 \<and> n \<le> 2 ^ b \<and> (2 ^ b < 2 * unat n \<or> b = 1)"
proof -
  let ?P = "\<lambda>p::u64. \<exists>i < 64. p = 2 ^ i \<and> (2 ^ i < 2 * unat n \<or> i = 0)"
  let ?b = "\<lambda>p::u64. p < n" and ?c = "\<lambda>p::u64. push_bit 1 p"
  have n: "unat n \<le> 2 ^ 63" using assms pow2_word [of 63] by (simp add: word_le_nat_alt)
  have step: "?P (?c p) \<and> unat n - unat (?c p) < unat n - unat p" if "?P p" "?b p" for p
  proof -
    obtain i where i: "i < 64" "p = 2 ^ i" using \<open>?P p\<close> by blast
    have "(2::nat) ^ i < 2 ^ 63"
      using \<open>?b p\<close> n i pow2_word [OF i(1)] by (simp add: word_less_nat_alt)
    then have "Suc i < 64" using power_less_imp_less_exp [of "2::nat" i 63] by simp
    have shift: "?c p = 2 ^ Suc i" by (simp only: i(2) pow2_word_shift)
    have "unat (?c p) = 2 ^ Suc i" unfolding shift using \<open>Suc i < 64\<close> by (rule pow2_word)
    moreover have "unat p = 2 ^ i" unfolding i(2) using i(1) by (rule pow2_word)
    ultimately have "unat (?c p) = 2 * unat p" "0 < unat p" by simp_all
    moreover have "unat p < unat n" using \<open>?b p\<close> by (simp add: word_less_nat_alt)
    moreover have "(2::nat) ^ Suc i < 2 * unat n" using \<open>unat p = 2 ^ i\<close> \<open>unat p < unat n\<close> by simp
    ultimately show ?thesis using \<open>Suc i < 64\<close> shift by (intro conjI exI [of _ "Suc i"]) simp_all
  qed
  have "?P 1" by (rule exI [of _ 0]) simp
  then obtain t where t: "while_option ?b ?c 1 = Some t"
    using measure_while_option_Some [of ?P ?b ?c "\<lambda>p. unat n - unat p" 1] step by blast
  have "?P t"
    using while_option_rule [OF _ t, of ?P] step \<open>?P 1\<close> by blast
  then obtain i where i: "i < 64" "t = 2 ^ i" "2 ^ i < 2 * unat n \<or> i = 0" by blast
  have res: "round_up_pow2 n = Some (if t < 2 then 2 else t)"
    by (simp only: round_up_pow2_def t option.map)
  have "\<not> t < n" using t by (rule while_option_stop)
  then have le: "n \<le> 2 ^ i" using i by simp
  show ?thesis
  proof (cases "i = 0")
    case True
    have "n \<le> 2 ^ 1" using le True by (simp add: word_le_nat_alt)
    with True i show ?thesis by (intro exI [of _ 1]) (simp add: res)
  next
    case False
    have "\<not> (2::u64) ^ i < 2"
      using i(1) False pow2_word [OF i(1)] power_increasing [of 1 i "2::nat"]
      by (simp add: word_less_nat_alt)
    with False i le show ?thesis by (intro exI [of _ i]) (simp add: res)
  qed
qed

lemma round_up_pow2_None:
  assumes "2 ^ 63 < n"
  shows "round_up_pow2 n = None"
proof -
  let ?P = "\<lambda>p::u64. p = 0 \<or> (\<exists>i < 64. p = 2 ^ i)"
  have below: "p < n" if "?P p" for p
  proof -
    have "unat p \<le> 2 ^ 63"
      using that pow2_word power_increasing [of _ 63 "2::nat"] by auto
    also have "\<dots> < unat n" using assms pow2_word [of 63] by (simp add: word_less_nat_alt)
    finally show ?thesis by (simp add: word_less_nat_alt)
  qed
  have step: "?P (push_bit 1 p)" if P: "?P p" for p
  proof (cases "p = 0")
    case False
    then obtain i where i: "i < 64" "p = 2 ^ i" using P by blast
    show ?thesis
    proof (cases "i = 63")
      case True
      with i show ?thesis by (simp add: push_bit_eq_mult)
    next
      case False
      with i have "Suc i < 64" "push_bit 1 p = 2 ^ Suc i"
        by (auto simp: pow2_word_shift)
      then show ?thesis by blast
    qed
  qed simp
  have "while_option (\<lambda>p. p < n) (\<lambda>p. push_bit 1 p) 1 = None"
  proof (rule ccontr)
    assume "while_option (\<lambda>p. p < n) (\<lambda>p. push_bit 1 p) 1 \<noteq> None"
    then obtain t where t: "while_option (\<lambda>p. p < n) (\<lambda>p. push_bit 1 p) 1 = Some t" by blast
    have "?P 1" by (intro disjI2 exI [of _ 0]) simp
    then have "?P t" using while_option_rule [OF _ t, of ?P] step by blast
    then show False using below while_option_stop [OF t] by blast
  qed
  then show ?thesis by (simp only: round_up_pow2_def option.map)
qed

lemma kv_inv_fresh:
  assumes "1 \<le> b" "b < 64"
  shows "kv_inv \<lparr>kv_mask = 2 ^ b - 1, kv_size = 0, kv_slots = replicate (unat ((2::u64) ^ b)) empty_slot\<rparr>"
  using assms pow2_word [OF assms(2)]
  by (auto simp: kv_inv_def mask_eq_exp_minus_1 empty_slot_def intro!: exI [of _ b])

lemma kv_fresh_empty:
  "kv_entries \<lparr>kv_mask = m, kv_size = 0, kv_slots = replicate n empty_slot\<rparr> = []"
  by (simp add: kv_entries_def empty_slot_def)

section \<open>The interface of a bounded map\<close>

text \<open>
  What the engine, the WAL recovery and the checkpoint rely on: a store of limited capacity that
  behaves as a finite map, refuses a new key only when it is full, and is left alone by a refused
  write.
\<close>

locale bounded_map =
  fixes put :: "'k \<Rightarrow> 'v \<Rightarrow> 's \<Rightarrow> bool \<times> 's"
    and get :: "'k \<Rightarrow> 's \<Rightarrow> 'v option"
    and entries :: "'s \<Rightarrow> ('k \<times> 'v) list"
    and cap :: "'s \<Rightarrow> nat"
    and invar :: "'s \<Rightarrow> bool"
  assumes put_invar: "invar s \<Longrightarrow> invar (snd (put k v s))"
    and put_cap: "invar s \<Longrightarrow> cap (snd (put k v s)) = cap s"
    and get_put: "invar s \<Longrightarrow> fst (put k v s) \<Longrightarrow>
                    get k' (snd (put k v s)) = (if k' = k then Some v else get k' s)"
    and put_refused: "invar s \<Longrightarrow> \<not> fst (put k v s) \<Longrightarrow> snd (put k v s) = s"
    and put_succeeds: "invar s \<Longrightarrow>
                    fst (put k v s) \<longleftrightarrow> k \<in> dom (\<lambda>k. get k s) \<or> card (dom (\<lambda>k. get k s)) < cap s"
    and get_entries: "invar s \<Longrightarrow> get k s = map_of (entries s) k"
    and entries_distinct: "invar s \<Longrightarrow> distinct (map fst (entries s))"
begin

text \<open>The contents of a store as a map, and the store after a list of writes.\<close>

definition contents :: "'s \<Rightarrow> 'k \<Rightarrow> 'v option" where
  "contents s = (\<lambda>k. get k s)"

definition put_all :: "('k \<times> 'v) list \<Rightarrow> 's \<Rightarrow> 's" where
  "put_all kvs s = fold (\<lambda>(k, v) s. snd (put k v s)) kvs s"

lemma put_all_Nil [simp]: "put_all [] s = s"
  by (simp add: put_all_def)

lemma put_all_Cons [simp]: "put_all ((k, v) # kvs) s = put_all kvs (snd (put k v s))"
  by (simp add: put_all_def)

lemma put_all_append [simp]: "put_all (xs @ ys) s = put_all ys (put_all xs s)"
  by (simp add: put_all_def)

lemma put_all_invar: "invar s \<Longrightarrow> invar (put_all kvs s)"
  by (induction kvs arbitrary: s) (auto simp: put_invar)

lemma put_all_cap: "invar s \<Longrightarrow> cap (put_all kvs s) = cap s"
  by (induction kvs arbitrary: s) (auto simp: put_invar put_cap)

lemma finite_dom_contents: "invar s \<Longrightarrow> finite (dom (contents s))"
  by (simp add: contents_def get_entries finite_dom_map_of)

lemma contents_entries: "invar s \<Longrightarrow> contents s = map_of (entries s)"
  by (simp add: contents_def get_entries fun_eq_iff)

lemma contents_put:
  "invar s \<Longrightarrow> fst (put k v s) \<Longrightarrow> contents (snd (put k v s)) = (contents s)(k \<mapsto> v)"
  by (simp add: contents_def get_put fun_eq_iff)

lemma put_fits:
  assumes "invar s" "finite A" "insert k (dom (contents s)) \<subseteq> A" "card A \<le> cap s"
  shows "fst (put k v s)"
proof (cases "k \<in> dom (contents s)")
  case True
  with assms(1) show ?thesis by (simp add: put_succeeds contents_def)
next
  case False
  then have "dom (contents s) \<subset> A" using assms(3) by blast
  with assms(2,4) have "card (dom (contents s)) < cap s"
    using psubset_card_mono [of A "dom (contents s)"] by simp
  with assms(1) show ?thesis by (simp add: put_succeeds contents_def)
qed

text \<open>Writes whose keys fit are applied in order: the last write of a key wins.\<close>

lemma contents_put_all:
  assumes "invar s" "card (dom (contents s) \<union> fst ` set kvs) \<le> cap s"
  shows "contents (put_all kvs s) = contents s ++ map_of (rev kvs)"
  using assms
proof (induction kvs arbitrary: s)
  case Nil
  then show ?case by simp
next
  case (Cons kv kvs)
  obtain k v where kv: "kv = (k, v)" by (cases kv)
  let ?A = "dom (contents s) \<union> fst ` set (kv # kvs)"
  have ok: "fst (put k v s)"
    using Cons.prems kv finite_dom_contents [OF Cons.prems(1)]
    by (intro put_fits [of s ?A]) auto
  have c: "contents (snd (put k v s)) = (contents s)(k \<mapsto> v)"
    using Cons.prems(1) ok by (rule contents_put)
  have "dom (contents (snd (put k v s))) \<union> fst ` set kvs = ?A"
    by (auto simp: c kv)
  then have "card (dom (contents (snd (put k v s))) \<union> fst ` set kvs) \<le> cap (snd (put k v s))"
    using Cons.prems by (simp only: put_cap)
  from Cons.IH [OF put_invar [OF Cons.prems(1)] this]
  have "contents (put_all kvs (snd (put k v s))) = (contents s)(k \<mapsto> v) ++ map_of (rev kvs)"
    by (simp only: c)
  then show ?case by (simp add: kv)
qed

lemma contents_put_all_twice:
  assumes "invar s" "card (dom (contents s) \<union> fst ` set kvs) \<le> cap s"
  shows "contents (put_all kvs (put_all kvs s)) = contents (put_all kvs s)"
proof -
  let ?t = "put_all kvs s"
  have t: "contents ?t = contents s ++ map_of (rev kvs)"
    using assms by (rule contents_put_all)
  have "dom (contents ?t) \<union> fst ` set kvs = dom (contents s) \<union> fst ` set kvs"
    by (auto simp: t dom_map_of_conv_image_fst)
  then have "contents (put_all kvs ?t) = contents ?t ++ map_of (rev kvs)"
    using assms by (intro contents_put_all) (simp_all add: put_all_invar put_all_cap)
  then show ?thesis by (simp add: t) (auto simp: fun_eq_iff map_add_def split: option.splits)
qed

end

interpretation kvm: bounded_map kv_put kv_get kv_entries "\<lambda>kv. length (kv_slots kv)" kv_inv
proof unfold_locales
  fix s :: kvstore and k v assume inv: "kv_inv s"
  show "fst (kv_put k v s) \<longleftrightarrow>
      k \<in> dom (\<lambda>k. kv_get k s) \<or> card (dom (\<lambda>k. kv_get k s)) < length (kv_slots s)"
    unfolding card_dom_kv_get [OF inv] kv_put_refused [OF inv] by (simp add: domIff)
qed (rule kv_put_inv kv_slots_length_put kv_get_put kv_put_false_unchanged kv_get_entries
    distinct_kv_entries; assumption)+

lemma kv_capacity_length: "kv_inv kv \<Longrightarrow> unat (kv_capacity kv) = length (kv_slots kv)"
proof (elim kv_invE)
  fix b assume b: "b < 64" "length (kv_slots kv) = 2 ^ b" "Suc (unat (kv_mask kv)) = 2 ^ b"
  then have "Suc (unat (kv_mask kv)) < 2 ^ 64"
    using power_strict_increasing [of b 64 "2::nat"] by simp
  with b show ?thesis by (simp add: kv_capacity_def unat_word_ariths)
qed

lemma kv_checksum_entries: "kv_checksum kv = sum_list (map snd (kv_entries kv))"
proof -
  have sums: "fold (\<lambda>s acc. acc + sl_value s) ss a = a + sum_list (map sl_value ss)"
    for ss :: "kv_slot list" and a :: u64
    by (induction ss arbitrary: a) (simp_all add: add.assoc)
  show ?thesis
    by (simp add: kv_checksum_def kv_entries_def fold_if_filter [where f = "\<lambda>s acc. acc + sl_value s"]
        sums comp_def)
qed

section \<open>Properties\<close>

text \<open>
  C1. \<open>put\<close> implements insertion into a bounded finite map. From a table that satisfies the
  representation invariant, \<open>put\<close> keeps the invariant; it reports success exactly when the key is
  already stored or a slot is free; on success the key reads back the value and no other key
  changes (colliding keys never overwrite each other); on refusal the table is unchanged; and the
  entries \<open>for_each\<close> visits are the map that \<open>get\<close> reads, as many as \<open>size\<close> says.
\<close>

theorem kv_put_refines_map:
  assumes "kv_inv kv" "kv_put k v kv = (ok, kv')"
  shows "kv_inv kv' \<and>
    (ok \<longleftrightarrow> kv_get k kv \<noteq> None \<or> kv_size kv < kv_capacity kv) \<and>
    (\<forall>k'. kv_get k' kv' = (if ok \<and> k' = k then Some v else kv_get k' kv)) \<and>
    (\<not> ok \<longrightarrow> kv' = kv) \<and>
    (\<lambda>k. kv_get k kv') = map_of (kv_entries kv') \<and>
    length (kv_entries kv') = unat (kv_size kv')"
proof -
  have ok: "ok = fst (kv_put k v kv)" and kv': "kv' = snd (kv_put k v kv)"
    using assms(2) by simp_all
  have inv': "kv_inv kv'" unfolding kv' using assms(1) by (rule kv_put_inv)
  have "ok \<longleftrightarrow> kv_get k kv \<noteq> None \<or> kv_size kv < kv_capacity kv"
    unfolding ok using kv_put_refused [OF assms(1)] kv_capacity_length [OF assms(1)]
    by (simp add: word_less_nat_alt)
  moreover have "kv_get k' kv' = (if ok \<and> k' = k then Some v else kv_get k' kv)" for k'
  proof (cases "fst (kv_put k v kv)")
    case True
    then show ?thesis using kv_get_put [OF assms(1) True] by (simp add: ok kv')
  next
    case False
    then show ?thesis using kv_put_false_unchanged [OF assms(1) False] by (simp add: ok kv')
  qed
  moreover have "\<not> ok \<longrightarrow> kv' = kv"
    unfolding ok kv' using assms(1) kv_put_false_unchanged by blast
  ultimately show ?thesis
    using inv' kv_get_entries [OF inv'] kv_size_entries [OF inv'] by (simp add: fun_eq_iff)
qed

theorem kv_put_refines_map_witness:
  "kv_get 6 (snd (kv_put 6 9 \<lparr>kv_mask = 1, kv_size = 0, kv_slots = [empty_slot, empty_slot]\<rparr>)) = Some 9"
proof -
  let ?kv = "\<lparr>kv_mask = 1, kv_size = 0, kv_slots = [empty_slot, empty_slot]\<rparr>"
  have two: "replicate (unat (2::u64)) empty_slot = [empty_slot, empty_slot]"
  proof -
    have "unat (2::u64) = Suc (Suc 0)" by simp
    then show ?thesis by (simp only: replicate.simps)
  qed
  have inv: "kv_inv ?kv" using kv_inv_fresh [of 1] by (simp only: power_one_right two) simp
  have ok: "kv_get 6 ?kv \<noteq> None \<or> kv_size ?kv < kv_capacity ?kv"
    by (simp add: kv_capacity_def)
  show ?thesis
    using kv_put_refines_map [OF inv surjective_pairing [of "kv_put 6 9 ?kv"]] ok by simp
qed

lemma max_slots_pow2:
  assumes "b < 64"
  shows "max_slots < 2 ^ b \<longleftrightarrow> 58 < b"
proof
  assume "max_slots < 2 ^ b"
  then have "\<not> (2 :: nat) ^ b \<le> 2 ^ 58" by (simp add: max_slots_def SLOT_BYTES_def)
  then show "58 < b" using power_increasing [of b 58 "2 :: nat"] by fastforce
next
  assume "58 < b"
  then have "(2 :: nat) ^ 59 \<le> 2 ^ b" by (intro power_increasing) simp_all
  then show "max_slots < 2 ^ b" by (simp add: max_slots_def SLOT_BYTES_def)
qed

text \<open>
  C19. What the constructor does, for every capacity. Beyond \<open>2 ^ 63\<close> the doubling loop wraps to zero and
  never returns. From there down to \<open>2 ^ 58\<close> the loop returns, but the slots exceed what a vector may hold and
  the constructor throws whatever memory there is. Up to \<open>2 ^ 58\<close> it asks for 24 bytes for each of the smallest power of
  two of slots, two at least, that holds the capacity; it throws when they are not granted and
  otherwise makes an empty table that satisfies the invariant.
\<close>

theorem KVStore_total:
  "(2 ^ 63 < n \<longrightarrow> KVStore alloc n = Diverges) \<and>
   (2 ^ 58 < n \<and> n \<le> 2 ^ 63 \<longrightarrow> KVStore alloc n = Throws) \<and>
   (n \<le> 2 ^ 58 \<longrightarrow>
     (\<exists>b \<in> {1..58}. n \<le> 2 ^ b \<and> (2 ^ b < 2 * n \<or> b = 1) \<and>
       (\<not> alloc (24 * 2 ^ b) \<longrightarrow> KVStore alloc n = Throws) \<and>
       (alloc (24 * 2 ^ b) \<longrightarrow> (\<exists>kv. KVStore alloc n = Made kv \<and> kv_inv kv \<and> kv_entries kv = [] \<and> kv_capacity kv = 2 ^ b))))"
proof (intro conjI impI)
  assume "2 ^ 63 < n"
  then show "KVStore alloc n = Diverges" by (simp add: KVStore_def round_up_pow2_None)
next
  assume n: "2 ^ 58 < n \<and> n \<le> 2 ^ 63"
  then obtain b where b: "round_up_pow2 n = Some (2 ^ b)" "b < 64" "n \<le> 2 ^ b" using round_up_pow2_Some by blast
  have "58 < b" using n b(3) pow2_word [OF b(2)] power_increasing [of b 58 "2 :: nat"]
    by (fastforce simp: word_less_nat_alt word_le_nat_alt)
  then show "KVStore alloc n = Throws" using b max_slots_pow2 pow2_word [OF b(2)] by (simp add: KVStore_def)
next
  assume n: "n \<le> 2 ^ 58"
  also have "(2 :: u64) ^ 58 \<le> 2 ^ 63" by simp
  finally obtain b where b: "round_up_pow2 n = Some (2 ^ b)" "1 \<le> b" "b < 64" "n \<le> 2 ^ b" "2 ^ b < 2 * unat n \<or> b = 1"
    using round_up_pow2_Some by blast
  note p = pow2_word [OF b(3)]
  have "unat n \<le> 2 ^ 58" using n by (simp add: word_le_nat_alt)
  then have "(2 :: nat) ^ b < 2 ^ 59" using b(5) by auto
  then have le: "b \<le> 58" using power_less_imp_less_exp [of "2 :: nat" b 59] by simp
  have "unat (2 * n) = 2 * unat n" using \<open>unat n \<le> 2 ^ 58\<close> by (subst unat_mult_lem [THEN iffD1]) simp_all
  then have small: "2 ^ b < 2 * n \<or> b = 1" using b(5) p by (simp add: word_less_nat_alt)
  have fits: "\<not> max_slots < 2 ^ b" using le max_slots_pow2 [OF b(3)] by simp
  show "\<exists>b \<in> {1..58}. n \<le> 2 ^ b \<and> (2 ^ b < 2 * n \<or> b = 1) \<and> (\<not> alloc (24 * 2 ^ b) \<longrightarrow> KVStore alloc n = Throws) \<and>
       (alloc (24 * 2 ^ b) \<longrightarrow> (\<exists>kv. KVStore alloc n = Made kv \<and> kv_inv kv \<and> kv_entries kv = [] \<and> kv_capacity kv = 2 ^ b))"
    using b small le fits p kv_inv_fresh [OF b(2,3)]
    by (intro bexI [of _ b]) (simp_all add: KVStore_def SLOT_BYTES_def mult.commute [of _ 24] kv_fresh_empty kv_capacity_def)
qed

theorem KVStore_total_witness:
  "(\<exists>b kv. KVStore (\<lambda>_. True) 65536 = Made kv \<and> kv_inv kv \<and> kv_entries kv = [] \<and> kv_capacity kv = 2 ^ b) \<and>
   KVStore (\<lambda>_. True) (2 ^ 60) = Throws \<and> KVStore (\<lambda>_. False) 65536 = Throws \<and> KVStore (\<lambda>_. True) (2 ^ 63 + 1) = Diverges"
  using KVStore_total [of 65536 "\<lambda>_. True"] KVStore_total [of "2 ^ 60" "\<lambda>_. True"] KVStore_total [of 65536 "\<lambda>_. False"]
    KVStore_total [of "2 ^ 63 + 1" "\<lambda>_. True"] by simp blast

end
