(* ===== verification/Batch.thy ===== *)
theory Batch
  imports Types "HOL-Library.Multiset"
begin

text \<open>
  The page binning of \<open>compute.hpp\<close>: a counting sort of a batch of point queries by owning page, into
  a caller-owned buffer with an index of page offsets. The counters are at most the batch size,
  which the caller clamps to 65536, so their 32-bit width is not an issue.
\<close>

section \<open>The counting sort\<close>

definition bin_counts :: "nat \<Rightarrow> ('q \<Rightarrow> nat) \<Rightarrow> 'q list \<Rightarrow> nat list" where
  "bin_counts P page batch = fold (\<lambda>q c. c[page q := Suc (c ! page q)]) batch (replicate P 0)"

definition bin_offsets :: "nat \<Rightarrow> nat list \<Rightarrow> nat list" where
  "bin_offsets P counts = fold (\<lambda>p off. off @ [off ! p + counts ! p]) [0..<P] [0]"

definition bin_scatter ::
  "('q \<Rightarrow> nat) \<Rightarrow> 'q list \<Rightarrow> 'q list \<times> nat list \<Rightarrow> 'q list \<times> nat list" where
  "bin_scatter page batch =
     fold (\<lambda>q (binned, cursor). (binned[cursor ! page q := q], cursor[page q := Suc (cursor ! page q)])) batch"

definition query_page :: "database_query \<Rightarrow> nat" where
  "query_page q = matrix_page_of (query_id q)"

definition matrix_bin_by_page ::
  "database_query list \<Rightarrow> database_query list \<Rightarrow> database_query list \<times> nat list" where
  "matrix_bin_by_page batch binned =
     (let counts = bin_counts MATRIX_PAGE_COUNT query_page batch;
          offsets = bin_offsets MATRIX_PAGE_COUNT counts;
          cursor = take MATRIX_PAGE_COUNT offsets
      in (fst (bin_scatter query_page batch (binned, cursor)), offsets))"

section \<open>Correctness\<close>

abbreviation of_page :: "('q \<Rightarrow> nat) \<Rightarrow> nat \<Rightarrow> 'q list \<Rightarrow> 'q list" where
  "of_page page p \<equiv> filter (\<lambda>q. page q = p)"

definition before_page :: "('q \<Rightarrow> nat) \<Rightarrow> nat \<Rightarrow> 'q list \<Rightarrow> nat" where
  "before_page page p batch = sum_list (map (\<lambda>r. length (of_page page r batch)) [0..<p])"

lemma before_page_0 [simp]: "before_page page 0 batch = 0"
  by (simp add: before_page_def)

lemma before_page_Suc [simp]:
  "before_page page (Suc p) batch = before_page page p batch + length (of_page page p batch)"
  by (simp add: before_page_def)

lemma before_page_mono: "p \<le> r \<Longrightarrow> before_page page p batch \<le> before_page page r batch"
  by (induction r) (auto simp: le_Suc_eq)

lemma before_page_concat:
  "before_page page p batch = length (concat (map (\<lambda>r. of_page page r batch) [0..<p]))"
  by (induction p) simp_all

lemma bin_counts_nth:
  assumes "p < P" "\<forall>q \<in> set batch. page q < P"
  shows "bin_counts P page batch ! p = length (of_page page p batch)" "length (bin_counts P page batch) = P"
proof -
  have "p < length c \<Longrightarrow> fold (\<lambda>q c. c[page q := Suc (c ! page q)]) batch c ! p = c ! p + length (of_page page p batch) \<and>
      length (fold (\<lambda>q c. c[page q := Suc (c ! page q)]) batch c) = length c" for c
    by (induction batch arbitrary: c) auto
  then show "bin_counts P page batch ! p = length (of_page page p batch)" "length (bin_counts P page batch) = P"
    using assms(1) by (simp_all add: bin_counts_def)
qed

lemma bin_offsets_nth:
  assumes "\<And>p. p < P \<Longrightarrow> counts ! p = length (of_page page p batch)"
  shows "bin_offsets P counts = map (\<lambda>p. before_page page p batch) [0..<Suc P]"
  using assms
proof (induction P)
  case 0
  show ?case by (simp add: bin_offsets_def)
next
  case (Suc P)
  then have IH: "bin_offsets P counts = map (\<lambda>p. before_page page p batch) [0..<Suc P]" by simp
  have "bin_offsets (Suc P) counts = bin_offsets P counts @ [bin_offsets P counts ! P + counts ! P]"
    by (simp add: bin_offsets_def)
  also have "\<dots> = map (\<lambda>p. before_page page p batch) [0..<Suc (Suc P)]"
    using Suc.prems [of P] by (simp add: IH nth_append)
  finally show ?case .
qed

text \<open>
  The scatter loop: the cursor of a page is its offset plus the number of its queries seen so far,
  and the slots up to the cursor hold these queries in order.
\<close>

lemma bin_scatter_inv:
  assumes "\<forall>q \<in> set batch. page q < P" "length batch \<le> length binned"
    and "before_page page P batch = length batch"
  shows "xs @ ys = batch \<Longrightarrow>
    bin_scatter page xs (binned, map (\<lambda>p. before_page page p batch) [0..<P]) = (b, c) \<Longrightarrow>
    length b = length binned \<and>
    c = map (\<lambda>p. before_page page p batch + length (of_page page p xs)) [0..<P] \<and>
    (\<forall>p j. p < P \<longrightarrow> j < length (of_page page p xs) \<longrightarrow> b ! (before_page page p batch + j) = of_page page p xs ! j)"
proof (induction xs arbitrary: ys b c rule: rev_induct)
  case Nil
  then show ?case by (simp add: bin_scatter_def)
next
  case (snoc x xs)
  let ?off = "\<lambda>p. before_page page p batch"
  obtain b0 c0 where s: "bin_scatter page xs (binned, map ?off [0..<P]) = (b0, c0)" by fastforce
  have IH: "length b0 = length binned" "c0 = map (\<lambda>p. ?off p + length (of_page page p xs)) [0..<P]"
    "\<And>p j. p < P \<Longrightarrow> j < length (of_page page p xs) \<Longrightarrow> b0 ! (?off p + j) = of_page page p xs ! j"
    using snoc.IH [of "x # ys" b0 c0] snoc.prems(1) s by auto
  have x: "page x < P" using assms(1) snoc.prems(1) by auto
  have bc: "b = b0[c0 ! page x := x]" "c = c0[page x := Suc (c0 ! page x)]"
    using snoc.prems(2) s by (simp_all add: bin_scatter_def)
  have len: "length (of_page page p xs) \<le> length (of_page page p batch)" for p
    using snoc.prems(1) by auto
  have lenx: "length (of_page page (page x) xs) < length (of_page page (page x) batch)"
    using snoc.prems(1) by auto
  have slot: "c0 ! page x = ?off (page x) + length (of_page page (page x) xs)" using x by (simp add: IH(2))
  have in_range: "c0 ! page x < length b0"
  proof -
    have "c0 ! page x < ?off (Suc (page x))" using lenx by (simp add: slot)
    also have "\<dots> \<le> ?off P" using x by (intro before_page_mono) simp
    finally show ?thesis using assms(2,3) IH(1) by simp
  qed
  have "b ! (?off p + j) = of_page page p (xs @ [x]) ! j"
    if p: "p < P" and j: "j < length (of_page page p (xs @ [x]))" for p j
  proof (cases "p = page x \<and> j = length (of_page page p xs)")
    case True
    then show ?thesis using in_range by (simp add: bc slot nth_append)
  next
    case False
    then have j': "j < length (of_page page p xs)" using j by (auto split: if_splits)
    have "?off p + j \<noteq> c0 ! page x"
    proof
      assume eq: "?off p + j = c0 ! page x"
      consider "p = page x" | "p < page x" | "page x < p" by linarith
      then show False
      proof cases
        case 1
        then show ?thesis using eq j' slot by simp
      next
        case 2
        then have "?off (Suc p) \<le> ?off (page x)" by (intro before_page_mono) simp
        then show ?thesis using eq j' len [of p] slot by simp
      next
        case 3
        then have "?off (Suc (page x)) \<le> ?off p" by (intro before_page_mono) simp
        then show ?thesis using eq lenx slot by simp
      qed
    qed
    then show ?thesis using IH(3) [OF p j'] j' by (simp add: bc nth_append)
  qed
  moreover have "c = map (\<lambda>p. ?off p + length (of_page page p (xs @ [x]))) [0..<P]"
    using x by (intro nth_equalityI) (auto simp: bc IH(2) nth_list_update)
  ultimately show ?case using IH(1) by (simp add: bc)
qed

lemma concat_upt_nth:
  "p < P \<Longrightarrow> j < length (f p) \<Longrightarrow>
   concat (map f [0..<P]) ! (length (concat (map f [0..<p])) + j) = f p ! j"
proof (induction P)
  case (Suc P)
  show ?case
  proof (cases "p = P")
    case True
    then show ?thesis using Suc.prems(2) by (simp add: nth_append)
  next
    case False
    then have p: "p < P" using Suc.prems(1) by simp
    have "length (concat (map f [0..<p])) + j < length (concat (map f [0..<Suc p]))" using Suc.prems(2) by simp
    also have "\<dots> \<le> length (concat (map f [0..<P]))"
      using p by (induction P) (auto simp: less_Suc_eq)
    finally show ?thesis using Suc.IH [OF p Suc.prems(2)] by (simp add: nth_append)
  qed
qed simp

lemma concat_upt_index:
  assumes "i < length (concat (map f [0..<P]))"
  obtains p j where "p < P" "j < length (f p)" "i = length (concat (map f [0..<p])) + j"
  using assms
proof (induction P arbitrary: thesis)
  case (Suc P)
  show ?case
  proof (cases "i < length (concat (map f [0..<P]))")
    case True
    then show ?thesis using Suc.IH Suc.prems(1) by (metis less_SucI)
  next
    case False
    then show ?thesis using Suc.prems(2) Suc.prems(1) [of P "i - length (concat (map f [0..<P]))"] by simp
  qed
qed simp

lemma before_page_total:
  assumes "\<forall>q \<in> set batch. page q < P"
  shows "before_page page P batch = length batch"
proof -
  have "before_page page P batch = length (filter (\<lambda>q. page q < P) batch)"
  proof (induction P)
    case (Suc P)
    have "length (filter (\<lambda>q. page q < Suc P) batch) =
        length (filter (\<lambda>q. page q < P) batch) + length (of_page page P batch)"
      by (induction batch) auto
    with Suc show ?case by simp
  qed simp
  moreover have "filter (\<lambda>q. page q < P) batch = batch" using assms by (simp add: filter_id_conv)
  ultimately show ?thesis by simp
qed

lemma matrix_bin_by_page_concat:
  assumes "length batch \<le> length binned"
  shows "take (length batch) (fst (matrix_bin_by_page batch binned)) =
      concat (map (\<lambda>p. of_page query_page p batch) [0..<MATRIX_PAGE_COUNT])"
    and "snd (matrix_bin_by_page batch binned) =
      map (\<lambda>p. before_page query_page p batch) [0..<Suc MATRIX_PAGE_COUNT]"
    and "length (fst (matrix_bin_by_page batch binned)) = length binned"
proof -
  let ?pg = query_page and ?P = MATRIX_PAGE_COUNT
  let ?off = "\<lambda>p. before_page ?pg p batch" and ?f = "\<lambda>p. of_page ?pg p batch"
  have pages: "\<forall>q \<in> set batch. ?pg q < ?P" by (simp add: query_page_def matrix_page_of_less)
  note total = before_page_total [OF pages]
  have off: "bin_offsets ?P (bin_counts ?P ?pg batch) = map ?off [0..<Suc ?P]"
    using bin_counts_nth(1) [OF _ pages] by (intro bin_offsets_nth) simp
  obtain b c where s: "bin_scatter ?pg batch (binned, map ?off [0..<?P]) = (b, c)" by fastforce
  have bin: "matrix_bin_by_page batch binned = (b, map ?off [0..<Suc ?P])"
    using s by (simp add: matrix_bin_by_page_def Let_def off take_map)
  have inv: "length b = length binned"
    "\<And>p j. p < ?P \<Longrightarrow> j < length (?f p) \<Longrightarrow> b ! (?off p + j) = ?f p ! j"
    using bin_scatter_inv [OF pages assms total, of batch "[]" b c] s by auto
  show "snd (matrix_bin_by_page batch binned) = map ?off [0..<Suc ?P]" by (simp add: bin)
  show "length (fst (matrix_bin_by_page batch binned)) = length binned" by (simp add: bin inv(1))
  show "take (length batch) (fst (matrix_bin_by_page batch binned)) = concat (map ?f [0..<?P])"
  proof (rule nth_equalityI)
    have len: "length (concat (map ?f [0..<?P])) = length batch"
      using total before_page_concat [of ?pg ?P batch] by simp
    then show "length (take (length batch) (fst (matrix_bin_by_page batch binned))) = length (concat (map ?f [0..<?P]))"
      using assms inv(1) by (simp add: bin)
    fix i assume "i < length (take (length batch) (fst (matrix_bin_by_page batch binned)))"
    then have i: "i < length batch" by simp
    then obtain p j where pj: "p < ?P" "j < length (?f p)" "i = length (concat (map ?f [0..<p])) + j"
      using concat_upt_index [of i ?f ?P] len by auto
    then have "b ! i = ?f p ! j" using inv(2) [OF pj(1,2)] before_page_concat [of ?pg p batch] by simp
    then show "take (length batch) (fst (matrix_bin_by_page batch binned)) ! i = concat (map ?f [0..<?P]) ! i"
      using i pj concat_upt_nth [of p ?P j ?f] by (simp add: bin)
  qed
qed

lemma pages_mset: "mset (concat (map (\<lambda>p. of_page query_page p batch) [0..<MATRIX_PAGE_COUNT])) = mset batch"
proof -
  have "mset (concat (map (\<lambda>p. of_page query_page p batch) [0..<P])) = mset (filter (\<lambda>q. query_page q < P) batch)" for P
  proof (induction P)
    case (Suc P)
    have "mset (filter (\<lambda>q. query_page q < Suc P) batch) =
        mset (filter (\<lambda>q. query_page q < P) batch) + mset (of_page query_page P batch)"
      by (induction batch) auto
    with Suc show ?case by simp
  qed simp
  moreover have "filter (\<lambda>q. query_page q < MATRIX_PAGE_COUNT) batch = batch"
    by (simp add: query_page_def matrix_page_of_less)
  ultimately show ?thesis by metis
qed

section \<open>Properties\<close>

text \<open>
  The binning is a stable partition of the batch. Into a buffer that is large enough, it writes
  the queries grouped by owning page, page after page, those of a page in their batch order; none is
  lost or duplicated; and \<open>offsets\<close> delimits the pages: the slice of a page is the queries that page
  owns.
\<close>

theorem bin_by_page_stable_partition:
  assumes "length batch \<le> length buf" "matrix_bin_by_page batch buf = (binned, offsets)"
  shows "mset (take (length batch) binned) = mset batch \<and>
    (\<forall>p < MATRIX_PAGE_COUNT.
       take (offsets ! Suc p - offsets ! p) (drop (offsets ! p) binned) = filter (\<lambda>q. query_page q = p) batch) \<and>
    offsets ! 0 = 0 \<and> offsets ! MATRIX_PAGE_COUNT = length batch \<and> length binned = length buf"
proof -
  let ?f = "\<lambda>p. of_page query_page p batch" and ?P = MATRIX_PAGE_COUNT
  have pages: "\<forall>q \<in> set batch. query_page q < ?P" by (simp add: query_page_def matrix_page_of_less)
  have b: "take (length batch) binned = concat (map ?f [0..<?P])"
    and off: "offsets = map (\<lambda>p. before_page query_page p batch) [0..<Suc ?P]"
    and len: "length binned = length buf"
    using matrix_bin_by_page_concat [OF assms(1)] assms(2) by simp_all
  have offp: "offsets ! p = before_page query_page p batch" if "p \<le> ?P" for p
    using that by (simp add: off nth_append)
  have "mset (take (length batch) binned) = mset batch" unfolding b by (rule pages_mset)
  moreover have "take (offsets ! Suc p - offsets ! p) (drop (offsets ! p) binned) = ?f p" if p: "p < ?P" for p
  proof -
    have d: "offsets ! Suc p - offsets ! p = length (?f p)" using p by (simp add: offp)
    have split: "concat (map ?f [0..<?P]) = concat (map ?f [0..<p]) @ ?f p @ concat (map ?f [Suc p..<?P])"
      using p by (metis (no_types, lifting) concat.simps(2) concat_append le_add1 list.simps(9) map_append
          upt_add_eq_append less_imp_add_positive upt_conv_Cons zero_le plus_nat.add_0)
    have o: "offsets ! p = length (concat (map ?f [0..<p]))" using p by (simp add: offp before_page_concat)
    have "offsets ! p + length (?f p) \<le> length batch"
      using b split assms(1) len by (metis (no_types, lifting) o add.assoc length_append length_take le_add1 min.absorb2)
    then have "take (length (?f p)) (drop (offsets ! p) binned) =
        take (length (?f p)) (drop (offsets ! p) (take (length batch) binned))"
      by (simp add: drop_take min_def)
    also have "\<dots> = ?f p" by (simp only: b split o drop_upto_append take_upto_append)
    finally show ?thesis by (simp only: d)
  qed
  moreover have "offsets ! 0 = 0" "offsets ! ?P = length batch"
    using offp [of 0] offp [of ?P] before_page_total [OF pages] by simp_all
  ultimately show ?thesis using len by blast
qed

theorem bin_by_page_stable_partition_witness:
  "let q = \<lambda>k. \<lparr>query_id = k, timestamp_us = 0, transaction_id = 0, opcode = OP_WRITE, payload_size = 0, payload = []\<rparr>
   in mset (take 3 (fst (matrix_bin_by_page [q 70, q 1, q 64] [q 0, q 0, q 0]))) = {#q 70, q 1, q 64#}"
proof -
  define q where "q k = \<lparr>query_id = k, timestamp_us = 0, transaction_id = 0, opcode = OP_WRITE, payload_size = 0, payload = []\<rparr>"
    for k :: u64
  have "length [q 70, q 1, q 64] \<le> length [q 0, q 0, q 0]" by simp
  from bin_by_page_stable_partition [OF this surjective_pairing]
  have "mset (take (length [q 70, q 1, q 64]) (fst (matrix_bin_by_page [q 70, q 1, q 64] [q 0, q 0, q 0]))) =
      mset [q 70, q 1, q 64]" by blast
  then show ?thesis unfolding Let_def q_def by (simp add: numeral_3_eq_3)
qed

end
