(* ===== verification/Point_Engine.thy ===== *)
theory Point_Engine
  imports KV_Store Batch "HOL-Library.Monad_Syntax"
begin

text \<open>
  The point-op half of \<open>CPUMockEngine\<close> (\<open>compute_mock.cpp\<close>): the store with its ordered index, the
  write-ahead log, transactions, checkpoints, recovery in the constructor, batches and range scans.
  The state is the record of the members these operations use; the disk is one of its components.
  \<open>None\<close> is a failed assertion or \<open>std::abort\<close>.
\<close>

section \<open>The state\<close>

record point_engine =
  pe_kv :: kvstore
  pe_key_index :: "(u64 \<times> u64) list"
  pe_cold_store :: "cold_store option"
  pe_checkpoint_path :: string
  pe_checkpoints :: u64
  pe_binned :: "database_query list"
  pe_offsets :: "nat list"
  pe_reads :: u64
  pe_writes :: u64
  pe_commits :: u64
  pe_store_overflows :: u64
  pe_txn_buf :: "(u64 \<times> u64) list"
  pe_in_txn :: bool
  pe_transactions_committed :: u64
  pe_transactions_rolled_back :: u64
  pe_disk :: disk

definition zero_query :: database_query where
  "zero_query = \<lparr>query_id = 0, timestamp_us = 0, transaction_id = 0, opcode = 0, payload_size = 0, payload = replicate 32 0\<rparr>"

definition MATRIX_CKPT_MAGIC :: u32 where "MATRIX_CKPT_MAGIC = 0x4D434B50"

section \<open>Checkpoints\<close>

text \<open>\<open>save_checkpoint\<close>: the header and every occupied slot to a temporary file, which then replaces \<open>path\<close>.\<close>

definition ckpt_items :: "kvstore \<Rightarrow> u8 list list" where
  "ckpt_items kv = u32_bytes MATRIX_CKPT_MAGIC # u64_bytes (kv_size kv) #
     concat (map (\<lambda>(k, v). [u64_bytes k, u64_bytes v]) (kv_entries kv))"

definition save_checkpoint_run :: "string \<Rightarrow> point_engine \<Rightarrow> point_engine run" where
  "save_checkpoint_run path pe =
     (let tmp = path @ ''.tmp'' in
      case fopen_wb tmp (pe_disk pe) of None \<Rightarrow> ([], None)
      | Some d \<Rightarrow>
          (let (ok, s) = stream_write tmp (ckpt_items (pe_kv pe)) ([], d);
               d' = snd (stream_close tmp s);
               ds = d # stream_write_cuts tmp (ckpt_items (pe_kv pe)) ([], d) @ stream_close_cuts tmp s in
           if \<not> ok then (ds, None)
           else (case rename_file tmp path d' of None \<Rightarrow> (ds, None)
                 | Some d'' \<Rightarrow> (ds @ [d''], Some (pe\<lparr>pe_disk := d''\<rparr>)))))"

definition save_checkpoint :: "string \<Rightarrow> point_engine \<Rightarrow> point_engine option" where
  "save_checkpoint path pe = snd (save_checkpoint_run path pe)"

fun load_entries :: "nat \<Rightarrow> u8 list \<Rightarrow> kvstore \<Rightarrow> kvstore option" where
  "load_entries 0 bs kv = Some kv"
| "load_entries (Suc n) bs kv =
     (case fread 8 bs of None \<Rightarrow> None | Some (k, bs1) \<Rightarrow>
        (case fread 8 bs1 of None \<Rightarrow> None | Some (v, bs2) \<Rightarrow>
           load_entries n bs2 (snd (kv_put (le_decode k) (le_decode v) kv))))"

definition load_checkpoint :: "string \<Rightarrow> point_engine \<Rightarrow> (bool \<times> point_engine) option" where
  "load_checkpoint path pe =
     (case dk_files (pe_disk pe) path of
        None \<Rightarrow> Some (False, pe)
      | Some bs \<Rightarrow>
          (case fread 4 bs of None \<Rightarrow> None | Some (m, bs1) \<Rightarrow>
             if le_decode m \<noteq> MATRIX_CKPT_MAGIC then None else
             (case fread 8 bs1 of None \<Rightarrow> None | Some (c, bs2) \<Rightarrow>
                map_option (\<lambda>kv. (True, pe\<lparr>pe_kv := kv\<rparr>))
                  (load_entries (unat (le_decode c :: u64)) bs2 (pe_kv pe)))))"

section \<open>Construction and recovery\<close>

text \<open>The 1.5 MB of the engine's own table are taken to be granted.\<close>

definition replay_puts :: "(u64 \<times> u64) list \<Rightarrow> kvstore \<Rightarrow> kvstore" where
  "replay_puts kvs kv = fold (\<lambda>(k, v) kv. snd (kv_put k v kv)) kvs kv"

definition engine_open :: "string \<Rightarrow> sync_policy \<Rightarrow> disk \<Rightarrow> point_engine option" where
  "engine_open wal_path sync d =
     do {
       kv \<leftarrow> made (KVStore (\<lambda>_. True) MATRIX_STORE_SLOTS);
       let pe = \<lparr>pe_kv = kv, pe_key_index = [], pe_cold_store = None, pe_checkpoint_path = [], pe_checkpoints = 0,
         pe_binned = replicate MATRIX_BATCH_MAX zero_query, pe_offsets = replicate (MATRIX_PAGE_COUNT + 1) 0,
         pe_reads = 0, pe_writes = 0, pe_commits = 0, pe_store_overflows = 0, pe_txn_buf = [], pe_in_txn = False,
         pe_transactions_committed = 0, pe_transactions_rolled_back = 0, pe_disk = d\<rparr>;
       if wal_path = [] then Some pe else do {
         (_, pe1) \<leftarrow> load_checkpoint (wal_path @ ''.ckpt'') (pe\<lparr>pe_checkpoint_path := wal_path @ ''.ckpt''\<rparr>);
         (cs, d1) \<leftarrow> ColdStore wal_path sync (pe_disk pe1);
         let kv1 = replay_puts (replay cs d1) (pe_kv pe1);
         Some (pe1\<lparr>pe_cold_store := Some cs, pe_disk := d1, pe_kv := kv1,
                   pe_key_index := fold (\<lambda>(k, v). om_upd k v) (kv_entries kv1) (pe_key_index pe1)\<rparr>)
       }
     }"

section \<open>Writes, transactions and batches\<close>

definition apply_committed_write :: "u64 \<Rightarrow> u64 \<Rightarrow> point_engine \<Rightarrow> point_engine option" where
  "apply_committed_write key v pe =
     (let pe1 = pe\<lparr>pe_writes := pe_writes pe + 1\<rparr>; (ok, kv') = kv_put key v (pe_kv pe1) in
      if ok then Some (pe1\<lparr>pe_kv := kv', pe_commits := pe_commits pe1 + 1,
                           pe_key_index := om_upd key v (pe_key_index pe1)\<rparr>)
      else None)"

text \<open>A call on \<open>cold_store_\<close> when there is one.\<close>

definition with_log :: "(cold_store \<Rightarrow> disk \<Rightarrow> cold_store \<times> disk) \<Rightarrow> point_engine \<Rightarrow> point_engine" where
  "with_log f pe =
     (case pe_cold_store pe of None \<Rightarrow> pe
      | Some cs \<Rightarrow> let (cs', d') = f cs (pe_disk pe) in pe\<lparr>pe_cold_store := Some cs', pe_disk := d'\<rparr>)"

definition txn_begin :: "point_engine \<Rightarrow> point_engine option" where
  "txn_begin pe = (if pe_in_txn pe then None else Some (pe\<lparr>pe_txn_buf := [], pe_in_txn := True\<rparr>))"

definition txn_put :: "u64 \<Rightarrow> u64 \<Rightarrow> point_engine \<Rightarrow> point_engine option" where
  "txn_put key v pe =
     (if \<not> pe_in_txn pe then None else Some (pe\<lparr>pe_txn_buf := pe_txn_buf pe @ [(key, v)]\<rparr>))"

definition commit :: "point_engine \<Rightarrow> point_engine option" where
  "commit pe =
     (if \<not> pe_in_txn pe then None
      else
        let pe1 = with_log append_commit (fold (\<lambda>(k, v). with_log (append_txn_put k v)) (pe_txn_buf pe) pe) in
        do {
          pe2 \<leftarrow> opt_fold (\<lambda>(k, v). apply_committed_write k v) (pe_txn_buf pe1) pe1;
          Some (pe2\<lparr>pe_in_txn := False, pe_transactions_committed := pe_transactions_committed pe2 + 1,
                    pe_txn_buf := []\<rparr>)
        })"

definition rollback :: "point_engine \<Rightarrow> point_engine option" where
  "rollback pe =
     (if \<not> pe_in_txn pe then None
      else Some (pe\<lparr>pe_in_txn := False, pe_transactions_rolled_back := pe_transactions_rolled_back pe + 1,
                    pe_txn_buf := []\<rparr>))"

definition checkpoint_run :: "point_engine \<Rightarrow> point_engine run" where
  "checkpoint_run pe =
     (if pe_in_txn pe then ([], None)
      else case pe_cold_store pe of None \<Rightarrow> ([], Some pe)
      | Some cs \<Rightarrow>
          run_bind (save_checkpoint_run (pe_checkpoint_path pe) pe) (\<lambda>pe1.
            run_bind (wal_truncate_run cs (pe_disk pe1)) (\<lambda>(cs', d').
              ([], Some (pe1\<lparr>pe_cold_store := Some cs', pe_disk := d', pe_checkpoints := pe_checkpoints pe1 + 1\<rparr>)))))"

definition checkpoint :: "point_engine \<Rightarrow> point_engine option" where
  "checkpoint pe = snd (checkpoint_run pe)"

definition shutdown :: "point_engine \<Rightarrow> point_engine option" where
  "shutdown pe =
     do {
       pe1 \<leftarrow> (if pe_in_txn pe then rollback pe else Some pe);
       (if pe_cold_store pe1 \<noteq> None then checkpoint pe1 else Some pe1)
     }"

definition wal_records :: "point_engine \<Rightarrow> u64" where
  "wal_records pe = (case pe_cold_store pe of None \<Rightarrow> 0 | Some cs \<Rightarrow> cs_records_written cs)"

definition durability_level :: "point_engine \<Rightarrow> sync_policy" where
  "durability_level pe = (case pe_cold_store pe of None \<Rightarrow> SYNC_OFF | Some cs \<Rightarrow> cs_policy cs)"

text \<open>One query of a batch, at its place in the binned buffer.\<close>

definition point_op :: "nat \<Rightarrow> point_engine \<Rightarrow> point_engine option" where
  "point_op j pe =
     (let q = pe_binned pe ! j in
      if opcode q = OP_READ then
        let v = (case kv_get (query_id q) (pe_kv pe) of None \<Rightarrow> 0 | Some v \<Rightarrow> v) in
        Some (pe\<lparr>pe_binned := (pe_binned pe)[j := q\<lparr>transaction_id := v\<rparr>], pe_reads := pe_reads pe + 1\<rparr>)
      else if opcode q = OP_WRITE then
        apply_committed_write (query_id q) (query_id q) (with_log (append_put (query_id q) (query_id q)) pe)
      else Some pe)"

definition execute_batch :: "database_query list \<Rightarrow> point_engine \<Rightarrow> point_engine option" where
  "execute_batch batch pe =
     (if batch = [] then Some pe
      else
        let (binned, offsets) = matrix_bin_by_page (take MATRIX_BATCH_MAX batch) (pe_binned pe) in
        opt_fold (\<lambda>page. opt_fold point_op [offsets ! page ..< offsets ! Suc page]) [0..<MATRIX_PAGE_COUNT]
          (pe\<lparr>pe_binned := binned, pe_offsets := offsets\<rparr>))"

section \<open>Reads\<close>

definition kv_range :: "u64 \<Rightarrow> u64 \<Rightarrow> point_engine \<Rightarrow> (u64 \<times> u64) list" where
  "kv_range lo hi pe = filter (\<lambda>(k, v). lo \<le> k \<and> k \<le> hi) (kv_entries (pe_kv pe))"

definition kv_range_sorted :: "u64 \<Rightarrow> u64 \<Rightarrow> point_engine \<Rightarrow> (u64 \<times> u64) list" where
  "kv_range_sorted lo hi pe =
     takeWhile (\<lambda>(k, v). k \<le> hi) (dropWhile (\<lambda>(k, v). k < lo) (pe_key_index pe))"

definition store_checksum :: "point_engine \<Rightarrow> u64" where
  "store_checksum pe = kv_checksum (pe_kv pe)"


section \<open>The invariant\<close>

text \<open>
  In memory: the store satisfies its invariant, the ordered index holds the same map in ascending
  order, and the batch buffer has its size. On disk: the log is a sequence of committed groups, and
  the checkpoint with the log applied on top is the map \<open>m\<close>.
\<close>

abbreviation pe_map :: "point_engine \<Rightarrow> u64 \<Rightarrow> u64 option" where
  "pe_map pe \<equiv> kvm.contents (pe_kv pe)"

definition mem_ok :: "point_engine \<Rightarrow> bool" where
  "mem_ok pe \<longleftrightarrow> kv_inv (pe_kv pe) \<and> length (kv_slots (pe_kv pe)) = 65536 \<and>
     sorted_wrt (<) (map fst (pe_key_index pe)) \<and> map_of (pe_key_index pe) = pe_map pe \<and>
     length (pe_binned pe) = MATRIX_BATCH_MAX"

definition ckpt_bytes :: "(u64 \<times> u64) list \<Rightarrow> u8 list" where
  "ckpt_bytes kvs = u32_bytes MATRIX_CKPT_MAGIC @ u64_bytes (of_nat (length kvs)) @
     concat (map (\<lambda>(k, v). u64_bytes k @ u64_bytes v) kvs)"

definition ckpt_holds :: "disk \<Rightarrow> string \<Rightarrow> (u64 \<rightharpoonup> u64) \<Rightarrow> bool" where
  "ckpt_holds d p m \<longleftrightarrow>
     (case dk_files d p of None \<Rightarrow> m = Map.empty
      | Some bs \<Rightarrow> \<exists>kvs. bs = ckpt_bytes kvs \<and> distinct (map fst kvs) \<and> length kvs \<le> 65536 \<and> m = map_of kvs)"

abbreviation group_writes :: "wal_group list \<Rightarrow> (u64 \<times> u64) list" where
  "group_writes gs \<equiv> concat (map group_effect gs)"

definition durable :: "string \<Rightarrow> disk \<Rightarrow> (u64 \<rightharpoonup> u64) \<Rightarrow> bool" where
  "durable wal d m \<longleftrightarrow> (\<exists>gs m0. file_bytes wal d = log_bytes (groups_ops gs) \<and>
     ckpt_holds d (wal @ ''.ckpt'') m0 \<and> m = m0 ++ map_of (rev (group_writes gs)))"

section \<open>Recovery\<close>

lemma replay_puts_all: "replay_puts = kvm.put_all"
  by (simp add: fun_eq_iff replay_puts_def kvm.put_all_def)

lemma round_up_store_slots: "round_up_pow2 65536 = Some 65536"
  by code_simp

lemma KVStore_slots:
  obtains kv where "made (KVStore (\<lambda>_. True) MATRIX_STORE_SLOTS) = Some kv" "kv_inv kv" "length (kv_slots kv) = 65536"
    "kvm.contents kv = Map.empty"
proof -
  let ?kv = "\<lparr>kv_mask = 65536 - 1, kv_size = 0, kv_slots = replicate (unat (65536::u64)) empty_slot\<rparr>"
  have "made (KVStore (\<lambda>_. True) MATRIX_STORE_SLOTS) = Some ?kv"
    by (simp add: made_def KVStore_def MATRIX_STORE_SLOTS_def round_up_store_slots max_slots_def SLOT_BYTES_def)
  moreover have inv: "kv_inv ?kv" using kv_inv_fresh [of 16] by simp
  moreover have "kvm.contents ?kv = Map.empty"
    unfolding kvm.contents_entries [OF inv] kv_fresh_empty by simp
  ultimately show thesis by (intro that) simp_all
qed

lemma load_entries_all:
  "load_entries (length kvs) (concat (map (\<lambda>(k, v). u64_bytes k @ u64_bytes v) kvs)) kv =
     Some (kvm.put_all kvs kv)"
  by (induction kvs arbitrary: kv) auto

lemma card_dom_map_le: "card (dom (map_of kvs)) \<le> length kvs"
proof -
  have "card (dom (map_of kvs)) \<le> card (set (map fst kvs))" by (simp add: dom_map_of_conv_image_fst)
  also have "\<dots> \<le> length (map fst kvs)" by (rule card_length)
  finally show ?thesis by simp
qed

lemma load_checkpoint_holds:
  assumes "ckpt_holds (pe_disk pe) p m" "kv_inv (pe_kv pe)" "length (kv_slots (pe_kv pe)) = 65536"
    "pe_map pe = Map.empty"
  obtains b kv where "load_checkpoint p pe = Some (b, pe\<lparr>pe_kv := kv\<rparr>)" "kv_inv kv"
    "length (kv_slots kv) = 65536" "kvm.contents kv = m"
proof (cases "dk_files (pe_disk pe) p")
  case None
  then have "load_checkpoint p pe = Some (False, pe\<lparr>pe_kv := pe_kv pe\<rparr>)" by (simp add: load_checkpoint_def)
  then show thesis by (rule that) (use assms None in \<open>simp_all add: ckpt_holds_def\<close>)
next
  case (Some bs)
  then obtain kvs where kvs: "bs = ckpt_bytes kvs" "distinct (map fst kvs)" "length kvs \<le> 65536" "m = map_of kvs"
    using assms(1) by (auto simp: ckpt_holds_def)
  let ?kv = "kvm.put_all kvs (pe_kv pe)"
  have len: "unat (of_nat (length kvs) :: u64) = length kvs" using kvs(3) by (intro unat_of_nat_small) simp
  have load: "load_checkpoint p pe = Some (True, pe\<lparr>pe_kv := ?kv\<rparr>)"
    by (simp add: load_checkpoint_def Some kvs(1) ckpt_bytes_def len load_entries_all)
  have "card (dom (pe_map pe) \<union> fst ` set kvs) \<le> length (kv_slots (pe_kv pe))"
    using assms(3,4) kvs(2,3) distinct_card [of "map fst kvs"] by simp
  then have "kvm.contents ?kv = map_of (rev kvs)"
    using kvm.contents_put_all [OF assms(2)] assms(4) by simp
  also have "\<dots> = m" using kvs(2,4) map_of_rev_distinct [OF kvs(2)] by simp
  finally show thesis
    using load kvm.put_all_invar [OF assms(2)] kvm.put_all_cap [OF assms(2)] assms(3) by (intro that) simp_all
qed

lemma index_of_entries:
  assumes "kv_inv kv"
  shows "sorted_wrt (<) (map fst (fold (\<lambda>(k, v). om_upd k v) (kv_entries kv) []))"
    "map_of (fold (\<lambda>(k, v). om_upd k v) (kv_entries kv) []) = kvm.contents kv"
  using fold_om_upd [of "[]" "kv_entries kv"] kvm.contents_entries [OF assms]
    map_of_rev_distinct [OF distinct_kv_entries [OF assms]] by simp_all


text \<open>
  Opening an engine on a disk: the recovered map is the checkpoint with the replayed writes on
  top, for any log file, torn or not.
\<close>

lemma engine_open_recovers:
  assumes "ckpt_holds d (wal @ ''.ckpt'') m0" "dk_writable d wal" "wal \<noteq> []"
    and kvs: "kvs = replay_loop [] (file_bytes wal d)" "card (dom m0 \<union> fst ` set kvs) \<le> 65536"
  obtains pe where "engine_open wal sync d = Some pe" "mem_ok pe" "pe_map pe = m0 ++ map_of (rev kvs)"
    "pe_cold_store pe = Some \<lparr>cs_path = wal, cs_policy = sync, cs_records_written = 0\<rparr>"
    "pe_checkpoint_path pe = wal @ ''.ckpt''" "\<not> pe_in_txn pe"
    "pe_disk pe = d\<lparr>dk_files := (dk_files d)(wal \<mapsto> file_bytes wal d)\<rparr>"
proof -
  obtain kv where kv: "made (KVStore (\<lambda>_. True) MATRIX_STORE_SLOTS) = Some kv" "kv_inv kv" "length (kv_slots kv) = 65536"
    "kvm.contents kv = Map.empty" by (rule KVStore_slots)
  define pe where "pe = \<lparr>pe_kv = kv, pe_key_index = [], pe_cold_store = None, pe_checkpoint_path = wal @ ''.ckpt'',
         pe_checkpoints = 0,
         pe_binned = replicate MATRIX_BATCH_MAX zero_query, pe_offsets = replicate (MATRIX_PAGE_COUNT + 1) 0,
         pe_reads = 0, pe_writes = 0, pe_commits = 0, pe_store_overflows = 0, pe_txn_buf = [], pe_in_txn = False,
         pe_transactions_committed = 0, pe_transactions_rolled_back = 0, pe_disk = d\<rparr>"
  obtain b kv0 where l: "load_checkpoint (wal @ ''.ckpt'') pe = Some (b, pe\<lparr>pe_kv := kv0\<rparr>)" "kv_inv kv0"
    "length (kv_slots kv0) = 65536" "kvm.contents kv0 = m0"
    by (rule load_checkpoint_holds [of pe "wal @ ''.ckpt''" m0]) (use kv assms(1) in \<open>simp_all add: pe_def\<close>)
  let ?cs = "\<lparr>cs_path = wal, cs_policy = sync, cs_records_written = 0\<rparr>"
  let ?d = "d\<lparr>dk_files := (dk_files d)(wal \<mapsto> file_bytes wal d)\<rparr>"
  have rep: "replay ?cs ?d = kvs" by (simp add: replay_def kvs(1))
  let ?kv = "kvm.put_all kvs kv0"
  let ?pe = "pe\<lparr>pe_cold_store := Some ?cs, pe_disk := ?d, pe_kv := ?kv,
      pe_key_index := fold (\<lambda>(k, v). om_upd k v) (kv_entries ?kv) []\<rparr>"
  have open_eq: "engine_open wal sync d = Some ?pe"
    using l(1) assms(2,3) rep unfolding pe_def
    by (simp add: engine_open_def kv(1) ColdStore_def fopen_ab_def replay_puts_all Let_def)
  have inv: "kv_inv ?kv" "length (kv_slots ?kv) = 65536"
    using kvm.put_all_invar [OF l(2)] kvm.put_all_cap [OF l(2)] l(3) by simp_all
  have c: "kvm.contents ?kv = m0 ++ map_of (rev kvs)"
    using kvm.contents_put_all [OF l(2)] kvs(2) l(3,4) by simp
  show thesis
    by (rule that [OF open_eq])
      (use inv c index_of_entries [OF inv(1)] in \<open>simp_all add: mem_ok_def pe_def\<close>)
qed

lemma dom_overlay: "dom (m0 ++ map_of (rev kvs)) = dom m0 \<union> fst ` set kvs"
  by (simp add: dom_map_of_conv_image_fst Un_commute)

lemma engine_open_durable:
  assumes "durable wal d m" "card (dom m) \<le> 65536" "dk_writable d wal" "wal \<noteq> []"
  obtains pe where "engine_open wal sync d = Some pe" "mem_ok pe" "pe_map pe = m" "\<not> pe_in_txn pe"
    "pe_cold_store pe = Some \<lparr>cs_path = wal, cs_policy = sync, cs_records_written = 0\<rparr>"
    "pe_checkpoint_path pe = wal @ ''.ckpt''" "pe_disk pe = d\<lparr>dk_files := (dk_files d)(wal \<mapsto> file_bytes wal d)\<rparr>"
proof -
  obtain gs m0 where d: "file_bytes wal d = log_bytes (groups_ops gs)" "ckpt_holds d (wal @ ''.ckpt'') m0"
    "m = m0 ++ map_of (rev (group_writes gs))" using assms(1) by (auto simp: durable_def)
  have kvs: "group_writes gs = replay_loop [] (file_bytes wal d)"
    by (simp add: d(1) replay_loop_log log_effect_groups)
  have fits: "card (dom m0 \<union> fst ` set (group_writes gs)) \<le> 65536"
    using assms(2) unfolding d(3) dom_overlay .
  show thesis
    by (rule engine_open_recovers [OF d(2) assms(3,4) kvs fits, of sync]) (rule that, simp_all add: d(3))
qed


section \<open>Logging and applying writes\<close>

definition log_append :: "wal_op list \<Rightarrow> point_engine \<Rightarrow> point_engine" where
  "log_append ops = fold (\<lambda>x. with_log (\<lambda>cs d. wal_append x (cs, d))) ops"

lemma log_append_eq:
  "log_append ops pe =
     (case pe_cold_store pe of None \<Rightarrow> pe
      | Some cs \<Rightarrow> let (cs', d') = fold wal_append ops (cs, pe_disk pe) in pe\<lparr>pe_cold_store := Some cs', pe_disk := d'\<rparr>)"
proof (induction ops arbitrary: pe)
  case Nil
  then show ?case by (simp add: log_append_def split: option.splits)
next
  case (Cons x ops)
  have "log_append (x # ops) pe = log_append ops (with_log (\<lambda>cs d. wal_append x (cs, d)) pe)"
    by (simp add: log_append_def)
  then show ?case
    by (simp add: Cons.IH with_log_def case_prod_unfold Let_def split: option.splits)
qed

lemma log_append_put: "with_log (append_put k v) = log_append [Put k v]"
  by (simp add: log_append_def fun_eq_iff)

lemma log_append_txn:
  "with_log append_commit (fold (\<lambda>(k, v). with_log (append_txn_put k v)) kvs pe) = log_append (group_ops (Txn kvs)) pe"
proof -
  have "fold (\<lambda>(k, v). with_log (append_txn_put k v)) kvs pe = log_append (map (\<lambda>(k, v). TxnPut k v) kvs) pe" for pe
    by (induction kvs arbitrary: pe) (auto simp: log_append_def)
  then show ?thesis by (simp add: log_append_def)
qed

lemma fold_wal_append_env:
  assumes "fold wal_append ops (cs, d) = (cs', d')"
  shows "cs_path cs' = cs_path cs" "dk_quota d' = dk_quota d" "dk_writable d' = dk_writable d" "dk_eager d' = dk_eager d"
    "q \<noteq> cs_path cs \<Longrightarrow> dk_files d' q = dk_files d q"
proof -
  have "cs_path (fst s) = cs_path cs \<and> dk_quota (snd s) = dk_quota d \<and> dk_writable (snd s) = dk_writable d \<and>
      dk_eager (snd s) = dk_eager d \<and> (q \<noteq> cs_path cs \<longrightarrow> dk_files (snd s) q = dk_files d q)"
    if "s = fold wal_append ops (cs, d)" for s
    using that
  proof (induction ops arbitrary: s rule: rev_induct)
    case (snoc x ops)
    obtain cs1 d1 where s1: "fold wal_append ops (cs, d) = (cs1, d1)" by fastforce
    then show ?case using snoc.IH [OF refl] append_payload_other [of q cs1 "op_payload x" d1]
      by (simp add: snoc.prems wal_append_bytes)
  qed simp
  from this [OF refl] assms show "cs_path cs' = cs_path cs" "dk_quota d' = dk_quota d" "dk_writable d' = dk_writable d"
    "dk_eager d' = dk_eager d" "q \<noteq> cs_path cs \<Longrightarrow> dk_files d' q = dk_files d q" by simp_all
qed

lemma ckpt_path_ne: "wal @ ''.ckpt'' \<noteq> wal" "wal @ ''.ckpt.tmp'' \<noteq> wal" "wal @ ''.ckpt.tmp'' \<noteq> wal @ ''.ckpt''"
  by simp_all

lemma durable_append:
  assumes "durable (cs_path cs) d m" "fold wal_append (groups_ops gs) (cs, d) = (cs', d')"
    and "length (file_bytes (cs_path cs) d) + length (log_bytes (groups_ops gs)) \<le> dk_quota d (cs_path cs)"
  shows "durable (cs_path cs) d' (m ++ map_of (rev (group_writes gs)))"
    "length (file_bytes (cs_path cs) d') = length (file_bytes (cs_path cs) d) + length (log_bytes (groups_ops gs))"
proof -
  obtain gs0 m0 where d: "file_bytes (cs_path cs) d = log_bytes (groups_ops gs0)"
    "ckpt_holds d (cs_path cs @ ''.ckpt'') m0" "m = m0 ++ map_of (rev (group_writes gs0))"
    using assms(1) by (auto simp: durable_def)
  have f: "file_bytes (cs_path cs) d' = log_bytes (groups_ops (gs0 @ gs))"
    using fold_wal_append [OF d(1), of "groups_ops gs"] assms(2,3) d(1) by (simp add: groups_ops_def)
  have "ckpt_holds d' (cs_path cs @ ''.ckpt'') m0"
    using d(2) fold_wal_append_env(5) [OF assms(2), of "cs_path cs @ ''.ckpt''"] by (simp add: ckpt_holds_def)
  with f show "durable (cs_path cs) d' (m ++ map_of (rev (group_writes gs)))"
    unfolding durable_def d(3) by (intro exI [of _ "gs0 @ gs"] exI [of _ m0]) simp
  show "length (file_bytes (cs_path cs) d') = length (file_bytes (cs_path cs) d) + length (log_bytes (groups_ops gs))"
    by (simp add: f d(1) groups_ops_def)
qed

text \<open>What applying writes leaves alone.\<close>

definition same_env :: "point_engine \<Rightarrow> point_engine \<Rightarrow> bool" where
  "same_env pe pe' \<longleftrightarrow> pe_cold_store pe' = pe_cold_store pe \<and> pe_disk pe' = pe_disk pe \<and>
     pe_checkpoint_path pe' = pe_checkpoint_path pe \<and> pe_in_txn pe' = pe_in_txn pe \<and> pe_txn_buf pe' = pe_txn_buf pe \<and>
     pe_binned pe' = pe_binned pe \<and> pe_reads pe' = pe_reads pe"

lemma apply_committed_write_ok:
  assumes "mem_ok pe" "apply_committed_write k v pe = Some pe'"
  shows "mem_ok pe'" "pe_map pe' = (pe_map pe)(k \<mapsto> v)" "same_env pe pe'"
    "pe_writes pe' = pe_writes pe + 1" "pe_commits pe' = pe_commits pe + 1"
proof -
  have inv: "kv_inv (pe_kv pe)" using assms(1) by (simp add: mem_ok_def)
  have ok: "fst (kv_put k v (pe_kv pe))" and pe': "pe' = pe\<lparr>pe_writes := pe_writes pe + 1, pe_kv := snd (kv_put k v (pe_kv pe)),
      pe_commits := pe_commits pe + 1, pe_key_index := om_upd k v (pe_key_index pe)\<rparr>"
    using assms(2) by (auto simp: apply_committed_write_def Let_def case_prod_unfold split: if_splits)
  show m: "pe_map pe' = (pe_map pe)(k \<mapsto> v)" using kvm.contents_put [OF inv ok] by (simp add: pe')
  show "mem_ok pe'"
    using assms(1) m kvm.put_invar [OF inv] kvm.put_cap [OF inv] unfolding mem_ok_def by (simp add: pe')
qed (use assms(2) in \<open>auto simp: same_env_def apply_committed_write_def Let_def case_prod_unfold split: if_splits\<close>)

lemma apply_committed_write_fits:
  assumes "mem_ok pe" "card (insert k (dom (pe_map pe))) \<le> 65536"
  obtains pe' where "apply_committed_write k v pe = Some pe'"
proof -
  have inv: "kv_inv (pe_kv pe)" "length (kv_slots (pe_kv pe)) = 65536" using assms(1) by (simp_all add: mem_ok_def)
  have "fst (kv_put k v (pe_kv pe))"
    by (rule kvm.put_fits [OF inv(1) _ subset_refl]) (use kvm.finite_dom_contents [OF inv(1)] assms(2) inv(2) in simp_all)
  then show thesis using that by (simp add: apply_committed_write_def Let_def case_prod_unfold)
qed

lemma apply_writes_ok:
  assumes "mem_ok pe" "opt_fold (\<lambda>(k, v). apply_committed_write k v) kvs pe = Some pe'"
  shows "mem_ok pe' \<and> pe_map pe' = pe_map pe ++ map_of (rev kvs) \<and> same_env pe pe'"
  using assms
proof (induction kvs arbitrary: pe)
  case Nil
  then show ?case by (simp add: same_env_def)
next
  case (Cons kv kvs)
  obtain k v where kv: "kv = (k, v)" by (cases kv)
  obtain pe1 where pe1: "apply_committed_write k v pe = Some pe1"
    "opt_fold (\<lambda>(k, v). apply_committed_write k v) kvs pe1 = Some pe'"
    using Cons.prems(2) kv by (auto split: option.splits)
  note ok = apply_committed_write_ok [OF Cons.prems(1) pe1(1)]
  have "(pe_map pe)(k \<mapsto> v) ++ map_of (rev kvs) = pe_map pe ++ map_of (rev (kv # kvs))"
    by (simp add: kv)
  then have "pe_map pe1 ++ map_of (rev kvs) = pe_map pe ++ map_of (rev (kv # kvs))" by (simp only: ok(2))
  then show ?case using Cons.IH [OF ok(1) pe1(2)] ok(3) by (auto simp: same_env_def)
qed


section \<open>Every operation keeps memory and disk in step\<close>

definition pe_ok :: "point_engine \<Rightarrow> bool" where
  "pe_ok pe \<longleftrightarrow> mem_ok pe \<and>
     (\<forall>cs. pe_cold_store pe = Some cs \<longrightarrow>
        cs_path cs \<noteq> [] \<and> pe_checkpoint_path pe = cs_path cs @ ''.ckpt'' \<and>
        durable (cs_path cs) (pe_disk pe) (pe_map pe) \<and>
        dk_writable (pe_disk pe) (cs_path cs) \<and> dk_writable (pe_disk pe) (cs_path cs @ ''.ckpt'') \<and>
        dk_writable (pe_disk pe) (cs_path cs @ ''.ckpt.tmp''))"

text \<open>The disk has room for \<open>n\<close> more bytes of log.\<close>

definition log_room :: "nat \<Rightarrow> point_engine \<Rightarrow> bool" where
  "log_room n pe \<longleftrightarrow> (\<forall>cs. pe_cold_store pe = Some cs \<longrightarrow>
     length (file_bytes (cs_path cs) (pe_disk pe)) + n \<le> dk_quota (pe_disk pe) (cs_path cs))"

lemma log_append_fields [simp]:
  "pe_kv (log_append ops pe) = pe_kv pe" "pe_key_index (log_append ops pe) = pe_key_index pe"
  "pe_checkpoint_path (log_append ops pe) = pe_checkpoint_path pe" "pe_binned (log_append ops pe) = pe_binned pe"
  "pe_in_txn (log_append ops pe) = pe_in_txn pe" "pe_txn_buf (log_append ops pe) = pe_txn_buf pe"
  "pe_reads (log_append ops pe) = pe_reads pe" "pe_writes (log_append ops pe) = pe_writes pe"
  "pe_commits (log_append ops pe) = pe_commits pe" "mem_ok (log_append ops pe) = mem_ok pe"
  by (simp_all add: log_append_eq mem_ok_def case_prod_unfold Let_def split: option.splits)

text \<open>A group of writes that is first logged and then applied.\<close>

lemma logged_writes_ok:
  assumes "pe_ok pe" "log_room (length (log_bytes (groups_ops gs)) + n) pe"
    and "mem_ok pe'" "pe_map pe' = pe_map pe ++ map_of (rev (group_writes gs))"
    and "same_env (log_append (groups_ops gs) pe) pe'"
  shows "pe_ok pe' \<and> log_room n pe'"
proof (cases "pe_cold_store pe")
  case None
  then show ?thesis using assms(3,5) by (simp add: pe_ok_def log_room_def log_append_eq same_env_def)
next
  case (Some cs)
  obtain cs' d' where f: "fold wal_append (groups_ops gs) (cs, pe_disk pe) = (cs', d')" by fastforce
  have pe': "pe_cold_store pe' = Some cs'" "pe_disk pe' = d'" "pe_checkpoint_path pe' = pe_checkpoint_path pe"
    using assms(5) Some f by (simp_all add: same_env_def log_append_eq)
  note env = fold_wal_append_env [OF f]
  have room: "length (file_bytes (cs_path cs) (pe_disk pe)) + (length (log_bytes (groups_ops gs)) + n) \<le> dk_quota (pe_disk pe) (cs_path cs)"
    using assms(2) Some by (simp add: log_room_def)
  have "durable (cs_path cs) (pe_disk pe) (pe_map pe)" using assms(1) Some by (simp add: pe_ok_def)
  note dur = durable_append [OF this f]
  have "durable (cs_path cs) d' (pe_map pe')" unfolding assms(4) using room by (intro dur(1)) simp
  then have "pe_ok pe'" using assms(1,3) Some by (simp add: pe_ok_def pe' env)
  moreover have "log_room n pe'" using room by (simp add: log_room_def pe' env dur(2))
  ultimately show ?thesis ..
qed

lemma commit_ok:
  assumes "pe_ok pe" "log_room (length (log_bytes (group_ops (Txn (pe_txn_buf pe))))) pe" "commit pe = Some pe'"
  shows "pe_ok pe' \<and> pe_map pe' = pe_map pe ++ map_of (rev (pe_txn_buf pe)) \<and> \<not> pe_in_txn pe'"
proof -
  let ?kvs = "pe_txn_buf pe" and ?pe1 = "log_append (group_ops (Txn (pe_txn_buf pe))) pe"
  obtain pe2 where pe2: "opt_fold (\<lambda>(k, v). apply_committed_write k v) ?kvs ?pe1 = Some pe2"
    "pe' = pe2\<lparr>pe_in_txn := False, pe_transactions_committed := pe_transactions_committed pe2 + 1, pe_txn_buf := []\<rparr>"
    using assms(3) unfolding commit_def log_append_txn
    by (auto simp del: group_ops.simps split: if_splits bind_splits)
  have "mem_ok ?pe1" using assms(1) by (simp add: pe_ok_def del: group_ops.simps)
  note w = apply_writes_ok [OF this pe2(1)]
  have gs: "groups_ops [Txn ?kvs] = group_ops (Txn ?kvs)" "group_writes [Txn ?kvs] = ?kvs"
    by (simp_all add: groups_ops_def)
  have m: "pe_map pe2 = pe_map pe ++ map_of (rev ?kvs)" using w by (simp del: group_ops.simps)
  have "pe_ok pe2 \<and> log_room 0 pe2"
    by (rule logged_writes_ok [OF assms(1), of "[Txn ?kvs]"]) (use assms(2) w m in \<open>simp_all only: gs add_0_right\<close>)
  then show ?thesis using m by (simp add: pe2(2) pe_ok_def mem_ok_def)
qed


text \<open>The checkpoint replaces the old one only when it is complete, and only then is the log emptied.\<close>

lemma concat_ckpt_items: "kv_inv kv \<Longrightarrow> concat (ckpt_items kv) = ckpt_bytes (kv_entries kv)"
proof -
  assume inv: "kv_inv kv"
  have "kv_size kv = of_nat (unat (kv_size kv))" by simp
  also have "\<dots> = of_nat (length (kv_entries kv))" by (simp only: kv_size_entries [OF inv])
  finally have size: "kv_size kv = of_nat (length (kv_entries kv))" .
  have "concat (concat (map (\<lambda>(k, v). [u64_bytes k, u64_bytes v]) kvs)) =
      concat (map (\<lambda>(k, v). u64_bytes k @ u64_bytes v) kvs)" for kvs :: "(u64 \<times> u64) list"
    by (induction kvs) auto
  then show ?thesis by (simp add: ckpt_items_def ckpt_bytes_def size)
qed

lemma length_ckpt_bytes: "length (ckpt_bytes kvs) = 12 + 16 * length kvs"
proof -
  have "length (concat (map (\<lambda>(k, v). u64_bytes k @ u64_bytes v) kvs)) = 16 * length kvs"
    by (induction kvs) auto
  then show ?thesis by (simp add: ckpt_bytes_def)
qed

lemma kv_entries_le: "kv_inv kv \<Longrightarrow> length (kv_entries kv) \<le> length (kv_slots kv)"
  by (simp add: kv_entries_def)

lemma ckpt_holds_entries:
  assumes "mem_ok pe" "dk_files d p = Some (ckpt_bytes (kv_entries (pe_kv pe)))"
  shows "ckpt_holds d p (pe_map pe)"
  using assms kv_entries_le [of "pe_kv pe"] distinct_kv_entries [of "pe_kv pe"] kvm.contents_entries [of "pe_kv pe"]
  by (auto simp: ckpt_holds_def mem_ok_def)

lemma save_checkpoint_eq:
  "save_checkpoint path pe =
     (let tmp = path @ ''.tmp'' in
      do {
        d \<leftarrow> fopen_wb tmp (pe_disk pe);
        let (ok, s) = stream_write tmp (ckpt_items (pe_kv pe)) ([], d);
        let d' = snd (stream_close tmp s);
        if \<not> ok then None else map_option (\<lambda>d''. pe\<lparr>pe_disk := d''\<rparr>) (rename_file tmp path d')
      })"
  by (simp add: save_checkpoint_def save_checkpoint_run_def Let_def case_prod_unfold split: option.split)

lemma wal_truncate_eq:
  "wal_truncate cs d =
     Option.bind (fopen_wb (cs_path cs) d) (\<lambda>d1. map_option (\<lambda>d2. (cs\<lparr>cs_records_written := 0\<rparr>, d2)) (fopen_ab (cs_path cs) d1))"
  by (simp add: wal_truncate_def wal_truncate_run_def split: option.split)

lemma checkpoint_eq:
  "checkpoint pe =
     (if pe_in_txn pe then None
      else case pe_cold_store pe of None \<Rightarrow> Some pe
      | Some cs \<Rightarrow> do {
          pe1 \<leftarrow> save_checkpoint (pe_checkpoint_path pe) pe;
          (cs', d') \<leftarrow> wal_truncate cs (pe_disk pe1);
          Some (pe1\<lparr>pe_cold_store := Some cs', pe_disk := d', pe_checkpoints := pe_checkpoints pe1 + 1\<rparr>)
        })"
  by (simp add: checkpoint_def checkpoint_run_def save_checkpoint_def wal_truncate_def case_prod_unfold split: option.split)

lemma save_checkpoint_ok:
  assumes "mem_ok pe" "dk_writable (pe_disk pe) p" "dk_writable (pe_disk pe) (p @ ''.tmp'')"
    "12 + 16 * length (kv_entries (pe_kv pe)) \<le> dk_quota (pe_disk pe) (p @ ''.tmp'')"
  shows "save_checkpoint p pe = Some (pe\<lparr>pe_disk := (pe_disk pe)\<lparr>dk_files :=
      (dk_files (pe_disk pe))(p \<mapsto> ckpt_bytes (kv_entries (pe_kv pe)), p @ ''.tmp'' := None)\<rparr>\<rparr>)"
proof -
  let ?tmp = "p @ ''.tmp''" and ?d = "pe_disk pe" and ?kv = "pe_kv pe"
  have inv: "kv_inv ?kv" using assms(1) by (simp add: mem_ok_def)
  define d1 where "d1 = ?d\<lparr>dk_files := (dk_files ?d)(?tmp \<mapsto> [])\<rparr>"
  have b: "file_bytes ?tmp d1 = []" by (simp add: d1_def)
  have "length (file_bytes ?tmp d1) + length (concat (ckpt_items ?kv)) \<le> dk_quota d1 ?tmp"
    using assms(4) by (simp add: b concat_ckpt_items [OF inv] length_ckpt_bytes) (simp add: d1_def)
  then obtain s where s: "stream_write ?tmp (ckpt_items ?kv) ([], d1) = (True, s)"
    "dk_files (snd (stream_close ?tmp s)) = (dk_files d1)(?tmp \<mapsto> file_bytes ?tmp d1 @ concat (ckpt_items ?kv))"
    "dk_quota (snd (stream_close ?tmp s)) = dk_quota d1" "dk_writable (snd (stream_close ?tmp s)) = dk_writable d1"
    "dk_eager (snd (stream_close ?tmp s)) = dk_eager d1"
    by (rule stream_roundtrip)
  let ?d2 = "snd (stream_close ?tmp s)"
  have "rename_file ?tmp p ?d2 = Some (?d\<lparr>dk_files := (dk_files ?d)(p \<mapsto> ckpt_bytes (kv_entries ?kv), ?tmp := None)\<rparr>)"
    using s(2-5) assms(2) unfolding b concat_ckpt_items [OF inv]
    by (simp add: rename_file_def d1_def fun_upd_twist)
  moreover have "fopen_wb ?tmp ?d = Some d1" using assms(3) by (simp add: fopen_wb_def d1_def)
  ultimately show ?thesis by (simp add: save_checkpoint_eq s(1) Let_def)
qed


lemma file_bytes_cong: "dk_files d p = dk_files d' p \<Longrightarrow> file_bytes p d = file_bytes p d'"
  by (simp add: file_bytes_def)

lemma overlay_twice: "(m0 ++ e) ++ e = m0 ++ e"
  by (auto simp: fun_eq_iff map_add_def split: option.splits)

text \<open>A checkpoint file of the current map, beside the log it makes redundant or an emptied one.\<close>

lemma durable_tmp:
  assumes "durable wal d m"
  shows "durable wal (d\<lparr>dk_files := (dk_files d)(wal @ ''.ckpt.tmp'' := f)\<rparr>) m"
proof -
  let ?d = "d\<lparr>dk_files := (dk_files d)(wal @ ''.ckpt.tmp'' := f)\<rparr>"
  have "file_bytes wal ?d = file_bytes wal d" by (simp add: file_bytes_def)
  moreover have "ckpt_holds ?d (wal @ ''.ckpt'') = ckpt_holds d (wal @ ''.ckpt'')"
    by (simp add: ckpt_holds_def fun_eq_iff)
  ultimately show ?thesis using assms by (simp add: durable_def)
qed

lemma durable_new_checkpoint:
  assumes "durable wal d m" "file_bytes wal d' = file_bytes wal d \<or> file_bytes wal d' = []" "ckpt_holds d' (wal @ ''.ckpt'') m"
  shows "durable wal d' m"
proof -
  obtain gs m0 where d: "file_bytes wal d = log_bytes (groups_ops gs)" "m = m0 ++ map_of (rev (group_writes gs))"
    using assms(1) by (auto simp: durable_def)
  have "m ++ map_of (rev (group_writes gs)) = m" unfolding d(2) by (rule overlay_twice)
  moreover have "file_bytes wal d' = log_bytes (groups_ops gs) \<or> file_bytes wal d' = log_bytes (groups_ops [])"
    using assms(2) d(1) by (simp add: groups_ops_def log_bytes_def)
  ultimately show ?thesis unfolding durable_def using assms(3)
    by (elim disjE) (force intro: exI [of _ gs] exI [of _ m], force intro: exI [of _ "[]"] exI [of _ m])
qed

definition ckpt_room :: "point_engine \<Rightarrow> bool" where
  "ckpt_room pe \<longleftrightarrow> (\<forall>cs. pe_cold_store pe = Some cs \<longrightarrow>
     12 + 16 * length (kv_entries (pe_kv pe)) \<le> dk_quota (pe_disk pe) (cs_path cs @ ''.ckpt.tmp''))"

lemma checkpoint_states:
  assumes "pe_ok pe" "pe_cold_store pe = Some cs" "\<not> pe_in_txn pe" "ckpt_room pe"
  obtains pe1 cs' pe2 where "save_checkpoint (pe_checkpoint_path pe) pe = Some pe1" "checkpoint pe = Some pe2"
    "durable (cs_path cs) (pe_disk pe1) (pe_map pe)" "pe_ok pe2" "pe_map pe2 = pe_map pe" "\<not> pe_in_txn pe2"
    "file_bytes (cs_path cs) (pe_disk pe2) = []" "wal_records pe2 = 0" "pe_cold_store pe2 = Some cs'" "cs_path cs' = cs_path cs"
    "dk_writable (pe_disk pe1) = dk_writable (pe_disk pe)" "dk_writable (pe_disk pe2) = dk_writable (pe_disk pe)"
    "pe_key_index pe2 = pe_key_index pe"
proof -
  let ?wal = "cs_path cs" and ?d = "pe_disk pe" and ?b = "ckpt_bytes (kv_entries (pe_kv pe))"
  have ok: "mem_ok pe" "?wal \<noteq> []" "pe_checkpoint_path pe = ?wal @ ''.ckpt''" "durable ?wal ?d (pe_map pe)"
    "dk_writable ?d ?wal" "dk_writable ?d (?wal @ ''.ckpt'')" "dk_writable ?d (?wal @ ''.ckpt.tmp'')"
    using assms(1,2) by (simp_all add: pe_ok_def)
  define d1 where "d1 = ?d\<lparr>dk_files := (dk_files ?d)(?wal @ ''.ckpt'' \<mapsto> ?b, ?wal @ ''.ckpt.tmp'' := None)\<rparr>"
  define d2 where "d2 = d1\<lparr>dk_files := (dk_files d1)(?wal \<mapsto> [])\<rparr>"
  have save: "save_checkpoint (pe_checkpoint_path pe) pe = Some (pe\<lparr>pe_disk := d1\<rparr>)"
    using save_checkpoint_ok [OF ok(1), of "?wal @ ''.ckpt''"] ok assms(2,4) by (simp add: ckpt_room_def d1_def)
  have ck: "ckpt_holds d1 (?wal @ ''.ckpt'') (pe_map pe)" "ckpt_holds d2 (?wal @ ''.ckpt'') (pe_map pe)"
    by (rule ckpt_holds_entries [OF ok(1)]; simp add: d1_def d2_def)+
  have f: "file_bytes ?wal d1 = file_bytes ?wal ?d" "file_bytes ?wal d2 = []"
    by (rule file_bytes_cong; simp add: d1_def) (simp add: d2_def)
  have dur1: "durable ?wal d1 (pe_map pe)"
    by (rule durable_new_checkpoint [OF ok(4) _ ck(1)]) (simp add: f)
  have dur2: "durable ?wal d2 (pe_map pe)"
    by (rule durable_new_checkpoint [OF ok(4) _ ck(2)]) (simp add: f)
  have w: "dk_writable d1 = dk_writable ?d" "dk_writable d2 = dk_writable ?d" by (simp_all add: d1_def d2_def)
  let ?pe2 = "pe\<lparr>pe_cold_store := Some (cs\<lparr>cs_records_written := 0\<rparr>), pe_disk := d2, pe_checkpoints := pe_checkpoints pe + 1\<rparr>"
  have "wal_truncate cs d1 = Some (cs\<lparr>cs_records_written := 0\<rparr>, d2)"
    using ok(5) by (simp add: wal_truncate_eq fopen_wb_def fopen_ab_def w d2_def)
  then have chk: "checkpoint pe = Some ?pe2" using assms(2,3) save by (simp add: checkpoint_eq)
  have "pe_ok ?pe2" using ok dur2 by (simp add: pe_ok_def mem_ok_def w)
  then show thesis
    by (intro that [OF save chk, of "cs\<lparr>cs_records_written := 0\<rparr>"])
      (use assms(3) dur1 w f in \<open>simp_all add: wal_records_def\<close>)
qed


text \<open>The disks of a checkpoint: the temporary file grows, it becomes the checkpoint, the log is emptied.\<close>

lemma save_checkpoint_disks:
  assumes "save_checkpoint_run path pe = (ds, Some pe1)" "d \<in> set ds"
  shows "differs_at (path @ ''.tmp'') (pe_disk pe) d \<or> d = pe_disk pe1"
proof -
  let ?tmp = "path @ ''.tmp''" and ?items = "ckpt_items (pe_kv pe)"
  obtain d0 where d0: "fopen_wb ?tmp (pe_disk pe) = Some d0"
    using assms(1) by (cases "fopen_wb ?tmp (pe_disk pe)") (simp_all add: save_checkpoint_run_def)
  obtain ok s where s: "stream_write ?tmp ?items ([], d0) = (ok, s)" by (rule prod.exhaust)
  obtain d2 where ds: "ds = (d0 # stream_write_cuts ?tmp ?items ([], d0) @ stream_close_cuts ?tmp s) @ [d2]" "pe_disk pe1 = d2"
    using assms(1) d0 s by (auto simp: save_checkpoint_run_def Let_def split: option.splits if_splits)
  have open0: "differs_at ?tmp (pe_disk pe) d0" using d0 by (auto simp: fopen_wb_def split: if_splits)
  note str = differs_at_stream [of ?tmp ?items "[]" d0]
  have "differs_at ?tmp d0 (snd s)" using str s by simp
  note close = differs_at_close [OF this]
  have "differs_at ?tmp d0 d" if "d \<in> set (stream_write_cuts ?tmp ?items ([], d0) @ stream_close_cuts ?tmp s)"
    using that str close by auto
  then show ?thesis using assms(2) ds open0 differs_at_trans [OF open0] by auto
qed

lemma wal_truncate_disks:
  assumes "wal_truncate_run cs d = (ds, Some (cs', d'))"
  shows "ds = [d', d']"
  using assms by (auto simp: wal_truncate_run_def fopen_wb_def fopen_ab_def split: option.splits if_splits)

lemma checkpoint_disks:
  assumes "pe_cold_store pe = Some cs" "\<not> pe_in_txn pe" "save_checkpoint (pe_checkpoint_path pe) pe = Some pe1"
    and "checkpoint_run pe = (ds, Some pe2)"
  shows "\<forall>d \<in> set ds. differs_at (pe_checkpoint_path pe @ ''.tmp'') (pe_disk pe) d \<or> d = pe_disk pe1 \<or> d = pe_disk pe2"
    and "pe_disk pe2 \<in> set ds"
proof -
  obtain ds1 where s: "save_checkpoint_run (pe_checkpoint_path pe) pe = (ds1, Some pe1)"
    using assms(3) by (cases "save_checkpoint_run (pe_checkpoint_path pe) pe") (simp add: save_checkpoint_def)
  obtain ds2 r where w: "wal_truncate_run cs (pe_disk pe1) = (ds2, r)" by (rule prod.exhaust)
  with assms(1,2,4) s obtain cs' d' where r: "r = Some (cs', d')" "pe_disk pe2 = d'" "ds = ds1 @ ds2"
    by (auto simp: checkpoint_run_def run_bind_def split: option.splits)
  have "ds2 = [d', d']" using w r(1) wal_truncate_disks by blast
  then show "\<forall>d \<in> set ds. differs_at (pe_checkpoint_path pe @ ''.tmp'') (pe_disk pe) d \<or> d = pe_disk pe1 \<or> d = pe_disk pe2"
    "pe_disk pe2 \<in> set ds" using save_checkpoint_disks [OF s] r(2,3) by auto
qed

lemma checkpoint_ok:
  assumes "pe_ok pe" "ckpt_room pe" "checkpoint pe = Some pe'"
  shows "pe_ok pe'"
proof (cases "pe_cold_store pe")
  case None
  then show ?thesis using assms by (simp add: checkpoint_eq split: if_splits)
next
  case (Some cs)
  have "\<not> pe_in_txn pe" using assms(3) by (simp add: checkpoint_eq split: if_splits)
  with assms(1) Some obtain pe2 where "checkpoint pe = Some pe2" "pe_ok pe2" using assms(2) by (rule checkpoint_states)
  then show ?thesis using assms(3) by simp
qed

section \<open>Batches\<close>

lemma opt_fold_concat: "opt_fold (\<lambda>x. opt_fold f (g x)) xs s = opt_fold f (concat (map g xs)) s"
  by (induction xs arbitrary: s) (auto simp: opt_fold_append split: option.splits)

lemma concat_ranges:
  fixes off :: "nat \<Rightarrow> nat"
  assumes "mono off"
  shows "concat (map (\<lambda>p. [off p..<off (Suc p)]) [0..<P]) = [off 0..<off P]"
proof (induction P)
  case (Suc P)
  have "off 0 \<le> off P" "off P \<le> off (Suc P)" using assms by (simp_all add: mono_def)
  then show ?case using Suc upt_add_eq_append [of "off 0" "off P" "off (Suc P) - off P"] by simp
qed simp

lemma execute_batch_flat:
  assumes "length (pe_binned pe) = MATRIX_BATCH_MAX" "batch \<noteq> []" "b = take MATRIX_BATCH_MAX batch"
  obtains binned offsets where
    "execute_batch batch pe = opt_fold point_op [0..<length b] (pe\<lparr>pe_binned := binned, pe_offsets := offsets\<rparr>)"
    "take (length b) binned = concat (map (\<lambda>p. filter (\<lambda>q. query_page q = p) b) [0..<MATRIX_PAGE_COUNT])"
    "length binned = MATRIX_BATCH_MAX"
proof -
  obtain binned offsets where m: "matrix_bin_by_page b (pe_binned pe) = (binned, offsets)" by fastforce
  have le: "length b \<le> length (pe_binned pe)" using assms(1,3) by simp
  let ?off = "\<lambda>p. before_page query_page p b"
  have off: "offsets = map ?off [0..<Suc MATRIX_PAGE_COUNT]"
    using matrix_bin_by_page_concat(2) [OF le] m by simp
  have nth: "offsets ! p = ?off p" if "p \<le> MATRIX_PAGE_COUNT" for p
    using that by (simp add: off nth_append)
  have total: "?off MATRIX_PAGE_COUNT = length b"
    by (rule before_page_total) (simp add: query_page_def matrix_page_of_less)
  have ranges: "map (\<lambda>page. [offsets ! page..<offsets ! Suc page]) [0..<MATRIX_PAGE_COUNT] =
      map (\<lambda>page. [?off page..<?off (Suc page)]) [0..<MATRIX_PAGE_COUNT]"
    by (rule map_cong) (simp_all add: nth)
  have mono: "mono ?off" by (simp add: mono_def before_page_mono)
  have "concat (map (\<lambda>page. [offsets ! page..<offsets ! Suc page]) [0..<MATRIX_PAGE_COUNT]) = [0..<length b]"
    unfolding ranges concat_ranges [OF mono] total by simp
  then have "execute_batch batch pe = opt_fold point_op [0..<length b] (pe\<lparr>pe_binned := binned, pe_offsets := offsets\<rparr>)"
    using assms(2) m by (simp add: execute_batch_def opt_fold_concat assms(3) [symmetric])
  moreover have "length binned = MATRIX_BATCH_MAX"
    using matrix_bin_by_page_concat(3) [OF le] m assms(1) by simp
  ultimately show thesis
    using that matrix_bin_by_page_concat(1) [OF le] m by simp
qed


lemma point_op_ok:
  assumes "pe_ok pe" "log_room (28 + n) pe" "point_op j pe = Some pe'"
  shows "pe_ok pe' \<and> log_room n pe'"
proof -
  let ?q = "pe_binned pe ! j" and ?k = "query_id (pe_binned pe ! j)"
  consider "opcode ?q = OP_READ" | "opcode ?q = OP_WRITE" | "opcode ?q \<noteq> OP_READ" "opcode ?q \<noteq> OP_WRITE" by blast
  then show ?thesis
  proof cases
    case 2
    have g: "groups_ops [Auto ?k ?k] = [Put ?k ?k]" "group_writes [Auto ?k ?k] = [(?k, ?k)]"
      by (simp_all add: groups_ops_def)
    have "OP_WRITE \<noteq> OP_READ" by (simp add: wal_consts)
    then have w: "apply_committed_write ?k ?k (log_append [Put ?k ?k] pe) = Some pe'"
      using assms(3) 2 by (simp add: point_op_def Let_def log_append_put)
    have mem: "mem_ok (log_append [Put ?k ?k] pe)" using assms(1) by (simp add: pe_ok_def)
    note ok = apply_committed_write_ok [OF mem w]
    show ?thesis
      by (rule logged_writes_ok [OF assms(1), of "[Auto ?k ?k]"])
        (use assms(2) ok(1-3) in \<open>simp_all add: g log_bytes_def length_op_bytes\<close>)
  qed (use assms in \<open>auto simp: point_op_def Let_def pe_ok_def mem_ok_def log_room_def\<close>)
qed

lemma point_ops_ok:
  assumes "opt_fold point_op js pe = Some pe'" "pe_ok pe" "log_room (28 * length js) pe"
  shows "pe_ok pe'"
  using assms
proof (induction js arbitrary: pe)
  case (Cons j js)
  obtain pe1 where pe1: "point_op j pe = Some pe1" "opt_fold point_op js pe1 = Some pe'"
    using Cons.prems(1) by (auto split: option.splits)
  have "pe_ok pe1 \<and> log_room (28 * length js) pe1"
    using Cons.prems(2,3) pe1(1) by (intro point_op_ok [of pe]) simp_all
  then show ?case using Cons.IH [OF pe1(2)] by simp
qed simp

lemma execute_batch_ok:
  assumes "pe_ok pe" "log_room (28 * length (take MATRIX_BATCH_MAX batch)) pe" "execute_batch batch pe = Some pe'"
  shows "pe_ok pe'"
proof (cases "batch = []")
  case True
  then show ?thesis using assms(1,3) by (simp add: execute_batch_def)
next
  case False
  let ?b = "take MATRIX_BATCH_MAX batch"
  have "length (pe_binned pe) = MATRIX_BATCH_MAX" using assms(1) by (simp add: pe_ok_def mem_ok_def)
  then obtain binned offsets where e:
    "execute_batch batch pe = opt_fold point_op [0..<length ?b] (pe\<lparr>pe_binned := binned, pe_offsets := offsets\<rparr>)"
    "length binned = MATRIX_BATCH_MAX"
    using False refl by (rule execute_batch_flat)
  show ?thesis
    by (rule point_ops_ok [OF e(1) [symmetric, unfolded assms(3)]])
      (use assms(1,2) e(2) in \<open>auto simp: pe_ok_def mem_ok_def log_room_def\<close>)
qed

text \<open>The meaning of a batch: its queries one after the other, in batch order.\<close>

fun seq_batch :: "(u64 \<rightharpoonup> u64) \<Rightarrow> database_query list \<Rightarrow> database_query list \<times> (u64 \<rightharpoonup> u64)" where
  "seq_batch m [] = ([], m)"
| "seq_batch m (q # qs) =
     (if opcode q = OP_READ then
        let (rs, m') = seq_batch m qs in
        (q\<lparr>transaction_id := (case m (query_id q) of None \<Rightarrow> 0 | Some v \<Rightarrow> v)\<rparr> # rs, m')
      else if opcode q = OP_WRITE then
        let (rs, m') = seq_batch (m(query_id q \<mapsto> query_id q)) qs in (q # rs, m')
      else let (rs, m') = seq_batch m qs in (q # rs, m'))"

definition write_keys :: "database_query list \<Rightarrow> u64 set" where
  "write_keys qs = query_id ` {q \<in> set qs. opcode q = OP_WRITE}"

lemma seq_batch_append:
  "seq_batch m (xs @ ys) =
     (fst (seq_batch m xs) @ fst (seq_batch (snd (seq_batch m xs)) ys), snd (seq_batch (snd (seq_batch m xs)) ys))"
  by (induction xs arbitrary: m) (auto simp: Let_def case_prod_unfold)

text \<open>Queries on other keys do not matter to the queries on the keys of \<open>P\<close>.\<close>

lemma seq_batch_filter:
  assumes "\<And>k. P k \<Longrightarrow> m k = m' k"
  shows "fst (seq_batch m' (filter (\<lambda>q. P (query_id q)) qs)) = filter (\<lambda>q. P (query_id q)) (fst (seq_batch m qs))"
    "P k \<Longrightarrow> snd (seq_batch m' (filter (\<lambda>q. P (query_id q)) qs)) k = snd (seq_batch m qs) k"
proof -
  have "fst (seq_batch m' (filter (\<lambda>q. P (query_id q)) qs)) = filter (\<lambda>q. P (query_id q)) (fst (seq_batch m qs)) \<and>
      (\<forall>k. P k \<longrightarrow> snd (seq_batch m' (filter (\<lambda>q. P (query_id q)) qs)) k = snd (seq_batch m qs) k)"
    using assms
  proof (induction qs arbitrary: m m')
    case (Cons q qs)
    let ?k = "query_id q"
    have upd: "\<And>k. P k \<Longrightarrow> (m(?k \<mapsto> ?k)) k = (m'(?k \<mapsto> ?k)) k"
      "\<And>k. P k \<Longrightarrow> \<not> P ?k \<Longrightarrow> (m(?k \<mapsto> ?k)) k = m' k" using Cons.prems by auto
    have IH: "P ?k \<Longrightarrow> fst (seq_batch (m'(?k \<mapsto> ?k)) (filter (\<lambda>q. P (query_id q)) qs)) =
        filter (\<lambda>q. P (query_id q)) (fst (seq_batch (m(?k \<mapsto> ?k)) qs))"
      "\<not> P ?k \<Longrightarrow> fst (seq_batch m' (filter (\<lambda>q. P (query_id q)) qs)) =
        filter (\<lambda>q. P (query_id q)) (fst (seq_batch (m(?k \<mapsto> ?k)) qs))"
      "P ?k \<Longrightarrow> P k \<Longrightarrow> snd (seq_batch (m'(?k \<mapsto> ?k)) (filter (\<lambda>q. P (query_id q)) qs)) k =
        snd (seq_batch (m(?k \<mapsto> ?k)) qs) k"
      "\<not> P ?k \<Longrightarrow> P k \<Longrightarrow> snd (seq_batch m' (filter (\<lambda>q. P (query_id q)) qs)) k = snd (seq_batch (m(?k \<mapsto> ?k)) qs) k" for k
      using Cons.IH [of "m(?k \<mapsto> ?k)" "m'(?k \<mapsto> ?k)", OF upd(1)] Cons.IH [of "m(?k \<mapsto> ?k)" m', OF upd(2)] by blast+
    show ?case using Cons.IH [OF Cons.prems] IH Cons.prems by (auto simp: Let_def case_prod_unfold)
  qed simp
  then show "fst (seq_batch m' (filter (\<lambda>q. P (query_id q)) qs)) = filter (\<lambda>q. P (query_id q)) (fst (seq_batch m qs))"
    "P k \<Longrightarrow> snd (seq_batch m' (filter (\<lambda>q. P (query_id q)) qs)) k = snd (seq_batch m qs) k" by blast+
qed


lemma length_seq_batch [simp]: "length (fst (seq_batch m qs)) = length qs"
  by (induction qs arbitrary: m) (auto simp: Let_def case_prod_unfold)

lemma write_keys_Cons:
  "write_keys (q # qs) = (if opcode q = OP_WRITE then insert (query_id q) (write_keys qs) else write_keys qs)"
  by (auto simp: write_keys_def)

lemma seq_batch_untouched: "k \<notin> write_keys qs \<Longrightarrow> snd (seq_batch m qs) k = m k"
  by (induction qs arbitrary: m) (auto simp: Let_def case_prod_unfold write_keys_Cons split: if_splits)

lemma dom_seq_batch: "dom (snd (seq_batch m qs)) \<subseteq> dom m \<union> write_keys qs"
  using seq_batch_untouched [of _ qs m] by (auto simp: dom_def)

lemma write_keys_append [simp]: "write_keys (xs @ ys) = write_keys xs \<union> write_keys ys"
  by (auto simp: write_keys_def)

text \<open>Running the pages one after the other answers every query as running the batch in its order.\<close>

lemma seq_batch_pages:
  assumes "bs = concat (map (\<lambda>p. filter (\<lambda>q. pg (query_id q) = p) qs) [0..<P])"
  shows "fst (seq_batch m bs) = concat (map (\<lambda>p. filter (\<lambda>q. pg (query_id q) = p) (fst (seq_batch m qs))) [0..<P])"
    "snd (seq_batch m bs) = (\<lambda>k. if pg k < P then snd (seq_batch m qs) k else m k)"
proof -
  let ?f = "\<lambda>p. filter (\<lambda>q. pg (query_id q) = p)"
  have "fst (seq_batch m (concat (map (\<lambda>p. ?f p qs) [0..<P]))) = concat (map (\<lambda>p. ?f p (fst (seq_batch m qs))) [0..<P]) \<and>
    snd (seq_batch m (concat (map (\<lambda>p. ?f p qs) [0..<P]))) = (\<lambda>k. if pg k < P then snd (seq_batch m qs) k else m k)"
  proof (induction P)
    case (Suc P)
    let ?xs = "concat (map (\<lambda>p. ?f p qs) [0..<P])"
    define m1 where "m1 = snd (seq_batch m ?xs)"
    have m1: "m1 = (\<lambda>k. if pg k < P then snd (seq_batch m qs) k else m k)" using Suc by (simp add: m1_def)
    have agree: "m k = m1 k" if "pg k = P" for k using that by (simp add: m1)
    have other: "snd (seq_batch m1 (?f P qs)) k = m1 k" if "pg k \<noteq> P" for k
      using that by (intro seq_batch_untouched) (auto simp: write_keys_def)
    have "snd (seq_batch m1 (?f P qs)) k = (if pg k < Suc P then snd (seq_batch m qs) k else m k)" for k
      using seq_batch_filter(2) [of "\<lambda>k. pg k = P" m m1 k qs, OF agree] other [of k] by (auto simp: m1 less_Suc_eq)
    moreover have "fst (seq_batch m1 (?f P qs)) = ?f P (fst (seq_batch m qs))"
      by (rule seq_batch_filter(1)) (rule agree)
    ultimately show ?case using Suc by (simp add: seq_batch_append m1_def [symmetric] fun_eq_iff)
  qed simp
  then show "fst (seq_batch m bs) = concat (map (\<lambda>p. ?f p (fst (seq_batch m qs))) [0..<P])"
    "snd (seq_batch m bs) = (\<lambda>k. if pg k < P then snd (seq_batch m qs) k else m k)" by (simp_all add: assms)
qed

abbreviation op_count :: "u32 \<Rightarrow> database_query list \<Rightarrow> u64" where
  "op_count op qs \<equiv> of_nat (length (filter (\<lambda>q. opcode q = op) qs))"

lemma nth_append_drop: "length xs = n \<Longrightarrow> n < length b \<Longrightarrow> (xs @ drop n b) ! n = b ! n"
  by (simp add: nth_append)

lemma update_append_drop:
  "length xs = n \<Longrightarrow> n < length b \<Longrightarrow> (xs @ drop n b)[n := y] = (xs @ [y]) @ drop (Suc n) b"
  by (simp add: list_update_append Cons_nth_drop_Suc [symmetric])

lemma point_ops_seq:
  assumes "mem_ok pe" "n \<le> length (pe_binned pe)"
    "card (dom (pe_map pe) \<union> write_keys (take n (pe_binned pe))) \<le> 65536"
  shows "\<exists>pe'. opt_fold point_op [0..<n] pe = Some pe' \<and> mem_ok pe' \<and>
    pe_binned pe' = fst (seq_batch (pe_map pe) (take n (pe_binned pe))) @ drop n (pe_binned pe) \<and>
    pe_map pe' = snd (seq_batch (pe_map pe) (take n (pe_binned pe))) \<and>
    pe_reads pe' = pe_reads pe + op_count OP_READ (take n (pe_binned pe)) \<and>
    pe_writes pe' = pe_writes pe + op_count OP_WRITE (take n (pe_binned pe)) \<and>
    pe_commits pe' = pe_commits pe + op_count OP_WRITE (take n (pe_binned pe))"
  using assms(2,3)
proof (induction n)
  case 0
  then show ?case using assms(1) by simp
next
  case (Suc n)
  let ?b = "pe_binned pe" and ?m = "pe_map pe" and ?q = "pe_binned pe ! n"
  have n: "n < length ?b" using Suc.prems(1) by simp
  have take: "take (Suc n) ?b = take n ?b @ [?q]" using n by (rule take_Suc_conv_app_nth)
  have fin: "finite (dom ?m \<union> write_keys (take (Suc n) ?b))"
    using kvm.finite_dom_contents assms(1) by (simp add: mem_ok_def write_keys_def)
  have "dom ?m \<union> write_keys (take n ?b) \<subseteq> dom ?m \<union> write_keys (take (Suc n) ?b)" by (auto simp: take)
  then have "card (dom ?m \<union> write_keys (take n ?b)) \<le> 65536"
    using card_mono [OF fin] Suc.prems(2) le_trans by blast
  then obtain pe1 where pe1: "opt_fold point_op [0..<n] pe = Some pe1" "mem_ok pe1"
    "pe_binned pe1 = fst (seq_batch ?m (take n ?b)) @ drop n ?b" "pe_map pe1 = snd (seq_batch ?m (take n ?b))"
    "pe_reads pe1 = pe_reads pe + op_count OP_READ (take n ?b)"
    "pe_writes pe1 = pe_writes pe + op_count OP_WRITE (take n ?b)"
    "pe_commits pe1 = pe_commits pe + op_count OP_WRITE (take n ?b)"
    using Suc.IH n by auto
  have q: "pe_binned pe1 ! n = ?q" unfolding pe1(3) using n by (intro nth_append_drop) simp_all
  have upd: "(pe_binned pe1)[n := y] = (fst (seq_batch ?m (take n ?b)) @ [y]) @ drop (Suc n) ?b" for y
    unfolding pe1(3) using n by (intro update_append_drop) simp_all
  have same: "pe_binned pe1 = (fst (seq_batch ?m (take n ?b)) @ [?q]) @ drop (Suc n) ?b"
    using upd [of ?q] list_update_id [of "pe_binned pe1" n] by (simp only: q)
  have step: "opt_fold point_op [0..<Suc n] pe = point_op n pe1"
    by (simp add: opt_fold_append pe1(1) split: option.splits)
  have ops: "OP_READ \<noteq> OP_WRITE" by (simp add: wal_consts)
  note seq = seq_batch_append [of ?m "take n ?b" "[?q]"]
  consider "opcode ?q = OP_READ" | "opcode ?q = OP_WRITE" | "opcode ?q \<noteq> OP_READ" "opcode ?q \<noteq> OP_WRITE" by blast
  then show ?case
  proof cases
    case 1
    let ?r = "?q\<lparr>transaction_id := (case snd (seq_batch ?m (take n ?b)) (query_id ?q) of None \<Rightarrow> 0 | Some v \<Rightarrow> v)\<rparr>"
    let ?pe2 = "pe1\<lparr>pe_binned := (pe_binned pe1)[n := ?r], pe_reads := pe_reads pe1 + 1\<rparr>"
    have "kv_get (query_id ?q) (pe_kv pe1) = snd (seq_batch ?m (take n ?b)) (query_id ?q)"
      using fun_cong [OF pe1(4)] by (simp add: kvm.contents_def)
    then have "point_op n pe1 = Some ?pe2" using 1 by (simp add: point_op_def q Let_def)
    moreover have "mem_ok ?pe2" using pe1(2) by (simp add: mem_ok_def)
    ultimately show ?thesis unfolding step take seq
      by (intro exI [of _ ?pe2]) (use pe1(4-7) ops 1 in \<open>simp add: upd\<close>)
  next
    case 2
    let ?k = "query_id ?q" and ?pe = "log_append [Put (query_id ?q) (query_id ?q)] pe1"
    have "insert ?k (dom (pe_map pe1)) \<subseteq> dom ?m \<union> write_keys (take (Suc n) ?b)"
      using dom_seq_batch [of ?m "take n ?b"] 2 unfolding pe1(4) take by (auto simp: write_keys_def)
    then have "card (insert ?k (dom (pe_map pe1))) \<le> 65536"
      using card_mono [OF fin] Suc.prems(2) le_trans by blast
    then have fits: "card (insert ?k (dom (pe_map ?pe))) \<le> 65536" by (simp only: log_append_fields)
    have mem: "mem_ok ?pe" using pe1(2) by simp
    from this fits obtain pe2 where pe2: "apply_committed_write ?k ?k ?pe = Some pe2" by (rule apply_committed_write_fits)
    note ok = apply_committed_write_ok [OF mem pe2]
    have "point_op n pe1 = Some pe2" using 2 ops pe2 by (simp add: point_op_def q log_append_put)
    moreover have "pe_binned pe2 = pe_binned pe1" "pe_reads pe2 = pe_reads pe1" using ok(3) by (simp_all add: same_env_def)
    moreover have "pe_map pe2 = (pe_map pe1)(?k \<mapsto> ?k)" using ok(2) by simp
    ultimately show ?thesis unfolding step take seq
      using ok(1,4,5) pe1(5-7) ops 2 unfolding pe1(4) same by (intro exI [of _ pe2]) simp
  next
    case 3
    then have "point_op n pe1 = Some pe1" by (simp add: point_op_def q Let_def)
    then show ?thesis unfolding step take seq
      by (intro exI [of _ pe1]) (use 3 pe1(2,4-7) same in simp)
  qed
qed


section \<open>Runs of the engine\<close>

text \<open>
  The operations a client can call, and the crash: the process dies between two operations and the
  engine is opened again on what the disk holds. The guards say that the disk has room for what the
  operation writes.
\<close>

inductive pe_step :: "point_engine \<Rightarrow> point_engine \<Rightarrow> bool" where
  step_batch: "execute_batch batch pe = Some pe' \<Longrightarrow> log_room (28 * length (take MATRIX_BATCH_MAX batch)) pe \<Longrightarrow> pe_step pe pe'"
| step_begin: "txn_begin pe = Some pe' \<Longrightarrow> pe_step pe pe'"
| step_put: "txn_put k v pe = Some pe' \<Longrightarrow> pe_step pe pe'"
| step_commit: "commit pe = Some pe' \<Longrightarrow> log_room (length (log_bytes (group_ops (Txn (pe_txn_buf pe))))) pe \<Longrightarrow> pe_step pe pe'"
| step_rollback: "rollback pe = Some pe' \<Longrightarrow> pe_step pe pe'"
| step_checkpoint: "checkpoint pe = Some pe' \<Longrightarrow> ckpt_room pe \<Longrightarrow> pe_step pe pe'"
| step_shutdown: "shutdown pe = Some pe' \<Longrightarrow> ckpt_room pe \<Longrightarrow> pe_step pe pe'"
| step_crash: "pe_cold_store pe = Some cs \<Longrightarrow> engine_open (cs_path cs) sync (pe_disk pe) = Some pe' \<Longrightarrow> pe_step pe pe'"

lemma rollback_ok: "pe_ok pe \<Longrightarrow> rollback pe = Some pe' \<Longrightarrow> pe_ok pe' \<and> (ckpt_room pe \<longrightarrow> ckpt_room pe')"
  by (auto simp: rollback_def pe_ok_def mem_ok_def ckpt_room_def split: if_splits)

lemma pe_map_card: "mem_ok pe \<Longrightarrow> card (dom (pe_map pe)) \<le> 65536"
  using card_dom_kv_get [of "pe_kv pe"] kv_entries_le [of "pe_kv pe"] kv_size_entries [of "pe_kv pe"]
  by (auto simp: mem_ok_def kvm.contents_def)

lemma reopen_ok:
  assumes "pe_ok pe" "pe_cold_store pe = Some cs"
  obtains pe' where "engine_open (cs_path cs) sync (pe_disk pe) = Some pe'" "pe_ok pe'" "pe_map pe' = pe_map pe"
    "\<not> pe_in_txn pe'"
proof -
  let ?d = "pe_disk pe" and ?wal = "cs_path cs"
  have ok: "durable ?wal ?d (pe_map pe)" "dk_writable ?d ?wal" "?wal \<noteq> []" "mem_ok pe"
    "dk_writable ?d (?wal @ ''.ckpt'')" "dk_writable ?d (?wal @ ''.ckpt.tmp'')"
    using assms by (simp_all add: pe_ok_def)
  obtain pe' where pe': "engine_open ?wal sync ?d = Some pe'" "mem_ok pe'" "pe_map pe' = pe_map pe" "\<not> pe_in_txn pe'"
    "pe_cold_store pe' = Some \<lparr>cs_path = ?wal, cs_policy = sync, cs_records_written = 0\<rparr>"
    "pe_checkpoint_path pe' = ?wal @ ''.ckpt''" "pe_disk pe' = ?d\<lparr>dk_files := (dk_files ?d)(?wal \<mapsto> file_bytes ?wal ?d)\<rparr>"
    using engine_open_durable [OF ok(1) pe_map_card [OF ok(4)] ok(2,3)] by blast
  have "durable ?wal (pe_disk pe') (pe_map pe')"
    using ok(1) by (simp add: durable_def pe' ckpt_holds_def)
  then have "pe_ok pe'" using ok pe'(2,5,6) by (simp add: pe_ok_def pe'(7))
  then show thesis using that pe' by blast
qed

lemma txn_ops_ok:
  "pe_ok pe \<Longrightarrow> txn_begin pe = Some pe' \<Longrightarrow> pe_ok pe'" "pe_ok pe \<Longrightarrow> txn_put k v pe = Some pe' \<Longrightarrow> pe_ok pe'"
  by (auto simp: txn_begin_def txn_put_def pe_ok_def mem_ok_def split: if_splits)

lemma shutdown_ok:
  assumes "pe_ok pe" "ckpt_room pe" "shutdown pe = Some pe'"
  shows "pe_ok pe'"
proof -
  obtain pe1 where "pe_ok pe1" "ckpt_room pe1" "(if pe_cold_store pe1 \<noteq> None then checkpoint pe1 else Some pe1) = Some pe'"
    using rollback_ok [of pe] assms by (auto simp: shutdown_def split: if_splits bind_splits)
  then show ?thesis using checkpoint_ok by (auto split: if_splits)
qed

lemma pe_step_ok: "pe_step pe pe' \<Longrightarrow> pe_ok pe \<Longrightarrow> pe_ok pe'"
proof (induction rule: pe_step.induct)
  case (step_crash pe cs sync pe')
  from reopen_ok [OF step_crash(3,1), of sync] show ?case using step_crash(2) by auto
qed (blast dest: execute_batch_ok commit_ok checkpoint_ok rollback_ok txn_ops_ok shutdown_ok)+

text \<open>The log stays the same file.\<close>

definition pe_wal :: "point_engine \<Rightarrow> string option" where
  "pe_wal pe = map_option cs_path (pe_cold_store pe)"

lemma wal_log_append [simp]: "pe_wal (log_append ops pe) = pe_wal pe"
  using fold_wal_append_env(1) by (fastforce simp: pe_wal_def log_append_eq split: option.splits prod.splits)

lemma wal_apply: "apply_committed_write k v pe = Some pe' \<Longrightarrow> pe_wal pe' = pe_wal pe"
  by (auto simp: pe_wal_def apply_committed_write_def Let_def case_prod_unfold split: if_splits)

lemma wal_point_op: "point_op j pe = Some pe' \<Longrightarrow> pe_wal pe' = pe_wal pe"
  by (auto simp: point_op_def Let_def log_append_put wal_apply split: if_splits) (auto simp: pe_wal_def)

lemma wal_batch:
  assumes "execute_batch batch pe = Some pe'"
  shows "pe_wal pe' = pe_wal pe"
proof (cases "batch = []")
  case False
  obtain binned offsets where e: "matrix_bin_by_page (take MATRIX_BATCH_MAX batch) (pe_binned pe) = (binned, offsets)" by fastforce
  have "opt_fold point_op (concat (map (\<lambda>page. [offsets ! page..<offsets ! Suc page]) [0..<MATRIX_PAGE_COUNT]))
      (pe\<lparr>pe_binned := binned, pe_offsets := offsets\<rparr>) = Some pe'"
    using assms e False by (simp add: execute_batch_def opt_fold_concat)
  then show ?thesis
    by (rule opt_fold_invariant) (simp_all add: pe_wal_def wal_point_op [unfolded pe_wal_def])
qed (use assms in \<open>simp add: execute_batch_def\<close>)

lemma wal_commit:
  assumes "commit pe = Some pe'"
  shows "pe_wal pe' = pe_wal pe"
proof -
  obtain pe2 where pe2: "opt_fold (\<lambda>(k, v). apply_committed_write k v) (pe_txn_buf pe) (log_append (group_ops (Txn (pe_txn_buf pe))) pe) = Some pe2"
    "pe' = pe2\<lparr>pe_in_txn := False, pe_transactions_committed := pe_transactions_committed pe2 + 1, pe_txn_buf := []\<rparr>"
    using assms unfolding commit_def log_append_txn
    by (auto simp del: group_ops.simps split: if_splits bind_splits)
  have "pe_wal pe2 = pe_wal pe"
    by (rule opt_fold_invariant [OF pe2(1)]) (auto simp: wal_apply simp del: group_ops.simps)
  then show ?thesis by (simp add: pe2(2) pe_wal_def)
qed

lemma wal_checkpoint: "checkpoint pe = Some pe' \<Longrightarrow> pe_wal pe' = pe_wal pe"
  by (auto simp: checkpoint_eq pe_wal_def wal_truncate_eq save_checkpoint_eq Let_def case_prod_unfold
      split: if_splits option.splits bind_splits)

lemma pe_step_wal:
  assumes "pe_step pe pe'" "pe_ok pe"
  shows "pe_wal pe' = pe_wal pe"
  using assms
proof (induction rule: pe_step.induct)
  case (step_shutdown pe pe')
  then show ?case
    by (auto simp: shutdown_def rollback_def split: if_splits bind_splits dest!: wal_checkpoint) (simp_all add: pe_wal_def)
next
  case (step_crash pe cs sync pe')
  then show ?case
    by (auto simp: engine_open_def pe_wal_def ColdStore_def fopen_ab_def pe_ok_def Let_def split: if_splits bind_splits)
next
  case (step_batch batch pe pe')
  then show ?case by (blast dest: wal_batch)
next
  case (step_commit pe pe')
  then show ?case by (blast dest: wal_commit)
next
  case (step_checkpoint pe pe')
  then show ?case by (blast dest: wal_checkpoint)
qed (auto simp: txn_begin_def txn_put_def rollback_def pe_wal_def split: if_splits)

lemma pe_run_ok: "pe_step\<^sup>*\<^sup>* pe pe' \<Longrightarrow> pe_ok pe \<Longrightarrow> pe_ok pe' \<and> pe_wal pe' = pe_wal pe"
  by (induction rule: rtranclp_induct) (auto intro: pe_step_ok dest: pe_step_wal)

text \<open>A first start: neither a log nor a checkpoint exists.\<close>

definition fresh_disk :: "string \<Rightarrow> disk \<Rightarrow> bool" where
  "fresh_disk wal d \<longleftrightarrow> dk_files d wal = None \<and> dk_files d (wal @ ''.ckpt'') = None \<and>
     dk_writable d wal \<and> dk_writable d (wal @ ''.ckpt'') \<and> dk_writable d (wal @ ''.ckpt.tmp'')"

lemma engine_open_fresh:
  assumes "fresh_disk wal d" "wal \<noteq> []"
  obtains pe where "engine_open wal sync d = Some pe" "pe_ok pe" "pe_map pe = Map.empty" "\<not> pe_in_txn pe"
    "pe_cold_store pe = Some \<lparr>cs_path = wal, cs_policy = sync, cs_records_written = 0\<rparr>"
    "dk_quota (pe_disk pe) = dk_quota d" "file_bytes wal (pe_disk pe) = []" "dk_eager (pe_disk pe) = dk_eager d"
proof -
  have d: "dk_files d wal = None" "dk_files d (wal @ ''.ckpt'') = None" "dk_writable d wal"
    "dk_writable d (wal @ ''.ckpt'')" "dk_writable d (wal @ ''.ckpt.tmp'')" using assms(1) by (simp_all add: fresh_disk_def)
  have f: "file_bytes wal d = []" using d(1) by (simp add: file_bytes_def)
  have dur: "durable wal d Map.empty"
    unfolding durable_def using d(2) f
    by (intro exI [of _ "[]"] exI [of _ Map.empty]) (simp add: groups_ops_def log_bytes_def ckpt_holds_def)
  have "card (dom (Map.empty :: u64 \<rightharpoonup> u64)) \<le> 65536" by simp
  then obtain pe where pe: "engine_open wal sync d = Some pe" "mem_ok pe" "pe_map pe = Map.empty" "\<not> pe_in_txn pe"
    "pe_cold_store pe = Some \<lparr>cs_path = wal, cs_policy = sync, cs_records_written = 0\<rparr>"
    "pe_checkpoint_path pe = wal @ ''.ckpt''" "pe_disk pe = d\<lparr>dk_files := (dk_files d)(wal \<mapsto> file_bytes wal d)\<rparr>"
    using engine_open_durable [OF dur _ d(3) assms(2)] by blast
  have "durable wal (pe_disk pe) (pe_map pe)" using dur by (simp add: durable_def pe ckpt_holds_def)
  then have "pe_ok pe" using pe(2,5,6) assms(2) d by (simp add: pe_ok_def pe(7))
  then show thesis using pe(1,3-5) f by (intro that [of pe]) (simp_all add: pe(7))
qed


text \<open>The disk after a commit, and what a log cut inside its last group replays.\<close>

lemma commit_disk:
  assumes "mem_ok pe" "pe_cold_store pe = Some cs" "commit pe = Some pe'"
  shows "pe_disk pe' = snd (fold wal_append (group_ops (Txn (pe_txn_buf pe))) (cs, pe_disk pe))"
proof -
  let ?ops = "group_ops (Txn (pe_txn_buf pe))"
  obtain pe2 where pe2: "opt_fold (\<lambda>(k, v). apply_committed_write k v) (pe_txn_buf pe) (log_append ?ops pe) = Some pe2"
    "pe' = pe2\<lparr>pe_in_txn := False, pe_transactions_committed := pe_transactions_committed pe2 + 1, pe_txn_buf := []\<rparr>"
    using assms(3) unfolding commit_def log_append_txn
    by (auto simp del: group_ops.simps split: if_splits bind_splits)
  have "mem_ok (log_append ?ops pe)" using assms(1) by (simp del: group_ops.simps)
  from apply_writes_ok [OF this pe2(1)] show ?thesis
    using assms(2) by (simp add: pe2(2) same_env_def log_append_eq case_prod_unfold Let_def del: group_ops.simps)
qed

lemma replay_cut_group:
  assumes "length (log_bytes (groups_ops gs)) \<le> n" "bs = log_bytes (groups_ops (gs @ [g]))"
  shows "replay_loop [] (take n bs) = group_writes (if n < length bs then gs else gs @ [g])"
proof -
  let ?k = "n - length (log_bytes (groups_ops gs))" and ?b = "log_bytes (group_ops g)"
  have bs: "bs = log_bytes (groups_ops gs) @ ?b" by (simp add: assms(2) groups_ops_def)
  have "replay_loop [] (take ?k ?b) = (if n < length bs then [] else group_effect g)"
  proof (cases "n < length bs")
    case True
    then have "take ?k ?b \<noteq> ?b" using assms(1) by (simp add: bs)
    then have "strict_prefix (take ?k ?b) ?b" by (simp add: strict_prefix_def take_is_prefix)
    then show ?thesis using True by (simp add: replay_torn_group)
  next
    case False
    then show ?thesis by (simp add: bs replay_loop_log log_group)
  qed
  then show ?thesis using assms(1)
    by (simp add: bs replay_loop_log_append log_effect_groups log_pending_groups)
qed

section \<open>Ordered range scans\<close>

lemma strict_assoc_unique:
  fixes xs ys :: "('k::linorder \<times> 'v) list"
  assumes "sorted_wrt (<) (map fst xs)" "sorted_wrt (<) (map fst ys)" "map_of xs = map_of ys"
  shows "xs = ys"
proof -
  have d: "distinct (map fst xs)" "distinct (map fst ys)" "sorted (map fst xs)" "sorted (map fst ys)"
    using assms(1,2) by (simp_all add: strict_sorted_iff)
  have s: "set xs = set ys" using map_of_inject_set [OF d(1,2)] assms(3) by simp
  have "inj_on fst (set xs \<union> set ys)" using d(1) s by (simp add: distinct_map)
  then show ?thesis using d s by (intro map_sorted_distinct_set_unique)
qed

lemma takeWhile_sorted:
  fixes xs :: "(u64 \<times> 'v) list"
  assumes "sorted_wrt (<) (map fst xs)"
  shows "takeWhile (\<lambda>(k, v). k \<le> hi) (dropWhile (\<lambda>(k, v). k < lo) xs) = filter (\<lambda>(k, v). lo \<le> k \<and> k \<le> hi) xs"
  using assms
proof (induction xs)
  case (Cons x xs)
  obtain k v where x: "x = (k, v)" by (cases x)
  have later: "\<And>k' v'. (k', v') \<in> set xs \<Longrightarrow> k < k'" using Cons.prems by (force simp: x)
  show ?case
  proof (cases "k < lo")
    case False
    have "takeWhile (\<lambda>(k, v). k \<le> hi) xs = filter (\<lambda>(k, v). lo \<le> k \<and> k \<le> hi) xs"
    proof -
      have "dropWhile (\<lambda>(k, v). k < lo) xs = xs"
        using later False by (cases xs) (force simp: not_less)+
      then show ?thesis using Cons.IH Cons.prems by simp
    qed
    moreover have "filter (\<lambda>(k, v). lo \<le> k \<and> k \<le> hi) xs = []" if "hi < k"
      using later that by (force simp: filter_empty_conv)
    ultimately show ?thesis using False by (auto simp: x not_less not_le)
  qed (use Cons in \<open>auto simp: x\<close>)
qed simp

section \<open>A checkpoint on a full disk\<close>

lemma stream_write_buffered:
  assumes "\<And>n. \<not> dk_eager d p n"
  shows "stream_write p bss (buf, d) = (True, buf @ concat bss, d)"
  using assms by (induction bss arbitrary: buf) (simp_all add: Let_def)

lemma load_entries_short: "length bs < 16 * n \<Longrightarrow> load_entries n bs kv = None"
proof (induction n arbitrary: bs kv)
  case (Suc n)
  then show ?case by (auto split: option.splits dest!: fread_length)
qed simp

lemma load_checkpoint_short:
  assumes "dk_files (pe_disk pe) p = Some (take q (ckpt_bytes kvs))" "q < length (ckpt_bytes kvs)" "length kvs \<le> 65536"
  shows "load_checkpoint p pe = None"
proof -
  let ?m = "u32_bytes MATRIX_CKPT_MAGIC" and ?c = "u64_bytes (of_nat (length kvs) :: u64)"
    and ?e = "concat (map (\<lambda>(k, v). u64_bytes k @ u64_bytes v) kvs)"
  have len: "unat (of_nat (length kvs) :: u64) = length kvs" using assms(3) by (intro unat_of_nat_small) simp
  have q: "q < 12 + 16 * length kvs" using assms(2) by (simp add: length_ckpt_bytes)
  have le: "length ?e = 16 * length kvs" using length_ckpt_bytes [of kvs] by (simp add: ckpt_bytes_def)
  consider "q < 4" | "4 \<le> q" "q < 12" | "12 \<le> q" by linarith
  then show ?thesis
  proof cases
    case 1
    then show ?thesis using le by (simp add: load_checkpoint_def assms(1) ckpt_bytes_def)
  next
    case 2
    then obtain r where "take q (ckpt_bytes kvs) = ?m @ r" "length r < 8" by (simp add: ckpt_bytes_def)
    then show ?thesis by (simp add: load_checkpoint_def assms(1))
  next
    case 3
    then obtain r where "take q (ckpt_bytes kvs) = ?m @ ?c @ r" "length r < 16 * length kvs"
      using q le by (simp add: ckpt_bytes_def)
    then show ?thesis by (simp add: load_checkpoint_def assms(1) len load_entries_short)
  qed
qed

section \<open>A transaction from begin to commit\<close>

lemma one_write_transaction:
  assumes "pe_ok pe" "\<not> pe_in_txn pe" "log_room 40 pe" "card (insert k (dom (pe_map pe))) \<le> 65536"
  obtains pe1 pe2 pe3 where "txn_begin pe = Some pe1" "txn_put k v pe1 = Some pe2" "commit pe2 = Some pe3"
    "pe_txn_buf pe2 = [(k, v)]" "pe_kv pe2 = pe_kv pe" "pe_cold_store pe2 = pe_cold_store pe" "pe_disk pe2 = pe_disk pe"
    "pe_ok pe2" "log_room (length (log_bytes (group_ops (Txn [(k, v)])))) pe2" "pe_map pe3 = (pe_map pe)(k \<mapsto> v)"
proof -
  let ?pe1 = "pe\<lparr>pe_txn_buf := [], pe_in_txn := True\<rparr>"
  let ?pe2 = "?pe1\<lparr>pe_txn_buf := [(k, v)]\<rparr>"
  let ?l = "log_append (group_ops (Txn [(k, v)])) ?pe2"
  have steps: "txn_begin pe = Some ?pe1" "txn_put k v ?pe1 = Some ?pe2" using assms(2) by (simp_all add: txn_begin_def txn_put_def)
  have room: "log_room (length (log_bytes (group_ops (Txn [(k, v)])))) ?pe2"
    using assms(3) by (simp add: log_room_def log_bytes_def length_op_bytes)
  have ok: "pe_ok ?pe2" using assms(1) by (simp add: pe_ok_def mem_ok_def)
  have mem: "mem_ok ?l" using assms(1) by (simp add: pe_ok_def mem_ok_def)
  have "card (insert k (dom (pe_map ?l))) \<le> 65536" using assms(4) by simp
  with mem obtain pe' where "apply_committed_write k v ?l = Some pe'" by (rule apply_committed_write_fits)
  moreover have "with_log append_commit (with_log (append_txn_put k v) ?pe2) = ?l"
    using log_append_txn [of "[(k, v)]" ?pe2] by (simp del: group_ops.simps)
  ultimately obtain pe3 where c: "commit ?pe2 = Some pe3"
    by (simp add: commit_def Let_def del: group_ops.simps)
  have "pe_map pe3 = pe_map ?pe2 ++ map_of (rev (pe_txn_buf ?pe2))" using commit_ok [OF ok _ c] room by simp
  then show thesis using that [OF steps c] ok room by simp
qed

section \<open>Properties\<close>

text \<open>
  C2. Durability. Start the engine on a disk with no log and no checkpoint, and let it run through
  any sequence of batches, transactions, rollbacks, checkpoints, shutdowns and crashes between
  operations, on a disk that has room for what they write. Then opening the engine on what the disk
  holds succeeds and restores exactly the store: every key reads as before, and the ordered index
  is the same.
\<close>

theorem recovery_restores_store:
  assumes "fresh_disk wal d" "wal \<noteq> []" "engine_open wal sync d = Some pe0" "pe_step\<^sup>*\<^sup>* pe0 pe"
  shows "\<exists>pe'. engine_open wal sync' (pe_disk pe) = Some pe' \<and>
    (\<forall>k. kv_get k (pe_kv pe') = kv_get k (pe_kv pe)) \<and> pe_key_index pe' = pe_key_index pe"
proof -
  obtain pe00 where o: "engine_open wal sync d = Some pe00" "pe_ok pe00"
    "pe_cold_store pe00 = Some \<lparr>cs_path = wal, cs_policy = sync, cs_records_written = 0\<rparr>"
    using engine_open_fresh [OF assms(1,2)] by metis
  have ok: "pe_ok pe" "pe_wal pe = Some wal" using pe_run_ok [OF assms(4)] o assms(3) by (simp_all add: pe_wal_def)
  then obtain cs where cs: "pe_cold_store pe = Some cs" "cs_path cs = wal" by (auto simp: pe_wal_def)
  obtain pe' where pe': "engine_open wal sync' (pe_disk pe) = Some pe'" "pe_ok pe'" "pe_map pe' = pe_map pe"
    using reopen_ok [OF ok(1) cs(1), of sync'] cs(2) by metis
  have "pe_key_index pe' = pe_key_index pe"
    using ok(1) pe'(2,3) by (intro strict_assoc_unique) (simp_all add: pe_ok_def mem_ok_def)
  then show ?thesis using pe' by (auto simp: kvm.contents_def fun_eq_iff)
qed

text \<open>
  C3. A transaction is atomic under a crash. If the process dies while \<open>commit\<close> writes to the log, so
  that any part of what it appends is on disk, the reopened engine has the store from before the
  transaction, or, when the whole group reached the file, the one after it.
\<close>

theorem commit_crash_atomic:
  assumes "pe_ok pe" "pe_cold_store pe = Some cs" "commit pe = Some pe'"
    and "log_room (length (log_bytes (group_ops (Txn (pe_txn_buf pe))))) pe"
    and "length (file_bytes (cs_path cs) (pe_disk pe)) \<le> n"
    and "d = (pe_disk pe')\<lparr>dk_files := (dk_files (pe_disk pe'))(cs_path cs \<mapsto> take n (file_bytes (cs_path cs) (pe_disk pe')))\<rparr>"
  shows "\<exists>pe2. engine_open (cs_path cs) sync d = Some pe2 \<and>
    pe_map pe2 = (if n < length (file_bytes (cs_path cs) (pe_disk pe')) then pe_map pe else pe_map pe')"
proof -
  let ?wal = "cs_path cs" and ?g = "Txn (pe_txn_buf pe)" and ?d' = "pe_disk pe'"
  have ok: "mem_ok pe" "?wal \<noteq> []" "dk_writable (pe_disk pe) ?wal" using assms(1,2) by (simp_all add: pe_ok_def)
  note ok' = commit_ok [OF assms(1,4,3)]
  obtain gs m0 where dur: "file_bytes ?wal (pe_disk pe) = log_bytes (groups_ops gs)"
    "ckpt_holds (pe_disk pe) (?wal @ ''.ckpt'') m0" "pe_map pe = m0 ++ map_of (rev (group_writes gs))"
    using assms(1,2) by (auto simp: pe_ok_def durable_def)
  obtain cs' where f: "fold wal_append (group_ops ?g) (cs, pe_disk pe) = (cs', ?d')"
    using commit_disk [OF ok(1) assms(2,3)] by (metis eq_snd_iff)
  note env = fold_wal_append_env [OF f]
  have log: "file_bytes ?wal ?d' = log_bytes (groups_ops (gs @ [?g]))"
    using fold_wal_append [OF dur(1), of "group_ops ?g"] f assms(2,4) dur(1)
    by (simp add: log_room_def groups_ops_def del: group_ops.simps)
  have wal: "file_bytes ?wal d = take n (file_bytes ?wal ?d')" by (simp add: assms(6))
  let ?kvs = "group_writes (if n < length (file_bytes ?wal ?d') then gs else gs @ [?g])"
  have kvs: "?kvs = replay_loop [] (file_bytes ?wal d)"
    unfolding wal using assms(5) dur(1) log by (intro replay_cut_group [symmetric]) simp_all
  have ck: "ckpt_holds d (?wal @ ''.ckpt'') m0"
    using dur(2) env(5) [of "?wal @ ''.ckpt''"] by (simp add: assms(6) ckpt_holds_def)
  have m: "m0 ++ map_of (rev ?kvs) = (if n < length (file_bytes ?wal ?d') then pe_map pe else pe_map pe')"
    using ok' dur(3) by simp
  have "card (dom m0 \<union> fst ` set ?kvs) \<le> 65536"
    unfolding dom_overlay [symmetric] m using pe_map_card [OF ok(1)] pe_map_card [of pe'] ok'
    by (cases "n < length (file_bytes ?wal ?d')") (auto simp only: pe_ok_def if_True if_False)
  moreover have "dk_writable d ?wal" using ok(3) env(3) by (simp add: assms(6))
  ultimately show ?thesis using engine_open_recovers [OF ck _ ok(2) kvs] unfolding m by metis
qed


text \<open>
  C10. A checkpoint is safe at every crash point. Of all the disks a checkpoint passes through, from the
  one it starts on, after every byte of the temporary file, after the rename, and between the two steps that
  empty the log, to the one it leaves: opening the engine on it restores the same store. The completed
  checkpoint leaves the store as it was and an empty log. The disks are those of the run of the
  checkpoint itself, so that emptying the log before the new checkpoint is in place would not do.
\<close>

theorem checkpoint_crash_safe:
  assumes "pe_ok pe" "pe_cold_store pe = Some cs" "\<not> pe_in_txn pe" "ckpt_room pe"
  shows "\<exists>ds pe2. checkpoint_run pe = (ds, Some pe2) \<and> checkpoint pe = Some pe2 \<and>
    pe_map pe2 = pe_map pe \<and> file_bytes (cs_path cs) (pe_disk pe2) = [] \<and> wal_records pe2 = 0 \<and> pe_disk pe2 \<in> set ds \<and>
    (\<forall>d \<in> set (pe_disk pe # ds). \<exists>pe3. engine_open (cs_path cs) sync d = Some pe3 \<and> pe_map pe3 = pe_map pe)"
proof -
  let ?wal = "cs_path cs"
  have ok: "mem_ok pe" "?wal \<noteq> []" "dk_writable (pe_disk pe) ?wal" "durable ?wal (pe_disk pe) (pe_map pe)"
    "pe_checkpoint_path pe = ?wal @ ''.ckpt''" using assms(1,2) by (simp_all add: pe_ok_def)
  obtain pe1 cs' pe2 where c: "save_checkpoint (pe_checkpoint_path pe) pe = Some pe1" "checkpoint pe = Some pe2"
    "durable ?wal (pe_disk pe1) (pe_map pe)" "pe_ok pe2" "pe_map pe2 = pe_map pe" "file_bytes ?wal (pe_disk pe2) = []"
    "wal_records pe2 = 0" "pe_cold_store pe2 = Some cs'" "cs_path cs' = ?wal"
    "dk_writable (pe_disk pe1) = dk_writable (pe_disk pe)" "dk_writable (pe_disk pe2) = dk_writable (pe_disk pe)"
    using checkpoint_states [OF assms] by metis
  have reopen: "\<exists>pe3. engine_open ?wal sync d = Some pe3 \<and> pe_map pe3 = pe_map pe"
    if "durable ?wal d (pe_map pe)" "dk_writable d ?wal" for d
    using engine_open_durable [OF that(1) pe_map_card [OF ok(1)] that(2) ok(2)] by metis
  have dur2: "durable ?wal (pe_disk pe2) (pe_map pe)" using c(4,5,8,9) by (simp add: pe_ok_def)
  have tmp: "durable ?wal d (pe_map pe) \<and> dk_writable d ?wal" if "differs_at (?wal @ ''.ckpt.tmp'') (pe_disk pe) d" for d
    using that durable_tmp [OF ok(4)] ok(3) by (auto simp: differs_at_def)
  obtain ds where ds: "checkpoint_run pe = (ds, Some pe2)" using c(2) by (cases "checkpoint_run pe") (simp add: checkpoint_def)
  have "differs_at (?wal @ ''.ckpt.tmp'') (pe_disk pe) d \<or> d = pe_disk pe1 \<or> d = pe_disk pe2" if "d \<in> set ds" for d
    using that checkpoint_disks [OF assms(2,3) c(1) ds] ok(5) by auto
  then have "\<forall>d \<in> set (pe_disk pe # ds). \<exists>pe3. engine_open ?wal sync d = Some pe3 \<and> pe_map pe3 = pe_map pe"
    using reopen tmp dur2 c(3,10,11) ok(3,4) by auto metis+
  then show ?thesis using ds c(2,5-7) checkpoint_disks(2) [OF assms(2,3) c(1) ds] by blast
qed

text \<open>
  C12. Binning by page does not change what a batch does. When the keys fit the store, a batch of at
  most 65536 queries returns; every read is answered as if the queries had run one after the other
  in batch order, the store ends with the same contents, and the counters count reads and writes.
  The answers stand in the binned buffer, grouped by page, in batch order within a page.
\<close>

theorem execute_batch_sequential:
  assumes "mem_ok pe" "length batch \<le> MATRIX_BATCH_MAX" "card (dom (pe_map pe) \<union> write_keys batch) \<le> 65536"
  shows "\<exists>pe'. execute_batch batch pe = Some pe' \<and> mem_ok pe' \<and>
    (batch \<noteq> [] \<longrightarrow> take (length batch) (pe_binned pe') =
       concat (map (\<lambda>p. filter (\<lambda>q. query_page q = p) (fst (seq_batch (pe_map pe) batch))) [0..<MATRIX_PAGE_COUNT])) \<and>
    pe_map pe' = snd (seq_batch (pe_map pe) batch) \<and>
    pe_reads pe' = pe_reads pe + op_count OP_READ batch \<and>
    pe_writes pe' = pe_writes pe + op_count OP_WRITE batch \<and> pe_commits pe' = pe_commits pe + op_count OP_WRITE batch"
proof (cases "batch = []")
  case True
  then show ?thesis using assms(1) by (simp add: execute_batch_def)
next
  case False
  have len: "length (pe_binned pe) = MATRIX_BATCH_MAX" using assms(1) by (simp add: mem_ok_def)
  have b: "batch = take MATRIX_BATCH_MAX batch" using assms(2) by simp
  let ?n = "length batch"
  obtain binned offsets where e: "execute_batch batch pe = opt_fold point_op [0..<?n] (pe\<lparr>pe_binned := binned, pe_offsets := offsets\<rparr>)"
    "take ?n binned = concat (map (\<lambda>p. filter (\<lambda>q. query_page q = p) batch) [0..<MATRIX_PAGE_COUNT])"
    "length binned = MATRIX_BATCH_MAX"
    using len False b by (rule execute_batch_flat)
  let ?pe = "pe\<lparr>pe_binned := binned, pe_offsets := offsets\<rparr>"
  have mem: "mem_ok ?pe" using assms(1) e(3) by (simp add: mem_ok_def)
  have sets: "set (take ?n binned) = set batch" "mset (take ?n binned) = mset batch"
    unfolding e(2) using pages_mset [of batch] by (simp_all flip: set_mset_mset)
  have wk: "write_keys (take ?n binned) = write_keys batch" by (simp add: write_keys_def sets(1))
  have cnt: "op_count op (take ?n binned) = op_count op batch" for op
    using sets(2) by (metis mset_filter size_mset)
  obtain pe' where pe': "opt_fold point_op [0..<?n] ?pe = Some pe'" "mem_ok pe'"
    "pe_binned pe' = fst (seq_batch (pe_map pe) (take ?n binned)) @ drop ?n binned"
    "pe_map pe' = snd (seq_batch (pe_map pe) (take ?n binned))"
    "pe_reads pe' = pe_reads pe + op_count OP_READ (take ?n binned)"
    "pe_writes pe' = pe_writes pe + op_count OP_WRITE (take ?n binned)"
    "pe_commits pe' = pe_commits pe + op_count OP_WRITE (take ?n binned)"
    using point_ops_seq [OF mem, of ?n] assms(2,3) e(3) by (auto simp: wk)
  have pages: "take ?n binned = concat (map (\<lambda>p. filter (\<lambda>q. matrix_page_of (query_id q) = p) batch) [0..<MATRIX_PAGE_COUNT])"
    using e(2) by (simp add: query_page_def)
  note seq = seq_batch_pages [OF pages, of "pe_map pe"]
  have "length (fst (seq_batch (pe_map pe) (take ?n binned))) = ?n" using assms(2) e(3) by simp
  then have "take ?n (pe_binned pe') = fst (seq_batch (pe_map pe) (take ?n binned))" by (simp add: pe'(3))
  moreover have "pe_map pe' = snd (seq_batch (pe_map pe) batch)"
    unfolding pe'(4) seq(2) by (simp add: matrix_page_of_less)
  ultimately show ?thesis using pe'(1,2,5-7) seq(1) unfolding e(1) cnt query_page_def by auto
qed


text \<open>
  The ordered index answers range scans. When it mirrors the store, as every run keeps it, the
  indexed scan returns the same pairs as the full scan of the table, in ascending key order.
\<close>

theorem range_sorted_correct:
  assumes "mem_ok pe"
  shows "set (kv_range_sorted lo hi pe) = set (kv_range lo hi pe) \<and>
    sorted_wrt (<) (map fst (kv_range_sorted lo hi pe)) \<and>
    set (kv_range lo hi pe) = {(k, v). lo \<le> k \<and> k \<le> hi \<and> kv_get k (pe_kv pe) = Some v}"
proof -
  have inv: "kv_inv (pe_kv pe)" and s: "sorted_wrt (<) (map fst (pe_key_index pe))"
    and m: "map_of (pe_key_index pe) = pe_map pe" using assms by (simp_all add: mem_ok_def)
  have d: "distinct (map fst (pe_key_index pe))" using s by (simp add: strict_sorted_iff)
  have rs: "kv_range_sorted lo hi pe = filter (\<lambda>(k, v). lo \<le> k \<and> k \<le> hi) (pe_key_index pe)"
    unfolding kv_range_sorted_def by (rule takeWhile_sorted [OF s])
  have idx: "(k, v) \<in> set (pe_key_index pe) \<longleftrightarrow> kv_get k (pe_kv pe) = Some v" for k v
    using map_of_eq_Some_iff [OF d] fun_cong [OF m] by (simp add: kvm.contents_def)
  have ent: "(k, v) \<in> set (kv_entries (pe_kv pe)) \<longleftrightarrow> kv_get k (pe_kv pe) = Some v" for k v
    using map_of_eq_Some_iff [OF distinct_kv_entries [OF inv]] kv_get_entries [OF inv] by simp
  have "sorted_wrt (<) (map fst (kv_range_sorted lo hi pe))"
    unfolding rs using s by (simp add: sorted_wrt_map sorted_wrt_filter)
  then show ?thesis by (auto simp: rs kv_range_def idx ent)
qed

text \<open>
  C23. A checkpoint on a full disk can destroy the database. \<open>save_checkpoint\<close> does not look at the
  results of \<open>fflush\<close>, \<open>fsync\<close> and \<open>fclose\<close>. When the checkpoint fits the stream buffer but not
  the disk, every \<open>fwrite\<close> succeeds, the short file replaces the previous checkpoint, and the log is
  emptied: the call reports success, the store's writes are on no file, and the engine aborts at
  every later start.
\<close>

theorem checkpoint_full_disk_loses_store:
  assumes "pe_ok pe" "pe_cold_store pe = Some cs" "\<not> pe_in_txn pe"
    and "\<forall>n. \<not> dk_eager (pe_disk pe) (cs_path cs @ ''.ckpt.tmp'') n"
    and "dk_quota (pe_disk pe) (cs_path cs @ ''.ckpt.tmp'') < 12 + 16 * length (kv_entries (pe_kv pe))"
  shows "\<exists>pe'. checkpoint pe = Some pe' \<and> file_bytes (cs_path cs) (pe_disk pe') = [] \<and>
    engine_open (cs_path cs) sync (pe_disk pe') = None"
proof -
  let ?wal = "cs_path cs" and ?d = "pe_disk pe" and ?kvs = "kv_entries (pe_kv pe)"
  let ?p = "cs_path cs @ ''.ckpt''" and ?tmp = "cs_path cs @ ''.ckpt.tmp''"
  let ?q = "dk_quota ?d ?tmp"
  have ok: "mem_ok pe" "?wal \<noteq> []" "pe_checkpoint_path pe = ?p" "dk_writable ?d ?wal" "dk_writable ?d ?p" "dk_writable ?d ?tmp"
    using assms(1,2) by (simp_all add: pe_ok_def)
  have inv: "kv_inv (pe_kv pe)" "length ?kvs \<le> 65536" using ok(1) kv_entries_le [of "pe_kv pe"] by (auto simp: mem_ok_def)
  let ?d1 = "?d\<lparr>dk_files := (dk_files ?d)(?p \<mapsto> take ?q (ckpt_bytes ?kvs), ?tmp := None)\<rparr>"
  let ?d2 = "?d1\<lparr>dk_files := (dk_files ?d1)(?wal \<mapsto> [])\<rparr>"
  have sw: "stream_write ?tmp (ckpt_items (pe_kv pe)) ([], ?d\<lparr>dk_files := (dk_files ?d)(?tmp \<mapsto> [])\<rparr>) =
      (True, ckpt_bytes ?kvs, ?d\<lparr>dk_files := (dk_files ?d)(?tmp \<mapsto> [])\<rparr>)"
    using stream_write_buffered [of "?d\<lparr>dk_files := (dk_files ?d)(?tmp \<mapsto> [])\<rparr>" ?tmp "ckpt_items (pe_kv pe)" "[]"] assms(4)
    by (simp add: concat_ckpt_items [OF inv(1)])
  have save: "save_checkpoint ?p pe = Some (pe\<lparr>pe_disk := ?d1\<rparr>)"
    using ok(5,6) by (simp add: save_checkpoint_eq fopen_wb_def sw stream_close_def fwrite_def rename_file_def fun_upd_twist Let_def)
  have "wal_truncate cs ?d1 = Some (cs\<lparr>cs_records_written := 0\<rparr>, ?d2)"
    using ok(4) by (simp add: wal_truncate_eq fopen_wb_def fopen_ab_def file_bytes_def)
  then have chk: "checkpoint pe = Some (pe\<lparr>pe_cold_store := Some (cs\<lparr>cs_records_written := 0\<rparr>), pe_disk := ?d2,
      pe_checkpoints := pe_checkpoints pe + 1\<rparr>)" using assms(2,3) save ok(3) by (simp add: checkpoint_eq)
  have "load_checkpoint ?p pe1 = None" if "pe_disk pe1 = ?d2" for pe1
    by (rule load_checkpoint_short [of _ _ ?q ?kvs]) (use that assms(5) inv(2) in \<open>simp_all add: length_ckpt_bytes\<close>)
  then have "engine_open ?wal sync ?d2 = None"
    using ok(2) by (auto simp: engine_open_def split: bind_splits)
  with chk show ?thesis unfolding chk by (auto simp: file_bytes_def)
qed


section \<open>Witnesses\<close>

definition empty_disk :: "nat \<Rightarrow> disk" where
  "empty_disk n = \<lparr>dk_files = Map.empty, dk_writable = \<lambda>_. True, dk_quota = \<lambda>_. n, dk_eager = \<lambda>_ _. False\<rparr>"

lemma open_empty_disk:
  obtains pe where "engine_open ''wal'' SYNC_EACH (empty_disk n) = Some pe" "pe_ok pe" "pe_map pe = Map.empty" "\<not> pe_in_txn pe"
    "pe_cold_store pe = Some \<lparr>cs_path = ''wal'', cs_policy = SYNC_EACH, cs_records_written = 0\<rparr>"
    "dk_quota (pe_disk pe) = (\<lambda>_. n)" "file_bytes ''wal'' (pe_disk pe) = []" "kv_entries (pe_kv pe) = []"
    "dk_eager (pe_disk pe) = (\<lambda>_ _. False)"
proof -
  have "fresh_disk ''wal'' (empty_disk n)" by (simp add: fresh_disk_def empty_disk_def)
  then obtain pe where pe: "engine_open ''wal'' SYNC_EACH (empty_disk n) = Some pe" "pe_ok pe" "pe_map pe = Map.empty"
    "\<not> pe_in_txn pe" "pe_cold_store pe = Some \<lparr>cs_path = ''wal'', cs_policy = SYNC_EACH, cs_records_written = 0\<rparr>"
    "dk_quota (pe_disk pe) = dk_quota (empty_disk n)" "file_bytes ''wal'' (pe_disk pe) = []"
    "dk_eager (pe_disk pe) = dk_eager (empty_disk n)"
    by (rule engine_open_fresh) simp
  have "map_of (kv_entries (pe_kv pe)) = Map.empty"
    using kvm.contents_entries [of "pe_kv pe"] pe(2,3) by (simp add: pe_ok_def mem_ok_def)
  then have "kv_entries (pe_kv pe) = []" by (cases "kv_entries (pe_kv pe)") auto
  with pe show thesis by (intro that [of pe]) (simp_all add: empty_disk_def)
qed

theorem recovery_restores_store_witness:
  "\<exists>pe0 pe pe'. engine_open ''wal'' SYNC_EACH (empty_disk 1000) = Some pe0 \<and> pe_step\<^sup>*\<^sup>* pe0 pe \<and>
     engine_open ''wal'' SYNC_OFF (pe_disk pe) = Some pe' \<and> kv_get 7 (pe_kv pe') = Some 70"
proof -
  obtain pe where pe: "engine_open ''wal'' SYNC_EACH (empty_disk 1000) = Some pe" "pe_ok pe" "pe_map pe = Map.empty"
    "\<not> pe_in_txn pe" "pe_cold_store pe = Some \<lparr>cs_path = ''wal'', cs_policy = SYNC_EACH, cs_records_written = 0\<rparr>"
    "dk_quota (pe_disk pe) = (\<lambda>_. 1000)" "file_bytes ''wal'' (pe_disk pe) = []" by (rule open_empty_disk)
  have "log_room 40 pe" using pe(5-7) by (simp add: log_room_def)
  with pe(2,4) obtain pe1 pe2 pe3 where t: "txn_begin pe = Some pe1" "txn_put 7 70 pe1 = Some pe2" "commit pe2 = Some pe3"
    "pe_txn_buf pe2 = [(7, 70)]" "log_room (length (log_bytes (group_ops (Txn [(7, 70)])))) pe2" "pe_map pe3 = (pe_map pe)(7 \<mapsto> 70)"
    by (rule one_write_transaction [of pe 7 70]) (simp_all add: pe(3))
  have run: "pe_step\<^sup>*\<^sup>* pe pe3"
    using step_begin [OF t(1)] step_put [OF t(2)] step_commit [OF t(3) t(5) [folded t(4)]]
    by (meson converse_rtranclp_into_rtranclp rtranclp.rtrancl_refl)
  have "fresh_disk ''wal'' (empty_disk 1000)" by (simp add: fresh_disk_def empty_disk_def)
  from recovery_restores_store [OF this _ pe(1) run, of SYNC_OFF]
  obtain pe' where "engine_open ''wal'' SYNC_OFF (pe_disk pe3) = Some pe'" "kv_get 7 (pe_kv pe') = kv_get 7 (pe_kv pe3)" by auto
  moreover have "kv_get 7 (pe_kv pe3) = Some 70" using fun_cong [OF t(6), of 7] by (simp add: kvm.contents_def)
  ultimately show ?thesis using pe(1) run by auto
qed

theorem commit_crash_atomic_witness:
  "\<exists>pe pe' pe2. commit pe = Some pe' \<and> kv_get 7 (pe_kv pe') = Some 70 \<and>
     engine_open ''wal'' SYNC_EACH ((pe_disk pe')\<lparr>dk_files := (dk_files (pe_disk pe'))(''wal'' \<mapsto> take 30 (file_bytes ''wal'' (pe_disk pe')))\<rparr>) = Some pe2 \<and>
     (30 < length (file_bytes ''wal'' (pe_disk pe')) \<longrightarrow> kv_get 7 (pe_kv pe2) = None)"
proof -
  obtain pe where pe: "engine_open ''wal'' SYNC_EACH (empty_disk 1000) = Some pe" "pe_ok pe" "pe_map pe = Map.empty"
    "\<not> pe_in_txn pe" "pe_cold_store pe = Some \<lparr>cs_path = ''wal'', cs_policy = SYNC_EACH, cs_records_written = 0\<rparr>"
    "dk_quota (pe_disk pe) = (\<lambda>_. 1000)" "file_bytes ''wal'' (pe_disk pe) = []" by (rule open_empty_disk)
  have "log_room 40 pe" using pe(5-7) by (simp add: log_room_def)
  with pe(2,4) obtain pe2 pe3 where t: "commit pe2 = Some pe3" "pe_txn_buf pe2 = [(7, 70)]"
    "pe_kv pe2 = pe_kv pe" "pe_cold_store pe2 = pe_cold_store pe" "pe_disk pe2 = pe_disk pe" "pe_ok pe2"
    "log_room (length (log_bytes (group_ops (Txn [(7, 70)])))) pe2" "pe_map pe3 = (pe_map pe)(7 \<mapsto> 70)"
    by (rule one_write_transaction [of pe 7 70]) (simp_all add: pe(3))
  have cs: "pe_cold_store pe2 = Some \<lparr>cs_path = ''wal'', cs_policy = SYNC_EACH, cs_records_written = 0\<rparr>"
    using t(4) pe(5) by simp
  have n: "length (file_bytes ''wal'' (pe_disk pe2)) \<le> 30" by (simp add: t(5) pe(7))
  from commit_crash_atomic [OF t(6) cs t(1) t(7) [folded t(2)], of 30, OF _ refl, of SYNC_EACH] n
  obtain pe4 where "engine_open ''wal'' SYNC_EACH ((pe_disk pe3)\<lparr>dk_files := (dk_files (pe_disk pe3))(''wal'' \<mapsto>
       take 30 (file_bytes ''wal'' (pe_disk pe3)))\<rparr>) = Some pe4"
    "30 < length (file_bytes ''wal'' (pe_disk pe3)) \<longrightarrow> pe_map pe4 = pe_map pe2" by auto
  moreover have "kv_get 7 (pe_kv pe3) = Some 70" using fun_cong [OF t(8), of 7] by (simp add: kvm.contents_def)
  moreover have "kv_get 7 (pe_kv pe2) = None" using fun_cong [OF pe(3), of 7] by (simp add: t(3) kvm.contents_def)
  ultimately show ?thesis using t(1)
    by (intro exI [of _ pe2] exI [of _ pe3] exI [of _ pe4]) (auto simp: kvm.contents_def fun_eq_iff)
qed

theorem checkpoint_crash_safe_witness:
  "\<exists>pe pe2 pe3. checkpoint pe = Some pe2 \<and> wal_records pe2 = 0 \<and>
     engine_open ''wal'' SYNC_EACH (pe_disk pe2) = Some pe3 \<and> pe_map pe3 = pe_map pe"
proof -
  obtain pe where pe: "pe_ok pe" "\<not> pe_in_txn pe"
    "pe_cold_store pe = Some \<lparr>cs_path = ''wal'', cs_policy = SYNC_EACH, cs_records_written = 0\<rparr>"
    "dk_quota (pe_disk pe) = (\<lambda>_. 1000)" "kv_entries (pe_kv pe) = []" by (rule open_empty_disk)
  have "ckpt_room pe" using pe(4,5) by (simp add: ckpt_room_def)
  from checkpoint_crash_safe [OF pe(1,3,2) this, of SYNC_EACH] show ?thesis by (auto 4 3)
qed

theorem execute_batch_sequential_witness:
  "let q = \<lambda>k op. \<lparr>query_id = k, timestamp_us = 0, transaction_id = 0, opcode = op, payload_size = 0, payload = []\<rparr>
   in \<exists>pe pe'. execute_batch [q 5 OP_WRITE, q 70 OP_READ, q 5 OP_READ] pe = Some pe' \<and>
        kv_get 5 (pe_kv pe') = Some 5 \<and> pe_reads pe' = pe_reads pe + 2"
proof -
  obtain pe where pe: "pe_ok pe" "pe_map pe = Map.empty" by (rule open_empty_disk [of 1000])
  define q where "q k op = \<lparr>query_id = k, timestamp_us = 0, transaction_id = 0, opcode = op, payload_size = 0, payload = []\<rparr>"
    for k :: u64 and op :: u32
  let ?b = "[q 5 OP_WRITE, q 70 OP_READ, q 5 OP_READ]"
  have ops: "OP_READ \<noteq> OP_WRITE" by (simp add: wal_consts)
  have wk: "write_keys ?b = {5}" using ops by (simp add: write_keys_Cons q_def) (simp add: write_keys_def)
  have "mem_ok pe" "length ?b \<le> MATRIX_BATCH_MAX" "card (dom (pe_map pe) \<union> write_keys ?b) \<le> 65536"
    using pe by (simp_all add: pe_ok_def wk MATRIX_BATCH_MAX_def)
  from execute_batch_sequential [OF this] obtain pe' where "execute_batch ?b pe = Some pe'"
    and m: "pe_map pe' = snd (seq_batch (pe_map pe) ?b)" and r: "pe_reads pe' = pe_reads pe + op_count OP_READ ?b" by blast
  moreover have "kv_get 5 (pe_kv pe') = Some 5"
    using fun_cong [OF m, of 5] ops by (simp add: q_def kvm.contents_def)
  moreover have "pe_reads pe' = pe_reads pe + 2" unfolding r using ops by (simp add: q_def)
  ultimately show ?thesis unfolding Let_def q_def [symmetric] by blast
qed

theorem range_sorted_correct_witness:
  "\<exists>pe. engine_open ''wal'' SYNC_EACH (empty_disk 1000) = Some pe \<and> set (kv_range_sorted 0 9 pe) = set (kv_range 0 9 pe)"
proof -
  obtain pe where pe: "engine_open ''wal'' SYNC_EACH (empty_disk 1000) = Some pe" "pe_ok pe" by (rule open_empty_disk)
  then have "mem_ok pe" by (simp add: pe_ok_def)
  from range_sorted_correct [OF this] pe(1) show ?thesis by blast
qed

theorem checkpoint_full_disk_loses_store_witness:
  "\<exists>pe pe'. pe_ok pe \<and> checkpoint pe = Some pe' \<and> engine_open ''wal'' SYNC_EACH (pe_disk pe') = None"
proof -
  obtain pe where pe: "pe_ok pe" "\<not> pe_in_txn pe"
    "pe_cold_store pe = Some \<lparr>cs_path = ''wal'', cs_policy = SYNC_EACH, cs_records_written = 0\<rparr>"
    "dk_quota (pe_disk pe) = (\<lambda>_. 0)" "dk_eager (pe_disk pe) = (\<lambda>_ _. False)" by (rule open_empty_disk)
  from checkpoint_full_disk_loses_store [OF pe(1,3,2), of SYNC_EACH] pe show ?thesis by auto
qed

end
