(* ===== verification/Cost_Model.thy ===== *)
theory Cost_Model
  imports Float64
begin

text \<open>
  The memory spaces (\<open>memory_model.hpp\<close>), the physics of the storage tiers (\<open>tier_model.hpp\<close>), the
  cost model that predicts scan and migration times (\<open>cost_model.hpp\<close>) and the placement policy
  of the router (\<open>router.hpp\<close>).
\<close>

datatype memory_space = HOST | DEVICE | COLD | UNIFIED

datatype memory_kind = DISCRETE_KIND | UNIFIED_KIND

record memory_model =
  mm_kind :: memory_kind

definition detect :: "bool \<Rightarrow> memory_model" where
  "detect gpu_available = \<lparr>mm_kind = DISCRETE_KIND\<rparr>"

definition is_unified :: "memory_model \<Rightarrow> bool" where
  "is_unified m \<longleftrightarrow> mm_kind m = UNIFIED_KIND"

record tier_phys =
  scan_bytes_per_us :: f64
  access_latency_us :: f64
  capacity_bytes :: u64
  concern :: string

fun tier_physics :: "memory_space \<Rightarrow> tier_phys" where
  "tier_physics DEVICE = \<lparr>scan_bytes_per_us = f64_of_int 240000, access_latency_us = f64_of_int 5,
     capacity_bytes = 16 * 1024 * 1024 * 1024, concern = ''scarce capacity; PCIe to reach''\<rparr>"
| "tier_physics HOST = \<lparr>scan_bytes_per_us = f64_of_int 10000, access_latency_us = f64_round False 1 10,
     capacity_bytes = 256 * 1024 * 1024 * 1024, concern = ''medium capacity''\<rparr>"
| "tier_physics COLD = \<lparr>scan_bytes_per_us = f64_of_int 3000, access_latency_us = f64_of_int 100,
     capacity_bytes = 0, concern = ''high latency; write wear; append-only''\<rparr>"
| "tier_physics UNIFIED = \<lparr>scan_bytes_per_us = f64_of_int 240000, access_latency_us = f64_round False 1 10,
     capacity_bytes = 0, concern = ''unified pool (future hardware)''\<rparr>"

record cost_model =
  cm_mm :: memory_model
  cm_gpu_available :: bool

definition CPU_SCAN_BPus :: f64 where "CPU_SCAN_BPus = f64_of_int 10000"
definition GPU_SCAN_BPus :: f64 where "GPU_SCAN_BPus = f64_of_int 240000"
definition LAUNCH_US :: f64 where "LAUNCH_US = f64_of_int 30"

definition place_point :: "cost_model \<Rightarrow> memory_space" where
  "place_point cm = HOST"

definition host_scan_us :: "cost_model \<Rightarrow> u64 \<Rightarrow> f64" where
  "host_scan_us cm bytes = f64_div (f64_of_u64 bytes) CPU_SCAN_BPus"

definition device_scan_us :: "cost_model \<Rightarrow> u64 \<Rightarrow> f64" where
  "device_scan_us cm bytes =
     (let transfer = (if is_unified (cm_mm cm) then f64_zero else f64_zero)
      in f64_add (f64_add LAUNCH_US transfer) (f64_div (f64_of_u64 bytes) GPU_SCAN_BPus))"

definition place_scan :: "cost_model \<Rightarrow> u64 \<Rightarrow> memory_space" where
  "place_scan cm bytes =
     (if \<not> cm_gpu_available cm then HOST
      else if f64_lt (device_scan_us cm bytes) (host_scan_us cm bytes) then DEVICE else HOST)"

definition scan_us :: "cost_model \<Rightarrow> memory_space \<Rightarrow> u64 \<Rightarrow> f64" where
  "scan_us cm s bytes =
     (let launch = (if s = DEVICE then LAUNCH_US else f64_zero)
      in f64_add launch (f64_div (f64_of_u64 bytes) (scan_bytes_per_us (tier_physics s))))"

definition migration_us :: "cost_model \<Rightarrow> memory_space \<Rightarrow> memory_space \<Rightarrow> u64 \<Rightarrow> f64" where
  "migration_us cm from to bytes =
     (if from = to then f64_zero
      else if is_unified (cm_mm cm) then f64_zero
      else let read_bw = scan_bytes_per_us (tier_physics from);
               write_bw = scan_bytes_per_us (tier_physics to);
               slower = (if f64_lt read_bw write_bw then read_bw else write_bw)
           in f64_div (f64_of_u64 bytes) slower)"

section \<open>The router\<close>

text \<open>
  The router holds two engines, the second of which may be absent; the model of a route is the side
  whose engine executes the query. A dataset id outside the placement table fails the assertion.
\<close>

datatype engine_side = CPU_SIDE | GPU_SIDE

record router =
  rt_has_gpu :: bool
  rt_cm :: cost_model
  rt_placement :: "memory_space list"

definition route_batch :: "router \<Rightarrow> engine_side" where
  "route_batch r = (if place_point (rt_cm r) = DEVICE \<and> rt_has_gpu r then GPU_SIDE else CPU_SIDE)"

definition place_scan_column :: "u64 \<Rightarrow> router \<Rightarrow> u64 \<times> router" where
  "place_scan_column bytes r =
     (let home = (if rt_has_gpu r then place_scan (rt_cm r) bytes else HOST);
          r' = r\<lparr>rt_placement := rt_placement r @ [home]\<rparr>
      in (of_nat (length (rt_placement r') - 1), r'))"

definition route_scan :: "u64 \<Rightarrow> router \<Rightarrow> engine_side option" where
  "route_scan dataset_id r =
     (if unat dataset_id < length (rt_placement r)
      then Some (if rt_placement r ! unat dataset_id = DEVICE \<and> rt_has_gpu r then GPU_SIDE else CPU_SIDE)
      else None)"

definition home_of :: "u64 \<Rightarrow> router \<Rightarrow> memory_space option" where
  "home_of dataset_id r =
     (if unat dataset_id < length (rt_placement r) then Some (rt_placement r ! unat dataset_id) else None)"

end
