(* ===== verification/Tier_Manager.thy ===== *)
theory Tier_Manager
  imports Cost_Model
begin

text \<open>
  The auto-tiering brain of \<open>tier_manager.hpp\<close>: it tracks the access heat of every column and, on
  \<open>rebalance\<close>, decides promotions (capacity-gated, best net benefit first, with a swap when the
  target is full) and evictions. It moves no bytes.

  The column table \<open>cols_\<close> is an association list in the iteration order of the container. The
  loops over it that pick a victim or collect candidates run in that order.
\<close>

record tcol =
  tc_id :: u64
  tc_bytes :: u64
  tc_tier :: memory_space
  tc_heat :: f64
  tc_recent_bytes :: u64
  tc_arrived_tick :: u64

type_synonym tcols = "(u64 \<times> tcol) list"

record migration_decision =
  md_column_id :: u64
  md_from :: memory_space
  md_to :: memory_space

record tier_manager =
  tm_cm :: cost_model
  tm_device_cap :: u64
  tm_host_cap :: u64
  tm_tick :: u64
  tm_cols :: tcols

definition TierManager :: "cost_model \<Rightarrow> u64 \<Rightarrow> u64 \<Rightarrow> tier_manager" where
  "TierManager cm device_cap host_cap =
     \<lparr>tm_cm = cm, tm_device_cap = device_cap, tm_host_cap = host_cap, tm_tick = 0, tm_cols = []\<rparr>"

text \<open>\<open>upd_col\<close> changes the entry of a column in place.\<close>

definition upd_col :: "u64 \<Rightarrow> (tcol \<Rightarrow> tcol) \<Rightarrow> tcols \<Rightarrow> tcols" where
  "upd_col k f cols = map (\<lambda>(k', c). (k', if k' = k then f c else c)) cols"

definition register_column :: "u64 \<Rightarrow> u64 \<Rightarrow> memory_space \<Rightarrow> tier_manager \<Rightarrow> tier_manager" where
  "register_column cid bytes initial_tier tm =
     tm\<lparr>tm_cols := al_upd cid \<lparr>tc_id = cid, tc_bytes = bytes, tc_tier = initial_tier, tc_heat = f64_zero,
         tc_recent_bytes = 0, tc_arrived_tick = tm_tick tm\<rparr> (tm_cols tm)\<rparr>"

definition update_bytes :: "u64 \<Rightarrow> u64 \<Rightarrow> tier_manager \<Rightarrow> tier_manager" where
  "update_bytes cid bytes tm = tm\<lparr>tm_cols := upd_col cid (\<lambda>c. c\<lparr>tc_bytes := bytes\<rparr>) (tm_cols tm)\<rparr>"

definition HEAT_ALPHA :: f64 where "HEAT_ALPHA = f64_round False 1 2"
definition HYSTERESIS :: f64 where "HYSTERESIS = f64_round False 3 2"
definition SCAN_HORIZON :: int where "SCAN_HORIZON = 8"
definition MIN_RESIDENCY_TICKS :: u64 where "MIN_RESIDENCY_TICKS = 2"
definition SWAP_MARGIN :: f64 where "SWAP_MARGIN = f64_round False 3 2"

definition record_access :: "u64 \<Rightarrow> u64 \<Rightarrow> tier_manager \<Rightarrow> tier_manager" where
  "record_access cid bytes tm =
     tm\<lparr>tm_cols := upd_col cid (\<lambda>c. c\<lparr>tc_recent_bytes := tc_recent_bytes c + bytes\<rparr>) (tm_cols tm)\<rparr>"

fun faster_tier :: "memory_space \<Rightarrow> memory_space" where
  "faster_tier COLD = HOST"
| "faster_tier HOST = DEVICE"
| "faster_tier t = t"

fun slower_tier :: "memory_space \<Rightarrow> memory_space" where
  "slower_tier DEVICE = HOST"
| "slower_tier HOST = COLD"
| "slower_tier t = t"

text \<open>
  The conversion of a \<open>double\<close> to \<open>int\<close>. C++ leaves it undefined out of the range of \<open>int\<close>; there the model has the
  value that the x86-64 instruction delivers, \<open>-2 ^ 31\<close>.
\<close>

definition f64_to_int32 :: "f64 \<Rightarrow> int" where
  "f64_to_int32 x =
     (case f64_trunc x of None \<Rightarrow> - (2 ^ 31)
      | Some i \<Rightarrow> if - (2 ^ 31) \<le> i \<and> i < 2 ^ 31 then i else - (2 ^ 31))"

definition est_future_scans :: "tcol \<Rightarrow> int" where
  "est_future_scans c =
     (if tc_bytes c = 0 then 0
      else let scans = f64_div (tc_heat c) (f64_of_u64 (tc_bytes c));
               n = f64_to_int32 (f64_add scans (f64_round False 1 2));
               n = (if n < 0 then 0 else n)
           in if SCAN_HORIZON < n then SCAN_HORIZON else n)"

record promote_ev =
  pe_benefit :: f64
  pe_cost :: f64

definition promote_eval :: "cost_model \<Rightarrow> tcol \<Rightarrow> promote_ev" where
  "promote_eval cm c =
     (let faster = faster_tier (tc_tier c) in
      if faster = tc_tier c then \<lparr>pe_benefit = f64_zero, pe_cost = f64_zero\<rparr>
      else \<lparr>pe_benefit = f64_mul (f64_sub (scan_us cm (tc_tier c) (tc_bytes c)) (scan_us cm faster (tc_bytes c)))
                          (f64_of_int (est_future_scans c)),
            pe_cost = migration_us cm (tc_tier c) faster (tc_bytes c)\<rparr>)"

definition should_promote :: "cost_model \<Rightarrow> tcol \<Rightarrow> bool" where
  "should_promote cm c =
     (if faster_tier (tc_tier c) = tc_tier c then False
      else let e = promote_eval cm c in f64_lt (f64_mul HYSTERESIS (pe_cost e)) (pe_benefit e))"

definition promote_net_benefit :: "cost_model \<Rightarrow> tcol \<Rightarrow> f64" where
  "promote_net_benefit cm c = (let e = promote_eval cm c in f64_sub (pe_benefit e) (pe_cost e))"

definition capacity_of :: "tier_manager \<Rightarrow> memory_space \<Rightarrow> u64" where
  "capacity_of tm t = (if t = DEVICE then tm_device_cap tm else if t = HOST then tm_host_cap tm else 0)"

definition keep_score :: "cost_model \<Rightarrow> tcol \<Rightarrow> f64" where
  "keep_score cm c =
     (let slower = slower_tier (tc_tier c) in
      if slower = tc_tier c then f64_of_int (10 ^ 300)
      else f64_mul (f64_sub (scan_us cm slower (tc_bytes c)) (scan_us cm (tc_tier c) (tc_bytes c)))
             (f64_of_int (est_future_scans c)))"

definition resident_bytes :: "memory_space \<Rightarrow> tcols \<Rightarrow> u64" where
  "resident_bytes t cols =
     fold (\<lambda>(k, c) s. if tc_tier c = t then s + tc_bytes c else s) cols 0"

definition tier_of :: "u64 \<Rightarrow> tier_manager \<Rightarrow> memory_space option" where
  "tier_of cid tm = map_option tc_tier (map_of (tm_cols tm) cid)"

definition heat_of :: "u64 \<Rightarrow> tier_manager \<Rightarrow> f64 option" where
  "heat_of cid tm = map_option tc_heat (map_of (tm_cols tm) cid)"

text \<open>
  The victim of an eviction: the resident of the tier with the lowest \<open>keep_score\<close> below \<open>1e301\<close>
  that has been there for at least \<open>MIN_RESIDENCY_TICKS\<close>; among equals the first in the order.
\<close>

definition EVICT_BOUND :: f64 where "EVICT_BOUND = f64_of_int (10 ^ 301)"

definition find_victim :: "cost_model \<Rightarrow> u64 \<Rightarrow> memory_space \<Rightarrow> tcols \<Rightarrow> u64 option" where
  "find_victim cm tick tier cols =
     fst (fold (\<lambda>(k, c) (victim, worst).
            if tc_tier c \<noteq> tier then (victim, worst)
            else if tick - tc_arrived_tick c < MIN_RESIDENCY_TICKS then (victim, worst)
            else let s = keep_score cm c in if f64_lt s worst then (Some k, s) else (victim, worst))
          cols (None, EVICT_BOUND))"

definition move_col :: "u64 \<Rightarrow> memory_space \<Rightarrow> u64 \<Rightarrow> tcols \<Rightarrow> tcols" where
  "move_col k to tick = upd_col k (\<lambda>c. c\<lparr>tc_tier := to, tc_arrived_tick := tick\<rparr>)"

text \<open>The running state of a pass is the column table and the decisions so far.\<close>

type_synonym plan = "tcols \<times> migration_decision list"

definition try_swap_promote ::
  "tier_manager \<Rightarrow> u64 \<Rightarrow> tcol \<Rightarrow> memory_space \<Rightarrow> u64 \<Rightarrow> plan \<Rightarrow> plan" where
  "try_swap_promote tm cid cand to cap p =
     (let (cols, decisions) = p in
      if cap = 0 then p
      else case find_victim (tm_cm tm) (tm_tick tm) to cols of None \<Rightarrow> p
      | Some vid \<Rightarrow>
        (case map_of cols vid of None \<Rightarrow> p
        | Some victim \<Rightarrow>
          if f64_le (pe_benefit (promote_eval (tm_cm tm) cand))
               (f64_mul SWAP_MARGIN (keep_score (tm_cm tm) victim)) then p
          else if cap < resident_bytes to cols - tc_bytes victim + tc_bytes cand then p
          else (move_col cid to (tm_tick tm) (move_col vid (slower_tier to) (tm_tick tm) cols),
                decisions @ [\<lparr>md_column_id = tc_id victim, md_from = tc_tier victim, md_to = slower_tier to\<rparr>,
                             \<lparr>md_column_id = tc_id cand, md_from = tc_tier cand, md_to = to\<rparr>])))"

definition promote_step :: "tier_manager \<Rightarrow> u64 \<Rightarrow> plan \<Rightarrow> plan" where
  "promote_step tm cid p =
     (let (cols, decisions) = p in
      case map_of cols cid of None \<Rightarrow> p
      | Some c \<Rightarrow>
        let to = faster_tier (tc_tier c); cap = capacity_of tm to in
        if \<not> (cap = 0 \<or> resident_bytes to cols + tc_bytes c \<le> cap) then try_swap_promote tm cid c to cap p
        else (move_col cid to (tm_tick tm) cols,
              decisions @ [\<lparr>md_column_id = tc_id c, md_from = tc_tier c, md_to = to\<rparr>]))"

text \<open>
  The order of the candidates: higher net benefit first, then lower id. \<open>insort_by\<close> sorts by it;
  the order is total on distinct ids, so every correct sort gives the same list.
\<close>

definition better :: "cost_model \<Rightarrow> tcols \<Rightarrow> u64 \<Rightarrow> u64 \<Rightarrow> bool" where
  "better cm cols a b =
     (let net = (\<lambda>k. case map_of cols k of None \<Rightarrow> f64_zero | Some c \<Rightarrow> promote_net_benefit cm c)
      in if \<not> f64_eq (net a) (net b) then f64_lt (net b) (net a) else a < b)"

fun insert_by :: "('a \<Rightarrow> 'a \<Rightarrow> bool) \<Rightarrow> 'a \<Rightarrow> 'a list \<Rightarrow> 'a list" where
  "insert_by lt x [] = [x]"
| "insert_by lt x (y # ys) = (if lt x y then x # y # ys else y # insert_by lt x ys)"

definition sort_by :: "('a \<Rightarrow> 'a \<Rightarrow> bool) \<Rightarrow> 'a list \<Rightarrow> 'a list" where
  "sort_by lt xs = fold (insert_by lt) xs []"

definition age_heat :: "tcols \<Rightarrow> tcols" where
  "age_heat cols =
     map (\<lambda>(k, c). (k, c\<lparr>tc_heat := f64_add (f64_mul HEAT_ALPHA (f64_of_u64 (tc_recent_bytes c)))
                                     (f64_mul (f64_sub (f64_of_int 1) HEAT_ALPHA) (tc_heat c)),
                        tc_recent_bytes := 0\<rparr>)) cols"

definition promote_pass :: "tier_manager \<Rightarrow> plan \<Rightarrow> plan" where
  "promote_pass tm p =
     (let cols = fst p;
          candidates = map fst (filter (\<lambda>(k, c). should_promote (tm_cm tm) c) cols)
      in fold (promote_step tm) (sort_by (better (tm_cm tm) cols) candidates) p)"

text \<open>The eviction loop: \<open>for (;;)\<close> until the tier fits or nothing in it is evictable.\<close>

definition evictable :: "u64 \<Rightarrow> memory_space \<Rightarrow> tcol \<Rightarrow> bool" where
  "evictable tick tier c \<longleftrightarrow> tc_tier c = tier \<and> \<not> tick - tc_arrived_tick c < MIN_RESIDENCY_TICKS"


lemma find_victim_fold:
  assumes "fold (\<lambda>(k, c) (victim, worst).
            if tc_tier c \<noteq> tier then (victim, worst)
            else if tick - tc_arrived_tick c < MIN_RESIDENCY_TICKS then (victim, worst)
            else let s = keep_score cm c in if f64_lt s worst then (Some k, s) else (victim, worst))
          cols (v, w) = (Some k, w')"
  shows "v = Some k \<or> (\<exists>c. (k, c) \<in> set cols \<and> evictable tick tier c)"
  using assms
proof (induction cols arbitrary: v w)
  case Nil
  then show ?case by simp
next
  case (Cons kc cols)
  obtain k' c where kc: "kc = (k', c)" by fastforce
  obtain v1 w1 where s: "(if tc_tier c \<noteq> tier then (v, w)
      else if tick - tc_arrived_tick c < MIN_RESIDENCY_TICKS then (v, w)
      else let s = keep_score cm c in if f64_lt s w then (Some k', s) else (v, w)) = (v1, w1)"
    by fastforce
  have "v1 = Some k \<or> (\<exists>c. (k, c) \<in> set cols \<and> evictable tick tier c)"
    using Cons.IH [of v1 w1] Cons.prems by (simp add: kc s)
  moreover have "v1 = v \<or> (v1 = Some k' \<and> evictable tick tier c)"
    using s by (auto simp: evictable_def Let_def split: if_splits)
  ultimately show ?case by (auto simp: kc)
qed

lemma find_victim_Some:
  assumes "find_victim cm tick tier cols = Some k"
  obtains c where "(k, c) \<in> set cols" "evictable tick tier c"
proof -
  obtain v w where "fold (\<lambda>(k, c) (victim, worst).
            if tc_tier c \<noteq> tier then (victim, worst)
            else if tick - tc_arrived_tick c < MIN_RESIDENCY_TICKS then (victim, worst)
            else let s = keep_score cm c in if f64_lt s worst then (Some k, s) else (victim, worst))
          cols (None, EVICT_BOUND) = (v, w)" by fastforce
  then have "\<exists>c. (k, c) \<in> set cols \<and> evictable tick tier c"
    using find_victim_fold [of tier tick cm cols None EVICT_BOUND k w] assms
    unfolding find_victim_def by simp
  then show thesis using that by blast
qed

lemma upd_col_filter_less:
  assumes "(k, c) \<in> set cols" "P c" "\<And>c. \<not> P (f c)"
  shows "length (filter (\<lambda>(k, c). P c) (upd_col k f cols)) < length (filter (\<lambda>(k, c). P c) cols)"
proof -
  have le: "length (filter (\<lambda>(k, c). P c) (upd_col k f xs)) \<le> length (filter (\<lambda>(k, c). P c) xs)" for xs
    by (induction xs) (auto simp: upd_col_def assms(3) le_SucI split: if_splits)
  show ?thesis using assms(1,2)
  proof (induction cols)
    case (Cons kc cols)
    then show ?case
      using le [of cols] assms(3) by (cases kc) (auto simp: upd_col_def le_imp_less_Suc less_SucI)
  qed simp
qed

function evict_loop :: "tier_manager \<Rightarrow> memory_space \<Rightarrow> u64 \<Rightarrow> plan \<Rightarrow> plan" where
  "evict_loop tm tier cap (cols, decisions) =
     (if resident_bytes tier cols \<le> cap then (cols, decisions)
      else case find_victim (tm_cm tm) (tm_tick tm) tier cols of None \<Rightarrow> (cols, decisions)
      | Some vid \<Rightarrow>
        (case map_of cols vid of None \<Rightarrow> (cols, decisions)
         | Some victim \<Rightarrow>
             evict_loop tm tier cap
               (move_col vid (slower_tier (tc_tier victim)) (tm_tick tm) cols,
                decisions @ [\<lparr>md_column_id = tc_id victim, md_from = tc_tier victim,
                              md_to = slower_tier (tc_tier victim)\<rparr>])))"
  by pat_completeness auto
termination
proof (relation "measure (\<lambda>(tm, tier, cap, cols, decisions).
    length (filter (\<lambda>(k, c). evictable (tm_tick tm) tier c) cols))", goal_cases)
  case 1
  show ?case by simp
next
  case (2 tm tier cap cols decisions vid victim)
  then obtain c where "(vid, c) \<in> set cols" "evictable (tm_tick tm) tier c"
    by (blast elim: find_victim_Some)
  then have "length (filter (\<lambda>(k, c). evictable (tm_tick tm) tier c)
      (upd_col vid (\<lambda>c. c\<lparr>tc_tier := slower_tier (tc_tier victim), tc_arrived_tick := tm_tick tm\<rparr>) cols))
    < length (filter (\<lambda>(k, c). evictable (tm_tick tm) tier c) cols)"
    by (rule upd_col_filter_less) (simp add: evictable_def MIN_RESIDENCY_TICKS_def)
  then show ?case by (simp add: move_col_def)
qed

declare evict_loop.simps [simp del]

definition evict_pass :: "tier_manager \<Rightarrow> plan \<Rightarrow> plan" where
  "evict_pass tm p =
     fold (\<lambda>tier p. let cap = capacity_of tm tier in if cap = 0 then p else evict_loop tm tier cap p)
       [DEVICE, HOST] p"

definition rebalance :: "tier_manager \<Rightarrow> migration_decision list \<times> tier_manager" where
  "rebalance tm =
     (let tm = tm\<lparr>tm_tick := tm_tick tm + 1\<rparr>;
          (cols, decisions) = evict_pass tm (promote_pass tm (age_heat (tm_cols tm), []))
      in (decisions, tm\<lparr>tm_cols := cols\<rparr>))"


section \<open>The column table\<close>

definition cols_ok :: "tcols \<Rightarrow> bool" where
  "cols_ok cols \<longleftrightarrow> distinct (map fst cols) \<and> (\<forall>(k, c) \<in> set cols. tc_id c = k)"

definition tiers :: "tcols \<Rightarrow> u64 \<rightharpoonup> memory_space" where
  "tiers cols k = map_option tc_tier (map_of cols k)"

definition sizes :: "tcols \<Rightarrow> (u64 \<times> u64) list" where
  "sizes cols = map (\<lambda>(k, c). (k, tc_bytes c)) cols"

lemma keys_upd_col [simp]: "map fst (upd_col k f cols) = map fst cols"
  by (induction cols) (auto simp: upd_col_def)

lemma map_of_upd_col:
  "map_of (upd_col k f cols) k' = (if k' = k then map_option f (map_of cols k') else map_of cols k')"
  by (induction cols) (auto simp: upd_col_def)

lemma cols_ok_id: "cols_ok cols \<Longrightarrow> map_of cols k = Some c \<Longrightarrow> tc_id c = k"
  by (auto simp: cols_ok_def dest!: map_of_SomeD)

lemma cols_ok_move [simp]: "cols_ok cols \<Longrightarrow> cols_ok (move_col k to tick cols)"
  by (auto simp: cols_ok_def move_col_def upd_col_def comp_def case_prod_unfold)

lemma tiers_move:
  "map_of cols k = Some c \<Longrightarrow> tiers (move_col k to tick cols) = (tiers cols)(k \<mapsto> to)"
  by (auto simp: tiers_def move_col_def map_of_upd_col fun_eq_iff)

lemma sizes_move [simp]: "sizes (move_col k to tick cols) = sizes cols"
  by (simp add: sizes_def move_col_def upd_col_def comp_def case_prod_unfold)

lemma map_of_move:
  "map_of (move_col k to tick cols) k' =
     (if k' = k then map_option (\<lambda>c. c\<lparr>tc_tier := to, tc_arrived_tick := tick\<rparr>) (map_of cols k')
      else map_of cols k')"
  by (simp add: move_col_def map_of_upd_col)

lemma find_victim_col:
  assumes "find_victim cm tick tier cols = Some k" "cols_ok cols"
  obtains c where "map_of cols k = Some c" "evictable tick tier c"
proof -
  obtain c where "(k, c) \<in> set cols" "evictable tick tier c"
    using assms(1) by (rule find_victim_Some)
  then show thesis using that assms(2) by (auto simp: cols_ok_def)
qed

lemma evictable_move: "\<not> evictable tick tier (c\<lparr>tc_tier := to, tc_arrived_tick := tick\<rparr>)"
  by (simp add: evictable_def MIN_RESIDENCY_TICKS_def)

section \<open>A plan is a sequence of adjacent moves\<close>

fun valid_plan :: "(u64 \<rightharpoonup> memory_space) \<Rightarrow> migration_decision list \<Rightarrow> bool" where
  "valid_plan \<tau> [] \<longleftrightarrow> True"
| "valid_plan \<tau> (d # ds) \<longleftrightarrow>
     \<tau> (md_column_id d) = Some (md_from d) \<and> md_to d \<noteq> md_from d \<and>
     (md_to d = faster_tier (md_from d) \<or> md_to d = slower_tier (md_from d)) \<and>
     valid_plan (\<tau>(md_column_id d \<mapsto> md_to d)) ds"

definition apply_plan :: "migration_decision list \<Rightarrow> (u64 \<rightharpoonup> memory_space) \<Rightarrow> u64 \<rightharpoonup> memory_space" where
  "apply_plan ds \<tau> = fold (\<lambda>d \<tau>. \<tau>(md_column_id d \<mapsto> md_to d)) ds \<tau>"

lemma valid_plan_append:
  "valid_plan \<tau> (xs @ ys) \<longleftrightarrow> valid_plan \<tau> xs \<and> valid_plan (apply_plan xs \<tau>) ys"
  by (induction xs arbitrary: \<tau>) (simp_all add: apply_plan_def)

lemma apply_plan_append: "apply_plan (xs @ ys) \<tau> = apply_plan ys (apply_plan xs \<tau>)"
  by (simp add: apply_plan_def)

definition plan_inv :: "(u64 \<rightharpoonup> memory_space) \<Rightarrow> (u64 \<times> u64) list \<Rightarrow> plan \<Rightarrow> bool" where
  "plan_inv \<tau> sz p \<longleftrightarrow>
     cols_ok (fst p) \<and> valid_plan \<tau> (snd p) \<and> tiers (fst p) = apply_plan (snd p) \<tau> \<and> sizes (fst p) = sz"

lemma plan_inv_move:
  assumes "plan_inv \<tau> sz (cols, ds)" "map_of cols k = Some c" "to \<noteq> tc_tier c"
    "to = faster_tier (tc_tier c) \<or> to = slower_tier (tc_tier c)"
  shows "plan_inv \<tau> sz (move_col k to tick cols,
    ds @ [\<lparr>md_column_id = tc_id c, md_from = tc_tier c, md_to = to\<rparr>])"
proof -
  have "tc_id c = k" using assms(1,2) by (auto simp: plan_inv_def cols_ok_id)
  moreover have "apply_plan ds \<tau> k = Some (tc_tier c)"
    using assms(1,2) by (simp add: plan_inv_def tiers_def fun_eq_iff) (metis option.simps(9))
  ultimately show ?thesis
    using assms by (simp add: plan_inv_def valid_plan_append tiers_move apply_plan_append) (simp add: apply_plan_def)
qed

lemma slower_ne_faster: "faster_tier t \<noteq> t \<Longrightarrow> slower_tier (faster_tier t) = t"
  by (cases t) auto

lemma try_swap_cases:
  assumes "plan_inv \<tau> sz (cols, ds)" "map_of cols cid = Some c" "to = faster_tier (tc_tier c)" "to \<noteq> tc_tier c"
  obtains "try_swap_promote tm cid c to cap (cols, ds) = (cols, ds)"
  | vid victim where "cap \<noteq> 0" "vid \<noteq> cid" "map_of cols vid = Some victim" "evictable (tm_tick tm) to victim"
      "resident_bytes to cols - tc_bytes victim + tc_bytes c \<le> cap"
      "try_swap_promote tm cid c to cap (cols, ds) =
         (move_col cid to (tm_tick tm) (move_col vid (slower_tier to) (tm_tick tm) cols),
          (ds @ [\<lparr>md_column_id = tc_id victim, md_from = tc_tier victim, md_to = slower_tier to\<rparr>]) @
          [\<lparr>md_column_id = tc_id c, md_from = tc_tier c, md_to = to\<rparr>])"
proof (cases "try_swap_promote tm cid c to cap (cols, ds) = (cols, ds)")
  case False
  obtain vid where vid: "find_victim (tm_cm tm) (tm_tick tm) to cols = Some vid" and cap: "cap \<noteq> 0"
    using False by (auto simp: try_swap_promote_def split: if_splits option.splits)
  obtain victim where victim: "map_of cols vid = Some victim" "evictable (tm_tick tm) to victim"
    using vid assms(1) by (auto simp: plan_inv_def elim: find_victim_col)
  have "vid \<noteq> cid" using victim assms(2,4) by (auto simp: evictable_def)
  moreover have "resident_bytes to cols - tc_bytes victim + tc_bytes c \<le> cap"
    using False vid victim(1) by (auto simp: try_swap_promote_def not_le split: if_splits)
  ultimately show thesis
    using that(2) [OF cap _ victim] False vid victim(1)
    by (auto simp: try_swap_promote_def split: if_splits)
qed (use that in blast)


text \<open>A column that is still waiting for its promotion is on a tier it can be promoted from.\<close>

definition promotable :: "tcols \<Rightarrow> u64 \<Rightarrow> bool" where
  "promotable cols k \<longleftrightarrow> (\<exists>c. map_of cols k = Some c \<and> tc_tier c \<in> {HOST, COLD})"

lemma promotable_move:
  "promotable cols k \<Longrightarrow> k \<noteq> cid \<or> to \<in> {HOST, COLD} \<Longrightarrow> promotable (move_col cid to tick cols) k"
  by (auto simp: promotable_def map_of_move)

lemma promote_step_cases:
  assumes "plan_inv \<tau> sz (cols, ds)" "promotable cols cid"
  obtains c to where "map_of cols cid = Some c" "tc_tier c \<in> {HOST, COLD}" "to = faster_tier (tc_tier c)"
    "promote_step tm cid (cols, ds) = (cols, ds)"
  | c to where "map_of cols cid = Some c" "tc_tier c \<in> {HOST, COLD}" "to = faster_tier (tc_tier c)"
    "capacity_of tm to = 0 \<or> resident_bytes to cols + tc_bytes c \<le> capacity_of tm to"
    "promote_step tm cid (cols, ds) = (move_col cid to (tm_tick tm) cols,
       ds @ [\<lparr>md_column_id = tc_id c, md_from = tc_tier c, md_to = to\<rparr>])"
  | c to vid victim where "map_of cols cid = Some c" "tc_tier c \<in> {HOST, COLD}" "to = faster_tier (tc_tier c)"
    "vid \<noteq> cid" "map_of cols vid = Some victim" "evictable (tm_tick tm) to victim" "capacity_of tm to \<noteq> 0"
    "resident_bytes to cols - tc_bytes victim + tc_bytes c \<le> capacity_of tm to"
    "promote_step tm cid (cols, ds) =
       (move_col cid to (tm_tick tm) (move_col vid (slower_tier to) (tm_tick tm) cols),
        (ds @ [\<lparr>md_column_id = tc_id victim, md_from = tc_tier victim, md_to = slower_tier to\<rparr>]) @
        [\<lparr>md_column_id = tc_id c, md_from = tc_tier c, md_to = to\<rparr>])"
proof -
  obtain c where c: "map_of cols cid = Some c" "tc_tier c \<in> {HOST, COLD}"
    using assms(2) by (auto simp: promotable_def)
  let ?to = "faster_tier (tc_tier c)" and ?cap = "capacity_of tm (faster_tier (tc_tier c))"
  have ne: "?to \<noteq> tc_tier c" using c(2) by auto
  show thesis
  proof (cases "?cap = 0 \<or> resident_bytes ?to cols + tc_bytes c \<le> ?cap")
    case True
    then have "promote_step tm cid (cols, ds) = (move_col cid ?to (tm_tick tm) cols,
        ds @ [\<lparr>md_column_id = tc_id c, md_from = tc_tier c, md_to = ?to\<rparr>])"
      using c(1) by (auto simp: promote_step_def Let_def)
    then show thesis by (rule that(2) [OF c refl True])
  next
    case False
    then have eq: "promote_step tm cid (cols, ds) = try_swap_promote tm cid c ?to ?cap (cols, ds)"
      using c(1) by (simp add: promote_step_def Let_def)
    show thesis
      using assms(1) c(1) refl ne
    proof (rule try_swap_cases [of \<tau> sz cols ds cid c ?to tm ?cap])
      assume "try_swap_promote tm cid c ?to ?cap (cols, ds) = (cols, ds)"
      then show thesis using that(1) [OF c refl] eq by simp
    next
      fix vid victim
      assume "?cap \<noteq> 0" "vid \<noteq> cid" "map_of cols vid = Some victim" "evictable (tm_tick tm) ?to victim"
        "resident_bytes ?to cols - tc_bytes victim + tc_bytes c \<le> ?cap"
        "try_swap_promote tm cid c ?to ?cap (cols, ds) =
         (move_col cid ?to (tm_tick tm) (move_col vid (slower_tier ?to) (tm_tick tm) cols),
          (ds @ [\<lparr>md_column_id = tc_id victim, md_from = tc_tier victim, md_to = slower_tier ?to\<rparr>]) @
          [\<lparr>md_column_id = tc_id c, md_from = tc_tier c, md_to = ?to\<rparr>])"
      then show thesis using that(3) [OF c refl] eq by simp
    qed
  qed
qed

lemma promote_step_inv:
  assumes "plan_inv \<tau> sz p" "promotable (fst p) cid"
  shows "plan_inv \<tau> sz (promote_step tm cid p)"
    and "k \<noteq> cid \<Longrightarrow> promotable (fst p) k \<Longrightarrow> promotable (fst (promote_step tm cid p)) k"
proof -
  obtain cols ds where p: "p = (cols, ds)" by fastforce
  have inv: "plan_inv \<tau> sz (cols, ds)" and prom: "promotable cols cid" using assms by (simp_all add: p)
  from inv prom have "plan_inv \<tau> sz (promote_step tm cid p) \<and>
    (k \<noteq> cid \<longrightarrow> promotable cols k \<longrightarrow> promotable (fst (promote_step tm cid p)) k)"
  proof (cases rule: promote_step_cases [of _ _ _ _ _ tm])
    case (1 c to)
    then show ?thesis using inv by (simp add: p)
  next
    case (2 c to)
    then have "to \<noteq> tc_tier c" by auto
    then show ?thesis using plan_inv_move [OF inv 2(1)] 2 by (simp add: p promotable_move)
  next
    case (3 c to vid victim)
    have v: "tc_tier victim = to" using 3(6) by (simp add: evictable_def)
    have s: "slower_tier to = tc_tier c" "to \<noteq> tc_tier c" using 3(2,3) by auto
    let ?cols = "move_col vid (slower_tier to) (tm_tick tm) cols"
    have inv1: "plan_inv \<tau> sz (?cols, ds @ [\<lparr>md_column_id = tc_id victim, md_from = tc_tier victim, md_to = slower_tier to\<rparr>])"
      using plan_inv_move [OF inv 3(5)] v s by simp
    have c: "map_of ?cols cid = Some c" using 3(1,4) by (simp add: map_of_move)
    have "plan_inv \<tau> sz (promote_step tm cid p)"
      unfolding p 3(9) using plan_inv_move [OF inv1 c, of to] s 3(3) by simp
    moreover have "promotable (fst (promote_step tm cid p)) k" if "k \<noteq> cid" "promotable cols k"
      using that s 3(2) by (simp add: p 3(9) promotable_move)
    ultimately show ?thesis by blast
  qed
  then show "plan_inv \<tau> sz (promote_step tm cid p)"
    and "k \<noteq> cid \<Longrightarrow> promotable (fst p) k \<Longrightarrow> promotable (fst (promote_step tm cid p)) k"
    by (simp_all add: p)
qed

lemma fold_promote_inv:
  assumes "plan_inv \<tau> sz p" "distinct ids" "\<forall>k \<in> set ids. promotable (fst p) k"
  shows "plan_inv \<tau> sz (fold (promote_step tm) ids p)"
  using assms
proof (induction ids arbitrary: p)
  case (Cons k ids)
  then have "plan_inv \<tau> sz (promote_step tm k p)" "\<forall>j \<in> set ids. promotable (fst (promote_step tm k p)) j"
    by (auto intro: promote_step_inv)
  then show ?case using Cons.IH Cons.prems(2) by simp
qed simp

lemma set_insert_by: "set (insert_by lt x xs) = insert x (set xs)"
  by (induction xs) auto

lemma distinct_insert_by: "distinct (insert_by lt x xs) \<longleftrightarrow> x \<notin> set xs \<and> distinct xs"
  by (induction xs) (auto simp: set_insert_by)

lemma set_sort_by [simp]: "set (sort_by lt xs) = set xs"
proof -
  have "set (fold (insert_by lt) xs ys) = set xs \<union> set ys" for ys
    by (induction xs arbitrary: ys) (auto simp: set_insert_by)
  then show ?thesis by (simp add: sort_by_def)
qed

lemma distinct_sort_by [simp]: "distinct (sort_by lt xs) \<longleftrightarrow> distinct xs"
proof -
  have "distinct (fold (insert_by lt) xs ys) \<longleftrightarrow> distinct (xs @ ys)" for ys
    by (induction xs arbitrary: ys) (auto simp: distinct_insert_by set_insert_by)
  then show ?thesis by (simp add: sort_by_def)
qed

lemma candidates_promotable:
  assumes "cols_ok cols"
  shows "\<forall>k \<in> set (map fst (filter (\<lambda>(k, c). should_promote cm c) cols)). promotable cols k"
proof
  fix k assume "k \<in> set (map fst (filter (\<lambda>(k, c). should_promote cm c) cols))"
  then obtain c where c: "(k, c) \<in> set cols" "should_promote cm c" by auto
  then have "map_of cols k = Some c" using assms by (simp add: cols_ok_def)
  moreover have "tc_tier c \<in> {HOST, COLD}"
    using c(2) by (cases "tc_tier c") (auto simp: should_promote_def)
  ultimately show "promotable cols k" by (auto simp: promotable_def)
qed

lemma promote_pass_inv:
  assumes "plan_inv \<tau> sz p"
  shows "plan_inv \<tau> sz (promote_pass tm p)"
proof -
  have ok: "cols_ok (fst p)" using assms by (simp add: plan_inv_def)
  then have "distinct (map fst (filter (\<lambda>(k, c). should_promote (tm_cm tm) c) (fst p)))"
    by (auto simp: cols_ok_def distinct_map intro: inj_on_subset)
  then show ?thesis
    using candidates_promotable [OF ok] assms unfolding promote_pass_def Let_def
    by (intro fold_promote_inv) simp_all
qed

text \<open>The eviction loop as a rule: what every eviction keeps holds at the end, where the loop has a reason to stop.\<close>

lemma evict_loop_rule [consumes 2, case_names init evict]:
  assumes "plan_inv \<tau> sz p" "tier \<in> {DEVICE, HOST}" "P p"
    and step: "\<And>cols ds vid victim. plan_inv \<tau> sz (cols, ds) \<Longrightarrow> P (cols, ds) \<Longrightarrow>
      map_of cols vid = Some victim \<Longrightarrow> evictable (tm_tick tm) tier victim \<Longrightarrow>
      P (move_col vid (slower_tier tier) (tm_tick tm) cols,
         ds @ [\<lparr>md_column_id = tc_id victim, md_from = tier, md_to = slower_tier tier\<rparr>])"
  shows "plan_inv \<tau> sz (evict_loop tm tier cap p) \<and> P (evict_loop tm tier cap p) \<and>
    (resident_bytes tier (fst (evict_loop tm tier cap p)) \<le> cap \<or>
     find_victim (tm_cm tm) (tm_tick tm) tier (fst (evict_loop tm tier cap p)) = None)"
  using assms
proof (induction tm tier cap p rule: evict_loop.induct)
  case (1 tm tier cap cols ds)
  show ?case
  proof (cases "resident_bytes tier cols \<le> cap \<or> find_victim (tm_cm tm) (tm_tick tm) tier cols = None")
    case True
    then have "evict_loop tm tier cap (cols, ds) = (cols, ds)" by (subst evict_loop.simps) auto
    then show ?thesis using True 1(2,4) by simp
  next
    case False
    then obtain vid where vid: "find_victim (tm_cm tm) (tm_tick tm) tier cols = Some vid" by auto
    obtain victim where victim: "map_of cols vid = Some victim" "evictable (tm_tick tm) tier victim"
      using vid 1(2) by (auto simp: plan_inv_def elim: find_victim_col)
    have t: "tc_tier victim = tier" using victim(2) by (simp add: evictable_def)
    let ?p = "(move_col vid (slower_tier tier) (tm_tick tm) cols,
      ds @ [\<lparr>md_column_id = tc_id victim, md_from = tier, md_to = slower_tier tier\<rparr>])"
    have eq: "evict_loop tm tier cap (cols, ds) = evict_loop tm tier cap ?p"
      using False vid victim(1) by (subst evict_loop.simps) (simp add: t)
    have "slower_tier tier \<noteq> tier" using 1(3) by auto
    then have "plan_inv \<tau> sz ?p" using plan_inv_move [OF 1(2) victim(1)] by (simp add: t)
    moreover have "P ?p" by (rule 1(5) [OF 1(2,4) victim])
    ultimately show ?thesis
      unfolding eq using 1(1) [OF _ vid victim(1)] 1(3,5) False by (simp add: t)
  qed
qed

lemma evict_loop_inv:
  "plan_inv \<tau> sz p \<Longrightarrow> tier \<in> {DEVICE, HOST} \<Longrightarrow> plan_inv \<tau> sz (evict_loop tm tier cap p)"
  using evict_loop_rule [of \<tau> sz p tier "\<lambda>_. True" tm cap] by simp

lemma evict_pass_inv: "plan_inv \<tau> sz p \<Longrightarrow> plan_inv \<tau> sz (evict_pass tm p)"
  by (simp add: evict_pass_def Let_def evict_loop_inv)

lemma age_heat_inv:
  assumes "cols_ok cols"
  shows "plan_inv (tiers cols) (sizes cols) (age_heat cols, [])"
proof -
  have "map_of (age_heat cols) k = map_option (\<lambda>c. c\<lparr>tc_heat := f64_add (f64_mul HEAT_ALPHA (f64_of_u64 (tc_recent_bytes c)))
      (f64_mul (f64_sub (f64_of_int 1) HEAT_ALPHA) (tc_heat c)), tc_recent_bytes := 0\<rparr>) (map_of cols k)" for k
    by (simp add: age_heat_def map_of_map)
  then have "tiers (age_heat cols) = tiers cols" by (auto simp: tiers_def fun_eq_iff option.map_comp comp_def)
  then show ?thesis using assms
    by (auto simp: plan_inv_def apply_plan_def cols_ok_def sizes_def age_heat_def comp_def case_prod_unfold)
qed

lemma rebalance_inv:
  assumes "cols_ok (tm_cols tm)" "rebalance tm = (ds, tm')"
  shows "plan_inv (tiers (tm_cols tm)) (sizes (tm_cols tm)) (tm_cols tm', ds)"
proof -
  let ?tm = "tm\<lparr>tm_tick := tm_tick tm + 1\<rparr>"
  have "plan_inv (tiers (tm_cols tm)) (sizes (tm_cols tm))
      (evict_pass ?tm (promote_pass ?tm (age_heat (tm_cols tm), [])))"
    using assms(1) by (intro evict_pass_inv promote_pass_inv age_heat_inv)
  then show ?thesis using assms(2) by (auto simp: rebalance_def case_prod_unfold Let_def)
qed


section \<open>Eviction leaves no evictable resident in an over-full tier\<close>

lemma bandwidth_ge_1:
  "f64_expo (scan_bytes_per_us (tier_physics t)) < 2047 \<and> 2 ^ 1074 \<le> f64_mag (scan_bytes_per_us (tier_physics t))"
proof -
  have "f64_expo (f64_of_int i) < 2047 \<and> 2 ^ 1074 \<le> f64_mag (f64_of_int i)" if "1 \<le> i" "i \<le> 2 ^ 64" for i
    using that f64_of_int_lower(1) [of 0 i] f64_of_int_within [of i 64] by (simp add: f64_within_def)
  then show ?thesis by (cases t) simp_all
qed

lemma scan_us_within: "f64_within 1139 (scan_us cm t bytes)"
proof -
  have "f64_within 1138 (f64_div (f64_of_u64 bytes) (scan_bytes_per_us (tier_physics t)))"
    using bandwidth_ge_1 [of t] by (intro f64_div_within f64_of_u64_within) simp_all
  moreover have "f64_within 1138 LAUNCH_US"
    unfolding LAUNCH_US_def using f64_of_int_within [of 30 5] by (auto intro: f64_within_mono)
  ultimately show ?thesis unfolding scan_us_def Let_def
    using f64_add_within [of 1138] by (simp add: f64_zero_within)
qed

lemma est_future_scans_range: "0 \<le> est_future_scans c \<and> est_future_scans c \<le> 8"
  by (simp add: est_future_scans_def SCAN_HORIZON_def Let_def)

lemma keep_score_within:
  assumes "slower_tier (tc_tier c) \<noteq> tc_tier c"
  shows "f64_within 1143 (keep_score cm c)"
proof -
  have "f64_within (1074 + 3) (f64_of_int (est_future_scans c))"
    using est_future_scans_range [of c] by (intro f64_of_int_within) simp_all
  moreover have "f64_within (1074 + 66) (f64_sub (scan_us cm (slower_tier (tc_tier c)) (tc_bytes c))
      (scan_us cm (tc_tier c) (tc_bytes c)))"
    using f64_sub_within [OF scan_us_within scan_us_within] by simp
  ultimately show ?thesis
    using assms f64_mul_within [of 66 _ 3] by (simp add: keep_score_def Let_def)
qed

lemma keep_score_below:
  assumes "slower_tier (tc_tier c) \<noteq> tc_tier c"
  shows "f64_lt (keep_score cm c) EVICT_BOUND"
proof -
  have big: "\<not> f64_is_nan (f64_of_int (10 ^ 301)) \<and> (2::int) ^ 1143 < f64_key (f64_of_int (10 ^ 301))"
  proof -
    have r: "(2::int) ^ 999 \<le> 10 ^ 301" "(10::int) ^ 301 \<le> 2 ^ 1000" by simp_all
    have "f64_within (1074 + 1000) (f64_of_int (10 ^ 301))" using r by (intro f64_of_int_within) simp_all
    moreover have "2 ^ (1074 + 999) \<le> f64_mag (f64_of_int (10 ^ 301))" using r by (rule f64_of_int_lower)
    then have "int (2 ^ (1074 + 999)) \<le> f64_key (f64_of_int (10 ^ 301))"
      unfolding f64_of_int_lower(2) [OF r] by (rule of_nat_mono)
    moreover have "(2::int) ^ 1143 < int (2 ^ (1074 + 999))" by simp
    ultimately show ?thesis using f64_within_finite by (meson less_le_trans)
  qed
  have "f64_key (keep_score cm c) \<le> int (f64_mag (keep_score cm c))" using f64_key_abs [of "keep_score cm c"] by linarith
  also have "\<dots> \<le> 2 ^ 1143"
    using keep_score_within [OF assms, of cm] unfolding f64_within_def by (metis of_nat_le_iff of_nat_numeral of_nat_power)
  finally show ?thesis
    using big f64_within_finite [OF keep_score_within [OF assms, of cm]]
    unfolding f64_lt_def EVICT_BOUND_def by linarith
qed


definition victim_step ::
  "cost_model \<Rightarrow> u64 \<Rightarrow> memory_space \<Rightarrow> u64 \<times> tcol \<Rightarrow> u64 option \<times> f64 \<Rightarrow> u64 option \<times> f64" where
  "victim_step cm tick tier = (\<lambda>(k, c) (victim, worst).
     if tc_tier c \<noteq> tier then (victim, worst)
     else if tick - tc_arrived_tick c < MIN_RESIDENCY_TICKS then (victim, worst)
     else let s = keep_score cm c in if f64_lt s worst then (Some k, s) else (victim, worst))"

lemma victim_step_Some: "fst (fold (victim_step cm tick tier) cols (Some v, w)) \<noteq> None"
proof (induction cols arbitrary: v w)
  case (Cons kc cols)
  have "\<exists>v' w'. victim_step cm tick tier kc (Some v, w) = (Some v', w')"
    by (cases kc) (auto simp: victim_step_def Let_def)
  then show ?case using Cons.IH by auto
qed simp

lemma find_victim_None:
  assumes "find_victim cm tick tier cols = None" "tier \<in> {DEVICE, HOST}" "(k, c) \<in> set cols"
  shows "\<not> evictable tick tier c"
proof -
  have "fst (fold (victim_step cm tick tier) cols (None, EVICT_BOUND)) = None"
    using assms(1) by (simp add: find_victim_def victim_step_def)
  then show ?thesis using assms(3)
  proof (induction cols)
    case (Cons kc cols)
    obtain k' c' where kc: "kc = (k', c')" by fastforce
    have step: "victim_step cm tick tier kc (None, EVICT_BOUND) =
        (if evictable tick tier c' then (Some k', keep_score cm c') else (None, EVICT_BOUND))"
      using keep_score_below [of c' cm] assms(2)
      by (auto simp: kc victim_step_def evictable_def Let_def)
    have "\<not> evictable tick tier c'"
      using Cons.prems(1) victim_step_Some [of cm tick tier cols k' "keep_score cm c'"] by (auto simp: step)
    then have "fst (fold (victim_step cm tick tier) cols (None, EVICT_BOUND)) = None"
      using Cons.prems(1) step by simp
    then show ?case using Cons.IH Cons.prems(2) \<open>\<not> evictable tick tier c'\<close> by (auto simp: kc)
  qed simp
qed

definition on_tier :: "memory_space \<Rightarrow> tcols \<Rightarrow> tcols" where
  "on_tier t cols = filter (\<lambda>(k, c). tc_tier c = t) cols"

lemma upd_col_absent: "k \<notin> fst ` set cols \<Longrightarrow> upd_col k f cols = cols"
  by (induction cols) (auto simp: upd_col_def)

lemma upd_col_Cons:
  "upd_col k f ((k', c) # cols) = (k', if k' = k then f c else c) # upd_col k f cols"
  by (simp add: upd_col_def)

lemma on_tier_move_other:
  assumes "distinct (map fst cols)" "map_of cols k = Some c" "tc_tier c \<noteq> t" "to \<noteq> t"
  shows "on_tier t (move_col k to tick cols) = on_tier t cols"
  using assms(1,2)
proof (induction cols)
  case (Cons kc cols)
  then show ?case
    using assms(3,4)
    by (cases kc) (auto simp: on_tier_def move_col_def upd_col_Cons upd_col_absent split: if_splits)
qed simp

lemma resident_on_tier: "resident_bytes t cols = sum_list (map (tc_bytes \<circ> snd) (on_tier t cols))"
proof -
  have "fold (\<lambda>(k, c) s. if tc_tier c = t then s + tc_bytes c else s) cols a =
      a + sum_list (map (tc_bytes \<circ> snd) (on_tier t cols))" for a
    by (induction cols arbitrary: a) (auto simp: on_tier_def add.assoc)
  then show ?thesis by (simp add: resident_bytes_def)
qed

lemma evict_loop_done:
  assumes "plan_inv \<tau> sz p" "tier \<in> {DEVICE, HOST}"
  shows "resident_bytes tier (fst (evict_loop tm tier cap p)) \<le> cap \<or>
    (\<forall>(k, c) \<in> set (on_tier tier (fst (evict_loop tm tier cap p))). \<not> evictable (tm_tick tm) tier c)"
  using evict_loop_rule [OF assms, of "\<lambda>_. True" tm cap] find_victim_None [OF _ assms(2)]
  by (fastforce simp: on_tier_def)

lemma evict_loop_other:
  assumes "plan_inv \<tau> sz p" "tier \<in> {DEVICE, HOST}" "t \<noteq> tier" "t \<noteq> slower_tier tier"
  shows "on_tier t (fst (evict_loop tm tier cap p)) = on_tier t (fst p)"
  using evict_loop_rule [OF assms(1,2), of "\<lambda>q. on_tier t (fst q) = on_tier t (fst p)" tm cap] assms(3,4)
  by (auto simp: on_tier_move_other plan_inv_def cols_ok_def evictable_def)

lemma evict_pass_done:
  assumes "plan_inv \<tau> sz p" "tier \<in> {DEVICE, HOST}" "capacity_of tm tier \<noteq> 0"
  shows "resident_bytes tier (fst (evict_pass tm p)) \<le> capacity_of tm tier \<or>
    (\<forall>(k, c) \<in> set (on_tier tier (fst (evict_pass tm p))). \<not> evictable (tm_tick tm) tier c)"
proof -
  define q where "q = (if capacity_of tm DEVICE = 0 then p else evict_loop tm DEVICE (capacity_of tm DEVICE) p)"
  have inv: "plan_inv \<tau> sz q" using assms(1) by (simp add: q_def evict_loop_inv)
  have eq: "evict_pass tm p = (if capacity_of tm HOST = 0 then q else evict_loop tm HOST (capacity_of tm HOST) q)"
    by (simp add: evict_pass_def Let_def q_def)
  show ?thesis
  proof (cases "tier = HOST")
    case True
    then show ?thesis using evict_loop_done [OF inv, of HOST tm "capacity_of tm HOST"] assms(3) by (simp add: eq)
  next
    case False
    then have dev: "tier = DEVICE" using assms(2) by simp
    have "on_tier DEVICE (fst (evict_pass tm p)) = on_tier DEVICE (fst q)"
      using evict_loop_other [OF inv, of HOST DEVICE] by (simp add: eq)
    then show ?thesis
      using evict_loop_done [OF assms(1), of DEVICE tm "capacity_of tm DEVICE"] assms(3)
      by (simp add: resident_on_tier dev q_def)
  qed
qed


section \<open>The CPU build\<close>

text \<open>
  The engine without a GPU gives the device tier a capacity of one byte. Its columns hold 4- or
  8-byte elements and start in HOST, so no column ever fits the device tier. \<open>cpu_inv\<close> is the
  invariant of that configuration.
\<close>

definition total_bytes :: "tcols \<Rightarrow> nat" where
  "total_bytes cols = sum_list (map (\<lambda>(k, b). unat b) (sizes cols))"

definition tier_load :: "memory_space \<Rightarrow> tcols \<Rightarrow> nat" where
  "tier_load t cols = sum_list (map (\<lambda>(k, c). unat (tc_bytes c)) (on_tier t cols))"

definition cpu_cols :: "tcols \<Rightarrow> bool" where
  "cpu_cols cols \<longleftrightarrow> cols_ok cols \<and>
     (\<forall>(k, c) \<in> set cols. tc_tier c \<in> {HOST, COLD} \<and> tc_bytes c mod 4 = 0)"

definition cpu_inv :: "tier_manager \<Rightarrow> bool" where
  "cpu_inv tm \<longleftrightarrow> cpu_cols (tm_cols tm) \<and> tm_device_cap tm = 1"

lemma tier_load_le: "tier_load t cols \<le> total_bytes cols"
  by (induction cols) (auto simp: tier_load_def total_bytes_def sizes_def on_tier_def)

lemma unat_resident:
  assumes "total_bytes cols < 2 ^ 64"
  shows "unat (resident_bytes t cols) = tier_load t cols"
  using assms
proof (induction cols)
  case Nil
  show ?case by (simp add: resident_on_tier tier_load_def on_tier_def)
next
  case (Cons kc cols)
  obtain k c where kc: "kc = (k, c)" by fastforce
  have tot: "total_bytes (kc # cols) = unat (tc_bytes c) + total_bytes cols"
    by (simp add: total_bytes_def sizes_def kc)
  then have IH: "unat (resident_bytes t cols) = tier_load t cols" using Cons by simp
  show ?case
  proof (cases "tc_tier c = t")
    case True
    then have r: "resident_bytes t (kc # cols) = tc_bytes c + resident_bytes t cols"
      "tier_load t (kc # cols) = unat (tc_bytes c) + tier_load t cols"
      by (simp_all add: resident_on_tier tier_load_def on_tier_def kc)
    have "unat (tc_bytes c) + unat (resident_bytes t cols) < 2 ^ LENGTH(64)"
      using IH tot Cons.prems tier_load_le [of t cols] by simp
    then show ?thesis using IH by (simp add: r unat_word_ariths)
  next
    case False
    then show ?thesis using IH by (simp add: resident_on_tier tier_load_def on_tier_def kc)
  qed
qed

lemma tier_load_move_to:
  assumes "distinct (map fst cols)" "map_of cols k = Some c" "tc_tier c \<noteq> t"
  shows "tier_load t (move_col k t tick cols) = tier_load t cols + unat (tc_bytes c)"
  using assms(1,2)
proof (induction cols)
  case (Cons kc cols)
  then show ?case
    using assms(3)
    by (cases kc) (auto simp: tier_load_def on_tier_def move_col_def upd_col_Cons upd_col_absent split: if_splits)
qed simp

lemma tier_load_move_from:
  assumes "distinct (map fst cols)" "map_of cols k = Some c" "tc_tier c = t" "to \<noteq> t"
  shows "tier_load t cols = tier_load t (move_col k to tick cols) + unat (tc_bytes c)"
  using assms(1,2)
proof (induction cols)
  case (Cons kc cols)
  then show ?case
    using assms(3,4)
    by (cases kc) (auto simp: tier_load_def on_tier_def move_col_def upd_col_Cons upd_col_absent split: if_splits)
qed simp

lemma cpu_cols_move:
  "cpu_cols cols \<Longrightarrow> to \<in> {HOST, COLD} \<Longrightarrow> cpu_cols (move_col k to tick cols)"
  by (auto simp: cpu_cols_def) (auto simp: move_col_def upd_col_def split: if_splits)

lemma cpu_cols_no_device: "cpu_cols cols \<Longrightarrow> on_tier DEVICE cols = []"
  by (auto simp: cpu_cols_def on_tier_def filter_empty_conv)

lemma cpu_cols_bytes: "cpu_cols cols \<Longrightarrow> map_of cols k = Some c \<Longrightarrow> tc_bytes c mod 4 = 0 \<and> tc_tier c \<in> {HOST, COLD}"
  by (auto simp: cpu_cols_def dest!: map_of_SomeD)

lemma f64_round_0: "0 < d \<Longrightarrow> f64_round s 0 d = f64_pack s 0"
  by (simp add: f64_round_def log_quot_def round_half_even_def bit_len.simps [of 0])

lemma f64_key_pack0: "f64_key (f64_pack s 0) = 0"
  by (simp add: f64_key_def f64_mag_def f64_pack_fields)


lemma f64_mul_zero_key:
  assumes "f64_within J x" "f64_within J y" "f64_mag x = 0 \<or> f64_mag y = 0"
  shows "f64_key (f64_mul x y) = 0"
  using assms f64_within_finite [OF assms(1)] f64_within_finite [OF assms(2)]
  by (auto simp: f64_mul_def f64_propagate_def Let_def f64_round_0 f64_key_pack0)

lemma f64_of_int_0: "f64_mag (f64_of_int 0) = 0"
  by (simp add: f64_of_int_def f64_round_0 f64_mag_def f64_pack_fields)

lemma should_promote_empty: "tc_bytes c = 0 \<Longrightarrow> \<not> should_promote cm c"
proof -
  assume b: "tc_bytes c = 0"
  let ?f = "faster_tier (tc_tier c)"
  have z: "f64_mag (f64_of_u64 0) = 0" by (simp add: f64_of_u64_def f64_of_int_0)
  have div0: "f64_mag (f64_div (f64_of_u64 0) (scan_bytes_per_us (tier_physics t))) = 0" for t
  proof -
    let ?bw = "scan_bytes_per_us (tier_physics t)"
    have "\<not> f64_is_nan ?bw" "\<not> f64_is_inf ?bw" "0 < f64_mag ?bw"
      using bandwidth_ge_1 [of t] by (auto simp: f64_is_nan_def f64_is_inf_def intro: less_le_trans [of 0 "2 ^ 1074"])
    then have "\<exists>s. f64_div (f64_of_u64 0) ?bw = f64_pack s 0"
      using z f64_within_finite [OF f64_of_u64_within [of 0]]
      by (simp add: f64_div_def f64_propagate_def Let_def f64_round_0) blast
    then show ?thesis by (auto simp: f64_mag_def f64_pack_fields)
  qed
  have cost: "f64_within 1138 (migration_us cm s t 0) \<and> f64_mag (migration_us cm s t 0) = 0" for s t
    using div0 [of s] div0 [of t] f64_div_within [OF f64_of_u64_within [of 0]] bandwidth_ge_1 [of s] bandwidth_ge_1 [of t]
    by (simp add: migration_us_def Let_def f64_zero_within)
       (simp add: f64_zero_def f64_mag_def f64_expo_def f64_frac_def)
  have "f64_within 1138 HYSTERESIS"
    unfolding HYSTERESIS_def by (rule f64_round_within) simp_all
  then have k1: "f64_key (f64_mul HYSTERESIS (migration_us cm (tc_tier c) ?f 0)) = 0"
    using cost [of "tc_tier c" ?f] by (intro f64_mul_zero_key) auto
  have "f64_within 1140 (f64_sub (scan_us cm (tc_tier c) 0) (scan_us cm ?f 0))"
    using f64_sub_within [OF scan_us_within scan_us_within] by simp
  moreover have "f64_within 1140 (f64_of_int 0)"
    using f64_of_int_within [of 0 66] by simp
  ultimately have k2: "f64_key (f64_mul (f64_sub (scan_us cm (tc_tier c) 0) (scan_us cm ?f 0)) (f64_of_int 0)) = 0"
    using f64_of_int_0 by (intro f64_mul_zero_key) auto
  show "\<not> should_promote cm c"
    using k1 k2 b by (simp add: should_promote_def promote_eval_def Let_def f64_lt_def est_future_scans_def)
qed

lemma mod4_le_1: "(b::u64) mod 4 = 0 \<Longrightarrow> b \<le> 1 \<Longrightarrow> b = 0"
proof -
  assume "b mod 4 = 0" "b \<le> 1"
  moreover have "unat (b mod 4) = unat b mod 4" by (simp add: unat_mod)
  ultimately have "unat b mod 4 = 0" "unat b \<le> 1" by (simp_all add: word_le_nat_alt)
  then show "b = 0" by (cases "unat b") (auto simp: unat_eq_0)
qed


text \<open>
  What promotions and evictions keep on the CPU build; with the flag \<open>b\<close> set, also that the load
  of HOST stays within a bound.
\<close>

definition cpu_plan :: "bool \<Rightarrow> nat \<Rightarrow> plan \<Rightarrow> bool" where
  "cpu_plan b cap p \<longleftrightarrow> cpu_cols (fst p) \<and> (\<forall>d \<in> set (snd p). md_to d \<in> {HOST, COLD}) \<and>
     (b \<longrightarrow> tier_load HOST (fst p) \<le> cap)"

lemma evict_loop_cpu:
  assumes "plan_inv \<tau> sz p" "cpu_plan b cap p" "tier \<in> {DEVICE, HOST}"
  shows "cpu_plan b cap (evict_loop tm tier c p)"
proof -
  have "plan_inv \<tau> sz (evict_loop tm tier c p) \<and> cpu_plan b cap (evict_loop tm tier c p) \<and>
    (resident_bytes tier (fst (evict_loop tm tier c p)) \<le> c \<or>
     find_victim (tm_cm tm) (tm_tick tm) tier (fst (evict_loop tm tier c p)) = None)"
  proof (rule evict_loop_rule [where P = "cpu_plan b cap", OF assms(1,3,2)])
    fix cols ds vid victim
    assume evict: "plan_inv \<tau> sz (cols, ds)" "cpu_plan b cap (cols, ds)" "map_of cols vid = Some victim"
      "evictable (tm_tick tm) tier victim"
    have cpu: "cpu_cols cols" "\<forall>d \<in> set ds. md_to d \<in> {HOST, COLD}" "b \<longrightarrow> tier_load HOST cols \<le> cap"
      using evict(2) by (simp_all add: cpu_plan_def)
    have "tc_tier victim = tier" using evict(4) by (simp add: evictable_def)
    with cpu_cols_bytes [OF cpu(1) evict(3)] assms(3) have tier: "tier = HOST" "tc_tier victim = HOST" by auto
    have "tier_load HOST cols = tier_load HOST (move_col vid COLD (tm_tick tm) cols) + unat (tc_bytes victim)"
      using evict(3) tier(2) cpu(1) by (intro tier_load_move_from) (simp_all add: cpu_cols_def cols_ok_def)
    then have "tier_load HOST (move_col vid COLD (tm_tick tm) cols) \<le> tier_load HOST cols" by simp
    then show "cpu_plan b cap (move_col vid (slower_tier tier) (tm_tick tm) cols,
        ds @ [\<lparr>md_column_id = tc_id victim, md_from = tier, md_to = slower_tier tier\<rparr>])"
      using cpu by (auto simp: cpu_plan_def tier cpu_cols_move)
  qed
  then show ?thesis by blast
qed

text \<open>Both ways of promoting a COLD column to HOST respect the bound.\<close>

lemma promote_free_fits:
  assumes "distinct (map fst cols)" "total_bytes cols < 2 ^ 64" "map_of cols cid = Some c" "tc_tier c = COLD"
    and fits: "resident_bytes HOST cols + tc_bytes c \<le> cap"
  shows "tier_load HOST (move_col cid HOST tick cols) \<le> unat cap"
proof -
  have load: "tier_load HOST (move_col cid HOST tick cols) = tier_load HOST cols + unat (tc_bytes c)"
    using assms(1,3,4) by (intro tier_load_move_to) simp_all
  then have "tier_load HOST cols + unat (tc_bytes c) < 2 ^ 64"
    using tier_load_le [of HOST "move_col cid HOST tick cols"] assms(2) by (simp add: total_bytes_def)
  then show ?thesis
    using fits unat_resident [OF assms(2), of HOST] by (simp add: load word_le_nat_alt unat_word_ariths)
qed

lemma promote_swap_fits:
  assumes "distinct (map fst cols)" "total_bytes cols < 2 ^ 64" "map_of cols cid = Some c" "tc_tier c = COLD"
    and victim: "vid \<noteq> cid" "map_of cols vid = Some victim" "tc_tier victim = HOST"
    and fits: "resident_bytes HOST cols - tc_bytes victim + tc_bytes c \<le> cap"
  shows "tier_load HOST (move_col cid HOST tick (move_col vid COLD tick cols)) \<le> unat cap"
proof -
  let ?c1 = "move_col vid COLD tick cols"
  let ?c2 = "move_col cid HOST tick ?c1"
  have l1: "tier_load HOST cols = tier_load HOST ?c1 + unat (tc_bytes victim)"
    using assms(1) victim by (intro tier_load_move_from) simp_all
  have l2: "tier_load HOST ?c2 = tier_load HOST ?c1 + unat (tc_bytes c)"
    using assms(1,3,4) victim(1)
    by (intro tier_load_move_to) (simp_all add: map_of_move, simp add: move_col_def)
  have "resident_bytes HOST cols = of_nat (tier_load HOST cols)"
    using unat_resident [OF assms(2), of HOST] by (metis of_nat_unat ucast_id)
  then have "resident_bytes HOST cols - tc_bytes victim + tc_bytes c = of_nat (tier_load HOST ?c2)"
    by (simp add: l1 l2)
  moreover have "unat (of_nat (tier_load HOST ?c2) :: u64) = tier_load HOST ?c2"
    using tier_load_le [of HOST ?c2] assms(2) by (intro unat_of_nat_small) (simp add: total_bytes_def)
  ultimately show ?thesis using fits by (simp add: word_le_nat_alt)
qed

lemma promote_step_cpu:
  assumes "plan_inv \<tau> sz p" "cpu_plan b (unat (tm_host_cap tm)) p" "promotable (fst p) cid"
    and "tm_device_cap tm = 1" "b \<Longrightarrow> tm_host_cap tm \<noteq> 0" "b \<Longrightarrow> total_bytes (fst p) < 2 ^ 64"
    and "\<And>c. map_of (fst p) cid = Some c \<Longrightarrow> tc_bytes c \<noteq> 0"
  shows "cpu_plan b (unat (tm_host_cap tm)) (promote_step tm cid p)"
proof -
  obtain cols ds where p: "p = (cols, ds)" by fastforce
  have cpu: "cpu_cols cols" "\<forall>d \<in> set ds. md_to d \<in> {HOST, COLD}"
    using assms(2) by (simp_all add: p cpu_plan_def)
  have dist: "distinct (map fst cols)" using cpu(1) by (simp add: cpu_cols_def cols_ok_def)
  have nodev: "\<not> evictable tk DEVICE c" if "map_of cols k = Some c" for tk k c
    using cpu_cols_bytes [OF cpu(1) that] by (auto simp: evictable_def)
  have "plan_inv \<tau> sz (cols, ds)" "promotable cols cid" using assms(1,3) by (simp_all add: p)
  then show ?thesis
  proof (cases rule: promote_step_cases [of _ _ _ _ _ tm])
    case (1 c to)
    then show ?thesis using assms(2) by (simp add: p)
  next
    case (2 c to)
    show ?thesis
    proof (cases "to = DEVICE")
      case True
      have "resident_bytes DEVICE cols = 0" using cpu_cols_no_device [OF cpu(1)] by (simp add: resident_on_tier)
      then have "tc_bytes c \<le> 1" using 2(4) True assms(4) by (simp add: capacity_of_def)
      then show ?thesis using mod4_le_1 cpu_cols_bytes [OF cpu(1) 2(1)] assms(7) 2(1) by (auto simp: p)
    next
      case False
      then have to: "to = HOST" "tc_tier c = COLD" using 2(2,3) by auto
      have "tier_load HOST (move_col cid HOST (tm_tick tm) cols) \<le> unat (tm_host_cap tm)" if b
        using promote_free_fits [OF dist _ 2(1) to(2)] 2(4) assms(5,6) that by (simp add: p to capacity_of_def)
      then show ?thesis using cpu by (simp add: p 2(5) to cpu_plan_def cpu_cols_move)
    qed
  next
    case (3 c to vid victim)
    have "to \<noteq> DEVICE" using nodev [OF 3(5)] 3(6) by auto
    then have to: "to = HOST" "tc_tier c = COLD" "tc_tier victim = HOST"
      using 3(2,3,6) by (auto simp: evictable_def)
    have "tier_load HOST (move_col cid HOST (tm_tick tm) (move_col vid COLD (tm_tick tm) cols)) \<le> unat (tm_host_cap tm)" if b
      using promote_swap_fits [OF dist _ 3(1) to(2) 3(4,5) to(3)] 3(8) assms(6) that by (simp add: p to capacity_of_def)
    then show ?thesis using cpu by (simp add: p 3(9) to cpu_plan_def cpu_cols_move)
  qed
qed

lemma sizes_bytes: "map_of (sizes cols) k = map_option tc_bytes (map_of cols k)"
  by (induction cols) (auto simp: sizes_def)

lemma fold_promote_cpu:
  assumes "plan_inv \<tau> sz p" "cpu_plan b (unat (tm_host_cap tm)) p" "distinct ids"
    "\<forall>k \<in> set ids. promotable (fst p) k" "\<forall>k \<in> set ids. map_of sz k \<noteq> Some 0"
    and env: "tm_device_cap tm = 1" "b \<Longrightarrow> tm_host_cap tm \<noteq> 0" "b \<Longrightarrow> sum_list (map (\<lambda>(k, b). unat b) sz) < 2 ^ 64"
  shows "cpu_plan b (unat (tm_host_cap tm)) (fold (promote_step tm) ids p)"
  using assms(1-5)
proof (induction ids arbitrary: p)
  case (Cons k ids)
  have sz: "sizes (fst p) = sz" using Cons.prems(1) by (simp add: plan_inv_def)
  have "cpu_plan b (unat (tm_host_cap tm)) (promote_step tm k p)"
    using Cons.prems(1,2)
  proof (rule promote_step_cpu)
    show "promotable (fst p) k" using Cons.prems(4) by simp
    show "total_bytes (fst p) < 2 ^ 64" if b using env(3) that by (simp add: total_bytes_def sz)
    show "tc_bytes c \<noteq> 0" if "map_of (fst p) k = Some c" for c
      using Cons.prems(5) that sizes_bytes [of "fst p" k] by (auto simp: sz)
  qed (use env in simp_all)
  moreover have "plan_inv \<tau> sz (promote_step tm k p)" "\<forall>j \<in> set ids. promotable (fst (promote_step tm k p)) j"
    using Cons.prems by (auto intro: promote_step_inv)
  ultimately show ?case using Cons.IH Cons.prems(3,5) by simp
qed simp

lemma promote_pass_cpu:
  assumes "plan_inv \<tau> sz p" "cpu_plan b (unat (tm_host_cap tm)) p"
    and env: "tm_device_cap tm = 1" "b \<Longrightarrow> tm_host_cap tm \<noteq> 0" "b \<Longrightarrow> sum_list (map (\<lambda>(k, b). unat b) sz) < 2 ^ 64"
  shows "cpu_plan b (unat (tm_host_cap tm)) (promote_pass tm p)"
proof -
  let ?ids = "map fst (filter (\<lambda>(k, c). should_promote (tm_cm tm) c) (fst p))"
  have ok: "cols_ok (fst p)" and sz: "sizes (fst p) = sz" using assms(1) by (simp_all add: plan_inv_def)
  then have "distinct ?ids" by (auto simp: cols_ok_def distinct_map intro: inj_on_subset)
  moreover have "map_of sz k \<noteq> Some 0" if k: "k \<in> set ?ids" for k
  proof -
    obtain c where c: "(k, c) \<in> set (fst p)" "should_promote (tm_cm tm) c" using k by auto
    then have "map_of (fst p) k = Some c" using ok by (simp add: cols_ok_def)
    then show ?thesis
      using should_promote_empty [of c "tm_cm tm"] c(2) by (auto simp: sizes_bytes sz [symmetric])
  qed
  ultimately show ?thesis
    using candidates_promotable [OF ok] assms unfolding promote_pass_def Let_def
    by (intro fold_promote_cpu) simp_all
qed

lemma evict_pass_cpu: "plan_inv \<tau> sz p \<Longrightarrow> cpu_plan b cap p \<Longrightarrow> cpu_plan b cap (evict_pass tm p)"
  using evict_loop_inv [of \<tau> sz p DEVICE] evict_loop_cpu [of \<tau> sz]
  by (auto simp: evict_pass_def Let_def)

lemma rebalance_env:
  "rebalance tm = (ds, tm') \<Longrightarrow>
   tm_device_cap tm' = tm_device_cap tm \<and> tm_host_cap tm' = tm_host_cap tm \<and> tm_tick tm' = tm_tick tm + 1 \<and>
   tm_cm tm' = tm_cm tm"
  by (auto simp: rebalance_def case_prod_unfold Let_def)

lemma rebalance_cols:
  "rebalance tm = (ds, tm') \<Longrightarrow>
   (tm_cols tm', ds) = evict_pass (tm\<lparr>tm_tick := tm_tick tm + 1\<rparr>)
      (promote_pass (tm\<lparr>tm_tick := tm_tick tm + 1\<rparr>) (age_heat (tm_cols tm), []))"
  by (auto simp: rebalance_def case_prod_unfold Let_def)

lemma on_tier_age_heat: "tier_load t (age_heat cols) = tier_load t cols"
  by (simp add: tier_load_def on_tier_def age_heat_def filter_map comp_def case_prod_unfold)

lemma cpu_cols_age_heat: "cpu_cols cols \<Longrightarrow> cpu_cols (age_heat cols)"
  by (auto simp: cpu_cols_def cols_ok_def age_heat_def comp_def case_prod_unfold)

lemma rebalance_cpu:
  assumes "cpu_inv tm" "rebalance tm = (ds, tm')"
  shows "cpu_inv tm' \<and> (\<forall>d \<in> set ds. md_to d \<in> {HOST, COLD}) \<and>
    (tm_host_cap tm \<noteq> 0 \<and> total_bytes (tm_cols tm) < 2 ^ 64 \<and>
       tier_load HOST (tm_cols tm) \<le> unat (tm_host_cap tm) \<longrightarrow>
     tier_load HOST (tm_cols tm') \<le> unat (tm_host_cap tm))"
proof -
  define b where "b \<longleftrightarrow> tm_host_cap tm \<noteq> 0 \<and> total_bytes (tm_cols tm) < 2 ^ 64 \<and>
       tier_load HOST (tm_cols tm) \<le> unat (tm_host_cap tm)"
  let ?tm = "tm\<lparr>tm_tick := tm_tick tm + 1\<rparr>" and ?p = "(age_heat (tm_cols tm), [])"
  have ok: "cols_ok (tm_cols tm)" using assms(1) by (simp add: cpu_inv_def cpu_cols_def)
  have inv: "plan_inv (tiers (tm_cols tm)) (sizes (tm_cols tm)) ?p" using ok by (rule age_heat_inv)
  have "cpu_plan b (unat (tm_host_cap ?tm)) ?p"
    using assms(1) by (simp add: cpu_plan_def cpu_inv_def cpu_cols_age_heat on_tier_age_heat b_def)
  with inv have "cpu_plan b (unat (tm_host_cap ?tm)) (promote_pass ?tm ?p)"
    by (rule promote_pass_cpu) (use assms(1) in \<open>simp_all add: cpu_inv_def b_def total_bytes_def\<close>)
  with inv have "cpu_plan b (unat (tm_host_cap ?tm)) (evict_pass ?tm (promote_pass ?tm ?p))"
    by (intro evict_pass_cpu promote_pass_inv)
  then have "cpu_plan b (unat (tm_host_cap tm)) (tm_cols tm', ds)"
    unfolding rebalance_cols [OF assms(2)] by simp
  then show ?thesis
    using rebalance_env [OF assms(2)] assms(1) by (simp add: cpu_plan_def cpu_inv_def b_def)
qed

lemma valid_plan_ids: "valid_plan \<tau> ds \<Longrightarrow> d \<in> set ds \<Longrightarrow> md_column_id d \<in> dom \<tau>"
proof (induction ds arbitrary: \<tau>)
  case (Cons d' ds)
  have "md_column_id d \<in> dom (\<tau>(md_column_id d' \<mapsto> md_to d'))" if "d \<in> set ds"
    using Cons.IH [of "\<tau>(md_column_id d' \<mapsto> md_to d')"] Cons.prems(1) that unfolding valid_plan.simps by blast
  with Cons.prems show ?case by (cases "d = d'") auto
qed simp

section \<open>Properties\<close>

text \<open>
  C21. The plan of a rebalance pass is consistent with the state the brain moves to. From a table
  with one entry per id, every decision names the tier its column is on at that point of the plan
  and moves it one tier up or down; carrying out the decisions in order takes the tiers before the
  pass to the tiers recorded after it; no column is added, lost or resized.
\<close>

theorem rebalance_plan_consistent:
  assumes "cols_ok (tm_cols tm)" "rebalance tm = (ds, tm')"
  shows "valid_plan (tiers (tm_cols tm)) ds \<and> tiers (tm_cols tm') = apply_plan ds (tiers (tm_cols tm)) \<and>
    sizes (tm_cols tm') = sizes (tm_cols tm) \<and> cols_ok (tm_cols tm')"
  using rebalance_inv [OF assms] by (simp add: plan_inv_def)

theorem rebalance_plan_consistent_witness:
  "let tm = register_column 7 64 HOST (TierManager \<lparr>cm_mm = detect False, cm_gpu_available = False\<rparr> 1 32)
   in sizes (tm_cols (snd (rebalance tm))) = [(7, 64)]"
proof -
  let ?tm = "register_column 7 64 HOST (TierManager \<lparr>cm_mm = detect False, cm_gpu_available = False\<rparr> 1 32)"
  have ok: "cols_ok (tm_cols ?tm)" by (simp add: register_column_def TierManager_def cols_ok_def)
  show ?thesis
    using rebalance_plan_consistent [OF ok surjective_pairing]
    by (simp add: register_column_def TierManager_def sizes_def)
qed

text \<open>
  C22. After a pass, a bounded tier that is still over its capacity holds no column that could be
  evicted: every resident arrived within the minimum residency. The keep scores the eviction loop
  compares are finite doubles below its starting bound for every column size, so no resident is
  overlooked.
\<close>

theorem rebalance_evicts_until_fit:
  assumes "cols_ok (tm_cols tm)" "rebalance tm = (ds, tm')"
    and "tier \<in> {DEVICE, HOST}" "capacity_of tm tier \<noteq> 0" "capacity_of tm tier < resident_bytes tier (tm_cols tm')"
    and "map_of (tm_cols tm') k = Some c" "tc_tier c = tier"
  shows "tm_tick tm' - tc_arrived_tick c < MIN_RESIDENCY_TICKS"
proof -
  let ?tm = "tm\<lparr>tm_tick := tm_tick tm + 1\<rparr>"
  let ?p = "promote_pass ?tm (age_heat (tm_cols tm), [])"
  have "plan_inv (tiers (tm_cols tm)) (sizes (tm_cols tm)) ?p"
    using assms(1) by (intro promote_pass_inv age_heat_inv)
  note stop = evict_pass_done [OF this assms(3), of ?tm]
  have cols: "fst (evict_pass ?tm ?p) = tm_cols tm'" using rebalance_cols [OF assms(2)] by (metis fst_conv)
  have "capacity_of ?tm tier = capacity_of tm tier" by (simp add: capacity_of_def)
  then have "\<not> resident_bytes tier (tm_cols tm') \<le> capacity_of ?tm tier" "capacity_of ?tm tier \<noteq> 0"
    using assms(4,5) by (auto simp: not_le)
  then have "\<forall>(k, c) \<in> set (on_tier tier (tm_cols tm')). \<not> evictable (tm_tick ?tm) tier c"
    using stop unfolding cols by blast
  then show ?thesis
    using assms(6,7) rebalance_env [OF assms(2)] by (auto simp: on_tier_def evictable_def dest!: map_of_SomeD)
qed


theorem rebalance_evicts_until_fit_witness:
  "let tm = register_column 7 64 HOST (TierManager \<lparr>cm_mm = detect False, cm_gpu_available = False\<rparr> 1 32);
       (ds, tm') = rebalance tm
   in resident_bytes HOST (tm_cols tm') = 64 \<and>
      (\<forall>c. map_of (tm_cols tm') 7 = Some c \<longrightarrow> tm_tick tm' - tc_arrived_tick c < MIN_RESIDENCY_TICKS)"
proof -
  let ?cm = "\<lparr>cm_mm = detect False, cm_gpu_available = False\<rparr>"
  let ?tm = "register_column 7 64 HOST (TierManager ?cm 1 32)"
  obtain ds tm' where r: "rebalance ?tm = (ds, tm')" by fastforce
  have ok: "cols_ok (tm_cols ?tm)" by (simp add: register_column_def TierManager_def cols_ok_def)
  define tm1 where "tm1 = ?tm\<lparr>tm_tick := 1\<rparr>"
  obtain cols h where cols: "age_heat (tm_cols ?tm) = cols" and h: "cols = [(7, \<lparr>tc_id = 7, tc_bytes = 64,
      tc_tier = HOST, tc_heat = h, tc_recent_bytes = 0, tc_arrived_tick = 0\<rparr>)]"
    by (simp add: register_column_def TierManager_def age_heat_def)
  have v: "find_victim cm 1 t cols = None" for cm t
    by (simp add: h find_victim_def MIN_RESIDENCY_TICKS_def)
  have env: "tm_tick tm1 = 1" "tm_device_cap tm1 = 1"
    by (simp_all add: tm1_def register_column_def TierManager_def)
  have "promote_step tm1 7 (cols, []) = (cols, [])"
    by (simp add: promote_step_def try_swap_promote_def capacity_of_def env Let_def h resident_bytes_def
        v [unfolded h] word_le_nat_alt)
  then have "promote_pass tm1 (cols, []) = (cols, [])" by (simp add: promote_pass_def Let_def sort_by_def) (simp add: h)
  moreover have "evict_loop tm1 t cap (cols, []) = (cols, [])" for t cap
    using v by (subst evict_loop.simps) (simp add: env)
  then have "evict_pass tm1 (cols, []) = (cols, [])" by (simp add: evict_pass_def Let_def)
  moreover have "?tm\<lparr>tm_tick := tm_tick ?tm + 1\<rparr> = tm1" by (simp add: tm1_def register_column_def TierManager_def)
  ultimately have tm': "tm_cols tm' = cols"
    using rebalance_cols [OF r] by (simp add: cols)
  have full: "capacity_of ?tm HOST < resident_bytes HOST (tm_cols tm')"
    by (simp add: tm' h resident_bytes_def capacity_of_def register_column_def TierManager_def)
  have cap: "capacity_of ?tm HOST \<noteq> 0"
    by (simp add: capacity_of_def register_column_def TierManager_def)
  have "tm_tick tm' - tc_arrived_tick c < MIN_RESIDENCY_TICKS" if "map_of (tm_cols tm') 7 = Some c" for c
  proof (rule rebalance_evicts_until_fit [OF ok r _ cap full that])
    show "tc_tier c = HOST" using that by (simp add: tm' h) auto
  qed simp
  moreover have "resident_bytes HOST (tm_cols tm') = 64" by (simp add: tm' h resident_bytes_def)
  ultimately show ?thesis by (simp add: r Let_def)
qed

text \<open>
  On the CPU build a pass never plans a move to the device tier, whose migration would abort the
  process, and keeps the invariant of that configuration; and when the columns in HOST fit the
  host budget before the pass, they fit it after, whatever is promoted or swapped.
\<close>

theorem cpu_rebalance_safe:
  assumes "cpu_inv tm" "rebalance tm = (ds, tm')"
  shows "cpu_inv tm' \<and> (\<forall>d \<in> set ds. md_to d \<in> {HOST, COLD}) \<and>
    (tm_host_cap tm \<noteq> 0 \<and> total_bytes (tm_cols tm) < 2 ^ 64 \<and>
       tier_load HOST (tm_cols tm) \<le> unat (tm_host_cap tm) \<longrightarrow>
     tier_load HOST (tm_cols tm') \<le> unat (tm_host_cap tm))"
  using assms by (rule rebalance_cpu)

theorem cpu_rebalance_safe_witness:
  "let tm = register_column 7 64 HOST (TierManager \<lparr>cm_mm = detect False, cm_gpu_available = False\<rparr> 1 100)
   in cpu_inv (snd (rebalance tm)) \<and> tier_load HOST (tm_cols (snd (rebalance tm))) \<le> 100"
proof -
  let ?tm = "register_column 7 64 HOST (TierManager \<lparr>cm_mm = detect False, cm_gpu_available = False\<rparr> 1 100)"
  have inv: "cpu_inv ?tm"
    by (simp add: cpu_inv_def cpu_cols_def cols_ok_def register_column_def TierManager_def)
  have "total_bytes (tm_cols ?tm) = 64" "tier_load HOST (tm_cols ?tm) = 64" "tm_host_cap ?tm = 100"
    by (simp_all add: total_bytes_def sizes_def tier_load_def on_tier_def register_column_def TierManager_def)
  then show ?thesis using cpu_rebalance_safe [OF inv surjective_pairing] by simp
qed

end
