(* ===== verification/Tiered_Column.thy ===== *)
theory Tiered_Column
  imports Tier_Manager Disk
begin

text \<open>
  A column whose bytes live in one tier (\<open>tiered_column.hpp\<close>) and the executor that carries out a
  migration plan (\<open>migration_executor.hpp\<close>), for the build without CUDA: a migration to the device
  tier aborts. The COLD file of a column has a path made of the process id and a serial number, so
  no other file shares it: it is a component of the column, \<open>col_cold\<close>. \<open>col_room\<close> is the number of
  bytes the temporary directory accepts for it. An abort is the value \<open>None\<close>.
\<close>

record tiered_column =
  col_id :: u64
  col_size :: u64
  col_tier :: memory_space
  col_host :: "u8 list"
  col_cold :: "u8 list option"
  col_room :: nat

definition TieredColumn :: "nat \<Rightarrow> u64 \<Rightarrow> u8 list \<Rightarrow> tiered_column" where
  "TieredColumn room cid bytes =
     \<lparr>col_id = cid, col_size = of_nat (length bytes), col_tier = HOST, col_host = bytes, col_cold = None,
      col_room = room\<rparr>"

definition host_ptr :: "tiered_column \<Rightarrow> u8 list option" where
  "host_ptr col = (if col_tier col = HOST then Some (col_host col) else None)"

definition read_to_host :: "tiered_column \<Rightarrow> u8 list option" where
  "read_to_host col =
     (if col_tier col = HOST then Some (col_host col)
      else if col_tier col = COLD then
        (case col_cold col of None \<Rightarrow> None | Some f \<Rightarrow> map_option fst (fread (unat (col_size col)) f))
      else None)"

definition free_current :: "tiered_column \<Rightarrow> tiered_column" where
  "free_current col = (if col_tier col = COLD then col\<lparr>col_cold := None\<rparr> else col)"

text \<open>
  On a fresh stream \<open>fwrite\<close> hands the full blocks to the file and keeps the rest in the buffer, as the GNU C library does;
  a short write of the blocks shows in its result and aborts. \<open>fclose\<close> writes the rest, and its result is not looked at.
\<close>

definition STDIO_BLOCK :: nat where "STDIO_BLOCK = 4096"

definition write_cold :: "u8 list \<Rightarrow> tiered_column \<Rightarrow> tiered_column option" where
  "write_cold b col =
     (let blocks = length b - length b mod STDIO_BLOCK in
      if col_room col < blocks then None else Some (col\<lparr>col_cold := Some (take (col_room col) b)\<rparr>))"

definition migrate_to :: "memory_space \<Rightarrow> tiered_column \<Rightarrow> tiered_column option" where
  "migrate_to dest col =
     (if dest = col_tier col then Some col
      else case read_to_host col of None \<Rightarrow> None
      | Some staged \<Rightarrow>
        let col1 = (free_current col)\<lparr>col_tier := HOST, col_host := staged\<rparr> in
        if dest = HOST then Some col1
        else if dest = COLD then
          map_option (\<lambda>c. c\<lparr>col_host := [], col_tier := COLD\<rparr>) (write_cold (col_host col1) col1)
        else None)"

definition append_bytes :: "u8 list \<Rightarrow> tiered_column \<Rightarrow> tiered_column option" where
  "append_bytes b col =
     (if col_tier col \<noteq> HOST then None
      else Some (col\<lparr>col_host := col_host col @ b, col_size := col_size col + of_nat (length b)\<rparr>))"

definition column_sum :: "tiered_column \<Rightarrow> u64 option" where
  "column_sum col = map_option (\<lambda>b. fold (\<lambda>c s. s + ucast c) b 0) (read_to_host col)"

text \<open>
  The executor: a decision on an unknown column is skipped. The column registry is the map the
  engine builds of its catalog.
\<close>

fun executor_apply ::
  "migration_decision list \<Rightarrow> (u64 \<times> tiered_column) list \<Rightarrow> (nat \<times> (u64 \<times> tiered_column) list) option" where
  "executor_apply [] cols = Some (0, cols)"
| "executor_apply (d # plan) cols =
     (case map_of cols (md_column_id d) of
        None \<Rightarrow> executor_apply plan cols
      | Some col \<Rightarrow>
          (case migrate_to (md_to d) col of None \<Rightarrow> None
           | Some col' \<Rightarrow>
               map_option (\<lambda>(n, cols'). (Suc n, cols')) (executor_apply plan (al_upd (md_column_id d) col' cols))))"

section \<open>The contents of a column\<close>

text \<open>\<open>col_holds col bs\<close>: the column holds the bytes \<open>bs\<close>, on HOST or COLD, and its file has room for them.\<close>

definition col_holds :: "tiered_column \<Rightarrow> u8 list \<Rightarrow> bool" where
  "col_holds col bs \<longleftrightarrow>
     unat (col_size col) = length bs \<and> length bs \<le> col_room col \<and>
     (col_tier col = HOST \<and> col_host col = bs \<and> col_cold col = None \<or>
      col_tier col = COLD \<and> col_cold col = Some bs \<and> col_host col = [])"

lemma write_cold_fits: "length b \<le> col_room col \<Longrightarrow> write_cold b col = Some (col\<lparr>col_cold := Some b\<rparr>)"
  by (simp add: write_cold_def)

lemma TieredColumn_holds:
  "length bs < 2 ^ 64 \<Longrightarrow> length bs \<le> room \<Longrightarrow> col_holds (TieredColumn room cid bs) bs"
  by (simp add: col_holds_def TieredColumn_def unat_of_nat_small)

lemma col_holds_tier: "col_holds col bs \<Longrightarrow> col_tier col \<in> {HOST, COLD}"
  by (auto simp: col_holds_def)

lemma read_to_host_holds: "col_holds col bs \<Longrightarrow> read_to_host col = Some bs"
  by (auto simp: col_holds_def read_to_host_def)

lemma host_ptr_holds: "col_holds col bs \<Longrightarrow> col_tier col = HOST \<Longrightarrow> col_host col = bs"
  by (auto simp: col_holds_def)

lemma migrate_to_holds:
  assumes "col_holds col bs" "dest \<in> {HOST, COLD}"
  obtains col' where "migrate_to dest col = Some col'" "col_holds col' bs" "col_tier col' = dest"
    "col_id col' = col_id col" "col_size col' = col_size col" "col_room col' = col_room col"
proof -
  have "\<exists>col'. migrate_to dest col = Some col' \<and> col_holds col' bs \<and> col_tier col' = dest \<and>
      col_id col' = col_id col \<and> col_size col' = col_size col \<and> col_room col' = col_room col"
  proof (cases "dest = col_tier col")
    case True
    then show ?thesis using assms(1) by (simp add: migrate_to_def)
  next
    case False
    then show ?thesis
      using assms read_to_host_holds [OF assms(1)]
      by (auto simp: migrate_to_def free_current_def write_cold_fits col_holds_def Let_def)
  qed
  then show thesis using that by blast
qed

lemma append_bytes_holds:
  assumes "col_holds col bs" "col_tier col = HOST" "length (bs @ b) < 2 ^ 64" "length (bs @ b) \<le> col_room col"
  obtains col' where "append_bytes b col = Some col'" "col_holds col' (bs @ b)" "col_tier col' = HOST"
    "col_id col' = col_id col" "col_room col' = col_room col"
proof -
  have "unat (col_size col + of_nat (length b)) = length (bs @ b)"
    using assms(1,3) by (simp add: col_holds_def unat_word_ariths unat_of_nat_small)
  then show thesis
    using that assms by (auto simp: append_bytes_def col_holds_def)
qed

text \<open>
  A demotion to a nearly full directory: when the blocks fit and the rest does not, it succeeds with a file that is
  cut short, the bytes in memory are gone, and the next read aborts.
\<close>

lemma cold_write_tail_lost:
  assumes "col_tier col = HOST" "unat (col_size col) = length (col_host col)" "col_room col < length (col_host col)"
    and "length (col_host col) - length (col_host col) mod STDIO_BLOCK \<le> col_room col"
  shows "\<exists>col'. migrate_to COLD col = Some col' \<and> col_tier col' = COLD \<and> col_host col' = [] \<and>
    col_cold col' = Some (take (col_room col) (col_host col)) \<and> migrate_to HOST col' = None"
  using assms by (auto simp: migrate_to_def read_to_host_def free_current_def write_cold_def Let_def fread_def)

section \<open>Migration plans keep every column\<close>

definition col_tiers :: "(u64 \<times> tiered_column) list \<Rightarrow> u64 \<rightharpoonup> memory_space" where
  "col_tiers cols k = map_option col_tier (map_of cols k)"

definition holds_all :: "(u64 \<times> tiered_column) list \<Rightarrow> (u64 \<rightharpoonup> u8 list) \<Rightarrow> bool" where
  "holds_all cols contents \<longleftrightarrow>
     (\<forall>k col. map_of cols k = Some col \<longrightarrow> (\<exists>bs. contents k = Some bs \<and> col_holds col bs))"

lemma holds_all_upd:
  assumes "holds_all cols contents" "contents k = Some bs" "col_holds col bs"
  shows "holds_all (al_upd k col cols) contents"
  using assms by (auto simp: holds_all_def split: if_splits)

lemma holds_allD:
  assumes "holds_all cols contents" "map_of cols k = Some col"
  obtains bs where "contents k = Some bs" "col_holds col bs"
  using assms by (auto simp: holds_all_def)

lemma executor_apply_holds:
  assumes "\<forall>d \<in> set plan. md_to d \<in> {HOST, COLD} \<and> md_column_id d \<in> fst ` set cols" "holds_all cols contents"
  shows "\<exists>cols'. executor_apply plan cols = Some (length plan, cols') \<and> map fst cols' = map fst cols \<and>
    holds_all cols' contents \<and> col_tiers cols' = apply_plan plan (col_tiers cols)"
  using assms
proof (induction plan arbitrary: cols)
  case Nil
  then show ?case by (simp add: apply_plan_def)
next
  case (Cons d plan)
  let ?k = "md_column_id d"
  have k: "?k \<in> fst ` set cols" using Cons.prems(1) by simp
  then obtain col where col: "map_of cols ?k = Some col" by (metis domD dom_map_of_conv_image_fst)
  obtain bs where bs: "contents ?k = Some bs" "col_holds col bs" using Cons.prems(2) col by (rule holds_allD)
  have "md_to d \<in> {HOST, COLD}" using Cons.prems(1) by simp
  with bs(2) obtain col' where col': "migrate_to (md_to d) col = Some col'" "col_holds col' bs" "col_tier col' = md_to d"
    by (rule migrate_to_holds)
  have tiers: "col_tiers (al_upd ?k col' cols) = (col_tiers cols)(?k \<mapsto> md_to d)"
    by (auto simp: col_tiers_def fun_eq_iff col'(3))
  have "\<forall>d \<in> set plan. md_to d \<in> {HOST, COLD} \<and> md_column_id d \<in> fst ` set (al_upd ?k col' cols)"
    using Cons.prems(1) by (auto simp: keys_al_upd)
  from Cons.IH [OF this holds_all_upd [OF Cons.prems(2) bs(1) col'(2)]]
  obtain cols' where "executor_apply plan (al_upd ?k col' cols) = Some (length plan, cols')"
    "map fst cols' = map fst cols" "holds_all cols' contents"
    "col_tiers cols' = apply_plan plan ((col_tiers cols)(?k \<mapsto> md_to d))"
    unfolding tiers al_upd_keys_present [OF k] by blast
  then show ?case by (simp add: col col'(1) apply_plan_def)
qed

section \<open>Properties\<close>

text \<open>
  Carrying out a plan moves bytes without changing them. When every decision targets HOST or
  COLD and names a registered column, the executor does not abort, applies every decision, and
  afterwards each column is on the tier the plan sends it to, holds the same bytes and has the
  same checksum, for any number of moves up and down.
\<close>

theorem executor_preserves_bytes:
  assumes "\<forall>d \<in> set plan. md_to d \<in> {HOST, COLD} \<and> md_column_id d \<in> fst ` set cols"
    and "holds_all cols contents"
  shows "\<exists>cols'. executor_apply plan cols = Some (length plan, cols') \<and>
    col_tiers cols' = apply_plan plan (col_tiers cols) \<and>
    (\<forall>k bs. map_of cols k \<noteq> None \<and> contents k = Some bs \<longrightarrow>
       (\<exists>col'. map_of cols' k = Some col' \<and> read_to_host col' = Some bs \<and>
          column_sum col' = Some (fold (\<lambda>c s. s + ucast c) bs 0)))"
proof -
  obtain cols' where r: "executor_apply plan cols = Some (length plan, cols')" "map fst cols' = map fst cols"
    "holds_all cols' contents" "col_tiers cols' = apply_plan plan (col_tiers cols)"
    using executor_apply_holds [OF assms] by blast
  have "\<exists>col'. map_of cols' k = Some col' \<and> read_to_host col' = Some bs" if "map_of cols k \<noteq> None" "contents k = Some bs" for k bs
  proof -
    have "k \<in> set (map fst cols')" using that(1) unfolding r(2) by (auto simp: map_of_eq_None_iff)
    then obtain col' where c: "map_of cols' k = Some col'" by (metis map_of_eq_None_iff option.exhaust set_map)
    from r(3) c obtain bs' where "contents k = Some bs'" "col_holds col' bs'" by (rule holds_allD)
    then show ?thesis using c that(2) by (simp add: read_to_host_holds)
  qed
  then show ?thesis using r(1,4) by (fastforce simp: column_sum_def)
qed

theorem executor_preserves_bytes_witness:
  "\<exists>cols'. executor_apply [\<lparr>md_column_id = 5, md_from = HOST, md_to = COLD\<rparr>, \<lparr>md_column_id = 5, md_from = COLD, md_to = HOST\<rparr>]
      [(5, TieredColumn 100 5 [1, 2, 3, 4])] = Some (2, cols') \<and> col_tiers cols' 5 = Some HOST"
proof -
  let ?plan = "[\<lparr>md_column_id = 5, md_from = HOST, md_to = COLD\<rparr>, \<lparr>md_column_id = 5, md_from = COLD, md_to = HOST\<rparr>]"
  have h: "holds_all [(5, TieredColumn 100 5 [1, 2, 3, 4])] [5 \<mapsto> [1, 2, 3, 4]]"
    by (simp add: holds_all_def TieredColumn_holds)
  have "\<forall>d \<in> set ?plan. md_to d \<in> {HOST, COLD} \<and> md_column_id d \<in> fst ` set [(5, TieredColumn 100 5 [1, 2, 3, 4])]"
    by simp
  from executor_preserves_bytes [OF this h] show ?thesis by (auto simp: apply_plan_def numeral_2_eq_2)
qed

end
