(* ===== verification/Catalog_Engine.thy ===== *)
theory Catalog_Engine
  imports Reduce Tiered_Column "HOL-Library.Monad_Syntax"
begin

text \<open>
  The analytical half of \<open>CPUMockEngine\<close> (\<open>compute_mock.cpp\<close>): the catalog of typed columns that the
  tier manager moves between RAM and SSD, loading and appending, null masks, names and tables, the
  scans and aggregates that borrow a cold column for the time of a scan, and the query boundary
  with its exclusive and its shared path. Times are an argument of the operations that record them.
  \<open>None\<close> is a failed assertion, an uncaught \<open>std::out_of_range\<close>, an abort or a read beyond an array.
\<close>

section \<open>The state\<close>

record catalog_engine =
  ce_catalog :: "(u64 \<times> tiered_column) list"
  ce_tier_mgr :: tier_manager
  ce_col_types :: "u64 \<rightharpoonup> matrix_type"
  ce_string_columns :: "u64 \<rightharpoonup> string list"
  ce_string_dicts :: "(u64 \<times> string list) list"
  ce_string_encoders :: "u64 \<rightharpoonup> (string \<times> u32) list"
  ce_null_masks :: "(u64 \<times> u8 list) list"
  ce_column_names :: "u64 \<rightharpoonup> string"
  ce_name_to_id :: "string \<rightharpoonup> u64"
  ce_tables :: "(string \<times> u64 list) list"
  ce_rebalance_every :: u64
  ce_max_query_groups :: u32
  ce_scans_since_rebalance :: u64
  ce_cold_borrows :: u64
  ce_rebalances :: u64
  ce_migrations :: u64
  ce_query_count :: u64
  ce_total_query_ns :: u64
  ce_max_query_ns :: u64
  ce_latency_hist :: "u64 list"
  ce_scans :: u64
  ce_scan_result_sum :: u64
  ce_tmp_room :: nat

definition REBALANCE_EVERY :: u64 where "REBALANCE_EVERY = 4"
definition MAX_QUERY_GROUPS :: u32 where "MAX_QUERY_GROUPS = 0x10000000"
definition LAT_BUCKETS :: nat where "LAT_BUCKETS = 40"

text \<open>
  The members as the constructor leaves them on the CPU build: the DEVICE tier has a budget of one
  byte. \<open>room\<close> is what the temporary directory accepts for a cold file.
\<close>

definition catalog_init :: "u64 \<Rightarrow> nat \<Rightarrow> catalog_engine" where
  "catalog_init host_cap room =
     \<lparr>ce_catalog = [], ce_tier_mgr = TierManager \<lparr>cm_mm = detect False, cm_gpu_available = False\<rparr> 1 host_cap,
      ce_col_types = Map.empty, ce_string_columns = Map.empty, ce_string_dicts = [], ce_string_encoders = Map.empty,
      ce_null_masks = [], ce_column_names = Map.empty, ce_name_to_id = Map.empty, ce_tables = [],
      ce_rebalance_every = REBALANCE_EVERY, ce_max_query_groups = MAX_QUERY_GROUPS, ce_scans_since_rebalance = 0,
      ce_cold_borrows = 0, ce_rebalances = 0, ce_migrations = 0, ce_query_count = 0, ce_total_query_ns = 0,
      ce_max_query_ns = 0, ce_latency_hist = replicate LAT_BUCKETS 0, ce_scans = 0, ce_scan_result_sum = 0,
      ce_tmp_room = room\<rparr>"

definition set_max_query_groups :: "u32 \<Rightarrow> catalog_engine \<Rightarrow> catalog_engine" where
  "set_max_query_groups n ce = ce\<lparr>ce_max_query_groups := n\<rparr>"

definition set_rebalance_interval :: "u64 \<Rightarrow> catalog_engine \<Rightarrow> catalog_engine" where
  "set_rebalance_interval n ce = ce\<lparr>ce_rebalance_every := (if n \<noteq> 0 then n else 1)\<rparr>"

section \<open>Columns\<close>

definition catalog_has :: "catalog_engine \<Rightarrow> u64 \<Rightarrow> bool" where
  "catalog_has ce cid \<longleftrightarrow> cid \<noteq> 0 \<and> map_of (ce_catalog ce) cid \<noteq> None"

definition column_type :: "catalog_engine \<Rightarrow> u64 \<Rightarrow> matrix_type" where
  "column_type ce cid = (case ce_col_types ce cid of None \<Rightarrow> U32 | Some t \<Rightarrow> t)"

definition type_width :: "matrix_type \<Rightarrow> nat" where
  "type_width t = (if t = TI64 \<or> t = TF64 then 8 else 4)"

text \<open>\<open>catalog_.at(id)\<close> throws on an unknown column.\<close>

definition column_at :: "catalog_engine \<Rightarrow> u64 \<Rightarrow> tiered_column option" where
  "column_at ce cid = map_of (ce_catalog ce) cid"

definition column_rows :: "catalog_engine \<Rightarrow> u64 \<Rightarrow> nat option" where
  "column_rows ce cid = map_option (\<lambda>col. unat (col_size col) div type_width (column_type ce cid)) (column_at ce cid)"

text \<open>The bytes of a column as an array of its element type.\<close>

definition array_of :: "nat \<Rightarrow> u8 list \<Rightarrow> 'a::len word list" where
  "array_of w bs = map (\<lambda>i. le_decode (take w (drop (w * i) bs))) [0..<length bs div w]"

definition u32_view :: "u8 list \<Rightarrow> u32 list" where "u32_view = array_of 4"
definition i64_view :: "u8 list \<Rightarrow> i64 list" where "i64_view bs = map I64 (array_of 8 bs)"
definition f64_view :: "u8 list \<Rightarrow> f64 list" where "f64_view bs = map F64 (array_of 8 bs)"

definition load_bytes :: "u64 \<Rightarrow> u8 list \<Rightarrow> catalog_engine \<Rightarrow> catalog_engine option" where
  "load_bytes cid bytes ce =
     (if cid = 0 \<or> map_of (ce_catalog ce) cid \<noteq> None then None
      else Some (ce\<lparr>ce_catalog := al_upd cid (TieredColumn (ce_tmp_room ce) cid bytes) (ce_catalog ce),
             ce_tier_mgr := register_column cid (of_nat (length bytes)) HOST (ce_tier_mgr ce)\<rparr>))"

definition load_scan_column :: "u64 \<Rightarrow> u32 list \<Rightarrow> catalog_engine \<Rightarrow> catalog_engine option" where
  "load_scan_column cid data = load_bytes cid (concat (map u32_bytes data))"

definition load_scan_column_i64 :: "u64 \<Rightarrow> i64 list \<Rightarrow> catalog_engine \<Rightarrow> catalog_engine option" where
  "load_scan_column_i64 cid data ce =
     map_option (\<lambda>ce. ce\<lparr>ce_col_types := (ce_col_types ce)(cid \<mapsto> TI64)\<rparr>)
       (load_bytes cid (concat (map (u64_bytes \<circ> i64_bits) data)) ce)"

definition load_scan_column_f64 :: "u64 \<Rightarrow> f64 list \<Rightarrow> catalog_engine \<Rightarrow> catalog_engine option" where
  "load_scan_column_f64 cid data ce =
     map_option (\<lambda>ce. ce\<lparr>ce_col_types := (ce_col_types ce)(cid \<mapsto> TF64)\<rparr>)
       (load_bytes cid (concat (map (u64_bytes \<circ> f64_bits) data)) ce)"

definition set_column_nulls :: "u64 \<Rightarrow> u8 list \<Rightarrow> catalog_engine \<Rightarrow> catalog_engine option" where
  "set_column_nulls cid is_null ce =
     (if catalog_has ce cid \<and> column_rows ce cid = Some (length is_null)
      then Some (ce\<lparr>ce_null_masks := al_upd cid is_null (ce_null_masks ce)\<rparr>) else None)"

definition name_column :: "u64 \<Rightarrow> string \<Rightarrow> catalog_engine \<Rightarrow> catalog_engine option" where
  "name_column cid name ce =
     (if catalog_has ce cid
      then Some (ce\<lparr>ce_column_names := (ce_column_names ce)(cid \<mapsto> name), ce_name_to_id := (ce_name_to_id ce)(name \<mapsto> cid)\<rparr>)
      else None)"

definition column_id :: "catalog_engine \<Rightarrow> string \<Rightarrow> u64" where
  "column_id ce name = (case ce_name_to_id ce name of None \<Rightarrow> 0 | Some cid \<Rightarrow> cid)"

definition column_name :: "catalog_engine \<Rightarrow> u64 \<Rightarrow> string" where
  "column_name ce cid = (case ce_column_names ce cid of None \<Rightarrow> [] | Some n \<Rightarrow> n)"

record column_info =
  ci_id :: u64
  ci_name :: string
  ci_type :: matrix_type
  ci_rows :: nat
  ci_tier :: memory_space

definition info_of :: "catalog_engine \<Rightarrow> u64 \<Rightarrow> tiered_column \<Rightarrow> column_info" where
  "info_of ce cid col =
     \<lparr>ci_id = cid, ci_name = column_name ce cid, ci_type = column_type ce cid,
      ci_rows = unat (col_size col) div type_width (column_type ce cid), ci_tier = col_tier col\<rparr>"

definition catalog_columns :: "catalog_engine \<Rightarrow> column_info list" where
  "catalog_columns ce = map (\<lambda>(cid, col). info_of ce cid col) (ce_catalog ce)"

fun same_rows :: "catalog_engine \<Rightarrow> nat option \<Rightarrow> u64 list \<Rightarrow> bool" where
  "same_rows ce rows [] = True"
| "same_rows ce rows (cid # ids) =
     (catalog_has ce cid \<and>
      (case rows of None \<Rightarrow> same_rows ce (column_rows ce cid) ids
       | Some r \<Rightarrow> column_rows ce cid = Some r \<and> same_rows ce rows ids))"

definition create_table :: "string \<Rightarrow> u64 list \<Rightarrow> catalog_engine \<Rightarrow> bool \<times> catalog_engine" where
  "create_table name col_ids ce =
     (if col_ids = [] \<or> \<not> same_rows ce None col_ids then (False, ce)
      else (True, ce\<lparr>ce_tables := al_upd name col_ids (ce_tables ce)\<rparr>))"

definition table_columns :: "catalog_engine \<Rightarrow> string \<Rightarrow> column_info list" where
  "table_columns ce name =
     (case map_of (ce_tables ce) name of None \<Rightarrow> []
      | Some ids \<Rightarrow> concat (map (\<lambda>cid. if cid = 0 then [] else
          (case column_at ce cid of None \<Rightarrow> [] | Some col \<Rightarrow> [info_of ce cid col])) ids))"

section \<open>Borrowing\<close>

text \<open>
  A scan brings a column that is not on HOST there and returns it to its home tier afterwards;
  \<open>borrow\<close> and \<open>give_back\<close> are the two halves. \<open>host_bytes\<close> is \<open>host_ptr()\<close> with \<open>size_bytes()\<close>.
\<close>

definition borrow :: "u64 \<Rightarrow> catalog_engine \<Rightarrow> (memory_space \<times> catalog_engine) option" where
  "borrow cid ce =
     do {
       col \<leftarrow> column_at ce cid;
       if col_tier col = HOST then Some (HOST, ce)
       else do {
         col' \<leftarrow> migrate_to HOST col;
         Some (col_tier col, ce\<lparr>ce_cold_borrows := ce_cold_borrows ce + 1, ce_catalog := al_upd cid col' (ce_catalog ce)\<rparr>)
       }
     }"

definition give_back :: "u64 \<Rightarrow> memory_space \<Rightarrow> catalog_engine \<Rightarrow> catalog_engine option" where
  "give_back cid home ce =
     (if home = HOST then Some ce
      else do {
        col \<leftarrow> column_at ce cid;
        col' \<leftarrow> migrate_to home col;
        Some (ce\<lparr>ce_catalog := al_upd cid col' (ce_catalog ce)\<rparr>)
      })"

definition host_bytes :: "u64 \<Rightarrow> catalog_engine \<Rightarrow> (u8 list \<times> nat) option" where
  "host_bytes cid ce =
     do { col \<leftarrow> column_at ce cid; bs \<leftarrow> host_ptr col; Some (bs, unat (col_size col)) }"

definition note_access :: "u64 \<Rightarrow> catalog_engine \<Rightarrow> catalog_engine option" where
  "note_access cid ce =
     do {
       col \<leftarrow> column_at ce cid;
       Some (ce\<lparr>ce_tier_mgr := record_access cid (col_size col) (ce_tier_mgr ce)\<rparr>)
     }"

definition append_raw :: "u64 \<Rightarrow> u8 list \<Rightarrow> catalog_engine \<Rightarrow> catalog_engine option" where
  "append_raw cid bytes ce =
     do {
       (home, ce1) \<leftarrow> borrow cid ce;
       col \<leftarrow> column_at ce1 cid;
       col1 \<leftarrow> append_bytes bytes col;
       ce2 \<leftarrow> give_back cid home (ce1\<lparr>ce_catalog := al_upd cid col1 (ce_catalog ce1)\<rparr>);
       col2 \<leftarrow> column_at ce2 cid;
       Some (ce2\<lparr>ce_tier_mgr := update_bytes cid (col_size col2) (ce_tier_mgr ce2)\<rparr>)
     }"

definition append_to_column :: "u64 \<Rightarrow> u32 list \<Rightarrow> catalog_engine \<Rightarrow> catalog_engine option" where
  "append_to_column cid data ce =
     (if catalog_has ce cid \<and> column_type ce cid = U32 then append_raw cid (concat (map u32_bytes data)) ce else None)"

definition append_to_column_i64 :: "u64 \<Rightarrow> i64 list \<Rightarrow> catalog_engine \<Rightarrow> catalog_engine option" where
  "append_to_column_i64 cid data ce =
     (if catalog_has ce cid \<and> column_type ce cid = TI64
      then append_raw cid (concat (map (u64_bytes \<circ> i64_bits) data)) ce else None)"

definition append_to_column_f64 :: "u64 \<Rightarrow> f64 list \<Rightarrow> catalog_engine \<Rightarrow> catalog_engine option" where
  "append_to_column_f64 cid data ce =
     (if catalog_has ce cid \<and> column_type ce cid = TF64
      then append_raw cid (concat (map (u64_bytes \<circ> f64_bits) data)) ce else None)"

definition maybe_rebalance :: "catalog_engine \<Rightarrow> catalog_engine option" where
  "maybe_rebalance ce =
     (let s = ce_scans_since_rebalance ce + 1 in
      if s \<ge> ce_rebalance_every ce then
        let (plan, tm) = rebalance (ce_tier_mgr ce) in
        do {
          (n, cat) \<leftarrow> executor_apply plan (ce_catalog ce);
          Some (ce\<lparr>ce_tier_mgr := tm, ce_catalog := cat, ce_migrations := ce_migrations ce + of_nat n,
                   ce_rebalances := ce_rebalances ce + 1, ce_scans_since_rebalance := 0\<rparr>)
        }
      else Some (ce\<lparr>ce_scans_since_rebalance := s\<rparr>))"

section \<open>Scans and aggregates\<close>

text \<open>The common shape of the single-column scans: heat, borrow, reduce, return the borrow, rebalance.\<close>

definition scan_column_with :: "(u8 list \<Rightarrow> nat \<Rightarrow> u64 option) \<Rightarrow> u64 \<Rightarrow> catalog_engine \<Rightarrow> (u64 \<times> catalog_engine) option" where
  "scan_column_with f cid ce =
     do {
       ce1 \<leftarrow> note_access cid ce;
       (home, ce2) \<leftarrow> borrow cid ce1;
       (bs, n) \<leftarrow> host_bytes cid ce2;
       r \<leftarrow> f bs n;
       ce3 \<leftarrow> give_back cid home ce2;
       ce4 \<leftarrow> maybe_rebalance ce3;
       Some (r, ce4)
     }"

definition scan_tiered_column :: "u64 \<Rightarrow> u32 predicate \<Rightarrow> agg_op \<Rightarrow> bool \<Rightarrow> catalog_engine \<Rightarrow> (u64 \<times> catalog_engine) option" where
  "scan_tiered_column cid pred op has_filter =
     scan_column_with (\<lambda>bs size. let n = size div 4 in
       Some (if has_filter then matrix_cpu_reduce_pred (u32_view bs) n pred op None
             else matrix_cpu_reduce_all (u32_view bs) n op)) cid"

definition scan_tiered_column_i64 :: "u64 \<Rightarrow> i64 predicate \<Rightarrow> agg_op \<Rightarrow> bool \<Rightarrow> catalog_engine \<Rightarrow> (u64 \<times> catalog_engine) option" where
  "scan_tiered_column_i64 cid pred op has_filter =
     scan_column_with (\<lambda>bs size. let n = size div 8 in
       Some (i64_bits (if has_filter then matrix_cpu_reduce_pred_i64 (i64_view bs) n pred op None
                       else matrix_cpu_reduce_all_i64 (i64_view bs) n op))) cid"

definition scan_tiered_column_f64 :: "u64 \<Rightarrow> f64 predicate \<Rightarrow> agg_op \<Rightarrow> bool \<Rightarrow> catalog_engine \<Rightarrow> (u64 \<times> catalog_engine) option" where
  "scan_tiered_column_f64 cid pred op has_filter =
     scan_column_with (\<lambda>bs size. let n = size div 8 in
       Some (f64_bits (if has_filter then matrix_cpu_reduce_pred_f64 (f64_view bs) n pred op None
                       else matrix_cpu_reduce_all_f64 (f64_view bs) n op))) cid"

definition pred_u32 :: "matrix_query \<Rightarrow> u32 predicate" where
  "pred_u32 q = \<lparr>p_cmp = q_cmp q, p_a = q_threshold q, p_b = q_upper q\<rparr>"

definition pred_i64 :: "matrix_query \<Rightarrow> i64 predicate" where
  "pred_i64 q = \<lparr>p_cmp = q_cmp q, p_a = q_lo_i64 q, p_b = q_hi_i64 q\<rparr>"

definition pred_f64 :: "matrix_query \<Rightarrow> f64 predicate" where
  "pred_f64 q = \<lparr>p_cmp = q_cmp q, p_a = q_lo_f64 q, p_b = q_hi_f64 q\<rparr>"

text \<open>
  The reducers read the mask at every row index below the row count; a shorter mask is a read
  beyond the array.
\<close>

definition scalar_aggregate_nullable :: "matrix_query \<Rightarrow> catalog_engine \<Rightarrow> (u64 \<times> catalog_engine) option" where
  "scalar_aggregate_nullable q ce =
     do {
       nulls \<leftarrow> map_of (ce_null_masks ce) (q_value_col q);
       scan_column_with (\<lambda>bs size.
         let ty = column_type ce (q_value_col q); nn = size div type_width ty; op = q_agg q in
         if length nulls < nn then None
         else Some (case ty of
             TI64 \<Rightarrow> i64_bits (if q_has_filter q then matrix_cpu_reduce_pred_i64 (i64_view bs) nn (pred_i64 q) op (Some nulls)
                              else matrix_cpu_reduce_all_i64_nullable (i64_view bs) nn op nulls)
           | TF64 \<Rightarrow> f64_bits (if q_has_filter q then matrix_cpu_reduce_pred_f64 (f64_view bs) nn (pred_f64 q) op (Some nulls)
                              else matrix_cpu_reduce_all_f64_nullable (f64_view bs) nn op nulls)
           | U32 \<Rightarrow> (if q_has_filter q then matrix_cpu_reduce_pred (u32_view bs) nn (pred_u32 q) op (Some nulls)
                     else matrix_cpu_reduce_all_nullable (u32_view bs) nn op nulls))) (q_value_col q) ce
     }"

definition value_nulls :: "catalog_engine \<Rightarrow> u64 \<Rightarrow> nat \<Rightarrow> u8 list option" where
  "value_nulls ce cid n =
     (case map_of (ce_null_masks ce) cid of None \<Rightarrow> None | Some m \<Rightarrow> if length m = n then Some m else None)"

text \<open>
  The common shape of the operations on two columns: heat on both, borrow both, compute, return
  both. A computation that would read beyond one of the arrays is \<open>None\<close>.
\<close>

definition pair_columns_with ::
  "(u8 list \<Rightarrow> nat \<Rightarrow> u8 list \<Rightarrow> nat \<Rightarrow> 'r option) \<Rightarrow> u64 \<Rightarrow> u64 \<Rightarrow> catalog_engine \<Rightarrow> ('r \<times> catalog_engine) option" where
  "pair_columns_with f key_id value_id ce =
     do {
       ce1 \<leftarrow> note_access key_id ce;
       ce2 \<leftarrow> note_access value_id ce1;
       (kh, ce3) \<leftarrow> borrow key_id ce2;
       (vh, ce4) \<leftarrow> borrow value_id ce3;
       (kb, kn) \<leftarrow> host_bytes key_id ce4;
       (vb, vn) \<leftarrow> host_bytes value_id ce4;
       r \<leftarrow> f kb kn vb vn;
       ce5 \<leftarrow> give_back value_id vh ce4;
       ce6 \<leftarrow> give_back key_id kh ce5;
       Some (r, ce6)
     }"

definition same_size :: "catalog_engine \<Rightarrow> u64 \<Rightarrow> u64 \<Rightarrow> bool" where
  "same_size ce a b \<longleftrightarrow> map_option col_size (column_at ce a) = map_option col_size (column_at ce b)"

definition grouped_aggregate :: "u64 \<Rightarrow> u64 \<Rightarrow> u32 \<Rightarrow> agg_op \<Rightarrow> catalog_engine \<Rightarrow> (u64 list \<times> catalog_engine) option" where
  "grouped_aggregate key_id value_id G op ce =
     (if key_id = value_id \<or> \<not> same_size ce key_id value_id then None
      else pair_columns_with (\<lambda>kb kn vb vn. let n = kn div 4 in
        Some (matrix_cpu_group_reduce (u32_view kb) (u32_view vb) n G op (value_nulls ce value_id n))) key_id value_id ce)"

definition grouped_aggregate_pred ::
  "u64 \<Rightarrow> u64 \<Rightarrow> u32 \<Rightarrow> agg_op \<Rightarrow> u32 predicate \<Rightarrow> catalog_engine \<Rightarrow> (u64 list \<times> catalog_engine) option" where
  "grouped_aggregate_pred key_id value_id G op pred ce =
     (if key_id = value_id \<or> \<not> same_size ce key_id value_id then None
      else pair_columns_with (\<lambda>kb kn vb vn. let n = kn div 4 in
        Some (matrix_cpu_group_reduce_pred (u32_view kb) (u32_view vb) n G op pred (value_nulls ce value_id n))) key_id value_id ce)"

definition grouped_aggregate_where ::
  "u64 \<Rightarrow> u64 \<Rightarrow> u32 \<Rightarrow> agg_op \<Rightarrow> u32 \<Rightarrow> catalog_engine \<Rightarrow> (u64 list \<times> catalog_engine) option" where
  "grouped_aggregate_where key_id value_id G op threshold =
     grouped_aggregate_pred key_id value_id G op \<lparr>p_cmp = CMP_GT, p_a = threshold, p_b = 0\<rparr>"

definition grouped_aggregate_i64 ::
  "u64 \<Rightarrow> u64 \<Rightarrow> u32 \<Rightarrow> agg_op \<Rightarrow> i64 predicate \<Rightarrow> bool \<Rightarrow> catalog_engine \<Rightarrow> (u64 list \<times> catalog_engine) option" where
  "grouped_aggregate_i64 key_id value_id G op pred has_filter ce =
     pair_columns_with (\<lambda>kb kn vb vn. let n = vn div 8; nulls = value_nulls ce value_id n in
       if kn div 4 < n then None
       else Some (map i64_bits (if has_filter then matrix_cpu_group_reduce_i64_pred (u32_view kb) (i64_view vb) n G op pred nulls
                     else matrix_cpu_group_reduce_i64 (u32_view kb) (i64_view vb) n G op nulls))) key_id value_id ce"

definition grouped_aggregate_f64 ::
  "u64 \<Rightarrow> u64 \<Rightarrow> u32 \<Rightarrow> agg_op \<Rightarrow> f64 predicate \<Rightarrow> bool \<Rightarrow> catalog_engine \<Rightarrow> (u64 list \<times> catalog_engine) option" where
  "grouped_aggregate_f64 key_id value_id G op pred has_filter ce =
     pair_columns_with (\<lambda>kb kn vb vn. let n = vn div 8; nulls = value_nulls ce value_id n in
       if kn div 4 < n then None
       else Some (map f64_bits (if has_filter then matrix_cpu_group_reduce_f64_pred (u32_view kb) (f64_view vb) n G op pred nulls
                     else matrix_cpu_group_reduce_f64 (u32_view kb) (f64_view vb) n G op nulls))) key_id value_id ce"

section \<open>The invariant and the logical contents\<close>

text \<open>
  \<open>contents\<close> is what the columns hold wherever they are; \<open>logical\<close> adds what else a query can
  depend on. \<open>ce_ok\<close> says that every column is intact on HOST or COLD, that the tier manager knows
  each column's tier and size, and that a column is a whole number of elements of its type.
\<close>

definition contents :: "catalog_engine \<Rightarrow> u64 \<rightharpoonup> u8 list" where
  "contents ce k = Option.bind (map_of (ce_catalog ce) k) read_to_host"

record logical_view =
  lg_data :: "u64 \<rightharpoonup> u8 list"
  lg_type :: "u64 \<Rightarrow> matrix_type"
  lg_nulls :: "u64 \<rightharpoonup> u8 list"
  lg_max_groups :: u32

definition logical :: "catalog_engine \<Rightarrow> logical_view" where
  "logical ce = \<lparr>lg_data = contents ce, lg_type = column_type ce, lg_nulls = map_of (ce_null_masks ce),
     lg_max_groups = ce_max_query_groups ce\<rparr>"

definition lockstep :: "tier_manager \<Rightarrow> (u64 \<times> tiered_column) list \<Rightarrow> bool" where
  "lockstep tm cat \<longleftrightarrow> tiers (tm_cols tm) = col_tiers cat \<and>
     (\<forall>k. map_of (sizes (tm_cols tm)) k = map_option col_size (map_of cat k))"

definition ce_ok :: "catalog_engine \<Rightarrow> bool" where
  "ce_ok ce \<longleftrightarrow>
     distinct (map fst (ce_catalog ce)) \<and> map_of (ce_catalog ce) 0 = None \<and>
     holds_all (ce_catalog ce) (contents ce) \<and> cpu_inv (ce_tier_mgr ce) \<and>
     lockstep (ce_tier_mgr ce) (ce_catalog ce) \<and>
     dom (ce_col_types ce) \<subseteq> fst ` set (ce_catalog ce) \<and>
     (\<forall>k bs. contents ce k = Some bs \<longrightarrow> type_width (column_type ce k) dvd length bs)"

lemma ce_ok_holds: "ce_ok ce \<Longrightarrow> map_of (ce_catalog ce) k = Some col \<Longrightarrow> \<exists>bs. contents ce k = Some bs \<and> col_holds col bs"
  by (simp add: ce_ok_def holds_all_def)

lemma ce_ok_column:
  assumes "ce_ok ce" "contents ce k = Some bs"
  obtains col where "column_at ce k = Some col" "col_holds col bs"
proof -
  obtain col where col: "map_of (ce_catalog ce) k = Some col" "read_to_host col = Some bs"
    using assms(2) by (auto simp: contents_def bind_eq_Some_conv)
  then show thesis using that ce_ok_holds [OF assms(1) col(1)] assms(2) by (auto simp: column_at_def)
qed

lemma contents_None: "ce_ok ce \<Longrightarrow> contents ce k = None \<longleftrightarrow> column_at ce k = None"
  using ce_ok_holds [of ce k] by (cases "map_of (ce_catalog ce) k") (auto simp: contents_def column_at_def)

lemma catalog_has_contents: "ce_ok ce \<Longrightarrow> catalog_has ce k \<longleftrightarrow> contents ce k \<noteq> None"
  using contents_None [of ce k] by (auto simp: catalog_has_def column_at_def ce_ok_def contents_def)

lemma column_rows_contents:
  assumes "ce_ok ce"
  shows "column_rows ce k = map_option (\<lambda>bs. length bs div type_width (column_type ce k)) (contents ce k)"
proof (cases "contents ce k")
  case None
  then show ?thesis using contents_None [OF assms] by (simp add: column_rows_def)
next
  case (Some bs)
  with assms obtain col where "column_at ce k = Some col" "col_holds col bs" by (rule ce_ok_column)
  then show ?thesis using Some by (simp add: column_rows_def col_holds_def)
qed

lemma col_holds_size: "col_holds col bs \<Longrightarrow> col_size col = of_nat (length bs)"
proof -
  assume "col_holds col bs"
  then have "of_nat (unat (col_size col)) = (of_nat (length bs) :: u64)" by (simp add: col_holds_def)
  then show "col_size col = of_nat (length bs)" by simp
qed

section \<open>Borrowing is invisible\<close>

definition hosted :: "tiered_column \<Rightarrow> tiered_column" where
  "hosted col = the (migrate_to HOST col)"

lemma hosted_holds:
  assumes "col_holds col bs"
  shows "migrate_to HOST col = Some (hosted col)" "col_holds (hosted col) bs" "col_tier (hosted col) = HOST"
    and "col_tier col = HOST \<Longrightarrow> hosted col = col" "migrate_to (col_tier col) (hosted col) = Some col"
    and "col_size (hosted col) = col_size col"
proof -
  have "HOST \<in> {HOST, COLD}" by simp
  with assms obtain c where c: "migrate_to HOST col = Some c" "col_holds c bs" "col_tier c = HOST" "col_size c = col_size col"
    by (rule migrate_to_holds) blast
  then show "migrate_to HOST col = Some (hosted col)" "col_holds (hosted col) bs" "col_tier (hosted col) = HOST"
    "col_size (hosted col) = col_size col"
    by (simp_all add: hosted_def)
  show host: "col_tier col = HOST \<Longrightarrow> hosted col = col" by (simp add: hosted_def migrate_to_def)
  show "migrate_to (col_tier col) (hosted col) = Some col"
  proof (cases "col_tier col = HOST")
    case True
    then show ?thesis using host by (simp add: migrate_to_def)
  next
    case False
    with assms have "col_tier col = COLD" "col_cold col = Some bs" "col_host col = []" "unat (col_size col) = length bs" "length bs \<le> col_room col"
      by (auto simp: col_holds_def)
    then show ?thesis
      by (cases col) (simp add: hosted_def migrate_to_def read_to_host_def free_current_def write_cold_fits)
  qed
qed

definition borrows :: "tiered_column \<Rightarrow> u64" where
  "borrows col = (if col_tier col = HOST then 0 else 1)"

lemma borrow_eq:
  assumes "column_at ce k = Some col" "col_holds col bs"
  shows "borrow k ce = Some (col_tier col, ce\<lparr>ce_cold_borrows := ce_cold_borrows ce + borrows col,
    ce_catalog := al_upd k (hosted col) (ce_catalog ce)\<rparr>)"
proof (cases "col_tier col = HOST")
  case True
  have "al_upd k (hosted col) (ce_catalog ce) = ce_catalog ce"
    using assms(1) hosted_holds(4) [OF assms(2) True] by (simp add: column_at_def al_upd_same)
  then show ?thesis using assms(1) True by (simp add: borrow_def borrows_def)
next
  case False
  then show ?thesis using assms hosted_holds(1) [OF assms(2)] by (simp add: borrow_def borrows_def)
qed

lemma give_back_eq:
  assumes "column_at ce k = Some (hosted col)" "col_holds col bs"
  shows "give_back k (col_tier col) ce = Some (ce\<lparr>ce_catalog := al_upd k col (ce_catalog ce)\<rparr>)"
proof (cases "col_tier col = HOST")
  case True
  then show ?thesis using assms(1) hosted_holds(4) [OF assms(2) True] by (simp add: give_back_def column_at_def al_upd_same)
next
  case False
  then show ?thesis using assms(1) hosted_holds(5) [OF assms(2)] by (simp add: give_back_def)
qed

lemma host_bytes_eq:
  assumes "column_at ce k = Some col" "col_holds col bs" "col_tier col = HOST"
  shows "host_bytes k ce = Some (bs, length bs)"
  using assms by (auto simp: host_bytes_def host_ptr_def col_holds_def)

definition touched :: "u64 \<Rightarrow> tiered_column \<Rightarrow> catalog_engine \<Rightarrow> catalog_engine" where
  "touched k col ce = ce\<lparr>ce_tier_mgr := record_access k (col_size col) (ce_tier_mgr ce),
     ce_cold_borrows := ce_cold_borrows ce + borrows col\<rparr>"

lemma scan_column_with_eq:
  assumes "column_at ce k = Some col" "col_holds col bs"
  shows "scan_column_with f k ce =
    do { r \<leftarrow> f bs (length bs); ce' \<leftarrow> maybe_rebalance (touched k col ce); Some (r, ce') }"
proof -
  let ?ce1 = "ce\<lparr>ce_tier_mgr := record_access k (col_size col) (ce_tier_mgr ce)\<rparr>"
  let ?ce2 = "?ce1\<lparr>ce_cold_borrows := ce_cold_borrows ce + borrows col, ce_catalog := al_upd k (hosted col) (ce_catalog ce)\<rparr>"
  have b: "borrow k ?ce1 = Some (col_tier col, ?ce2)"
    using borrow_eq [of ?ce1 k col bs] assms by (simp add: column_at_def)
  have h: "host_bytes k ?ce2 = Some (bs, length bs)"
    using hosted_holds(2,3) [OF assms(2)] by (intro host_bytes_eq [of _ _ "hosted col"]) (simp_all add: column_at_def)
  have "give_back k (col_tier col) ?ce2 = Some (?ce2\<lparr>ce_catalog := al_upd k col (ce_catalog ?ce2)\<rparr>)"
    using assms(2) by (intro give_back_eq [of _ _ _ bs]) (simp_all add: column_at_def)
  also have "?ce2\<lparr>ce_catalog := al_upd k col (ce_catalog ?ce2)\<rparr> = touched k col ce"
    using assms(1) by (simp add: touched_def column_at_def al_upd_same)
  finally have g: "give_back k (col_tier col) ?ce2 = Some (touched k col ce)" .
  show ?thesis
    unfolding scan_column_with_def note_access_def by (simp add: assms(1) b h g)
qed

lemma touched_fields [simp]:
  "ce_catalog (touched k col ce) = ce_catalog ce" "column_at (touched k col ce) = column_at ce"
  "ce_tier_mgr (touched k col ce) = record_access k (col_size col) (ce_tier_mgr ce)"
  "ce_cold_borrows (touched k col ce) = ce_cold_borrows ce + borrows col"
  by (simp_all add: touched_def column_at_def fun_eq_iff)

lemma pair_columns_with_eq:
  assumes "column_at ce k = Some kc" "col_holds kc kb" "column_at ce v = Some vc" "col_holds vc vb"
  shows "pair_columns_with f k v ce =
    do { r \<leftarrow> f kb (length kb) vb (length vb); Some (r, touched v (if v = k then hosted vc else vc) (touched k kc ce)) }"
proof -
  define c where "c = (if v = k then hosted vc else vc)"
  let ?cat = "ce_catalog ce"
  let ?ce1 = "ce\<lparr>ce_tier_mgr := record_access v (col_size vc) (record_access k (col_size kc) (ce_tier_mgr ce))\<rparr>"
  let ?ce2 = "?ce1\<lparr>ce_cold_borrows := ce_cold_borrows ce + borrows kc, ce_catalog := al_upd k (hosted kc) ?cat\<rparr>"
  let ?cat3 = "al_upd v (hosted c) (al_upd k (hosted kc) ?cat)"
  let ?ce3 = "?ce2\<lparr>ce_cold_borrows := ce_cold_borrows ce + borrows kc + borrows c, ce_catalog := ?cat3\<rparr>"
  have at: "map_of ?cat k = Some kc" "map_of ?cat v = Some vc" using assms(1,3) by (simp_all add: column_at_def)
  have same: "vc = kc" if "v = k" using that at by simp
  have c: "col_holds c vb" "col_size c = col_size vc"
    using assms(4) hosted_holds(2,6) [OF assms(4)] by (simp_all add: c_def)
  have hk: "hosted c = hosted kc \<and> kb = vb" if "v = k"
  proof -
    have "hosted c = c" using that hosted_holds(3) [OF assms(4)] by (intro hosted_holds(4) [OF c(1)]) (simp add: c_def)
    moreover have "kb = vb" using read_to_host_holds [OF assms(2)] read_to_host_holds [OF assms(4)] same [OF that] by simp
    ultimately show ?thesis using that same by (simp add: c_def)
  qed
  have n: "note_access k ce = Some (ce\<lparr>ce_tier_mgr := record_access k (col_size kc) (ce_tier_mgr ce)\<rparr>)"
    "note_access v (ce\<lparr>ce_tier_mgr := record_access k (col_size kc) (ce_tier_mgr ce)\<rparr>) = Some ?ce1"
    using at by (simp_all add: note_access_def column_at_def)
  have b1: "borrow k ?ce1 = Some (col_tier kc, ?ce2)"
    using borrow_eq [of ?ce1 k kc kb] assms(2) at by (simp add: column_at_def)
  have b2: "borrow v ?ce2 = Some (col_tier c, ?ce3)"
    using borrow_eq [of ?ce2 v c vb] c(1) at same by (auto simp: column_at_def c_def)
  have h1: "host_bytes k ?ce3 = Some (kb, length kb)"
    using hosted_holds(2,3) [OF assms(2)] at hk
    by (intro host_bytes_eq [of _ _ "hosted kc"]) (auto simp: column_at_def)
  have h2: "host_bytes v ?ce3 = Some (vb, length vb)"
    using hosted_holds(2,3) [OF c(1)] by (intro host_bytes_eq [of _ _ "hosted c"]) (auto simp: column_at_def)
  have g1: "give_back v (col_tier c) ?ce3 = Some (?ce3\<lparr>ce_catalog := al_upd v c ?cat3\<rparr>)"
    using give_back_eq [of ?ce3 v c vb] c(1) by (simp add: column_at_def)
  have cat4: "al_upd v c ?cat3 = al_upd k (hosted kc) ?cat"
  proof (cases "v = k")
    case True
    then show ?thesis using same by (simp add: c_def)
  next
    case False
    have "k \<in> fst ` set ?cat" using at(1) by (metis domI dom_map_of_conv_image_fst)
    then have "al_upd v c ?cat3 = al_upd k (hosted kc) (al_upd v vc ?cat)"
      using False by (simp add: c_def al_upd_commute [of k v])
    then show ?thesis using at(2) by (simp add: al_upd_same)
  qed
  have g2: "give_back k (col_tier kc) (?ce3\<lparr>ce_catalog := al_upd v c ?cat3\<rparr>) = Some (?ce3\<lparr>ce_catalog := ?cat\<rparr>)"
    using give_back_eq [of "?ce3\<lparr>ce_catalog := al_upd v c ?cat3\<rparr>" k kc kb] assms(2) at(1) unfolding cat4
    by (simp add: column_at_def al_upd_same)
  have "?ce3\<lparr>ce_catalog := ?cat\<rparr> = touched v c (touched k kc ce)" by (simp add: touched_def c(2))
  with g2 have g2': "give_back k (col_tier kc) (?ce3\<lparr>ce_catalog := al_upd v c ?cat3\<rparr>) = Some (touched v c (touched k kc ce))"
    by simp
  show ?thesis
    unfolding pair_columns_with_def n b1 bind.bind_lunit prod.case b2 h1 h2 g1 g2' c_def [symmetric] by (rule refl)
qed

section \<open>Rebalancing moves columns, not data\<close>

lemma contents_cong:
  assumes "\<And>k. map_option read_to_host (map_of (ce_catalog ce') k) = map_option read_to_host (map_of (ce_catalog ce) k)"
  shows "contents ce' = contents ce"
proof
  fix k
  from assms [of k] show "contents ce' k = contents ce k"
    by (cases "map_of (ce_catalog ce) k"; cases "map_of (ce_catalog ce') k") (simp_all add: contents_def)
qed

lemma logical_cong:
  assumes "contents ce' = contents ce" "ce_col_types ce' = ce_col_types ce" "ce_null_masks ce' = ce_null_masks ce"
    "ce_max_query_groups ce' = ce_max_query_groups ce"
  shows "logical ce' = logical ce"
  using assms by (simp add: logical_def column_type_def fun_eq_iff)

lemma ce_ok_cong:
  assumes "ce_ok ce" "ce_catalog ce' = ce_catalog ce" "ce_col_types ce' = ce_col_types ce"
    "cpu_inv (ce_tier_mgr ce')" "lockstep (ce_tier_mgr ce') (ce_catalog ce)"
  shows "ce_ok ce'"
proof -
  have "contents ce' = contents ce" "column_type ce' = column_type ce"
    using assms(2,3) by (simp_all add: contents_def column_type_def fun_eq_iff)
  then show ?thesis using assms unfolding ce_ok_def by simp
qed

lemma cpu_cols_upd_col:
  assumes "cpu_cols cols" "\<And>c. tc_id (f c) = tc_id c \<and> tc_tier (f c) = tc_tier c"
    "\<And>c. tc_bytes c mod 4 = 0 \<Longrightarrow> tc_bytes (f c) mod 4 = 0"
  shows "cpu_cols (upd_col k f cols)"
proof -
  have "tc_id c' = k' \<and> tc_tier c' \<in> {HOST, COLD} \<and> tc_bytes c' mod 4 = 0" if c': "(k', c') \<in> set (upd_col k f cols)" for k' c'
  proof -
    obtain c where "(k', c) \<in> set cols" and c: "c' = (if k' = k then f c else c)" using c' by (auto simp: upd_col_def)
    then have "tc_id c = k' \<and> tc_tier c \<in> {HOST, COLD} \<and> tc_bytes c mod 4 = 0"
      using assms(1) by (auto simp: cpu_cols_def cols_ok_def)
    then show ?thesis unfolding c by (simp add: assms(2,3))
  qed
  moreover have "distinct (map fst cols)" using assms(1) by (simp add: cpu_cols_def cols_ok_def)
  ultimately show ?thesis unfolding cpu_cols_def cols_ok_def keys_upd_col by blast
qed

lemma sizes_upd_col: "(\<And>c. tc_bytes (f c) = tc_bytes c) \<Longrightarrow> sizes (upd_col k f cols) = sizes cols"
  by (induction cols) (auto simp: sizes_def upd_col_def)

lemma record_access_lockstep:
  assumes "cpu_inv tm"
  shows "cpu_inv (record_access k n tm)" "lockstep (record_access k n tm) cat \<longleftrightarrow> lockstep tm cat"
proof -
  let ?f = "\<lambda>c. c\<lparr>tc_recent_bytes := tc_recent_bytes c + n\<rparr>"
  have "cpu_cols (upd_col k ?f (tm_cols tm))" using assms by (intro cpu_cols_upd_col) (simp_all add: cpu_inv_def)
  then show "cpu_inv (record_access k n tm)" using assms by (simp add: cpu_inv_def record_access_def)
  have "tiers (upd_col k ?f (tm_cols tm)) = tiers (tm_cols tm)"
    by (auto simp: tiers_def fun_eq_iff map_of_upd_col option.map_comp comp_def)
  then show "lockstep (record_access k n tm) cat \<longleftrightarrow> lockstep tm cat"
    by (simp add: lockstep_def record_access_def sizes_upd_col)
qed

lemma touched_ok:
  assumes "ce_ok ce"
  shows "ce_ok (touched k col ce)" "logical (touched k col ce) = logical ce"
proof -
  have "cpu_inv (ce_tier_mgr ce)" "lockstep (ce_tier_mgr ce) (ce_catalog ce)" using assms by (simp_all add: ce_ok_def)
  then show "ce_ok (touched k col ce)"
    using assms record_access_lockstep by (intro ce_ok_cong [OF assms]) (simp_all add: touched_def)
  show "logical (touched k col ce) = logical ce"
    by (rule logical_cong) (simp_all add: touched_def contents_def fun_eq_iff)
qed

lemma contents_holds:
  assumes "holds_all cat (contents ce)" "fst ` set cat = fst ` set (ce_catalog ce)" "ce_catalog ce' = cat" "ce_ok ce"
  shows "contents ce' = contents ce"
proof
  fix k
  have dom: "map_of cat k = None \<longleftrightarrow> map_of (ce_catalog ce) k = None" using assms(2) by (simp add: map_of_eq_None_iff)
  show "contents ce' k = contents ce k"
  proof (cases "map_of cat k")
    case None
    then show ?thesis using dom assms(3) by (simp add: contents_def)
  next
    case (Some col)
    with assms(1) obtain bs where "contents ce k = Some bs" "col_holds col bs" by (rule holds_allD)
    then show ?thesis using Some assms(3) by (simp add: contents_def read_to_host_holds)
  qed
qed

lemma maybe_rebalance_ok:
  assumes ok: "ce_ok ce"
  shows "\<exists>ce'. maybe_rebalance ce = Some ce' \<and> ce_ok ce' \<and> logical ce' = logical ce"
proof (cases "ce_scans_since_rebalance ce + 1 \<ge> ce_rebalance_every ce")
  case False
  let ?ce = "ce\<lparr>ce_scans_since_rebalance := ce_scans_since_rebalance ce + 1\<rparr>"
  have "ce_ok ?ce" using ok by (intro ce_ok_cong [OF ok]) (simp_all add: ce_ok_def)
  moreover have "logical ?ce = logical ce" by (rule logical_cong) (simp_all add: contents_def fun_eq_iff)
  ultimately show ?thesis using False by (simp add: maybe_rebalance_def Let_def)
next
  case True
  obtain plan tm where r: "rebalance (ce_tier_mgr ce) = (plan, tm)" by fastforce
  let ?cat = "ce_catalog ce" and ?tc = "tm_cols (ce_tier_mgr ce)"
  have inv: "cpu_inv (ce_tier_mgr ce)" "lockstep (ce_tier_mgr ce) ?cat" "holds_all ?cat (contents ce)"
    using ok by (simp_all add: ce_ok_def)
  then have "cols_ok ?tc" by (simp add: cpu_inv_def cpu_cols_def)
  from rebalance_inv [OF this r]
  have plan: "valid_plan (tiers ?tc) plan" "tiers (tm_cols tm) = apply_plan plan (tiers ?tc)" "sizes (tm_cols tm) = sizes ?tc"
    by (simp_all add: plan_inv_def)
  have tm: "cpu_inv tm" "\<forall>d \<in> set plan. md_to d \<in> {HOST, COLD}" using rebalance_cpu [OF inv(1) r] by simp_all
  have "dom (tiers ?tc) = fst ` set ?cat" using inv(2) by (auto simp: lockstep_def col_tiers_def dom_map_of_conv_image_fst [symmetric])
  then have "\<forall>d \<in> set plan. md_to d \<in> {HOST, COLD} \<and> md_column_id d \<in> fst ` set ?cat"
    using tm(2) valid_plan_ids [OF plan(1)] by blast
  from executor_apply_holds [OF this inv(3)] obtain cat where
    e: "executor_apply plan ?cat = Some (length plan, cat)" "map fst cat = map fst ?cat" "holds_all cat (contents ce)"
      "col_tiers cat = apply_plan plan (col_tiers ?cat)" by blast
  define ce' where "ce' = ce\<lparr>ce_tier_mgr := tm, ce_catalog := cat, ce_migrations := ce_migrations ce + of_nat (length plan),
      ce_rebalances := ce_rebalances ce + 1, ce_scans_since_rebalance := 0\<rparr>"
  have keys: "fst ` set cat = fst ` set ?cat" using arg_cong [OF e(2), of set] by simp
  have c: "contents ce' = contents ce" using contents_holds [OF e(3) keys _ ok, of ce'] by (simp add: ce'_def)
  have sz: "map_option col_size (map_of cat k) = map_option col_size (map_of ?cat k)" for k
  proof (cases "map_of cat k")
    case None
    then have "map_of ?cat k = None" using keys by (simp add: map_of_eq_None_iff)
    then show ?thesis using None by simp
  next
    case (Some col)
    obtain bs where bs: "contents ce k = Some bs" "col_holds col bs" using e(3) Some by (rule holds_allD)
    with ok obtain col0 where "map_of ?cat k = Some col0" "col_holds col0 bs" using ce_ok_column by (metis column_at_def)
    then show ?thesis using Some bs(2) by (simp add: col_holds_size)
  qed
  have zero: "map_of cat 0 = None" using keys ok by (simp add: map_of_eq_None_iff ce_ok_def)
  have "lockstep tm cat" using plan inv(2) e(4) sz by (simp add: lockstep_def)
  then have "ce_ok ce'"
    using ok tm(1) e(2,3) c zero keys unfolding ce_ok_def by (simp add: ce'_def column_type_def)
  moreover have "logical ce' = logical ce" using c by (intro logical_cong) (simp_all add: ce'_def)
  moreover have "maybe_rebalance ce = Some ce'" using True r e(1) by (simp add: maybe_rebalance_def ce'_def Let_def)
  ultimately show ?thesis by blast
qed

section \<open>Loading and appending\<close>

lemma catalog_init_ok: "ce_ok (catalog_init host_cap room)"
  by (simp add: ce_ok_def catalog_init_def holds_all_def cpu_inv_def cpu_cols_def cols_ok_def TierManager_def lockstep_def
      tiers_def col_tiers_def sizes_def contents_def fun_eq_iff)

text \<open>A new column, of type \<open>U32\<close> when \<open>ty\<close> is \<open>None\<close>.\<close>

lemma word_mod_4: "length bs < 2 ^ 64 \<Longrightarrow> 4 dvd length bs \<Longrightarrow> (of_nat (length bs) :: u64) mod 4 = 0"
  by (rule unsigned_word_eqI [where ?'a = nat]) (simp add: unat_mod unat_of_nat_small mod_eq_0_iff_dvd)

lemma type_width_dvd: "4 dvd type_width t" "0 < type_width t"
  by (simp_all add: type_width_def)

lemma load_bytes_ok:
  assumes ok: "ce_ok ce" and new: "cid \<noteq> 0" "contents ce cid = None"
    and fits: "length bytes < 2 ^ 64" "length bytes \<le> ce_tmp_room ce" and ty: "type_width (the_default U32 ty) dvd length bytes"
  shows "\<exists>ce'. load_bytes cid bytes ce = Some ce' \<and> contents ce' = (contents ce)(cid \<mapsto> bytes) \<and>
    ce_ok (ce'\<lparr>ce_col_types := (ce_col_types ce)(cid := ty)\<rparr>) \<and> ce_col_types ce' = ce_col_types ce"
proof -
  let ?cat = "ce_catalog ce" and ?col = "TieredColumn (ce_tmp_room ce) cid bytes"
  have abs: "map_of ?cat cid = None" using new(2) contents_None [OF ok] by (simp add: column_at_def)
  define ce' where "ce' = ce\<lparr>ce_catalog := al_upd cid ?col ?cat,
      ce_tier_mgr := register_column cid (of_nat (length bytes)) HOST (ce_tier_mgr ce)\<rparr>"
  let ?ce = "ce'\<lparr>ce_col_types := (ce_col_types ce)(cid := ty)\<rparr>"
  have holds: "col_holds ?col bytes" using fits by (rule TieredColumn_holds)
  have c: "contents ce' = (contents ce)(cid \<mapsto> bytes)" "contents ?ce = contents ce'"
    using read_to_host_holds [OF holds] by (simp_all add: contents_def ce'_def fun_eq_iff)
  have "4 dvd length bytes" using type_width_dvd(1) ty by (rule dvd_trans)
  then have m4: "(of_nat (length bytes) :: u64) mod 4 = 0" using fits(1) by (intro word_mod_4)
  have inv: "cpu_inv (ce_tier_mgr ce)" "lockstep (ce_tier_mgr ce) ?cat" "holds_all ?cat (contents ce)"
    using ok by (simp_all add: ce_ok_def)
  have tabs: "cid \<notin> fst ` set (tm_cols (ce_tier_mgr ce))"
  proof -
    have "tiers (tm_cols (ce_tier_mgr ce)) cid = None" using inv(2) abs by (simp add: lockstep_def col_tiers_def)
    then show ?thesis by (simp add: tiers_def map_of_eq_None_iff)
  qed
  have "cpu_inv (ce_tier_mgr ce')"
    using inv(1) m4 tabs
    by (auto simp: ce'_def register_column_def cpu_inv_def cpu_cols_def cols_ok_def al_upd_keys_absent)
  moreover have "lockstep (ce_tier_mgr ce') (al_upd cid ?col ?cat)"
    using inv(2) by (auto simp: lockstep_def ce'_def register_column_def tiers_def col_tiers_def fun_eq_iff sizes_bytes TieredColumn_def)
  moreover have "holds_all (al_upd cid ?col ?cat) (contents ce')"
    using inv(3) holds unfolding c by (auto simp: holds_all_def)
  moreover have "type_width (column_type ?ce k) dvd length bs" if "contents ce' k = Some bs" for k bs
    using that ok ty unfolding c
    by (cases "k = cid") (auto simp: column_type_def the_default_def ce_ok_def split: option.splits)
  moreover have d: "dom ((ce_col_types ce)(cid := ty)) \<subseteq> fst ` set (al_upd cid ?col ?cat)"
  proof -
    have "dom (ce_col_types ce) \<subseteq> fst ` set ?cat" using ok by (simp add: ce_ok_def)
    then show ?thesis by auto
  qed
  moreover have "distinct (map fst (al_upd cid ?col ?cat))" "map_of (al_upd cid ?col ?cat) 0 = None"
    using ok new(1) by (simp_all add: ce_ok_def)
  moreover have "ce_catalog ?ce = al_upd cid ?col ?cat" "ce_tier_mgr ?ce = ce_tier_mgr ce'" "ce_col_types ?ce = (ce_col_types ce)(cid := ty)"
    by (simp_all add: ce'_def)
  ultimately have "ce_ok ?ce" unfolding ce_ok_def c(2) by simp
  moreover have "load_bytes cid bytes ce = Some ce'" using new(1) abs by (simp add: load_bytes_def ce'_def)
  moreover have "ce_col_types ce' = ce_col_types ce" by (simp add: ce'_def)
  ultimately show ?thesis using c(1) by blast
qed

lemma append_raw_ok:
  assumes ok: "ce_ok ce" and cid: "column_at ce cid = Some col" "contents ce cid = Some bs"
    and fits: "length (bs @ b) < 2 ^ 64" "length (bs @ b) \<le> col_room col"
    and ty: "type_width (column_type ce cid) dvd length b"
  shows "\<exists>ce'. append_raw cid b ce = Some ce' \<and> ce_ok ce' \<and> contents ce' = (contents ce)(cid \<mapsto> bs @ b) \<and>
    ce_col_types ce' = ce_col_types ce \<and> ce_null_masks ce' = ce_null_masks ce"
proof -
  let ?cat = "ce_catalog ce"
  have at: "map_of ?cat cid = Some col" using cid(1) by (simp add: column_at_def)
  have holds: "col_holds col bs" using ce_ok_holds [OF ok at] cid(2) by simp
  let ?ce1 = "ce\<lparr>ce_cold_borrows := ce_cold_borrows ce + borrows col, ce_catalog := al_upd cid (hosted col) ?cat\<rparr>"
  have b1: "borrow cid ce = Some (col_tier col, ?ce1)" using cid(1) holds by (rule borrow_eq)
  have room: "col_room (hosted col) = col_room col"
    using migrate_to_holds [OF holds, of HOST] hosted_holds(1) [OF holds] by (metis insertCI option.inject)
  obtain c1 where c1: "append_bytes b (hosted col) = Some c1" "col_holds c1 (bs @ b)" "col_tier c1 = HOST" "col_room c1 = col_room (hosted col)"
    using append_bytes_holds [OF hosted_holds(2,3) [OF holds] fits(1)] fits(2) room by metis
  have "col_tier col \<in> {HOST, COLD}" using holds by (rule col_holds_tier)
  with c1(2) obtain c2 where c2: "migrate_to (col_tier col) c1 = Some c2" "col_holds c2 (bs @ b)" "col_tier c2 = col_tier col"
    by (rule migrate_to_holds) blast
  let ?ce2 = "?ce1\<lparr>ce_catalog := al_upd cid c1 (ce_catalog ?ce1)\<rparr>"
  let ?ce3 = "?ce2\<lparr>ce_catalog := al_upd cid c2 (ce_catalog ?ce1)\<rparr>"
  have g: "give_back cid (col_tier col) ?ce2 = Some ?ce3"
  proof (cases "col_tier col = HOST")
    case True
    then have "c2 = c1" using c2(1) c1(3) by (simp add: migrate_to_def)
    then show ?thesis using True by (simp add: give_back_def)
  next
    case False
    then show ?thesis using c2(1) by (simp add: give_back_def column_at_def)
  qed
  define ce' where "ce' = ?ce3\<lparr>ce_tier_mgr := update_bytes cid (col_size c2) (ce_tier_mgr ce)\<rparr>"
  have run: "append_raw cid b ce = Some ce'"
    unfolding append_raw_def b1 using c1(1) g by (simp add: column_at_def ce'_def)
  have cat': "ce_catalog ce' = al_upd cid c2 ?cat" by (simp add: ce'_def)
  have c: "contents ce' = (contents ce)(cid \<mapsto> bs @ b)"
    using read_to_host_holds [OF c2(2)] by (simp add: contents_def cat' fun_eq_iff)
  have inv: "cpu_inv (ce_tier_mgr ce)" "lockstep (ce_tier_mgr ce) ?cat" "holds_all ?cat (contents ce)" "distinct (map fst ?cat)"
    "map_of ?cat 0 = None" "dom (ce_col_types ce) \<subseteq> fst ` set ?cat"
    using ok by (simp_all add: ce_ok_def)
  have dvd: "type_width (column_type ce cid) dvd length (bs @ b)" using ok cid(2) ty by (simp add: ce_ok_def)
  then have "4 dvd length (bs @ b)" using type_width_dvd(1) dvd_trans by blast
  then have m4: "(of_nat (length (bs @ b)) :: u64) mod 4 = 0" using fits(1) by (intro word_mod_4)
  have "cpu_cols (tm_cols (ce_tier_mgr ce'))"
  proof -
    have "cpu_cols (upd_col cid (\<lambda>c. c\<lparr>tc_bytes := col_size c2\<rparr>) (tm_cols (ce_tier_mgr ce)))"
      using inv(1) m4 by (intro cpu_cols_upd_col) (simp_all add: cpu_inv_def col_holds_size [OF c2(2)] del: length_append)
    then show ?thesis by (simp add: ce'_def update_bytes_def)
  qed
  then have "cpu_inv (ce_tier_mgr ce')" using inv(1) by (simp add: cpu_inv_def ce'_def update_bytes_def)
  moreover have "lockstep (ce_tier_mgr ce') (al_upd cid c2 ?cat)"
  proof -
    have "map_of (tm_cols (ce_tier_mgr ce)) cid \<noteq> None" using inv(2) at
      by (metis lockstep_def tiers_def col_tiers_def option.map_disc_iff option.distinct(1))
    then show ?thesis using inv(2) at
      by (auto simp: lockstep_def tiers_def col_tiers_def fun_eq_iff sizes_bytes ce'_def update_bytes_def map_of_upd_col c2(3) option.map_comp comp_def)
  qed
  moreover have "holds_all (al_upd cid c2 ?cat) (contents ce')"
    using inv(3) c2(2) unfolding c by (auto simp: holds_all_def)
  moreover have "type_width (column_type ce' k) dvd length xs" if "contents ce' k = Some xs" for k xs
  proof -
    have "column_type ce' = column_type ce" by (simp add: column_type_def ce'_def fun_eq_iff)
    then show ?thesis using that ok dvd unfolding c by (cases "k = cid") (auto simp: ce_ok_def)
  qed
  moreover have "distinct (map fst (al_upd cid c2 ?cat))" "map_of (al_upd cid c2 ?cat) 0 = None"
    "dom (ce_col_types ce') \<subseteq> fst ` set (al_upd cid c2 ?cat)"
    using inv(4,5,6) at by (auto simp: ce'_def)
  ultimately have "ce_ok ce'" unfolding ce_ok_def cat' by blast
  then show ?thesis using run c by (simp add: ce'_def)
qed

section \<open>Typed views\<close>

lemma chunk_nth:
  assumes "\<And>x. length (f x) = w" "i < length xs"
  shows "take w (drop (w * i) (concat (map f xs))) = f (xs ! i)"
  using assms(2)
proof (induction xs arbitrary: i)
  case (Cons x xs)
  then show ?case using assms(1) by (cases i) simp_all
qed simp

lemma length_chunks: "(\<And>x. length (f x) = w) \<Longrightarrow> length (concat (map f xs)) = w * length xs"
  by (induction xs) simp_all

lemma array_of_chunks:
  assumes "0 < w" "\<And>x. length (f x) = w" "\<And>x. le_decode (f x) = g x"
  shows "array_of w (concat (map f xs)) = map g xs"
  using assms by (intro nth_equalityI) (simp_all add: array_of_def length_chunks chunk_nth)

lemma u32_view_bytes [simp]: "u32_view (concat (map u32_bytes xs)) = xs"
  unfolding u32_view_def by (subst array_of_chunks [where g = id]) simp_all

lemma i64_view_bytes [simp]: "i64_view (concat (map (u64_bytes \<circ> i64_bits) xs)) = xs"
proof -
  have "array_of 8 (concat (map (u64_bytes \<circ> i64_bits) xs)) = map i64_bits xs" by (rule array_of_chunks) simp_all
  then show ?thesis by (simp add: i64_view_def comp_def)
qed

lemma f64_view_bytes [simp]: "f64_view (concat (map (u64_bytes \<circ> f64_bits) xs)) = xs"
proof -
  have "array_of 8 (concat (map (u64_bytes \<circ> f64_bits) xs)) = map f64_bits xs" by (rule array_of_chunks) simp_all
  then show ?thesis by (simp add: f64_view_def comp_def)
qed

lemma length_array_of [simp]: "length (array_of w bs) = length bs div w"
  by (simp add: array_of_def)

lemma length_views [simp]:
  "length (u32_view bs) = length bs div 4" "length (i64_view bs) = length bs div 8" "length (f64_view bs) = length bs div 8"
  by (simp_all add: u32_view_def i64_view_def f64_view_def)

lemma array_of_append:
  assumes "0 < w" "w dvd length bs"
  shows "(array_of w (bs @ b) :: 'a::len word list) = array_of w bs @ array_of w b"
proof -
  obtain n where n: "length bs = w * n" using assms(2) by (elim dvdE)
  show ?thesis
  proof (rule nth_equalityI)
    show "length (array_of w (bs @ b) :: 'a word list) = length (array_of w bs @ array_of w b :: 'a word list)"
      using assms(1) n by (simp add: div_plus_div_distrib_dvd_left)
    fix i assume "i < length (array_of w (bs @ b) :: 'a word list)"
    then have i: "i < n + length b div w" using assms(1) n by (simp add: div_plus_div_distrib_dvd_left)
    show "(array_of w (bs @ b) :: 'a word list) ! i = (array_of w bs @ array_of w b) ! i"
    proof (cases "i < n")
      case True
      then have "w * i + w \<le> w * n" by (metis Suc_leI add.commute mult_Suc_right mult_le_mono2)
      then have "take w (drop (w * i) (bs @ b)) = take w (drop (w * i) bs)" using n by simp
      then show ?thesis using True i assms(1) n
        by (simp add: array_of_def nth_append div_plus_div_distrib_dvd_left del: take_append drop_append)
    next
      case False
      then have "w * i = w * n + w * (i - n)" by (simp add: diff_mult_distrib2)
      then have "drop (w * i) (bs @ b) = drop (w * (i - n)) b" using n by simp
      moreover have "i - n < length b div w" using i False by simp
      ultimately show ?thesis using False i assms(1) n
        by (simp add: array_of_def nth_append div_plus_div_distrib_dvd_left del: drop_append)
    qed
  qed
qed

section \<open>Properties\<close>

lemma load_append_bytes:
  assumes ok: "ce_ok ce" and new: "cid \<noteq> 0" "contents ce cid = None"
    and fits: "length (b1 @ b2) < 2 ^ 64" "length (b1 @ b2) \<le> ce_tmp_room ce"
    and ty: "type_width (the_default U32 ty) dvd length b1" "type_width (the_default U32 ty) dvd length b2"
  shows "\<exists>ce1 ce2. load_bytes cid b1 ce = Some ce1 \<and> ce_col_types ce1 = ce_col_types ce \<and>
    column_type (ce1\<lparr>ce_col_types := (ce_col_types ce)(cid := ty)\<rparr>) cid = the_default U32 ty \<and>
    append_raw cid b2 (ce1\<lparr>ce_col_types := (ce_col_types ce)(cid := ty)\<rparr>) = Some ce2 \<and> ce_ok ce2 \<and>
    contents ce2 = (contents ce)(cid \<mapsto> b1 @ b2) \<and> column_type ce2 cid = the_default U32 ty \<and>
    catalog_has (ce1\<lparr>ce_col_types := (ce_col_types ce)(cid := ty)\<rparr>) cid"
proof -
  have "length b1 < 2 ^ 64" "length b1 \<le> ce_tmp_room ce" using fits by simp_all
  from load_bytes_ok [OF ok new this ty(1)]
  obtain ce1 where l: "load_bytes cid b1 ce = Some ce1" "contents ce1 = (contents ce)(cid \<mapsto> b1)"
    "ce_ok (ce1\<lparr>ce_col_types := (ce_col_types ce)(cid := ty)\<rparr>)" "ce_col_types ce1 = ce_col_types ce" by blast
  let ?ce = "ce1\<lparr>ce_col_types := (ce_col_types ce)(cid := ty)\<rparr>"
  have at: "column_at ?ce cid = Some (TieredColumn (ce_tmp_room ce) cid b1)"
    using l(1) new(1) by (auto simp: load_bytes_def column_at_def split: if_splits)
  have t: "column_type ?ce cid = the_default U32 ty" by (simp add: column_type_def the_default_def)
  have c: "contents ?ce cid = Some b1" "contents ?ce = contents ce1" using l(2) by (simp_all add: contents_def fun_eq_iff)
  have "length (b1 @ b2) \<le> col_room (TieredColumn (ce_tmp_room ce) cid b1)" using fits(2) by (simp add: TieredColumn_def)
  from append_raw_ok [OF l(3) at c(1) fits(1) this] ty(2)
  obtain ce2 where a: "append_raw cid b2 ?ce = Some ce2" "ce_ok ce2" "contents ce2 = (contents ?ce)(cid \<mapsto> b1 @ b2)"
    "ce_col_types ce2 = ce_col_types ?ce" unfolding t by blast
  have "column_type ce2 cid = the_default U32 ty" using a(4) by (simp add: column_type_def the_default_def)
  moreover have "catalog_has ?ce cid" using catalog_has_contents [OF l(3)] c(1) by simp
  ultimately show ?thesis using l(1,2,4) a t c(2) by (intro exI [of _ ce1] exI [of _ ce2]) simp
qed

lemma width_consts: "the_default U32 None = U32" "the_default U32 (Some t) = t" "type_width U32 = 4" "type_width TI64 = 8" "type_width TF64 = 8"
  by (simp_all add: type_width_def)

lemma no_stale_type:
  assumes "ce_ok ce" "contents ce cid = None"
  shows "(ce_col_types ce)(cid := None) = ce_col_types ce"
proof -
  have "map_of (ce_catalog ce) cid = None" using contents_None [OF assms(1)] assms(2) by (simp add: column_at_def)
  then have "cid \<notin> dom (ce_col_types ce)" using assms(1) by (auto simp: ce_ok_def map_of_eq_None_iff)
  then show ?thesis by auto
qed

lemma load_append_u32:
  assumes "ce_ok ce" "cid \<noteq> 0" "contents ce cid = None"
    and "4 * (length xs + length ys) < 2 ^ 64" "4 * (length xs + length ys) \<le> ce_tmp_room ce"
  shows "\<exists>ce1 ce2. load_scan_column cid xs ce = Some ce1 \<and> append_to_column cid ys ce1 = Some ce2 \<and> ce_ok ce2 \<and>
      map_option u32_view (contents ce2 cid) = Some (xs @ ys) \<and> column_rows ce2 cid = Some (length xs + length ys) \<and>
      (\<forall>k. k \<noteq> cid \<longrightarrow> contents ce2 k = contents ce k)"
proof -
  have upd: "ce1\<lparr>ce_col_types := ce_col_types ce\<rparr> = ce1" if "ce_col_types ce1 = ce_col_types ce" for ce1
    using that by simp
  show ?thesis
    using load_append_bytes [OF assms(1-3), of "concat (map u32_bytes xs)" "concat (map u32_bytes ys)" None] assms(4,5)
    by (auto simp: load_scan_column_def append_to_column_def column_rows_contents width_consts length_chunks [of _ 4]
        no_stale_type [OF assms(1,3)] upd simp flip: map_append concat_append)
qed

lemma load_append_i64:
  assumes "ce_ok ce" "cid \<noteq> 0" "contents ce cid = None"
    and "8 * (length xs + length ys) < 2 ^ 64" "8 * (length xs + length ys) \<le> ce_tmp_room ce"
  shows "\<exists>ce1 ce2. load_scan_column_i64 cid xs ce = Some ce1 \<and> append_to_column_i64 cid ys ce1 = Some ce2 \<and> ce_ok ce2 \<and>
      map_option i64_view (contents ce2 cid) = Some (xs @ ys) \<and> column_rows ce2 cid = Some (length xs + length ys) \<and>
      (\<forall>k. k \<noteq> cid \<longrightarrow> contents ce2 k = contents ce k)"
  using load_append_bytes [OF assms(1-3), of "concat (map (u64_bytes \<circ> i64_bits) xs)" "concat (map (u64_bytes \<circ> i64_bits) ys)" "Some TI64"]
    assms(4,5)
  by (auto simp: load_scan_column_i64_def append_to_column_i64_def column_rows_contents width_consts length_chunks [of _ 8]
      simp flip: map_append concat_append)

lemma load_append_f64:
  assumes "ce_ok ce" "cid \<noteq> 0" "contents ce cid = None"
    and "8 * (length xs + length ys) < 2 ^ 64" "8 * (length xs + length ys) \<le> ce_tmp_room ce"
  shows "\<exists>ce1 ce2. load_scan_column_f64 cid xs ce = Some ce1 \<and> append_to_column_f64 cid ys ce1 = Some ce2 \<and> ce_ok ce2 \<and>
      map_option f64_view (contents ce2 cid) = Some (xs @ ys) \<and> column_rows ce2 cid = Some (length xs + length ys) \<and>
      (\<forall>k. k \<noteq> cid \<longrightarrow> contents ce2 k = contents ce k)"
  using load_append_bytes [OF assms(1-3), of "concat (map (u64_bytes \<circ> f64_bits) xs)" "concat (map (u64_bytes \<circ> f64_bits) ys)" "Some TF64"]
    assms(4,5)
  by (auto simp: load_scan_column_f64_def append_to_column_f64_def column_rows_contents width_consts length_chunks [of _ 8]
      simp flip: map_append concat_append)

text \<open>
  Load and append round trip. A column loaded with values and grown by more reads back as both,
  row for row, with that many rows, for each of the three element types; no other column changes
  and the catalog stays well formed. It holds from every well-formed catalog in which the id is
  new and non-zero, when the column's bytes fit a 64-bit size and the temporary directory.
\<close>

theorem load_append_roundtrip:
  assumes "ce_ok ce" "cid \<noteq> 0" "contents ce cid = None"
    and "8 * (length xs + length ys) < 2 ^ 64" "8 * (length xs + length ys) \<le> ce_tmp_room ce"
    and "8 * (length xi + length yi) < 2 ^ 64" "8 * (length xi + length yi) \<le> ce_tmp_room ce"
    and "8 * (length xf + length yf) < 2 ^ 64" "8 * (length xf + length yf) \<le> ce_tmp_room ce"
  shows "(\<exists>ce1 ce2. load_scan_column cid xs ce = Some ce1 \<and> append_to_column cid ys ce1 = Some ce2 \<and> ce_ok ce2 \<and>
      map_option u32_view (contents ce2 cid) = Some (xs @ ys) \<and> column_rows ce2 cid = Some (length xs + length ys) \<and>
      (\<forall>k. k \<noteq> cid \<longrightarrow> contents ce2 k = contents ce k)) \<and>
    (\<exists>ce1 ce2. load_scan_column_i64 cid xi ce = Some ce1 \<and> append_to_column_i64 cid yi ce1 = Some ce2 \<and> ce_ok ce2 \<and>
      map_option i64_view (contents ce2 cid) = Some (xi @ yi) \<and> column_rows ce2 cid = Some (length xi + length yi) \<and>
      (\<forall>k. k \<noteq> cid \<longrightarrow> contents ce2 k = contents ce k)) \<and>
    (\<exists>ce1 ce2. load_scan_column_f64 cid xf ce = Some ce1 \<and> append_to_column_f64 cid yf ce1 = Some ce2 \<and> ce_ok ce2 \<and>
      map_option f64_view (contents ce2 cid) = Some (xf @ yf) \<and> column_rows ce2 cid = Some (length xf + length yf) \<and>
      (\<forall>k. k \<noteq> cid \<longrightarrow> contents ce2 k = contents ce k))"
  using load_append_u32 [OF assms(1-3), of xs ys] load_append_i64 [OF assms(1-3,6,7)] load_append_f64 [OF assms(1-3,8,9)] assms(4,5)
  by simp

theorem load_append_roundtrip_witness:
  "\<exists>ce1 ce2. load_scan_column 7 [10, 20] (catalog_init 1000 1000) = Some ce1 \<and> append_to_column 7 [30] ce1 = Some ce2 \<and>
    map_option u32_view (contents ce2 7) = Some [10, 20, 30]"
proof -
  have "contents (catalog_init 1000 1000) 7 = None" by (simp add: contents_def catalog_init_def)
  from load_append_roundtrip [OF catalog_init_ok _ this, of "[10, 20]" "[30]" "[]" "[]" "[]" "[]"]
  show ?thesis by (auto simp: catalog_init_def)
qed

text \<open>
  Appending to a nullable column leaves its null mask behind. After \<open>append_to_column\<close> the mask
  still has one entry per old row: the scalar aggregate on the column reads beyond the end of the
  mask (the model's \<open>None\<close>), and the grouped aggregates treat the mask as absent, so the NULL rows
  become ordinary values.
\<close>

theorem append_leaves_short_mask:
  assumes "ce_ok ce" "column_at ce cid = Some col" "contents ce cid = Some bs" "column_type ce cid = U32"
    and "map_of (ce_null_masks ce) cid = Some m" "column_rows ce cid = Some (length m)" "ys \<noteq> []"
    and "length bs + 4 * length ys < 2 ^ 64" "length bs + 4 * length ys \<le> col_room col" "q_value_col q = cid"
  shows "\<exists>ce'. append_to_column cid ys ce = Some ce' \<and> map_of (ce_null_masks ce') cid = Some m \<and>
    column_rows ce' cid = Some (length m + length ys) \<and> scalar_aggregate_nullable q ce' = None \<and>
    value_nulls ce' cid (length m + length ys) = None"
proof -
  let ?b = "concat (map u32_bytes ys)"
  have lb: "length ?b = 4 * length ys" by (rule length_chunks) simp
  have "catalog_has ce cid" using catalog_has_contents [OF assms(1)] assms(3) by simp
  have w: "type_width (column_type ce cid) dvd length ?b" using assms(4) lb by (simp add: type_width_def)
  from append_raw_ok [OF assms(1-3) _ _ w]
  obtain ce' where a: "append_raw cid ?b ce = Some ce'" "ce_ok ce'" "contents ce' = (contents ce)(cid \<mapsto> bs @ ?b)"
    "ce_col_types ce' = ce_col_types ce" "ce_null_masks ce' = ce_null_masks ce" using assms(8,9) lb by auto
  have ty: "column_type ce' cid = U32" using a(4) assms(4) by (simp add: column_type_def)
  have rows: "length bs div 4 = length m"
    using assms(3,4,6) by (simp add: column_rows_contents [OF assms(1)] type_width_def)
  have "4 dvd length bs" using assms(1,3,4) by (fastforce simp: ce_ok_def type_width_def)
  then have len: "length (bs @ ?b) div 4 = length m + length ys" using rows lb by (auto elim!: dvdE)
  have c': "contents ce' cid = Some (bs @ ?b)" using a(3) by simp
  obtain col' where col': "column_at ce' cid = Some col'" "col_holds col' (bs @ ?b)" using a(2) c' by (rule ce_ok_column)
  have "scalar_aggregate_nullable q ce' = None"
    using assms(5,7,10) a(5) ty len
    by (simp add: scalar_aggregate_nullable_def scan_column_with_eq [OF col'] type_width_def Let_def)
  then show ?thesis
    using a c' len ty assms(5,7) \<open>catalog_has ce cid\<close> assms(4)
    by (simp add: append_to_column_def column_rows_contents type_width_def value_nulls_def)
qed

theorem append_leaves_short_mask_witness:
  "\<exists>ce ce'. set_column_nulls 7 [0, 1] (the (load_scan_column 7 [10, 20] (catalog_init 1000 1000))) = Some ce \<and>
    append_to_column 7 [30] ce = Some ce' \<and> scalar_aggregate_nullable (default_query\<lparr>q_value_col := 7\<rparr>) ce' = None"
proof -
  let ?c0 = "catalog_init 1000 1000"
  have c0: "contents ?c0 7 = None" by (simp add: contents_def catalog_init_def)
  let ?b = "concat (map u32_bytes [10, 20])"
  have lb: "length ?b = 8" by simp
  obtain c1 where l: "load_bytes 7 ?b ?c0 = Some c1" "contents c1 = (contents ?c0)(7 \<mapsto> ?b)"
    "ce_ok (c1\<lparr>ce_col_types := (ce_col_types ?c0)(7 := None)\<rparr>)" "ce_col_types c1 = ce_col_types ?c0"
    using load_bytes_ok [OF catalog_init_ok _ c0, of ?b None] by (auto simp: catalog_init_def type_width_def)
  have ty: "ce_col_types c1 = Map.empty" using l(4) by (simp add: catalog_init_def)
  have "c1\<lparr>ce_col_types := (ce_col_types ?c0)(7 := None)\<rparr> = c1" using ty by (simp add: catalog_init_def)
  with l(3) have ok: "ce_ok c1" by simp
  define ce where "ce = c1\<lparr>ce_null_masks := al_upd 7 [0, 1] (ce_null_masks c1)\<rparr>"
  have ok': "ce_ok ce" using ok by (intro ce_ok_cong [OF ok]) (simp_all add: ce_def ce_ok_def)
  have c: "contents ce 7 = Some ?b" using l(2) by (simp add: ce_def contents_def fun_eq_iff)
  have t: "column_type ce 7 = U32" using ty by (simp add: ce_def column_type_def)
  have rows: "column_rows ce 7 = Some (length [0 :: u8, 1])" using c t by (simp add: column_rows_contents [OF ok'] type_width_def)
  have at: "column_at ce 7 = Some (TieredColumn 1000 7 ?b)"
    using l(1) by (auto simp: load_bytes_def column_at_def ce_def catalog_init_def split: if_splits)
  have "set_column_nulls 7 [0, 1] c1 = Some ce"
    using rows catalog_has_contents [OF ok] l(2) by (simp add: set_column_nulls_def ce_def column_rows_def column_at_def column_type_def)
  moreover have "map_of (ce_null_masks ce) 7 = Some [0, 1]" by (simp add: ce_def)
  note append_leaves_short_mask [OF ok' at c t this rows, of "[30]" "default_query\<lparr>q_value_col := 7\<rparr>"]
  ultimately show ?thesis using l(1) lb by (auto simp: load_scan_column_def TieredColumn_def)
qed

end
