(* ===== verification/Query_Engine.thy ===== *)
theory Query_Engine
  imports Catalog_Engine
begin

text \<open>
  The query boundary of \<open>CPUMockEngine\<close> (\<open>compute_mock.cpp\<close>): validation and dispatch of an analytical
  query on its exclusive path and on its shared, side-effect free path, scans and latency statistics,
  with the theorem that a query's answer is a function of the logical contents of the catalog,
  whatever tier the columns are on.
\<close>

section \<open>Cross-column filters\<close>

definition scalar_cross_filter :: "matrix_query \<Rightarrow> catalog_engine \<Rightarrow> (u64 \<times> catalog_engine) option" where
  "scalar_cross_filter q ce =
     do {
       (enc, ce1) \<leftarrow> pair_columns_with (\<lambda>fb fn vb vn.
         let n = fn div 4; vty = column_type ce (q_value_col q); f = u32_view fb; p = pred_u32 q in
         if vn div type_width vty < n then None
         else Some (case vty of
             TI64 \<Rightarrow> i64_bits (matrix_cpu_reduce_filtered_by_i64 f p (i64_view vb) n (q_agg q))
           | TF64 \<Rightarrow> f64_bits (matrix_cpu_reduce_filtered_by_f64 f p (f64_view vb) n (q_agg q))
           | U32 \<Rightarrow> matrix_cpu_reduce_filtered_by f p (u32_view vb) n (q_agg q))) (q_filter_col q) (q_value_col q) ce;
       ce2 \<leftarrow> maybe_rebalance ce1;
       Some (enc, ce2)
     }"

text \<open>\<open>borrow_all\<close> borrows distinct columns and remembers their home tiers; they go back in reverse order.\<close>

fun borrow_all :: "u64 list \<Rightarrow> (u64 \<times> memory_space) list \<Rightarrow> catalog_engine \<Rightarrow> ((u64 \<times> memory_space) list \<times> catalog_engine) option" where
  "borrow_all [] borrowed ce = Some (borrowed, ce)"
| "borrow_all (cid # ids) borrowed ce =
     (if cid \<in> fst ` set borrowed then borrow_all ids borrowed ce
      else do {
        ce1 \<leftarrow> note_access cid ce;
        (home, ce2) \<leftarrow> borrow cid ce1;
        borrow_all ids (borrowed @ [(cid, home)]) ce2
      })"

definition return_all :: "(u64 \<times> memory_space) list \<Rightarrow> catalog_engine \<Rightarrow> catalog_engine option" where
  "return_all borrowed = opt_fold (\<lambda>(cid, home). give_back cid home) (rev borrowed)"

definition grouped_cross_filter :: "matrix_query \<Rightarrow> catalog_engine \<Rightarrow> (u64 list \<times> catalog_engine) option" where
  "grouped_cross_filter q ce =
     do {
       (borrowed, ce1) \<leftarrow> borrow_all [q_value_col q, q_filter_col q, q_key_col q] [] ce;
       (kb, kn) \<leftarrow> host_bytes (q_key_col q) ce1;
       (fb, fn) \<leftarrow> host_bytes (q_filter_col q) ce1;
       (vb, vn) \<leftarrow> host_bytes (q_value_col q) ce1;
       out \<leftarrow> (let n = kn div 4; vty = column_type ce (q_value_col q); keys = u32_view kb; f = u32_view fb; p = pred_u32 q;
                  G = q_num_groups q in
         if fn div 4 < n \<or> vn div type_width vty < n then None
         else Some (case vty of
             TI64 \<Rightarrow> map i64_bits (matrix_cpu_group_reduce_filtered_by_i64 keys f p (i64_view vb) n G (q_agg q))
           | TF64 \<Rightarrow> map f64_bits (matrix_cpu_group_reduce_filtered_by_f64 keys f p (f64_view vb) n G (q_agg q))
           | U32 \<Rightarrow> matrix_cpu_group_reduce_filtered_by keys f p (u32_view vb) n G (q_agg q)));
       ce2 \<leftarrow> return_all borrowed ce1;
       ce3 \<leftarrow> maybe_rebalance ce2;
       Some (out, ce3)
     }"

section \<open>The exclusive path\<close>

definition scalar_ok :: "(u64 \<times> catalog_engine) option \<Rightarrow> (query_status \<times> u64 list \<times> catalog_engine) option" where
  "scalar_ok r = map_option (\<lambda>(x, ce). (OK, [x], ce)) r"

definition grouped_ok :: "(u64 list \<times> catalog_engine) option \<Rightarrow> (query_status \<times> u64 list \<times> catalog_engine) option" where
  "grouped_ok r = map_option (\<lambda>(xs, ce). (OK, xs, ce)) r"

definition reject :: "query_status \<Rightarrow> catalog_engine \<Rightarrow> (query_status \<times> u64 list \<times> catalog_engine) option" where
  "reject st ce = Some (st, [], ce)"

definition execute_query_impl :: "matrix_query \<Rightarrow> catalog_engine \<Rightarrow> (query_status \<times> u64 list \<times> catalog_engine) option" where
  "execute_query_impl q ce =
     (let v = q_value_col q; k = q_key_col q; f = q_filter_col q; G = q_num_groups q; has = catalog_has ce;
          ty = column_type ce; rows = column_rows ce in
      if \<not> has v then reject ERR_UNKNOWN_COLUMN ce
      else if \<not> q_grouped q \<and> q_has_filter q \<and> f \<noteq> 0 \<and> f \<noteq> v then
        if \<not> has f \<or> ty f \<noteq> U32 then reject ERR_UNSUPPORTED_TYPE ce
        else if rows f \<noteq> rows v then reject ERR_INVALID_GROUP ce
        else scalar_ok (scalar_cross_filter q ce)
      else if q_grouped q \<and> q_has_filter q \<and> f \<noteq> 0 \<and> f \<noteq> v then
        if \<not> has k \<or> k = v \<or> G = 0 then reject ERR_INVALID_GROUP ce
        else if ty k \<noteq> U32 then reject ERR_UNSUPPORTED_TYPE ce
        else if \<not> has f \<or> ty f \<noteq> U32 then reject ERR_UNSUPPORTED_TYPE ce
        else if G > ce_max_query_groups ce then reject ERR_TOO_MANY_GROUPS ce
        else if rows k \<noteq> rows v \<or> rows f \<noteq> rows v then reject ERR_INVALID_GROUP ce
        else grouped_ok (grouped_cross_filter q ce)
      else if ty v = TI64 then
        if q_grouped q then
          if has k \<and> ty k \<noteq> U32 then reject ERR_UNSUPPORTED_TYPE ce
          else if \<not> has k \<or> k = v \<or> G = 0 \<or> rows k \<noteq> rows v then reject ERR_INVALID_GROUP ce
          else if G > ce_max_query_groups ce then reject ERR_TOO_MANY_GROUPS ce
          else grouped_ok (grouped_aggregate_i64 k v G (q_agg q) (pred_i64 q) (q_has_filter q) ce)
        else if map_of (ce_null_masks ce) v \<noteq> None then scalar_ok (scalar_aggregate_nullable q ce)
        else scalar_ok (scan_tiered_column_i64 v (pred_i64 q) (q_agg q) (q_has_filter q) ce)
      else if ty v = TF64 then
        if q_grouped q then
          if has k \<and> ty k \<noteq> U32 then reject ERR_UNSUPPORTED_TYPE ce
          else if \<not> has k \<or> k = v \<or> G = 0 \<or> rows k \<noteq> rows v then reject ERR_INVALID_GROUP ce
          else if G > ce_max_query_groups ce then reject ERR_TOO_MANY_GROUPS ce
          else grouped_ok (grouped_aggregate_f64 k v G (q_agg q) (pred_f64 q) (q_has_filter q) ce)
        else if map_of (ce_null_masks ce) v \<noteq> None then scalar_ok (scalar_aggregate_nullable q ce)
        else scalar_ok (scan_tiered_column_f64 v (pred_f64 q) (q_agg q) (q_has_filter q) ce)
      else if q_grouped q then
        if \<not> has k \<or> k = v \<or> G = 0 \<or> \<not> same_size ce k v then reject ERR_INVALID_GROUP ce
        else if ty k \<noteq> U32 then reject ERR_UNSUPPORTED_TYPE ce
        else if G > ce_max_query_groups ce then reject ERR_TOO_MANY_GROUPS ce
        else if q_has_filter q then grouped_ok (grouped_aggregate_pred k v G (q_agg q) (pred_u32 q) ce)
        else grouped_ok (grouped_aggregate k v G (q_agg q) ce)
      else if map_of (ce_null_masks ce) v \<noteq> None then scalar_ok (scalar_aggregate_nullable q ce)
      else scalar_ok (scan_tiered_column v (pred_u32 q) (q_agg q) (q_has_filter q) ce))"

section \<open>Latency statistics\<close>

fun lat_loop :: "nat \<Rightarrow> u64 \<Rightarrow> nat \<Rightarrow> nat" where
  "lat_loop 0 x b = b"
| "lat_loop (Suc r) x b = (if x > 1 then lat_loop r (drop_bit 1 x) (Suc b) else b)"

definition lat_bucket :: "u64 \<Rightarrow> nat" where
  "lat_bucket ns = lat_loop (LAT_BUCKETS - 1) (ns + 1) 0"

definition record_query_latency :: "u64 \<Rightarrow> catalog_engine \<Rightarrow> catalog_engine" where
  "record_query_latency ns ce =
     (let b = lat_bucket ns in
      ce\<lparr>ce_query_count := ce_query_count ce + 1, ce_total_query_ns := ce_total_query_ns ce + ns,
         ce_max_query_ns := (if ns > ce_max_query_ns ce then ns else ce_max_query_ns ce),
         ce_latency_hist := (ce_latency_hist ce)[b := ce_latency_hist ce ! b + 1]\<rparr>)"

definition execute_query :: "u64 \<Rightarrow> matrix_query \<Rightarrow> catalog_engine \<Rightarrow> (query_status \<times> u64 list \<times> catalog_engine) option" where
  "execute_query ns q ce =
     map_option (\<lambda>(st, out, ce'). (st, out, record_query_latency ns ce')) (execute_query_impl q ce)"

fun percentile_loop :: "u64 list \<Rightarrow> nat \<Rightarrow> u64 \<Rightarrow> u64 \<Rightarrow> u64 option" where
  "percentile_loop [] b cum target = None"
| "percentile_loop (h # hs) b cum target =
     (if cum + h \<ge> target then Some (if b = 0 then 0 else push_bit b 1) else percentile_loop hs (Suc b) (cum + h) target)"

text \<open>The conversion of a double that does not fit the integer type is undefined behaviour.\<close>

definition query_latency_percentile_ns :: "f64 \<Rightarrow> catalog_engine \<Rightarrow> u64 option" where
  "query_latency_percentile_ns p ce =
     (if ce_query_count ce = 0 then Some 0
      else case f64_trunc (f64_mul p (f64_of_u64 (ce_query_count ce))) of None \<Rightarrow> None
      | Some t \<Rightarrow> if t < 0 \<or> 2 ^ 64 \<le> t then None
                 else Some (case percentile_loop (ce_latency_hist ce) 0 0 (of_int t) of None \<Rightarrow> ce_max_query_ns ce | Some r \<Rightarrow> r))"

record engine_stats =
  es_cold_borrows :: u64
  es_rebalances :: u64
  es_migrations :: u64
  es_catalog_columns :: nat
  es_host_resident_bytes :: u64
  es_cold_resident_bytes :: u64
  es_query_count :: u64
  es_total_query_ns :: u64
  es_max_query_ns :: u64

definition stats :: "catalog_engine \<Rightarrow> engine_stats" where
  "stats ce =
     \<lparr>es_cold_borrows = ce_cold_borrows ce, es_rebalances = ce_rebalances ce, es_migrations = ce_migrations ce,
      es_catalog_columns = length (ce_catalog ce),
      es_host_resident_bytes = resident_bytes HOST (tm_cols (ce_tier_mgr ce)),
      es_cold_resident_bytes = resident_bytes COLD (tm_cols (ce_tier_mgr ce)),
      es_query_count = ce_query_count ce, es_total_query_ns = ce_total_query_ns ce, es_max_query_ns = ce_max_query_ns ce\<rparr>"

section \<open>The shared path\<close>

datatype read_outcome = SERVED | NEEDS_EXCLUSIVE

definition host_resident :: "catalog_engine \<Rightarrow> u64 \<Rightarrow> bool" where
  "host_resident ce cid = (case column_at ce cid of None \<Rightarrow> False | Some col \<Rightarrow> col_tier col = HOST)"

definition needs_exclusive :: "(read_outcome \<times> u64 list) option" where
  "needs_exclusive = Some (NEEDS_EXCLUSIVE, [])"

definition execute_query_shared_impl :: "matrix_query \<Rightarrow> catalog_engine \<Rightarrow> (read_outcome \<times> u64 list) option" where
  "execute_query_shared_impl q ce =
     (let v = q_value_col q; k = q_key_col q; f = q_filter_col q; G = q_num_groups q; op = q_agg q;
          ty = column_type ce; rows = column_rows ce in
      if \<not> host_resident ce v \<or> map_of (ce_null_masks ce) v \<noteq> None then needs_exclusive
      else do {
        (vb, vs) \<leftarrow> host_bytes v ce;
        n \<leftarrow> rows v;
        if \<not> q_grouped q \<and> q_has_filter q \<and> f \<noteq> 0 \<and> f \<noteq> v then
          if \<not> host_resident ce f \<or> ty f \<noteq> U32 then needs_exclusive
          else if rows f \<noteq> Some n then needs_exclusive
          else do {
            (fb, fs) \<leftarrow> host_bytes f ce;
            Some (SERVED, [case ty v of
               TI64 \<Rightarrow> i64_bits (matrix_cpu_reduce_filtered_by_i64 (u32_view fb) (pred_u32 q) (i64_view vb) n op)
             | TF64 \<Rightarrow> f64_bits (matrix_cpu_reduce_filtered_by_f64 (u32_view fb) (pred_u32 q) (f64_view vb) n op)
             | U32 \<Rightarrow> matrix_cpu_reduce_filtered_by (u32_view fb) (pred_u32 q) (u32_view vb) n op])
          }
        else if q_grouped q \<and> q_has_filter q \<and> f \<noteq> 0 \<and> f \<noteq> v then needs_exclusive
        else if q_grouped q then
          if \<not> host_resident ce k \<or> k = v \<or> G = 0 \<or> G > ce_max_query_groups ce \<or> ty k \<noteq> U32 \<or> rows k \<noteq> Some n
          then needs_exclusive
          else do {
            (kb, ks) \<leftarrow> host_bytes k ce;
            let keys = u32_view kb in
            Some (SERVED, case ty v of
               TI64 \<Rightarrow> map i64_bits (if q_has_filter q then matrix_cpu_group_reduce_i64_pred keys (i64_view vb) n G op (pred_i64 q) None
                                    else matrix_cpu_group_reduce_i64 keys (i64_view vb) n G op None)
             | TF64 \<Rightarrow> map f64_bits (if q_has_filter q then matrix_cpu_group_reduce_f64_pred keys (f64_view vb) n G op (pred_f64 q) None
                                    else matrix_cpu_group_reduce_f64 keys (f64_view vb) n G op None)
             | U32 \<Rightarrow> (if q_has_filter q then matrix_cpu_group_reduce_pred keys (u32_view vb) n G op (pred_u32 q) None
                       else matrix_cpu_group_reduce keys (u32_view vb) n G op None))
          }
        else Some (SERVED, [case ty v of
            TI64 \<Rightarrow> i64_bits (if q_has_filter q then matrix_cpu_reduce_pred_i64 (i64_view vb) n (pred_i64 q) op None
                             else matrix_cpu_reduce_all_i64 (i64_view vb) n op)
          | TF64 \<Rightarrow> f64_bits (if q_has_filter q then matrix_cpu_reduce_pred_f64 (f64_view vb) n (pred_f64 q) op None
                             else matrix_cpu_reduce_all_f64 (f64_view vb) n op)
          | U32 \<Rightarrow> (if q_has_filter q then matrix_cpu_reduce_pred (u32_view vb) n (pred_u32 q) op None
                    else matrix_cpu_reduce_all (u32_view vb) n op)])
      })"

definition execute_query_shared :: "u64 \<Rightarrow> matrix_query \<Rightarrow> catalog_engine \<Rightarrow> (read_outcome \<times> u64 list \<times> catalog_engine) option" where
  "execute_query_shared ns q ce =
     map_option (\<lambda>(r, out). (r, out, if r = SERVED then record_query_latency ns ce else ce)) (execute_query_shared_impl q ce)"

section \<open>Scans of the batch interface\<close>

text \<open>Column 0 is the fixed column \<open>0, 1, 2, \<dots>\<close> the constructor fills.\<close>

definition execute_scan :: "database_query \<Rightarrow> catalog_engine \<Rightarrow> (database_query \<times> catalog_engine) option" where
  "execute_scan q ce =
     do {
       (c, ce1) \<leftarrow>
         (if matrix_get_scan_column_id q = 0
          then Some (matrix_cpu_reduce (map of_nat [0..<MATRIX_SCAN_COLUMN_SIZE]) MATRIX_SCAN_COLUMN_SIZE
                       (matrix_get_scan_threshold q) (matrix_get_scan_agg_op q), ce)
          else scan_tiered_column (matrix_get_scan_column_id q)
                 \<lparr>p_cmp = CMP_GT, p_a = matrix_get_scan_threshold q, p_b = 0\<rparr> (matrix_get_scan_agg_op q) True ce);
       Some (q\<lparr>transaction_id := c\<rparr>, ce1\<lparr>ce_scans := ce_scans ce1 + 1, ce_scan_result_sum := ce_scan_result_sum ce1 + c\<rparr>)
     }"

definition derive_num_groups_u32 :: "u64 \<Rightarrow> catalog_engine \<Rightarrow> (u32 \<times> catalog_engine) option" where
  "derive_num_groups_u32 kid ce =
     do {
       (home, ce1) \<leftarrow> borrow kid ce;
       (kb, size) \<leftarrow> host_bytes kid ce1;
       let n = size div 4; mx = matrix_cpu_reduce_all (u32_view kb) n AGG_MAX in
       do {
         ce2 \<leftarrow> give_back kid home ce1;
         Some (if n = 0 then 0 else if mx \<ge> 0xFFFFFFFF then 0xFFFFFFFF else ucast (mx + 1), ce2)
       }
     }"

section \<open>Operations that leave the logical contents alone\<close>

text \<open>
  \<open>returns m x ce\<close>: the operation \<open>m\<close> run in \<open>ce\<close> does not abort, gives \<open>x\<close>, and leaves a well-formed
  engine with the same logical contents.
\<close>

definition returns :: "('r \<times> catalog_engine) option \<Rightarrow> 'r \<Rightarrow> catalog_engine \<Rightarrow> bool" where
  "returns m x ce \<longleftrightarrow> (\<exists>ce'. m = Some (x, ce') \<and> ce_ok ce' \<and> logical ce' = logical ce)"

lemma returns_map: "returns m x ce \<Longrightarrow> returns (map_option (\<lambda>(r, ce'). (g r, ce')) m) (g x) ce"
  by (auto simp: returns_def)

lemma scan_returns:
  assumes "ce_ok ce" "contents ce k = Some bs" "f bs (length bs) = Some r"
  shows "returns (scan_column_with f k ce) r ce"
proof -
  obtain col where col: "column_at ce k = Some col" "col_holds col bs" using assms(1,2) by (rule ce_ok_column)
  obtain ce' where "maybe_rebalance (touched k col ce) = Some ce'" "ce_ok ce'" "logical ce' = logical (touched k col ce)"
    using maybe_rebalance_ok [OF touched_ok(1) [OF assms(1)]] by blast
  then show ?thesis
    using scan_column_with_eq [OF col, of f] assms(3) touched_ok(2) [OF assms(1)] by (simp add: returns_def)
qed

lemma pair_returns:
  assumes "ce_ok ce" "contents ce k = Some kb" "contents ce v = Some vb" "f kb (length kb) vb (length vb) = Some r"
  shows "returns (pair_columns_with f k v ce) r ce"
proof -
  obtain kc where kc: "column_at ce k = Some kc" "col_holds kc kb" using assms(1,2) by (rule ce_ok_column)
  obtain vc where vc: "column_at ce v = Some vc" "col_holds vc vb" using assms(1,3) by (rule ce_ok_column)
  show ?thesis
    using pair_columns_with_eq [OF kc vc, of f] assms(4) touched_ok [OF assms(1)] touched_ok [OF touched_ok(1) [OF assms(1)]]
    by (simp add: returns_def)
qed

lemma rebalance_returns:
  assumes "returns m x ce"
  shows "returns (do { (r, ce1) \<leftarrow> m; ce2 \<leftarrow> maybe_rebalance ce1; Some (r, ce2) }) x ce"
proof -
  obtain ce1 where m: "m = Some (x, ce1)" "ce_ok ce1" "logical ce1 = logical ce" using assms by (auto simp: returns_def)
  then show ?thesis using maybe_rebalance_ok [OF m(2)] by (auto simp: returns_def)
qed

text \<open>Several columns on loan: \<open>hosts S cat\<close> is the catalog with the columns of \<open>S\<close> brought to HOST.\<close>

definition hosts :: "u64 set \<Rightarrow> (u64 \<times> tiered_column) list \<Rightarrow> (u64 \<times> tiered_column) list" where
  "hosts S cat = map (\<lambda>(k, c). (k, if k \<in> S then hosted c else c)) cat"

lemma hosts_empty [simp]: "hosts {} cat = cat"
  by (simp add: hosts_def)

lemma map_of_hosts: "map_of (hosts S cat) k = map_option (\<lambda>c. if k \<in> S then hosted c else c) (map_of cat k)"
  by (induction cat) (auto simp: hosts_def)

lemma al_upd_map:
  assumes "distinct (map fst m)" "k \<in> fst ` set m"
  shows "al_upd k v m = map (\<lambda>(k', c). (k', if k' = k then v else c)) m"
  using assms
proof (induction m)
  case (Cons p m)
  obtain k' c where p: "p = (k', c)" by fastforce
  show ?case
  proof (cases "k = k'")
    case True
    then have "map (\<lambda>(k', c). (k', if k' = k then v else c)) m = m"
      using Cons.prems(1) p by (intro map_idI) (force simp: image_iff)
    then show ?thesis using True p by simp
  next
    case False
    then show ?thesis using Cons p by auto
  qed
qed simp

lemma al_upd_hosts:
  assumes "distinct (map fst cat)" "map_of cat k = Some c"
  shows "al_upd k (hosted c) (hosts S cat) = hosts (insert k S) cat"
    and "k \<notin> S \<Longrightarrow> al_upd k c (hosts (insert k S) cat) = hosts S cat"
proof -
  have keys: "map fst (hosts S cat) = map fst cat" for S by (simp add: hosts_def comp_def case_prod_unfold)
  have k: "k \<in> fst ` set (hosts S cat)" for S
    using assms(2) arg_cong [OF keys, of set S] by (metis domI dom_map_of_conv_image_fst set_map)
  have d: "distinct (map fst (hosts S cat))" for S using assms(1) by (simp only: keys)
  have c: "c' = c" if "(k, c') \<in> set cat" for c' using assms that by (metis map_of_is_SomeI option.inject)
  show "al_upd k (hosted c) (hosts S cat) = hosts (insert k S) cat"
    unfolding al_upd_map [OF d k] using c by (auto simp: hosts_def)
  show "al_upd k c (hosts (insert k S) cat) = hosts S cat" if "k \<notin> S"
    unfolding al_upd_map [OF d k] using c that by (auto simp: hosts_def)
qed

definition on_loan :: "catalog_engine \<Rightarrow> (u64 \<times> memory_space) list \<Rightarrow> catalog_engine \<Rightarrow> bool" where
  "on_loan ce0 borrowed ce \<longleftrightarrow>
     ce_catalog ce = hosts (fst ` set borrowed) (ce_catalog ce0) \<and> distinct (map fst borrowed) \<and>
     (\<forall>(k, home) \<in> set borrowed. \<exists>col. column_at ce0 k = Some col \<and> home = col_tier col) \<and>
     cpu_inv (ce_tier_mgr ce) \<and> lockstep (ce_tier_mgr ce) (ce_catalog ce0) \<and>
     ce_col_types ce = ce_col_types ce0 \<and> ce_null_masks ce = ce_null_masks ce0 \<and>
     ce_max_query_groups ce = ce_max_query_groups ce0"

lemma on_loan_ok:
  assumes "ce_ok ce0" "on_loan ce0 [] ce"
  shows "ce_ok ce" "logical ce = logical ce0"
proof -
  have c: "ce_catalog ce = ce_catalog ce0" using assms(2) by (simp add: on_loan_def)
  then show "ce_ok ce" using assms(2) by (intro ce_ok_cong [OF assms(1)]) (simp_all add: on_loan_def)
  have "contents ce = contents ce0" using c by (simp add: contents_def fun_eq_iff)
  then show "logical ce = logical ce0" using assms(2) by (intro logical_cong) (simp_all add: on_loan_def)
qed

lemma borrow_on_loan:
  assumes ok: "ce_ok ce0" and loan: "on_loan ce0 borrowed ce" and new: "k \<notin> fst ` set borrowed" and k: "contents ce0 k = Some bs"
  shows "\<exists>home ce1 ce2. note_access k ce = Some ce1 \<and> borrow k ce1 = Some (home, ce2) \<and> on_loan ce0 (borrowed @ [(k, home)]) ce2"
proof -
  obtain col where col: "column_at ce0 k = Some col" "col_holds col bs" using ok k by (rule ce_ok_column)
  have at: "map_of (ce_catalog ce) k = Some col" using loan new col(1) by (simp add: on_loan_def map_of_hosts column_at_def)
  let ?ce1 = "ce\<lparr>ce_tier_mgr := record_access k (col_size col) (ce_tier_mgr ce)\<rparr>"
  let ?ce2 = "?ce1\<lparr>ce_cold_borrows := ce_cold_borrows ce + borrows col, ce_catalog := al_upd k (hosted col) (ce_catalog ce)\<rparr>"
  have "note_access k ce = Some ?ce1" using at by (simp add: note_access_def column_at_def)
  moreover have "borrow k ?ce1 = Some (col_tier col, ?ce2)"
    using borrow_eq [of ?ce1 k col bs] at col(2) by (simp add: column_at_def)
  moreover have "on_loan ce0 (borrowed @ [(k, col_tier col)]) ?ce2"
  proof -
    have "distinct (map fst (ce_catalog ce0))" using ok by (simp add: ce_ok_def)
    moreover have "map_of (ce_catalog ce0) k = Some col" using col(1) by (simp add: column_at_def)
    ultimately show ?thesis
      using loan new col(1) record_access_lockstep unfolding on_loan_def
      by (auto simp: al_upd_hosts(1))
  qed
  ultimately show ?thesis by blast
qed

lemma borrow_all_on_loan:
  assumes "ce_ok ce0" "on_loan ce0 borrowed ce" "\<forall>k \<in> set ids. contents ce0 k \<noteq> None"
  shows "\<exists>borrowed' ce'. borrow_all ids borrowed ce = Some (borrowed', ce') \<and> on_loan ce0 borrowed' ce' \<and>
    fst ` set borrowed' = fst ` set borrowed \<union> set ids"
  using assms(2,3)
proof (induction ids arbitrary: borrowed ce)
  case (Cons k ids)
  show ?case
  proof (cases "k \<in> fst ` set borrowed")
    case True
    have ids: "\<forall>k \<in> set ids. contents ce0 k \<noteq> None" using Cons.prems(2) by simp
    have "fst ` set borrowed \<union> set (k # ids) = fst ` set borrowed \<union> set ids" using True by (simp add: insert_absorb)
    then show ?thesis using Cons.IH [OF Cons.prems(1) ids] True by (simp only: borrow_all.simps if_True)
  next
    case False
    obtain bs where "contents ce0 k = Some bs" using Cons.prems(2) by auto
    from borrow_on_loan [OF assms(1) Cons.prems(1) False this]
    obtain home ce1 ce2 where b: "note_access k ce = Some ce1" "borrow k ce1 = Some (home, ce2)" "on_loan ce0 (borrowed @ [(k, home)]) ce2"
      by blast
    from Cons.IH [OF b(3)] Cons.prems(2) obtain borrowed' ce' where
      "borrow_all ids (borrowed @ [(k, home)]) ce2 = Some (borrowed', ce')" "on_loan ce0 borrowed' ce'"
      "fst ` set borrowed' = fst ` set (borrowed @ [(k, home)]) \<union> set ids" by auto
    then show ?thesis using False b(1,2) by auto
  qed
qed simp

lemma return_all_on_loan:
  assumes ok: "ce_ok ce0" and "on_loan ce0 borrowed ce"
  shows "\<exists>ce'. return_all borrowed ce = Some ce' \<and> on_loan ce0 [] ce'"
  using assms(2)
proof (induction borrowed arbitrary: ce rule: rev_induct)
  case Nil
  then show ?case by (simp add: return_all_def)
next
  case (snoc p borrowed)
  obtain k home where p: "p = (k, home)" by fastforce
  obtain col where col: "column_at ce0 k = Some col" "home = col_tier col" using snoc.prems p by (auto simp: on_loan_def)
  have new: "k \<notin> fst ` set borrowed" using snoc.prems p by (simp add: on_loan_def)
  have at0: "map_of (ce_catalog ce0) k = Some col" using col(1) by (simp add: column_at_def)
  obtain bs where holds: "col_holds col bs" using ce_ok_holds [OF ok at0] by blast
  have cat: "ce_catalog ce = hosts (insert k (fst ` set borrowed)) (ce_catalog ce0)" using snoc.prems p by (simp add: on_loan_def)
  have at: "column_at ce k = Some (hosted col)" using at0 by (simp add: column_at_def cat map_of_hosts)
  let ?ce = "ce\<lparr>ce_catalog := al_upd k col (ce_catalog ce)\<rparr>"
  have g: "give_back k home ce = Some ?ce" unfolding col(2) using at holds by (rule give_back_eq)
  have "distinct (map fst (ce_catalog ce0))" using ok by (simp add: ce_ok_def)
  then have "al_upd k col (ce_catalog ce) = hosts (fst ` set borrowed) (ce_catalog ce0)"
    unfolding cat using at0 new by (intro al_upd_hosts(2))
  then have "on_loan ce0 borrowed ?ce" using snoc.prems p by (simp add: on_loan_def)
  from snoc.IH [OF this] show ?case using g p by (simp add: return_all_def)
qed

lemma host_bytes_on_loan:
  assumes ok: "ce_ok ce0" and loan: "on_loan ce0 borrowed ce" and k: "k \<in> fst ` set borrowed" "contents ce0 k = Some bs"
  shows "host_bytes k ce = Some (bs, length bs)"
proof -
  obtain col where col: "column_at ce0 k = Some col" "col_holds col bs" using ok k(2) by (rule ce_ok_column)
  have "column_at ce k = Some (hosted col)" using loan k(1) col(1) by (simp add: on_loan_def column_at_def map_of_hosts)
  then show ?thesis using hosted_holds(2,3) [OF col(2)] by (rule host_bytes_eq)
qed

section \<open>What a query means\<close>

text \<open>
  The specification of a query over the logical view. \<open>query_check\<close> is the status, \<open>selected_rows\<close> the rows
  that take part, \<open>aggregate_rows\<close> the aggregate of the value column over some rows, encoded as 64 bits,
  and \<open>answer\<close> the whole result: one aggregate, or one for each group.
\<close>

definition lg_bytes :: "logical_view \<Rightarrow> u64 \<Rightarrow> u8 list" where
  "lg_bytes lg k = the_default [] (lg_data lg k)"

definition lg_rows :: "logical_view \<Rightarrow> u64 \<Rightarrow> nat" where
  "lg_rows lg k = length (lg_bytes lg k) div type_width (lg_type lg k)"

definition crossing :: "matrix_query \<Rightarrow> bool" where
  "crossing q \<longleftrightarrow> q_has_filter q \<and> q_filter_col q \<noteq> 0 \<and> q_filter_col q \<noteq> q_value_col q"

definition query_check :: "logical_view \<Rightarrow> matrix_query \<Rightarrow> query_status" where
  "query_check lg q =
     (let v = q_value_col q; k = q_key_col q; f = q_filter_col q; G = q_num_groups q;
          has = (\<lambda>c. lg_data lg c \<noteq> None); ty = lg_type lg; rows = lg_rows lg in
      if \<not> has v then ERR_UNKNOWN_COLUMN
      else if \<not> q_grouped q then
        if \<not> crossing q then OK
        else if \<not> has f \<or> ty f \<noteq> U32 then ERR_UNSUPPORTED_TYPE
        else if rows f \<noteq> rows v then ERR_INVALID_GROUP else OK
      else if crossing q then
        if \<not> has k \<or> k = v \<or> G = 0 then ERR_INVALID_GROUP
        else if ty k \<noteq> U32 \<or> \<not> has f \<or> ty f \<noteq> U32 then ERR_UNSUPPORTED_TYPE
        else if G > lg_max_groups lg then ERR_TOO_MANY_GROUPS
        else if rows k \<noteq> rows v \<or> rows f \<noteq> rows v then ERR_INVALID_GROUP else OK
      else if ty v \<noteq> U32 \<and> has k \<and> ty k \<noteq> U32 then ERR_UNSUPPORTED_TYPE
      else if \<not> has k \<or> k = v \<or> G = 0 \<or>
          (if ty v = U32 then length (lg_bytes lg k) \<noteq> length (lg_bytes lg v) else rows k \<noteq> rows v) then ERR_INVALID_GROUP
      else if ty k \<noteq> U32 then ERR_UNSUPPORTED_TYPE
      else if G > lg_max_groups lg then ERR_TOO_MANY_GROUPS else OK)"

definition value_match :: "logical_view \<Rightarrow> matrix_query \<Rightarrow> nat \<Rightarrow> bool" where
  "value_match lg q i =
     (let bs = lg_bytes lg (q_value_col q) in
      case lg_type lg (q_value_col q) of
        U32 \<Rightarrow> matrix_pred_match (u32_view bs ! i) (pred_u32 q)
      | TI64 \<Rightarrow> matrix_pred_match_i64 (i64_view bs ! i) (pred_i64 q)
      | TF64 \<Rightarrow> matrix_pred_match_f64 (f64_view bs ! i) (pred_f64 q))"

definition selected_rows :: "logical_view \<Rightarrow> matrix_query \<Rightarrow> nat list" where
  "selected_rows lg q =
     filter (\<lambda>i. if crossing q then matrix_pred_match (u32_view (lg_bytes lg (q_filter_col q)) ! i) (pred_u32 q)
                 else not_null (lg_nulls lg (q_value_col q)) i \<and> (q_has_filter q \<longrightarrow> value_match lg q i))
       [0..<lg_rows lg (q_value_col q)]"

definition aggregate_rows :: "logical_view \<Rightarrow> matrix_query \<Rightarrow> nat list \<Rightarrow> u64" where
  "aggregate_rows lg q rows =
     (let bs = lg_bytes lg (q_value_col q) in
      case lg_type lg (q_value_col q) of
        U32 \<Rightarrow> u64_agg.agg_list (q_agg q) (map (\<lambda>i. ucast (u32_view bs ! i)) rows)
      | TI64 \<Rightarrow> i64_bits (i64_agg.agg_list (q_agg q) (map (\<lambda>i. i64_view bs ! i) rows))
      | TF64 \<Rightarrow> f64_bits (f64_agg.agg_list (q_agg q) (map (\<lambda>i. f64_view bs ! i) rows)))"

definition group_rows :: "logical_view \<Rightarrow> matrix_query \<Rightarrow> nat \<Rightarrow> nat list" where
  "group_rows lg q g = filter (\<lambda>i. unat (u32_view (lg_bytes lg (q_key_col q)) ! i) = g) (selected_rows lg q)"

definition answer :: "logical_view \<Rightarrow> matrix_query \<Rightarrow> query_status \<times> u64 list" where
  "answer lg q =
     (if query_check lg q \<noteq> OK then (query_check lg q, [])
      else (OK, if q_grouped q then map (\<lambda>g. aggregate_rows lg q (group_rows lg q g)) [0..<unat (q_num_groups q)]
                else [aggregate_rows lg q (selected_rows lg q)]))"

text \<open>
  The assumptions on the data: a null mask covers its column, and a column has fewer than
  \<open>2 ^ 53\<close> bytes, so that a COUNT over doubles is exact.
\<close>

definition lg_ok :: "logical_view \<Rightarrow> bool" where
  "lg_ok lg \<longleftrightarrow>
     (\<forall>k m. lg_data lg k \<noteq> None \<longrightarrow> lg_nulls lg k = Some m \<longrightarrow> length m = lg_rows lg k) \<and>
     (\<forall>k bs. lg_data lg k = Some bs \<longrightarrow> length bs < 2 ^ 53)"

lemma map_upt_cong: "(\<And>i. i < n \<Longrightarrow> f i = g i) \<Longrightarrow> map f [0..<n] = map g [0..<n]"
  by simp

lemma list_eq_map_upt: "length xs = n \<Longrightarrow> (\<And>i. i < n \<Longrightarrow> xs ! i = f i) \<Longrightarrow> xs = map f [0..<n]"
  by (simp add: nth_equalityI)

lemma aggregate_u32:
  assumes "lg_type lg v = U32" "lg_bytes lg v = vb" "q_value_col q = v" "n = lg_rows lg v"
  shows "\<not> crossing q \<Longrightarrow> q_has_filter q \<Longrightarrow> matrix_cpu_reduce_pred (u32_view vb) n (pred_u32 q) (q_agg q) (lg_nulls lg v) =
      aggregate_rows lg q (selected_rows lg q)"
    and "\<not> crossing q \<Longrightarrow> \<not> q_has_filter q \<Longrightarrow> lg_nulls lg v = None \<Longrightarrow>
      matrix_cpu_reduce_all (u32_view vb) n (q_agg q) = aggregate_rows lg q (selected_rows lg q)"
    and "\<not> crossing q \<Longrightarrow> \<not> q_has_filter q \<Longrightarrow> lg_nulls lg v = Some m \<Longrightarrow>
      matrix_cpu_reduce_all_nullable (u32_view vb) n (q_agg q) m = aggregate_rows lg q (selected_rows lg q)"
    and "crossing q \<Longrightarrow> matrix_cpu_reduce_filtered_by (u32_view (lg_bytes lg (q_filter_col q))) (pred_u32 q) (u32_view vb) n (q_agg q) =
      aggregate_rows lg q (selected_rows lg q)"
  using assms by (simp_all add: aggregate_rows_def selected_rows_def value_match_def reduce_simps not_null_def)

lemma aggregate_i64:
  assumes "lg_type lg v = TI64" "lg_bytes lg v = vb" "q_value_col q = v" "n = lg_rows lg v"
  shows "\<not> crossing q \<Longrightarrow> q_has_filter q \<Longrightarrow>
      i64_bits (matrix_cpu_reduce_pred_i64 (i64_view vb) n (pred_i64 q) (q_agg q) (lg_nulls lg v)) = aggregate_rows lg q (selected_rows lg q)"
    and "\<not> crossing q \<Longrightarrow> \<not> q_has_filter q \<Longrightarrow> lg_nulls lg v = None \<Longrightarrow>
      i64_bits (matrix_cpu_reduce_all_i64 (i64_view vb) n (q_agg q)) = aggregate_rows lg q (selected_rows lg q)"
    and "\<not> crossing q \<Longrightarrow> \<not> q_has_filter q \<Longrightarrow> lg_nulls lg v = Some m \<Longrightarrow>
      i64_bits (matrix_cpu_reduce_all_i64_nullable (i64_view vb) n (q_agg q) m) = aggregate_rows lg q (selected_rows lg q)"
    and "crossing q \<Longrightarrow>
      i64_bits (matrix_cpu_reduce_filtered_by_i64 (u32_view (lg_bytes lg (q_filter_col q))) (pred_u32 q) (i64_view vb) n (q_agg q)) =
      aggregate_rows lg q (selected_rows lg q)"
  using assms by (simp_all add: aggregate_rows_def selected_rows_def value_match_def reduce_simps not_null_def)

lemma aggregate_f64:
  assumes "lg_type lg v = TF64" "lg_bytes lg v = vb" "q_value_col q = v" "n = lg_rows lg v" "n < 2 ^ 53"
  shows "\<not> crossing q \<Longrightarrow> q_has_filter q \<Longrightarrow>
      f64_bits (matrix_cpu_reduce_pred_f64 (f64_view vb) n (pred_f64 q) (q_agg q) (lg_nulls lg v)) = aggregate_rows lg q (selected_rows lg q)"
    and "\<not> crossing q \<Longrightarrow> \<not> q_has_filter q \<Longrightarrow> lg_nulls lg v = None \<Longrightarrow>
      f64_bits (matrix_cpu_reduce_all_f64 (f64_view vb) n (q_agg q)) = aggregate_rows lg q (selected_rows lg q)"
    and "\<not> crossing q \<Longrightarrow> \<not> q_has_filter q \<Longrightarrow> lg_nulls lg v = Some m \<Longrightarrow>
      f64_bits (matrix_cpu_reduce_all_f64_nullable (f64_view vb) n (q_agg q) m) = aggregate_rows lg q (selected_rows lg q)"
    and "crossing q \<Longrightarrow>
      f64_bits (matrix_cpu_reduce_filtered_by_f64 (u32_view (lg_bytes lg (q_filter_col q))) (pred_u32 q) (f64_view vb) n (q_agg q)) =
      aggregate_rows lg q (selected_rows lg q)"
  using assms by (simp_all add: aggregate_rows_def selected_rows_def value_match_def reduce_f64_agg not_null_def)

lemma group_u32:
  assumes "lg_type lg v = U32" "lg_bytes lg v = vb" "q_value_col q = v" "n = lg_rows lg v" "lg_bytes lg (q_key_col q) = kb"
    "\<not> crossing q"
  shows "q_has_filter q \<Longrightarrow> matrix_cpu_group_reduce_pred (u32_view kb) (u32_view vb) n (q_num_groups q) (q_agg q) (pred_u32 q) (lg_nulls lg v) =
      map (\<lambda>g. aggregate_rows lg q (group_rows lg q g)) [0..<unat (q_num_groups q)]"
    and "\<not> q_has_filter q \<Longrightarrow> matrix_cpu_group_reduce (u32_view kb) (u32_view vb) n (q_num_groups q) (q_agg q) (lg_nulls lg v) =
      map (\<lambda>g. aggregate_rows lg q (group_rows lg q g)) [0..<unat (q_num_groups q)]"
  using assms
  by (auto intro!: list_eq_map_upt simp: matrix_cpu_group_reduce_pred_def matrix_cpu_group_reduce_def group_reduce_agg
      aggregate_rows_def value_match_def group_rows_def selected_rows_def conj_assoc)

lemma group_i64:
  assumes "lg_type lg v = TI64" "lg_bytes lg v = vb" "q_value_col q = v" "n = lg_rows lg v" "lg_bytes lg (q_key_col q) = kb"
    "\<not> crossing q"
  shows "q_has_filter q \<Longrightarrow>
      map i64_bits (matrix_cpu_group_reduce_i64_pred (u32_view kb) (i64_view vb) n (q_num_groups q) (q_agg q) (pred_i64 q) (lg_nulls lg v)) =
      map (\<lambda>g. aggregate_rows lg q (group_rows lg q g)) [0..<unat (q_num_groups q)]"
    and "\<not> q_has_filter q \<Longrightarrow>
      map i64_bits (matrix_cpu_group_reduce_i64 (u32_view kb) (i64_view vb) n (q_num_groups q) (q_agg q) (lg_nulls lg v)) =
      map (\<lambda>g. aggregate_rows lg q (group_rows lg q g)) [0..<unat (q_num_groups q)]"
  using assms
  by (auto intro!: list_eq_map_upt simp: matrix_cpu_group_reduce_i64_pred_def matrix_cpu_group_reduce_i64_def group_reduce_agg
      aggregate_rows_def value_match_def group_rows_def selected_rows_def conj_assoc)

lemma group_f64:
  assumes "lg_type lg v = TF64" "lg_bytes lg v = vb" "q_value_col q = v" "n = lg_rows lg v" "lg_bytes lg (q_key_col q) = kb"
    "\<not> crossing q"
  shows "q_has_filter q \<Longrightarrow>
      map f64_bits (matrix_cpu_group_reduce_f64_pred (u32_view kb) (f64_view vb) n (q_num_groups q) (q_agg q) (pred_f64 q) (lg_nulls lg v)) =
      map (\<lambda>g. aggregate_rows lg q (group_rows lg q g)) [0..<unat (q_num_groups q)]"
    and "\<not> q_has_filter q \<Longrightarrow>
      map f64_bits (matrix_cpu_group_reduce_f64 (u32_view kb) (f64_view vb) n (q_num_groups q) (q_agg q) (lg_nulls lg v)) =
      map (\<lambda>g. aggregate_rows lg q (group_rows lg q g)) [0..<unat (q_num_groups q)]"
  using assms
  by (auto intro!: list_eq_map_upt simp: matrix_cpu_group_reduce_f64_pred_def matrix_cpu_group_reduce_f64_def group_reduce_agg
      aggregate_rows_def value_match_def group_rows_def selected_rows_def conj_assoc)

lemma group_cross:
  assumes "lg_bytes lg v = vb" "q_value_col q = v" "n = lg_rows lg v" "lg_bytes lg (q_key_col q) = kb" "lg_bytes lg (q_filter_col q) = fb"
    "crossing q"
  shows "lg_type lg v = U32 \<Longrightarrow>
      matrix_cpu_group_reduce_filtered_by (u32_view kb) (u32_view fb) (pred_u32 q) (u32_view vb) n (q_num_groups q) (q_agg q) =
      map (\<lambda>g. aggregate_rows lg q (group_rows lg q g)) [0..<unat (q_num_groups q)]"
    and "lg_type lg v = TI64 \<Longrightarrow>
      map i64_bits (matrix_cpu_group_reduce_filtered_by_i64 (u32_view kb) (u32_view fb) (pred_u32 q) (i64_view vb) n (q_num_groups q) (q_agg q)) =
      map (\<lambda>g. aggregate_rows lg q (group_rows lg q g)) [0..<unat (q_num_groups q)]"
    and "lg_type lg v = TF64 \<Longrightarrow>
      map f64_bits (matrix_cpu_group_reduce_filtered_by_f64 (u32_view kb) (u32_view fb) (pred_u32 q) (f64_view vb) n (q_num_groups q) (q_agg q)) =
      map (\<lambda>g. aggregate_rows lg q (group_rows lg q g)) [0..<unat (q_num_groups q)]"
proof -
  have sel: "filter (\<lambda>i. matrix_pred_match (u32_view fb ! i) (pred_u32 q) \<and> unat (u32_view kb ! i) = g) [0..<n] = group_rows lg q g" for g
    using assms by (auto simp: group_rows_def selected_rows_def intro!: filter_cong)
  show "lg_type lg v = U32 \<Longrightarrow>
      matrix_cpu_group_reduce_filtered_by (u32_view kb) (u32_view fb) (pred_u32 q) (u32_view vb) n (q_num_groups q) (q_agg q) =
      map (\<lambda>g. aggregate_rows lg q (group_rows lg q g)) [0..<unat (q_num_groups q)]"
    "lg_type lg v = TI64 \<Longrightarrow>
      map i64_bits (matrix_cpu_group_reduce_filtered_by_i64 (u32_view kb) (u32_view fb) (pred_u32 q) (i64_view vb) n (q_num_groups q) (q_agg q)) =
      map (\<lambda>g. aggregate_rows lg q (group_rows lg q g)) [0..<unat (q_num_groups q)]"
    "lg_type lg v = TF64 \<Longrightarrow>
      map f64_bits (matrix_cpu_group_reduce_filtered_by_f64 (u32_view kb) (u32_view fb) (pred_u32 q) (f64_view vb) n (q_num_groups q) (q_agg q)) =
      map (\<lambda>g. aggregate_rows lg q (group_rows lg q g)) [0..<unat (q_num_groups q)]"
    using assms(1,2) by (auto intro!: list_eq_map_upt simp: group_filtered_agg aggregate_rows_def sel)
qed

section \<open>The engine answers queries\<close>

lemma logical_simps [simp]:
  "lg_data (logical ce) = contents ce" "lg_type (logical ce) = column_type ce" "lg_nulls (logical ce) = map_of (ce_null_masks ce)"
  "lg_max_groups (logical ce) = ce_max_query_groups ce"
  by (simp_all add: logical_def)

lemma lg_bytes_contents: "contents ce k = Some bs \<Longrightarrow> lg_bytes (logical ce) k = bs"
  by (simp add: lg_bytes_def)

lemma rows_eq:
  assumes "ce_ok ce" "catalog_has ce a"
  shows "column_rows ce a = Some (lg_rows (logical ce) a)"
proof -
  obtain bs where "contents ce a = Some bs" using assms catalog_has_contents by blast
  then show ?thesis by (simp add: column_rows_contents [OF assms(1)] lg_rows_def lg_bytes_def)
qed

lemma same_size_eq:
  assumes "ce_ok ce" "catalog_has ce a" "catalog_has ce b"
  shows "same_size ce a b \<longleftrightarrow> length (lg_bytes (logical ce) a) = length (lg_bytes (logical ce) b)"
proof -
  obtain as bs where c: "contents ce a = Some as" "contents ce b = Some bs" using assms catalog_has_contents by blast
  obtain ca where ca: "column_at ce a = Some ca" "col_holds ca as" using assms(1) c(1) by (rule ce_ok_column)
  obtain cb where cb: "column_at ce b = Some cb" "col_holds cb bs" using assms(1) c(2) by (rule ce_ok_column)
  have "col_size ca = col_size cb \<longleftrightarrow> length as = length bs"
    using ca(2) cb(2) by (metis col_holds_def col_holds_size)
  then show ?thesis using ca(1) cb(1) c by (simp add: same_size_def lg_bytes_def)
qed

lemma execute_query_impl_dispatch:
  assumes "ce_ok ce"
  shows "execute_query_impl q ce =
    (let v = q_value_col q; k = q_key_col q; G = q_num_groups q; st = query_check (logical ce) q in
     if st \<noteq> OK then reject st ce
     else if crossing q then
       if q_grouped q then grouped_ok (grouped_cross_filter q ce) else scalar_ok (scalar_cross_filter q ce)
     else if q_grouped q then
       grouped_ok (case column_type ce v of
           U32 \<Rightarrow> if q_has_filter q then grouped_aggregate_pred k v G (q_agg q) (pred_u32 q) ce else grouped_aggregate k v G (q_agg q) ce
         | TI64 \<Rightarrow> grouped_aggregate_i64 k v G (q_agg q) (pred_i64 q) (q_has_filter q) ce
         | TF64 \<Rightarrow> grouped_aggregate_f64 k v G (q_agg q) (pred_f64 q) (q_has_filter q) ce)
     else scalar_ok (if map_of (ce_null_masks ce) v \<noteq> None then scalar_aggregate_nullable q ce
       else case column_type ce v of
           U32 \<Rightarrow> scan_tiered_column v (pred_u32 q) (q_agg q) (q_has_filter q) ce
         | TI64 \<Rightarrow> scan_tiered_column_i64 v (pred_i64 q) (q_agg q) (q_has_filter q) ce
         | TF64 \<Rightarrow> scan_tiered_column_f64 v (pred_f64 q) (q_agg q) (q_has_filter q) ce))"
proof -
  have has: "contents ce k \<noteq> None \<longleftrightarrow> catalog_has ce k" for k using catalog_has_contents [OF assms] by blast
  note rules = crossing_def has logical_simps rows_eq [OF assms] same_size_eq [OF assms] option.inject
  show ?thesis
  proof (cases "column_type ce (q_value_col q)")
    case U32
    then show ?thesis unfolding execute_query_impl_def query_check_def Let_def rules by (simp add: rules)
  next
    case TI64
    then show ?thesis unfolding execute_query_impl_def query_check_def Let_def rules by (simp add: rules)
  next
    case TF64
    then show ?thesis unfolding execute_query_impl_def query_check_def Let_def rules by (simp add: rules)
  qed
qed

definition returns3 :: "(query_status \<times> u64 list \<times> catalog_engine) option \<Rightarrow> query_status \<times> u64 list \<Rightarrow> catalog_engine \<Rightarrow> bool" where
  "returns3 m r ce \<longleftrightarrow> (\<exists>ce'. m = Some (fst r, snd r, ce') \<and> ce_ok ce' \<and> logical ce' = logical ce)"

lemma returns3_intros:
  "ce_ok ce \<Longrightarrow> returns3 (reject st ce) (st, []) ce"
  "returns m x ce \<Longrightarrow> returns3 (scalar_ok m) (OK, [x]) ce"
  "returns m' xs ce \<Longrightarrow> returns3 (grouped_ok m') (OK, xs) ce"
  by (auto simp: returns3_def returns_def reject_def scalar_ok_def grouped_ok_def)

lemma lg_okD:
  assumes "lg_ok (logical ce)" "contents ce v = Some vb"
  shows "map_of (ce_null_masks ce) v = Some m \<Longrightarrow> length m = lg_rows (logical ce) v"
    and "lg_rows (logical ce) v < 2 ^ 53"
    and "value_nulls ce v (lg_rows (logical ce) v) = map_of (ce_null_masks ce) v"
proof -
  show m: "length m = lg_rows (logical ce) v" if "map_of (ce_null_masks ce) v = Some m" for m
    using assms that by (simp add: lg_ok_def)
  have "length vb < 2 ^ 53" using assms by (simp add: lg_ok_def)
  then show "lg_rows (logical ce) v < 2 ^ 53"
    using assms(2) le_less_trans [OF div_le_dividend] by (simp add: lg_rows_def lg_bytes_def)
  show "value_nulls ce v (lg_rows (logical ce) v) = map_of (ce_null_masks ce) v"
    using m by (simp add: value_nulls_def split: option.split)
qed

lemma lg_rows_contents: "contents ce v = Some vb \<Longrightarrow> lg_rows (logical ce) v = length vb div type_width (column_type ce v)"
  by (simp add: lg_rows_def lg_bytes_def)

lemma scan_answer:
  assumes ok: "ce_ok ce" and lg: "lg_ok (logical ce)" and v: "contents ce v = Some vb" "q_value_col q = v"
    and nm: "map_of (ce_null_masks ce) v = None" "\<not> crossing q"
  shows "returns (case column_type ce v of
           U32 \<Rightarrow> scan_tiered_column v (pred_u32 q) (q_agg q) (q_has_filter q) ce
         | TI64 \<Rightarrow> scan_tiered_column_i64 v (pred_i64 q) (q_agg q) (q_has_filter q) ce
         | TF64 \<Rightarrow> scan_tiered_column_f64 v (pred_f64 q) (q_agg q) (q_has_filter q) ce)
       (aggregate_rows (logical ce) q (selected_rows (logical ce) q)) ce"
proof -
  note rows = lg_rows_contents [OF v(1)] and small = lg_okD(2) [OF lg v(1)] and b = lg_bytes_contents [OF v(1)]
  show ?thesis
  proof (cases "column_type ce v")
    case U32
    note agg = aggregate_u32 [of "logical ce" v vb q, OF _ b v(2) refl]
    show ?thesis unfolding U32 matrix_type.case scan_tiered_column_def
      using agg nm U32 by (intro scan_returns [OF ok v(1)]) (simp add: rows type_width_def Let_def)
  next
    case TI64
    note agg = aggregate_i64 [of "logical ce" v vb q, OF _ b v(2) refl]
    show ?thesis unfolding TI64 matrix_type.case scan_tiered_column_i64_def
      using agg nm TI64 by (intro scan_returns [OF ok v(1)]) (simp add: rows type_width_def Let_def)
  next
    case TF64
    note agg = aggregate_f64 [of "logical ce" v vb q, OF _ b v(2) refl small]
    show ?thesis unfolding TF64 matrix_type.case scan_tiered_column_f64_def
      using agg nm TF64 by (intro scan_returns [OF ok v(1)]) (simp add: rows type_width_def Let_def)
  qed
qed

lemma nullable_answer:
  assumes ok: "ce_ok ce" and lg: "lg_ok (logical ce)" and v: "contents ce v = Some vb" "q_value_col q = v"
    and nm: "map_of (ce_null_masks ce) v = Some m" "\<not> crossing q"
  shows "returns (scalar_aggregate_nullable q ce) (aggregate_rows (logical ce) q (selected_rows (logical ce) q)) ce"
proof -
  note rows = lg_rows_contents [OF v(1)] and small = lg_okD(2) [OF lg v(1)] and b = lg_bytes_contents [OF v(1)]
  have len: "length m = length vb div type_width (column_type ce v)" using lg_okD(1) [OF lg v(1) nm(1)] by (simp only: rows)
  have "(case column_type ce v of
             TI64 \<Rightarrow> i64_bits (if q_has_filter q then matrix_cpu_reduce_pred_i64 (i64_view vb) (length m) (pred_i64 q) (q_agg q) (Some m)
                              else matrix_cpu_reduce_all_i64_nullable (i64_view vb) (length m) (q_agg q) m)
           | TF64 \<Rightarrow> f64_bits (if q_has_filter q then matrix_cpu_reduce_pred_f64 (f64_view vb) (length m) (pred_f64 q) (q_agg q) (Some m)
                              else matrix_cpu_reduce_all_f64_nullable (f64_view vb) (length m) (q_agg q) m)
           | U32 \<Rightarrow> (if q_has_filter q then matrix_cpu_reduce_pred (u32_view vb) (length m) (pred_u32 q) (q_agg q) (Some m)
                     else matrix_cpu_reduce_all_nullable (u32_view vb) (length m) (q_agg q) m)) =
      aggregate_rows (logical ce) q (selected_rows (logical ce) q)"
  proof (cases "column_type ce v")
    case U32
    then show ?thesis using aggregate_u32 [of "logical ce" v vb q, OF _ b v(2) refl] nm by (simp add: rows len)
  next
    case TI64
    then show ?thesis using aggregate_i64 [of "logical ce" v vb q, OF _ b v(2) refl] nm by (simp add: rows len)
  next
    case TF64
    then show ?thesis using aggregate_f64 [of "logical ce" v vb q, OF _ b v(2) refl small] nm by (simp add: rows len)
  qed
  note eq = this
  show ?thesis
    unfolding scalar_aggregate_nullable_def v(2) nm(1) bind.bind_lunit
    by (intro scan_returns [OF ok v(1)]) (simp only: Let_def len [symmetric] less_irrefl if_False eq)
qed

lemma grouped_answer:
  assumes ok: "ce_ok ce" and lg: "lg_ok (logical ce)" and v: "contents ce v = Some vb" "q_value_col q = v"
    and k: "contents ce k = Some kb" "q_key_col q = k" "k \<noteq> v" "column_type ce k = U32"
    and len: "length kb div 4 = lg_rows (logical ce) v" "column_type ce v = U32 \<Longrightarrow> length kb = length vb" and nc: "\<not> crossing q"
  shows "returns (case column_type ce v of
           U32 \<Rightarrow> if q_has_filter q then grouped_aggregate_pred k v (q_num_groups q) (q_agg q) (pred_u32 q) ce
                  else grouped_aggregate k v (q_num_groups q) (q_agg q) ce
         | TI64 \<Rightarrow> grouped_aggregate_i64 k v (q_num_groups q) (q_agg q) (pred_i64 q) (q_has_filter q) ce
         | TF64 \<Rightarrow> grouped_aggregate_f64 k v (q_num_groups q) (q_agg q) (pred_f64 q) (q_has_filter q) ce)
       (map (\<lambda>g. aggregate_rows (logical ce) q (group_rows (logical ce) q g)) [0..<unat (q_num_groups q)]) ce"
proof -
  note rows = lg_rows_contents [OF v(1)] and nulls = lg_okD(3) [OF lg v(1)] and bv = lg_bytes_contents [OF v(1)]
  have bk: "lg_bytes (logical ce) (q_key_col q) = kb" using lg_bytes_contents [OF k(1)] k(2) by simp
  show ?thesis
  proof (cases "column_type ce v")
    case U32
    have "catalog_has ce k" "catalog_has ce v" using catalog_has_contents [OF ok] v(1) k(1) by simp_all
    then have s: "same_size ce k v" using same_size_eq [OF ok] len(2) [OF U32] bv lg_bytes_contents [OF k(1)] by simp
    note agg = group_u32 [of "logical ce" v vb q, OF _ bv v(2) refl bk nc, simplified]
    show ?thesis using agg nulls U32 s k(3)
      by (simp add: grouped_aggregate_pred_def grouped_aggregate_def) (auto intro!: pair_returns [OF ok k(1) v(1)] simp: len(1) Let_def)
  next
    case TI64
    note agg = group_i64 [of "logical ce" v vb q, OF _ bv v(2) refl bk nc, simplified]
    show ?thesis using agg nulls TI64 rows len(1)
      by (auto intro!: pair_returns [OF ok k(1) v(1)] simp: grouped_aggregate_i64_def type_width_def Let_def)
  next
    case TF64
    note agg = group_f64 [of "logical ce" v vb q, OF _ bv v(2) refl bk nc, simplified]
    show ?thesis using agg nulls TF64 rows len(1)
      by (auto intro!: pair_returns [OF ok k(1) v(1)] simp: grouped_aggregate_f64_def type_width_def Let_def)
  qed
qed

lemma scalar_cross_answer:
  assumes ok: "ce_ok ce" and lg: "lg_ok (logical ce)" and v: "contents ce v = Some vb" "q_value_col q = v"
    and f: "contents ce f = Some fb" "q_filter_col q = f" and len: "length fb div 4 = lg_rows (logical ce) v" and c: "crossing q"
  shows "returns (scalar_cross_filter q ce) (aggregate_rows (logical ce) q (selected_rows (logical ce) q)) ce"
proof -
  note rows = lg_rows_contents [OF v(1)] and small = lg_okD(2) [OF lg v(1)] and b = lg_bytes_contents [OF v(1)]
  have bf: "lg_bytes (logical ce) (q_filter_col q) = fb" using lg_bytes_contents [OF f(1)] f(2) by simp
  have "(case column_type ce v of
             TI64 \<Rightarrow> i64_bits (matrix_cpu_reduce_filtered_by_i64 (u32_view fb) (pred_u32 q) (i64_view vb) (length fb div 4) (q_agg q))
           | TF64 \<Rightarrow> f64_bits (matrix_cpu_reduce_filtered_by_f64 (u32_view fb) (pred_u32 q) (f64_view vb) (length fb div 4) (q_agg q))
           | U32 \<Rightarrow> matrix_cpu_reduce_filtered_by (u32_view fb) (pred_u32 q) (u32_view vb) (length fb div 4) (q_agg q)) =
      aggregate_rows (logical ce) q (selected_rows (logical ce) q)"
    using aggregate_u32(4) [of "logical ce" v vb q, OF _ b v(2) refl] aggregate_i64(4) [of "logical ce" v vb q, OF _ b v(2) refl]
      aggregate_f64(4) [of "logical ce" v vb q, OF _ b v(2) refl small] c bf len
    by (simp split: matrix_type.split)
  note eq = this
  have "\<not> length vb div type_width (column_type ce v) < length fb div 4" using rows len by simp
  then show ?thesis
    unfolding scalar_cross_filter_def f(2) v(2)
    by (intro rebalance_returns, intro pair_returns [OF ok f(1) v(1)]) (simp only: Let_def if_False eq)
qed

lemma grouped_cross_answer:
  assumes ok: "ce_ok ce" and v: "contents ce v = Some vb" "q_value_col q = v"
    and f: "contents ce f = Some fb" "q_filter_col q = f" and k: "contents ce k = Some kb" "q_key_col q = k"
    and len: "length fb div 4 = lg_rows (logical ce) v" "length kb div 4 = lg_rows (logical ce) v" and c: "crossing q"
  shows "returns (grouped_cross_filter q ce)
       (map (\<lambda>g. aggregate_rows (logical ce) q (group_rows (logical ce) q g)) [0..<unat (q_num_groups q)]) ce"
proof -
  note rows = lg_rows_contents [OF v(1)] and b = lg_bytes_contents [OF v(1)]
  have bf: "lg_bytes (logical ce) (q_filter_col q) = fb" and bk: "lg_bytes (logical ce) (q_key_col q) = kb"
    using lg_bytes_contents [OF f(1)] f(2) lg_bytes_contents [OF k(1)] k(2) by simp_all
  have "on_loan ce [] ce" using ok by (simp add: on_loan_def ce_ok_def)
  from borrow_all_on_loan [OF ok this, of "[v, f, k]"] v(1) f(1) k(1)
  obtain borrowed ce1 where bo: "borrow_all [v, f, k] [] ce = Some (borrowed, ce1)" "on_loan ce borrowed ce1" "fst ` set borrowed = {v, f, k}"
    by auto
  have hb: "host_bytes v ce1 = Some (vb, length vb)" "host_bytes f ce1 = Some (fb, length fb)" "host_bytes k ce1 = Some (kb, length kb)"
    using bo(3) by (auto intro!: host_bytes_on_loan [OF ok bo(2)] v(1) f(1) k(1))
  obtain ce2 where r: "return_all borrowed ce1 = Some ce2" "on_loan ce [] ce2" using return_all_on_loan [OF ok bo(2)] by blast
  obtain ce3 where ce3: "maybe_rebalance ce2 = Some ce3" "ce_ok ce3" "logical ce3 = logical ce2"
    using maybe_rebalance_ok [OF on_loan_ok(1) [OF ok r(2)]] by blast
  have "(case column_type ce v of
             TI64 \<Rightarrow> map i64_bits (matrix_cpu_group_reduce_filtered_by_i64 (u32_view kb) (u32_view fb) (pred_u32 q) (i64_view vb) (length kb div 4) (q_num_groups q) (q_agg q))
           | TF64 \<Rightarrow> map f64_bits (matrix_cpu_group_reduce_filtered_by_f64 (u32_view kb) (u32_view fb) (pred_u32 q) (f64_view vb) (length kb div 4) (q_num_groups q) (q_agg q))
           | U32 \<Rightarrow> matrix_cpu_group_reduce_filtered_by (u32_view kb) (u32_view fb) (pred_u32 q) (u32_view vb) (length kb div 4) (q_num_groups q) (q_agg q)) =
      map (\<lambda>g. aggregate_rows (logical ce) q (group_rows (logical ce) q g)) [0..<unat (q_num_groups q)]"
    using group_cross [of "logical ce" v vb q, OF b v(2) refl bk bf c] len by (simp split: matrix_type.split)
  then show ?thesis
    using bo(1) hb r(1) ce3 len rows on_loan_ok(2) [OF ok r(2)]
    by (simp add: grouped_cross_filter_def v(2) f(2) k(2) returns_def Let_def)
qed

lemma type_width_U32 [simp]: "type_width U32 = 4"
  by (simp add: type_width_def)

lemma execute_query_impl_answer:
  assumes ok: "ce_ok ce" and lg: "lg_ok (logical ce)"
  shows "returns3 (execute_query_impl q ce) (answer (logical ce) q) ce"
proof (cases "query_check (logical ce) q = OK")
  case False
  then show ?thesis
    by (simp add: execute_query_impl_dispatch [OF ok] answer_def Let_def returns3_intros(1) [OF ok])
next
  case True
  let ?v = "q_value_col q" and ?k = "q_key_col q" and ?f = "q_filter_col q"
  have has: "contents ce ?v \<noteq> None" using True by (auto simp: query_check_def Let_def split: if_splits)
  then obtain vb where v: "contents ce ?v = Some vb" by blast
  have cr: "contents ce ?f \<noteq> None \<and> column_type ce ?f = U32 \<and> lg_rows (logical ce) ?f = lg_rows (logical ce) ?v" if "crossing q"
    using True that by (auto simp: query_check_def Let_def split: if_splits)
  have gr: "contents ce ?k \<noteq> None \<and> ?k \<noteq> ?v \<and> column_type ce ?k = U32" if "q_grouped q"
    using True that by (auto simp: query_check_def Let_def split: if_splits)
  have al: "(if column_type ce ?v = U32 \<and> \<not> crossing q then length (lg_bytes (logical ce) ?k) = length (lg_bytes (logical ce) ?v)
      else lg_rows (logical ce) ?k = lg_rows (logical ce) ?v)" if "q_grouped q"
    using True that by (auto simp: query_check_def Let_def split: if_splits)
  have kr: "length kb div 4 = lg_rows (logical ce) ?v \<and> (column_type ce ?v = U32 \<and> \<not> crossing q \<longrightarrow> length kb = length vb)"
    if "q_grouped q" "contents ce ?k = Some kb" for kb
    using al [OF that(1)] gr [OF that(1)] lg_rows_contents [OF that(2)] lg_rows_contents [OF v] lg_bytes_contents [OF that(2)]
      lg_bytes_contents [OF v] by (auto split: if_splits)
  have fr: "length fb div 4 = lg_rows (logical ce) ?v" if "crossing q" "contents ce ?f = Some fb" for fb
    using cr [OF that(1)] lg_rows_contents [OF that(2)] by (metis type_width_U32)
  note simps = execute_query_impl_dispatch [OF ok] answer_def Let_def True
  consider "crossing q" "q_grouped q" | "crossing q" "\<not> q_grouped q" | "\<not> crossing q" "q_grouped q"
    | "\<not> crossing q" "\<not> q_grouped q" "map_of (ce_null_masks ce) ?v = None" | m where "\<not> crossing q" "\<not> q_grouped q" "map_of (ce_null_masks ce) ?v = Some m"
    by blast
  then show ?thesis
  proof cases
    case 1
    obtain fb kb where fk: "contents ce ?f = Some fb" "contents ce ?k = Some kb" using cr gr 1 by blast
    have "returns (grouped_cross_filter q ce)
       (map (\<lambda>g. aggregate_rows (logical ce) q (group_rows (logical ce) q g)) [0..<unat (q_num_groups q)]) ce"
      using fr [OF 1(1) fk(1)] kr [OF 1(2) fk(2)] 1(1) by (intro grouped_cross_answer [OF ok v refl fk(1) refl fk(2) refl]) simp_all
    then show ?thesis using 1 by (simp add: simps returns3_intros)
  next
    case 2
    obtain fb where fk: "contents ce ?f = Some fb" using cr 2 by blast
    have "returns (scalar_cross_filter q ce) (aggregate_rows (logical ce) q (selected_rows (logical ce) q)) ce"
      using fr [OF 2(1) fk] 2(1) by (intro scalar_cross_answer [OF ok lg v refl fk refl])
    then show ?thesis using 2 by (simp add: simps returns3_intros)
  next
    case 3
    obtain kb where fk: "contents ce ?k = Some kb" using gr 3 by blast
    have "length kb div 4 = lg_rows (logical ce) ?v" "column_type ce ?v = U32 \<Longrightarrow> length kb = length vb"
      using kr [OF 3(2) fk] 3(1) by simp_all
    from grouped_answer [OF ok lg v refl fk refl _ _ this 3(1)] gr [OF 3(2)]
    show ?thesis using 3 by (simp add: simps returns3_intros)
  next
    case 4
    from scan_answer [OF ok lg v refl 4(3,1)] show ?thesis using 4 by (simp add: simps returns3_intros)
  next
    case 5
    from nullable_answer [OF ok lg v refl 5(3,1)] show ?thesis using 5 by (simp add: simps returns3_intros)
  qed
qed

lemma host_resident_bytes:
  assumes "ce_ok ce" "host_resident ce k"
  obtains bs where "contents ce k = Some bs" "host_bytes k ce = Some (bs, length bs)"
proof -
  obtain col where col: "column_at ce k = Some col" "col_tier col = HOST"
    using assms(2) by (auto simp: host_resident_def split: option.splits)
  obtain bs where "contents ce k = Some bs" "col_holds col bs" using ce_ok_holds [OF assms(1)] col(1) by (auto simp: column_at_def)
  then show thesis using that host_bytes_eq [OF col(1) _ col(2)] by blast
qed

lemma shared_impl_answer:
  assumes ok: "ce_ok ce" and lg: "lg_ok (logical ce)"
  shows "\<exists>r. execute_query_shared_impl q ce = Some r \<and> (fst r = SERVED \<longrightarrow> answer (logical ce) q = (OK, snd r)) \<and>
    (fst r = NEEDS_EXCLUSIVE \<longrightarrow> snd r = [])"
proof (cases "\<not> host_resident ce (q_value_col q) \<or> map_of (ce_null_masks ce) (q_value_col q) \<noteq> None")
  case True
  then show ?thesis by (auto simp: execute_query_shared_impl_def needs_exclusive_def Let_def)
next
  case False
  let ?v = "q_value_col q" and ?k = "q_key_col q" and ?f = "q_filter_col q"
  obtain vb where v: "contents ce ?v = Some vb" "host_bytes ?v ce = Some (vb, length vb)"
    using False host_resident_bytes [OF ok] by blast
  have nm: "map_of (ce_null_masks ce) ?v = None" and hv: "host_resident ce ?v" using False by simp_all
  have rows: "column_rows ce ?v = Some (lg_rows (logical ce) ?v)" using rows_eq [OF ok] v(1) catalog_has_contents [OF ok] by simp
  note small = lg_okD(2) [OF lg v(1)] and b = lg_bytes_contents [OF v(1)]
  consider (C1) "crossing q" "\<not> q_grouped q" | (C2) "crossing q" "q_grouped q" | (C3) "\<not> crossing q" "q_grouped q"
    | (C4) "\<not> crossing q" "\<not> q_grouped q" by blast
  then show ?thesis
  proof cases
    case C1
    show ?thesis
    proof (cases "\<not> host_resident ce ?f \<or> column_type ce ?f \<noteq> U32 \<or> column_rows ce ?f \<noteq> Some (lg_rows (logical ce) ?v)")
      case True
      then show ?thesis using C1 v rows nm hv
        by (auto simp: execute_query_shared_impl_def crossing_def needs_exclusive_def Let_def)
    next
      case F: False
      then obtain fb where f: "contents ce ?f = Some fb" "host_bytes ?f ce = Some (fb, length fb)"
        using host_resident_bytes [OF ok] by blast
      have bf: "lg_bytes (logical ce) ?f = fb" by (rule lg_bytes_contents [OF f(1)])
      have "lg_rows (logical ce) ?f = lg_rows (logical ce) ?v" using F rows_eq [OF ok] f(1) catalog_has_contents [OF ok] by simp
      then have chk: "query_check (logical ce) q = OK" using C1 v(1) f(1) F by (simp add: query_check_def Let_def)
      have "answer (logical ce) q = (OK, [case column_type ce ?v of
               TI64 \<Rightarrow> i64_bits (matrix_cpu_reduce_filtered_by_i64 (u32_view fb) (pred_u32 q) (i64_view vb) (lg_rows (logical ce) ?v) (q_agg q))
             | TF64 \<Rightarrow> f64_bits (matrix_cpu_reduce_filtered_by_f64 (u32_view fb) (pred_u32 q) (f64_view vb) (lg_rows (logical ce) ?v) (q_agg q))
             | U32 \<Rightarrow> matrix_cpu_reduce_filtered_by (u32_view fb) (pred_u32 q) (u32_view vb) (lg_rows (logical ce) ?v) (q_agg q)])"
        using chk C1 aggregate_u32(4) [of "logical ce" ?v vb q, OF _ b refl refl] aggregate_i64(4) [of "logical ce" ?v vb q, OF _ b refl refl]
          aggregate_f64(4) [of "logical ce" ?v vb q, OF _ b refl refl small] bf
        by (simp add: answer_def split: matrix_type.split)
      then show ?thesis using C1 v rows nm hv F f(2) by (simp add: execute_query_shared_impl_def crossing_def Let_def)
    qed
  next
    case C2
    then show ?thesis using v rows nm hv
      by (auto simp: execute_query_shared_impl_def crossing_def needs_exclusive_def Let_def)
  next
    case C3
    then have nc: "\<not> (q_has_filter q \<and> ?f \<noteq> 0 \<and> ?f \<noteq> ?v)" by (simp add: crossing_def)
    let ?G = "q_num_groups q"
    show ?thesis
    proof (cases "\<not> host_resident ce ?k \<or> ?k = ?v \<or> ?G = 0 \<or> ?G > ce_max_query_groups ce \<or> column_type ce ?k \<noteq> U32 \<or>
        column_rows ce ?k \<noteq> Some (lg_rows (logical ce) ?v)")
      case True
      then show ?thesis using C3(2) nc v rows nm hv
        by (auto simp: execute_query_shared_impl_def needs_exclusive_def Let_def)
    next
      case F: False
      then obtain kb where k: "contents ce ?k = Some kb" "host_bytes ?k ce = Some (kb, length kb)"
        using host_resident_bytes [OF ok] by blast
      have bk: "lg_bytes (logical ce) ?k = kb" by (rule lg_bytes_contents [OF k(1)])
      have kr: "lg_rows (logical ce) ?k = lg_rows (logical ce) ?v" using F rows_eq [OF ok] k(1) catalog_has_contents [OF ok] by simp
      have "length kb = length vb" if "column_type ce ?v = U32"
      proof -
        have "4 dvd length kb" "4 dvd length vb" using ok k(1) v(1) F that by (fastforce simp: ce_ok_def)+
        then show ?thesis using kr lg_rows_contents [OF k(1)] lg_rows_contents [OF v(1)] F that by (auto elim!: dvdE)
      qed
      then have chk: "query_check (logical ce) q = OK" using C3 v(1) k(1) F kr b bk by (simp add: query_check_def Let_def)
      note g = group_u32 [of "logical ce" ?v vb q, OF _ b refl refl bk C3(1)] group_i64 [of "logical ce" ?v vb q, OF _ b refl refl bk C3(1)]
        group_f64 [of "logical ce" ?v vb q, OF _ b refl refl bk C3(1)]
      have "execute_query_shared_impl q ce = Some (SERVED, map (\<lambda>g. aggregate_rows (logical ce) q (group_rows (logical ce) q g)) [0..<unat ?G])"
        using g nm C3(2) nc v(2) rows hv F k(2) by (auto simp: execute_query_shared_impl_def Let_def split: matrix_type.split)
      then show ?thesis using chk C3 by (simp add: answer_def)
    qed
  next
    case C4
    then have nc: "\<not> (q_has_filter q \<and> ?f \<noteq> 0 \<and> ?f \<noteq> ?v)" by (simp add: crossing_def)
    have chk: "query_check (logical ce) q = OK" using C4 v(1) by (simp add: query_check_def Let_def)
    note g = aggregate_u32 [of "logical ce" ?v vb q, OF _ b refl refl] aggregate_i64 [of "logical ce" ?v vb q, OF _ b refl refl]
        aggregate_f64 [of "logical ce" ?v vb q, OF _ b refl refl small]
    have "execute_query_shared_impl q ce = Some (SERVED, [aggregate_rows (logical ce) q (selected_rows (logical ce) q)])"
      using g nm C4 nc v(2) rows hv by (auto simp: execute_query_shared_impl_def Let_def split: matrix_type.split)
    then show ?thesis using chk C4 by (simp add: answer_def)
  qed
qed

lemma record_query_latency_ok:
  assumes "ce_ok ce"
  shows "ce_ok (record_query_latency ns ce)" "logical (record_query_latency ns ce) = logical ce"
proof -
  show "ce_ok (record_query_latency ns ce)"
    using assms by (intro ce_ok_cong [OF assms]) (simp_all add: record_query_latency_def Let_def ce_ok_def)
  show "logical (record_query_latency ns ce) = logical ce"
    by (rule logical_cong) (simp_all add: record_query_latency_def Let_def contents_def fun_eq_iff)
qed

definition query_ready :: "catalog_engine \<Rightarrow> bool" where
  "query_ready ce \<longleftrightarrow> ce_ok ce \<and> lg_ok (logical ce)"

lemma execute_query_answer:
  assumes "query_ready ce"
  shows "\<exists>ce'. execute_query ns q ce = Some (fst (answer (logical ce) q), snd (answer (logical ce) q), ce') \<and>
    query_ready ce' \<and> logical ce' = logical ce"
proof -
  obtain ce' where "execute_query_impl q ce = Some (fst (answer (logical ce) q), snd (answer (logical ce) q), ce')"
    "ce_ok ce'" "logical ce' = logical ce"
    using assms execute_query_impl_answer [of ce q] by (auto simp: query_ready_def returns3_def)
  then show ?thesis using record_query_latency_ok [of ce' ns] assms by (simp add: execute_query_def query_ready_def)
qed

section \<open>Properties of queries\<close>

lemma fresh_column_ready:
  assumes "cid \<noteq> 0" "4 * length xs \<le> room" "4 * length xs < 2 ^ 53"
  shows "\<exists>ce. load_scan_column cid xs (catalog_init cap room) = Some ce \<and> query_ready ce \<and>
    logical ce = \<lparr>lg_data = [cid \<mapsto> concat (map u32_bytes xs)], lg_type = (\<lambda>_. U32), lg_nulls = Map.empty, lg_max_groups = MAX_QUERY_GROUPS\<rparr> \<and>
    host_resident ce cid"
proof -
  let ?c = "catalog_init cap room" and ?b = "concat (map u32_bytes xs)"
  have e: "contents ?c = Map.empty" by (simp add: contents_def catalog_init_def fun_eq_iff)
  have len: "length ?b = 4 * length xs" by (rule length_chunks) simp
  obtain ce where l: "load_bytes cid ?b ?c = Some ce" "contents ce = (contents ?c)(cid \<mapsto> ?b)"
    "ce_ok (ce\<lparr>ce_col_types := (ce_col_types ?c)(cid := None)\<rparr>)" "ce_col_types ce = ce_col_types ?c"
    using load_bytes_ok [OF catalog_init_ok assms(1), of cap room ?b None] assms(2,3) e len
    by (auto simp: catalog_init_def)
  have "ce\<lparr>ce_col_types := (ce_col_types ?c)(cid := None)\<rparr> = ce" using l(4) by (simp add: catalog_init_def)
  with l(3) have ok: "ce_ok ce" by simp
  have "ce_null_masks ce = []" "ce_max_query_groups ce = MAX_QUERY_GROUPS" "host_resident ce cid"
    using l(1) assms(1) by (auto simp: load_bytes_def catalog_init_def host_resident_def column_at_def TieredColumn_def split: if_splits)
  moreover have "column_type ce = (\<lambda>_. U32)" using l(4) by (simp add: column_type_def catalog_init_def fun_eq_iff)
  ultimately have lg: "logical ce = \<lparr>lg_data = [cid \<mapsto> ?b], lg_type = (\<lambda>_. U32), lg_nulls = Map.empty, lg_max_groups = MAX_QUERY_GROUPS\<rparr>"
    using l(2) e by (simp add: logical_def)
  then have "lg_ok (logical ce)" using assms(3) len by (simp add: lg_ok_def)
  then show ?thesis using l(1) ok lg \<open>host_resident ce cid\<close> by (simp add: load_scan_column_def query_ready_def)
qed

lemmas answer_simps = answer_def query_check_def selected_rows_def aggregate_rows_def value_match_def lg_rows_def lg_bytes_def crossing_def
  not_null_def default_query_def u64_count_sum

text \<open>
  C4. Queries are tier transparent. In every well-formed engine \<open>execute_query\<close> returns, and status and
  result are those the specification \<open>answer\<close> computes from the logical contents of the catalog:
  validation, WHERE on the value column or another column, NULL rows, GROUP BY, and the four
  aggregates over the three element types. Where the columns live, the borrows and the rebalancing
  of the query itself do not matter, and the logical contents are the same afterwards.
\<close>

theorem query_refines_answer:
  assumes "query_ready ce"
  shows "\<exists>ce'. execute_query ns q ce = Some (fst (answer (logical ce) q), snd (answer (logical ce) q), ce') \<and>
    query_ready ce' \<and> logical ce' = logical ce"
  using assms by (rule execute_query_answer)

theorem query_refines_answer_witness:
  "\<exists>ce ce'. load_scan_column 7 [10, 20, 30] (catalog_init 1000 1000) = Some ce \<and>
    execute_query 5 (default_query\<lparr>q_value_col := 7, q_agg := AGG_SUM\<rparr>) ce = Some (OK, [60], ce')"
proof -
  let ?q = "default_query\<lparr>q_value_col := 7, q_agg := AGG_SUM\<rparr>"
  obtain ce where ce: "load_scan_column 7 [10, 20, 30] (catalog_init 1000 1000) = Some ce" "query_ready ce"
    "logical ce = \<lparr>lg_data = [7 \<mapsto> concat (map u32_bytes [10, 20, 30])], lg_type = (\<lambda>_. U32), lg_nulls = Map.empty, lg_max_groups = MAX_QUERY_GROUPS\<rparr>"
    using fresh_column_ready [of 7 "[10, 20, 30]" 1000 1000] by auto
  have "answer (logical ce) ?q = (OK, [60])"
  proof -
    have "u32_view (concat (map u32_bytes [10, 20, 30])) = [10, 20, 30]" by (rule u32_view_bytes)
    then show ?thesis unfolding ce(3) by (simp add: answer_simps length_chunks [of _ 4] upt_rec)
  qed
  then show ?thesis using ce(1) query_refines_answer [OF ce(2), of 5 ?q] by auto
qed

text \<open>
  C5. The shared read path agrees with the exclusive one. Under the shared lock
  \<open>execute_query_shared\<close> never aborts and changes nothing but the latency statistics; when it serves a
  query, the exclusive path would answer OK with the same values, and when it does not, its
  output is empty and nothing at all has changed.
\<close>

theorem shared_path_equals_exclusive:
  assumes "query_ready ce"
  shows "\<exists>r out ce1. execute_query_shared ns q ce = Some (r, out, ce1) \<and>
    (r = SERVED \<longrightarrow> ce1 = record_query_latency ns ce \<and> (\<exists>ce2. execute_query ns q ce = Some (OK, out, ce2))) \<and>
    (r = NEEDS_EXCLUSIVE \<longrightarrow> out = [] \<and> ce1 = ce)"
proof -
  obtain r where r: "execute_query_shared_impl q ce = Some r" "fst r = SERVED \<longrightarrow> answer (logical ce) q = (OK, snd r)"
    "fst r = NEEDS_EXCLUSIVE \<longrightarrow> snd r = []"
    using shared_impl_answer [of ce q] assms by (auto simp: query_ready_def)
  then show ?thesis using execute_query_answer [OF assms, of ns q]
    by (auto simp: execute_query_shared_def case_prod_unfold)
qed

theorem shared_path_equals_exclusive_witness:
  "\<exists>ce ce1 ce2. load_scan_column 7 [10, 20, 30] (catalog_init 1000 1000) = Some ce \<and>
    execute_query_shared 5 (default_query\<lparr>q_value_col := 7\<rparr>) ce = Some (SERVED, [3], ce1) \<and>
    execute_query 5 (default_query\<lparr>q_value_col := 7\<rparr>) ce = Some (OK, [3], ce2)"
proof -
  let ?q = "default_query\<lparr>q_value_col := 7\<rparr>"
  obtain ce where ce: "load_scan_column 7 [10, 20, 30] (catalog_init 1000 1000) = Some ce" "query_ready ce"
    "logical ce = \<lparr>lg_data = [7 \<mapsto> concat (map u32_bytes [10, 20, 30])], lg_type = (\<lambda>_. U32), lg_nulls = Map.empty, lg_max_groups = MAX_QUERY_GROUPS\<rparr>"
    "host_resident ce 7"
    using fresh_column_ready [of 7 "[10, 20, 30]" 1000 1000] by auto
  have lg: "column_type ce = (\<lambda>_. U32)" "map_of (ce_null_masks ce) = Map.empty" "contents ce 7 = Some (concat (map u32_bytes [10, 20, 30]))"
    using ce(3) by (simp_all add: logical_def)
  have ok: "ce_ok ce" using ce(2) by (simp add: query_ready_def)
  obtain bs where hb: "contents ce 7 = Some bs" "host_bytes 7 ce = Some (bs, length bs)" using ok ce(4) by (rule host_resident_bytes)
  have "column_rows ce 7 = Some 3" using lg by (simp add: column_rows_contents [OF ok])
  then have "\<exists>ce1. execute_query_shared 5 ?q ce = Some (SERVED, [3], ce1)"
    using ce(4) hb(2) lg(1,2) by (simp add: execute_query_shared_def execute_query_shared_impl_def default_query_def Let_def matrix_cpu_reduce_all_def)
  then show ?thesis using ce(1) shared_path_equals_exclusive [OF ce(2), of 5 ?q] by auto
qed

text \<open>
  A rejected query has no effect. When \<open>execute_query\<close> reports an error the output is empty and the
  engine is as before, its latency statistics apart: no column was borrowed, no heat recorded, no
  rebalance run. It holds in every state, well formed or not.
\<close>

theorem query_error_no_effect:
  assumes "execute_query ns q ce = Some (st, out, ce')" "st \<noteq> OK"
  shows "out = [] \<and> ce' = record_query_latency ns ce"
proof -
  have ok: "st' = OK" if "scalar_ok m = Some (st', o', e')" for m st' o' e' using that by (auto simp: scalar_ok_def)
  have gok: "st' = OK" if "grouped_ok m = Some (st', o', e')" for m st' o' e' using that by (auto simp: grouped_ok_def)
  obtain e where e: "execute_query_impl q ce = Some (st, out, e)" "ce' = record_query_latency ns e"
    using assms(1) by (auto simp: execute_query_def)
  have "out = [] \<and> e = ce"
    using e(1) assms(2) unfolding execute_query_impl_def Let_def
    by (auto simp: reject_def split: if_splits dest: ok gok)
  then show ?thesis using e(2) by simp
qed

theorem query_error_no_effect_witness:
  "execute_query 9 (default_query\<lparr>q_value_col := 7\<rparr>) (catalog_init 10 10) =
     Some (ERR_UNKNOWN_COLUMN, [], record_query_latency 9 (catalog_init 10 10))"
proof -
  have "execute_query 9 (default_query\<lparr>q_value_col := 7\<rparr>) (catalog_init 10 10) =
     Some (ERR_UNKNOWN_COLUMN, [], record_query_latency 9 (catalog_init 10 10))"
    by (simp add: execute_query_def execute_query_impl_def catalog_has_def catalog_init_def reject_def Let_def default_query_def)
  with query_error_no_effect [OF this] show ?thesis by simp
qed

end
