(* ===== verification/GPU_Engine.thy ===== *)
theory GPU_Engine
  imports GPU_Host Point_Engine Query_Engine
begin

text \<open>
  The engine on the device (\<open>CUDAGPUEngine\<close> of \<open>compute_cuda.cuh\<close>): the page-ownership kernel for batches
  of point queries, scans of the resident column, counters and the scan benchmarks. As in the other
  kernels a schedule says which thread moves next. A thread reads a query and touches the slot of its
  key in one move: the slot is an aligned 64-bit word.
\<close>

section \<open>The page kernel\<close>

text \<open>
  A thread of a page: at the entry, at query \<open>j\<close> with its counts of reads and writes so far, before the
  addition to each of the two counters, and returned.
\<close>

datatype page_thread = PEnter | PLoop nat u32 u32 | PAddReads u32 u32 | PAddWrites u32 | PReturn

record page_grid =
  pg_store :: "u64 list"
  pg_reads :: u64
  pg_writes :: u64
  pg_thr :: "nat \<Rightarrow> nat \<Rightarrow> page_thread"

definition slot_of :: "database_query \<Rightarrow> nat" where
  "slot_of q = unat (query_id q AND MATRIX_STORE_MASK)"

definition matrix_page_kernel ::
  "nat \<Rightarrow> nat \<Rightarrow> database_query list \<Rightarrow> nat list \<Rightarrow> nat \<times> nat \<Rightarrow> page_grid \<Rightarrow> page_grid option" where
  "matrix_page_kernel B T binned offsets c s =
     (let b = fst c; t = snd c; put = (\<lambda>x s. s\<lparr>pg_thr := (pg_thr s)(b := (pg_thr s b)(t := x))\<rparr>) in
      if b < B \<and> t < T then
        (case pg_thr s b t of
           PEnter \<Rightarrow> if MATRIX_PAGE_COUNT \<le> b then Some (put PReturn s) else Some (put (PLoop (offsets ! b + t) 0 0) s)
         | PLoop j r w \<Rightarrow>
             if j < offsets ! Suc b then
               (let q = binned ! j; slot = slot_of q in
                if opcode q = OP_READ then Some (put (PLoop (j + T) (r + 1) w) s)
                else if opcode q = OP_WRITE
                then Some (put (PLoop (j + T) r (w + 1)) (s\<lparr>pg_store := (pg_store s)[slot := query_id q]\<rparr>))
                else Some (put (PLoop (j + T) r w) s))
             else Some (put (PAddReads r w) s)
         | PAddReads r w \<Rightarrow> Some (put (PAddWrites w) (if r \<noteq> 0 then s\<lparr>pg_reads := pg_reads s + ucast r\<rparr> else s))
         | PAddWrites w \<Rightarrow> Some (put PReturn (if w \<noteq> 0 then s\<lparr>pg_writes := pg_writes s + ucast w\<rparr> else s))
         | PReturn \<Rightarrow> None)
      else None)"

definition run_pages :: "nat \<Rightarrow> nat \<Rightarrow> database_query list \<Rightarrow> nat list \<Rightarrow> (nat \<times> nat) list \<Rightarrow> page_grid \<Rightarrow> page_grid" where
  "run_pages B T binned offsets sched s =
     fold (\<lambda>c s. case matrix_page_kernel B T binned offsets c s of None \<Rightarrow> s | Some s' \<Rightarrow> s') sched s"

definition pages_done :: "nat \<Rightarrow> nat \<Rightarrow> page_grid \<Rightarrow> bool" where
  "pages_done B T s = list_all (\<lambda>b. list_all (\<lambda>t. pg_thr s b t = PReturn) [0..<T]) [0..<B]"

section \<open>The engine\<close>

text \<open>
  The state of the engine; the device buffer of the binned queries and of the offsets are read only up to
  what the batch at hand has copied there, so they are arguments of the kernel. Wall-clock times are left out.
\<close>

record cuda_engine =
  cg_store :: "u64 list"
  cg_reads :: u64
  cg_writes :: u64
  cg_scan_col :: "u32 list"
  cg_h_binned :: "database_query list"
  cg_offsets :: "nat list"
  cg_scans :: u64
  cg_scan_result_sum :: u64

text \<open>\<open>device_count\<close> is what \<open>cudaGetDeviceCount\<close> reports, \<open>None\<close> if it fails.\<close>

definition cuda_engine_init :: "cuda \<Rightarrow> nat option \<Rightarrow> cuda_engine option" where
  "cuda_engine_init cu device_count =
     (case device_count of
        None \<Rightarrow> None
      | Some n \<Rightarrow>
          if n = 0 then None
          else if \<not> list_all (cu_alloc cu)
              [65536 * 8, MATRIX_BATCH_MAX * 128, (MATRIX_PAGE_COUNT + 1) * 4, 8, 8, MATRIX_SCAN_COLUMN_SIZE * 4, 8] then None
          else Some \<lparr>cg_store = replicate (unat MATRIX_STORE_SLOTS) 0, cg_reads = 0, cg_writes = 0,
                     cg_scan_col = map of_nat [0..<MATRIX_SCAN_COLUMN_SIZE],
                     cg_h_binned = replicate MATRIX_BATCH_MAX zero_query,
                     cg_offsets = replicate (MATRIX_PAGE_COUNT + 1) 0, cg_scans = 0, cg_scan_result_sum = 0\<rparr>)"

definition gpu_execute_batch :: "cuda \<Rightarrow> database_query list \<Rightarrow> cuda_engine \<Rightarrow> cuda_engine option" where
  "gpu_execute_batch cu batch e =
     (if batch = [] then Some e
      else
        (let batch = take MATRIX_BATCH_MAX batch;
             (h_binned, offsets) = matrix_bin_by_page batch (cg_h_binned e);
             d_binned = take (length batch) h_binned; TPB = 128;
             s = run_pages MATRIX_PAGE_COUNT TPB d_binned offsets (cu_sched cu)
               \<lparr>pg_store = cg_store e, pg_reads = cg_reads e, pg_writes = cg_writes e, pg_thr = (\<lambda>_ _. PEnter)\<rparr> in
         if pages_done MATRIX_PAGE_COUNT TPB s
         then Some (e\<lparr>cg_store := pg_store s, cg_reads := pg_reads s, cg_writes := pg_writes s,
                      cg_h_binned := h_binned, cg_offsets := offsets\<rparr>)
         else None))"

definition gpu_execute_scan :: "cuda \<Rightarrow> database_query \<Rightarrow> cuda_engine \<Rightarrow> (database_query \<times> cuda_engine) option" where
  "gpu_execute_scan cu q e =
     (let threshold = matrix_get_scan_threshold q; op = matrix_get_scan_agg_op q;
          col = cg_scan_col e; n = MATRIX_SCAN_COLUMN_SIZE; SCAN_TPB = 256; blocks = 1024 in
      map_option (\<lambda>c. (q\<lparr>transaction_id := c\<rparr>,
                       e\<lparr>cg_scans := cg_scans e + 1, cg_scan_result_sum := cg_scan_result_sum e + c\<rparr>))
        (if op = AGG_SUM then
           launch blocks SCAN_TPB (matrix_sum_kernel_u32 col n threshold) (cu_shared cu) (cu_sched cu) (memset_u64 0)
         else if op = AGG_MIN then
           launch blocks SCAN_TPB (matrix_min_kernel_u32 col n threshold) (cu_shared cu) (cu_sched cu) (memset_u64 0xFF)
         else if op = AGG_MAX then
           launch blocks SCAN_TPB (matrix_max_kernel_u32 col n threshold) (cu_shared cu) (cu_sched cu) (memset_u64 0)
         else
           launch blocks SCAN_TPB (matrix_scan_kernel_u32x4 (as_uint4 col) (n div 4) threshold)
             (cu_shared cu) (cu_sched cu) (memset_u64 0)))"

definition gpu_reads :: "cuda_engine \<Rightarrow> u64" where "gpu_reads e = cg_reads e"
definition gpu_writes :: "cuda_engine \<Rightarrow> u64" where "gpu_writes e = cg_writes e"
definition gpu_commits :: "cuda_engine \<Rightarrow> u64" where "gpu_commits e = cg_writes e"
definition gpu_scans :: "cuda_engine \<Rightarrow> u64" where "gpu_scans e = cg_scans e"
definition gpu_scan_result_sum :: "cuda_engine \<Rightarrow> u64" where "gpu_scan_result_sum e = cg_scan_result_sum e"

definition gpu_store_checksum :: "cuda_engine \<Rightarrow> u64" where
  "gpu_store_checksum e = fold (\<lambda>v sum. sum + v) (cg_store e) 0"

section \<open>Scan benchmarks\<close>

text \<open>
  The harness fills a column with \<open>0, 1, 2, \<dots>\<close>, launches the kernel it is given and reports the count (and
  the time, left out).
\<close>

definition timed_scan ::
  "cuda \<Rightarrow> nat \<Rightarrow> nat \<Rightarrow> ('t::len word list \<Rightarrow> nat \<Rightarrow> 't word \<Rightarrow> u64 reduce_kernel) \<Rightarrow> 't word \<Rightarrow> u64 option" where
  "timed_scan cu sizeof_t n scan threshold =
     (let d_data = map of_nat [0..<n]; TPB = 256; blocks = 1024 in
      if \<not> cu_alloc cu (n * sizeof_t) then None
      else if \<not> cu_alloc cu 8 then None
      else launch blocks TPB (scan d_data n threshold) (cu_shared cu) (cu_sched cu) (memset_u64 0))"

definition gpu_benchmark_scan :: "cuda \<Rightarrow> nat \<Rightarrow> u64 \<Rightarrow> u64 option" where
  "gpu_benchmark_scan cu n threshold = timed_scan cu 8 n (\<lambda>d nn thr. matrix_scan_kernel d nn thr) threshold"

definition gpu_benchmark_scan_u32 :: "cuda \<Rightarrow> nat \<Rightarrow> u32 \<Rightarrow> u64 option" where
  "gpu_benchmark_scan_u32 cu n threshold = timed_scan cu 4 n (\<lambda>d nn thr. matrix_scan_kernel_u32 d nn thr) threshold"

definition gpu_benchmark_scan_u32x4 :: "cuda \<Rightarrow> nat \<Rightarrow> u32 \<Rightarrow> u64 option" where
  "gpu_benchmark_scan_u32x4 cu n threshold =
     timed_scan cu 4 n (\<lambda>d nn thr. matrix_scan_kernel_u32x4 (as_uint4 d) (nn div 4) thr) threshold"

definition gpu_benchmark_scan_ipt :: "cuda \<Rightarrow> nat \<Rightarrow> u32 \<Rightarrow> u64 option" where
  "gpu_benchmark_scan_ipt cu n threshold = timed_scan cu 4 n (\<lambda>d nn thr. matrix_scan_kernel_ipt 8 d nn thr) threshold"

text \<open>The benchmarks of the CPU engine.\<close>

definition benchmark_scan :: "nat \<Rightarrow> u64 \<Rightarrow> u64" where
  "benchmark_scan n threshold =
     (let data = map of_nat [0..<n] :: u64 list in fold (\<lambda>i count. count + (if threshold < data ! i then 1 else 0)) [0..<n] 0)"

definition benchmark_scan_u32 :: "nat \<Rightarrow> u32 \<Rightarrow> u64" where
  "benchmark_scan_u32 n threshold =
     (let data = map of_nat [0..<n] :: u32 list in fold (\<lambda>i count. count + (if threshold < data ! i then 1 else 0)) [0..<n] 0)"

definition benchmark_scan_u32x4 :: "nat \<Rightarrow> u32 \<Rightarrow> u64" where
  "benchmark_scan_u32x4 n threshold = benchmark_scan_u32 n threshold"

definition benchmark_scan_ipt :: "nat \<Rightarrow> u32 \<Rightarrow> u64" where
  "benchmark_scan_ipt n threshold = benchmark_scan_u32 n threshold"

section \<open>The page kernel runs the queries in some order\<close>

definition gpu_apply :: "database_query \<Rightarrow> u64 list \<Rightarrow> u64 list" where
  "gpu_apply q store = (if opcode q = OP_WRITE then store[slot_of q := query_id q] else store)"

text \<open>What a thread has still to run, and what it has counted and not yet published.\<close>

fun rows_left :: "nat list \<Rightarrow> nat \<Rightarrow> nat \<times> nat \<Rightarrow> page_thread \<Rightarrow> nat list" where
  "rows_left off T (b, t) PEnter = strided (off ! b + t) T (off ! Suc b)"
| "rows_left off T (b, t) (PLoop j r w) = strided j T (off ! Suc b)"
| "rows_left off T (b, t) _ = []"

fun held_reads :: "page_thread \<Rightarrow> u64" where
  "held_reads (PLoop j r w) = ucast r"
| "held_reads (PAddReads r w) = ucast r"
| "held_reads _ = 0"

fun held_writes :: "page_thread \<Rightarrow> u64" where
  "held_writes (PLoop j r w) = ucast w"
| "held_writes (PAddReads r w) = ucast w"
| "held_writes (PAddWrites w) = ucast w"
| "held_writes _ = 0"

fun small_counts :: "page_thread \<Rightarrow> bool" where
  "small_counts (PLoop j r w) = (unat r \<le> j \<and> unat w \<le> j)"
| "small_counts _ = True"

abbreviation threads :: "nat \<Rightarrow> nat \<Rightarrow> (nat \<times> nat) set" where
  "threads B T \<equiv> {..<B} \<times> {..<T}"

definition page_inv :: "nat \<Rightarrow> nat \<Rightarrow> database_query list \<Rightarrow> nat list \<Rightarrow> page_grid \<Rightarrow> page_grid \<Rightarrow> nat list \<Rightarrow> bool" where
  "page_inv B T binned off s0 s rows \<longleftrightarrow>
     (let qs = map ((!) binned) rows in
      mset rows + (\<Sum>c \<in> threads B T. mset (rows_left off T c (pg_thr s (fst c) (snd c)))) = mset [0..<length binned] \<and>
      pg_store s = fold gpu_apply qs (pg_store s0) \<and>
      pg_reads s + (\<Sum>c \<in> threads B T. held_reads (pg_thr s (fst c) (snd c))) =
        pg_reads s0 + of_nat (length (filter (\<lambda>q. opcode q = OP_READ) qs)) \<and>
      pg_writes s + (\<Sum>c \<in> threads B T. held_writes (pg_thr s (fst c) (snd c))) =
        pg_writes s0 + of_nat (length (filter (\<lambda>q. opcode q = OP_WRITE) qs)) \<and>
      (\<forall>c \<in> threads B T. small_counts (pg_thr s (fst c) (snd c))))"

lemma sum_one_changed:
  fixes f f' :: "'c \<Rightarrow> 'a::comm_monoid_add"
  assumes "finite A" "c \<in> A" "\<And>d. d \<in> A \<Longrightarrow> d \<noteq> c \<Longrightarrow> f' d = f d"
  shows "sum f' A + f c = sum f A + f' c"
proof -
  have "sum f' (A - {c}) = sum f (A - {c})" using assms(3) by (intro sum.cong) auto
  then show ?thesis using sum.remove [OF assms(1,2), of f] sum.remove [OF assms(1,2), of f'] by (simp add: ac_simps)
qed

lemma counter_moved:
  fixes R :: "'a::ab_group_add"
  assumes "R + S = R0 + k" "S' + h = S + h'" "R' + h' = R + h + m"
  shows "R' + S' = R0 + (k + m)"
proof -
  have "R' + S' = (R' + h') + (S' + h) - h' - h" by (simp add: algebra_simps)
  also have "\<dots> = R + S + m" unfolding assms(2,3) by (simp add: algebra_simps)
  finally show ?thesis unfolding assms(1) by (simp add: ac_simps)
qed

lemma page_inv_move:
  assumes inv: "page_inv B T binned off s0 s rows" and c: "b < B" "t < T"
    and thr: "\<And>d. d \<in> threads B T \<Longrightarrow> d \<noteq> (b, t) \<Longrightarrow> pg_thr s' (fst d) (snd d) = pg_thr s (fst d) (snd d)"
    and run: "mset (rows_left off T (b, t) (pg_thr s b t)) = mset new + mset (rows_left off T (b, t) (pg_thr s' b t))"
    and store: "pg_store s' = fold gpu_apply (map ((!) binned) new) (pg_store s)"
    and reads: "pg_reads s' + held_reads (pg_thr s' b t) =
      pg_reads s + held_reads (pg_thr s b t) + of_nat (length (filter (\<lambda>q. opcode q = OP_READ) (map ((!) binned) new)))"
    and writes: "pg_writes s' + held_writes (pg_thr s' b t) =
      pg_writes s + held_writes (pg_thr s b t) + of_nat (length (filter (\<lambda>q. opcode q = OP_WRITE) (map ((!) binned) new)))"
    and small: "small_counts (pg_thr s' b t)"
  shows "page_inv B T binned off s0 s' (rows @ new)"
proof -
  have A: "finite (threads B T)" "(b, t) \<in> threads B T" using c by auto
  note upd = sum_one_changed [OF A]
  have "(\<Sum>c \<in> threads B T. mset (rows_left off T c (pg_thr s' (fst c) (snd c)))) + mset (rows_left off T (b, t) (pg_thr s b t)) =
      (\<Sum>c \<in> threads B T. mset (rows_left off T c (pg_thr s (fst c) (snd c)))) + mset (rows_left off T (b, t) (pg_thr s' b t))"
    using upd [of "\<lambda>c. mset (rows_left off T c (pg_thr s' (fst c) (snd c)))" "\<lambda>c. mset (rows_left off T c (pg_thr s (fst c) (snd c)))"]
      thr by simp
  then have 1: "(\<Sum>c \<in> threads B T. mset (rows_left off T c (pg_thr s' (fst c) (snd c)))) + mset new =
      (\<Sum>c \<in> threads B T. mset (rows_left off T c (pg_thr s (fst c) (snd c))))"
    unfolding run by simp
  have 2: "(\<Sum>c \<in> threads B T. held_reads (pg_thr s' (fst c) (snd c))) + held_reads (pg_thr s b t) =
      (\<Sum>c \<in> threads B T. held_reads (pg_thr s (fst c) (snd c))) + held_reads (pg_thr s' b t)"
    using upd [of "\<lambda>c. held_reads (pg_thr s' (fst c) (snd c))" "\<lambda>c. held_reads (pg_thr s (fst c) (snd c))"] thr by simp
  have 3: "(\<Sum>c \<in> threads B T. held_writes (pg_thr s' (fst c) (snd c))) + held_writes (pg_thr s b t) =
      (\<Sum>c \<in> threads B T. held_writes (pg_thr s (fst c) (snd c))) + held_writes (pg_thr s' b t)"
    using upd [of "\<lambda>c. held_writes (pg_thr s' (fst c) (snd c))" "\<lambda>c. held_writes (pg_thr s (fst c) (snd c))"] thr by simp
  have 4: "small_counts (pg_thr s' (fst d) (snd d))" if "d \<in> threads B T" for d
    using inv thr [OF that] small that by (cases "d = (b, t)") (auto simp: page_inv_def Let_def)
  show ?thesis
    unfolding page_inv_def Let_def
  proof (intro conjI ballI 4)
    show "mset (rows @ new) + (\<Sum>c \<in> threads B T. mset (rows_left off T c (pg_thr s' (fst c) (snd c)))) = mset [0..<length binned]"
      using inv unfolding page_inv_def Let_def 1 [symmetric] by (simp only: mset_append ac_simps)
    show "pg_store s' = fold gpu_apply (map ((!) binned) (rows @ new)) (pg_store s0)"
      using inv store by (simp add: page_inv_def Let_def)
    have r: "pg_reads s + (\<Sum>c \<in> threads B T. held_reads (pg_thr s (fst c) (snd c))) =
        pg_reads s0 + of_nat (length (filter (\<lambda>q. opcode q = OP_READ) (map ((!) binned) rows)))"
      and w: "pg_writes s + (\<Sum>c \<in> threads B T. held_writes (pg_thr s (fst c) (snd c))) =
        pg_writes s0 + of_nat (length (filter (\<lambda>q. opcode q = OP_WRITE) (map ((!) binned) rows)))"
      using inv by (simp_all add: page_inv_def Let_def)
    show "pg_reads s' + (\<Sum>c \<in> threads B T. held_reads (pg_thr s' (fst c) (snd c))) =
        pg_reads s0 + of_nat (length (filter (\<lambda>q. opcode q = OP_READ) (map ((!) binned) (rows @ new))))"
      using counter_moved [OF r 2 reads] by simp
    show "pg_writes s' + (\<Sum>c \<in> threads B T. held_writes (pg_thr s' (fst c) (snd c))) =
        pg_writes s0 + of_nat (length (filter (\<lambda>q. opcode q = OP_WRITE) (map ((!) binned) (rows @ new))))"
      using counter_moved [OF w 3 writes] by simp
  qed
qed

lemma ucast_Suc:
  fixes r :: u32
  assumes "unat r < 2 ^ 32 - 1"
  shows "ucast (r + 1) = (ucast r + 1 :: u64)" "unat (r + 1) = Suc (unat r)"
proof -
  show s: "unat (r + 1) = Suc (unat r)" using assms by (simp add: unat_plus_if' unat_word_ariths)
  have "unat (ucast (r + 1) :: u64) = Suc (unat r)" using s assms by (simp add: unsigned_ucast_eq take_bit_nat_eq_self)
  moreover have "unat (ucast r + 1 :: u64) = Suc (unat r)"
    using assms by (simp add: unsigned_ucast_eq take_bit_nat_eq_self unat_plus_if' unat_word_ariths)
  ultimately show "ucast (r + 1) = (ucast r + 1 :: u64)" by (simp add: word_unat_eq_iff)
qed

lemma page_inv_step:
  assumes "B \<le> MATRIX_PAGE_COUNT" and off: "\<And>b. b < B \<Longrightarrow> off ! Suc b < 2 ^ 32"
    and inv: "page_inv B T binned off s0 s rows" and step: "matrix_page_kernel B T binned off (b, t) s = Some s'"
  shows "\<exists>rows'. page_inv B T binned off s0 s' rows'"
proof -
  have c: "b < B" "t < T" using step by (auto simp: matrix_page_kernel_def Let_def split: if_splits)
  have thr: "pg_thr s' (fst d) (snd d) = pg_thr s (fst d) (snd d)" if "d \<noteq> (b, t)" for d
    using step that by (cases d) (auto simp: matrix_page_kernel_def Let_def split: if_splits page_thread.splits)
  have small: "small_counts (pg_thr s b t)" using inv c by (auto simp: page_inv_def Let_def)
  note move = page_inv_move [OF inv c thr]
  show ?thesis
  proof (cases "pg_thr s b t")
    case PEnter
    then show ?thesis
      using step c assms(1) by (intro exI [of _ "rows @ []"] move) (auto simp: matrix_page_kernel_def Let_def)
  next
    case (PLoop j r w)
    show ?thesis
    proof (cases "j < off ! Suc b")
      case True
      have split: "strided j T (off ! Suc b) = j # strided (j + T) T (off ! Suc b)"
        using True c by (subst strided.simps) auto
      have ops: "OP_READ \<noteq> OP_WRITE" by (simp add: OP_READ_def OP_WRITE_def)
      have u: "unat r < 2 ^ 32 - 1" "unat w < 2 ^ 32 - 1" "unat r \<le> j" "unat w \<le> j"
        using small PLoop True off [OF c(1)] by auto
      show ?thesis
        using step c True PLoop u ucast_Suc [OF u(1)] ucast_Suc [OF u(2)]
        by (intro exI [of _ "rows @ [j]"] move)
          (auto simp: matrix_page_kernel_def Let_def split gpu_apply_def ops ac_simps split: if_splits)
    next
      case False
      then have "strided j T (off ! Suc b) = []" by (simp add: strided.simps)
      then show ?thesis
        using step c False PLoop by (intro exI [of _ "rows @ []"] move) (auto simp: matrix_page_kernel_def Let_def)
    qed
  next
    case (PAddReads r w)
    then show ?thesis
      using step c by (intro exI [of _ "rows @ []"] move) (auto simp: matrix_page_kernel_def Let_def)
  next
    case (PAddWrites w)
    then show ?thesis
      using step c by (intro exI [of _ "rows @ []"] move) (auto simp: matrix_page_kernel_def Let_def)
  next
    case PReturn
    then show ?thesis using step c by (simp add: matrix_page_kernel_def)
  qed
qed

lemma page_inv_run:
  assumes "B \<le> MATRIX_PAGE_COUNT" "\<And>b. b < B \<Longrightarrow> off ! Suc b < 2 ^ 32" "page_inv B T binned off s0 s rows"
  shows "\<exists>rows'. page_inv B T binned off s0 (run_pages B T binned off sched s) rows'"
  using assms(3)
proof (induction sched arbitrary: s rows)
  case Nil
  then show ?case by (auto simp: run_pages_def)
next
  case (Cons c sched)
  have "\<exists>rows'. page_inv B T binned off s0 (case matrix_page_kernel B T binned off c s of None \<Rightarrow> s | Some s' \<Rightarrow> s') rows'"
    using Cons.prems page_inv_step [OF assms(1,2) Cons.prems, of "fst c" "snd c"] by (auto split: option.split)
  with Cons.IH show ?case by (auto simp: run_pages_def)
qed

text \<open>At the start the threads of all pages have the whole batch left.\<close>

lemma strided_shift: "strided (a + i) s (a + n) = map ((+) a) (strided i s n)"
proof (induction i s n rule: strided.induct)
  case (1 i s n)
  then show ?case
    by (subst strided.simps, subst (2) strided.simps) (auto simp: add.assoc)
qed

lemma strided_cover:
  assumes "0 < T"
  shows "(\<Sum>t < T. mset (strided (a + t) T e)) = mset [a..<e]"
proof (cases "a \<le> e")
  case True
  then obtain n where e: "e = a + n" using le_Suc_ex by blast
  have "(\<Sum>t < m. mset (strided (a + t) T e)) = image_mset ((+) a) (\<Sum>t < m. mset (strided t T n))" for m
    unfolding e strided_shift by (induction m) simp_all
  then have "(\<Sum>t < T. mset (strided (a + t) T e)) = image_mset ((+) a) (\<Sum>t < T. mset (strided t T n))" .
  also have "(\<Sum>t < T. mset (strided t T n)) = mset (concat (map (\<lambda>g. strided g T n) [0..<T]))"
    by (simp add: mset_concat sum_list_sum_nth atLeast0LessThan comp_def)
  also have "\<dots> = mset [0..<n]" by (rule strided_partition [OF assms])
  also have "image_mset ((+) a) \<dots> = mset (map ((+) a) [0..<n])" by (simp only: mset_map)
  also have "map ((+) a) [0..<n] = [a..<e]" unfolding e by (rule nth_equalityI) simp_all
  finally show ?thesis .
next
  case False
  then show ?thesis by (simp add: strided.simps)
qed

lemma offsets_cover:
  assumes "\<And>b. b < P \<Longrightarrow> off ! b \<le> off ! Suc b" "off ! 0 = 0"
  shows "(\<Sum>b < P. mset [off ! b..<off ! Suc b]) = mset [0..<off ! P]"
  using assms
proof (induction P)
  case (Suc P)
  have "off ! P \<le> off ! Suc P" using Suc.prems by simp
  then have "[0..<off ! Suc P] = [0..<off ! P] @ [off ! P..<off ! Suc P]"
    using upt_add_eq_append [of 0 "off ! P" "off ! Suc P - off ! P"] by simp
  then show ?case using Suc by simp
qed simp

lemma page_inv_start:
  assumes "0 < T" "\<And>b. b < B \<Longrightarrow> off ! b \<le> off ! Suc b" "off ! 0 = 0" "off ! B = length binned"
    and "pg_thr s = (\<lambda>_ _. PEnter)"
  shows "page_inv B T binned off s s []"
proof -
  have "(\<Sum>c \<in> threads B T. mset (rows_left off T c PEnter)) = (\<Sum>b < B. \<Sum>t < T. mset (strided (off ! b + t) T (off ! Suc b)))"
    by (simp add: sum.cartesian_product split_def) (intro sum.cong, auto)
  also have "\<dots> = mset [0..<length binned]"
    using strided_cover [OF assms(1)] offsets_cover [of B off, OF assms(2,3)] assms(4) by simp
  finally show ?thesis using assms(5) by (simp add: page_inv_def Let_def)
qed

lemma pages_done_iff: "pages_done B T s \<longleftrightarrow> (\<forall>b < B. \<forall>t < T. pg_thr s b t = PReturn)"
  by (auto simp: pages_done_def list_all_iff)

lemma page_inv_done:
  assumes "page_inv B T binned off s0 s rows" "pages_done B T s"
  shows "mset rows = mset [0..<length binned]" "pg_store s = fold gpu_apply (map ((!) binned) rows) (pg_store s0)"
    "pg_reads s = pg_reads s0 + of_nat (length (filter (\<lambda>q. opcode q = OP_READ) (map ((!) binned) rows)))"
    "pg_writes s = pg_writes s0 + of_nat (length (filter (\<lambda>q. opcode q = OP_WRITE) (map ((!) binned) rows)))"
proof -
  have r: "pg_thr s (fst c) (snd c) = PReturn" if "c \<in> threads B T" for c using assms(2) that by (auto simp: pages_done_iff)
  have "rows_left off T c PReturn = []" for c by (cases c) simp
  with assms(1) r show "mset rows = mset [0..<length binned]" "pg_store s = fold gpu_apply (map ((!) binned) rows) (pg_store s0)"
    "pg_reads s = pg_reads s0 + of_nat (length (filter (\<lambda>q. opcode q = OP_READ) (map ((!) binned) rows)))"
    "pg_writes s = pg_writes s0 + of_nat (length (filter (\<lambda>q. opcode q = OP_WRITE) (map ((!) binned) rows)))"
    by (simp_all add: page_inv_def Let_def)
qed

section \<open>The page kernel completes\<close>

fun page_cost :: "nat list \<Rightarrow> nat \<times> nat \<Rightarrow> page_thread \<Rightarrow> nat" where
  "page_cost off (b, t) PEnter = off ! Suc b + 4"
| "page_cost off (b, t) (PLoop j r w) = (off ! Suc b - j) + 3"
| "page_cost off (b, t) (PAddReads r w) = 2"
| "page_cost off (b, t) (PAddWrites w) = 1"
| "page_cost off (b, t) PReturn = 0"

definition page_work :: "nat \<Rightarrow> nat \<Rightarrow> nat list \<Rightarrow> page_grid \<Rightarrow> nat" where
  "page_work B T off s = (\<Sum>c \<in> threads B T. page_cost off c (pg_thr s (fst c) (snd c)))"

lemma page_step_work:
  assumes "matrix_page_kernel B T binned off (b, t) s = Some s'"
  shows "page_work B T off s' < page_work B T off s"
proof -
  have c: "b < B" "t < T" using assms by (auto simp: matrix_page_kernel_def Let_def split: if_splits)
  have thr: "pg_thr s' (fst d) (snd d) = pg_thr s (fst d) (snd d)" if "d \<noteq> (b, t)" for d
    using assms that by (cases d) (auto simp: matrix_page_kernel_def Let_def split: if_splits page_thread.splits)
  have "page_cost off (b, t) (pg_thr s' b t) < page_cost off (b, t) (pg_thr s b t)"
    using assms c by (auto simp: matrix_page_kernel_def Let_def split: if_splits page_thread.splits)
  moreover have "page_work B T off s' + page_cost off (b, t) (pg_thr s b t) = page_work B T off s + page_cost off (b, t) (pg_thr s' b t)"
    using sum_one_changed [of "threads B T" "(b, t)" "\<lambda>c. page_cost off c (pg_thr s' (fst c) (snd c))"
        "\<lambda>c. page_cost off c (pg_thr s (fst c) (snd c))"] c thr by (simp add: page_work_def)
  ultimately show ?thesis by linarith
qed

lemma run_pages_completes: "\<exists>sched. pages_done B T (run_pages B T binned off sched s)"
proof (induction "page_work B T off s" arbitrary: s rule: less_induct)
  case less
  show ?case
  proof (cases "pages_done B T s")
    case True
    then show ?thesis by (auto simp: run_pages_def intro: exI [of _ "[]"])
  next
    case False
    then obtain b t where "b < B" "t < T" "pg_thr s b t \<noteq> PReturn" by (auto simp: pages_done_iff)
    then have "matrix_page_kernel B T binned off (b, t) s \<noteq> None"
      by (cases "pg_thr s b t") (simp_all add: matrix_page_kernel_def Let_def)
    then obtain s' where st: "matrix_page_kernel B T binned off (b, t) s = Some s'" by blast
    obtain sched where "pages_done B T (run_pages B T binned off sched s')"
      using less page_step_work [OF st] by blast
    then have "pages_done B T (run_pages B T binned off ((b, t) # sched) s)" using st by (simp add: run_pages_def)
    then show ?thesis by blast
  qed
qed

section \<open>Batches and scans of the engine\<close>

text \<open>
  The binned buffer holds 65536 queries throughout, so a clamped batch fits.
\<close>

definition cuda_engine_inv :: "cuda_engine \<Rightarrow> bool" where
  "cuda_engine_inv e \<longleftrightarrow> length (cg_h_binned e) = MATRIX_BATCH_MAX \<and> length (cg_store e) = unat MATRIX_STORE_SLOTS \<and>
     cg_scan_col e = map of_nat [0..<MATRIX_SCAN_COLUMN_SIZE]"

lemma length_fold_apply [simp]: "length (fold gpu_apply qs store) = length store"
  by (induction qs arbitrary: store) (simp_all add: gpu_apply_def)

lemma gpu_execute_batch_serial:
  assumes inv: "cuda_engine_inv e" and ex: "gpu_execute_batch cu batch e = Some e'"
  shows "\<exists>qs. mset qs = mset (take MATRIX_BATCH_MAX batch) \<and> cg_store e' = fold gpu_apply qs (cg_store e) \<and>
    cg_reads e' = cg_reads e + of_nat (length (filter (\<lambda>q. opcode q = OP_READ) qs)) \<and>
    cg_writes e' = cg_writes e + of_nat (length (filter (\<lambda>q. opcode q = OP_WRITE) qs)) \<and>
    cg_scan_col e' = cg_scan_col e \<and> length (cg_h_binned e') = length (cg_h_binned e)"
proof (cases "batch = []")
  case True
  then show ?thesis using ex by (simp add: gpu_execute_batch_def)
next
  case False
  let ?P = MATRIX_PAGE_COUNT
  define qs where "qs = take MATRIX_BATCH_MAX batch"
  obtain h off where bin: "matrix_bin_by_page qs (cg_h_binned e) = (h, off)" by fastforce
  define s0 where "s0 = \<lparr>pg_store = cg_store e, pg_reads = cg_reads e, pg_writes = cg_writes e, pg_thr = (\<lambda>_ _. PEnter)\<rparr>"
  define binned where "binned = take (length qs) h"
  define s where "s = run_pages ?P 128 binned off (cu_sched cu) s0"
  have dn: "pages_done ?P 128 s"
    and e': "e' = e\<lparr>cg_store := pg_store s, cg_reads := pg_reads s, cg_writes := pg_writes s, cg_h_binned := h, cg_offsets := off\<rparr>"
    using ex False bin
    by (auto simp: gpu_execute_batch_def Let_def s_def s0_def binned_def qs_def [symmetric] split: if_splits)
  have fits: "length qs \<le> length (cg_h_binned e)" "length qs \<le> 65536"
    using inv by (simp_all add: qs_def cuda_engine_inv_def MATRIX_BATCH_MAX_def)
  have b: "binned = concat (map (\<lambda>p. of_page query_page p qs) [0..<?P])" "length h = length (cg_h_binned e)"
    and off: "off = map (\<lambda>p. before_page query_page p qs) [0..<Suc ?P]"
    using matrix_bin_by_page_concat [OF fits(1)] bin by (simp_all add: binned_def)
  have offn: "off ! p = before_page query_page p qs" if "p \<le> ?P" for p
    using that by (simp add: off nth_append)
  have len: "off ! ?P = length binned" unfolding b(1) by (simp add: offn before_page_concat)
  have total: "length binned \<le> 65536" unfolding binned_def using fits(2) by simp
  have mono: "off ! p \<le> off ! Suc p" if "p < ?P" for p using that by (simp add: offn)
  have small: "off ! Suc p < 2 ^ 32" if "p < ?P" for p
  proof -
    have "off ! Suc p \<le> off ! ?P" using that before_page_mono [of "Suc p" ?P query_page qs] by (simp only: offn Suc_leI order_refl)
    then show ?thesis using len total by simp
  qed
  have "page_inv ?P 128 binned off s0 s0 []" using mono len by (intro page_inv_start) (simp_all add: offn s0_def)
  then obtain rows where "page_inv ?P 128 binned off s0 s rows"
    using page_inv_run [of ?P off, OF _ small] unfolding s_def by blast
  note D = page_inv_done [OF this dn]
  have "mset (map ((!) binned) rows) = mset (map ((!) binned) [0..<length binned])" using D(1) by (simp only: mset_map)
  also have "\<dots> = mset qs" unfolding map_nth b(1) by (rule pages_mset)
  finally show ?thesis
    using D(2-4) e' b(2) by (intro exI [of _ "map ((!) binned) rows"]) (simp add: s0_def qs_def)
qed

lemma gpu_execute_batch_extends: "\<exists>more e'. gpu_execute_batch (cu\<lparr>cu_sched := cu_sched cu @ more\<rparr>) batch e = Some e'"
proof -
  let ?qs = "take MATRIX_BATCH_MAX batch"
  let ?s0 = "\<lparr>pg_store = cg_store e, pg_reads = cg_reads e, pg_writes = cg_writes e, pg_thr = (\<lambda>_ _. PEnter)\<rparr>"
  obtain h off where bin: "matrix_bin_by_page ?qs (cg_h_binned e) = (h, off)" by fastforce
  let ?run = "run_pages MATRIX_PAGE_COUNT 128 (take (length ?qs) h) off"
  obtain more where "pages_done MATRIX_PAGE_COUNT 128 (?run more (?run (cu_sched cu) ?s0))"
    using run_pages_completes by blast
  then have "pages_done MATRIX_PAGE_COUNT 128 (?run (cu_sched cu @ more) ?s0)" by (simp add: run_pages_def)
  then show ?thesis using bin by (intro exI [of _ more]) (simp add: gpu_execute_batch_def Let_def)
qed

text \<open>A slot after the writes of a list of queries: one of the writers' keys, or what it held.\<close>

lemma fold_apply_slot:
  assumes "i < length store"
  shows "fold gpu_apply qs store ! i =
    (case filter (\<lambda>q. opcode q = OP_WRITE \<and> slot_of q = i) qs of [] \<Rightarrow> store ! i | ws \<Rightarrow> query_id (last ws))"
  using assms
proof (induction qs rule: rev_induct)
  case (snoc q qs)
  then show ?case by (auto simp: gpu_apply_def [of q] nth_list_update split: list.splits)
qed simp

lemma fold_apply_writer:
  assumes "i < length store"
  shows "if \<exists>q \<in> set qs. opcode q = OP_WRITE \<and> slot_of q = i
    then \<exists>q \<in> set qs. opcode q = OP_WRITE \<and> slot_of q = i \<and> fold gpu_apply qs store ! i = query_id q
    else fold gpu_apply qs store ! i = store ! i"
proof (cases "filter (\<lambda>q. opcode q = OP_WRITE \<and> slot_of q = i) qs")
  case Nil
  then show ?thesis using fold_apply_slot [OF assms, of qs] by (auto simp: filter_empty_conv)
next
  case (Cons w ws)
  define v where "v = last (w # ws)"
  have "v \<in> set (w # ws)" unfolding v_def by (rule last_in_set) simp
  then have "v \<in> set (filter (\<lambda>q. opcode q = OP_WRITE \<and> slot_of q = i) qs)" by (simp only: Cons)
  then have v: "v \<in> set qs" "opcode v = OP_WRITE" "slot_of v = i" by simp_all
  have "fold gpu_apply qs store ! i = query_id v" using fold_apply_slot [OF assms, of qs] by (simp only: Cons v_def list.case)
  with v show ?thesis by auto
qed

text \<open>No two writes of different keys share a slot.\<close>

definition collision_free :: "database_query list \<Rightarrow> bool" where
  "collision_free qs = list_all (\<lambda>q. list_all (\<lambda>r. opcode q = OP_WRITE \<and> opcode r = OP_WRITE \<and> slot_of q = slot_of r \<longrightarrow>
     query_id q = query_id r) qs) qs"

lemma collision_freeD:
  "collision_free qs \<Longrightarrow> q \<in> set qs \<Longrightarrow> r \<in> set qs \<Longrightarrow> opcode q = OP_WRITE \<Longrightarrow> opcode r = OP_WRITE \<Longrightarrow>
    slot_of q = slot_of r \<Longrightarrow> query_id q = query_id r"
  unfolding collision_free_def list_all_iff by blast

lemma fold_apply_order:
  assumes "mset qs = mset rs" "collision_free rs"
  shows "fold gpu_apply qs store = fold gpu_apply rs store"
proof (rule nth_equalityI)
  fix i assume "i < length (fold gpu_apply qs store)"
  then have i: "i < length store" by simp
  have eq: "set qs = set rs" using assms(1) by (metis set_mset_mset)
  show "fold gpu_apply qs store ! i = fold gpu_apply rs store ! i"
  proof (cases "\<exists>q \<in> set rs. opcode q = OP_WRITE \<and> slot_of q = i")
    case True
    then obtain q r where "q \<in> set rs" "opcode q = OP_WRITE" "slot_of q = i" "fold gpu_apply qs store ! i = query_id q"
      "r \<in> set rs" "opcode r = OP_WRITE" "slot_of r = i" "fold gpu_apply rs store ! i = query_id r"
      using fold_apply_writer [OF i, of qs] fold_apply_writer [OF i, of rs] eq by auto
    then show ?thesis using collision_freeD [OF assms(2), of q r] by simp
  next
    case False
    then show ?thesis using fold_apply_writer [OF i, of qs] fold_apply_writer [OF i, of rs] eq by simp
  qed
qed simp

lemma length_filter_mset: "mset xs = mset ys \<Longrightarrow> length (filter P xs) = length (filter P ys)"
  by (metis mset_filter size_mset)

lemma fold_count_above: "fold (\<lambda>i c. c + (if t < d ! i then 1 else 0)) [0..<length d] 0 = count_above t d"
proof -
  have "fold (\<lambda>v c. c + (if t < v then 1 else 0)) vs c = c + count_above t vs" for vs c
    by (induction vs arbitrary: c) (simp_all add: count_above_def)
  from this [of "map ((!) d) [0..<length d]" 0] show ?thesis unfolding fold_map comp_def by (simp add: map_nth)
qed

lemma gpu_scan_value:
  assumes "length d = MATRIX_SCAN_COLUMN_SIZE" "cg_scan_col e = d" "gpu_execute_scan cu q e = Some (q', e')"
  shows "\<exists>c. c = matrix_cpu_reduce d MATRIX_SCAN_COLUMN_SIZE (matrix_get_scan_threshold q) (matrix_get_scan_agg_op q) \<and>
    q' = q\<lparr>transaction_id := c\<rparr> \<and> e' = e\<lparr>cg_scans := cg_scans e + 1, cg_scan_result_sum := cg_scan_result_sum e + c\<rparr>"
proof -
  let ?n = MATRIX_SCAN_COLUMN_SIZE and ?t = "matrix_get_scan_threshold q" and ?op = "matrix_get_scan_agg_op q"
  have dvd: "4 dvd length d" unfolding assms(1) MATRIX_SCAN_COLUMN_SIZE_def by (simp add: power_add [of 2 2 22, simplified])
  consider "?op = AGG_SUM" | "?op = AGG_MIN" | "?op = AGG_MAX" | "?op \<notin> {AGG_SUM, AGG_MIN, AGG_MAX}" by blast
  then show ?thesis
  proof cases
    case 4
    then have "matrix_cpu_reduce d ?n ?t ?op = count_above ?t d"
      using fold_count_above [of ?t d] by (simp add: matrix_cpu_reduce_def assms(1))
    then show ?thesis
      using 4 assms(2,3) scan_kernel_u32x4 [OF pos_grid dvd, of ?t "cu_shared cu" "cu_sched cu"]
      by (auto simp: gpu_execute_scan_def Let_def assms(1))
  qed (use assms(2,3) threshold_u32_kernels(2-4) [OF pos_grid, of d ?n ?t "cu_shared cu" "cu_sched cu"] in
      \<open>auto simp: gpu_execute_scan_def Let_def\<close>)
qed

lemma gpu_scan_extends: "\<exists>more r. gpu_execute_scan (cu\<lparr>cu_sched := cu_sched cu @ more\<rparr>) q e = Some r"
proof -
  let ?n = MATRIX_SCAN_COLUMN_SIZE and ?t = "matrix_get_scan_threshold q" and ?d = "cg_scan_col e"
  have items: "0 < rk_items (matrix_sum_kernel_u32 ?d ?n ?t)" "0 < rk_items (matrix_min_kernel_u32 ?d ?n ?t)"
    "0 < rk_items (matrix_max_kernel_u32 ?d ?n ?t)" "0 < rk_items (matrix_scan_kernel_u32x4 (as_uint4 ?d) (?n div 4) ?t)"
    by (simp_all add: matrix_sum_kernel_u32_def matrix_min_kernel_u32_def matrix_max_kernel_u32_def matrix_scan_kernel_u32x4_def)
  note x = items [THEN launch_extends, of 1024 256 "cu_shared cu" "cu_sched cu"]
  show ?thesis
    using x(1) [of "memset_u64 0"] x(2) [of "memset_u64 0xFF"] x(3,4) [of "memset_u64 0"]
    by (cases "matrix_get_scan_agg_op q = AGG_SUM"; cases "matrix_get_scan_agg_op q = AGG_MIN";
        cases "matrix_get_scan_agg_op q = AGG_MAX") (simp_all add: gpu_execute_scan_def Let_def)
qed

lemma timed_scan_result:
  fixes threshold :: "'t::len word"
  assumes "timed_scan cu sz n scan threshold = Some r"
    and "\<And>d junk sched. length d = n \<Longrightarrow> launch 1024 256 (scan d n threshold) junk sched 0 = Some r \<Longrightarrow> r = count_above threshold d"
  shows "r = fold (\<lambda>i count. count + (if threshold < map of_nat [0..<n] ! i then 1 else 0)) [0..<n] 0"
  using assms fold_count_above [of threshold "map of_nat [0..<n]"]
  by (auto simp: timed_scan_def Let_def simp del: nth_map split: if_splits)

section \<open>Properties\<close>

text \<open>
  C16. A batch on the device is serialisable. For every schedule under which the page kernel completes, the
  engine has run the first 65536 queries of the batch: the counters grow by exactly the number of reads and
  writes; a slot that no query writes keeps its value and any other holds the key of one of its
  writers; and when no two different keys share a slot, the store is the one that running the
  batch in order gives, although threads of a page race. Every schedule can be continued to a complete one.
\<close>

theorem gpu_batch_serialisable:
  assumes inv: "cuda_engine_inv e"
  shows "(\<forall>e'. gpu_execute_batch cu batch e = Some e' \<longrightarrow>
      (let qs = take MATRIX_BATCH_MAX batch in
       cuda_engine_inv e' \<and>
       gpu_reads e' = gpu_reads e + of_nat (length (filter (\<lambda>q. opcode q = OP_READ) qs)) \<and>
       gpu_writes e' = gpu_writes e + of_nat (length (filter (\<lambda>q. opcode q = OP_WRITE) qs)) \<and>
       (\<forall>i < unat MATRIX_STORE_SLOTS.
          if \<exists>q \<in> set qs. opcode q = OP_WRITE \<and> slot_of q = i
          then \<exists>q \<in> set qs. opcode q = OP_WRITE \<and> slot_of q = i \<and> cg_store e' ! i = query_id q
          else cg_store e' ! i = cg_store e ! i) \<and>
       (collision_free qs \<longrightarrow> cg_store e' = fold gpu_apply qs (cg_store e)))) \<and>
    (\<exists>more e'. gpu_execute_batch (cu\<lparr>cu_sched := cu_sched cu @ more\<rparr>) batch e = Some e')"
proof (intro conjI allI impI)
  fix e' assume "gpu_execute_batch cu batch e = Some e'"
  from gpu_execute_batch_serial [OF inv this]
  obtain ps where ps: "mset ps = mset (take MATRIX_BATCH_MAX batch)" "cg_store e' = fold gpu_apply ps (cg_store e)"
    "cg_reads e' = cg_reads e + of_nat (length (filter (\<lambda>q. opcode q = OP_READ) ps))"
    "cg_writes e' = cg_writes e + of_nat (length (filter (\<lambda>q. opcode q = OP_WRITE) ps))"
    "cg_scan_col e' = cg_scan_col e" "length (cg_h_binned e') = length (cg_h_binned e)" by blast
  define qs where "qs = take MATRIX_BATCH_MAX batch"
  have eq: "set ps = set qs" using ps(1) by (metis qs_def set_mset_mset)
  have len: "unat MATRIX_STORE_SLOTS = length (cg_store e)" using inv by (simp add: cuda_engine_inv_def)
  show "let qs = take MATRIX_BATCH_MAX batch in
       cuda_engine_inv e' \<and>
       gpu_reads e' = gpu_reads e + of_nat (length (filter (\<lambda>q. opcode q = OP_READ) qs)) \<and>
       gpu_writes e' = gpu_writes e + of_nat (length (filter (\<lambda>q. opcode q = OP_WRITE) qs)) \<and>
       (\<forall>i < unat MATRIX_STORE_SLOTS.
          if \<exists>q \<in> set qs. opcode q = OP_WRITE \<and> slot_of q = i
          then \<exists>q \<in> set qs. opcode q = OP_WRITE \<and> slot_of q = i \<and> cg_store e' ! i = query_id q
          else cg_store e' ! i = cg_store e ! i) \<and>
       (collision_free qs \<longrightarrow> cg_store e' = fold gpu_apply qs (cg_store e))"
    unfolding Let_def qs_def [symmetric]
  proof (intro conjI allI impI)
    show "cuda_engine_inv e'" using inv ps(2,5,6) by (simp add: cuda_engine_inv_def)
    show "gpu_reads e' = gpu_reads e + of_nat (length (filter (\<lambda>q. opcode q = OP_READ) qs))"
      "gpu_writes e' = gpu_writes e + of_nat (length (filter (\<lambda>q. opcode q = OP_WRITE) qs))"
      using ps(3,4) by (simp_all only: gpu_reads_def gpu_writes_def qs_def length_filter_mset [OF ps(1)])
    show "if \<exists>q \<in> set qs. opcode q = OP_WRITE \<and> slot_of q = i
        then \<exists>q \<in> set qs. opcode q = OP_WRITE \<and> slot_of q = i \<and> cg_store e' ! i = query_id q
        else cg_store e' ! i = cg_store e ! i" if "i < unat MATRIX_STORE_SLOTS" for i
      unfolding ps(2) eq [symmetric] by (rule fold_apply_writer [OF that [unfolded len]])
    show "cg_store e' = fold gpu_apply qs (cg_store e)" if "collision_free qs"
      unfolding ps(2) using ps(1) that by (intro fold_apply_order) (simp_all only: qs_def)
  qed
qed (rule gpu_execute_batch_extends)

theorem gpu_batch_serialisable_witness:
  "\<exists>e sched e'. cuda_engine_init \<lparr>cu_alloc = (\<lambda>_. True), cu_arch600 = True, cu_shared = (\<lambda>_. 9), cu_sched = []\<rparr> (Some 1) = Some e \<and>
     gpu_execute_batch \<lparr>cu_alloc = (\<lambda>_. True), cu_arch600 = True, cu_shared = (\<lambda>_. 9), cu_sched = sched\<rparr>
       [zero_query\<lparr>query_id := 7, opcode := OP_WRITE\<rparr>, zero_query\<lparr>query_id := 7, opcode := OP_READ\<rparr>] e = Some e' \<and>
     gpu_reads e' = 1 \<and> gpu_writes e' = 1 \<and> cg_store e' ! 7 = 7"
proof -
  let ?cu = "\<lambda>sched. \<lparr>cu_alloc = (\<lambda>_. True), cu_arch600 = True, cu_shared = (\<lambda>_. 9), cu_sched = sched\<rparr>"
  let ?w = "zero_query\<lparr>query_id := 7, opcode := OP_WRITE\<rparr>" and ?r = "zero_query\<lparr>query_id := 7, opcode := OP_READ\<rparr>"
  obtain e where e: "cuda_engine_init (?cu []) (Some 1) = Some e" by (simp add: cuda_engine_init_def)
  then have inv: "cuda_engine_inv e" and z: "cg_reads e = 0" "cg_writes e = 0" "cg_store e = replicate (unat MATRIX_STORE_SLOTS) 0"
    by (auto simp: cuda_engine_init_def cuda_engine_inv_def split: if_splits)
  have tk: "take MATRIX_BATCH_MAX [?w, ?r] = [?w, ?r]" by (simp add: MATRIX_BATCH_MAX_def)
  have slot: "slot_of ?w = 7" "slot_of ?r = 7" "(7 :: nat) < unat MATRIX_STORE_SLOTS"
    by (simp_all add: slot_of_def MATRIX_STORE_MASK_def MATRIX_STORE_SLOTS_def)
  have ops: "OP_WRITE \<noteq> OP_READ" by (simp add: OP_READ_def OP_WRITE_def)
  obtain sched e' where x: "gpu_execute_batch (?cu sched) [?w, ?r] e = Some e'"
    using gpu_batch_serialisable [OF inv, of "?cu []" "[?w, ?r]", THEN conjunct2] by auto
  note P = gpu_batch_serialisable [OF inv, of "?cu sched" "[?w, ?r]", THEN conjunct1, THEN spec, THEN mp, OF x,
      unfolded Let_def tk]
  have "gpu_reads e' = 1" "gpu_writes e' = 1"
    using P z ops by (simp_all add: gpu_reads_def gpu_writes_def)
  moreover have "cg_store e' ! 7 = 7"
    using conjunct1 [OF conjunct2 [OF conjunct2 [OF conjunct2 [OF P]]], rule_format, OF slot(3)] ops
    by (simp add: slot(1) [simplified] slot(2) [simplified])
  ultimately show ?thesis using e x by blast
qed

text \<open>
  C38. Scans on the device are the CPU's. A completed scan returns, for every aggregate operator and
  threshold, what the CPU reducer returns on the resident column \<open>0, 1, 2, \<dots>\<close>, so the answer to a scan of column 0 and
  its effect on the scan counters are those of the CPU engine; the device never reads the column id, so a scan of
  any other column is answered from column 0 as well. The four benchmark scans count what the CPU
  engine's count, the vectorised one for a multiple of four rows.
\<close>

theorem gpu_scans_match_cpu:
  assumes "cuda_engine_inv e" "gpu_execute_scan cu q e = Some (q', e')"
  shows "transaction_id q' = matrix_cpu_reduce (map of_nat [0..<MATRIX_SCAN_COLUMN_SIZE]) MATRIX_SCAN_COLUMN_SIZE
      (matrix_get_scan_threshold q) (matrix_get_scan_agg_op q) \<and>
    (\<forall>ce. matrix_get_scan_column_id q = 0 \<and> ce_scans ce = gpu_scans e \<and> ce_scan_result_sum ce = gpu_scan_result_sum e \<longrightarrow>
      (\<exists>ce'. execute_scan q ce = Some (q', ce') \<and> ce_scans ce' = gpu_scans e' \<and> ce_scan_result_sum ce' = gpu_scan_result_sum e')) \<and>
    (\<forall>r. gpu_benchmark_scan cu n t64 = Some r \<longrightarrow> r = benchmark_scan n t64) \<and>
    (\<forall>r. gpu_benchmark_scan_u32 cu n t32 = Some r \<longrightarrow> r = benchmark_scan_u32 n t32) \<and>
    (\<forall>r. 4 dvd n \<and> gpu_benchmark_scan_u32x4 cu n t32 = Some r \<longrightarrow> r = benchmark_scan_u32x4 n t32) \<and>
    (\<forall>r. gpu_benchmark_scan_ipt cu n t32 = Some r \<longrightarrow> r = benchmark_scan_ipt n t32)"
proof -
  let ?c = "matrix_cpu_reduce (map of_nat [0..<MATRIX_SCAN_COLUMN_SIZE]) MATRIX_SCAN_COLUMN_SIZE
      (matrix_get_scan_threshold q) (matrix_get_scan_agg_op q)"
  have q': "q' = q\<lparr>transaction_id := ?c\<rparr>" "e' = e\<lparr>cg_scans := cg_scans e + 1, cg_scan_result_sum := cg_scan_result_sum e + ?c\<rparr>"
    using gpu_scan_value [OF _ _ assms(2), of "map of_nat [0..<MATRIX_SCAN_COLUMN_SIZE]"] assms(1)
    by (simp_all add: cuda_engine_inv_def)
  show ?thesis
  proof (intro conjI allI impI)
    show "transaction_id q' = ?c" by (simp add: q')
    show "\<exists>ce'. execute_scan q ce = Some (q', ce') \<and> ce_scans ce' = gpu_scans e' \<and> ce_scan_result_sum ce' = gpu_scan_result_sum e'"
      if "matrix_get_scan_column_id q = 0 \<and> ce_scans ce = gpu_scans e \<and> ce_scan_result_sum ce = gpu_scan_result_sum e" for ce
      using that by (simp add: execute_scan_def q' gpu_scans_def gpu_scan_result_sum_def)
    show "r = benchmark_scan n t64" if "gpu_benchmark_scan cu n t64 = Some r" for r
      using timed_scan_result [OF that [unfolded gpu_benchmark_scan_def]] scan_kernel_u64 [OF pos_grid]
      by (auto simp: benchmark_scan_def)
    show "r = benchmark_scan_u32 n t32" if "gpu_benchmark_scan_u32 cu n t32 = Some r" for r
      using timed_scan_result [OF that [unfolded gpu_benchmark_scan_u32_def]] scan_kernel_u32 [OF pos_grid]
      by (auto simp: benchmark_scan_u32_def)
    show "r = benchmark_scan_u32x4 n t32" if "4 dvd n \<and> gpu_benchmark_scan_u32x4 cu n t32 = Some r" for r
      using timed_scan_result [OF conjunct2 [OF that, unfolded gpu_benchmark_scan_u32x4_def]] scan_kernel_u32x4 [OF pos_grid] that
      by (auto simp: benchmark_scan_u32x4_def benchmark_scan_u32_def)
    show "r = benchmark_scan_ipt n t32" if "gpu_benchmark_scan_ipt cu n t32 = Some r" for r
      using timed_scan_result [OF that [unfolded gpu_benchmark_scan_ipt_def]] scan_kernel_ipt [OF pos_grid, of 8]
      by (auto simp: benchmark_scan_ipt_def benchmark_scan_u32_def)
  qed
qed

theorem gpu_scans_match_cpu_witness:
  "\<exists>e sched q' e'. cuda_engine_init \<lparr>cu_alloc = (\<lambda>_. True), cu_arch600 = True, cu_shared = (\<lambda>_. 9), cu_sched = []\<rparr> (Some 1) = Some e \<and>
     gpu_execute_scan \<lparr>cu_alloc = (\<lambda>_. True), cu_arch600 = True, cu_shared = (\<lambda>_. 9), cu_sched = sched\<rparr>
       (zero_query\<lparr>payload := replicate 32 0xFF\<rparr>) e = Some (q', e') \<and> transaction_id q' = 0"
proof -
  let ?cu = "\<lambda>sched. \<lparr>cu_alloc = (\<lambda>_. True), cu_arch600 = True, cu_shared = (\<lambda>_. 9), cu_sched = sched\<rparr>"
  define q where "q = zero_query\<lparr>payload := replicate 32 0xFF\<rparr>"
  obtain e where e: "cuda_engine_init (?cu []) (Some 1) = Some e" by (simp add: cuda_engine_init_def)
  then have inv: "cuda_engine_inv e" by (auto simp: cuda_engine_init_def cuda_engine_inv_def split: if_splits)
  obtain sched q' e' where x: "gpu_execute_scan (?cu sched) q e = Some (q', e')"
    using gpu_scan_extends [of "?cu []" q e] by auto
  have "matrix_get_scan_threshold q = 0xFFFFFFFF" "matrix_get_scan_agg_op q = 0xFFFFFFFF"
    unfolding q_def by code_simp+
  moreover have "\<not> (0xFFFFFFFF :: u32) < v" for v
    using unsigned_less [of v, where ?'a = nat] by (simp add: not_less word_le_nat_alt)
  moreover have "fold (\<lambda>i c. c) rows z = z" for rows :: "nat list" and z :: u64 by (induction rows) simp_all
  ultimately have "transaction_id q' = 0"
    using gpu_scans_match_cpu [OF inv x] by (simp add: matrix_cpu_reduce_def agg_consts)
  then show ?thesis using e x unfolding q_def by blast
qed

end
