(* ===== verification/Ring_Buffer.thy ===== *)
theory Ring_Buffer
  imports Prelude
begin

text \<open>
  The single-producer single-consumer ring buffer of \<open>ring_buffer.hpp\<close> as a transition system. The two
  threads interleave at their accesses to shared memory: each step is one atomic load or store of a
  cursor, or one access to a buffer slot, with the thread-local code around it. The release stores
  of \<open>tail_\<close> and \<open>head_\<close> publish the slot accesses before them, which a sequentially consistent
  interleaving of these steps covers. Every step carries an event: the operation it completes.
\<close>

section \<open>The transition system\<close>

text \<open>Where the producer is in \<open>try_emplace\<close>, with its local \<open>current_tail\<close>, and the consumer in \<open>try_pop\<close>.\<close>

datatype 'a producer = PIdle | PCheck 'a u64 | PWrite 'a u64 | PPublish 'a u64

datatype 'a consumer = CIdle | CCheck u64 | CRead u64 | CRelease u64 'a

record 'a ring =
  rb_buffer :: "'a list"
  rb_head :: u64
  rb_tail :: u64
  rb_cached_head :: u64
  rb_cached_tail :: u64
  rb_prod :: "'a producer"
  rb_cons :: "'a consumer"

datatype 'a event = Internal | Pushed 'a | PushFull | Popped 'a | PopEmpty

definition ring_init :: "nat \<Rightarrow> 'a \<Rightarrow> 'a ring" where
  "ring_init b x0 =
     \<lparr>rb_buffer = replicate (2 ^ b) x0, rb_head = 0, rb_tail = 0, rb_cached_head = 0, rb_cached_tail = 0,
      rb_prod = PIdle, rb_cons = CIdle\<rparr>"

definition ring_capacity :: "'a ring \<Rightarrow> u64" where
  "ring_capacity r = of_nat (length (rb_buffer r))"

definition ring_index :: "'a ring \<Rightarrow> u64 \<Rightarrow> nat" where
  "ring_index r i = unat (i AND (ring_capacity r - 1))"

definition ring_empty :: "'a ring \<Rightarrow> bool" where
  "ring_empty r \<longleftrightarrow> rb_head r = rb_tail r"

definition ring_size :: "'a ring \<Rightarrow> u64" where
  "ring_size r = (if rb_head r \<le> rb_tail r then rb_tail r - rb_head r else 0)"

inductive ring_step :: "'a ring \<Rightarrow> 'a event \<Rightarrow> 'a ring \<Rightarrow> bool" where
  emplace_call:
    "rb_prod r = PIdle \<Longrightarrow>
     ring_step r Internal (r\<lparr>rb_prod := PCheck x (rb_tail r)\<rparr>)"
| emplace_fits:
    "rb_prod r = PCheck x t \<Longrightarrow> \<not> ring_capacity r \<le> t - rb_cached_head r \<Longrightarrow>
     ring_step r Internal (r\<lparr>rb_prod := PWrite x t\<rparr>)"
| emplace_reload_fits:
    "rb_prod r = PCheck x t \<Longrightarrow> ring_capacity r \<le> t - rb_cached_head r \<Longrightarrow>
     \<not> ring_capacity r \<le> t - rb_head r \<Longrightarrow>
     ring_step r Internal (r\<lparr>rb_cached_head := rb_head r, rb_prod := PWrite x t\<rparr>)"
| emplace_full:
    "rb_prod r = PCheck x t \<Longrightarrow> ring_capacity r \<le> t - rb_cached_head r \<Longrightarrow>
     ring_capacity r \<le> t - rb_head r \<Longrightarrow>
     ring_step r PushFull (r\<lparr>rb_cached_head := rb_head r, rb_prod := PIdle\<rparr>)"
| emplace_write:
    "rb_prod r = PWrite x t \<Longrightarrow>
     ring_step r Internal (r\<lparr>rb_buffer := (rb_buffer r)[ring_index r t := x], rb_prod := PPublish x t\<rparr>)"
| emplace_publish:
    "rb_prod r = PPublish x t \<Longrightarrow>
     ring_step r (Pushed x) (r\<lparr>rb_tail := t + 1, rb_prod := PIdle\<rparr>)"
| pop_call:
    "rb_cons r = CIdle \<Longrightarrow>
     ring_step r Internal (r\<lparr>rb_cons := CCheck (rb_head r)\<rparr>)"
| pop_available:
    "rb_cons r = CCheck h \<Longrightarrow> \<not> rb_cached_tail r \<le> h \<Longrightarrow>
     ring_step r Internal (r\<lparr>rb_cons := CRead h\<rparr>)"
| pop_reload_available:
    "rb_cons r = CCheck h \<Longrightarrow> rb_cached_tail r \<le> h \<Longrightarrow> \<not> rb_tail r \<le> h \<Longrightarrow>
     ring_step r Internal (r\<lparr>rb_cached_tail := rb_tail r, rb_cons := CRead h\<rparr>)"
| pop_empty:
    "rb_cons r = CCheck h \<Longrightarrow> rb_cached_tail r \<le> h \<Longrightarrow> rb_tail r \<le> h \<Longrightarrow>
     ring_step r PopEmpty (r\<lparr>rb_cached_tail := rb_tail r, rb_cons := CIdle\<rparr>)"
| pop_read:
    "rb_cons r = CRead h \<Longrightarrow>
     ring_step r Internal (r\<lparr>rb_cons := CRelease h (rb_buffer r ! ring_index r h)\<rparr>)"
| pop_release:
    "rb_cons r = CRelease h v \<Longrightarrow>
     ring_step r (Popped v) (r\<lparr>rb_head := h + 1, rb_cons := CIdle\<rparr>)"

inductive ring_run :: "'a ring \<Rightarrow> 'a event list \<Rightarrow> 'a ring \<Rightarrow> bool" for r0 where
  start: "ring_run r0 [] r0"
| step: "ring_run r0 tr r \<Longrightarrow> ring_step r e r' \<Longrightarrow> ring_run r0 (tr @ [e]) r'"

text \<open>
  The next access of each thread, for a client that runs the ring: the producer, which calls \<open>try_emplace\<close> with
  \<open>x\<close> when it is idle, and the consumer, which calls \<open>try_pop\<close>. The event says what the call returned, if it has.
\<close>

definition producer_step :: "'a \<Rightarrow> 'a ring \<Rightarrow> 'a event \<times> 'a ring" where
  "producer_step x r =
     (case rb_prod r of
        PIdle \<Rightarrow> (Internal, r\<lparr>rb_prod := PCheck x (rb_tail r)\<rparr>)
      | PCheck y t \<Rightarrow>
          if ring_capacity r \<le> t - rb_cached_head r then
            (if ring_capacity r \<le> t - rb_head r then (PushFull, r\<lparr>rb_cached_head := rb_head r, rb_prod := PIdle\<rparr>)
             else (Internal, r\<lparr>rb_cached_head := rb_head r, rb_prod := PWrite y t\<rparr>))
          else (Internal, r\<lparr>rb_prod := PWrite y t\<rparr>)
      | PWrite y t \<Rightarrow> (Internal, r\<lparr>rb_buffer := (rb_buffer r)[ring_index r t := y], rb_prod := PPublish y t\<rparr>)
      | PPublish y t \<Rightarrow> (Pushed y, r\<lparr>rb_tail := t + 1, rb_prod := PIdle\<rparr>))"

definition consumer_step :: "'a ring \<Rightarrow> 'a event \<times> 'a ring" where
  "consumer_step r =
     (case rb_cons r of
        CIdle \<Rightarrow> (Internal, r\<lparr>rb_cons := CCheck (rb_head r)\<rparr>)
      | CCheck h \<Rightarrow>
          if rb_cached_tail r \<le> h then
            (if rb_tail r \<le> h then (PopEmpty, r\<lparr>rb_cached_tail := rb_tail r, rb_cons := CIdle\<rparr>)
             else (Internal, r\<lparr>rb_cached_tail := rb_tail r, rb_cons := CRead h\<rparr>))
          else (Internal, r\<lparr>rb_cons := CRead h\<rparr>)
      | CRead h \<Rightarrow> (Internal, r\<lparr>rb_cons := CRelease h (rb_buffer r ! ring_index r h)\<rparr>)
      | CRelease h v \<Rightarrow> (Popped v, r\<lparr>rb_head := h + 1, rb_cons := CIdle\<rparr>))"

section \<open>The specification: a bounded FIFO queue\<close>

fun queue_step :: "nat \<Rightarrow> 'a event \<Rightarrow> 'a list \<Rightarrow> 'a list option" where
  "queue_step cap Internal q = Some q"
| "queue_step cap (Pushed x) q = (if length q < cap then Some (q @ [x]) else None)"
| "queue_step cap PushFull q = (if length q = cap then Some q else None)"
| "queue_step cap (Popped x) q = (case q of y # q' \<Rightarrow> if x = y then Some q' else None | [] \<Rightarrow> None)"
| "queue_step cap PopEmpty q = (if q = [] then Some q else None)"

fun queue_run :: "nat \<Rightarrow> 'a event list \<Rightarrow> 'a list \<Rightarrow> 'a list option" where
  "queue_run cap [] q = Some q"
| "queue_run cap (e # tr) q = (case queue_step cap e q of None \<Rightarrow> None | Some q' \<Rightarrow> queue_run cap tr q')"

text \<open>The contents of the ring: the slots between the two cursors.\<close>

definition ring_contents :: "'a ring \<Rightarrow> 'a list" where
  "ring_contents r = map (\<lambda>i. rb_buffer r ! (i mod length (rb_buffer r))) [unat (rb_head r)..<unat (rb_tail r)]"

definition pushes :: "'a event list \<Rightarrow> nat" where
  "pushes tr = length (filter (\<lambda>e. case e of Pushed x \<Rightarrow> True | _ \<Rightarrow> False) tr)"

section \<open>The invariant\<close>

definition ring_inv :: "nat \<Rightarrow> 'a ring \<Rightarrow> bool" where
  "ring_inv b r \<longleftrightarrow>
     1 \<le> b \<and> b < 64 \<and> length (rb_buffer r) = 2 ^ b \<and>
     unat (rb_cached_head r) \<le> unat (rb_head r) \<and> unat (rb_head r) \<le> unat (rb_tail r) \<and>
     unat (rb_tail r) \<le> unat (rb_head r) + 2 ^ b \<and> unat (rb_cached_tail r) \<le> unat (rb_tail r) \<and>
     (case rb_prod r of PIdle \<Rightarrow> True | PCheck x t \<Rightarrow> t = rb_tail r
      | PWrite x t \<Rightarrow> t = rb_tail r \<and> unat (rb_tail r) < unat (rb_head r) + 2 ^ b
      | PPublish x t \<Rightarrow> t = rb_tail r \<and> unat (rb_tail r) < unat (rb_head r) + 2 ^ b \<and>
          rb_buffer r ! (unat t mod 2 ^ b) = x) \<and>
     (case rb_cons r of CIdle \<Rightarrow> True | CCheck h \<Rightarrow> h = rb_head r
      | CRead h \<Rightarrow> h = rb_head r \<and> unat (rb_head r) < unat (rb_tail r)
      | CRelease h v \<Rightarrow> h = rb_head r \<and> unat (rb_head r) < unat (rb_tail r) \<and>
          rb_buffer r ! (unat h mod 2 ^ b) = v)"

lemma ring_inv_init: "1 \<le> b \<Longrightarrow> b < 64 \<Longrightarrow> ring_inv b (ring_init b x0)"
  by (simp add: ring_inv_def ring_init_def)

lemma ring_index_mod:
  assumes "b < 64" "length (rb_buffer r) = 2 ^ b"
  shows "ring_index r i = unat i mod 2 ^ b"
proof -
  have "ring_capacity r - 1 = mask b"
    using assms by (simp add: ring_capacity_def mask_eq_exp_minus_1)
  then show ?thesis unfolding ring_index_def using unat_and_mask_less [of b i] assms(1) by simp
qed

lemma unat_ring_capacity:
  assumes "b < 64" "length (rb_buffer r) = 2 ^ b"
  shows "unat (ring_capacity r) = 2 ^ b"
proof -
  have "(2::nat) ^ b < 2 ^ 64" using assms(1) by (intro power_strict_increasing) simp_all
  then show ?thesis unfolding ring_capacity_def assms(2) by (intro unat_of_nat_small) simp
qed

lemma full_check:
  assumes "b < 64" "length (rb_buffer r) = 2 ^ b" "unat c \<le> unat t"
  shows "ring_capacity r \<le> t - c \<longleftrightarrow> 2 ^ b \<le> unat t - unat c"
proof -
  have "unat (t - c) = unat t - unat c" using assms(3) by (simp add: unat_sub word_le_nat_alt)
  then show ?thesis using unat_ring_capacity [OF assms(1,2)] by (simp add: word_le_nat_alt)
qed

lemma mod_window_inj:
  fixes i j N :: nat
  assumes "i \<le> j" "j < i + N" "i mod N = j mod N"
  shows "i = j"
proof -
  have "N dvd j - i" using assms(1,3) mod_eq_dvd_iff_nat [of i j N] by simp
  then show ?thesis using assms(1,2) nat_dvd_not_less [of "j - i" N] by (cases "i = j") auto
qed

lemma ring_invD:
  assumes "ring_inv b r"
  shows "1 \<le> b" "b < 64" "length (rb_buffer r) = 2 ^ b"
    "unat (rb_cached_head r) \<le> unat (rb_head r)" "unat (rb_head r) \<le> unat (rb_tail r)"
    "unat (rb_tail r) \<le> unat (rb_head r) + 2 ^ b" "unat (rb_cached_tail r) \<le> unat (rb_tail r)"
  using assms by (simp_all add: ring_inv_def)


lemma ring_inv_prodD:
  assumes "ring_inv b r"
  shows "rb_prod r = PCheck x t \<Longrightarrow> t = rb_tail r"
    "rb_prod r = PWrite x t \<Longrightarrow> t = rb_tail r \<and> unat (rb_tail r) < unat (rb_head r) + 2 ^ b"
    "rb_prod r = PPublish x t \<Longrightarrow> t = rb_tail r \<and> unat (rb_tail r) < unat (rb_head r) + 2 ^ b \<and>
       rb_buffer r ! (unat (rb_tail r) mod 2 ^ b) = x"
  using assms by (auto simp: ring_inv_def)

lemma ring_inv_consD:
  assumes "ring_inv b r"
  shows "rb_cons r = CCheck h \<Longrightarrow> h = rb_head r"
    "rb_cons r = CRead h \<Longrightarrow> h = rb_head r \<and> unat (rb_head r) < unat (rb_tail r)"
    "rb_cons r = CRelease h v \<Longrightarrow> h = rb_head r \<and> unat (rb_head r) < unat (rb_tail r) \<and>
       rb_buffer r ! (unat (rb_head r) mod 2 ^ b) = v"
  using assms by (auto simp: ring_inv_def)

text \<open>The slot the producer writes lies outside the window the consumer may read.\<close>

lemma contents_write:
  assumes "ring_inv b r" "rb_prod r = PWrite x t"
  shows "ring_contents (r\<lparr>rb_buffer := (rb_buffer r)[ring_index r t := x], rb_prod := p\<rparr>) = ring_contents r"
proof -
  note inv = ring_invD [OF assms(1)]
  note t = ring_inv_prodD(2) [OF assms]
  have "unat (rb_tail r) mod 2 ^ b \<noteq> i mod 2 ^ b" if "unat (rb_head r) \<le> i" "i < unat (rb_tail r)" for i
    using mod_window_inj [of i "unat (rb_tail r)" "2 ^ b"] that t by auto
  then show ?thesis
    using t by (simp add: ring_contents_def ring_index_mod [OF inv(2,3)] inv(3))
qed

lemma contents_publish:
  assumes "ring_inv b r" "rb_prod r = PPublish x t" "unat (rb_tail r) + 1 < 2 ^ 64"
  shows "ring_contents (r\<lparr>rb_tail := t + 1, rb_prod := p\<rparr>) = ring_contents r @ [x]"
    "unat (rb_tail r + 1) = unat (rb_tail r) + 1"
proof -
  note inv = ring_invD [OF assms(1)]
  note t = ring_inv_prodD(3) [OF assms(1,2)]
  show u: "unat (rb_tail r + 1) = unat (rb_tail r) + 1" using assms(3) by (simp add: unat_word_ariths)
  show "ring_contents (r\<lparr>rb_tail := t + 1, rb_prod := p\<rparr>) = ring_contents r @ [x]"
    using inv(3,5) t by (simp add: ring_contents_def u)
qed

lemma contents_release:
  assumes "ring_inv b r" "rb_cons r = CRelease h v"
  shows "ring_contents r = v # ring_contents (r\<lparr>rb_head := h + 1, rb_cons := p\<rparr>)"
    "unat (rb_head r + 1) = unat (rb_head r) + 1"
proof -
  note inv = ring_invD [OF assms(1)]
  note h = ring_inv_consD(3) [OF assms]
  have "unat (rb_tail r) < 2 ^ 64" using unsigned_less [of "rb_tail r", where ?'a = nat] by simp
  then show u: "unat (rb_head r + 1) = unat (rb_head r) + 1" using h by (simp add: unat_word_ariths)
  show "ring_contents r = v # ring_contents (r\<lparr>rb_head := h + 1, rb_cons := p\<rparr>)"
    using inv(3) h by (simp add: ring_contents_def u upt_conv_Cons)
qed

lemma length_ring_contents: "length (ring_contents r) = unat (rb_tail r) - unat (rb_head r)"
  by (simp add: ring_contents_def)

lemma contents_local [simp]:
  "ring_contents (r\<lparr>rb_prod := p\<rparr>) = ring_contents r" "ring_contents (r\<lparr>rb_cons := c\<rparr>) = ring_contents r"
  "ring_contents (r\<lparr>rb_cached_head := ch\<rparr>) = ring_contents r"
  "ring_contents (r\<lparr>rb_cached_tail := ct\<rparr>) = ring_contents r"
  by (simp_all add: ring_contents_def)

lemma room_check:
  assumes "ring_inv b r" "rb_prod r = PCheck x t"
  shows "ring_capacity r \<le> t - rb_head r \<longleftrightarrow> unat (rb_tail r) = unat (rb_head r) + 2 ^ b"
    "\<not> ring_capacity r \<le> t - rb_cached_head r \<Longrightarrow> unat (rb_tail r) < unat (rb_head r) + 2 ^ b"
proof -
  note inv = ring_invD [OF assms(1)]
  note t = ring_inv_prodD(1) [OF assms]
  show "ring_capacity r \<le> t - rb_head r \<longleftrightarrow> unat (rb_tail r) = unat (rb_head r) + 2 ^ b"
    using full_check [OF inv(2,3,5)] inv(5,6) t by auto
  show "unat (rb_tail r) < unat (rb_head r) + 2 ^ b" if "\<not> ring_capacity r \<le> t - rb_cached_head r"
    using full_check [OF inv(2,3), of "rb_cached_head r" t] inv(4,5) that t by auto
qed

lemma ring_step_inv:
  assumes "ring_step r e r'" "ring_inv b r" "unat (rb_tail r) + 1 < 2 ^ 64"
  shows "ring_inv b r'"
  using assms(1)
proof cases
  case (emplace_fits x t)
  then show ?thesis
    using assms(2) room_check(2) [OF assms(2) emplace_fits(3)]
    by (auto simp: ring_inv_def split: consumer.splits)
next
  case (emplace_reload_fits x t)
  then show ?thesis
    using assms(2) room_check(1) [OF assms(2) emplace_reload_fits(3)]
    by (auto simp: ring_inv_def split: consumer.splits)
next
  case (emplace_write x t)
  note inv = ring_invD [OF assms(2)]
  note t = ring_inv_prodD(2) [OF assms(2) emplace_write(3)]
  have "unat (rb_head r) mod 2 ^ b \<noteq> unat (rb_tail r) mod 2 ^ b" if "unat (rb_head r) < unat (rb_tail r)"
    using mod_window_inj [of "unat (rb_head r)" "unat (rb_tail r)" "2 ^ b"] that t by auto
  then show ?thesis
    using assms(2) t
    by (auto simp: emplace_write(2) ring_inv_def ring_index_mod [OF inv(2,3)] split: consumer.splits)
next
  case (emplace_publish x t)
  then show ?thesis
    using assms(2) contents_publish(2) [OF assms(2) emplace_publish(3) assms(3)]
      ring_inv_prodD(3) [OF assms(2) emplace_publish(3)]
    by (auto simp: ring_inv_def split: consumer.splits)
next
  case (pop_read h)
  note inv = ring_invD [OF assms(2)]
  show ?thesis
    using assms(2) ring_inv_consD(2) [OF assms(2) pop_read(3)]
    by (auto simp: pop_read(2) ring_inv_def ring_index_mod [OF inv(2,3)] split: producer.splits)
next
  case (pop_release h v)
  then show ?thesis
    using assms(2) contents_release(2) [OF assms(2) pop_release(3)]
      ring_inv_consD(3) [OF assms(2) pop_release(3)]
    by (auto simp: ring_inv_def split: producer.splits)
qed (use assms(2) in \<open>auto simp: ring_inv_def not_le word_less_nat_alt split: producer.splits consumer.splits\<close>)

text \<open>The simulation: each step of the ring is the step of the bounded queue its event names.\<close>

lemma ring_step_refines:
  assumes "ring_step r e r'" "ring_inv b r" "unat (rb_tail r) + 1 < 2 ^ 64"
  shows "queue_step (2 ^ b) e (ring_contents r) = Some (ring_contents r')"
  using assms(1)
proof cases
  case (emplace_full x t)
  then show ?thesis
    using room_check(1) [OF assms(2) emplace_full(3)] by (simp add: length_ring_contents)
next
  case (emplace_write x t)
  then show ?thesis using contents_write [OF assms(2) emplace_write(3)] by simp
next
  case (emplace_publish x t)
  have "length (ring_contents r) < 2 ^ b"
    using ring_invD(5) [OF assms(2)] ring_inv_prodD(3) [OF assms(2) emplace_publish(3)]
    by (auto simp: length_ring_contents)
  then show ?thesis
    using contents_publish(1) [OF assms(2) emplace_publish(3) assms(3)] emplace_publish by simp
next
  case (pop_empty h)
  have "unat (rb_tail r) \<le> unat (rb_head r)"
    using pop_empty(5) ring_inv_consD(1) [OF assms(2) pop_empty(3)] by (simp add: word_le_nat_alt)
  then have "ring_contents r = []" by (simp add: ring_contents_def)
  then show ?thesis using pop_empty by simp
next
  case (pop_release h v)
  then show ?thesis using contents_release(1) [OF assms(2) pop_release(3)] by simp
qed simp_all

lemma queue_run_snoc:
  "queue_run cap (tr @ [e]) q = (case queue_run cap tr q of None \<Rightarrow> None | Some q' \<Rightarrow> queue_step cap e q')"
  by (induction tr arbitrary: q) (auto split: option.splits)

lemma ring_step_tail:
  assumes "ring_step r e r'" "ring_inv b r" "unat (rb_tail r) + 1 < 2 ^ 64"
  shows "unat (rb_tail r') = unat (rb_tail r) + pushes [e]"
  using assms(1)
proof cases
  case (emplace_publish x t)
  then show ?thesis
    using contents_publish(2) [OF assms(2) emplace_publish(3) assms(3)]
      ring_inv_prodD(3) [OF assms(2) emplace_publish(3)] by (simp add: pushes_def)
qed (simp_all add: pushes_def)

lemma ring_run_refines:
  assumes "ring_run (ring_init b x0) tr r" "1 \<le> b" "b < 64" "pushes tr + 1 < 2 ^ 64"
  shows "ring_inv b r \<and> unat (rb_tail r) = pushes tr \<and> queue_run (2 ^ b) tr [] = Some (ring_contents r)"
  using assms(1,4)
proof induction
  case start
  show ?case using ring_inv_init [OF assms(2,3)] by (simp add: pushes_def ring_init_def ring_contents_def)
next
  case (step tr r e r')
  have p: "pushes (tr @ [e]) = pushes tr + pushes [e]" by (simp add: pushes_def)
  with step have ih: "ring_inv b r" "unat (rb_tail r) = pushes tr" "queue_run (2 ^ b) tr [] = Some (ring_contents r)"
    by auto
  have bound: "unat (rb_tail r) + 1 < 2 ^ 64" using ih(2) p step.prems by simp
  show ?case
    using ring_step_inv [OF step.hyps(2) ih(1) bound] ring_step_tail [OF step.hyps(2) ih(1) bound]
      ring_step_refines [OF step.hyps(2) ih(1) bound] ih(2,3)
    by (simp add: p queue_run_snoc)
qed

section \<open>The accesses of a client\<close>

lemma producer_step_ring: "ring_step r (fst (producer_step x r)) (snd (producer_step x r))"
  by (auto simp: producer_step_def intro: ring_step.intros split: producer.split)

lemma consumer_step_ring: "ring_step r (fst (consumer_step r)) (snd (consumer_step r))"
  by (auto simp: consumer_step_def intro: ring_step.intros split: consumer.split)

text \<open>The element a call of \<open>try_emplace\<close> carries, and the number of accesses a successful call still makes.\<close>

fun prod_item :: "'a producer \<Rightarrow> 'a option" where
  "prod_item PIdle = None" | "prod_item (PCheck x t) = Some x" | "prod_item (PWrite x t) = Some x" | "prod_item (PPublish x t) = Some x"

fun prod_left :: "'a producer \<Rightarrow> nat" where
  "prod_left PIdle = 3" | "prod_left (PCheck x t) = 2" | "prod_left (PWrite x t) = 1" | "prod_left (PPublish x t) = 0"

fun cons_left :: "'a consumer \<Rightarrow> nat" where
  "cons_left CIdle = 3" | "cons_left (CCheck h) = 2" | "cons_left (CRead h) = 1" | "cons_left (CRelease h v) = 0"

lemma producer_step_cases:
  assumes inv: "ring_inv b r" "unat (rb_tail r) + 1 < 2 ^ 64" and x: "prod_item (rb_prod r) \<in> {None, Some x}"
    and step: "producer_step x r = (e, r')"
  obtains (Internal) "e = Internal" "ring_contents r' = ring_contents r" "prod_item (rb_prod r') = Some x"
      "prod_left (rb_prod r) = Suc (prod_left (rb_prod r'))" "rb_tail r' = rb_tail r"
  | (Full) "e = PushFull" "ring_contents r' = ring_contents r" "length (ring_contents r) = 2 ^ b" "prod_item (rb_prod r') = None"
      "rb_tail r' = rb_tail r"
  | (Pushed) "e = Pushed x" "ring_contents r' = ring_contents r @ [x]" "prod_item (rb_prod r') = None"
      "rb_prod r = PPublish x (rb_tail r)" "unat (rb_tail r') = unat (rb_tail r) + 1"
proof -
  have s: "ring_step r e r'" using producer_step_ring [of r x] step by simp
  note q = ring_step_refines [OF s inv]
  note t = ring_step_tail [OF s inv]
  show thesis
  proof (cases "rb_prod r")
    case PIdle
    then show ?thesis using step q by (intro Internal) (auto simp: producer_step_def)
  next
    case (PCheck y t)
    have y: "y = x" using x PCheck by simp
    show ?thesis
    proof (cases "ring_capacity r \<le> t - rb_cached_head r \<and> ring_capacity r \<le> t - rb_head r")
      case True
      then have "e = PushFull" "r' = r\<lparr>rb_cached_head := rb_head r, rb_prod := PIdle\<rparr>"
        using step PCheck by (simp_all add: producer_step_def)
      then show ?thesis using q by (intro Full) (simp_all split: if_splits)
    next
      case False
      then have "e = Internal" "rb_prod r' = PWrite x t" "rb_tail r' = rb_tail r"
        using step PCheck y by (auto simp: producer_step_def split: if_splits)
      then show ?thesis using q PCheck by (intro Internal) simp_all
    qed
  next
    case (PWrite y t)
    then show ?thesis using step q x by (intro Internal) (auto simp: producer_step_def)
  next
    case (PPublish y t')
    then have "e = Pushed x" "t' = rb_tail r" "rb_prod r' = PIdle"
      using step x ring_inv_prodD(3) [OF inv(1) PPublish] by (auto simp: producer_step_def)
    then show ?thesis using q t x PPublish by (intro Pushed) (auto simp: pushes_def split: if_splits)
  qed
qed

lemma consumer_step_cases:
  assumes inv: "ring_inv b r" "unat (rb_tail r) + 1 < 2 ^ 64" and step: "consumer_step r = (e, r')"
  obtains (Internal) "e = Internal" "ring_contents r' = ring_contents r" "cons_left (rb_cons r) = Suc (cons_left (rb_cons r'))"
  | (Empty) "e = PopEmpty" "ring_contents r = []" "ring_contents r' = []" "rb_cons r' = CIdle" "cons_left (rb_cons r) = 2"
  | (Popped) v where "e = Popped v" "ring_contents r = v # ring_contents r'" "rb_cons r' = CIdle"
proof -
  have s: "ring_step r e r'" using consumer_step_ring [of r] step by simp
  note q = ring_step_refines [OF s inv]
  show thesis
  proof (cases "rb_cons r")
    case CIdle
    then show ?thesis using step q by (intro Internal) (auto simp: consumer_step_def)
  next
    case (CCheck h)
    show ?thesis
    proof (cases "rb_cached_tail r \<le> h \<and> rb_tail r \<le> h")
      case True
      then have "e = PopEmpty" "rb_cons r' = CIdle" using step CCheck by (auto simp: consumer_step_def)
      then show ?thesis using q CCheck by (intro Empty) (simp_all split: if_splits)
    next
      case False
      then have "e = Internal" "rb_cons r' = CRead h" using step CCheck by (auto simp: consumer_step_def split: if_splits)
      then show ?thesis using q CCheck by (intro Internal) simp_all
    qed
  next
    case (CRead h)
    then show ?thesis using step q by (intro Internal) (auto simp: consumer_step_def)
  next
    case (CRelease h v)
    then have "e = Popped v" "rb_cons r' = CIdle" using step by (auto simp: consumer_step_def)
    then show ?thesis using q by (intro Popped) (auto split: list.splits if_splits)
  qed
qed

lemma ring_step_keeps:
  "producer_step x r = (e, r') \<Longrightarrow> rb_cons r' = rb_cons r"
  "consumer_step r = (e, r') \<Longrightarrow> rb_prod r' = rb_prod r \<and> rb_tail r' = rb_tail r"
  by (auto simp: producer_step_def consumer_step_def split: producer.splits consumer.splits if_splits)

lemma client_step_inv:
  assumes "ring_inv b r" "unat (rb_tail r) + 1 < 2 ^ 64"
  shows "producer_step x r = (e, r') \<Longrightarrow> ring_inv b r'" "consumer_step r = (e, r') \<Longrightarrow> ring_inv b r'"
  using ring_step_inv [OF producer_step_ring assms, of x] ring_step_inv [OF consumer_step_ring assms] by simp_all

text \<open>A consumer of an empty ring is idle or about to find it empty.\<close>

lemma consumer_empty:
  assumes "ring_inv b r" "ring_contents r = []"
  shows "rb_cons r = CIdle \<or> rb_cons r = CCheck (rb_head r)"
proof -
  have "unat (rb_tail r) \<le> unat (rb_head r)" using assms(2) length_ring_contents [of r] by simp
  then show ?thesis
    using ring_inv_consD(1) [OF assms(1)] ring_inv_consD(2) [OF assms(1)] ring_inv_consD(3) [OF assms(1)]
    by (cases "rb_cons r") fastforce+
qed

section \<open>Properties\<close>

text \<open>
  C20. The lock-free ring buffer is a bounded first-in first-out queue. Under every interleaving of
  the producer's and the consumer's accesses, and for every power-of-two capacity of at least two,
  the completed calls form a run of a bounded queue: a successful emplace adds at the back of a
  queue that has room, a pop returns the front element, and a call fails only when the queue is
  full (empty) at the moment of its reload. The queue's contents are the slots between the two
  cursors, which never hold more than the capacity. The run makes fewer than 2^64 - 1 emplaces, so
  that the tail cursor does not wrap.
\<close>

theorem ring_is_bounded_fifo:
  assumes "ring_run (ring_init b x0) tr r" "1 \<le> b" "b < 64" "pushes tr + 1 < 2 ^ 64"
  shows "queue_run (2 ^ b) tr [] = Some (ring_contents r) \<and> unat (rb_tail r) = pushes tr \<and>
    unat (ring_size r) = length (ring_contents r) \<and> length (ring_contents r) \<le> 2 ^ b \<and>
    (ring_empty r \<longleftrightarrow> ring_contents r = [])"
proof -
  note run = ring_run_refines [OF assms]
  then have inv: "ring_inv b r" by simp
  have le: "unat (rb_head r) \<le> unat (rb_tail r)" "unat (rb_tail r) \<le> unat (rb_head r) + 2 ^ b"
    using ring_invD(5,6) [OF inv] .
  have "ring_empty r \<longleftrightarrow> ring_contents r = []"
    using le(1) by (auto simp: ring_empty_def ring_contents_def intro: word_unat_eq_iff [THEN iffD2])
  with run le show ?thesis
    by (simp add: ring_size_def length_ring_contents word_le_nat_alt unat_sub)
qed


lemma ring_run_one_item:
  "\<exists>r. ring_run (ring_init 1 (0::nat))
         [Internal, Internal, Internal, Pushed 7, Internal, Internal, Internal, Popped 7] r"
proof -
  let ?r = "ring_init 1 (0::nat)"
  have idx: "ring_index ?r 0 = 0" "ring_capacity ?r = 2" by (simp_all add: ring_index_def ring_capacity_def ring_init_def)
  let ?r1 = "?r\<lparr>rb_prod := PCheck 7 0\<rparr>" let ?r2 = "?r1\<lparr>rb_prod := PWrite 7 0\<rparr>"
  let ?r3 = "?r2\<lparr>rb_buffer := [7, 0], rb_prod := PPublish 7 0\<rparr>" let ?r4 = "?r3\<lparr>rb_tail := 1, rb_prod := PIdle\<rparr>"
  let ?r5 = "?r4\<lparr>rb_cons := CCheck 0\<rparr>" let ?r6 = "?r5\<lparr>rb_cached_tail := 1, rb_cons := CRead 0\<rparr>"
  let ?r7 = "?r6\<lparr>rb_cons := CRelease 0 7\<rparr>"
  have s1: "ring_step ?r Internal ?r1" using ring_step.emplace_call [of ?r 7] by (simp add: ring_init_def)
  have s2: "ring_step ?r1 Internal ?r2"
    using ring_step.emplace_fits [of ?r1 7 0] by (simp add: ring_init_def ring_capacity_def)
  have s3: "ring_step ?r2 Internal ?r3"
    using ring_step.emplace_write [of ?r2 7 0] by (simp add: ring_init_def ring_index_def numeral_2_eq_2)
  have s4: "ring_step ?r3 (Pushed 7) ?r4" using ring_step.emplace_publish [of ?r3 7 0] by simp
  have s5: "ring_step ?r4 Internal ?r5" using ring_step.pop_call [of ?r4] by (simp add: ring_init_def)
  have s6: "ring_step ?r5 Internal ?r6"
    using ring_step.pop_reload_available [of ?r5 0] by (simp add: ring_init_def)
  have s7: "ring_step ?r6 Internal ?r7" using ring_step.pop_read [of ?r6 0] by (simp add: ring_index_def)
  have s8: "ring_step ?r7 (Popped 7) (?r7\<lparr>rb_head := 0 + 1, rb_cons := CIdle\<rparr>)"
    by (rule ring_step.pop_release) simp
  note run = ring_run.start [of ?r]
  note run = ring_run.step [OF ring_run.step [OF ring_run.step [OF ring_run.step [OF run s1] s2] s3] s4]
  note run = ring_run.step [OF ring_run.step [OF ring_run.step [OF ring_run.step [OF run s5] s6] s7] s8]
  from run show ?thesis by auto
qed

theorem ring_is_bounded_fifo_witness:
  "\<exists>r. ring_run (ring_init 1 (0::nat))
         [Internal, Internal, Internal, Pushed 7, Internal, Internal, Internal, Popped 7] r \<and>
       ring_contents r = [] \<and> unat (rb_tail r) = 1"
  using ring_run_one_item
proof
  fix r
  assume run: "ring_run (ring_init 1 (0::nat))
         [Internal, Internal, Internal, Pushed 7, Internal, Internal, Internal, Popped 7] r"
  show ?thesis using run ring_is_bounded_fifo [OF run] by (auto simp: pushes_def)
qed

end
