(* ===== verification/Pipeline.thy ===== *)
theory Pipeline
  imports GPU_Engine Ring_Buffer
begin

text \<open>
  The driver of \<open>main.cpp\<close> in the build without CUDA: the sweep over batch sizes, the scan benchmark and the
  pipeline of producer, batching consumer and scan consumer over two ring buffers, with the checks the driver asserts
  of them. The threads interleave at their accesses to the rings of \<open>Ring_Buffer\<close>. Reports of times and throughput
  are left out, and so is \<open>analytical_query_demo\<close> with its own engine and its four assertions.
\<close>

section \<open>Sweep and scan benchmark\<close>

definition sweep_batch :: "database_query list" where
  "sweep_batch = map (\<lambda>i. zero_query\<lparr>query_id := of_nat i, opcode := (if i mod 2 = 0 then OP_READ else OP_WRITE)\<rparr>) [0..<MATRIX_BATCH_MAX]"

definition sweep_sizes :: "nat list" where
  "sweep_sizes = [64, 256, 512, 1024, 2048, 4096, 8192, 16384, 32768, 65536]"

definition sweep_batch_sizes :: "point_engine \<Rightarrow> point_engine option" where
  "sweep_batch_sizes pe =
     do {
       pe1 \<leftarrow> execute_batch (take 256 sweep_batch) pe;
       opt_fold (\<lambda>bs. opt_fold (\<lambda>_. execute_batch (take bs sweep_batch)) [0..<400000 div bs]) sweep_sizes pe1
     }"

definition scan_sizes :: "nat list" where
  "scan_sizes = [2 ^ 16, 2 ^ 18, 2 ^ 20, 2 ^ 22, 2 ^ 24, 2 ^ 26]"

text \<open>The assertions of the scan benchmark, for the four scans \<open>b64\<close>, \<open>b32\<close>, \<open>b32x4\<close> and \<open>bipt\<close> of an engine.\<close>

definition scan_benchmark ::
    "(nat \<Rightarrow> u64 \<Rightarrow> u64) \<Rightarrow> (nat \<Rightarrow> u32 \<Rightarrow> u64) \<Rightarrow> (nat \<Rightarrow> u32 \<Rightarrow> u64) \<Rightarrow> (nat \<Rightarrow> u32 \<Rightarrow> u64) \<Rightarrow> bool" where
  "scan_benchmark b64 b32 b32x4 bipt =
     list_all (\<lambda>n. let threshold = n div 2; expected = of_nat (n - 1 - threshold) in
       b64 n (of_nat threshold) = expected \<and> b32 n (of_nat threshold) = expected \<and>
       b32x4 n (of_nat threshold) = expected \<and> bipt n (of_nat threshold) = expected) scan_sizes"

section \<open>The pipeline\<close>

definition BATCH_SIZE_LIMIT :: nat where "BATCH_SIZE_LIMIT = 512"
definition TEMPORAL_LIMIT_US :: nat where "TEMPORAL_LIMIT_US = 50"
definition TOTAL_QUERIES :: nat where "TOTAL_QUERIES = 10000"
definition SCAN_EVERY :: nat where "SCAN_EVERY = 1000"
definition SCAN_THRESHOLD :: u32 where "SCAN_THRESHOLD = of_nat (MATRIX_SCAN_COLUMN_SIZE div 2)"

definition is_scan :: "nat \<Rightarrow> bool" where
  "is_scan i \<longleftrightarrow> i mod SCAN_EVERY = 0"

definition expected_scans :: nat where
  "expected_scans = length (filter is_scan [0..<TOTAL_QUERIES])"

definition expected_scan_sum :: u64 where
  "expected_scan_sum = of_nat expected_scans * of_nat (MATRIX_SCAN_COLUMN_SIZE - 1 - unat SCAN_THRESHOLD)"

definition expected_pointops :: nat where
  "expected_pointops = TOTAL_QUERIES - expected_scans"

text \<open>Query number \<open>i\<close> of the producer, stamped with the time.\<close>

definition produced :: "u64 \<Rightarrow> nat \<Rightarrow> database_query" where
  "produced stamp i =
     (let q = \<lparr>query_id = of_nat i, timestamp_us = stamp, transaction_id = 0, opcode = OP_READ, payload_size = 8, payload = replicate 32 0\<rparr> in
      if is_scan i then matrix_set_scan_threshold SCAN_THRESHOLD q
      else q\<lparr>opcode := (if i mod 2 = 0 then OP_READ else OP_WRITE)\<rparr>)"

text \<open>
  The state of the driver: the number of queries put into a ring, the query the producer has in hand, the two rings,
  the batch of the consumer, the engine, the counters, and how far the threads are.
\<close>

record pipeline =
  pl_made :: nat
  pl_query :: "database_query option"
  pl_ring :: "database_query ring"
  pl_scan_ring :: "database_query ring"
  pl_batch :: "database_query list"
  pl_point :: point_engine
  pl_catalog :: catalog_engine
  pl_processed :: nat
  pl_scans_processed :: nat
  pl_run_state :: bool
  pl_consumer_joined :: bool
  pl_draining :: bool
  pl_scan_consumer_joined :: bool

definition pipeline_start :: "point_engine \<Rightarrow> catalog_engine \<Rightarrow> pipeline" where
  "pipeline_start pe ce =
     \<lparr>pl_made = 0, pl_query = None, pl_ring = ring_init 12 zero_query, pl_scan_ring = ring_init 6 zero_query, pl_batch = [],
      pl_point = pe, pl_catalog = ce, pl_processed = 0, pl_scans_processed = 0, pl_run_state = True,
      pl_consumer_joined = False, pl_draining = False, pl_scan_consumer_joined = False\<rparr>"

text \<open>
  An event is one move of a thread: of the producer (with the time it stamps a new query with), of the consumer
  (with the age of the batch the clock shows), of the scan consumer, or the end of the main thread's wait. A move of
  the first three is one access to a ring with the thread's own work around it.
\<close>

datatype pipeline_event = Produce u64 | Consume nat | ScanRound | StopRun

text \<open>After a failed call the producer spins and calls again with the same query.\<close>

definition emplaced :: "database_query event \<Rightarrow> pipeline \<Rightarrow> pipeline" where
  "emplaced e s = (case e of Pushed _ \<Rightarrow> s\<lparr>pl_query := None, pl_made := Suc (pl_made s)\<rparr> | _ \<Rightarrow> s)"

definition produce :: "u64 \<Rightarrow> pipeline \<Rightarrow> pipeline" where
  "produce stamp s =
     (case pl_query s of
        None \<Rightarrow> s\<lparr>pl_query := Some (produced stamp (pl_made s))\<rparr>
      | Some q \<Rightarrow>
          if is_scan (pl_made s) then (let (e, r) = producer_step q (pl_scan_ring s) in emplaced e (s\<lparr>pl_scan_ring := r\<rparr>))
          else (let (e, r) = producer_step q (pl_ring s) in emplaced e (s\<lparr>pl_ring := r\<rparr>)))"

definition flush_batch :: "nat \<Rightarrow> pipeline \<Rightarrow> pipeline option" where
  "flush_batch duration_us s =
     (if pl_batch s \<noteq> [] \<and> (BATCH_SIZE_LIMIT \<le> length (pl_batch s) \<or> TEMPORAL_LIMIT_US \<le> duration_us) then
        map_option (\<lambda>pe. s\<lparr>pl_point := pe, pl_processed := pl_processed s + length (pl_batch s), pl_batch := []\<rparr>)
          (execute_batch (pl_batch s) (pl_point s))
      else Some s)"

definition consume :: "nat \<Rightarrow> pipeline \<Rightarrow> pipeline option" where
  "consume duration_us s =
     (let (e, r) = consumer_step (pl_ring s); s1 = s\<lparr>pl_ring := r\<rparr> in
      case e of
        Popped q \<Rightarrow> flush_batch duration_us (s1\<lparr>pl_batch := pl_batch s1 @ [q]\<rparr>)
      | PopEmpty \<Rightarrow> flush_batch duration_us s1
      | _ \<Rightarrow> Some s1)"

definition scan_round :: "pipeline \<Rightarrow> pipeline option" where
  "scan_round s =
     (if rb_cons (pl_scan_ring s) = CIdle \<and> \<not> pl_draining s \<and> \<not> pl_run_state s then Some (s\<lparr>pl_draining := True\<rparr>)
      else
        (let (e, r) = consumer_step (pl_scan_ring s); s1 = s\<lparr>pl_scan_ring := r\<rparr> in
         case e of
           Popped q \<Rightarrow>
             map_option (\<lambda>(_, ce). s1\<lparr>pl_catalog := ce, pl_scans_processed := Suc (pl_scans_processed s1)\<rparr>)
               (execute_scan q (pl_catalog s1))
         | PopEmpty \<Rightarrow> Some (if pl_draining s1 then s1\<lparr>pl_scan_consumer_joined := True\<rparr> else s1)
         | _ \<Rightarrow> Some s1))"

definition pipeline_step :: "pipeline_event \<Rightarrow> pipeline \<Rightarrow> pipeline option" where
  "pipeline_step ev s =
     (case ev of
        Produce stamp \<Rightarrow> if pl_made s < TOTAL_QUERIES then Some (produce stamp s) else None
      | Consume duration_us \<Rightarrow>
          if pl_consumer_joined s then None
          else if rb_cons (pl_ring s) = CIdle \<and> \<not> pl_run_state s then Some (s\<lparr>pl_consumer_joined := True\<rparr>)
          else consume duration_us s
      | ScanRound \<Rightarrow> if pl_scan_consumer_joined s then None else scan_round s
      | StopRun \<Rightarrow>
          if pl_run_state s \<and> pl_made s = TOTAL_QUERIES \<and> \<not> (pl_processed s < expected_pointops \<or> pl_scans_processed s < expected_scans)
          then Some (s\<lparr>pl_run_state := False\<rparr>) else None)"

fun pipeline_run :: "pipeline_event list \<Rightarrow> pipeline \<Rightarrow> pipeline option" where
  "pipeline_run [] s = Some s"
| "pipeline_run (ev # evs) s = Option.bind (pipeline_step ev s) (pipeline_run evs)"

text \<open>What the driver asserts once both consumers have been joined, against the counters before the run.\<close>

definition pipeline_checks :: "pipeline \<Rightarrow> point_engine \<Rightarrow> catalog_engine \<Rightarrow> bool" where
  "pipeline_checks s pe ce =
     (let processed = pl_processed s + pl_scans_processed s;
          reads = pe_reads (pl_point s) - pe_reads pe; writes = pe_writes (pl_point s) - pe_writes pe;
          applied = pe_commits (pl_point s) - pe_commits pe; scans = ce_scans (pl_catalog s) - ce_scans ce;
          scan_sum = ce_scan_result_sum (pl_catalog s) - ce_scan_result_sum ce in
      processed = TOTAL_QUERIES \<and> reads + writes + scans = of_nat processed \<and> applied = writes \<and>
      scans = of_nat expected_scans \<and> scan_sum = expected_scan_sum)"

text \<open>The router of this build: both sides are the CPU engine.\<close>

definition main_router :: router where
  "main_router = snd (place_scan_column (of_nat (MATRIX_SCAN_COLUMN_SIZE * 4))
     \<lparr>rt_has_gpu = False, rt_cm = \<lparr>cm_mm = detect False, cm_gpu_available = False\<rparr>, rt_placement = []\<rparr>)"

section \<open>Batches count\<close>

lemma batch_counts:
  assumes "mem_ok pe" "length b \<le> MATRIX_BATCH_MAX" "card (dom (pe_map pe) \<union> write_keys b) \<le> 65536"
  shows "\<exists>pe'. execute_batch b pe = Some pe' \<and> mem_ok pe' \<and> dom (pe_map pe') \<subseteq> dom (pe_map pe) \<union> write_keys b \<and>
    pe_reads pe' = pe_reads pe + op_count OP_READ b \<and>
    pe_writes pe' = pe_writes pe + op_count OP_WRITE b \<and> pe_commits pe' = pe_commits pe + op_count OP_WRITE b"
proof (cases "b = []")
  case True
  then show ?thesis using assms(1) by (simp add: execute_batch_def write_keys_def)
next
  case False
  have b: "b = take MATRIX_BATCH_MAX b" using assms(2) by simp
  have len: "length (pe_binned pe) = MATRIX_BATCH_MAX" using assms(1) by (simp add: mem_ok_def)
  let ?n = "length b"
  obtain binned offsets where e: "execute_batch b pe = opt_fold point_op [0..<?n] (pe\<lparr>pe_binned := binned, pe_offsets := offsets\<rparr>)"
    "take ?n binned = concat (map (\<lambda>p. filter (\<lambda>q. query_page q = p) b) [0..<MATRIX_PAGE_COUNT])" "length binned = MATRIX_BATCH_MAX"
    using len False b by (rule execute_batch_flat)
  let ?pe = "pe\<lparr>pe_binned := binned, pe_offsets := offsets\<rparr>" and ?qs = "take ?n binned"
  have ms: "mset ?qs = mset b" unfolding e(2) by (rule pages_mset)
  then have wk: "write_keys ?qs = write_keys b" by (simp add: write_keys_def flip: set_mset_mset)
  have cnt: "length (filter P ?qs) = length (filter P b)" for P using length_filter_mset [OF ms] .
  have "mem_ok ?pe" using assms(1) e(3) by (simp add: mem_ok_def)
  from point_ops_seq [OF this, of ?n] obtain pe' where pe': "opt_fold point_op [0..<?n] ?pe = Some pe'" "mem_ok pe'"
    "pe_map pe' = snd (seq_batch (pe_map pe) ?qs)" "pe_reads pe' = pe_reads pe + op_count OP_READ ?qs"
    "pe_writes pe' = pe_writes pe + op_count OP_WRITE ?qs" "pe_commits pe' = pe_commits pe + op_count OP_WRITE ?qs"
    using assms(2,3) e(3) by (auto simp: wk)
  moreover have "dom (pe_map pe') \<subseteq> dom (pe_map pe) \<union> write_keys b"
    using dom_seq_batch [of "pe_map pe" ?qs] by (simp add: pe'(3) wk)
  ultimately show ?thesis unfolding e(1) by (simp add: cnt)
qed

section \<open>The sweep\<close>

definition odd_keys :: "u64 set" where
  "odd_keys = of_nat ` {i. i < 65536 \<and> odd i}"

lemma card_odd_keys: "card odd_keys \<le> 65536"
proof -
  have "card odd_keys \<le> card {i :: nat. i < 65536 \<and> odd i}" unfolding odd_keys_def by (rule card_image_le) simp
  also have "\<dots> \<le> card {..<65536 :: nat}" by (rule card_mono) auto
  finally show ?thesis by simp
qed

lemma sweep_write_keys: "write_keys (take n sweep_batch) \<subseteq> odd_keys"
proof
  fix k assume "k \<in> write_keys (take n sweep_batch)"
  then obtain q where q: "q \<in> set sweep_batch" "opcode q = OP_WRITE" "k = query_id q"
    unfolding write_keys_def using set_take_subset [of n sweep_batch] by auto
  then obtain i where i: "i < MATRIX_BATCH_MAX" "q = zero_query\<lparr>query_id := of_nat i, opcode := (if i mod 2 = 0 then OP_READ else OP_WRITE)\<rparr>"
    by (auto simp: sweep_batch_def)
  have "OP_READ \<noteq> OP_WRITE" by (simp add: wal_consts)
  then have "odd i" "k = of_nat i" using q(2,3) i(2) by (auto simp: odd_iff_mod_2_eq_one split: if_splits)
  then show "k \<in> odd_keys" using i(1) by (auto simp: odd_keys_def MATRIX_BATCH_MAX_def)
qed

lemma sweep_step:
  assumes "mem_ok pe" "dom (pe_map pe) \<subseteq> odd_keys"
  shows "\<exists>pe'. execute_batch (take n sweep_batch) pe = Some pe' \<and> mem_ok pe' \<and> dom (pe_map pe') \<subseteq> odd_keys"
proof -
  have sub: "dom (pe_map pe) \<union> write_keys (take n sweep_batch) \<subseteq> odd_keys" using assms(2) sweep_write_keys by blast
  have "finite odd_keys" by simp
  then have "card (dom (pe_map pe) \<union> write_keys (take n sweep_batch)) \<le> 65536" using sub card_odd_keys card_mono le_trans by metis
  moreover have "length (take n sweep_batch) \<le> MATRIX_BATCH_MAX" by (simp add: sweep_batch_def)
  ultimately show ?thesis using batch_counts [OF assms(1)] sub by (meson order_trans)
qed

lemma opt_fold_keeps:
  assumes "\<And>x s. x \<in> set xs \<Longrightarrow> P s \<Longrightarrow> \<exists>s'. f x s = Some s' \<and> P s'" "P s"
  shows "\<exists>s'. opt_fold f xs s = Some s' \<and> P s'"
  using assms
proof (induction xs arbitrary: s)
  case (Cons x xs)
  obtain s1 where "f x s = Some s1" "P s1" using Cons.prems(1) [of x s] Cons.prems(2) by auto
  moreover have "\<exists>s'. opt_fold f xs s1 = Some s' \<and> P s'" using Cons.IH [OF _ \<open>P s1\<close>] Cons.prems(1) by simp
  ultimately show ?case by simp
qed simp

lemma sweep_returns:
  assumes "mem_ok pe" "dom (pe_map pe) \<subseteq> odd_keys"
  shows "\<exists>pe'. sweep_batch_sizes pe = Some pe' \<and> mem_ok pe' \<and> dom (pe_map pe') \<subseteq> odd_keys"
proof -
  let ?P = "\<lambda>pe. mem_ok pe \<and> dom (pe_map pe) \<subseteq> odd_keys"
  obtain pe1 where pe1: "execute_batch (take 256 sweep_batch) pe = Some pe1" "?P pe1" using sweep_step [OF assms] by blast
  have point: "\<exists>pe'. opt_fold (\<lambda>_. execute_batch (take bs sweep_batch)) [0..<400000 div bs] pe = Some pe' \<and> ?P pe'"
    if "bs \<in> set sweep_sizes" "?P pe" for bs pe using that sweep_step by (intro opt_fold_keeps) auto
  have "\<exists>pe'. opt_fold (\<lambda>bs. opt_fold (\<lambda>_. execute_batch (take bs sweep_batch)) [0..<400000 div bs]) sweep_sizes pe1 = Some pe' \<and> ?P pe'"
    by (rule opt_fold_keeps [where P = ?P, OF point pe1(2)])
  then show ?thesis unfolding sweep_batch_sizes_def using pe1(1) by simp
qed

section \<open>Scans count\<close>

lemma count_above_upt:
  fixes t :: "'a::len word"
  assumes "n < 2 ^ LENGTH('a)" "unat t < n"
  shows "count_above t (map of_nat [0..<n]) = of_nat (n - 1 - unat t)"
proof -
  have lt: "t < of_nat i \<longleftrightarrow> unat t < i" if "i < n" for i
    using that assms(1) by (simp add: word_less_nat_alt unat_of_nat_small)
  have "filter (\<lambda>v. t < v) (map of_nat [0..<n]) = map of_nat (filter (\<lambda>i. unat t < i) [0..<n])"
    by (simp add: filter_map comp_def) (rule arg_cong [where f = "map of_nat"], rule filter_cong, auto simp: lt)
  moreover have "filter (\<lambda>i. k < i) [0..<n] = [Suc k..<n]" if "k < n" for k :: nat
  proof -
    have "[0..<n] = [0..<Suc k] @ [Suc k..<n]" using that upt_add_eq_append [of 0 "Suc k" "n - Suc k"] by simp
    then show ?thesis by (auto simp: filter_empty_conv filter_id_conv)
  qed
  ultimately show ?thesis using assms(2) by (simp add: count_above_def)
qed

lemma cpu_count_above:
  "op \<notin> {AGG_SUM, AGG_MIN, AGG_MAX} \<Longrightarrow> n = length d \<Longrightarrow> matrix_cpu_reduce d n t op = count_above t d"
  using fold_count_above [of t d] by (simp add: matrix_cpu_reduce_def)

section \<open>The invariant of the pipeline\<close>

definition point_ids :: "nat \<Rightarrow> nat list" where
  "point_ids n = filter (\<lambda>i. \<not> is_scan i) [0..<n]"

definition scan_ids :: "nat \<Rightarrow> nat list" where
  "scan_ids n = filter is_scan [0..<n]"

definition made_as :: "database_query \<Rightarrow> nat \<Rightarrow> bool" where
  "made_as q i \<longleftrightarrow> (\<exists>stamp. q = produced stamp i)"

definition scan_count :: u64 where
  "scan_count = of_nat (MATRIX_SCAN_COLUMN_SIZE - 1 - unat SCAN_THRESHOLD)"

lemma ids_Suc:
  "point_ids (Suc n) = point_ids n @ (if is_scan n then [] else [n])"
  "scan_ids (Suc n) = scan_ids n @ (if is_scan n then [n] else [])"
  by (simp_all add: point_ids_def scan_ids_def)

lemma ids_total: "length (point_ids TOTAL_QUERIES) = expected_pointops" "length (scan_ids TOTAL_QUERIES) = expected_scans"
  using sum_length_filter_compl [of is_scan "[0..<TOTAL_QUERIES]"]
  by (simp_all add: point_ids_def scan_ids_def expected_pointops_def expected_scans_def)

lemma point_query:
  assumes "made_as q i" "i \<in> set (point_ids n)" "n \<le> TOTAL_QUERIES"
  shows "opcode q = OP_READ \<or> opcode q = OP_WRITE" "opcode q = OP_WRITE \<Longrightarrow> query_id q \<in> odd_keys"
proof -
  have i: "\<not> is_scan i" "i < 65536" using assms(2,3) by (auto simp: point_ids_def TOTAL_QUERIES_def)
  then obtain stamp where q: "q = \<lparr>query_id = of_nat i, timestamp_us = stamp, transaction_id = 0,
      opcode = (if i mod 2 = 0 then OP_READ else OP_WRITE), payload_size = 8, payload = replicate 32 0\<rparr>"
    using assms(1) by (auto simp: made_as_def produced_def)
  then show "opcode q = OP_READ \<or> opcode q = OP_WRITE" by simp
  show "query_id q \<in> odd_keys" if "opcode q = OP_WRITE"
  proof -
    have "OP_READ \<noteq> OP_WRITE" by (simp add: wal_consts)
    then have "odd i" using that q by (cases "i mod 2 = 0") (simp_all add: even_iff_mod_2_eq_zero)
    then show ?thesis unfolding odd_keys_def using i(2) q by (intro image_eqI [of _ _ i]) simp_all
  qed
qed

lemma scan_query_fields:
  assumes "made_as q i" "is_scan i"
  shows "matrix_get_scan_column_id q = 0" "matrix_get_scan_threshold q = SCAN_THRESHOLD" "matrix_get_scan_agg_op q = AGG_COUNT"
proof -
  have 1: "payload q = u32_bytes SCAN_THRESHOLD @ replicate 4 0 @ u64_bytes 0 @ replicate 16 0"
    using assms by (auto simp: made_as_def produced_def matrix_set_scan_threshold_def matrix_set_scan_target_def poke_def)
  show "matrix_get_scan_threshold q = SCAN_THRESHOLD" by (simp add: matrix_get_scan_threshold_def 1)
  show "matrix_get_scan_column_id q = 0" by (simp add: matrix_get_scan_column_id_def 1)
  show "matrix_get_scan_agg_op q = AGG_COUNT"
    by (simp add: matrix_get_scan_agg_op_def 1 AGG_COUNT_def numeral_eq_Suc)
qed

lemma scan_threshold_value: "unat SCAN_THRESHOLD = MATRIX_SCAN_COLUMN_SIZE div 2"
  by (simp add: SCAN_THRESHOLD_def MATRIX_SCAN_COLUMN_SIZE_def)

lemma pipeline_scan:
  assumes "made_as q i" "is_scan i"
  shows "\<exists>ce'. execute_scan q ce = Some (q\<lparr>transaction_id := scan_count\<rparr>, ce') \<and>
    ce_scans ce' = ce_scans ce + 1 \<and> ce_scan_result_sum ce' = ce_scan_result_sum ce + scan_count"
proof -
  let ?n = MATRIX_SCAN_COLUMN_SIZE
  have n: "?n < 2 ^ LENGTH(32)" "unat SCAN_THRESHOLD < ?n"
    unfolding scan_threshold_value by (simp_all add: MATRIX_SCAN_COLUMN_SIZE_def)
  have "matrix_cpu_reduce (map of_nat [0..<?n]) ?n SCAN_THRESHOLD AGG_COUNT = scan_count"
    using cpu_count_above [of AGG_COUNT ?n "map of_nat [0..<?n]" SCAN_THRESHOLD] count_above_upt [OF n]
    by (simp add: scan_count_def)
  then show ?thesis using scan_query_fields [OF assms] by (simp add: execute_scan_def)
qed

text \<open>What the scan consumer makes of the engine.\<close>

definition scan_on :: "database_query \<Rightarrow> catalog_engine \<Rightarrow> catalog_engine option" where
  "scan_on q ce = map_option snd (execute_scan q ce)"

definition ring_carries :: "bool \<Rightarrow> database_query ring \<Rightarrow> pipeline \<Rightarrow> bool" where
  "ring_carries scan r s \<longleftrightarrow> (\<forall>y. prod_item (rb_prod r) = Some y \<longrightarrow> pl_query s = Some y \<and> is_scan (pl_made s) = scan)"

text \<open>
  \<open>bss\<close> are the batches executed so far and \<open>sx\<close> the scans: with the batch in hand and the contents of the
  rings they are the queries made so far, in order, and the engine is what executing them gives.
\<close>

definition queues_ok :: "pipeline \<Rightarrow> database_query list list \<Rightarrow> database_query list \<Rightarrow> bool" where
  "queues_ok s bss sx \<longleftrightarrow>
     list_all2 made_as (concat bss @ pl_batch s @ ring_contents (pl_ring s)) (point_ids (pl_made s)) \<and>
     list_all2 made_as (sx @ ring_contents (pl_scan_ring s)) (scan_ids (pl_made s)) \<and>
     ring_inv 12 (pl_ring s) \<and> ring_inv 6 (pl_scan_ring s) \<and>
     unat (rb_tail (pl_ring s)) \<le> pl_made s \<and> unat (rb_tail (pl_scan_ring s)) \<le> pl_made s \<and>
     ring_carries False (pl_ring s) s \<and> ring_carries True (pl_scan_ring s) s \<and>
     (\<forall>q. pl_query s = Some q \<longrightarrow> made_as q (pl_made s) \<and> pl_made s < TOTAL_QUERIES) \<and>
     pl_made s \<le> TOTAL_QUERIES \<and> length (pl_batch s) < BATCH_SIZE_LIMIT"

definition engine_ran :: "point_engine \<Rightarrow> catalog_engine \<Rightarrow> pipeline \<Rightarrow> database_query list list \<Rightarrow> database_query list \<Rightarrow> bool" where
  "engine_ran pe ce s bss sx \<longleftrightarrow>
     length (concat bss) = pl_processed s \<and> length sx = pl_scans_processed s \<and>
     (\<forall>b \<in> set bss. b \<noteq> [] \<and> length b \<le> BATCH_SIZE_LIMIT) \<and>
     opt_fold execute_batch bss pe = Some (pl_point s) \<and> opt_fold scan_on sx ce = Some (pl_catalog s) \<and>
     mem_ok (pl_point s) \<and> dom (pe_map (pl_point s)) \<subseteq> odd_keys \<and>
     pe_reads (pl_point s) = pe_reads pe + op_count OP_READ (concat bss) \<and>
     pe_writes (pl_point s) = pe_writes pe + op_count OP_WRITE (concat bss) \<and>
     pe_commits (pl_point s) = pe_commits pe + op_count OP_WRITE (concat bss) \<and>
     ce_scans (pl_catalog s) = ce_scans ce + of_nat (length sx) \<and>
     ce_scan_result_sum (pl_catalog s) = ce_scan_result_sum ce + of_nat (length sx) * scan_count"

definition stops_ok :: "pipeline \<Rightarrow> bool" where
  "stops_ok s \<longleftrightarrow>
     (\<not> pl_run_state s \<longrightarrow> pl_made s = TOTAL_QUERIES \<and> expected_pointops \<le> pl_processed s \<and> expected_scans \<le> pl_scans_processed s) \<and>
     (pl_consumer_joined s \<longrightarrow> \<not> pl_run_state s) \<and> (pl_draining s \<longrightarrow> \<not> pl_run_state s) \<and>
     (pl_scan_consumer_joined s \<longrightarrow> pl_draining s)"

definition pipeline_inv :: "point_engine \<Rightarrow> catalog_engine \<Rightarrow> pipeline \<Rightarrow> database_query list list \<Rightarrow> database_query list \<Rightarrow> bool" where
  "pipeline_inv pe ce s bss sx \<longleftrightarrow> queues_ok s bss sx \<and> engine_ran pe ce s bss sx \<and> stops_ok s"

lemma pipeline_invD:
  assumes "pipeline_inv pe ce s bss sx"
  shows "queues_ok s bss sx" "engine_ran pe ce s bss sx" "stops_ok s"
  using assms by (simp_all add: pipeline_inv_def)

lemma queues_okD:
  assumes "queues_ok s bss sx"
  shows "list_all2 made_as (concat bss @ pl_batch s @ ring_contents (pl_ring s)) (point_ids (pl_made s))"
    "list_all2 made_as (sx @ ring_contents (pl_scan_ring s)) (scan_ids (pl_made s))"
    "ring_inv 12 (pl_ring s)" "ring_inv 6 (pl_scan_ring s)"
    "unat (rb_tail (pl_ring s)) + 1 < 2 ^ 64" "unat (rb_tail (pl_scan_ring s)) + 1 < 2 ^ 64"
    "pl_made s \<le> TOTAL_QUERIES" "length (pl_batch s) < BATCH_SIZE_LIMIT"
  using assms by (simp_all add: queues_ok_def TOTAL_QUERIES_def)

lemma made_queries:
  assumes "queues_ok s bss sx" "q \<in> set (concat bss @ pl_batch s @ ring_contents (pl_ring s))"
  shows "opcode q = OP_READ \<or> opcode q = OP_WRITE" "opcode q = OP_WRITE \<Longrightarrow> query_id q \<in> odd_keys"
proof -
  obtain i where "made_as q i" "i \<in> set (point_ids (pl_made s))" "pl_made s \<le> TOTAL_QUERIES"
    using queues_okD(1,7) [OF assms(1)] assms(2) by (metis (no_types, lifting) list_all2_conv_all_nth in_set_conv_nth)
  then show "opcode q = OP_READ \<or> opcode q = OP_WRITE" "opcode q = OP_WRITE \<Longrightarrow> query_id q \<in> odd_keys"
    using point_query by blast+
qed

lemma opt_fold_snoc: "opt_fold f (xs @ [x]) s = Option.bind (opt_fold f xs s) (f x)"
  by (simp add: opt_fold_append split: option.split)

text \<open>A batch of made queries runs, and the engine is as before with the batch executed.\<close>

lemma flush_inv:
  assumes q: "\<forall>q \<in> set (pl_batch s). opcode q = OP_WRITE \<longrightarrow> query_id q \<in> odd_keys" and ran: "engine_ran pe ce s bss sx"
    and b: "length (pl_batch s) \<le> BATCH_SIZE_LIMIT"
  obtains (flushed) pe' where "flush_batch dur s =
      Some (s\<lparr>pl_point := pe', pl_processed := pl_processed s + length (pl_batch s), pl_batch := []\<rparr>)" "pl_batch s \<noteq> []"
      "engine_ran pe ce (s\<lparr>pl_point := pe', pl_processed := pl_processed s + length (pl_batch s), pl_batch := []\<rparr>) (bss @ [pl_batch s]) sx"
  | (kept) "flush_batch dur s = Some s" "length (pl_batch s) < BATCH_SIZE_LIMIT" "TEMPORAL_LIMIT_US \<le> dur \<longrightarrow> pl_batch s = []"
proof (cases "pl_batch s \<noteq> [] \<and> (BATCH_SIZE_LIMIT \<le> length (pl_batch s) \<or> TEMPORAL_LIMIT_US \<le> dur)")
  case True
  let ?b = "pl_batch s"
  have I: "mem_ok (pl_point s)" "dom (pe_map (pl_point s)) \<subseteq> odd_keys" using ran by (simp_all add: engine_ran_def)
  have sub: "dom (pe_map (pl_point s)) \<union> write_keys ?b \<subseteq> odd_keys" using q I(2) by (auto simp: write_keys_def)
  have fin: "finite odd_keys" by simp
  have "card (dom (pe_map (pl_point s)) \<union> write_keys ?b) \<le> 65536" using card_mono [OF fin sub] card_odd_keys by linarith
  moreover have "length ?b \<le> MATRIX_BATCH_MAX" using b by (simp add: BATCH_SIZE_LIMIT_def MATRIX_BATCH_MAX_def)
  ultimately obtain pe' where pe': "execute_batch ?b (pl_point s) = Some pe'" "mem_ok pe'"
    "dom (pe_map pe') \<subseteq> dom (pe_map (pl_point s)) \<union> write_keys ?b"
    "pe_reads pe' = pe_reads (pl_point s) + op_count OP_READ ?b"
    "pe_writes pe' = pe_writes (pl_point s) + op_count OP_WRITE ?b" "pe_commits pe' = pe_commits (pl_point s) + op_count OP_WRITE ?b"
    using batch_counts [OF I(1)] by blast
  have "dom (pe_map pe') \<subseteq> odd_keys" using pe'(3) sub by blast
  then have "engine_ran pe ce (s\<lparr>pl_point := pe', pl_processed := pl_processed s + length ?b, pl_batch := []\<rparr>) (bss @ [?b]) sx"
    using ran pe'(1,2,4-6) True b by (simp add: engine_ran_def opt_fold_snoc add.assoc)
  moreover have "flush_batch dur s = Some (s\<lparr>pl_point := pe', pl_processed := pl_processed s + length ?b, pl_batch := []\<rparr>)"
    using True pe'(1) by (simp add: flush_batch_def)
  ultimately show thesis using True by (intro flushed) simp_all
next
  case False
  then show thesis by (intro kept) (auto simp: flush_batch_def BATCH_SIZE_LIMIT_def)
qed

lemma consume_prod:
  assumes "consume dur s = Some s'"
  shows "rb_prod (pl_ring s') = rb_prod (pl_ring s)"
proof -
  obtain e r where st: "consumer_step (pl_ring s) = (e, r)" by (rule prod.exhaust)
  have "pl_ring s' = r" using assms st by (auto simp: consume_def flush_batch_def Let_def split: event.splits if_splits)
  then show ?thesis using ring_step_keeps(2) [OF st] by simp
qed

lemma produce_inv:
  assumes inv: "pipeline_inv pe ce s bss sx" "pl_made s < TOTAL_QUERIES"
  shows "pipeline_inv pe ce (produce stamp s) bss sx"
proof -
  note I = pipeline_invD [OF inv(1)] and Q = queues_okD [OF pipeline_invD(1) [OF inv(1)]]
  have run: "pl_run_state s" using I(3) inv(2) by (auto simp: stops_ok_def)
  have same: "engine_ran pe ce s' bss sx \<and> stops_ok s'"
    if "pl_point s' = pl_point s" "pl_catalog s' = pl_catalog s" "pl_processed s' = pl_processed s"
      "pl_scans_processed s' = pl_scans_processed s" "pl_run_state s' = pl_run_state s" "pl_consumer_joined s' = pl_consumer_joined s"
      "pl_draining s' = pl_draining s" "pl_scan_consumer_joined s' = pl_scan_consumer_joined s" for s'
  proof
    show "engine_ran pe ce s' bss sx" using I(2) that(1-4) by (simp add: engine_ran_def)
    show "stops_ok s'" using I(3) run that by (auto simp: stops_ok_def)
  qed
  show ?thesis
  proof (cases "pl_query s")
    case None
    then have "queues_ok (produce stamp s) bss sx"
      using I(1) inv(2) by (auto simp: queues_ok_def produce_def ring_carries_def made_as_def)
    then show ?thesis using same [of "produce stamp s"] None by (simp add: pipeline_inv_def produce_def)
  next
    case (Some q)
    have q: "made_as q (pl_made s)" using I(1) Some by (simp add: queues_ok_def)
    have other: "prod_item (rb_prod (if is_scan (pl_made s) then pl_ring s else pl_scan_ring s)) = None"
      using I(1) by (cases "prod_item (rb_prod (if is_scan (pl_made s) then pl_ring s else pl_scan_ring s))")
        (auto simp: queues_ok_def ring_carries_def split: if_splits)
    show ?thesis
    proof (cases "is_scan (pl_made s)")
      case True
      obtain e r where st: "producer_step q (pl_scan_ring s) = (e, r)" by (rule prod.exhaust)
      have x: "prod_item (rb_prod (pl_scan_ring s)) \<in> {None, Some q}"
        using I(1) Some by (cases "prod_item (rb_prod (pl_scan_ring s))") (auto simp: queues_ok_def ring_carries_def)
      have p: "produce stamp s = emplaced e (s\<lparr>pl_scan_ring := r\<rparr>)" using Some True st by (simp add: produce_def)
      note ri = client_step_inv(1) [OF Q(4,6) st]
      have "queues_ok (produce stamp s) bss sx"
        using Q(4,6) x st
      proof (cases rule: producer_step_cases)
        case Pushed
        have "list_all2 made_as ((sx @ ring_contents (pl_scan_ring s)) @ [q]) (scan_ids (Suc (pl_made s)))"
          unfolding ids_Suc using Q(2) True q by (intro list_all2_appendI) simp_all
        then show ?thesis using I(1) ri Pushed True other inv(2) unfolding p emplaced_def
          by (simp add: queues_ok_def ids_Suc ring_carries_def)
      qed (use I(1) ri True Some other in \<open>simp_all add: p emplaced_def queues_ok_def ring_carries_def\<close>)
      then show ?thesis using same [of "produce stamp s"] by (simp add: pipeline_inv_def p emplaced_def split: event.split)
    next
      case False
      obtain e r where st: "producer_step q (pl_ring s) = (e, r)" by (rule prod.exhaust)
      have x: "prod_item (rb_prod (pl_ring s)) \<in> {None, Some q}"
        using I(1) Some by (cases "prod_item (rb_prod (pl_ring s))") (auto simp: queues_ok_def ring_carries_def)
      have p: "produce stamp s = emplaced e (s\<lparr>pl_ring := r\<rparr>)" using Some False st by (simp add: produce_def)
      note ri = client_step_inv(1) [OF Q(3,5) st]
      have "queues_ok (produce stamp s) bss sx"
        using Q(3,5) x st
      proof (cases rule: producer_step_cases)
        case Pushed
        have "list_all2 made_as ((concat bss @ pl_batch s @ ring_contents (pl_ring s)) @ [q]) (point_ids (Suc (pl_made s)))"
          unfolding ids_Suc using Q(1) False q by (intro list_all2_appendI) simp_all
        then show ?thesis using I(1) ri Pushed False other inv(2) unfolding p emplaced_def
          by (simp add: queues_ok_def ids_Suc ring_carries_def)
      qed (use I(1) ri False Some other in \<open>simp_all add: p emplaced_def queues_ok_def ring_carries_def\<close>)
      then show ?thesis using same [of "produce stamp s"] by (simp add: pipeline_inv_def p emplaced_def split: event.split)
    qed
  qed
qed

text \<open>What the consumer does to everything but its ring: nothing, or a batch is executed.\<close>

definition outside_ring :: "pipeline \<Rightarrow> pipeline \<Rightarrow> bool" where
  "outside_ring s s' \<longleftrightarrow> pl_made s' = pl_made s \<and> pl_query s' = pl_query s \<and> pl_scan_ring s' = pl_scan_ring s \<and>
     pl_run_state s' = pl_run_state s \<and> pl_consumer_joined s' = pl_consumer_joined s \<and> pl_draining s' = pl_draining s \<and>
     pl_scan_consumer_joined s' = pl_scan_consumer_joined s"

lemma flush_queues:
  assumes q: "queues_ok (s\<lparr>pl_batch := []\<rparr>) (bss @ [pl_batch s]) sx" and ran: "engine_ran pe ce s bss sx" "stops_ok s"
    and b: "length (pl_batch s) \<le> BATCH_SIZE_LIMIT"
  shows "\<exists>s' bss'. flush_batch dur s = Some s' \<and> pipeline_inv pe ce s' bss' sx \<and> pl_ring s' = pl_ring s \<and> outside_ring s s' \<and>
    length (pl_batch s') \<le> length (pl_batch s) \<and> (TEMPORAL_LIMIT_US \<le> dur \<longrightarrow> pl_batch s' = [])"
proof -
  have w: "\<forall>q \<in> set (pl_batch s). opcode q = OP_WRITE \<longrightarrow> query_id q \<in> odd_keys" using made_queries(2) [OF q] by auto
  show ?thesis
    using w ran(1) b
  proof (cases rule: flush_inv [where dur = dur])
    case (flushed pe')
    let ?s = "s\<lparr>pl_point := pe', pl_processed := pl_processed s + length (pl_batch s), pl_batch := []\<rparr>"
    have "queues_ok ?s (bss @ [pl_batch s]) sx" using q by (simp add: queues_ok_def ring_carries_def)
    moreover have "stops_ok ?s" using ran(2) by (auto simp: stops_ok_def)
    ultimately show ?thesis using flushed
      by (intro exI [of _ ?s] exI [of _ "bss @ [pl_batch s]"]) (simp add: pipeline_inv_def outside_ring_def)
  next
    case kept
    have "queues_ok s bss sx" using q kept(2) by (simp add: queues_ok_def ring_carries_def)
    then show ?thesis using kept ran by (intro exI [of _ s] exI [of _ bss]) (simp add: pipeline_inv_def outside_ring_def)
  qed
qed

lemma consume_inv:
  assumes inv: "pipeline_inv pe ce s bss sx"
  shows "\<exists>s' bss'. consume dur s = Some s' \<and> pipeline_inv pe ce s' bss' sx \<and> outside_ring s s' \<and>
    (ring_contents (pl_ring s') = ring_contents (pl_ring s) \<and> pl_batch s' = pl_batch s \<and>
       cons_left (rb_cons (pl_ring s)) = Suc (cons_left (rb_cons (pl_ring s'))) \<or>
     ring_contents (pl_ring s) = [] \<and> ring_contents (pl_ring s') = [] \<and> rb_cons (pl_ring s') = CIdle \<and> cons_left (rb_cons (pl_ring s)) = 2 \<and>
       length (pl_batch s') \<le> length (pl_batch s) \<and> (TEMPORAL_LIMIT_US \<le> dur \<longrightarrow> pl_batch s' = []) \<or>
     ring_contents (pl_ring s) \<noteq> [] \<and> ring_contents (pl_ring s') = tl (ring_contents (pl_ring s)) \<and> rb_cons (pl_ring s') = CIdle \<and>
       (TEMPORAL_LIMIT_US \<le> dur \<longrightarrow> pl_batch s' = []))"
proof -
  note I = pipeline_invD [OF inv] and Q = queues_okD [OF pipeline_invD(1) [OF inv]]
  obtain e r where st: "consumer_step (pl_ring s) = (e, r)" by (rule prod.exhaust)
  note ri = client_step_inv(2) [OF Q(3,5) st] and keep = ring_step_keeps(2) [OF st]
  have ran: "engine_ran pe ce s' bss sx" "stops_ok s'" if "s' = s\<lparr>pl_ring := r, pl_batch := b\<rparr>" for s' b
    using I(2,3) by (simp_all add: that engine_ran_def stops_ok_def)
  show ?thesis
    using Q(3,5) st
  proof (cases rule: consumer_step_cases)
    case Internal
    let ?s = "s\<lparr>pl_ring := r\<rparr>"
    have "queues_ok ?s bss sx" using I(1) ri keep Internal(2) by (simp add: queues_ok_def ring_carries_def)
    then have "pipeline_inv pe ce ?s bss sx" using ran [of ?s "pl_batch s"] by (simp add: pipeline_inv_def)
    moreover have "consume dur s = Some ?s" using st Internal(1) by (simp add: consume_def)
    ultimately show ?thesis using Internal by (intro exI [of _ ?s] exI [of _ bss]) (simp add: outside_ring_def)
  next
    case Empty
    let ?s = "s\<lparr>pl_ring := r\<rparr>"
    have "queues_ok (?s\<lparr>pl_batch := []\<rparr>) (bss @ [pl_batch ?s]) sx"
      using I(1) ri keep Empty(2,3) by (simp add: queues_ok_def ring_carries_def BATCH_SIZE_LIMIT_def)
    moreover have "engine_ran pe ce ?s bss sx" "stops_ok ?s" "length (pl_batch ?s) \<le> BATCH_SIZE_LIMIT"
      using ran [of ?s "pl_batch s"] Q(8) by simp_all
    ultimately obtain s' bss' where "flush_batch dur ?s = Some s'" "pipeline_inv pe ce s' bss' sx" "pl_ring s' = pl_ring ?s" "outside_ring ?s s'"
      "length (pl_batch s') \<le> length (pl_batch ?s)" "TEMPORAL_LIMIT_US \<le> dur \<longrightarrow> pl_batch s' = []" using flush_queues [of ?s bss sx pe ce dur] by blast
    moreover from this have "consume dur s = Some s'" using st Empty(1) by (simp add: consume_def)
    ultimately show ?thesis using Empty by (intro exI [of _ s'] exI [of _ bss']) (simp add: outside_ring_def)
  next
    case (Popped v)
    let ?s = "s\<lparr>pl_ring := r, pl_batch := pl_batch s @ [v]\<rparr>"
    have "queues_ok (?s\<lparr>pl_batch := []\<rparr>) (bss @ [pl_batch ?s]) sx"
      using I(1) ri keep Popped(2) by (simp add: queues_ok_def ring_carries_def BATCH_SIZE_LIMIT_def)
    moreover have "engine_ran pe ce ?s bss sx" "stops_ok ?s" "length (pl_batch ?s) \<le> BATCH_SIZE_LIMIT"
      using ran [of ?s "pl_batch s @ [v]"] Q(8) by simp_all
    ultimately obtain s' bss' where "flush_batch dur ?s = Some s'" "pipeline_inv pe ce s' bss' sx" "pl_ring s' = pl_ring ?s" "outside_ring ?s s'"
      "TEMPORAL_LIMIT_US \<le> dur \<longrightarrow> pl_batch s' = []" using flush_queues [of ?s bss sx pe ce dur] by blast
    moreover from this have "consume dur s = Some s'" using st Popped(1) by (simp add: consume_def)
    ultimately show ?thesis using Popped by (intro exI [of _ s'] exI [of _ bss']) (simp add: outside_ring_def)
  qed
qed

lemma scan_round_inv:
  assumes inv: "pipeline_inv pe ce s bss sx" and go: "\<not> (rb_cons (pl_scan_ring s) = CIdle \<and> \<not> pl_draining s \<and> \<not> pl_run_state s)"
  shows "\<exists>s' sx'. scan_round s = Some s' \<and> pipeline_inv pe ce s' bss sx' \<and> pl_made s' = pl_made s \<and> pl_query s' = pl_query s \<and>
    pl_ring s' = pl_ring s \<and> pl_batch s' = pl_batch s \<and> pl_run_state s' = pl_run_state s \<and> pl_consumer_joined s' = pl_consumer_joined s \<and>
    pl_draining s' = pl_draining s \<and> rb_prod (pl_scan_ring s') = rb_prod (pl_scan_ring s) \<and>
    (ring_contents (pl_scan_ring s') = ring_contents (pl_scan_ring s) \<and> pl_scan_consumer_joined s' = pl_scan_consumer_joined s \<and>
       cons_left (rb_cons (pl_scan_ring s)) = Suc (cons_left (rb_cons (pl_scan_ring s'))) \<or>
     ring_contents (pl_scan_ring s) = [] \<and> ring_contents (pl_scan_ring s') = [] \<and> rb_cons (pl_scan_ring s') = CIdle \<and>
       cons_left (rb_cons (pl_scan_ring s)) = 2 \<and> pl_scan_consumer_joined s' = (pl_scan_consumer_joined s \<or> pl_draining s) \<or>
     ring_contents (pl_scan_ring s) \<noteq> [] \<and> ring_contents (pl_scan_ring s') = tl (ring_contents (pl_scan_ring s)) \<and>
       rb_cons (pl_scan_ring s') = CIdle \<and> pl_scan_consumer_joined s' = pl_scan_consumer_joined s)"
proof -
  note I = pipeline_invD [OF inv] and Q = queues_okD [OF pipeline_invD(1) [OF inv]]
  obtain e r where st: "consumer_step (pl_scan_ring s) = (e, r)" by (rule prod.exhaust)
  note ri = client_step_inv(2) [OF Q(4,6) st] and keep = ring_step_keeps(2) [OF st]
  let ?s = "s\<lparr>pl_scan_ring := r\<rparr>"
  show ?thesis
    using Q(4,6) st
  proof (cases rule: consumer_step_cases)
    case Internal
    have "queues_ok ?s bss sx" using I(1) ri keep Internal(2) by (simp add: queues_ok_def ring_carries_def)
    then have "pipeline_inv pe ce ?s bss sx" using I(2,3) by (simp add: pipeline_inv_def engine_ran_def stops_ok_def)
    moreover have "scan_round s = Some ?s" using st Internal(1) by (simp add: scan_round_def if_not_P [OF go])
    ultimately show ?thesis using Internal keep by (intro exI [of _ ?s] exI [of _ sx]) simp
  next
    case Empty
    let ?t = "if pl_draining s then ?s\<lparr>pl_scan_consumer_joined := True\<rparr> else ?s"
    have "queues_ok ?t bss sx" using I(1) ri keep Empty(2,3) by (simp add: queues_ok_def ring_carries_def)
    then have "pipeline_inv pe ce ?t bss sx" using I(2,3) by (auto simp: pipeline_inv_def engine_ran_def stops_ok_def)
    moreover have "scan_round s = Some ?t" using st Empty(1) by (simp add: scan_round_def if_not_P [OF go])
    ultimately show ?thesis using Empty keep by (intro exI [of _ ?t] exI [of _ sx]) simp
  next
    case (Popped v)
    have l: "list_all2 made_as (sx @ v # ring_contents r) (scan_ids (pl_made s))" using Q(2) Popped(2) by simp
    then have "length sx < length (scan_ids (pl_made s))" by (auto dest: list_all2_lengthD)
    then have "made_as v (scan_ids (pl_made s) ! length sx)" "scan_ids (pl_made s) ! length sx \<in> set (scan_ids (pl_made s))"
      using list_all2_nthD [OF l, of "length sx"] by simp_all
    then have "made_as v (scan_ids (pl_made s) ! length sx)" "is_scan (scan_ids (pl_made s) ! length sx)" by (simp_all add: scan_ids_def)
    from pipeline_scan [OF this, of "pl_catalog s"] obtain ce' where
      x: "execute_scan v (pl_catalog s) = Some (v\<lparr>transaction_id := scan_count\<rparr>, ce')" "ce_scans ce' = ce_scans (pl_catalog s) + 1"
      "ce_scan_result_sum ce' = ce_scan_result_sum (pl_catalog s) + scan_count" by blast
    let ?t = "?s\<lparr>pl_catalog := ce', pl_scans_processed := Suc (pl_scans_processed s)\<rparr>"
    have "queues_ok ?t bss (sx @ [v])" using I(1) ri keep l by (simp add: queues_ok_def ring_carries_def)
    moreover have "engine_ran pe ce ?t bss (sx @ [v])"
      using I(2) x by (simp add: engine_ran_def opt_fold_snoc scan_on_def algebra_simps)
    moreover have "stops_ok ?t" using I(3) by (auto simp: stops_ok_def)
    ultimately have "pipeline_inv pe ce ?t bss (sx @ [v])" by (simp add: pipeline_inv_def)
    moreover have "scan_round s = Some ?t" using st Popped(1) x(1) by (simp add: scan_round_def if_not_P [OF go])
    ultimately show ?thesis using Popped keep by (intro exI [of _ ?t] exI [of _ "sx @ [v]"]) simp
  qed
qed

lemma pipeline_inv_flags:
  assumes "pipeline_inv pe ce s bss sx"
  shows "\<not> pl_run_state s \<Longrightarrow> pipeline_inv pe ce (s\<lparr>pl_consumer_joined := True\<rparr>) bss sx"
    "\<not> pl_run_state s \<Longrightarrow> pipeline_inv pe ce (s\<lparr>pl_draining := True\<rparr>) bss sx"
    "pl_made s = TOTAL_QUERIES \<Longrightarrow> expected_pointops \<le> pl_processed s \<Longrightarrow> expected_scans \<le> pl_scans_processed s \<Longrightarrow>
      pipeline_inv pe ce (s\<lparr>pl_run_state := False\<rparr>) bss sx"
proof -
  note I = pipeline_invD [OF assms]
  have "queues_ok (s\<lparr>pl_consumer_joined := True\<rparr>) bss sx" "queues_ok (s\<lparr>pl_draining := True\<rparr>) bss sx" "queues_ok (s\<lparr>pl_run_state := False\<rparr>) bss sx"
    using I(1) by (simp_all add: queues_ok_def ring_carries_def)
  moreover have "engine_ran pe ce (s\<lparr>pl_consumer_joined := True\<rparr>) bss sx" "engine_ran pe ce (s\<lparr>pl_draining := True\<rparr>) bss sx"
    "engine_ran pe ce (s\<lparr>pl_run_state := False\<rparr>) bss sx" using I(2) by (simp_all add: engine_ran_def)
  ultimately show "\<not> pl_run_state s \<Longrightarrow> pipeline_inv pe ce (s\<lparr>pl_consumer_joined := True\<rparr>) bss sx"
    "\<not> pl_run_state s \<Longrightarrow> pipeline_inv pe ce (s\<lparr>pl_draining := True\<rparr>) bss sx"
    "pl_made s = TOTAL_QUERIES \<Longrightarrow> expected_pointops \<le> pl_processed s \<Longrightarrow> expected_scans \<le> pl_scans_processed s \<Longrightarrow>
      pipeline_inv pe ce (s\<lparr>pl_run_state := False\<rparr>) bss sx"
    using I(3) by (simp_all add: pipeline_inv_def stops_ok_def)
qed

lemma pipeline_step_inv:
  assumes inv: "pipeline_inv pe ce s bss sx" and step: "pipeline_step ev s = Some s'"
  shows "\<exists>bss' sx'. pipeline_inv pe ce s' bss' sx'"
proof (cases ev)
  case (Produce stamp)
  then have "s' = produce stamp s" "pl_made s < TOTAL_QUERIES" using step by (simp_all add: pipeline_step_def split: if_splits)
  then show ?thesis using produce_inv [OF inv] by blast
next
  case (Consume dur)
  show ?thesis
  proof (cases "rb_cons (pl_ring s) = CIdle \<and> \<not> pl_run_state s")
    case True
    then have "s' = s\<lparr>pl_consumer_joined := True\<rparr>" using step Consume by (simp add: pipeline_step_def split: if_splits)
    then show ?thesis using pipeline_inv_flags(1) [OF inv] True by blast
  next
    case False
    then have "consume dur s = Some s'" using step Consume by (simp add: pipeline_step_def if_not_P [OF False] split: if_splits)
    then show ?thesis using consume_inv [OF inv, of dur] by auto
  qed
next
  case ScanRound
  then have r: "scan_round s = Some s'" using step by (simp add: pipeline_step_def split: if_splits)
  show ?thesis
  proof (cases "rb_cons (pl_scan_ring s) = CIdle \<and> \<not> pl_draining s \<and> \<not> pl_run_state s")
    case True
    then show ?thesis using r pipeline_inv_flags(2) [OF inv] by (auto simp: scan_round_def)
  next
    case False
    then show ?thesis using r scan_round_inv [OF inv False] by auto
  qed
next
  case StopRun
  then have "s' = s\<lparr>pl_run_state := False\<rparr>" "pl_made s = TOTAL_QUERIES" "expected_pointops \<le> pl_processed s"
    "expected_scans \<le> pl_scans_processed s" using step by (simp_all add: pipeline_step_def split: if_splits)
  then show ?thesis using pipeline_inv_flags(3) [OF inv] by blast
qed

lemma pipeline_run_inv:
  "pipeline_run evs s = Some s' \<Longrightarrow> pipeline_inv pe ce s bss sx \<Longrightarrow> \<exists>bss' sx'. pipeline_inv pe ce s' bss' sx'"
proof (induction evs arbitrary: s bss sx)
  case (Cons ev evs)
  then obtain s1 where s1: "pipeline_step ev s = Some s1" "pipeline_run evs s1 = Some s'" by (auto simp: bind_eq_Some_conv)
  then obtain bss1 sx1 where "pipeline_inv pe ce s1 bss1 sx1" using pipeline_step_inv [OF Cons.prems(2)] by blast
  then show ?case by (rule Cons.IH [OF s1(2)])
qed auto

lemma pipeline_start_inv:
  "mem_ok pe \<Longrightarrow> dom (pe_map pe) \<subseteq> odd_keys \<Longrightarrow> pipeline_inv pe ce (pipeline_start pe ce) [] []"
  using ring_inv_init [of 12 zero_query] ring_inv_init [of 6 zero_query]
  by (simp add: pipeline_inv_def queues_ok_def engine_ran_def stops_ok_def pipeline_start_def point_ids_def scan_ids_def BATCH_SIZE_LIMIT_def
      ring_carries_def) (simp add: ring_contents_def ring_init_def)

text \<open>When the main thread has stopped the run, nothing is left in the rings and the batch.\<close>

lemma pipeline_drained:
  assumes "pipeline_inv pe ce s bss sx" "\<not> pl_run_state s"
  shows "pl_batch s = []" "ring_contents (pl_ring s) = []" "ring_contents (pl_scan_ring s) = []"
    "length (concat bss) = expected_pointops" "length sx = expected_scans" "pl_made s = TOTAL_QUERIES"
proof -
  note I = pipeline_invD [OF assms(1)] and Q = queues_okD [OF pipeline_invD(1) [OF assms(1)]]
  show m: "pl_made s = TOTAL_QUERIES" using I(3) assms(2) by (simp add: stops_ok_def)
  have "length (concat bss) + length (pl_batch s) + length (ring_contents (pl_ring s)) = expected_pointops"
    "length sx + length (ring_contents (pl_scan_ring s)) = expected_scans"
    using list_all2_lengthD [OF Q(1)] list_all2_lengthD [OF Q(2)] by (simp_all add: m ids_total)
  moreover have "expected_pointops \<le> length (concat bss)" "expected_scans \<le> length sx"
    using I(2,3) assms(2) by (simp_all add: stops_ok_def engine_ran_def)
  ultimately show "pl_batch s = []" "ring_contents (pl_ring s) = []" "ring_contents (pl_scan_ring s) = []"
    "length (concat bss) = expected_pointops" "length sx = expected_scans"
    unfolding length_0_conv [symmetric] by linarith+
qed

section \<open>The pipeline completes\<close>

definition producer_left :: "pipeline \<Rightarrow> nat" where
  "producer_left s = (case pl_query s of None \<Rightarrow> 4
     | Some _ \<Rightarrow> prod_left (rb_prod (if is_scan (pl_made s) then pl_scan_ring s else pl_ring s)))"

definition pipeline_left :: "pipeline \<Rightarrow> nat" where
  "pipeline_left s = 9 * (TOTAL_QUERIES - pl_made s) + producer_left s +
     4 * length (ring_contents (pl_ring s)) + 2 * length (pl_batch s) + cons_left (rb_cons (pl_ring s)) +
     4 * length (ring_contents (pl_scan_ring s)) + cons_left (rb_cons (pl_scan_ring s)) +
     of_bool (pl_run_state s) + 2 * of_bool (\<not> pl_consumer_joined s) + 2 * of_bool (\<not> pl_draining s) + 2 * of_bool (\<not> pl_scan_consumer_joined s)"

lemma producer_left_flags [simp]:
  "producer_left (s\<lparr>pl_consumer_joined := x\<rparr>) = producer_left s" "producer_left (s\<lparr>pl_draining := x\<rparr>) = producer_left s"
  "producer_left (s\<lparr>pl_run_state := x\<rparr>) = producer_left s"
  by (simp_all add: producer_left_def split: option.split)

lemma prod_item_None: "prod_item p = None \<longleftrightarrow> p = PIdle"
  by (cases p) simp_all

text \<open>The producer makes progress while the ring it writes to is empty.\<close>

lemma produce_progress:
  assumes inv: "pipeline_inv pe ce s bss sx" "pl_made s < TOTAL_QUERIES"
    and empty: "ring_contents (pl_ring s) = []" "ring_contents (pl_scan_ring s) = []"
  shows "pipeline_left (produce stamp s) < pipeline_left s"
proof (cases "pl_query s")
  case None
  have "rb_prod (if is_scan (pl_made s) then pl_scan_ring s else pl_ring s) = PIdle"
    using pipeline_invD(1) [OF inv(1)] None prod_item_None [of "rb_prod (if is_scan (pl_made s) then pl_scan_ring s else pl_ring s)"]
    by (cases "prod_item (rb_prod (if is_scan (pl_made s) then pl_scan_ring s else pl_ring s))")
      (auto simp: queues_ok_def ring_carries_def split: if_splits)
  then show ?thesis using None by (simp add: pipeline_left_def producer_left_def produce_def split: if_splits)
next
  case (Some q)
  note I = pipeline_invD [OF inv(1)] and Q = queues_okD [OF pipeline_invD(1) [OF inv(1)]]
  have x: "prod_item (rb_prod (pl_scan_ring s)) \<in> {None, Some q}" "prod_item (rb_prod (pl_ring s)) \<in> {None, Some q}"
    using I(1) Some by (cases "prod_item (rb_prod (pl_scan_ring s))"; cases "prod_item (rb_prod (pl_ring s))"; auto simp: queues_ok_def ring_carries_def)+
  show ?thesis
  proof (cases "is_scan (pl_made s)")
    case True
    obtain e r where st: "producer_step q (pl_scan_ring s) = (e, r)" by (rule prod.exhaust)
    have p: "produce stamp s = emplaced e (s\<lparr>pl_scan_ring := r\<rparr>)" using Some True st by (simp add: produce_def)
    from Q(4,6) x(1) st show ?thesis
      by (cases rule: producer_step_cases)
        (use True Some empty inv(2) ring_step_keeps(1) [OF st] in \<open>simp_all add: p emplaced_def pipeline_left_def producer_left_def\<close>)
  next
    case False
    obtain e r where st: "producer_step q (pl_ring s) = (e, r)" by (rule prod.exhaust)
    have p: "produce stamp s = emplaced e (s\<lparr>pl_ring := r\<rparr>)" using Some False st by (simp add: produce_def)
    from Q(3,5) x(2) st show ?thesis
      by (cases rule: producer_step_cases)
        (use False Some empty inv(2) ring_step_keeps(1) [OF st] in \<open>simp_all add: p emplaced_def pipeline_left_def producer_left_def\<close>)
  qed
qed

text \<open>Once the run is stopped the consumers finish their calls and return.\<close>

lemma consumer_joins:
  assumes inv: "pipeline_inv pe ce s bss sx" "\<not> pl_run_state s" "\<not> pl_consumer_joined s"
  shows "\<exists>evs s'. pipeline_run evs s = Some s' \<and> pipeline_left s' < pipeline_left s"
proof (cases "rb_cons (pl_ring s) = CIdle")
  case True
  then have "pipeline_run [Consume 0] s = Some (s\<lparr>pl_consumer_joined := True\<rparr>)" using inv(2,3) by (simp add: pipeline_step_def)
  then show ?thesis using inv(3) by (intro exI [of _ "[Consume 0]"] exI [of _ "s\<lparr>pl_consumer_joined := True\<rparr>"]) (simp add: pipeline_left_def)
next
  case False
  note drained = pipeline_drained [OF inv(1,2)]
  obtain s1 bss1 where s1: "consume 0 s = Some s1" "pipeline_inv pe ce s1 bss1 sx" "outside_ring s s1"
    "ring_contents (pl_ring s1) = []" "pl_batch s1 = []"
    "cons_left (rb_cons (pl_ring s)) = Suc (cons_left (rb_cons (pl_ring s1))) \<or> rb_cons (pl_ring s1) = CIdle \<and> cons_left (rb_cons (pl_ring s)) = 2"
    using consume_inv [OF inv(1), of 0] drained(1,2) by auto
  have st: "pipeline_step (Consume 0) s = Some s1" using False inv(3) s1(1) by (simp add: pipeline_step_def)
  have o: "pl_made s1 = pl_made s" "pl_query s1 = pl_query s" "pl_scan_ring s1 = pl_scan_ring s" "pl_run_state s1 = pl_run_state s"
    "pl_consumer_joined s1 = pl_consumer_joined s" "pl_draining s1 = pl_draining s" "pl_scan_consumer_joined s1 = pl_scan_consumer_joined s"
    using s1(3) by (simp_all add: outside_ring_def)
  have pr: "pl_query s = None" using pipeline_invD(1) [OF inv(1)] drained(6) by (cases "pl_query s") (simp_all add: queues_ok_def)
  from s1(6) show ?thesis
  proof
    assume "cons_left (rb_cons (pl_ring s)) = Suc (cons_left (rb_cons (pl_ring s1)))"
    then have "pipeline_left s1 < pipeline_left s" using s1(4,5) drained(1,2) pr by (simp add: pipeline_left_def producer_left_def o)
    then show ?thesis using st by (intro exI [of _ "[Consume 0]"] exI [of _ s1]) simp
  next
    assume c: "rb_cons (pl_ring s1) = CIdle \<and> cons_left (rb_cons (pl_ring s)) = 2"
    then have "pipeline_run [Consume 0, Consume 0] s = Some (s1\<lparr>pl_consumer_joined := True\<rparr>)"
      using st inv(2,3) by (simp add: pipeline_step_def o)
    moreover have "pipeline_left (s1\<lparr>pl_consumer_joined := True\<rparr>) < pipeline_left s"
      using c s1(4,5) drained(1,2) pr inv(3) by (simp add: pipeline_left_def producer_left_def o)
    ultimately show ?thesis by blast
  qed
qed

lemma scan_consumer_joins:
  assumes inv: "pipeline_inv pe ce s bss sx" "\<not> pl_run_state s" "\<not> pl_scan_consumer_joined s"
  shows "\<exists>evs s'. pipeline_run evs s = Some s' \<and> pipeline_left s' < pipeline_left s"
proof (cases "rb_cons (pl_scan_ring s) = CIdle \<and> \<not> pl_draining s \<and> \<not> pl_run_state s")
  case True
  then have "pipeline_run [ScanRound] s = Some (s\<lparr>pl_draining := True\<rparr>)" using inv(3) by (simp add: pipeline_step_def scan_round_def)
  then show ?thesis using True by (intro exI [of _ "[ScanRound]"] exI [of _ "s\<lparr>pl_draining := True\<rparr>"]) (simp add: pipeline_left_def)
next
  case False
  note drained = pipeline_drained [OF inv(1,2)]
  have pr: "pl_query s = None" using pipeline_invD(1) [OF inv(1)] drained(6) by (cases "pl_query s") (simp_all add: queues_ok_def)
  obtain s1 sx1 where s1: "scan_round s = Some s1" "pipeline_inv pe ce s1 bss sx1" "pl_made s1 = pl_made s" "pl_query s1 = pl_query s"
    "pl_ring s1 = pl_ring s" "pl_batch s1 = pl_batch s" "pl_run_state s1 = pl_run_state s" "pl_consumer_joined s1 = pl_consumer_joined s"
    "pl_draining s1 = pl_draining s" "ring_contents (pl_scan_ring s1) = []"
    "cons_left (rb_cons (pl_scan_ring s)) = Suc (cons_left (rb_cons (pl_scan_ring s1))) \<and> pl_scan_consumer_joined s1 = pl_scan_consumer_joined s \<or>
     rb_cons (pl_scan_ring s1) = CIdle \<and> cons_left (rb_cons (pl_scan_ring s)) = 2 \<and> pl_scan_consumer_joined s1 = (pl_scan_consumer_joined s \<or> pl_draining s)"
    using scan_round_inv [OF inv(1) False] drained(3) by auto
  have st: "pipeline_step ScanRound s = Some s1" using inv(3) s1(1) by (simp add: pipeline_step_def)
  note left = pipeline_left_def producer_left_def s1(3-10) drained pr
  from s1(11) show ?thesis
  proof
    assume "cons_left (rb_cons (pl_scan_ring s)) = Suc (cons_left (rb_cons (pl_scan_ring s1))) \<and> pl_scan_consumer_joined s1 = pl_scan_consumer_joined s"
    then have "pipeline_left s1 < pipeline_left s" by (simp add: left)
    then show ?thesis using st by (intro exI [of _ "[ScanRound]"] exI [of _ s1]) simp
  next
    assume c: "rb_cons (pl_scan_ring s1) = CIdle \<and> cons_left (rb_cons (pl_scan_ring s)) = 2 \<and> pl_scan_consumer_joined s1 = (pl_scan_consumer_joined s \<or> pl_draining s)"
    show ?thesis
    proof (cases "pl_draining s")
      case True
      then have "pipeline_left s1 < pipeline_left s" using c inv(3) by (simp add: left)
      then show ?thesis using st by (intro exI [of _ "[ScanRound]"] exI [of _ s1]) simp
    next
      case False
      then have "pipeline_run [ScanRound, ScanRound] s = Some (s1\<lparr>pl_draining := True\<rparr>)"
        using st c inv(2,3) s1(7,9) by (simp add: pipeline_step_def scan_round_def)
      moreover have "pipeline_left (s1\<lparr>pl_draining := True\<rparr>) < pipeline_left s" using c False inv(3) by (simp add: left)
      ultimately show ?thesis by blast
    qed
  qed
qed

lemma pipeline_moves:
  assumes inv: "pipeline_inv pe ce s bss sx" and more: "\<not> (pl_consumer_joined s \<and> pl_scan_consumer_joined s)"
  shows "\<exists>evs s'. pipeline_run evs s = Some s' \<and> pipeline_left s' < pipeline_left s"
proof -
  note I = pipeline_invD [OF inv] and Q = queues_okD [OF pipeline_invD(1) [OF inv]]
  have one: ?thesis if "pipeline_step ev s = Some s'" "pipeline_left s' < pipeline_left s" for ev s'
    using that by (intro exI [of _ "[ev]"] exI [of _ s']) simp
  have go: "pl_run_state s \<Longrightarrow> \<not> pl_consumer_joined s \<and> \<not> pl_draining s \<and> \<not> pl_scan_consumer_joined s" using I(3) by (auto simp: stops_ok_def)
  let ?rc = "ring_contents (pl_ring s)" and ?sc = "ring_contents (pl_scan_ring s)"
  consider (stopped) "\<not> pl_run_state s" | (scan) "pl_run_state s" "?sc \<noteq> []" | (batch) "pl_run_state s" "?rc \<noteq> [] \<or> pl_batch s \<noteq> []"
    | (made) "pl_run_state s" "?rc = []" "?sc = []" "pl_made s < TOTAL_QUERIES"
    | (stop) "pl_run_state s" "?rc = []" "pl_batch s = []" "?sc = []" "pl_made s = TOTAL_QUERIES"
    using Q(7) by (meson le_less)
  then show ?thesis
  proof cases
    case stopped
    then show ?thesis using consumer_joins [OF inv stopped] scan_consumer_joins [OF inv stopped] more by blast
  next
    case scan
    have r: "\<not> (rb_cons (pl_scan_ring s) = CIdle \<and> \<not> pl_draining s \<and> \<not> pl_run_state s)" using scan(1) by simp
    obtain s1 where s1: "scan_round s = Some s1" "pl_made s1 = pl_made s" "pl_query s1 = pl_query s"
      "pl_ring s1 = pl_ring s" "pl_batch s1 = pl_batch s" "pl_run_state s1 = pl_run_state s" "pl_consumer_joined s1 = pl_consumer_joined s"
      "pl_draining s1 = pl_draining s" "pl_scan_consumer_joined s1 = pl_scan_consumer_joined s" "rb_prod (pl_scan_ring s1) = rb_prod (pl_scan_ring s)"
      "ring_contents (pl_scan_ring s1) = ?sc \<and> cons_left (rb_cons (pl_scan_ring s)) = Suc (cons_left (rb_cons (pl_scan_ring s1))) \<or>
       ring_contents (pl_scan_ring s1) = tl ?sc \<and> rb_cons (pl_scan_ring s1) = CIdle"
      using scan_round_inv [OF inv r] scan(2) by auto
    have "pipeline_step ScanRound s = Some s1" using go [OF scan(1)] s1(1) by (simp add: pipeline_step_def)
    moreover have "pipeline_left s1 < pipeline_left s"
      using s1(11) scan(2) by (cases ?sc) (auto simp: pipeline_left_def producer_left_def s1(2-10) split: option.split)
    ultimately show ?thesis by (rule one)
  next
    case batch
    obtain s1 where s1: "consume TEMPORAL_LIMIT_US s = Some s1" "outside_ring s s1"
      "ring_contents (pl_ring s1) = ?rc \<and> pl_batch s1 = pl_batch s \<and> cons_left (rb_cons (pl_ring s)) = Suc (cons_left (rb_cons (pl_ring s1))) \<or>
       ?rc = [] \<and> ring_contents (pl_ring s1) = [] \<and> rb_cons (pl_ring s1) = CIdle \<and> cons_left (rb_cons (pl_ring s)) = 2 \<and> pl_batch s1 = [] \<or>
       ?rc \<noteq> [] \<and> ring_contents (pl_ring s1) = tl ?rc \<and> rb_cons (pl_ring s1) = CIdle \<and> pl_batch s1 = []"
      using consume_inv [OF inv, of TEMPORAL_LIMIT_US] by auto
    have pr: "rb_prod (pl_ring s1) = rb_prod (pl_ring s)" using consume_prod [OF s1(1)] .
    have st: "pipeline_step (Consume TEMPORAL_LIMIT_US) s = Some s1" using go [OF batch(1)] batch(1) s1(1) by (simp add: pipeline_step_def)
    have o: "pl_made s1 = pl_made s" "pl_query s1 = pl_query s" "pl_scan_ring s1 = pl_scan_ring s" "pl_run_state s1 = pl_run_state s"
      "pl_consumer_joined s1 = pl_consumer_joined s" "pl_draining s1 = pl_draining s" "pl_scan_consumer_joined s1 = pl_scan_consumer_joined s"
      using s1(2) by (simp_all add: outside_ring_def)
    have same: "producer_left s1 = producer_left s" by (simp add: producer_left_def o pr split: option.split)
    have "pipeline_left s1 < pipeline_left s"
      using s1(3) batch(2) by (cases ?rc; cases "pl_batch s") (auto simp: pipeline_left_def same o)
    then show ?thesis by (rule one [OF st])
  next
    case made
    then have "pipeline_step (Produce 0) s = Some (produce 0 s)" by (simp add: pipeline_step_def)
    then show ?thesis by (rule one) (rule produce_progress [OF inv made(4,2,3)])
  next
    case stop
    have "length (concat bss) = expected_pointops" "length sx = expected_scans"
      using list_all2_lengthD [OF Q(1)] list_all2_lengthD [OF Q(2)] stop by (simp_all add: ids_total)
    then have "pipeline_step StopRun s = Some (s\<lparr>pl_run_state := False\<rparr>)" using stop I(2) by (simp add: pipeline_step_def engine_ran_def)
    then show ?thesis by (rule one) (use stop in \<open>simp add: pipeline_left_def\<close>)
  qed
qed

lemma pipeline_run_append: "pipeline_run (evs @ rest) s = Option.bind (pipeline_run evs s) (pipeline_run rest)"
proof (induction evs arbitrary: s)
  case (Cons ev evs)
  then show ?case by (cases "pipeline_step ev s") simp_all
qed simp

lemma pipeline_completes:
  "pipeline_inv pe ce s bss sx \<Longrightarrow> \<exists>evs s'. pipeline_run evs s = Some s' \<and> pl_consumer_joined s' \<and> pl_scan_consumer_joined s'"
proof (induction "pipeline_left s" arbitrary: s bss sx rule: less_induct)
  case less
  show ?case
  proof (cases "pl_consumer_joined s \<and> pl_scan_consumer_joined s")
    case True
    then show ?thesis by (intro exI [of _ "[]"] exI [of _ s]) simp
  next
    case False
    obtain evs1 s1 where s1: "pipeline_run evs1 s = Some s1" "pipeline_left s1 < pipeline_left s" using pipeline_moves [OF less.prems False] by blast
    obtain bss1 sx1 where "pipeline_inv pe ce s1 bss1 sx1" using pipeline_run_inv [OF s1(1) less.prems] by blast
    from less.hyps [OF s1(2) this] obtain evs s' where "pipeline_run evs s1 = Some s'" "pl_consumer_joined s'" "pl_scan_consumer_joined s'" by blast
    then show ?thesis using s1(1) by (intro exI [of _ "evs1 @ evs"]) (simp add: pipeline_run_append)
  qed
qed

section \<open>Properties\<close>

lemma benchmark_oracle:
  assumes "0 < n" "n < 2 ^ 32"
  shows "benchmark_scan n (of_nat (n div 2)) = of_nat (n - 1 - n div 2)"
    and "benchmark_scan_u32 n (of_nat (n div 2)) = of_nat (n - 1 - n div 2)"
proof -
  have half: "n div 2 < n" "n div 2 < 2 ^ 32" using assms by simp_all
  have u: "unat (of_nat (n div 2) :: u64) = n div 2" "unat (of_nat (n div 2) :: u32) = n div 2"
    using half(2) by (simp_all add: unat_of_nat_small)
  show "benchmark_scan n (of_nat (n div 2)) = of_nat (n - 1 - n div 2)"
    using fold_count_above [of "of_nat (n div 2) :: u64" "map of_nat [0..<n]"]
      count_above_upt [of n "of_nat (n div 2) :: u64"] assms half(1)
    unfolding benchmark_scan_def Let_def u by simp
  show "benchmark_scan_u32 n (of_nat (n div 2)) = of_nat (n - 1 - n div 2)"
    using fold_count_above [of "of_nat (n div 2) :: u32" "map of_nat [0..<n]"]
      count_above_upt [of n "of_nat (n div 2) :: u32"] assms half(1)
    unfolding benchmark_scan_u32_def Let_def u by simp
qed

lemma scan_benchmark_passes: "scan_benchmark benchmark_scan benchmark_scan_u32 benchmark_scan_u32x4 benchmark_scan_ipt"
proof -
  have "0 < n \<and> n < 2 ^ 32" if "n \<in> set scan_sizes" for n using that by (auto simp: scan_sizes_def)
  then show ?thesis
    by (simp add: scan_benchmark_def list_all_iff Let_def benchmark_oracle benchmark_scan_u32x4_def benchmark_scan_ipt_def)
qed

lemma pipeline_checks_hold:
  assumes inv: "pipeline_inv pe ce s bss sx" and stop: "\<not> pl_run_state s"
  shows "pipeline_checks s pe ce"
proof -
  note d = pipeline_drained [OF inv stop] and I = pipeline_invD [OF inv]
  have n: "pl_processed s = expected_pointops" "pl_scans_processed s = expected_scans"
    using I(2) d(4,5) by (auto simp: engine_ran_def)
  have "expected_scans \<le> TOTAL_QUERIES" unfolding expected_scans_def using length_filter_le [of is_scan "[0..<TOTAL_QUERIES]"] by simp
  then have total: "expected_pointops + expected_scans = TOTAL_QUERIES" by (simp add: expected_pointops_def)
  have ops: "OP_READ \<noteq> OP_WRITE" by (simp add: wal_consts)
  define ex where "ex = concat bss"
  have "filter (\<lambda>q. opcode q \<noteq> OP_READ) ex = filter (\<lambda>q. opcode q = OP_WRITE) ex"
    using made_queries(1) [OF I(1)] ops by (intro filter_cong) (auto simp: ex_def)
  then have "length (filter (\<lambda>q. opcode q = OP_READ) ex) + length (filter (\<lambda>q. opcode q = OP_WRITE) ex) = expected_pointops"
    using sum_length_filter_compl [of "\<lambda>q. opcode q = OP_READ" ex] d(4) by (simp add: ex_def)
  then have rw: "op_count OP_READ ex + op_count OP_WRITE ex = of_nat expected_pointops" by (simp flip: of_nat_add)
  have c: "pe_reads (pl_point s) - pe_reads pe = op_count OP_READ ex" "pe_writes (pl_point s) - pe_writes pe = op_count OP_WRITE ex"
    "pe_commits (pl_point s) - pe_commits pe = op_count OP_WRITE ex" "ce_scans (pl_catalog s) - ce_scans ce = of_nat expected_scans"
    "ce_scan_result_sum (pl_catalog s) - ce_scan_result_sum ce = of_nat expected_scans * scan_count"
    using I(2) d(5) by (simp_all add: engine_ran_def ex_def)
  show ?thesis
    unfolding pipeline_checks_def Let_def c n
    using rw total by (simp add: expected_scan_sum_def scan_count_def flip: of_nat_add)
qed

text \<open>The engine after the run is the one that executing the made queries, once each and in order, gives.\<close>

lemma pipeline_executed:
  assumes inv: "pipeline_inv pe ce s bss sx" and stop: "\<not> pl_run_state s"
  shows "list_all2 made_as (concat bss) (point_ids TOTAL_QUERIES)" "list_all2 made_as sx (scan_ids TOTAL_QUERIES)"
    "\<forall>b \<in> set bss. b \<noteq> [] \<and> length b \<le> BATCH_SIZE_LIMIT" "opt_fold execute_batch bss pe = Some (pl_point s)"
    "opt_fold scan_on sx ce = Some (pl_catalog s)"
  using pipeline_invD(2) [OF inv] queues_okD(1,2) [OF pipeline_invD(1) [OF inv]] pipeline_drained [OF inv stop]
  by (simp_all add: engine_ran_def)

text \<open>
  C15. The pipeline of the driver passes its self-test under every interleaving. On a fresh engine the scan benchmark
  finds the counts it asserts, the router sends everything to the CPU and the sweep over batch sizes returns. Then,
  however the producer, the two consumers and the main thread interleave at their accesses to the rings, and whatever the
  clock shows: the consumer never writes beyond its array of 512 queries. Whenever both consumers have been joined, the
  point engine is exactly the one that executing all the produced point queries gives, in the order they were produced, each
  once, cut into batches of 1 to 512, the scanned engine is the one that executing the produced scans in order gives, and the
  assertions of the pipeline hold. Every run can be continued until the consumers are joined, so the wait of the main thread ends.
\<close>

theorem self_test_passes:
  assumes "engine_open [] SYNC_EACH disk = Some pe0"
  shows "scan_benchmark benchmark_scan benchmark_scan_u32 benchmark_scan_u32x4 benchmark_scan_ipt \<and>
    route_batch main_router = CPU_SIDE \<and> route_scan 0 main_router = Some CPU_SIDE \<and>
    (\<exists>pe. sweep_batch_sizes pe0 = Some pe \<and>
      (\<forall>evs s. pipeline_run evs (pipeline_start pe ce) = Some s \<longrightarrow>
        length (pl_batch s) < BATCH_SIZE_LIMIT \<and>
        (pl_consumer_joined s \<and> pl_scan_consumer_joined s \<longrightarrow> pipeline_checks s pe ce \<and>
          (\<exists>bss sx. list_all2 (\<lambda>q i. \<exists>stamp. q = produced stamp i) (concat bss) (filter (\<lambda>i. \<not> is_scan i) [0..<TOTAL_QUERIES]) \<and>
             (\<forall>b \<in> set bss. b \<noteq> [] \<and> length b \<le> BATCH_SIZE_LIMIT) \<and> opt_fold execute_batch bss pe = Some (pl_point s) \<and>
             list_all2 (\<lambda>q i. \<exists>stamp. q = produced stamp i) sx (filter is_scan [0..<TOTAL_QUERIES]) \<and>
             opt_fold (\<lambda>q ce. map_option snd (execute_scan q ce)) sx ce = Some (pl_catalog s))) \<and>
        (\<exists>rest s'. pipeline_run (evs @ rest) (pipeline_start pe ce) = Some s' \<and> pl_consumer_joined s' \<and> pl_scan_consumer_joined s')))"
proof (intro conjI scan_benchmark_passes)
  show "route_batch main_router = CPU_SIDE" "route_scan 0 main_router = Some CPU_SIDE"
    by (simp_all add: main_router_def place_scan_column_def route_batch_def route_scan_def Let_def)
  obtain kv where kv: "made (KVStore (\<lambda>_. True) MATRIX_STORE_SLOTS) = Some kv" "kv_inv kv" "length (kv_slots kv) = 65536"
    "kvm.contents kv = Map.empty" by (rule KVStore_slots)
  have "mem_ok pe0" "dom (pe_map pe0) \<subseteq> odd_keys"
    using assms kv by (auto simp: engine_open_def Let_def mem_ok_def)
  from sweep_returns [OF this] obtain pe where pe: "sweep_batch_sizes pe0 = Some pe" "mem_ok pe" "dom (pe_map pe) \<subseteq> odd_keys" by blast
  note start = pipeline_start_inv [OF pe(2,3), of ce]
  have ids: "made_as = (\<lambda>q i. \<exists>stamp. q = produced stamp i)" "scan_on = (\<lambda>q ce. map_option snd (execute_scan q ce))"
    by (simp_all add: fun_eq_iff made_as_def scan_on_def)
  show "\<exists>pe. sweep_batch_sizes pe0 = Some pe \<and>
      (\<forall>evs s. pipeline_run evs (pipeline_start pe ce) = Some s \<longrightarrow>
        length (pl_batch s) < BATCH_SIZE_LIMIT \<and>
        (pl_consumer_joined s \<and> pl_scan_consumer_joined s \<longrightarrow> pipeline_checks s pe ce \<and>
          (\<exists>bss sx. list_all2 (\<lambda>q i. \<exists>stamp. q = produced stamp i) (concat bss) (filter (\<lambda>i. \<not> is_scan i) [0..<TOTAL_QUERIES]) \<and>
             (\<forall>b \<in> set bss. b \<noteq> [] \<and> length b \<le> BATCH_SIZE_LIMIT) \<and> opt_fold execute_batch bss pe = Some (pl_point s) \<and>
             list_all2 (\<lambda>q i. \<exists>stamp. q = produced stamp i) sx (filter is_scan [0..<TOTAL_QUERIES]) \<and>
             opt_fold (\<lambda>q ce. map_option snd (execute_scan q ce)) sx ce = Some (pl_catalog s))) \<and>
        (\<exists>rest s'. pipeline_run (evs @ rest) (pipeline_start pe ce) = Some s' \<and> pl_consumer_joined s' \<and> pl_scan_consumer_joined s'))"
    unfolding ids(1) [symmetric] ids(2) [symmetric] point_ids_def [symmetric] scan_ids_def [symmetric]
  proof (intro exI [of _ pe] conjI pe(1) allI impI)
    fix evs s assume run: "pipeline_run evs (pipeline_start pe ce) = Some s"
    obtain bss sx where inv: "pipeline_inv pe ce s bss sx" using pipeline_run_inv [OF run start] by blast
    show "length (pl_batch s) < BATCH_SIZE_LIMIT" using queues_okD(8) [OF pipeline_invD(1) [OF inv]] .
    show "\<exists>rest s'. pipeline_run (evs @ rest) (pipeline_start pe ce) = Some s' \<and> pl_consumer_joined s' \<and> pl_scan_consumer_joined s'"
      using pipeline_completes [OF inv] run by (auto simp: pipeline_run_append)
    assume "pl_consumer_joined s \<and> pl_scan_consumer_joined s"
    then have stop: "\<not> pl_run_state s" using pipeline_invD(3) [OF inv] by (simp add: stops_ok_def)
    show "pipeline_checks s pe ce" by (rule pipeline_checks_hold [OF inv stop])
    show "\<exists>bss sx. list_all2 made_as (concat bss) (point_ids TOTAL_QUERIES) \<and>
             (\<forall>b \<in> set bss. b \<noteq> [] \<and> length b \<le> BATCH_SIZE_LIMIT) \<and> opt_fold execute_batch bss pe = Some (pl_point s) \<and>
             list_all2 made_as sx (scan_ids TOTAL_QUERIES) \<and> opt_fold scan_on sx ce = Some (pl_catalog s)"
      using pipeline_executed [OF inv stop] by blast
  qed
qed

theorem self_test_passes_witness:
  "\<exists>pe0 pe evs s. engine_open [] SYNC_EACH (empty_disk 0) = Some pe0 \<and> sweep_batch_sizes pe0 = Some pe \<and>
     pipeline_run evs (pipeline_start pe (catalog_init 10 10)) = Some s \<and> pl_consumer_joined s \<and> pl_scan_consumer_joined s \<and>
     pipeline_checks s pe (catalog_init 10 10)"
proof -
  obtain kv where kv: "made (KVStore (\<lambda>_. True) MATRIX_STORE_SLOTS) = Some kv" by (rule KVStore_slots)
  then obtain pe0 where pe0: "engine_open [] SYNC_EACH (empty_disk 0) = Some pe0" by (simp add: engine_open_def Let_def)
  obtain pe where pe: "sweep_batch_sizes pe0 = Some pe" and all: "\<And>evs s. pipeline_run evs (pipeline_start pe (catalog_init 10 10)) = Some s \<Longrightarrow>
      (pl_consumer_joined s \<and> pl_scan_consumer_joined s \<longrightarrow> pipeline_checks s pe (catalog_init 10 10)) \<and>
      (\<exists>rest s'. pipeline_run (evs @ rest) (pipeline_start pe (catalog_init 10 10)) = Some s' \<and> pl_consumer_joined s' \<and> pl_scan_consumer_joined s')"
    using self_test_passes [OF pe0, of "catalog_init 10 10"] by blast
  have "pipeline_run [] (pipeline_start pe (catalog_init 10 10)) = Some (pipeline_start pe (catalog_init 10 10))" by simp
  from all [OF this] obtain evs s where run: "pipeline_run evs (pipeline_start pe (catalog_init 10 10)) = Some s"
    "pl_consumer_joined s" "pl_scan_consumer_joined s" by auto
  from all [OF run(1)] run pe0 pe show ?thesis by blast
qed

end
