(* ===== verification/Query_Ops.thy ===== *)
theory Query_Ops
  imports Query_Engine
begin

text \<open>
  The operations of \<open>CPUMockEngine\<close> around queries (\<open>compute_mock.cpp\<close>): hash joins, row selection and
  projection, distinct counts, top groups, HAVING and averages, with their correctness.
\<close>

section \<open>Joins, projections and distinct counts\<close>

text \<open>The build table: a left value and its left rows, in row order.\<close>

definition join_build :: "'a list \<Rightarrow> ('a \<times> u64 list) list" where
  "join_build keys = fold (\<lambda>i t. al_upd (keys ! i) (the_default [] (map_of t (keys ! i)) @ [of_nat i]) t) [0..<length keys] []"

definition join_probe :: "('a \<times> u64 list) list \<Rightarrow> 'a list \<Rightarrow> (u64 \<times> u64) list" where
  "join_probe build keys =
     concat (map (\<lambda>j. case map_of build (keys ! j) of None \<Rightarrow> [] | Some rows \<Rightarrow> map (\<lambda>i. (i, of_nat j)) rows) [0..<length keys])"

definition hash_join :: "u64 \<Rightarrow> u64 \<Rightarrow> catalog_engine \<Rightarrow> ((u64 \<times> u64) list \<times> catalog_engine) option" where
  "hash_join l r ce =
     (if \<not> (catalog_has ce l \<and> catalog_has ce r) \<or> column_type ce l \<noteq> U32 \<or> column_type ce r \<noteq> U32 then None
      else pair_columns_with (\<lambda>lb ln rb rn.
        Some (join_probe (join_build (take (ln div 4) (u32_view lb))) (take (rn div 4) (u32_view rb)))) l r ce)"

definition hash_join_i64 :: "u64 \<Rightarrow> u64 \<Rightarrow> catalog_engine \<Rightarrow> ((u64 \<times> u64) list \<times> catalog_engine) option" where
  "hash_join_i64 l r ce =
     (if \<not> (catalog_has ce l \<and> catalog_has ce r) \<or> column_type ce l \<noteq> TI64 \<or> column_type ce r \<noteq> TI64 then None
      else pair_columns_with (\<lambda>lb ln rb rn.
        Some (join_probe (join_build (take (ln div 8) (i64_view lb))) (take (rn div 8) (i64_view rb)))) l r ce)"

definition count_build :: "'a list \<Rightarrow> ('a \<times> u64) list" where
  "count_build keys = fold (\<lambda>k t. al_upd k (the_default 0 (map_of t k) + 1) t) keys []"

definition count_probe :: "('a \<times> u64) list \<Rightarrow> 'a list \<Rightarrow> u64" where
  "count_probe build keys = fold (\<lambda>k pairs. case map_of build k of None \<Rightarrow> pairs | Some c \<Rightarrow> pairs + c) keys 0"

definition hash_join_count :: "u64 \<Rightarrow> u64 \<Rightarrow> catalog_engine \<Rightarrow> (u64 \<times> catalog_engine) option" where
  "hash_join_count l r ce =
     (if \<not> (catalog_has ce l \<and> catalog_has ce r) \<or> column_type ce l \<noteq> U32 \<or> column_type ce r \<noteq> U32 then None
      else pair_columns_with (\<lambda>lb ln rb rn.
        Some (count_probe (count_build (take (ln div 4) (u32_view lb))) (take (rn div 4) (u32_view rb)))) l r ce)"

definition gather_row :: "bool \<Rightarrow> u8 list \<Rightarrow> nat \<Rightarrow> u64 \<Rightarrow> u64 option" where
  "gather_row wide base n r =
     (if unat r < n
      then Some (if wide then le_decode (take 8 (drop (unat r * 8) base))
                 else ucast (le_decode (take 4 (drop (unat r * 4) base)) :: u32))
      else None)"

definition gather :: "u64 \<Rightarrow> u64 list \<Rightarrow> catalog_engine \<Rightarrow> (u64 list \<times> catalog_engine) option" where
  "gather cid rows ce =
     (if \<not> catalog_has ce cid then None
      else do {
        (home, ce1) \<leftarrow> borrow cid ce;
        (base, size) \<leftarrow> host_bytes cid ce1;
        let wide = (column_type ce cid \<noteq> U32); n = size div (if wide then 8 else 4) in
        do {
          out \<leftarrow> those (map (gather_row wide base n) rows);
          ce2 \<leftarrow> give_back cid home ce1;
          Some (out, ce2)
        }
      })"

fun match_loop :: "u32 list \<Rightarrow> u32 predicate \<Rightarrow> u64 \<Rightarrow> nat \<Rightarrow> u64 list \<Rightarrow> u64 list" where
  "match_loop [] pred limit i rows = rows"
| "match_loop (x # f) pred limit i rows =
     (if matrix_pred_match x pred then
        let rows = rows @ [of_nat i] in
        if limit \<noteq> 0 \<and> length rows \<ge> unat limit then rows else match_loop f pred limit (Suc i) rows
      else match_loop f pred limit (Suc i) rows)"

definition matching_rows :: "u64 \<Rightarrow> u32 predicate \<Rightarrow> u64 \<Rightarrow> catalog_engine \<Rightarrow> (u64 list \<times> catalog_engine) option" where
  "matching_rows filter_col pred limit ce =
     do {
       ce1 \<leftarrow> note_access filter_col ce;
       (home, ce2) \<leftarrow> borrow filter_col ce1;
       (fb, size) \<leftarrow> host_bytes filter_col ce2;
       ce3 \<leftarrow> give_back filter_col home ce2;
       Some (match_loop (take (size div 4) (u32_view fb)) pred limit 0 [], ce3)
     }"

definition project :: "u64 \<Rightarrow> bool \<Rightarrow> u64 \<Rightarrow> u32 predicate \<Rightarrow> u64 \<Rightarrow> catalog_engine \<Rightarrow> (u64 list \<times> catalog_engine) option" where
  "project cid has_filter filter_col pred limit ce =
     do {
       (rows, ce1) \<leftarrow>
         (if has_filter then matching_rows filter_col pred limit ce
          else do {
            n \<leftarrow> column_rows ce cid;
            let cap = (if limit \<noteq> 0 \<and> unat limit < n then unat limit else n) in
            Some (map of_nat [0..<cap], ce)
          });
       gather cid rows ce1
     }"

text \<open>
  The hash set of \<open>distinct_count\<close> compares with \<open>==\<close>, so a NaN never equals an element and the two
  zeros are one element: \<open>eq\<close> is the equality of the element type.
\<close>

definition distinct_count :: "('a \<Rightarrow> 'a \<Rightarrow> bool) \<Rightarrow> 'a list \<Rightarrow> nat \<Rightarrow> u8 list option \<Rightarrow> u64" where
  "distinct_count eq v n nulls =
     of_nat (length (fold (\<lambda>i seen. if not_null nulls i \<and> \<not> (\<exists>x \<in> set seen. eq x (v ! i)) then v ! i # seen else seen) [0..<n] []))"

definition count_distinct :: "u64 \<Rightarrow> catalog_engine \<Rightarrow> (u64 \<times> catalog_engine) option" where
  "count_distinct cid ce =
     scan_column_with (\<lambda>bs size.
       let ty = column_type ce cid; n = size div type_width ty; nulls = value_nulls ce cid n in
       Some (case ty of TI64 \<Rightarrow> distinct_count (=) (i64_view bs) n nulls
         | TF64 \<Rightarrow> distinct_count f64_eq (f64_view bs) n nulls
         | U32 \<Rightarrow> distinct_count (=) (u32_view bs) n nulls)) cid ce"

section \<open>Group queries\<close>

definition cmp_u64 :: "matrix_cmp \<Rightarrow> u64 \<Rightarrow> u64 \<Rightarrow> u64 \<Rightarrow> bool" where
  "cmp_u64 c v a b =
     (if c = CMP_GE then v \<ge> a
      else if c = CMP_LT then v < a
      else if c = CMP_LE then v \<le> a
      else if c = CMP_EQ then v = a
      else if c = CMP_NE then v \<noteq> a
      else if c = CMP_BETWEEN then v \<ge> a \<and> v \<le> b
      else v > a)"

definition group_pairs :: "u64 list \<Rightarrow> (u64 \<times> u64) list" where
  "group_pairs out = map (\<lambda>g. (of_nat g, out ! g)) [0..<length out]"

text \<open>
  \<open>std::partial_sort\<close> leaves the first elements in descending order of value; among equal values the
  library fixes no order, the model takes the lower group first.
\<close>

definition top_groups :: "u64 \<Rightarrow> matrix_query \<Rightarrow> nat \<Rightarrow> catalog_engine \<Rightarrow> ((u64 \<times> u64) list \<times> catalog_engine) option" where
  "top_groups ns q k ce =
     (if \<not> q_grouped q then Some ([], ce)
      else map_option (\<lambda>(st, out, ce'). (if st \<noteq> OK then [] else take k (sort_key (\<lambda>p. UINT64_MAX - snd p) (group_pairs out)), ce'))
             (execute_query ns q ce))"

definition having :: "u64 \<Rightarrow> matrix_query \<Rightarrow> matrix_cmp \<Rightarrow> u64 \<Rightarrow> u64 \<Rightarrow> catalog_engine \<Rightarrow> ((u64 \<times> u64) list \<times> catalog_engine) option" where
  "having ns q cmp threshold upper ce =
     (if \<not> q_grouped q then Some ([], ce)
      else map_option (\<lambda>(st, out, ce'). (if st \<noteq> OK then [] else filter (\<lambda>p. cmp_u64 cmp (snd p) threshold upper) (group_pairs out), ce'))
             (execute_query ns q ce))"

definition average_of :: "matrix_type \<Rightarrow> u64 \<Rightarrow> u64 \<Rightarrow> f64" where
  "average_of ty s c =
     (let sum = (case ty of TF64 \<Rightarrow> F64 s | TI64 \<Rightarrow> f64_of_int (sint s) | U32 \<Rightarrow> f64_of_u64 s);
          count = (case ty of TF64 \<Rightarrow> F64 c | _ \<Rightarrow> f64_of_u64 c) in
      if \<not> f64_eq count f64_zero then f64_div sum count else f64_quiet_nan)"

definition average :: "u64 \<Rightarrow> u64 \<Rightarrow> matrix_query \<Rightarrow> catalog_engine \<Rightarrow> (f64 list \<times> catalog_engine) option" where
  "average ns1 ns2 q ce =
     do {
       (st1, sv, ce1) \<leftarrow> execute_query ns1 (q\<lparr>q_agg := AGG_SUM\<rparr>) ce;
       if st1 \<noteq> OK then Some ([], ce1)
       else do {
         (st2, cv, ce2) \<leftarrow> execute_query ns2 (q\<lparr>q_agg := AGG_COUNT\<rparr>) ce1;
         Some (if st2 \<noteq> OK \<or> length sv \<noteq> length cv then []
               else map2 (average_of (column_type ce2 (q_value_col q))) sv cv, ce2)
       }
     }"

section \<open>Joins\<close>

text \<open>The pairs of a join, in the order of the probe.\<close>

definition join_pairs :: "'a list \<Rightarrow> 'a list \<Rightarrow> (u64 \<times> u64) list" where
  "join_pairs lk rk =
     concat (map (\<lambda>j. map (\<lambda>i. (of_nat i, of_nat j)) (filter (\<lambda>i. lk ! i = rk ! j) [0..<length lk])) [0..<length rk])"

lemma join_build_map:
  "map_of (join_build keys) k =
     (let rows = filter (\<lambda>i. keys ! i = k) [0..<length keys] in if rows = [] then None else Some (map of_nat rows))"
proof -
  have "map_of (fold (\<lambda>i t. al_upd (keys ! i) (the_default [] (map_of t (keys ! i)) @ [of_nat i]) t) [0..<n] []) k =
     (let rows = filter (\<lambda>i. keys ! i = k) [0..<n] in if rows = [] then None else Some (map of_nat rows))" for n k
    by (induction n arbitrary: k) (auto simp: Let_def)
  then show ?thesis by (simp add: join_build_def)
qed

lemma join_probe_pairs: "join_probe (join_build lk) rk = join_pairs lk rk"
  unfolding join_probe_def join_pairs_def join_build_map Let_def
  by (intro arg_cong [where f = concat] map_cong refl) (simp add: comp_def)

lemma count_build_map: "map_of (count_build keys) k = (if k \<in> set keys then Some (of_nat (count_list keys k)) else None)"
proof -
  have "map_of (fold (\<lambda>k t. al_upd k (the_default 0 (map_of t k) + (1 :: u64)) t) keys t) k =
    (if k \<in> set keys then Some (the_default 0 (map_of t k) + of_nat (count_list keys k)) else map_of t k)" for t
    by (induction keys arbitrary: t) (auto simp: ac_simps)
  then show ?thesis by (simp add: count_build_def)
qed

lemma length_filter_count: "length (filter (\<lambda>i. keys ! i = k) [0..<length keys]) = count_list keys k"
proof (induction keys)
  case (Cons x keys)
  have "[0..<length (x # keys)] = 0 # map Suc [0..<length keys]" by (simp add: map_Suc_upt upt_conv_Cons del: upt_Suc)
  then show ?case using Cons by (simp add: filter_map comp_def del: upt_Suc)
qed simp

lemma count_probe_pairs: "count_probe (count_build lk) rk = of_nat (length (join_pairs lk rk))"
proof -
  have step: "(case map_of (count_build lk) k of None \<Rightarrow> p | Some c \<Rightarrow> p + c) = p + (of_nat (count_list lk k) :: u64)" for k p
    by (auto simp: count_build_map)
  have "fold (\<lambda>k p. case map_of (count_build lk) k of None \<Rightarrow> p | Some c \<Rightarrow> p + c) rk p = p + of_nat (sum_list (map (count_list lk) rk))" for p :: u64
    unfolding step by (induction rk arbitrary: p) (simp_all add: add.assoc)
  then have "count_probe (count_build lk) rk = of_nat (sum_list (map (count_list lk) rk))" by (simp add: count_probe_def)
  also have "map (count_list lk) rk = map (\<lambda>j. count_list lk (rk ! j)) [0..<length rk]"
    by (rule nth_equalityI) simp_all
  finally show ?thesis by (simp add: join_pairs_def length_concat comp_def length_filter_count)
qed

lemma set_join_pairs:
  "set (join_pairs lk rk) = {(of_nat i, of_nat j) |i j. i < length lk \<and> j < length rk \<and> lk ! i = rk ! j}"
  by (force simp: join_pairs_def)

lemma distinct_concat_map:
  assumes "distinct xs" "\<And>x. x \<in> set xs \<Longrightarrow> distinct (f x)"
    "\<And>x y. x \<in> set xs \<Longrightarrow> y \<in> set xs \<Longrightarrow> x \<noteq> y \<Longrightarrow> set (f x) \<inter> set (f y) = {}"
  shows "distinct (concat (map f xs))"
  using assms by (induction xs) fastforce+

lemma distinct_join_pairs:
  assumes "length lk < 2 ^ 64" "length rk < 2 ^ 64"
  shows "distinct (join_pairs lk rk)"
proof -
  let ?row = "\<lambda>j. map (\<lambda>i. (of_nat i :: u64, of_nat j :: u64)) (filter (\<lambda>i. lk ! i = rk ! j) [0..<length lk])"
  have inj: "i = j" if "(of_nat i :: u64) = of_nat j" "i < 2 ^ 64" "j < 2 ^ 64" for i j
  proof -
    have "unat (of_nat i :: u64) = i" "unat (of_nat j :: u64) = j" using that(2,3) by (intro unat_of_nat_small; simp)+
    then show ?thesis using that(1) by metis
  qed
  have "distinct (?row j)" for j
  proof -
    have "inj_on (\<lambda>i. (of_nat i :: u64, of_nat j :: u64)) (set (filter (\<lambda>i. lk ! i = rk ! j) [0..<length lk]))"
    proof (rule inj_onI)
      fix a b assume "a \<in> set (filter (\<lambda>i. lk ! i = rk ! j) [0..<length lk])" "b \<in> set (filter (\<lambda>i. lk ! i = rk ! j) [0..<length lk])"
        "(of_nat a :: u64, of_nat j :: u64) = (of_nat b, of_nat j)"
      then have "(of_nat a :: u64) = of_nat b" "a < length lk" "b < length lk" by simp_all
      then show "a = b" using assms(1) inj less_trans by blast
    qed
    then show ?thesis by (simp add: distinct_map)
  qed
  moreover have "set (?row i) \<inter> set (?row j) = {}" if "i \<noteq> j" "i < length rk" "j < length rk" for i j
  proof -
    have "(of_nat i :: u64) \<noteq> of_nat j" using inj [of i j] that assms(2) less_trans by blast
    then show ?thesis by auto
  qed
  ultimately show ?thesis unfolding join_pairs_def by (intro distinct_concat_map) (simp_all add: comp_def del: set_map)
qed

lemma contents_length:
  assumes "ce_ok ce" "contents ce k = Some bs"
  shows "length bs < 2 ^ 64"
proof -
  obtain col where "col_holds col bs" using assms by (rule ce_ok_column)
  then show ?thesis using unsigned_less [of "col_size col", where ?'a = nat] by (simp add: col_holds_def)
qed

text \<open>
  C24. The hash join is the equi-join. On two \<open>uint32_t\<close> columns (and, for \<open>hash_join_i64\<close>, two
  \<open>int64_t\<close> columns) \<open>hash_join\<close> returns each pair of row numbers with equal keys exactly once and no
  other pair, in an order that is left open, \<open>hash_join_count\<close> returns their number modulo \<open>2 ^ 64\<close> without materialising them, and
  neither changes the logical contents of the catalog, whatever tiers the columns are on.
\<close>

theorem hash_join_correct:
  assumes "ce_ok ce" "contents ce l = Some lb" "contents ce r = Some rb"
  shows "(column_type ce l = U32 \<and> column_type ce r = U32 \<longrightarrow>
      (\<exists>pairs ce1 ce2. hash_join l r ce = Some (pairs, ce1) \<and> hash_join_count l r ce = Some (of_nat (length pairs), ce2) \<and>
         distinct pairs \<and> set pairs = {(of_nat i, of_nat j) |i j.
           i < length (u32_view lb) \<and> j < length (u32_view rb) \<and> u32_view lb ! i = u32_view rb ! j} \<and>
         ce_ok ce1 \<and> logical ce1 = logical ce \<and> ce_ok ce2 \<and> logical ce2 = logical ce)) \<and>
    (column_type ce l = TI64 \<and> column_type ce r = TI64 \<longrightarrow>
      (\<exists>pairs ce1. hash_join_i64 l r ce = Some (pairs, ce1) \<and>
         distinct pairs \<and> set pairs = {(of_nat i, of_nat j) |i j.
           i < length (i64_view lb) \<and> j < length (i64_view rb) \<and> i64_view lb ! i = i64_view rb ! j} \<and>
         ce_ok ce1 \<and> logical ce1 = logical ce))"
proof (intro conjI impI)
  have has: "catalog_has ce l" "catalog_has ce r" using catalog_has_contents [OF assms(1)] assms(2,3) by simp_all
  have len: "length lb < 2 ^ 64" "length rb < 2 ^ 64" using contents_length [OF assms(1)] assms(2,3) by blast+
  have le: "n div w < 2 ^ 64" if "n < 2 ^ 64" for n w :: nat using that div_le_dividend le_less_trans by blast
  note ret = pair_returns [OF assms]
  show "\<exists>pairs ce1 ce2. hash_join l r ce = Some (pairs, ce1) \<and> hash_join_count l r ce = Some (of_nat (length pairs), ce2) \<and>
         distinct pairs \<and> set pairs = {(of_nat i, of_nat j) |i j.
           i < length (u32_view lb) \<and> j < length (u32_view rb) \<and> u32_view lb ! i = u32_view rb ! j} \<and>
         ce_ok ce1 \<and> logical ce1 = logical ce \<and> ce_ok ce2 \<and> logical ce2 = logical ce"
    if "column_type ce l = U32 \<and> column_type ce r = U32"
  proof -
    have "returns (hash_join l r ce) (join_pairs (u32_view lb) (u32_view rb)) ce"
      unfolding hash_join_def using that has by (auto intro!: ret simp: join_probe_pairs)
    moreover have "returns (hash_join_count l r ce) (of_nat (length (join_pairs (u32_view lb) (u32_view rb)))) ce"
      unfolding hash_join_count_def using that has by (auto intro!: ret simp: count_probe_pairs)
    moreover have "distinct (join_pairs (u32_view lb) (u32_view rb))" using len le by (intro distinct_join_pairs) simp_all
    ultimately show ?thesis using set_join_pairs [of "u32_view lb" "u32_view rb"] unfolding returns_def by blast
  qed
  show "\<exists>pairs ce1. hash_join_i64 l r ce = Some (pairs, ce1) \<and>
         distinct pairs \<and> set pairs = {(of_nat i, of_nat j) |i j.
           i < length (i64_view lb) \<and> j < length (i64_view rb) \<and> i64_view lb ! i = i64_view rb ! j} \<and>
         ce_ok ce1 \<and> logical ce1 = logical ce"
    if "column_type ce l = TI64 \<and> column_type ce r = TI64"
  proof -
    have "returns (hash_join_i64 l r ce) (join_pairs (i64_view lb) (i64_view rb)) ce"
      unfolding hash_join_i64_def using that has by (auto intro!: ret simp: join_probe_pairs)
    moreover have "distinct (join_pairs (i64_view lb) (i64_view rb))" using len le by (intro distinct_join_pairs) simp_all
    ultimately show ?thesis using set_join_pairs [of "i64_view lb" "i64_view rb"] unfolding returns_def by blast
  qed
qed

theorem hash_join_correct_witness:
  "\<exists>ce pairs ce1. load_scan_column 7 [5, 9, 5] (catalog_init 1000 1000) = Some ce \<and> hash_join 7 7 ce = Some (pairs, ce1) \<and>
    (0, 2) \<in> set pairs \<and> distinct pairs"
proof -
  obtain ce where ce: "load_scan_column 7 [5, 9, 5] (catalog_init 1000 1000) = Some ce" "query_ready ce"
    "logical ce = \<lparr>lg_data = [7 \<mapsto> concat (map u32_bytes [5, 9, 5])], lg_type = (\<lambda>_. U32), lg_nulls = Map.empty, lg_max_groups = MAX_QUERY_GROUPS\<rparr>"
    using fresh_column_ready [of 7 "[5, 9, 5]" 1000 1000] by auto
  let ?b = "concat (map u32_bytes [5, 9, 5])"
  have c: "contents ce 7 = Some ?b" "column_type ce 7 = U32" using ce(3) by (simp_all add: logical_def)
  have v: "u32_view ?b = [5, 9, 5]" by (rule u32_view_bytes)
  have "ce_ok ce" using ce(2) by (simp add: query_ready_def)
  from hash_join_correct [OF this c(1) c(1)] c(2)
  obtain pairs ce1 where h: "hash_join 7 7 ce = Some (pairs, ce1)" "distinct pairs" "set pairs = {(of_nat i, of_nat j) |i j.
           i < length (u32_view ?b) \<and> j < length (u32_view ?b) \<and> u32_view ?b ! i = u32_view ?b ! j}" by blast
  have "(of_nat 0, of_nat 2) \<in> set pairs" unfolding h(3) v by (rule CollectI, intro exI [of _ 0] exI [of _ 2]) simp
  then show ?thesis using ce(1) h(1,2) by auto
qed

section \<open>Loading into a ready engine\<close>

lemma load_ready:
  assumes "query_ready ce" "cid \<noteq> 0" "contents ce cid = None" "4 * length xs \<le> ce_tmp_room ce" "4 * length xs < 2 ^ 53"
    and "map_of (ce_null_masks ce) cid = None"
  shows "\<exists>ce'. load_scan_column cid xs ce = Some ce' \<and> query_ready ce' \<and>
    logical ce' = (logical ce)\<lparr>lg_data := (contents ce)(cid \<mapsto> concat (map u32_bytes xs))\<rparr> \<and>
    column_type ce' cid = U32 \<and> ce_tmp_room ce' = ce_tmp_room ce"
proof -
  let ?b = "concat (map u32_bytes xs)"
  have ok: "ce_ok ce" and lg: "lg_ok (logical ce)" using assms(1) by (simp_all add: query_ready_def)
  have len: "length ?b = 4 * length xs" by (rule length_chunks) simp
  obtain ce' where l: "load_bytes cid ?b ce = Some ce'" "contents ce' = (contents ce)(cid \<mapsto> ?b)"
    "ce_ok (ce'\<lparr>ce_col_types := (ce_col_types ce)(cid := None)\<rparr>)" "ce_col_types ce' = ce_col_types ce"
    using load_bytes_ok [OF ok assms(2,3), of ?b None] assms(4,5) len by auto
  have "ce'\<lparr>ce_col_types := (ce_col_types ce)(cid := None)\<rparr> = ce'" using l(4) no_stale_type [OF ok assms(3)] by simp
  with l(3) have ok': "ce_ok ce'" by simp
  have f: "ce_null_masks ce' = ce_null_masks ce" "ce_max_query_groups ce' = ce_max_query_groups ce" "ce_tmp_room ce' = ce_tmp_room ce"
    using l(1) by (auto simp: load_bytes_def split: if_splits)
  have t: "column_type ce' = column_type ce" using l(4) by (simp add: column_type_def fun_eq_iff)
  have cid: "column_type ce cid = U32"
    using no_stale_type [OF ok assms(3)] by (metis column_type_def fun_upd_same option.simps(4))
  have lg': "logical ce' = (logical ce)\<lparr>lg_data := (contents ce)(cid \<mapsto> ?b)\<rparr>" using l(2) f t by (simp add: logical_def)
  have "lg_ok (logical ce')"
    using lg assms(5,6) len unfolding lg_ok_def lg' by (auto simp: lg_rows_def lg_bytes_def)
  then show ?thesis using l(1) ok' lg' t cid f(3) by (simp add: load_scan_column_def query_ready_def)
qed

lemma init_ready: "query_ready (catalog_init cap room)"
  by (simp add: query_ready_def catalog_init_ok lg_ok_def) (simp add: contents_def catalog_init_def)

section \<open>Group queries\<close>

lemma max_minus_le: "UINT64_MAX - a \<le> UINT64_MAX - b \<longleftrightarrow> b \<le> (a :: u64)"
proof -
  have u: "unat (UINT64_MAX - x) = unat UINT64_MAX - unat x" "unat x \<le> unat UINT64_MAX" for x
    using u64_le_max [of x] by (simp_all add: unat_sub word_le_nat_alt)
  show ?thesis unfolding word_le_nat_alt u(1) using u(2) [of a] u(2) [of b] by linarith
qed

lemma answer_grouped_length:
  "q_grouped q \<Longrightarrow> fst (answer lg q) = OK \<Longrightarrow> length (snd (answer lg q)) = unat (q_num_groups q)"
  by (auto simp: answer_def split: if_splits)

lemma group_pairs_fst: "map fst (group_pairs out) = map of_nat [0..<length out]"
  by (simp add: group_pairs_def)

lemma group_pairs_distinct:
  assumes "length out < 2 ^ 64"
  shows "distinct (map fst (group_pairs out))"
proof -
  have "inj_on (of_nat :: nat \<Rightarrow> u64) (set [0..<length out])"
    using assms by (intro inj_on_inverseI [where g = unat]) (simp add: unat_of_nat_small)
  then show ?thesis by (simp only: group_pairs_fst distinct_map) simp
qed

lemma top_pairs:
  assumes "length out < 2 ^ 64" and pairs: "pairs = take k (sort_key (\<lambda>p. UINT64_MAX - snd p) (group_pairs out))"
  shows "length pairs = min k (length out)" "sorted_wrt (\<lambda>a b. snd b \<le> snd a) pairs" "distinct (map fst pairs)"
    "set pairs \<subseteq> set (group_pairs out)"
    "\<And>p p'. p \<in> set pairs \<Longrightarrow> p' \<in> set (group_pairs out) \<Longrightarrow> p' \<notin> set pairs \<Longrightarrow> snd p' \<le> snd p"
proof -
  let ?f = "\<lambda>p :: u64 \<times> u64. UINT64_MAX - snd p" and ?s = "sort_key (\<lambda>p. UINT64_MAX - snd p) (group_pairs out)"
  have s: "?s = pairs @ drop k ?s" by (simp add: pairs)
  show "length pairs = min k (length out)" by (simp add: pairs group_pairs_def min.commute)
  have srt: "sorted_wrt (\<lambda>a b. snd b \<le> snd a) ?s"
    using sorted_sort_key [of ?f "group_pairs out"] by (simp add: sorted_map max_minus_le)
  then show "sorted_wrt (\<lambda>a b. snd b \<le> snd a) pairs" unfolding pairs by (rule sorted_wrt_take)
  have "mset (map fst ?s) = mset (map fst (group_pairs out))" by simp
  then have "distinct (map fst ?s)" using group_pairs_distinct [OF assms(1)] mset_eq_imp_distinct_iff by blast
  then show "distinct (map fst pairs)" unfolding pairs take_map [symmetric] by (rule distinct_take)
  have set: "set ?s = set (group_pairs out)" by simp
  then show "set pairs \<subseteq> set (group_pairs out)" unfolding pairs by (metis set_take_subset)
  fix p p' assume p: "p \<in> set pairs" "p' \<in> set (group_pairs out)" "p' \<notin> set pairs"
  then have "p' \<in> set (drop k ?s)" using set s by (metis Un_iff set_append)
  then show "snd p' \<le> snd p" using srt p(1) unfolding s [symmetric] by (subst (asm) s) (auto simp: sorted_wrt_append)
qed

text \<open>
  Top groups and HAVING. For a valid grouped query \<open>top_groups\<close> returns \<open>min k G\<close> pairs of distinct
  groups with their aggregates, in descending order, and no group left out has a larger aggregate
  than one returned; \<open>having\<close> returns exactly the groups whose aggregate satisfies the comparison, in
  ascending group order. Both leave the logical contents alone; a query that is not valid gives no pair.
\<close>

theorem top_groups_and_having:
  assumes "query_ready ce" "q_grouped q" "fst (answer (logical ce) q) = OK" and out: "out = snd (answer (logical ce) q)"
  shows "(\<exists>pairs ce'. top_groups ns q k ce = Some (pairs, ce') \<and> length pairs = min k (unat (q_num_groups q)) \<and>
      sorted_wrt (\<lambda>a b. snd b \<le> snd a) pairs \<and> distinct (map fst pairs) \<and>
      (\<forall>p \<in> set pairs. \<exists>g < length out. p = (of_nat g, out ! g)) \<and>
      (\<forall>g < length out. (of_nat g, out ! g) \<notin> set pairs \<longrightarrow> (\<forall>p \<in> set pairs. out ! g \<le> snd p)) \<and>
      query_ready ce' \<and> logical ce' = logical ce) \<and>
    (\<exists>ce'. having ns q cmp a b ce =
      Some (map (\<lambda>g. (of_nat g, out ! g)) (filter (\<lambda>g. cmp_u64 cmp (out ! g) a b) [0..<unat (q_num_groups q)]), ce') \<and>
      query_ready ce' \<and> logical ce' = logical ce)"
proof -
  obtain ce' where e: "execute_query ns q ce = Some (OK, out, ce')" "query_ready ce'" "logical ce' = logical ce"
    using execute_query_answer [OF assms(1), of ns q] assms(3) out by auto
  have len: "length out = unat (q_num_groups q)" using answer_grouped_length [OF assms(2,3)] out by simp
  have "unat (q_num_groups q) < 2 ^ 32" using unsigned_less [of "q_num_groups q", where ?'a = nat] by simp
  then have l64: "length out < 2 ^ 64" using len by simp
  define pairs where "pairs = take k (sort_key (\<lambda>p. UINT64_MAX - snd p) (group_pairs out))"
  have gp: "set (group_pairs out) = {(of_nat g, out ! g) |g. g < length out}" by (auto simp: group_pairs_def)
  note top = top_pairs [OF l64 pairs_def]
  have tg: "top_groups ns q k ce = Some (pairs, ce')" using assms(2) e(1) by (simp add: top_groups_def pairs_def)
  have in_out: "\<forall>p \<in> set pairs. \<exists>g < length out. p = (of_nat g, out ! g)" using top(4) gp by blast
  have best: "\<forall>g < length out. (of_nat g, out ! g) \<notin> set pairs \<longrightarrow> (\<forall>p \<in> set pairs. out ! g \<le> snd p)"
  proof (intro allI impI ballI)
    fix g p assume "g < length out" "(of_nat g, out ! g) \<notin> set pairs" "p \<in> set pairs"
    then show "out ! g \<le> snd p" using top(5) [of p "(of_nat g, out ! g)"] gp by auto
  qed
  have hv: "having ns q cmp a b ce =
      Some (map (\<lambda>g. (of_nat g, out ! g)) (filter (\<lambda>g. cmp_u64 cmp (out ! g) a b) [0..<unat (q_num_groups q)]), ce')"
    using assms(2) e(1) len by (simp add: having_def group_pairs_def filter_map comp_def)
  show ?thesis
  proof (rule conjI)
    show "\<exists>pairs ce'. top_groups ns q k ce = Some (pairs, ce') \<and> length pairs = min k (unat (q_num_groups q)) \<and>
      sorted_wrt (\<lambda>a b. snd b \<le> snd a) pairs \<and> distinct (map fst pairs) \<and>
      (\<forall>p \<in> set pairs. \<exists>g < length out. p = (of_nat g, out ! g)) \<and>
      (\<forall>g < length out. (of_nat g, out ! g) \<notin> set pairs \<longrightarrow> (\<forall>p \<in> set pairs. out ! g \<le> snd p)) \<and>
      query_ready ce' \<and> logical ce' = logical ce"
      by (rule exI [of _ pairs], rule exI [of _ ce'], intro conjI tg top(1) [unfolded len] top(2,3) in_out best e(2,3))
    show "\<exists>ce'. having ns q cmp a b ce =
      Some (map (\<lambda>g. (of_nat g, out ! g)) (filter (\<lambda>g. cmp_u64 cmp (out ! g) a b) [0..<unat (q_num_groups q)]), ce') \<and>
      query_ready ce' \<and> logical ce' = logical ce"
      by (rule exI [of _ ce'], intro conjI hv e(2,3))
  qed
qed

theorem top_groups_and_having_witness:
  "\<exists>ce0 ce pairs ce1 ce2. load_scan_column 3 [0, 1, 0] (catalog_init 1000 1000) = Some ce0 \<and> load_scan_column 7 [10, 20, 30] ce0 = Some ce \<and>
    top_groups 1 (default_query\<lparr>q_value_col := 7, q_agg := AGG_SUM, q_grouped := True, q_key_col := 3, q_num_groups := 2\<rparr>) 1 ce = Some (pairs, ce1) \<and>
    length pairs = 1 \<and>
    having 1 (default_query\<lparr>q_value_col := 7, q_agg := AGG_SUM, q_grouped := True, q_key_col := 3, q_num_groups := 2\<rparr>) CMP_GT 30 0 ce =
      Some ([(0, 40)], ce2)"
proof -
  let ?q = "default_query\<lparr>q_value_col := 7, q_agg := AGG_SUM, q_grouped := True, q_key_col := 3, q_num_groups := 2\<rparr>"
  let ?c = "catalog_init 1000 1000"
  have c: "contents ?c = Map.empty" "ce_tmp_room ?c = 1000" "ce_null_masks ?c = []" "column_type ?c = (\<lambda>_. U32)" "ce_max_query_groups ?c = MAX_QUERY_GROUPS"
    by (simp_all add: contents_def catalog_init_def fun_eq_iff column_type_def)
  obtain ce0 where ce0: "load_scan_column 3 [0, 1, 0] ?c = Some ce0" "query_ready ce0"
    "logical ce0 = (logical ?c)\<lparr>lg_data := (contents ?c)(3 \<mapsto> concat (map u32_bytes [0, 1, 0]))\<rparr>" "ce_tmp_room ce0 = 1000"
    using load_ready [OF init_ready, of 3 1000 1000 "[0, 1, 0]"] c by auto
  have d0: "contents ce0 = [3 \<mapsto> concat (map u32_bytes [0, 1, 0])]" "map_of (ce_null_masks ce0) = Map.empty"
    using arg_cong [OF ce0(3), of lg_data] arg_cong [OF ce0(3), of lg_nulls] c by simp_all
  obtain ce where ce: "load_scan_column 7 [10, 20, 30] ce0 = Some ce" "query_ready ce"
    "logical ce = (logical ce0)\<lparr>lg_data := (contents ce0)(7 \<mapsto> concat (map u32_bytes [10, 20, 30]))\<rparr>"
    using load_ready [OF ce0(2), of 7 "[10, 20, 30]"] d0 ce0(4) by auto
  have lg: "logical ce = \<lparr>lg_data = [3 \<mapsto> concat (map u32_bytes [0, 1, 0]), 7 \<mapsto> concat (map u32_bytes [10, 20, 30])],
      lg_type = (\<lambda>_. U32), lg_nulls = Map.empty, lg_max_groups = MAX_QUERY_GROUPS\<rparr>"
    unfolding ce(3) ce0(3) d0(1) by (simp add: logical_def c)
  have v: "u32_view (concat (map u32_bytes [0, 1, 0])) = [0, 1, 0]" "u32_view (concat (map u32_bytes [10, 20, 30])) = [10, 20, 30]"
    by (rule u32_view_bytes)+
  have up: "[0..<3] = [0, 1, 2 :: nat]" "[0..<2] = [0, 1 :: nat]" by (simp_all add: upt_rec)
  have ans: "answer (logical ce) ?q = (OK, [40, 20])"
    unfolding lg using v by (simp add: answer_simps group_rows_def length_chunks [of _ 4] up MAX_QUERY_GROUPS_def)
  from top_groups_and_having [OF ce(2) _ _ refl, of ?q 1 1 CMP_GT 30 0]
  show ?thesis unfolding ans using ce0(1) ce(1) by (auto simp: up cmp_u64_def cmp_consts)
qed

section \<open>Distinct counts and projection\<close>

lemma distinct_count_card:
  fixes v :: "'a list"
  shows "distinct_count (=) v n nulls = of_nat (card {v ! i |i. i < n \<and> not_null nulls i})"
proof -
  let ?f = "\<lambda>n. fold (\<lambda>i seen. if not_null nulls i \<and> \<not> (\<exists>x \<in> set seen. x = v ! i) then v ! i # seen else seen) [0..<n] []"
  have "set (?f n) = {v ! i |i. i < n \<and> not_null nulls i} \<and> distinct (?f n)"
    by (induction n) (auto simp: less_Suc_eq)
  then show ?thesis using distinct_card [of "?f n"] by (simp add: distinct_count_def)
qed

text \<open>The encoded value of a row.\<close>

definition row_bits :: "matrix_type \<Rightarrow> u8 list \<Rightarrow> nat \<Rightarrow> u64" where
  "row_bits ty bs i =
     (case ty of U32 \<Rightarrow> ucast (u32_view bs ! i) | TI64 \<Rightarrow> i64_bits (i64_view bs ! i) | TF64 \<Rightarrow> f64_bits (f64_view bs ! i))"

lemma gather_row_bits:
  assumes "i < length bs div type_width ty" "i < 2 ^ 64"
  shows "gather_row (ty \<noteq> U32) bs (length bs div type_width ty) (of_nat i) = Some (row_bits ty bs i)"
  using assms
  by (cases ty) (simp_all add: gather_row_def row_bits_def unat_of_nat_small type_width_def u32_view_def i64_view_def f64_view_def
      array_of_def mult.commute)

lemma those_map_Some: "(\<And>x. x \<in> set xs \<Longrightarrow> f x = Some (g x)) \<Longrightarrow> those (map f xs) = Some (map g xs)"
  by (induction xs) auto

lemma gather_returns:
  assumes ok: "ce_ok ce" and c: "contents ce cid = Some bs"
    and rows: "\<forall>i \<in> set is. i < length bs div type_width (column_type ce cid)"
  shows "returns (gather cid (map of_nat is) ce) (map (row_bits (column_type ce cid) bs) is) ce"
proof -
  obtain col where col: "column_at ce cid = Some col" "col_holds col bs" using ok c by (rule ce_ok_column)
  let ?ce1 = "ce\<lparr>ce_cold_borrows := ce_cold_borrows ce + borrows col, ce_catalog := al_upd cid (hosted col) (ce_catalog ce)\<rparr>"
  let ?ce2 = "ce\<lparr>ce_cold_borrows := ce_cold_borrows ce + borrows col\<rparr>"
  have b: "borrow cid ce = Some (col_tier col, ?ce1)" using col by (rule borrow_eq)
  have h: "host_bytes cid ?ce1 = Some (bs, length bs)"
    using hosted_holds(2,3) [OF col(2)] by (intro host_bytes_eq [of _ _ "hosted col"]) (simp_all add: column_at_def)
  have g: "give_back cid (col_tier col) ?ce1 = Some ?ce2"
    using give_back_eq [of ?ce1 cid col bs] col by (simp add: column_at_def al_upd_same)
  have w: "(if column_type ce cid \<noteq> U32 then 8 else 4) = type_width (column_type ce cid)"
    by (cases "column_type ce cid") (simp_all add: type_width_def)
  have small: "i < 2 ^ 64" if "i \<in> set is" for i
  proof -
    have "i < length bs div type_width (column_type ce cid)" using rows that by blast
    also have "\<dots> \<le> length bs" by (rule div_le_dividend)
    also have "\<dots> < 2 ^ 64" using ok c by (rule contents_length)
    finally show ?thesis .
  qed
  have "those (map (gather_row (column_type ce cid \<noteq> U32) bs (length bs div type_width (column_type ce cid))) (map of_nat is)) =
      Some (map (row_bits (column_type ce cid) bs) is)"
    unfolding map_map using rows small by (intro those_map_Some) (simp add: gather_row_bits)
  then have "gather cid (map of_nat is) ce = Some (map (row_bits (column_type ce cid) bs) is, ?ce2)"
    using catalog_has_contents [OF ok] c unfolding gather_def b bind.bind_lunit prod.case h Let_def w by (simp add: g)
  moreover have "ce_ok ?ce2" using ok by (intro ce_ok_cong [OF ok]) (simp_all add: ce_ok_def)
  moreover have "logical ?ce2 = logical ce" by (rule logical_cong) (simp_all add: contents_def fun_eq_iff)
  ultimately show ?thesis by (simp add: returns_def)
qed

definition cap_rows :: "u64 \<Rightarrow> nat list \<Rightarrow> nat list" where
  "cap_rows limit is = (if limit = 0 then is else take (unat limit) is)"

lemma match_loop_eq:
  assumes "limit = 0 \<or> length acc < unat limit" "n = length f"
  shows "match_loop f pred limit i (map of_nat acc) =
    map of_nat (cap_rows limit (acc @ filter (\<lambda>j. matrix_pred_match (f ! (j - i)) pred) [i..<i + n]))"
  using assms
proof (induction f arbitrary: i acc n)
  case Nil
  then show ?case by (auto simp: cap_rows_def)
next
  case (Cons x f)
  have up: "[i..<i + n] = i # [Suc i..<Suc (i + length f)]" using Cons.prems(2) by (simp add: upt_conv_Cons del: upt_Suc)
  have shift: "filter (\<lambda>j. matrix_pred_match ((x # f) ! (j - i)) pred) [Suc i..<Suc (i + length f)] =
      filter (\<lambda>j. matrix_pred_match (f ! (j - Suc i)) pred) [Suc i..<Suc (i + length f)]"
    by (rule filter_cong) (auto simp: nth_Cons' simp del: upt_Suc)
  show ?case
  proof (cases "matrix_pred_match x pred")
    case False
    then show ?thesis using Cons.IH [OF Cons.prems(1) refl, of "Suc i"] unfolding up by (simp add: shift del: upt_Suc)
  next
    case True
    have acc: "map of_nat acc @ [of_nat i] = map of_nat (acc @ [i])" by simp
    show ?thesis
    proof (cases "limit \<noteq> 0 \<and> unat limit \<le> length (acc @ [i])")
      case cap: True
      then have "unat limit = Suc (length acc)" using Cons.prems(1) by simp
      then show ?thesis using True cap unfolding up by (simp add: Let_def cap_rows_def del: upt_Suc)
    next
      case cap: False
      then have "limit = 0 \<or> length (acc @ [i]) < unat limit" by auto
      from Cons.IH [OF this refl, of "Suc i"] show ?thesis
        using True cap unfolding up by (auto simp: Let_def shift simp del: upt_Suc)
    qed
  qed
qed

lemma matching_returns:
  assumes ok: "ce_ok ce" and f: "contents ce fcol = Some fb"
  shows "returns (matching_rows fcol pred limit ce)
    (map of_nat (cap_rows limit (filter (\<lambda>i. matrix_pred_match (u32_view fb ! i) pred) [0..<length fb div 4]))) ce"
proof -
  obtain col where col: "column_at ce fcol = Some col" "col_holds col fb" using ok f by (rule ce_ok_column)
  let ?ce1 = "ce\<lparr>ce_tier_mgr := record_access fcol (col_size col) (ce_tier_mgr ce)\<rparr>"
  let ?ce2 = "?ce1\<lparr>ce_cold_borrows := ce_cold_borrows ce + borrows col, ce_catalog := al_upd fcol (hosted col) (ce_catalog ce)\<rparr>"
  have b: "borrow fcol ?ce1 = Some (col_tier col, ?ce2)" using borrow_eq [of ?ce1 fcol col fb] col by (simp add: column_at_def)
  have h: "host_bytes fcol ?ce2 = Some (fb, length fb)"
    using hosted_holds(2,3) [OF col(2)] by (intro host_bytes_eq [of _ _ "hosted col"]) (simp_all add: column_at_def)
  have g: "give_back fcol (col_tier col) ?ce2 = Some (touched fcol col ce)"
    using give_back_eq [of ?ce2 fcol col fb] col by (simp add: column_at_def al_upd_same touched_def)
  have "match_loop (u32_view fb) pred limit 0 [] =
      map of_nat (cap_rows limit (filter (\<lambda>i. matrix_pred_match (u32_view fb ! i) pred) [0..<length fb div 4]))"
    using match_loop_eq [of limit "[]" "length fb div 4" "u32_view fb" pred 0] by (auto simp: word_gt_0 unat_gt_0)
  then have "matching_rows fcol pred limit ce =
      Some (map of_nat (cap_rows limit (filter (\<lambda>i. matrix_pred_match (u32_view fb ! i) pred) [0..<length fb div 4])), touched fcol col ce)"
    unfolding matching_rows_def note_access_def col(1) bind.bind_lunit b prod.case h g by simp
  then show ?thesis using touched_ok [OF ok] by (simp add: returns_def)
qed

lemma project_returns:
  assumes ok: "ce_ok ce" and c: "contents ce cid = Some bs" and f: "contents ce fcol = Some fb"
    and nb: "n = length bs div type_width (column_type ce cid)" and nf: "length fb div 4 = n"
  shows "returns (project cid True fcol pred limit ce)
      (map (row_bits (column_type ce cid) bs) (cap_rows limit (filter (\<lambda>i. matrix_pred_match (u32_view fb ! i) pred) [0..<n]))) ce"
proof -
  let ?rows = "cap_rows limit (filter (\<lambda>i. matrix_pred_match (u32_view fb ! i) pred) [0..<n])"
  have sub: "set (cap_rows limit is) \<subseteq> set is" for "is" by (auto simp: cap_rows_def dest: in_set_takeD)
  have "i < n" if "i \<in> set ?rows" for i
    using subsetD [OF sub that] by simp
  then have rows: "\<forall>i \<in> set ?rows. i < length bs div type_width (column_type ce cid)" unfolding nb [symmetric] by blast
  obtain ce1 where m: "matching_rows fcol pred limit ce = Some (map of_nat ?rows, ce1)" "ce_ok ce1" "logical ce1 = logical ce"
    using matching_returns [OF ok f, of pred limit] nf by (auto simp: returns_def)
  have c1: "contents ce1 cid = Some bs" "column_type ce1 = column_type ce"
    using arg_cong [OF m(3), of lg_data] arg_cong [OF m(3), of lg_type] c by simp_all
  have "returns (gather cid (map of_nat ?rows) ce1) (map (row_bits (column_type ce cid) bs) ?rows) ce1"
    using gather_returns [OF m(2) c1(1), of ?rows] rows c1(2) by simp
  then show ?thesis using m by (simp add: project_def returns_def)
qed

lemma project_all_returns:
  assumes ok: "ce_ok ce" and c: "contents ce cid = Some bs" and nb: "n = length bs div type_width (column_type ce cid)"
  shows "returns (project cid False fcol pred limit ce) (map (row_bits (column_type ce cid) bs) (cap_rows limit [0..<n])) ce"
proof -
  have cap: "(if limit \<noteq> 0 \<and> unat limit < n then [0..<unat limit] else [0..<n]) = cap_rows limit [0..<n]"
    by (auto simp: cap_rows_def take_upt)
  have "\<forall>i \<in> set (cap_rows limit [0..<n]). i < length bs div type_width (column_type ce cid)" using nb by (auto simp: cap_rows_def dest: in_set_takeD)
  from gather_returns [OF ok c this]
  show ?thesis
    using c nb unfolding cap [symmetric] by (auto simp: project_def column_rows_contents [OF ok] Let_def)
qed



section \<open>Latency statistics\<close>

lemma unat_half [simp]: "unat (drop_bit (Suc 0) (x :: u64)) = unat x div 2"
  by (simp add: drop_bit_eq_div unat_div)

lemma lat_loop_bounds:
  assumes "0 < x"
  shows "\<exists>d \<le> r. lat_loop r x b = b + d \<and> 2 ^ d \<le> unat x \<and> (d < r \<longrightarrow> unat x < 2 ^ Suc d)"
  using assms
proof (induction r arbitrary: x b)
  case 0
  then show ?case by (simp add: word_less_nat_alt Suc_le_eq)
next
  case (Suc r)
  show ?case
  proof (cases "1 < x")
    case False
    with Suc.prems have "unat x = 1" by (simp add: word_less_nat_alt not_less)
    then show ?thesis using False by (intro exI [of _ 0]) simp
  next
    case True
    then have x2: "2 \<le> unat x" by (simp add: word_less_nat_alt)
    then have "0 < drop_bit 1 x" by (simp add: word_less_nat_alt)
    from Suc.IH [OF this, of "Suc b"] obtain d where d: "d \<le> r" "lat_loop r (drop_bit 1 x) (Suc b) = Suc b + d"
      "2 ^ d \<le> unat x div 2" "d < r \<longrightarrow> unat x div 2 < 2 ^ Suc d" by auto
    have "2 ^ Suc d \<le> unat x" using d(3) by simp
    moreover have "Suc d < Suc r \<longrightarrow> unat x < 2 ^ Suc (Suc d)" using d(4) by auto
    ultimately show ?thesis using True d(1,2) by (intro exI [of _ "Suc d"]) simp
  qed
qed

lemma lat_bucket_less: "lat_bucket ns < LAT_BUCKETS"
proof -
  have "lat_loop r x b \<le> b + r" for r x b by (induction r arbitrary: x b) (auto, metis add_Suc le_SucI)
  from this [of 39 "ns + 1" 0] show ?thesis by (simp add: lat_bucket_def LAT_BUCKETS_def)
qed

lemma sum_list_bump: "b < length hs \<Longrightarrow> sum_list (hs[b := hs ! b + 1]) = sum_list hs + (1 :: u64)"
  by (induction hs arbitrary: b) (auto simp: nth_Cons split: nat.splits)

text \<open>
  Latency buckets. The histogram index is in range for every latency; bucket \<open>b\<close> holds exactly the
  latencies with \<open>2 ^ b \<le> ns + 1 < 2 ^ (b + 1)\<close> (the last one everything above), so the power \<open>2 ^ b\<close>
  that the percentile reports is the lower end of the bucket; and after any sequence of recordings
  the buckets add up to the query count, modulo \<open>2 ^ 64\<close>.
\<close>

theorem latency_buckets:
  "lat_bucket ns < length (ce_latency_hist (catalog_init cap room)) \<and>
   (ns + 1 \<noteq> 0 \<longrightarrow> 2 ^ lat_bucket ns \<le> unat (ns + 1) \<and> (lat_bucket ns < LAT_BUCKETS - 1 \<longrightarrow> unat (ns + 1) < 2 ^ Suc (lat_bucket ns))) \<and>
   (let ce = fold record_query_latency nss (catalog_init cap room) in
      sum_list (ce_latency_hist ce) = ce_query_count ce \<and> ce_query_count ce = of_nat (length nss) \<and>
      length (ce_latency_hist ce) = LAT_BUCKETS \<and> (\<forall>n \<in> set nss. n \<le> ce_max_query_ns ce))"
proof (intro conjI impI)
  show "lat_bucket ns < length (ce_latency_hist (catalog_init cap room))" using lat_bucket_less by (simp add: catalog_init_def)
  show "2 ^ lat_bucket ns \<le> unat (ns + 1)" if "ns + 1 \<noteq> 0"
    using lat_loop_bounds [of "ns + 1" "LAT_BUCKETS - 1" 0] that by (auto simp: lat_bucket_def word_gt_0)
  show "unat (ns + 1) < 2 ^ Suc (lat_bucket ns)" if "ns + 1 \<noteq> 0" "lat_bucket ns < LAT_BUCKETS - 1"
    using lat_loop_bounds [of "ns + 1" "LAT_BUCKETS - 1" 0] that by (auto simp: lat_bucket_def word_gt_0)
  have "let ce' = fold record_query_latency nss ce in
      sum_list (ce_latency_hist ce') = ce_query_count ce' \<and> ce_query_count ce' = ce_query_count ce + of_nat (length nss) \<and>
      length (ce_latency_hist ce') = LAT_BUCKETS \<and> (\<forall>n \<in> insert (ce_max_query_ns ce) (set nss). n \<le> ce_max_query_ns ce')"
    if "sum_list (ce_latency_hist ce) = ce_query_count ce" "length (ce_latency_hist ce) = LAT_BUCKETS" for ce
    using that
  proof (induction nss arbitrary: ce)
    case (Cons n nss)
    let ?ce = "record_query_latency n ce"
    have "sum_list (ce_latency_hist ?ce) = ce_query_count ?ce" "length (ce_latency_hist ?ce) = LAT_BUCKETS"
      using Cons.prems lat_bucket_less [of n] by (simp_all add: record_query_latency_def Let_def sum_list_bump)
    note IH = Cons.IH [OF this]
    have "n \<le> ce_max_query_ns ?ce" "ce_max_query_ns ce \<le> ce_max_query_ns ?ce" "ce_query_count ?ce = ce_query_count ce + 1"
      by (auto simp: record_query_latency_def Let_def)
    then show ?case using IH by (auto simp: Let_def)
  qed simp
  note run = this
  have "sum_list (ce_latency_hist (catalog_init cap room)) = ce_query_count (catalog_init cap room)"
    "length (ce_latency_hist (catalog_init cap room)) = LAT_BUCKETS" "ce_query_count (catalog_init cap room) = 0"
    by (simp_all add: catalog_init_def sum_list_replicate)
  with run [of "catalog_init cap room"] show "let ce = fold record_query_latency nss (catalog_init cap room) in
      sum_list (ce_latency_hist ce) = ce_query_count ce \<and> ce_query_count ce = of_nat (length nss) \<and>
      length (ce_latency_hist ce) = LAT_BUCKETS \<and> (\<forall>n \<in> set nss. n \<le> ce_max_query_ns ce)"
    by (simp add: Let_def)
qed

theorem latency_buckets_witness:
  "2 ^ lat_bucket 1000 \<le> (1001 :: nat) \<and> sum_list (ce_latency_hist (fold record_query_latency [5, 7, 1000] (catalog_init 0 0))) = 3"
  using latency_buckets [of 1000 0 0 "[5, 7, 1000]"] by (simp add: Let_def)

end
