(* ===== verification/Server.thy ===== *)
theory Server
  imports Query_Ops Point_Engine
begin

text \<open>
  The server core (\<open>server.hpp\<close>): the wire form of requests and responses, access policy,
  authentication, audit log and the dispatcher \<open>serve_core\<close> with the \<open>matrix_serve\<close> overloads that
  share it. The engine object is the pair of its point-op half and its analytical half; \<open>None\<close> is
  an abort of the process.
\<close>

section \<open>The engine and its probes\<close>

record cpu_engine =
  eng_point :: point_engine
  eng_catalog :: catalog_engine

record health_status =
  hs_ready :: bool
  hs_durable :: bool
  hs_catalog_columns :: nat
  hs_host_resident_bytes :: u64
  hs_wal_records_pending :: u64
  hs_dropped_writes :: u64

definition health :: "cpu_engine \<Rightarrow> health_status" where
  "health eng =
     \<lparr>hs_ready = (pe_store_overflows (eng_point eng) = 0), hs_durable = (pe_cold_store (eng_point eng) \<noteq> None),
      hs_catalog_columns = length (ce_catalog (eng_catalog eng)),
      hs_host_resident_bytes = resident_bytes HOST (tm_cols (ce_tier_mgr (eng_catalog eng))),
      hs_wal_records_pending = wal_records (eng_point eng),
      hs_dropped_writes = pe_store_overflows (eng_point eng)\<rparr>"

definition matrixdb_version_u64 :: u64 where
  "matrixdb_version_u64 = push_bit 32 0 OR push_bit 16 1 OR 0"

section \<open>Requests and responses\<close>

datatype req_kind = GET | PUT | QUERY | HEALTH | STATS

definition req_kind_code :: "req_kind \<Rightarrow> u32" where
  "req_kind_code k = (case k of GET \<Rightarrow> 1 | PUT \<Rightarrow> 2 | QUERY \<Rightarrow> 3 | HEALTH \<Rightarrow> 4 | STATS \<Rightarrow> 5)"

definition req_kind_of :: "u32 \<Rightarrow> req_kind" where
  "req_kind_of c = (if c = 1 then GET else if c = 2 then PUT else if c = 3 then QUERY else if c = 4 then HEALTH else STATS)"

definition SERVER_OK :: u32 where "SERVER_OK = 0"
definition ERR_BADREQUEST :: u32 where "ERR_BADREQUEST = 1000"
definition ERR_FORBIDDEN :: u32 where "ERR_FORBIDDEN = 1001"
definition ERR_UNAUTHENTICATED :: u32 where "ERR_UNAUTHENTICATED = 1002"

lemmas server_statuses = SERVER_OK_def ERR_BADREQUEST_def ERR_FORBIDDEN_def ERR_UNAUTHENTICATED_def

definition query_status_code :: "query_status \<Rightarrow> u32" where
  "query_status_code st =
     (case st of OK \<Rightarrow> 0 | ERR_UNKNOWN_COLUMN \<Rightarrow> 1 | ERR_INVALID_GROUP \<Rightarrow> 2 | ERR_TOO_MANY_GROUPS \<Rightarrow> 3
      | ERR_UNSUPPORTED_TYPE \<Rightarrow> 4 | ERR_PARSE \<Rightarrow> 5)"

record matrix_request =
  rq_kind :: req_kind
  rq_key :: u64
  rq_value :: u64
  rq_query :: matrix_query

definition default_request :: matrix_request where
  "default_request = \<lparr>rq_kind = GET, rq_key = 0, rq_value = 0, rq_query = default_query\<rparr>"

record matrix_response =
  rs_status :: u32
  rs_results :: "u64 list"

definition default_response :: matrix_response where
  "default_response = \<lparr>rs_status = 0, rs_results = []\<rparr>"

record audit_entry =
  au_principal :: u64
  au_kind :: u32
  au_status :: u32
  au_key :: u64
  au_column :: u64

text \<open>\<open>AuditLog\<close> is the list of its entries.\<close>

definition audit_record :: "audit_entry \<Rightarrow> audit_entry list \<Rightarrow> audit_entry list" where
  "audit_record e entries = entries @ [e]"

section \<open>Access policy\<close>

record access_policy =
  ap_allow_all :: bool
  ap_cols :: "u64 \<rightharpoonup> u64 set"
  ap_read :: "u64 set"
  ap_write :: "u64 set"

definition no_grants :: access_policy where
  "no_grants = \<lparr>ap_allow_all = False, ap_cols = Map.empty, ap_read = {}, ap_write = {}\<rparr>"

definition permissive :: access_policy where
  "permissive = no_grants\<lparr>ap_allow_all := True\<rparr>"

definition allow_column :: "u64 \<Rightarrow> u64 \<Rightarrow> access_policy \<Rightarrow> access_policy" where
  "allow_column who col p =
     p\<lparr>ap_cols := (ap_cols p)(who \<mapsto> insert col (the_default {} (ap_cols p who)))\<rparr>"

definition allow_read :: "u64 \<Rightarrow> access_policy \<Rightarrow> access_policy" where
  "allow_read who p = p\<lparr>ap_read := insert who (ap_read p)\<rparr>"

definition allow_write :: "u64 \<Rightarrow> access_policy \<Rightarrow> access_policy" where
  "allow_write who p = p\<lparr>ap_write := insert who (ap_write p)\<rparr>"

definition can_query :: "access_policy \<Rightarrow> u64 \<Rightarrow> u64 \<Rightarrow> bool" where
  "can_query p who col =
     (if ap_allow_all p then True
      else case ap_cols p who of None \<Rightarrow> False | Some cols \<Rightarrow> col \<in> cols)"

definition can_read :: "access_policy \<Rightarrow> u64 \<Rightarrow> bool" where
  "can_read p who \<longleftrightarrow> ap_allow_all p \<or> who \<in> ap_read p"

definition can_write :: "access_policy \<Rightarrow> u64 \<Rightarrow> bool" where
  "can_write p who \<longleftrightarrow> ap_allow_all p \<or> who \<in> ap_write p"

section \<open>Authentication\<close>

text \<open>\<open>Authenticator\<close> is the list of its credentials in the order they were added.\<close>

type_synonym authenticator = "(string \<times> u64) list"

definition add_credential :: "string \<Rightarrow> u64 \<Rightarrow> authenticator \<Rightarrow> authenticator" where
  "add_credential token who tokens = tokens @ [(token, who)]"

definition timing_safe_equal :: "string \<Rightarrow> string \<Rightarrow> bool" where
  "timing_safe_equal a b =
     (if length a \<noteq> length b then False
      else fold (\<lambda>(x, y) diff. diff OR (of_char x XOR of_char y)) (zip a b) (0 :: u8) = 0)"

definition authenticate :: "authenticator \<Rightarrow> string \<Rightarrow> u64 \<Rightarrow> bool \<times> u64" where
  "authenticate tokens token who =
     (if token = [] then (False, who)
      else let (found, matched) =
             fold (\<lambda>(t, p) (found, matched). if timing_safe_equal token t then (True, p) else (found, matched)) tokens (False, 0)
           in (found, if found then matched else who))"

section \<open>The wire form\<close>

text \<open>\<open>Reader\<close>: a read beyond the end clears \<open>ok\<close> and leaves the variable as it was.\<close>

record reader =
  rd_p :: "u8 list"
  rd_ok :: bool

definition rd_u8 :: "u8 \<Rightarrow> reader \<Rightarrow> u8 \<times> reader" where
  "rd_u8 old r = (case rd_p r of [] \<Rightarrow> (old, r\<lparr>rd_ok := False\<rparr>) | b # bs \<Rightarrow> (b, r\<lparr>rd_p := bs\<rparr>))"

definition rd_u32 :: "u32 \<Rightarrow> reader \<Rightarrow> u32 \<times> reader" where
  "rd_u32 old r =
     (if length (rd_p r) < 4 then (old, r\<lparr>rd_ok := False\<rparr>)
      else (le_decode (take 4 (rd_p r)), r\<lparr>rd_p := drop 4 (rd_p r)\<rparr>))"

definition rd_u64 :: "u64 \<Rightarrow> reader \<Rightarrow> u64 \<times> reader" where
  "rd_u64 old r =
     (if length (rd_p r) < 8 then (old, r\<lparr>rd_ok := False\<rparr>)
      else (le_decode (take 8 (rd_p r)), r\<lparr>rd_p := drop 8 (rd_p r)\<rparr>))"

definition rd_done :: "reader \<Rightarrow> bool" where
  "rd_done r \<longleftrightarrow> rd_p r = []"

definition matrix_serialize_request :: "matrix_request \<Rightarrow> u8 list" where
  "matrix_serialize_request r =
     (let q = rq_query r in
      u32_bytes (req_kind_code (rq_kind r)) @ u64_bytes (rq_key r) @ u64_bytes (rq_value r) @
      u64_bytes (q_value_col q) @ u32_bytes (q_agg q) @ [if q_has_filter q then 1 else 0] @
      u32_bytes (q_threshold q) @ u32_bytes (q_cmp q) @ u32_bytes (q_upper q) @
      u64_bytes (i64_bits (q_lo_i64 q)) @ u64_bytes (i64_bits (q_hi_i64 q)) @
      u64_bytes (f64_bits (q_lo_f64 q)) @ u64_bytes (f64_bits (q_hi_f64 q)) @
      [if q_grouped q then 1 else 0] @ u64_bytes (q_key_col q) @ u32_bytes (q_num_groups q) @
      u64_bytes (q_limit q) @ u64_bytes (q_filter_col q))"

text \<open>The request is read into \<open>out\<close>, which keeps what was read when the bytes are refused.\<close>

definition matrix_deserialize_request :: "u8 list \<Rightarrow> matrix_request \<Rightarrow> bool \<times> matrix_request" where
  "matrix_deserialize_request b out =
     (let q = rq_query out;
          (kind, r) = rd_u32 0 \<lparr>rd_p = b, rd_ok = True\<rparr>; (key, r) = rd_u64 (rq_key out) r; (val, r) = rd_u64 (rq_value out) r;
          (vcol, r) = rd_u64 (q_value_col q) r; (agg, r) = rd_u32 0 r; (hf, r) = rd_u8 0 r; (thr, r) = rd_u32 (q_threshold q) r;
          (cmp, r) = rd_u32 0 r; (upp, r) = rd_u32 (q_upper q) r;
          (lo_i, r) = rd_u64 0 r; (hi_i, r) = rd_u64 0 r; (lo_f, r) = rd_u64 0 r; (hi_f, r) = rd_u64 0 r;
          (gr, r) = rd_u8 0 r; (kcol, r) = rd_u64 (q_key_col q) r; (ng, r) = rd_u32 (q_num_groups q) r;
          (lim, r) = rd_u64 (q_limit q) r; (fcol, r) = rd_u64 (q_filter_col q) r;
          read = out\<lparr>rq_key := key, rq_value := val, rq_query := q\<lparr>q_value_col := vcol, q_threshold := thr, q_upper := upp,
                     q_key_col := kcol, q_num_groups := ng, q_limit := lim, q_filter_col := fcol\<rparr>\<rparr>
      in if \<not> rd_ok r \<or> \<not> rd_done r then (False, read)
         else if kind < 1 \<or> kind > 5 then (False, read)
         else if cmp > CMP_BETWEEN then (False, read)
         else (True, read\<lparr>rq_kind := req_kind_of kind,
                 rq_query := (rq_query read)\<lparr>q_agg := agg, q_has_filter := (hf \<noteq> 0), q_cmp := cmp, q_lo_i64 := I64 lo_i,
                   q_hi_i64 := I64 hi_i, q_lo_f64 := F64 lo_f, q_hi_f64 := F64 hi_f, q_grouped := (gr \<noteq> 0)\<rparr>\<rparr>))"

definition matrix_serialize_response :: "matrix_response \<Rightarrow> u8 list" where
  "matrix_serialize_response r =
     u32_bytes (rs_status r) @ u64_bytes (of_nat (length (rs_results r))) @ concat (map u64_bytes (rs_results r))"

definition vec_resize :: "nat \<Rightarrow> u64 list \<Rightarrow> u64 list" where
  "vec_resize n xs = take n xs @ replicate (n - length xs) 0"

fun read_results :: "u64 list \<Rightarrow> reader \<Rightarrow> u64 list \<times> reader" where
  "read_results [] r = ([], r)"
| "read_results (old # olds) r =
     (let (x, r1) = rd_u64 old r; (xs, r2) = read_results olds r1 in (x # xs, r2))"

definition matrix_deserialize_response :: "u8 list \<Rightarrow> matrix_response \<Rightarrow> bool \<times> matrix_response" where
  "matrix_deserialize_response b out =
     (let (status, r) = rd_u32 (rs_status out) \<lparr>rd_p = b, rd_ok = True\<rparr>; out1 = out\<lparr>rs_status := status\<rparr> in
      if \<not> rd_ok r then (False, out1)
      else let (n, r) = rd_u64 0 r in
        if \<not> rd_ok r then (False, out1)
        else if n > push_bit 28 1 then (False, out1)
        else if of_nat (length (rd_p r)) \<noteq> n * 8 then (False, out1)
        else let (xs, r) = read_results (vec_resize (unat n) (rs_results out1)) r
             in (rd_ok r \<and> rd_done r, out1\<lparr>rs_results := xs\<rparr>))"

section \<open>The dispatcher\<close>

definition bool_u64 :: "bool \<Rightarrow> u64" where
  "bool_u64 b = (if b then 1 else 0)"

definition authorized :: "access_policy \<Rightarrow> u64 \<Rightarrow> matrix_request \<Rightarrow> bool" where
  "authorized policy who req =
     (case rq_kind req of
        GET \<Rightarrow> can_read policy who
      | PUT \<Rightarrow> can_write policy who
      | QUERY \<Rightarrow> can_query policy who (q_value_col (rq_query req)) \<and>
          (\<not> q_grouped (rq_query req) \<or> can_query policy who (q_key_col (rq_query req)))
      | HEALTH \<Rightarrow> True
      | STATS \<Rightarrow> True)"

text \<open>The second \<open>switch\<close>; \<open>ns\<close> is what the clock measures for a query.\<close>

definition dispatch :: "u64 \<Rightarrow> matrix_request \<Rightarrow> cpu_engine \<Rightarrow> (matrix_response \<times> cpu_engine) option" where
  "dispatch ns req eng =
     (case rq_kind req of
        GET \<Rightarrow> Some (\<lparr>rs_status = SERVER_OK,
                 rs_results = (case kv_get (rq_key req) (pe_kv (eng_point eng)) of None \<Rightarrow> [] | Some v \<Rightarrow> [v])\<rparr>, eng)
      | PUT \<Rightarrow> do {
          pe1 \<leftarrow> txn_begin (eng_point eng);
          pe2 \<leftarrow> txn_put (rq_key req) (rq_value req) pe1;
          pe3 \<leftarrow> commit pe2;
          Some (\<lparr>rs_status = SERVER_OK, rs_results = []\<rparr>, eng\<lparr>eng_point := pe3\<rparr>)
        }
      | QUERY \<Rightarrow> do {
          (st, o1, ce) \<leftarrow> execute_query ns (rq_query req) (eng_catalog eng);
          Some (\<lparr>rs_status = query_status_code st, rs_results = o1\<rparr>, eng\<lparr>eng_catalog := ce\<rparr>)
        }
      | HEALTH \<Rightarrow> let h = health eng in
          Some (\<lparr>rs_status = SERVER_OK,
                 rs_results = [bool_u64 (hs_ready h), bool_u64 (hs_durable h), of_nat (hs_catalog_columns h),
                   hs_host_resident_bytes h, hs_wal_records_pending h, hs_dropped_writes h]\<rparr>, eng)
      | STATS \<Rightarrow> let s = stats (eng_catalog eng) in do {
          p50 \<leftarrow> query_latency_percentile_ns (f64_round False 50 100) (eng_catalog eng);
          p99 \<leftarrow> query_latency_percentile_ns (f64_round False 99 100) (eng_catalog eng);
          Some (\<lparr>rs_status = SERVER_OK,
                 rs_results = [es_cold_borrows s, es_rebalances s, es_migrations s, of_nat (es_catalog_columns s),
                   es_host_resident_bytes s, es_cold_resident_bytes s, es_query_count s, es_total_query_ns s,
                   es_max_query_ns s, p50, p99, matrixdb_version_u64]\<rparr>, eng)
        })"

definition serve_core :: "u64 \<Rightarrow> access_policy \<Rightarrow> u64 \<Rightarrow> u8 list \<Rightarrow> cpu_engine \<Rightarrow> (u8 list \<times> audit_entry \<times> cpu_engine) option" where
  "serve_core ns policy who req_bytes eng =
     (let (ok, req) = matrix_deserialize_request req_bytes default_request;
          refuse = (\<lambda>st e. Some (matrix_serialize_response (default_response\<lparr>rs_status := st\<rparr>), e\<lparr>au_status := st\<rparr>, eng));
          bad = \<lparr>au_principal = who, au_kind = 0, au_status = 0, au_key = 0, au_column = 0\<rparr>;
          entry = bad\<lparr>au_kind := req_kind_code (rq_kind req), au_key := rq_key req, au_column := q_value_col (rq_query req)\<rparr>
      in if \<not> ok then refuse ERR_BADREQUEST bad
         else if \<not> authorized policy who req then refuse ERR_FORBIDDEN entry
         else do {
           (resp, eng') \<leftarrow> dispatch ns req eng;
           Some (matrix_serialize_response resp, entry\<lparr>au_status := rs_status resp\<rparr>, eng')
         })"

definition matrix_serve :: "u64 \<Rightarrow> access_policy \<Rightarrow> u64 \<Rightarrow> u8 list \<Rightarrow> cpu_engine \<Rightarrow> (u8 list \<times> cpu_engine) option" where
  "matrix_serve ns policy who req_bytes eng =
     map_option (\<lambda>(resp, _, eng'). (resp, eng')) (serve_core ns policy who req_bytes eng)"

definition matrix_serve_audited ::
    "u64 \<Rightarrow> access_policy \<Rightarrow> u64 \<Rightarrow> u8 list \<Rightarrow> cpu_engine \<Rightarrow> audit_entry list \<Rightarrow> (u8 list \<times> cpu_engine \<times> audit_entry list) option" where
  "matrix_serve_audited ns policy who req_bytes eng audit =
     map_option (\<lambda>(resp, entry, eng'). (resp, eng', audit_record entry audit)) (serve_core ns policy who req_bytes eng)"

definition matrix_serve_open :: "u64 \<Rightarrow> u8 list \<Rightarrow> cpu_engine \<Rightarrow> (u8 list \<times> cpu_engine) option" where
  "matrix_serve_open ns req_bytes eng = matrix_serve ns permissive 0 req_bytes eng"

definition matrix_serve_auth ::
    "u64 \<Rightarrow> access_policy \<Rightarrow> authenticator \<Rightarrow> string \<Rightarrow> u8 list \<Rightarrow> cpu_engine \<Rightarrow> (u8 list \<times> cpu_engine) option" where
  "matrix_serve_auth ns policy auth token req_bytes eng =
     (let (ok, who) = authenticate auth token 0 in
      if \<not> ok then Some (matrix_serialize_response (default_response\<lparr>rs_status := ERR_UNAUTHENTICATED\<rparr>), eng)
      else matrix_serve ns policy who req_bytes eng)"

section \<open>The wire form is exact\<close>

lemma rd_append [simp]:
  "rd_u8 old8 \<lparr>rd_p = b # bs, rd_ok = k\<rparr> = (b, \<lparr>rd_p = bs, rd_ok = k\<rparr>)"
  "rd_u32 old32 \<lparr>rd_p = u32_bytes w @ bs, rd_ok = k\<rparr> = (w, \<lparr>rd_p = bs, rd_ok = k\<rparr>)"
  "rd_u64 old64 \<lparr>rd_p = u64_bytes x @ bs, rd_ok = k\<rparr> = (x, \<lparr>rd_p = bs, rd_ok = k\<rparr>)"
  "rd_u64 old64 \<lparr>rd_p = u64_bytes x, rd_ok = k\<rparr> = (x, \<lparr>rd_p = [], rd_ok = k\<rparr>)"
  by (simp_all add: rd_u8_def rd_u32_def rd_u64_def)

lemma rd_u8D: "rd_u8 old r = (x, r') \<Longrightarrow> rd_ok r' \<Longrightarrow> rd_ok r \<and> rd_p r = x # rd_p r'"
  by (auto simp: rd_u8_def split: list.splits)

lemma rd_u32D: "rd_u32 old r = (x, r') \<Longrightarrow> rd_ok r' \<Longrightarrow> rd_ok r \<and> rd_p r = u32_bytes x @ rd_p r'"
  using le_encode_decode [of "take 4 (rd_p r)", where ?'a = 32] by (auto simp: rd_u32_def split: if_splits)

lemma rd_u64D: "rd_u64 old r = (x, r') \<Longrightarrow> rd_ok r' \<Longrightarrow> rd_ok r \<and> rd_p r = u64_bytes x @ rd_p r'"
  using le_encode_decode [of "take 8 (rd_p r)", where ?'a = 64] by (auto simp: rd_u64_def split: if_splits)

lemmas rdD = rd_u8D rd_u32D rd_u64D

lemma req_kind_code_range: "req_kind_code k \<noteq> 0" "req_kind_code k \<le> 5"
  by (cases k; simp add: req_kind_code_def)+

lemma req_kind_of_code [simp]: "req_kind_of (req_kind_code k) = k"
  by (cases k) (simp_all add: req_kind_code_def req_kind_of_def)

lemma req_kind_code_of: "c \<noteq> 0 \<Longrightarrow> c \<le> 5 \<Longrightarrow> req_kind_code (req_kind_of c) = c"
proof -
  assume c: "c \<noteq> 0" "c \<le> 5"
  have "unat c \<in> {1..5}" using c unat_gt_0 [of c] by (auto simp: word_le_nat_alt)
  then have "unat c = 1 \<or> unat c = 2 \<or> unat c = 3 \<or> unat c = 4 \<or> unat c = 5" by auto
  then have "c = 1 \<or> c = 2 \<or> c = 3 \<or> c = 4 \<or> c = 5" by (auto simp: word_unat_eq_iff)
  then show ?thesis by (auto simp: req_kind_code_def req_kind_of_def)
qed

text \<open>The bytes of a request with the two Booleans as the bytes \<open>hf\<close> and \<open>gr\<close>.\<close>

definition request_bytes :: "matrix_request \<Rightarrow> u8 \<Rightarrow> u8 \<Rightarrow> u8 list" where
  "request_bytes r hf gr =
     (let q = rq_query r in
      u32_bytes (req_kind_code (rq_kind r)) @ u64_bytes (rq_key r) @ u64_bytes (rq_value r) @
      u64_bytes (q_value_col q) @ u32_bytes (q_agg q) @ hf #
      u32_bytes (q_threshold q) @ u32_bytes (q_cmp q) @ u32_bytes (q_upper q) @
      u64_bytes (i64_bits (q_lo_i64 q)) @ u64_bytes (i64_bits (q_hi_i64 q)) @
      u64_bytes (f64_bits (q_lo_f64 q)) @ u64_bytes (f64_bits (q_hi_f64 q)) @
      gr # u64_bytes (q_key_col q) @ u32_bytes (q_num_groups q) @
      u64_bytes (q_limit q) @ u64_bytes (q_filter_col q))"

lemma serialize_request_bytes:
  "matrix_serialize_request r = request_bytes r (if q_has_filter (rq_query r) then 1 else 0) (if q_grouped (rq_query r) then 1 else 0)"
  by (simp add: matrix_serialize_request_def request_bytes_def Let_def)

lemma deserialize_request_bytes:
  assumes "q_cmp (rq_query r) \<le> CMP_BETWEEN" "q_has_filter (rq_query r) = (hf \<noteq> 0)" "q_grouped (rq_query r) = (gr \<noteq> 0)"
  shows "matrix_deserialize_request (request_bytes r hf gr) out = (True, r)"
proof -
  obtain kd k v q where r: "r = \<lparr>rq_kind = kd, rq_key = k, rq_value = v, rq_query = q\<rparr>" by (cases r)
  have i: "I64 (i64_bits x) = x" "F64 (f64_bits y) = y" for x y by (cases x; cases y; simp)+
  show ?thesis
    using assms req_kind_code_range [of kd]
    by (simp add: r request_bytes_def matrix_deserialize_request_def Let_def rd_done_def i not_less del: append.simps)
qed

lemma deserialize_requestD:
  assumes "matrix_deserialize_request b out = (True, r)"
  shows "\<exists>hf gr. b = request_bytes r hf gr \<and> q_cmp (rq_query r) \<le> CMP_BETWEEN \<and>
    q_has_filter (rq_query r) = (hf \<noteq> 0) \<and> q_grouped (rq_query r) = (gr \<noteq> 0)"
  using assms unfolding matrix_deserialize_request_def Let_def
  by (auto simp: rd_done_def not_less request_bytes_def Let_def req_kind_code_of split: prod.splits if_splits dest!: rdD)

lemma read_results_append [simp]:
  "length olds = length xs \<Longrightarrow> read_results olds \<lparr>rd_p = concat (map u64_bytes xs), rd_ok = k\<rparr> = (xs, \<lparr>rd_p = [], rd_ok = k\<rparr>)"
  by (induction olds xs rule: list_induct2) simp_all

lemma read_resultsD:
  "read_results olds r = (xs, r') \<Longrightarrow> rd_ok r' \<Longrightarrow> rd_ok r \<and> rd_p r = concat (map u64_bytes xs) @ rd_p r' \<and> length xs = length olds"
  by (induction olds arbitrary: r xs) (auto split: prod.splits dest!: rd_u64D)

lemma length_vec_resize [simp]: "length (vec_resize n xs) = n"
  by (simp add: vec_resize_def)

lemma length_concat_u64 [simp]: "length (concat (map u64_bytes xs)) = 8 * length xs"
  by (induction xs) simp_all

lemma deserialize_response_bytes:
  assumes "length (rs_results s) \<le> 2 ^ 28"
  shows "matrix_deserialize_response (matrix_serialize_response s) out = (True, s)"
proof -
  have n: "unat (of_nat (length (rs_results s)) :: u64) = length (rs_results s)"
    using assms by (simp add: unat_of_nat take_bit_nat_eq_self)
  have "\<not> of_nat (length (rs_results s)) > (push_bit 28 1 :: u64)"
    using assms n by (simp add: word_less_nat_alt push_bit_eq_mult)
  then show ?thesis
    by (simp add: matrix_serialize_response_def matrix_deserialize_response_def Let_def n rd_done_def)
qed

lemma deserialize_responseD:
  assumes "matrix_deserialize_response b out = (True, s)"
  shows "b = matrix_serialize_response s \<and> length (rs_results s) \<le> 2 ^ 28"
  using assms unfolding matrix_deserialize_response_def Let_def
  by (auto simp: rd_done_def matrix_serialize_response_def word_less_nat_alt push_bit_eq_mult not_less split: prod.splits if_splits dest!: rdD read_resultsD)

text \<open>
  C26. The wire form. \<open>matrix_serialize_request\<close> writes the fields in order, the two Booleans as the bytes 1 and 0,
  and what it writes reads back as the same request exactly when the comparison code is in range.
  \<open>matrix_deserialize_request\<close> accepts some bytes as a request if and only if they are the fields of that request, with
  a comparison code in range, where each Boolean may be given by any non-zero byte as well: nothing is accepted that is
  short, long or out of range, but a true Boolean has 255 accepted forms of which serialisation writes one. A response is
  accepted exactly when it is the serialisation of what is returned, with at most \<open>2 ^ 28\<close> results. The
  previous contents of the output variables do not matter.
\<close>

theorem wire_form_exact:
  "matrix_serialize_request r = request_bytes r (if q_has_filter (rq_query r) then 1 else 0) (if q_grouped (rq_query r) then 1 else 0) \<and>
   (matrix_deserialize_request (matrix_serialize_request r) out = (True, r) \<longleftrightarrow> q_cmp (rq_query r) \<le> CMP_BETWEEN) \<and>
   (matrix_deserialize_request b out = (True, r) \<longleftrightarrow>
     q_cmp (rq_query r) \<le> CMP_BETWEEN \<and>
     (\<exists>hf gr. b = request_bytes r hf gr \<and> q_has_filter (rq_query r) = (hf \<noteq> 0) \<and> q_grouped (rq_query r) = (gr \<noteq> 0))) \<and>
   (matrix_deserialize_response b' out' = (True, s) \<longleftrightarrow> b' = matrix_serialize_response s \<and> length (rs_results s) \<le> 2 ^ 28)"
proof (intro conjI)
  show accepted: "matrix_deserialize_request b out = (True, r) \<longleftrightarrow> q_cmp (rq_query r) \<le> CMP_BETWEEN \<and>
     (\<exists>hf gr. b = request_bytes r hf gr \<and> q_has_filter (rq_query r) = (hf \<noteq> 0) \<and> q_grouped (rq_query r) = (gr \<noteq> 0))" for b
    using deserialize_requestD [of b out r] deserialize_request_bytes [of r] by blast
  show "matrix_deserialize_request (matrix_serialize_request r) out = (True, r) \<longleftrightarrow> q_cmp (rq_query r) \<le> CMP_BETWEEN"
    (is "?L \<longleftrightarrow> ?R")
  proof
    show "?L \<Longrightarrow> ?R" using accepted [of "matrix_serialize_request r"] by blast
    show "?R \<Longrightarrow> ?L" unfolding serialize_request_bytes by (rule deserialize_request_bytes) simp_all
  qed
  show "matrix_deserialize_response b' out' = (True, s) \<longleftrightarrow> b' = matrix_serialize_response s \<and> length (rs_results s) \<le> 2 ^ 28"
    using deserialize_responseD [of b' out' s] deserialize_response_bytes [of s out'] by blast
qed (rule serialize_request_bytes)

section \<open>Authentication\<close>

lemma of_char_u8_inj: "(of_char x :: u8) = of_char y \<longleftrightarrow> x = y"
proof
  have *: "unat (of_char z :: u8) = of_char z" for z :: char
  proof -
    have "(of_char z :: nat) < 2 ^ LENGTH(8)" using of_char_mod_256 [of z, where ?'a = nat] by simp
    from unat_of_nat_small [OF this] show ?thesis by (simp only: of_nat_of_char)
  qed
  assume "(of_char x :: u8) = of_char y"
  then have "unat (of_char x :: u8) = unat (of_char y :: u8)" by (rule arg_cong)
  then show "x = y" unfolding * by (rule of_char_eqI)
qed simp

lemma xor_or_zero: "d OR (of_char x XOR of_char y) = (0 :: u8) \<longleftrightarrow> d = 0 \<and> x = y"
proof -
  have "d OR e = 0 \<longleftrightarrow> d = 0 \<and> e = 0" for d e :: u8
    by (auto simp: bit_eq_iff bit_simps)
  moreover have "e XOR f = 0 \<longleftrightarrow> e = f" for e f :: u8
    by (auto simp: bit_eq_iff bit_simps)
  ultimately show ?thesis by (simp add: of_char_u8_inj)
qed

lemma timing_safe_equal_iff: "timing_safe_equal a b \<longleftrightarrow> a = b"
proof -
  have "fold (\<lambda>(x, y) diff. diff OR (of_char x XOR of_char y)) (zip a b) d = (0 :: u8) \<longleftrightarrow> d = 0 \<and> a = b"
    if "length a = length b" for d
    using that by (induction a b arbitrary: d rule: list_induct2) (auto simp: xor_or_zero)
  then show ?thesis by (auto simp: timing_safe_equal_def)
qed

lemma authenticate_fold:
  "fold (\<lambda>(t, p) (found, matched). if timing_safe_equal token t then (True, p) else (found, matched)) tokens acc =
     (case map_of (rev tokens) token of None \<Rightarrow> acc | Some p \<Rightarrow> (True, p))"
  by (induction tokens arbitrary: acc) (auto simp: timing_safe_equal_iff map_add_def split: option.splits)

text \<open>
  Authentication by bearer token. A non-empty token authenticates exactly when it is registered, as
  the principal of the last registration of that very string; the comparison without early exit is
  string equality. Otherwise the caller's principal is left as it was.
\<close>

theorem authenticate_correct:
  "authenticate tokens token who =
     (case (if token = [] then None else map_of (rev tokens) token) of None \<Rightarrow> (False, who) | Some p \<Rightarrow> (True, p)) \<and>
   (timing_safe_equal token t \<longleftrightarrow> token = t)"
  unfolding authenticate_def authenticate_fold by (simp add: timing_safe_equal_iff split: option.splits)

section \<open>Statistics are always available\<close>

lemma f64_sign_pack: "f64_sign (f64_pack s b) = s"
proof -
  have "f64_pack s b = f64_pack s (min b (2047 * 2 ^ 52))" by (simp add: f64_pack_def)
  then show ?thesis using f64_pack_fields(3) [of "min b (2047 * 2 ^ 52)" s] by simp
qed

lemma f64_sign_round: "f64_sign (f64_round s n d) = s"
  by (simp add: f64_round_def Let_def f64_sign_pack)

lemma f64_mul_nonneg:
  assumes "f64_within i x" "f64_within j y" "\<not> f64_sign x" "\<not> f64_sign y"
  shows "\<not> f64_sign (f64_mul x y)"
  using f64_within_finite [OF assms(1)] f64_within_finite [OF assms(2)] assms(3,4)
  by (simp add: f64_mul_def f64_propagate_def Let_def f64_sign_round)

lemma percentile_defined:
  assumes "a \<le> b" "0 < b" "unat (ce_query_count ce) \<le> 2 ^ 63"
  shows "\<exists>t. query_latency_percentile_ns (f64_round False a b) ce = Some t"
proof -
  let ?p = "f64_round False a b" and ?n = "f64_of_u64 (ce_query_count ce)"
  have "a * 2 ^ 1074 \<le> b * 2 ^ 1074" using assms(1) by (rule mult_le_mono1)
  then have p: "f64_within (1074 + 0) ?p" using assms(2) by (intro f64_round_within) simp_all
  have "\<bar>uint (ce_query_count ce)\<bar> \<le> int (2 ^ 63)" using assms(3) by (simp only: uint_nat of_nat_le_iff abs_of_nat)
  then have "\<bar>uint (ce_query_count ce)\<bar> \<le> 2 ^ 63" by simp
  then have n: "f64_within (1074 + 63) ?n" using f64_of_int_within [of "uint (ce_query_count ce)" 63] by (simp add: f64_of_u64_def)
  define x where "x = f64_mul ?p ?n"
  have "f64_within (1074 + 0 + 63) x" unfolding x_def using f64_mul_within [OF p n] by simp
  then have m: "f64_expo x < 2047" "f64_mag x \<le> 2 ^ (1074 + 63)" by (simp_all only: f64_within_def add_0_right)
  have s: "\<not> f64_sign x"
    unfolding x_def using f64_mul_nonneg [OF p n] by (simp add: f64_sign_round f64_of_u64_def f64_of_int_def)
  have "f64_mag x div 2 ^ 1074 \<le> 2 ^ 63 * 2 ^ 1074 div 2 ^ 1074" using m(2) by (intro div_le_mono) (simp only: power_add mult.commute)
  also have "\<dots> = 2 ^ 63" by (rule nonzero_mult_div_cancel_right) simp
  finally have q: "f64_mag x div 2 ^ 1074 < 2 ^ 64" by simp
  define t where "t = f64_mag x div 2 ^ 1074"
  have "f64_trunc x = Some (int t)" using m(1) s by (simp only: f64_trunc_def t_def Let_def) simp
  moreover have "\<not> (int t < 0 \<or> 2 ^ 64 \<le> int t)" using q [folded t_def] by simp
  ultimately show ?thesis unfolding query_latency_percentile_ns_def x_def by simp
qed

section \<open>What a service promises\<close>

text \<open>
  The contract of a service over an abstract view of its state: a call that returns conforms to the
  specification and keeps the state good, and a call the service is able to take returns. A history
  is a sequence of calls with their answers.
\<close>

locale refined_service =
  fixes serve :: "'q \<Rightarrow> 's \<Rightarrow> ('r \<times> 's) option" and good :: "'s \<Rightarrow> bool" and view :: "'s \<Rightarrow> 'v"
    and able :: "'q \<Rightarrow> 's \<Rightarrow> bool" and conforms :: "'q \<Rightarrow> 'v \<Rightarrow> 'r \<Rightarrow> 'v \<Rightarrow> bool"
  assumes serve_conforms: "good s \<Longrightarrow> serve q s = Some (r, s') \<Longrightarrow> good s' \<and> conforms q (view s) r (view s')"
    and serve_returns: "good s \<Longrightarrow> able q s \<Longrightarrow> serve q s \<noteq> None"
begin

inductive spec_run :: "'v \<Rightarrow> ('q \<times> 'r) list \<Rightarrow> 'v \<Rightarrow> bool" where
  spec_nil: "spec_run v [] v"
| spec_snoc: "spec_run v h v1 \<Longrightarrow> conforms q v1 r v2 \<Longrightarrow> spec_run v (h @ [(q, r)]) v2"

fun serve_all :: "'q list \<Rightarrow> 's \<Rightarrow> (('q \<times> 'r) list \<times> 's) option" where
  "serve_all [] s = Some ([], s)"
| "serve_all (q # qs) s = do { (r, s1) \<leftarrow> serve q s; (h, s2) \<leftarrow> serve_all qs s1; Some ((q, r) # h, s2) }"

lemma spec_run_cons:
  assumes "spec_run v1 h v2" "conforms q v r v1"
  shows "spec_run v ((q, r) # h) v2"
  using assms
proof (induction rule: spec_run.induct)
  case (spec_nil v1)
  then show ?case using spec_run.spec_snoc [OF spec_run.spec_nil, of q v r v1] by simp
next
  case (spec_snoc v1 h v2 q' r' v3)
  then show ?case using spec_run.spec_snoc [of v "(q, r) # h" v2 q' r' v3] by simp
qed

lemma serve_all_conforms:
  "good s \<Longrightarrow> serve_all qs s = Some (h, s') \<Longrightarrow> good s' \<and> spec_run (view s) h (view s') \<and> map fst h = qs"
proof (induction qs arbitrary: s h)
  case Nil
  then show ?case using spec_nil by simp
next
  case (Cons q qs)
  obtain r s1 h1 where c: "serve q s = Some (r, s1)" "serve_all qs s1 = Some (h1, s')" "h = (q, r) # h1"
    using Cons.prems(2) by (auto split: bind_splits)
  have "good s1" "conforms q (view s) r (view s1)" using serve_conforms [OF Cons.prems(1) c(1)] by simp_all
  then show ?case using Cons.IH [OF _ c(2)] spec_run_cons c(3) by auto
qed

end

section \<open>The specification of the server\<close>

type_synonym db_view = "(u64 \<rightharpoonup> u64) \<times> logical_view"

definition db_view :: "cpu_engine \<Rightarrow> db_view" where
  "db_view eng = (pe_map (eng_point eng), logical (eng_catalog eng))"

definition serve_ready :: "cpu_engine \<Rightarrow> bool" where
  "serve_ready eng \<longleftrightarrow> mem_ok (eng_point eng) \<and> \<not> pe_in_txn (eng_point eng) \<and> query_ready (eng_catalog eng)"

definition decoded :: "u8 list \<Rightarrow> matrix_request option" where
  "decoded b = (let (ok, r) = matrix_deserialize_request b default_request in if ok then Some r else None)"

definition refusal :: "u32 \<Rightarrow> u8 list" where
  "refusal st = matrix_serialize_response \<lparr>rs_status = st, rs_results = []\<rparr>"

text \<open>
  What a response to an authorised request may be, and the view after it. The values of the two
  operational probes are not determined by the view, only their number is.
\<close>

definition request_spec :: "matrix_request \<Rightarrow> db_view \<Rightarrow> matrix_response \<Rightarrow> db_view \<Rightarrow> bool" where
  "request_spec req w resp w' \<longleftrightarrow>
     (case rq_kind req of
        GET \<Rightarrow> resp = \<lparr>rs_status = 0, rs_results = (case fst w (rq_key req) of None \<Rightarrow> [] | Some v \<Rightarrow> [v])\<rparr> \<and> w' = w
      | PUT \<Rightarrow> resp = \<lparr>rs_status = 0, rs_results = []\<rparr> \<and> w' = ((fst w)(rq_key req \<mapsto> rq_value req), snd w)
      | QUERY \<Rightarrow> resp = \<lparr>rs_status = query_status_code (fst (answer (snd w) (rq_query req))), rs_results = snd (answer (snd w) (rq_query req))\<rparr> \<and> w' = w
      | HEALTH \<Rightarrow> rs_status resp = 0 \<and> length (rs_results resp) = 6 \<and> w' = w
      | STATS \<Rightarrow> rs_status resp = 0 \<and> length (rs_results resp) = 12 \<and> w' = w)"

definition serve_spec :: "access_policy \<Rightarrow> u64 \<times> u8 list \<Rightarrow> db_view \<Rightarrow> u8 list \<Rightarrow> db_view \<Rightarrow> bool" where
  "serve_spec policy call w reply w' \<longleftrightarrow>
     (case decoded (snd call) of
        None \<Rightarrow> reply = refusal ERR_BADREQUEST \<and> w' = w
      | Some req \<Rightarrow>
          if \<not> authorized policy (fst call) req then reply = refusal ERR_FORBIDDEN \<and> w' = w
          else \<exists>resp. reply = matrix_serialize_response resp \<and> request_spec req w resp w')"

text \<open>
  The resources a request needs: a free slot for a new key, and a query counter below \<open>2 ^ 63\<close>, so that
  the percentiles are defined.
\<close>

definition serve_able :: "u64 \<times> u64 \<times> u8 list \<Rightarrow> cpu_engine \<Rightarrow> bool" where
  "serve_able call eng \<longleftrightarrow>
     (case decoded (snd (snd call)) of None \<Rightarrow> True
      | Some req \<Rightarrow>
          (rq_kind req = PUT \<longrightarrow> card (insert (rq_key req) (dom (pe_map (eng_point eng)))) \<le> 65536) \<and>
          (rq_kind req = STATS \<longrightarrow> unat (ce_query_count (eng_catalog eng)) \<le> 2 ^ 63))"

lemma serve_core_cases:
  "serve_core ns policy who b eng =
     (let e = \<lparr>au_principal = who, au_kind = 0, au_status = ERR_BADREQUEST, au_key = 0, au_column = 0\<rparr> in
      case decoded b of None \<Rightarrow> Some (refusal ERR_BADREQUEST, e, eng)
      | Some req \<Rightarrow>
          let e' = e\<lparr>au_kind := req_kind_code (rq_kind req), au_key := rq_key req, au_column := q_value_col (rq_query req)\<rparr> in
          if \<not> authorized policy who req then Some (refusal ERR_FORBIDDEN, e'\<lparr>au_status := ERR_FORBIDDEN\<rparr>, eng)
          else map_option (\<lambda>(resp, eng'). (matrix_serialize_response resp, e'\<lparr>au_status := rs_status resp\<rparr>, eng')) (dispatch ns req eng))"
  by (simp add: serve_core_def decoded_def refusal_def default_response_def Let_def map_conv_bind_option comp_def case_prod_unfold)

lemma put_commits:
  fixes k v :: u64
  assumes "mem_ok pe" "\<not> pe_in_txn pe"
  defines "pe2 \<equiv> pe\<lparr>pe_in_txn := True, pe_txn_buf := [(k, v)]\<rparr>"
  shows "do { pe1 \<leftarrow> txn_begin pe; pe2 \<leftarrow> txn_put k v pe1; pe3 \<leftarrow> commit pe2; Some (f pe3) } = map_option f (commit pe2)"
    and "commit pe2 = Some pe3 \<Longrightarrow> mem_ok pe3 \<and> pe_map pe3 = (pe_map pe)(k \<mapsto> v) \<and> \<not> pe_in_txn pe3"
    and "card (insert k (dom (pe_map pe))) \<le> 65536 \<Longrightarrow> commit pe2 \<noteq> None"
proof -
  show "do { pe1 \<leftarrow> txn_begin pe; pe2 \<leftarrow> txn_put k v pe1; pe3 \<leftarrow> commit pe2; Some (f pe3) } = map_option f (commit pe2)"
    using assms(2) by (simp add: txn_begin_def txn_put_def pe2_def map_conv_bind_option comp_def)
  let ?l = "log_append (group_ops (Txn [(k, v)])) pe2"
  have ok: "mem_ok ?l" using assms(1) by (simp add: pe2_def mem_ok_def del: group_ops.simps)
  have c: "commit pe2 = map_option (\<lambda>pe. pe\<lparr>pe_in_txn := False, pe_transactions_committed := pe_transactions_committed pe + 1, pe_txn_buf := []\<rparr>)
      (apply_committed_write k v ?l)"
    unfolding commit_def log_append_txn Let_def
    by (simp add: pe2_def map_conv_bind_option del: group_ops.simps split: option.split)
  show "mem_ok pe3 \<and> pe_map pe3 = (pe_map pe)(k \<mapsto> v) \<and> \<not> pe_in_txn pe3" if "commit pe2 = Some pe3"
    using that apply_committed_write_ok [OF ok] unfolding c
    by (auto simp: pe2_def mem_ok_def simp del: group_ops.simps)
  show "commit pe2 \<noteq> None" if "card (insert k (dom (pe_map pe))) \<le> 65536"
    using apply_committed_write_fits [OF ok, of k v] that unfolding c by (auto simp: pe2_def simp del: group_ops.simps)
qed

lemma pe_map_get: "pe_map pe k = kv_get k (pe_kv pe)"
  by (simp add: kvm.contents_def)

lemma dispatch_put:
  assumes "serve_ready eng" "rq_kind req = PUT"
  shows "dispatch ns req eng = map_option (\<lambda>pe3. (\<lparr>rs_status = SERVER_OK, rs_results = []\<rparr>, eng\<lparr>eng_point := pe3\<rparr>))
    (commit ((eng_point eng)\<lparr>pe_in_txn := True, pe_txn_buf := [(rq_key req, rq_value req)]\<rparr>))"
  using assms by (simp add: dispatch_def put_commits(1) serve_ready_def)

lemma dispatch_conforms:
  assumes "serve_ready eng" "dispatch ns req eng = Some (resp, eng')"
  shows "serve_ready eng' \<and> request_spec req (db_view eng) resp (db_view eng')"
proof (cases "rq_kind req")
  case PUT
  have pe: "mem_ok (eng_point eng)" "\<not> pe_in_txn (eng_point eng)" using assms(1) by (simp_all add: serve_ready_def)
  from dispatch_put [OF assms(1) PUT] assms(2) obtain pe3 where
    "commit ((eng_point eng)\<lparr>pe_in_txn := True, pe_txn_buf := [(rq_key req, rq_value req)]\<rparr>) = Some pe3"
    "resp = \<lparr>rs_status = SERVER_OK, rs_results = []\<rparr>" "eng' = eng\<lparr>eng_point := pe3\<rparr>"
    by auto
  then show ?thesis using put_commits(2) [OF pe] assms(1) PUT
    by (simp add: serve_ready_def request_spec_def db_view_def SERVER_OK_def)
next
  case QUERY
  have "query_ready (eng_catalog eng)" using assms(1) by (simp add: serve_ready_def)
  from execute_query_answer [OF this, of ns "rq_query req"] show ?thesis
    using assms QUERY by (auto simp: dispatch_def request_spec_def db_view_def serve_ready_def)
qed (use assms in \<open>auto simp: dispatch_def request_spec_def db_view_def pe_map_get SERVER_OK_def Let_def split: bind_splits\<close>)

lemma dispatch_returns:
  assumes "serve_ready eng" "rq_kind req = PUT \<longrightarrow> card (insert (rq_key req) (dom (pe_map (eng_point eng)))) \<le> 65536"
    "rq_kind req = STATS \<longrightarrow> unat (ce_query_count (eng_catalog eng)) \<le> 2 ^ 63"
  shows "dispatch ns req eng \<noteq> None"
proof (cases "rq_kind req")
  case PUT
  have pe: "mem_ok (eng_point eng)" "\<not> pe_in_txn (eng_point eng)" using assms(1) by (simp_all add: serve_ready_def)
  show ?thesis using put_commits(3) [OF pe] assms(2) PUT by (simp add: dispatch_put [OF assms(1)])
next
  case QUERY
  have "query_ready (eng_catalog eng)" using assms(1) by (simp add: serve_ready_def)
  from execute_query_answer [OF this, of ns "rq_query req"] show ?thesis using QUERY by (auto simp: dispatch_def)
next
  case STATS
  then have n: "unat (ce_query_count (eng_catalog eng)) \<le> 2 ^ 63" using assms(3) by simp
  have "(50::nat) \<le> 100" "(99::nat) \<le> 100" "(0::nat) < 100" by simp_all
  then obtain p50 p99 where "query_latency_percentile_ns (f64_round False 50 100) (eng_catalog eng) = Some p50"
    "query_latency_percentile_ns (f64_round False 99 100) (eng_catalog eng) = Some p99"
    using percentile_defined [OF _ _ n] by blast
  then show ?thesis using STATS by (simp add: dispatch_def Let_def)
qed (simp_all add: dispatch_def Let_def)

definition serve_call :: "access_policy \<Rightarrow> u64 \<times> u64 \<times> u8 list \<Rightarrow> cpu_engine \<Rightarrow> (u8 list \<times> cpu_engine) option" where
  "serve_call policy call eng = matrix_serve (fst call) policy (fst (snd call)) (snd (snd call)) eng"

interpretation core: refined_service "serve_call policy" serve_ready db_view serve_able "\<lambda>call. serve_spec policy (snd call)" for policy
proof
  fix s s' :: cpu_engine and q :: "u64 \<times> u64 \<times> u8 list" and r
  obtain ns who b where q: "q = (ns, who, b)" by (cases q)
  assume "serve_ready s" and "serve_call policy q s = Some (r, s')"
  then show "serve_ready s' \<and> serve_spec policy (snd q) (db_view s) r (db_view s')"
    using dispatch_conforms [of s ns]
    by (fastforce simp: q serve_call_def matrix_serve_def serve_core_cases serve_spec_def Let_def split: option.splits if_splits)
next
  fix s :: cpu_engine and q :: "u64 \<times> u64 \<times> u8 list"
  obtain ns who b where q: "q = (ns, who, b)" by (cases q)
  assume "serve_ready s" and "serve_able q s"
  then have "dispatch ns req s \<noteq> None" if "decoded b = Some req" for req
    using that by (intro dispatch_returns) (auto simp: q serve_able_def)
  then show "serve_call policy q s \<noteq> None"
    by (cases "decoded b") (auto simp: q serve_call_def matrix_serve_def serve_core_cases Let_def)
qed

section \<open>Properties of the server\<close>

lemma decoded_serialize: "q_cmp (rq_query r) \<le> CMP_BETWEEN \<Longrightarrow> decoded (matrix_serialize_request r) = Some r"
  unfolding decoded_def serialize_request_bytes by (subst deserialize_request_bytes) simp_all

lemma default_cmp [simp]: "q_cmp default_query \<le> CMP_BETWEEN"
  by (simp add: default_query_def cmp_consts)

text \<open>
  C6. The server implements its specification. In a ready engine a request that finds its resources
  (a free slot for the key of a PUT) is answered, never with an abort, and the reply is the one the
  specification computes from the abstract database: refusals for malformed and unauthorised
  requests, the mapped value for GET, the new binding for PUT, and for QUERY the status and values of
  the query specification. Only an authorised PUT changes the abstract database.
\<close>

theorem serve_refines_spec:
  assumes "serve_ready eng" "serve_able (ns, who, b) eng"
  shows "\<exists>reply eng'. matrix_serve ns policy who b eng = Some (reply, eng') \<and> serve_ready eng' \<and>
    serve_spec policy (who, b) (db_view eng) reply (db_view eng')"
proof -
  obtain reply eng' where "serve_call policy (ns, who, b) eng = Some (reply, eng')"
    using core.serve_returns [OF assms] by fast
  with core.serve_conforms [OF assms(1) this] show ?thesis by (auto simp: serve_call_def)
qed

lemma fresh_engine:
  obtains pe where "engine_open ''wal'' SYNC_EACH (empty_disk 1000) = Some pe" "pe_ok pe" "pe_map pe = Map.empty"
    "pe_cold_store pe = Some \<lparr>cs_path = ''wal'', cs_policy = SYNC_EACH, cs_records_written = 0\<rparr>" "log_room 40 pe"
    "serve_ready \<lparr>eng_point = pe, eng_catalog = catalog_init 10 10\<rparr>"
proof -
  obtain pe where pe: "engine_open ''wal'' SYNC_EACH (empty_disk 1000) = Some pe" "pe_ok pe" "pe_map pe = Map.empty"
    "\<not> pe_in_txn pe" "pe_cold_store pe = Some \<lparr>cs_path = ''wal'', cs_policy = SYNC_EACH, cs_records_written = 0\<rparr>"
    "dk_quota (pe_disk pe) = (\<lambda>_. 1000)" "file_bytes ''wal'' (pe_disk pe) = []" by (rule open_empty_disk)
  have "log_room 40 pe" using pe(5-7) by (simp add: log_room_def)
  moreover have "serve_ready \<lparr>eng_point = pe, eng_catalog = catalog_init 10 10\<rparr>"
    using pe(2,4) init_ready by (simp add: serve_ready_def pe_ok_def)
  ultimately show thesis using pe by (intro that [of pe]) simp_all
qed

theorem serve_refines_spec_witness:
  "\<exists>eng reply eng'. serve_ready eng \<and> matrix_serve 0 permissive 1 (matrix_serialize_request (default_request\<lparr>rq_kind := PUT, rq_key := 7, rq_value := 70\<rparr>)) eng = Some (reply, eng') \<and>
     fst (db_view eng') 7 = Some 70"
proof -
  let ?r = "default_request\<lparr>rq_kind := PUT, rq_key := 7, rq_value := 70\<rparr>"
  obtain pe where pe: "pe_map pe = Map.empty" "serve_ready \<lparr>eng_point = pe, eng_catalog = catalog_init 10 10\<rparr>" by (rule fresh_engine)
  let ?e = "\<lparr>eng_point = pe, eng_catalog = catalog_init 10 10\<rparr>"
  have d: "decoded (matrix_serialize_request ?r) = Some ?r" by (rule decoded_serialize) (simp add: default_request_def)
  have "serve_able (0, 1, matrix_serialize_request ?r) ?e" by (simp add: serve_able_def d pe(1))
  from serve_refines_spec [OF pe(2) this, of permissive] show ?thesis
    using pe(2) by (fastforce simp: serve_spec_def d request_spec_def authorized_def can_write_def permissive_def)
qed

text \<open>
  C27. Refusals have no effect and every request is audited. An unknown or empty token, malformed bytes
  and an unauthorised request leave the whole engine exactly as it was, in every state; the audited
  dispatcher appends one entry per request, for refused ones too, with the caller's principal, the
  kind of the request (0 when malformed) and the status of the reply.
\<close>

theorem refusals_and_audit:
  "(\<not> fst (authenticate auth token 0) \<longrightarrow> matrix_serve_auth ns policy auth token b eng = Some (refusal ERR_UNAUTHENTICATED, eng)) \<and>
   (decoded b = None \<longrightarrow> matrix_serve ns policy who b eng = Some (refusal ERR_BADREQUEST, eng)) \<and>
   (\<forall>req. decoded b = Some req \<and> \<not> authorized policy who req \<longrightarrow> matrix_serve ns policy who b eng = Some (refusal ERR_FORBIDDEN, eng)) \<and>
   (\<forall>reply eng' audit'. matrix_serve_audited ns policy who b eng audit = Some (reply, eng', audit') \<longrightarrow>
      matrix_serve ns policy who b eng = Some (reply, eng') \<and>
      (\<exists>e resp. audit' = audit @ [e] \<and> reply = matrix_serialize_response resp \<and> au_status e = rs_status resp \<and> au_principal e = who \<and>
         au_kind e = (case decoded b of None \<Rightarrow> 0 | Some req \<Rightarrow> req_kind_code (rq_kind req))))"
proof (intro conjI allI impI)
  show "matrix_serve_auth ns policy auth token b eng = Some (refusal ERR_UNAUTHENTICATED, eng)" if "\<not> fst (authenticate auth token 0)"
    using that by (simp add: matrix_serve_auth_def case_prod_unfold refusal_def default_response_def)
  show "matrix_serve ns policy who b eng = Some (refusal ERR_BADREQUEST, eng)" if "decoded b = None"
    using that by (simp add: matrix_serve_def serve_core_cases)
  show "matrix_serve ns policy who b eng = Some (refusal ERR_FORBIDDEN, eng)" if "decoded b = Some req \<and> \<not> authorized policy who req" for req
    using that by (simp add: matrix_serve_def serve_core_cases Let_def)
  fix reply eng' audit' assume a: "matrix_serve_audited ns policy who b eng audit = Some (reply, eng', audit')"
  then obtain e where c: "serve_core ns policy who b eng = Some (reply, e, eng')" "audit' = audit @ [e]"
    by (auto simp: matrix_serve_audited_def audit_record_def)
  then show "matrix_serve ns policy who b eng = Some (reply, eng')" by (simp add: matrix_serve_def)
  show "\<exists>e resp. audit' = audit @ [e] \<and> reply = matrix_serialize_response resp \<and> au_status e = rs_status resp \<and> au_principal e = who \<and>
         au_kind e = (case decoded b of None \<Rightarrow> 0 | Some req \<Rightarrow> req_kind_code (rq_kind req))"
    by (intro exI [of _ e]) (use c in \<open>force simp: serve_core_cases refusal_def Let_def split: option.splits if_splits\<close>)
qed

theorem refusals_and_audit_witness:
  "\<exists>eng. serve_ready eng \<and> matrix_serve 0 no_grants 5 (matrix_serialize_request default_request) eng = Some (refusal ERR_FORBIDDEN, eng)"
proof -
  obtain pe where pe: "serve_ready \<lparr>eng_point = pe, eng_catalog = catalog_init 10 10\<rparr>" by (rule fresh_engine)
  have d: "decoded (matrix_serialize_request default_request) = Some default_request" by (rule decoded_serialize) (simp add: default_request_def)
  have "\<not> authorized no_grants 5 default_request" by (simp add: authorized_def default_request_def can_read_def no_grants_def)
  then show ?thesis using pe d refusals_and_audit [of "[]" "[]" 0 no_grants "matrix_serialize_request default_request" _ 5] by blast
qed

text \<open>
  C9. An acknowledged PUT survives a crash. When the server has replied to an authorised PUT on a durable
  engine whose disk had room for the two log records, reopening the database from the files as they
  are at that moment gives exactly the store with the new binding.
\<close>

theorem acknowledged_put_survives:
  assumes "pe_ok (eng_point eng)" "serve_ready eng" "pe_cold_store (eng_point eng) = Some cs" "log_room 40 (eng_point eng)"
    and "decoded b = Some req" "rq_kind req = PUT" "authorized policy who req"
    and "matrix_serve ns policy who b eng = Some (reply, eng')"
  shows "\<exists>pe. engine_open (cs_path cs) sync (pe_disk (eng_point eng')) = Some pe \<and>
    pe_map pe = (pe_map (eng_point eng))(rq_key req \<mapsto> rq_value req)"
proof -
  let ?pe2 = "(eng_point eng)\<lparr>pe_in_txn := True, pe_txn_buf := [(rq_key req, rq_value req)]\<rparr>"
  obtain pe3 where c: "commit ?pe2 = Some pe3" "eng_point eng' = pe3"
    using assms(5-8) by (auto simp: matrix_serve_def serve_core_cases Let_def dispatch_put [OF assms(2)])
  have ok: "pe_ok ?pe2" using assms(1) by (simp add: pe_ok_def mem_ok_def)
  have "length (log_bytes (group_ops (Txn (pe_txn_buf ?pe2)))) = 40" by (simp add: log_bytes_def length_op_bytes)
  then have "log_room (length (log_bytes (group_ops (Txn (pe_txn_buf ?pe2))))) ?pe2" using assms(4) by (simp only:) (simp add: log_room_def)
  from commit_ok [OF ok this c(1)] have r: "pe_ok pe3" "pe_map pe3 = (pe_map (eng_point eng))(rq_key req \<mapsto> rq_value req)" by simp_all
  have "pe_wal pe3 = pe_wal ?pe2" using c(1) by (rule wal_commit)
  then obtain cs' where cs': "pe_cold_store pe3 = Some cs'" "cs_path cs' = cs_path cs" using assms(3) by (auto simp: pe_wal_def)
  have d: "durable (cs_path cs) (pe_disk pe3) (pe_map pe3)" "dk_writable (pe_disk pe3) (cs_path cs)" "cs_path cs \<noteq> []" "mem_ok pe3"
    using r(1) cs' by (auto simp: pe_ok_def)
  obtain pe where "engine_open (cs_path cs) sync (pe_disk pe3) = Some pe" "pe_map pe = pe_map pe3"
    using engine_open_durable [OF d(1) pe_map_card [OF d(4)] d(2,3)] by blast
  then show ?thesis using c(2) r(2) by auto
qed

theorem acknowledged_put_survives_witness:
  "\<exists>eng reply eng' pe. matrix_serve 0 permissive 1 (matrix_serialize_request (default_request\<lparr>rq_kind := PUT, rq_key := 7, rq_value := 70\<rparr>)) eng = Some (reply, eng') \<and>
     engine_open ''wal'' SYNC_OFF (pe_disk (eng_point eng')) = Some pe \<and> pe_map pe 7 = Some 70"
proof -
  let ?r = "default_request\<lparr>rq_kind := PUT, rq_key := 7, rq_value := 70\<rparr>"
  obtain pe where pe: "pe_ok pe" "pe_map pe = Map.empty" "pe_cold_store pe = Some \<lparr>cs_path = ''wal'', cs_policy = SYNC_EACH, cs_records_written = 0\<rparr>"
    "log_room 40 pe" "serve_ready \<lparr>eng_point = pe, eng_catalog = catalog_init 10 10\<rparr>" by (rule fresh_engine)
  let ?e = "\<lparr>eng_point = pe, eng_catalog = catalog_init 10 10\<rparr>"
  have d: "decoded (matrix_serialize_request ?r) = Some ?r" by (rule decoded_serialize) (simp add: default_request_def)
  have "serve_able (0, 1, matrix_serialize_request ?r) ?e" by (simp add: serve_able_def d pe(2))
  then have "serve_call permissive (0, 1, matrix_serialize_request ?r) ?e \<noteq> None" by (rule core.serve_returns [OF pe(5)])
  then obtain reply eng' where s: "matrix_serve 0 permissive 1 (matrix_serialize_request ?r) ?e = Some (reply, eng')"
    by (auto simp: serve_call_def)
  have "authorized permissive 1 ?r" by (simp add: authorized_def can_write_def permissive_def)
  from acknowledged_put_survives [of ?e, simplified, OF pe(1,5,3,4) d _ this s, of SYNC_OFF]
  obtain pe' where "engine_open ''wal'' SYNC_OFF (pe_disk (eng_point eng')) = Some pe'" "pe_map pe' = (pe_map pe)(7 \<mapsto> 70)" by auto
  moreover from this(2) have "pe_map pe' 7 = Some 70" by simp
  ultimately show ?thesis using s by blast
qed

definition probe_query :: "u32 \<Rightarrow> matrix_query" where
  "probe_query guess = default_query\<lparr>q_value_col := 7, q_has_filter := True, q_cmp := CMP_EQ, q_threshold := guess, q_filter_col := 9\<rparr>"

text \<open>
  C28. The filter column escapes authorisation. The policy is asked for the value column and the group
  key of a query, never for the column of its WHERE clause. A principal who is granted column 7 only
  learns whether the value in column 9 equals any \<open>t\<close> of their choice: COUNT over column 7 with the
  filter \<open>column 9 = t\<close> is served, and its result is 1 exactly when the secret is \<open>t\<close>.
\<close>

theorem filter_column_not_authorized:
  "\<not> can_query (allow_column 1 7 no_grants) 1 9 \<and>
    (\<exists>ce0 ce eng'. load_scan_column 7 [0] (catalog_init 1000 1000) = Some ce0 \<and> load_scan_column 9 [secret] ce0 = Some ce \<and>
       matrix_serve ns (allow_column 1 7 no_grants) 1 (matrix_serialize_request (default_request\<lparr>rq_kind := QUERY, rq_query := probe_query guess\<rparr>)) \<lparr>eng_point = pe, eng_catalog = ce\<rparr> =
         Some (matrix_serialize_response \<lparr>rs_status = 0, rs_results = [if secret = guess then 1 else 0]\<rparr>, eng'))"
proof
  show "\<not> can_query (allow_column 1 7 no_grants) 1 9" by (simp add: can_query_def allow_column_def no_grants_def the_default_def)
  let ?c = "catalog_init 1000 1000"
  have c: "contents ?c = Map.empty" "ce_tmp_room ?c = 1000" "ce_null_masks ?c = []" "column_type ?c = (\<lambda>_. U32)"
    by (simp_all add: contents_def catalog_init_def fun_eq_iff column_type_def)
  obtain ce0 where ce0: "load_scan_column 7 [0] ?c = Some ce0" "query_ready ce0"
    "logical ce0 = (logical ?c)\<lparr>lg_data := (contents ?c)(7 \<mapsto> concat (map u32_bytes [0]))\<rparr>" "ce_tmp_room ce0 = 1000"
    using load_ready [OF init_ready, of 7 1000 1000 "[0]"] c by auto
  have d0: "contents ce0 = [7 \<mapsto> concat (map u32_bytes [0])]" "map_of (ce_null_masks ce0) = Map.empty"
    using ce0(3) c by (simp_all add: logical_def)
  obtain ce where ce: "load_scan_column 9 [secret] ce0 = Some ce" "query_ready ce"
    "logical ce = (logical ce0)\<lparr>lg_data := (contents ce0)(9 \<mapsto> concat (map u32_bytes [secret]))\<rparr>"
    using load_ready [OF ce0(2), of 9 "[secret]"] d0 ce0(4) by auto
  have lg: "logical ce = \<lparr>lg_data = [7 \<mapsto> concat (map u32_bytes [0]), 9 \<mapsto> concat (map u32_bytes [secret])],
      lg_type = (\<lambda>_. U32), lg_nulls = Map.empty, lg_max_groups = MAX_QUERY_GROUPS\<rparr>"
    unfolding ce(3) ce0(3) using d0 c by (simp add: logical_def catalog_init_def)
  have v: "u32_view (concat (map u32_bytes [secret])) = [secret]" "u32_view (concat (map u32_bytes [0])) = [0]" by (rule u32_view_bytes)+
  have a: "answer (logical ce) (probe_query guess) = (OK, [if secret = guess then 1 else 0])"
    unfolding lg using v by (simp add: answer_simps probe_query_def length_chunks [of _ 4] pred_u32_def matrix_pred_match_def cmp_consts)
  have d: "decoded (matrix_serialize_request (default_request\<lparr>rq_kind := QUERY, rq_query := probe_query guess\<rparr>)) = Some (default_request\<lparr>rq_kind := QUERY, rq_query := probe_query guess\<rparr>)"
    by (rule decoded_serialize) (simp add: probe_query_def cmp_consts)
  have "authorized (allow_column 1 7 no_grants) 1 (default_request\<lparr>rq_kind := QUERY, rq_query := probe_query guess\<rparr>)"
    by (simp add: authorized_def can_query_def allow_column_def probe_query_def default_query_def)
  then show "\<exists>ce0 ce eng'. load_scan_column 7 [0] ?c = Some ce0 \<and> load_scan_column 9 [secret] ce0 = Some ce \<and>
       matrix_serve ns (allow_column 1 7 no_grants) 1 (matrix_serialize_request (default_request\<lparr>rq_kind := QUERY, rq_query := probe_query guess\<rparr>)) \<lparr>eng_point = pe, eng_catalog = ce\<rparr> =
         Some (matrix_serialize_response \<lparr>rs_status = 0, rs_results = [if secret = guess then 1 else 0]\<rparr>, eng')"
    using ce0(1) ce(1) execute_query_answer [OF ce(2), of ns "probe_query guess"] a d
    by (auto simp: matrix_serve_def serve_core_cases dispatch_def query_status_code_def Let_def)
qed

end
