(* ===== verification/Concurrent_Server.thy ===== *)
theory Concurrent_Server
  imports Server
begin

text \<open>
  Serving many clients (\<open>concurrent_server.hpp\<close>, \<open>server_tcp.hpp\<close>). \<open>ConcurrentServer::serve\<close> runs each
  request in at most two critical sections, one under the shared and one under the exclusive lock;
  the lock makes each of them atomic with respect to writers, and what the shared one writes are the
  atomic latency counters, so the model is a transition system whose steps are whole critical
  sections of any number of threads. The TCP adapter is modelled over the chunks of bytes that
  \<open>recv\<close> delivers and the numbers of bytes that \<open>send\<close> accepts.
\<close>

section \<open>The critical sections of a request\<close>

datatype call_state =
    InShared u64 "u8 list"
  | InExclusive u64 "u8 list"
  | Returned u64 "u8 list" "u8 list"

definition first_section :: "u64 \<Rightarrow> u8 list \<Rightarrow> call_state" where
  "first_section who req_bytes =
     (let (ok, req) = matrix_deserialize_request req_bytes default_request in
      if ok \<and> rq_kind req = PUT then InExclusive who req_bytes else InShared who req_bytes)"

text \<open>Under the shared lock: the reply, or nothing when the request has to take the exclusive lock.\<close>

definition shared_section :: "u64 \<Rightarrow> access_policy \<Rightarrow> u64 \<Rightarrow> u8 list \<Rightarrow> cpu_engine \<Rightarrow> (u8 list option \<times> cpu_engine) option" where
  "shared_section ns policy who req_bytes eng =
     (let (ok, req) = matrix_deserialize_request req_bytes default_request; q = rq_query req in
      if ok \<and> rq_kind req = QUERY then
        if \<not> (can_query policy who (q_value_col q) \<and> (\<not> q_grouped q \<or> can_query policy who (q_key_col q)))
        then map_option (\<lambda>(reply, eng'). (Some reply, eng')) (matrix_serve ns policy who req_bytes eng)
        else do {
          (outcome, out, ce) \<leftarrow> execute_query_shared ns q (eng_catalog eng);
          let eng' = eng\<lparr>eng_catalog := ce\<rparr>;
          Some (if outcome = SERVED
                then (Some (matrix_serialize_response \<lparr>rs_status = SERVER_OK, rs_results = out\<rparr>), eng')
                else (None, eng'))
        }
      else map_option (\<lambda>(reply, eng'). (Some reply, eng')) (matrix_serve ns policy who req_bytes eng))"

definition exclusive_section :: "u64 \<Rightarrow> access_policy \<Rightarrow> u64 \<Rightarrow> u8 list \<Rightarrow> cpu_engine \<Rightarrow> (u8 list \<times> cpu_engine) option" where
  "exclusive_section ns policy who req_bytes eng = matrix_serve ns policy who req_bytes eng"

text \<open>The whole of \<open>ConcurrentServer::serve\<close> when no other thread comes between its sections.\<close>

definition concurrent_serve :: "u64 \<Rightarrow> access_policy \<Rightarrow> u64 \<Rightarrow> u8 list \<Rightarrow> cpu_engine \<Rightarrow> (u8 list \<times> cpu_engine) option" where
  "concurrent_serve ns policy who req_bytes eng =
     (case first_section who req_bytes of
        InShared _ _ \<Rightarrow> do {
          (r, eng1) \<leftarrow> shared_section ns policy who req_bytes eng;
          (case r of Some reply \<Rightarrow> Some (reply, eng1) | None \<Rightarrow> exclusive_section ns policy who req_bytes eng1)
        }
      | _ \<Rightarrow> exclusive_section ns policy who req_bytes eng)"

section \<open>The server as a transition system\<close>

text \<open>
  Threads are numbers; \<open>cn_log\<close> records, for the specification only, the calls in the order in which
  the section that produced their reply ran.
\<close>

record conc_server =
  cn_eng :: cpu_engine
  cn_calls :: "nat \<rightharpoonup> call_state"
  cn_log :: "((u64 \<times> u64 \<times> u8 list) \<times> u8 list) list"

inductive conc_step :: "access_policy \<Rightarrow> conc_server \<Rightarrow> conc_server \<Rightarrow> bool" for policy where
  invoke: "cn_calls s t = None \<Longrightarrow>
    conc_step policy s (s\<lparr>cn_calls := (cn_calls s)(t \<mapsto> first_section who b)\<rparr>)"
| shared: "cn_calls s t = Some (InShared who b) \<Longrightarrow> shared_section ns policy who b (cn_eng s) = Some (Some reply, eng') \<Longrightarrow>
    conc_step policy s (s\<lparr>cn_eng := eng', cn_calls := (cn_calls s)(t \<mapsto> Returned who b reply), cn_log := cn_log s @ [((ns, who, b), reply)]\<rparr>)"
| escalate: "cn_calls s t = Some (InShared who b) \<Longrightarrow> shared_section ns policy who b (cn_eng s) = Some (None, eng') \<Longrightarrow>
    conc_step policy s (s\<lparr>cn_eng := eng', cn_calls := (cn_calls s)(t \<mapsto> InExclusive who b)\<rparr>)"
| exclusive: "cn_calls s t = Some (InExclusive who b) \<Longrightarrow> exclusive_section ns policy who b (cn_eng s) = Some (reply, eng') \<Longrightarrow>
    conc_step policy s (s\<lparr>cn_eng := eng', cn_calls := (cn_calls s)(t \<mapsto> Returned who b reply), cn_log := cn_log s @ [((ns, who, b), reply)]\<rparr>)"
| return: "cn_calls s t = Some (Returned who b reply) \<Longrightarrow>
    conc_step policy s (s\<lparr>cn_calls := (cn_calls s)(t := None)\<rparr>)"

definition conc_init :: "cpu_engine \<Rightarrow> conc_server" where
  "conc_init eng = \<lparr>cn_eng = eng, cn_calls = Map.empty, cn_log = []\<rparr>"

section \<open>Framing over a socket\<close>

text \<open>
  \<open>recv_all\<close>: the chunks are what successive \<open>recv\<close> calls could deliver at most; an empty chunk is an
  end of file or an error.
\<close>

function recv_all :: "nat \<Rightarrow> u8 list list \<Rightarrow> (u8 list \<times> u8 list list) option" where
  "recv_all n chunks =
     (if n = 0 then Some ([], chunks)
      else case chunks of [] \<Rightarrow> None
      | c # cs \<Rightarrow>
          if c = [] then None
          else let k = min n (length c) in
            map_option (\<lambda>(bs, cs'). (take k c @ bs, cs')) (recv_all (n - k) (if k < length c then drop k c # cs else cs)))"
  by pat_completeness auto

termination by (relation "measure fst") auto

declare recv_all.simps [simp del]

text \<open>\<open>send_all\<close>: the numbers are what successive \<open>send\<close> calls accept at most, 0 being an error.\<close>

fun send_all :: "u8 list \<Rightarrow> nat list \<Rightarrow> bool \<times> u8 list \<times> nat list" where
  "send_all bs [] = (bs = [], [], [])"
| "send_all bs (w # ws) =
     (if bs = [] then (True, [], w # ws)
      else if w = 0 then (False, [], ws)
      else let (ok, sent, ws') = send_all (drop w bs) ws in (ok, take w bs @ sent, ws'))"

record conn =
  co_in :: "u8 list list"
  co_accepts :: "nat list"
  co_out :: "u8 list"

definition conn_send :: "u8 list \<Rightarrow> conn \<Rightarrow> bool \<times> conn" where
  "conn_send bs c =
     (let (ok, sent, ws) = send_all bs (co_accepts c) in (ok, c\<lparr>co_accepts := ws, co_out := co_out c @ sent\<rparr>))"

text \<open>
  One framed request with the dispatcher \<open>f\<close>; the result is \<open>None\<close> when the dispatcher aborts, otherwise
  whether the connection goes on.
\<close>

definition serve_frame :: "(u8 list \<Rightarrow> 's \<Rightarrow> (u8 list \<times> 's) option) \<Rightarrow> 's \<Rightarrow> conn \<Rightarrow> (bool \<times> 's \<times> conn) option" where
  "serve_frame f s c =
     (case recv_all 4 (co_in c) of None \<Rightarrow> Some (False, s, c\<lparr>co_in := []\<rparr>)
      | Some (lb, cs1) \<Rightarrow>
          let len = le_decode lb :: u32 in
          if len > push_bit 28 1 then Some (False, s, c\<lparr>co_in := cs1\<rparr>)
          else case (if len \<noteq> 0 then recv_all (unat len) cs1 else Some ([], cs1)) of
            None \<Rightarrow> Some (False, s, c\<lparr>co_in := []\<rparr>)
          | Some (req, cs2) \<Rightarrow>
              (case f req s of None \<Rightarrow> None
               | Some (resp, s') \<Rightarrow>
                   let rlen = of_nat (length resp) :: u32; (ok1, c1) = conn_send (u32_bytes rlen) (c\<lparr>co_in := cs2\<rparr>) in
                   if \<not> ok1 then Some (False, s', c1)
                   else if rlen = 0 then Some (True, s', c1)
                   else let (ok2, c2) = conn_send (take (unat rlen) resp) c1 in Some (ok2, s', c2)))"

definition matrix_serve_conn :: "u64 \<Rightarrow> access_policy \<Rightarrow> u64 \<Rightarrow> cpu_engine \<Rightarrow> conn \<Rightarrow> (bool \<times> cpu_engine \<times> conn) option" where
  "matrix_serve_conn ns policy who = serve_frame (matrix_serve ns policy who)"

definition matrix_serve_conn_concurrent :: "u64 \<Rightarrow> access_policy \<Rightarrow> u64 \<Rightarrow> cpu_engine \<Rightarrow> conn \<Rightarrow> (bool \<times> cpu_engine \<times> conn) option" where
  "matrix_serve_conn_concurrent ns policy who = serve_frame (concurrent_serve ns policy who)"

definition authenticate_conn :: "authenticator \<Rightarrow> u64 \<Rightarrow> conn \<Rightarrow> bool \<times> u64 \<times> conn" where
  "authenticate_conn auth who c =
     (case recv_all 4 (co_in c) of None \<Rightarrow> (False, who, c\<lparr>co_in := []\<rparr>)
      | Some (lb, cs1) \<Rightarrow>
          let tlen = le_decode lb :: u32 in
          if tlen > 4096 then (False, who, c\<lparr>co_in := cs1\<rparr>)
          else case (if tlen \<noteq> 0 then recv_all (unat tlen) cs1 else Some ([], cs1)) of
            None \<Rightarrow> (False, who, c\<lparr>co_in := []\<rparr>)
          | Some (tb, cs2) \<Rightarrow>
              let (ok, p) = authenticate auth (map (\<lambda>b. char_of (unat b)) tb) who in (ok, p, c\<lparr>co_in := cs2\<rparr>))"

text \<open>The loop over the frames of a connection; \<open>f i\<close> dispatches its request number \<open>i\<close>.\<close>

lemma recv_all_split: "recv_all n cs = Some (bs, cs') \<Longrightarrow> concat cs = bs @ concat cs' \<and> length bs = n"
proof (induction n cs arbitrary: bs cs' rule: recv_all.induct)
  case (1 n chunks)
  show ?case
  proof (cases "n = 0")
    case True
    then show ?thesis using 1(2) by (simp add: recv_all.simps [of 0])
  next
    case False
    then obtain c cs where cs: "chunks = c # cs" "c \<noteq> []" using 1(2) by (cases chunks) (auto simp: recv_all.simps [of n] split: if_splits)
    let ?k = "min n (length c)"
    obtain bs1 where b: "recv_all (n - ?k) (if ?k < length c then drop ?k c # cs else cs) = Some (bs1, cs')" "bs = take ?k c @ bs1"
      using 1(2) False cs by (auto simp: recv_all.simps [of n] Let_def)
    from 1(1) [OF False cs(1) cs(2) refl b(1)] show ?thesis
      using b(2) cs(1) by (auto simp: min_def split: if_splits) (metis append_assoc append_take_drop_id)
  qed
qed

lemma conn_send_in [simp]: "conn_send bs c = (ok, c') \<Longrightarrow> co_in c' = co_in c"
  by (auto simp: conn_send_def split: prod.splits)

lemma serve_frame_consumes:
  "serve_frame f s c = Some (True, s', c') \<Longrightarrow> length (concat (co_in c')) < length (concat (co_in c))"
  by (auto simp: serve_frame_def Let_def split: option.splits if_splits prod.splits dest!: recv_all_split conn_send_in)

function serve_loop :: "(nat \<Rightarrow> u8 list \<Rightarrow> 's \<Rightarrow> (u8 list \<times> 's) option) \<Rightarrow> nat \<Rightarrow> 's \<Rightarrow> conn \<Rightarrow> ('s \<times> conn) option" where
  "serve_loop f i s c =
     (case serve_frame (f i) s c of None \<Rightarrow> None
      | Some (ok, s', c') \<Rightarrow> if ok then serve_loop f (Suc i) s' c' else Some (s', c'))"
  by pat_completeness auto

termination
  by (relation "measure (\<lambda>(f, i, s, c). length (concat (co_in c)))") (auto dest: serve_frame_consumes)

declare serve_loop.simps [simp del]

definition matrix_serve_conn_auth ::
    "(nat \<Rightarrow> u64) \<Rightarrow> access_policy \<Rightarrow> authenticator \<Rightarrow> cpu_engine \<Rightarrow> conn \<Rightarrow> (bool \<times> cpu_engine \<times> conn) option" where
  "matrix_serve_conn_auth clock policy auth eng c =
     (let (ok, who, c1) = authenticate_conn auth 0 c in
      if \<not> ok then Some (False, eng, c1)
      else map_option (\<lambda>(eng', c'). (True, eng', c')) (serve_loop (\<lambda>i. matrix_serve (clock i) policy who) 0 eng c1))"

text \<open>The bodies of the connection threads of the two accept loops.\<close>

definition serve_thread :: "(nat \<Rightarrow> u64) \<Rightarrow> access_policy \<Rightarrow> cpu_engine \<Rightarrow> conn \<Rightarrow> (cpu_engine \<times> conn) option" where
  "serve_thread clock policy eng c = serve_loop (\<lambda>i. concurrent_serve (clock i) policy 0) 0 eng c"

definition serve_thread_auth :: "(nat \<Rightarrow> u64) \<Rightarrow> access_policy \<Rightarrow> authenticator \<Rightarrow> cpu_engine \<Rightarrow> conn \<Rightarrow> (cpu_engine \<times> conn) option" where
  "serve_thread_auth clock policy auth eng c =
     (let (ok, who, c1) = authenticate_conn auth 0 c in
      if ok then serve_loop (\<lambda>i. concurrent_serve (clock i) policy who) 0 eng c1 else Some (eng, c1))"

section \<open>Sections conform to the specification\<close>

lemma first_section_decoded:
  "first_section who b = (if \<exists>req. decoded b = Some req \<and> rq_kind req = PUT then InExclusive who b else InShared who b)"
  by (simp add: first_section_def decoded_def case_prod_unfold Let_def)

lemma shared_section_decoded:
  "shared_section ns policy who b eng =
     (case decoded b of
        Some req \<Rightarrow>
          if rq_kind req = QUERY \<and> authorized policy who req
          then map_option (\<lambda>(outcome, out, ce).
                 (if outcome = SERVED then Some (matrix_serialize_response \<lparr>rs_status = SERVER_OK, rs_results = out\<rparr>) else None, eng\<lparr>eng_catalog := ce\<rparr>))
               (execute_query_shared ns (rq_query req) (eng_catalog eng))
          else map_option (\<lambda>(reply, eng'). (Some reply, eng')) (matrix_serve ns policy who b eng)
      | None \<Rightarrow> map_option (\<lambda>(reply, eng'). (Some reply, eng')) (matrix_serve ns policy who b eng))"
  by (auto simp: shared_section_def decoded_def authorized_def case_prod_unfold Let_def map_conv_bind_option comp_def intro!: arg_cong2 [of _ _ _ _ Option.bind])

lemma shared_query:
  assumes "query_ready ce"
  shows "\<exists>r out ce1. execute_query_shared ns q ce = Some (r, out, ce1) \<and> query_ready ce1 \<and> logical ce1 = logical ce \<and>
    (r = SERVED \<longrightarrow> answer (logical ce) q = (OK, out))"
proof -
  obtain r where r: "execute_query_shared_impl q ce = Some r" "fst r = SERVED \<longrightarrow> answer (logical ce) q = (OK, snd r)"
    using shared_impl_answer [of ce q] assms by (auto simp: query_ready_def)
  then show ?thesis using record_query_latency_ok [of ce ns] assms
    by (simp add: execute_query_shared_def case_prod_unfold query_ready_def)
qed

lemma request_spec_reads: "request_spec req w resp w' \<Longrightarrow> rq_kind req \<noteq> PUT \<Longrightarrow> w' = w"
  by (cases "rq_kind req") (auto simp: request_spec_def)

lemma serve_spec_reads:
  "serve_spec policy (who, b) w reply w' \<Longrightarrow> first_section who b = InShared who b \<Longrightarrow> w' = w"
  by (auto simp: serve_spec_def first_section_decoded split: option.splits if_splits dest: request_spec_reads)

lemma served_query_spec:
  assumes "decoded b = Some req" "rq_kind req = QUERY" "authorized policy who req" "answer (snd w) (rq_query req) = (OK, out)"
  shows "serve_spec policy (who, b) w (matrix_serialize_response \<lparr>rs_status = SERVER_OK, rs_results = out\<rparr>) w"
  using assms by (auto simp: serve_spec_def request_spec_def query_status_code_def SERVER_OK_def)

lemma shared_section_conforms:
  assumes "serve_ready eng" "shared_section ns policy who b eng = Some (r, eng')" "first_section who b = InShared who b"
  shows "serve_ready eng' \<and> db_view eng' = db_view eng \<and>
    (\<forall>reply. r = Some reply \<longrightarrow> serve_spec policy (who, b) (db_view eng) reply (db_view eng'))"
proof (cases "\<exists>req. decoded b = Some req \<and> rq_kind req = QUERY \<and> authorized policy who req")
  case True
  then obtain req where req: "decoded b = Some req" "rq_kind req = QUERY" "authorized policy who req" by blast
  obtain oc out ce where e: "execute_query_shared ns (rq_query req) (eng_catalog eng) = Some (oc, out, ce)" "query_ready ce"
    "logical ce = logical (eng_catalog eng)" "oc = SERVED \<longrightarrow> answer (logical (eng_catalog eng)) (rq_query req) = (OK, out)"
    using shared_query [of "eng_catalog eng" ns "rq_query req"] assms(1) by (auto simp: serve_ready_def)
  have "serve_ready (eng\<lparr>eng_catalog := ce\<rparr>)" "db_view (eng\<lparr>eng_catalog := ce\<rparr>) = db_view eng"
    using assms(1) e by (simp_all add: serve_ready_def db_view_def)
  then show ?thesis
    using assms(2) e(1,4) served_query_spec [OF req, of "db_view eng"] req
    by (auto simp: shared_section_decoded db_view_def split: if_splits)
next
  case False
  then obtain reply where s: "matrix_serve ns policy who b eng = Some (reply, eng')" "r = Some reply"
    using assms(2) by (auto simp: shared_section_decoded split: option.splits if_splits)
  have "serve_ready eng' \<and> serve_spec policy (who, b) (db_view eng) reply (db_view eng')"
    using core.serve_conforms [OF assms(1), of policy "(ns, who, b)" reply eng'] s(1) by (simp add: serve_call_def)
  then show ?thesis using s(2) serve_spec_reads [OF _ assms(3)] by blast
qed

lemma exclusive_section_conforms:
  assumes "serve_ready eng" "exclusive_section ns policy who b eng = Some (reply, eng')"
  shows "serve_ready eng' \<and> serve_spec policy (who, b) (db_view eng) reply (db_view eng')"
  using core.serve_conforms [OF assms(1), of policy "(ns, who, b)" reply eng'] assms(2)
  by (simp add: serve_call_def exclusive_section_def)

lemma sections_return:
  assumes "serve_ready eng" "serve_able (ns, who, b) eng"
  shows "shared_section ns policy who b eng \<noteq> None" "exclusive_section ns policy who b eng \<noteq> None"
proof -
  have "matrix_serve ns policy who b eng \<noteq> None"
    using core.serve_returns [OF assms, of policy] by (simp add: serve_call_def)
  moreover have "query_ready (eng_catalog eng)" using assms(1) by (simp add: serve_ready_def)
  then have "execute_query_shared ns q (eng_catalog eng) \<noteq> None" for q using shared_query by fastforce
  ultimately show "shared_section ns policy who b eng \<noteq> None" "exclusive_section ns policy who b eng \<noteq> None"
    by (auto simp: shared_section_decoded exclusive_section_def split: option.splits)
qed

text \<open>One request without interference is a service of the same contract.\<close>

definition concurrent_call :: "access_policy \<Rightarrow> u64 \<times> u64 \<times> u8 list \<Rightarrow> cpu_engine \<Rightarrow> (u8 list \<times> cpu_engine) option" where
  "concurrent_call policy call eng = concurrent_serve (fst call) policy (fst (snd call)) (snd (snd call)) eng"

interpretation conc: refined_service "concurrent_call policy" serve_ready db_view serve_able "\<lambda>call. serve_spec policy (snd call)" for policy
proof
  fix s s' :: cpu_engine and q :: "u64 \<times> u64 \<times> u8 list" and r
  obtain ns who b where q: "q = (ns, who, b)" by (cases q)
  assume s: "serve_ready s" and c: "concurrent_call policy q s = Some (r, s')"
  show "serve_ready s' \<and> serve_spec policy (snd q) (db_view s) r (db_view s')"
  proof (cases "first_section who b = InShared who b")
    case True
    then obtain r1 s1 where sh: "shared_section ns policy who b s = Some (r1, s1)"
      "(case r1 of Some reply \<Rightarrow> Some (reply, s1) | None \<Rightarrow> exclusive_section ns policy who b s1) = Some (r, s')"
      using c by (auto simp: q concurrent_call_def concurrent_serve_def split: bind_splits)
    note ok = shared_section_conforms [OF s sh(1) True]
    show ?thesis using ok sh(2) exclusive_section_conforms [of s1 ns policy who b r s'] by (auto simp: q split: option.splits)
  next
    case False
    then have "exclusive_section ns policy who b s = Some (r, s')"
      using c by (auto simp: q concurrent_call_def concurrent_serve_def first_section_decoded split: if_splits)
    then show ?thesis using exclusive_section_conforms [OF s] by (simp add: q)
  qed
next
  fix s :: cpu_engine and q :: "u64 \<times> u64 \<times> u8 list"
  obtain ns who b where q: "q = (ns, who, b)" by (cases q)
  assume s: "serve_ready s" and a: "serve_able q s"
  show "concurrent_call policy q s \<noteq> None"
  proof (cases "first_section who b = InShared who b")
    case True
    obtain r1 s1 where sh: "shared_section ns policy who b s = Some (r1, s1)" using sections_return(1) [OF s, of ns who b policy] a q by fastforce
    have "exclusive_section ns policy who b s1 \<noteq> None" if none: "r1 = None"
    proof -
      obtain req where "decoded b = Some req" "rq_kind req = QUERY" using sh none
        by (auto simp: shared_section_decoded split: option.splits if_splits)
      then have "serve_able (ns, who, b) s1" by (simp add: serve_able_def)
      then show ?thesis using shared_section_conforms [OF s sh True] sections_return(2) by blast
    qed
    then show ?thesis using sh True by (auto simp: q concurrent_call_def concurrent_serve_def split: option.splits)
  next
    case False
    then show ?thesis using sections_return(2) [OF s, of ns who b policy] a
      by (simp add: q concurrent_call_def concurrent_serve_def first_section_decoded split: if_splits)
  qed
qed

section \<open>Linearisability\<close>

text \<open>What every reachable state satisfies.\<close>

definition conc_ok :: "access_policy \<Rightarrow> db_view \<Rightarrow> conc_server \<Rightarrow> bool" where
  "conc_ok policy w s \<longleftrightarrow> serve_ready (cn_eng s) \<and> core.spec_run policy w (cn_log s) (db_view (cn_eng s)) \<and>
     (\<forall>t who b. cn_calls s t = Some (InShared who b) \<longrightarrow> first_section who b = InShared who b) \<and>
     (\<forall>t who b reply. cn_calls s t = Some (Returned who b reply) \<longrightarrow> (\<exists>ns. ((ns, who, b), reply) \<in> set (cn_log s)))"

lemma conc_ok_reply:
  assumes "conc_ok policy w s" "serve_ready eng'" "serve_spec policy (who, b) (db_view (cn_eng s)) reply (db_view eng')"
  shows "conc_ok policy w (s\<lparr>cn_eng := eng', cn_calls := (cn_calls s)(t \<mapsto> Returned who b reply), cn_log := cn_log s @ [((ns, who, b), reply)]\<rparr>)"
proof -
  have "core.spec_run policy w (cn_log s @ [((ns, who, b), reply)]) (db_view eng')"
    using assms by (intro core.spec_snoc [of policy w "cn_log s" "db_view (cn_eng s)"]) (simp_all add: conc_ok_def)
  then show ?thesis using assms(1,2) by (fastforce simp: conc_ok_def)
qed

lemma conc_step_ok: "conc_step policy s s' \<Longrightarrow> conc_ok policy w s \<Longrightarrow> conc_ok policy w s'"
proof (induction rule: conc_step.induct)
  case (invoke s t who b)
  then show ?case by (auto simp: conc_ok_def first_section_decoded)
next
  case (shared s t who b ns reply eng')
  have "serve_ready (cn_eng s)" "first_section who b = InShared who b" using shared by (auto simp: conc_ok_def)
  from shared_section_conforms [OF this(1) shared.hyps(2) this(2)] show ?case using shared.prems by (intro conc_ok_reply) blast+
next
  case (escalate s t who b ns eng')
  have "serve_ready (cn_eng s)" "first_section who b = InShared who b" using escalate by (auto simp: conc_ok_def)
  from shared_section_conforms [OF this(1) escalate.hyps(2) this(2)] show ?case using escalate.prems by (auto simp: conc_ok_def)
next
  case (exclusive s t who b ns reply eng')
  have "serve_ready (cn_eng s)" using exclusive by (simp add: conc_ok_def)
  from exclusive_section_conforms [OF this exclusive.hyps(2)] show ?case using exclusive.prems by (intro conc_ok_reply) simp_all
next
  case (return s t who b reply)
  then show ?case by (auto simp: conc_ok_def)
qed

lemma shared_section_frame:
  assumes "shared_section ns policy who b eng = Some (r, eng')" "first_section who b = InShared who b"
  shows "eng' = eng \<or> eng' = eng\<lparr>eng_catalog := record_query_latency ns (eng_catalog eng)\<rparr>"
proof (cases "\<exists>req. decoded b = Some req \<and> rq_kind req = QUERY \<and> authorized policy who req")
  case True
  then show ?thesis using assms(1) by (auto simp: shared_section_decoded execute_query_shared_def split: if_splits)
next
  case False
  then obtain reply where "matrix_serve ns policy who b eng = Some (reply, eng')"
    using assms(1) by (auto simp: shared_section_decoded split: option.splits if_splits)
  then have "eng' = eng" using False assms(2)
    by (auto simp: matrix_serve_def serve_core_cases first_section_decoded dispatch_def Let_def
        split: option.splits if_splits req_kind.splits bind_splits)
  then show ?thesis ..
qed

lemma conc_pending_steps:
  assumes "conc_ok policy w s" "serve_able (ns, who, b) (cn_eng s)"
    and "cn_calls s t = Some (InShared who b) \<or> cn_calls s t = Some (InExclusive who b)"
  shows "\<exists>s'. conc_step policy s s' \<and> (cn_calls s' t = Some (InExclusive who b) \<and> cn_calls s t = Some (InShared who b) \<or>
    (\<exists>reply. cn_calls s' t = Some (Returned who b reply)))"
proof -
  have "serve_ready (cn_eng s)" using assms(1) by (simp add: conc_ok_def)
  note ret = sections_return [OF this assms(2), of policy]
  from assms(3) show ?thesis
  proof
    assume c: "cn_calls s t = Some (InShared who b)"
    obtain r eng' where "shared_section ns policy who b (cn_eng s) = Some (r, eng')" using ret(1) by fast
    then show ?thesis using conc_step.shared [OF c, of ns policy] conc_step.escalate [OF c, of ns policy] c by (cases r) fastforce+
  next
    assume c: "cn_calls s t = Some (InExclusive who b)"
    obtain reply eng' where "exclusive_section ns policy who b (cn_eng s) = Some (reply, eng')" using ret(2) by fast
    from conc_step.exclusive [OF c this] show ?thesis by fastforce
  qed
qed

text \<open>
  C8. The concurrent server is linearisable. Under every interleaving of the critical sections of any
  number of threads, the replies given so far are those of the specification run sequentially in
  the order of the sections that produced them, from the initial to the current abstract database;
  each reply a thread holds is one of them. A pending call that finds its resources can always take
  its next step, and needs at most two. The section under the shared lock writes nothing but the
  latency counters.
\<close>

theorem concurrent_serving_linearizable:
  assumes "serve_ready eng" "(conc_step policy)\<^sup>*\<^sup>* (conc_init eng) s"
  shows "serve_ready (cn_eng s) \<and> core.spec_run policy (db_view eng) (cn_log s) (db_view (cn_eng s)) \<and>
    (\<forall>t who b reply. cn_calls s t = Some (Returned who b reply) \<longrightarrow> (\<exists>ns. ((ns, who, b), reply) \<in> set (cn_log s))) \<and>
    (\<forall>t who b ns. (cn_calls s t = Some (InShared who b) \<or> cn_calls s t = Some (InExclusive who b)) \<and> serve_able (ns, who, b) (cn_eng s) \<longrightarrow>
      (\<exists>s'. conc_step policy s s' \<and> (cn_calls s' t = Some (InExclusive who b) \<and> cn_calls s t = Some (InShared who b) \<or>
        (\<exists>reply. cn_calls s' t = Some (Returned who b reply))))) \<and>
    (\<forall>t who b ns r eng'. cn_calls s t = Some (InShared who b) \<and> shared_section ns policy who b (cn_eng s) = Some (r, eng') \<longrightarrow>
      eng' = cn_eng s \<or> eng' = (cn_eng s)\<lparr>eng_catalog := record_query_latency ns (eng_catalog (cn_eng s))\<rparr>)"
proof -
  from assms(2) have ok: "conc_ok policy (db_view eng) s"
  proof (induction rule: rtranclp_induct)
    case base
    show ?case using assms(1) core.spec_nil by (simp add: conc_ok_def conc_init_def)
  next
    case (step s s')
    then show ?case using conc_step_ok by blast
  qed
  show ?thesis
  proof (intro conjI allI impI)
    show "serve_ready (cn_eng s)" "core.spec_run policy (db_view eng) (cn_log s) (db_view (cn_eng s))"
      using ok by (simp_all add: conc_ok_def)
  qed (use ok conc_pending_steps [OF ok] shared_section_frame in \<open>(simp add: conc_ok_def; fail) | blast | (fastforce simp: conc_ok_def)\<close>)+
qed

theorem concurrent_serving_linearizable_witness:
  "\<exists>eng s reply. serve_ready eng \<and> (conc_step permissive)\<^sup>*\<^sup>* (conc_init eng) s \<and> cn_calls s 3 = Some (Returned 1 (matrix_serialize_request default_request) reply) \<and>
     length (cn_log s) = 1 \<and> serve_ready (cn_eng s)"
proof -
  let ?b = "matrix_serialize_request default_request"
  obtain pe where pe: "pe_map pe = Map.empty" "serve_ready \<lparr>eng_point = pe, eng_catalog = catalog_init 10 10\<rparr>" by (rule fresh_engine)
  let ?e = "\<lparr>eng_point = pe, eng_catalog = catalog_init 10 10\<rparr>"
  have d: "decoded ?b = Some default_request" by (rule decoded_serialize) (simp add: default_request_def)
  have k: "rq_kind default_request = GET" by (simp add: default_request_def)
  have f: "first_section 1 ?b = InShared 1 ?b" by (simp add: first_section_decoded d k)
  let ?s1 = "(conc_init ?e)\<lparr>cn_calls := (cn_calls (conc_init ?e))(3 \<mapsto> first_section 1 ?b)\<rparr>"
  have s1: "conc_step permissive (conc_init ?e) ?s1" by (rule conc_step.invoke) (simp add: conc_init_def)
  have "shared_section 0 permissive 1 ?b ?e \<noteq> None"
    by (rule sections_return(1) [OF pe(2)]) (simp add: serve_able_def d k)
  then obtain reply eng' where sh: "shared_section 0 permissive 1 ?b ?e = Some (Some reply, eng')"
    by (auto simp: shared_section_decoded d k)
  have c: "cn_calls ?s1 3 = Some (InShared 1 ?b)" "cn_eng ?s1 = ?e" "cn_log ?s1 = []" by (simp_all add: f conc_init_def)
  define s2 where "s2 = ?s1\<lparr>cn_eng := eng', cn_calls := (cn_calls ?s1)(3 \<mapsto> Returned 1 ?b reply), cn_log := cn_log ?s1 @ [((0, 1, ?b), reply)]\<rparr>"
  have "conc_step permissive ?s1 s2" unfolding s2_def using conc_step.shared [OF c(1), of 0 permissive reply eng'] sh c(2) by simp
  with s1 have run: "(conc_step permissive)\<^sup>*\<^sup>* (conc_init ?e) s2" by (meson converse_rtranclp_into_rtranclp rtranclp.rtrancl_refl)
  have r: "cn_calls s2 3 = Some (Returned 1 ?b reply)" "length (cn_log s2) = 1" by (simp_all add: s2_def c(3))
  have "serve_ready (cn_eng s2)" using concurrent_serving_linearizable [OF pe(2) run] by blast
  with run r pe(2) show ?thesis by blast
qed

section \<open>Framing\<close>

lemma recv_all_whole:
  "[] \<notin> set cs \<Longrightarrow> n \<le> length (concat cs) \<Longrightarrow>
    \<exists>cs'. recv_all n cs = Some (take n (concat cs), cs') \<and> concat cs' = drop n (concat cs) \<and> [] \<notin> set cs'"
proof (induction n cs rule: recv_all.induct)
  case (1 n chunks)
  show ?case
  proof (cases "n = 0")
    case True
    then show ?thesis using 1(2) by (simp add: recv_all.simps [of 0])
  next
    case False
    then obtain c cs where cs: "chunks = c # cs" "c \<noteq> []" using 1(2,3) by (cases chunks) auto
    let ?k = "min n (length c)"
    let ?cs = "if ?k < length c then drop ?k c # cs else cs"
    have "[] \<notin> set ?cs" "n - ?k \<le> length (concat ?cs)" using 1(2,3) cs(1) by (auto simp: min_def)
    from 1(1) [OF False cs(1) cs(2) refl this] obtain cs' where
      r: "recv_all (n - ?k) ?cs = Some (take (n - ?k) (concat ?cs), cs')" "concat cs' = drop (n - ?k) (concat ?cs)" "[] \<notin> set cs'" by blast
    have "recv_all n chunks = Some (take ?k c @ take (n - ?k) (concat ?cs), cs')"
      using False cs r(1) by (simp add: recv_all.simps [of n] Let_def)
    then show ?thesis using r(2,3) cs(1) by (auto simp: min_def)
  qed
qed

lemma send_all_whole:
  "0 \<notin> set ws \<Longrightarrow> length bs \<le> length ws \<Longrightarrow>
    \<exists>ws'. send_all bs ws = (True, bs, ws') \<and> 0 \<notin> set ws' \<and> length ws \<le> length ws' + length bs"
proof (induction bs ws rule: send_all.induct)
  case (2 bs w ws)
  show ?case
  proof (cases "bs = []")
    case False
    have "0 \<notin> set ws" "length (drop w bs) \<le> length ws" using 2(2,3) False by auto
    with 2(1) [OF False] 2(2) obtain ws' where "send_all (drop w bs) ws = (True, drop w bs, ws')" "0 \<notin> set ws'"
      "length ws \<le> length ws' + length (drop w bs)" by auto
    moreover from this(3) have "length (w # ws) \<le> length ws' + length bs" using 2(2) False by (cases bs; cases w) auto
    ultimately show ?thesis using 2(2) False by auto
  qed (use 2 in auto)
qed simp

definition frame :: "u8 list \<Rightarrow> u8 list" where
  "frame bs = u32_bytes (of_nat (length bs)) @ bs"

text \<open>A connection with what the peer is going to send, in any chunks, and enough room for \<open>n\<close> bytes of replies.\<close>

definition conn_holds :: "conn \<Rightarrow> u8 list \<Rightarrow> nat \<Rightarrow> bool" where
  "conn_holds c bs n \<longleftrightarrow> [] \<notin> set (co_in c) \<and> concat (co_in c) = bs \<and> 0 \<notin> set (co_accepts c) \<and> n \<le> length (co_accepts c)"

lemma conn_recv:
  assumes "conn_holds c (bs @ rest) n"
  shows "\<exists>cs. recv_all (length bs) (co_in c) = Some (bs, cs) \<and> conn_holds (c\<lparr>co_in := cs\<rparr>) rest n"
  using assms recv_all_whole [of "co_in c" "length bs"] by (auto simp: conn_holds_def)

lemma conn_send_holds:
  assumes "conn_holds c bs (length out + n)"
  shows "\<exists>c'. conn_send out c = (True, c') \<and> conn_holds c' bs n \<and> co_out c' = co_out c @ out"
  using assms send_all_whole [of "co_accepts c" out] by (auto simp: conn_holds_def conn_send_def)

lemma conn_recv_frame:
  assumes "conn_holds c (frame req @ rest) n" "length req < 2 ^ 32"
  shows "\<exists>cs1 cs2. recv_all 4 (co_in c) = Some (u32_bytes (of_nat (length req)), cs1) \<and>
    (if (of_nat (length req) :: u32) \<noteq> 0 then recv_all (length req) cs1 else Some ([], cs1)) = Some (req, cs2) \<and>
    conn_holds (c\<lparr>co_in := cs2\<rparr>) rest n"
proof -
  obtain cs1 where c1: "recv_all 4 (co_in c) = Some (u32_bytes (of_nat (length req)), cs1)" "conn_holds (c\<lparr>co_in := cs1\<rparr>) (req @ rest) n"
    using conn_recv [of c "u32_bytes (of_nat (length req))" "req @ rest" n] assms(1) by (auto simp: frame_def)
  obtain cs2 where c2: "recv_all (length req) cs1 = Some (req, cs2)" "conn_holds (c\<lparr>co_in := cs2\<rparr>) rest n"
    using conn_recv [OF c1(2)] by auto
  have "unat (of_nat (length req) :: u32) = length req" using assms(2) by (intro unat_of_nat_small) simp
  then have "(of_nat (length req) :: u32) = 0 \<longleftrightarrow> req = []" by (metis length_0_conv unat_eq_zero)
  then show ?thesis using c1 c2 by (cases "req = []") auto
qed

lemma serve_frame_whole:
  assumes "conn_holds c (frame req @ rest) (length (frame resp) + n)" "length req \<le> 2 ^ 28" "f req s = Some (resp, s')" "length resp < 2 ^ 32"
  shows "\<exists>c'. serve_frame f s c = Some (True, s', c') \<and> conn_holds c' rest n \<and> co_out c' = co_out c @ frame resp"
proof -
  have len: "unat (of_nat (length req) :: u32) = length req" "unat (of_nat (length resp) :: u32) = length resp"
    using assms(2,4) by (simp_all add: unat_of_nat_small)
  have cap: "\<not> of_nat (length req) > (push_bit 28 1 :: u32)" using assms(2) len(1) by (simp add: word_less_nat_alt push_bit_eq_mult)
  obtain cs1 cs2 where r: "recv_all 4 (co_in c) = Some (u32_bytes (of_nat (length req)), cs1)"
    "(if (of_nat (length req) :: u32) \<noteq> 0 then recv_all (length req) cs1 else Some ([], cs1)) = Some (req, cs2)"
    "conn_holds (c\<lparr>co_in := cs2\<rparr>) rest (length (frame resp) + n)"
    using conn_recv_frame [OF assms(1)] assms(2) by auto
  have "conn_holds (c\<lparr>co_in := cs2\<rparr>) rest (length (u32_bytes (of_nat (length resp))) + (length resp + n))"
    using r(3) by (simp add: frame_def add.assoc)
  from conn_send_holds [OF this] obtain c1 where c1: "conn_send (u32_bytes (of_nat (length resp))) (c\<lparr>co_in := cs2\<rparr>) = (True, c1)"
    "conn_holds c1 rest (length resp + n)" "co_out c1 = co_out c @ u32_bytes (of_nat (length resp))" by auto
  from conn_send_holds [OF c1(2)] obtain c2 where c2: "conn_send resp c1 = (True, c2)" "conn_holds c2 rest n" "co_out c2 = co_out c1 @ resp" by auto
  have zero: "(of_nat (length resp) :: u32) = 0 \<longleftrightarrow> resp = []" using len(2) by (metis length_0_conv unat_eq_zero)
  show ?thesis
    using r(1,2) cap assms(3) c1 c2 zero
    by (cases "(of_nat (length req) :: u32) = 0"; cases "resp = []") (simp_all add: serve_frame_def len frame_def)
qed

text \<open>The requests of a session, one after the other.\<close>

fun run_frames :: "(nat \<Rightarrow> u8 list \<Rightarrow> 's \<Rightarrow> (u8 list \<times> 's) option) \<Rightarrow> nat \<Rightarrow> u8 list list \<Rightarrow> 's \<Rightarrow> (u8 list list \<times> 's) option" where
  "run_frames f i [] s = Some ([], s)"
| "run_frames f i (r # rs) s = do { (p, s1) \<leftarrow> f i r s; (ps, s2) \<leftarrow> run_frames f (Suc i) rs s1; Some (p # ps, s2) }"

lemma serve_loop_whole:
  assumes "conn_holds c (concat (map frame reqs)) (length (concat (map frame replies)))" "\<forall>r \<in> set reqs. length r \<le> 2 ^ 28"
    "run_frames f i reqs s = Some (replies, s')" "\<forall>p \<in> set replies. length p < 2 ^ 32"
  shows "\<exists>c'. serve_loop f i s c = Some (s', c') \<and> co_out c' = co_out c @ concat (map frame replies)"
  using assms
proof (induction reqs arbitrary: i s c replies)
  case Nil
  then have "co_in c = []" "replies = []" "s' = s" by (cases "co_in c"; auto simp: conn_holds_def)+
  then show ?case by (simp add: serve_loop.simps [of f i s c] serve_frame_def recv_all.simps [of 4])
next
  case (Cons r rs)
  obtain p s1 ps where r: "f i r s = Some (p, s1)" "run_frames f (Suc i) rs s1 = Some (ps, s')" "replies = p # ps"
    using Cons.prems(3) by (auto split: bind_splits)
  have "conn_holds c (frame r @ concat (map frame rs)) (length (frame p) + length (concat (map frame ps)))"
    using Cons.prems(1) by (simp add: r(3))
  from serve_frame_whole [of c r _ p _ "f i", OF this _ r(1)] Cons.prems(2,4) r(3) obtain c1 where
    c1: "serve_frame (f i) s c = Some (True, s1, c1)" "conn_holds c1 (concat (map frame rs)) (length (concat (map frame ps)))" "co_out c1 = co_out c @ frame p"
    by auto
  from Cons.IH [OF c1(2) _ r(2)] Cons.prems(2,4) r(3) show ?case
    by (auto simp: serve_loop.simps [of f i s c] c1(1,3))
qed

lemma authenticate_conn_whole:
  assumes "conn_holds c (frame tb @ rest) n" "length tb \<le> 4096"
  shows "\<exists>c1. authenticate_conn auth who c =
      (fst (authenticate auth (map (\<lambda>b. char_of (unat b)) tb) who), snd (authenticate auth (map (\<lambda>b. char_of (unat b)) tb) who), c1) \<and>
    conn_holds c1 rest n \<and> co_out c1 = co_out c"
proof -
  have len: "unat (of_nat (length tb) :: u32) = length tb" using assms(2) by (intro unat_of_nat_small) simp
  have cap: "\<not> of_nat (length tb) > (4096 :: u32)" using assms(2) len by (simp add: word_less_nat_alt)
  obtain cs1 cs2 where r: "recv_all 4 (co_in c) = Some (u32_bytes (of_nat (length tb)), cs1)"
    "(if (of_nat (length tb) :: u32) \<noteq> 0 then recv_all (length tb) cs1 else Some ([], cs1)) = Some (tb, cs2)"
    "conn_holds (c\<lparr>co_in := cs2\<rparr>) rest n"
    using conn_recv_frame [OF assms(1)] assms(2) by auto
  show ?thesis
    using r cap by (cases "(of_nat (length tb) :: u32) = 0") (simp_all add: authenticate_conn_def len split: prod.splits)
qed

text \<open>
  A session over a socket is its requests served in order. Whatever the chunks in which the bytes
  arrive and the portions in which the replies are accepted, a connection that sends a token frame
  and request frames gets, when the token authenticates, exactly the frames of the replies that
  serving the requests one after the other gives, as the principal of the token; when it does not,
  nothing is sent and the engine is unchanged.
\<close>

theorem session_equals_sequential:
  assumes "conn_holds c (frame tb @ concat (map frame reqs)) (length (concat (map frame replies)))" "length tb \<le> 4096"
    and "authenticate auth (map (\<lambda>b. char_of (unat b)) tb) 0 = (ok, who)"
    and "\<forall>r \<in> set reqs. length r \<le> 2 ^ 28" "\<forall>p \<in> set replies. length p < 2 ^ 32"
    and "run_frames (\<lambda>i. matrix_serve (clock i) policy who) 0 reqs eng = Some (replies, eng')"
  shows "\<exists>c'. matrix_serve_conn_auth clock policy auth eng c = Some (ok, if ok then eng' else eng, c') \<and>
    co_out c' = co_out c @ (if ok then concat (map frame replies) else [])"
proof -
  obtain c1 where c1: "authenticate_conn auth 0 c = (ok, who, c1)" "conn_holds c1 (concat (map frame reqs)) (length (concat (map frame replies)))"
    "co_out c1 = co_out c" using authenticate_conn_whole [OF assms(1,2), of auth 0] assms(3) by auto
  show ?thesis using serve_loop_whole [OF c1(2) assms(4,6,5)] c1(3) by (auto simp: matrix_serve_conn_auth_def c1(1))
qed

theorem session_equals_sequential_witness:
  "\<exists>eng c'. serve_ready eng \<and>
    matrix_serve_conn_auth (\<lambda>_. 0) no_grants [(''k'', 5)] eng \<lparr>co_in = [[1], [0, 0, 0, 107], frame (matrix_serialize_request default_request)], co_accepts = replicate 16 1, co_out = []\<rparr> =
      Some (True, eng, c') \<and> co_out c' = frame (refusal ERR_FORBIDDEN)"
proof -
  let ?b = "matrix_serialize_request default_request"
  let ?c = "\<lparr>co_in = [[1], [0, 0, 0, 107], frame ?b], co_accepts = replicate 16 1, co_out = []\<rparr>"
  obtain pe where pe: "serve_ready \<lparr>eng_point = pe, eng_catalog = catalog_init 10 10\<rparr>" by (rule fresh_engine)
  let ?e = "\<lparr>eng_point = pe, eng_catalog = catalog_init 10 10\<rparr>"
  have len: "length ?b = 106" "length (refusal ERR_FORBIDDEN) = 12"
    by (simp_all add: matrix_serialize_request_def Let_def refusal_def matrix_serialize_response_def)
  have tok: "frame [107] = [1, 0, 0, 0, 107]" by (simp add: frame_def le_encode_4)
  have c: "conn_holds ?c (frame [107] @ concat (map frame [?b])) (length (concat (map frame [refusal ERR_FORBIDDEN])))"
    unfolding tok using len by (auto simp: conn_holds_def frame_def le_encode_4)
  have auth: "authenticate [(''k'', 5)] (map (\<lambda>b. char_of (unat b)) [107 :: u8]) 0 = (True, 5)"
    by (simp add: authenticate_def timing_safe_equal_iff) code_simp
  have d: "decoded ?b = Some default_request" by (rule decoded_serialize) (simp add: default_request_def)
  have "\<not> authorized no_grants 5 default_request" by (simp add: authorized_def default_request_def can_read_def no_grants_def)
  then have r: "run_frames (\<lambda>i. matrix_serve 0 no_grants 5) 0 [?b] ?e = Some ([refusal ERR_FORBIDDEN], ?e)"
    by (simp add: matrix_serve_def serve_core_cases d Let_def)
  from session_equals_sequential [OF c _ auth _ _ r] len pe show ?thesis by auto
qed

end
