(* ===== verification/String_Columns.thy ===== *)
theory String_Columns
  imports Query_Ops "HOL-Library.Char_ord" "HOL-Library.List_Lexorder"
begin

text \<open>
  String columns of \<open>CPUMockEngine\<close>: the plain store of \<open>DM-3i\<close> and the dictionary-encoded columns, whose
  codes are an ordinary \<open>uint32_t\<close> catalog column and whose sorted dictionary decodes them. Strings are
  compared as \<open>std::string\<close> does, lexicographically by unsigned characters.
\<close>

section \<open>Plain string columns\<close>

definition load_string_column :: "u64 \<Rightarrow> string list \<Rightarrow> catalog_engine \<Rightarrow> catalog_engine option" where
  "load_string_column cid data ce =
     (if cid = 0 then None else Some (ce\<lparr>ce_string_columns := (ce_string_columns ce)(cid \<mapsto> data)\<rparr>))"

definition string_column_rows :: "catalog_engine \<Rightarrow> u64 \<Rightarrow> nat" where
  "string_column_rows ce cid = (case ce_string_columns ce cid of None \<Rightarrow> 0 | Some data \<Rightarrow> length data)"

definition string_count_where_eq :: "catalog_engine \<Rightarrow> u64 \<Rightarrow> string \<Rightarrow> u64" where
  "string_count_where_eq ce cid v =
     (case ce_string_columns ce cid of None \<Rightarrow> 0 | Some data \<Rightarrow> fold (\<lambda>s c. if s = v then c + 1 else c) data 0)"

definition string_column_at :: "catalog_engine \<Rightarrow> u64 \<Rightarrow> nat \<Rightarrow> string option" where
  "string_column_at ce cid row =
     (case ce_string_columns ce cid of None \<Rightarrow> None | Some data \<Rightarrow> if row < length data then Some (data ! row) else None)"

section \<open>Dictionary-encoded columns\<close>

text \<open>\<open>std::unordered_map::emplace\<close> keeps an existing entry.\<close>

definition emplace :: "'k \<Rightarrow> 'v \<Rightarrow> ('k \<times> 'v) list \<Rightarrow> ('k \<times> 'v) list" where
  "emplace k v m = (if map_of m k = None then m @ [(k, v)] else m)"

definition sort_unique :: "string list \<Rightarrow> string list" where
  "sort_unique data = remdups_adj (sort data)"

definition encoder_of :: "string list \<Rightarrow> (string \<times> u32) list" where
  "encoder_of dict = fold (\<lambda>c. emplace (dict ! c) (of_nat c)) [0..<length dict] []"

text \<open>The loop over the codes does not end when there are \<open>2 ^ 32\<close> different strings or more.\<close>

definition load_string_column_dict :: "u64 \<Rightarrow> string list \<Rightarrow> catalog_engine \<Rightarrow> catalog_engine option" where
  "load_string_column_dict cid data ce =
     (let dict = sort_unique data; enc = encoder_of dict; codes = map (\<lambda>s. the_default 0 (map_of enc s)) data in
      if cid = 0 \<or> 2 ^ 32 \<le> length dict then None
      else map_option (\<lambda>ce'. ce'\<lparr>ce_string_dicts := al_upd cid dict (ce_string_dicts ce'),
                                ce_string_encoders := (ce_string_encoders ce')(cid \<mapsto> enc)\<rparr>)
             (load_scan_column cid codes ce))"

definition string_dict_size :: "catalog_engine \<Rightarrow> u64 \<Rightarrow> u32" where
  "string_dict_size ce cid = (case map_of (ce_string_dicts ce) cid of None \<Rightarrow> 0 | Some dict \<Rightarrow> of_nat (length dict))"

definition string_decode :: "catalog_engine \<Rightarrow> u64 \<Rightarrow> u32 \<Rightarrow> string" where
  "string_decode ce cid code =
     (case map_of (ce_string_dicts ce) cid of None \<Rightarrow> []
      | Some dict \<Rightarrow> if length dict \<le> unat code then [] else dict ! unat code)"

definition string_encode :: "catalog_engine \<Rightarrow> u64 \<Rightarrow> string \<Rightarrow> u32" where
  "string_encode ce cid v =
     (case ce_string_encoders ce cid of None \<Rightarrow> 0
      | Some enc \<Rightarrow> (case map_of enc v of None \<Rightarrow> of_nat (length enc) | Some c \<Rightarrow> c))"

text \<open>\<open>std::lower_bound\<close> and \<open>std::upper_bound\<close> on a sorted dictionary, as codes.\<close>

definition lower_bound :: "string list \<Rightarrow> string \<Rightarrow> u32" where
  "lower_bound dict x = of_nat (length (takeWhile (\<lambda>d. d < x) dict))"

definition upper_bound :: "string list \<Rightarrow> string \<Rightarrow> u32" where
  "upper_bound dict x = of_nat (length (takeWhile (\<lambda>d. \<not> x < d) dict))"

section \<open>The dictionary\<close>

lemma distinct_remdups_adj_sorted: "sorted xs \<Longrightarrow> distinct (remdups_adj (xs :: 'a::linorder list))"
  by (induction xs rule: remdups_adj.induct) auto

lemma sort_unique_props: "sorted (sort_unique data)" "distinct (sort_unique data)" "set (sort_unique data) = set data"
  by (simp_all add: sort_unique_def distinct_remdups_adj_sorted)

lemma encoder_of_zip:
  assumes "distinct dict"
  shows "encoder_of dict = zip dict (map of_nat [0..<length dict])"
proof -
  have "fold (\<lambda>c. emplace (dict ! c) (of_nat c)) [0..<n] [] = zip (take n dict) (map of_nat [0..<n])" if "n \<le> length dict" for n
    using that
  proof (induction n)
    case (Suc n)
    let ?m = "zip (take n dict) (map of_nat [0..<n]) :: (string \<times> u32) list"
    have "dict ! n \<notin> set (take n dict)" using assms Suc.prems
      by (auto simp: in_set_conv_nth nth_eq_iff_index_eq)
    then have "map_of ?m (dict ! n) = None" by (auto simp: map_of_eq_None_iff dest: set_zip_leftD)
    then show ?case using Suc by (simp add: emplace_def take_Suc_conv_app_nth)
  qed simp
  from this [OF order_refl] show ?thesis by (simp add: encoder_of_def)
qed

lemma encoder_lookup:
  assumes "distinct dict" "i < length dict"
  shows "map_of (encoder_of dict) (dict ! i) = Some (of_nat i)"
  unfolding encoder_of_zip [OF assms(1)] using assms by (intro map_of_is_SomeI) (auto simp: set_zip)

lemma encoder_length: "distinct dict \<Longrightarrow> length (encoder_of dict) = length dict"
  by (simp add: encoder_of_zip)

lemma encoder_None: "distinct dict \<Longrightarrow> map_of (encoder_of dict) s = None \<longleftrightarrow> s \<notin> set dict"
  by (simp add: encoder_of_zip map_of_zip_is_None)

text \<open>A code is in the range of a bound exactly when its string compares as asked.\<close>

lemma takeWhile_sorted_index:
  assumes "sorted dict" "i < length dict" "\<And>a b. a \<le> b \<Longrightarrow> P b \<Longrightarrow> P a"
  shows "i < length (takeWhile P dict) \<longleftrightarrow> P (dict ! i)"
proof
  assume "i < length (takeWhile P dict)"
  then show "P (dict ! i)" using nth_mem takeWhile_nth set_takeWhileD by metis
next
  assume p: "P (dict ! i)"
  have "\<And>j. j \<le> i \<Longrightarrow> P (dict ! j)" using assms(1,2,3) p by (meson sorted_nth_mono)
  then have "\<And>x. x \<in> set (take (Suc i) dict) \<Longrightarrow> P x" using assms(2) by (auto simp: in_set_conv_nth less_Suc_eq_le)
  then have "takeWhile P dict = take (Suc i) dict @ takeWhile P (drop (Suc i) dict)"
    by (metis append_take_drop_id takeWhile_append2)
  then show "i < length (takeWhile P dict)" using assms(2) by simp
qed

lemma unat_bounds:
  assumes "length dict < 2 ^ 32"
  shows "unat (lower_bound dict x) = length (takeWhile (\<lambda>d. d < x) dict)" "unat (upper_bound dict x) = length (takeWhile (\<lambda>d. \<not> x < d) dict)"
  using assms length_takeWhile_le [of "\<lambda>d. d < x" dict] length_takeWhile_le [of "\<lambda>d. \<not> x < d" dict]
  unfolding lower_bound_def upper_bound_def by (intro unat_of_nat_small; simp)+

lemma bound_compare:
  assumes "sorted dict" "length dict < 2 ^ 32" "i < length dict"
  shows "of_nat i < lower_bound dict x \<longleftrightarrow> dict ! i < x" "of_nat i < upper_bound dict x \<longleftrightarrow> dict ! i \<le> x"
proof -
  have i: "unat (of_nat i :: u32) = i" using assms(2,3) by (intro unat_of_nat_small) simp
  show "of_nat i < lower_bound dict x \<longleftrightarrow> dict ! i < x"
    unfolding word_less_nat_alt i unat_bounds [OF assms(2)]
    by (rule takeWhile_sorted_index [OF assms(1,3)]) simp
  show "of_nat i < upper_bound dict x \<longleftrightarrow> dict ! i \<le> x"
    unfolding word_less_nat_alt i unat_bounds [OF assms(2)] not_less [symmetric]
    by (rule takeWhile_sorted_index [OF assms(1,3)]) auto
qed

section \<open>Loading a dictionary-encoded column\<close>

lemma string_fields_ready:
  assumes "query_ready ce"
  shows "query_ready (ce\<lparr>ce_string_dicts := ds, ce_string_encoders := es\<rparr>)" "logical (ce\<lparr>ce_string_dicts := ds, ce_string_encoders := es\<rparr>) = logical ce"
proof -
  show lg: "logical (ce\<lparr>ce_string_dicts := ds, ce_string_encoders := es\<rparr>) = logical ce"
    by (rule logical_cong) (simp_all add: contents_def fun_eq_iff)
  have "ce_ok ce" using assms by (simp add: query_ready_def)
  then have "ce_ok (ce\<lparr>ce_string_dicts := ds, ce_string_encoders := es\<rparr>)" by (rule ce_ok_cong) (use \<open>ce_ok ce\<close> in \<open>simp_all add: ce_ok_def\<close>)
  with assms lg show "query_ready (ce\<lparr>ce_string_dicts := ds, ce_string_encoders := es\<rparr>)" by (simp add: query_ready_def)
qed

lemma borrow_count_ready:
  assumes "query_ready ce"
  shows "query_ready (ce\<lparr>ce_cold_borrows := b\<rparr>)" "logical (ce\<lparr>ce_cold_borrows := b\<rparr>) = logical ce"
proof -
  show lg: "logical (ce\<lparr>ce_cold_borrows := b\<rparr>) = logical ce" by (rule logical_cong) (simp_all add: contents_def fun_eq_iff)
  have "ce_ok ce" using assms by (simp add: query_ready_def)
  then have "ce_ok (ce\<lparr>ce_cold_borrows := b\<rparr>)" by (rule ce_ok_cong) (use \<open>ce_ok ce\<close> in \<open>simp_all add: ce_ok_def\<close>)
  with assms lg show "query_ready (ce\<lparr>ce_cold_borrows := b\<rparr>)" by (simp add: query_ready_def)
qed

text \<open>What a dictionary-encoded column is: its codes in the catalog, its sorted dictionary and its encoder.\<close>

definition dict_column :: "catalog_engine \<Rightarrow> u64 \<Rightarrow> string list \<Rightarrow> bool" where
  "dict_column ce cid data \<longleftrightarrow>
     (\<exists>dict codes. dict = sort_unique data \<and> length dict < 2 ^ 32 \<and> map_of (ce_string_dicts ce) cid = Some dict \<and>
        ce_string_encoders ce cid = Some (encoder_of dict) \<and> column_type ce cid = U32 \<and>
        contents ce cid = Some (concat (map u32_bytes codes)) \<and> length codes = length data \<and>
        (\<forall>i < length data. unat (codes ! i) < length dict \<and> dict ! unat (codes ! i) = data ! i))"

lemma load_string_column_dict_ok:
  assumes "query_ready ce" "cid \<noteq> 0" "contents ce cid = None" "map_of (ce_null_masks ce) cid = None"
    and "4 * length data \<le> ce_tmp_room ce" "4 * length data < 2 ^ 53" "card (set data) < 2 ^ 32"
  shows "\<exists>ce'. load_string_column_dict cid data ce = Some ce' \<and> query_ready ce' \<and> dict_column ce' cid data \<and> ce_tmp_room ce' = ce_tmp_room ce \<and>
    (\<forall>k. k \<noteq> cid \<longrightarrow> contents ce' k = contents ce k)"
proof -
  define dict where "dict = sort_unique data"
  define codes where "codes = map (\<lambda>s. the_default 0 (map_of (encoder_of dict) s)) data"
  have d: "distinct dict" "set dict = set data" using sort_unique_props by (simp_all add: dict_def)
  have len: "length dict < 2 ^ 32" using distinct_card [OF d(1)] assms(7) d(2) by simp
  have code: "unat (codes ! i) < length dict \<and> dict ! unat (codes ! i) = data ! i" if i: "i < length data" for i
  proof -
    have "data ! i \<in> set dict" using i d(2) by simp
    then obtain j where j: "j < length dict" "dict ! j = data ! i" by (auto simp: in_set_conv_nth)
    have "codes ! i = of_nat j" using i encoder_lookup [OF d(1) j(1)] j(2) by (simp add: codes_def the_default_def)
    moreover have "unat (of_nat j :: u32) = j" using j(1) len by (intro unat_of_nat_small) simp
    ultimately have "unat (codes ! i) = j" by (simp only:)
    then show ?thesis using j by (simp only:)
  qed
  obtain ce1 where l: "load_scan_column cid codes ce = Some ce1" "query_ready ce1"
    "logical ce1 = (logical ce)\<lparr>lg_data := (contents ce)(cid \<mapsto> concat (map u32_bytes codes))\<rparr>" "column_type ce1 cid = U32" "ce_tmp_room ce1 = ce_tmp_room ce"
    using load_ready [OF assms(1-3) _ _ assms(4), of codes] assms(5,6) by (auto simp: codes_def)
  define ce' where "ce' = ce1\<lparr>ce_string_dicts := al_upd cid dict (ce_string_dicts ce1), ce_string_encoders := (ce_string_encoders ce1)(cid \<mapsto> encoder_of dict)\<rparr>"
  have "load_string_column_dict cid data ce = Some ce'"
    using assms(2) len l(1) by (simp add: load_string_column_dict_def Let_def dict_def [symmetric] codes_def [symmetric] ce'_def)
  moreover have r: "query_ready ce'" "logical ce' = logical ce1" unfolding ce'_def by (rule string_fields_ready [OF l(2)])+
  have c: "contents ce' = (contents ce)(cid \<mapsto> concat (map u32_bytes codes))" using r(2) l(3) by (simp add: logical_def)
  moreover have "map_of (ce_string_dicts ce') cid = Some dict" "ce_string_encoders ce' cid = Some (encoder_of dict)" "column_type ce' cid = U32"
    using l(4) by (simp_all add: ce'_def column_type_def)
  with c code len have "dict_column ce' cid data"
    unfolding dict_column_def by (intro exI [of _ dict] exI [of _ codes]) (simp add: dict_def [symmetric] codes_def)
  ultimately show ?thesis using r(1) l(5) by (intro exI [of _ ce']) (simp add: ce'_def)
qed

text \<open>
  Dictionary encoding loses nothing. Loading strings as a dictionary-encoded column succeeds when
  they fit, and from the catalog column of codes every row decodes to the string that was loaded;
  encoding that string gives back its code. The dictionary holds each different string once, codes
  are ordered as their strings are, and a string that does not occur encodes to a code no row holds.
\<close>

theorem string_dictionary_roundtrip:
  assumes "query_ready ce" "cid \<noteq> 0" "contents ce cid = None" "map_of (ce_null_masks ce) cid = None"
    and "4 * length data \<le> ce_tmp_room ce" "4 * length data < 2 ^ 53" "card (set data) < 2 ^ 32"
  shows "\<exists>ce' codes. load_string_column_dict cid data ce = Some ce' \<and> query_ready ce' \<and>
    contents ce' cid = Some (concat (map u32_bytes codes)) \<and> length codes = length data \<and>
    (\<forall>i < length data. string_decode ce' cid (codes ! i) = data ! i \<and> string_encode ce' cid (data ! i) = codes ! i) \<and>
    (\<forall>i < length data. \<forall>j < length data. codes ! i < codes ! j \<longleftrightarrow> data ! i < data ! j) \<and>
    string_dict_size ce' cid = of_nat (card (set data)) \<and>
    (\<forall>s. s \<notin> set data \<longrightarrow> string_encode ce' cid s \<notin> set codes)"
proof -
  obtain ce' where l: "load_string_column_dict cid data ce = Some ce'" "query_ready ce'" "dict_column ce' cid data"
    using load_string_column_dict_ok [OF assms] by blast
  define dict where "dict = sort_unique data"
  obtain codes where c: "length dict < 2 ^ 32" "map_of (ce_string_dicts ce') cid = Some dict" "ce_string_encoders ce' cid = Some (encoder_of dict)"
    "contents ce' cid = Some (concat (map u32_bytes codes))" "length codes = length data"
    "\<forall>i < length data. unat (codes ! i) < length dict \<and> dict ! unat (codes ! i) = data ! i"
    using l(3) by (auto simp: dict_column_def dict_def)
  have d: "sorted dict" "distinct dict" "set dict = set data" using sort_unique_props by (simp_all add: dict_def)
  have enc: "string_encode ce' cid (data ! i) = codes ! i" if "i < length data" for i
  proof -
    have "map_of (encoder_of dict) (data ! i) = Some (of_nat (unat (codes ! i)))"
      using encoder_lookup [OF d(2), of "unat (codes ! i)"] c(6) that by auto
    then show ?thesis by (simp add: string_encode_def c(3))
  qed
  have absent: "string_encode ce' cid s \<notin> set codes" if "s \<notin> set data" for s
  proof
    assume "string_encode ce' cid s \<in> set codes"
    then obtain i where i: "i < length data" "codes ! i = string_encode ce' cid s" using c(5) by (auto simp: in_set_conv_nth)
    have "string_encode ce' cid s = of_nat (length dict)"
      using that encoder_None [OF d(2), of s] d(3) by (simp add: string_encode_def c(3) encoder_length [OF d(2)])
    then show False using c(1,6) i by (auto simp: unat_of_nat_small)
  qed
  have ord: "codes ! i < codes ! j \<longleftrightarrow> data ! i < data ! j" if "i < length data" "j < length data" for i j
  proof -
    have *: "dict ! a < dict ! b \<longleftrightarrow> a < b" if "a < length dict" "b < length dict" for a b
      using d(1,2) that by (metis linorder_neqE_nat nth_eq_iff_index_eq order.strict_iff_order order_less_imp_not_less sorted_nth_mono order.asym)
    show ?thesis using * [of "unat (codes ! i)" "unat (codes ! j)"] c(6) that by (auto simp: word_less_nat_alt)
  qed
  have "string_dict_size ce' cid = of_nat (card (set data))" using distinct_card [OF d(2)] d(3) by (simp add: string_dict_size_def c(2))
  moreover have "\<forall>i < length data. string_decode ce' cid (codes ! i) = data ! i"
    using c(6) by (auto simp: string_decode_def c(2) not_le)
  ultimately show ?thesis using l(1,2) c(4,5) enc absent ord by (intro exI [of _ ce'] exI [of _ codes]) blast
qed

theorem string_dictionary_roundtrip_witness:
  "\<exists>ce' codes. load_string_column_dict 7 [''pear'', ''fig'', ''pear''] (catalog_init 1000 1000) = Some ce' \<and>
    length codes = 3 \<and> string_decode ce' 7 (codes ! 1) = ''fig'' \<and> string_dict_size ce' 7 = 2"
proof -
  let ?xs = "[''pear'', ''fig'', ''pear'']"
  have c: "contents (catalog_init 1000 1000) 7 = None" "map_of (ce_null_masks (catalog_init 1000 1000)) 7 = None" "4 * length ?xs \<le> ce_tmp_room (catalog_init 1000 1000)"
    by (simp_all add: contents_def catalog_init_def)
  have "(7 :: u64) \<noteq> 0" "4 * length ?xs < 2 ^ 53" "card (set ?xs) < 2 ^ 32" by (simp_all add: card_insert_if)
  from string_dictionary_roundtrip [OF init_ready this(1) c this(2,3)]
  obtain ce' codes where l: "load_string_column_dict 7 ?xs (catalog_init 1000 1000) = Some ce'" "length codes = length ?xs"
    "\<forall>i < length ?xs. string_decode ce' 7 (codes ! i) = ?xs ! i" "string_dict_size ce' 7 = of_nat (card (set ?xs))" by blast
  have "length codes = 3" "string_dict_size ce' 7 = 2" using l(2,4) by (simp_all add: card_insert_if)
  moreover have "string_decode ce' 7 (codes ! 1) = ''fig''" using l(3) by auto
  ultimately show ?thesis using l(1) by blast
qed

end
