(* ===== verification/Snapshot.thy ===== *)
theory Snapshot
  imports Server String_Columns
begin

text \<open>
  Persistence of the analytical half: the single-column files of \<open>column_io.hpp\<close>, and of
  \<open>CPUMockEngine\<close> (\<open>compute_mock.cpp\<close>) \<open>save_column\<close>, \<open>load_column_from_file\<close>, \<open>save_catalog\<close>,
  \<open>load_catalog\<close>, \<open>backup\<close> and \<open>restore\<close>. A column is borrowed to HOST for the time it is written.
  \<open>None\<close> is an abort or an exception that is not caught; \<open>mem\<close> is the largest block the allocator
  grants where a count read from a file decides the size.
\<close>

definition string_bytes :: "string \<Rightarrow> u8 list" where
  "string_bytes s = map of_char s"

definition bytes_string :: "u8 list \<Rightarrow> string" where
  "bytes_string bs = map (\<lambda>b. char_of (unat b)) bs"

section \<open>Single-column files\<close>

definition MATRIX_COLUMN_MAGIC :: u32 where "MATRIX_COLUMN_MAGIC = 0x4D434F4C"
definition MATRIX_COLUMN_MAGIC_TYPED :: u32 where "MATRIX_COLUMN_MAGIC_TYPED = 0x314F434D"

text \<open>The calls of \<open>fwrite\<close> on a file opened for writing, then \<open>fclose\<close>; a short write aborts.\<close>

definition write_items :: "string \<Rightarrow> u8 list list \<Rightarrow> disk \<Rightarrow> disk option" where
  "write_items path items d =
     do {
       d1 \<leftarrow> fopen_wb path d;
       let (ok, s) = stream_write path items ([], d1);
       let d2 = snd (stream_close path s);
       if ok then Some d2 else None
     }"

definition matrix_write_column :: "string \<Rightarrow> u32 list \<Rightarrow> disk \<Rightarrow> disk option" where
  "matrix_write_column path data d =
     write_items path ([u32_bytes MATRIX_COLUMN_MAGIC, u64_bytes (of_nat (length data))] @
       (if data = [] then [] else [concat (map u32_bytes data)])) d"

definition matrix_read_column :: "nat \<Rightarrow> string \<Rightarrow> disk \<Rightarrow> u32 list option" where
  "matrix_read_column mem path d =
     do {
       bs \<leftarrow> dk_files d path;
       (m, bs) \<leftarrow> fread 4 bs;
       if le_decode m \<noteq> MATRIX_COLUMN_MAGIC then None else do {
         (c, bs) \<leftarrow> fread 8 bs;
         let cnt = unat (le_decode c :: u64);
         if mem < 4 * cnt then None else do {
           (data, _) \<leftarrow> fread (4 * cnt) bs;
           Some (u32_view data)
         }
       }
     }"

definition matrix_write_column_typed :: "string \<Rightarrow> u8 list \<Rightarrow> u32 \<Rightarrow> disk \<Rightarrow> disk option" where
  "matrix_write_column_typed path bytes ty d =
     write_items path ([u32_bytes MATRIX_COLUMN_MAGIC_TYPED, u32_bytes ty, u64_bytes (of_nat (length bytes))] @
       (if bytes = [] then [] else [bytes])) d"

definition matrix_read_column_typed :: "nat \<Rightarrow> string \<Rightarrow> disk \<Rightarrow> (u8 list \<times> u32) option" where
  "matrix_read_column_typed mem path d =
     do {
       bs \<leftarrow> dk_files d path;
       (m, bs) \<leftarrow> fread 4 bs;
       if le_decode m \<noteq> MATRIX_COLUMN_MAGIC_TYPED then None else do {
         (t, bs) \<leftarrow> fread 4 bs;
         (c, bs) \<leftarrow> fread 8 bs;
         let bc = unat (le_decode c :: u64);
         if mem < bc then None else do {
           (bytes, _) \<leftarrow> fread bc bs;
           Some (bytes, le_decode t)
         }
       }
     }"

definition save_column :: "u64 \<Rightarrow> string \<Rightarrow> disk \<Rightarrow> catalog_engine \<Rightarrow> (disk \<times> catalog_engine) option" where
  "save_column cid path d ce =
     do {
       (home, ce1) \<leftarrow> borrow cid ce;
       (bs, n) \<leftarrow> host_bytes cid ce1;
       d1 \<leftarrow> matrix_write_column_typed path (take n bs) (matrix_type_code (column_type ce1 cid)) d;
       ce2 \<leftarrow> give_back cid home ce1;
       Some (d1, ce2)
     }"

definition load_column_from_file :: "nat \<Rightarrow> u64 \<Rightarrow> string \<Rightarrow> disk \<Rightarrow> catalog_engine \<Rightarrow> catalog_engine option" where
  "load_column_from_file mem cid path d ce =
     do {
       (bytes, ty) \<leftarrow> matrix_read_column_typed mem path d;
       if ty = matrix_type_code TI64 then load_scan_column_i64 cid (i64_view bytes) ce
       else if ty = matrix_type_code TF64 then load_scan_column_f64 cid (f64_view bytes) ce
       else load_scan_column cid (u32_view bytes) ce
     }"

section \<open>Saving the catalog\<close>

definition MATRIX_CATALOG_MAGIC :: u32 where "MATRIX_CATALOG_MAGIC = 0x4D434132"

fun save_columns :: "string \<Rightarrow> u64 list \<Rightarrow> u8 list \<times> disk \<Rightarrow> catalog_engine \<Rightarrow> (bool \<times> (u8 list \<times> disk) \<times> catalog_engine) option" where
  "save_columns tmp [] s ce = Some (True, s, ce)"
| "save_columns tmp (cid # ids) s ce =
     do {
       (home, ce1) \<leftarrow> borrow cid ce;
       cnt \<leftarrow> column_rows ce1 cid;
       (bs, n) \<leftarrow> host_bytes cid ce1;
       let nm = column_name ce1 cid;
       let namelen = (of_nat (length nm) :: u32);
       let (ok, s1) = stream_write tmp
         ([u64_bytes cid, u32_bytes (matrix_type_code (column_type ce1 cid)), u64_bytes (of_nat cnt), u32_bytes namelen] @
          (if namelen = 0 then [] else [take (unat namelen) (string_bytes nm)]) @
          (if n = 0 then [] else [take n bs])) s;
       ce2 \<leftarrow> give_back cid home ce1;
       if ok then save_columns tmp ids s1 ce2 else Some (False, s1, ce2)
     }"

definition dict_string_items :: "string \<Rightarrow> u8 list list" where
  "dict_string_items s =
     (let len = of_nat (length s) :: u32 in
      u32_bytes len # (if len = 0 then [] else [take (unat len) (string_bytes s)]))"

definition dict_items :: "(u64 \<times> string list) list \<Rightarrow> u8 list list" where
  "dict_items dicts =
     u64_bytes (of_nat (length dicts)) #
     concat (map (\<lambda>(did, dict). [u64_bytes did, u64_bytes (of_nat (length dict))] @ concat (map dict_string_items dict)) dicts)"

definition mask_items :: "(u64 \<times> u8 list) list \<Rightarrow> u8 list list" where
  "mask_items masks =
     u64_bytes (of_nat (length masks)) #
     concat (map (\<lambda>(mid, m). [u64_bytes mid, u64_bytes (of_nat (length m))] @ (if m = [] then [] else [m])) masks)"

definition save_catalog :: "string \<Rightarrow> disk \<Rightarrow> catalog_engine \<Rightarrow> (bool \<times> disk \<times> catalog_engine) option" where
  "save_catalog path d ce =
     (let tmp = path @ ''.tmp'' in
      case fopen_wb tmp d of None \<Rightarrow> Some (False, d, ce)
      | Some d1 \<Rightarrow>
          do {
            let (ok0, s0) = stream_write tmp [u32_bytes MATRIX_CATALOG_MAGIC, u64_bytes (of_nat (length (ce_catalog ce)))] ([], d1);
            (ok1, s1, ce1) \<leftarrow> (if ok0 then save_columns tmp (map fst (ce_catalog ce)) s0 ce else Some (False, s0, ce));
            let (ok2, s2) = (if ok1 then stream_write tmp (dict_items (ce_string_dicts ce1)) s1 else (False, s1));
            let (ok3, s3) = (if ok2 then stream_write tmp (mask_items (ce_null_masks ce1)) s2 else (False, s2));
            let d2 = snd (stream_close tmp s3);
            if \<not> ok3 then Some (False, remove_file tmp d2, ce1)
            else (case rename_file tmp path d2 of None \<Rightarrow> Some (False, remove_file tmp d2, ce1)
                  | Some d3 \<Rightarrow> Some (True, d3, ce1))
          })"

section \<open>Loading the catalog\<close>

text \<open>
  The readers return whether the section was read, the bytes that are left, and what they read. A
  name, a dictionary string or a mask that the file cuts short ends the loading.
\<close>

definition read_column_header :: "u8 list \<Rightarrow> (u64 \<times> u32 \<times> u64 \<times> u32 \<times> u8 list) option" where
  "read_column_header bs =
     do {
       (i, bs) \<leftarrow> fread 8 bs;
       (t, bs) \<leftarrow> fread 4 bs;
       (c, bs) \<leftarrow> fread 8 bs;
       (l, bs) \<leftarrow> fread 4 bs;
       Some (le_decode i, le_decode t, le_decode c, le_decode l, bs)
     }"

definition read_typed_column :: "nat \<Rightarrow> u64 \<Rightarrow> u32 \<Rightarrow> nat \<Rightarrow> u8 list \<Rightarrow> catalog_engine \<Rightarrow> (bool \<times> u8 list \<times> catalog_engine) option" where
  "read_typed_column mem cid ty rows bs ce =
     (let read = (\<lambda>w load. if mem < w * rows then None
        else case fread (w * rows) bs of None \<Rightarrow> Some (False, bs, ce)
          | Some (data, bs') \<Rightarrow> map_option (\<lambda>ce'. (True, bs', ce')) (load data)) in
      if ty = matrix_type_code TI64 then read 8 (\<lambda>data. load_scan_column_i64 cid (i64_view data) ce)
      else if ty = matrix_type_code TF64 then read 8 (\<lambda>data. load_scan_column_f64 cid (f64_view data) ce)
      else if ty = matrix_type_code U32 then read 4 (\<lambda>data. load_scan_column cid (u32_view data) ce)
      else Some (False, bs, ce))"

fun load_columns :: "nat \<Rightarrow> nat \<Rightarrow> u8 list \<Rightarrow> catalog_engine \<Rightarrow> (bool \<times> u8 list \<times> catalog_engine) option" where
  "load_columns mem 0 bs ce = Some (True, bs, ce)"
| "load_columns mem (Suc n) bs ce =
     (case read_column_header bs of None \<Rightarrow> Some (False, bs, ce)
      | Some (cid, ty, cnt, namelen, bs) \<Rightarrow>
          if namelen > 4096 then Some (False, bs, ce)
          else case fread (unat namelen) bs of None \<Rightarrow> Some (False, bs, ce)
            | Some (nm, bs) \<Rightarrow>
                do {
                  (ok, bs, ce1) \<leftarrow> read_typed_column mem cid ty (unat cnt) bs ce;
                  if \<not> ok then Some (False, bs, ce1)
                  else do {
                    ce2 \<leftarrow> (if namelen > 0 then name_column cid (bytes_string nm) ce1 else Some ce1);
                    load_columns mem n bs ce2
                  }
                })"

fun load_strings :: "nat \<Rightarrow> u8 list \<Rightarrow> string list \<Rightarrow> (string \<times> u32) list \<Rightarrow> (u8 list \<times> string list \<times> (string \<times> u32) list) option" where
  "load_strings 0 bs dict enc = Some (bs, dict, enc)"
| "load_strings (Suc n) bs dict enc =
     do {
       (l, bs) \<leftarrow> fread 4 bs;
       let len = (le_decode l :: u32);
       if len > 0x100000 then None else do {
         (s, bs) \<leftarrow> fread (unat len) bs;
         let s = bytes_string s;
         load_strings n bs (dict @ [s]) (emplace s (of_nat (length dict)) enc)
       }
     }"

fun load_dicts :: "nat \<Rightarrow> nat \<Rightarrow> u8 list \<Rightarrow> catalog_engine \<Rightarrow> (bool \<times> u8 list \<times> catalog_engine) option" where
  "load_dicts mem 0 bs ce = Some (True, bs, ce)"
| "load_dicts mem (Suc n) bs ce =
     (case do { (i, bs) \<leftarrow> fread 8 bs; (c, bs) \<leftarrow> fread 8 bs; Some (le_decode i :: u64, le_decode c :: u64, bs) } of
        None \<Rightarrow> Some (False, bs, ce)
      | Some (did, nstr, bs) \<Rightarrow>
          if nstr > 0x100000000 then Some (False, bs, ce)
          else if mem < 32 * unat nstr then None
          else case load_strings (unat nstr) bs [] [] of None \<Rightarrow> Some (False, bs, ce)
            | Some (bs, dict, enc) \<Rightarrow>
                load_dicts mem n bs (ce\<lparr>ce_string_dicts := al_upd did dict (ce_string_dicts ce),
                  ce_string_encoders := (ce_string_encoders ce)(did \<mapsto> enc)\<rparr>))"

fun load_masks :: "nat \<Rightarrow> nat \<Rightarrow> u8 list \<Rightarrow> catalog_engine \<Rightarrow> (bool \<times> u8 list \<times> catalog_engine) option" where
  "load_masks mem 0 bs ce = Some (True, bs, ce)"
| "load_masks mem (Suc n) bs ce =
     (case do { (i, bs) \<leftarrow> fread 8 bs; (c, bs) \<leftarrow> fread 8 bs; Some (le_decode i :: u64, le_decode c :: u64, bs) } of
        None \<Rightarrow> Some (False, bs, ce)
      | Some (mid, mlen, bs) \<Rightarrow>
          if mlen > 0x100000000 then Some (False, bs, ce)
          else if mem < unat mlen then None
          else case fread (unat mlen) bs of None \<Rightarrow> Some (False, bs, ce)
            | Some (m, bs) \<Rightarrow> load_masks mem n bs (ce\<lparr>ce_null_masks := al_upd mid m (ce_null_masks ce)\<rparr>))"

text \<open>A trailing section: its count, if the file has one, and its entries; an older file lacks it.\<close>

definition trailing_section ::
  "(nat \<Rightarrow> u8 list \<Rightarrow> catalog_engine \<Rightarrow> (bool \<times> u8 list \<times> catalog_engine) option) \<Rightarrow>
   bool \<times> u8 list \<times> catalog_engine \<Rightarrow> (bool \<times> u8 list \<times> catalog_engine) option" where
  "trailing_section load r =
     (case r of (ok, bs, ce) \<Rightarrow>
        if \<not> ok then Some (False, bs, ce)
        else case fread 8 bs of None \<Rightarrow> Some (True, [], ce)
          | Some (c, bs) \<Rightarrow> load (unat (le_decode c :: u64)) bs ce)"

definition load_catalog :: "nat \<Rightarrow> string \<Rightarrow> disk \<Rightarrow> catalog_engine \<Rightarrow> (bool \<times> catalog_engine) option" where
  "load_catalog mem path d ce =
     (case dk_files d path of None \<Rightarrow> Some (False, ce)
      | Some bs \<Rightarrow>
          (case do { (m, bs) \<leftarrow> fread 4 bs;
                     if le_decode m \<noteq> MATRIX_CATALOG_MAGIC then None
                     else do { (c, bs) \<leftarrow> fread 8 bs; Some (le_decode c :: u64, bs) } } of
             None \<Rightarrow> Some (False, ce)
           | Some (ncols, bs) \<Rightarrow>
               do {
                 r1 \<leftarrow> load_columns mem (unat ncols) bs ce;
                 r2 \<leftarrow> trailing_section (load_dicts mem) r1;
                 (ok, _, ce') \<leftarrow> trailing_section (load_masks mem) r2;
                 Some (ok, ce')
               }))"

section \<open>Backup and restore\<close>

definition backup :: "string \<Rightarrow> cpu_engine \<Rightarrow> cpu_engine option" where
  "backup pre eng =
     do {
       (_, d, ce) \<leftarrow> save_catalog (pre @ ''.catalog'') (pe_disk (eng_point eng)) (eng_catalog eng);
       pe \<leftarrow> save_checkpoint (pre @ ''.kv'') ((eng_point eng)\<lparr>pe_disk := d\<rparr>);
       Some (eng\<lparr>eng_point := pe, eng_catalog := ce\<rparr>)
     }"

definition restore :: "nat \<Rightarrow> string \<Rightarrow> cpu_engine \<Rightarrow> cpu_engine option" where
  "restore mem pre eng =
     do {
       (_, ce) \<leftarrow> load_catalog mem (pre @ ''.catalog'') (pe_disk (eng_point eng)) (eng_catalog eng);
       (_, pe) \<leftarrow> load_checkpoint (pre @ ''.kv'') (eng_point eng);
       Some (eng\<lparr>eng_point := pe, eng_catalog := ce\<rparr>)
     }"

section \<open>What is written\<close>

lemma stream_write_append:
  "stream_write p (xs @ ys) s = (let (ok, s') = stream_write p xs s in if ok then stream_write p ys s' else (False, s'))"
  by (induction p xs s rule: stream_write.induct) (auto simp: Let_def split: prod.splits)

lemma ce_ok_borrows [simp]: "ce_ok (ce\<lparr>ce_cold_borrows := b\<rparr>) = ce_ok ce"
proof
  show "ce_ok (ce\<lparr>ce_cold_borrows := b\<rparr>)" if "ce_ok ce" using that by (rule ce_ok_cong) (use that in \<open>simp_all add: ce_ok_def\<close>)
  show "ce_ok ce" if "ce_ok (ce\<lparr>ce_cold_borrows := b\<rparr>)" using that by (rule ce_ok_cong) (use that in \<open>simp_all add: ce_ok_def\<close>)
qed

lemma borrows_fields [simp]:
  "contents (ce\<lparr>ce_cold_borrows := b\<rparr>) = contents ce" "column_name (ce\<lparr>ce_cold_borrows := b\<rparr>) = column_name ce"
  "column_type (ce\<lparr>ce_cold_borrows := b\<rparr>) = column_type ce"
  by (simp_all add: contents_def column_name_def column_type_def fun_eq_iff)

definition column_items :: "catalog_engine \<Rightarrow> u64 \<Rightarrow> u8 list list" where
  "column_items ce cid =
     (let bs = the_default [] (contents ce cid); nm = column_name ce cid; ty = column_type ce cid; namelen = of_nat (length nm) :: u32 in
      [u64_bytes cid, u32_bytes (matrix_type_code ty), u64_bytes (of_nat (length bs div type_width ty)), u32_bytes namelen] @
      (if namelen = 0 then [] else [take (unat namelen) (string_bytes nm)]) @ (if bs = [] then [] else [bs]))"

definition catalog_items :: "catalog_engine \<Rightarrow> u8 list list" where
  "catalog_items ce =
     [u32_bytes MATRIX_CATALOG_MAGIC, u64_bytes (of_nat (length (ce_catalog ce)))] @
     concat (map (column_items ce) (map fst (ce_catalog ce))) @ dict_items (ce_string_dicts ce) @ mask_items (ce_null_masks ce)"

lemma save_columns_eq:
  assumes "ce_ok ce" "\<forall>cid \<in> set ids. contents ce cid \<noteq> None"
  shows "\<exists>b. save_columns tmp ids s ce =
    (let (ok, s') = stream_write tmp (concat (map (column_items ce) ids)) s in Some (ok, s', ce\<lparr>ce_cold_borrows := b\<rparr>))"
  using assms
proof (induction ids arbitrary: s ce)
  case Nil
  show ?case by (rule exI [of _ "ce_cold_borrows ce"]) (cases s; simp)
next
  case (Cons cid ids)
  obtain bs where bs: "contents ce cid = Some bs" using Cons.prems(2) by auto
  with Cons.prems(1) obtain col where col: "column_at ce cid = Some col" "col_holds col bs" by (rule ce_ok_column)
  let ?ce1 = "ce\<lparr>ce_cold_borrows := ce_cold_borrows ce + borrows col, ce_catalog := al_upd cid (hosted col) (ce_catalog ce)\<rparr>"
  let ?ce2 = "ce\<lparr>ce_cold_borrows := ce_cold_borrows ce + borrows col\<rparr>"
  have at: "column_at ?ce1 cid = Some (hosted col)" by (simp add: column_at_def)
  have b: "borrow cid ce = Some (col_tier col, ?ce1)" using col by (rule borrow_eq)
  have h: "host_bytes cid ?ce1 = Some (bs, length bs)" using hosted_holds(2,3) [OF col(2)] by (intro host_bytes_eq [OF at]) simp_all
  have g: "give_back cid (col_tier col) ?ce1 = Some ?ce2"
    using give_back_eq [OF at col(2)] col by (simp add: column_at_def al_upd_same)
  have r: "column_rows ?ce1 cid = Some (length bs div type_width (column_type ce cid))"
    using at hosted_holds(2) [OF col(2)] by (simp add: column_rows_def col_holds_def column_type_def)
  have f: "column_name ?ce1 cid = column_name ce cid" "column_type ?ce1 cid = column_type ce cid"
    by (simp_all add: column_name_def column_type_def)
  have i: "column_items ?ce2 = column_items ce" by (simp add: column_items_def fun_eq_iff)
  have e: "save_columns tmp (cid # ids) s ce =
    (let (ok, s1) = stream_write tmp (column_items ce cid) s in if ok then save_columns tmp ids s1 ?ce2 else Some (False, s1, ?ce2))"
    by (simp add: b h g r f Let_def column_items_def bs the_default_def case_prod_unfold cong: if_cong)
  obtain ok s1 where w: "stream_write tmp (column_items ce cid) s = (ok, s1)" by (rule prod.exhaust)
  obtain c where c: "save_columns tmp ids s1 ?ce2 =
    (let (ok, s') = stream_write tmp (concat (map (column_items ce) ids)) s1 in Some (ok, s', ?ce2\<lparr>ce_cold_borrows := c\<rparr>))"
    using Cons.IH [of ?ce2 s1] Cons.prems i by auto
  show ?case
  proof (cases ok)
    case True
    show ?thesis unfolding e by (rule exI [of _ c]) (simp add: w True c stream_write_append)
  next
    case False
    show ?thesis unfolding e by (rule exI [of _ "ce_cold_borrows ce + borrows col"]) (simp add: w False stream_write_append)
  qed
qed

lemma save_catalog_eq:
  assumes "ce_ok ce" "fopen_wb (path @ ''.tmp'') d = Some d1"
  shows "\<exists>b. save_catalog path d ce =
    (let (ok, s) = stream_write (path @ ''.tmp'') (catalog_items ce) ([], d1); d2 = snd (stream_close (path @ ''.tmp'') s) in
     Some (if \<not> ok then (False, remove_file (path @ ''.tmp'') d2, ce\<lparr>ce_cold_borrows := b\<rparr>)
           else case rename_file (path @ ''.tmp'') path d2 of None \<Rightarrow> (False, remove_file (path @ ''.tmp'') d2, ce\<lparr>ce_cold_borrows := b\<rparr>)
                | Some d3 \<Rightarrow> (True, d3, ce\<lparr>ce_cold_borrows := b\<rparr>)))"
proof -
  let ?tmp = "path @ ''.tmp''" and ?hd = "[u32_bytes MATRIX_CATALOG_MAGIC, u64_bytes (of_nat (length (ce_catalog ce)))]"
  obtain ok0 s0 where h: "stream_write ?tmp ?hd ([], d1) = (ok0, s0)" by (rule prod.exhaust)
  have "contents ce cid \<noteq> None" if "cid \<in> set (map fst (ce_catalog ce))" for cid
    using that contents_None [OF assms(1)] by (auto simp: column_at_def map_of_eq_None_iff)
  then obtain b where b: "save_columns ?tmp (map fst (ce_catalog ce)) s0 ce =
      (let (ok, s') = stream_write ?tmp (concat (map (column_items ce) (map fst (ce_catalog ce)))) s0 in Some (ok, s', ce\<lparr>ce_cold_borrows := b\<rparr>))"
    using save_columns_eq [OF assms(1)] by blast
  let ?cols = "concat (map (column_items ce) (map fst (ce_catalog ce)))"
  have w: "stream_write ?tmp (catalog_items ce) ([], d1) =
    (if ok0 then (let (ok1, s1) = stream_write ?tmp ?cols s0 in
       if ok1 then (let (ok2, s2) = stream_write ?tmp (dict_items (ce_string_dicts ce)) s1 in
         if ok2 then stream_write ?tmp (mask_items (ce_null_masks ce)) s2 else (False, s2)) else (False, s1)) else (False, s0))"
    unfolding catalog_items_def stream_write_append h by (simp only: Let_def prod.case)
  show ?thesis
  proof (cases ok0)
    case False
    then show ?thesis
      by (intro exI [of _ "ce_cold_borrows ce"]) (simp add: save_catalog_def assms(2) h w Let_def del: stream_write.simps)
  next
    case True
    then show ?thesis
      by (intro exI [of _ b])
        (simp add: save_catalog_def assms(2) h w b Let_def case_prod_unfold del: stream_write.simps split: option.split)
  qed
qed

section \<open>Reading back what was written\<close>

lemma bytes_string_bytes [simp]: "bytes_string (string_bytes s) = s"
proof -
  have "unat (of_char c :: u8) = of_char c" for c :: char
  proof -
    have "(of_char c :: nat) < 2 ^ LENGTH(8)" using of_char_mod_256 [of c, where ?'a = nat] by simp
    from unat_of_nat_small [OF this] show ?thesis by (simp only: of_nat_of_char)
  qed
  then show ?thesis by (simp add: bytes_string_def string_bytes_def comp_def)
qed

lemma length_string_bytes [simp]: "length (string_bytes s) = length s" "string_bytes s = [] \<longleftrightarrow> s = []" "string_bytes [] = []"
  by (simp_all add: string_bytes_def)

lemma fread_0 [simp]: "fread 0 bs = Some ([], bs)"
  by (simp add: fread_def)

lemma concat_slices: "concat (map (\<lambda>i. take w (drop (w * i) bs)) [0..<n]) = take (w * n) bs"
  by (induction n) (simp_all add: take_add [symmetric] add.commute [of w] del: take_append)

lemma array_bytes:
  assumes "8 * w = LENGTH('a)" "w dvd length bs"
  shows "concat (map (le_encode w) (array_of w bs :: 'a::len word list)) = bs"
proof -
  obtain n where n: "length bs = w * n" using assms(2) by (elim dvdE)
  have "0 < w" using assms(1) len_gt_0 [where ?'a = 'a] by (cases w) simp_all
  have "le_encode w (le_decode (take w (drop (w * i) bs)) :: 'a word) = take w (drop (w * i) bs)" if "i < n" for i
  proof -
    have "w * Suc i \<le> w * n" using that by (intro mult_le_mono) simp_all
    then have "length (take w (drop (w * i) bs)) = w" using n by simp
    then show ?thesis using le_encode_decode [of "take w (drop (w * i) bs)", where ?'a = 'a] assms(1) by simp
  qed
  then have "map (le_encode w) (array_of w bs :: 'a word list) = map (\<lambda>i. take w (drop (w * i) bs)) [0..<n]"
    using \<open>0 < w\<close> n by (simp add: array_of_def)
  then show ?thesis using n by (simp add: concat_slices)
qed

lemma view_bytes:
  "4 dvd length bs \<Longrightarrow> concat (map u32_bytes (u32_view bs)) = bs"
  "8 dvd length bs \<Longrightarrow> concat (map (u64_bytes \<circ> i64_bits) (i64_view bs)) = bs"
  "8 dvd length bs \<Longrightarrow> concat (map (u64_bytes \<circ> f64_bits) (f64_view bs)) = bs"
  by (simp_all add: u32_view_def i64_view_def f64_view_def array_bytes comp_def)

text \<open>The fields that loading a column leaves alone.\<close>

definition same_rest :: "catalog_engine \<Rightarrow> catalog_engine \<Rightarrow> bool" where
  "same_rest ce ce' \<longleftrightarrow> ce_null_masks ce' = ce_null_masks ce \<and> ce_string_dicts ce' = ce_string_dicts ce \<and>
     ce_string_encoders ce' = ce_string_encoders ce \<and> ce_tmp_room ce' = ce_tmp_room ce \<and> ce_max_query_groups ce' = ce_max_query_groups ce"

lemma load_bytes_typed:
  assumes "ce_ok ce" "cid \<noteq> 0" "contents ce cid = None" "length bs < 2 ^ 64" "length bs \<le> ce_tmp_room ce" "type_width ty dvd length bs"
  shows "\<exists>ce'. load_bytes cid bs ce = Some ce' \<and> ce_col_types ce' = ce_col_types ce \<and>
    (let ce2 = ce'\<lparr>ce_col_types := (ce_col_types ce)(cid := (if ty = U32 then None else Some ty))\<rparr> in
     ce_ok ce2 \<and> contents ce2 = (contents ce)(cid \<mapsto> bs) \<and> column_type ce2 = (column_type ce)(cid := ty) \<and> same_rest ce ce2 \<and>
     ce_column_names ce2 = ce_column_names ce \<and> ce_name_to_id ce2 = ce_name_to_id ce)"
proof -
  let ?ty = "if ty = U32 then None else Some ty"
  have "type_width (the_default U32 ?ty) dvd length bs" using assms(6) by (cases ty) (simp_all add: the_default_def type_width_def)
  from load_bytes_ok [OF assms(1-5) this] obtain ce' where l: "load_bytes cid bs ce = Some ce'" "contents ce' = (contents ce)(cid \<mapsto> bs)"
    "ce_ok (ce'\<lparr>ce_col_types := (ce_col_types ce)(cid := ?ty)\<rparr>)" "ce_col_types ce' = ce_col_types ce" by blast
  have c: "contents (ce'\<lparr>ce_col_types := (ce_col_types ce)(cid := ?ty)\<rparr>) = contents ce'" by (simp add: contents_def fun_eq_iff)
  have t: "column_type (ce'\<lparr>ce_col_types := (ce_col_types ce)(cid := ?ty)\<rparr>) = (column_type ce)(cid := ty)"
    by (simp add: column_type_def fun_eq_iff)
  have f: "same_rest ce ce'" "ce_column_names ce' = ce_column_names ce" "ce_name_to_id ce' = ce_name_to_id ce"
    using l(1) by (auto simp: load_bytes_def same_rest_def split: if_splits)
  show ?thesis using l(3) c t f by (intro exI [of _ ce']) (simp add: l(1,2,4) Let_def same_rest_def)
qed

lemma read_typed_column_ok:
  assumes ok: "ce_ok ce" "cid \<noteq> 0" "contents ce cid = None" and len: "length bs < 2 ^ 64" "length bs \<le> ce_tmp_room ce" "type_width ty dvd length bs"
    and mem: "length bs \<le> mem"
  shows "\<exists>ce'. read_typed_column mem cid (matrix_type_code ty) (length bs div type_width ty) (bs @ rest) ce = Some (True, rest, ce') \<and>
    ce_ok ce' \<and> contents ce' = (contents ce)(cid \<mapsto> bs) \<and> column_type ce' = (column_type ce)(cid := ty) \<and> same_rest ce ce' \<and>
    ce_column_names ce' = ce_column_names ce \<and> ce_name_to_id ce' = ce_name_to_id ce"
proof -
  obtain ce' where l: "load_bytes cid bs ce = Some ce'" "ce_col_types ce' = ce_col_types ce"
    "let ce2 = ce'\<lparr>ce_col_types := (ce_col_types ce)(cid := (if ty = U32 then None else Some ty))\<rparr> in
     ce_ok ce2 \<and> contents ce2 = (contents ce)(cid \<mapsto> bs) \<and> column_type ce2 = (column_type ce)(cid := ty) \<and> same_rest ce ce2 \<and>
     ce_column_names ce2 = ce_column_names ce \<and> ce_name_to_id ce2 = ce_name_to_id ce"
    using load_bytes_typed [OF ok len] by blast
  have w: "type_width ty * (length bs div type_width ty) = length bs" using len(3) by simp
  have "read_typed_column mem cid (matrix_type_code ty) (length bs div type_width ty) (bs @ rest) ce =
    Some (True, rest, ce'\<lparr>ce_col_types := (ce_col_types ce)(cid := (if ty = U32 then None else Some ty))\<rparr>)"
  proof (cases ty)
    case U32
    then have "load_scan_column cid (u32_view bs) ce = Some ce'" using l(1) len(3) by (simp add: load_scan_column_def view_bytes type_width_def)
    moreover have "ce'\<lparr>ce_col_types := (ce_col_types ce)(cid := None)\<rparr> = ce'" using no_stale_type [OF ok(1,3)] l(2) by simp
    ultimately show ?thesis using U32 w mem by (simp add: read_typed_column_def matrix_type_code_def type_width_def Let_def)
  next
    case TI64
    then have "load_scan_column_i64 cid (i64_view bs) ce = Some (ce'\<lparr>ce_col_types := (ce_col_types ce)(cid \<mapsto> TI64)\<rparr>)"
      using l(1,2) len(3) by (simp add: load_scan_column_i64_def view_bytes(2) type_width_def)
    then show ?thesis using TI64 w mem by (simp add: read_typed_column_def matrix_type_code_def type_width_def Let_def)
  next
    case TF64
    then have "load_scan_column_f64 cid (f64_view bs) ce = Some (ce'\<lparr>ce_col_types := (ce_col_types ce)(cid \<mapsto> TF64)\<rparr>)"
      using l(1,2) len(3) by (simp add: load_scan_column_f64_def view_bytes(3) type_width_def)
    then show ?thesis using TF64 w mem by (simp add: read_typed_column_def matrix_type_code_def type_width_def Let_def)
  qed
  with l(3) show ?thesis by (simp add: Let_def)
qed

text \<open>A column of a snapshot: its id, type, name and bytes.\<close>

type_synonym snap_col = "u64 \<times> matrix_type \<times> string \<times> u8 list"

fun snap_bytes :: "snap_col \<Rightarrow> u8 list" where
  "snap_bytes (cid, ty, nm, bs) = u64_bytes cid @ u32_bytes (matrix_type_code ty) @ u64_bytes (of_nat (length bs div type_width ty)) @
     u32_bytes (of_nat (length nm)) @ string_bytes nm @ bs"

fun snap_ok :: "nat \<Rightarrow> nat \<Rightarrow> snap_col \<Rightarrow> bool" where
  "snap_ok mem room (cid, ty, nm, bs) \<longleftrightarrow> cid \<noteq> 0 \<and> length nm \<le> 4096 \<and> type_width ty dvd length bs \<and> length bs \<le> mem \<and>
     length bs \<le> room \<and> length bs < 2 ^ 64"

fun put_content :: "snap_col \<Rightarrow> (u64 \<rightharpoonup> u8 list) \<Rightarrow> (u64 \<rightharpoonup> u8 list)" where
  "put_content (cid, ty, nm, bs) m = m(cid \<mapsto> bs)"

fun put_type :: "snap_col \<Rightarrow> (u64 \<Rightarrow> matrix_type) \<Rightarrow> (u64 \<Rightarrow> matrix_type)" where
  "put_type (cid, ty, nm, bs) m = m(cid := ty)"

fun put_name :: "snap_col \<Rightarrow> (u64 \<rightharpoonup> string) \<Rightarrow> (u64 \<rightharpoonup> string)" where
  "put_name (cid, ty, nm, bs) m = (if nm = [] then m else m(cid \<mapsto> nm))"

fun put_name_id :: "snap_col \<Rightarrow> (string \<rightharpoonup> u64) \<Rightarrow> (string \<rightharpoonup> u64)" where
  "put_name_id (cid, ty, nm, bs) m = (if nm = [] then m else m(nm \<mapsto> cid))"

lemma name_column_ok:
  assumes "ce_ok ce" "contents ce cid \<noteq> None"
  shows "\<exists>ce'. (if nm \<noteq> [] then name_column cid nm ce else Some ce) = Some ce' \<and> ce_ok ce' \<and> contents ce' = contents ce \<and>
    column_type ce' = column_type ce \<and> same_rest ce ce' \<and> ce_column_names ce' = put_name (cid, ty, nm, bs) (ce_column_names ce) \<and>
    ce_name_to_id ce' = put_name_id (cid, ty, nm, bs) (ce_name_to_id ce)"
proof (cases "nm = []")
  case True
  then show ?thesis using assms by (simp add: same_rest_def)
next
  case False
  let ?ce = "ce\<lparr>ce_column_names := (ce_column_names ce)(cid \<mapsto> nm), ce_name_to_id := (ce_name_to_id ce)(nm \<mapsto> cid)\<rparr>"
  have "catalog_has ce cid" using assms by (simp add: catalog_has_contents)
  moreover have "ce_ok ?ce" using assms(1) by (rule ce_ok_cong) (use assms(1) in \<open>simp_all add: ce_ok_def\<close>)
  moreover have "contents ?ce = contents ce" "column_type ?ce = column_type ce" by (simp_all add: contents_def column_type_def fun_eq_iff)
  ultimately show ?thesis using False by (intro exI [of _ ?ce]) (simp add: name_column_def same_rest_def)
qed

lemma load_columns_ok:
  assumes "ce_ok ce" "\<forall>c \<in> set cols. snap_ok mem (ce_tmp_room ce) c" "distinct (map fst cols)" "\<forall>c \<in> set cols. contents ce (fst c) = None"
  shows "\<exists>ce'. load_columns mem (length cols) (concat (map snap_bytes cols) @ rest) ce = Some (True, rest, ce') \<and> ce_ok ce' \<and>
    contents ce' = fold put_content cols (contents ce) \<and> column_type ce' = fold put_type cols (column_type ce) \<and> same_rest ce ce' \<and>
    ce_column_names ce' = fold put_name cols (ce_column_names ce) \<and> ce_name_to_id ce' = fold put_name_id cols (ce_name_to_id ce)"
  using assms
proof (induction cols arbitrary: ce)
  case Nil
  then show ?case by (simp add: same_rest_def)
next
  case (Cons c cols)
  obtain cid ty nm bs where c: "c = (cid, ty, nm, bs)" by (cases c)
  let ?more = "concat (map snap_bytes cols) @ rest"
  have s: "cid \<noteq> 0" "length nm \<le> 4096" "type_width ty dvd length bs" "length bs \<le> mem" "length bs \<le> ce_tmp_room ce" "length bs < 2 ^ 64"
    "contents ce cid = None" using Cons.prems(2,4) c by auto
  have nl: "unat (of_nat (length nm) :: u32) = length nm" using s(2) by (intro unat_of_nat_small) simp
  have rows: "unat (of_nat (length bs div type_width ty) :: u64) = length bs div type_width ty"
    using s(6) by (intro unat_of_nat_small le_less_trans [OF div_le_dividend]) simp
  have "\<not> of_nat (length nm) > (4096 :: u32)" "of_nat (length nm) > (0 :: u32) \<longleftrightarrow> nm \<noteq> []"
    using s(2) nl by (simp_all add: word_less_nat_alt)
  note nm = this
  obtain ce1 where r: "read_typed_column mem cid (matrix_type_code ty) (length bs div type_width ty) (bs @ ?more) ce = Some (True, ?more, ce1)"
    "ce_ok ce1" "contents ce1 = (contents ce)(cid \<mapsto> bs)" "column_type ce1 = (column_type ce)(cid := ty)" "same_rest ce ce1"
    "ce_column_names ce1 = ce_column_names ce" "ce_name_to_id ce1 = ce_name_to_id ce"
    using read_typed_column_ok [OF Cons.prems(1) s(1,7,6,5,3,4), of ?more] by blast
  obtain ce2 where n: "(if nm \<noteq> [] then name_column cid nm ce1 else Some ce1) = Some ce2" "ce_ok ce2" "contents ce2 = contents ce1"
    "column_type ce2 = column_type ce1" "same_rest ce1 ce2" "ce_column_names ce2 = put_name c (ce_column_names ce)"
    "ce_name_to_id ce2 = put_name_id c (ce_name_to_id ce)"
    using name_column_ok [OF r(2), of cid nm ty bs] r(3,6,7) c by auto
  have step: "load_columns mem (length (c # cols)) (concat (map snap_bytes (c # cols)) @ rest) ce = load_columns mem (length cols) ?more ce2"
    using r(1) n(1) nl rows nm by (cases "nm = []") (simp_all add: c read_column_header_def)
  have rest: "same_rest ce ce2" using r(5) n(5) by (simp add: same_rest_def)
  have "\<exists>ce'. load_columns mem (length cols) ?more ce2 = Some (True, rest, ce') \<and> ce_ok ce' \<and>
    contents ce' = fold put_content cols (contents ce2) \<and> column_type ce' = fold put_type cols (column_type ce2) \<and> same_rest ce2 ce' \<and>
    ce_column_names ce' = fold put_name cols (ce_column_names ce2) \<and> ce_name_to_id ce' = fold put_name_id cols (ce_name_to_id ce2)"
    using Cons.prems(2,3,4) rest n(3) r(3) c by (intro Cons.IH [OF n(2)]) (auto simp: same_rest_def)
  then show ?case using rest n(3,4,6,7) r(3,4) unfolding step by (auto simp: same_rest_def c)
qed

text \<open>Dictionaries and masks.\<close>

definition string_entry :: "string \<Rightarrow> u8 list" where
  "string_entry s = u32_bytes (of_nat (length s)) @ string_bytes s"

fun dict_entry :: "u64 \<times> string list \<Rightarrow> u8 list" where
  "dict_entry (did, dict) = u64_bytes did @ u64_bytes (of_nat (length dict)) @ concat (map string_entry dict)"

fun mask_entry :: "u64 \<times> u8 list \<Rightarrow> u8 list" where
  "mask_entry (mid, m) = u64_bytes mid @ u64_bytes (of_nat (length m)) @ m"

lemma encoder_of_snoc: "encoder_of (dict @ [s]) = emplace s (of_nat (length dict)) (encoder_of dict)"
proof -
  have "fold (\<lambda>c. emplace ((dict @ [s]) ! c) (of_nat c)) [0..<length dict] [] = fold (\<lambda>c. emplace (dict ! c) (of_nat c)) [0..<length dict] ([] :: (string \<times> u32) list)"
    by (rule fold_cong) (simp_all add: nth_append)
  then show ?thesis by (simp add: encoder_of_def)
qed

lemma load_strings_ok:
  assumes "\<forall>s \<in> set ss. length s \<le> 2 ^ 20"
  shows "load_strings (length ss) (concat (map string_entry ss) @ rest) dict (encoder_of dict) = Some (rest, dict @ ss, encoder_of (dict @ ss))"
  using assms
proof (induction ss arbitrary: dict)
  case (Cons s ss)
  have l: "unat (of_nat (length s) :: u32) = length s" using Cons.prems by (intro unat_of_nat_small) simp
  then have "\<not> of_nat (length s) > (0x100000 :: u32)" using Cons.prems by (simp add: word_less_nat_alt)
  then show ?case using Cons.IH [of "dict @ [s]"] Cons.prems l by (simp add: string_entry_def encoder_of_snoc)
qed simp

definition add_dict :: "u64 \<times> string list \<Rightarrow> catalog_engine \<Rightarrow> catalog_engine" where
  "add_dict p ce = ce\<lparr>ce_string_dicts := al_upd (fst p) (snd p) (ce_string_dicts ce),
     ce_string_encoders := (ce_string_encoders ce)(fst p \<mapsto> encoder_of (snd p))\<rparr>"

definition add_mask :: "u64 \<times> u8 list \<Rightarrow> catalog_engine \<Rightarrow> catalog_engine" where
  "add_mask p ce = ce\<lparr>ce_null_masks := al_upd (fst p) (snd p) (ce_null_masks ce)\<rparr>"

definition dict_fits :: "nat \<Rightarrow> u64 \<times> string list \<Rightarrow> bool" where
  "dict_fits mem p \<longleftrightarrow> length (snd p) \<le> 2 ^ 32 \<and> 32 * length (snd p) \<le> mem \<and> (\<forall>s \<in> set (snd p). length s \<le> 2 ^ 20)"

definition mask_fits :: "nat \<Rightarrow> u64 \<times> u8 list \<Rightarrow> bool" where
  "mask_fits mem p \<longleftrightarrow> length (snd p) \<le> 2 ^ 32 \<and> length (snd p) \<le> mem"

lemma len_4g: "n \<le> 2 ^ 32 \<Longrightarrow> unat (of_nat n :: u64) = n" "n \<le> 2 ^ 32 \<Longrightarrow> \<not> of_nat n > (0x100000000 :: u64)"
proof -
  show u: "unat (of_nat n :: u64) = n" if "n \<le> 2 ^ 32" for n using that by (intro unat_of_nat_small) simp
  show "\<not> of_nat n > (0x100000000 :: u64)" if "n \<le> 2 ^ 32" using u [OF that] that by (simp add: word_less_nat_alt)
qed

lemma load_dicts_ok:
  "\<forall>p \<in> set ds. dict_fits mem p \<Longrightarrow> load_dicts mem (length ds) (concat (map dict_entry ds) @ rest) ce = Some (True, rest, fold add_dict ds ce)"
proof (induction ds arbitrary: ce)
  case (Cons p ds)
  obtain did dict where p: "p = (did, dict)" by (cases p)
  have f: "length dict \<le> 2 ^ 32" "32 * length dict \<le> mem" "\<forall>s \<in> set dict. length s \<le> 2 ^ 20" using Cons.prems by (auto simp: dict_fits_def p)
  have e: "encoder_of [] = []" by (simp add: encoder_of_def)
  have "load_strings (length dict) (concat (map string_entry dict) @ concat (map dict_entry ds) @ rest) [] [] =
      Some (concat (map dict_entry ds) @ rest, dict, encoder_of dict)"
    using load_strings_ok [OF f(3), of "concat (map dict_entry ds) @ rest" "[]"] e by simp
  then show ?case using Cons.IH [of "add_dict p ce"] Cons.prems len_4g [OF f(1)] f(2) by (simp add: p add_dict_def)
qed simp

lemma load_masks_ok:
  "\<forall>p \<in> set ms. mask_fits mem p \<Longrightarrow> load_masks mem (length ms) (concat (map mask_entry ms) @ rest) ce = Some (True, rest, fold add_mask ms ce)"
proof (induction ms arbitrary: ce)
  case (Cons p ms)
  obtain mid m where p: "p = (mid, m)" by (cases p)
  have f: "length m \<le> 2 ^ 32" "length m \<le> mem" using Cons.prems by (auto simp: mask_fits_def p)
  then show ?case using Cons.IH [of "add_mask p ce"] Cons.prems len_4g [OF f(1)] by (simp add: p add_mask_def)
qed simp

section \<open>A snapshot restores the catalog\<close>

definition snap_cols :: "catalog_engine \<Rightarrow> snap_col list" where
  "snap_cols ce = map (\<lambda>k. (k, column_type ce k, column_name ce k, the_default [] (contents ce k))) (map fst (ce_catalog ce))"

definition catalog_bytes :: "catalog_engine \<Rightarrow> u8 list" where
  "catalog_bytes ce =
     u32_bytes MATRIX_CATALOG_MAGIC @ u64_bytes (of_nat (length (ce_catalog ce))) @ concat (map snap_bytes (snap_cols ce)) @
     u64_bytes (of_nat (length (ce_string_dicts ce))) @ concat (map dict_entry (ce_string_dicts ce)) @
     u64_bytes (of_nat (length (ce_null_masks ce))) @ concat (map mask_entry (ce_null_masks ce))"

text \<open>What a snapshot can hold and the engine that reads it can take.\<close>

definition snapshot_fits :: "nat \<Rightarrow> nat \<Rightarrow> catalog_engine \<Rightarrow> bool" where
  "snapshot_fits mem room ce \<longleftrightarrow> length (ce_catalog ce) < 2 ^ 64 \<and> length (ce_string_dicts ce) < 2 ^ 64 \<and> length (ce_null_masks ce) < 2 ^ 64 \<and>
     (\<forall>k bs. contents ce k = Some bs \<longrightarrow> length bs \<le> mem \<and> length bs \<le> room) \<and> (\<forall>k. length (column_name ce k) \<le> 4096) \<and>
     (\<forall>p \<in> set (ce_string_dicts ce). dict_fits mem p) \<and> (\<forall>p \<in> set (ce_null_masks ce). mask_fits mem p)"

text \<open>Names resolve to the column that has them; each dictionary has its encoder; ids occur once.\<close>

definition names_consistent :: "catalog_engine \<Rightarrow> bool" where
  "names_consistent ce \<longleftrightarrow> (\<forall>nm k. ce_name_to_id ce nm = Some k \<longleftrightarrow> ce_column_names ce k = Some nm) \<and>
     (\<forall>k nm. ce_column_names ce k = Some nm \<longrightarrow> nm \<noteq> [] \<and> contents ce k \<noteq> None)"

definition tables_consistent :: "catalog_engine \<Rightarrow> bool" where
  "tables_consistent ce \<longleftrightarrow> distinct (map fst (ce_string_dicts ce)) \<and> distinct (map fst (ce_null_masks ce)) \<and>
     (\<forall>k. ce_string_encoders ce k = map_option encoder_of (map_of (ce_string_dicts ce) k))"

lemma of_nat_len_zero: "unat (of_nat n :: u32) = n \<Longrightarrow> of_nat n = (0 :: u32) \<longleftrightarrow> n = 0"
  using unat_eq_zero [of "of_nat n :: u32"] by (simp only:)

lemma concat_column_items: "length (column_name ce k) \<le> 4096 \<Longrightarrow>
  concat (column_items ce k) = snap_bytes (k, column_type ce k, column_name ce k, the_default [] (contents ce k))"
proof -
  assume l: "length (column_name ce k) \<le> 4096"
  then have "unat (of_nat (length (column_name ce k)) :: u32) = length (column_name ce k)" by (intro unat_of_nat_small) simp
  moreover from this have "of_nat (length (column_name ce k)) = (0 :: u32) \<longleftrightarrow> column_name ce k = []" by (simp only: of_nat_len_zero length_0_conv)
  ultimately show ?thesis by (simp add: column_items_def Let_def)
qed

lemma concat_dict_string: "length s \<le> 2 ^ 20 \<Longrightarrow> concat (dict_string_items s) = string_entry s"
proof -
  assume l: "length s \<le> 2 ^ 20"
  then have "unat (of_nat (length s) :: u32) = length s" by (intro unat_of_nat_small) simp
  moreover from this have "of_nat (length s) = (0 :: u32) \<longleftrightarrow> s = []" by (simp only: of_nat_len_zero length_0_conv)
  ultimately show ?thesis by (simp add: dict_string_items_def string_entry_def Let_def)
qed

lemma concat_dict_items:
  assumes "\<forall>p \<in> set ds. dict_fits mem p"
  shows "concat (dict_items ds) = u64_bytes (of_nat (length ds)) @ concat (map dict_entry ds)"
proof -
  have str: "concat (concat (map dict_string_items ss)) = concat (map string_entry ss)" if "\<forall>s \<in> set ss. length s \<le> 2 ^ 20" for ss
    using that by (induction ss) (simp_all add: concat_dict_string)
  have "concat (concat (map (\<lambda>(did, dict). [u64_bytes did, u64_bytes (of_nat (length dict))] @ concat (map dict_string_items dict)) ds)) = concat (map dict_entry ds)"
    using assms by (induction ds) (auto simp: dict_fits_def str)
  then show ?thesis by (simp add: dict_items_def)
qed

lemma concat_mask_items: "concat (mask_items ms) = u64_bytes (of_nat (length ms)) @ concat (map mask_entry ms)"
proof -
  have "concat (concat (map (\<lambda>(mid, m). [u64_bytes mid, u64_bytes (of_nat (length m))] @ (if m = [] then [] else [m])) ms)) = concat (map mask_entry ms)"
    by (induction ms) auto
  then show ?thesis by (simp add: mask_items_def)
qed

lemma concat_catalog_items:
  assumes "snapshot_fits mem room ce"
  shows "concat (catalog_items ce) = catalog_bytes ce"
proof -
  have "concat (concat (map (column_items ce) ks)) = concat (map snap_bytes (map (\<lambda>k. (k, column_type ce k, column_name ce k, the_default [] (contents ce k))) ks))" for ks
    using assms by (induction ks) (simp_all add: snapshot_fits_def concat_column_items)
  note cols = this [of "map fst (ce_catalog ce)"]
  have "\<forall>p \<in> set (ce_string_dicts ce). dict_fits mem p" using assms by (simp add: snapshot_fits_def)
  note dicts = concat_dict_items [OF this]
  show ?thesis unfolding catalog_items_def catalog_bytes_def snap_cols_def concat_append cols dicts concat_mask_items by simp
qed

lemma fold_snap:
  fixes t n c ks defines "cols \<equiv> map (\<lambda>k. (k, t k, n k, c k)) ks"
  shows "fold put_content cols m = (\<lambda>k. if k \<in> set ks then Some (c k) else m k)"
    and "fold put_type cols f = (\<lambda>k. if k \<in> set ks then t k else f k)"
    and "fold put_name cols g = (\<lambda>k. if k \<in> set ks \<and> n k \<noteq> [] then Some (n k) else g k)"
  unfolding cols_def by (induction ks arbitrary: m f g) (auto simp: fun_eq_iff)

lemma fold_snap_ids:
  "(\<forall>k \<in> set ks. n k \<noteq> s) \<or> s = [] \<Longrightarrow> fold put_name_id (map (\<lambda>k. (k, t k, n k, c k)) ks) h s = h s"
  "k \<in> set ks \<Longrightarrow> n k = s \<Longrightarrow> s \<noteq> [] \<Longrightarrow> \<forall>k' \<in> set ks. n k' = s \<longrightarrow> k' = k \<Longrightarrow>
     fold put_name_id (map (\<lambda>k. (k, t k, n k, c k)) ks) h s = Some k"
proof -
  show none: "fold put_name_id (map (\<lambda>k. (k, t k, n k, c k)) ks) h s = h s" if "(\<forall>k \<in> set ks. n k \<noteq> s) \<or> s = []" for ks h
    using that by (induction ks arbitrary: h) auto
  show "fold put_name_id (map (\<lambda>k. (k, t k, n k, c k)) ks) h s = Some k"
    if "k \<in> set ks" "n k = s" "s \<noteq> []" "\<forall>k' \<in> set ks. n k' = s \<longrightarrow> k' = k"
    using that
  proof (induction ks arbitrary: h)
    case (Cons k' ks)
    show ?case
    proof (cases "k \<in> set ks")
      case True
      moreover have "\<forall>k' \<in> set ks. n k' = s \<longrightarrow> k' = k" using Cons.prems(4) by (meson list.set_intros(2))
      ultimately show ?thesis using Cons.IH [OF _ Cons.prems(2,3)] by simp
    next
      case False
      then have "k' = k" using Cons.prems(1) by simp
      moreover have "\<forall>k \<in> set ks. n k \<noteq> s" using Cons.prems(4) False by (metis list.set_intros(2))
      ultimately show ?thesis using none [of ks] Cons.prems(2,3) by simp
    qed
  qed simp
qed

lemma fold_al_upd: "distinct (map fst (m @ ds)) \<Longrightarrow> fold (\<lambda>p. al_upd (fst p) (snd p)) ds m = m @ ds"
proof (induction ds arbitrary: m)
  case (Cons p ds)
  then show ?case using Cons.IH [of "m @ [p]"] by (simp add: al_upd_keys_absent)
qed simp

lemma fold_add_dict:
  "fold add_dict ds ce = ce\<lparr>ce_string_dicts := fold (\<lambda>p. al_upd (fst p) (snd p)) ds (ce_string_dicts ce),
     ce_string_encoders := fold (\<lambda>p e. e(fst p \<mapsto> encoder_of (snd p))) ds (ce_string_encoders ce)\<rparr>"
  by (induction ds arbitrary: ce) (simp_all add: add_dict_def)

lemma fold_add_mask: "fold add_mask ms ce = ce\<lparr>ce_null_masks := fold (\<lambda>p. al_upd (fst p) (snd p)) ms (ce_null_masks ce)\<rparr>"
  by (induction ms arbitrary: ce) (simp_all add: add_mask_def)

lemma fold_encoders:
  "distinct (map fst ds) \<Longrightarrow> fold (\<lambda>p e. e(fst p \<mapsto> encoder_of (snd p))) ds e = e ++ (map_option encoder_of \<circ> map_of ds)"
proof (induction ds arbitrary: e)
  case (Cons p ds)
  then have "map_of ds (fst p) = None" by (simp add: map_of_eq_None_iff)
  with Cons show ?case by (auto simp: fun_eq_iff map_add_def)
qed (simp add: fun_eq_iff map_add_def)

lemma catalog_keys: "ce_ok ce \<Longrightarrow> k \<in> set (map fst (ce_catalog ce)) \<longleftrightarrow> contents ce k \<noteq> None"
  using contents_None [of ce k] by (simp add: column_at_def map_of_eq_None_iff)

lemma snap_cols_ok:
  assumes "query_ready ce" "snapshot_fits mem room ce"
  shows "\<forall>c \<in> set (snap_cols ce). snap_ok mem room c" "distinct (map fst (snap_cols ce))" "length (snap_cols ce) = length (ce_catalog ce)"
proof -
  have ce: "ce_ok ce" "lg_ok (logical ce)" using assms(1) by (simp_all add: query_ready_def)
  have "snap_ok mem room (k, column_type ce k, column_name ce k, the_default [] (contents ce k))" if k: "k \<in> set (map fst (ce_catalog ce))" for k
  proof -
    obtain bs where bs: "contents ce k = Some bs" using k catalog_keys [OF ce(1)] by blast
    then have "length bs < 2 ^ 53" using ce(2) by (simp add: lg_ok_def logical_def)
    then have "length bs < 2 ^ 64" by simp
    moreover have "k \<noteq> 0" using bs ce(1) by (auto simp: ce_ok_def contents_def)
    ultimately show ?thesis using assms(2) ce(1) bs by (simp add: snapshot_fits_def ce_ok_def the_default_def)
  qed
  then show "\<forall>c \<in> set (snap_cols ce). snap_ok mem room c" by (auto simp: snap_cols_def)
  have "map fst (snap_cols ce) = map fst (ce_catalog ce)" by (simp add: snap_cols_def comp_def)
  then show "distinct (map fst (snap_cols ce))" using ce(1) by (simp add: ce_ok_def)
qed (simp add: snap_cols_def)

text \<open>Putting the columns of a snapshot into an empty catalog gives the catalog that was saved.\<close>

lemma fold_snap_contents: "ce_ok ce \<Longrightarrow> fold put_content (snap_cols ce) Map.empty = contents ce"
  unfolding snap_cols_def fold_snap using catalog_keys [of ce] by (auto simp: fun_eq_iff the_default_def)

lemma fold_snap_types: "ce_ok ce \<Longrightarrow> fold put_type (snap_cols ce) (\<lambda>_. U32) = column_type ce"
  unfolding snap_cols_def fold_snap by (fastforce simp: fun_eq_iff column_type_def ce_ok_def split: option.split)

lemma fold_snap_names:
  assumes "ce_ok ce" "names_consistent ce"
  shows "fold put_name (snap_cols ce) Map.empty = ce_column_names ce"
proof
  fix k
  show "fold put_name (snap_cols ce) Map.empty k = ce_column_names ce k"
    using assms(2) catalog_keys [OF assms(1), of k] unfolding snap_cols_def fold_snap
    by (cases "ce_column_names ce k") (auto simp: column_name_def names_consistent_def)
qed

lemma fold_snap_name_ids:
  assumes "ce_ok ce" "names_consistent ce"
  shows "fold put_name_id (snap_cols ce) Map.empty = ce_name_to_id ce"
proof
  fix nm
  let ?ks = "map fst (ce_catalog ce)"
  have names: "ce_name_to_id ce nm = Some k \<longleftrightarrow> k \<in> set ?ks \<and> column_name ce k = nm \<and> nm \<noteq> []" for k
    using assms(2) catalog_keys [OF assms(1), of k] by (auto simp: names_consistent_def column_name_def split: option.split)
  show "fold put_name_id (snap_cols ce) Map.empty nm = ce_name_to_id ce nm"
  proof (cases "ce_name_to_id ce nm")
    case None
    then show ?thesis using names unfolding snap_cols_def by (subst fold_snap_ids(1)) auto
  next
    case (Some k)
    then have "k \<in> set ?ks" "column_name ce k = nm" "nm \<noteq> []" using names by simp_all
    moreover have "\<forall>k' \<in> set ?ks. column_name ce k' = nm \<longrightarrow> k' = k" using names Some calculation(3) by (metis option.inject)
    ultimately show ?thesis unfolding snap_cols_def Some by (rule fold_snap_ids(2))
  qed
qed

lemma load_catalog_bytes:
  assumes ok: "query_ready ce" "names_consistent ce" "tables_consistent ce" and fits: "snapshot_fits mem room ce"
    and on_disk: "dk_files d path = Some (catalog_bytes ce)"
  shows "\<exists>ce'. load_catalog mem path d (catalog_init host_cap room) = Some (True, ce') \<and> query_ready ce' \<and>
    logical ce' = (logical ce)\<lparr>lg_max_groups := MAX_QUERY_GROUPS\<rparr> \<and> ce_column_names ce' = ce_column_names ce \<and> ce_name_to_id ce' = ce_name_to_id ce \<and>
    ce_string_dicts ce' = ce_string_dicts ce \<and> ce_string_encoders ce' = ce_string_encoders ce"
proof -
  let ?c0 = "catalog_init host_cap room"
  have ce: "ce_ok ce" "lg_ok (logical ce)" using ok(1) by (simp_all add: query_ready_def)
  have c0: "contents ?c0 = Map.empty" "ce_tmp_room ?c0 = room" "column_type ?c0 = (\<lambda>_. U32)" "ce_column_names ?c0 = Map.empty" "ce_name_to_id ?c0 = Map.empty"
    "ce_string_dicts ?c0 = []" "ce_string_encoders ?c0 = Map.empty" "ce_null_masks ?c0 = []" "ce_max_query_groups ?c0 = MAX_QUERY_GROUPS"
    by (simp_all add: contents_def catalog_init_def column_type_def fun_eq_iff)
  note cols = snap_cols_ok [OF ok(1) fits]
  let ?b3 = "u64_bytes (of_nat (length (ce_null_masks ce))) @ concat (map mask_entry (ce_null_masks ce))"
  let ?b2 = "u64_bytes (of_nat (length (ce_string_dicts ce))) @ concat (map dict_entry (ce_string_dicts ce)) @ ?b3"
  have "\<forall>c \<in> set (snap_cols ce). snap_ok mem (ce_tmp_room ?c0) c" "\<forall>c \<in> set (snap_cols ce). contents ?c0 (fst c) = None" using cols(1) by (simp_all add: c0)
  from load_columns_ok [OF catalog_init_ok this(1) cols(2) this(2), of ?b2] obtain ce1 where
    l: "load_columns mem (length (snap_cols ce)) (concat (map snap_bytes (snap_cols ce)) @ ?b2) ?c0 = Some (True, ?b2, ce1)" "ce_ok ce1"
    "contents ce1 = contents ce" "column_type ce1 = column_type ce" "same_rest ?c0 ce1"
    "ce_column_names ce1 = ce_column_names ce" "ce_name_to_id ce1 = ce_name_to_id ce"
    unfolding c0 fold_snap_contents [OF ce(1)] fold_snap_types [OF ce(1)] fold_snap_names [OF ce(1) ok(2)] fold_snap_name_ids [OF ce(1) ok(2)] by blast
  define ce2 where "ce2 = ce1\<lparr>ce_string_dicts := ce_string_dicts ce, ce_string_encoders := ce_string_encoders ce\<rparr>"
  define ce3 where "ce3 = ce2\<lparr>ce_null_masks := ce_null_masks ce\<rparr>"
  have small: "unat (of_nat (length (ce_catalog ce)) :: u64) = length (ce_catalog ce)"
    "unat (of_nat (length (ce_string_dicts ce)) :: u64) = length (ce_string_dicts ce)"
    "unat (of_nat (length (ce_null_masks ce)) :: u64) = length (ce_null_masks ce)"
    and ds: "\<forall>p \<in> set (ce_string_dicts ce). dict_fits mem p" "\<forall>p \<in> set (ce_null_masks ce). mask_fits mem p"
    using fits by (simp_all add: unat_of_nat_small snapshot_fits_def)
  have tc: "distinct (map fst (ce_string_dicts ce))" "distinct (map fst (ce_null_masks ce))"
    "ce_string_encoders ce = map_option encoder_of \<circ> map_of (ce_string_dicts ce)" using ok(3) by (simp_all add: tables_consistent_def fun_eq_iff)
  have "fold add_dict (ce_string_dicts ce) ce1 = ce2" "fold add_mask (ce_null_masks ce) ce2 = ce3"
    using l(5) c0 tc by (simp_all add: fold_add_dict fold_add_mask same_rest_def fold_al_upd [of "[]", simplified] fold_encoders ce2_def ce3_def)
  then have d: "load_dicts mem (length (ce_string_dicts ce)) (concat (map dict_entry (ce_string_dicts ce)) @ ?b3) ce1 = Some (True, ?b3, ce2)"
    and m: "load_masks mem (length (ce_null_masks ce)) (concat (map mask_entry (ce_null_masks ce))) ce2 = Some (True, [], ce3)"
    using load_dicts_ok [OF ds(1), of ?b3 ce1] load_masks_ok [OF ds(2), of "[]" ce2] by simp_all
  have "load_catalog mem path d ?c0 = Some (True, ce3)"
    using l(1) d m unfolding load_catalog_def on_disk catalog_bytes_def cols(3) by (simp add: small trailing_section_def)
  moreover have f: "contents ce3 = contents ce" "column_type ce3 = column_type ce"
    using l(3,4) by (simp_all add: ce3_def ce2_def contents_def column_type_def fun_eq_iff)
  moreover have lg: "logical ce3 = (logical ce)\<lparr>lg_max_groups := MAX_QUERY_GROUPS\<rparr>"
    using f l(5) c0(9) by (simp add: logical_def ce3_def ce2_def same_rest_def)
  moreover have "ce_ok ce3" using l(2) by (rule ce_ok_cong) (use l(2) in \<open>simp_all add: ce3_def ce2_def ce_ok_def\<close>)
  then have "query_ready ce3" using ce(2) lg by (simp add: query_ready_def lg_ok_def lg_rows_def lg_bytes_def)
  ultimately show ?thesis using l(6,7) by (intro exI [of _ ce3]) (simp add: ce3_def ce2_def)
qed

section \<open>What saving leaves on the disk\<close>

lemma fwrite_files: "fwrite p bs d = (ok, d') \<Longrightarrow> q \<noteq> p \<Longrightarrow> dk_files d' q = dk_files d q"
  by (auto simp: fwrite_def Let_def)

lemma stream_write_other: "q \<noteq> p \<Longrightarrow> dk_files (snd (snd (stream_write p bss s))) q = dk_files (snd s) q"
  by (induction p bss s rule: stream_write.induct) (auto simp: Let_def fwrite_files split: prod.splits if_splits)

lemma save_catalog_room:
  assumes "ce_ok ce" "snapshot_fits mem room ce" "dk_writable d path" "dk_writable d (path @ ''.tmp'')"
    "length (catalog_bytes ce) \<le> dk_quota d (path @ ''.tmp'')"
  shows "\<exists>b. save_catalog path d ce =
    Some (True, d\<lparr>dk_files := (dk_files d)(path \<mapsto> catalog_bytes ce, path @ ''.tmp'' := None)\<rparr>, ce\<lparr>ce_cold_borrows := b\<rparr>)"
proof -
  let ?tmp = "path @ ''.tmp''"
  define d1 where "d1 = d\<lparr>dk_files := (dk_files d)(?tmp \<mapsto> [])\<rparr>"
  have op: "fopen_wb ?tmp d = Some d1" using assms(4) by (simp add: fopen_wb_def d1_def)
  have e: "file_bytes ?tmp d1 = []" "dk_quota d1 = dk_quota d" by (simp_all add: d1_def)
  note items = concat_catalog_items [OF assms(2)]
  have "length (file_bytes ?tmp d1) + length (concat (catalog_items ce)) \<le> dk_quota d1 ?tmp" using assms(5) unfolding items e by simp
  then obtain s where s: "stream_write ?tmp (catalog_items ce) ([], d1) = (True, s)"
    "dk_files (snd (stream_close ?tmp s)) = (dk_files d1)(?tmp \<mapsto> file_bytes ?tmp d1 @ concat (catalog_items ce))"
    "dk_quota (snd (stream_close ?tmp s)) = dk_quota d1" "dk_writable (snd (stream_close ?tmp s)) = dk_writable d1"
    "dk_eager (snd (stream_close ?tmp s)) = dk_eager d1"
    by (rule stream_roundtrip)
  have "rename_file ?tmp path (snd (stream_close ?tmp s)) = Some (d\<lparr>dk_files := (dk_files d)(path \<mapsto> catalog_bytes ce, ?tmp := None)\<rparr>)"
    using s(2-5) assms(3) unfolding items e by (simp add: rename_file_def d1_def fun_upd_twist)
  moreover obtain b where "save_catalog path d ce =
    (let (ok, s) = stream_write ?tmp (catalog_items ce) ([], d1); d2 = snd (stream_close ?tmp s) in
     Some (if \<not> ok then (False, remove_file ?tmp d2, ce\<lparr>ce_cold_borrows := b\<rparr>)
           else case rename_file ?tmp path d2 of None \<Rightarrow> (False, remove_file ?tmp d2, ce\<lparr>ce_cold_borrows := b\<rparr>)
                | Some d3 \<Rightarrow> (True, d3, ce\<lparr>ce_cold_borrows := b\<rparr>)))"
    using save_catalog_eq [OF assms(1) op] by blast
  ultimately show ?thesis by (intro exI [of _ b]) (simp add: s(1) Let_def)
qed

lemma stream_write_env:
  "dk_writable (snd (snd (stream_write p bss s))) = dk_writable (snd s) \<and> dk_quota (snd (snd (stream_write p bss s))) = dk_quota (snd s)"
proof (induction p bss s rule: stream_write.induct)
  case (2 p bs bss buf d)
  then show ?case using fwrite_env [of p "buf @ bs" d] by (cases "fwrite p (buf @ bs) d") (auto simp: Let_def)
qed simp

text \<open>A stream whose calls all succeed leaves in the file, once it is closed, what the disk takes of the bytes.\<close>

lemma stream_write_prefix:
  assumes "stream_write p bss (buf, d) = (True, s)" "length (file_bytes p d) \<le> dk_quota d p"
  shows "file_bytes p (snd s) @ fst s = file_bytes p d @ buf @ concat bss \<and> length (file_bytes p (snd s)) \<le> dk_quota d p"
  using assms
proof (induction bss arbitrary: buf d)
  case (Cons bs bss)
  show ?case
  proof (cases "dk_eager d p (length (file_bytes p d) + length (buf @ bs))")
    case True
    then have ok: "fst (fwrite p (buf @ bs) d)" "stream_write p bss ([], snd (fwrite p (buf @ bs) d)) = (True, s)"
      using Cons.prems(1) by (cases "fwrite p (buf @ bs) d"; simp add: Let_def split: if_splits)+
    then have fits: "length (file_bytes p d) + length (buf @ bs) \<le> dk_quota d p"
      using Cons.prems(2) by (simp add: fwrite_def Let_def)
    show ?thesis using Cons.IH [OF ok(2)] fits by (simp add: fwrite_append(2) [OF fits])
  next
    case False
    then show ?thesis using Cons.IH [of "buf @ bs" d] Cons.prems by (simp add: Let_def)
  qed
qed auto

lemma stream_close_prefix:
  assumes "stream_write p bss ([], d) = (True, s)" "file_bytes p d = []"
  shows "dk_files (snd (stream_close p s)) p = Some (take (dk_quota d p) (concat bss))"
proof -
  have w: "file_bytes p (snd s) @ fst s = concat bss" "length (file_bytes p (snd s)) \<le> dk_quota d p"
    using stream_write_prefix [OF assms(1)] assms(2) by simp_all
  have "dk_quota (snd s) = dk_quota d" using stream_write_env [of p bss "([], d)"] assms(1) by simp
  then have "dk_files (snd (stream_close p s)) p = Some (take (dk_quota d p) (file_bytes p (snd s) @ fst s))"
    using w(2) by (simp add: stream_close_def fwrite_def Let_def)
  then show ?thesis using w(1) by simp
qed

lemma stream_write_lazy: "\<forall>n. \<not> dk_eager d p n \<Longrightarrow> stream_write p bss (buf, d) = (True, buf @ concat bss, d)"
  by (induction bss arbitrary: buf) (simp_all add: Let_def)

text \<open>
  C30. What saving the catalog leaves behind, on every disk. \<open>save_catalog\<close> never aborts and leaves the logical contents of
  the catalog and every other file as they were. When it reports failure the previous snapshot is still in
  place; when it reports success the file is what the disk took of the snapshot. It succeeds when the paths are
  writable and the disk has room, and then the file is the complete snapshot. But it does not look at the result of
  \<open>fclose\<close>: when the library buffers all writes until then it succeeds on a full disk as well, and the previous
  snapshot is replaced by one that is cut short.
\<close>

theorem save_catalog_outcomes:
  assumes "ce_ok ce" and all: "all = concat (catalog_items ce)"
  shows "\<exists>ok d' ce'. save_catalog path d ce = Some (ok, d', ce') \<and> logical ce' = logical ce \<and> ce_ok ce' \<and>
    (\<forall>p. p \<noteq> path \<and> p \<noteq> path @ ''.tmp'' \<longrightarrow> dk_files d' p = dk_files d p) \<and>
    (\<not> ok \<longrightarrow> dk_files d' path = dk_files d path) \<and>
    (ok \<longrightarrow> dk_files d' path = Some (take (dk_quota d (path @ ''.tmp'')) all)) \<and>
    (ok \<longleftrightarrow> dk_writable d path \<and> dk_writable d (path @ ''.tmp'') \<and>
       fst (stream_write (path @ ''.tmp'') (catalog_items ce) ([], d\<lparr>dk_files := (dk_files d)(path @ ''.tmp'' \<mapsto> [])\<rparr>))) \<and>
    (dk_writable d path \<and> dk_writable d (path @ ''.tmp'') \<and> length all \<le> dk_quota d (path @ ''.tmp'') \<longrightarrow>
       ok \<and> dk_files d' path = Some all) \<and>
    (dk_writable d path \<and> dk_writable d (path @ ''.tmp'') \<and> (\<forall>n. \<not> dk_eager d (path @ ''.tmp'') n) \<longrightarrow> ok) \<and>
    (snapshot_fits mem room ce \<longrightarrow> all = catalog_bytes ce)"
proof (cases "fopen_wb (path @ ''.tmp'') d")
  case None
  then show ?thesis using assms concat_catalog_items [of mem room ce]
    by (intro exI [of _ False] exI [of _ d] exI [of _ ce]) (auto simp: save_catalog_def fopen_wb_def split: if_splits)
next
  case (Some d1)
  let ?tmp = "path @ ''.tmp''" and ?n = "dk_quota d (path @ ''.tmp'')"
  have d1: "d1 = d\<lparr>dk_files := (dk_files d)(?tmp \<mapsto> [])\<rparr>" "dk_writable d ?tmp" using Some by (simp_all add: fopen_wb_def split: if_splits)
  obtain b where b: "save_catalog path d ce =
    (let (ok, s) = stream_write ?tmp (catalog_items ce) ([], d1); d2 = snd (stream_close ?tmp s) in
     Some (if \<not> ok then (False, remove_file ?tmp d2, ce\<lparr>ce_cold_borrows := b\<rparr>)
           else case rename_file ?tmp path d2 of None \<Rightarrow> (False, remove_file ?tmp d2, ce\<lparr>ce_cold_borrows := b\<rparr>)
                | Some d3 \<Rightarrow> (True, d3, ce\<lparr>ce_cold_borrows := b\<rparr>)))"
    using save_catalog_eq [OF assms(1) Some] by blast
  obtain ok s where s: "stream_write ?tmp (catalog_items ce) ([], d1) = (ok, s)" by (rule prod.exhaust)
  let ?d2 = "snd (stream_close ?tmp s)"
  have d2: "dk_files ?d2 p = dk_files d p" if "p \<noteq> ?tmp" for p
    using that stream_write_other [OF that, of "catalog_items ce" "([], d1)"] s by (auto simp: stream_close_def d1(1))
  have env: "dk_writable ?d2 = dk_writable d" "dk_files ?d2 ?tmp \<noteq> None"
    using stream_write_env [of ?tmp "catalog_items ce" "([], d1)"] s by (simp_all add: stream_close_def fwrite_def Let_def d1(1))
  have cut: "dk_files ?d2 ?tmp = Some (take ?n all)" if ok
    using stream_close_prefix [of ?tmp "catalog_items ce" d1 s] s that by (simp add: d1(1) all)
  define ok' where "ok' \<longleftrightarrow> ok \<and> dk_writable d path"
  obtain d' where r: "save_catalog path d ce = Some (ok', d', ce\<lparr>ce_cold_borrows := b\<rparr>)"
    "(\<not> ok' \<and> d' = remove_file ?tmp ?d2) \<or> (ok' \<and> rename_file ?tmp path ?d2 = Some d')"
    using b s env by (cases ok; cases "dk_writable d path") (auto simp: Let_def rename_file_def ok'_def)
  have lg: "logical (ce\<lparr>ce_cold_borrows := b\<rparr>) = logical ce" by (rule logical_cong) simp_all
  have files: "\<not> ok' \<Longrightarrow> dk_files d' path = dk_files d path" "ok' \<Longrightarrow> dk_files d' path = Some (take ?n all)"
    "p \<noteq> path \<Longrightarrow> p \<noteq> ?tmp \<Longrightarrow> dk_files d' p = dk_files d p" for p
    using r(2) d2 cut by (auto simp: remove_file_def rename_file_def ok'_def split: if_splits)
  have room: "ok" if "length all \<le> ?n" using stream_write_fits [of ?tmp d1 "[]" "catalog_items ce"] s that by (auto simp: d1(1) all)
  have lazy: "ok" if "\<forall>n. \<not> dk_eager d ?tmp n" using stream_write_lazy [of d1 ?tmp "catalog_items ce" "[]"] s that by (simp add: d1(1))
  show ?thesis
    by (intro exI [of _ ok'] exI [of _ d'] exI [of _ "ce\<lparr>ce_cold_borrows := b\<rparr>"])
      (use r(1) lg assms files room lazy d1 s concat_catalog_items [of mem room ce] in \<open>auto simp: ok'_def\<close>)
qed

theorem save_catalog_outcomes_witness:
  "(\<exists>ok d' ce'. save_catalog ''snap'' \<lparr>dk_files = Map.empty, dk_writable = \<lambda>_. True, dk_quota = \<lambda>_. 1000, dk_eager = \<lambda>_ _. False\<rparr> (catalog_init 10 10) =
    Some (ok, d', ce') \<and> ok \<and> dk_files d' ''snap'' = Some (catalog_bytes (catalog_init 10 10))) \<and>
   (\<exists>d' ce'. save_catalog ''snap'' \<lparr>dk_files = [''snap'' \<mapsto> [1, 2, 3]], dk_writable = \<lambda>_. True, dk_quota = \<lambda>_. 0, dk_eager = \<lambda>_ _. False\<rparr> (catalog_init 10 10) =
    Some (True, d', ce') \<and> dk_files d' ''snap'' = Some [])"
proof
  let ?d = "\<lparr>dk_files = Map.empty, dk_writable = \<lambda>_. True, dk_quota = \<lambda>_. 1000, dk_eager = \<lambda>_ _. False\<rparr>"
  have f: "snapshot_fits 10 10 (catalog_init 10 10)" by (simp add: snapshot_fits_def catalog_init_def contents_def column_name_def)
  moreover have "length (catalog_bytes (catalog_init 10 10)) \<le> dk_quota ?d (''snap'' @ ''.tmp'')" by (simp add: catalog_bytes_def snap_cols_def catalog_init_def)
  ultimately show "\<exists>ok d' ce'. save_catalog ''snap'' ?d (catalog_init 10 10) =
      Some (ok, d', ce') \<and> ok \<and> dk_files d' ''snap'' = Some (catalog_bytes (catalog_init 10 10))"
    using save_catalog_outcomes [OF catalog_init_ok [of 10 10] refl, of "''snap''" ?d 10 10] by fastforce
  let ?f = "\<lparr>dk_files = [''snap'' \<mapsto> [1, 2, 3]], dk_writable = \<lambda>_. True, dk_quota = \<lambda>_. 0, dk_eager = \<lambda>_ _. False\<rparr>"
  show "\<exists>d' ce'. save_catalog ''snap'' ?f (catalog_init 10 10) = Some (True, d', ce') \<and> dk_files d' ''snap'' = Some []"
    using save_catalog_outcomes [OF catalog_init_ok [of 10 10] refl, of "''snap''" ?f 10 10] by fastforce
qed

section \<open>Backup and restore round-trip\<close>

definition backup_room :: "string \<Rightarrow> cpu_engine \<Rightarrow> bool" where
  "backup_room pre eng \<longleftrightarrow> (\<forall>p. dk_writable (pe_disk (eng_point eng)) p) \<and>
     length (catalog_bytes (eng_catalog eng)) \<le> dk_quota (pe_disk (eng_point eng)) (pre @ ''.catalog.tmp'') \<and>
     12 + 16 * length (kv_entries (pe_kv (eng_point eng))) \<le> dk_quota (pe_disk (eng_point eng)) (pre @ ''.kv.tmp'')"

definition empty_engine :: "point_engine \<Rightarrow> u64 \<Rightarrow> nat \<Rightarrow> disk \<Rightarrow> cpu_engine" where
  "empty_engine pe host_cap room d = \<lparr>eng_point = pe\<lparr>pe_disk := d\<rparr>, eng_catalog = catalog_init host_cap room\<rparr>"

text \<open>
  C11. Backup and restore round-trip. Backing up an engine succeeds when the disk has room and leaves it
  logically unchanged; restoring the two files into a fresh engine, with an empty store and an empty
  catalog, succeeds and gives the same key-value pairs and the same columns: bytes, element types,
  null masks, names, name resolution, dictionaries and encoders, on whatever tier the columns were.
\<close>

theorem backup_restore_roundtrip:
  assumes "query_ready (eng_catalog eng)" "names_consistent (eng_catalog eng)" "tables_consistent (eng_catalog eng)"
    and "snapshot_fits mem room (eng_catalog eng)" "mem_ok (eng_point eng)" "backup_room pre eng"
    and "mem_ok pe0" "pe_map pe0 = Map.empty"
  shows "\<exists>eng1 eng2. backup pre eng = Some eng1 \<and> logical (eng_catalog eng1) = logical (eng_catalog eng) \<and> pe_kv (eng_point eng1) = pe_kv (eng_point eng) \<and>
    restore mem pre (empty_engine pe0 host_cap room (pe_disk (eng_point eng1))) = Some eng2 \<and>
    pe_map (eng_point eng2) = pe_map (eng_point eng) \<and> query_ready (eng_catalog eng2) \<and>
    logical (eng_catalog eng2) = (logical (eng_catalog eng))\<lparr>lg_max_groups := MAX_QUERY_GROUPS\<rparr> \<and>
    ce_column_names (eng_catalog eng2) = ce_column_names (eng_catalog eng) \<and> ce_name_to_id (eng_catalog eng2) = ce_name_to_id (eng_catalog eng) \<and>
    ce_string_dicts (eng_catalog eng2) = ce_string_dicts (eng_catalog eng) \<and> ce_string_encoders (eng_catalog eng2) = ce_string_encoders (eng_catalog eng)"
proof -
  let ?pe = "eng_point eng" and ?ce = "eng_catalog eng" and ?cat = "pre @ ''.catalog''" and ?kv = "pre @ ''.kv''"
  let ?d = "pe_disk ?pe" and ?ents = "ckpt_bytes (kv_entries (pe_kv ?pe))"
  have ok: "ce_ok ?ce" using assms(1) by (simp add: query_ready_def)
  define d1 where "d1 = ?d\<lparr>dk_files := (dk_files ?d)(?cat \<mapsto> catalog_bytes ?ce, ?cat @ ''.tmp'' := None)\<rparr>"
  define d2 where "d2 = d1\<lparr>dk_files := (dk_files d1)(?kv \<mapsto> ?ents, ?kv @ ''.tmp'' := None)\<rparr>"
  have "dk_writable ?d ?cat" "dk_writable ?d (?cat @ ''.tmp'')" "length (catalog_bytes ?ce) \<le> dk_quota ?d (?cat @ ''.tmp'')"
    using assms(6) by (simp_all add: backup_room_def)
  from save_catalog_room [OF ok assms(4) this] obtain b where c: "save_catalog ?cat ?d ?ce = Some (True, d1, ?ce\<lparr>ce_cold_borrows := b\<rparr>)"
    unfolding d1_def by blast
  have "save_checkpoint ?kv (?pe\<lparr>pe_disk := d1\<rparr>) = Some (?pe\<lparr>pe_disk := d1\<rparr>\<lparr>pe_disk := d2\<rparr>)"
    using save_checkpoint_ok [of "?pe\<lparr>pe_disk := d1\<rparr>" ?kv] assms(5,6) by (simp add: d2_def mem_ok_def backup_room_def) (simp add: d1_def)
  then have bk: "backup pre eng = Some (eng\<lparr>eng_point := ?pe\<lparr>pe_disk := d2\<rparr>, eng_catalog := ?ce\<lparr>ce_cold_borrows := b\<rparr>\<rparr>)"
    by (simp add: backup_def c)
  have f: "dk_files d2 ?cat = Some (catalog_bytes ?ce)" "dk_files d2 ?kv = Some ?ents" by (simp_all add: d2_def d1_def)
  obtain ce' where l: "load_catalog mem ?cat d2 (catalog_init host_cap room) = Some (True, ce')" "query_ready ce'"
    "logical ce' = (logical ?ce)\<lparr>lg_max_groups := MAX_QUERY_GROUPS\<rparr>" "ce_column_names ce' = ce_column_names ?ce" "ce_name_to_id ce' = ce_name_to_id ?ce"
    "ce_string_dicts ce' = ce_string_dicts ?ce" "ce_string_encoders ce' = ce_string_encoders ?ce"
    using load_catalog_bytes [OF assms(1-4) f(1)] by blast
  let ?fresh = "pe0\<lparr>pe_disk := d2\<rparr>"
  have "ckpt_holds (pe_disk ?fresh) ?kv (pe_map ?pe)" using ckpt_holds_entries [OF assms(5), of d2 ?kv] f(2) by simp
  then obtain r kv where kv: "load_checkpoint ?kv ?fresh = Some (r, ?fresh\<lparr>pe_kv := kv\<rparr>)" "kvm.contents kv = pe_map ?pe"
    by (rule load_checkpoint_holds) (use assms(7,8) in \<open>simp_all add: mem_ok_def\<close>)
  have rs: "restore mem pre (empty_engine pe0 host_cap room d2) = Some \<lparr>eng_point = ?fresh\<lparr>pe_kv := kv\<rparr>, eng_catalog = ce'\<rparr>"
    by (simp add: restore_def empty_engine_def l(1) kv(1))
  have "logical (?ce\<lparr>ce_cold_borrows := b\<rparr>) = logical ?ce" by (rule logical_cong) simp_all
  with bk rs show ?thesis
    by (intro exI [of _ "eng\<lparr>eng_point := ?pe\<lparr>pe_disk := d2\<rparr>, eng_catalog := ?ce\<lparr>ce_cold_borrows := b\<rparr>\<rparr>"]
        exI [of _ "\<lparr>eng_point = ?fresh\<lparr>pe_kv := kv\<rparr>, eng_catalog = ce'\<rparr>"]) (simp add: kv(2) l)
qed

lemma empty_store:
  obtains pe where "mem_ok pe" "pe_map pe = Map.empty" "pe_key_index pe = []"
proof -
  obtain pe where pe: "pe_map pe = Map.empty" "serve_ready \<lparr>eng_point = pe, eng_catalog = catalog_init 10 10\<rparr>" by (rule fresh_engine)
  then have m: "mem_ok pe" by (simp add: serve_ready_def pe_ok_def)
  then have "map_of (pe_key_index pe) = Map.empty" using pe(1) by (simp add: mem_ok_def)
  then show thesis using m pe(1) by (intro that) simp_all
qed

definition roomy_disk :: disk where
  "roomy_disk = \<lparr>dk_files = Map.empty, dk_writable = \<lambda>_. True, dk_quota = \<lambda>_. 2 ^ 40, dk_eager = \<lambda>_ _. False\<rparr>"

theorem backup_restore_roundtrip_witness:
  "\<exists>ce eng eng1 eng2 pe0. load_scan_column 7 [1, 2, 3] (catalog_init 100 100) = Some ce \<and> eng_catalog eng = ce \<and> backup ''b'' eng = Some eng1 \<and>
    restore 100 ''b'' (empty_engine pe0 100 100 (pe_disk (eng_point eng1))) = Some eng2 \<and> contents (eng_catalog eng2) 7 = contents ce 7"
proof -
  obtain pe where pe: "mem_ok pe" "pe_map pe = Map.empty" by (rule empty_store)
  obtain ce where ce: "load_scan_column 7 [1, 2, 3] (catalog_init 100 100) = Some ce" "query_ready ce"
    "logical ce = (logical (catalog_init 100 100))\<lparr>lg_data := (contents (catalog_init 100 100))(7 \<mapsto> concat (map u32_bytes [1, 2, 3]))\<rparr>"
    using load_ready [OF init_ready, of 7 100 100 "[1, 2, 3]"] by (auto simp: contents_def catalog_init_def)
  have i: "contents (catalog_init 100 100) = Map.empty" by (simp add: contents_def catalog_init_def fun_eq_iff)
  have d: "contents ce = [7 \<mapsto> concat (map u32_bytes [1, 2, 3])]" using ce(3) by (simp add: logical_def i)
  have f: "ce_column_names ce = Map.empty" "ce_name_to_id ce = Map.empty" "ce_string_dicts ce = []" "ce_string_encoders ce = Map.empty" "ce_null_masks ce = []"
    "map fst (ce_catalog ce) = [7]"
    using ce(1) by (auto simp: load_scan_column_def load_bytes_def catalog_init_def split: if_splits)
  have l: "length (ce_catalog ce) = 1" using f(6) by (metis length_map length_Cons list.size(3) One_nat_def)
  define eng where "eng = \<lparr>eng_point = pe\<lparr>pe_disk := roomy_disk\<rparr>, eng_catalog = ce\<rparr>"
  have "length (kv_entries (pe_kv pe)) \<le> 65536" using kv_entries_le [of "pe_kv pe"] pe(1) by (simp add: mem_ok_def)
  then have "backup_room ''b'' eng"
    by (simp add: backup_room_def eng_def roomy_disk_def catalog_bytes_def snap_cols_def f column_name_def d the_default_def)
  moreover have "names_consistent ce" "tables_consistent ce" "snapshot_fits 100 100 ce"
    by (simp_all add: names_consistent_def tables_consistent_def snapshot_fits_def f l column_name_def d)
  moreover have "mem_ok (eng_point eng)" using pe(1) by (simp add: eng_def mem_ok_def)
  ultimately obtain eng1 eng2 where r: "backup ''b'' eng = Some eng1" "restore 100 ''b'' (empty_engine pe 100 100 (pe_disk (eng_point eng1))) = Some eng2"
    "logical (eng_catalog eng2) = (logical ce)\<lparr>lg_max_groups := MAX_QUERY_GROUPS\<rparr>"
    using backup_restore_roundtrip [of eng 100 100 "''b''" pe 100] ce(2) pe by (auto simp: eng_def)
  have "contents (eng_catalog eng2) = contents ce" using r(3) by (simp add: logical_def)
  then show ?thesis using ce(1) r(1,2)
    by (intro exI [of _ ce] exI [of _ eng] exI [of _ eng1] exI [of _ eng2] exI [of _ pe]) (simp add: eng_def)
qed

text \<open>
  Restoring does not rebuild the ordered index. After \<open>restore\<close> into an engine that was empty, the
  store holds the pairs of the backup, but the indexed range scan over all keys returns nothing,
  while the full scan returns them: the index is only filled by the constructor and by writes.
\<close>

theorem restore_leaves_index_stale:
  assumes "restore mem pre eng = Some eng'" "pe_key_index (eng_point eng) = []" "kv_entries (pe_kv (eng_point eng')) \<noteq> []"
  shows "kv_range_sorted 0 (- 1) (eng_point eng') = [] \<and> kv_range 0 (- 1) (eng_point eng') = kv_entries (pe_kv (eng_point eng')) \<and>
    kv_range 0 (- 1) (eng_point eng') \<noteq> []"
proof -
  have "pe_key_index (eng_point eng') = []"
    using assms(1,2) by (auto simp: restore_def load_checkpoint_def split: bind_splits option.splits if_splits)
  then show ?thesis using assms(3) by (simp add: kv_range_sorted_def kv_range_def case_prod_unfold)
qed

theorem restore_leaves_index_stale_witness:
  "\<exists>eng eng'. restore 10 ''b'' eng = Some eng' \<and> kv_range_sorted 0 (- 1) (eng_point eng') = [] \<and> kv_range 0 (- 1) (eng_point eng') \<noteq> []"
proof -
  obtain pe where pe: "mem_ok pe" "pe_map pe = Map.empty" "pe_key_index pe = []" by (rule empty_store)
  define d where "d = roomy_disk\<lparr>dk_files := [''b.kv'' \<mapsto> ckpt_bytes [(1, 2)]]\<rparr>"
  let ?fresh = "pe\<lparr>pe_disk := d\<rparr>"
  have "ckpt_holds (pe_disk ?fresh) ''b.kv'' [1 \<mapsto> 2]"
    unfolding ckpt_holds_def by (simp add: d_def) (rule exI [of _ "[(1, 2)]"], simp add: fun_eq_iff)
  then obtain r kv where kv: "load_checkpoint ''b.kv'' ?fresh = Some (r, ?fresh\<lparr>pe_kv := kv\<rparr>)" "kv_inv kv" "kvm.contents kv = [1 \<mapsto> 2]"
    by (rule load_checkpoint_holds) (use pe in \<open>simp_all add: mem_ok_def\<close>)
  have "map_of (kv_entries kv) = [1 \<mapsto> 2]" using kvm.contents_entries [OF kv(2)] kv(3) by simp
  then have e: "kv_entries kv \<noteq> []" by (metis fun_upd_same list.map_disc_iff map_of.simps(1) option.distinct(1))
  let ?eng = "empty_engine pe 10 10 d"
  have "load_catalog 10 ''b.catalog'' d (catalog_init 10 10) = Some (False, catalog_init 10 10)" by (simp add: load_catalog_def d_def roomy_disk_def)
  then have "restore 10 ''b'' ?eng = Some (?eng\<lparr>eng_point := ?fresh\<lparr>pe_kv := kv\<rparr>, eng_catalog := catalog_init 10 10\<rparr>)"
    using kv(1) by (simp add: restore_def empty_engine_def)
  from this restore_leaves_index_stale [OF this] show ?thesis using pe(3) e
    by (intro exI [of _ ?eng] exI [of _ "?eng\<lparr>eng_point := ?fresh\<lparr>pe_kv := kv\<rparr>, eng_catalog := catalog_init 10 10\<rparr>"]) (simp add: empty_engine_def)
qed

text \<open>
  A corrupt snapshot can abort the process. A snapshot whose first column has the reserved id 0, an
  id that is already in the catalog, or a row count larger than the allocator grants makes
  \<open>load_catalog\<close> abort, by a failed assertion or an exception nobody catches, although it is
  documented to report corrupt snapshots by its result; a wrong magic number and a file that ends
  within the first column are reported.
\<close>

theorem corrupt_snapshot_aborts:
  "load_catalog mem path (d\<lparr>dk_files := [path \<mapsto> u32_bytes MATRIX_CATALOG_MAGIC @ u64_bytes 1 @ snap_bytes (0, U32, [], [])]\<rparr>) ce = None \<and>
   (\<forall>cid. map_of (ce_catalog ce) cid \<noteq> None \<longrightarrow>
     load_catalog mem path (d\<lparr>dk_files := [path \<mapsto> u32_bytes MATRIX_CATALOG_MAGIC @ u64_bytes 1 @ snap_bytes (cid, U32, [], [])]\<rparr>) ce = None) \<and>
   (\<forall>cid n. mem < 4 * unat n \<longrightarrow>
     load_catalog mem path (d\<lparr>dk_files := [path \<mapsto> u32_bytes MATRIX_CATALOG_MAGIC @ u64_bytes 1 @
       u64_bytes cid @ u32_bytes (matrix_type_code U32) @ u64_bytes n @ u32_bytes 0]\<rparr>) ce = None) \<and>
   (\<forall>magic bs. magic \<noteq> MATRIX_CATALOG_MAGIC \<longrightarrow> load_catalog mem path (d\<lparr>dk_files := [path \<mapsto> u32_bytes magic @ bs]\<rparr>) ce = Some (False, ce)) \<and>
   (\<forall>c k. k < 24 \<longrightarrow> load_catalog mem path (d\<lparr>dk_files := [path \<mapsto> u32_bytes MATRIX_CATALOG_MAGIC @ u64_bytes 1 @ take k (snap_bytes c)]\<rparr>) ce = Some (False, ce))"
proof -
  have one: "load_catalog mem path (d\<lparr>dk_files := [path \<mapsto> u32_bytes MATRIX_CATALOG_MAGIC @ u64_bytes 1 @ bs]\<rparr>) ce =
      do { r1 \<leftarrow> load_columns mem 1 bs ce; r2 \<leftarrow> trailing_section (load_dicts mem) r1;
           (ok, _, ce') \<leftarrow> trailing_section (load_masks mem) r2; Some (ok, ce') }" for bs
    by (simp add: load_catalog_def)
  have e: "concat (map u32_bytes (u32_view [])) = []" by (simp add: u32_view_def array_of_def)
  have short: "read_column_header (take k (snap_bytes c)) = None" if "k < 24" for k c
    using that by (auto simp: read_column_header_def fread_def bind_eq_None_conv split: if_splits)
  show ?thesis
  proof (intro conjI allI impI)
    fix c k assume "(k :: nat) < 24"
    from short [OF this]
    show "load_catalog mem path (d\<lparr>dk_files := [path \<mapsto> u32_bytes MATRIX_CATALOG_MAGIC @ u64_bytes 1 @ take k (snap_bytes c)]\<rparr>) ce = Some (False, ce)"
      unfolding one by (simp add: trailing_section_def)
  next
    fix magic bs assume "magic \<noteq> MATRIX_CATALOG_MAGIC"
    then show "load_catalog mem path (d\<lparr>dk_files := [path \<mapsto> u32_bytes magic @ bs]\<rparr>) ce = Some (False, ce)" by (simp add: load_catalog_def)
  qed (unfold one, simp_all add: read_column_header_def read_typed_column_def matrix_type_code_def type_width_def load_scan_column_def load_bytes_def e)
qed

theorem corrupt_snapshot_aborts_witness:
  "load_catalog 10 ''s'' (roomy_disk\<lparr>dk_files := [''s'' \<mapsto> u32_bytes MATRIX_CATALOG_MAGIC @ u64_bytes 1 @
     u64_bytes 5 @ u32_bytes (matrix_type_code U32) @ u64_bytes 1000 @ u32_bytes 0]\<rparr>) (catalog_init 10 10) = None"
proof -
  have "(10 :: nat) < 4 * unat (1000 :: u64)" by simp
  then show ?thesis using corrupt_snapshot_aborts [of 10 "''s''" roomy_disk "catalog_init 10 10"] by blast
qed

section \<open>Single-column files round-trip\<close>

lemma write_items_ok:
  assumes "dk_writable d path" "length (concat items) \<le> dk_quota d path"
  shows "\<exists>d'. write_items path items d = Some d' \<and> dk_files d' = (dk_files d)(path \<mapsto> concat items)"
proof -
  define d1 where "d1 = d\<lparr>dk_files := (dk_files d)(path \<mapsto> [])\<rparr>"
  have "length (file_bytes path d1) + length (concat items) \<le> dk_quota d1 path" using assms(2) by (simp add: d1_def)
  then obtain s where s: "stream_write path items ([], d1) = (True, s)"
    "dk_files (snd (stream_close path s)) = (dk_files d1)(path \<mapsto> file_bytes path d1 @ concat items)" by (rule stream_roundtrip)
  have "fopen_wb path d = Some d1" using assms(1) by (simp add: fopen_wb_def d1_def)
  then show ?thesis using s by (intro exI [of _ "snd (stream_close path s)"]) (simp add: write_items_def Let_def d1_def)
qed

lemma column_v0_roundtrip:
  assumes "dk_writable d path" "12 + 4 * length data \<le> dk_quota d path" "4 * length data \<le> mem" "length data < 2 ^ 64"
  shows "\<exists>d'. matrix_write_column path data d = Some d' \<and> matrix_read_column mem path d' = Some data"
proof -
  let ?items = "[u32_bytes MATRIX_COLUMN_MAGIC, u64_bytes (of_nat (length data))] @ (if data = [] then [] else [concat (map u32_bytes data)])"
  have c: "concat ?items = u32_bytes MATRIX_COLUMN_MAGIC @ u64_bytes (of_nat (length data)) @ concat (map u32_bytes data)" by simp
  have len: "length (concat (map u32_bytes data)) = 4 * length data" by (rule length_chunks) simp
  obtain d' where d: "write_items path ?items d = Some d'" "dk_files d' path = Some (concat ?items)"
    using write_items_ok [of d path ?items] assms(1,2) len unfolding c by auto
  have n: "unat (of_nat (length data) :: u64) = length data" using assms(4) by (intro unat_of_nat_small) simp
  have "matrix_read_column mem path d' = Some data"
    using d(2) assms(3) len n unfolding c by (simp add: matrix_read_column_def Let_def)
  then show ?thesis using d(1) by (intro exI [of _ d']) (simp add: matrix_write_column_def)
qed

text \<open>A column saved to a file and loaded under another id, into any catalog with room for it, has its bytes and type.\<close>

lemma column_file_roundtrip:
  assumes "ce_ok ce" "contents ce cid = Some bs" "dk_writable d path" "16 + length bs \<le> dk_quota d path" "length bs \<le> mem"
    and "ce_ok ce2" "cid2 \<noteq> 0" "contents ce2 cid2 = None" "length bs < 2 ^ 64" "length bs \<le> ce_tmp_room ce2"
  shows "\<exists>d' b ce'. save_column cid path d ce = Some (d', ce\<lparr>ce_cold_borrows := b\<rparr>) \<and> load_column_from_file mem cid2 path d' ce2 = Some ce' \<and>
    ce_ok ce' \<and> contents ce' = (contents ce2)(cid2 \<mapsto> bs) \<and> column_type ce' = (column_type ce2)(cid2 := column_type ce cid)"
proof -
  let ?ty = "column_type ce cid"
  obtain col where col: "column_at ce cid = Some col" "col_holds col bs" using assms(1,2) by (rule ce_ok_column)
  let ?ce1 = "ce\<lparr>ce_cold_borrows := ce_cold_borrows ce + borrows col, ce_catalog := al_upd cid (hosted col) (ce_catalog ce)\<rparr>"
  have at: "column_at ?ce1 cid = Some (hosted col)" by (simp add: column_at_def)
  have b: "borrow cid ce = Some (col_tier col, ?ce1)" using col by (rule borrow_eq)
  have h: "host_bytes cid ?ce1 = Some (bs, length bs)" using hosted_holds(2,3) [OF col(2)] by (intro host_bytes_eq [OF at]) simp_all
  have g: "give_back cid (col_tier col) ?ce1 = Some (ce\<lparr>ce_cold_borrows := ce_cold_borrows ce + borrows col\<rparr>)"
    using give_back_eq [OF at col(2)] col by (simp add: column_at_def al_upd_same)
  have ty: "column_type ?ce1 cid = ?ty" by (simp add: column_type_def)
  let ?items = "[u32_bytes MATRIX_COLUMN_MAGIC_TYPED, u32_bytes (matrix_type_code ?ty), u64_bytes (of_nat (length bs))] @ (if bs = [] then [] else [bs])"
  have c: "concat ?items = u32_bytes MATRIX_COLUMN_MAGIC_TYPED @ u32_bytes (matrix_type_code ?ty) @ u64_bytes (of_nat (length bs)) @ bs" by simp
  obtain d' where d: "write_items path ?items d = Some d'" "dk_files d' path = Some (concat ?items)"
    using write_items_ok [of d path ?items] assms(3,4) unfolding c by auto
  have "matrix_write_column_typed path bs (matrix_type_code ?ty) d = Some d'" using d(1) by (simp add: matrix_write_column_typed_def)
  then have save: "save_column cid path d ce = Some (d', ce\<lparr>ce_cold_borrows := ce_cold_borrows ce + borrows col\<rparr>)"
    using g by (simp add: save_column_def b h ty)
  have n: "unat (of_nat (length bs) :: u64) = length bs" using assms(9) by (intro unat_of_nat_small) simp
  have read: "matrix_read_column_typed mem path d' = Some (bs, matrix_type_code ?ty)"
    using d(2) assms(5) n unfolding c by (simp add: matrix_read_column_typed_def Let_def)
  have dvd: "type_width ?ty dvd length bs" using assms(1,2) by (simp add: ce_ok_def)
  obtain ce' where l: "read_typed_column mem cid2 (matrix_type_code ?ty) (length bs div type_width ?ty) (bs @ []) ce2 = Some (True, [], ce')"
    "ce_ok ce'" "contents ce' = (contents ce2)(cid2 \<mapsto> bs)" "column_type ce' = (column_type ce2)(cid2 := ?ty)"
    using read_typed_column_ok [OF assms(6-10) dvd assms(5), of "[]"] by blast
  have "load_column_from_file mem cid2 path d' ce2 = Some ce'"
    using l(1) assms(5) dvd by (cases ?ty) (simp_all add: load_column_from_file_def read read_typed_column_def matrix_type_code_def type_width_def Let_def)
  then show ?thesis using save l(2-4) by blast
qed

end
