(* ===== verification/Text_Numbers.thy ===== *)
theory Text_Numbers
  imports Types "HOL-Library.Char_ord"
begin

text \<open>
  The character and number routines of the C and C++ libraries that the query parser, the CSV reader
  and the shell call, in the C locale: \<open>isspace\<close>, \<open>toupper\<close>, \<open>std::from_chars\<close> for integers and
  \<open>std::strtod\<close>. A number routine returns the value and the characters after it, \<open>None\<close> is a failure.
\<close>

definition isspace :: "char \<Rightarrow> bool" where
  "isspace c = (let n = of_char c :: nat in n = 32 \<or> (9 \<le> n \<and> n \<le> 13))"

definition toupper :: "char \<Rightarrow> char" where
  "toupper c = (let n = of_char c :: nat in if 97 \<le> n \<and> n \<le> 122 then char_of (n - 32) else c)"

definition up :: "string \<Rightarrow> string" where
  "up s = map toupper s"

definition is_digit :: "char \<Rightarrow> bool" where
  "is_digit c = (let n = of_char c :: nat in 48 \<le> n \<and> n \<le> 57)"

definition digits_value :: "string \<Rightarrow> nat" where
  "digits_value ds = fold (\<lambda>c v. v * 10 + (of_char c - 48)) ds 0"

text \<open>\<open>std::from_chars\<close> into an unsigned type of \<open>w\<close> bits and into \<open>int64_t\<close>.\<close>

definition from_chars_unsigned :: "nat \<Rightarrow> string \<Rightarrow> (nat \<times> string) option" where
  "from_chars_unsigned w s =
     (let ds = takeWhile is_digit s; v = digits_value ds in
      if ds = [] \<or> 2 ^ w \<le> v then None else Some (v, drop (length ds) s))"

definition from_chars_i64 :: "string \<Rightarrow> (int \<times> string) option" where
  "from_chars_i64 s =
     (let neg = (s \<noteq> [] \<and> hd s = CHR ''-''); s1 = (if neg then tl s else s);
          ds = takeWhile is_digit s1; v = int (digits_value ds); x = (if neg then - v else v) in
      if ds = [] \<or> x < - (2 ^ 63) \<or> 2 ^ 63 \<le> x then None else Some (x, drop (length ds) s1))"

text \<open>The test \<open>ec == std::errc{} && ptr == end\<close> of the callers.\<close>

definition whole :: "('a \<times> string) option \<Rightarrow> 'a option" where
  "whole r = (case r of Some (v, []) \<Rightarrow> Some v | _ \<Rightarrow> None)"

definition parse_u32 :: "string \<Rightarrow> u32 option" where
  "parse_u32 s = map_option of_nat (whole (from_chars_unsigned 32 s))"

definition parse_u64 :: "string \<Rightarrow> u64 option" where
  "parse_u64 s = map_option of_nat (whole (from_chars_unsigned 64 s))"

definition parse_i64 :: "string \<Rightarrow> i64 option" where
  "parse_i64 s = map_option (\<lambda>x. I64 (of_int x)) (whole (from_chars_i64 s))"

section \<open>\<open>strtod\<close>\<close>

definition hex_digit :: "char \<Rightarrow> nat option" where
  "hex_digit c =
     (let n = of_char c :: nat in
      if 48 \<le> n \<and> n \<le> 57 then Some (n - 48)
      else if 97 \<le> n \<and> n \<le> 102 then Some (n - 87)
      else if 65 \<le> n \<and> n \<le> 70 then Some (n - 55) else None)"

definition hex_value :: "string \<Rightarrow> nat" where
  "hex_value ds = fold (\<lambda>c v. v * 16 + the_default 0 (hex_digit c)) ds 0"

definition starts_with :: "string \<Rightarrow> string \<Rightarrow> bool" where
  "starts_with p s \<longleftrightarrow> up (take (length p) s) = p"

text \<open>An optional sign: whether it is a minus, and the rest.\<close>

definition sign_of :: "string \<Rightarrow> bool \<times> string" where
  "sign_of s =
     (case s of [] \<Rightarrow> (False, [])
      | c # cs \<Rightarrow> if c = CHR ''-'' then (True, cs) else if c = CHR ''+'' then (False, cs) else (False, s))"

text \<open>Digits with an optional point: the digits, how many follow the point, and the rest.\<close>

definition mantissa :: "(char \<Rightarrow> bool) \<Rightarrow> string \<Rightarrow> string \<times> nat \<times> string" where
  "mantissa dig s =
     (let a = takeWhile dig s; s1 = drop (length a) s in
      if s1 \<noteq> [] \<and> hd s1 = CHR ''.'' \<and> (a \<noteq> [] \<or> (tl s1 \<noteq> [] \<and> dig (hd (tl s1)))) then
        let b = takeWhile dig (tl s1) in (a @ b, length b, drop (length b) (tl s1))
      else (a, 0, s1))"

text \<open>An exponent after the letter \<open>e\<close>, if it has a digit.\<close>

definition exponent :: "char \<Rightarrow> string \<Rightarrow> int \<times> string" where
  "exponent e s =
     (if s \<noteq> [] \<and> toupper (hd s) = e then
        let (neg, s1) = sign_of (tl s); ds = takeWhile is_digit s1 in
        if ds = [] then (0, s) else (if neg then - int (digits_value ds) else int (digits_value ds), drop (length ds) s1)
      else (0, s))"

text \<open>\<open>m * base ^ x\<close> rounded, and whether \<open>errno\<close> is set to \<open>ERANGE\<close>: overflow, or a subnormal that is not exact.\<close>

definition scaled :: "bool \<Rightarrow> nat \<Rightarrow> nat \<Rightarrow> int \<Rightarrow> f64 \<times> bool" where
  "scaled neg m base x =
     (let n = (if 0 \<le> x then m * base ^ nat x else m); d = (if 0 \<le> x then 1 else base ^ nat (- x)); r = f64_round neg n d in
      (r, f64_is_inf r \<or> (f64_expo r = 0 \<and> f64_mag r * d \<noteq> n * 2 ^ 1074)))"

text \<open>The value, the \<open>ERANGE\<close> flag and the rest; \<open>None\<close> when no conversion is possible.\<close>

definition strtod :: "string \<Rightarrow> (f64 \<times> bool \<times> string) option" where
  "strtod s =
     (let (neg, s1) = sign_of (dropWhile isspace s) in
      if starts_with ''INF'' s1 then
        Some (f64_signed_inf neg, False, drop (if starts_with ''INFINITY'' s1 then 8 else 3) s1)
      else if starts_with ''NAN'' s1 then
        let s2 = drop 3 s1; body = takeWhile (\<lambda>c. is_digit c \<or> (65 \<le> (of_char (toupper c) :: nat) \<and> (of_char (toupper c) :: nat) \<le> 90) \<or> c = CHR ''_'') (tl s2);
            rest = drop (length body) (tl s2) in
        Some (if neg then f64_nan else f64_quiet_nan, False,
              if s2 \<noteq> [] \<and> hd s2 = CHR ''('' \<and> rest \<noteq> [] \<and> hd rest = CHR '')'' then tl rest else s2)
      else
        let (hd16, k16, r16) = mantissa (\<lambda>c. hex_digit c \<noteq> None) (drop 2 s1) in
        if starts_with ''0X'' s1 \<and> hd16 \<noteq> [] then
          let (x, rest) = exponent (CHR ''P'') r16; (v, erange) = scaled neg (hex_value hd16) 2 (x - 4 * int k16) in Some (v, erange, rest)
        else
          let (ds, k, r) = mantissa is_digit s1 in
          if ds = [] then None
          else let (x, rest) = exponent (CHR ''E'') r; (v, erange) = scaled neg (digits_value ds) 10 (x - int k) in Some (v, erange, rest))"

text \<open>The callers' test: the whole field is the number and \<open>errno\<close> is not \<open>ERANGE\<close>.\<close>

definition parse_f64 :: "string \<Rightarrow> f64 option" where
  "parse_f64 s = (case strtod s of Some (v, False, []) \<Rightarrow> Some v | _ \<Rightarrow> None)"

end
