(* ===== verification/Query_Parser.thy ===== *)
theory Query_Parser
  imports String_Columns Text_Numbers
begin

text \<open>
  The query language of \<open>CPUMockEngine\<close> (\<open>compute_mock.cpp\<close>): the tokenizer, the parser of
  \<open>SELECT AGG ( col ) [WHERE \<dots>] [GROUP BY \<dots>] [ORDER BY \<dots> DESC LIMIT n]\<close> with its predicates on numbers
  and on dictionary-encoded strings, and the string front ends for averages, several aggregates,
  projections, top groups, HAVING and COUNT(DISTINCT).
\<close>

section \<open>Tokens\<close>

definition op_char :: "char \<Rightarrow> bool" where
  "op_char c \<longleftrightarrow> c = CHR ''>'' \<or> c = CHR ''<'' \<or> c = CHR ''='' \<or> c = CHR ''!''"

definition paren_char :: "char \<Rightarrow> bool" where
  "paren_char c \<longleftrightarrow> c = CHR ''('' \<or> c = CHR '')''"

definition word_char :: "char \<Rightarrow> bool" where
  "word_char c \<longleftrightarrow> \<not> isspace c \<and> \<not> paren_char c \<and> \<not> op_char c"

function matrixparse_tokenize :: "string \<Rightarrow> string list" where
  "matrixparse_tokenize [] = []"
| "matrixparse_tokenize (c # s) =
     (if isspace c then matrixparse_tokenize s
      else if paren_char c then [c] # matrixparse_tokenize s
      else if op_char c then
        (if s \<noteq> [] \<and> hd s = CHR ''='' then [c, CHR ''=''] # matrixparse_tokenize (tl s) else [c] # matrixparse_tokenize s)
      else (c # takeWhile word_char s) # matrixparse_tokenize (dropWhile word_char s))"
  by pat_completeness auto

termination
  by (relation "measure length") (auto simp: le_imp_less_Suc length_dropWhile_le)

text \<open>\<open>next\<close> and \<open>peek\<close> on the tokens that are left; beyond the end they give the empty string.\<close>

definition next_token :: "string list \<Rightarrow> string \<times> string list" where
  "next_token k = (case k of [] \<Rightarrow> ([], []) | t # ts \<Rightarrow> (t, ts))"

definition peek_token :: "string list \<Rightarrow> string" where
  "peek_token k = (case k of [] \<Rightarrow> [] | t # ts \<Rightarrow> up t)"

lemma up_and: "up ''and'' = ''AND''"
  by code_simp

section \<open>Predicates\<close>

definition set_bound :: "matrix_type \<Rightarrow> matrix_query \<Rightarrow> bool \<Rightarrow> string \<Rightarrow> matrix_query option" where
  "set_bound ty q lo v =
     (if v = [] then None
      else case ty of
        TF64 \<Rightarrow> map_option (\<lambda>d. if lo then q\<lparr>q_lo_f64 := d\<rparr> else q\<lparr>q_hi_f64 := d\<rparr>) (parse_f64 v)
      | TI64 \<Rightarrow> map_option (\<lambda>x. if lo then q\<lparr>q_lo_i64 := x\<rparr> else q\<lparr>q_hi_i64 := x\<rparr>) (parse_i64 v)
      | U32 \<Rightarrow> map_option (\<lambda>x. if lo then q\<lparr>q_threshold := x\<rparr> else q\<lparr>q_upper := x\<rparr>) (parse_u32 v))"

definition unquote :: "string \<Rightarrow> string" where
  "unquote s =
     (if 2 \<le> length s \<and> (hd s = CHR 0x27 \<or> hd s = CHR 0x22) \<and> last s = hd s then take (length s - 2) (tl s) else s)"

definition cmp_of :: "string \<Rightarrow> matrix_cmp option" where
  "cmp_of ops =
     (if ops = ''>'' then Some CMP_GT else if ops = ''>='' then Some CMP_GE
      else if ops = ''<'' then Some CMP_LT else if ops = ''<='' then Some CMP_LE
      else if ops = ''='' then Some CMP_EQ else if ops = ''!='' then Some CMP_NE else None)"

definition parse_string_pred :: "catalog_engine \<Rightarrow> u64 \<Rightarrow> string list \<Rightarrow> string \<Rightarrow> string list \<Rightarrow> matrix_query \<Rightarrow> query_status + (matrix_query \<times> string list)" where
  "parse_string_pred ce pcol dict ops k q =
     (if ops = ''BETWEEN'' then
        let (lo, k) = next_token k; (kw, k) = next_token k in
        if up kw \<noteq> ''AND'' then Inl ERR_PARSE
        else let (hi, k) = next_token k; u = upper_bound dict (unquote hi) in
          Inr (q\<lparr>q_cmp := CMP_BETWEEN, q_threshold := lower_bound dict (unquote lo), q_upper := (if u = 0 then 0 else u - 1)\<rparr>, k)
      else if ops = ''='' \<or> ops = ''!='' then
        let (lit, k) = next_token k in
        if lit = [] then Inl ERR_PARSE
        else Inr (q\<lparr>q_cmp := (if ops = ''='' then CMP_EQ else CMP_NE), q_threshold := string_encode ce pcol (unquote lit)\<rparr>, k)
      else
        let (x, k) = next_token k; x = unquote x in
        if x = [] then Inl ERR_PARSE
        else if ops = ''>'' then Inr (q\<lparr>q_cmp := CMP_GE, q_threshold := upper_bound dict x\<rparr>, k)
        else if ops = ''>='' then Inr (q\<lparr>q_cmp := CMP_GE, q_threshold := lower_bound dict x\<rparr>, k)
        else if ops = ''<'' then Inr (q\<lparr>q_cmp := CMP_LT, q_threshold := lower_bound dict x\<rparr>, k)
        else if ops = ''<='' then Inr (q\<lparr>q_cmp := CMP_LT, q_threshold := upper_bound dict x\<rparr>, k)
        else Inl ERR_PARSE)"

definition parse_number_pred :: "matrix_type \<Rightarrow> string \<Rightarrow> string list \<Rightarrow> matrix_query \<Rightarrow> query_status + (matrix_query \<times> string list)" where
  "parse_number_pred ty ops k q =
     (if ops = ''BETWEEN'' then
        let (lo, k) = next_token k in
        case set_bound ty (q\<lparr>q_cmp := CMP_BETWEEN\<rparr>) True lo of None \<Rightarrow> Inl ERR_PARSE
        | Some q1 \<Rightarrow>
            let (kw, k) = next_token k in
            if up kw \<noteq> ''AND'' then Inl ERR_PARSE
            else let (hi, k) = next_token k in
              (case set_bound ty q1 False hi of None \<Rightarrow> Inl ERR_PARSE | Some q2 \<Rightarrow> Inr (q2, k))
      else case cmp_of ops of None \<Rightarrow> Inl ERR_PARSE
      | Some c \<Rightarrow>
          let (v, k) = next_token k in
          (case set_bound ty (q\<lparr>q_cmp := c\<rparr>) True v of None \<Rightarrow> Inl ERR_PARSE | Some q1 \<Rightarrow> Inr (q1, k)))"

section \<open>The parser\<close>

definition agg_of :: "string \<Rightarrow> agg_op option" where
  "agg_of a =
     (if a = ''COUNT'' then Some AGG_COUNT else if a = ''SUM'' then Some AGG_SUM
      else if a = ''MIN'' then Some AGG_MIN else if a = ''MAX'' then Some AGG_MAX else None)"

text \<open>The query so far, the upper-case name of the aggregate, and the tokens that are left.\<close>

definition parse_select :: "catalog_engine \<Rightarrow> string list \<Rightarrow> query_status + (matrix_query \<times> string \<times> string list)" where
  "parse_select ce k =
     (let (t, k) = next_token k in
      if up t \<noteq> ''SELECT'' then Inl ERR_PARSE
      else let (a, k) = next_token k; aggs = up a in
        case agg_of aggs of None \<Rightarrow> Inl ERR_PARSE
        | Some agg \<Rightarrow>
            let (p, k) = next_token k in
            if p \<noteq> ''('' then Inl ERR_PARSE
            else let (col, k) = next_token k; (p, k) = next_token k in
              if p \<noteq> '')'' then Inl ERR_PARSE
              else let vid = column_id ce col in
                if vid = 0 then Inl ERR_UNKNOWN_COLUMN
                else Inr (default_query\<lparr>q_value_col := vid, q_agg := agg\<rparr>, aggs, k))"

definition parse_where :: "catalog_engine \<Rightarrow> matrix_query \<Rightarrow> string list \<Rightarrow> query_status + (matrix_query \<times> string list)" where
  "parse_where ce q k =
     (if peek_token k \<noteq> ''WHERE'' then Inr (q, k)
      else let (_, k) = next_token k; (f, k) = next_token k; vid = q_value_col q; fcol = column_id ce f in
        if fcol = 0 then Inl ERR_UNKNOWN_COLUMN
        else if fcol \<noteq> vid \<and> column_type ce fcol \<noteq> U32 then Inl ERR_PARSE
        else let (o1, k) = next_token k; ops = up o1;
                 q = q\<lparr>q_filter_col := (if fcol = vid then 0 else fcol), q_has_filter := True\<rparr> in
          (case map_of (ce_string_dicts ce) fcol of
             Some dict \<Rightarrow> parse_string_pred ce fcol dict ops k q
           | None \<Rightarrow> parse_number_pred (column_type ce fcol) ops k q))"

definition parse_group :: "catalog_engine \<Rightarrow> matrix_query \<Rightarrow> string list \<Rightarrow> ((query_status + (matrix_query \<times> string list)) \<times> catalog_engine) option" where
  "parse_group ce q k =
     (if peek_token k \<noteq> ''GROUP'' then Some (Inr (q, k), ce)
      else let (_, k) = next_token k; (kw, k) = next_token k in
        if up kw \<noteq> ''BY'' then Some (Inl ERR_PARSE, ce)
        else let (key, k) = next_token k; kid = column_id ce key in
          if kid = 0 then Some (Inl ERR_UNKNOWN_COLUMN, ce)
          else if column_type ce kid \<noteq> U32 then Some (Inl ERR_PARSE, ce)
          else map_option (\<lambda>(n, ce'). (Inr (q\<lparr>q_grouped := True, q_key_col := kid, q_num_groups := n\<rparr>, k), ce'))
                 (derive_num_groups_u32 kid ce))"

definition parse_order :: "catalog_engine \<Rightarrow> string \<Rightarrow> matrix_query \<Rightarrow> string list \<Rightarrow> query_status + (matrix_query \<times> string list)" where
  "parse_order ce aggs q k =
     (if peek_token k \<noteq> ''ORDER'' then Inr (q, k)
      else let (_, k) = next_token k; (kw, k) = next_token k in
        if up kw \<noteq> ''BY'' then Inl ERR_PARSE
        else if \<not> q_grouped q then Inl ERR_PARSE
        else let (sortraw, k) = next_token k in
          if up sortraw \<noteq> aggs \<and> column_id ce sortraw \<noteq> q_value_col q then Inl ERR_PARSE
          else let (d, k) = next_token k in
            if up d \<noteq> ''DESC'' then Inl ERR_PARSE
            else let (l, k) = next_token k in
              if up l \<noteq> ''LIMIT'' then Inl ERR_PARSE
              else let (lim, k) = next_token k in
                (case parse_u64 lim of None \<Rightarrow> Inl ERR_PARSE
                 | Some n \<Rightarrow> if n = 0 then Inl ERR_PARSE else Inr (q\<lparr>q_limit := n\<rparr>, k)))"

definition parse_query_impl :: "string \<Rightarrow> catalog_engine \<Rightarrow> ((query_status + matrix_query) \<times> catalog_engine) option" where
  "parse_query_impl sql ce =
     (case parse_select ce (matrixparse_tokenize sql) of Inl st \<Rightarrow> Some (Inl st, ce)
      | Inr (q, aggs, k) \<Rightarrow>
          (case parse_where ce q k of Inl st \<Rightarrow> Some (Inl st, ce)
           | Inr (q, k) \<Rightarrow>
               (case parse_group ce q k of None \<Rightarrow> None
                | Some (Inl st, ce) \<Rightarrow> Some (Inl st, ce)
                | Some (Inr (q, k), ce) \<Rightarrow>
                    (case parse_order ce aggs q k of Inl st \<Rightarrow> Some (Inl st, ce)
                     | Inr (q, k) \<Rightarrow> Some (if k \<noteq> [] then Inl ERR_PARSE else Inr q, ce)))))"

definition parse_query :: "string \<Rightarrow> catalog_engine \<Rightarrow> (query_status \<times> matrix_query \<times> catalog_engine) option" where
  "parse_query sql ce =
     map_option (\<lambda>(r, ce'). case r of Inl st \<Rightarrow> (st, default_query, ce') | Inr q \<Rightarrow> (OK, q, ce')) (parse_query_impl sql ce)"

section \<open>The string front ends\<close>

text \<open>The tokens joined by single spaces.\<close>

fun join_tokens :: "string list \<Rightarrow> string" where
  "join_tokens [] = []"
| "join_tokens [t] = t"
| "join_tokens (t # ts) = t @ CHR '' '' # join_tokens ts"

definition avg_query :: "u64 \<Rightarrow> u64 \<Rightarrow> string \<Rightarrow> catalog_engine \<Rightarrow> (f64 list \<times> catalog_engine) option" where
  "avg_query ns1 ns2 sql ce =
     (let tk = matrixparse_tokenize sql in
      if length tk < 2 \<or> up (tk ! 1) \<noteq> ''AVG'' then Some ([], ce)
      else do {
        (st, q, ce1) \<leftarrow> parse_query (join_tokens (tk[1 := ''SUM''])) ce;
        if st \<noteq> OK then Some ([], ce1) else average ns1 ns2 q ce1
      })"

definition top_query :: "u64 \<Rightarrow> string \<Rightarrow> catalog_engine \<Rightarrow> ((u64 \<times> u64) list \<times> catalog_engine) option" where
  "top_query ns sql ce =
     do {
       (st, q, ce1) \<leftarrow> parse_query sql ce;
       if st \<noteq> OK \<or> \<not> q_grouped q \<or> q_limit q = 0 then Some ([], ce1) else top_groups ns q (unat (q_limit q)) ce1
     }"

definition agg_name :: "agg_op \<Rightarrow> string" where
  "agg_name a = (if a = AGG_COUNT then ''COUNT'' else if a = AGG_SUM then ''SUM'' else if a = AGG_MIN then ''MIN'' else ''MAX'')"

definition having_query :: "u64 \<Rightarrow> string \<Rightarrow> catalog_engine \<Rightarrow> ((u64 \<times> u64) list \<times> catalog_engine) option" where
  "having_query ns sql ce =
     (let tk = matrixparse_tokenize sql; hi = length (takeWhile (\<lambda>t. up t \<noteq> ''HAVING'') tk) in
      if hi = length tk \<or> hi + 4 \<noteq> length tk then Some ([], ce)
      else do {
        (st, q, ce1) \<leftarrow> parse_query (join_tokens (take hi tk)) ce;
        if st \<noteq> OK \<or> \<not> q_grouped q then Some ([], ce1)
        else if up (tk ! (hi + 1)) \<noteq> agg_name (q_agg q) \<and> column_id ce1 (tk ! (hi + 1)) \<noteq> q_value_col q then Some ([], ce1)
        else case (cmp_of (tk ! (hi + 2)), parse_u64 (tk ! (hi + 3))) of
          (Some c, Some threshold) \<Rightarrow> having ns q c threshold 0 ce1
        | _ \<Rightarrow> Some ([], ce1)
      })"

definition distinct_query :: "string \<Rightarrow> catalog_engine \<Rightarrow> (u64 option \<times> catalog_engine) option" where
  "distinct_query sql ce =
     (let tk = matrixparse_tokenize sql in
      if length tk \<noteq> 6 then Some (None, ce)
      else if up (tk ! 0) \<noteq> ''SELECT'' \<or> up (tk ! 1) \<noteq> ''COUNT'' \<or> tk ! 2 \<noteq> ''('' \<or> up (tk ! 3) \<noteq> ''DISTINCT'' \<or> tk ! 5 \<noteq> '')''
      then Some (None, ce)
      else let cid = column_id ce (tk ! 4) in
        if cid = 0 then Some (None, ce)
        else map_option (\<lambda>(n, ce'). (Some n, ce')) (count_distinct cid ce))"

text \<open>\<open>std::string::find\<close>, and the pieces between commas.\<close>

fun find_from :: "string \<Rightarrow> nat \<Rightarrow> string \<Rightarrow> nat option" where
  "find_from pat i [] = (if pat = [] then Some i else None)"
| "find_from pat i (c # s) = (if take (length pat) (c # s) = pat then Some i else find_from pat (Suc i) s)"

definition find_substring :: "string \<Rightarrow> nat \<Rightarrow> string \<Rightarrow> nat option" where
  "find_substring pat start s = (if start \<le> length s then find_from pat start (drop start s) else None)"

function split_on :: "char \<Rightarrow> string \<Rightarrow> string list" where
  "split_on d s =
     (let t = takeWhile (\<lambda>c. c \<noteq> d) s in
      if length t = length s then [t] else t # split_on d (drop (Suc (length t)) s))"
  by pat_completeness auto

termination
proof (relation "measure (\<lambda>(d, s). length s)")
  fix d s x assume "x = takeWhile (\<lambda>c. c \<noteq> d) s" "length x \<noteq> length s"
  then show "((d, drop (Suc (length x)) s), d, s) \<in> measure (\<lambda>(d, s). length s)" by (cases s) auto
qed simp

declare split_on.simps [simp del]

definition trim :: "string \<Rightarrow> string" where
  "trim s = rev (dropWhile isspace (rev (dropWhile isspace s)))"

text \<open>The aggregates of a SELECT list, one after the other; \<open>clock i\<close> is what the clock measures for number \<open>i\<close>.\<close>

fun multi_loop :: "(nat \<Rightarrow> u64) \<Rightarrow> nat \<Rightarrow> string list \<Rightarrow> string \<Rightarrow> u64 list list \<Rightarrow> catalog_engine \<Rightarrow> (u64 list list \<times> catalog_engine) option" where
  "multi_loop clock i [] rest results ce = Some (results, ce)"
| "multi_loop clock i (term # terms) rest results ce =
     (let term = trim term in
      if term = [] then multi_loop clock (Suc i) terms rest results ce
      else case parse_query (''SELECT '' @ term @ rest) ce of None \<Rightarrow> None
        | Some (st, q, ce1) \<Rightarrow>
            if st \<noteq> OK then Some ([], ce1)
            else (case execute_query (clock i) q ce1 of None \<Rightarrow> None
              | Some (st, r, ce2) \<Rightarrow>
                  if st \<noteq> OK then Some ([], ce2) else multi_loop clock (Suc i) terms rest (results @ [r]) ce2))"

definition query_multi :: "(nat \<Rightarrow> u64) \<Rightarrow> string \<Rightarrow> catalog_engine \<Rightarrow> (u64 list list \<times> catalog_engine) option" where
  "query_multi clock sql ce =
     (let body = dropWhile isspace sql; u = up body in
      if take 6 u \<noteq> ''SELECT'' then Some ([], ce)
      else let ps = List.map_filter (\<lambda>kw. find_substring kw 6 u) ['' WHERE'', '' GROUP'', '' ORDER''];
               tail = (if ps = [] then length body else Min (set ps)) in
        multi_loop clock 0 (split_on (CHR '','') (take (tail - 6) (drop 6 body))) (drop tail body) [] ce)"

definition project_query :: "string \<Rightarrow> catalog_engine \<Rightarrow> (u64 list \<times> catalog_engine) option" where
  "project_query sql ce =
     (let tk = matrixparse_tokenize sql; n = length tk; none = Some ([], ce) in
      if n < 2 \<or> up (tk ! 0) \<noteq> ''SELECT'' then none
      else if n \<ge> 3 \<and> tk ! 2 = ''('' then none
      else let col = column_id ce (tk ! 1); li = 2 + length (takeWhile (\<lambda>t. up t \<noteq> ''LIMIT'') (drop 2 tk)) in
        if col = 0 then none
        else if li < n \<and> (li + 2 \<noteq> n \<or> parse_u64 (tk ! (li + 1)) = None) then none
        else let limit = (if li < n then the_default 0 (parse_u64 (tk ! (li + 1))) else 0); where_end = (if li < n then li else n) in
          if where_end \<le> 2 then project col False 0 \<lparr>p_cmp = CMP_GT, p_a = 0, p_b = 0\<rparr> limit ce
          else if up (tk ! 2) \<noteq> ''WHERE'' \<or> n < 4 then none
          else let fcol = column_id ce (tk ! 3) in
            if fcol = 0 \<or> column_type ce fcol \<noteq> U32 then none
            else do {
              (st, q, ce1) \<leftarrow> parse_query (''SELECT COUNT ( '' @ tk ! 3 @ '' )'' @ concat (map (\<lambda>t. CHR '' '' # t) (take (where_end - 2) (drop 2 tk)))) ce;
              if st \<noteq> OK \<or> \<not> q_has_filter q then Some ([], ce1)
              else do {
                fr \<leftarrow> column_rows ce1 fcol;
                cr \<leftarrow> column_rows ce1 col;
                if fr \<noteq> cr then Some ([], ce1) else project col True fcol (pred_u32 q) limit ce1
              }
            })"

section \<open>The tokenizer round-trips\<close>

definition wf_token :: "string \<Rightarrow> bool" where
  "wf_token t \<longleftrightarrow> (\<exists>c. t = [c] \<and> (paren_char c \<or> op_char c)) \<or> (\<exists>c. t = [c, CHR ''=''] \<and> op_char c) \<or> (t \<noteq> [] \<and> list_all word_char t)"

lemma special_chars:
  "op_char c \<Longrightarrow> \<not> isspace c" "op_char c \<Longrightarrow> \<not> paren_char c" "paren_char c \<Longrightarrow> \<not> isspace c"
  "isspace (CHR '' '')" "\<not> word_char (CHR '' '')"
  by (auto simp: op_char_def paren_char_def isspace_def word_char_def)

lemma tokenize_wf: "t \<in> set (matrixparse_tokenize s) \<Longrightarrow> wf_token t"
proof (induction s rule: matrixparse_tokenize.induct)
  case (2 c s)
  have "wf_token (c # takeWhile word_char s)" if "\<not> isspace c" "\<not> paren_char c" "\<not> op_char c"
    using that by (auto simp: wf_token_def word_char_def list_all_iff dest: set_takeWhileD)
  then show ?case using 2 by (auto simp: wf_token_def split: if_splits)
qed simp

lemma tokenize_token:
  assumes "wf_token t"
  shows "matrixparse_tokenize (t @ CHR '' '' # s) = t # matrixparse_tokenize s" "matrixparse_tokenize t = [t]"
proof -
  have "matrixparse_tokenize (t @ CHR '' '' # s) = t # matrixparse_tokenize s \<and> matrixparse_tokenize t = [t]"
    using assms unfolding wf_token_def
  proof (elim disjE exE conjE)
    fix c assume "t = [c]" "paren_char c"
    then show ?thesis by (simp add: special_chars)
  next
    fix c assume "t = [c]" "op_char c"
    then show ?thesis by (simp add: special_chars)
  next
    fix c assume "t = [c, CHR ''='']" "op_char c"
    then show ?thesis by (simp add: special_chars)
  next
    assume "t \<noteq> []" "list_all word_char t"
    then obtain c w where t: "t = c # w" "word_char c" "\<forall>x \<in> set w. word_char x" by (cases t) (auto simp: list_all_iff)
    have c: "\<not> isspace c" "\<not> paren_char c" "\<not> op_char c" using t(2) by (simp_all add: word_char_def)
    have w: "takeWhile word_char (w @ CHR '' '' # s) = w" "dropWhile word_char (w @ CHR '' '' # s) = CHR '' '' # s"
      "takeWhile word_char w = w" "dropWhile word_char w = []"
      using t(3) special_chars(5) by (simp_all add: takeWhile_append2 dropWhile_append2 takeWhile_eq_all_conv)
    show ?thesis using c by (simp add: t(1) w special_chars(4) del: takeWhile_append dropWhile_append)
  qed
  then show "matrixparse_tokenize (t @ CHR '' '' # s) = t # matrixparse_tokenize s" "matrixparse_tokenize t = [t]" by simp_all
qed

lemma tokenize_join: "\<forall>t \<in> set ts. wf_token t \<Longrightarrow> matrixparse_tokenize (join_tokens ts) = ts"
  by (induction ts rule: join_tokens.induct) (simp_all add: tokenize_token)

text \<open>
  The tokenizer round-trips. Splitting a query string into tokens, replacing tokens by tokens, and
  joining them with single spaces gives a string with exactly these tokens: what \<open>avg_query\<close> and
  \<open>having_query\<close> rely on when they rewrite a query and parse it again.
\<close>

theorem tokenizer_roundtrip:
  "matrixparse_tokenize (join_tokens (matrixparse_tokenize sql)) = matrixparse_tokenize sql \<and>
   matrixparse_tokenize (join_tokens (take n (matrixparse_tokenize sql))) = take n (matrixparse_tokenize sql) \<and>
   matrixparse_tokenize (join_tokens ((matrixparse_tokenize sql)[i := ''SUM''])) = (matrixparse_tokenize sql)[i := ''SUM'']"
proof (intro conjI)
  have "wf_token ''SUM''" by (simp add: wf_token_def word_char_def isspace_def paren_char_def op_char_def)
  then show "matrixparse_tokenize (join_tokens ((matrixparse_tokenize sql)[i := ''SUM''])) = (matrixparse_tokenize sql)[i := ''SUM'']"
    using tokenize_wf set_update_subset_insert by (intro tokenize_join) fastforce
qed (use tokenize_wf in \<open>auto intro!: tokenize_join dest: in_set_takeD\<close>)

section \<open>Parsing is total\<close>

text \<open>Every name stands for a column of the catalog.\<close>

definition names_ok :: "catalog_engine \<Rightarrow> bool" where
  "names_ok ce \<longleftrightarrow> (\<forall>name cid. ce_name_to_id ce name = Some cid \<longrightarrow> contents ce cid \<noteq> None)"

text \<open>The number of groups a GROUP BY key stands for: its largest value plus one, capped.\<close>

definition group_count :: "u8 list \<Rightarrow> u32" where
  "group_count bs =
     (let n = length bs div 4; mx = matrix_cpu_reduce_all (u32_view bs) n AGG_MAX in
      if n = 0 then 0 else if mx \<ge> 0xFFFFFFFF then 0xFFFFFFFF else ucast (mx + 1))"

lemma derive_num_groups_eq:
  assumes "ce_ok ce" "contents ce kid = Some bs"
  shows "\<exists>b. derive_num_groups_u32 kid ce = Some (group_count bs, ce\<lparr>ce_cold_borrows := b\<rparr>)"
proof -
  obtain col where col: "column_at ce kid = Some col" "col_holds col bs" using assms by (rule ce_ok_column)
  let ?ce1 = "ce\<lparr>ce_cold_borrows := ce_cold_borrows ce + borrows col, ce_catalog := al_upd kid (hosted col) (ce_catalog ce)\<rparr>"
  have b: "borrow kid ce = Some (col_tier col, ?ce1)" using col by (rule borrow_eq)
  have h: "host_bytes kid ?ce1 = Some (bs, length bs)"
    using hosted_holds(2,3) [OF col(2)] by (intro host_bytes_eq [of _ _ "hosted col"]) (simp_all add: column_at_def)
  have g: "give_back kid (col_tier col) ?ce1 = Some (ce\<lparr>ce_cold_borrows := ce_cold_borrows ce + borrows col\<rparr>)"
    using give_back_eq [of ?ce1 kid col bs] col by (simp add: column_at_def al_upd_same)
  show ?thesis
    by (rule exI [of _ "ce_cold_borrows ce + borrows col"]) (use g in \<open>simp add: derive_num_groups_u32_def b h group_count_def Let_def\<close>)
qed

lemma column_id_contents: "names_ok ce \<Longrightarrow> column_id ce name \<noteq> 0 \<Longrightarrow> contents ce (column_id ce name) \<noteq> None"
  by (auto simp: names_ok_def column_id_def split: option.splits)

text \<open>What a parsed query is: its columns exist with the types the executor needs.\<close>

definition typed_query :: "catalog_engine \<Rightarrow> matrix_query \<Rightarrow> bool" where
  "typed_query ce q \<longleftrightarrow> contents ce (q_value_col q) \<noteq> None \<and> q_agg q \<le> AGG_MAX \<and> q_cmp q \<le> CMP_BETWEEN \<and>
     (q_filter_col q \<noteq> 0 \<longrightarrow> contents ce (q_filter_col q) \<noteq> None \<and> column_type ce (q_filter_col q) = U32) \<and>
     (q_grouped q \<longrightarrow> column_type ce (q_key_col q) = U32 \<and> (\<exists>bs. contents ce (q_key_col q) = Some bs \<and> q_num_groups q = group_count bs))"

definition parse_error :: "query_status \<Rightarrow> bool" where
  "parse_error st \<longleftrightarrow> st = ERR_PARSE \<or> st = ERR_UNKNOWN_COLUMN"

lemma parse_select_typed:
  assumes "names_ok ce"
  shows "case parse_select ce k of Inl st \<Rightarrow> parse_error st | Inr (q, aggs, k') \<Rightarrow> typed_query ce q \<and> \<not> q_grouped q"
proof -
  have "typed_query ce (default_query\<lparr>q_value_col := column_id ce c, q_agg := a\<rparr>) \<and> \<not> q_grouped (default_query\<lparr>q_value_col := column_id ce c, q_agg := a\<rparr>)"
    if "column_id ce c \<noteq> 0" "agg_of s = Some a" for c s a
    using that column_id_contents [OF assms that(1)]
    by (auto simp: typed_query_def default_query_def agg_of_def agg_consts cmp_consts split: if_splits)
  then show ?thesis by (auto simp: parse_select_def parse_error_def Let_def split: prod.splits option.splits)
qed

lemma set_bound_fields:
  "set_bound ty q lo v = Some q' \<Longrightarrow> q_value_col q' = q_value_col q \<and> q_agg q' = q_agg q \<and> q_cmp q' = q_cmp q \<and>
     q_filter_col q' = q_filter_col q \<and> q_grouped q' = q_grouped q \<and> q_has_filter q' = q_has_filter q"
  by (auto simp: set_bound_def split: if_splits matrix_type.splits)

definition same_shape :: "matrix_query \<Rightarrow> matrix_query \<Rightarrow> bool" where
  "same_shape q q' \<longleftrightarrow> q_value_col q' = q_value_col q \<and> q_agg q' = q_agg q \<and> q_filter_col q' = q_filter_col q \<and>
     q_grouped q' = q_grouped q \<and> q_has_filter q' = q_has_filter q \<and> q_cmp q' \<le> CMP_BETWEEN"

lemma set_bound_shape: "set_bound ty q1 lo v = Some q' \<Longrightarrow> same_shape q q1 \<Longrightarrow> same_shape q q'"
  by (auto simp: same_shape_def dest: set_bound_fields)

lemma same_shape_cmp: "c \<le> CMP_BETWEEN \<Longrightarrow> same_shape q (q\<lparr>q_cmp := c\<rparr>)" "c \<le> CMP_BETWEEN \<Longrightarrow> same_shape q (q\<lparr>q_cmp := c, q_threshold := x\<rparr>)"
  "c \<le> CMP_BETWEEN \<Longrightarrow> same_shape q (q\<lparr>q_cmp := c, q_threshold := x, q_upper := y\<rparr>)"
  by (simp_all add: same_shape_def)

lemma cmp_of_range: "cmp_of s = Some c \<Longrightarrow> c \<le> CMP_BETWEEN"
  by (auto simp: cmp_of_def cmp_consts split: if_splits)

lemma cmp_range: "CMP_GE \<le> CMP_BETWEEN" "CMP_LT \<le> CMP_BETWEEN" "CMP_EQ \<le> CMP_BETWEEN" "CMP_NE \<le> CMP_BETWEEN"
  by (simp_all add: cmp_consts)

lemma parse_pred_fields:
  "case parse_number_pred ty ops k q of Inl st \<Rightarrow> parse_error st | Inr (q', k') \<Rightarrow> same_shape q q'"
  "case parse_string_pred ce pcol dict ops k q of Inl st \<Rightarrow> parse_error st | Inr (q', k') \<Rightarrow> same_shape q q'"
proof -
  show "case parse_number_pred ty ops k q of Inl st \<Rightarrow> parse_error st | Inr (q', k') \<Rightarrow> same_shape q q'"
  proof (cases "ops = ''BETWEEN''")
    case True
    then show ?thesis
      by (auto simp: parse_number_pred_def parse_error_def Let_def case_prod_unfold split: option.split
          intro: set_bound_shape [OF _ set_bound_shape [OF _ same_shape_cmp(1)]])
  next
    case False
    then show ?thesis
      by (auto simp: parse_number_pred_def parse_error_def Let_def case_prod_unfold split: option.split
          intro: set_bound_shape [OF _ same_shape_cmp(1)] cmp_of_range)
  qed
  show "case parse_string_pred ce pcol dict ops k q of Inl st \<Rightarrow> parse_error st | Inr (q', k') \<Rightarrow> same_shape q q'"
    by (simp add: parse_string_pred_def parse_error_def case_prod_unfold Let_def same_shape_cmp cmp_range)
qed

lemma parse_where_typed:
  assumes "names_ok ce" "typed_query ce q" "\<not> q_grouped q"
  shows "case parse_where ce q k of Inl st \<Rightarrow> parse_error st | Inr (q', k') \<Rightarrow> typed_query ce q' \<and> \<not> q_grouped q'"
proof -
  have "case r of Inl st \<Rightarrow> parse_error st | Inr (q', k') \<Rightarrow> typed_query ce q' \<and> \<not> q_grouped q'"
    if r: "case r of Inl st \<Rightarrow> parse_error st
      | Inr (q', k'') \<Rightarrow> same_shape (q\<lparr>q_filter_col := (if column_id ce f = q_value_col q then 0 else column_id ce f), q_has_filter := True\<rparr>) q'"
      and f: "column_id ce f \<noteq> 0" "column_id ce f = q_value_col q \<or> column_type ce (column_id ce f) = U32" for r :: "query_status + matrix_query \<times> string list" and f
    using r f(2) assms(2,3) column_id_contents [OF assms(1) f(1)] by (auto simp: typed_query_def same_shape_def split: sum.splits)
  note step = this
  define f where "f = fst (next_token (snd (next_token k)))"
  define k1 where "k1 = snd (next_token (snd (next_token k)))"
  let ?q = "q\<lparr>q_filter_col := (if column_id ce f = q_value_col q then 0 else column_id ce f), q_has_filter := True\<rparr>"
  let ?r = "case map_of (ce_string_dicts ce) (column_id ce f) of
      Some dict \<Rightarrow> parse_string_pred ce (column_id ce f) dict (up (fst (next_token k1))) (snd (next_token k1)) ?q
    | None \<Rightarrow> parse_number_pred (column_type ce (column_id ce f)) (up (fst (next_token k1))) (snd (next_token k1)) ?q"
  have w: "parse_where ce q k =
    (if peek_token k \<noteq> ''WHERE'' then Inr (q, k) else if column_id ce f = 0 then Inl ERR_UNKNOWN_COLUMN
     else if column_id ce f \<noteq> q_value_col q \<and> column_type ce (column_id ce f) \<noteq> U32 then Inl ERR_PARSE else ?r)"
    unfolding parse_where_def Let_def case_prod_unfold f_def k1_def by (rule refl)
  have "case ?r of Inl st \<Rightarrow> parse_error st
      | Inr (q', k'') \<Rightarrow> same_shape (q\<lparr>q_filter_col := (if column_id ce f = q_value_col q then 0 else column_id ce f), q_has_filter := True\<rparr>) q'"
    by (cases "map_of (ce_string_dicts ce) (column_id ce f)") (simp_all only: option.case parse_pred_fields)
  from step [OF this] show ?thesis using assms(2,3) by (simp add: w parse_error_def)
qed

lemma parse_group_typed:
  assumes "ce_ok ce" "names_ok ce" "typed_query ce q" "\<not> q_grouped q"
  shows "\<exists>r b. parse_group ce q k = Some (r, ce\<lparr>ce_cold_borrows := b\<rparr>) \<and>
    (case r of Inl st \<Rightarrow> parse_error st | Inr (q', k') \<Rightarrow> typed_query ce q')"
proof -
  have id: "ce\<lparr>ce_cold_borrows := ce_cold_borrows ce\<rparr> = ce" by simp
  define key where "key = fst (next_token (snd (next_token (snd (next_token k)))))"
  define k1 where "k1 = snd (next_token (snd (next_token (snd (next_token k)))))"
  have g: "parse_group ce q k =
    (if peek_token k \<noteq> ''GROUP'' then Some (Inr (q, k), ce)
     else if up (fst (next_token (snd (next_token k)))) \<noteq> ''BY'' then Some (Inl ERR_PARSE, ce)
     else if column_id ce key = 0 then Some (Inl ERR_UNKNOWN_COLUMN, ce)
     else if column_type ce (column_id ce key) \<noteq> U32 then Some (Inl ERR_PARSE, ce)
     else map_option (\<lambda>p. (Inr (q\<lparr>q_grouped := True, q_key_col := column_id ce key, q_num_groups := fst p\<rparr>, k1), snd p)) (derive_num_groups_u32 (column_id ce key) ce))"
    unfolding parse_group_def Let_def case_prod_unfold key_def k1_def by (rule refl)
  have err: "\<exists>r b. Some (Inl st, ce) = Some (r, ce\<lparr>ce_cold_borrows := b\<rparr>) \<and> (case r of Inl st \<Rightarrow> parse_error st | Inr (q', k') \<Rightarrow> typed_query ce q')"
    if "parse_error st" for st using that by (intro exI [of _ "Inl st"] exI [of _ "ce_cold_borrows ce"]) simp
  have grp: "\<exists>r b. map_option (\<lambda>p. (Inr (q\<lparr>q_grouped := True, q_key_col := column_id ce key, q_num_groups := fst p\<rparr>, k1), snd p)) (derive_num_groups_u32 (column_id ce key) ce) =
      Some (r, ce\<lparr>ce_cold_borrows := b\<rparr>) \<and> (case r of Inl st \<Rightarrow> parse_error st | Inr (q', k') \<Rightarrow> typed_query ce q')"
    if c: "column_id ce key \<noteq> 0" "column_type ce (column_id ce key) = U32"
  proof -
    obtain bs where bs: "contents ce (column_id ce key) = Some bs" using column_id_contents [OF assms(2) c(1)] by blast
    obtain b where b: "derive_num_groups_u32 (column_id ce key) ce = Some (group_count bs, ce\<lparr>ce_cold_borrows := b\<rparr>)"
      using derive_num_groups_eq [OF assms(1) bs] by blast
    let ?q = "q\<lparr>q_grouped := True, q_key_col := column_id ce key, q_num_groups := group_count bs\<rparr>"
    have "typed_query ce ?q" using assms(3) bs c(2) by (simp add: typed_query_def)
    then show ?thesis by (intro exI [of _ "Inr (?q, k1)"] exI [of _ b]) (simp add: b)
  qed
  have none: "\<exists>r b. Some (Inr (q, k), ce) = Some (r, ce\<lparr>ce_cold_borrows := b\<rparr>) \<and> (case r of Inl st \<Rightarrow> parse_error st | Inr (q', k') \<Rightarrow> typed_query ce q')"
    using assms(3) by (intro exI [of _ "Inr (q, k)"] exI [of _ "ce_cold_borrows ce"]) simp
  show ?thesis unfolding g using none err [of ERR_PARSE] err [of ERR_UNKNOWN_COLUMN] grp by (simp only: parse_error_def simp_thms split: if_split) blast
qed

lemma parse_order_typed:
  "typed_query ce q \<Longrightarrow> case parse_order ce' aggs q k of Inl st \<Rightarrow> parse_error st | Inr (q', k') \<Rightarrow> typed_query ce q'"
  by (auto simp: parse_order_def parse_error_def typed_query_def Let_def case_prod_unfold split: option.split)

lemma parse_query_impl_typed:
  assumes "ce_ok ce" "names_ok ce"
  shows "\<exists>r b. parse_query_impl sql ce = Some (r, ce\<lparr>ce_cold_borrows := b\<rparr>) \<and>
    (case r of Inl st \<Rightarrow> parse_error st | Inr q \<Rightarrow> typed_query ce q)"
proof -
  have err: "\<exists>r b. Some (Inl st, ce\<lparr>ce_cold_borrows := b0\<rparr>) = Some (r, ce\<lparr>ce_cold_borrows := b\<rparr>) \<and> (case r of Inl st \<Rightarrow> parse_error st | Inr q \<Rightarrow> typed_query ce q)"
    if "parse_error st" for st b0 using that by (intro exI [of _ "Inl st"] exI [of _ b0]) simp
  note err0 = err [of _ "ce_cold_borrows ce", simplified]
  show ?thesis
  proof (cases "parse_select ce (matrixparse_tokenize sql)")
    case (Inl st)
    then show ?thesis using parse_select_typed [OF assms(2), of "matrixparse_tokenize sql"] err0 by (simp add: parse_query_impl_def)
  next
    case s: (Inr p)
    obtain q aggs k where p: "p = (q, aggs, k)" by (cases p)
    have q: "typed_query ce q" "\<not> q_grouped q" using parse_select_typed [OF assms(2), of "matrixparse_tokenize sql"] s p by simp_all
    show ?thesis
    proof (cases "parse_where ce q k")
      case (Inl st)
      then show ?thesis using parse_where_typed [OF assms(2) q, of k] err0 s p by (simp add: parse_query_impl_def)
    next
      case w: (Inr p1)
      obtain q1 k1 where p1: "p1 = (q1, k1)" by (cases p1)
      have q1: "typed_query ce q1" "\<not> q_grouped q1" using parse_where_typed [OF assms(2) q, of k] w p1 by simp_all
      obtain r b where g: "parse_group ce q1 k1 = Some (r, ce\<lparr>ce_cold_borrows := b\<rparr>)" "case r of Inl st \<Rightarrow> parse_error st | Inr (q', k') \<Rightarrow> typed_query ce q'"
        using parse_group_typed [OF assms q1, of k1] by blast
      show ?thesis
      proof (cases r)
        case (Inl st)
        show ?thesis
          by (rule exI [of _ "Inl st"], rule exI [of _ b]) (use g Inl s p w p1 in \<open>simp add: parse_query_impl_def\<close>)
      next
        case (Inr p2)
        obtain q2 k2 where p2: "p2 = (q2, k2)" by (cases p2)
        have "typed_query ce q2" using g(2) Inr p2 by simp
        note o = parse_order_typed [OF this, of "ce\<lparr>ce_cold_borrows := b\<rparr>" aggs k2]
        have e: "parse_query_impl sql ce = (case parse_order (ce\<lparr>ce_cold_borrows := b\<rparr>) aggs q2 k2 of Inl st \<Rightarrow> Some (Inl st, ce\<lparr>ce_cold_borrows := b\<rparr>)
            | Inr (q, k) \<Rightarrow> Some (if k \<noteq> [] then Inl ERR_PARSE else Inr q, ce\<lparr>ce_cold_borrows := b\<rparr>))"
          using s p w p1 g(1) Inr p2 by (simp add: parse_query_impl_def)
        show ?thesis
        proof (cases "parse_order (ce\<lparr>ce_cold_borrows := b\<rparr>) aggs q2 k2")
          case (Inl st)
          show ?thesis by (rule exI [of _ "Inl st"], rule exI [of _ b]) (use e o Inl in simp)
        next
          case i: (Inr p3)
          obtain q3 k3 where p3: "p3 = (q3, k3)" by (cases p3)
          have t: "typed_query ce q3" using o i p3 by simp
          show ?thesis
            by (rule exI [of _ "if k3 \<noteq> [] then Inl ERR_PARSE else Inr q3"], rule exI [of _ b]) (use e i p3 t in \<open>simp add: parse_error_def\<close>)
        qed
      qed
    qed
  qed
qed

lemma typed_query_check: "typed_query ce q \<Longrightarrow> query_check (logical ce) q \<noteq> ERR_UNKNOWN_COLUMN"
  by (auto simp: typed_query_def query_check_def Let_def logical_def crossing_def)

text \<open>
  C7. Parsing untrusted text is total and yields typed queries. On a catalog whose names stand for columns,
  \<open>parse_query\<close> returns for every string, without changing the logical contents. An accepted query is
  well typed: its columns exist, filter and key columns are \<open>uint32_t\<close>, aggregate and comparison are
  in range and the number of groups is that of the key column, so that executing it never reports
  an unknown column. A refused one leaves the default query, with a parse or unknown-column status.
\<close>

theorem parse_query_typed:
  assumes "query_ready ce" "names_ok ce"
  shows "\<exists>st q ce'. parse_query sql ce = Some (st, q, ce') \<and> query_ready ce' \<and> logical ce' = logical ce \<and>
    (st = OK \<longrightarrow> typed_query ce q \<and> fst (answer (logical ce) q) \<noteq> ERR_UNKNOWN_COLUMN) \<and>
    (st \<noteq> OK \<longrightarrow> q = default_query \<and> (st = ERR_PARSE \<or> st = ERR_UNKNOWN_COLUMN))"
proof -
  have "ce_ok ce" using assms(1) by (simp add: query_ready_def)
  from parse_query_impl_typed [OF this assms(2), of sql] obtain r b where
    r: "parse_query_impl sql ce = Some (r, ce\<lparr>ce_cold_borrows := b\<rparr>)" "case r of Inl st \<Rightarrow> parse_error st | Inr q \<Rightarrow> typed_query ce q" by blast
  note ready = borrow_count_ready [OF assms(1), of b]
  show ?thesis
  proof (cases r)
    case (Inl st)
    then show ?thesis using r ready
      by (intro exI [of _ st] exI [of _ default_query] exI [of _ "ce\<lparr>ce_cold_borrows := b\<rparr>"]) (auto simp: parse_query_def parse_error_def)
  next
    case (Inr q)
    then have "typed_query ce q" using r(2) by simp
    then show ?thesis using r(1) ready Inr typed_query_check [of ce q]
      by (intro exI [of _ OK] exI [of _ q] exI [of _ "ce\<lparr>ce_cold_borrows := b\<rparr>"]) (simp add: parse_query_def answer_def)
  qed
qed

theorem parse_query_typed_witness:
  "\<exists>st q ce'. parse_query ''SELECT NOTHING'' (catalog_init 10 10) = Some (st, q, ce') \<and> (st \<noteq> OK \<longrightarrow> q = default_query)"
proof -
  have "names_ok (catalog_init 10 10)" by (simp add: names_ok_def catalog_init_def)
  from parse_query_typed [OF init_ready this, of "''SELECT NOTHING''"] show ?thesis by blast
qed

section \<open>Predicates on strings\<close>

definition string_holds :: "string \<Rightarrow> string \<Rightarrow> string \<Rightarrow> bool" where
  "string_holds ops s x \<longleftrightarrow>
     (if ops = ''='' then s = x else if ops = ''!='' then s \<noteq> x else if ops = ''<'' then s < x
      else if ops = ''<='' then s \<le> x else if ops = ''>'' then x < s else x \<le> s)"

text \<open>A code and the string it stands for, against a bound of the dictionary.\<close>

lemma code_compare:
  assumes "dict = sort_unique data" "length dict < 2 ^ 32" "unat (code :: u32) < length dict" "dict ! unat code = s"
  shows "code < lower_bound dict x \<longleftrightarrow> s < x" "code < upper_bound dict x \<longleftrightarrow> s \<le> x"
    "lower_bound dict x \<le> code \<longleftrightarrow> x \<le> s" "upper_bound dict x \<le> code \<longleftrightarrow> x < s"
proof -
  have "sorted dict" using sort_unique_props assms(1) by simp
  from bound_compare [OF this assms(2,3), of x] assms(4)
  show *: "code < lower_bound dict x \<longleftrightarrow> s < x" "code < upper_bound dict x \<longleftrightarrow> s \<le> x" by simp_all
  show "lower_bound dict x \<le> code \<longleftrightarrow> x \<le> s" "upper_bound dict x \<le> code \<longleftrightarrow> x < s"
    using * by (metis linorder_not_less)+
qed

lemma code_encode:
  assumes "dict = sort_unique data" "length dict < 2 ^ 32" "unat code < length dict" "dict ! unat code = s"
    "ce_string_encoders ce cid = Some (encoder_of dict)"
  shows "code = string_encode ce cid x \<longleftrightarrow> s = x"
proof -
  have d: "distinct dict" using sort_unique_props assms(1) by simp
  have s: "map_of (encoder_of dict) s = Some code" using encoder_lookup [OF d assms(3)] assms(4) by simp
  show ?thesis
  proof (cases "map_of (encoder_of dict) x")
    case None
    then have "x \<notin> set dict" using encoder_None [OF d] by simp
    moreover have "s \<in> set dict" using assms(3,4) nth_mem by blast
    moreover have "string_encode ce cid x = of_nat (length dict)" by (simp add: string_encode_def assms(5) None encoder_length [OF d])
    moreover have "unat (of_nat (length dict) :: u32) = length dict" using assms(2) by (intro unat_of_nat_small) simp
    ultimately show ?thesis using assms(3) by auto
  next
    case (Some c)
    then have "x \<in> set dict" using encoder_None [OF d, of x] by fastforce
    then obtain j where j: "j < length dict" "dict ! j = x" by (auto simp: in_set_conv_nth)
    have c: "c = of_nat j" using encoder_lookup [OF d j(1)] j(2) Some by simp
    have "unat (of_nat j :: u32) = j" using assms(2) j(1) by (intro unat_of_nat_small) simp
    then have u: "unat c = j" by (simp only: c)
    have "string_encode ce cid x = c" by (simp add: string_encode_def assms(5) Some)
    moreover have "code = c \<longleftrightarrow> unat code = j" using u by (metis word_unat_eq_iff)
    ultimately show ?thesis using nth_eq_iff_index_eq [OF d assms(3) j(1)] assms(4) j(2) by simp
  qed
qed

lemma le_pred_word: "(u :: u32) \<noteq> 0 \<Longrightarrow> x \<le> u - 1 \<longleftrightarrow> x < u"
proof -
  assume u: "u \<noteq> 0"
  then have "1 \<le> u" by (simp add: word_le_nat_alt unat_gt_0 Suc_leI)
  then have "unat (u - 1) = unat u - 1" by (simp add: unat_sub)
  moreover have "0 < unat u" using u by (simp add: unat_gt_0)
  ultimately show ?thesis by (auto simp: word_le_nat_alt word_less_nat_alt)
qed

lemma dict_columnD:
  assumes "dict_column ce cid data" "contents ce cid = Some bs" "i < length data"
  shows "length (sort_unique data) < 2 ^ 32" "map_of (ce_string_dicts ce) cid = Some (sort_unique data)"
    "ce_string_encoders ce cid = Some (encoder_of (sort_unique data))"
    "unat (u32_view bs ! i) < length (sort_unique data)" "sort_unique data ! unat (u32_view bs ! i) = data ! i"
  using assms by (auto simp: dict_column_def u32_view_bytes)

text \<open>
  C29. Comparisons of strings become comparisons of codes. For a dictionary-encoded column the predicate
  that the parser builds from an operator and a literal, quoted or not, selects a row by its code
  exactly when the row's string compares to the literal as the operator says, lexicographically,
  whether or not the literal occurs in the column; BETWEEN selects the strings of the closed interval
  whenever some string of the column is at most the upper end.
\<close>

theorem string_predicate_correct:
  assumes "dict_column ce cid data" "contents ce cid = Some bs" "i < length data"
    and "ops \<in> {''='', ''!='', ''<'', ''<='', ''>'', ''>=''}" "unquote lit \<noteq> []" "lit \<noteq> []"
    and "\<exists>s \<in> set data. s \<le> unquote hi"
  shows "(\<exists>q'. parse_string_pred ce cid (sort_unique data) ops (lit # k) q = Inr (q', k) \<and>
      (matrix_pred_match (u32_view bs ! i) (pred_u32 q') \<longleftrightarrow> string_holds ops (data ! i) (unquote lit))) \<and>
    (\<exists>q'. parse_string_pred ce cid (sort_unique data) ''BETWEEN'' (lo # ''and'' # hi # k) q = Inr (q', k) \<and>
      (matrix_pred_match (u32_view bs ! i) (pred_u32 q') \<longleftrightarrow> unquote lo \<le> data ! i \<and> data ! i \<le> unquote hi))"
proof
  note d = dict_columnD [OF assms(1-3)]
  note cmp = code_compare [OF refl d(1,4,5)] code_encode [OF refl d(1,4,5,3)]
  show "\<exists>q'. parse_string_pred ce cid (sort_unique data) ops (lit # k) q = Inr (q', k) \<and>
      (matrix_pred_match (u32_view bs ! i) (pred_u32 q') \<longleftrightarrow> string_holds ops (data ! i) (unquote lit))"
    using assms(4)
    by (elim insertE emptyE)
      (simp_all add: assms(5,6) parse_string_pred_def next_token_def pred_u32_def matrix_pred_match_def cmp_consts string_holds_def cmp)
  let ?u = "upper_bound (sort_unique data) (unquote hi)"
  obtain s where s: "s \<in> set data" "s \<le> unquote hi" using assms(7) by blast
  then obtain j where j: "j < length (sort_unique data)" "sort_unique data ! j = s" using sort_unique_props(3) by (metis in_set_conv_nth)
  have "of_nat j < ?u" using bound_compare(2) [OF sort_unique_props(1) d(1) j(1)] j(2) s(2) by simp
  then have u: "?u \<noteq> 0" by auto
  have "u32_view bs ! i \<le> ?u - 1 \<longleftrightarrow> data ! i \<le> unquote hi" using cmp(2) le_pred_word [OF u] by simp
  moreover have "up ''and'' = ''AND''" by (rule up_and)
  ultimately show "\<exists>q'. parse_string_pred ce cid (sort_unique data) ''BETWEEN'' (lo # ''and'' # hi # k) q = Inr (q', k) \<and>
      (matrix_pred_match (u32_view bs ! i) (pred_u32 q') \<longleftrightarrow> unquote lo \<le> data ! i \<and> data ! i \<le> unquote hi)"
    using u by (simp add: parse_string_pred_def next_token_def pred_u32_def matrix_pred_match_def cmp_consts cmp)
qed

lemma named_dict_column:
  assumes "4 * length data \<le> 1000" "card (set data) < 2 ^ 32"
  obtains ce bs where "load_string_column_dict 7 data (catalog_init 1000 1000) = Some ce" "query_ready ce" "dict_column ce 7 data" "contents ce 7 = Some bs"
proof -
  have c: "contents (catalog_init 1000 1000) 7 = None" "map_of (ce_null_masks (catalog_init 1000 1000)) 7 = None"
    "4 * length data \<le> ce_tmp_room (catalog_init 1000 1000)" using assms(1) by (simp_all add: contents_def catalog_init_def)
  have "(7 :: u64) \<noteq> 0" "4 * length data < 2 ^ 53" using assms(1) by simp_all
  from load_string_column_dict_ok [OF init_ready this(1) c this(2) assms(2)] obtain ce where
    "load_string_column_dict 7 data (catalog_init 1000 1000) = Some ce" "query_ready ce" "dict_column ce 7 data" by blast
  moreover from this(3) obtain bs where "contents ce 7 = Some bs" by (auto simp: dict_column_def)
  ultimately show thesis using that by blast
qed

theorem string_predicate_correct_witness:
  "\<exists>ce bs q'. load_string_column_dict 7 [''fig'', ''pear''] (catalog_init 1000 1000) = Some ce \<and> contents ce 7 = Some bs \<and>
    parse_string_pred ce 7 (sort_unique [''fig'', ''pear'']) ''<='' [''kiwi''] default_query = Inr (q', []) \<and>
    matrix_pred_match (u32_view bs ! 0) (pred_u32 q')"
proof -
  let ?xs = "[''fig'', ''pear'']"
  obtain ce bs where c: "load_string_column_dict 7 ?xs (catalog_init 1000 1000) = Some ce" "dict_column ce 7 ?xs" "contents ce 7 = Some bs"
    by (rule named_dict_column [of ?xs]) (simp_all add: card_insert_if)
  have "unquote ''kiwi'' = ''kiwi''" by (simp add: unquote_def)
  moreover have "''fig'' \<le> ''kiwi''" by (simp add: less_eq_char_simp)
  ultimately show ?thesis
    using c string_predicate_correct [OF c(2,3), of 0 "''<=''" "''kiwi''" "''kiwi''" "[]" default_query] by (auto simp: string_holds_def)
qed

text \<open>
  BETWEEN below the dictionary selects the smallest string. When the upper end of a BETWEEN is below
  every string of the column, the interval is empty, but the parser clamps the upper code to 0: if
  the lower end is not above the smallest string, its rows are selected although they lie outside.
\<close>

theorem string_between_below_dictionary:
  assumes "dict_column ce cid data" "contents ce cid = Some bs" "i < length data"
    and "\<forall>s \<in> set data. unquote hi < s \<and> unquote lo \<le> s \<and> data ! i \<le> s"
  shows "\<exists>q'. parse_string_pred ce cid (sort_unique data) ''BETWEEN'' (lo # ''and'' # hi # k) q = Inr (q', k) \<and>
    matrix_pred_match (u32_view bs ! i) (pred_u32 q') \<and> \<not> data ! i \<le> unquote hi"
proof -
  note d = dict_columnD [OF assms(1-3)]
  note set = sort_unique_props(3) [of data]
  have "takeWhile (\<lambda>d. \<not> unquote hi < d) (sort_unique data) = []" "takeWhile (\<lambda>d. d < unquote lo) (sort_unique data) = []"
    using assms(4) set by (auto simp: takeWhile_eq_Nil_iff) (metis hd_in_set not_less)+
  then have b: "upper_bound (sort_unique data) (unquote hi) = 0" "lower_bound (sort_unique data) (unquote lo) = 0"
    by (simp_all add: upper_bound_def lower_bound_def)
  have "sort_unique data \<noteq> []" using d(4) by auto
  then have h: "0 < length (sort_unique data)" by simp
  then have "sort_unique data ! 0 \<in> set data" using set nth_mem by blast
  then have "data ! i \<le> sort_unique data ! 0" using assms(4) by blast
  moreover have "sort_unique data ! 0 \<le> sort_unique data ! unat (u32_view bs ! i)"
    using sort_unique_props(1) d(4) by (intro sorted_nth_mono) simp_all
  ultimately have "sort_unique data ! unat (u32_view bs ! i) = sort_unique data ! 0" using d(5) by simp
  then have "u32_view bs ! i = 0" using nth_eq_iff_index_eq [OF sort_unique_props(2) d(4) h] by (simp add: unat_eq_zero)
  moreover have "\<not> data ! i \<le> unquote hi" using assms(3,4) by (metis nth_mem not_less)
  moreover have "up ''and'' = ''AND''" by (rule up_and)
  ultimately show ?thesis by (simp add: parse_string_pred_def next_token_def pred_u32_def matrix_pred_match_def cmp_consts b)
qed

theorem string_between_below_dictionary_witness:
  "\<exists>ce bs q'. load_string_column_dict 7 [''m''] (catalog_init 1000 1000) = Some ce \<and> contents ce 7 = Some bs \<and>
    parse_string_pred ce 7 (sort_unique [''m'']) ''BETWEEN'' [''a'', ''and'', ''b''] default_query = Inr (q', []) \<and>
    matrix_pred_match (u32_view bs ! 0) (pred_u32 q')"
proof -
  obtain ce bs where c: "load_string_column_dict 7 [''m''] (catalog_init 1000 1000) = Some ce" "dict_column ce 7 [''m'']" "contents ce 7 = Some bs"
    by (rule named_dict_column [of "[''m'']"]) simp_all
  have "unquote ''b'' = ''b''" "unquote ''a'' = ''a''" by (simp_all add: unquote_def)
  then have "\<forall>s \<in> set [''m'']. unquote ''b'' < s \<and> unquote ''a'' \<le> s \<and> [''m''] ! 0 \<le> s" by simp
  from string_between_below_dictionary [OF c(2,3) _ this, of "[]" default_query] c show ?thesis by auto
qed

end
