(* ===== verification/CSV_Ingest.thy ===== *)
theory CSV_Ingest
  imports Snapshot Query_Parser
begin

text \<open>
  Ingestion of CSV files (\<open>csv_ingest.hpp\<close>) and its callers in \<open>CPUMockEngine\<close>
  (\<open>compute_mock.cpp\<close>). A reader walks to one field of each line without splitting the line; it
  returns \<open>None\<close> where the source returns \<open>false\<close> with an empty vector.
\<close>

section \<open>The readers\<close>

text \<open>\<open>std::getline\<close> until the stream ends: a final newline does not start another line.\<close>

function getlines :: "string \<Rightarrow> string list" where
  "getlines s = (if s = [] then [] else let l = takeWhile (\<lambda>c. c \<noteq> CHR 0x0A) s in l # getlines (drop (Suc (length l)) s))"
  by pat_completeness auto

termination
  by (relation "measure length") simp_all

declare getlines.simps [simp del]

definition strip_cr :: "string \<Rightarrow> string" where
  "strip_cr line = (if line \<noteq> [] \<and> last line = CHR 0x0D then butlast line else line)"

text \<open>\<open>line.find(delim, start)\<close>, and the walk to the field \<open>col_index\<close>.\<close>

definition find_char :: "char \<Rightarrow> nat \<Rightarrow> string \<Rightarrow> nat option" where
  "find_char d start line =
     (let i = start + length (takeWhile (\<lambda>c. c \<noteq> d) (drop start line)) in if i < length line then Some i else None)"

fun walk_fields :: "nat \<Rightarrow> char \<Rightarrow> string \<Rightarrow> nat \<Rightarrow> nat option" where
  "walk_fields 0 d line start = Some start"
| "walk_fields (Suc n) d line start =
     (case find_char d start line of None \<Rightarrow> None | Some comma \<Rightarrow> walk_fields n d line (comma + 1))"

definition field_end :: "char \<Rightarrow> string \<Rightarrow> nat \<Rightarrow> nat" where
  "field_end d line start = (case find_char d start line of None \<Rightarrow> length line | Some e \<Rightarrow> e)"

definition substr :: "string \<Rightarrow> nat \<Rightarrow> nat \<Rightarrow> string" where
  "substr line start fin = take (fin - start) (drop start line)"

text \<open>The loop over the lines; \<open>parse\<close> reads the field of a line between two positions.\<close>

fun csv_loop :: "(string \<Rightarrow> nat \<Rightarrow> nat \<Rightarrow> 'a option) \<Rightarrow> nat \<Rightarrow> bool \<Rightarrow> char \<Rightarrow> bool \<Rightarrow> string list \<Rightarrow> 'a list \<Rightarrow> 'a list option" where
  "csv_loop parse col_index has_header d is_first [] out = Some out"
| "csv_loop parse col_index has_header d is_first (line # lines) out =
     (let line = strip_cr line in
      if has_header \<and> is_first then csv_loop parse col_index has_header d False lines out
      else case walk_fields col_index d line 0 of None \<Rightarrow> None
        | Some start \<Rightarrow>
            (case parse line start (field_end d line start) of None \<Rightarrow> None
             | Some v \<Rightarrow> csv_loop parse col_index has_header d False lines (out @ [v])))"

definition read_csv :: "(string \<Rightarrow> nat \<Rightarrow> nat \<Rightarrow> 'a option) \<Rightarrow> string \<Rightarrow> nat \<Rightarrow> bool \<Rightarrow> char \<Rightarrow> disk \<Rightarrow> 'a list option" where
  "read_csv parse path col_index has_header d dk =
     (case dk_files dk path of None \<Rightarrow> None
      | Some bs \<Rightarrow> csv_loop parse col_index has_header d True (getlines (bytes_string bs)) [])"

definition matrix_read_csv_column :: "string \<Rightarrow> nat \<Rightarrow> bool \<Rightarrow> char \<Rightarrow> disk \<Rightarrow> u32 list option" where
  "matrix_read_csv_column = read_csv (\<lambda>line start fin. parse_u32 (substr line start fin))"

definition matrix_read_csv_column_str :: "string \<Rightarrow> nat \<Rightarrow> bool \<Rightarrow> char \<Rightarrow> disk \<Rightarrow> string list option" where
  "matrix_read_csv_column_str = read_csv (\<lambda>line start fin. Some (substr line start fin))"

definition matrix_read_csv_column_i64 :: "string \<Rightarrow> nat \<Rightarrow> bool \<Rightarrow> char \<Rightarrow> disk \<Rightarrow> i64 list option" where
  "matrix_read_csv_column_i64 = read_csv (\<lambda>line start fin. parse_i64 (substr line start fin))"

text \<open>\<open>strtod\<close> reads the line from the field's start up to its first zero byte, beyond the field if the number goes on.\<close>

definition csv_f64 :: "string \<Rightarrow> nat \<Rightarrow> nat \<Rightarrow> f64 option" where
  "csv_f64 line start fin =
     (if start = fin then None
      else let t = takeWhile (\<lambda>c. c \<noteq> CHR 0x00) (drop start line) in
        case strtod t of None \<Rightarrow> None
        | Some (v, erange, rest) \<Rightarrow> if erange \<or> start + (length t - length rest) \<noteq> fin then None else Some v)"

definition matrix_read_csv_column_f64 :: "string \<Rightarrow> nat \<Rightarrow> bool \<Rightarrow> char \<Rightarrow> disk \<Rightarrow> f64 list option" where
  "matrix_read_csv_column_f64 = read_csv csv_f64"

section \<open>Loading\<close>

definition load_column_from_csv :: "u64 \<Rightarrow> string \<Rightarrow> nat \<Rightarrow> bool \<Rightarrow> char \<Rightarrow> disk \<Rightarrow> catalog_engine \<Rightarrow> (bool \<times> catalog_engine) option" where
  "load_column_from_csv cid path col_index has_header d dk ce =
     (case matrix_read_csv_column path col_index has_header d dk of None \<Rightarrow> Some (False, ce)
      | Some data \<Rightarrow> map_option (\<lambda>ce'. (True, ce')) (load_scan_column cid data ce))"

definition load_column_from_csv_i64 :: "u64 \<Rightarrow> string \<Rightarrow> nat \<Rightarrow> bool \<Rightarrow> char \<Rightarrow> disk \<Rightarrow> catalog_engine \<Rightarrow> (bool \<times> catalog_engine) option" where
  "load_column_from_csv_i64 cid path col_index has_header d dk ce =
     (case matrix_read_csv_column_i64 path col_index has_header d dk of None \<Rightarrow> Some (False, ce)
      | Some data \<Rightarrow> map_option (\<lambda>ce'. (True, ce')) (load_scan_column_i64 cid data ce))"

definition load_column_from_csv_f64 :: "u64 \<Rightarrow> string \<Rightarrow> nat \<Rightarrow> bool \<Rightarrow> char \<Rightarrow> disk \<Rightarrow> catalog_engine \<Rightarrow> (bool \<times> catalog_engine) option" where
  "load_column_from_csv_f64 cid path col_index has_header d dk ce =
     (case matrix_read_csv_column_f64 path col_index has_header d dk of None \<Rightarrow> Some (False, ce)
      | Some data \<Rightarrow> map_option (\<lambda>ce'. (True, ce')) (load_scan_column_f64 cid data ce))"

definition load_string_column_from_csv :: "u64 \<Rightarrow> string \<Rightarrow> nat \<Rightarrow> bool \<Rightarrow> char \<Rightarrow> disk \<Rightarrow> catalog_engine \<Rightarrow> (bool \<times> catalog_engine) option" where
  "load_string_column_from_csv cid path col_index has_header d dk ce =
     (case matrix_read_csv_column_str path col_index has_header d dk of None \<Rightarrow> Some (False, ce)
      | Some data \<Rightarrow> map_option (\<lambda>ce'. (True, ce')) (load_string_column_dict cid data ce))"

section \<open>The table of a CSV file\<close>

text \<open>The reference: split the text into lines and each line into its fields.\<close>

definition csv_table :: "bool \<Rightarrow> char \<Rightarrow> string \<Rightarrow> string list list" where
  "csv_table has_header d text =
     (let rows = map (\<lambda>line. split_on d (strip_cr line)) (getlines text) in if has_header then tl rows else rows)"

definition csv_cell :: "(string \<Rightarrow> 'a option) \<Rightarrow> nat \<Rightarrow> string list \<Rightarrow> 'a option" where
  "csv_cell parse col row = (if col < length row then parse (row ! col) else None)"

definition csv_reference :: "(string \<Rightarrow> 'a option) \<Rightarrow> string \<Rightarrow> nat \<Rightarrow> bool \<Rightarrow> char \<Rightarrow> disk \<Rightarrow> 'a list option" where
  "csv_reference parse path col has_header d dk =
     (case dk_files dk path of None \<Rightarrow> None
      | Some bs \<Rightarrow> those (map (csv_cell parse col) (csv_table has_header d (bytes_string bs))))"

lemma split_on_not_Nil: "split_on d s \<noteq> []"
  by (subst split_on.simps) (simp add: Let_def)

lemma find_char_eq:
  "find_char d start line =
     (let t = takeWhile (\<lambda>c. c \<noteq> d) (drop start line) in
      if length t = length (drop start line) then None else Some (start + length t))"
proof -
  have "length (takeWhile (\<lambda>c. c \<noteq> d) (drop start line)) \<le> length line - start" using length_takeWhile_le [of "\<lambda>c. c \<noteq> d" "drop start line"] by simp
  then show ?thesis by (auto simp: find_char_def Let_def)
qed

lemma first_field: "substr line start (field_end d line start) = split_on d (drop start line) ! 0"
proof -
  let ?s = "drop start line" and ?t = "takeWhile (\<lambda>c. c \<noteq> d) (drop start line)"
  have t: "take (length ?t) ?s = ?t" by (metis takeWhile_eq_take)
  have "split_on d ?s ! 0 = ?t" by (subst split_on.simps) (simp add: Let_def)
  moreover have "substr line start (field_end d line start) = ?t"
  proof (cases "length ?t = length ?s")
    case True
    then have "take (length ?s) ?s = ?t" using t by metis
    then show ?thesis using True by (simp add: field_end_def find_char_eq substr_def)
  next
    case False
    then show ?thesis using t by (simp add: field_end_def find_char_eq substr_def)
  qed
  ultimately show ?thesis by simp
qed

lemma walk_fields_split:
  "case walk_fields col d line start of
     None \<Rightarrow> length (split_on d (drop start line)) \<le> col
   | Some b \<Rightarrow> col < length (split_on d (drop start line)) \<and> split_on d (drop b line) = drop col (split_on d (drop start line))"
proof (induction col d line start rule: walk_fields.induct)
  case (1 d line start)
  then show ?case using split_on_not_Nil by simp
next
  case (2 n d line start)
  show ?case
  proof (cases "find_char d start line")
    case None
    then have "split_on d (drop start line) = [takeWhile (\<lambda>c. c \<noteq> d) (drop start line)]"
      by (subst split_on.simps) (simp add: find_char_eq Let_def split: if_splits)
    then show ?thesis using None by simp
  next
    case (Some comma)
    then have "split_on d (drop start line) = takeWhile (\<lambda>c. c \<noteq> d) (drop start line) # split_on d (drop (comma + 1) line)"
      by (subst split_on.simps) (auto simp: find_char_eq Let_def add.commute add.left_commute split: if_splits)
    then show ?thesis using 2 [OF Some] Some by (simp split: option.splits)
  qed
qed

lemma csv_cell_walk:
  "csv_cell cell col (split_on d line) =
     (case walk_fields col d line 0 of None \<Rightarrow> None | Some start \<Rightarrow> cell (substr line start (field_end d line start)))"
  using walk_fields_split [where col = col and d = d and line = line and start = 0] hd_drop_conv_nth [of col "split_on d line"]
  by (auto simp: csv_cell_def first_field hd_conv_nth split: option.splits)

lemma walk_fields_le: "walk_fields col d line start = Some b \<Longrightarrow> start \<le> length line \<Longrightarrow> b \<le> length line"
proof (induction col d line start rule: walk_fields.induct)
  case (2 n d line start)
  then obtain comma where "find_char d start line = Some comma" "walk_fields n d line (comma + 1) = Some b" by (auto split: option.splits)
  moreover from this(1) have "comma + 1 \<le> length line" by (auto simp: find_char_def Let_def split: if_splits)
  ultimately show ?case using "2.IH" by blast
qed simp

lemma csv_loop_rows:
  assumes "\<And>line start. start \<le> length line \<Longrightarrow> parse line start (field_end d line start) = cell (substr line start (field_end d line start))"
  shows "csv_loop parse col has_header d False lines out = map_option (\<lambda>vs. out @ vs) (those (map (\<lambda>line. csv_cell cell col (split_on d (strip_cr line))) lines))"
proof (induction lines arbitrary: out)
  case (Cons line lines)
  show ?case
  proof (cases "walk_fields col d (strip_cr line) 0")
    case None
    then show ?thesis by (simp add: csv_cell_walk)
  next
    case (Some start)
    note p = assms [OF walk_fields_le [OF Some le0]]
    show ?thesis using Cons Some by (auto simp: csv_cell_walk p Let_def option.map_comp comp_def split: option.splits)
  qed
qed simp

lemma read_csv_reference:
  assumes "\<And>line start. start \<le> length line \<Longrightarrow> parse line start (field_end d line start) = cell (substr line start (field_end d line start))"
  shows "read_csv parse path col has_header d dk = csv_reference cell path col has_header d dk"
proof (cases "dk_files dk path")
  case (Some bs)
  note rows = csv_loop_rows [of parse d cell col, OF assms]
  have "csv_loop parse col has_header d True lines [] = those (map (csv_cell cell col)
      (let rows = map (\<lambda>line. split_on d (strip_cr line)) lines in if has_header then tl rows else rows))" for lines
  proof (cases "has_header")
    case True
    then show ?thesis by (cases lines) (simp_all add: rows option.map_ident comp_def)
  next
    case False
    have "csv_loop parse col False d True lines [] = csv_loop parse col False d False lines []" by (cases lines) simp_all
    then show ?thesis using False by (simp add: rows option.map_ident comp_def)
  qed
  then show ?thesis using Some by (simp add: read_csv_def csv_reference_def csv_table_def)
qed (simp add: read_csv_def csv_reference_def)

section \<open>Where a number ends\<close>

text \<open>A character that no part of a number contains ends it: a comma, or the zero byte.\<close>

definition stops_number :: "char \<Rightarrow> bool" where
  "stops_number c \<longleftrightarrow> \<not> isspace c \<and> \<not> is_digit c \<and> hex_digit c = None \<and> toupper c = c \<and>
     \<not> (65 \<le> (of_char c :: nat) \<and> (of_char c :: nat) \<le> 90) \<and> c \<notin> set ''+-.()_INFTYAXEP0''"

lemma stops_number_simps [simp]: "stops_number (CHR '','')" "stops_number (CHR 0x00)"
  by (simp_all add: stops_number_def isspace_def is_digit_def hex_digit_def toupper_def)

lemma while_stop:
  assumes "\<not> P c"
  shows "takeWhile P (f @ c # r) = takeWhile P f" "dropWhile P (f @ c # r) = dropWhile P f @ c # r"
  using assms by (induction f) simp_all

lemma drop_take_stop: "drop (length (takeWhile P f)) (f @ g) = drop (length (takeWhile P f)) f @ g"
  using length_takeWhile_le [of P f] by simp

lemma sign_of_stop: "stops_number c \<Longrightarrow> sign_of (f @ c # r) = (fst (sign_of f), snd (sign_of f) @ c # r)"
  by (cases f) (auto simp: sign_of_def stops_number_def)

lemma mantissa_stop:
  assumes "stops_number c" "\<not> dig c"
  shows "mantissa dig (f @ c # r) = (fst (mantissa dig f), fst (snd (mantissa dig f)), snd (snd (mantissa dig f)) @ c # r)"
proof -
  have h: "s @ c # r \<noteq> [] \<and> hd (s @ c # r) = CHR ''.'' \<and> (a \<noteq> [] \<or> (tl (s @ c # r) \<noteq> [] \<and> dig (hd (tl (s @ c # r))))) \<longleftrightarrow>
      s \<noteq> [] \<and> hd s = CHR ''.'' \<and> (a \<noteq> [] \<or> (tl s \<noteq> [] \<and> dig (hd (tl s))))" for s a :: string
    using assms by (cases s; cases "tl s") (auto simp: stops_number_def)
  show ?thesis
    unfolding mantissa_def Let_def while_stop [of dig, OF assms(2)] drop_take_stop h
    by (auto simp: while_stop [of dig, OF assms(2)] drop_take_stop simp del: drop_append drop_eq_Nil)
qed

lemma exponent_stop:
  assumes "stops_number c" "c \<noteq> e"
  shows "exponent e (f @ c # r) = (fst (exponent e f), snd (exponent e f) @ c # r)"
proof -
  have d: "\<not> is_digit c" "toupper c = c" using assms(1) by (simp_all add: stops_number_def)
  show ?thesis
    using assms(2) by (cases f) (simp_all add: exponent_def d Let_def sign_of_stop [OF assms(1)] while_stop [of is_digit, OF d(1)] drop_take_stop del: drop_append split: prod.split)
qed

lemma starts_with_stop:
  assumes "stops_number c" "c \<notin> set p"
  shows "starts_with p (f @ c # r) \<longleftrightarrow> starts_with p f"
proof (cases "length p \<le> length f")
  case True
  then show ?thesis by (simp add: starts_with_def)
next
  case False
  have u: "toupper c = c" using assms(1) by (simp add: stops_number_def)
  have "c \<in> set (up (take (length p) (f @ c # r)))"
    using False u by (auto simp: up_def take_Cons' image_iff intro: exI [of _ c])
  moreover have "length (up (take (length p) f)) \<noteq> length p" using False by (simp add: up_def)
  ultimately show ?thesis using assms(2) unfolding starts_with_def by metis
qed

lemma starts_with_length: "starts_with p f \<Longrightarrow> length p \<le> length f"
  unfolding starts_with_def up_def by (metis length_map length_take min.cobounded1 min_def)

definition nan_tail :: "(char \<Rightarrow> bool) \<Rightarrow> string \<Rightarrow> string" where
  "nan_tail al s =
     (if s \<noteq> [] \<and> hd s = CHR ''('' \<and> drop (length (takeWhile al (tl s))) (tl s) \<noteq> [] \<and> hd (drop (length (takeWhile al (tl s))) (tl s)) = CHR '')''
      then tl (drop (length (takeWhile al (tl s))) (tl s)) else s)"

lemma nan_tail_stop:
  assumes "\<not> al c" "c \<noteq> CHR ''(''" "c \<noteq> CHR '')''"
  shows "nan_tail al (s @ c # r) = nan_tail al s @ c # r"
proof (cases s)
  case Nil
  then show ?thesis using assms(2) by (simp add: nan_tail_def)
next
  case (Cons x xs)
  obtain rest where rest: "rest = drop (length (takeWhile al xs)) xs" by blast
  then have "drop (length (takeWhile al (xs @ c # r))) (xs @ c # r) = rest @ c # r"
    by (simp only: while_stop [of al, OF assms(1)] drop_take_stop)
  then show ?thesis using Cons rest [symmetric] assms(3) by (cases rest) (simp_all add: nan_tail_def del: drop_append drop_eq_Nil)
qed

lemma strtod_stop:
  assumes "stops_number c"
  shows "strtod (f @ c # r) = map_option (\<lambda>(v, erange, rest). (v, erange, rest @ c # r)) (strtod f)"
proof -
  define neg s1 where "neg = fst (sign_of (dropWhile isspace f))" and "s1 = snd (sign_of (dropWhile isspace f))"
  have sp: "\<not> isspace c" "\<not> is_digit c" "hex_digit c = None" "toupper c = c" using assms by (simp_all add: stops_number_def)
  have s: "sign_of (dropWhile isspace f) = (neg, s1)" "sign_of (dropWhile isspace (f @ c # r)) = (neg, s1 @ c # r)"
    by (simp_all add: neg_def s1_def while_stop [of isspace, OF sp(1)] sign_of_stop [OF assms])
  have p: "starts_with ''INF'' (s1 @ c # r) = starts_with ''INF'' s1" "starts_with ''INFINITY'' (s1 @ c # r) = starts_with ''INFINITY'' s1"
    "starts_with ''NAN'' (s1 @ c # r) = starts_with ''NAN'' s1" "starts_with ''0X'' (s1 @ c # r) = starts_with ''0X'' s1"
    using assms by (auto simp: starts_with_stop stops_number_def)
  note len = starts_with_length [of "''INF''" s1] starts_with_length [of "''INFINITY''" s1] starts_with_length [of "''NAN''" s1] starts_with_length [of "''0X''" s1]
  let ?al = "\<lambda>c. is_digit c \<or> (65 \<le> (of_char (toupper c) :: nat) \<and> (of_char (toupper c) :: nat) \<le> 90) \<or> c = CHR ''_''"
  have al: "\<not> ?al c" using sp assms by (simp add: stops_number_def)
  let ?hex = "\<lambda>x. hex_digit x \<noteq> None"
  have paren: "c \<noteq> CHR ''(''" "c \<noteq> CHR '')''" using assms by (simp_all add: stops_number_def)
  show ?thesis
  proof (cases "starts_with ''INF'' s1")
    case True
    have "drop 3 (s1 @ c # r) = drop 3 s1 @ c # r" using len(1) [OF True] by simp
    moreover have "drop 8 (s1 @ c # r) = drop 8 s1 @ c # r" if "starts_with ''INFINITY'' s1" using len(2) [OF that] by simp
    ultimately show ?thesis using True by (auto simp: strtod_def s p simp del: drop_append)
  next
    case inf: False
    show ?thesis
    proof (cases "starts_with ''NAN'' s1")
      case True
      have d: "drop 3 (s1 @ c # r) = drop 3 s1 @ c # r" using len(3) [OF True] by simp
      have n: "strtod x = Some (if neg then f64_nan else f64_quiet_nan, False, nan_tail ?al (drop 3 y))"
        if "sign_of (dropWhile isspace x) = (neg, y)" "\<not> starts_with ''INF'' y" "starts_with ''NAN'' y" for x y
        unfolding strtod_def that(1) Let_def prod.case nan_tail_def by (simp only: that if_True if_False)
      show ?thesis using n [OF s(1)] n [OF s(2)] inf True nan_tail_stop [of ?al c, OF al paren, of "drop 3 s1" r]
        unfolding p d by (simp only: simp_thms option.map prod.case)
    next
      case False
      have m: "mantissa is_digit (s1 @ c # r) = (fst (mantissa is_digit s1), fst (snd (mantissa is_digit s1)), snd (snd (mantissa is_digit s1)) @ c # r)"
        using sp assms by (intro mantissa_stop)
      have h: "mantissa ?hex (drop 2 (s1 @ c # r)) = (fst (mantissa ?hex (drop 2 s1)),
          fst (snd (mantissa ?hex (drop 2 s1))), snd (snd (mantissa ?hex (drop 2 s1))) @ c # r)"
        if "starts_with ''0X'' s1" using sp len(4) [OF that] mantissa_stop [OF assms, of "?hex" "drop 2 s1"] by simp
      have e: "exponent (CHR ''E'') (x @ c # r) = (fst (exponent (CHR ''E'') x), snd (exponent (CHR ''E'') x) @ c # r)"
        "exponent (CHR ''P'') (x @ c # r) = (fst (exponent (CHR ''P'') x), snd (exponent (CHR ''P'') x) @ c # r)" for x
        using assms by (simp_all add: exponent_stop stops_number_def)
      show ?thesis
      proof (cases "starts_with ''0X'' s1")
        case True
        then show ?thesis using inf False by (simp add: strtod_def s p h [OF True] m e Let_def case_prod_unfold del: drop_append not_None_eq)
      next
        case nohex: False
        then show ?thesis using inf False by (simp add: strtod_def s p m e Let_def case_prod_unfold del: drop_append not_None_eq)
      qed
    qed
  qed
qed

text \<open>With the default delimiter the double reader accepts exactly the fields that are a number as a whole.\<close>

lemma parse_f64_alt: "parse_f64 s = (case strtod s of None \<Rightarrow> None | Some (v, erange, rest) \<Rightarrow> if erange \<or> rest \<noteq> [] then None else Some v)"
  by (auto simp: parse_f64_def split: option.splits list.splits bool.splits)

lemma csv_f64_prefix:
  assumes "S = f \<or> (\<exists>r. S = f @ CHR '','' # r)" "f \<noteq> []"
  shows "(let t = takeWhile (\<lambda>c. c \<noteq> CHR 0x00) S in
      case strtod t of None \<Rightarrow> None | Some (v, erange, rest) \<Rightarrow> if erange \<or> length t - length rest \<noteq> length f then None else Some v) = parse_f64 f"
proof (cases "CHR 0x00 \<in> set f")
  case True
  then obtain g h where g: "f = g @ CHR 0x00 # h" "CHR 0x00 \<notin> set g" by (meson split_list_first)
  then have "takeWhile (\<lambda>c. c \<noteq> CHR 0x00) g = g" by (auto simp: takeWhile_eq_all_conv)
  note w = this
  obtain k where S: "S = g @ CHR 0x00 # k" using assms(1) g(1) by (elim disjE exE) simp_all
  have t: "takeWhile (\<lambda>c. c \<noteq> CHR 0x00) S = g"
    unfolding S using while_stop(1) [of "\<lambda>c. c \<noteq> CHR 0x00" "CHR 0x00" g k] w by (metis (mono_tags, lifting))
  show ?thesis unfolding t parse_f64_alt g(1) Let_def strtod_stop [OF stops_number_simps(2)]
    by (auto split: option.splits)
next
  case False
  then have f: "takeWhile (\<lambda>c. c \<noteq> CHR 0x00) f = f" by (auto simp: takeWhile_eq_all_conv)
  have z: "length f - length rest = length f \<longleftrightarrow> rest = []" for rest :: string using assms(2) by (cases f; cases rest) auto
  from assms(1) show ?thesis
  proof
    assume S: "S = f"
    show ?thesis unfolding S f parse_f64_alt Let_def z by (rule refl)
  next
    assume "\<exists>r. S = f @ CHR '','' # r"
    then obtain r where "S = f @ CHR '','' # r" by blast
    moreover have "takeWhile (\<lambda>c. c \<noteq> CHR 0x00) (f @ s) = f @ takeWhile (\<lambda>c. c \<noteq> CHR 0x00) s" for s
      by (rule takeWhile_append2) (use False in auto)
    ultimately have "takeWhile (\<lambda>c. c \<noteq> CHR 0x00) S = f @ CHR '','' # takeWhile (\<lambda>c. c \<noteq> CHR 0x00) r" by simp
    then show ?thesis using z by (auto simp: Let_def parse_f64_alt strtod_stop split: option.splits)
  qed
qed

lemma csv_f64_field:
  assumes "start \<le> length line"
  shows "csv_f64 line start (field_end (CHR '','') line start) =
     (let s = substr line start (field_end (CHR '','') line start) in if s = [] then None else parse_f64 s)"
proof -
  let ?S = "drop start line" and ?fin = "field_end (CHR '','') line start"
  define f where "f = takeWhile (\<lambda>c. c \<noteq> CHR '','') ?S"
  have S: "?S = f \<or> (\<exists>r. ?S = f @ CHR '','' # r)"
  proof (cases "dropWhile (\<lambda>c. c \<noteq> CHR '','') ?S")
    case Nil
    then show ?thesis unfolding f_def by (metis append_Nil2 takeWhile_dropWhile_id)
  next
    case (Cons x r)
    then have "x = CHR '',''" using hd_dropWhile [of "\<lambda>c. c \<noteq> CHR '',''" ?S] by simp
    then have "?S = f @ CHR '','' # r" using takeWhile_dropWhile_id [of "\<lambda>c. c \<noteq> CHR '',''" ?S] Cons by (simp add: f_def)
    then show ?thesis by blast
  qed
  have fin: "?fin = start + length f" using assms by (auto simp: field_end_def find_char_eq f_def [symmetric])
  have sub: "substr line start ?fin = f" using S unfolding fin substr_def by auto
  show ?thesis
  proof (cases "f = []")
    case True
    then show ?thesis using fin sub by (simp add: csv_f64_def)
  next
    case False
    have "csv_f64 line start ?fin = (let t = takeWhile (\<lambda>c. c \<noteq> CHR 0x00) ?S in
      case strtod t of None \<Rightarrow> None | Some (v, erange, rest) \<Rightarrow> if erange \<or> length t - length rest \<noteq> length f then None else Some v)"
      using False unfolding csv_f64_def fin by (simp add: Let_def split: option.split prod.split)
    then show ?thesis using csv_f64_prefix [OF S False] False by (simp add: sub)
  qed
qed

section \<open>The readers meet the reference\<close>

text \<open>
  C31. The CSV readers compute the column of the table. Walking to the field of every line gives what
  splitting the text into lines and fields and parsing the requested field of every row gives: all
  of them in order, or failure when the file is missing, a row is too short or a field is not a number of
  the type as a whole (for doubles with the default delimiter, an empty field is not a number).
\<close>

theorem csv_readers_correct:
  "matrix_read_csv_column path col has_header d dk = csv_reference parse_u32 path col has_header d dk \<and>
   matrix_read_csv_column_i64 path col has_header d dk = csv_reference parse_i64 path col has_header d dk \<and>
   matrix_read_csv_column_str path col has_header d dk = csv_reference Some path col has_header d dk \<and>
   matrix_read_csv_column_f64 path col has_header (CHR '','') dk = csv_reference (\<lambda>s. if s = [] then None else parse_f64 s) path col has_header (CHR '','') dk"
  unfolding matrix_read_csv_column_def matrix_read_csv_column_i64_def matrix_read_csv_column_str_def matrix_read_csv_column_f64_def
  by (intro conjI read_csv_reference) (simp_all add: csv_f64_field Let_def)

text \<open>A file that cannot be read leaves the catalog as it was; one that can becomes a column.\<close>

lemma csv_load_graceful:
  assumes "matrix_read_csv_column path col has_header d dk = None"
  shows "load_column_from_csv cid path col has_header d dk ce = Some (False, ce)"
  using assms by (simp add: load_column_from_csv_def)

end
