(* ===== verification/CLI.thy ===== *)
theory CLI
  imports CSV_Ingest
begin

text \<open>
  The shell (\<open>matrix_cli.hpp\<close>): formatting of values, the router of query lines
  (\<open>matrix_cli_run_sql\<close>) and the read-eval-print loop (\<open>matrix_repl\<close>). Output is the text that is
  written, byte by byte; \<open>clk\<close> gives what the clock measures for the queries of a line. \<open>None\<close> is an
  abort of the process.
\<close>

section \<open>Numbers as text\<close>

text \<open>\<open>std::to_string\<close> and \<open>operator<<\<close> for integers.\<close>

fun show_nat :: "nat \<Rightarrow> string" where
  "show_nat n = (if n < 10 then [char_of (48 + n)] else show_nat (n div 10) @ [char_of (48 + n mod 10)])"

declare show_nat.simps [simp del]

definition show_u64 :: "u64 \<Rightarrow> string" where
  "show_u64 v = show_nat (unat v)"

definition show_i64 :: "u64 \<Rightarrow> string" where
  "show_i64 v = (let i = sint v in if i < 0 then CHR ''-'' # show_nat (nat (- i)) else show_nat (nat i))"

text \<open>
  \<open>operator<<\<close> for \<open>double\<close> in the default format, six significant digits: \<open>dec_expo n d\<close> is the decimal
  exponent of the quotient \<open>n / d\<close>, and the digits are its mantissa rounded to even.
\<close>

fun neg_expo :: "nat \<Rightarrow> nat \<Rightarrow> nat \<Rightarrow> nat" where
  "neg_expo 0 n d = 0"
| "neg_expo (Suc k) n d = (if d \<le> n then 0 else Suc (neg_expo k (10 * n) d))"

definition dec_expo :: "nat \<Rightarrow> nat \<Rightarrow> int" where
  "dec_expo n d = (if d \<le> n then int (length (show_nat (n div d))) - 1 else - int (neg_expo 400 n d))"

definition strip_zeros :: "string \<Rightarrow> string" where
  "strip_zeros s = rev (dropWhile (\<lambda>c. c = CHR ''0'') (rev s))"

definition with_point :: "string \<Rightarrow> string \<Rightarrow> string" where
  "with_point a b = (let b = strip_zeros b in if b = [] then a else a @ CHR ''.'' # b)"

definition show_pos :: "nat \<Rightarrow> nat \<Rightarrow> string" where
  "show_pos n d =
     (let e0 = dec_expo n d;
          q0 = (if e0 \<le> 5 then round_half_even (n * 10 ^ nat (5 - e0)) d else round_half_even n (d * 10 ^ nat (e0 - 5)));
          (q, e) = (if q0 = 1000000 then (100000, e0 + 1) else (q0, e0));
          ds = show_nat q in
      if e < -4 \<or> 6 \<le> e then
        with_point (take 1 ds) (drop 1 ds) @ CHR ''e'' # (if e < 0 then CHR ''-'' else CHR ''+'') #
          (let x = show_nat (nat \<bar>e\<bar>) in if length x < 2 then CHR ''0'' # x else x)
      else if e < 0 then with_point ''0'' (replicate (nat (- e - 1)) (CHR ''0'') @ ds)
      else with_point (take (nat e + 1) ds) (drop (nat e + 1) ds))"

definition show_f64 :: "f64 \<Rightarrow> string" where
  "show_f64 x =
     (if f64_sign x then ''-'' else []) @
     (if f64_is_nan x then ''nan'' else if f64_is_inf x then ''inf''
      else if f64_mag x = 0 then ''0'' else show_pos (f64_mag x) (2 ^ 1074))"

section \<open>Words\<close>

definition cli_blank :: "char \<Rightarrow> bool" where
  "cli_blank c \<longleftrightarrow> c = CHR '' '' \<or> c = CHR 0x09 \<or> c = CHR 0x0D \<or> c = CHR 0x0A"

definition cli_trim :: "string \<Rightarrow> string" where
  "cli_trim s = rev (dropWhile cli_blank (rev (dropWhile cli_blank s)))"

function split_ws :: "string \<Rightarrow> string list" where
  "split_ws s =
     (let s1 = dropWhile isspace s in
      if s1 = [] then [] else takeWhile (\<lambda>c. \<not> isspace c) s1 # split_ws (dropWhile (\<lambda>c. \<not> isspace c) s1))"
  by pat_completeness auto

termination
proof (relation "measure length")
  fix s s1 :: string assume s1: "s1 = dropWhile isspace s" "s1 \<noteq> []"
  then have "\<not> isspace (hd s1)" using hd_dropWhile [of isspace s] by auto
  then have "dropWhile (\<lambda>c. \<not> isspace c) s1 = dropWhile (\<lambda>c. \<not> isspace c) (tl s1)" using s1(2) by (cases s1) auto
  then have "length (dropWhile (\<lambda>c. \<not> isspace c) s1) < length s1"
    using length_dropWhile_le [of "\<lambda>c. \<not> isspace c" "tl s1"] s1(2) by (cases s1) auto
  also have "length s1 \<le> length s" using s1(1) by (simp add: length_dropWhile_le)
  finally show "(dropWhile (\<lambda>c. \<not> isspace c) s1, s) \<in> measure length" by simp
qed simp

declare split_ws.simps [simp del]

definition has_text :: "string \<Rightarrow> string \<Rightarrow> bool" where
  "has_text pat s \<longleftrightarrow> find_substring pat 0 s \<noteq> None"

definition type_name :: "matrix_type \<Rightarrow> string" where
  "type_name t = (case t of TI64 \<Rightarrow> ''i64'' | TF64 \<Rightarrow> ''f64'' | U32 \<Rightarrow> ''u32'')"

definition tier_name :: "memory_space \<Rightarrow> string" where
  "tier_name m = (case m of DEVICE \<Rightarrow> ''DEVICE'' | COLD \<Rightarrow> ''COLD'' | UNIFIED \<Rightarrow> ''UNIFIED'' | HOST \<Rightarrow> ''HOST'')"

section \<open>Values as text\<close>

definition decode_num :: "catalog_engine \<Rightarrow> u64 \<Rightarrow> u64 \<Rightarrow> string" where
  "decode_num ce col v = (case column_type ce col of TI64 \<Rightarrow> show_i64 v | TF64 \<Rightarrow> show_f64 (F64 v) | U32 \<Rightarrow> show_u64 v)"

definition decode_agg :: "catalog_engine \<Rightarrow> matrix_query \<Rightarrow> u64 \<Rightarrow> string" where
  "decode_agg ce q v = (if q_agg q = AGG_COUNT then show_u64 v else decode_num ce (q_value_col q) v)"

definition decode_proj :: "catalog_engine \<Rightarrow> u64 \<Rightarrow> u64 \<Rightarrow> string" where
  "decode_proj ce col v = (if string_dict_size ce col > 0 then string_decode ce col (ucast v) else decode_num ce col v)"

definition group_label :: "catalog_engine \<Rightarrow> u64 \<Rightarrow> u64 \<Rightarrow> string" where
  "group_label ce key g = (if string_dict_size ce key > 0 then string_decode ce key (ucast g) else show_u64 g)"

definition f64_max :: f64 where "f64_max = F64 0x7FEFFFFFFFFFFFFF"
definition f64_lowest :: f64 where "f64_lowest = F64 0xFFEFFFFFFFFFFFFF"

text \<open>The sum of \<open>int64_t\<close> values wraps as the compiled addition does.\<close>

definition reduce_agg :: "catalog_engine \<Rightarrow> u64 \<Rightarrow> agg_op \<Rightarrow> u64 list \<Rightarrow> string \<times> f64" where
  "reduce_agg ce col agg vals =
     (if agg = AGG_COUNT then (show_nat (length vals), f64_of_int (int (length vals)))
      else case column_type ce col of
        TF64 \<Rightarrow>
          let init = (if agg = AGG_SUM then f64_zero else if agg = AGG_MIN then f64_max else f64_lowest);
              step = (\<lambda>v acc. let d = F64 v in
                if agg = AGG_SUM then f64_add acc d else if agg = AGG_MIN then (if f64_lt d acc then d else acc) else (if f64_lt acc d then d else acc));
              acc = (if vals = [] then f64_zero else fold step vals init) in (show_f64 acc, acc)
      | TI64 \<Rightarrow>
          let init = (if agg = AGG_SUM then 0 else if agg = AGG_MIN then 0x7FFFFFFFFFFFFFFF else 0x8000000000000000);
              step = (\<lambda>s acc. if agg = AGG_SUM then acc + s else if agg = AGG_MIN then (if s <s acc then s else acc) else (if acc <s s then s else acc));
              acc = (if vals = [] then 0 else fold step vals init) in (show_i64 acc, f64_of_int (sint acc))
      | U32 \<Rightarrow>
          let init = (if agg = AGG_SUM then 0 else if agg = AGG_MIN then UINT64_MAX else 0);
              step = (\<lambda>v acc. let u = v AND 0xFFFFFFFF in
                if agg = AGG_SUM then acc + u else if agg = AGG_MIN then (if u < acc then u else acc) else (if acc < u then u else acc));
              acc = (if vals = [] then 0 else fold step vals init) in (show_u64 acc, f64_of_u64 acc))"

section \<open>Tables\<close>

definition SEP :: string where "SEP = [CHR '' '', CHR 0xE2, CHR 0x94, CHR 0x82, CHR '' '']"
definition newline :: string where "newline = [CHR 0x0A]"

text \<open>An occurrence of the separator lies within the line.\<close>

lemma find_from_bound: "find_from pat i s = Some j \<Longrightarrow> i \<le> j \<and> j + length pat \<le> i + length s"
proof (induction pat i s rule: find_from.induct)
  case (2 pat i c s)
  show ?case
  proof (cases "take (length pat) (c # s) = pat")
    case True
    then have "length pat \<le> length (c # s)" by (metis length_take min.absorb_iff2 min.commute)
    then show ?thesis using 2(2) True by simp
  qed (use 2 in auto)
qed (simp split: if_splits)

text \<open>The pieces of a line between separators; a line without one is a single piece.\<close>

function split_sep :: "string \<Rightarrow> string list" where
  "split_sep s = (case find_substring SEP 0 s of None \<Rightarrow> [s] | Some i \<Rightarrow> take i s # split_sep (drop (i + 5) s))"
  by pat_completeness auto

termination
proof (relation "measure length")
  fix s i assume "find_substring SEP 0 s = Some i"
  then have "i + 5 \<le> length s" using find_from_bound [of SEP 0 s i] by (simp add: find_substring_def SEP_def)
  then show "(drop (i + 5) s, s) \<in> measure length" by simp
qed simp

declare split_sep.simps [simp del]

definition column_width :: "string list list \<Rightarrow> nat \<Rightarrow> nat" where
  "column_width cells c = Max (insert 0 (set (map (\<lambda>f. length (f ! c)) (filter (\<lambda>f. c < length f) cells))))"

definition align_row :: "(nat \<Rightarrow> nat) \<Rightarrow> string list \<Rightarrow> string" where
  "align_row width f =
     concat (map (\<lambda>c. (if c = 0 then [] else SEP) @ f ! c @
       (if c + 1 < length f then replicate (width c - length (f ! c)) (CHR '' '') else [])) [0..<length f])"

definition align_table :: "string \<Rightarrow> string" where
  "align_table text =
     (let lines = getlines text; cells = map split_sep (filter (has_text SEP) lines) in
      concat (map (\<lambda>l. (if has_text SEP l then align_row (column_width cells) (split_sep l) else l) @ newline) lines))"

section \<open>Joins\<close>

datatype out_mode = LIST | CSV | TABLE

definition field_sep :: "out_mode \<Rightarrow> string" where
  "field_sep m = (if m = CSV then '','' else SEP)"

definition error_line :: "string \<Rightarrow> 'e \<Rightarrow> (string \<times> 'e) option" where
  "error_line msg ce = Some (''Error: '' @ msg @ newline, ce)"

text \<open>A string as the C library sees it, \<open>strtoull\<close> in base ten, and \<open>strtod\<close> for its value only.\<close>

definition c_str :: "string \<Rightarrow> string" where
  "c_str s = takeWhile (\<lambda>c. c \<noteq> CHR 0x00) s"

definition strtoull :: "string \<Rightarrow> u64" where
  "strtoull s =
     (let (neg, s1) = sign_of (dropWhile isspace (c_str s)); ds = takeWhile is_digit s1; v = digits_value ds in
      if ds = [] then 0 else if 2 ^ 64 \<le> v then UINT64_MAX else if neg then - of_nat v else of_nat v)"

definition strtod_value :: "string \<Rightarrow> f64" where
  "strtod_value s = (case strtod (c_str s) of None \<Rightarrow> f64_zero | Some (v, _, _) \<Rightarrow> v)"

datatype join_post = POST_NONE | POST_HAVING string f64 | POST_TOPN nat

text \<open>The clauses after the join keys: the group column (0 for none) and what happens to the groups.\<close>

definition join_tail :: "catalog_engine \<Rightarrow> string list \<Rightarrow> nat \<Rightarrow> string + (u64 \<times> join_post)" where
  "join_tail ce tk ji =
     (let ntail = length tk - (ji + 4) in
      if ntail = 0 then Inr (0, POST_NONE)
      else if ntail < 3 \<or> up (tk ! (ji + 4)) \<noteq> ''GROUP'' \<or> up (tk ! (ji + 5)) \<noteq> ''BY'' then Inl ''could not parse join GROUP BY (... GROUP BY rcol)''
      else let gcol = column_id ce (tk ! (ji + 6)) in
        if gcol = 0 then Inl ''unknown GROUP BY column in join''
        else if ntail = 3 then Inr (gcol, POST_NONE)
        else if ntail = 7 \<and> up (tk ! (ji + 7)) = ''HAVING'' then
          let hop = tk ! (ji + 9) in
          if cmp_of hop = None then Inl ''bad HAVING comparison (use > >= < <= = !=)''
          else Inr (gcol, POST_HAVING hop (strtod_value (tk ! (ji + 10))))
        else if ntail = 9 \<and> up (tk ! (ji + 7)) = ''ORDER'' \<and> up (tk ! (ji + 8)) = ''BY'' \<and> up (tk ! (ji + 11)) = ''LIMIT'' then
          Inr (gcol, POST_TOPN (unat (strtoull (tk ! (ji + 12)))))
        else Inl ''could not parse join GROUP BY clause (HAVING agg <cmp> v | ORDER BY agg DESC LIMIT n)'')"

definition having_holds :: "string \<Rightarrow> f64 \<Rightarrow> f64 \<Rightarrow> bool" where
  "having_holds hop x thr =
     (if hop = ''>'' then f64_lt thr x else if hop = ''>='' then f64_le thr x
      else if hop = ''<'' then f64_lt x thr else if hop = ''<='' then f64_le x thr
      else if hop = ''='' then f64_eq x thr else \<not> f64_eq x thr)"

text \<open>\<open>std::stable_sort\<close> by descending aggregate.\<close>

fun insert_desc :: "string \<times> string \<times> f64 \<Rightarrow> (string \<times> string \<times> f64) list \<Rightarrow> (string \<times> string \<times> f64) list" where
  "insert_desc x [] = [x]"
| "insert_desc x (y # ys) = (if f64_lt (snd (snd x)) (snd (snd y)) then y # insert_desc x ys else x # y # ys)"

definition post_rows :: "join_post \<Rightarrow> (string \<times> string \<times> f64) list \<Rightarrow> (string \<times> string \<times> f64) list" where
  "post_rows post rows =
     (case post of POST_NONE \<Rightarrow> rows
      | POST_HAVING hop thr \<Rightarrow> filter (\<lambda>r. having_holds hop (snd (snd r)) thr) rows
      | POST_TOPN n \<Rightarrow> take n (foldr insert_desc rows []))"

definition buckets :: "u64 list \<Rightarrow> u64 list \<Rightarrow> (u64 \<times> u64 list) list" where
  "buckets gv lv = fold (\<lambda>(g, v) m. om_upd g (the_default [] (map_of m g) @ [v]) m) (zip gv lv) []"

definition join_rows :: "bool \<Rightarrow> u64 \<Rightarrow> u64 \<Rightarrow> catalog_engine \<Rightarrow> ((u64 \<times> u64) list \<times> catalog_engine) option" where
  "join_rows wide lkey rkey ce = (if wide then hash_join_i64 lkey rkey ce else hash_join lkey rkey ce)"

definition join_aggregate :: "bool \<Rightarrow> u64 \<Rightarrow> u64 \<Rightarrow> agg_op \<Rightarrow> u64 \<Rightarrow> u64 \<Rightarrow> join_post \<Rightarrow> out_mode \<Rightarrow> catalog_engine \<Rightarrow> (string \<times> catalog_engine) option" where
  "join_aggregate wide lkey rkey agg lcol gcol post mode ce =
     do {
       (pr, ce1) \<leftarrow> join_rows wide lkey rkey ce;
       (lv, ce2) \<leftarrow> gather lcol (map fst pr) ce1;
       if gcol = 0 then Some (fst (reduce_agg ce2 lcol agg lv) @ newline, ce2)
       else do {
         (gv, ce3) \<leftarrow> gather gcol (map snd pr) ce2;
         let rows = map (\<lambda>(g, vs). (group_label ce3 gcol g, reduce_agg ce3 lcol agg vs)) (buckets gv lv);
         Some (concat (map (\<lambda>(label, txt, _). label @ field_sep mode @ txt @ newline) (post_rows post rows)), ce3)
       }
     }"

definition join_project :: "bool \<Rightarrow> u64 \<Rightarrow> u64 \<Rightarrow> u64 \<Rightarrow> u64 \<Rightarrow> u64 \<Rightarrow> out_mode \<Rightarrow> catalog_engine \<Rightarrow> (string \<times> catalog_engine) option" where
  "join_project wide lkey rkey lcol rcol limit mode ce =
     do {
       (pr, ce1) \<leftarrow> join_rows wide lkey rkey ce;
       let cap = (if limit \<noteq> 0 then unat limit else 100);
       (lv, ce2) \<leftarrow> gather lcol (map fst (take cap pr)) ce1;
       (rv, ce3) \<leftarrow> gather rcol (map snd (take cap pr)) ce2;
       Some (concat (map (\<lambda>(l, r). decode_proj ce3 lcol l @ field_sep mode @ decode_proj ce3 rcol r @ newline) (zip lv rv)) @
             (if mode = LIST \<and> cap < length pr
              then [CHR 0xE2, CHR 0x80, CHR 0xA6] @ '' ('' @ show_nat (length pr) @ '' matches, showing '' @ show_nat cap @ '')'' @ newline else []), ce3)
     }"

definition cli_join :: "string \<Rightarrow> out_mode \<Rightarrow> catalog_engine \<Rightarrow> (string \<times> catalog_engine) option" where
  "cli_join line mode ce =
     (let tk = split_ws line; ji = length (takeWhile (\<lambda>t. up t \<noteq> ''JOIN'') tk) in
      if length tk \<le> ji + 3 \<or> tk ! (ji + 2) \<noteq> ''='' then error_line ''could not parse join (SELECT a, b JOIN lk = rk [LIMIT n])'' ce
      else let lkey = column_id ce (tk ! (ji + 1)); rkey = column_id ce (tk ! (ji + 3)); kt = column_type ce lkey in
        if lkey = 0 \<or> rkey = 0 then error_line ''unknown column in join'' ce
        else if string_dict_size ce lkey > 0 \<or> string_dict_size ce rkey > 0 then
          error_line ''cannot join on string-dictionary keys (independent code spaces)'' ce
        else if kt \<noteq> column_type ce rkey \<or> kt = TF64 then error_line ''join keys must be matching u32 or i64 columns'' ce
        else let sel = join_tokens (drop 1 (take ji tk)); ntail = length tk - (ji + 4) in
          if has_text ''COUNT'' (up sel) \<and> CHR ''*'' \<in> set sel then map_option (\<lambda>(n, ce'). (show_u64 n @ newline, ce')) (hash_join_count lkey rkey ce)
          else case find_char (CHR ''('') 0 sel of
            Some lp \<Rightarrow>
              (case find_char (CHR '')'') 0 sel of None \<Rightarrow> error_line ''could not parse join aggregate (SELECT AGG(col) JOIN ...)'' ce
               | Some rp \<Rightarrow>
                   if rp < lp then error_line ''could not parse join aggregate (SELECT AGG(col) JOIN ...)'' ce
                   else let aggname = up (cli_trim (take lp sel)) in
                     (case agg_of aggname of None \<Rightarrow> error_line (''join aggregate supports COUNT/SUM/MIN/MAX (not '' @ aggname @ '')'') ce
                      | Some agg \<Rightarrow>
                          let lcol = column_id ce (cli_trim (substr sel (lp + 1) rp)) in
                          if lcol = 0 then error_line ''unknown aggregate column in join'' ce
                          else case join_tail ce tk ji of Inl msg \<Rightarrow> error_line msg ce
                            | Inr (gcol, post) \<Rightarrow> join_aggregate (kt = TI64) lkey rkey agg lcol gcol post mode ce))
          | None \<Rightarrow>
              if ntail > 0 \<and> (ntail \<noteq> 2 \<or> up (tk ! (ji + 4)) \<noteq> ''LIMIT'') then error_line ''could not parse join (trailing tokens)'' ce
              else (case find_char (CHR '','') 0 sel of None \<Rightarrow> error_line ''join projection needs two columns: SELECT lcol, rcol JOIN ...'' ce
                | Some comma \<Rightarrow>
                    let lcol = column_id ce (cli_trim (take comma sel)); rcol = column_id ce (cli_trim (drop (comma + 1) sel)) in
                    if lcol = 0 \<or> rcol = 0 then error_line ''unknown projected column in join'' ce
                    else join_project (kt = TI64) lkey rkey lcol rcol (if ntail > 0 then strtoull (tk ! (ji + 5)) else 0) mode ce))"

section \<open>Query lines\<close>

definition cli_distinct :: "string \<Rightarrow> catalog_engine \<Rightarrow> (string \<times> catalog_engine) option" where
  "cli_distinct line ce =
     do {
       (n, ce1) \<leftarrow> distinct_query line ce;
       case n of Some n \<Rightarrow> Some (show_u64 n @ newline, ce1)
       | None \<Rightarrow> error_line ''could not run COUNT(DISTINCT) query'' ce1
     }"

definition show_groups :: "out_mode \<Rightarrow> matrix_query \<Rightarrow> (u64 \<times> u64) list \<Rightarrow> catalog_engine \<Rightarrow> string" where
  "show_groups mode q gvs ce =
     concat (map (\<lambda>(g, v). group_label ce (q_key_col q) g @ field_sep mode @ decode_agg ce q v @ newline) gvs)"

definition cli_having :: "(nat \<Rightarrow> u64) \<Rightarrow> string \<Rightarrow> out_mode \<Rightarrow> catalog_engine \<Rightarrow> (string \<times> catalog_engine) option" where
  "cli_having clk line mode ce =
     do {
       (st, q, ce1) \<leftarrow> parse_query (take (the_default (length line) (find_substring ''HAVING'' 0 (up line))) line) ce;
       if st \<noteq> OK then error_line ''could not parse HAVING query'' ce1
       else do {
         (gvs, ce2) \<leftarrow> having_query (clk 0) line ce1;
         Some (show_groups mode q gvs ce2, ce2)
       }
     }"

definition cli_avg :: "(nat \<Rightarrow> u64) \<Rightarrow> string \<Rightarrow> out_mode \<Rightarrow> catalog_engine \<Rightarrow> (string \<times> catalog_engine) option" where
  "cli_avg clk line mode ce =
     do {
       (a, ce1) \<leftarrow> avg_query (clk 0) (clk 1) line ce;
       if a = [] then error_line ''could not run AVG query'' ce1
       else if length a = 1 then Some (show_f64 (a ! 0) @ newline, ce1)
       else Some (concat (map (\<lambda>g. show_nat g @ field_sep mode @ show_f64 (a ! g) @ newline) [0..<length a]), ce1)
     }"

text \<open>
  A list of aggregates: each is parsed with the common tail and executed. \<open>Inl ()\<close> is the error
  return; otherwise each aggregate with its query, result and label.
\<close>

type_synonym agg_column = "matrix_query \<times> u64 list \<times> string"

fun cli_multi_loop :: "(nat \<Rightarrow> u64) \<Rightarrow> nat \<Rightarrow> string list \<Rightarrow> string \<Rightarrow> agg_column list \<Rightarrow> catalog_engine \<Rightarrow>
    ((unit + agg_column list) \<times> catalog_engine) option" where
  "cli_multi_loop clk i [] tail acc ce = Some (Inr acc, ce)"
| "cli_multi_loop clk i (t # ts) tail acc ce =
     (let term = cli_trim t in
      if term = [] then cli_multi_loop clk i ts tail acc ce
      else do {
        (st, q, ce1) \<leftarrow> parse_query (''SELECT '' @ term @ tail) ce;
        if st \<noteq> OK then Some (Inl (), ce1)
        else do {
          (st, r, ce2) \<leftarrow> execute_query (clk i) q ce1;
          if st \<noteq> OK then Some (Inl (), ce2)
          else cli_multi_loop clk (Suc i) ts tail (acc @ [(q, r, term)]) ce2
        }
      })"

definition sep_join :: "out_mode \<Rightarrow> string list \<Rightarrow> string" where
  "sep_join mode fs = concat (map (\<lambda>c. (if c = 0 then [] else field_sep mode) @ fs ! c) [0..<length fs])"

text \<open>Row \<open>g\<close> of the grouped table; \<open>rs[c][g]\<close> beyond the end of a result is a read outside the vector.\<close>

definition multi_row :: "out_mode \<Rightarrow> u64 \<Rightarrow> agg_column list \<Rightarrow> catalog_engine \<Rightarrow> nat \<Rightarrow> string option" where
  "multi_row mode key cols ce g =
     map_option (\<lambda>vs. group_label ce key (of_nat g) @ concat (map (\<lambda>v. field_sep mode @ v) vs) @ newline)
       (those (map (\<lambda>(q, r, _). if g < length r then Some (decode_agg ce q (r ! g)) else None) cols))"

definition multi_table :: "out_mode \<Rightarrow> agg_column list \<Rightarrow> catalog_engine \<Rightarrow> string option" where
  "multi_table mode cols ce =
     (let (q0, r0, _) = cols ! 0; labels = map (\<lambda>(_, _, l). l) cols in
      if \<not> q_grouped q0 then
        Some (sep_join mode labels @ newline @
              sep_join mode (map (\<lambda>(q, r, _). decode_agg ce q (if r = [] then 0 else r ! 0)) cols) @ newline)
      else map_option (\<lambda>rows. ''key'' @ concat (map (\<lambda>l. field_sep mode @ l) labels) @ newline @ concat rows)
             (those (map (multi_row mode (q_key_col q0) cols ce) [0..<length r0])))"

text \<open>Where the list of aggregates ends: at the first keyword of the tail.\<close>

definition multi_cut :: "string \<Rightarrow> nat option" where
  "multi_cut line =
     (let ps = List.map_filter (\<lambda>kw. find_substring kw 0 (up line)) ['' WHERE'', '' GROUP'', '' ORDER''] in
      if ps = [] then None else Some (Min (set ps)))"

definition cli_multi :: "(nat \<Rightarrow> u64) \<Rightarrow> string \<Rightarrow> out_mode \<Rightarrow> catalog_engine \<Rightarrow> (string \<times> catalog_engine) option" where
  "cli_multi clk line mode ce =
     (let list = (case multi_cut line of None \<Rightarrow> drop 6 line | Some c \<Rightarrow> take (c - 6) (drop 6 line));
          tail = (case multi_cut line of None \<Rightarrow> [] | Some c \<Rightarrow> drop c line) in
      do {
        (r, ce1) \<leftarrow> cli_multi_loop clk 0 (split_on (CHR '','') list) tail [] ce;
        case r of Inl _ \<Rightarrow> error_line ''could not run multi-aggregate query'' ce1
        | Inr cols \<Rightarrow>
            if cols = [] then error_line ''empty SELECT list'' ce1
            else map_option (\<lambda>text. (text, ce1)) (multi_table mode cols ce1)
      })"

definition cli_single :: "(nat \<Rightarrow> u64) \<Rightarrow> string \<Rightarrow> out_mode \<Rightarrow> catalog_engine \<Rightarrow> (string \<times> catalog_engine) option" where
  "cli_single clk line mode ce =
     do {
       (st, q, ce1) \<leftarrow> parse_query line ce;
       if st \<noteq> OK then error_line ''could not parse query'' ce1
       else do {
         (st, out, ce2) \<leftarrow> execute_query (clk 0) q ce1;
         if st \<noteq> OK then error_line ''query rejected'' ce2
         else if q_grouped q \<and> q_limit q > 0 then do {
           (gvs, ce3) \<leftarrow> top_query (clk 1) line ce2;
           Some (show_groups mode q gvs ce3, ce3)
         }
         else if \<not> q_grouped q then Some ((if out = [] then [] else decode_agg ce2 q (out ! 0)) @ newline, ce2)
         else Some (show_groups mode q (group_pairs out) ce2, ce2)
       }
     }"

definition cli_projection :: "string \<Rightarrow> out_mode \<Rightarrow> catalog_engine \<Rightarrow> (string \<times> catalog_engine) option" where
  "cli_projection line mode ce =
     (let tk = split_ws line; pcol = (if length tk \<ge> 2 then column_id ce (tk ! 1) else 0); cap = 100 in
      if pcol = 0 then error_line ''could not run query (unknown column?)'' ce
      else do {
        (out, ce1) \<leftarrow> project_query line ce;
        Some (concat (map (\<lambda>v. decode_proj ce1 pcol v @ newline) (take cap out)) @
              (if mode = LIST \<and> cap < length out
               then [CHR 0xE2, CHR 0x80, CHR 0xA6] @ '' ('' @ show_nat (length out) @ '' rows, showing '' @ show_nat cap @ '')'' @ newline else []), ce1)
      })"

text \<open>The router: the first matching form runs.\<close>

definition is_multi :: "string \<Rightarrow> bool" where
  "is_multi line \<longleftrightarrow> take 6 (up line) = ''SELECT'' \<and> CHR ''('' \<in> set line \<and> CHR '','' \<in> set line"

definition matrix_cli_run_sql :: "(nat \<Rightarrow> u64) \<Rightarrow> string \<Rightarrow> out_mode \<Rightarrow> catalog_engine \<Rightarrow> (string \<times> catalog_engine) option" where
  "matrix_cli_run_sql clk line mode ce =
     (if has_text '' JOIN '' (up line) then cli_join line mode ce
      else if has_text ''DISTINCT'' (up line) then cli_distinct line ce
      else if has_text ''HAVING'' (up line) then cli_having clk line mode ce
      else if has_text ''AVG('' (up line) then cli_avg clk line mode ce
      else if is_multi line then cli_multi clk line mode ce
      else if CHR ''('' \<in> set line then cli_single clk line mode ce
      else cli_projection line mode ce)"

section \<open>The loop\<close>

record cli =
  cl_next_id :: u64
  cl_timing :: bool
  cl_mode :: out_mode
  cl_engine :: catalog_engine
  cl_disk :: disk

definition cli_start :: "disk \<Rightarrow> catalog_engine \<Rightarrow> cli" where
  "cli_start d ce = \<lparr>cl_next_id = 1, cl_timing = False, cl_mode = LIST, cl_engine = ce, cl_disk = d\<rparr>"

definition say :: "string \<Rightarrow> cli \<Rightarrow> (string \<times> cli) option" where
  "say text s = Some (text @ newline, s)"

definition cli_query :: "(nat \<Rightarrow> u64) \<Rightarrow> nat \<Rightarrow> string \<Rightarrow> cli \<Rightarrow> (string \<times> cli) option" where
  "cli_query clk us line s =
     do {
       (text, ce) \<leftarrow> matrix_cli_run_sql clk line (if cl_mode s = TABLE then LIST else cl_mode s) (cl_engine s);
       Some ((if cl_mode s = TABLE then align_table text else text) @
             (if cl_timing s then ''('' @ show_nat us @ '' '' @ [CHR 0xC2, CHR 0xB5] @ ''s)'' @ newline else []),
             s\<lparr>cl_engine := ce\<rparr>)
     }"

definition help_text :: string where
  "help_text =
     ''commands: .load <csv> <name> <u32|i64|f64|str> [colN] [header|noheader] | '' @
     ''.save <file> | .open <file> | .timing on|off | .mode list|csv|table | .tables | .columns | .stats | .help | .quit'' @ newline @
     ''queries:  SELECT COUNT|SUM|MIN|MAX|AVG(col) [WHERE col <op> v] [GROUP BY key] '' @
     ''[HAVING agg <op> v | ORDER BY agg DESC LIMIT n]'' @ newline @
     ''          SELECT agg(a), agg(b) [...]  |  SELECT COUNT(DISTINCT col)  |  '' @
     ''SELECT col [WHERE col <op> v] [LIMIT n]'' @ newline @
     ''joins:    SELECT lcol, rcol JOIN lkey = rkey [LIMIT n]  |  SELECT COUNT(*) JOIN lkey = rkey'' @ newline @
     ''          SELECT agg(lcol) JOIN lkey = rkey [GROUP BY rcol [HAVING agg <op> v | ORDER BY agg DESC LIMIT n]]''"

definition tab :: string where "tab = [CHR 0x09]"

definition columns_text :: "catalog_engine \<Rightarrow> string" where
  "columns_text ce =
     ''id'' @ tab @ ''name'' @ tab @ ''type'' @ tab @ ''rows'' @ tab @ ''tier'' @ newline @
     concat (map (\<lambda>c. show_u64 (ci_id c) @ tab @ ci_name c @ tab @
       (if string_dict_size ce (ci_id c) > 0 then ''str'' else type_name (ci_type c)) @ tab @
       show_nat (ci_rows c) @ tab @ tier_name (ci_tier c) @ newline) (catalog_columns ce))"

definition stats_text :: "catalog_engine \<Rightarrow> string option" where
  "stats_text ce =
     do {
       p50 \<leftarrow> query_latency_percentile_ns (F64 0x3FE0000000000000) ce;
       p99 \<leftarrow> query_latency_percentile_ns (F64 0x3FEFAE147AE147AE) ce;
       let st = stats ce;
       Some (''columns='' @ show_nat (es_catalog_columns st) @ '' host_mb='' @ show_u64 (es_host_resident_bytes st div 1048576) @
             '' cold_mb='' @ show_u64 (es_cold_resident_bytes st div 1048576) @ '' cold_borrows='' @ show_u64 (es_cold_borrows st) @
             '' rebalances='' @ show_u64 (es_rebalances st) @ '' migrations='' @ show_u64 (es_migrations st) @
             '' queries='' @ show_u64 (es_query_count st) @ '' p50_ns='' @ show_u64 p50 @ '' p99_ns='' @ show_u64 p99)
     }"

text \<open>The options after the three arguments of \<open>.load\<close>: the column number and whether there is a header.\<close>

definition load_option :: "string \<Rightarrow> nat \<times> bool \<Rightarrow> nat \<times> bool" where
  "load_option t ch =
     (case ch of (col, header) \<Rightarrow>
        if t = ''noheader'' then (col, False)
        else if t = ''header'' then (col, True)
        else if take 3 t = ''col'' then (case from_chars_unsigned 64 (drop 3 t) of None \<Rightarrow> (col, header) | Some (v, _) \<Rightarrow> (v, header))
        else (col, header))"

definition cli_load :: "string list \<Rightarrow> cli \<Rightarrow> (string \<times> cli) option" where
  "cli_load tk s =
     (if length tk < 4 then say ''Error: usage: .load <csv> <name> <u32|i64|f64|str> [colN] [header|noheader]'' s
      else let path = tk ! 1; name = tk ! 2; type = tk ! 3; (col, header) = fold load_option (drop 4 tk) (0, True);
               cid = cl_next_id s; ce = cl_engine s; d = cl_disk s;
               loaded = (if type = ''u32'' then Some (load_column_from_csv cid path col header (CHR '','') d ce)
                         else if type = ''i64'' then Some (load_column_from_csv_i64 cid path col header (CHR '','') d ce)
                         else if type = ''f64'' then Some (load_column_from_csv_f64 cid path col header (CHR '','') d ce)
                         else if type = ''str'' then Some (load_string_column_from_csv cid path col header (CHR '','') d ce) else None) in
        case loaded of None \<Rightarrow> say (''Error: unknown type '' @ [CHR 0x27] @ type @ [CHR 0x27] @ '' (use u32|i64|f64|str)'') s
        | Some r \<Rightarrow> do {
            (ok, ce1) \<leftarrow> r;
            if \<not> ok then say (''Error: could not load '' @ path @ '' (col '' @ show_nat col @ '')'') (s\<lparr>cl_engine := ce1\<rparr>)
            else do {
              ce2 \<leftarrow> name_column cid name ce1;
              n \<leftarrow> column_rows ce2 cid;
              say (''loaded '' @ show_nat n @ '' rows into '' @ [CHR 0x22] @ name @ [CHR 0x22] @ '' ('' @ type @ '', col '' @ show_nat col @ '')'')
                (s\<lparr>cl_engine := ce2, cl_next_id := cid + 1\<rparr>)
            }
          })"

definition cli_save :: "string list \<Rightarrow> cli \<Rightarrow> (string \<times> cli) option" where
  "cli_save tk s =
     (if length tk < 2 then say ''Error: usage: .save <file>'' s
      else do {
        (ok, d, ce) \<leftarrow> save_catalog (tk ! 1) (cl_disk s) (cl_engine s);
        say ((if ok then ''saved catalog to '' else ''Error: could not save catalog to '') @ tk ! 1) (s\<lparr>cl_disk := d, cl_engine := ce\<rparr>)
      })"

definition cli_open :: "nat \<Rightarrow> string list \<Rightarrow> cli \<Rightarrow> (string \<times> cli) option" where
  "cli_open mem tk s =
     (if length tk < 2 then say ''Error: usage: .open <file>'' s
      else if catalog_columns (cl_engine s) \<noteq> [] then
        say (''Error: .open needs a fresh session (existing columns would collide) '' @ [CHR 0xE2, CHR 0x80, CHR 0x94] @ '' start a new matrixdb'') s
      else if dk_files (cl_disk s) (tk ! 1) = None then say (''Error: cannot open '' @ tk ! 1) s
      else do {
        (ok, ce) \<leftarrow> load_catalog mem (tk ! 1) (cl_disk s) (cl_engine s);
        if \<not> ok then say (''Error: not a valid/compatible matrixdb snapshot: '' @ tk ! 1) (s\<lparr>cl_engine := ce\<rparr>)
        else say (''opened '' @ tk ! 1 @ '' ('' @ show_nat (length (catalog_columns ce)) @ '' columns)'')
          (s\<lparr>cl_engine := ce,
             cl_next_id := fold (\<lambda>c n. if ci_id c \<ge> n then ci_id c + 1 else n) (catalog_columns ce) (cl_next_id s)\<rparr>)
      })"

definition cli_timing :: "string list \<Rightarrow> cli \<Rightarrow> (string \<times> cli) option" where
  "cli_timing tk s =
     (let t = (\<not> (length tk \<ge> 2 \<and> tk ! 1 = ''off'')) in
      say (''timing '' @ (if t then ''on'' else ''off'')) (s\<lparr>cl_timing := t\<rparr>))"

definition cli_mode :: "string list \<Rightarrow> cli \<Rightarrow> (string \<times> cli) option" where
  "cli_mode tk s =
     (let arg = (if length tk \<ge> 2 then tk ! 1 else []) in
      if arg = ''csv'' then say ''mode csv'' (s\<lparr>cl_mode := CSV\<rparr>)
      else if arg = ''table'' then say ''mode table'' (s\<lparr>cl_mode := TABLE\<rparr>)
      else if arg = ''list'' then say ''mode list'' (s\<lparr>cl_mode := LIST\<rparr>)
      else say ''Error: usage: .mode list|csv|table'' s)"

definition cli_command :: "nat \<Rightarrow> string list \<Rightarrow> cli \<Rightarrow> (string \<times> cli) option" where
  "cli_command mem tk s =
     (let cmd = tk ! 0 in
      if cmd = ''.help'' then say help_text s
      else if cmd = ''.tables'' then Some (concat (map (\<lambda>(t, _). t @ newline) (ce_tables (cl_engine s))), s)
      else if cmd = ''.columns'' then Some (columns_text (cl_engine s), s)
      else if cmd = ''.stats'' then Option.bind (stats_text (cl_engine s)) (\<lambda>t. say t s)
      else if cmd = ''.load'' then cli_load tk s
      else if cmd = ''.save'' then cli_save tk s
      else if cmd = ''.open'' then cli_open mem tk s
      else if cmd = ''.timing'' then cli_timing tk s
      else if cmd = ''.mode'' then cli_mode tk s
      else say (''Error: unknown command '' @ [CHR 0x27] @ cmd @ [CHR 0x27] @ '' (try .help)'') s)"

text \<open>\<open>clk i\<close> and \<open>us i\<close> are the times of line \<open>i\<close>: of its queries, and of the whole line.\<close>

fun repl_loop :: "nat \<Rightarrow> (nat \<Rightarrow> nat \<Rightarrow> u64) \<Rightarrow> (nat \<Rightarrow> nat) \<Rightarrow> nat \<Rightarrow> string list \<Rightarrow> string \<Rightarrow> cli \<Rightarrow> (string \<times> cli) option" where
  "repl_loop mem clk us i [] out s = Some (out, s)"
| "repl_loop mem clk us i (raw # lines) out s =
     (let line = cli_trim raw in
      if line = [] \<or> hd line = CHR ''#'' then repl_loop mem clk us (Suc i) lines out s
      else if hd line \<noteq> CHR ''.'' then do {
        (text, s1) \<leftarrow> cli_query (clk i) (us i) line s;
        repl_loop mem clk us (Suc i) lines (out @ text) s1
      }
      else let tk = split_ws line in
        if tk ! 0 = ''.quit'' \<or> tk ! 0 = ''.exit'' then Some (out, s)
        else do {
          (text, s1) \<leftarrow> cli_command mem tk s;
          repl_loop mem clk us (Suc i) lines (out @ text) s1
        })"

definition matrix_repl :: "nat \<Rightarrow> (nat \<Rightarrow> nat \<Rightarrow> u64) \<Rightarrow> (nat \<Rightarrow> nat) \<Rightarrow> string \<Rightarrow> disk \<Rightarrow> catalog_engine \<Rightarrow> (string \<times> cli) option" where
  "matrix_repl mem clk us input d ce = repl_loop mem clk us 0 (getlines input) [] (cli_start d ce)"

end
