(* ===== verification/Daemon.thy ===== *)
theory Daemon
  imports Concurrent_Server CLI
begin

text \<open>
  The daemon as a whole: the accept loops of \<open>server_tcp.hpp\<close>, their connection threads over one
  \<open>ConcurrentServer\<close>, and the \<open>main\<close> of \<open>matrixdbd.cpp\<close>; also the \<open>main\<close> of \<open>matrixdb_cli.cpp\<close> and the logger of
  \<open>logging.hpp\<close>. The two accept loops never return, so they are a transition system: an event is the
  acceptance of a connection, or a move of one connection thread up to its next critical section. The
  operating system is a parameter: which of the socket calls fail, which bytes a peer sends and how many
  bytes the socket takes.
\<close>

section \<open>One frame, in the two halves around the dispatch\<close>

definition receive_frame :: "conn \<Rightarrow> u8 list option \<times> conn" where
  "receive_frame c =
     (case recv_all 4 (co_in c) of None \<Rightarrow> (None, c\<lparr>co_in := []\<rparr>)
      | Some (lb, cs1) \<Rightarrow>
          let len = le_decode lb :: u32 in
          if len > push_bit 28 1 then (None, c\<lparr>co_in := cs1\<rparr>)
          else case (if len \<noteq> 0 then recv_all (unat len) cs1 else Some ([], cs1)) of
            None \<Rightarrow> (None, c\<lparr>co_in := []\<rparr>)
          | Some (req, cs2) \<Rightarrow> (Some req, c\<lparr>co_in := cs2\<rparr>))"

definition send_reply :: "u8 list \<Rightarrow> conn \<Rightarrow> bool \<times> conn" where
  "send_reply resp c =
     (let rlen = of_nat (length resp) :: u32; (ok1, c1) = conn_send (u32_bytes rlen) c in
      if \<not> ok1 then (False, c1)
      else if rlen = 0 then (True, c1)
      else conn_send (take (unat rlen) resp) c1)"

lemma serve_frame_halves:
  "serve_frame f s c =
     (case receive_frame c of (None, c1) \<Rightarrow> Some (False, s, c1)
      | (Some req, c1) \<Rightarrow>
          (case f req s of None \<Rightarrow> None
           | Some (resp, s') \<Rightarrow> let (ok, c2) = send_reply resp c1 in Some (ok, s', c2)))"
  by (simp add: serve_frame_def receive_frame_def send_reply_def Let_def split: option.split prod.split)

section \<open>The accept loops and their threads\<close>

text \<open>
  A connection thread: before its handshake, between two frames as its principal, in a call of the server,
  and after it has closed the connection.
\<close>

datatype worker = Handshake conn | Idle u64 conn | InCall u64 conn | Gone conn

text \<open>
  \<open>dm_sent\<close> and \<open>dm_answered\<close> are for the specification only: all bytes the peer of a connection sends, and
  the requests it has been answered, with the replies.
\<close>

record daemon =
  dm_server :: conc_server
  dm_workers :: "nat \<rightharpoonup> worker"
  dm_next :: nat
  dm_sent :: "nat \<Rightarrow> u8 list"
  dm_answered :: "nat \<Rightarrow> (u8 list \<times> u8 list) list"

datatype daemon_event = AcceptFailed | Accepted conn | Shake nat | Receive nat | Section nat u64 | Reply nat

definition start_worker :: "authenticator option \<Rightarrow> conn \<Rightarrow> worker" where
  "start_worker auth c = (case auth of None \<Rightarrow> Idle 0 c | Some a \<Rightarrow> Handshake c)"

text \<open>One critical section of the call of thread \<open>t\<close>, which the clock measures as \<open>ns\<close>.\<close>

definition run_section :: "access_policy \<Rightarrow> nat \<Rightarrow> u64 \<Rightarrow> conc_server \<Rightarrow> conc_server option" where
  "run_section policy t ns s =
     (case cn_calls s t of
        Some (InShared who b) \<Rightarrow>
          (case shared_section ns policy who b (cn_eng s) of
             None \<Rightarrow> None
           | Some (Some reply, eng) \<Rightarrow>
               Some (s\<lparr>cn_eng := eng, cn_calls := (cn_calls s)(t \<mapsto> Returned who b reply), cn_log := cn_log s @ [((ns, who, b), reply)]\<rparr>)
           | Some (None, eng) \<Rightarrow> Some (s\<lparr>cn_eng := eng, cn_calls := (cn_calls s)(t \<mapsto> InExclusive who b)\<rparr>))
      | Some (InExclusive who b) \<Rightarrow>
          (case exclusive_section ns policy who b (cn_eng s) of
             None \<Rightarrow> None
           | Some (reply, eng) \<Rightarrow>
               Some (s\<lparr>cn_eng := eng, cn_calls := (cn_calls s)(t \<mapsto> Returned who b reply), cn_log := cn_log s @ [((ns, who, b), reply)]\<rparr>))
      | _ \<Rightarrow> None)"

definition daemon_step :: "access_policy \<Rightarrow> authenticator option \<Rightarrow> daemon_event \<Rightarrow> daemon \<Rightarrow> daemon option" where
  "daemon_step policy auth ev d =
     (case ev of
        AcceptFailed \<Rightarrow> Some d
      | Accepted c \<Rightarrow>
          Some (d\<lparr>dm_workers := (dm_workers d)(dm_next d \<mapsto> start_worker auth (c\<lparr>co_out := []\<rparr>)), dm_next := Suc (dm_next d),
                  dm_sent := (dm_sent d)(dm_next d := concat (co_in c)), dm_answered := (dm_answered d)(dm_next d := [])\<rparr>)
      | Shake t \<Rightarrow>
          (case (auth, dm_workers d t) of
             (Some a, Some (Handshake c)) \<Rightarrow>
               (let (ok, who, c1) = authenticate_conn a 0 c in
                Some (d\<lparr>dm_workers := (dm_workers d)(t \<mapsto> (if ok then Idle who c1 else Gone c1))\<rparr>))
           | _ \<Rightarrow> None)
      | Receive t \<Rightarrow>
          (case dm_workers d t of
             Some (Idle who c) \<Rightarrow>
               (case receive_frame c of
                  (None, c1) \<Rightarrow> Some (d\<lparr>dm_workers := (dm_workers d)(t \<mapsto> Gone c1)\<rparr>)
                | (Some req, c1) \<Rightarrow>
                    Some (d\<lparr>dm_workers := (dm_workers d)(t \<mapsto> InCall who c1),
                            dm_server := (dm_server d)\<lparr>cn_calls := (cn_calls (dm_server d))(t \<mapsto> first_section who req)\<rparr>\<rparr>))
           | _ \<Rightarrow> None)
      | Section t ns \<Rightarrow> map_option (\<lambda>s. d\<lparr>dm_server := s\<rparr>) (run_section policy t ns (dm_server d))
      | Reply t \<Rightarrow>
          (case (dm_workers d t, cn_calls (dm_server d) t) of
             (Some (InCall who c), Some (Returned _ req reply)) \<Rightarrow>
               (let (ok, c1) = send_reply reply c in
                Some (d\<lparr>dm_workers := (dm_workers d)(t \<mapsto> (if ok then Idle who c1 else Gone c1)),
                        dm_server := (dm_server d)\<lparr>cn_calls := (cn_calls (dm_server d))(t := None)\<rparr>,
                        dm_answered := (dm_answered d)(t := dm_answered d t @ [(req, reply)])\<rparr>))
           | _ \<Rightarrow> None))"

fun daemon_run :: "access_policy \<Rightarrow> authenticator option \<Rightarrow> daemon_event list \<Rightarrow> daemon \<Rightarrow> daemon option" where
  "daemon_run policy auth [] d = Some d"
| "daemon_run policy auth (ev # evs) d = Option.bind (daemon_step policy auth ev d) (daemon_run policy auth evs)"

definition daemon_start :: "cpu_engine \<Rightarrow> daemon" where
  "daemon_start eng = \<lparr>dm_server = conc_init eng, dm_workers = Map.empty, dm_next = 0, dm_sent = (\<lambda>_. []), dm_answered = (\<lambda>_. [])\<rparr>"

text \<open>
  The two entry points: \<open>None\<close> for the return of \<open>-1\<close> on a setup error, otherwise the daemon the loop
  starts with. The booleans say whether \<open>socket\<close>, \<open>bind\<close> and \<open>listen\<close> succeed.
\<close>

type_synonym u16 = "16 word"

record tcp_setup =
  ts_socket :: bool
  ts_bind :: "u16 \<Rightarrow> bool"
  ts_listen :: bool

definition matrix_serve_tcp :: "tcp_setup \<Rightarrow> u16 \<Rightarrow> access_policy \<Rightarrow> cpu_engine \<Rightarrow> (access_policy \<times> authenticator option \<times> daemon) option" where
  "matrix_serve_tcp net port policy eng =
     (if \<not> ts_socket net then None
      else if \<not> ts_bind net port then None
      else if \<not> ts_listen net then None
      else Some (policy, None, daemon_start eng))"

definition matrix_serve_tcp_auth ::
    "tcp_setup \<Rightarrow> u16 \<Rightarrow> access_policy \<Rightarrow> authenticator \<Rightarrow> cpu_engine \<Rightarrow> (access_policy \<times> authenticator option \<times> daemon) option" where
  "matrix_serve_tcp_auth net port policy auth eng =
     (if \<not> ts_socket net then None
      else if \<not> ts_bind net port then None
      else if \<not> ts_listen net then None
      else Some (policy, Some auth, daemon_start eng))"

text \<open>The receive and send timeouts: seconds and microseconds of \<open>timeval\<close>.\<close>

definition timeout_timeval :: "u32 \<Rightarrow> nat \<times> nat" where
  "timeout_timeval ms = (unat (ms div 1000), unat ((ms mod 1000) * 1000))"

section \<open>The mains\<close>

text \<open>\<open>CPUMockEngine eng;\<close> with the default arguments: no log, an unbounded catalog.\<close>

definition default_engine :: "nat \<Rightarrow> disk \<Rightarrow> cpu_engine option" where
  "default_engine room d =
     map_option (\<lambda>pe. \<lparr>eng_point = pe, eng_catalog = catalog_init UINT64_MAX room\<rparr>) (engine_open [] SYNC_EACH d)"

text \<open>\<open>matrixdbd\<close> exits with a code, or serves.\<close>

datatype 's process = Exit int | Serve 's

fun daemon_options :: "string list \<Rightarrow> string \<times> string \<Rightarrow> (string \<times> string) option" where
  "daemon_options (opt # val # args) (snapshot, token) =
     (if opt = ''--open'' then daemon_options args (val, token)
      else if opt = ''--token'' then daemon_options args (snapshot, val)
      else None)"
| "daemon_options _ (snapshot, token) = Some (snapshot, token)"

definition token_policy :: "catalog_engine \<Rightarrow> access_policy" where
  "token_policy ce = fold (\<lambda>c. allow_column 1 (ci_id c)) (catalog_columns ce) (allow_write 1 (allow_read 1 no_grants))"

definition matrixdbd_main ::
    "nat \<Rightarrow> nat \<Rightarrow> tcp_setup \<Rightarrow> disk \<Rightarrow> string list \<Rightarrow> (access_policy \<times> authenticator option \<times> daemon) process option" where
  "matrixdbd_main mem room net d argv =
     (if length argv < 2 then Some (Exit 2)
      else
        (let port = ucast (strtoull (argv ! 1)) :: u16 in
         case daemon_options (drop 2 argv) ([], []) of
           None \<Rightarrow> Some (Exit 2)
         | Some (snapshot, token) \<Rightarrow>
             do {
               eng \<leftarrow> default_engine room d;
               (ok, ce) \<leftarrow> (if snapshot = [] then Some (True, eng_catalog eng) else load_catalog mem snapshot d (eng_catalog eng));
               let eng = eng\<lparr>eng_catalog := ce\<rparr>;
               Some (if \<not> ok then Exit 1
                     else
                       (case (if token = [] then matrix_serve_tcp net port permissive eng
                              else matrix_serve_tcp_auth net port (token_policy (eng_catalog eng)) (add_credential token 1 []) eng) of
                          None \<Rightarrow> Exit 1
                        | Some s \<Rightarrow> Serve s))
             }))"

text \<open>
  The shell reads its one argument, a file or the standard input. The result is the exit code and the output;
  \<open>matrix_repl\<close> returns 0.
\<close>

definition matrixdb_main ::
    "nat \<Rightarrow> nat \<Rightarrow> (nat \<Rightarrow> nat \<Rightarrow> u64) \<Rightarrow> (nat \<Rightarrow> nat) \<Rightarrow> string list \<Rightarrow> string \<Rightarrow> disk \<Rightarrow> (int \<times> string) option" where
  "matrixdb_main mem room clk us argv stdin d =
     do {
       eng \<leftarrow> default_engine room d;
       let arg1 = (if length argv \<ge> 2 then argv ! 1 else []);
           repl = (\<lambda>input. map_option (\<lambda>(out, _). (0, out)) (matrix_repl mem clk us input d (eng_catalog eng))) in
       if arg1 = ''-c'' \<and> length argv \<ge> 3 then repl (argv ! 2 @ newline)
       else if arg1 = ''-f'' \<and> length argv \<ge> 3 then
         (case dk_files d (argv ! 2) of None \<Rightarrow> Some (1, []) | Some bs \<Rightarrow> repl (bytes_string bs))
       else repl stdin
     }"

section \<open>The logger\<close>

datatype log_level = DEBUG | INFO | WARN | ERROR

fun log_level_int :: "log_level \<Rightarrow> int" where
  "log_level_int DEBUG = 0" | "log_level_int INFO = 1" | "log_level_int WARN = 2" | "log_level_int ERROR = 3"

record log =
  lg_level :: log_level
  lg_stderr :: string

definition log_init :: log where "log_init = \<lparr>lg_level = WARN, lg_stderr = []\<rparr>"

definition log_set_level :: "log_level \<Rightarrow> log \<Rightarrow> log" where "log_set_level l g = g\<lparr>lg_level := l\<rparr>"

definition log_enabled :: "log_level \<Rightarrow> log \<Rightarrow> bool" where
  "log_enabled l g = (log_level_int (lg_level g) \<le> log_level_int l)"

fun log_prefix :: "log_level \<Rightarrow> string" where
  "log_prefix DEBUG = ''[DEBUG] ''" | "log_prefix INFO = ''[INFO] ''" | "log_prefix WARN = ''[WARN] ''" | "log_prefix ERROR = ''[ERROR] ''"

definition log_emit :: "log_level \<Rightarrow> string \<Rightarrow> log \<Rightarrow> log" where
  "log_emit l msg g =
     (if \<not> log_enabled l g then g else g\<lparr>lg_stderr := lg_stderr g @ log_prefix l @ msg @ newline\<rparr>)"

text \<open>A message appears exactly at and above the threshold; the timeout is the given number of milliseconds.\<close>

lemma log_emit_output:
  "lg_stderr (log_emit l msg (log_set_level m g)) =
     lg_stderr g @ (if log_level_int m \<le> log_level_int l then log_prefix l @ msg @ newline else [])"
  by (simp add: log_emit_def log_enabled_def log_set_level_def)

lemma timeout_exact:
  assumes "timeout_timeval ms = (sec, usec)"
  shows "sec * 1000000 + usec = unat ms * 1000 \<and> usec < 1000000"
proof -
  have "unat (ms mod 1000) < 1000" by (simp add: unat_mod)
  then have "unat ((ms mod 1000) * 1000) = unat (ms mod 1000) * 1000"
    by (subst unat_mult_lem [THEN iffD1]) simp_all
  then have s: "sec = unat ms div 1000" "usec = (unat ms mod 1000) * 1000"
    using assms by (simp_all add: timeout_timeval_def unat_div unat_mod)
  have "q * 1000000 + r * 1000 = x * 1000" if "q * 1000 + r = x" for q r x :: nat using that by linarith
  from this [OF div_mult_mod_eq [of "unat ms" 1000]] show ?thesis unfolding s using mod_less_divisor [of 1000 "unat ms"] by linarith
qed

section \<open>What a connection sends and gets\<close>

lemma le_encode_u32: "length lb = 4 \<Longrightarrow> u32_bytes (le_decode lb) = lb"
  using le_encode_decode [of lb, where 'a = 32] by simp

lemma receive_frame_splits:
  assumes "receive_frame c = (Some req, c')"
  shows "concat (co_in c) = frame req @ concat (co_in c') \<and> co_out c' = co_out c"
proof -
  obtain lb cs1 where r: "recv_all 4 (co_in c) = Some (lb, cs1)" using assms by (auto simp: receive_frame_def split: option.splits)
  let ?len = "le_decode lb :: u32"
  obtain cs2 where b: "(if ?len \<noteq> 0 then recv_all (unat ?len) cs1 else Some ([], cs1)) = Some (req, cs2)" "c' = c\<lparr>co_in := cs2\<rparr>"
    using assms r by (auto simp: receive_frame_def Let_def split: option.splits if_splits)
  note s1 = recv_all_split [OF r]
  have s2: "concat cs1 = req @ concat cs2" "length req = unat ?len"
    using b(1) recv_all_split [of "unat ?len" cs1 req cs2] by (auto split: if_splits)
  have "frame req = lb @ req" using s1 le_encode_u32 [of lb] by (simp add: frame_def s2(2))
  then show ?thesis using s1 s2(1) b(2) by simp
qed

lemma authenticate_conn_splits:
  assumes "authenticate_conn a 0 c = (True, who, c')"
  shows "\<exists>tb. concat (co_in c) = frame tb @ concat (co_in c') \<and> authenticate a (map (\<lambda>b. char_of (unat b)) tb) 0 = (True, who) \<and> co_out c' = co_out c"
proof -
  obtain lb cs1 where r: "recv_all 4 (co_in c) = Some (lb, cs1)" using assms by (auto simp: authenticate_conn_def split: option.splits)
  let ?len = "le_decode lb :: u32"
  obtain tb cs2 where b: "(if ?len \<noteq> 0 then recv_all (unat ?len) cs1 else Some ([], cs1)) = Some (tb, cs2)" "c' = c\<lparr>co_in := cs2\<rparr>"
    "authenticate a (map (\<lambda>b. char_of (unat b)) tb) 0 = (True, who)"
    using assms r by (auto simp: authenticate_conn_def Let_def split: option.splits if_splits prod.splits)
  note s1 = recv_all_split [OF r]
  have s2: "concat cs1 = tb @ concat cs2" "length tb = unat ?len"
    using b(1) recv_all_split [of "unat ?len" cs1 tb cs2] by (auto split: if_splits)
  have "frame tb = lb @ tb" using s1 le_encode_u32 [of lb] by (simp add: frame_def s2(2))
  then show ?thesis using s1 s2(1) b(2,3) by (intro exI [of _ tb]) simp
qed

lemma conn_out_kept:
  "receive_frame c = (None, c') \<Longrightarrow> co_out c' = co_out c"
  "authenticate_conn a who c = (False, who', c') \<Longrightarrow> co_out c' = co_out c"
  by (auto simp: receive_frame_def authenticate_conn_def Let_def split: option.splits if_splits prod.splits)

text \<open>The bytes of a reply on the wire; beyond \<open>2 ^ 32\<close> bytes the length would wrap.\<close>

definition wire :: "u8 list \<Rightarrow> u8 list" where
  "wire reply = (let rlen = of_nat (length reply) :: u32 in u32_bytes rlen @ take (unat rlen) reply)"

lemma wire_frame: "length reply < 2 ^ 32 \<Longrightarrow> wire reply = frame reply"
  by (simp add: wire_def frame_def unat_of_nat_small)

lemma send_all_prefix: "send_all bs ws = (ok, sent, ws') \<Longrightarrow> prefix sent bs \<and> (ok \<longrightarrow> sent = bs)"
proof (induction bs ws arbitrary: ok sent ws' rule: send_all.induct)
  case (2 bs w ws)
  show ?case
  proof (cases "bs = [] \<or> w = 0")
    case False
    obtain ok1 s1 ws1 where r: "send_all (drop w bs) ws = (ok1, s1, ws1)" by (cases "send_all (drop w bs) ws") auto
    from 2(1) [OF _ _ r] False have "prefix s1 (drop w bs) \<and> (ok1 \<longrightarrow> s1 = drop w bs)" by blast
    then show ?thesis using 2(2) False r by (auto simp: prefix_def) (metis append_take_drop_id)
  qed (use 2(2) in \<open>auto split: if_splits\<close>)
qed auto

lemma conn_send_prefix:
  assumes "conn_send bs c = (ok, c')"
  shows "\<exists>sent. co_out c' = co_out c @ sent \<and> prefix sent bs \<and> (ok \<longrightarrow> sent = bs) \<and> co_in c' = co_in c"
proof -
  obtain ok1 sent ws where s: "send_all bs (co_accepts c) = (ok1, sent, ws)" by (cases "send_all bs (co_accepts c)") auto
  then have "c' = c\<lparr>co_accepts := ws, co_out := co_out c @ sent\<rparr>" "ok = ok1" using assms by (simp_all add: conn_send_def)
  then show ?thesis using send_all_prefix [OF s] by (intro exI [of _ sent]) simp
qed

lemma send_reply_wire:
  assumes "send_reply resp c = (ok, c')"
  shows "\<exists>sent. co_out c' = co_out c @ sent \<and> prefix sent (wire resp) \<and> (ok \<longrightarrow> sent = wire resp) \<and> co_in c' = co_in c"
proof -
  let ?rlen = "of_nat (length resp) :: u32"
  obtain ok1 c1 where s: "conn_send (u32_bytes ?rlen) c = (ok1, c1)" by fastforce
  obtain sent1 where 1: "co_out c1 = co_out c @ sent1" "prefix sent1 (u32_bytes ?rlen)" "ok1 \<longrightarrow> sent1 = u32_bytes ?rlen" "co_in c1 = co_in c"
    using conn_send_prefix [OF s] by blast
  show ?thesis
  proof (cases "ok1 \<and> ?rlen \<noteq> 0")
    case True
    then have "conn_send (take (unat ?rlen) resp) c1 = (ok, c')" using assms s by (auto simp: send_reply_def Let_def)
    from conn_send_prefix [OF this] show ?thesis using 1 True by (auto simp: wire_def Let_def)
  next
    case False
    then have "c' = c1" "ok \<longrightarrow> ok1" "ok \<longrightarrow> ?rlen = 0"
      using assms s by (auto simp: send_reply_def Let_def split: if_splits)
    then show ?thesis using 1 by (auto simp: wire_def Let_def intro: prefix_prefix)
  qed
qed

section \<open>The invariant of the daemon\<close>

text \<open>What a peer has to send before its first request, to be served as \<open>who\<close>.\<close>

definition greeting :: "authenticator option \<Rightarrow> u64 \<Rightarrow> u8 list \<Rightarrow> bool" where
  "greeting auth who bs \<longleftrightarrow>
     (case auth of None \<Rightarrow> bs = [] \<and> who = 0
      | Some a \<Rightarrow> \<exists>tb. bs = frame tb \<and> authenticate a (map (\<lambda>b. char_of (unat b)) tb) 0 = (True, who))"

definition answered_by :: "((u64 \<times> u64 \<times> u8 list) \<times> u8 list) list \<Rightarrow> u64 \<Rightarrow> (u8 list \<times> u8 list) list \<Rightarrow> bool" where
  "answered_by h who xs \<longleftrightarrow> (\<forall>(b, reply) \<in> set xs. \<exists>ns. ((ns, who, b), reply) \<in> set h)"

fun pending :: "u64 \<Rightarrow> call_state option \<Rightarrow> u8 list \<Rightarrow> bool" where
  "pending who (Some (InShared w b)) b' = (w = who \<and> b = b')"
| "pending who (Some (InExclusive w b)) b' = (w = who \<and> b = b')"
| "pending who (Some (Returned w b reply)) b' = (w = who \<and> b = b')"
| "pending who None b' = False"

definition worker_ok ::
    "authenticator option \<Rightarrow> ((u64 \<times> u64 \<times> u8 list) \<times> u8 list) list \<Rightarrow> u8 list \<Rightarrow> (u8 list \<times> u8 list) list \<Rightarrow> call_state option \<Rightarrow> worker \<Rightarrow> bool" where
  "worker_ok auth h sent xs call w \<longleftrightarrow>
     (case w of
        Handshake c \<Rightarrow> auth \<noteq> None \<and> xs = [] \<and> concat (co_in c) = sent \<and> co_out c = [] \<and> call = None
      | Idle who c \<Rightarrow> call = None \<and> answered_by h who xs \<and> co_out c = concat (map (wire \<circ> snd) xs) \<and>
          (\<exists>g. greeting auth who g \<and> sent = g @ concat (map (frame \<circ> fst) xs) @ concat (co_in c))
      | InCall who c \<Rightarrow> answered_by h who xs \<and> co_out c = concat (map (wire \<circ> snd) xs) \<and>
          (\<exists>g b. greeting auth who g \<and> sent = g @ concat (map (frame \<circ> fst) xs) @ frame b @ concat (co_in c) \<and> pending who call b)
      | Gone c \<Rightarrow> call = None \<and> prefix (co_out c) (concat (map (wire \<circ> snd) xs)) \<and>
          (xs = [] \<or> (\<exists>who g. answered_by h who xs \<and> greeting auth who g \<and> prefix (g @ concat (map (frame \<circ> fst) xs)) sent)))"

definition daemon_inv :: "access_policy \<Rightarrow> authenticator option \<Rightarrow> db_view \<Rightarrow> daemon \<Rightarrow> bool" where
  "daemon_inv policy auth v d \<longleftrightarrow>
     conc_ok policy v (dm_server d) \<and>
     (\<forall>((ns, who, b), reply) \<in> set (cn_log (dm_server d)). \<exists>g. greeting auth who g) \<and>
     (\<forall>t. case dm_workers d t of
            None \<Rightarrow> cn_calls (dm_server d) t = None
          | Some w \<Rightarrow> t < dm_next d \<and>
              worker_ok auth (cn_log (dm_server d)) (dm_sent d t) (dm_answered d t) (cn_calls (dm_server d) t) w)"

lemma answered_by_mono: "answered_by h who xs \<Longrightarrow> answered_by (h @ h') who xs"
  by (fastforce simp: answered_by_def)

lemma worker_ok_mono: "worker_ok auth h sent xs call w \<Longrightarrow> worker_ok auth (h @ h') sent xs call w"
  unfolding worker_ok_def by (cases w) (simp_all add: answered_by_mono, blast intro: answered_by_mono)

lemma run_section_step:
  assumes "run_section policy t ns s = Some s'"
  shows "conc_step policy s s'"
    and "\<exists>h. cn_log s' = cn_log s @ h \<and> (\<forall>x \<in> set h. fst (snd (fst x)) = who \<or> \<not> pending who (cn_calls s t) b)"
    and "u \<noteq> t \<Longrightarrow> cn_calls s' u = cn_calls s u"
    and "pending who (cn_calls s t) b \<Longrightarrow> pending who (cn_calls s' t) b"
    and "cn_calls s t \<noteq> None"
proof -
  consider (sh) w b' reply eng where "cn_calls s t = Some (InShared w b')" "shared_section ns policy w b' (cn_eng s) = Some (Some reply, eng)"
      "s' = s\<lparr>cn_eng := eng, cn_calls := (cn_calls s)(t \<mapsto> Returned w b' reply), cn_log := cn_log s @ [((ns, w, b'), reply)]\<rparr>"
    | (es) w b' eng where "cn_calls s t = Some (InShared w b')" "shared_section ns policy w b' (cn_eng s) = Some (None, eng)"
      "s' = s\<lparr>cn_eng := eng, cn_calls := (cn_calls s)(t \<mapsto> InExclusive w b')\<rparr>"
    | (ex) w b' reply eng where "cn_calls s t = Some (InExclusive w b')" "exclusive_section ns policy w b' (cn_eng s) = Some (reply, eng)"
      "s' = s\<lparr>cn_eng := eng, cn_calls := (cn_calls s)(t \<mapsto> Returned w b' reply), cn_log := cn_log s @ [((ns, w, b'), reply)]\<rparr>"
    using assms by (auto simp: run_section_def split: option.splits call_state.splits)
  note cs = this
  from cs show "conc_step policy s s'" by cases (auto intro: conc_step.intros)
  from cs show "\<exists>h. cn_log s' = cn_log s @ h \<and> (\<forall>x \<in> set h. fst (snd (fst x)) = who \<or> \<not> pending who (cn_calls s t) b)" by cases auto
  from cs show "cn_calls s' u = cn_calls s u" if "u \<noteq> t" using that by cases auto
  from cs show "pending who (cn_calls s' t) b" if "pending who (cn_calls s t) b" using that by cases auto
  from cs show "cn_calls s t \<noteq> None" by cases auto
qed

lemma daemon_inv_thread:
  "daemon_inv policy auth v d \<Longrightarrow>
    (case dm_workers d t of
       None \<Rightarrow> cn_calls (dm_server d) t = None
     | Some w \<Rightarrow> t < dm_next d \<and>
         worker_ok auth (cn_log (dm_server d)) (dm_sent d t) (dm_answered d t) (cn_calls (dm_server d) t) w)"
  unfolding daemon_inv_def by blast

lemma daemon_invD:
  assumes "daemon_inv policy auth v d" "dm_workers d t = Some w"
  shows "t < dm_next d" "worker_ok auth (cn_log (dm_server d)) (dm_sent d t) (dm_answered d t) (cn_calls (dm_server d) t) w"
  using daemon_inv_thread [OF assms(1), of t] assms(2) by simp_all

lemma daemon_inv_idle: "daemon_inv policy auth v d \<Longrightarrow> dm_workers d t = None \<Longrightarrow> cn_calls (dm_server d) t = None"
  using daemon_inv_thread [of policy auth v d t] by simp

text \<open>A move of one thread keeps what holds of the others.\<close>

lemma daemon_inv_move:
  assumes inv: "daemon_inv policy auth v d"
    and ok: "conc_ok policy v (dm_server d')"
    and h: "cn_log (dm_server d') = cn_log (dm_server d) @ h" "\<And>ns who b reply. ((ns, who, b), reply) \<in> set h \<Longrightarrow> \<exists>g. greeting auth who g"
    and other: "\<And>u. u \<noteq> t \<Longrightarrow> dm_workers d' u = dm_workers d u \<and> cn_calls (dm_server d') u = cn_calls (dm_server d) u \<and>
      dm_sent d' u = dm_sent d u \<and> dm_answered d' u = dm_answered d u"
    and nxt: "dm_next d \<le> dm_next d'" "t < dm_next d'"
    and own: "dm_workers d' t = Some w"
      "worker_ok auth (cn_log (dm_server d) @ h) (dm_sent d' t) (dm_answered d' t) (cn_calls (dm_server d') t) w"
  shows "daemon_inv policy auth v d'"
proof -
  have "case dm_workers d' u of
          None \<Rightarrow> cn_calls (dm_server d') u = None
        | Some w \<Rightarrow> u < dm_next d' \<and>
            worker_ok auth (cn_log (dm_server d')) (dm_sent d' u) (dm_answered d' u) (cn_calls (dm_server d') u) w" for u
  proof (cases "u = t")
    case False
    show ?thesis
      using daemon_inv_thread [OF inv, of u] other [OF False] worker_ok_mono nxt(1) unfolding h(1) by (auto split: option.splits)
  qed (use own nxt(2) h(1) in simp)
  moreover have "\<forall>((ns, who, b), reply) \<in> set (cn_log (dm_server d')). \<exists>g. greeting auth who g"
    using inv h(2) unfolding h(1) daemon_inv_def by fastforce
  ultimately show ?thesis using ok unfolding daemon_inv_def by blast
qed

lemma daemon_step_inv:
  assumes inv: "daemon_inv policy auth v d" and step: "daemon_step policy auth ev d = Some d'"
  shows "daemon_inv policy auth v d'"
proof -
  have ok: "conc_ok policy v (dm_server d)" using inv by (simp add: daemon_inv_def)
  note keep = conc_step_ok [OF _ ok]
  show ?thesis
  proof (cases ev)
    case AcceptFailed
    then show ?thesis using inv step by (simp add: daemon_step_def)
  next
    case (Accepted c)
    have fresh: "dm_workers d (dm_next d) = None" using daemon_invD(1) [OF inv] by fastforce
    then have call: "cn_calls (dm_server d) (dm_next d) = None" by (rule daemon_inv_idle [OF inv])
    have "worker_ok auth (cn_log (dm_server d) @ []) (concat (co_in c)) [] None (start_worker auth (c\<lparr>co_out := []\<rparr>))"
      by (cases auth) (simp_all add: start_worker_def worker_ok_def greeting_def answered_by_def)
    then show ?thesis
      using step Accepted call
      by (intro daemon_inv_move [OF inv, where h = "[]" and t = "dm_next d" and w = "start_worker auth (c\<lparr>co_out := []\<rparr>)"])
        (auto simp: daemon_step_def ok)
  next
    case (Shake t)
    obtain a c where a: "auth = Some a" "dm_workers d t = Some (Handshake c)"
      using step Shake by (auto simp: daemon_step_def split: option.splits worker.splits)
    obtain okv who c1 where r: "authenticate_conn a 0 c = (okv, who, c1)" by (cases "authenticate_conn a 0 c") auto
    define w where "w = (if okv then Idle who c1 else Gone c1)"
    have d': "d' = d\<lparr>dm_workers := (dm_workers d)(t \<mapsto> w)\<rparr>"
      using step Shake a r by (simp add: daemon_step_def w_def)
    note I = daemon_invD [OF inv a(2)]
    have "worker_ok auth (cn_log (dm_server d) @ []) (dm_sent d t) (dm_answered d t) (cn_calls (dm_server d) t) w"
    proof (cases okv)
      case True
      then show ?thesis using I(2) authenticate_conn_splits [of a c who c1] r a(1)
        by (auto simp: w_def worker_ok_def greeting_def answered_by_def)
    next
      case False
      then show ?thesis using I(2) conn_out_kept(2) [of a 0 c who c1] r by (auto simp: w_def worker_ok_def)
    qed
    then show ?thesis using I(1) d' by (intro daemon_inv_move [OF inv, where h = "[]" and t = t and w = w]) (auto simp: ok)
  next
    case (Receive t)
    obtain who c where a: "dm_workers d t = Some (Idle who c)"
      using step Receive by (auto simp: daemon_step_def split: option.splits worker.splits)
    note I = daemon_invD [OF inv a]
    obtain r c1 where r: "receive_frame c = (r, c1)" by fastforce
    show ?thesis
    proof (cases r)
      case None
      have "worker_ok auth (cn_log (dm_server d) @ []) (dm_sent d t) (dm_answered d t) (cn_calls (dm_server d) t) (Gone c1)"
        using I(2) conn_out_kept(1) [of c c1] r None by (auto simp: worker_ok_def prefix_def)
      then show ?thesis
        using step Receive a r None I(1)
        by (intro daemon_inv_move [OF inv, where h = "[]" and t = t and w = "Gone c1"]) (auto simp: daemon_step_def ok)
    next
      case (Some req)
      have "pending who (Some (first_section who req)) req" by (simp add: first_section_decoded)
      moreover have none: "cn_calls (dm_server d) t = None" using I(2) by (simp add: worker_ok_def)
      ultimately have "worker_ok auth (cn_log (dm_server d) @ []) (dm_sent d t) (dm_answered d t) (Some (first_section who req)) (InCall who c1)"
        using I(2) receive_frame_splits [of c req c1] r Some by (auto simp: worker_ok_def)
      moreover have "conc_ok policy v ((dm_server d)\<lparr>cn_calls := (cn_calls (dm_server d))(t \<mapsto> first_section who req)\<rparr>)"
        by (rule keep, rule conc_step.invoke, rule none)
      ultimately show ?thesis
        using step Receive a r Some I(1)
        by (intro daemon_inv_move [OF inv, where h = "[]" and t = t and w = "InCall who c1"]) (auto simp: daemon_step_def)
    qed
  next
    case (Section t ns)
    then obtain s where s: "run_section policy t ns (dm_server d) = Some s" "d' = d\<lparr>dm_server := s\<rparr>"
      using step by (auto simp: daemon_step_def)
    note S = run_section_step [OF s(1)]
    obtain w where w: "dm_workers d t = Some w"
      using daemon_inv_idle [OF inv, of t] S(5) by blast
    note I = daemon_invD [OF inv w]
    obtain who c where ic: "w = InCall who c" using I(2) S(5) by (cases w) (auto simp: worker_ok_def)
    obtain g b where g: "greeting auth who g" "pending who (cn_calls (dm_server d) t) b"
      "dm_sent d t = g @ concat (map (frame \<circ> fst) (dm_answered d t)) @ frame b @ concat (co_in c)"
      "answered_by (cn_log (dm_server d)) who (dm_answered d t)" "co_out c = concat (map (wire \<circ> snd) (dm_answered d t))"
      using I(2) ic by (auto simp: worker_ok_def)
    obtain h where h: "cn_log s = cn_log (dm_server d) @ h" "\<forall>x \<in> set h. fst (snd (fst x)) = who" using S(2) [of who b] g(2) by auto
    have "worker_ok auth (cn_log (dm_server d) @ h) (dm_sent d t) (dm_answered d t) (cn_calls s t) w"
      using g S(4) [OF g(2)] answered_by_mono [OF g(4)] by (auto simp: worker_ok_def ic)
    then show ?thesis
      using s(2) h keep [OF S(1)] S(3) g(1) w I(1)
      by (intro daemon_inv_move [OF inv, where h = h and t = t and w = w]) fastforce+
  next
    case (Reply t)
    obtain who c who' req reply where a: "dm_workers d t = Some (InCall who c)" "cn_calls (dm_server d) t = Some (Returned who' req reply)"
      using step Reply by (auto simp: daemon_step_def split: option.splits worker.splits call_state.splits)
    note I = daemon_invD [OF inv a(1)]
    obtain okv c1 where r: "send_reply reply c = (okv, c1)" by fastforce
    define w where "w = (if okv then Idle who c1 else Gone c1)"
    have d': "d' = d\<lparr>dm_workers := (dm_workers d)(t \<mapsto> w),
        dm_server := (dm_server d)\<lparr>cn_calls := (cn_calls (dm_server d))(t := None)\<rparr>,
        dm_answered := (dm_answered d)(t := dm_answered d t @ [(req, reply)])\<rparr>"
      using step Reply a r by (simp add: daemon_step_def w_def)
    obtain g where g: "who' = who" "greeting auth who g"
      "dm_sent d t = g @ concat (map (frame \<circ> fst) (dm_answered d t)) @ frame req @ concat (co_in c)"
      "answered_by (cn_log (dm_server d)) who (dm_answered d t)" "co_out c = concat (map (wire \<circ> snd) (dm_answered d t))"
      using I(2) a(2) by (auto simp: worker_ok_def)
    obtain ns where "((ns, who, req), reply) \<in> set (cn_log (dm_server d))" using ok a(2) g(1) unfolding conc_ok_def by blast
    then have ans: "answered_by (cn_log (dm_server d)) who (dm_answered d t @ [(req, reply)])"
      using g(4) by (auto simp: answered_by_def)
    obtain sent where sent: "co_out c1 = co_out c @ sent" "prefix sent (wire reply)" "okv \<longrightarrow> sent = wire reply" "co_in c1 = co_in c"
      using send_reply_wire [OF r] by blast
    have "worker_ok auth (cn_log (dm_server d) @ []) (dm_sent d t) (dm_answered d t @ [(req, reply)]) None w"
    proof (cases okv)
      case True
      then show ?thesis using g(2,3,5) ans sent by (auto simp: w_def worker_ok_def)
    next
      case False
      have "prefix (g @ concat (map (frame \<circ> fst) (dm_answered d t @ [(req, reply)]))) (dm_sent d t)" by (simp add: g(3))
      then have "\<exists>who g. answered_by (cn_log (dm_server d)) who (dm_answered d t @ [(req, reply)]) \<and> greeting auth who g \<and>
          prefix (g @ concat (map (frame \<circ> fst) (dm_answered d t @ [(req, reply)]))) (dm_sent d t)" using ans g(2) by blast
      then show ?thesis using False sent g(5) by (simp add: w_def worker_ok_def)
    qed
    moreover have "conc_ok policy v ((dm_server d)\<lparr>cn_calls := (cn_calls (dm_server d))(t := None)\<rparr>)"
      by (rule keep, rule conc_step.return, rule a(2))
    ultimately show ?thesis
      using d' I(1) by (intro daemon_inv_move [OF inv, where h = "[]" and t = t and w = w]) auto
  qed
qed

lemma daemon_run_inv:
  "daemon_run policy auth evs d = Some d' \<Longrightarrow> daemon_inv policy auth v d \<Longrightarrow> daemon_inv policy auth v d'"
  by (induction evs arbitrary: d) (auto simp: bind_eq_Some_conv dest: daemon_step_inv)

lemma daemon_start_inv: "serve_ready eng \<Longrightarrow> daemon_inv policy auth (db_view eng) (daemon_start eng)"
  by (simp add: daemon_inv_def daemon_start_def conc_init_def conc_ok_def core.spec_nil)

text \<open>No thread gets stuck.\<close>

lemma daemon_progress:
  assumes inv: "daemon_inv policy auth v d" and w: "dm_workers d t = Some w" "\<nexists>c. w = Gone c"
    and able: "\<And>who b. pending who (cn_calls (dm_server d) t) b \<Longrightarrow> serve_able (ns, who, b) (cn_eng (dm_server d))"
  shows "\<exists>ev \<in> {Shake t, Receive t, Section t ns, Reply t}. daemon_step policy auth ev d \<noteq> None"
proof -
  note I = daemon_invD [OF inv w(1)]
  have ready: "serve_ready (cn_eng (dm_server d))" using inv by (simp add: daemon_inv_def conc_ok_def)
  show ?thesis
  proof (cases w)
    case (Handshake c)
    then show ?thesis using I(2) w(1) by (auto simp: worker_ok_def daemon_step_def split: prod.splits)
  next
    case (Idle who c)
    then show ?thesis using w(1) by (auto simp: daemon_step_def split: prod.splits option.splits)
  next
    case (InCall who c)
    then obtain b where b: "pending who (cn_calls (dm_server d) t) b" using I(2) by (auto simp: worker_ok_def)
    note ret = sections_return [OF ready able [OF b], of policy]
    consider "cn_calls (dm_server d) t = Some (InShared who b)" | "cn_calls (dm_server d) t = Some (InExclusive who b)"
      | reply where "cn_calls (dm_server d) t = Some (Returned who b reply)"
      using b by (cases "(who, cn_calls (dm_server d) t, b)" rule: pending.cases) auto
    then show ?thesis
    proof cases
      case 1
      then have "run_section policy t ns (dm_server d) \<noteq> None" using ret(1) by (auto simp: run_section_def split: option.splits)
      then show ?thesis by (simp add: daemon_step_def)
    next
      case 2
      then have "run_section policy t ns (dm_server d) \<noteq> None" using ret(2) by (auto simp: run_section_def split: option.splits)
      then show ?thesis by (simp add: daemon_step_def)
    next
      case 3
      then show ?thesis using w(1) InCall by (simp add: daemon_step_def split: prod.split)
    qed
  qed (use w(2) in blast)
qed

section \<open>The options and the policy of the daemon\<close>

lemma default_engine_ready:
  obtains eng where "default_engine room d = Some eng" "serve_ready eng" "pe_map (eng_point eng) = Map.empty"
    "eng_catalog eng = catalog_init UINT64_MAX room"
proof -
  obtain kv where kv: "made (KVStore (\<lambda>_. True) MATRIX_STORE_SLOTS) = Some kv" "kv_inv kv" "length (kv_slots kv) = 65536"
    "kvm.contents kv = Map.empty" by (rule KVStore_slots)
  obtain pe where pe: "engine_open [] SYNC_EACH d = Some pe" "pe_kv pe = kv" "pe_key_index pe = []" "\<not> pe_in_txn pe"
    "length (pe_binned pe) = MATRIX_BATCH_MAX" by (simp add: engine_open_def kv(1) Let_def)
  show thesis
    by (rule that [of "\<lparr>eng_point = pe, eng_catalog = catalog_init UINT64_MAX room\<rparr>"])
      (use kv pe init_ready in \<open>simp_all add: default_engine_def serve_ready_def mem_ok_def\<close>)
qed

lemma one_credential:
  "authenticate (add_credential token 1 []) tok 0 = (True, who) \<longleftrightarrow> tok = token \<and> tok \<noteq> [] \<and> who = 1"
  by (auto simp: authenticate_def add_credential_def timing_safe_equal_iff)

lemma token_policy_cols:
  "ap_allow_all (fold (\<lambda>c. allow_column 1 (ci_id c)) cs p) = ap_allow_all p"
  "ap_read (fold (\<lambda>c. allow_column 1 (ci_id c)) cs p) = ap_read p"
  "ap_write (fold (\<lambda>c. allow_column 1 (ci_id c)) cs p) = ap_write p"
  "\<not> ap_allow_all p \<Longrightarrow> can_query (fold (\<lambda>c. allow_column 1 (ci_id c)) cs p) who col \<longleftrightarrow>
     can_query p who col \<or> who = 1 \<and> col \<in> ci_id ` set cs"
  by (induction cs arbitrary: p) (auto simp: allow_column_def can_query_def split: option.splits)

lemma token_policy_rights:
  "can_read (token_policy ce) who \<longleftrightarrow> who = 1"
  "can_write (token_policy ce) who \<longleftrightarrow> who = 1"
  "can_query (token_policy ce) who col \<longleftrightarrow> who = 1 \<and> col \<in> ci_id ` set (catalog_columns ce)"
  by (simp_all add: token_policy_def can_read_def can_write_def token_policy_cols allow_read_def allow_write_def no_grants_def)
    (simp add: can_query_def)

lemma matrixdbd_serves:
  assumes "daemon_options (drop 2 argv) ([], []) = Some (snapshot, token)"
    and "matrixdbd_main mem room net disk argv = Some (Serve (policy, auth, dm))"
  shows "\<exists>eng. dm = daemon_start eng \<and>
    (if token = [] then policy = permissive \<and> auth = None
     else policy = token_policy (eng_catalog eng) \<and> auth = Some (add_credential token 1 []))"
proof -
  define port where "port = (ucast (strtoull (argv ! 1)) :: u16)"
  define serve where "serve = (\<lambda>eng. if token = [] then matrix_serve_tcp net port permissive eng
      else matrix_serve_tcp_auth net port (token_policy (eng_catalog eng)) (add_credential token 1 []) eng)"
  have "\<not> length argv < 2" using assms(2) by (auto simp: matrixdbd_main_def)
  then have "\<exists>ok eng. (if \<not> ok then Exit 1 else (case serve eng of None \<Rightarrow> Exit 1 | Some s \<Rightarrow> Serve s)) = Serve (policy, auth, dm)"
    using assms(2) unfolding matrixdbd_main_def assms(1) Let_def serve_def port_def
    by (simp only: if_False option.case prod.case) (auto simp only: bind_eq_Some_conv option.inject prod.case)
  then obtain eng where "serve eng = Some (policy, auth, dm)" by (auto split: if_splits option.splits)
  then show ?thesis
    by (intro exI [of _ eng]) (auto simp: serve_def matrix_serve_tcp_def matrix_serve_tcp_auth_def split: if_splits)
qed

lemma matrixdbd_no_snapshot:
  assumes "2 \<le> length argv" "daemon_options (drop 2 argv) ([], []) = Some ([], token)" "default_engine room disk = Some eng"
    and "ts_socket net" "ts_bind net (ucast (strtoull (argv ! 1)))" "ts_listen net"
  shows "matrixdbd_main mem room net disk argv = Some (Serve
    (if token = [] then (permissive, None, daemon_start eng)
     else (token_policy (eng_catalog eng), Some (add_credential token 1 []), daemon_start eng)))"
  using assms by (simp add: matrixdbd_main_def Let_def matrix_serve_tcp_def matrix_serve_tcp_auth_def)

section \<open>Properties\<close>

text \<open>
  C14. The daemon serves every connection correctly. Whatever connections come, whatever bytes they send in
  whatever chunks, however the sockets accept the replies and however the threads interleave: the replies
  are those of the specification run sequentially from the initial database; every call was made as a principal
  some greeting authenticates; and each connection is consistent. Until its handshake it has been
  sent nothing. While it is served, what the peer has sent is its greeting, the frames of the requests answered so
  far, of the one in progress and the rest, and what it has been sent is exactly the framed replies to these
  requests in order, each given to that principal for that request. A closed connection has been sent a prefix of
  that. Every thread of an open connection can make its next move, given the resources its request needs.
\<close>

theorem daemon_serves_correctly:
  assumes "serve_ready eng" "daemon_run policy auth evs (daemon_start eng) = Some d"
  shows "core.spec_run policy (db_view eng) (cn_log (dm_server d)) (db_view (cn_eng (dm_server d))) \<and>
    (\<forall>((ns, who, b), reply) \<in> set (cn_log (dm_server d)). \<exists>g. greeting auth who g) \<and>
    (\<forall>t c. dm_workers d t = Some (Handshake c) \<longrightarrow> co_out c = [] \<and> dm_answered d t = []) \<and>
    (\<forall>t who c. dm_workers d t = Some (Idle who c) \<longrightarrow>
       answered_by (cn_log (dm_server d)) who (dm_answered d t) \<and> co_out c = concat (map (wire \<circ> snd) (dm_answered d t)) \<and>
       (\<exists>g. greeting auth who g \<and> dm_sent d t = g @ concat (map (frame \<circ> fst) (dm_answered d t)) @ concat (co_in c))) \<and>
    (\<forall>t who c. dm_workers d t = Some (InCall who c) \<longrightarrow>
       answered_by (cn_log (dm_server d)) who (dm_answered d t) \<and> co_out c = concat (map (wire \<circ> snd) (dm_answered d t)) \<and>
       (\<exists>g b. greeting auth who g \<and> dm_sent d t = g @ concat (map (frame \<circ> fst) (dm_answered d t)) @ frame b @ concat (co_in c) \<and>
          pending who (cn_calls (dm_server d) t) b)) \<and>
    (\<forall>t c. dm_workers d t = Some (Gone c) \<longrightarrow> prefix (co_out c) (concat (map (wire \<circ> snd) (dm_answered d t)))) \<and>
    (\<forall>t w ns. dm_workers d t = Some w \<and> (\<nexists>c. w = Gone c) \<and>
       (\<forall>who b. pending who (cn_calls (dm_server d) t) b \<longrightarrow> serve_able (ns, who, b) (cn_eng (dm_server d))) \<longrightarrow>
       (\<exists>ev \<in> {Shake t, Receive t, Section t ns, Reply t}. daemon_step policy auth ev d \<noteq> None))"
proof -
  have inv: "daemon_inv policy auth (db_view eng) d" by (rule daemon_run_inv [OF assms(2) daemon_start_inv [OF assms(1)]])
  note W = daemon_invD(2) [OF inv]
  show ?thesis
  proof (intro conjI)
    show "core.spec_run policy (db_view eng) (cn_log (dm_server d)) (db_view (cn_eng (dm_server d)))"
      using inv by (simp add: daemon_inv_def conc_ok_def)
    show "\<forall>((ns, who, b), reply) \<in> set (cn_log (dm_server d)). \<exists>g. greeting auth who g" using inv by (simp add: daemon_inv_def)
    show "\<forall>t c. dm_workers d t = Some (Handshake c) \<longrightarrow> co_out c = [] \<and> dm_answered d t = []"
      using W [of _ "Handshake _"] by (simp add: worker_ok_def)
    show "\<forall>t who c. dm_workers d t = Some (Idle who c) \<longrightarrow>
       answered_by (cn_log (dm_server d)) who (dm_answered d t) \<and> co_out c = concat (map (wire \<circ> snd) (dm_answered d t)) \<and>
       (\<exists>g. greeting auth who g \<and> dm_sent d t = g @ concat (map (frame \<circ> fst) (dm_answered d t)) @ concat (co_in c))"
      using W [of _ "Idle _ _"] by (simp add: worker_ok_def)
    show "\<forall>t who c. dm_workers d t = Some (InCall who c) \<longrightarrow>
       answered_by (cn_log (dm_server d)) who (dm_answered d t) \<and> co_out c = concat (map (wire \<circ> snd) (dm_answered d t)) \<and>
       (\<exists>g b. greeting auth who g \<and> dm_sent d t = g @ concat (map (frame \<circ> fst) (dm_answered d t)) @ frame b @ concat (co_in c) \<and>
          pending who (cn_calls (dm_server d) t) b)"
      using W [of _ "InCall _ _"] by (simp add: worker_ok_def)
    show "\<forall>t c. dm_workers d t = Some (Gone c) \<longrightarrow> prefix (co_out c) (concat (map (wire \<circ> snd) (dm_answered d t)))"
      using W [of _ "Gone _"] by (simp add: worker_ok_def)
  qed (use daemon_progress [OF inv] in blast)
qed

theorem daemon_serves_correctly_witness:
  "\<exists>eng d. serve_ready eng \<and>
     daemon_run permissive None [AcceptFailed, Accepted \<lparr>co_in = [[0, 0], [0, 0]], co_accepts = [3, 9, 9, 9], co_out = []\<rparr>, Receive 0, Section 0 7, Reply 0]
       (daemon_start eng) = Some d \<and>
     dm_workers d 0 = Some (Idle 0 \<lparr>co_in = [], co_accepts = [], co_out = wire (refusal ERR_BADREQUEST)\<rparr>) \<and>
     core.spec_run permissive (db_view eng) [((7, 0, []), refusal ERR_BADREQUEST)] (db_view eng)"
proof -
  obtain pe where "serve_ready \<lparr>eng_point = pe, eng_catalog = catalog_init 10 10\<rparr>" by (rule fresh_engine)
  then obtain eng where eng: "serve_ready eng" by blast
  have dec: "decoded [] = None" by (simp add: decoded_def) code_simp
  have f: "first_section 0 [] = InShared 0 []" by (simp add: first_section_decoded dec)
  have "matrix_serve 7 permissive 0 [] eng = Some (refusal ERR_BADREQUEST, eng)"
    using dec by (simp add: matrix_serve_def serve_core_cases)
  then have sec: "shared_section 7 permissive 0 [] eng = Some (Some (refusal ERR_BADREQUEST), eng)" by (simp add: shared_section_decoded dec)
  have rf: "receive_frame \<lparr>co_in = [[0, 0], [0, 0]], co_accepts = [3, 9, 9, 9], co_out = []\<rparr> =
      (Some [], \<lparr>co_in = [], co_accepts = [3, 9, 9, 9], co_out = []\<rparr>)" by code_simp
  have sr: "send_reply (refusal ERR_BADREQUEST) \<lparr>co_in = [], co_accepts = [3, 9, 9, 9], co_out = []\<rparr> =
      (True, \<lparr>co_in = [], co_accepts = [], co_out = wire (refusal ERR_BADREQUEST)\<rparr>)" by code_simp
  define d where "d = \<lparr>dm_server = \<lparr>cn_eng = eng, cn_calls = Map.empty, cn_log = [((7, 0, []), refusal ERR_BADREQUEST)]\<rparr>,
    dm_workers = [0 \<mapsto> Idle 0 \<lparr>co_in = [], co_accepts = [], co_out = wire (refusal ERR_BADREQUEST)\<rparr>], dm_next = 1,
    dm_sent = (\<lambda>_. [])(0 := [0, 0, 0, 0]), dm_answered = (\<lambda>_. [])(0 := [([], refusal ERR_BADREQUEST)])\<rparr>"
  have run: "daemon_run permissive None [AcceptFailed, Accepted \<lparr>co_in = [[0, 0], [0, 0]], co_accepts = [3, 9, 9, 9], co_out = []\<rparr>,
      Receive 0, Section 0 7, Reply 0] (daemon_start eng) = Some d"
    by (simp add: daemon_step_def daemon_start_def conc_init_def start_worker_def rf f run_section_def sec sr d_def)
  from daemon_serves_correctly [OF eng run] show ?thesis using eng run by (intro exI [of _ eng] exI [of _ d]) (simp add: d_def)
qed

text \<open>
  C39. A token keeps everybody else out. When \<open>matrixdbd\<close> is started with a non-empty token, then whatever
  happens on the network every call that reaches the engine is made as principal 1, by a connection
  whose first frame is the token itself; that principal may read and write keys and query exactly the columns
  the snapshot holds, and no other principal has any right.
\<close>

theorem matrixdbd_token_guards:
  assumes "daemon_options (drop 2 argv) ([], []) = Some (snapshot, token)" "token \<noteq> []"
    and "matrixdbd_main mem room net disk argv = Some (Serve (policy, auth, dm))"
    and "serve_ready (cn_eng (dm_server dm))" "daemon_run policy auth evs dm = Some d"
  shows "(\<forall>((ns, who, b), reply) \<in> set (cn_log (dm_server d)). who = 1) \<and>
    (\<forall>t who c. dm_workers d t = Some (Idle who c) \<or> dm_workers d t = Some (InCall who c) \<longrightarrow>
       who = 1 \<and> (\<exists>tb rest. dm_sent d t = frame tb @ rest \<and> bytes_string tb = token)) \<and>
    (\<forall>who. (can_read policy who \<longleftrightarrow> who = 1) \<and> (can_write policy who \<longleftrightarrow> who = 1) \<and>
       (\<forall>col. can_query policy who col \<longleftrightarrow> who = 1 \<and> col \<in> ci_id ` set (catalog_columns (eng_catalog (cn_eng (dm_server dm))))))"
proof -
  obtain eng where s: "policy = token_policy (eng_catalog eng)" "auth = Some (add_credential token 1 [])" "dm = daemon_start eng"
    using matrixdbd_serves [OF assms(1,3)] assms(2) by auto
  have e: "cn_eng (dm_server dm) = eng" by (simp add: s(3) daemon_start_def conc_init_def)
  have inv: "daemon_inv policy auth (db_view eng) d"
    using daemon_run_inv [OF assms(5)] daemon_start_inv assms(4) unfolding e unfolding s(3) by blast
  have gr: "greeting auth who g \<longleftrightarrow> who = 1 \<and> (\<exists>tb. g = frame tb \<and> bytes_string tb = token)" for who g
    using assms(2) by (auto simp: greeting_def s(2) one_credential bytes_string_def)
  note W = daemon_invD(2) [OF inv]
  show ?thesis
  proof (intro conjI allI impI)
    show "\<forall>((ns, who, b), reply) \<in> set (cn_log (dm_server d)). who = 1" using inv by (auto simp: daemon_inv_def gr)
    fix t who c assume "dm_workers d t = Some (Idle who c) \<or> dm_workers d t = Some (InCall who c)"
    then have "\<exists>g rest. greeting auth who g \<and> dm_sent d t = g @ rest"
      using W [of t "Idle who c"] W [of t "InCall who c"] by (auto simp: worker_ok_def)
    then show "who = 1" "\<exists>tb rest. dm_sent d t = frame tb @ rest \<and> bytes_string tb = token" by (auto simp: gr)
  qed (simp_all add: s(1) e token_policy_rights)
qed

theorem matrixdbd_token_guards_witness:
  "\<exists>policy auth dm d.
     matrixdbd_main 10 10 \<lparr>ts_socket = True, ts_bind = (\<lambda>p. True), ts_listen = True\<rparr> (empty_disk 10)
       [''matrixdbd'', ''7070'', ''--token'', ''s3''] = Some (Serve (policy, auth, dm)) \<and>
     daemon_run policy auth [Accepted \<lparr>co_in = [[2, 0, 0, 0, 0x73, 0x33]], co_accepts = [], co_out = []\<rparr>, Shake 0] dm = Some d \<and>
     (\<exists>c. dm_workers d 0 = Some (Idle 1 c)) \<and> can_write policy 1 \<and> \<not> can_write policy 0"
proof -
  let ?net = "\<lparr>ts_socket = True, ts_bind = (\<lambda>p. True), ts_listen = True\<rparr>"
  let ?argv = "[''matrixdbd'', ''7070'', ''--token'', ''s3'']"
  let ?auth = "Some (add_credential ''s3'' 1 [])"
  let ?c = "\<lparr>co_in = [[2, 0, 0, 0, 0x73, 0x33]], co_accepts = [], co_out = []\<rparr>"
  obtain eng where eng: "default_engine 10 (empty_disk 10) = Some eng" "serve_ready eng" by (rule default_engine_ready)
  let ?p = "token_policy (eng_catalog eng)"
  have opt: "daemon_options (drop 2 ?argv) ([], []) = Some ([], ''s3'')" by simp
  have m: "matrixdbd_main 10 10 ?net (empty_disk 10) ?argv = Some (Serve (?p, ?auth, daemon_start eng))"
    using matrixdbd_no_snapshot [OF _ opt eng(1), of ?net 10] by simp
  have ac: "authenticate_conn (add_credential ''s3'' 1 []) 0 ?c = (True, 1, \<lparr>co_in = [], co_accepts = [], co_out = []\<rparr>)" by code_simp
  obtain d where d: "daemon_run ?p ?auth [Accepted ?c, Shake 0] (daemon_start eng) = Some d"
    "dm_workers d 0 = Some (Idle 1 \<lparr>co_in = [], co_accepts = [], co_out = []\<rparr>)"
    by (simp add: daemon_step_def daemon_start_def conc_init_def start_worker_def ac)
  have "cn_eng (dm_server (daemon_start eng)) = eng" by (simp add: daemon_start_def conc_init_def)
  then have "can_write ?p 1" "\<not> can_write ?p 0"
    using matrixdbd_token_guards [OF opt _ m _ d(1)] eng(2) by simp_all
  then show ?thesis using m d by blast
qed

text \<open>
  The options as the usage line means them: pairs of a name and a value, of which the last with a name counts. An
  argument that is left over at the end is in no pair.
\<close>

definition option_pairs :: "string list \<Rightarrow> (string \<times> string) list" where
  "option_pairs args = map (\<lambda>i. (args ! (2 * i), args ! (2 * i + 1))) [0..<length args div 2]"

definition last_value :: "string \<Rightarrow> (string \<times> string) list \<Rightarrow> string \<Rightarrow> string" where
  "last_value nm ps dflt = (case filter (\<lambda>p. fst p = nm) ps of [] \<Rightarrow> dflt | qs \<Rightarrow> snd (last qs))"

lemma option_pairs_simps [simp]:
  "option_pairs [] = []" "option_pairs [x] = []" "option_pairs (x # y # args) = (x, y) # option_pairs args"
proof -
  have "map (\<lambda>i. ((x # y # args) ! (2 * i), (x # y # args) ! (2 * i + 1))) [0..<Suc n] =
      (x, y) # map (\<lambda>i. (args ! (2 * i), args ! (2 * i + 1))) [0..<n]" for n
    by (simp add: upt_conv_Cons map_Suc_upt [symmetric] comp_def del: upt_Suc)
  then show "option_pairs (x # y # args) = (x, y) # option_pairs args" by (simp add: option_pairs_def)
qed (simp_all add: option_pairs_def)

lemma last_value_simps [simp]:
  "last_value nm [] dflt = dflt" "last_value nm ((n, v) # ps) dflt = last_value nm ps (if n = nm then v else dflt)"
  by (auto simp: last_value_def split: list.split)

lemma daemon_options_pairs:
  "daemon_options args (snapshot, token) =
     (if \<exists>p \<in> set (option_pairs args). fst p \<notin> {''--open'', ''--token''} then None
      else Some (last_value ''--open'' (option_pairs args) snapshot, last_value ''--token'' (option_pairs args) token))"
  by (induction args "(snapshot, token)" arbitrary: snapshot token rule: daemon_options.induct) simp_all

lemma option_pairs_odd: "even (length args) \<Longrightarrow> option_pairs (args @ [x]) = option_pairs args"
proof (induction args rule: induct_list012)
  case (3 a b args)
  then show ?case by simp
qed simp_all

text \<open>
  C40. How \<open>matrixdbd\<close> starts, on every branch. It exits with 2 without a port, and when one of its options has an
  unknown name. Otherwise the snapshot is the last value of \<open>--open\<close> and the token the last value of \<open>--token\<close>. It exits with
  1 when the snapshot is not loaded, as it is not when the file does not exist, and when the socket cannot be
  created, bound or listened on, with a snapshot and without; when loading aborts, so does the daemon. Else it serves the
  loaded catalog: with a token a new connection starts with the handshake, and without one it may read, write and
  query everything at once. A last option without a value is dropped whatever it is and whatever precedes it.
\<close>

theorem matrixdbd_starts:
  assumes "default_engine room disk = Some eng" "ps = option_pairs (drop 2 argv)"
    and "snapshot = last_value ''--open'' ps []" "token = last_value ''--token'' ps []"
    and loaded: "loaded = (if snapshot = [] then Some (True, eng_catalog eng) else load_catalog mem snapshot disk (eng_catalog eng))"
    and listens: "listens = (let port = ucast (strtoull (argv ! 1)) in ts_socket net \<and> ts_bind net port \<and> ts_listen net)"
  shows "matrixdbd_main mem room net disk argv =
      (if length argv < 2 \<or> (\<exists>p \<in> set ps. fst p \<notin> {''--open'', ''--token''}) then Some (Exit 2)
       else case loaded of
         None \<Rightarrow> None
       | Some (ok, ce) \<Rightarrow>
           Some (if \<not> ok \<or> \<not> listens then Exit 1
                 else if token = [] then Serve (permissive, None, daemon_start (eng\<lparr>eng_catalog := ce\<rparr>))
                 else Serve (token_policy ce, Some (add_credential token 1 []), daemon_start (eng\<lparr>eng_catalog := ce\<rparr>)))) \<and>
    (snapshot \<noteq> [] \<and> dk_files disk snapshot = None \<longrightarrow> loaded = Some (False, eng_catalog eng)) \<and>
    (2 \<le> length argv \<and> even (length argv) \<longrightarrow>
      matrixdbd_main mem room net disk (argv @ [x]) = matrixdbd_main mem room net disk argv) \<and>
    (\<forall>e c d. daemon_step permissive None (Accepted c) (daemon_start e) = Some d \<longrightarrow> dm_workers d 0 = Some (Idle 0 (c\<lparr>co_out := []\<rparr>))) \<and>
    (\<forall>a e c d. daemon_step policy (Some a) (Accepted c) (daemon_start e) = Some d \<longrightarrow> dm_workers d 0 = Some (Handshake (c\<lparr>co_out := []\<rparr>))) \<and>
    (\<forall>who col. can_read permissive who \<and> can_write permissive who \<and> can_query permissive who col)"
proof (intro conjI)
  have opts: "daemon_options (drop 2 argv) ([], []) =
      (if \<exists>p \<in> set ps. fst p \<notin> {''--open'', ''--token''} then None else Some (snapshot, token))"
    using assms(2-4) by (simp add: daemon_options_pairs)
  show "matrixdbd_main mem room net disk argv =
      (if length argv < 2 \<or> (\<exists>p \<in> set ps. fst p \<notin> {''--open'', ''--token''}) then Some (Exit 2)
       else case loaded of
         None \<Rightarrow> None
       | Some (ok, ce) \<Rightarrow>
           Some (if \<not> ok \<or> \<not> listens then Exit 1
                 else if token = [] then Serve (permissive, None, daemon_start (eng\<lparr>eng_catalog := ce\<rparr>))
                 else Serve (token_policy ce, Some (add_credential token 1 []), daemon_start (eng\<lparr>eng_catalog := ce\<rparr>))))"
    unfolding matrixdbd_main_def opts
    by (cases loaded) (auto simp: assms(1) loaded [symmetric] listens Let_def matrix_serve_tcp_def matrix_serve_tcp_auth_def)
  show "snapshot \<noteq> [] \<and> dk_files disk snapshot = None \<longrightarrow> loaded = Some (False, eng_catalog eng)"
    by (simp add: loaded load_catalog_def)
  show "2 \<le> length argv \<and> even (length argv) \<longrightarrow> matrixdbd_main mem room net disk (argv @ [x]) = matrixdbd_main mem room net disk argv"
    using option_pairs_odd [of "drop 2 argv" x] by (auto simp: matrixdbd_main_def daemon_options_pairs nth_append)
qed (simp_all add: daemon_step_def start_worker_def daemon_start_def can_read_def can_write_def can_query_def permissive_def no_grants_def)

theorem matrixdbd_starts_witness:
  "\<exists>eng. matrixdbd_main 10 10 \<lparr>ts_socket = True, ts_bind = (\<lambda>p. True), ts_listen = True\<rparr> (empty_disk 10)
     [''matrixdbd'', ''7070'', ''--token''] = Some (Serve (permissive, None, daemon_start eng))"
proof -
  let ?net = "\<lparr>ts_socket = True, ts_bind = (\<lambda>p. True), ts_listen = True\<rparr>"
  obtain eng where eng: "default_engine 10 (empty_disk 10) = Some eng" by (rule default_engine_ready)
  have "matrixdbd_main 10 10 ?net (empty_disk 10) [''matrixdbd'', ''7070'', ''--token''] = Some (Serve (permissive, None, daemon_start (eng\<lparr>eng_catalog := eng_catalog eng\<rparr>)))"
    using matrixdbd_starts [OF eng refl refl refl refl refl, where mem = 10 and net = ?net and argv = "[''matrixdbd'', ''7070'']" and x = "''--token''"] by simp
  then show ?thesis by blast
qed

end
