(* ===== verification/Catalog_Meta.thy ===== *)
theory Catalog_Meta
  imports Query_Parser
begin

text \<open>
  A frame for queries (\<open>compute_mock.cpp\<close>): the reading operations of the engine, from a single scan
  to the textual front ends, change neither which columns there are nor their names and dictionaries.
\<close>

section \<open>What queries leave alone\<close>

text \<open>
  The ids of the columns, their names and their dictionaries: queries never change them, whatever
  tiers the columns move to.
\<close>

definition catalog_meta :: "catalog_engine \<Rightarrow> u64 list \<times> (u64 \<rightharpoonup> string) \<times> (string \<rightharpoonup> u64) \<times> (u64 \<times> string list) list" where
  "catalog_meta ce = (map fst (ce_catalog ce), ce_column_names ce, ce_name_to_id ce, ce_string_dicts ce)"

named_theorems keeps_meta

lemma al_upd_keys_known: "map_of m k = Some w \<Longrightarrow> map fst (al_upd k v m) = map fst m"
  by (rule al_upd_keys_present) (metis domI dom_map_of_conv_image_fst)

lemma note_access_meta [keeps_meta]: "note_access cid ce = Some ce' \<Longrightarrow> catalog_meta ce' = catalog_meta ce"
  by (auto simp: note_access_def catalog_meta_def bind_eq_Some_conv)

lemma borrow_meta [keeps_meta]: "borrow cid ce = Some (home, ce') \<Longrightarrow> catalog_meta ce' = catalog_meta ce"
  by (auto simp: borrow_def catalog_meta_def bind_eq_Some_conv column_at_def al_upd_keys_known split: if_splits)

lemma give_back_meta [keeps_meta]: "give_back cid home ce = Some ce' \<Longrightarrow> catalog_meta ce' = catalog_meta ce"
  by (auto simp: give_back_def catalog_meta_def bind_eq_Some_conv column_at_def al_upd_keys_known split: if_splits)

lemma executor_keys: "executor_apply plan cols = Some (n, cols') \<Longrightarrow> map fst cols' = map fst cols"
  by (induction plan cols arbitrary: n rule: executor_apply.induct) (auto simp: al_upd_keys_known split: option.splits)

lemma maybe_rebalance_meta [keeps_meta]: "maybe_rebalance ce = Some ce' \<Longrightarrow> catalog_meta ce' = catalog_meta ce"
  by (auto simp: maybe_rebalance_def catalog_meta_def bind_eq_Some_conv Let_def split: if_splits prod.splits dest: executor_keys)

lemma scan_column_with_meta [keeps_meta]: "scan_column_with f cid ce = Some (r, ce') \<Longrightarrow> catalog_meta ce' = catalog_meta ce"
  by (auto simp: scan_column_with_def bind_eq_Some_conv dest!: keeps_meta)

lemma pair_columns_with_meta [keeps_meta]: "pair_columns_with f k v ce = Some (r, ce') \<Longrightarrow> catalog_meta ce' = catalog_meta ce"
  by (auto simp: pair_columns_with_def bind_eq_Some_conv dest!: keeps_meta)

lemma borrow_all_meta [keeps_meta]: "borrow_all ids borrowed ce = Some (bs, ce') \<Longrightarrow> catalog_meta ce' = catalog_meta ce"
  by (induction ids arbitrary: borrowed ce) (fastforce simp: bind_eq_Some_conv dest: keeps_meta split: if_splits)+

lemma return_all_meta [keeps_meta]: "return_all borrowed ce = Some ce' \<Longrightarrow> catalog_meta ce' = catalog_meta ce"
proof -
  have "opt_fold (\<lambda>(cid, home). give_back cid home) bs ce = Some ce' \<Longrightarrow> catalog_meta ce' = catalog_meta ce" for bs ce
    by (induction bs arbitrary: ce) (auto simp: bind_eq_Some_conv dest!: keeps_meta split: option.splits)
  then show "return_all borrowed ce = Some ce' \<Longrightarrow> catalog_meta ce' = catalog_meta ce" unfolding return_all_def .
qed

lemma cross_filter_meta [keeps_meta]:
  "scalar_cross_filter q ce = Some (x, ce') \<Longrightarrow> catalog_meta ce' = catalog_meta ce"
  "grouped_cross_filter q ce = Some (xs, ce') \<Longrightarrow> catalog_meta ce' = catalog_meta ce"
  by (auto simp: scalar_cross_filter_def grouped_cross_filter_def bind_eq_Some_conv simp del: borrow_all.simps dest!: keeps_meta)

lemma aggregate_meta [keeps_meta]:
  "scan_tiered_column v p op h ce = Some (x, ce') \<Longrightarrow> catalog_meta ce' = catalog_meta ce"
  "scan_tiered_column_i64 v pi op h ce = Some (x, ce') \<Longrightarrow> catalog_meta ce' = catalog_meta ce"
  "scan_tiered_column_f64 v pf op h ce = Some (x, ce') \<Longrightarrow> catalog_meta ce' = catalog_meta ce"
  "scalar_aggregate_nullable q ce = Some (x, ce') \<Longrightarrow> catalog_meta ce' = catalog_meta ce"
  "grouped_aggregate k v G op ce = Some (xs, ce') \<Longrightarrow> catalog_meta ce' = catalog_meta ce"
  "grouped_aggregate_pred k v G op p ce = Some (xs, ce') \<Longrightarrow> catalog_meta ce' = catalog_meta ce"
  "grouped_aggregate_i64 k v G op pi h ce = Some (xs, ce') \<Longrightarrow> catalog_meta ce' = catalog_meta ce"
  "grouped_aggregate_f64 k v G op pf h ce = Some (xs, ce') \<Longrightarrow> catalog_meta ce' = catalog_meta ce"
  by (auto simp: scan_tiered_column_def scan_tiered_column_i64_def scan_tiered_column_f64_def scalar_aggregate_nullable_def
    grouped_aggregate_def grouped_aggregate_pred_def grouped_aggregate_i64_def grouped_aggregate_f64_def bind_eq_Some_conv
    dest!: keeps_meta split: if_splits)

lemma execute_query_meta [keeps_meta]: "execute_query ns q ce = Some (st, out, ce') \<Longrightarrow> catalog_meta ce' = catalog_meta ce"
proof -
  have "catalog_meta ce1 = catalog_meta ce" if "execute_query_impl q ce = Some (st, out, ce1)" for st out ce1
    using that unfolding execute_query_impl_def Let_def
    by (simp add: reject_def scalar_ok_def grouped_ok_def split: if_splits; elim exE conjE) (auto dest!: keeps_meta)
  moreover have "catalog_meta (record_query_latency ns ce1) = catalog_meta ce1" for ce1
    by (simp add: record_query_latency_def catalog_meta_def Let_def)
  ultimately show "execute_query ns q ce = Some (st, out, ce') \<Longrightarrow> catalog_meta ce' = catalog_meta ce"
    by (auto simp: execute_query_def)
qed

lemma parse_query_meta [keeps_meta]: "parse_query sql ce = Some (st, q, ce') \<Longrightarrow> catalog_meta ce' = catalog_meta ce"
proof -
  have "derive_num_groups_u32 kid ce = Some (n, ce') \<Longrightarrow> catalog_meta ce' = catalog_meta ce" for kid n ce'
    by (auto simp: derive_num_groups_u32_def bind_eq_Some_conv Let_def dest!: keeps_meta)
  then have "parse_group ce q k = Some (r, ce') \<Longrightarrow> catalog_meta ce' = catalog_meta ce" for q k r ce'
    by (auto simp: parse_group_def Let_def split: if_splits prod.splits)
  then have "parse_query_impl sql ce = Some (r, ce') \<Longrightarrow> catalog_meta ce' = catalog_meta ce" for r ce'
    by (auto simp: parse_query_impl_def split: sum.splits prod.splits option.splits if_splits)
  then show "parse_query sql ce = Some (st, q, ce') \<Longrightarrow> catalog_meta ce' = catalog_meta ce"
    unfolding parse_query_def by (cases "parse_query_impl sql ce") (fastforce split: sum.splits)+
qed

lemma row_ops_meta [keeps_meta]:
  "gather cid rows ce = Some (vs, ce') \<Longrightarrow> catalog_meta ce' = catalog_meta ce"
  "matching_rows cid pred limit ce = Some (vs, ce') \<Longrightarrow> catalog_meta ce' = catalog_meta ce"
  "count_distinct cid ce = Some (n, ce') \<Longrightarrow> catalog_meta ce' = catalog_meta ce"
  "hash_join l r ce = Some (ps, ce') \<Longrightarrow> catalog_meta ce' = catalog_meta ce"
  "hash_join_i64 l r ce = Some (ps, ce') \<Longrightarrow> catalog_meta ce' = catalog_meta ce"
  "hash_join_count l r ce = Some (n, ce') \<Longrightarrow> catalog_meta ce' = catalog_meta ce"
  by (auto simp: gather_def matching_rows_def count_distinct_def hash_join_def hash_join_i64_def hash_join_count_def
    bind_eq_Some_conv Let_def dest!: keeps_meta split: if_splits)

lemma project_meta [keeps_meta]: "project cid h fcol pred limit ce = Some (vs, ce') \<Longrightarrow> catalog_meta ce' = catalog_meta ce"
  by (auto simp: project_def bind_eq_Some_conv Let_def dest!: keeps_meta split: if_splits)

lemma group_ops_meta [keeps_meta]:
  "top_groups ns q k ce = Some (ps, ce') \<Longrightarrow> catalog_meta ce' = catalog_meta ce"
  "having ns q c a b ce = Some (ps, ce') \<Longrightarrow> catalog_meta ce' = catalog_meta ce"
  "average ns1 ns2 q ce = Some (fs, ce') \<Longrightarrow> catalog_meta ce' = catalog_meta ce"
  by (auto simp: top_groups_def having_def average_def bind_eq_Some_conv dest!: keeps_meta split: if_splits)

lemma text_query_meta [keeps_meta]:
  "distinct_query sql ce = Some (n, ce') \<Longrightarrow> catalog_meta ce' = catalog_meta ce"
  "having_query ns sql ce = Some (ps, ce') \<Longrightarrow> catalog_meta ce' = catalog_meta ce"
  "avg_query ns1 ns2 sql ce = Some (fs, ce') \<Longrightarrow> catalog_meta ce' = catalog_meta ce"
  "top_query ns sql ce = Some (ps, ce') \<Longrightarrow> catalog_meta ce' = catalog_meta ce"
  "project_query sql ce = Some (vs, ce') \<Longrightarrow> catalog_meta ce' = catalog_meta ce"
  by (auto simp: distinct_query_def having_query_def avg_query_def top_query_def project_query_def bind_eq_Some_conv Let_def
    dest!: keeps_meta split: if_splits option.splits)

end
