(* ===== verification/CLI_Correct.thy ===== *)
theory CLI_Correct
  imports CLI Catalog_Meta
begin

text \<open>
  What the shell promises: which query lines always come back, which ones take the process down, and
  that the ids the shell gives to the columns it loads are never in use.
\<close>

section \<open>What query lines leave alone\<close>

lemma error_line_eq: "error_line msg ce = Some (t, ce') \<longleftrightarrow> ce' = ce \<and> t = ''Error: '' @ msg @ newline"
  by (auto simp: error_line_def)

text \<open>The steps of a form, without splitting its texts.\<close>

lemma bind_pairE: "Option.bind m (\<lambda>(a, b). k a b) = Some x \<Longrightarrow> (\<And>a b. m = Some (a, b) \<Longrightarrow> k a b = Some x \<Longrightarrow> P) \<Longrightarrow> P"
  by (cases m) auto

lemma bind_tripleE: "Option.bind m (\<lambda>(a, b, c). k a b c) = Some x \<Longrightarrow> (\<And>a b c. m = Some (a, b, c) \<Longrightarrow> k a b c = Some x \<Longrightarrow> P) \<Longrightarrow> P"
  by (cases m) auto

lemma ifE: "(if b then x else y) = z \<Longrightarrow> (b \<Longrightarrow> x = z \<Longrightarrow> P) \<Longrightarrow> (\<not> b \<Longrightarrow> y = z \<Longrightarrow> P) \<Longrightarrow> P"
  by (cases b) auto

lemma optionE: "(case x of None \<Rightarrow> a | Some y \<Rightarrow> b y) = z \<Longrightarrow> (x = None \<Longrightarrow> a = z \<Longrightarrow> P) \<Longrightarrow> (\<And>y. x = Some y \<Longrightarrow> b y = z \<Longrightarrow> P) \<Longrightarrow> P"
  by (cases x) auto

lemma sum_pairE: "(case x of Inl a \<Rightarrow> f a | Inr (b, c) \<Rightarrow> g b c) = z \<Longrightarrow> (\<And>a. x = Inl a \<Longrightarrow> f a = z \<Longrightarrow> P) \<Longrightarrow> (\<And>b c. x = Inr (b, c) \<Longrightarrow> g b c = z \<Longrightarrow> P) \<Longrightarrow> P"
  by (cases x) auto

lemma join_rows_meta [keeps_meta]: "join_rows wide l r ce = Some (ps, ce') \<Longrightarrow> catalog_meta ce' = catalog_meta ce"
  unfolding join_rows_def by (elim ifE) (auto dest!: row_ops_meta)

lemma join_aggregate_meta [keeps_meta]:
  "join_aggregate wide l r agg lcol gcol post mode ce = Some (t, ce') \<Longrightarrow> catalog_meta ce' = catalog_meta ce"
  unfolding join_aggregate_def Let_def
  by (elim bind_pairE ifE) (auto simp only: option.inject prod.inject dest!: join_rows_meta row_ops_meta)

lemma join_project_meta [keeps_meta]:
  "join_project wide l r lcol rcol limit mode ce = Some (t, ce') \<Longrightarrow> catalog_meta ce' = catalog_meta ce"
  unfolding join_project_def Let_def
  by (elim bind_pairE) (auto simp only: option.inject prod.inject dest!: join_rows_meta row_ops_meta)

lemma cli_join_meta [keeps_meta]: "cli_join line mode ce = Some (t, ce') \<Longrightarrow> catalog_meta ce' = catalog_meta ce"
  unfolding cli_join_def Let_def
  by (elim ifE optionE sum_pairE)
    (auto simp only: error_line_eq map_option_eq_Some prod.inject split_paired_all prod.case
      dest!: join_aggregate_meta join_project_meta row_ops_meta)

lemma cli_multi_loop_meta [keeps_meta]:
  "cli_multi_loop clk i ts tail acc ce = Some (r, ce') \<Longrightarrow> catalog_meta ce' = catalog_meta ce"
proof (induction ts arbitrary: i acc ce)
  case (Cons t ts)
  show ?case
  proof (cases "cli_trim t = []")
    case False
    then obtain st q ce1 where p: "parse_query (''SELECT '' @ cli_trim t @ tail) ce = Some (st, q, ce1)"
      using Cons.prems by (auto simp: bind_eq_Some_conv Let_def)
    show ?thesis
    proof (cases "st = OK")
      case True
      then obtain st2 out ce2 where e: "execute_query (clk i) q ce1 = Some (st2, out, ce2)"
        using Cons.prems False p by (auto simp: bind_eq_Some_conv Let_def)
      have "catalog_meta ce' = catalog_meta ce2"
        using Cons.prems Cons.IH False p e True by (auto split: if_splits)
      then show ?thesis using parse_query_meta [OF p] execute_query_meta [OF e] by simp
    qed (use Cons.prems False p in \<open>auto dest: keeps_meta\<close>)
  qed (use Cons in simp)
qed simp

lemma cli_having_meta [keeps_meta]: "cli_having clk line mode ce = Some (t, ce') \<Longrightarrow> catalog_meta ce' = catalog_meta ce"
  unfolding cli_having_def
  by (elim bind_tripleE bind_pairE ifE) (auto simp only: error_line_eq option.inject prod.inject dest!: parse_query_meta text_query_meta)

lemma cli_avg_meta [keeps_meta]: "cli_avg clk line mode ce = Some (t, ce') \<Longrightarrow> catalog_meta ce' = catalog_meta ce"
  unfolding cli_avg_def
  by (elim bind_pairE ifE) (auto simp only: error_line_eq option.inject prod.inject dest!: text_query_meta)

lemma cli_single_meta [keeps_meta]: "cli_single clk line mode ce = Some (t, ce') \<Longrightarrow> catalog_meta ce' = catalog_meta ce"
  unfolding cli_single_def
  by (elim bind_tripleE bind_pairE ifE)
    (auto simp only: error_line_eq option.inject prod.inject dest!: parse_query_meta execute_query_meta text_query_meta)

lemma cli_distinct_meta [keeps_meta]: "cli_distinct line ce = Some (t, ce') \<Longrightarrow> catalog_meta ce' = catalog_meta ce"
  unfolding cli_distinct_def
  by (elim bind_pairE) (auto simp only: error_line_eq option.inject prod.inject dest!: text_query_meta split: option.splits)

lemma cli_projection_meta [keeps_meta]: "cli_projection line mode ce = Some (t, ce') \<Longrightarrow> catalog_meta ce' = catalog_meta ce"
  unfolding cli_projection_def Let_def
  by (elim ifE bind_pairE) (auto simp only: error_line_eq option.inject prod.inject dest!: text_query_meta)

lemma cli_multi_meta [keeps_meta]:
  assumes "cli_multi clk line mode ce = Some (t, ce')"
  shows "catalog_meta ce' = catalog_meta ce"
proof -
  obtain ts tail r ce1 where l: "cli_multi_loop clk 0 ts tail [] ce = Some (r, ce1)"
    and r: "(case r of Inl _ \<Rightarrow> error_line ''could not run multi-aggregate query'' ce1
      | Inr cols \<Rightarrow> if cols = [] then error_line ''empty SELECT list'' ce1
          else map_option (\<lambda>text. (text, ce1)) (multi_table mode cols ce1)) = Some (t, ce')"
    using assms unfolding cli_multi_def Let_def bind_eq_Some_conv by fast
  have "ce' = ce1" using r by (cases r) (auto simp: error_line_def split: if_splits)
  then show ?thesis using cli_multi_loop_meta [OF l] by simp
qed

lemma run_sql_meta: "matrix_cli_run_sql clk line mode ce = Some (t, ce') \<Longrightarrow> catalog_meta ce' = catalog_meta ce"
  unfolding matrix_cli_run_sql_def by (auto dest!: keeps_meta split: if_splits)

section \<open>Query lines that always come back\<close>

definition shell_ready :: "catalog_engine \<Rightarrow> bool" where
  "shell_ready ce \<longleftrightarrow> query_ready ce \<and> names_ok ce"

definition same_catalog :: "catalog_engine \<Rightarrow> catalog_engine \<Rightarrow> bool" where
  "same_catalog ce ce' \<longleftrightarrow> query_ready ce' \<and> logical ce' = logical ce \<and> catalog_meta ce' = catalog_meta ce"

lemma same_catalog_ready: "shell_ready ce \<Longrightarrow> same_catalog ce ce' \<Longrightarrow> shell_ready ce'"
  by (auto simp: shell_ready_def same_catalog_def names_ok_def catalog_meta_def logical_def)

lemma same_catalog_trans: "same_catalog ce ce1 \<Longrightarrow> same_catalog ce1 ce2 \<Longrightarrow> same_catalog ce ce2"
  by (simp add: same_catalog_def)

lemma same_catalog_refl: "shell_ready ce \<Longrightarrow> same_catalog ce ce"
  by (simp add: same_catalog_def shell_ready_def)

text \<open>\<open>serves m ce\<close>: the operation returns, and the catalog is what it was in \<open>ce\<close>.\<close>

definition serves :: "('r \<times> catalog_engine) option \<Rightarrow> catalog_engine \<Rightarrow> bool" where
  "serves m ce \<longleftrightarrow> (\<exists>x ce'. m = Some (x, ce') \<and> same_catalog ce ce')"

definition serves3 :: "('a \<times> 'b \<times> catalog_engine) option \<Rightarrow> catalog_engine \<Rightarrow> bool" where
  "serves3 m ce \<longleftrightarrow> (\<exists>x y ce'. m = Some (x, y, ce') \<and> same_catalog ce ce')"

lemma serves_bind:
  assumes "shell_ready ce" "serves m ce" "\<And>x ce1. m = Some (x, ce1) \<Longrightarrow> shell_ready ce1 \<Longrightarrow> same_catalog ce ce1 \<Longrightarrow> serves (k x ce1) ce1"
  shows "serves (Option.bind m (\<lambda>(x, ce1). k x ce1)) ce"
proof -
  obtain x ce1 where m: "m = Some (x, ce1)" "same_catalog ce ce1" using assms(2) unfolding serves_def by (elim exE conjE) (rule that)
  then have "serves (k x ce1) ce1" using assms(3) [OF _ same_catalog_ready [OF assms(1)]] by simp
  then show ?thesis unfolding serves_def m(1) bind.bind_lunit prod.case using same_catalog_trans [OF m(2)] by blast
qed

lemma serves_bind3:
  assumes "shell_ready ce" "serves3 m ce" "\<And>x y ce1. m = Some (x, y, ce1) \<Longrightarrow> shell_ready ce1 \<Longrightarrow> same_catalog ce ce1 \<Longrightarrow> serves (k x y ce1) ce1"
  shows "serves (Option.bind m (\<lambda>(x, y, ce1). k x y ce1)) ce"
proof -
  obtain x y ce1 where m: "m = Some (x, y, ce1)" "same_catalog ce ce1" using assms(2) unfolding serves3_def by (elim exE conjE) (rule that)
  then have "serves (k x y ce1) ce1" using assms(3) [OF _ same_catalog_ready [OF assms(1)]] by simp
  then show ?thesis unfolding serves_def m(1) bind.bind_lunit prod.case using same_catalog_trans [OF m(2)] by blast
qed

lemma serves_Some [intro]: "shell_ready ce \<Longrightarrow> serves (Some (x, ce)) ce"
  by (simp add: serves_def same_catalog_refl)

lemma serves_error [intro]: "shell_ready ce \<Longrightarrow> serves (error_line msg ce) ce"
  by (simp add: error_line_def serves_Some)

lemma serves_map: "serves m ce \<Longrightarrow> serves (map_option (\<lambda>(x, ce'). (f x, ce')) m) ce"
  by (auto simp: serves_def)

lemma returns_serves:
  assumes "shell_ready ce" "returns m x ce" "\<And>y ce'. m = Some (y, ce') \<Longrightarrow> catalog_meta ce' = catalog_meta ce"
  shows "serves m ce"
proof -
  obtain ce' where m: "m = Some (x, ce')" "ce_ok ce'" "logical ce' = logical ce" using assms(2) by (auto simp: returns_def)
  then have "same_catalog ce ce'" using assms(1) assms(3) [OF m(1)] by (simp add: same_catalog_def shell_ready_def query_ready_def)
  then show ?thesis using m(1) by (simp add: serves_def)
qed

lemma parse_serves:
  assumes "shell_ready ce"
  shows "serves3 (parse_query sql ce) ce"
proof -
  obtain r b where r: "parse_query_impl sql ce = Some (r, ce\<lparr>ce_cold_borrows := b\<rparr>)"
    using parse_query_impl_typed [of ce sql] assms by (auto simp: shell_ready_def query_ready_def)
  have "same_catalog ce (ce\<lparr>ce_cold_borrows := b\<rparr>)"
    using assms borrow_count_ready [of ce b] by (simp add: same_catalog_def shell_ready_def catalog_meta_def)
  then show ?thesis using r by (cases r) (auto simp: serves3_def parse_query_def)
qed

lemma execute_serves:
  assumes "shell_ready ce"
  shows "serves3 (execute_query ns q ce) ce"
proof -
  obtain st out ce' where e: "execute_query ns q ce = Some (st, out, ce')" "query_ready ce'" "logical ce' = logical ce"
    using execute_query_answer [of ce ns q] assms by (auto simp: shell_ready_def)
  then show ?thesis using execute_query_meta [OF e(1)] by (auto simp: serves3_def same_catalog_def)
qed

lemma serves_map3: "serves3 m ce \<Longrightarrow> serves (map_option (\<lambda>(x, y, ce'). (f x y ce', ce')) m) ce"
  by (auto simp: serves_def serves3_def)

lemma group_ops_serve:
  assumes "shell_ready ce"
  shows "serves (top_groups ns q k ce) ce" "serves (having ns q c a b ce) ce" "serves (average ns1 ns2 q ce) ce"
proof -
  show "serves (top_groups ns q k ce) ce" "serves (having ns q c a b ce) ce"
    using assms serves_map3 [OF execute_serves [OF assms]] by (auto simp: top_groups_def having_def)
  show "serves (average ns1 ns2 q ce) ce"
    unfolding average_def using assms execute_serves by (intro serves_bind3) (auto intro!: serves_bind3)
qed

lemma count_distinct_serves:
  assumes "shell_ready ce" "contents ce cid \<noteq> None"
  shows "serves (count_distinct cid ce) ce"
proof -
  obtain bs where "contents ce cid = Some bs" using assms(2) by auto
  moreover have "ce_ok ce" using assms(1) by (simp add: shell_ready_def query_ready_def)
  ultimately show ?thesis
    using assms(1) by (intro returns_serves [OF _ _ row_ops_meta(3)]) (auto simp: count_distinct_def Let_def intro!: scan_returns)
qed

lemma text_query_serves:
  assumes "shell_ready ce"
  shows "serves (distinct_query sql ce) ce" "serves (having_query ns sql ce) ce" "serves (avg_query ns1 ns2 sql ce) ce" "serves (top_query ns sql ce) ce"
proof -
  have "contents ce (column_id ce c) \<noteq> None" if "column_id ce c \<noteq> 0" for c
    using column_id_contents that assms by (simp add: shell_ready_def)
  then show "serves (distinct_query sql ce) ce"
    unfolding distinct_query_def Let_def using assms by (auto intro!: serves_map [where f = Some] count_distinct_serves)
  show "serves (having_query ns sql ce) ce"
    unfolding having_query_def Let_def using assms parse_serves group_ops_serve
    by (auto intro!: serves_bind3 split: option.split)
  show "serves (avg_query ns1 ns2 sql ce) ce" "serves (top_query ns sql ce) ce"
    unfolding avg_query_def top_query_def Let_def using assms parse_serves group_ops_serve by (auto intro!: serves_bind3)
qed

lemma project_serves:
  assumes "shell_ready ce" "contents ce cid \<noteq> None"
    and "h \<longrightarrow> contents ce fcol \<noteq> None \<and> column_type ce fcol = U32 \<and> column_rows ce fcol = column_rows ce cid"
  shows "serves (project cid h fcol pred limit ce) ce"
proof -
  obtain bs where bs: "contents ce cid = Some bs" using assms(2) by auto
  have ok: "ce_ok ce" using assms(1) by (simp add: shell_ready_def query_ready_def)
  have "\<exists>x. returns (project cid h fcol pred limit ce) x ce"
  proof (cases h)
    case True
    then obtain fb where fb: "contents ce fcol = Some fb" "column_type ce fcol = U32" "column_rows ce fcol = column_rows ce cid"
      using assms(3) by auto
    then have "length fb div 4 = length bs div type_width (column_type ce cid)"
      using bs by (simp add: column_rows_contents [OF ok])
    from project_returns [OF ok bs fb(1) refl this, of pred limit] show ?thesis unfolding eqTrueI [OF True] by (rule exI)
  next
    case False
    then show ?thesis using project_all_returns [OF ok bs refl, of fcol pred limit] by auto
  qed
  then obtain x where r: "returns (project cid h fcol pred limit ce) x ce" ..
  show ?thesis using assms(1) r by (rule returns_serves) (rule project_meta)
qed

lemma project_query_serves:
  assumes "shell_ready ce"
  shows "serves (project_query sql ce) ce"
proof -
  have col: "contents ce (column_id ce c) \<noteq> None" if "column_id ce c \<noteq> 0" for c
    using column_id_contents that assms by (simp add: shell_ready_def)
  have ok: "ce_ok ce" using assms by (simp add: shell_ready_def query_ready_def)
  have "serves (do {
      (st, q, ce1) \<leftarrow> parse_query sql' ce;
      if st \<noteq> OK \<or> \<not> q_has_filter q then Some ([], ce1)
      else do {
        fr \<leftarrow> column_rows ce1 fcol;
        cr \<leftarrow> column_rows ce1 c;
        if fr \<noteq> cr then Some ([], ce1) else project c True fcol (pred_u32 q) limit ce1
      } }) ce" if c: "contents ce c \<noteq> None" and f: "contents ce fcol \<noteq> None" "column_type ce fcol = U32" for sql' c fcol limit
  proof (rule serves_bind3 [OF assms parse_serves [OF assms]])
    fix st q ce1 assume r: "shell_ready ce1" "same_catalog ce ce1"
    then have lg: "contents ce1 = contents ce" "column_type ce1 = column_type ce" "ce_ok ce1"
      by (auto simp: same_catalog_def logical_def query_ready_def)
    obtain cr fr where n: "column_rows ce1 c = Some cr" "column_rows ce1 fcol = Some fr"
      using c f(1) by (auto simp: column_rows_contents [OF lg(3)] lg(1))
    have "serves (project c True fcol (pred_u32 q) limit ce1) ce1" if "fr = cr"
      using project_serves [OF r(1)] c f lg n that by simp
    then show "serves (if st \<noteq> OK \<or> \<not> q_has_filter q then Some ([], ce1)
      else do {
        fr \<leftarrow> column_rows ce1 fcol;
        cr \<leftarrow> column_rows ce1 c;
        if fr \<noteq> cr then Some ([], ce1) else project c True fcol (pred_u32 q) limit ce1
      }) ce1" using n r(1) by auto
  qed
  then show ?thesis
    unfolding project_query_def Let_def using assms col project_serves [OF assms, where h = False] by auto
qed

lemma show_serves: "serves m ce \<Longrightarrow> serves (Option.bind m (\<lambda>(x, ce1). Some (f x ce1, ce1))) ce"
  by (auto simp: serves_def)

lemma cli_forms_serve:
  assumes "shell_ready ce"
  shows "serves (cli_distinct line ce) ce" "serves (cli_having clk line mode ce) ce" "serves (cli_avg clk line mode ce) ce"
    "serves (cli_single clk line mode ce) ce" "serves (cli_projection line mode ce) ce"
proof -
  show "serves (cli_distinct line ce) ce"
    unfolding cli_distinct_def using assms text_query_serves by (auto intro!: serves_bind split: option.split)
  show "serves (cli_having clk line mode ce) ce"
    unfolding cli_having_def using assms parse_serves text_query_serves by (auto intro!: serves_bind3 show_serves)
  show "serves (cli_avg clk line mode ce) ce"
    unfolding cli_avg_def using assms text_query_serves by (auto intro!: serves_bind)
  show "serves (cli_single clk line mode ce) ce"
    unfolding cli_single_def using assms parse_serves execute_serves text_query_serves
    by (intro serves_bind3) (auto intro!: serves_bind3 show_serves)
  show "serves (cli_projection line mode ce) ce"
    unfolding cli_projection_def Let_def using assms project_query_serves by (auto intro!: show_serves)
qed

section \<open>Lists of ungrouped aggregates\<close>

text \<open>A query is grouped only if its text has the keyword.\<close>

lemma find_from_None: "find_from pat i s = None \<Longrightarrow> pat \<noteq> [] \<Longrightarrow> \<not> sublist pat s"
proof (induction pat i s rule: find_from.induct)
  case (2 pat i c s)
  then have "\<not> prefix pat (c # s)" by (auto simp: prefix_def split: if_splits)
  then show ?case using 2 by (auto simp: sublist_Cons_right split: if_splits)
qed (simp split: if_splits)

lemma not_has_text: "\<not> has_text pat s \<Longrightarrow> pat \<noteq> [] \<Longrightarrow> \<not> sublist pat s"
  using find_from_None [of pat 0 s] by (simp add: has_text_def find_substring_def)

lemma find_from_Some: "find_from pat i s = Some j \<Longrightarrow> take (length pat) (drop (j - i) s) = pat"
proof (induction pat i s rule: find_from.induct)
  case (2 pat i c s)
  show ?case
  proof (cases "take (length pat) (c # s) = pat")
    case False
    then have "find_from pat (Suc i) s = Some j" using 2(2) by simp
    moreover from this have "j - i = Suc (j - Suc i)" using find_from_bound by fastforce
    ultimately show ?thesis using 2(1) False by simp
  qed (use 2(2) in simp)
qed (simp split: if_splits)

lemma token_sublist: "t \<in> set (matrixparse_tokenize s) \<Longrightarrow> sublist t s"
proof (induction s rule: matrixparse_tokenize.induct)
  case (2 c s)
  have tl: "sublist t (c # s)" if "sublist t s" for t using that by (simp add: sublist_Cons_right)
  have word: "sublist (c # takeWhile word_char s) (c # s)" by (simp add: takeWhile_is_prefix prefix_imp_sublist)
  have rest: "sublist t (dropWhile word_char s) \<Longrightarrow> sublist t (c # s)" "sublist t (tl s) \<Longrightarrow> sublist t (c # s)" for t
    by (metis tl sublist_order.order_trans suffix_dropWhile suffix_imp_sublist) (metis tl sublist_order.order_trans suffix_tl suffix_imp_sublist)
  have one: "sublist [c] (c # s)" by (simp add: prefix_imp_sublist)
  have two: "s \<noteq> [] \<Longrightarrow> hd s = d \<Longrightarrow> sublist [c, d] (c # s)" for d by (cases s) (simp_all add: prefix_imp_sublist)
  show ?case using 2 tl word rest one two by (auto split: if_splits)
qed simp

lemma up_sublist: "sublist t s \<Longrightarrow> sublist (up t) (up s)"
  by (auto simp: sublist_def up_def) blast

lemma sublist_around:
  assumes "sublist p (a @ c # b)" "c \<notin> set p"
  shows "sublist p a \<or> sublist p b"
proof -
  have "sublist p a" if "p = xs @ ys" "suffix xs a" "prefix ys (c # b)" for xs ys
    using that assms(2) by (cases ys) (auto intro: suffix_imp_sublist)
  moreover have "sublist p b" if "prefix p (c # b)" "p \<noteq> []"
    using that assms(2) by (cases p) auto
  ultimately show ?thesis using assms(1) by (cases "p = []") (auto simp: sublist_append sublist_Cons_right)
qed

lemma next_token_tl: "snd (next_token k) = tl k"
  by (simp add: next_token_def split: list.split)

lemma set_tl: "set (tl k) \<subseteq> set k"
  by (cases k) auto

text \<open>The parts of the parser drop tokens from the front and leave the grouping alone.\<close>

definition drops :: "string list \<Rightarrow> bool \<Rightarrow> query_status + matrix_query \<times> string list \<Rightarrow> bool" where
  "drops k g r \<longleftrightarrow> (case r of Inl _ \<Rightarrow> True | Inr (q, k') \<Rightarrow> set k' \<subseteq> set k \<and> q_grouped q = g)"

lemma drops_simps [simp]: "drops k g (Inl st)" "drops k g (Inr (q, k')) \<longleftrightarrow> set k' \<subseteq> set k \<and> q_grouped q = g"
  by (simp_all add: drops_def)

lemma tl_subset:
  "set (tl k) \<subseteq> set k" "set (tl (tl k)) \<subseteq> set k" "set (tl (tl (tl k))) \<subseteq> set k" "set (tl (tl (tl (tl (tl k))))) \<subseteq> set k"
  by (meson set_tl subset_trans)+

lemma number_pred_drops: "drops k (q_grouped q) (parse_number_pred ty ops k q)"
proof -
  have "q_grouped q' = q_grouped q" if "set_bound ty (q\<lparr>q_cmp := c\<rparr>) lo v = Some q'" for c lo v q'
    using set_bound_fields [OF that] by simp
  moreover have "q_grouped q'' = q_grouped q'" if "set_bound ty q' lo v = Some q''" for lo v q' q''
    using set_bound_fields [OF that] by simp
  ultimately show ?thesis
    by (simp add: parse_number_pred_def Let_def case_prod_unfold next_token_tl tl_subset split: option.split)
qed

lemma string_pred_drops: "drops k (q_grouped q) (parse_string_pred ce pcol dict ops k q)"
  by (simp add: parse_string_pred_def Let_def case_prod_unfold next_token_tl tl_subset)

lemma drops_mono: "drops k' g r \<Longrightarrow> set k' \<subseteq> set k \<Longrightarrow> drops k g r"
  by (auto simp: drops_def split: sum.splits)

lemma parse_where_drops: "drops k (q_grouped q) (parse_where ce q k)"
proof -
  have "drops k (q_grouped q) (parse_number_pred ty ops (tl (tl (tl k))) (q\<lparr>q_filter_col := f, q_has_filter := True\<rparr>))"
    "drops k (q_grouped q) (parse_string_pred ce pcol dict ops (tl (tl (tl k))) (q\<lparr>q_filter_col := f, q_has_filter := True\<rparr>))" for ty ops f pcol dict
    using drops_mono [OF number_pred_drops tl_subset(3), of k "q\<lparr>q_filter_col := f, q_has_filter := True\<rparr>"]
      drops_mono [OF string_pred_drops tl_subset(3), of k "q\<lparr>q_filter_col := f, q_has_filter := True\<rparr>"] by simp_all
  then show ?thesis by (simp add: parse_where_def Let_def case_prod_unfold next_token_tl split: option.split)
qed

lemma parse_select_drops: "parse_select ce k = Inr (q, a, k') \<Longrightarrow> set k' \<subseteq> set k \<and> \<not> q_grouped q"
  using tl_subset(4) [of k]
  by (simp add: parse_select_def Let_def case_prod_unfold next_token_tl split: if_splits option.splits) (auto simp: default_query_def)

lemma parse_order_grouped: "parse_order ce a q k = Inr (q', k') \<Longrightarrow> q_grouped q' = q_grouped q"
  by (auto simp: parse_order_def Let_def case_prod_unfold split: if_splits option.splits)

lemma parse_group_keyword: "parse_group ce q k = Some (Inr (q', k'), ce') \<Longrightarrow> \<not> q_grouped q \<Longrightarrow> q_grouped q' \<Longrightarrow> \<exists>t \<in> set k. up t = ''GROUP''"
  by (cases k) (auto simp: parse_group_def peek_token_def split: if_splits)

lemma grouped_has_keyword:
  assumes "parse_query sql ce = Some (st, q, ce')" "q_grouped q"
  shows "sublist ''GROUP'' (up sql)"
proof -
  obtain r where r: "parse_query_impl sql ce = Some (r, ce')" "(case r of Inl st' \<Rightarrow> (st', default_query, ce') | Inr q' \<Rightarrow> (OK, q', ce')) = (st, q, ce')"
    using assms(1) unfolding parse_query_def by (cases "parse_query_impl sql ce") (fastforce split: sum.splits)+
  have "parse_query_impl sql ce = Some (Inr q, ce')" using r assms(2) by (cases r) (auto simp: default_query_def)
  then obtain q1 a k1 q2 k2 q3 k3 k4 where
    p: "parse_select ce (matrixparse_tokenize sql) = Inr (q1, a, k1)" "parse_where ce q1 k1 = Inr (q2, k2)"
      "parse_group ce q2 k2 = Some (Inr (q3, k3), ce')" "parse_order ce' a q3 k3 = Inr (q, k4)"
    unfolding parse_query_impl_def by (auto split: sum.splits option.splits prod.splits if_splits)
  have k1: "set k1 \<subseteq> set (matrixparse_tokenize sql)" "\<not> q_grouped q1" using parse_select_drops [OF p(1)] by simp_all
  have k2: "set k2 \<subseteq> set k1" "\<not> q_grouped q2" using parse_where_drops [of k1 q1 ce] k1(2) by (simp_all add: p(2))
  have "q_grouped q3" using parse_order_grouped [OF p(4)] assms(2) by simp
  from parse_group_keyword [OF p(3) k2(2) this] obtain t where "t \<in> set k2" "up t = ''GROUP''" by blast
  then show ?thesis using token_sublist up_sublist k1(1) k2(1) by (metis subsetD)
qed

lemma split_on_sublist: "t \<in> set (split_on d s) \<Longrightarrow> sublist t s"
proof (induction d s rule: split_on.induct)
  case (1 d s)
  let ?t = "takeWhile (\<lambda>c. c \<noteq> d) s"
  have hd: "sublist ?t s" by (simp add: takeWhile_is_prefix prefix_imp_sublist)
  show ?case
  proof (cases "length ?t = length s")
    case True
    then show ?thesis using 1(2) hd by (simp add: split_on.simps [of d s])
  next
    case False
    then have "t = ?t \<or> t \<in> set (split_on d (drop (Suc (length ?t)) s))" using 1(2) by (auto simp: split_on.simps [of d s] Let_def)
    moreover have "sublist (drop (Suc (length ?t)) s) s" by (simp add: suffix_drop suffix_imp_sublist)
    ultimately show ?thesis using 1(1) [OF refl False] hd sublist_order.order_trans by metis
  qed
qed

lemma cli_trim_sublist: "sublist (cli_trim s) s"
proof -
  have "suffix (dropWhile cli_blank (rev (dropWhile cli_blank s))) (rev (dropWhile cli_blank s))" by (rule suffix_dropWhile)
  then have "prefix (cli_trim s) (dropWhile cli_blank s)" by (simp add: cli_trim_def suffix_to_prefix)
  then show ?thesis by (meson prefix_imp_sublist suffix_dropWhile suffix_imp_sublist sublist_order.order_trans)
qed

lemma no_keyword:
  assumes "\<not> sublist ''GROUP'' (up term)" "\<not> sublist ''GROUP'' (up tail)" "tail = [] \<or> (\<exists>r. tail = CHR '' '' # r)"
  shows "\<not> sublist ''GROUP'' (up (''SELECT '' @ term @ tail))"
proof
  define g where "g = ''GROUP''"
  have space: "CHR '' '' \<notin> set g" by (simp add: g_def)
  assume "sublist ''GROUP'' (up (''SELECT '' @ term @ tail))"
  moreover have sel: "up ''SELECT '' = ''SELECT'' @ [CHR '' '']" "toupper (CHR '' '') = CHR '' ''" by code_simp+
  ultimately have "sublist g (''SELECT'' @ CHR '' '' # up (term @ tail))"
    unfolding up_def map_append g_def by (simp only: append_assoc append_Cons append_Nil)
  then have "sublist g ''SELECT'' \<or> sublist g (up (term @ tail))" using space by (rule sublist_around)
  moreover have "\<not> set g \<subseteq> set ''SELECT''" by (simp add: g_def)
  ultimately have t: "sublist g (up (term @ tail))" using set_mono_sublist by blast
  note no = assms(1,2) [folded g_def]
  from assms(3) show False
  proof
    assume "tail = []"
    then show False using t no(1) by simp
  next
    assume "\<exists>r. tail = CHR '' '' # r"
    then obtain r where "tail = CHR '' '' # r" ..
    then have r: "up (term @ tail) = up term @ CHR '' '' # up r" "up tail = CHR '' '' # up r" using sel(2) by (simp_all add: up_def)
    have "sublist g (up term) \<or> sublist g (up r)" using t [unfolded r(1)] space by (rule sublist_around)
    then show False using no unfolding r(2) by (simp add: sublist_Cons_right)
  qed
qed

lemma cli_multi_loop_serves:
  assumes "shell_ready ce" "\<forall>t \<in> set ts. \<not> sublist ''GROUP'' (up (''SELECT '' @ cli_trim t @ tail))" "\<forall>c \<in> set acc. \<not> q_grouped (fst c)"
  shows "\<exists>r ce'. cli_multi_loop clk i ts tail acc ce = Some (r, ce') \<and> same_catalog ce ce' \<and>
    (\<forall>cols. r = Inr cols \<longrightarrow> (\<forall>c \<in> set cols. \<not> q_grouped (fst c)))"
  using assms
proof (induction ts arbitrary: i acc ce)
  case Nil
  then show ?case by (simp add: same_catalog_refl)
next
  case (Cons t ts)
  define sql where "sql = ''SELECT '' @ cli_trim t @ tail"
  have no: "\<not> sublist ''GROUP'' (up sql)" unfolding sql_def by (rule bspec [OF Cons.prems(2)]) simp
  have ts: "\<forall>t \<in> set ts. \<not> sublist ''GROUP'' (up (''SELECT '' @ cli_trim t @ tail))" using Cons.prems(2) by (meson list.set_intros(2))
  note IH = Cons.IH [OF _ ts]
  obtain st q ce1 where p: "parse_query sql ce = Some (st, q, ce1)" "same_catalog ce ce1"
    using parse_serves [OF Cons.prems(1)] unfolding serves3_def by blast
  have r1: "shell_ready ce1" using Cons.prems(1) p(2) by (rule same_catalog_ready)
  obtain st' out ce2 where e: "execute_query (clk i) q ce1 = Some (st', out, ce2)" "same_catalog ce1 ce2"
    using execute_serves [OF r1] unfolding serves3_def by blast
  have r2: "shell_ready ce2" "same_catalog ce ce2"
    using same_catalog_ready [OF r1 e(2)] same_catalog_trans [OF p(2) e(2)] by simp_all
  have acc: "\<forall>c \<in> set (acc @ [(q, out, cli_trim t)]). \<not> q_grouped (fst c)"
    using grouped_has_keyword [OF p(1)] no Cons.prems(3) by auto
  obtain r ce' where IH2: "cli_multi_loop clk (Suc i) ts tail (acc @ [(q, out, cli_trim t)]) ce2 = Some (r, ce')" "same_catalog ce2 ce'"
    "\<forall>cols. r = Inr cols \<longrightarrow> (\<forall>c \<in> set cols. \<not> q_grouped (fst c))"
    using IH [OF r2(1) acc, of "Suc i"] by (elim exE conjE) (rule that)
  have "cli_multi_loop clk i (t # ts) tail acc ce =
      (if cli_trim t = [] then cli_multi_loop clk i ts tail acc ce
       else if st \<noteq> OK then Some (Inl (), ce1) else if st' \<noteq> OK then Some (Inl (), ce2) else Some (r, ce'))"
    by (simp only: cli_multi_loop.simps Let_def sql_def [symmetric] p(1) e(1) IH2(1) bind.bind_lunit prod.case)
  then show ?case
    using IH [OF Cons.prems(1,3), of i] p(2) r2(2) IH2(3) same_catalog_trans [OF r2(2) IH2(2)] by (simp split: if_split)
qed

lemma toupper_space:
  assumes "toupper x = CHR '' ''"
  shows "x = CHR '' ''"
proof (rule ccontr)
  assume "x \<noteq> CHR '' ''"
  then have x: "97 \<le> (of_char x :: nat)" "(of_char x :: nat) \<le> 122" "char_of (of_char x - 32 :: nat) = CHR '' ''"
    using assms by (auto simp: toupper_def Let_def split: if_splits)
  have "of_char (char_of (of_char x - 32 :: nat)) = (of_char x - 32 :: nat)" using x(2) by simp
  then show False using x by simp
qed

lemma multi_cut_tail:
  assumes "multi_cut line = Some c"
  shows "\<exists>r. drop c line = CHR '' '' # r"
proof -
  let ?ps = "List.map_filter (\<lambda>kw. find_substring kw 0 (up line)) ['' WHERE'', '' GROUP'', '' ORDER'']"
  have "c = Min (set ?ps)" "?ps \<noteq> []" using assms by (auto simp: multi_cut_def Let_def split: if_splits)
  then have "c \<in> set ?ps" using Min_in [of "set ?ps"] by simp
  then obtain kw where kw: "kw \<in> {'' WHERE'', '' GROUP'', '' ORDER''}" "find_from kw 0 (up line) = Some c"
    by (auto simp: map_filter_def find_substring_def split: if_splits)
  from find_from_Some [OF kw(2)] have "take (length kw) (map toupper (drop c line)) = kw" by (simp add: up_def drop_map)
  then have "drop c line \<noteq> [] \<and> toupper (hd (drop c line)) = CHR '' ''" using kw(1) by (cases "drop c line") auto
  moreover have "x = CHR '' ''" if "toupper x = CHR '' ''" for x using that by (rule toupper_space)
  ultimately show ?thesis by (cases "drop c line") auto
qed

lemma cli_multi_serves:
  assumes "shell_ready ce" "\<not> has_text ''GROUP'' (up line)"
  shows "serves (cli_multi clk line mode ce) ce"
proof -
  let ?list = "case multi_cut line of None \<Rightarrow> drop 6 line | Some c \<Rightarrow> take (c - 6) (drop 6 line)"
  let ?tail = "case multi_cut line of None \<Rightarrow> [] | Some c \<Rightarrow> drop c line"
  have no: "\<not> sublist ''GROUP'' (up s)" if "sublist s line" for s
    using not_has_text [OF assms(2)] up_sublist [OF that] sublist_order.order_trans by blast
  have sub: "sublist (drop n line) line" "sublist (take m (drop n line)) line" for m n
    by (meson suffix_drop take_is_prefix suffix_imp_sublist prefix_imp_sublist sublist_order.order_trans)+
  have "sublist ?list line" "sublist ?tail line" using sub by (auto split: option.split)
  then have tail: "\<not> sublist ''GROUP'' (up ?tail)" and list: "sublist t line" if "t \<in> set (split_on (CHR '','') ?list)" for t
    using no split_on_sublist that sublist_order.order_trans by blast+
  have "?tail = [] \<or> (\<exists>r. ?tail = CHR '' '' # r)" using multi_cut_tail by (auto split: option.split)
  then have "\<forall>t \<in> set (split_on (CHR '','') ?list). \<not> sublist ''GROUP'' (up (''SELECT '' @ cli_trim t @ ?tail))"
    using tail list no cli_trim_sublist sublist_order.order_trans by (intro ballI no_keyword) blast+
  from cli_multi_loop_serves [OF assms(1) this, of "[]" clk 0] obtain r ce' where
    l: "cli_multi_loop clk 0 (split_on (CHR '','') ?list) ?tail [] ce = Some (r, ce')" "same_catalog ce ce'"
      "\<forall>cols. r = Inr cols \<longrightarrow> (\<forall>c \<in> set cols. \<not> q_grouped (fst c))" by auto
  have "\<exists>x. multi_table mode cols ce' = Some x" if "r = Inr cols" "cols \<noteq> []" for cols
    using l(3) that by (cases cols) (auto simp: multi_table_def)
  then show ?thesis
    using l(2) unfolding cli_multi_def Let_def l(1) bind.bind_lunit prod.case
    by (cases r) (auto simp: serves_def error_line_def)
qed

text \<open>
  C33. Query lines come back. On a well-formed catalog whose names stand for columns, the router
  answers every line that is neither a join nor a list of aggregates with a GROUP clause: it returns
  with some output, an error message included, and the columns, their contents, types, names and
  dictionaries are what they were, so the next line finds the shell in the same state.
\<close>

theorem cli_lines_come_back:
  assumes "query_ready ce" "names_ok ce"
    and "\<not> has_text '' JOIN '' (up line)" "is_multi line \<longrightarrow> \<not> has_text ''GROUP'' (up line)"
  shows "\<exists>out ce'. matrix_cli_run_sql clk line mode ce = Some (out, ce') \<and> query_ready ce' \<and> names_ok ce' \<and>
    logical ce' = logical ce \<and> catalog_meta ce' = catalog_meta ce"
proof -
  have r: "shell_ready ce" using assms(1,2) by (simp add: shell_ready_def)
  have "serves (matrix_cli_run_sql clk line mode ce) ce"
    using assms(3,4) cli_forms_serve [OF r] cli_multi_serves [OF r] by (simp add: matrix_cli_run_sql_def)
  then show ?thesis using same_catalog_ready [OF r] by (fastforce simp: serves_def same_catalog_def shell_ready_def)
qed

lemma init_names: "names_ok (catalog_init cap room)"
  by (simp add: names_ok_def catalog_init_def)

theorem cli_lines_come_back_witness:
  "\<exists>out ce'. matrix_cli_run_sql (\<lambda>_. 0) ''SELECT SUM(a), MAX(b) WHERE c > 3'' TABLE (catalog_init 10 10) = Some (out, ce') \<and>
     logical ce' = logical (catalog_init 10 10)"
proof -
  let ?line = "''SELECT SUM(a), MAX(b) WHERE c > 3''"
  have "\<not> has_text '' JOIN '' (up ?line)" "is_multi ?line \<longrightarrow> \<not> has_text ''GROUP'' (up ?line)" by code_simp+
  from cli_lines_come_back [OF init_ready init_names this, of "\<lambda>_. 0" TABLE] show ?thesis by blast
qed

section \<open>Query lines that take the process down\<close>

text \<open>
  COUNT over a join of 64-bit keys aborts. The router accepts two \<open>int64_t\<close> key columns, but sends
  COUNT(*) to \<open>hash_join_count\<close>, which asserts \<open>uint32_t\<close> columns: the line takes the process down, on
  every engine, although the shell promises that no input aborts.
\<close>

theorem cli_count_join_aborts:
  assumes "column_id ce ''a'' \<noteq> 0" "column_id ce ''b'' \<noteq> 0"
    and "column_type ce (column_id ce ''a'') = TI64" "column_type ce (column_id ce ''b'') = TI64"
    and "string_dict_size ce (column_id ce ''a'') = 0" "string_dict_size ce (column_id ce ''b'') = 0"
  shows "matrix_cli_run_sql clk ''SELECT COUNT(*) JOIN a = b'' mode ce = None"
proof -
  let ?line = "''SELECT COUNT(*) JOIN a = b''"
  have j: "has_text '' JOIN '' (up ?line)" by code_simp
  have tk: "split_ws ?line = [''SELECT'', ''COUNT(*)'', ''JOIN'', ''a'', ''='', ''b'']" by code_simp
  have u: "takeWhile (\<lambda>t. up t \<noteq> ''JOIN'') [''SELECT'', ''COUNT(*)'', ''JOIN'', ''a'', ''='', ''b''] = [''SELECT'', ''COUNT(*)'']" by code_simp
  have c: "has_text ''COUNT'' (up ''COUNT(*)'')" "CHR ''*'' \<in> set ''COUNT(*)''" by code_simp+
  have "cli_join ?line mode ce = map_option (\<lambda>(n, ce'). (show_u64 n @ newline, ce')) (hash_join_count (column_id ce ''a'') (column_id ce ''b'') ce)"
    unfolding cli_join_def tk Let_def u using assms c by (simp add: numeral_nat)
  also have "\<dots> = None" using assms(3) by (simp add: hash_join_count_def)
  finally show ?thesis unfolding matrix_cli_run_sql_def using j by (simp only: if_True)
qed

theorem cli_count_join_aborts_witness:
  "\<exists>ce. Option.bind (Option.bind (load_scan_column_i64 7 [I64 1] (catalog_init 1000 1000)) (name_column 7 ''a'')) (name_column 7 ''b'') = Some ce \<and>
     matrix_cli_run_sql (\<lambda>_. 0) ''SELECT COUNT(*) JOIN a = b'' CSV ce = None"
proof -
  obtain ce where ce: "Option.bind (Option.bind (load_scan_column_i64 7 [I64 1] (catalog_init 1000 1000)) (name_column 7 ''a'')) (name_column 7 ''b'') = Some ce"
    by (simp add: load_scan_column_i64_def load_bytes_def catalog_init_def name_column_def catalog_has_def)
  then have "column_id ce ''a'' = 7" "column_id ce ''b'' = 7" "column_type ce 7 = TI64" "string_dict_size ce 7 = 0"
    by (auto simp: load_scan_column_i64_def load_bytes_def catalog_init_def name_column_def catalog_has_def column_id_def column_type_def string_dict_size_def)
  then show ?thesis using ce cli_count_join_aborts [of ce "\<lambda>_. 0" CSV] by auto
qed

text \<open>Parsing the two aggregates of the line below.\<close>

lemma parse_grouped_sum:
  assumes "ce_ok ce" "column_id ce ''a'' \<noteq> 0" "column_id ce ''k'' \<noteq> 0" "column_type ce (column_id ce ''k'') = U32" "contents ce (column_id ce ''k'') = Some kb"
  shows "\<exists>ce1. parse_query ''SELECT SUM(a)GROUP BY k'' ce = Some (OK, default_query\<lparr>q_value_col := column_id ce ''a'', q_agg := AGG_SUM, q_grouped := True,
    q_key_col := column_id ce ''k'', q_num_groups := group_count kb\<rparr>, ce1)"
proof -
  obtain b where d: "derive_num_groups_u32 (column_id ce ''k'') ce = Some (group_count kb, ce\<lparr>ce_cold_borrows := b\<rparr>)"
    using derive_num_groups_eq [OF assms(1,5)] by blast
  have tk: "matrixparse_tokenize ''SELECT SUM(a)GROUP BY k'' = [''SELECT'', ''SUM'', ''('', ''a'', '')'', ''GROUP'', ''BY'', ''k'']" by code_simp
  have u: "up ''SELECT'' = ''SELECT''" "up ''SUM'' = ''SUM''" "up ''GROUP'' = ''GROUP''" "up ''BY'' = ''BY''" "agg_of ''SUM'' = Some AGG_SUM"
    by code_simp+
  let ?q = "default_query\<lparr>q_value_col := column_id ce ''a'', q_agg := AGG_SUM\<rparr>"
  have "parse_select ce (matrixparse_tokenize ''SELECT SUM(a)GROUP BY k'') = Inr (?q, ''SUM'', [''GROUP'', ''BY'', ''k''])"
    using assms(2) unfolding tk parse_select_def next_token_def by (simp add: u)
  moreover have "parse_where ce ?q [''GROUP'', ''BY'', ''k''] = Inr (?q, [''GROUP'', ''BY'', ''k''])"
    by (simp add: parse_where_def peek_token_def u)
  moreover have "parse_group ce ?q [''GROUP'', ''BY'', ''k''] =
      Some (Inr (?q\<lparr>q_grouped := True, q_key_col := column_id ce ''k'', q_num_groups := group_count kb\<rparr>, []), ce\<lparr>ce_cold_borrows := b\<rparr>)"
    using assms(3,4) d by (simp add: parse_group_def peek_token_def next_token_def u)
  ultimately show ?thesis by (simp add: parse_query_def parse_query_impl_def parse_order_def peek_token_def)
qed

lemma parse_plain_sum:
  assumes "column_id ce ''b'' \<noteq> 0"
  shows "parse_query ''SELECT SUM(b)'' ce = Some (OK, default_query\<lparr>q_value_col := column_id ce ''b'', q_agg := AGG_SUM\<rparr>, ce)"
proof -
  have tk: "matrixparse_tokenize ''SELECT SUM(b)'' = [''SELECT'', ''SUM'', ''('', ''b'', '')'']" by code_simp
  have u: "up ''SELECT'' = ''SELECT''" "up ''SUM'' = ''SUM''" "agg_of ''SUM'' = Some AGG_SUM" by code_simp+
  let ?q = "default_query\<lparr>q_value_col := column_id ce ''b'', q_agg := AGG_SUM\<rparr>"
  have "parse_select ce (matrixparse_tokenize ''SELECT SUM(b)'') = Inr (?q, ''SUM'', [])"
    using assms unfolding tk parse_select_def next_token_def by (simp add: u)
  then show ?thesis by (simp add: parse_query_def parse_query_impl_def parse_where_def parse_group_def parse_order_def peek_token_def)
qed

lemma those_None: "None \<in> set xs \<Longrightarrow> those xs = None"
  by (induction xs) (auto split: option.splits)

lemma execute_answer_OK:
  assumes "shell_ready ce" "query_check (logical ce) q = OK"
  shows "\<exists>ce'. execute_query ns q ce = Some (OK, snd (answer (logical ce) q), ce')"
  using execute_query_answer [of ce ns q] assms by (auto simp: shell_ready_def answer_def)

lemma mixed_list_columns:
  assumes ready: "shell_ready ce" "ce_ok ce" and ids: "column_id ce ''a'' \<noteq> 0" "column_id ce ''b'' \<noteq> 0" "column_id ce ''k'' \<noteq> 0"
    and a: "contents ce (column_id ce ''a'') = Some ab" "column_type ce (column_id ce ''a'') = U32"
    and k: "contents ce (column_id ce ''k'') = Some kb" "column_type ce (column_id ce ''k'') = U32"
      "column_id ce ''k'' \<noteq> column_id ce ''a''" "length ab = length kb"
    and G: "group_count kb \<noteq> 0" "group_count kb \<le> ce_max_query_groups ce"
  shows "\<exists>q1 out1 q2 out2 ce3. cli_multi_loop clk 0 ['' SUM(a)GROUP BY k'', ''SUM(b)''] [] [] ce =
      Some (Inr [(q1, out1, ''SUM(a)GROUP BY k''), (q2, out2, ''SUM(b)'')], ce3) \<and>
    q_grouped q1 \<and> length out1 = unat (group_count kb) \<and> length out2 = 1"
proof -
  define q1 where "q1 = default_query\<lparr>q_value_col := column_id ce ''a'', q_agg := AGG_SUM, q_grouped := True,
    q_key_col := column_id ce ''k'', q_num_groups := group_count kb\<rparr>"
  obtain ce1 where p1: "parse_query ''SELECT SUM(a)GROUP BY k'' ce = Some (OK, q1, ce1)"
    using parse_grouped_sum [OF ready(2) ids(1,3) k(2,1)] unfolding q1_def by blast
  have s1: "same_catalog ce ce1" using parse_serves [OF ready(1), of "''SELECT SUM(a)GROUP BY k''"] unfolding serves3_def p1 by blast
  have r1: "shell_ready ce1" using ready(1) s1 by (rule same_catalog_ready)
  have q1: "query_check (logical ce) q1 = OK" "q_grouped q1" "q_num_groups q1 = group_count kb"
    using a k G by (auto simp: query_check_def q1_def default_query_def crossing_def lg_bytes_def logical_def not_less)
  obtain out1 ce2 where e1: "execute_query (clk 0) q1 ce1 = Some (OK, out1, ce2)" "length out1 = unat (group_count kb)"
    using execute_answer_OK [OF r1, of q1 "clk 0"] q1 s1 answer_grouped_length [OF q1(2)] by (auto simp: same_catalog_def answer_def)
  have s2: "same_catalog ce1 ce2" using execute_serves [OF r1, of "clk 0" q1] unfolding serves3_def e1(1) by blast
  have r2: "shell_ready ce2" using r1 s2 by (rule same_catalog_ready)
  have "column_id ce2 = column_id ce" using s1 s2 by (simp add: same_catalog_def catalog_meta_def column_id_def fun_eq_iff)
  then have b: "column_id ce2 ''b'' \<noteq> 0" using ids(2) by simp
  define q2 where "q2 = default_query\<lparr>q_value_col := column_id ce2 ''b'', q_agg := AGG_SUM\<rparr>"
  note p2 = parse_plain_sum [OF b, folded q2_def]
  have "contents ce2 (column_id ce2 ''b'') \<noteq> None" using column_id_contents [OF _ b] r2 by (simp add: shell_ready_def)
  then have q2: "query_check (logical ce2) q2 = OK" "\<not> q_grouped q2"
    by (auto simp: query_check_def q2_def default_query_def crossing_def logical_def Let_def)
  obtain out2 ce3 where e2: "execute_query (clk (Suc 0)) q2 ce2 = Some (OK, out2, ce3)" "length out2 = 1"
    using execute_answer_OK [OF r2 q2(1), of "clk (Suc 0)"] q2 by (auto simp: answer_def)
  have t: "cli_trim '' SUM(a)GROUP BY k'' = ''SUM(a)GROUP BY k''" "cli_trim ''SUM(b)'' = ''SUM(b)''" by code_simp+
  have "cli_multi_loop clk 0 ['' SUM(a)GROUP BY k'', ''SUM(b)''] [] [] ce =
      Some (Inr [(q1, out1, ''SUM(a)GROUP BY k''), (q2, out2, ''SUM(b)'')], ce3)"
    by (simp add: t p1 p2 e1(1) e2(1))
  then show ?thesis using q1(2) e1(2) e2(2) by blast
qed

text \<open>
  A list that groups only its first aggregate reads beyond a vector. The cut before the tail looks
  for a keyword after a space, so a GROUP written directly after the parenthesis stays in its term:
  the first query is grouped and the second is not, and the table is printed for the groups of the
  first. With two groups or more the row of the second group reads \<open>rs[1][1]\<close> of a result with one
  element.
\<close>

theorem cli_mixed_list_reads_beyond:
  assumes "query_ready ce" "names_ok ce" "column_id ce ''a'' \<noteq> 0" "column_id ce ''b'' \<noteq> 0" "column_id ce ''k'' \<noteq> 0"
    and "contents ce (column_id ce ''a'') = Some ab" "column_type ce (column_id ce ''a'') = U32"
    and "contents ce (column_id ce ''k'') = Some kb" "column_type ce (column_id ce ''k'') = U32"
    and "column_id ce ''k'' \<noteq> column_id ce ''a''" "length ab = length kb"
    and "2 \<le> group_count kb" "group_count kb \<le> ce_max_query_groups ce"
  shows "matrix_cli_run_sql clk ''SELECT SUM(a)GROUP BY k,SUM(b)'' mode ce = None"
proof -
  let ?line = "''SELECT SUM(a)GROUP BY k,SUM(b)''"
  have route: "\<not> has_text '' JOIN '' (up ?line)" "\<not> has_text ''DISTINCT'' (up ?line)" "\<not> has_text ''HAVING'' (up ?line)"
    "\<not> has_text ''AVG('' (up ?line)" "is_multi ?line" "multi_cut ?line = None"
    "split_on (CHR '','') (drop 6 ?line) = ['' SUM(a)GROUP BY k'', ''SUM(b)'']" by code_simp+
  have "shell_ready ce" "ce_ok ce" "group_count kb \<noteq> 0" using assms(1,2,12) by (auto simp: shell_ready_def query_ready_def)
  from mixed_list_columns [OF this(1,2) assms(3-11) this(3) assms(13), of clk] obtain q1 out1 q2 out2 ce3 where
    l: "cli_multi_loop clk 0 ['' SUM(a)GROUP BY k'', ''SUM(b)''] [] [] ce =
      Some (Inr [(q1, out1, ''SUM(a)GROUP BY k''), (q2, out2, ''SUM(b)'')], ce3)" and
    q: "q_grouped q1" "length out1 = unat (group_count kb)" "length out2 = 1" by blast
  have "1 < length out1" using assms(12) q(2) by (simp add: word_le_nat_alt)
  moreover have "multi_row mode key [(q1, out1, l1), (q2, out2, l2)] ce3 1 = None" for key l1 l2 using q(3) by (simp add: multi_row_def those_None)
  ultimately have "multi_table mode [(q1, out1, l1), (q2, out2, l2)] ce3 = None" for l1 l2
    using q(1) by (auto simp: multi_table_def intro!: those_None) (metis atLeast0LessThan image_eqI lessThan_iff)
  then have "cli_multi clk ?line mode ce = None"
    unfolding cli_multi_def route(6) Let_def option.case route(7) l by simp
  then show ?thesis unfolding matrix_cli_run_sql_def using route(1-5) by (simp only: if_True if_False simp_thms)
qed

text \<open>Naming a column changes nothing a query depends on.\<close>

lemma name_column_ready:
  assumes "query_ready ce" "names_ok ce" "contents ce cid \<noteq> None"
  shows "\<exists>ce'. name_column cid name ce = Some ce' \<and> query_ready ce' \<and> names_ok ce' \<and> logical ce' = logical ce \<and>
    column_id ce' = (column_id ce)(name := cid) \<and> ce_string_dicts ce' = ce_string_dicts ce \<and> ce_tmp_room ce' = ce_tmp_room ce \<and> ce_null_masks ce' = ce_null_masks ce"
proof -
  let ?ce = "ce\<lparr>ce_column_names := (ce_column_names ce)(cid \<mapsto> name), ce_name_to_id := (ce_name_to_id ce)(name \<mapsto> cid)\<rparr>"
  have ok: "ce_ok ce" using assms(1) by (simp add: query_ready_def)
  then have "name_column cid name ce = Some ?ce" using assms(3) by (simp add: name_column_def catalog_has_contents)
  moreover have lg: "logical ?ce = logical ce" by (rule logical_cong) (simp_all add: contents_def fun_eq_iff)
  moreover have "ce_ok ?ce" using ok by (intro ce_ok_cong [OF ok]) (simp_all add: ce_ok_def)
  moreover have "contents ?ce = contents ce" by (simp add: contents_def fun_eq_iff)
  ultimately show ?thesis
    using assms by (intro exI [of _ ?ce]) (auto simp: query_ready_def names_ok_def column_id_def fun_eq_iff split: if_splits)
qed

theorem cli_mixed_list_reads_beyond_witness:
  "\<exists>ce. do { ce \<leftarrow> load_scan_column 7 [5, 9] (catalog_init 1000 1000); ce \<leftarrow> load_scan_column 8 [0, 1] ce; ce \<leftarrow> name_column 7 ''a'' ce;
       ce \<leftarrow> name_column 7 ''b'' ce; name_column 8 ''k'' ce } = Some ce \<and>
     matrix_cli_run_sql (\<lambda>_. 0) ''SELECT SUM(a)GROUP BY k,SUM(b)'' LIST ce = None"
proof -
  let ?a = "concat (map u32_bytes [5, 9])" and ?k = "concat (map u32_bytes [0, 1])"
  obtain c1 where c1: "load_scan_column 7 [5, 9] (catalog_init 1000 1000) = Some c1" "query_ready c1" "contents c1 = [7 \<mapsto> ?a]" "column_type c1 = (\<lambda>_. U32)"
    "ce_max_query_groups c1 = MAX_QUERY_GROUPS" "map_of (ce_null_masks c1) = Map.empty"
    using fresh_column_ready [of 7 "[5, 9]" 1000 1000] by (auto simp: logical_def)
  have f: "ce_tmp_room c1 = 1000" "ce_name_to_id c1 = Map.empty"
    using c1(1) by (auto simp: load_scan_column_def load_bytes_def catalog_init_def split: if_splits)
  obtain c2 where c2: "load_scan_column 8 [0, 1] c1 = Some c2" "query_ready c2" "logical c2 = (logical c1)\<lparr>lg_data := (contents c1)(8 \<mapsto> ?k)\<rparr>"
    using load_ready [OF c1(2), of 8 "[0, 1]"] c1(3,6) f(1) by auto
  have l2: "contents c2 = [7 \<mapsto> ?a, 8 \<mapsto> ?k]" "column_type c2 = (\<lambda>_. U32)" "ce_max_query_groups c2 = MAX_QUERY_GROUPS"
    using c2(3) c1(3-5) by (simp_all add: logical_def)
  have "ce_name_to_id c2 = Map.empty" using c2(1) f(2) by (auto simp: load_scan_column_def load_bytes_def split: if_splits)
  then have n2: "names_ok c2" "column_id c2 = (\<lambda>_. 0)" by (simp_all add: names_ok_def column_id_def fun_eq_iff)
  obtain c3 where c3: "name_column 7 ''a'' c2 = Some c3" "query_ready c3" "names_ok c3" "logical c3 = logical c2" "column_id c3 = (column_id c2)(''a'' := 7)"
    using name_column_ready [OF c2(2) n2(1), of 7 "''a''"] l2(1) by auto
  have l3: "contents c3 = contents c2" using c3(4) by (simp add: logical_def)
  obtain c4 where c4: "name_column 7 ''b'' c3 = Some c4" "query_ready c4" "names_ok c4" "logical c4 = logical c3" "column_id c4 = (column_id c3)(''b'' := 7)"
    using name_column_ready [OF c3(2,3), of 7 "''b''"] l2(1) l3 by auto
  have l4: "contents c4 = contents c2" using c4(4) l3 by (simp add: logical_def)
  obtain ce where ce: "name_column 8 ''k'' c4 = Some ce" "query_ready ce" "names_ok ce" "logical ce = logical c4" "column_id ce = (column_id c4)(''k'' := 8)"
    using name_column_ready [OF c4(2,3), of 8 "''k''"] l2(1) l4 by auto
  have lg: "logical ce = logical c2" using ce(4) c4(4) c3(4) by simp
  then have l: "contents ce = [7 \<mapsto> ?a, 8 \<mapsto> ?k]" "column_type ce = (\<lambda>_. U32)" "ce_max_query_groups ce = MAX_QUERY_GROUPS"
    using l2 by (simp_all add: logical_def)
  have ids: "column_id ce ''a'' = 7" "column_id ce ''b'' = 7" "column_id ce ''k'' = 8" using ce(5) c4(5) c3(5) by simp_all
  have "group_count ?k = 2" by code_simp
  then have "matrix_cli_run_sql (\<lambda>_. 0) ''SELECT SUM(a)GROUP BY k,SUM(b)'' LIST ce = None"
    using cli_mixed_list_reads_beyond [OF ce(2,3), of ?a ?k "\<lambda>_. 0" LIST] l ids by (simp add: MAX_QUERY_GROUPS_def)
  then show ?thesis using c1(1) c2(1) c3(1) c4(1) ce(1) by simp
qed

section \<open>The ids of the columns a session loads\<close>

abbreviation catalog_ids :: "catalog_engine \<Rightarrow> u64 list" where
  "catalog_ids ce \<equiv> map fst (ce_catalog ce)"

text \<open>The next id is above every id in use, and at most one more than the lines so far.\<close>

definition ids_below :: "nat \<Rightarrow> cli \<Rightarrow> bool" where
  "ids_below n s \<longleftrightarrow> (\<forall>k \<in> set (catalog_ids (cl_engine s)). k < cl_next_id s) \<and> cl_next_id s \<noteq> 0 \<and> unat (cl_next_id s) \<le> Suc n"

lemma ids_below_Suc: "ids_below n s \<Longrightarrow> ids_below (Suc n) s"
  by (simp add: ids_below_def)

lemma ids_below_same: "ids_below n s \<Longrightarrow> catalog_ids (cl_engine s') = catalog_ids (cl_engine s) \<Longrightarrow> cl_next_id s' = cl_next_id s \<Longrightarrow> ids_below (Suc n) s'"
  by (simp add: ids_below_def)

lemma meta_ids: "catalog_meta ce' = catalog_meta ce \<Longrightarrow> catalog_ids ce' = catalog_ids ce"
  by (simp add: catalog_meta_def)

lemma bind_someE: "Option.bind m k = Some x \<Longrightarrow> (\<And>a. m = Some a \<Longrightarrow> k a = Some x \<Longrightarrow> P) \<Longrightarrow> P"
  by (cases m) auto

lemma case_pairE: "(case e of (a, b) \<Rightarrow> k a b) = z \<Longrightarrow> (\<And>a b. e = (a, b) \<Longrightarrow> k a b = z \<Longrightarrow> P) \<Longrightarrow> P"
  by (cases e) auto

lemma save_columns_meta [keeps_meta]: "save_columns tmp ids st ce = Some (ok, st', ce') \<Longrightarrow> catalog_meta ce' = catalog_meta ce"
proof (induction ids arbitrary: st ce)
  case (Cons cid ids)
  from Cons.prems show ?case
    unfolding save_columns.simps Let_def
    by (elim bind_someE case_pairE ifE) (auto simp only: option.inject prod.inject dest!: borrow_meta give_back_meta Cons.IH)
qed simp

lemma save_catalog_meta [keeps_meta]: "save_catalog path d ce = Some (ok, d', ce') \<Longrightarrow> catalog_meta ce' = catalog_meta ce"
  unfolding save_catalog_def Let_def
  by (elim optionE bind_someE case_pairE ifE) (auto simp only: option.inject prod.inject dest!: save_columns_meta)

lemma load_ids:
  "load_bytes cid bytes ce = Some ce' \<Longrightarrow> catalog_ids ce' = catalog_ids ce @ [cid]"
  "load_scan_column cid data ce = Some ce' \<Longrightarrow> catalog_ids ce' = catalog_ids ce @ [cid]"
  "load_scan_column_i64 cid idata ce = Some ce' \<Longrightarrow> catalog_ids ce' = catalog_ids ce @ [cid]"
  "load_scan_column_f64 cid fdata ce = Some ce' \<Longrightarrow> catalog_ids ce' = catalog_ids ce @ [cid]"
  "load_string_column_dict cid sdata ce = Some ce' \<Longrightarrow> catalog_ids ce' = catalog_ids ce @ [cid]"
proof -
  have b: "load_bytes cid bytes ce = Some ce' \<Longrightarrow> catalog_ids ce' = catalog_ids ce @ [cid]" for bytes ce'
    by (auto simp: load_bytes_def al_upd_keys_absent map_of_eq_None_iff split: if_splits)
  then show "load_bytes cid bytes ce = Some ce' \<Longrightarrow> catalog_ids ce' = catalog_ids ce @ [cid]" .
  show s: "load_scan_column cid data ce = Some ce' \<Longrightarrow> catalog_ids ce' = catalog_ids ce @ [cid]" for data ce'
    using b by (simp add: load_scan_column_def)
  show "load_scan_column_i64 cid idata ce = Some ce' \<Longrightarrow> catalog_ids ce' = catalog_ids ce @ [cid]"
    "load_scan_column_f64 cid fdata ce = Some ce' \<Longrightarrow> catalog_ids ce' = catalog_ids ce @ [cid]"
    using b by (auto simp: load_scan_column_i64_def load_scan_column_f64_def)
  show "load_string_column_dict cid sdata ce = Some ce' \<Longrightarrow> catalog_ids ce' = catalog_ids ce @ [cid]"
    using s by (auto simp: load_string_column_dict_def Let_def split: if_splits)
qed

text \<open>A load from a CSV file adds its id, or fails and adds nothing.\<close>

definition adds_id :: "u64 \<Rightarrow> catalog_engine \<Rightarrow> (bool \<times> catalog_engine) option \<Rightarrow> bool" where
  "adds_id cid ce m \<longleftrightarrow> (\<forall>ok ce'. m = Some (ok, ce') \<longrightarrow> catalog_ids ce' = (if ok then catalog_ids ce @ [cid] else catalog_ids ce))"

lemma csv_load_ids:
  "adds_id cid ce (load_column_from_csv cid path col header d dk ce)"
  "adds_id cid ce (load_column_from_csv_i64 cid path col header d dk ce)"
  "adds_id cid ce (load_column_from_csv_f64 cid path col header d dk ce)"
  "adds_id cid ce (load_string_column_from_csv cid path col header d dk ce)"
  unfolding adds_id_def load_column_from_csv_def load_column_from_csv_i64_def load_column_from_csv_f64_def load_string_column_from_csv_def
  by (auto dest: load_ids split: option.splits)

lemma name_column_ids: "name_column cid name ce = Some ce' \<Longrightarrow> catalog_ids ce' = catalog_ids ce"
  by (auto simp: name_column_def split: if_splits)

text \<open>The load a \<open>.load\<close> line asks for; \<open>None\<close> when the type is unknown.\<close>

definition csv_load :: "string list \<Rightarrow> cli \<Rightarrow> (bool \<times> catalog_engine) option option" where
  "csv_load tk s =
     (let type = tk ! 3; (col, header) = fold load_option (drop 4 tk) (0, True) in
      if type = ''u32'' then Some (load_column_from_csv (cl_next_id s) (tk ! 1) col header (CHR '','') (cl_disk s) (cl_engine s))
      else if type = ''i64'' then Some (load_column_from_csv_i64 (cl_next_id s) (tk ! 1) col header (CHR '','') (cl_disk s) (cl_engine s))
      else if type = ''f64'' then Some (load_column_from_csv_f64 (cl_next_id s) (tk ! 1) col header (CHR '','') (cl_disk s) (cl_engine s))
      else if type = ''str'' then Some (load_string_column_from_csv (cl_next_id s) (tk ! 1) col header (CHR '','') (cl_disk s) (cl_engine s))
      else None)"

lemma csv_load_adds: "csv_load tk s = Some m \<Longrightarrow> adds_id (cl_next_id s) (cl_engine s) m"
  unfolding csv_load_def Let_def by (elim case_pairE ifE) (auto simp: csv_load_ids)

lemma say_eq: "say t s = Some (out, s') \<longleftrightarrow> out = t @ newline \<and> s' = s"
  by (auto simp: say_def)

definition load_outcome :: "string \<Rightarrow> string \<Rightarrow> (nat \<Rightarrow> string) \<Rightarrow> string list \<Rightarrow> cli \<Rightarrow> (string \<times> cli) option" where
  "load_outcome bad failed loaded tk s =
     (case csv_load tk s of None \<Rightarrow> say bad s
      | Some r \<Rightarrow> do {
          (ok, ce1) \<leftarrow> r;
          if \<not> ok then say failed (s\<lparr>cl_engine := ce1\<rparr>)
          else do {
            ce2 \<leftarrow> name_column (cl_next_id s) (tk ! 2) ce1;
            n \<leftarrow> column_rows ce2 (cl_next_id s);
            say (loaded n) (s\<lparr>cl_engine := ce2, cl_next_id := cl_next_id s + 1\<rparr>)
          }
        })"

lemma cli_load_eq:
  assumes "\<not> length tk < 4"
  shows "\<exists>bad failed loaded. cli_load tk s = load_outcome bad failed loaded tk s"
proof -
  obtain col header where ch: "fold load_option (drop 4 tk) (0, True) = (col, header)" by (rule prod.exhaust)
  show ?thesis
    by (intro exI) (unfold cli_load_def load_outcome_def csv_load_def Let_def ch prod.case if_not_P [OF assms], rule refl)
qed

lemma cli_load_ids:
  assumes "cli_load tk s = Some (out, s')"
  shows "catalog_ids (cl_engine s') = catalog_ids (cl_engine s) \<and> cl_next_id s' = cl_next_id s \<or>
    catalog_ids (cl_engine s') = catalog_ids (cl_engine s) @ [cl_next_id s] \<and> cl_next_id s' = cl_next_id s + 1"
proof (cases "length tk < 4")
  case True
  then show ?thesis using assms by (simp add: cli_load_def say_eq)
next
  case False
  from cli_load_eq [OF this, of s] assms obtain bad failed loaded where "load_outcome bad failed loaded tk s = Some (out, s')" by metis
  then show ?thesis
    unfolding load_outcome_def
    by (elim optionE bind_someE case_pairE ifE; auto simp: say_eq adds_id_def dest!: csv_load_adds name_column_ids)
qed

lemma cli_save_ids: "cli_save tk s = Some (out, s') \<Longrightarrow> catalog_ids (cl_engine s') = catalog_ids (cl_engine s) \<and> cl_next_id s' = cl_next_id s"
  unfolding cli_save_def
  by (elim ifE bind_someE case_pairE) (auto simp: say_eq dest!: save_catalog_meta meta_ids)

lemma cli_query_ids: "cli_query clk us line s = Some (out, s') \<Longrightarrow> catalog_ids (cl_engine s') = catalog_ids (cl_engine s) \<and> cl_next_id s' = cl_next_id s"
  unfolding cli_query_def by (elim bind_someE case_pairE) (auto dest!: run_sql_meta meta_ids)

lemma cli_settings_ids:
  "cli_timing tk s = Some (out, s') \<Longrightarrow> cl_engine s' = cl_engine s \<and> cl_next_id s' = cl_next_id s"
  "cli_mode tk s = Some (out, s') \<Longrightarrow> cl_engine s' = cl_engine s \<and> cl_next_id s' = cl_next_id s"
  by (auto simp: cli_timing_def cli_mode_def say_def Let_def split: if_splits)

lemma cli_load_below:
  assumes "ids_below n s" "Suc n < 2 ^ 64 - 1" "cli_load tk s = Some (out, s')"
  shows "ids_below (Suc n) s'"
proof -
  have next_id: "unat (cl_next_id s + 1) = Suc (unat (cl_next_id s))"
    using assms(1,2) by (simp add: ids_below_def unat_plus_if')
  from cli_load_ids [OF assms(3)] show ?thesis
  proof (elim disjE conjE)
    assume e: "catalog_ids (cl_engine s') = catalog_ids (cl_engine s) @ [cl_next_id s]" "cl_next_id s' = cl_next_id s + 1"
    have old: "\<forall>k \<in> set (catalog_ids (cl_engine s)). k < cl_next_id s" using assms(1) by (simp add: ids_below_def)
    show ?thesis using assms(1) old next_id unfolding ids_below_def e by (auto simp: word_less_nat_alt less_Suc_eq)
  qed (rule ids_below_same [OF assms(1)])
qed

lemma cli_command_below:
  assumes "ids_below n s" "Suc n < 2 ^ 64 - 1" "tk ! 0 \<noteq> ''.open''" "cli_command mem tk s = Some (out, s')"
  shows "ids_below (Suc n) s'"
  using assms(4) unfolding cli_command_def Let_def
  by (elim ifE bind_someE)
    (use assms(1-3) in \<open>auto simp: say_eq intro: ids_below_Suc ids_below_same cli_load_below dest!: cli_save_ids cli_settings_ids\<close>)

definition no_open :: "string list \<Rightarrow> bool" where
  "no_open lines \<longleftrightarrow> list_all (\<lambda>raw. let tk = split_ws (cli_trim raw) in tk = [] \<or> tk ! 0 \<noteq> ''.open'') lines"

lemma dot_line_tokens: "cli_trim raw \<noteq> [] \<Longrightarrow> hd (cli_trim raw) = CHR ''.'' \<Longrightarrow> split_ws (cli_trim raw) \<noteq> []"
  by (subst split_ws.simps) (cases "cli_trim raw"; simp add: isspace_def Let_def)

lemma repl_loop_below:
  assumes "repl_loop mem clk us i lines out s = Some (out', s')" "ids_below n s" "no_open lines" "n + length lines < 2 ^ 64 - 1"
  shows "ids_below (n + length lines) s'"
  using assms
proof (induction lines arbitrary: i out s n)
  case (Cons raw lines)
  have step: "ids_below (n + length (raw # lines)) s'" if "repl_loop mem clk us (Suc i) lines out1 s1 = Some (out', s')" "ids_below (Suc n) s1" for out1 s1
    using Cons.IH [OF that] Cons.prems(3,4) by (simp add: no_open_def)
  have small: "Suc n < 2 ^ 64 - 1" using Cons.prems(4) by simp
  have cmd: "split_ws (cli_trim raw) ! 0 \<noteq> ''.open''" if "cli_trim raw \<noteq> []" "hd (cli_trim raw) = CHR ''.''"
    using Cons.prems(3) dot_line_tokens [OF that] by (auto simp: no_open_def Let_def)
  have skip: "ids_below (n + length (raw # lines)) s" using Cons.prems(2) by (simp add: ids_below_def)
  from Cons.prems(1) show ?case
    unfolding repl_loop.simps Let_def
  proof (elim ifE bind_someE case_pairE)
    assume "repl_loop mem clk us (Suc i) lines out s = Some (out', s')"
    then show ?thesis using ids_below_Suc [OF Cons.prems(2)] by (rule step)
  next
    fix a t s1 assume "cli_query (clk i) (us i) (cli_trim raw) s = Some a" "a = (t, s1)" "repl_loop mem clk us (Suc i) lines (out @ t) s1 = Some (out', s')"
    then show ?thesis using cli_query_ids ids_below_same [OF Cons.prems(2)] step by blast
  next
    assume "Some (out, s) = Some (out', s')"
    then show ?thesis using skip by simp
  next
    fix a t s1 assume c: "\<not> (cli_trim raw = [] \<or> hd (cli_trim raw) = CHR ''#'')" "\<not> hd (cli_trim raw) \<noteq> CHR ''.''"
      "cli_command mem (split_ws (cli_trim raw)) s = Some a" "a = (t, s1)" "repl_loop mem clk us (Suc i) lines (out @ t) s1 = Some (out', s')"
    then have "ids_below (Suc n) s1" using cli_command_below [OF Cons.prems(2) small cmd] by simp
    with c(5) show ?thesis by (rule step)
  qed
qed simp

lemma fresh_load:
  assumes "ids_below n s" "\<not> length tk < 4" "tk ! 3 \<noteq> ''str''"
  shows "cli_load tk s \<noteq> None"
proof -
  have new: "cl_next_id s \<noteq> 0" "map_of (ce_catalog (cl_engine s)) (cl_next_id s) = None"
    using assms(1) by (auto simp: ids_below_def map_of_eq_None_iff)
  have c: "\<exists>ok ce1. m = Some (ok, ce1) \<and> (ok \<longrightarrow> map_of (ce_catalog ce1) (cl_next_id s) \<noteq> None)" if "csv_load tk s = Some m" for m
    using that assms(3) new unfolding csv_load_def Let_def
    by (elim case_pairE ifE)
      (auto simp: load_column_from_csv_def load_column_from_csv_i64_def load_column_from_csv_f64_def
        load_scan_column_def load_scan_column_i64_def load_scan_column_f64_def load_bytes_def split: option.split)
  have "load_outcome bad failed loaded tk s \<noteq> None" for bad failed loaded
    unfolding load_outcome_def using c new(1)
    by (cases "csv_load tk s") (auto simp: say_def name_column_def catalog_has_def column_rows_def column_at_def)
  then show ?thesis using cli_load_eq [OF assms(2), of s] by metis
qed

text \<open>
  C34. The shell never loads over a column. In a session that starts on an empty catalog and does not
  open a snapshot, whatever else its lines do (queries, failed and successful loads, saves), the id the
  next \<open>.load\<close> will use is above every id of the catalog. So \<open>.load\<close> never hits the duplicate-id
  assertion: it comes back, with the column or with an error message (for the string type too, unless
  a file has \<open>2 ^ 32\<close> different strings).
\<close>

theorem shell_ids_fresh:
  assumes "matrix_repl mem clk us input d (catalog_init cap room) = Some (out, s)"
    and "no_open (getlines input)" "length (getlines input) < 2 ^ 64 - 1"
  shows "(\<forall>k \<in> set (map fst (ce_catalog (cl_engine s))). k < cl_next_id s) \<and>
    (4 \<le> length tk \<and> tk ! 3 \<noteq> ''str'' \<longrightarrow> (\<exists>out' s'. cli_load tk s = Some (out', s')))"
proof -
  have "ids_below 0 (cli_start d (catalog_init cap room))" by (simp add: ids_below_def cli_start_def catalog_init_def)
  from repl_loop_below [OF assms(1) [unfolded matrix_repl_def] this assms(2)] assms(3)
  have "ids_below (length (getlines input)) s" by simp
  then show ?thesis using fresh_load [of _ s tk] by (auto simp: ids_below_def)
qed

theorem shell_ids_fresh_witness:
  "\<exists>out s out' s'. matrix_repl 100 (\<lambda>_ _. 0) (\<lambda>_. 0) (''.mode csv'' @ newline @ ''.timing'' @ newline)
      \<lparr>dk_files = [''f'' \<mapsto> string_bytes (''v'' @ newline @ ''5'' @ newline)], dk_writable = (\<lambda>_. True), dk_quota = (\<lambda>_. 1000), dk_eager = (\<lambda>_ _. False)\<rparr>
      (catalog_init 1000 1000) = Some (out, s) \<and> cli_load [''.load'', ''f'', ''b'', ''u32''] s = Some (out', s')"
proof -
  let ?in = "''.mode csv'' @ newline @ ''.timing'' @ newline"
  let ?d = "\<lparr>dk_files = [''f'' \<mapsto> string_bytes (''v'' @ newline @ ''5'' @ newline)], dk_writable = (\<lambda>_. True), dk_quota = (\<lambda>_. 1000), dk_eager = (\<lambda>_ _. False)\<rparr>"
  have "\<not> Option.is_none (matrix_repl 100 (\<lambda>_ _. 0) (\<lambda>_. 0) ?in ?d (catalog_init 1000 1000))" by code_simp
  then obtain out s where r: "matrix_repl 100 (\<lambda>_ _. 0) (\<lambda>_. 0) ?in ?d (catalog_init 1000 1000) = Some (out, s)"
    by (cases "matrix_repl 100 (\<lambda>_ _. 0) (\<lambda>_. 0) ?in ?d (catalog_init 1000 1000)") auto
  have n: "no_open (getlines ?in)" "length (getlines ?in) = 2" by code_simp+
  then have "length (getlines ?in) < 2 ^ 64 - 1" by (simp only: n(2)) simp
  from shell_ids_fresh [OF r n(1) this, of "[''.load'', ''f'', ''b'', ''u32'']"] r show ?thesis by auto
qed

end
