(* ===== verification/Client.thy ===== *)
theory Client
  imports Concurrent_Server Snapshot
begin

text \<open>
  The client driver (\<open>client.hpp\<close>): typed calls that frame a request, send it, read the framed response
  and decode it. A connection is the client's end: what the server is going to send, what the socket
  accepts, and what has been sent. Outputs are arguments that a failing call leaves alone.
\<close>

section \<open>The driver\<close>

definition client_authenticate :: "string \<Rightarrow> conn \<Rightarrow> bool \<times> conn" where
  "client_authenticate token c =
     (let len = of_nat (length token) :: u32; (ok, c1) = conn_send (u32_bytes len) c in
      if \<not> ok then (False, c1)
      else if len = 0 then (True, c1) else conn_send (take (unat len) (string_bytes token)) c1)"

definition round_trip :: "matrix_request \<Rightarrow> matrix_response \<Rightarrow> conn \<Rightarrow> bool \<times> matrix_response \<times> conn" where
  "round_trip req resp c =
     (let rb = matrix_serialize_request req; len = of_nat (length rb) :: u32; (ok1, c1) = conn_send (u32_bytes len) c in
      if \<not> ok1 then (False, resp, c1)
      else let (ok2, c2) = (if len \<noteq> 0 then conn_send (take (unat len) rb) c1 else (True, c1)) in
        if \<not> ok2 then (False, resp, c2)
        else case recv_all 4 (co_in c2) of None \<Rightarrow> (False, resp, c2\<lparr>co_in := []\<rparr>)
          | Some (lb, cs1) \<Rightarrow>
              let rlen = le_decode lb :: u32 in
              if rlen > push_bit 28 1 then (False, resp, c2\<lparr>co_in := cs1\<rparr>)
              else case (if rlen \<noteq> 0 then recv_all (unat rlen) cs1 else Some ([], cs1)) of
                None \<Rightarrow> (False, resp, c2\<lparr>co_in := []\<rparr>)
              | Some (respb, cs2) \<Rightarrow>
                  let (ok, resp') = matrix_deserialize_response respb resp in (ok, resp', c2\<lparr>co_in := cs2\<rparr>))"

definition client_get :: "u64 \<Rightarrow> u64 \<Rightarrow> conn \<Rightarrow> bool \<times> u64 \<times> conn" where
  "client_get key out c =
     (let (ok, resp, c') = round_trip (default_request\<lparr>rq_kind := GET, rq_key := key\<rparr>) default_response c in
      if \<not> ok \<or> rs_status resp \<noteq> 0 \<or> rs_results resp = [] then (False, out, c') else (True, rs_results resp ! 0, c'))"

definition client_put :: "u64 \<Rightarrow> u64 \<Rightarrow> conn \<Rightarrow> bool \<times> conn" where
  "client_put key v c =
     (let (ok, resp, c') = round_trip (default_request\<lparr>rq_kind := PUT, rq_key := key, rq_value := v\<rparr>) default_response c in
      (ok \<and> rs_status resp = 0, c'))"

text \<open>The status stays the number of the reply: the cast to the enumeration does not check it.\<close>

definition client_query :: "matrix_query \<Rightarrow> u32 \<Rightarrow> u64 list \<Rightarrow> conn \<Rightarrow> bool \<times> u32 \<times> u64 list \<times> conn" where
  "client_query q st out c =
     (let (ok, resp, c') = round_trip (default_request\<lparr>rq_kind := QUERY, rq_query := q\<rparr>) default_response c in
      if \<not> ok then (False, st, out, c') else (True, rs_status resp, rs_results resp, c'))"

definition client_health :: "health_status \<Rightarrow> conn \<Rightarrow> bool \<times> health_status \<times> conn" where
  "client_health out c =
     (let (ok, resp, c') = round_trip (default_request\<lparr>rq_kind := HEALTH\<rparr>) default_response c; f = rs_results resp in
      if \<not> ok \<or> rs_status resp \<noteq> 0 \<or> length f \<noteq> 6 then (False, out, c')
      else (True, \<lparr>hs_ready = (f ! 0 \<noteq> 0), hs_durable = (f ! 1 \<noteq> 0), hs_catalog_columns = unat (f ! 2), hs_host_resident_bytes = f ! 3,
                   hs_wal_records_pending = f ! 4, hs_dropped_writes = f ! 5\<rparr>, c'))"

definition client_stats :: "u64 list \<Rightarrow> conn \<Rightarrow> bool \<times> u64 list \<times> conn" where
  "client_stats out c =
     (let (ok, resp, c') = round_trip (default_request\<lparr>rq_kind := STATS\<rparr>) default_response c in
      if \<not> ok \<or> rs_status resp \<noteq> 0 \<or> length (rs_results resp) \<noteq> 12 then (False, out, c') else (True, rs_results resp, c'))"

definition server_version :: "conn \<Rightarrow> u64 \<times> conn" where
  "server_version c = (let (ok, s, c') = client_stats [] c in (if ok then s ! 11 else 0, c'))"

section \<open>Client and server together\<close>

lemma round_trip_whole:
  assumes "conn_holds c (frame (matrix_serialize_response resp)) (length (frame (matrix_serialize_request req)))"
    "length (matrix_serialize_request req) < 2 ^ 32" "length (matrix_serialize_response resp) \<le> 2 ^ 28"
  shows "\<exists>c'. round_trip req default_response c = (True, resp, c') \<and> co_out c' = co_out c @ frame (matrix_serialize_request req)"
proof -
  let ?rb = "matrix_serialize_request req" and ?pb = "matrix_serialize_response resp"
  have len: "unat (of_nat (length ?rb) :: u32) = length ?rb" "unat (of_nat (length ?pb) :: u32) = length ?pb"
    using assms(2,3) by (simp_all add: unat_of_nat_small)
  have "conn_holds c (frame ?pb) (length (u32_bytes (of_nat (length ?rb))) + (length ?rb + 0))" using assms(1) by (simp add: frame_def)
  from conn_send_holds [OF this] obtain c1 where c1: "conn_send (u32_bytes (of_nat (length ?rb))) c = (True, c1)"
    "conn_holds c1 (frame ?pb) (length ?rb + 0)" "co_out c1 = co_out c @ u32_bytes (of_nat (length ?rb))" by auto
  from conn_send_holds [OF c1(2)] obtain c2 where c2: "conn_send ?rb c1 = (True, c2)" "conn_holds c2 (frame ?pb @ []) 0" "co_out c2 = co_out c1 @ ?rb" by auto
  have z: "of_nat (length ?rb) = (0 :: u32) \<longleftrightarrow> ?rb = []" using of_nat_len_zero [OF len(1)] by (simp only: length_0_conv)
  have ne: "?rb \<noteq> []" by (simp add: matrix_serialize_request_def Let_def)
  obtain cs1 cs2 where r: "recv_all 4 (co_in c2) = Some (u32_bytes (of_nat (length ?pb)), cs1)"
    "(if (of_nat (length ?pb) :: u32) \<noteq> 0 then recv_all (length ?pb) cs1 else Some ([], cs1)) = Some (?pb, cs2)"
    using conn_recv_frame [OF c2(2)] assms(3) by auto
  have "0 < length ?pb" by (simp add: matrix_serialize_response_def)
  then have "?pb \<noteq> []" by auto
  then have "of_nat (length ?pb) \<noteq> (0 :: u32)" using of_nat_len_zero [OF len(2)] by (simp only: length_0_conv not_False_eq_True)
  note nz = this r(2) [unfolded if_P [OF this]]
  have cap: "\<not> of_nat (length ?pb) > (push_bit 28 1 :: u32)" using assms(3) len(2) by (simp add: word_less_nat_alt push_bit_eq_mult)
  have "length (rs_results resp) \<le> 2 ^ 28" using assms(3) by (simp add: matrix_serialize_response_def)
  from deserialize_response_bytes [OF this] have d: "matrix_deserialize_response ?pb default_response = (True, resp)" .
  have "round_trip req default_response c = (True, resp, c2\<lparr>co_in := cs2\<rparr>)"
    using c1(1) c2(1) z ne r(1) nz cap d by (simp add: round_trip_def Let_def len)
  then show ?thesis using c1(3) c2(3) by (simp add: frame_def)
qed

text \<open>
  C32. The typed calls of the client give what the database specification says. When the server reads the
  request the client sends and the client reads the reply the server sends, in whatever chunks, an
  authorised call succeeds: \<open>get\<close> returns the stored value or reports a missing key, \<open>put\<close> reports success
  and the store has the new pair, and \<open>query\<close> returns the status and the results of the answer to the
  query.
\<close>

theorem client_calls_correct:
  assumes "serve_ready eng" "matrix_serve ns policy who (matrix_serialize_request r) eng = Some (reply, eng')"
    and "authorized policy who r" "q_cmp (rq_query r) \<le> CMP_BETWEEN" "length reply \<le> 2 ^ 28"
    and "conn_holds sc (frame (matrix_serialize_request r)) (length (frame reply))"
    and "conn_holds c (frame reply) (length (frame (matrix_serialize_request r)))"
  shows "(\<exists>sc'. matrix_serve_conn ns policy who eng sc = Some (True, eng', sc') \<and> co_out sc' = co_out sc @ frame reply) \<and>
    (\<exists>resp c'. round_trip r default_response c = (True, resp, c') \<and> co_out c' = co_out c @ frame (matrix_serialize_request r)) \<and>
    (\<forall>k out. r = default_request\<lparr>rq_kind := GET, rq_key := k\<rparr> \<longrightarrow>
      fst (client_get k out c) = (pe_map (eng_point eng) k \<noteq> None) \<and> fst (snd (client_get k out c)) = the_default out (pe_map (eng_point eng) k)) \<and>
    (\<forall>k v. r = default_request\<lparr>rq_kind := PUT, rq_key := k, rq_value := v\<rparr> \<longrightarrow>
      fst (client_put k v c) \<and> pe_map (eng_point eng') = (pe_map (eng_point eng))(k \<mapsto> v)) \<and>
    (\<forall>q st out. r = default_request\<lparr>rq_kind := QUERY, rq_query := q\<rparr> \<longrightarrow>
      fst (client_query q st out c) \<and> fst (snd (client_query q st out c)) = query_status_code (fst (answer (logical (eng_catalog eng)) q)) \<and>
      fst (snd (snd (client_query q st out c))) = snd (answer (logical (eng_catalog eng)) q))"
proof -
  have dec: "decoded (matrix_serialize_request r) = Some r" using assms(4) by (rule decoded_serialize)
  have "serve_call policy (ns, who, matrix_serialize_request r) eng = Some (reply, eng')" using assms(2) by (simp add: serve_call_def)
  from core.serve_conforms [OF assms(1) this] have "serve_spec policy (who, matrix_serialize_request r) (db_view eng) reply (db_view eng')" by simp
  then obtain resp where resp: "reply = matrix_serialize_response resp" "request_spec r (db_view eng) resp (db_view eng')"
    using assms(3) dec by (auto simp: serve_spec_def)
  have len: "length (matrix_serialize_request r) = 106" by (simp add: matrix_serialize_request_def Let_def)
  obtain c' where c': "round_trip r default_response c = (True, resp, c')" "co_out c' = co_out c @ frame (matrix_serialize_request r)"
    using round_trip_whole [of c resp r] assms(5,7) len resp(1) by auto
  have "\<exists>sc'. serve_frame (matrix_serve ns policy who) eng sc = Some (True, eng', sc') \<and> conn_holds sc' [] 0 \<and> co_out sc' = co_out sc @ frame reply"
    by (rule serve_frame_whole [of _ "matrix_serialize_request r"]) (use assms(2,5,6) len in simp_all)
  then have "\<exists>sc'. matrix_serve_conn ns policy who eng sc = Some (True, eng', sc') \<and> co_out sc' = co_out sc @ frame reply"
    unfolding matrix_serve_conn_def by blast
  then show ?thesis using resp(2) c'
    by (auto simp: client_get_def client_put_def client_query_def request_spec_def db_view_def the_default_def split: option.splits)
qed

theorem client_calls_correct_witness:
  "\<exists>eng eng' sc c. serve_ready eng \<and> conn_holds sc (frame (matrix_serialize_request (default_request\<lparr>rq_kind := PUT, rq_key := 7, rq_value := 70\<rparr>))) 16 \<and>
    matrix_serve_conn 0 permissive 1 eng sc \<noteq> None \<and> fst (client_put 7 70 c) \<and> pe_map (eng_point (eng' :: cpu_engine)) 7 = Some 70"
proof -
  let ?r = "default_request\<lparr>rq_kind := PUT, rq_key := 7, rq_value := 70\<rparr>"
  let ?b = "matrix_serialize_request ?r"
  obtain pe where pe: "pe_map pe = Map.empty" "serve_ready \<lparr>eng_point = pe, eng_catalog = catalog_init 10 10\<rparr>" by (rule fresh_engine)
  let ?e = "\<lparr>eng_point = pe, eng_catalog = catalog_init 10 10\<rparr>"
  have cmp: "q_cmp (rq_query ?r) \<le> CMP_BETWEEN" by (simp add: default_request_def)
  have d: "decoded ?b = Some ?r" using cmp by (rule decoded_serialize)
  have "serve_able (0, 1, ?b) ?e" by (simp add: serve_able_def d pe(1))
  from core.serve_returns [OF pe(2) this] obtain reply eng' where "serve_call permissive (0, 1, ?b) ?e = Some (reply, eng')" by fast
  note s = this core.serve_conforms [OF pe(2) this]
  have auth: "authorized permissive 1 ?r" by (simp add: authorized_def can_write_def permissive_def)
  have "reply = matrix_serialize_response \<lparr>rs_status = 0, rs_results = []\<rparr>" using s(2) d auth by (auto simp: serve_spec_def request_spec_def)
  then have len: "length reply = 12" "length (frame reply) = 16" by (simp_all add: matrix_serialize_response_def frame_def)
  have req: "length ?b = 106" by (simp add: matrix_serialize_request_def Let_def)
  define sc where "sc = \<lparr>co_in = [frame ?b], co_accepts = replicate 16 1, co_out = []\<rparr>"
  define c where "c = \<lparr>co_in = [frame reply], co_accepts = replicate 110 1, co_out = []\<rparr>"
  have ne: "frame x \<noteq> []" for x
  proof -
    have "0 < length (frame x)" by (simp add: frame_def)
    then show ?thesis by auto
  qed
  have "conn_holds sc (frame ?b) 16" "conn_holds c (frame reply) (length (frame ?b))"
    using ne [symmetric] req by (simp_all add: conn_holds_def sc_def c_def) (simp add: frame_def)
  note holds = this
  have "matrix_serve 0 permissive 1 ?b ?e = Some (reply, eng')" using s(1) by (simp add: serve_call_def)
  note all = client_calls_correct [OF pe(2) this auth cmp _ _ holds(2), unfolded len, OF _ holds(1)]
  have "matrix_serve_conn 0 permissive 1 ?e sc \<noteq> None" "fst (client_put 7 70 c) \<and> pe_map (eng_point eng') = (pe_map (eng_point ?e))(7 \<mapsto> 70)"
    using all by auto
  then show ?thesis using pe(2) holds(1)
    by (intro exI [of _ ?e] exI [of _ eng'] exI [of _ sc] exI [of _ c]) simp
qed

end
