(* ===== verification/Spec2Isabelle.thy ===== *)
theory Spec2Isabelle
  imports Pipeline Daemon GPU_Engine GPU_Host GPU_Group GPU_Correct GPU_Kernels GPU_Machine CLI_Correct Client CSV_Ingest Snapshot Query_Parser String_Columns Text_Numbers Concurrent_Server Server Query_Ops Query_Engine Catalog_Engine Point_Engine KV_Store Cold_Store Cost_Model Tier_Manager Tiered_Column Types Reduce Batch Ring_Buffer
begin

text \<open>
  \<^bold>\<open>MatrixDB: a verification library.\<close>

  \<^bold>\<open>The program.\<close> MatrixDB is a small database in C++ with two halves. The \<^emph>\<open>point-op\<close> half is a hash
  table of 64-bit keys and values with a write-ahead log, transactions, checkpoints and an ordered
  index. The \<^emph>\<open>analytical\<close> half is a catalog of typed columns that a tier manager moves between RAM
  and SSD, with scans, aggregates, joins, null masks, dictionary-encoded strings and a small query
  language. Around the engine are a server with access control and an audit log, a concurrent
  server, a TCP adapter with its client and daemon, CSV ingestion, snapshots, a shell, and a driver that
  runs a pipeline over the engine and checks itself. The engine and everything above it are modelled as
  in the CPU build (\<open>MATRIX_USE_CUDA\<close> not defined) on a 64-bit little-endian target; the code of the
  CUDA build, its kernels, the reductions that launch them and its point-op engine, is modelled beside
  it and compared with the CPU code it replaces.

  \<^bold>\<open>The theories\<close>, with the sources under \<open>src/\<close> they model, each importing the ones it calls:

  \<^item> \<open>Prelude\<close>, \<open>Bytes\<close>, \<open>Float64\<close>, \<open>Disk\<close>, \<open>Text_Numbers\<close>: machine words and association lists,
    the little-endian layout of integers, IEEE doubles over their 64 bits, files with buffered writes
    that can be short, and the number and character routines of the C library.
  \<^item> \<open>KV_Store\<close> (\<open>kv_store.hpp\<close>), \<open>Cold_Store\<close> (\<open>cold_store.hpp\<close>), \<open>Types\<close> (\<open>types.hpp\<close>,
    \<open>compute.hpp\<close>), \<open>Batch\<close> (page binning of \<open>compute.hpp\<close>), \<open>Point_Engine\<close> (the point-op half of
    \<open>CPUMockEngine\<close>, \<open>compute_mock.cpp\<close>): the record \<open>point_engine\<close> has the members these operations
    use, one definition per member function.
  \<^item> \<open>Cost_Model\<close> (\<open>memory_model.hpp\<close>, \<open>tier_model.hpp\<close>, \<open>cost_model.hpp\<close>, \<open>router.hpp\<close>),
    \<open>Tier_Manager\<close> (\<open>tier_manager.hpp\<close>), \<open>Tiered_Column\<close> (\<open>tiered_column.hpp\<close>,
    \<open>migration_executor.hpp\<close>), \<open>Reduce\<close> (the reducers of \<open>compute.hpp\<close>), \<open>Catalog_Engine\<close>,
    \<open>Query_Engine\<close> and \<open>Query_Ops\<close> (the analytical half of \<open>CPUMockEngine\<close>, record
    \<open>catalog_engine\<close>), \<open>Catalog_Meta\<close> (what these operations leave alone).
  \<^item> \<open>String_Columns\<close> and \<open>Query_Parser\<close> (string columns, tokenizer, parser and string front ends of
    \<open>CPUMockEngine\<close>), \<open>Snapshot\<close> (\<open>column_io.hpp\<close>, catalog snapshots, backup and restore),
    \<open>CSV_Ingest\<close> (\<open>csv_ingest.hpp\<close>).
  \<^item> \<open>Ring_Buffer\<close> (\<open>ring_buffer.hpp\<close>), \<open>Server\<close> (\<open>server.hpp\<close>, \<open>version.hpp\<close>),
    \<open>Concurrent_Server\<close> (\<open>concurrent_server.hpp\<close>, \<open>server_tcp.hpp\<close>), \<open>Client\<close> (\<open>client.hpp\<close>),
    \<open>CLI\<close> and \<open>CLI_Correct\<close> (\<open>matrix_cli.hpp\<close>), \<open>Daemon\<close> (the accept loops of \<open>server_tcp.hpp\<close>,
    \<open>matrixdbd.cpp\<close>, \<open>matrixdb_cli.cpp\<close>, \<open>logging.hpp\<close>).
  \<^item> \<open>GPU_Machine\<close> (blocks, threads, barriers, shared memory and atomic operations under a schedule),
    \<open>GPU_Kernels\<close> and \<open>GPU_Correct\<close> (the scalar kernels of \<open>compute_cuda.cuh\<close>), \<open>GPU_Group\<close> (its grouped
    kernels), \<open>GPU_Host\<close> (the host functions that launch them), \<open>GPU_Engine\<close> (\<open>CUDAGPUEngine\<close> with its page
    kernel, and the benchmarks of both engines), \<open>Pipeline\<close> (\<open>main.cpp\<close>).

  \<^bold>\<open>Errors.\<close> A failed \<open>assert\<close> (the shipped binaries keep them), \<open>std::abort\<close>, an exception nobody
  catches, a read or write outside an array and undefined behaviour are the value \<open>None\<close>. Statuses
  and error returns of the source are values of the result (\<open>query_status\<close>, booleans, sums). Two operations that C++
  leaves undefined have the value that x86-64 gives them instead: the overflow of a signed SUM, which wraps (\<open>i64_add\<close>),
  and the conversion of a double beyond \<open>int\<close> (\<open>f64_to_int32\<close>). Allocation fails where \<open>mem\<close>, \<open>alloc\<close> or \<open>cu_alloc\<close>
  says so, which is where a size comes from outside; the engine's own table and the vectors that results
  are collected in, as the pairs of a join, are taken to be granted.

  \<^bold>\<open>What the lemmas show.\<close>

  \<^item> The store is a bounded map (locale \<open>bounded_map\<close>, interpreted as \<open>kvm\<close>), its constructor
    diverges, throws or returns depending on the capacity and the allocator; the page-binned batch equals the sequential one.
  \<^item> Durability: the log is atomic under a crash at every byte, a crash inside a commit loses or keeps the
    whole transaction, a crash on any of the disks a checkpoint passes through (\<open>checkpoint_run\<close>) loses nothing, and
    recovery restores store and index. Two places where it does not hold are theorems as well: records of a cut-off
    transaction come back with the next commit, and a checkpoint on a full disk loses the store.
  \<^item> Reducers compute the aggregates of the selected rows (locales \<open>aggregate\<close> and
    \<open>linear_aggregate\<close>, interpreted for the three element types), grouped ones per group.
  \<^item> Tiering: a rebalance plan is a chain of moves, evicts until the tier fits, never uses the DEVICE
    tier of the CPU build, and the executor keeps every byte.
  \<^item> Queries: \<open>answer\<close> is the specification over the logical contents of the catalog; the exclusive and
    the shared path compute it whatever tiers the columns are on. Joins, projections, distinct counts, top groups and HAVING have their own
    specifications. Parsing is total and gives well-typed queries; a predicate on strings selects the
    rows whose string compares so.
  \<^item> Serving: every request is answered as \<open>serve_spec\<close> over the abstract database says (locale
    \<open>refined_service\<close>, interpreted as \<open>core\<close> for the single-threaded server and as \<open>conc\<close> for the
    concurrent one), the concurrent server is linearizable in the order of its critical sections, the
    wire form round-trips, the TCP session serves its requests in order whatever the chunks are, and
    the client calls give what the specification says. An acknowledged PUT survives a crash. The daemon
    keeps all of this for any number of connections, with a token nothing is served before the
    handshake, and its start-up fails where the code returns 1.
  \<^item> Persistence of columns: a failed save keeps the previous snapshot, a successful one is complete when the
    disk has room, and on a full disk it may be cut short; backup and restore round-trip, corrupt snapshots abort. The CSV readers equal parsing one column of the split table.
  \<^item> The device: locale \<open>atomic_memory\<close> gives what an atomic operation does to a cell whatever comes in
    between, compare-and-swap loops included (interpreted as \<open>native\<close> and \<open>f64_sum\<close>); \<open>reduction\<close> adds a
    commutative monoid (\<open>u64_sum\<close>, \<open>u64_min\<close>, \<open>u64_max\<close>, \<open>i64_sum\<close>, \<open>i64_min\<close>, \<open>i64_max\<close>, \<open>f64_min\<close>,
    \<open>f64_max\<close>), and \<open>integer_groups\<close> its grouped form (\<open>u64_groups\<close>, \<open>i64_groups\<close>). For every schedule
    the integer reductions equal the CPU reducers; over doubles MIN, MAX and COUNT do up
    to the sign of zero where no NaN is selected, SUM need not, and the inputs where they differ are a
    theorem. A launch cannot hang: the threads make at most a fixed number of moves. A batch on the
    device is some sequential order of its queries.
  \<^item> The driver: the threads interleave at their accesses to the rings; when the pipeline ends the engine is the one
    that executing every query once and in order gives, and the assertions of the benchmark and of the pipeline hold.
  \<^item> The shell: query lines come back and leave the catalog alone, loads never collide, and two kinds
    of lines that take the process down.

  \<^bold>\<open>Bounds and parameters.\<close> The loops of the source are structural recursions or functions with a
  measure. Only three definitions count: \<open>neg_expo\<close> looks for the decimal exponent of a double in at
  most 400 steps (the smallest double has exponent -324), \<open>lat_loop\<close> makes the 39 steps of the
  source, and \<open>round_up_pow2\<close> is a \<open>while_option\<close> that is shown to return. What the program does not
  control is an argument: \<open>dk_quota\<close>, \<open>dk_writable\<close> and \<open>dk_eager\<close> of the disk, \<open>room\<close> for the
  temporary directory, \<open>mem\<close> for the allocator, \<open>clk\<close>, \<open>us\<close> and \<open>ns\<close> for times, the chunks of a
  socket, the record \<open>tcp_setup\<close> of the calls that open one, the record \<open>cuda\<close> of the CUDA runtime (which
  allocations succeed, the schedule of the threads, what uninitialised shared memory holds, the
  architecture), and the interleaving of threads, as the event lists of \<open>Daemon\<close> and \<open>Pipeline\<close>. Hash containers iterate in the order of an association
  list; the statements that need another order say so. Catalog theorems assume columns below
  \<open>2 ^ 53\<close> bytes (\<open>lg_ok\<close>), so that a COUNT over doubles is exact.

  \<^bold>\<open>Not modelled.\<close> In the CUDA build \<open>compute_mock.cpp\<close> and \<open>tiered_column.hpp\<close> have branches that keep
  columns in device memory; the model has the branches of the CPU build there, where the DEVICE tier
  aborts. Of \<open>main.cpp\<close> the pinning of threads, the times and throughput it prints, the measurement of
  hand-off latency and the analytical demonstration are left out. \<open>bench_gpu_roofline.cu\<close> prints the
  bandwidth of a bare kernel and \<open>spike/\<close> is a throw-away network experiment; neither shares code with
  the engine. Messages on the error stream other than the logger's, socket options and timeouts are
  system calls without an effect on the state. \<open>fsync\<close> has no effect in the model: a crash leaves what
  the files hold. The memory orders of the ring buffer, of the counters and of the device are modelled
  by sequentially consistent interleavings, and a critical section of the server is one step.
\<close>

end
